(* ===== verification/CF_Prelude.thy ===== *)
theory CF_Prelude
  imports Main "HOL-Library.Word"
begin

text \<open>
  Shared vocabulary of the CommonFoundry development.

  \<^item> Machine integers: a Rust \<open>uN\<close> is an \<open>N word\<close>; \<open>usize\<close> is \<open>nat\<close> with the 64-bit bound
    written out where the source checks it. The checked and saturating operations of the
    standard library are defined here.
  \<^item> \<open>outcome\<close>: what a call of a fallible Rust function does. It returns \<open>Ok\<close> or \<open>Err\<close>, it
    panics (an index, slice or subtraction out of range), or it never returns (a rejection
    sampling loop that is never satisfied). \<open>obind\<close> is the question mark operator.
  \<^item> Byte strings: little- and big-endian encodings, and the lexicographic order in which Rust
    compares byte arrays.
  \<^item> \<open>crypto\<close>: the operations of the crates \<open>blake3\<close> and \<open>k256\<close> the program calls. They are
    parameters; \<open>crypto_ok\<close> names what the code relies on of their documented behaviour.
\<close>

section \<open>Collections of rules\<close>

named_theorems outcome_simps \<open>case analysis of sequenced outcomes\<close>
named_theorems le_simps \<open>little-endian encodings of machine integers\<close>
named_theorems checked_simps \<open>unfolding of checked machine arithmetic\<close>

section \<open>Types\<close>

type_synonym byte = "8 word"
type_synonym u8 = "8 word"
type_synonym u16 = "16 word"
type_synonym u32 = "32 word"
type_synonym u64 = "64 word"
type_synonym u128 = "128 word"
type_synonym u256 = "256 word"
type_synonym u512 = "512 word"
type_synonym hash32 = "byte list"

abbreviation u32_max :: u32 where "u32_max \<equiv> 0xffffffff"
abbreviation usize_limit :: nat where "usize_limit \<equiv> 2 ^ 64"

section \<open>Outcomes of fallible calls\<close>

datatype ('e, 'a) outcome = Ok 'a | Err 'e | Panic | Diverge

fun obind :: "('e, 'a) outcome \<Rightarrow> ('a \<Rightarrow> ('e, 'b) outcome) \<Rightarrow> ('e, 'b) outcome" where
  "obind (Ok x) f = f x"
| "obind (Err e) f = Err e"
| "obind Panic f = Panic"
| "obind Diverge f = Diverge"

fun map_err :: "('e \<Rightarrow> 'f) \<Rightarrow> ('e, 'a) outcome \<Rightarrow> ('f, 'a) outcome" where
  "map_err g (Ok x) = Ok x"
| "map_err g (Err e) = Err (g e)"
| "map_err g Panic = Panic"
| "map_err g Diverge = Diverge"

fun or_else :: "('e, 'a) outcome \<Rightarrow> ('e \<Rightarrow> ('f, 'a) outcome) \<Rightarrow> ('f, 'a) outcome" where
  "or_else (Ok x) f = Ok x"
| "or_else (Err e) f = f e"
| "or_else Panic f = Panic"
| "or_else Diverge f = Diverge"

definition ok_or :: "'e \<Rightarrow> 'a option \<Rightarrow> ('e, 'a) outcome" where
  "ok_or e m = (case m of None \<Rightarrow> Err e | Some x \<Rightarrow> Ok x)"

definition returns :: "('e, 'a) outcome \<Rightarrow> bool" where
  "returns m = (case m of Ok _ \<Rightarrow> True | Err _ \<Rightarrow> True | Panic \<Rightarrow> False | Diverge \<Rightarrow> False)"

text \<open>Fallible loops over the elements of a slice, left to right.\<close>

fun ofold :: "('s \<Rightarrow> 'a \<Rightarrow> ('e, 's) outcome) \<Rightarrow> 's \<Rightarrow> 'a list \<Rightarrow> ('e, 's) outcome" where
  "ofold f s [] = Ok s"
| "ofold f s (x # xs) = obind (f s x) (\<lambda>s'. ofold f s' xs)"

fun omap :: "('a \<Rightarrow> ('e, 'b) outcome) \<Rightarrow> 'a list \<Rightarrow> ('e, 'b list) outcome" where
  "omap f [] = Ok []"
| "omap f (x # xs) = obind (f x) (\<lambda>y. obind (omap f xs) (\<lambda>ys. Ok (y # ys)))"

section \<open>Checked machine arithmetic\<close>

definition checked_add :: "'a::len word \<Rightarrow> 'a word \<Rightarrow> 'a word option" where
  "checked_add a b = (if unat a + unat b < 2 ^ LENGTH('a) then Some (a + b) else None)"

definition checked_sub :: "'a::len word \<Rightarrow> 'a word \<Rightarrow> 'a word option" where
  "checked_sub a b = (if b \<le> a then Some (a - b) else None)"

definition checked_mul :: "'a::len word \<Rightarrow> 'a word \<Rightarrow> 'a word option" where
  "checked_mul a b = (if unat a * unat b < 2 ^ LENGTH('a) then Some (a * b) else None)"

definition saturating_add :: "'a::len word \<Rightarrow> 'a word \<Rightarrow> 'a word" where
  "saturating_add a b = (if unat a + unat b < 2 ^ LENGTH('a) then a + b else - 1)"

definition saturating_sub :: "'a::len word \<Rightarrow> 'a word \<Rightarrow> 'a word" where
  "saturating_sub a b = (if b \<le> a then a - b else 0)"

definition usize_add :: "nat \<Rightarrow> nat \<Rightarrow> nat option" where
  "usize_add a b = (if a + b < usize_limit then Some (a + b) else None)"

definition usize_mul :: "nat \<Rightarrow> nat \<Rightarrow> nat option" where
  "usize_mul a b = (if a * b < usize_limit then Some (a * b) else None)"

definition wrap_i64 :: "int \<Rightarrow> int" where
  "wrap_i64 x = (x + 2 ^ 63) mod 2 ^ 64 - 2 ^ 63"

text \<open>Indexing, slicing and subtraction of \<open>usize\<close> panic out of range.\<close>

definition index_or_panic :: "'a list \<Rightarrow> nat \<Rightarrow> ('e, 'a) outcome" where
  "index_or_panic xs i = (if i < length xs then Ok (xs ! i) else Panic)"

definition slice_or_panic :: "'a list \<Rightarrow> nat \<Rightarrow> nat \<Rightarrow> ('e, 'a list) outcome" where
  "slice_or_panic xs i j =
     (if i \<le> j \<and> j \<le> length xs then Ok (take (j - i) (drop i xs)) else Panic)"

definition usize_sub_or_panic :: "nat \<Rightarrow> nat \<Rightarrow> ('e, nat) outcome" where
  "usize_sub_or_panic a b = (if b \<le> a then Ok (a - b) else Panic)"

section \<open>Byte encodings\<close>

fun nat_le :: "nat \<Rightarrow> nat \<Rightarrow> byte list" where
  "nat_le 0 x = []"
| "nat_le (Suc n) x = word_of_nat (x mod 256) # nat_le n (x div 256)"

fun le_nat :: "byte list \<Rightarrow> nat" where
  "le_nat [] = 0"
| "le_nat (b # bs) = unat b + 256 * le_nat bs"

definition to_le_bytes :: "'a::len word \<Rightarrow> byte list" where
  "to_le_bytes w = nat_le (LENGTH('a) div 8) (unat w)"

definition from_le_bytes :: "byte list \<Rightarrow> 'a::len word" where
  "from_le_bytes bs = word_of_nat (le_nat bs)"

definition be_nat :: "byte list \<Rightarrow> nat" where
  "be_nat bs = le_nat (rev bs)"

definition from_big_endian :: "byte list \<Rightarrow> 'a::len word" where
  "from_big_endian bs = word_of_nat (be_nat bs)"

definition to_big_endian :: "'a::len word \<Rightarrow> byte list" where
  "to_big_endian w = rev (to_le_bytes w)"

text \<open>Rust orders arrays lexicographically.\<close>

fun lex_le :: "byte list \<Rightarrow> byte list \<Rightarrow> bool" where
  "lex_le [] ys = True"
| "lex_le (x # xs) [] = False"
| "lex_le (x # xs) (y # ys) = (x < y \<or> x = y \<and> lex_le xs ys)"

definition zero32 :: hash32 where
  "zero32 = replicate 32 0"

definition bytes_of_string :: "string \<Rightarrow> byte list" where
  "bytes_of_string s = map (\<lambda>c. word_of_nat (of_char c)) s"

section \<open>The cryptographic crates\<close>

text \<open>
  \<open>b3_derive ctx m\<close> is BLAKE3 in key-derivation mode with context string \<open>ctx\<close> over the
  concatenation \<open>m\<close> of everything passed to \<open>update\<close>; \<open>b3_hash\<close> is plain BLAKE3; \<open>b3_xof\<close> gives
  the first bytes of the extendable output of the derived hash.
  \<open>key_from_bytes\<close> and \<open>sig_from_bytes\<close> say whether \<open>VerifyingKey::from_bytes\<close> and
  \<open>Signature::try_from\<close> accept a byte string, \<open>schnorr_verify\<close> is \<open>Verifier::verify\<close>, and
  \<open>verifying_key\<close>, \<open>schnorr_sign\<close> are the signing side.
\<close>

record crypto =
  b3_derive :: "string \<Rightarrow> byte list \<Rightarrow> byte list"
  b3_hash :: "byte list \<Rightarrow> byte list"
  b3_xof :: "string \<Rightarrow> byte list \<Rightarrow> nat \<Rightarrow> byte list"
  key_from_bytes :: "byte list \<Rightarrow> bool"
  sig_from_bytes :: "byte list \<Rightarrow> bool"
  schnorr_verify :: "byte list \<Rightarrow> byte list \<Rightarrow> byte list \<Rightarrow> bool"
  verifying_key :: "byte list \<Rightarrow> byte list"
  schnorr_sign :: "byte list \<Rightarrow> byte list \<Rightarrow> byte list"

text \<open>Digests have 32 bytes and the extendable output has the length asked for.\<close>

definition crypto_ok :: "crypto \<Rightarrow> bool" where
  "crypto_ok C \<longleftrightarrow>
     (\<forall>d m. length (b3_derive C d m) = 32) \<and> (\<forall>m. length (b3_hash C m) = 32) \<and>
     (\<forall>d m n. length (b3_xof C d m n) = n)"

text \<open>A signing key's signatures are 64 bytes long, well formed and verify under its public key.\<close>

definition signer_ok :: "crypto \<Rightarrow> byte list \<Rightarrow> bool" where
  "signer_ok C sk \<longleftrightarrow> key_from_bytes C (verifying_key C sk) \<and> length (verifying_key C sk) = 32 \<and>
     (\<forall>m. length (schnorr_sign C sk m) = 64 \<and> sig_from_bytes C (schnorr_sign C sk m) \<and>
       schnorr_verify C (verifying_key C sk) m (schnorr_sign C sk m))"

text \<open>
  A concrete instance for evaluating the model on examples: a digest that depends only on the
  domain of the hash, and a signature that is a constant string.
\<close>

definition demo_crypto :: crypto where
  "demo_crypto = \<lparr>
     b3_derive = (\<lambda>d m. replicate 32 (word_of_nat (length d))),
     b3_hash = (\<lambda>m. replicate 32 2),
     b3_xof = (\<lambda>d m n. replicate n 5),
     key_from_bytes = (\<lambda>k. length k = 32),
     sig_from_bytes = (\<lambda>s. length s = 64),
     schnorr_verify = (\<lambda>k m s. s = replicate 64 7),
     verifying_key = (\<lambda>sk. take 32 (sk @ replicate 32 0)),
     schnorr_sign = (\<lambda>sk m. replicate 64 7)\<rparr>"

section \<open>Lemmas on outcomes\<close>

lemma obind_eq_Ok [simp, outcome_simps]: "obind m f = Ok y \<longleftrightarrow> (\<exists>x. m = Ok x \<and> f x = Ok y)"
  by (cases m) auto

lemma obind_eq_Err [outcome_simps]:
  "obind m f = Err e \<longleftrightarrow> m = Err e \<or> (\<exists>x. m = Ok x \<and> f x = Err e)"
  by (cases m) auto

lemma obind_Ok_right [simp]: "obind m Ok = m"
  by (cases m) auto

lemma obind_assoc: "obind (obind m f) g = obind m (\<lambda>x. obind (f x) g)"
  by (cases m) auto

lemma obind_cong [fundef_cong]:
  "m = m' \<Longrightarrow> (\<And>x. m' = Ok x \<Longrightarrow> f x = f' x) \<Longrightarrow> obind m f = obind m' f'"
  by (cases m') auto

lemma map_err_eq_Ok [simp, outcome_simps]: "map_err g m = Ok x \<longleftrightarrow> m = Ok x"
  by (cases m) auto

lemma or_else_eq_Ok [outcome_simps]:
  "or_else m f = Ok x \<longleftrightarrow> m = Ok x \<or> (\<exists>e. m = Err e \<and> f e = Ok x)"
  by (cases m) auto

lemma ok_or_eq_Ok [simp, outcome_simps]: "ok_or e m = Ok x \<longleftrightarrow> m = Some x"
  by (auto simp: ok_or_def split: option.splits)

lemma ok_or_simps [simp]: "ok_or e (Some x) = Ok x" "ok_or e None = Err e"
  by (simp_all add: ok_or_def)

lemma ok_or_eq_Err [outcome_simps]: "ok_or e m = Err e' \<longleftrightarrow> m = None \<and> e' = e"
  by (auto simp: ok_or_def split: option.splits)

lemma if_Err_eq_Ok [simp, outcome_simps]:
  "(if b then Err e else m) = Ok x \<longleftrightarrow> \<not> b \<and> m = Ok x"
  "(if b then m else Err e) = Ok x \<longleftrightarrow> b \<and> m = Ok x"
  "(if b then Panic else m) = Ok x \<longleftrightarrow> \<not> b \<and> m = Ok x"
  "(if b then m else Panic) = Ok x \<longleftrightarrow> b \<and> m = Ok x"
  by auto

lemma returns_simps [simp]:
  "returns (Ok x)" "returns (Err e)" "\<not> returns Panic" "\<not> returns Diverge"
  by (simp_all add: returns_def)

lemma returns_obind: "returns m \<Longrightarrow> (\<And>x. m = Ok x \<Longrightarrow> returns (f x)) \<Longrightarrow> returns (obind m f)"
  by (cases m) (auto simp: returns_def)

lemma returns_map_err [simp]: "returns (map_err g m) = returns m"
  by (cases m) auto

lemma returns_ok_or [simp]: "returns (ok_or e m)"
  by (cases m) (auto simp: ok_or_def)

lemma returns_ofold:
  "(\<And>s x. P s \<Longrightarrow> returns (f s x)) \<Longrightarrow> (\<And>s x s'. P s \<Longrightarrow> f s x = Ok s' \<Longrightarrow> P s') \<Longrightarrow> P s \<Longrightarrow>
     returns (ofold f s xs)"
proof (induction xs arbitrary: s)
  case (Cons x xs)
  show ?case
    unfolding ofold.simps
    by (rule returns_obind) (use Cons in blast)+
qed simp

lemma ofold_append: "ofold f s (xs @ ys) = obind (ofold f s xs) (\<lambda>s'. ofold f s' ys)"
  by (induction xs arbitrary: s) (auto simp: obind_assoc)

lemma ofold_invariant:
  "ofold f s xs = Ok s' \<Longrightarrow> P s \<Longrightarrow> (\<And>s x s'. x \<in> set xs \<Longrightarrow> P s \<Longrightarrow> f s x = Ok s' \<Longrightarrow> P s') \<Longrightarrow> P s'"
proof (induction xs arbitrary: s)
  case (Cons x xs)
  from Cons.prems(1) obtain t where t: "f s x = Ok t" "ofold f t xs = Ok s'" by auto
  have "P t" using Cons.prems(2,3) t(1) by (meson list.set_intros(1))
  then show ?case using Cons.IH [OF t(2)] Cons.prems(3) by (meson list.set_intros(2))
qed simp

lemma omap_length: "omap f xs = Ok ys \<Longrightarrow> length ys = length xs"
  by (induction xs arbitrary: ys) auto

lemma omap_nth: "omap f xs = Ok ys \<Longrightarrow> i < length xs \<Longrightarrow> f (xs ! i) = Ok (ys ! i)"
proof (induction xs arbitrary: ys i)
  case (Cons x xs)
  then show ?case by (cases i) auto
qed simp

lemma omap_in_range: "omap f xs = Ok ys \<Longrightarrow> y \<in> set ys \<Longrightarrow> \<exists>x \<in> set xs. f x = Ok y"
  by (induction xs arbitrary: ys) auto

lemma upt_from_Suc: "[k..<k + Suc j] = k # [Suc k..<Suc k + j]"
  by (subst upt_conv_Cons) simp_all

lemma ofold_map: "ofold f s (map h xs) = ofold (\<lambda>s x. f s (h x)) s xs"
  by (induction xs arbitrary: s) simp_all

lemma ofold_cong [fundef_cong]:
  "s = t \<Longrightarrow> xs = ys \<Longrightarrow> (\<And>s x. x \<in> set ys \<Longrightarrow> f s x = g s x) \<Longrightarrow> ofold f s xs = ofold g t ys"
  by (induction ys arbitrary: s t xs) (auto intro: obind_cong)

text \<open>A loop that writes every cell of a buffer once produces the table of the written values.\<close>

lemma ofold_fill:
  assumes "\<And>ys k. length ys = n \<Longrightarrow> k < n \<Longrightarrow> f ys k = Ok (ys[k := g k])" "length xs = n"
  shows "ofold f xs [0..<n] = Ok (map g [0..<n])"
proof -
  have "ofold f xs [0..<j] = Ok (map g [0..<j] @ drop j xs)" if "j \<le> n" for j
    using that
  proof (induction j)
    case (Suc j)
    have "f (map g [0..<j] @ drop j xs) j = Ok ((map g [0..<j] @ drop j xs)[j := g j])"
      using Suc.prems assms by simp
    moreover have "(map g [0..<j] @ drop j xs)[j := g j] = map g [0..<Suc j] @ drop (Suc j) xs"
      using Suc.prems assms(2) by (simp add: list_update_append Cons_nth_drop_Suc [symmetric])
    ultimately show ?case using Suc by (simp add: ofold_append)
  qed simp
  from this [of n] assms(2) show ?thesis by simp
qed

lemma ofold_sum:
  fixes f :: "nat \<Rightarrow> int"
  assumes "\<And>n. n < N \<Longrightarrow> step (\<Sum>i<n. f i) n = Ok ((\<Sum>i<n. f i) + f n)"
  shows "ofold step 0 [0..<N] = Ok (\<Sum>i<N. f i)"
proof -
  have "ofold step 0 [0..<n] = Ok (\<Sum>i<n. f i)" if "n \<le> N" for n
    using that by (induction n) (simp_all add: ofold_append assms)
  then show ?thesis by simp
qed

lemma omap_Ok_iff:
  "omap f xs = Ok ys \<longleftrightarrow> length ys = length xs \<and> (\<forall>i<length xs. f (xs ! i) = Ok (ys ! i))"
proof (induction xs arbitrary: ys)
  case (Cons x xs)
  then show ?case by (cases ys) (auto simp: All_less_Suc2)
qed auto

lemma omap_total: "(\<And>x. x \<in> set xs \<Longrightarrow> \<exists>y. f x = Ok y) \<Longrightarrow> \<exists>ys. omap f xs = Ok ys"
proof (induction xs)
  case (Cons x xs)
  obtain y ys where "f x = Ok y" "omap f xs = Ok ys"
    using Cons.IH Cons.prems by (meson list.set_intros)
  then show ?case by simp
qed simp

lemma product_indices:
  "List.product [0..<m] [0..<n] = map (\<lambda>k. (k div n, k mod n)) [0..<m * n]"
proof (rule nth_equalityI)
  fix i
  assume "i < length (List.product [0..<m] [0..<n])"
  then have "i < m * n" by simp
  moreover from this have "i div n < m" "i mod n < n"
    by (simp_all add: less_mult_imp_div_less) (metis gr_zeroI mod_less_divisor mult_0_right not_less0)
  ultimately show "List.product [0..<m] [0..<n] ! i = map (\<lambda>k. (k div n, k mod n)) [0..<m * n] ! i"
    by (simp add: product_nth)
qed simp

lemma index_or_panic_Ok [simp]: "i < length xs \<Longrightarrow> index_or_panic xs i = Ok (xs ! i)"
  by (simp add: index_or_panic_def)

lemma slice_or_panic_Ok [simp]:
  "i \<le> j \<Longrightarrow> j \<le> length xs \<Longrightarrow> slice_or_panic xs i j = Ok (take (j - i) (drop i xs))"
  by (simp add: slice_or_panic_def)

lemma usize_sub_or_panic_Ok [simp]: "b \<le> a \<Longrightarrow> usize_sub_or_panic a b = Ok (a - b)"
  by (simp add: usize_sub_or_panic_def)

section \<open>Lemmas on checked arithmetic\<close>

lemma unat_add_no_overflow:
  "unat a + unat b < 2 ^ LENGTH('a) \<Longrightarrow> unat (a + b) = unat a + unat (b :: 'a::len word)"
  by (simp add: unat_word_ariths)

lemma unat_sub_no_underflow: "b \<le> a \<Longrightarrow> unat (a - b) = unat a - unat (b :: 'a::len word)"
  by (rule unat_sub)

lemma unat_mul_no_overflow:
  "unat a * unat b < 2 ^ LENGTH('a) \<Longrightarrow> unat (a * b) = unat a * unat (b :: 'a::len word)"
  by (simp add: unat_word_ariths)

lemma unat_ucast_up:
  assumes "LENGTH('a) \<le> LENGTH('b)"
  shows "unat (ucast (w :: 'a::len word) :: 'b::len word) = unat w"
proof -
  have "unat w < 2 ^ LENGTH('a)" by (rule unsigned_less)
  also have "\<dots> \<le> 2 ^ LENGTH('b)" using assms by (rule power_increasing) simp
  finally show ?thesis by (simp add: unsigned_ucast_eq take_bit_nat_eq_self)
qed

lemma checked_add_Some [checked_simps]:
  "checked_add a b = Some c \<longleftrightarrow>
     unat a + unat b < 2 ^ LENGTH('a) \<and> c = a + (b :: 'a::len word)"
  by (auto simp: checked_add_def)

lemma checked_add_unat: "checked_add a b = Some c \<Longrightarrow> unat c = unat a + unat b"
  by (auto simp: checked_add_Some unat_add_no_overflow)

lemma checked_sub_Some [checked_simps]: "checked_sub a b = Some c \<longleftrightarrow> b \<le> a \<and> c = a - b"
  by (auto simp: checked_sub_def)

lemma checked_sub_unat: "checked_sub a b = Some c \<Longrightarrow> unat c + unat b = unat a"
  by (auto simp: checked_sub_Some unat_sub_no_underflow word_le_nat_alt)

lemma checked_mul_Some [checked_simps]:
  "checked_mul a b = Some c \<longleftrightarrow>
     unat a * unat b < 2 ^ LENGTH('a) \<and> c = a * (b :: 'a::len word)"
  by (auto simp: checked_mul_def)

lemma checked_mul_unat: "checked_mul a b = Some c \<Longrightarrow> unat c = unat a * unat b"
  by (auto simp: checked_mul_Some unat_mul_no_overflow)

lemma usize_add_Some [checked_simps]: "usize_add a b = Some c \<longleftrightarrow> a + b < usize_limit \<and> c = a + b"
  by (auto simp: usize_add_def)

lemma wrap_i64_id [checked_simps]:
  "- 9223372036854775808 \<le> x \<Longrightarrow> x < 9223372036854775808 \<Longrightarrow> wrap_i64 x = x"
  by (simp add: wrap_i64_def)

lemma uint_word_of_nat: "n < 2 ^ LENGTH('a) \<Longrightarrow> uint (word_of_nat n :: 'a::len word) = int n"
  by (simp add: unsigned_of_nat take_bit_nat_eq_self)

section \<open>Lemmas on byte encodings\<close>

lemma nat_le_numeral [simp]:
  "nat_le (numeral k) x = word_of_nat (x mod 256) # nat_le (pred_numeral k) (x div 256)"
  by (metis nat_le.simps(2) numeral_eq_Suc)

lemma length_nat_le [simp]: "length (nat_le n x) = n"
  by (induction n arbitrary: x) auto

lemma unat_byte_of_mod [simp]: "unat (word_of_nat (x mod 256) :: byte) = x mod 256"
  by (simp add: unat_of_nat)

lemma le_nat_nat_le: "le_nat (nat_le n x) = x mod 256 ^ n"
proof (induction n arbitrary: x)
  case (Suc n)
  then show ?case
    by (simp add: mod_mult2_eq)
qed simp

lemma unat_byte_bound: "unat (b :: byte) < 256"
  using unsigned_less [of b, where ?'a = nat] by simp

lemma nat_le_le_nat: "nat_le (length bs) (le_nat bs) = bs"
proof (induction bs)
  case (Cons b bs)
  have "(unat b + 256 * le_nat bs) mod 256 = unat b" "(unat b + 256 * le_nat bs) div 256 = le_nat bs"
    using unat_byte_bound [of b] by simp_all
  with Cons show ?case by simp
qed simp

lemma le_nat_bound: "le_nat bs < 256 ^ length bs"
proof (induction bs)
  case (Cons b bs)
  have "unat b + 256 * le_nat bs < 256 * (le_nat bs + 1)"
    using unat_byte_bound [of b] by simp
  also have "\<dots> \<le> 256 * 256 ^ length bs"
    using Cons by (intro mult_left_mono) simp_all
  finally show ?case by simp
qed simp

lemma be_nat_bound: "be_nat bs < 256 ^ length bs"
  using le_nat_bound [of "rev bs"] by (simp add: be_nat_def)

lemma pow256: "(256::nat) ^ n = 2 ^ (8 * n)"
  by (simp add: power_mult)

lemma length_to_le_bytes [simp]: "length (to_le_bytes (w :: 'a::len word)) = LENGTH('a) div 8"
  by (simp add: to_le_bytes_def)

lemma from_to_le_bytes:
  assumes "8 dvd LENGTH('a)"
  shows "from_le_bytes (to_le_bytes (w :: 'a::len word)) = w"
proof -
  have "256 ^ (LENGTH('a) div 8) = (2::nat) ^ LENGTH('a)"
    using assms by (simp add: pow256)
  then have "le_nat (to_le_bytes w) = unat w"
    by (simp add: to_le_bytes_def le_nat_nat_le unsigned_less)
  then show ?thesis by (simp add: from_le_bytes_def)
qed

lemma to_from_le_bytes:
  assumes "8 * length bs = LENGTH('a)"
  shows "to_le_bytes (from_le_bytes bs :: 'a::len word) = bs"
proof -
  have len: "LENGTH('a) div 8 = length bs"
    using assms by (metis nonzero_mult_div_cancel_left zero_neq_numeral)
  have "le_nat bs < 2 ^ LENGTH('a)"
    using le_nat_bound [of bs] assms by (simp add: pow256)
  then have "unat (from_le_bytes bs :: 'a word) = le_nat bs"
    by (simp add: from_le_bytes_def unat_of_nat)
  then show ?thesis by (simp add: to_le_bytes_def len nat_le_le_nat)
qed

lemma from_to_le_widths [simp, le_simps]:
  "from_le_bytes (to_le_bytes (a :: u16)) = a" "from_le_bytes (to_le_bytes (b :: u32)) = b"
  "from_le_bytes (to_le_bytes (c :: u64)) = c"
  by (simp_all add: from_to_le_bytes)

lemma to_from_le_widths [le_simps]:
  "length bs = 2 \<Longrightarrow> to_le_bytes (from_le_bytes bs :: u16) = bs"
  "length bs = 4 \<Longrightarrow> to_le_bytes (from_le_bytes bs :: u32) = bs"
  "length bs = 8 \<Longrightarrow> to_le_bytes (from_le_bytes bs :: u64) = bs"
  by (simp_all add: to_from_le_bytes)

lemma to_le_bytes_inj:
  assumes "8 dvd LENGTH('a)" "to_le_bytes v = to_le_bytes (w :: 'a::len word)"
  shows "v = w"
  by (metis assms from_to_le_bytes)

lemma unat_from_big_endian:
  "8 * length bs \<le> LENGTH('a) \<Longrightarrow> unat (from_big_endian bs :: 'a::len word) = be_nat bs"
proof -
  assume "8 * length bs \<le> LENGTH('a)"
  then have "(256::nat) ^ length bs \<le> 2 ^ LENGTH('a)"
    by (simp add: pow256)
  then have "be_nat bs < 2 ^ LENGTH('a)"
    using be_nat_bound [of bs] by linarith
  then show ?thesis by (simp add: from_big_endian_def unat_of_nat)
qed

lemma be_nat_to_big_endian:
  "8 dvd LENGTH('a) \<Longrightarrow> be_nat (to_big_endian (w :: 'a::len word)) = unat w"
  by (simp add: to_big_endian_def be_nat_def to_le_bytes_def le_nat_nat_le pow256 unsigned_less)

lemma length_to_big_endian [simp]: "length (to_big_endian (w :: 'a::len word)) = LENGTH('a) div 8"
  by (simp add: to_big_endian_def)

lemma le_nat_append: "le_nat (xs @ ys) = le_nat xs + 256 ^ length xs * le_nat ys"
  by (induction xs) (auto simp: algebra_simps)

lemma be_nat_Cons: "be_nat (b # bs) = unat b * 256 ^ length bs + be_nat bs"
  by (simp add: be_nat_def le_nat_append)

lemma be_nat_Nil [simp]: "be_nat [] = 0"
  by (simp add: be_nat_def)

lemma be_nat_inj: "length xs = length ys \<Longrightarrow> be_nat xs = be_nat ys \<Longrightarrow> xs = ys"
  by (metis be_nat_def length_rev nat_le_le_nat rev_rev_ident)

lemma lex_le_iff_be_nat: "length xs = length ys \<Longrightarrow> lex_le xs ys \<longleftrightarrow> be_nat xs \<le> be_nat ys"
proof (induction xs ys rule: list_induct2)
  case (Cons x xs y ys)
  let ?B = "256 ^ length xs"
  have bx: "be_nat xs < ?B" and bY: "be_nat ys < ?B"
    using be_nat_bound [of xs] be_nat_bound [of ys] Cons.hyps by simp_all
  have lt: "unat a * ?B + p < unat b * ?B + q" if "a < b" "p < ?B" for a b :: byte and p q
  proof -
    have "(unat a + 1) * ?B \<le> unat b * ?B"
      using that by (intro mult_right_mono) (simp_all add: word_less_nat_alt)
    with that show ?thesis by simp
  qed
  consider "x < y" | "x = y" | "y < x" by fastforce
  then show ?case
  proof cases
    case 1
    with lt [of x y "be_nat xs" "be_nat ys"] bx Cons.hyps show ?thesis by (simp add: be_nat_Cons)
  next
    case 2
    with Cons show ?thesis by (simp add: be_nat_Cons)
  next
    case 3
    with lt [of y x "be_nat ys" "be_nat xs"] bY Cons.hyps show ?thesis
      by (auto simp: be_nat_Cons)
  qed
qed simp

lemma be_nat_zero32 [simp]: "be_nat zero32 = 0"
  by (simp add: zero32_def be_nat_def) (simp add: numeral_eq_Suc)

lemma length_zero32 [simp]: "length zero32 = 32"
  by (simp add: zero32_def)

lemma be_nat_zero_iff: "length t = 32 \<Longrightarrow> be_nat t = 0 \<longleftrightarrow> t = zero32"
  using be_nat_inj [of t zero32] by auto

lemma demo_crypto_simps:
  "b3_derive demo_crypto d m = replicate 32 (word_of_nat (length d))"
  "b3_hash demo_crypto m = replicate 32 2" "b3_xof demo_crypto d m n = replicate n 5"
  "key_from_bytes demo_crypto k \<longleftrightarrow> length k = 32" "sig_from_bytes demo_crypto z \<longleftrightarrow> length z = 64"
  "schnorr_verify demo_crypto k m z \<longleftrightarrow> z = replicate 64 7"
  "schnorr_sign demo_crypto k m = replicate 64 7"
  by (simp_all add: demo_crypto_def)

lemma lex_le_replicate: "a < b \<Longrightarrow> 0 < n \<Longrightarrow> lex_le (replicate n a) (replicate n b)"
  by (cases n) simp_all

lemma crypto_ok_demo [simp]: "crypto_ok demo_crypto"
  by (simp add: crypto_ok_def demo_crypto_def)

lemma signer_ok_demo [simp]: "signer_ok demo_crypto sk"
  by (simp add: signer_ok_def demo_crypto_def)

lemma crypto_lengths:
  assumes "crypto_ok C"
  shows "length (b3_derive C d m) = 32" "length (b3_hash C m) = 32" "length (b3_xof C d m n) = n"
  using assms by (simp_all add: crypto_ok_def)

end
