(* ===== verification/CF_Pow_Interface.thy ===== *)
theory CF_Pow_Interface
  imports CF_Prelude
begin

text \<open>
  The contract between a proof-of-work generation and the code that mines and verifies with it:
  a proof is a deterministic function of challenge and nonce, the verifier accepts exactly the
  proofs the prover makes that meet the target, and mining tries consecutive nonces. Both
  ForgeMatrix generations interpret the locale.
\<close>

locale pow_scheme =
  fixes valid :: "'v \<Rightarrow> bool"
    and prove :: "'v \<Rightarrow> 'b \<Rightarrow> u64 \<Rightarrow> ('e, 'p) outcome"
    and check :: "'v \<Rightarrow> 'b \<Rightarrow> 'p \<Rightarrow> ('e, 's) outcome"
    and accepts :: "'b \<Rightarrow> 'p \<Rightarrow> bool"
    and nonce_of :: "'p \<Rightarrow> u64"
    and search :: "'v \<Rightarrow> 'b \<Rightarrow> u64 \<Rightarrow> nat \<Rightarrow> ('e, 'p) outcome"
    and exhausted :: 'e
  assumes prove_nonce: "valid v \<Longrightarrow> prove v b n = Ok p \<Longrightarrow> nonce_of p = n"
    and check_exact: "valid v \<Longrightarrow> (\<exists>s. check v b p = Ok s) \<longleftrightarrow> prove v b (nonce_of p) = Ok p \<and> accepts b p"
    and search_0: "search v b n 0 = Err exhausted"
    and search_Suc: "search v b n (Suc k) =
      obind (prove v b n) (\<lambda>p. if accepts b p then Ok p else search v b (n + 1) k)"
begin

lemma search_OkD:
  assumes "search v b n k = Ok p"
  shows "\<exists>i<k. prove v b (n + word_of_nat i) = Ok p \<and> accepts b p \<and>
    (\<forall>j<i. \<exists>q. prove v b (n + word_of_nat j) = Ok q \<and> \<not> accepts b q)"
  using assms
proof (induction k arbitrary: n)
  case 0
  then show ?case by (simp add: search_0)
next
  case (Suc k)
  from Suc.prems obtain q where q: "prove v b n = Ok q"
    and rest: "(if accepts b q then Ok q else search v b (n + 1) k) = Ok p"
    by (auto simp: search_Suc)
  show ?case
  proof (cases "accepts b q")
    case True
    with q rest show ?thesis by (intro exI [of _ 0]) simp
  next
    case False
    with rest Suc.IH [of "n + 1"] obtain i where i: "i < k" "prove v b (n + 1 + word_of_nat i) = Ok p"
      "accepts b p" "\<forall>j<i. \<exists>q. prove v b (n + 1 + word_of_nat j) = Ok q \<and> \<not> accepts b q" by auto
    have "\<exists>q. prove v b (n + word_of_nat j) = Ok q \<and> \<not> accepts b q" if "j < Suc i" for j
      using that i(4) q False by (cases j) (auto simp: add.assoc)
    with i show ?thesis by (intro exI [of _ "Suc i"]) (auto simp: add.assoc)
  qed
qed

lemma search_exhausted:
  assumes "\<And>j. j < k \<Longrightarrow> \<exists>q. prove v b (n + word_of_nat j) = Ok q \<and> \<not> accepts b q"
  shows "search v b n k = Err exhausted"
  using assms
proof (induction k arbitrary: n)
  case (Suc k)
  have "\<exists>q. prove v b (n + 1 + word_of_nat j) = Ok q \<and> \<not> accepts b q" if "j < k" for j
    using Suc.prems [of "Suc j"] that by (simp add: add.assoc)
  then have "search v b (n + 1) k = Err exhausted" by (rule Suc.IH)
  with Suc.prems [of 0] show ?case by (auto simp: search_Suc)
qed (simp add: search_0)

lemma search_complete:
  assumes "\<And>j. j < k \<Longrightarrow> \<exists>q. prove v b (n + word_of_nat j) = Ok q"
    and "i < k" "prove v b (n + word_of_nat i) = Ok p" "accepts b p"
  shows "\<exists>q. search v b n k = Ok q"
  using assms
proof (induction k arbitrary: n i)
  case (Suc k)
  obtain q where q: "prove v b n = Ok q" using Suc.prems(1) [of 0] by auto
  show ?case
  proof (cases "accepts b q")
    case True
    with q show ?thesis by (simp add: search_Suc)
  next
    case False
    obtain i' where i: "i = Suc i'"
      using q Suc.prems(3,4) False by (cases i) simp_all
    have total: "\<exists>q. prove v b (n + 1 + word_of_nat j) = Ok q" if "j < k" for j
      using Suc.prems(1) [of "Suc j"] that by (simp add: add.assoc)
    have "i' < k" "prove v b (n + 1 + word_of_nat i') = Ok p"
      using Suc.prems(2,3) i by (simp_all add: add.assoc)
    then have "\<exists>q. search v b (n + 1) k = Ok q" using Suc.IH [OF total _ _ Suc.prems(4)] by blast
    with q False show ?thesis by (simp add: search_Suc)
  qed
qed simp

lemma found_checks:
  assumes "valid v" "search v b n k = Ok p"
  shows "\<exists>s. check v b p = Ok s"
proof -
  obtain i where i: "prove v b (n + word_of_nat i) = Ok p" "accepts b p"
    using search_OkD [OF assms(2)] by blast
  have "prove v b (nonce_of p) = Ok p" unfolding prove_nonce [OF assms(1) i(1)] by (rule i(1))
  with i(2) show ?thesis using check_exact [OF assms(1)] by blast
qed

lemma proof_unique:
  assumes "valid v" "check v b p = Ok s" "check v b q = Ok t" "nonce_of p = nonce_of q"
  shows "p = q"
proof -
  have p: "prove v b (nonce_of p) = Ok p" using check_exact [OF assms(1)] assms(2) by blast
  have q: "prove v b (nonce_of q) = Ok q" using check_exact [OF assms(1)] assms(3) by blast
  have "(Ok p :: ('e, 'p) outcome) = Ok q" using p unfolding assms(4) q by (rule sym)
  then show ?thesis by simp
qed

end

end
