(* ===== verification/CF_ForgeMatrix.thy ===== *)
theory CF_ForgeMatrix
  imports CF_Pow_Interface
begin

text \<open>
  The first-generation proof of work: \<open>crates/cmfd-consensus/src/forgematrix.rs\<close>.

  Signed bytes are integers in \<open>-128..127\<close>; 64-bit signed arithmetic wraps (\<open>wrap_i64\<close>). The
  two activation buffers are lists written cell by cell and swapped after every layer, and an
  index out of range is a panic. The lemmas show that no panic and no wrap-around happens for a
  verifier made by \<open>new\<close>, that the buffers compute a chain of matrix products with a
  quantisation that never yields zero, and what \<open>mine\<close> and \<open>verify\<close> accept.
\<close>

section \<open>Data\<close>

definition CHALLENGE_DOMAIN :: string where
  "CHALLENGE_DOMAIN = ''CMFD/FORGEMATRIX/CHALLENGE/V1''"
definition MODEL_DOMAIN :: string where
  "MODEL_DOMAIN = ''CMFD/FORGEMATRIX/MODEL/V1''"
definition ACTIVATION_DOMAIN :: string where
  "ACTIVATION_DOMAIN = ''CMFD/FORGEMATRIX/ACTIVATION/V1''"
definition MASK_DOMAIN :: string where
  "MASK_DOMAIN = ''CMFD/FORGEMATRIX/MASK/V1''"
definition OUTPUT_DOMAIN :: string where
  "OUTPUT_DOMAIN = ''CMFD/FORGEMATRIX/OUTPUT/V1''"
definition WORK_DOMAIN :: string where
  "WORK_DOMAIN = ''CMFD/FORGEMATRIX/WORK/V1''"

record forge_profile =
  fp_algorithm_version :: u32
  fp_model_version :: u32
  fp_dimension :: u32
  fp_batch :: u32
  fp_layers :: u32
  fp_model_seed :: hash32

record profile_metrics =
  pm_model_bytes :: u128
  pm_activation_bytes :: u128
  pm_core_device_bytes :: u128
  pm_multiply_accumulates_per_nonce :: u128

definition TEST_PROFILE :: forge_profile where
  "TEST_PROFILE = \<lparr>fp_algorithm_version = 1, fp_model_version = 1, fp_dimension = 32, fp_batch = 4,
     fp_layers = 4, fp_model_seed = replicate 32 0x43\<rparr>"

definition CANDIDATE_16GB_PROFILE :: forge_profile where
  "CANDIDATE_16GB_PROFILE = \<lparr>fp_algorithm_version = 1, fp_model_version = 1, fp_dimension = 4096,
     fp_batch = 128, fp_layers = 384, fp_model_seed = replicate 32 0\<rparr>"

definition metrics :: "forge_profile \<Rightarrow> profile_metrics" where
  "metrics p =
     (let model_bytes = ucast (fp_layers p) * ucast (fp_dimension p) * ucast (fp_dimension p);
          activation_bytes = ucast (fp_batch p) * ucast (fp_dimension p)
      in \<lparr>pm_model_bytes = model_bytes, pm_activation_bytes = activation_bytes,
          pm_core_device_bytes = model_bytes + 3 * activation_bytes,
          pm_multiply_accumulates_per_nonce = model_bytes * ucast (fp_batch p)\<rparr>)"

record block_challenge =
  bc_network_id :: hash32
  bc_previous_block :: hash32
  bc_transaction_root :: hash32
  bc_height :: u64
  bc_timestamp :: u64
  bc_target :: hash32

record forge_proof =
  pr_algorithm_version :: u32
  pr_model_version :: u32
  pr_nonce :: u64
  pr_model_root :: hash32
  pr_output_digest :: hash32
  pr_work_digest :: hash32

record work_stats =
  ws_multiply_accumulates :: u128
  ws_model_bytes_touched :: u128
  ws_activation_values :: u128

record evaluation =
  ev_output_digest :: hash32
  ev_work_digest :: hash32
  ev_stats :: work_stats

datatype forge_error =
    FE_EmptyProfile | FE_ProfileTooLarge | FE_UncommittedModel | FE_AlgorithmVersion
  | FE_ModelVersion | FE_ModelRoot | FE_OutputDigest | FE_WorkDigest | FE_HighHash
  | FE_NonceExhausted

record forge_verifier =
  fv_profile :: forge_profile
  fv_model :: "int list list"
  fv_model_root :: hash32

section \<open>Bytes and quantisation\<close>

definition as_u8_slice :: "int list \<Rightarrow> byte list" where
  "as_u8_slice values = map word_of_int values"

definition nonzero_i8 :: "byte \<Rightarrow> int" where
  "nonzero_i8 b = (let v = uint (b mod 254) - 127 in if v = 0 then 1 else v)"

definition quantize_nonzero :: "int \<Rightarrow> byte \<Rightarrow> u32 \<Rightarrow> u32 \<Rightarrow> u32 \<Rightarrow> int" where
  "quantize_nonzero accumulator mask_byte layer row col =
     (let coordinate_mix = wrap_i64 (wrap_i64 (wrap_i64 (uint layer * 0x1f123bb5)
            + wrap_i64 (uint row * 0x05491333)) + wrap_i64 (uint col * 0x0127a2f1));
          v = wrap_i64 (wrap_i64 (accumulator + uint mask_byte) + coordinate_mix) mod 254 - 127
      in if v = 0 then 1 else v)"

definition encode_profile :: "forge_profile \<Rightarrow> byte list" where
  "encode_profile p =
     to_le_bytes (fp_algorithm_version p) @ to_le_bytes (fp_model_version p) @
     to_le_bytes (fp_dimension p) @ to_le_bytes (fp_batch p) @ to_le_bytes (fp_layers p) @
     fp_model_seed p"

definition derive_bytes :: "crypto \<Rightarrow> string \<Rightarrow> byte list \<Rightarrow> u32 \<Rightarrow> nat \<Rightarrow> byte list" where
  "derive_bytes C domain seed index len = b3_xof C domain (seed @ to_le_bytes index) len"

definition challenge_digest ::
  "crypto \<Rightarrow> forge_profile \<Rightarrow> hash32 \<Rightarrow> block_challenge \<Rightarrow> u64 \<Rightarrow> hash32" where
  "challenge_digest C profile model_root block nonce =
     b3_derive C CHALLENGE_DOMAIN
       (bc_network_id block @ encode_profile profile @ model_root @ bc_previous_block block @
        bc_transaction_root block @ to_le_bytes (bc_height block) @
        to_le_bytes (bc_timestamp block) @ bc_target block @ to_le_bytes nonce)"

definition meets_target :: "hash32 \<Rightarrow> hash32 \<Rightarrow> bool" where
  "meets_target digest target = lex_le digest target"

definition target_with_leading_zero_bits :: "u16 \<Rightarrow> hash32" where
  "target_with_leading_zero_bits bits =
     (let capped = min bits 256;
          full_bytes = unat (capped div 8);
          partial_bits = unat (capped mod 8);
          target = replicate full_bytes 0 @ replicate (32 - full_bytes) 0xff
      in if full_bytes < 32 \<and> 0 < partial_bits
         then target[full_bytes := drop_bit partial_bits 0xff]
         else target)"

section \<open>The verifier\<close>

text \<open>The loop over the layers accumulates the weights and the input of the root hasher.\<close>

definition forge_new :: "crypto \<Rightarrow> forge_profile \<Rightarrow> (forge_error, forge_verifier) outcome" where
  "forge_new C profile =
     (if fp_dimension profile = 0 \<or> fp_batch profile = 0 \<or> fp_layers profile = 0
        then Err FE_EmptyProfile
      else if fp_model_seed profile = replicate 32 0 then Err FE_UncommittedModel
      else
        obind (ok_or FE_ProfileTooLarge
                (usize_mul (unat (fp_dimension profile)) (unat (fp_dimension profile)))) (\<lambda>layer_len.
        let weights = (\<lambda>layer. map nonzero_i8
              (derive_bytes C MODEL_DOMAIN (fp_model_seed profile) (word_of_nat layer) layer_len));
            root_and_model = fold
              (\<lambda>layer (h, m). (h @ to_le_bytes (word_of_nat layer :: u32) @ as_u8_slice (weights layer),
                                m @ [weights layer]))
              [0..<unat (fp_layers profile)] (encode_profile profile, [])
        in Ok \<lparr>fv_profile = profile, fv_model = snd root_and_model,
               fv_model_root = b3_derive C MODEL_DOMAIN (fst root_and_model)\<rparr>))"

definition dot_product :: "nat \<Rightarrow> int list \<Rightarrow> int list \<Rightarrow> nat \<Rightarrow> nat \<Rightarrow> ('e, int) outcome" where
  "dot_product width input weights row col =
     ofold (\<lambda>accumulator common.
        obind (index_or_panic input (row * width + common)) (\<lambda>a.
        obind (index_or_panic weights (common * width + col)) (\<lambda>w.
        Ok (wrap_i64 (accumulator + a * w))))) 0 [0..<width]"

definition write_cell ::
  "nat \<Rightarrow> nat \<Rightarrow> int list \<Rightarrow> int list \<Rightarrow> byte list \<Rightarrow> int list \<Rightarrow> nat \<times> nat \<Rightarrow> ('e, int list) outcome"
  where
  "write_cell width layer_index input weights masks output cell =
     (case cell of (row, col) \<Rightarrow>
       obind (dot_product width input weights row col) (\<lambda>accumulator.
       obind (index_or_panic masks (row * width + col)) (\<lambda>mask_byte.
       if row * width + col < length output
       then Ok (output[row * width + col :=
              quantize_nonzero accumulator mask_byte (word_of_nat layer_index) (word_of_nat row)
                (word_of_nat col)])
       else Panic)))"

definition apply_layer ::
  "crypto \<Rightarrow> nat \<Rightarrow> nat \<Rightarrow> hash32 \<Rightarrow> int list \<times> int list \<times> byte list option \<Rightarrow> nat \<times> int list
     \<Rightarrow> ('e, int list \<times> int list \<times> byte list option) outcome" where
  "apply_layer C rows width challenge state layer =
     (case state of (input, output, fixture) \<Rightarrow> case layer of (layer_index, weights) \<Rightarrow>
       let masks = derive_bytes C MASK_DOMAIN challenge (word_of_nat layer_index) (rows * width);
           fixture' = map_option (\<lambda>bytes. bytes @ as_u8_slice weights @ masks) fixture
       in obind (ofold (write_cell width layer_index input weights masks) output
                   (List.product [0..<rows] [0..<width]))
            (\<lambda>output'. Ok (output', input, fixture')))"

definition compute_activation ::
  "crypto \<Rightarrow> forge_verifier \<Rightarrow> hash32 \<Rightarrow> byte list option \<Rightarrow> ('e, int list \<times> byte list option) outcome"
  where
  "compute_activation C v challenge fixture =
     (let rows = unat (fp_batch (fv_profile v));
          width = unat (fp_dimension (fv_profile v));
          input = map nonzero_i8 (derive_bytes C ACTIVATION_DOMAIN challenge 0 (rows * width));
          fixture' = map_option (\<lambda>bytes. bytes @ as_u8_slice input) fixture
      in obind (ofold (apply_layer C rows width challenge) (input, replicate (rows * width) 0, fixture')
                  (enumerate 0 (fv_model v)))
           (\<lambda>(result, _, bytes). Ok (result, bytes)))"

definition work_stats_of :: "forge_profile \<Rightarrow> work_stats" where
  "work_stats_of p = \<lparr>
     ws_multiply_accumulates =
       ucast (fp_layers p) * ucast (fp_batch p) * ucast (fp_dimension p) * ucast (fp_dimension p),
     ws_model_bytes_touched = ucast (fp_layers p) * ucast (fp_dimension p) * ucast (fp_dimension p),
     ws_activation_values = ucast (fp_layers p) * ucast (fp_batch p) * ucast (fp_dimension p)\<rparr>"

definition evaluate :: "crypto \<Rightarrow> forge_verifier \<Rightarrow> block_challenge \<Rightarrow> u64 \<Rightarrow> ('e, evaluation) outcome"
  where
  "evaluate C v block nonce =
     (let challenge = challenge_digest C (fv_profile v) (fv_model_root v) block nonce in
      obind (compute_activation C v challenge None) (\<lambda>(input, _).
      let output_digest = b3_derive C OUTPUT_DOMAIN (challenge @ as_u8_slice input);
          work_digest = b3_derive C WORK_DOMAIN (challenge @ fv_model_root v @ output_digest)
      in Ok \<lparr>ev_output_digest = output_digest, ev_work_digest = work_digest,
             ev_stats = work_stats_of (fv_profile v)\<rparr>))"

definition forge_prove ::
  "crypto \<Rightarrow> forge_verifier \<Rightarrow> block_challenge \<Rightarrow> u64 \<Rightarrow> ('e, forge_proof) outcome" where
  "forge_prove C v block nonce =
     obind (evaluate C v block nonce) (\<lambda>e.
     Ok \<lparr>pr_algorithm_version = fp_algorithm_version (fv_profile v),
         pr_model_version = fp_model_version (fv_profile v), pr_nonce = nonce,
         pr_model_root = fv_model_root v, pr_output_digest = ev_output_digest e,
         pr_work_digest = ev_work_digest e\<rparr>)"

fun forge_mine_from ::
  "crypto \<Rightarrow> forge_verifier \<Rightarrow> block_challenge \<Rightarrow> u64 \<Rightarrow> nat \<Rightarrow> (forge_error, forge_proof) outcome" where
  "forge_mine_from C v block nonce 0 = Err FE_NonceExhausted"
| "forge_mine_from C v block nonce (Suc attempts) =
     obind (forge_prove C v block nonce) (\<lambda>proof.
       if meets_target (pr_work_digest proof) (bc_target block) then Ok proof
       else forge_mine_from C v block (nonce + 1) attempts)"

definition forge_mine ::
  "crypto \<Rightarrow> forge_verifier \<Rightarrow> block_challenge \<Rightarrow> u64 \<Rightarrow> u64 \<Rightarrow> (forge_error, forge_proof) outcome" where
  "forge_mine C v block start_nonce attempts = forge_mine_from C v block start_nonce (unat attempts)"

definition verify_relation ::
  "crypto \<Rightarrow> forge_verifier \<Rightarrow> block_challenge \<Rightarrow> forge_proof \<Rightarrow> (forge_error, work_stats) outcome" where
  "verify_relation C v block proof =
     (if pr_algorithm_version proof \<noteq> fp_algorithm_version (fv_profile v) then Err FE_AlgorithmVersion
      else if pr_model_version proof \<noteq> fp_model_version (fv_profile v) then Err FE_ModelVersion
      else if pr_model_root proof \<noteq> fv_model_root v then Err FE_ModelRoot
      else obind (evaluate C v block (pr_nonce proof)) (\<lambda>expected.
        if pr_output_digest proof \<noteq> ev_output_digest expected then Err FE_OutputDigest
        else if pr_work_digest proof \<noteq> ev_work_digest expected then Err FE_WorkDigest
        else Ok (ev_stats expected)))"

definition forge_verify ::
  "crypto \<Rightarrow> forge_verifier \<Rightarrow> block_challenge \<Rightarrow> forge_proof \<Rightarrow> (forge_error, work_stats) outcome" where
  "forge_verify C v block proof =
     obind (verify_relation C v block proof) (\<lambda>stats.
       if \<not> meets_target (pr_work_digest proof) (bc_target block) then Err FE_HighHash
       else Ok stats)"

definition gpu_fixture ::
  "crypto \<Rightarrow> forge_verifier \<Rightarrow> block_challenge \<Rightarrow> u64 \<Rightarrow> ('e, byte list) outcome" where
  "gpu_fixture C v block nonce =
     (let challenge = challenge_digest C (fv_profile v) (fv_model_root v) block nonce;
          fixture = bytes_of_string ''CMFDGPU1'' @ to_le_bytes (fp_dimension (fv_profile v)) @
            to_le_bytes (fp_batch (fv_profile v)) @ to_le_bytes (fp_layers (fv_profile v))
      in obind (compute_activation C v challenge (Some fixture)) (\<lambda>(activation, bytes).
           case bytes of
             Some b \<Rightarrow> Ok (b @ as_u8_slice activation)
           | None \<Rightarrow> Panic))"

section \<open>The relation as matrix arithmetic\<close>

text \<open>
  \<open>cell_spec\<close> is one output entry with unbounded integers, \<open>layer_spec\<close> one layer and
  \<open>activation_spec\<close> the chain of all layers.
\<close>

definition quantize_spec :: "int \<Rightarrow> nat \<Rightarrow> nat \<Rightarrow> nat \<Rightarrow> int" where
  "quantize_spec x layer row col =
     (let v = (x + int layer * 0x1f123bb5 + int row * 0x05491333 + int col * 0x0127a2f1) mod 254 - 127
      in if v = 0 then 1 else v)"

definition matrix_entry :: "nat \<Rightarrow> int list \<Rightarrow> int list \<Rightarrow> nat \<Rightarrow> nat \<Rightarrow> int" where
  "matrix_entry width input weights row col =
     (\<Sum>common<width. input ! (row * width + common) * weights ! (common * width + col))"

definition layer_spec :: "nat \<Rightarrow> nat \<Rightarrow> nat \<Rightarrow> byte list \<Rightarrow> int list \<Rightarrow> int list \<Rightarrow> int list" where
  "layer_spec rows width layer masks weights input =
     map (\<lambda>k. quantize_spec (matrix_entry width input weights (k div width) (k mod width)
               + uint (masks ! k)) layer (k div width) (k mod width)) [0..<rows * width]"

fun layers_spec :: "crypto \<Rightarrow> nat \<Rightarrow> nat \<Rightarrow> hash32 \<Rightarrow> nat \<Rightarrow> int list list \<Rightarrow> int list \<Rightarrow> int list" where
  "layers_spec C rows width challenge layer [] input = input"
| "layers_spec C rows width challenge layer (weights # ws) input =
     layers_spec C rows width challenge (Suc layer) ws
       (layer_spec rows width layer
          (derive_bytes C MASK_DOMAIN challenge (word_of_nat layer) (rows * width)) weights input)"

definition activation_spec :: "crypto \<Rightarrow> forge_verifier \<Rightarrow> hash32 \<Rightarrow> int list" where
  "activation_spec C v challenge =
     (let rows = unat (fp_batch (fv_profile v)); width = unat (fp_dimension (fv_profile v))
      in layers_spec C rows width challenge 0 (fv_model v)
           (map nonzero_i8 (derive_bytes C ACTIVATION_DOMAIN challenge 0 (rows * width))))"

text \<open>Admissible activation and weight values: nonzero signed bytes.\<close>

definition nonzero_small :: "int \<Rightarrow> bool" where
  "nonzero_small x \<longleftrightarrow> x \<noteq> 0 \<and> - 127 \<le> x \<and> x \<le> 127"

definition wf_forge_verifier :: "forge_verifier \<Rightarrow> bool" where
  "wf_forge_verifier v \<longleftrightarrow>
     length (fv_model v) = unat (fp_layers (fv_profile v)) \<and>
     list_all (\<lambda>weights. length weights =
         unat (fp_dimension (fv_profile v)) * unat (fp_dimension (fv_profile v)) \<and>
       list_all nonzero_small weights) (fv_model v)"

section \<open>Lemmas\<close>

lemma nonzero_i8_small: "nonzero_small (nonzero_i8 b)"
proof -
  have "uint (b mod 254) = uint b mod 254" by (simp add: uint_mod)
  then have "0 \<le> uint (b mod 254)" "uint (b mod 254) < 254" by simp_all
  then show ?thesis by (auto simp: nonzero_small_def nonzero_i8_def Let_def)
qed

lemma quantize_spec_small: "nonzero_small (quantize_spec x layer row col)"
proof -
  let ?y = "(x + int layer * 0x1f123bb5 + int row * 0x05491333 + int col * 0x0127a2f1) mod 254"
  have "0 \<le> ?y" "?y < 254" by simp_all
  then show ?thesis unfolding nonzero_small_def quantize_spec_def Let_def by (cases "?y = 127") auto
qed

lemma quantize_exact:
  assumes "\<bar>acc\<bar> \<le> 2 ^ 32 * 16129" "layer < 2 ^ 32" "row < 2 ^ 32" "col < 2 ^ 32"
  shows "quantize_nonzero acc m (word_of_nat layer) (word_of_nat row) (word_of_nat col) =
    quantize_spec (acc + uint m) layer row col"
proof -
  have u: "uint (word_of_nat layer :: u32) = int layer" "uint (word_of_nat row :: u32) = int row"
    "uint (word_of_nat col :: u32) = int col"
    using assms by (simp_all add: uint_word_of_nat)
  have b: "int layer < 4294967296" "int row < 4294967296" "int col < 4294967296"
    using assms by simp_all
  have m: "0 \<le> uint m" "uint m < 256" using unsigned_less [of m, where ?'a = int] by simp_all
  have a: "acc \<le> 69273527517184" "- 69273527517184 \<le> acc" using assms(1) by simp_all
  have w: "wrap_i64 (int layer * 0x1f123bb5) = int layer * 0x1f123bb5"
    "wrap_i64 (int row * 0x05491333) = int row * 0x05491333"
    "wrap_i64 (int col * 0x0127a2f1) = int col * 0x0127a2f1"
    "wrap_i64 (int layer * 0x1f123bb5 + int row * 0x05491333) =
       int layer * 0x1f123bb5 + int row * 0x05491333"
    "wrap_i64 (int layer * 0x1f123bb5 + int row * 0x05491333 + int col * 0x0127a2f1) =
       int layer * 0x1f123bb5 + int row * 0x05491333 + int col * 0x0127a2f1"
    "wrap_i64 (acc + uint m) = acc + uint m"
    "wrap_i64 (acc + uint m + (int layer * 0x1f123bb5 + int row * 0x05491333 + int col * 0x0127a2f1)) =
       acc + uint m + (int layer * 0x1f123bb5 + int row * 0x05491333 + int col * 0x0127a2f1)"
    by (rule wrap_i64_id; use b m a in linarith)+
  show ?thesis
    unfolding quantize_nonzero_def u w Let_def quantize_spec_def by (simp add: add.assoc)
qed

lemma product_bound: "\<bar>a\<bar> \<le> 127 \<Longrightarrow> \<bar>b\<bar> \<le> 127 \<Longrightarrow> \<bar>a * b\<bar> \<le> (16129 :: int)"
  using mult_mono [of "\<bar>a\<bar>" 127 "\<bar>b\<bar>" 127] by (simp add: abs_mult)

lemma sum_bound:
  assumes "\<And>i. i < n \<Longrightarrow> \<bar>f i\<bar> \<le> (16129 :: int)"
  shows "\<bar>\<Sum>i<n. f i\<bar> \<le> int n * 16129"
proof -
  have "\<bar>\<Sum>i<n. f i\<bar> \<le> (\<Sum>i<n. \<bar>f i\<bar>)" by (rule sum_abs)
  also have "\<dots> \<le> (\<Sum>i<n. 16129)" using assms by (intro sum_mono) simp
  finally show ?thesis by simp
qed

lemma dot_product_exact:
  assumes w: "width < 2 ^ 32" and col: "col < width"
    and len: "row * width + width \<le> length input" "length weights = width * width"
    and small: "list_all nonzero_small input" "list_all nonzero_small weights"
  shows "dot_product width input weights row col = Ok (matrix_entry width input weights row col)"
    and "\<bar>matrix_entry width input weights row col\<bar> \<le> 2 ^ 32 * 16129"
proof -
  let ?f = "\<lambda>common. input ! (row * width + common) * weights ! (common * width + col)"
  let ?step = "\<lambda>accumulator common.
        obind (index_or_panic input (row * width + common)) (\<lambda>a.
        obind (index_or_panic weights (common * width + col)) (\<lambda>w.
        Ok (wrap_i64 (accumulator + a * w))))"
  have idx: "row * width + i < length input" "i * width + col < length weights" if "i < width" for i
  proof -
    have "(i + 1) * width \<le> width * width" using that by (intro mult_right_mono) simp_all
    then show "row * width + i < length input" "i * width + col < length weights"
      using that col len by simp_all
  qed
  have f: "\<bar>?f i\<bar> \<le> 16129" if "i < width" for i
    using small idx [OF that]
    by (intro product_bound) (fastforce simp: list_all_length nonzero_small_def abs_le_iff)+
  have bound: "\<bar>\<Sum>i<n. ?f i\<bar> \<le> 2 ^ 32 * 16129" if "n \<le> width" for n
    using sum_bound [of n ?f] f that w by fastforce
  then show "\<bar>matrix_entry width input weights row col\<bar> \<le> 2 ^ 32 * 16129"
    by (simp add: matrix_entry_def)
  have "ofold ?step 0 [0..<n] = Ok (\<Sum>i<n. ?f i)" if "n \<le> width" for n
    using that
  proof (induction n)
    case (Suc n)
    have "(\<Sum>i<n. ?f i) + ?f n = (\<Sum>i<Suc n. ?f i)" by simp
    then have "wrap_i64 ((\<Sum>i<n. ?f i) + ?f n) = (\<Sum>i<Suc n. ?f i)"
      using bound [OF Suc.prems] by (subst wrap_i64_id) (simp_all only: abs_le_iff, simp_all)
    moreover have "?step (\<Sum>i<n. ?f i) n = Ok (wrap_i64 ((\<Sum>i<n. ?f i) + ?f n))"
      using idx [of n] Suc.prems by simp
    ultimately show ?case using Suc by (simp add: ofold_append)
  qed simp
  from this [of width] show "dot_product width input weights row col = Ok (matrix_entry width input weights row col)"
    by (simp add: dot_product_def matrix_entry_def)
qed

lemma layer_spec_wf:
  "length (layer_spec rows width layer masks weights input) = rows * width"
  "list_all nonzero_small (layer_spec rows width layer masks weights input)"
  by (simp_all add: layer_spec_def list_all_iff quantize_spec_small)

text \<open>Filling the output buffer cell by cell computes one layer.\<close>

lemma write_cells_exact:
  assumes w: "width < 2 ^ 32" and r: "rows < 2 ^ 32" and l: "layer < 2 ^ 32"
    and len: "length input = rows * width" "length weights = width * width" "length masks = rows * width"
      "length output = rows * width"
    and small: "list_all nonzero_small input" "list_all nonzero_small weights"
  shows "ofold (write_cell width layer input weights masks) output (List.product [0..<rows] [0..<width]) =
    Ok (layer_spec rows width layer masks weights input)"
  unfolding product_indices ofold_map layer_spec_def
proof (rule ofold_fill)
  fix ys :: "int list" and k
  assume ys: "length ys = rows * width" and k: "k < rows * width"
  then have "0 < width" by (metis gr0I less_nat_zero_code mult_0_right)
  then have rc: "k div width < rows" "k mod width < width" "k div width * width + k mod width = k"
    using k by (simp_all add: less_mult_imp_div_less)
  have "(k div width + 1) * width \<le> rows * width" using rc(1) by (intro mult_right_mono) simp_all
  then have "k div width * width + width \<le> length input" using len by simp
  note dot = dot_product_exact [OF w rc(2) this len(2) small]
  have "k div width < 2 ^ 32" "k mod width < 2 ^ 32" using rc r w by linarith+
  note q = quantize_exact [OF dot(2) l this]
  show "write_cell width layer input weights masks ys (k div width, k mod width) =
    Ok (ys[k := quantize_spec (matrix_entry width input weights (k div width) (k mod width)
          + uint (masks ! k)) layer (k div width) (k mod width)])"
    unfolding write_cell_def prod.case dot(1) obind.simps rc(3)
    using k len(3) ys by (simp add: q)
qed (use len in simp)

lemma apply_layers_exact:
  assumes C: "crypto_ok C" and w: "width < 2 ^ 32" and r: "rows < 2 ^ 32"
    and l: "layer + length ws \<le> 2 ^ 32"
    and len: "length input = rows * width" "length output = rows * width" "list_all nonzero_small input"
    and ws: "list_all (\<lambda>weights. length weights = width * width \<and> list_all nonzero_small weights) ws"
  shows "\<exists>out fixture'. ofold (apply_layer C rows width challenge) (input, output, fixture) (enumerate layer ws) =
      (Ok (layers_spec C rows width challenge layer ws input, out, fixture') :: ('e, _) outcome)
    \<and> (fixture' = None \<longleftrightarrow> fixture = None)
    \<and> length (layers_spec C rows width challenge layer ws input) = rows * width
    \<and> list_all nonzero_small (layers_spec C rows width challenge layer ws input)"
  using l len ws
proof (induction ws arbitrary: layer input "output" fixture)
  case Nil
  then show ?case by simp
next
  case (Cons weights ws)
  let ?masks = "derive_bytes C MASK_DOMAIN challenge (word_of_nat layer) (rows * width)"
  let ?next = "layer_spec rows width layer ?masks weights input"
  let ?fix = "map_option (\<lambda>bytes. bytes @ as_u8_slice weights @ ?masks) fixture"
  have masks: "length ?masks = rows * width" using C by (simp add: derive_bytes_def crypto_lengths)
  have "layer < 2 ^ 32" using Cons.prems(1) by simp
  then have step: "apply_layer C rows width challenge (input, output, fixture) (layer, weights) =
      Ok (?next, input, ?fix)"
    using Cons.prems(5)
    by (simp add: apply_layer_def Let_def write_cells_exact [OF w r _ Cons.prems(2) _ masks Cons.prems(3,4)])
  have "Suc layer + length ws \<le> 2 ^ 32" using Cons.prems(1) by simp
  note IH = Cons.IH [OF this layer_spec_wf(1) Cons.prems(2) layer_spec_wf(2), of layer ?masks weights input ?fix]
  show ?case
    using IH Cons.prems(5) by (simp add: step)
qed

lemma forge_new_fold:
  "snd (fold (\<lambda>layer (h, m). (h @ f layer, m @ [g layer])) xs (a, b)) = b @ map g xs"
  by (induction xs arbitrary: a b) simp_all

lemma forge_new_wf:
  assumes "crypto_ok C" "forge_new C p = Ok v"
  shows "wf_forge_verifier v" "fv_profile v = p"
proof -
  let ?n = "unat (fp_dimension p)"
  let ?g = "\<lambda>layer. map nonzero_i8
     (derive_bytes C MODEL_DOMAIN (fp_model_seed p) (word_of_nat layer) (?n * ?n))"
  show p: "fv_profile v = p"
    using assms by (auto simp: forge_new_def Let_def)
  have "fv_model v = map ?g [0..<unat (fp_layers p)]"
    using assms(2) by (auto simp: forge_new_def Let_def usize_mul_def forge_new_fold split: if_splits)
  then show "wf_forge_verifier v"
    using assms(1)
    by (simp add: wf_forge_verifier_def p list_all_iff derive_bytes_def crypto_lengths nonzero_i8_small)
qed

lemma compute_activation_exact:
  assumes C: "crypto_ok C" and v: "wf_forge_verifier v"
  shows "\<exists>fixture'. compute_activation C v challenge fixture =
      (Ok (activation_spec C v challenge, fixture') :: ('e, _) outcome)
    \<and> (fixture' = None \<longleftrightarrow> fixture = None)
    \<and> length (activation_spec C v challenge) = unat (fp_batch (fv_profile v)) * unat (fp_dimension (fv_profile v))
    \<and> list_all nonzero_small (activation_spec C v challenge)"
proof -
  let ?r = "unat (fp_batch (fv_profile v))" and ?w = "unat (fp_dimension (fv_profile v))"
  let ?init = "map nonzero_i8 (derive_bytes C ACTIVATION_DOMAIN challenge 0 (?r * ?w))"
  let ?fix = "map_option (\<lambda>bytes. bytes @ as_u8_slice ?init) fixture"
  have b: "?r < 2 ^ 32" "?w < 2 ^ 32" "unat (fp_layers (fv_profile v)) < 2 ^ 32"
    using unsigned_less [of "fp_batch (fv_profile v)", where ?'a = nat]
      unsigned_less [of "fp_dimension (fv_profile v)", where ?'a = nat]
      unsigned_less [of "fp_layers (fv_profile v)", where ?'a = nat] by simp_all
  have init: "length ?init = ?r * ?w" "list_all nonzero_small ?init"
    using C by (simp_all add: derive_bytes_def crypto_lengths list_all_iff nonzero_i8_small)
  have len: "length (replicate (?r * ?w) (0 :: int)) = ?r * ?w" by simp
  have m: "0 + length (fv_model v) \<le> 2 ^ 32"
    and ws: "list_all (\<lambda>weights. length weights = ?w * ?w \<and> list_all nonzero_small weights) (fv_model v)"
    using v b(3) by (simp_all add: wf_forge_verifier_def)
  from apply_layers_exact [OF C b(2,1) m init(1) len init(2) ws, of challenge ?fix, where ?'e = 'e]
  obtain out fixture' where
    "ofold (apply_layer C ?r ?w challenge) (?init, replicate (?r * ?w) 0, ?fix) (enumerate 0 (fv_model v)) =
      (Ok (activation_spec C v challenge, out, fixture') :: ('e, _) outcome)" "fixture' = None \<longleftrightarrow> fixture = None"
    "length (activation_spec C v challenge) = ?r * ?w" "list_all nonzero_small (activation_spec C v challenge)"
    unfolding activation_spec_def Let_def by fastforce
  then show ?thesis unfolding compute_activation_def Let_def by auto
qed

section \<open>The prover and the verifier\<close>

lemma evaluate_exact:
  assumes "crypto_ok C" "wf_forge_verifier v"
  shows "(evaluate C v block nonce :: ('e, _) outcome) =
    (let challenge = challenge_digest C (fv_profile v) (fv_model_root v) block nonce;
         output_digest = b3_derive C OUTPUT_DOMAIN (challenge @ as_u8_slice (activation_spec C v challenge))
     in Ok \<lparr>ev_output_digest = output_digest,
            ev_work_digest = b3_derive C WORK_DOMAIN (challenge @ fv_model_root v @ output_digest),
            ev_stats = work_stats_of (fv_profile v)\<rparr>)"
proof -
  let ?c = "challenge_digest C (fv_profile v) (fv_model_root v) block nonce"
  obtain f where "compute_activation C v ?c None = (Ok (activation_spec C v ?c, f) :: ('e, _) outcome)"
    using compute_activation_exact [OF assms, of ?c None, where ?'e = 'e] by blast
  then show ?thesis
    unfolding evaluate_def Let_def by simp
qed

lemma evaluate_stats: "evaluate C v block nonce = Ok e \<Longrightarrow> ev_stats e = work_stats_of (fv_profile v)"
  by (auto simp: evaluate_def Let_def)

lemma forge_prove_total:
  assumes "crypto_ok C" "wf_forge_verifier v"
  shows "\<exists>p. forge_prove C v block nonce = Ok p"
  using evaluate_exact [OF assms] by (auto simp: forge_prove_def Let_def)

lemma forge_verify_exact:
  "(\<exists>s. forge_verify C v block p = Ok s) \<longleftrightarrow>
     (forge_prove C v block (pr_nonce p) :: (forge_error, _) outcome) = Ok p
       \<and> meets_target (pr_work_digest p) (bc_target block)"
  by (cases p) (auto simp: forge_verify_def verify_relation_def forge_prove_def)

interpretation forge_v1: pow_scheme
  "\<lambda>(C, v). crypto_ok C \<and> wf_forge_verifier v" "\<lambda>(C, v). forge_prove C v" "\<lambda>(C, v). forge_verify C v"
  "\<lambda>block p. meets_target (pr_work_digest p) (bc_target block)" pr_nonce
  "\<lambda>(C, v). forge_mine_from C v" FE_NonceExhausted
proof (unfold_locales, goal_cases)
  case (1 cv block n p)
  then show ?case by (auto simp: forge_prove_def split: prod.splits)
next
  case (2 cv block p)
  then show ?case using forge_verify_exact by (auto split: prod.splits)
qed (simp_all split: prod.splits)

section \<open>Targets\<close>

lemma le_nat_replicate_255: "le_nat (replicate n 255) = 256 ^ n - 1"
proof (induction n)
  case (Suc n)
  have "(1::nat) \<le> 256 ^ n" by simp
  then show ?case unfolding replicate_Suc le_nat.simps Suc.IH power_Suc
    by (simp add: diff_mult_distrib2)
qed simp

lemma be_nat_zeros: "be_nat (replicate k 0 @ bs) = be_nat bs"
  by (simp add: be_nat_def le_nat_append) (induction k, simp_all add: replicate_append_same [symmetric] le_nat_append)

lemma be_nat_ones: "be_nat (replicate n 255) = 256 ^ n - 1"
  by (simp add: be_nat_def le_nat_replicate_255)

lemma drop_bit_255: "k < 8 \<Longrightarrow> unat (drop_bit k (255 :: byte)) = 2 ^ (8 - k) - 1"
proof -
  assume "k < 8"
  then have "k = 0 \<or> k = 1 \<or> k = 2 \<or> k = 3 \<or> k = 4 \<or> k = 5 \<or> k = 6 \<or> k = 7" by linarith
  then show ?thesis by (elim disjE) simp_all
qed

lemma target_bits_value:
  assumes "q < 32" "k < 8"
  shows "be_nat (replicate q 0 @ drop_bit k 255 # replicate (31 - q) 255) = 2 ^ (256 - (8 * q + k)) - 1"
proof -
  have pos: "(0::nat) < 256 ^ (31 - q)" by simp
  have "be_nat (replicate q 0 @ drop_bit k 255 # replicate (31 - q) 255) =
      (2 ^ (8 - k) - 1) * 256 ^ (31 - q) + (256 ^ (31 - q) - 1)"
    unfolding be_nat_zeros be_nat_Cons be_nat_ones length_replicate drop_bit_255 [OF assms(2)] ..
  also have "\<dots> = 2 ^ (8 - k) * 256 ^ (31 - q) - 1"
    using pos by (simp add: diff_mult_distrib)
  also have "(2::nat) ^ (8 - k) * 256 ^ (31 - q) = 2 ^ (256 - (8 * q + k))"
  proof -
    have "8 - k + 8 * (31 - q) = 256 - (8 * q + k)" using assms by simp
    then show ?thesis unfolding pow256 power_add [symmetric] by simp
  qed
  finally show ?thesis .
qed

lemma target_with_leading_zero_bits_value:
  "length (target_with_leading_zero_bits bits) = 32 \<and>
   be_nat (target_with_leading_zero_bits bits) = 2 ^ (256 - min (unat bits) 256) - 1"
proof -
  define n where "n = min (unat bits) 256"
  have n: "unat (min bits 256) = n" by (simp add: n_def min_def word_le_nat_alt)
  have q: "unat (min bits 256 div 8) = n div 8" and k: "unat (min bits 256 mod 8) = n mod 8"
    by (simp_all add: unat_div unat_mod n)
  have split: "n = 8 * (n div 8) + n mod 8" "n mod 8 < 8" by simp_all
  show ?thesis
  proof (cases "n div 8 < 32")
    case True
    define q where "q = n div 8"
    define m where "m = n mod 8"
    have 1: "replicate q 0 @ replicate (32 - q) (0xff :: byte) =
        replicate q 0 @ 0xff # replicate (31 - q) 0xff"
      using True by (simp add: q_def Suc_diff_Suc flip: replicate_Suc)
    have "target_with_leading_zero_bits bits = replicate q 0 @ drop_bit m 255 # replicate (31 - q) 255"
      unfolding target_with_leading_zero_bits_def Let_def \<open>unat (min bits 256 div 8) = n div 8\<close> k
        q_def [symmetric] m_def [symmetric] 1
      using True by (auto simp: q_def list_update_append)
    then show ?thesis
      using target_bits_value [of q m] True split unfolding q_def m_def n_def by simp
  next
    case False
    moreover have "n \<le> 256" by (simp add: n_def)
    ultimately have "n = 256" by linarith
    then show ?thesis
      unfolding n_def [symmetric] target_with_leading_zero_bits_def Let_def q k
      using be_nat_zeros [of 32 "[]"] by simp
  qed
qed

section \<open>Properties\<close>

definition demo_profile :: forge_profile where
  "demo_profile = \<lparr>fp_algorithm_version = 1, fp_model_version = 1, fp_dimension = 1, fp_batch = 1,
     fp_layers = 1, fp_model_seed = replicate 32 1\<rparr>"

definition demo_verifier :: forge_verifier where
  "demo_verifier = \<lparr>fv_profile = demo_profile, fv_model = [[-122]], fv_model_root = replicate 32 25\<rparr>"

definition demo_challenge :: block_challenge where
  "demo_challenge = \<lparr>bc_network_id = replicate 32 1, bc_previous_block = replicate 32 2,
     bc_transaction_root = replicate 32 3, bc_height = 7, bc_timestamp = 1000,
     bc_target = replicate 32 200\<rparr>"

lemma replicate_32_eq: "replicate 32 a = replicate 32 b \<longleftrightarrow> a = b"
  by (simp add: replicate_eq_replicate)

lemma demo_forge_new: "forge_new demo_crypto demo_profile = Ok demo_verifier"
  by (simp add: forge_new_def demo_profile_def demo_verifier_def usize_mul_def demo_crypto_def
      derive_bytes_def nonzero_i8_def MODEL_DOMAIN_def replicate_32_eq)

text \<open>C34. For a verifier made by \<open>new\<close> the double-buffered loop of \<open>compute_activation\<close> never
  indexes out of range and never wraps a 64-bit accumulator: it returns the chain of matrix
  products over the integers, each entry quantised to a nonzero signed byte.\<close>

theorem activation_is_matrix_chain:
  assumes "crypto_ok C" "forge_new C p = Ok v"
  shows "\<exists>f. compute_activation C v challenge fixture =
      (Ok (activation_spec C v challenge, f) :: (forge_error, _) outcome)
    \<and> length (activation_spec C v challenge) = unat (fp_batch p) * unat (fp_dimension p)
    \<and> list_all nonzero_small (activation_spec C v challenge)"
  using compute_activation_exact [OF assms(1) forge_new_wf(1) [OF assms], of challenge fixture,
      where ?'e = forge_error] forge_new_wf(2) [OF assms] by auto

theorem activation_is_matrix_chain_witness:
  "\<exists>f. compute_activation demo_crypto demo_verifier zero32 (Some []) =
      (Ok (activation_spec demo_crypto demo_verifier zero32, f) :: (forge_error, _) outcome)
    \<and> activation_spec demo_crypto demo_verifier zero32 = [30]"
proof -
  have "activation_spec demo_crypto demo_verifier zero32 = [30]"
    by (simp add: activation_spec_def demo_verifier_def demo_profile_def derive_bytes_def demo_crypto_def
        nonzero_i8_def layer_spec_def matrix_entry_def quantize_spec_def)
  with activation_is_matrix_chain [OF crypto_ok_demo demo_forge_new, of zero32 "Some []"]
  show ?thesis by auto
qed

text \<open>Mining returns a proof exactly when some nonce of the searched range meets the target;
  the proof it returns is accepted by \<open>verify\<close> on the same challenge, and mining never panics.\<close>

theorem forge_mined_proof_verifies:
  assumes "crypto_ok C" "forge_new C p = Ok v"
  shows "(\<exists>q. forge_mine C v block start attempts = Ok q \<and>
        forge_verify C v block q = Ok (work_stats_of p) \<and>
        (\<exists>i<unat attempts. pr_nonce q = start + word_of_nat i))
    \<or> forge_mine C v block start attempts = Err FE_NonceExhausted \<and>
      (\<forall>i<unat attempts. \<forall>q. forge_prove C v block (start + word_of_nat i) = (Ok q :: (forge_error, _) outcome)
         \<longrightarrow> \<not> meets_target (pr_work_digest q) (bc_target block))"
proof -
  let ?prove = "\<lambda>i. forge_prove C v block (start + word_of_nat i) :: (forge_error, _) outcome"
  let ?meets = "\<lambda>q. meets_target (pr_work_digest q) (bc_target block)"
  note wf = forge_new_wf [OF assms]
  have total: "\<exists>q. ?prove i = Ok q" for i
    by (rule forge_prove_total [OF assms(1) wf(1)])
  show ?thesis
  proof (cases "\<forall>i<unat attempts. \<forall>q. ?prove i = Ok q \<longrightarrow> \<not> ?meets q")
    case True
    then have "\<exists>q. ?prove i = Ok q \<and> \<not> ?meets q" if "i < unat attempts" for i
      using total that by blast
    then have "forge_mine C v block start attempts = Err FE_NonceExhausted"
      using forge_v1.search_exhausted [of "unat attempts" "(C, v)" block start] by (simp add: forge_mine_def)
    with True show ?thesis by blast
  next
    case False
    then obtain i q0 where "i < unat attempts" "?prove i = Ok q0" "?meets q0" by blast
    then obtain q where q: "forge_mine_from C v block start (unat attempts) = Ok q"
      using forge_v1.search_complete [of "unat attempts" "(C, v)" block start i q0] total by auto
    then obtain j where j: "j < unat attempts" "?prove j = Ok q"
      using forge_v1.search_OkD [of "(C, v)" block start "unat attempts" q] by auto
    have "\<exists>s. forge_verify C v block q = Ok s"
      using forge_v1.found_checks [of "(C, v)" block start "unat attempts" q] assms(1) wf(1) q by simp
    then have "forge_verify C v block q = Ok (work_stats_of p)"
      using evaluate_stats wf(2) by (auto simp: forge_verify_def verify_relation_def)
    moreover have "pr_nonce q = start + word_of_nat j" using j(2) by (auto simp: forge_prove_def)
    ultimately show ?thesis using q j(1) by (auto simp: forge_mine_def)
  qed
qed

theorem forge_mined_proof_verifies_witness:
  "\<exists>q. forge_mine demo_crypto demo_verifier demo_challenge 5 1 = Ok q \<and>
     forge_verify demo_crypto demo_verifier demo_challenge q = Ok (work_stats_of demo_profile)"
proof -
  have "\<exists>q. forge_prove demo_crypto demo_verifier demo_challenge 5 = (Ok q :: (forge_error, _) outcome) \<and>
      meets_target (pr_work_digest q) (bc_target demo_challenge)"
    using evaluate_exact [OF crypto_ok_demo forge_new_wf(1) [OF crypto_ok_demo demo_forge_new],
        of demo_challenge 5, where ?'e = forge_error]
    by (simp add: forge_prove_def Let_def demo_challenge_def demo_crypto_simps WORK_DOMAIN_def
        meets_target_def lex_le_replicate)
  with forge_mined_proof_verifies [OF crypto_ok_demo demo_forge_new, of demo_challenge 5 1]
  show ?thesis by auto
qed

text \<open>\<open>target_with_leading_zero_bits\<close> builds the target whose value is \<open>2\<^sup>2\<^sup>5\<^sup>6\<^sup>-\<^sup>b - 1\<close>
  (with \<open>b\<close> capped at 256), and the bytewise comparison of \<open>meets_target\<close> decides whether a
  digest, read as a big-endian number, is at most that value.\<close>

theorem leading_zero_target_is_threshold:
  assumes "length digest = 32"
  shows "meets_target digest (target_with_leading_zero_bits bits) \<longleftrightarrow>
    be_nat digest < 2 ^ (256 - min (unat bits) 256)"
proof -
  note t = target_with_leading_zero_bits_value [of bits]
  have "x \<le> 2 ^ k - 1 \<longleftrightarrow> x < 2 ^ k" for x k :: nat
    using zero_less_power [of "2::nat" k] by (simp, linarith)
  then show ?thesis
    unfolding meets_target_def using t lex_le_iff_be_nat [of digest] assms by simp
qed

theorem leading_zero_target_is_threshold_witness:
  "meets_target zero32 (target_with_leading_zero_bits 12) \<and>
   \<not> meets_target (replicate 32 255) (target_with_leading_zero_bits 12)"
  using leading_zero_target_is_threshold [of zero32 12]
    leading_zero_target_is_threshold [of "replicate 32 255" 12]
  by (simp add: be_nat_ones)

end
