(* ===== verification/CF_Model_Bank.thy ===== *)
theory CF_Model_Bank
  imports CF_Prelude
begin

text \<open>
  The canonical storage of ForgeMatrix v2 model bytes:
  \<open>crates/cmfd-consensus/src/model_bank.rs\<close>.

  A bank is a 184-byte header followed by the base input and every layer. An input stream is
  the bytes it still holds and whether it ends in an I/O failure or in a clean end of file. An
  incremental hasher is the bytes absorbed so far. The lemmas show that the chunked streaming
  verifier accepts every bank the writer builds and that acceptance means the payload has the
  declared length, contains canonical bytes only and hashes to the trusted roots.
\<close>

section \<open>Data\<close>

definition MODEL_BANK_MAGIC :: "byte list" where
  "MODEL_BANK_MAGIC = bytes_of_string ''CMFDBNK2''"

definition MODEL_BANK_FORMAT_VERSION :: u32 where
  "MODEL_BANK_FORMAT_VERSION = 2"

definition MODEL_BANK_HEADER_BYTES :: nat where
  "MODEL_BANK_HEADER_BYTES = 184"

definition MAX_MODEL_BYTE :: u8 where
  "MAX_MODEL_BYTE = 250"

definition MAX_SMALL_FIXTURE_PAYLOAD_BYTES :: u64 where
  "MAX_SMALL_FIXTURE_PAYLOAD_BYTES = 16 * 1024 * 1024"

definition LAYER_ROOTS_DOMAIN :: string where
  "LAYER_ROOTS_DOMAIN = ''CMFD/FORGEMATRIX/V2/LAYER-ROOTS''"

definition MANIFEST_DOMAIN :: string where
  "MANIFEST_DOMAIN = ''CMFD/FORGEMATRIX/V2/MANIFEST''"

definition VERIFY_CHUNK_BYTES :: u64 where
  "VERIFY_CHUNK_BYTES = 64 * 1024"

record manifest =
  mb_model_version :: u32
  mb_dimension :: u32
  mb_batch :: u32
  mb_layers :: u32
  mb_base_input_bytes :: u64
  mb_bytes_per_layer :: u64
  mb_payload_bytes :: u64
  mb_raw_blake3_root :: hash32
  mb_layer_roots_aggregate :: hash32
  mb_pcs_parameter_digest :: hash32
  mb_pcs_commitment_root :: hash32

datatype model_bank_error =
    ME_InvalidMagic | ME_UnsupportedFormatVersion | ME_InvalidHeaderLength
  | ME_InvalidModelVersion | ME_InvalidDimensions | ME_SizeOverflow | ME_NonCanonicalLengths
  | ME_ManifestMismatch | ME_PcsParameterDigestMismatch | ME_PcsCommitmentRootMismatch
  | ME_Truncated | ME_TrailingBytes | ME_OutOfRange u64 u8 | ME_RawRootMismatch
  | ME_LayerRootsAggregateMismatch | ME_FixtureTooLarge | ME_BaseInputLength | ME_LayerShape
  | ME_Io

record small_fixture =
  fx_model_version :: u32
  fx_dimension :: u32
  fx_batch :: u32
  fx_base_input :: "byte list"
  fx_layers :: "byte list list"
  fx_pcs_parameter_digest :: hash32
  fx_pcs_commitment_root :: hash32

record built_bank =
  bb_bytes :: "byte list"
  bb_manifest :: manifest

record io_reader =
  io_data :: "byte list"
  io_fault :: bool

section \<open>Manifests and headers\<close>

definition encode_header :: "manifest \<Rightarrow> byte list" where
  "encode_header m =
     MODEL_BANK_MAGIC @ to_le_bytes MODEL_BANK_FORMAT_VERSION @
     to_le_bytes (word_of_nat MODEL_BANK_HEADER_BYTES :: u32) @
     to_le_bytes (mb_model_version m) @ to_le_bytes (mb_dimension m) @
     to_le_bytes (mb_batch m) @ to_le_bytes (mb_layers m) @
     to_le_bytes (mb_base_input_bytes m) @ to_le_bytes (mb_bytes_per_layer m) @
     to_le_bytes (mb_payload_bytes m) @
     mb_raw_blake3_root m @ mb_layer_roots_aggregate m @ mb_pcs_parameter_digest m @
     mb_pcs_commitment_root m"

definition mb_validate_shape :: "manifest \<Rightarrow> (model_bank_error, unit) outcome" where
  "mb_validate_shape m =
     (if mb_model_version m = 0 then Err ME_InvalidModelVersion
      else if mb_dimension m = 0 \<or> mb_batch m = 0 \<or> mb_layers m = 0 then Err ME_InvalidDimensions
      else
        let dimension = (ucast (mb_dimension m) :: u64) in
        obind (ok_or ME_SizeOverflow (checked_mul (ucast (mb_batch m)) dimension)) (\<lambda>expected_base.
        obind (ok_or ME_SizeOverflow (checked_mul dimension dimension)) (\<lambda>expected_layer.
        obind (ok_or ME_SizeOverflow
            (Option.bind (checked_mul (ucast (mb_layers m)) expected_layer)
               (\<lambda>layers. checked_add layers expected_base))) (\<lambda>expected_payload.
          if mb_base_input_bytes m \<noteq> expected_base \<or> mb_bytes_per_layer m \<noteq> expected_layer
             \<or> mb_payload_bytes m \<noteq> expected_payload
          then Err ME_NonCanonicalLengths
          else Ok ()))))"

definition manifest_digest :: "crypto \<Rightarrow> manifest \<Rightarrow> (model_bank_error, hash32) outcome" where
  "manifest_digest C m =
     obind (mb_validate_shape m) (\<lambda>_. Ok (b3_derive C MANIFEST_DOMAIN (encode_header m)))"

definition read_exact :: "nat \<Rightarrow> io_reader \<Rightarrow> (model_bank_error, byte list \<times> io_reader) outcome" where
  "read_exact n r =
     (if n \<le> length (io_data r)
      then Ok (take n (io_data r), r\<lparr>io_data := drop n (io_data r)\<rparr>)
      else if io_fault r then Err ME_Io else Err ME_Truncated)"

definition field_at :: "byte list \<Rightarrow> nat \<Rightarrow> nat \<Rightarrow> byte list" where
  "field_at header offset n = take n (drop offset header)"

definition read_header :: "io_reader \<Rightarrow> (model_bank_error, manifest \<times> io_reader) outcome" where
  "read_header r =
     obind (read_exact MODEL_BANK_HEADER_BYTES r) (\<lambda>(h, r').
       if field_at h 0 8 \<noteq> MODEL_BANK_MAGIC then Err ME_InvalidMagic
       else if from_le_bytes (field_at h 8 4) \<noteq> MODEL_BANK_FORMAT_VERSION
         then Err ME_UnsupportedFormatVersion
       else if (from_le_bytes (field_at h 12 4) :: u32) \<noteq> word_of_nat MODEL_BANK_HEADER_BYTES
         then Err ME_InvalidHeaderLength
       else
         let m = \<lparr>mb_model_version = from_le_bytes (field_at h 16 4),
                  mb_dimension = from_le_bytes (field_at h 20 4),
                  mb_batch = from_le_bytes (field_at h 24 4),
                  mb_layers = from_le_bytes (field_at h 28 4),
                  mb_base_input_bytes = from_le_bytes (field_at h 32 8),
                  mb_bytes_per_layer = from_le_bytes (field_at h 40 8),
                  mb_payload_bytes = from_le_bytes (field_at h 48 8),
                  mb_raw_blake3_root = field_at h 56 32,
                  mb_layer_roots_aggregate = field_at h 88 32,
                  mb_pcs_parameter_digest = field_at h 120 32,
                  mb_pcs_commitment_root = field_at h 152 32\<rparr> in
         obind (mb_validate_shape m) (\<lambda>_. Ok (m, r')))"

definition compare_manifests :: "manifest \<Rightarrow> manifest \<Rightarrow> (model_bank_error, unit) outcome" where
  "compare_manifests expected actual =
     (if mb_pcs_parameter_digest actual \<noteq> mb_pcs_parameter_digest expected
        then Err ME_PcsParameterDigestMismatch
      else if mb_pcs_commitment_root actual \<noteq> mb_pcs_commitment_root expected
        then Err ME_PcsCommitmentRootMismatch
      else if actual \<noteq> expected then Err ME_ManifestMismatch
      else Ok ())"

section \<open>Payload\<close>

fun validate_values :: "byte list \<Rightarrow> u64 \<Rightarrow> (model_bank_error, unit) outcome" where
  "validate_values [] offset = Ok ()"
| "validate_values (b # bs) offset =
     (if MAX_MODEL_BYTE < b then Err (ME_OutOfRange offset b) else validate_values bs (offset + 1))"

definition start_layer_aggregate :: "u32 \<Rightarrow> byte list" where
  "start_layer_aggregate layers = to_le_bytes layers"

definition add_layer_root :: "byte list \<Rightarrow> u32 \<Rightarrow> hash32 \<Rightarrow> byte list" where
  "add_layer_root aggregate index root = aggregate @ to_le_bytes index @ root"

text \<open>The loop of \<open>stream_section\<close>: the state is the reader, the payload offset and the bytes
  absorbed by the two hashers.\<close>

function stream_section ::
  "io_reader \<Rightarrow> u64 \<Rightarrow> u64 \<Rightarrow> byte list \<Rightarrow> byte list
     \<Rightarrow> (model_bank_error, io_reader \<times> u64 \<times> byte list \<times> byte list) outcome" where
  "stream_section r remaining payload_offset raw sec =
     (if remaining = 0 then Ok (r, payload_offset, raw, sec)
      else
        let n = min remaining VERIFY_CHUNK_BYTES in
        obind (read_exact (unat n) r) (\<lambda>(chunk, r').
        obind (validate_values chunk payload_offset) (\<lambda>_.
        obind (ok_or ME_SizeOverflow (checked_add payload_offset n)) (\<lambda>offset'.
        stream_section r' (remaining - n) offset' (raw @ chunk) (sec @ chunk)))))"
  by pat_completeness auto
termination
proof (relation "measure (\<lambda>(r, n, off, raw, s). unat n)")
  fix r raw remaining payload_offset sec n z x y za zb
  assume "remaining \<noteq> (0 :: u64)" "n = min remaining VERIFY_CHUNK_BYTES"
  then have "n \<noteq> 0" "n \<le> remaining" by (auto simp: min_def VERIFY_CHUNK_BYTES_def)
  then have "unat n \<noteq> 0" "unat n \<le> unat remaining" "unat (remaining - n) = unat remaining - unat n"
    by (simp_all add: unat_sub_no_underflow word_le_nat_alt unat_eq_0)
  then have "unat (remaining - n) < unat remaining" by linarith
  then show "((y :: io_reader, remaining - n, zb, raw @ x, sec @ x), r, remaining, payload_offset, raw, sec)
      \<in> measure (\<lambda>(r, n, off, raw, s). unat n)"
    by simp
qed simp

declare stream_section.simps [simp del]

definition verify_layer ::
  "crypto \<Rightarrow> u64 \<Rightarrow> io_reader \<times> u64 \<times> byte list \<times> byte list \<Rightarrow> nat
     \<Rightarrow> (model_bank_error, io_reader \<times> u64 \<times> byte list \<times> byte list) outcome" where
  "verify_layer C bytes_per_layer s index =
     (case s of (r, offset, raw, aggregate) \<Rightarrow>
       obind (stream_section r bytes_per_layer offset raw []) (\<lambda>(r', offset', raw', layer).
       Ok (r', offset', raw', add_layer_root aggregate (word_of_nat index) (b3_hash C layer))))"

definition verify_model_bank ::
  "crypto \<Rightarrow> io_reader \<Rightarrow> manifest \<Rightarrow> (model_bank_error, unit) outcome" where
  "verify_model_bank C reader expected =
     obind (mb_validate_shape expected) (\<lambda>_.
     obind (read_header reader) (\<lambda>(actual, r0).
     obind (compare_manifests expected actual) (\<lambda>_.
     obind (stream_section r0 (mb_base_input_bytes actual) 0 [] []) (\<lambda>(r1, offset1, raw1, _).
     obind (ofold (verify_layer C (mb_bytes_per_layer actual))
              (r1, offset1, raw1, start_layer_aggregate (mb_layers actual))
              [0..<unat (mb_layers actual)]) (\<lambda>(r2, offset2, raw2, aggregate).
       if offset2 \<noteq> mb_payload_bytes actual then Err ME_NonCanonicalLengths
       else if b3_hash C raw2 \<noteq> mb_raw_blake3_root actual then Err ME_RawRootMismatch
       else if b3_derive C LAYER_ROOTS_DOMAIN aggregate \<noteq> mb_layer_roots_aggregate actual
         then Err ME_LayerRootsAggregateMismatch
       else if io_data r2 \<noteq> [] then Err ME_TrailingBytes
       else if io_fault r2 then Err ME_Io
       else Ok ())))))"

section \<open>The fixture writer\<close>

fun layer_aggregate :: "crypto \<Rightarrow> byte list \<Rightarrow> nat \<Rightarrow> byte list list \<Rightarrow> byte list" where
  "layer_aggregate C aggregate index [] = aggregate"
| "layer_aggregate C aggregate index (l # ls) =
     layer_aggregate C (add_layer_root aggregate (word_of_nat index) (b3_hash C l)) (Suc index) ls"

definition validate_layer :: "u64 \<Rightarrow> u64 \<Rightarrow> byte list \<Rightarrow> (model_bank_error, u64) outcome" where
  "validate_layer bytes_per_layer offset layer =
     obind (validate_values layer offset) (\<lambda>_.
     ok_or ME_SizeOverflow (checked_add offset bytes_per_layer))"

definition build_small_model_bank :: "crypto \<Rightarrow> small_fixture \<Rightarrow> (model_bank_error, built_bank) outcome" where
  "build_small_model_bank C f =
     (if fx_model_version f = 0 then Err ME_InvalidModelVersion
      else if fx_dimension f = 0 \<or> fx_batch f = 0 \<or> fx_layers f = [] then Err ME_InvalidDimensions
      else
        let dimension = (ucast (fx_dimension f) :: u64) in
        obind (ok_or ME_SizeOverflow (checked_mul (ucast (fx_batch f)) dimension)) (\<lambda>base_input_bytes.
        obind (ok_or ME_SizeOverflow (checked_mul dimension dimension)) (\<lambda>bytes_per_layer.
        if 2 ^ 32 \<le> length (fx_layers f) then Err ME_SizeOverflow
        else
          let layers = (word_of_nat (length (fx_layers f)) :: u32) in
          obind (ok_or ME_SizeOverflow
              (Option.bind (checked_mul (ucast layers) bytes_per_layer)
                 (\<lambda>layer_bytes. checked_add layer_bytes base_input_bytes))) (\<lambda>payload_bytes.
          if MAX_SMALL_FIXTURE_PAYLOAD_BYTES < payload_bytes then Err ME_FixtureTooLarge
          else if length (fx_base_input f) \<noteq> unat base_input_bytes then Err ME_BaseInputLength
          else if list_ex (\<lambda>l. length l \<noteq> unat bytes_per_layer) (fx_layers f) then Err ME_LayerShape
          else
            obind (validate_values (fx_base_input f) 0) (\<lambda>_.
            obind (ofold (validate_layer bytes_per_layer) base_input_bytes (fx_layers f)) (\<lambda>_.
            let m = \<lparr>mb_model_version = fx_model_version f, mb_dimension = fx_dimension f,
                     mb_batch = fx_batch f, mb_layers = layers,
                     mb_base_input_bytes = base_input_bytes, mb_bytes_per_layer = bytes_per_layer,
                     mb_payload_bytes = payload_bytes,
                     mb_raw_blake3_root = b3_hash C (fx_base_input f @ concat (fx_layers f)),
                     mb_layer_roots_aggregate = b3_derive C LAYER_ROOTS_DOMAIN
                       (layer_aggregate C (start_layer_aggregate layers) 0 (fx_layers f)),
                     mb_pcs_parameter_digest = fx_pcs_parameter_digest f,
                     mb_pcs_commitment_root = fx_pcs_commitment_root f\<rparr> in
            Ok \<lparr>bb_bytes = encode_header m @ fx_base_input f @ concat (fx_layers f),
                bb_manifest = m\<rparr>))))))"

section \<open>Lemmas on headers\<close>

definition wf_manifest :: "manifest \<Rightarrow> bool" where
  "wf_manifest m \<longleftrightarrow> length (mb_raw_blake3_root m) = 32 \<and> length (mb_layer_roots_aggregate m) = 32
     \<and> length (mb_pcs_parameter_digest m) = 32 \<and> length (mb_pcs_commitment_root m) = 32"

lemma length_magic [simp]: "length MODEL_BANK_MAGIC = 8"
  by (simp add: MODEL_BANK_MAGIC_def bytes_of_string_def)

lemma length_encode_header: "wf_manifest m \<Longrightarrow> length (encode_header m) = MODEL_BANK_HEADER_BYTES"
  by (simp add: encode_header_def wf_manifest_def MODEL_BANK_HEADER_BYTES_def)

lemma read_exact_Ok:
  "read_exact n r = Ok (bs, r') \<longleftrightarrow>
     n \<le> length (io_data r) \<and> bs = take n (io_data r) \<and> r' = r\<lparr>io_data := drop n (io_data r)\<rparr>"
  by (auto simp: read_exact_def)

lemma field_at_join: "field_at h a n @ drop (a + n) h = drop a h"
  by (simp add: field_at_def) (metis add.commute append_take_drop_id drop_drop)

lemma length_field_at: "a + n \<le> length h \<Longrightarrow> length (field_at h a n) = n"
  by (simp add: field_at_def)

lemma read_header_encode:
  assumes "wf_manifest m" "mb_validate_shape m = Ok ()" "io_data r = encode_header m @ rest"
  shows "read_header r = Ok (m, r\<lparr>io_data := rest\<rparr>)"
proof -
  have len: "length (encode_header m) = 184"
    using assms(1) by (simp add: length_encode_header MODEL_BANK_HEADER_BYTES_def)
  have rd: "read_exact MODEL_BANK_HEADER_BYTES r = Ok (encode_header m, r\<lparr>io_data := rest\<rparr>)"
    using len by (simp add: read_exact_Ok assms(3) MODEL_BANK_HEADER_BYTES_def)
  have fields: "field_at (encode_header m) 0 8 = MODEL_BANK_MAGIC"
    "field_at (encode_header m) 8 4 = to_le_bytes MODEL_BANK_FORMAT_VERSION"
    "field_at (encode_header m) 12 4 = to_le_bytes (word_of_nat MODEL_BANK_HEADER_BYTES :: u32)"
    "field_at (encode_header m) 16 4 = to_le_bytes (mb_model_version m)"
    "field_at (encode_header m) 20 4 = to_le_bytes (mb_dimension m)"
    "field_at (encode_header m) 24 4 = to_le_bytes (mb_batch m)"
    "field_at (encode_header m) 28 4 = to_le_bytes (mb_layers m)"
    "field_at (encode_header m) 32 8 = to_le_bytes (mb_base_input_bytes m)"
    "field_at (encode_header m) 40 8 = to_le_bytes (mb_bytes_per_layer m)"
    "field_at (encode_header m) 48 8 = to_le_bytes (mb_payload_bytes m)"
    "field_at (encode_header m) 56 32 = mb_raw_blake3_root m"
    "field_at (encode_header m) 88 32 = mb_layer_roots_aggregate m"
    "field_at (encode_header m) 120 32 = mb_pcs_parameter_digest m"
    "field_at (encode_header m) 152 32 = mb_pcs_commitment_root m"
    using assms(1) by (simp_all add: field_at_def encode_header_def wf_manifest_def)
  show ?thesis
    unfolding read_header_def rd obind.simps prod.case fields from_to_le_widths Let_def
    using assms(2) by (cases m) simp
qed

lemma encode_fields:
  assumes "length h = 184"
  shows "h = field_at h 0 8 @ field_at h 8 4 @ field_at h 12 4 @ field_at h 16 4 @ field_at h 20 4
    @ field_at h 24 4 @ field_at h 28 4 @ field_at h 32 8 @ field_at h 40 8 @ field_at h 48 8
    @ field_at h 56 32 @ field_at h 88 32 @ field_at h 120 32 @ field_at h 152 32"
proof -
  have last: "field_at h 152 32 = drop 152 h" using assms by (simp add: field_at_def)
  show ?thesis
    unfolding last
    using field_at_join [of h 120 32] field_at_join [of h 88 32] field_at_join [of h 56 32]
      field_at_join [of h 48 8] field_at_join [of h 40 8] field_at_join [of h 32 8]
      field_at_join [of h 28 4] field_at_join [of h 24 4] field_at_join [of h 20 4]
      field_at_join [of h 16 4] field_at_join [of h 12 4] field_at_join [of h 8 4]
      field_at_join [of h 0 8]
    by simp
qed

lemma read_header_decode:
  assumes "read_header r = Ok (m, r')"
  shows "io_data r = encode_header m @ io_data r' \<and> io_fault r' = io_fault r \<and> wf_manifest m \<and>
    mb_validate_shape m = Ok ()"
proof -
  obtain h where rd: "read_exact MODEL_BANK_HEADER_BYTES r = Ok (h, r')"
    and magic: "field_at h 0 8 = MODEL_BANK_MAGIC"
    and version: "from_le_bytes (field_at h 8 4) = MODEL_BANK_FORMAT_VERSION"
    and header: "(from_le_bytes (field_at h 12 4) :: u32) = word_of_nat MODEL_BANK_HEADER_BYTES"
    and m: "m = \<lparr>mb_model_version = from_le_bytes (field_at h 16 4),
                  mb_dimension = from_le_bytes (field_at h 20 4),
                  mb_batch = from_le_bytes (field_at h 24 4),
                  mb_layers = from_le_bytes (field_at h 28 4),
                  mb_base_input_bytes = from_le_bytes (field_at h 32 8),
                  mb_bytes_per_layer = from_le_bytes (field_at h 40 8),
                  mb_payload_bytes = from_le_bytes (field_at h 48 8),
                  mb_raw_blake3_root = field_at h 56 32,
                  mb_layer_roots_aggregate = field_at h 88 32,
                  mb_pcs_parameter_digest = field_at h 120 32,
                  mb_pcs_commitment_root = field_at h 152 32\<rparr>"
    and shape: "mb_validate_shape m = Ok ()"
    using assms by (auto simp: read_header_def Let_def)
  have len: "length h = 184" and data: "io_data r = h @ io_data r'" "io_fault r' = io_fault r"
    using rd by (auto simp: read_exact_Ok MODEL_BANK_HEADER_BYTES_def)
  have version': "field_at h 8 4 = to_le_bytes MODEL_BANK_FORMAT_VERSION"
    and header': "field_at h 12 4 = to_le_bytes (word_of_nat MODEL_BANK_HEADER_BYTES :: u32)"
    using len by (simp_all add: version [symmetric] header [symmetric] to_from_le_widths length_field_at)
  have "encode_header m = h"
    unfolding encode_header_def m
    by (subst (20) encode_fields [OF len])
      (use len in \<open>simp add: magic [symmetric] version' [symmetric] header' [symmetric]
        to_from_le_widths length_field_at\<close>)
  moreover have "wf_manifest m"
    using len by (simp add: wf_manifest_def m length_field_at)
  ultimately show ?thesis using data shape by simp
qed

section \<open>Lemmas on the payload\<close>

definition canonical :: "byte list \<Rightarrow> bool" where
  "canonical bs = list_all (\<lambda>b. b \<le> MAX_MODEL_BYTE) bs"

lemma canonical_append [simp]: "canonical (xs @ ys) \<longleftrightarrow> canonical xs \<and> canonical ys"
  by (simp add: canonical_def)

lemma canonical_concat: "canonical (concat ls) \<longleftrightarrow> list_all canonical ls"
  by (induction ls) (simp_all add: canonical_def)

lemma validate_values_Ok: "validate_values bs offset = Ok () \<longleftrightarrow> canonical bs"
  by (induction bs arbitrary: offset) (auto simp: canonical_def not_less)

lemma validate_values_never_Panic: "returns (validate_values bs offset)"
  by (induction bs arbitrary: offset) auto

text \<open>Streaming a section in chunks of 64 KiB is reading it at once.\<close>

definition read_section ::
  "io_reader \<Rightarrow> u64 \<Rightarrow> u64 \<Rightarrow> byte list \<Rightarrow> byte list \<Rightarrow> io_reader \<times> u64 \<times> byte list \<times> byte list"
  where
  "read_section r n offset raw s =
     (r\<lparr>io_data := drop (unat n) (io_data r)\<rparr>, offset + n,
      raw @ take (unat n) (io_data r), s @ take (unat n) (io_data r))"

definition section_present :: "io_reader \<Rightarrow> u64 \<Rightarrow> u64 \<Rightarrow> bool" where
  "section_present r n offset \<longleftrightarrow> unat n \<le> length (io_data r) \<and>
     canonical (take (unat n) (io_data r)) \<and> unat offset + unat n < 2 ^ 64"

lemma chunk_split:
  assumes "remaining \<noteq> (0 :: u64)"
  defines "n \<equiv> min remaining VERIFY_CHUNK_BYTES"
  shows "unat remaining = unat n + unat (remaining - n)" "n \<le> remaining"
proof -
  show "n \<le> remaining" by (simp add: n_def)
  then show "unat remaining = unat n + unat (remaining - n)"
    by (simp add: unat_sub_no_underflow word_le_nat_alt)
qed

lemma section_present_step:
  assumes rem: "remaining \<noteq> (0 :: u64)" and n: "n = min remaining VERIFY_CHUNK_BYTES"
  shows "section_present r remaining offset \<longleftrightarrow>
     unat n \<le> length (io_data r) \<and> canonical (take (unat n) (io_data r)) \<and>
     unat offset + unat n < 2 ^ 64 \<and>
     section_present (r\<lparr>io_data := drop (unat n) (io_data r)\<rparr>) (remaining - n) (offset + n)"
    and "read_section r remaining offset raw s =
      read_section (r\<lparr>io_data := drop (unat n) (io_data r)\<rparr>) (remaining - n) (offset + n)
        (raw @ take (unat n) (io_data r)) (s @ take (unat n) (io_data r))"
proof -
  note split = chunk_split(1) [OF rem, folded n]
  have tk: "take (unat remaining) xs = take (unat n) xs @ take (unat (remaining - n)) (drop (unat n) xs)"
    and dr: "drop (unat remaining) xs = drop (unat (remaining - n)) (drop (unat n) xs)" for xs :: "byte list"
    by (simp_all add: split take_add add.commute)
  show "section_present r remaining offset \<longleftrightarrow>
     unat n \<le> length (io_data r) \<and> canonical (take (unat n) (io_data r)) \<and>
     unat offset + unat n < 2 ^ 64 \<and>
     section_present (r\<lparr>io_data := drop (unat n) (io_data r)\<rparr>) (remaining - n) (offset + n)"
    using split unat_add_no_overflow [of offset n]
    by (auto simp: section_present_def take_add)
  show "read_section r remaining offset raw s =
      read_section (r\<lparr>io_data := drop (unat n) (io_data r)\<rparr>) (remaining - n) (offset + n)
        (raw @ take (unat n) (io_data r)) (s @ take (unat n) (io_data r))"
    by (simp add: read_section_def tk dr)
qed

lemma stream_section_Ok:
  "stream_section r n offset raw s = Ok res \<longleftrightarrow>
     section_present r n offset \<and> res = read_section r n offset raw s"
proof (induction r n offset raw s rule: stream_section.induct)
  case (1 r remaining offset raw s)
  show ?case
  proof (cases "remaining = 0")
    case True
    then show ?thesis
      using unsigned_less [of offset, where ?'a = nat]
      by (subst stream_section.simps) (auto simp: section_present_def read_section_def canonical_def)
  next
    case False
    define n where "n = min remaining VERIFY_CHUNK_BYTES"
    note step = section_present_step [OF False n_def]
    define r' where "r' = r\<lparr>io_data := drop (unat n) (io_data r)\<rparr>"
    define chunk where "chunk = take (unat n) (io_data r)"
    note IH = "1.IH" [OF False n_def, of "(chunk, r')" chunk r' "()" "offset + n"]
    have "stream_section r remaining offset raw s = Ok res \<longleftrightarrow>
        unat n \<le> length (io_data r) \<and> canonical chunk \<and> unat offset + unat n < 2 ^ 64 \<and>
        stream_section r' (remaining - n) (offset + n) (raw @ chunk) (s @ chunk) = Ok res"
      using False
      by (subst stream_section.simps)
        (auto simp: n_def [symmetric] Let_def read_exact_Ok validate_values_Ok checked_add_Some
          r'_def chunk_def)
    also have "\<dots> \<longleftrightarrow> unat n \<le> length (io_data r) \<and> canonical chunk \<and> unat offset + unat n < 2 ^ 64 \<and>
        section_present r' (remaining - n) (offset + n) \<and>
        res = read_section r' (remaining - n) (offset + n) (raw @ chunk) (s @ chunk)"
      using IH by (auto simp: read_exact_Ok r'_def chunk_def validate_values_Ok checked_add_Some)
    finally show ?thesis
      using step by (auto simp: r'_def chunk_def)
  qed
qed

section \<open>Lemmas on the layers\<close>

definition layers_shaped :: "nat \<Rightarrow> byte list list \<Rightarrow> bool" where
  "layers_shaped n ls = list_all (\<lambda>l. length l = n) ls"

lemma length_concat_shaped: "layers_shaped n ls \<Longrightarrow> length (concat ls) = length ls * n"
  by (induction ls) (simp_all add: layers_shaped_def)

lemma verify_layer_Ok:
  assumes "length l = unat n" "io_data r = l @ rest"
  shows "verify_layer C n (r, offset, raw, agg) k = Ok res \<longleftrightarrow>
    canonical l \<and> unat offset + unat n < 2 ^ 64 \<and>
    res = (r\<lparr>io_data := rest\<rparr>, offset + n, raw @ l, add_layer_root agg (word_of_nat k) (b3_hash C l))"
  using assms
  by (auto simp: verify_layer_def stream_section_Ok section_present_def read_section_def)

lemma verify_layer_short:
  "verify_layer C n (r, offset, raw, agg) k = Ok res \<Longrightarrow> unat n \<le> length (io_data r)"
  by (auto simp: verify_layer_def stream_section_Ok section_present_def)

lemma verify_layers_complete:
  assumes "layers_shaped (unat n) ls" "list_all canonical ls" "io_data r = concat ls @ rest"
    "unat offset + length ls * unat n < 2 ^ 64"
  shows "\<exists>offset'. ofold (verify_layer C n) (r, offset, raw, agg) [k..<k + length ls] =
    Ok (r\<lparr>io_data := rest\<rparr>, offset', raw @ concat ls, layer_aggregate C agg k ls) \<and>
    unat offset' = unat offset + length ls * unat n"
  using assms
proof (induction ls arbitrary: r offset raw agg k)
  case (Cons l ls)
  let ?r = "r\<lparr>io_data := concat ls @ rest\<rparr>"
  let ?agg = "add_layer_root agg (word_of_nat k) (b3_hash C l)"
  have shaped: "length l = unat n" "layers_shaped (unat n) ls" "list_all canonical ls" "canonical l"
    using Cons.prems by (simp_all add: layers_shaped_def)
  have bound: "unat offset + unat n < 2 ^ 64" "unat offset + unat n + length ls * unat n < 2 ^ 64"
    using Cons.prems(4) by simp_all
  have off: "unat (offset + n) = unat offset + unat n"
    using bound by (subst unat_add_no_overflow) simp_all
  have first: "verify_layer C n (r, offset, raw, agg) k = Ok (?r, offset + n, raw @ l, ?agg)"
    using shaped bound Cons.prems(3) by (subst verify_layer_Ok [where rest = "concat ls @ rest"]) simp_all
  obtain offset' where rest:
    "ofold (verify_layer C n) (?r, offset + n, raw @ l, ?agg) [Suc k..<Suc k + length ls] =
      Ok (?r\<lparr>io_data := rest\<rparr>, offset', (raw @ l) @ concat ls, layer_aggregate C ?agg (Suc k) ls)"
    "unat offset' = unat (offset + n) + length ls * unat n"
    using Cons.IH [OF shaped(2,3), of ?r "offset + n" "raw @ l" ?agg "Suc k"] bound off by auto
  have range: "[k..<k + length (l # ls)] = k # [Suc k..<Suc k + length ls]"
    using upt_from_Suc [of k "length ls"] by simp
  show ?case
    unfolding range ofold.simps first obind.simps
    using rest off by (auto intro!: exI [of _ offset'])
qed simp

lemma verify_layers_sound:
  assumes "ofold (verify_layer C n) (r, offset, raw, agg) [k..<k + j] = Ok (r', offset', raw', agg')"
  shows "\<exists>ls. length ls = j \<and> layers_shaped (unat n) ls \<and> list_all canonical ls \<and>
    io_data r = concat ls @ io_data r' \<and> io_fault r' = io_fault r \<and>
    raw' = raw @ concat ls \<and> agg' = layer_aggregate C agg k ls"
  using assms
proof (induction j arbitrary: r offset raw agg k)
  case 0
  then show ?case by (auto simp: layers_shaped_def)
next
  case (Suc j)
  obtain s where s: "verify_layer C n (r, offset, raw, agg) k = Ok s"
    "ofold (verify_layer C n) s [Suc k..<Suc k + j] = Ok (r', offset', raw', agg')"
    using Suc.prems unfolding upt_from_Suc by auto
  define l where "l = take (unat n) (io_data r)"
  let ?r = "r\<lparr>io_data := drop (unat n) (io_data r)\<rparr>"
  have len: "length l = unat n" using verify_layer_short [OF s(1)] by (simp add: l_def)
  have data: "io_data r = l @ drop (unat n) (io_data r)" by (simp add: l_def)
  have l: "canonical l" and s': "s = (?r, offset + n, raw @ l, add_layer_root agg (word_of_nat k) (b3_hash C l))"
    using s(1) verify_layer_Ok [OF len data] by auto
  obtain ls where "length ls = j" "layers_shaped (unat n) ls" "list_all canonical ls"
    "io_data ?r = concat ls @ io_data r'" "io_fault r' = io_fault ?r" "raw' = (raw @ l) @ concat ls"
    "agg' = layer_aggregate C (add_layer_root agg (word_of_nat k) (b3_hash C l)) (Suc k) ls"
    using Suc.IH [OF s(2) [unfolded s']] by blast
  then show ?case
    using len l data by (intro exI [of _ "l # ls"]) (simp add: layers_shaped_def)
qed

section \<open>What acceptance means\<close>

definition bank_of :: "crypto \<Rightarrow> manifest \<Rightarrow> byte list \<Rightarrow> byte list list \<Rightarrow> bool" where
  "bank_of C m base ls \<longleftrightarrow>
     length base = unat (mb_base_input_bytes m) \<and> length ls = unat (mb_layers m) \<and>
     layers_shaped (unat (mb_bytes_per_layer m)) ls \<and> canonical base \<and> list_all canonical ls \<and>
     mb_raw_blake3_root m = b3_hash C (base @ concat ls) \<and>
     mb_layer_roots_aggregate m =
       b3_derive C LAYER_ROOTS_DOMAIN (layer_aggregate C (start_layer_aggregate (mb_layers m)) 0 ls)"

lemma shape_lengths:
  assumes "mb_validate_shape m = Ok ()"
  shows "unat (mb_base_input_bytes m) = unat (mb_batch m) * unat (mb_dimension m)"
    "unat (mb_bytes_per_layer m) = unat (mb_dimension m) * unat (mb_dimension m)"
    "unat (mb_payload_bytes m) =
       unat (mb_layers m) * unat (mb_bytes_per_layer m) + unat (mb_base_input_bytes m)"
proof -
  obtain base layer t where
    base: "checked_mul (ucast (mb_batch m)) (ucast (mb_dimension m) :: u64) = Some base"
    and layer: "checked_mul (ucast (mb_dimension m)) (ucast (mb_dimension m) :: u64) = Some layer"
    and t: "checked_mul (ucast (mb_layers m)) layer = Some t"
    and p: "checked_add t base = Some (mb_payload_bytes m)"
    and eq: "mb_base_input_bytes m = base" "mb_bytes_per_layer m = layer"
    using assms by (auto simp: mb_validate_shape_def Let_def bind_eq_Some_conv)
  show "unat (mb_base_input_bytes m) = unat (mb_batch m) * unat (mb_dimension m)"
    "unat (mb_bytes_per_layer m) = unat (mb_dimension m) * unat (mb_dimension m)"
    "unat (mb_payload_bytes m) =
       unat (mb_layers m) * unat (mb_bytes_per_layer m) + unat (mb_base_input_bytes m)"
    using checked_mul_unat [OF base] checked_mul_unat [OF layer] checked_mul_unat [OF t]
      checked_add_unat [OF p] eq by (simp_all add: unat_ucast_up)
qed

lemma verify_model_bank_sound:
  assumes "verify_model_bank C r m = Ok ()"
  shows "\<exists>base ls. bank_of C m base ls \<and> io_data r = encode_header m @ base @ concat ls \<and> \<not> io_fault r"
proof -
  obtain r0 r1 o1 raw1 b1 r2 o2 agg raw2 where
    hd: "read_header r = Ok (m, r0)"
    and sec: "stream_section r0 (mb_base_input_bytes m) 0 [] [] = Ok (r1, o1, raw1, b1)"
    and lay: "ofold (verify_layer C (mb_bytes_per_layer m)) (r1, o1, raw1, start_layer_aggregate (mb_layers m))
              [0..<unat (mb_layers m)] = Ok (r2, o2, raw2, agg)"
    and root: "b3_hash C raw2 = mb_raw_blake3_root m"
    and aggr: "b3_derive C LAYER_ROOTS_DOMAIN agg = mb_layer_roots_aggregate m"
    and stop: "io_data r2 = []" "\<not> io_fault r2"
    using assms by (auto simp: verify_model_bank_def compare_manifests_def split: prod.splits)
  obtain ls where ls: "length ls = unat (mb_layers m)" "layers_shaped (unat (mb_bytes_per_layer m)) ls"
    "list_all canonical ls" "io_data r1 = concat ls" "\<not> io_fault r1" "raw2 = raw1 @ concat ls"
    "agg = layer_aggregate C (start_layer_aggregate (mb_layers m)) 0 ls"
    using verify_layers_sound [of C "mb_bytes_per_layer m" r1 o1 raw1 "start_layer_aggregate (mb_layers m)"
        0 "unat (mb_layers m)" r2 o2 raw2 agg] lay stop by auto
  have pres: "section_present r0 (mb_base_input_bytes m) 0"
    and res: "(r1, o1, raw1, b1) = read_section r0 (mb_base_input_bytes m) 0 [] []"
    using sec stream_section_Ok by blast+
  have "io_data r0 = raw1 @ io_data r1" "io_fault r1 = io_fault r0"
    "length raw1 = unat (mb_base_input_bytes m)" "canonical raw1"
    using pres res by (simp_all add: read_section_def section_present_def)
  then have "bank_of C m raw1 ls \<and> io_data r = encode_header m @ raw1 @ concat ls \<and> \<not> io_fault r"
    using read_header_decode [OF hd] ls root aggr by (simp add: bank_of_def)
  then show ?thesis by blast
qed

lemma verify_model_bank_complete:
  assumes wf: "wf_manifest m" and shape: "mb_validate_shape m = Ok ()" and bank: "bank_of C m base ls"
    and data: "io_data r = encode_header m @ base @ concat ls" "\<not> io_fault r"
  shows "verify_model_bank C r m = Ok ()"
proof -
  let ?r0 = "r\<lparr>io_data := base @ concat ls\<rparr>" and ?r1 = "r\<lparr>io_data := concat ls\<rparr>"
  note lens = shape_lengths(3) [OF shape]
  have count: "length ls = unat (mb_layers m)" using bank unfolding bank_of_def by blast
  have "unat (mb_payload_bytes m) < 2 ^ 64"
    using unsigned_less [of "mb_payload_bytes m", where ?'a = nat] by simp
  then have total: "unat (mb_base_input_bytes m) + length ls * unat (mb_bytes_per_layer m) < 2 ^ 64"
    unfolding lens count by linarith
  have hd: "read_header r = Ok (m, ?r0)"
    using read_header_encode [OF wf shape data(1)] .
  have sec: "stream_section ?r0 (mb_base_input_bytes m) 0 [] [] = Ok (?r1, mb_base_input_bytes m, base, base)"
    using bank total by (simp add: stream_section_Ok section_present_def read_section_def bank_of_def)
  obtain off where lay: "ofold (verify_layer C (mb_bytes_per_layer m))
      (?r1, mb_base_input_bytes m, base, start_layer_aggregate (mb_layers m)) [0..<0 + length ls] =
      Ok (?r1\<lparr>io_data := []\<rparr>, off, base @ concat ls,
        layer_aggregate C (start_layer_aggregate (mb_layers m)) 0 ls)"
    "unat off = unat (mb_base_input_bytes m) + length ls * unat (mb_bytes_per_layer m)"
    using verify_layers_complete [of "mb_bytes_per_layer m" ls ?r1 "[]"] bank total
    unfolding bank_of_def by fastforce
  have "unat off = unat (mb_payload_bytes m)" using lay(2) lens count by simp
  then have off: "off = mb_payload_bytes m" by (simp add: word_unat_eq_iff)
  from count lay(1) off hd sec shape bank data(2) show ?thesis
    by (simp add: verify_model_bank_def compare_manifests_def bank_of_def)
qed

lemma build_small_model_bank_bank_of:
  assumes C: "crypto_ok C" and len: "length (fx_pcs_parameter_digest f) = 32" "length (fx_pcs_commitment_root f) = 32"
    and built: "build_small_model_bank C f = Ok b"
  shows "wf_manifest (bb_manifest b) \<and> mb_validate_shape (bb_manifest b) = Ok () \<and>
    bank_of C (bb_manifest b) (fx_base_input f) (fx_layers f) \<and>
    bb_bytes b = encode_header (bb_manifest b) @ fx_base_input f @ concat (fx_layers f)"
proof -
  let ?d = "ucast (fx_dimension f) :: u64" and ?n = "word_of_nat (length (fx_layers f)) :: u32"
  obtain base layer t payload offs where
    guards: "fx_model_version f \<noteq> 0" "fx_dimension f \<noteq> 0" "fx_batch f \<noteq> 0" "fx_layers f \<noteq> []"
    and base: "checked_mul (ucast (fx_batch f)) ?d = Some base"
    and layer: "checked_mul ?d ?d = Some layer"
    and few: "length (fx_layers f) < 2 ^ 32"
    and t: "checked_mul (ucast ?n) layer = Some t" and payload: "checked_add t base = Some payload"
    and lens: "length (fx_base_input f) = unat base"
      "layers_shaped (unat layer) (fx_layers f)"
    and vals: "validate_values (fx_base_input f) 0 = Ok ()"
      "ofold (validate_layer layer) base (fx_layers f) = Ok offs"
    and b: "b = \<lparr>bb_bytes = encode_header (bb_manifest b) @ fx_base_input f @ concat (fx_layers f),
        bb_manifest = bb_manifest b\<rparr>"
    and m: "bb_manifest b = \<lparr>mb_model_version = fx_model_version f, mb_dimension = fx_dimension f,
       mb_batch = fx_batch f, mb_layers = ?n, mb_base_input_bytes = base, mb_bytes_per_layer = layer,
       mb_payload_bytes = payload,
       mb_raw_blake3_root = b3_hash C (fx_base_input f @ concat (fx_layers f)),
       mb_layer_roots_aggregate = b3_derive C LAYER_ROOTS_DOMAIN
         (layer_aggregate C (start_layer_aggregate ?n) 0 (fx_layers f)),
       mb_pcs_parameter_digest = fx_pcs_parameter_digest f,
       mb_pcs_commitment_root = fx_pcs_commitment_root f\<rparr>"
    using built
    by (auto simp: build_small_model_bank_def Let_def bind_eq_Some_conv not_le list_ex_iff
        layers_shaped_def list_all_iff)
  have count: "unat ?n = length (fx_layers f)"
    using few by (simp add: unat_of_nat)
  then have "?n \<noteq> 0" using guards(4) by (metis length_0_conv unat_0)
  then have shape: "mb_validate_shape (bb_manifest b) = Ok ()"
    using guards base layer t payload by (simp add: m mb_validate_shape_def)
  have layers: "list_all canonical ls" if "ofold (validate_layer layer) o0 ls = Ok o1" for o0 o1 ls
    using that by (induction ls arbitrary: o0) (auto simp: validate_layer_def validate_values_Ok)
  have "bank_of C (bb_manifest b) (fx_base_input f) (fx_layers f)"
    using lens count vals(1) layers [OF vals(2)] by (simp add: bank_of_def m validate_values_Ok)
  moreover have "wf_manifest (bb_manifest b)"
    using C len by (simp add: wf_manifest_def m crypto_lengths)
  moreover have "bb_bytes b = encode_header (bb_manifest b) @ fx_base_input f @ concat (fx_layers f)"
    by (subst b) simp
  ultimately show ?thesis using shape by blast
qed

section \<open>Properties\<close>

text \<open>C35. The streaming verifier accepts a stream exactly when it is the trusted header followed
  by a payload of the declared shape (\<open>batch * dimension\<close> base bytes, \<open>layers\<close> matrices of
  \<open>dimension\<^sup>2\<close> bytes) that holds no byte above 250 and hashes to the raw root and to the
  aggregate of the indexed layer roots, with no trailing byte and no I/O failure.\<close>

theorem verify_model_bank_accepts_exactly:
  assumes "wf_manifest m" "mb_validate_shape m = Ok ()"
  shows "verify_model_bank C r m = Ok () \<longleftrightarrow>
    \<not> io_fault r \<and> (\<exists>base ls. io_data r = encode_header m @ base @ concat ls \<and>
      length base = unat (mb_batch m) * unat (mb_dimension m) \<and> length ls = unat (mb_layers m) \<and>
      layers_shaped (unat (mb_dimension m) * unat (mb_dimension m)) ls \<and>
      canonical (base @ concat ls) \<and>
      mb_raw_blake3_root m = b3_hash C (base @ concat ls) \<and>
      mb_layer_roots_aggregate m =
        b3_derive C LAYER_ROOTS_DOMAIN (layer_aggregate C (start_layer_aggregate (mb_layers m)) 0 ls))"
    (is "_ \<longleftrightarrow> _ \<and> (\<exists>base ls. _ \<and> ?bank base ls)")
proof -
  have bank: "bank_of C m base ls \<longleftrightarrow> ?bank base ls" for base ls
    using shape_lengths [OF assms(2)] by (auto simp: bank_of_def canonical_concat)
  show ?thesis
    unfolding bank [symmetric]
    using verify_model_bank_sound [of C r m] verify_model_bank_complete [OF assms] by blast
qed

definition demo_fixture :: small_fixture where
  "demo_fixture = \<lparr>fx_model_version = 1, fx_dimension = 1, fx_batch = 2, fx_base_input = [3, 250],
     fx_layers = [[4], [5]], fx_pcs_parameter_digest = zero32, fx_pcs_commitment_root = zero32\<rparr>"

definition demo_manifest :: manifest where
  "demo_manifest = \<lparr>mb_model_version = 1, mb_dimension = 1, mb_batch = 2, mb_layers = 2,
     mb_base_input_bytes = 2, mb_bytes_per_layer = 1, mb_payload_bytes = 4,
     mb_raw_blake3_root = replicate 32 2, mb_layer_roots_aggregate = replicate 32 31,
     mb_pcs_parameter_digest = zero32, mb_pcs_commitment_root = zero32\<rparr>"

lemmas demo_bank_eval =
  demo_fixture_def demo_manifest_def build_small_model_bank_def wf_manifest_def mb_validate_shape_def
  checked_mul_def checked_add_def validate_layer_def MAX_MODEL_BYTE_def
  MAX_SMALL_FIXTURE_PAYLOAD_BYTES_def demo_crypto_def LAYER_ROOTS_DOMAIN_def

lemma build_demo_fixture:
  "build_small_model_bank demo_crypto demo_fixture =
     Ok \<lparr>bb_bytes = encode_header demo_manifest @ [3, 250, 4, 5], bb_manifest = demo_manifest\<rparr>"
  by (simp add: demo_bank_eval Let_def)

lemma demo_manifest_ok: "wf_manifest demo_manifest" "mb_validate_shape demo_manifest = Ok ()"
  by (simp_all add: demo_bank_eval)

theorem verify_model_bank_accepts_exactly_witness:
  "verify_model_bank demo_crypto
     \<lparr>io_data = encode_header demo_manifest @ [3, 250, 4, 5], io_fault = False\<rparr> demo_manifest = Ok ()"
  by (subst verify_model_bank_accepts_exactly [OF demo_manifest_ok], intro conjI,
      simp, intro exI [of _ "[3, 250]"] exI [of _ "[[4], [5]]"])
    (simp add: demo_bank_eval layers_shaped_def canonical_def)

text \<open>Every bank the fixture writer builds is accepted by the streaming verifier under the
  manifest the writer returns, and is at most 184 bytes of header and 16 MiB of payload.\<close>

theorem built_bank_verifies:
  assumes "crypto_ok C" "length (fx_pcs_parameter_digest f) = 32" "length (fx_pcs_commitment_root f) = 32"
    and "build_small_model_bank C f = Ok b"
  shows "verify_model_bank C \<lparr>io_data = bb_bytes b, io_fault = False\<rparr> (bb_manifest b) = Ok () \<and>
    length (bb_bytes b) \<le> 184 + 16 * 1024 * 1024"
proof -
  note b = build_small_model_bank_bank_of [OF assms]
  have "unat (mb_payload_bytes (bb_manifest b)) \<le> unat MAX_SMALL_FIXTURE_PAYLOAD_BYTES"
    using assms(4) unfolding build_small_model_bank_def Let_def
    by (auto simp: not_less word_le_nat_alt)
  moreover have "length (fx_base_input f @ concat (fx_layers f)) = unat (mb_payload_bytes (bb_manifest b))"
    using b shape_lengths(3) [of "bb_manifest b"]
      length_concat_shaped [of "unat (mb_bytes_per_layer (bb_manifest b))" "fx_layers f"]
    by (simp add: bank_of_def)
  ultimately have "length (bb_bytes b) \<le> 184 + 16 * 1024 * 1024"
    using b length_encode_header
    by (simp add: MODEL_BANK_HEADER_BYTES_def MAX_SMALL_FIXTURE_PAYLOAD_BYTES_def)
  then show ?thesis using b by (auto intro: verify_model_bank_complete)
qed

theorem built_bank_verifies_witness:
  "verify_model_bank demo_crypto
     \<lparr>io_data = encode_header demo_manifest @ [3, 250, 4, 5], io_fault = False\<rparr> demo_manifest = Ok () \<and>
   length (encode_header demo_manifest @ [3, 250, 4, 5]) \<le> 184 + 16 * 1024 * 1024"
  using built_bank_verifies [OF crypto_ok_demo _ _ build_demo_fixture]
  by (simp add: demo_fixture_def)

end
