(* ===== verification/CF_ForgeMatrix_V2.thy ===== *)
theory CF_ForgeMatrix_V2
  imports CF_ForgeMatrix CF_Model_Bank
begin

text \<open>
  The second-generation relation and its full-recomputation oracle:
  \<open>crates/cmfd-consensus/src/forgematrix_v2.rs\<close>.

  Signed machine integers (\<open>i16\<close>, \<open>i32\<close>, \<open>i64\<close>) are integers; the checked additions and
  conversions of the source test the range. The rejection sampling of mask coefficients is a
  loop over the extendable output of the hash that need not end, so it is a partial function
  and not ending is \<open>Diverge\<close>.
\<close>

section \<open>Constants and data\<close>

definition FORGEMATRIX_V2_ALGORITHM_VERSION :: u32 where "FORGEMATRIX_V2_ALGORITHM_VERSION = 2"
definition FORGEMATRIX_V2_PROOF_VERSION :: u32 where "FORGEMATRIX_V2_PROOF_VERSION = 1"
definition V2_REFERENCE_MAX_DIMENSION :: u32 where "V2_REFERENCE_MAX_DIMENSION = 32"
definition V2_REFERENCE_MAX_BATCH :: u32 where "V2_REFERENCE_MAX_BATCH = 4"
definition V2_REFERENCE_MAX_LAYERS :: u32 where "V2_REFERENCE_MAX_LAYERS = 4"
definition PRODUCTION_V2_DIMENSION :: u32 where "PRODUCTION_V2_DIMENSION = 4096"
definition PRODUCTION_V2_BATCH :: u32 where "PRODUCTION_V2_BATCH = 128"
definition PRODUCTION_V2_LAYERS :: u32 where "PRODUCTION_V2_LAYERS = 384"
definition PRODUCTION_V2_BANKS :: u32 where "PRODUCTION_V2_BANKS = 3"
definition PRODUCTION_V2_LAYERS_PER_BANK :: u32 where "PRODUCTION_V2_LAYERS_PER_BANK = 128"
definition V2_TEST_DIMENSION :: u32 where "V2_TEST_DIMENSION = 4"
definition V2_TEST_BATCH :: u32 where "V2_TEST_BATCH = 2"
definition V2_TEST_LAYERS :: u32 where "V2_TEST_LAYERS = 4"
definition V2_ACCELERATOR_MAX_BATCH :: u32 where "V2_ACCELERATOR_MAX_BATCH = 65536"

definition CHALLENGE_DOMAIN_V2 :: string where
  "CHALLENGE_DOMAIN_V2 = ''CMFD/FORGEMATRIX/CHALLENGE/V2''"
definition MASK_DOMAIN_V2 :: string where
  "MASK_DOMAIN_V2 = ''CMFD/FORGEMATRIX/MASKCOEFF/V2''"
definition OUTPUT_DOMAIN_V2 :: string where
  "OUTPUT_DOMAIN_V2 = ''CMFD/FORGEMATRIX/OUTPUT/V2''"
definition WORK_DOMAIN_V2 :: string where
  "WORK_DOMAIN_V2 = ''CMFD/FORGEMATRIX/WORK/V2''"

definition V2_TRANSITION_MODULUS :: u32 where "V2_TRANSITION_MODULUS = 134217689"
definition OUTPUT_MODULUS :: u64 where "OUTPUT_MODULUS = 251"
definition CENTER :: int where "CENTER = 125"
definition MAX_OUTPUT_QUOTIENT :: u32 where "MAX_OUTPUT_QUOTIENT = 534731"

record v2_descriptor =
  vd_network_id :: hash32
  vd_algorithm_version :: u32
  vd_proof_version :: u32
  vd_banks :: u32
  vd_layers_per_bank :: u32
  vd_model :: manifest

record reduction_data =
  rw_z :: int
  rw_encoded_z :: u32
  rw_square_quotient :: u32
  rw_square_remainder :: u32
  rw_cube_quotient :: u32
  rw_cube_remainder :: u32
  rw_output_quotient :: u32
  rw_output_remainder :: u16

record layer_witness =
  lw_accumulators :: "int list"
  lw_reductions :: "reduction_data list"
  lw_output :: "int list"

record v2_reference_proof =
  vr_nonce :: u64
  vr_challenge_digest :: hash32
  vr_initial_reductions :: "reduction_data list"
  vr_initial_activation :: "int list"
  vr_layers :: "layer_witness list"
  vr_final_activation_digest :: hash32
  vr_work_digest :: hash32

record v2_compact_proof =
  vc_algorithm_version :: u32
  vc_proof_version :: u32
  vc_nonce :: u64
  vc_model_manifest_digest :: hash32
  vc_challenge_digest :: hash32
  vc_final_activation_digest :: hash32
  vc_work_digest :: hash32

datatype v2_error =
    V2E_AlgorithmVersion | V2E_ProofVersion | V2E_UncommittedDescriptor | V2E_WrongNetwork
  | V2E_InvalidShape | V2E_ProductionDisabled | V2E_ModelMismatch | V2E_ModelManifestDigest
  | V2E_ModelBank model_bank_error | V2E_WitnessShape | V2E_ChallengeMismatch | V2E_Accumulator
  | V2E_EncodedAccumulator | V2E_TransitionFieldRange | V2E_SquareRelation | V2E_CubeRelation
  | V2E_OutputRange | V2E_OutputRelation | V2E_ActivationEncoding | V2E_OutputDigest
  | V2E_WorkDigest | V2E_HighHash | V2E_NonceExhausted | V2E_InvalidAcceleratorBatch
  | V2E_AcceleratorOutputShape | V2E_AcceleratorMismatch | V2E_ArithmeticOverflow

record v2_reference =
  v2_desc :: v2_descriptor
  v2_base_input :: "byte list"
  v2_weights :: "byte list list"

record v2_accelerator_model =
  am_rows :: u32
  am_width :: u32
  am_layers :: u32
  am_coefficient_count :: u32
  am_base_input :: "byte list"
  am_weights :: "byte list"

record v2_accelerator_batch =
  ab_descriptor :: v2_descriptor
  ab_block :: block_challenge
  ab_start_nonce :: u64
  ab_count :: u32
  ab_activation_len :: nat
  ab_coefficient_count :: nat
  ab_challenges :: "hash32 list"
  ab_coefficients :: "byte list"

section \<open>Machine integer helpers\<close>

definition fits_i32 :: "int \<Rightarrow> bool" where
  "fits_i32 x \<longleftrightarrow> - 2147483648 \<le> x \<and> x < 2147483648"

definition fits_i64 :: "int \<Rightarrow> bool" where
  "fits_i64 x \<longleftrightarrow> - 9223372036854775808 \<le> x \<and> x < 9223372036854775808"

definition i32_checked_add :: "int \<Rightarrow> int \<Rightarrow> int option" where
  "i32_checked_add a b = (if fits_i32 (a + b) then Some (a + b) else None)"

definition i64_checked_add :: "int \<Rightarrow> int \<Rightarrow> int option" where
  "i64_checked_add a b = (if fits_i64 (a + b) then Some (a + b) else None)"

definition u32_try_from :: "int \<Rightarrow> u32 option" where
  "u32_try_from x = (if 0 \<le> x \<and> x < 2 ^ 32 then Some (word_of_int x) else None)"

definition u32_try_from_u64 :: "u64 \<Rightarrow> u32 option" where
  "u32_try_from_u64 x = (if unat x < 2 ^ 32 then Some (ucast x) else None)"

definition u16_try_from_u64 :: "u64 \<Rightarrow> u16 option" where
  "u16_try_from_u64 x = (if unat x < 2 ^ 16 then Some (ucast x) else None)"

fun ilog2 :: "nat \<Rightarrow> nat" where
  "ilog2 n = (if n < 2 then 0 else Suc (ilog2 (n div 2)))"

declare ilog2.simps [simp del]

definition ilog2_or_panic :: "nat \<Rightarrow> ('e, nat) outcome" where
  "ilog2_or_panic n = (if n = 0 then Panic else Ok (ilog2 n))"

definition is_power_of_two :: "u32 \<Rightarrow> bool" where
  "is_power_of_two w = list_ex (\<lambda>k. w = 2 ^ k) [0..<32]"

section \<open>Descriptors\<close>

definition validate_research :: "crypto \<Rightarrow> v2_descriptor \<Rightarrow> (v2_error, unit) outcome" where
  "validate_research C d =
     (if vd_algorithm_version d \<noteq> FORGEMATRIX_V2_ALGORITHM_VERSION then Err V2E_AlgorithmVersion
      else if vd_proof_version d \<noteq> FORGEMATRIX_V2_PROOF_VERSION then Err V2E_ProofVersion
      else if vd_network_id d = zero32 \<or> mb_raw_blake3_root (vd_model d) = zero32
        \<or> mb_pcs_parameter_digest (vd_model d) = zero32 \<or> mb_pcs_commitment_root (vd_model d) = zero32
        then Err V2E_UncommittedDescriptor
      else if \<not> is_power_of_two (mb_dimension (vd_model d)) \<or> \<not> is_power_of_two (mb_batch (vd_model d))
        \<or> \<not> is_power_of_two (vd_layers_per_bank d) \<or> vd_banks d = 0
        \<or> (case checked_mul (vd_banks d) (vd_layers_per_bank d) of
             None \<Rightarrow> True | Some layers \<Rightarrow> layers \<noteq> mb_layers (vd_model d))
        then Err V2E_InvalidShape
      else if V2_REFERENCE_MAX_DIMENSION < mb_dimension (vd_model d)
        \<or> V2_REFERENCE_MAX_BATCH < mb_batch (vd_model d) \<or> V2_REFERENCE_MAX_LAYERS < mb_layers (vd_model d)
        then Err V2E_ProductionDisabled
      else obind (map_err V2E_ModelBank (manifest_digest C (vd_model d))) (\<lambda>_. Ok ()))"

definition new_research ::
  "crypto \<Rightarrow> hash32 \<Rightarrow> u32 \<Rightarrow> u32 \<Rightarrow> manifest \<Rightarrow> (v2_error, v2_descriptor) outcome" where
  "new_research C network_id banks layers_per_bank model =
     (let d = \<lparr>vd_network_id = network_id, vd_algorithm_version = FORGEMATRIX_V2_ALGORITHM_VERSION,
               vd_proof_version = FORGEMATRIX_V2_PROOF_VERSION, vd_banks = banks,
               vd_layers_per_bank = layers_per_bank, vd_model = model\<rparr>
      in obind (validate_research C d) (\<lambda>_. Ok d))"

section \<open>Digests and masks\<close>

definition challenge_digest_v2 ::
  "crypto \<Rightarrow> v2_descriptor \<Rightarrow> block_challenge \<Rightarrow> u64 \<Rightarrow> (v2_error, hash32) outcome" where
  "challenge_digest_v2 C d block nonce =
     (if bc_network_id block \<noteq> vd_network_id d then Err V2E_WrongNetwork
      else obind (map_err V2E_ModelBank (manifest_digest C (vd_model d))) (\<lambda>model_digest.
        Ok (b3_derive C CHALLENGE_DOMAIN_V2
          (vd_network_id d @ to_le_bytes (vd_algorithm_version d) @ to_le_bytes (vd_proof_version d) @
           to_le_bytes (vd_banks d) @ to_le_bytes (vd_layers_per_bank d) @ model_digest @
           mb_raw_blake3_root (vd_model d) @ mb_pcs_parameter_digest (vd_model d) @
           mb_pcs_commitment_root (vd_model d) @ bc_previous_block block @ bc_transaction_root block @
           to_le_bytes (bc_height block) @ to_le_bytes (bc_timestamp block) @ bc_target block @
           to_le_bytes nonce))))"

definition output_digest_v2 :: "crypto \<Rightarrow> hash32 \<Rightarrow> byte list \<Rightarrow> hash32" where
  "output_digest_v2 C challenge final_bytes =
     b3_derive C OUTPUT_DOMAIN_V2
       (challenge @ to_le_bytes (word_of_nat (length final_bytes) :: u64) @ final_bytes)"

definition work_digest_v2 :: "crypto \<Rightarrow> v2_descriptor \<Rightarrow> hash32 \<Rightarrow> hash32 \<Rightarrow> hash32" where
  "work_digest_v2 C d challenge final_activation_digest =
     b3_derive C WORK_DOMAIN_V2
       (challenge @ mb_raw_blake3_root (vd_model d) @ mb_pcs_commitment_root (vd_model d) @
        final_activation_digest)"

text \<open>The \<open>k\<close>-th buffer of 64 bytes that the output reader fills.\<close>

definition xof_block :: "crypto \<Rightarrow> string \<Rightarrow> byte list \<Rightarrow> nat \<Rightarrow> byte list" where
  "xof_block C domain input k = drop (64 * k) (b3_xof C domain input (64 * Suc k))"

partial_function (option) mask_loop ::
  "(nat \<Rightarrow> byte list) \<Rightarrow> nat \<Rightarrow> nat \<Rightarrow> byte list \<Rightarrow> byte list option" where
  "mask_loop block count k coefficients =
     (if length coefficients < count
      then mask_loop block count (Suc k)
             (coefficients @ take (count - length coefficients) (filter (\<lambda>b. b \<le> 250) (block k)))
      else Some coefficients)"

definition mask_coefficients ::
  "crypto \<Rightarrow> hash32 \<Rightarrow> u32 \<Rightarrow> nat \<Rightarrow> nat \<Rightarrow> ('e, byte list) outcome" where
  "mask_coefficients C challenge layer rows width =
     obind (ilog2_or_panic rows) (\<lambda>row_bits.
     obind (ilog2_or_panic width) (\<lambda>col_bits.
     case mask_loop (xof_block C MASK_DOMAIN_V2 (challenge @ to_le_bytes layer))
            (1 + row_bits + col_bits) 0 [] of
       Some coefficients \<Rightarrow> Ok coefficients
     | None \<Rightarrow> Diverge))"

definition add_mask_bits :: "byte list \<Rightarrow> nat \<Rightarrow> nat \<Rightarrow> int \<Rightarrow> nat \<Rightarrow> int" where
  "add_mask_bits coefficients offset coordinate v i =
     (if odd (coordinate div 2 ^ i) then v + uint (coefficients ! (offset + i)) else v)"

definition mask_value ::
  "byte list \<Rightarrow> nat \<Rightarrow> nat \<Rightarrow> nat \<Rightarrow> nat \<Rightarrow> (v2_error, int) outcome" where
  "mask_value coefficients row col rows width =
     obind (ilog2_or_panic rows) (\<lambda>row_bits.
     obind (ilog2_or_panic width) (\<lambda>col_bits.
     if length coefficients \<noteq> 1 + row_bits + col_bits then Err V2E_InvalidShape
     else
       Ok (fold (\<lambda>i v. add_mask_bits coefficients (1 + row_bits) col v i) [0..<col_bits]
            (fold (\<lambda>i v. add_mask_bits coefficients 1 row v i) [0..<row_bits]
              (uint (coefficients ! 0))))))"

section \<open>The cubic reduction\<close>

definition check_reduction :: "int \<Rightarrow> reduction_data \<Rightarrow> (v2_error, unit) outcome" where
  "check_reduction z w =
     (let modulus = (ucast V2_TRANSITION_MODULUS :: u64) in
      if V2_TRANSITION_MODULUS \<le> rw_encoded_z w \<or> V2_TRANSITION_MODULUS \<le> rw_square_quotient w
        \<or> V2_TRANSITION_MODULUS \<le> rw_square_remainder w \<or> V2_TRANSITION_MODULUS \<le> rw_cube_quotient w
        \<or> V2_TRANSITION_MODULUS \<le> rw_cube_remainder w
        then Err V2E_TransitionFieldRange
      else if MAX_OUTPUT_QUOTIENT < rw_output_quotient w \<or> 250 < rw_output_remainder w
        then Err V2E_OutputRange
      else
        obind (ok_or V2E_EncodedAccumulator
          (if 0 \<le> z then u32_try_from z else u32_try_from (uint V2_TRANSITION_MODULUS + z)))
        (\<lambda>expected_encoded.
          if rw_z w \<noteq> z \<or> rw_encoded_z w \<noteq> expected_encoded then Err V2E_EncodedAccumulator
          else if ucast (rw_encoded_z w) * ucast (rw_encoded_z w)
              \<noteq> modulus * ucast (rw_square_quotient w) + ucast (rw_square_remainder w)
            then Err V2E_SquareRelation
          else if ucast (rw_square_remainder w) * ucast (rw_encoded_z w)
              \<noteq> modulus * ucast (rw_cube_quotient w) + ucast (rw_cube_remainder w)
            then Err V2E_CubeRelation
          else if ucast (rw_cube_remainder w)
              \<noteq> OUTPUT_MODULUS * ucast (rw_output_quotient w) + ucast (rw_output_remainder w)
            then Err V2E_OutputRelation
          else Ok ()))"

definition reduction_witness :: "int \<Rightarrow> (v2_error, reduction_data) outcome" where
  "reduction_witness z =
     (let modulus = uint V2_TRANSITION_MODULUS; m = (ucast V2_TRANSITION_MODULUS :: u64) in
      if modulus \<le> \<bar>z\<bar> then Err V2E_ArithmeticOverflow
      else
        obind (if 0 \<le> z then Ok (word_of_int z)
               else ok_or V2E_ArithmeticOverflow (u32_try_from (modulus + z))) (\<lambda>encoded_z.
        let square = ucast encoded_z * ucast encoded_z;
            square_quotient = square div m;
            square_remainder = square mod m;
            cube_product = square_remainder * ucast encoded_z;
            cube_quotient = cube_product div m;
            cube_remainder = cube_product mod m;
            output_quotient = cube_remainder div OUTPUT_MODULUS;
            output_remainder = cube_remainder mod OUTPUT_MODULUS
        in
        obind (ok_or V2E_ArithmeticOverflow (u32_try_from_u64 square_quotient)) (\<lambda>sq.
        obind (ok_or V2E_ArithmeticOverflow (u32_try_from_u64 square_remainder)) (\<lambda>sr.
        obind (ok_or V2E_ArithmeticOverflow (u32_try_from_u64 cube_quotient)) (\<lambda>cq.
        obind (ok_or V2E_ArithmeticOverflow (u32_try_from_u64 cube_remainder)) (\<lambda>cr.
        obind (ok_or V2E_ArithmeticOverflow (u32_try_from_u64 output_quotient)) (\<lambda>oq.
        obind (ok_or V2E_ArithmeticOverflow (u16_try_from_u64 output_remainder)) (\<lambda>orem.
        let w = \<lparr>rw_z = z, rw_encoded_z = encoded_z, rw_square_quotient = sq, rw_square_remainder = sr,
                 rw_cube_quotient = cq, rw_cube_remainder = cr, rw_output_quotient = oq,
                 rw_output_remainder = orem\<rparr>
        in obind (check_reduction z w) (\<lambda>_. Ok w)))))))))"

definition centered_activation :: "u16 \<Rightarrow> (v2_error, int) outcome" where
  "centered_activation v =
     (if 250 < v then Err V2E_OutputRange
      else if 32767 < uint v then Err V2E_ActivationEncoding
      else Ok (uint v - CENTER))"

definition decode_model_byte :: "byte \<Rightarrow> int" where
  "decode_model_byte b = uint b - CENTER"

definition activation_bytes :: "int list \<Rightarrow> (v2_error, byte list) outcome" where
  "activation_bytes values =
     omap (\<lambda>v. if 0 \<le> v + CENTER \<and> v + CENTER < 256 \<and> word_of_int (v + CENTER) \<le> (250 :: byte)
               then Ok (word_of_int (v + CENTER)) else Err V2E_ActivationEncoding) values"

section \<open>The reference prover and verifier\<close>

definition from_explicit_model ::
  "crypto \<Rightarrow> v2_descriptor \<Rightarrow> byte list \<Rightarrow> byte list list \<Rightarrow> (v2_error, v2_reference) outcome" where
  "from_explicit_model C d base_input weights =
     obind (validate_research C d) (\<lambda>_.
     obind (map_err V2E_ModelBank (build_small_model_bank C
        \<lparr>fx_model_version = mb_model_version (vd_model d), fx_dimension = mb_dimension (vd_model d),
         fx_batch = mb_batch (vd_model d), fx_base_input = base_input, fx_layers = weights,
         fx_pcs_parameter_digest = mb_pcs_parameter_digest (vd_model d),
         fx_pcs_commitment_root = mb_pcs_commitment_root (vd_model d)\<rparr>)) (\<lambda>rebuilt.
     if bb_manifest rebuilt \<noteq> vd_model d then Err V2E_ModelMismatch
     else Ok \<lparr>v2_desc = d, v2_base_input = base_input, v2_weights = weights\<rparr>))"

definition v2_rows :: "v2_reference \<Rightarrow> nat" where
  "v2_rows r = unat (mb_batch (vd_model (v2_desc r)))"

definition v2_width :: "v2_reference \<Rightarrow> nat" where
  "v2_width r = unat (mb_dimension (vd_model (v2_desc r)))"

definition initial_z ::
  "v2_reference \<Rightarrow> byte list \<Rightarrow> nat \<Rightarrow> nat \<Rightarrow> (v2_error, int) outcome" where
  "initial_z r input_mask row col =
     obind (index_or_panic (v2_base_input r) (row * v2_width r + col)) (\<lambda>b.
     obind (mask_value input_mask row col (v2_rows r) (v2_width r)) (\<lambda>m.
     ok_or V2E_ArithmeticOverflow (i32_checked_add (decode_model_byte b) m)))"

definition initial_cell ::
  "v2_reference \<Rightarrow> byte list \<Rightarrow> nat \<times> nat \<Rightarrow> (v2_error, int \<times> reduction_data) outcome" where
  "initial_cell r input_mask cell =
     (case cell of (row, col) \<Rightarrow>
       obind (initial_z r input_mask row col) (\<lambda>z.
       obind (reduction_witness z) (\<lambda>reduction.
       obind (centered_activation (rw_output_remainder reduction)) (\<lambda>a.
       Ok (a, reduction)))))"

definition v2_accumulate ::
  "nat \<Rightarrow> int list \<Rightarrow> byte list \<Rightarrow> nat \<Rightarrow> nat \<Rightarrow> (v2_error, int) outcome" where
  "v2_accumulate width activation weights row col =
     ofold (\<lambda>accumulator common.
        obind (index_or_panic activation (row * width + common)) (\<lambda>a.
        obind (index_or_panic weights (common * width + col)) (\<lambda>w.
        ok_or V2E_ArithmeticOverflow (i64_checked_add accumulator (a * decode_model_byte w)))))
       0 [0..<width]"

definition layer_cell ::
  "v2_reference \<Rightarrow> byte list \<Rightarrow> int list \<Rightarrow> byte list \<Rightarrow> nat \<times> nat
     \<Rightarrow> (v2_error, int \<times> int \<times> reduction_data) outcome" where
  "layer_cell r layer_mask activation weights cell =
     (case cell of (row, col) \<Rightarrow>
       obind (v2_accumulate (v2_width r) activation weights row col) (\<lambda>acc64.
       obind (if fits_i32 acc64 then Ok acc64 else Err V2E_ArithmeticOverflow) (\<lambda>accumulator.
       obind (mask_value layer_mask row col (v2_rows r) (v2_width r)) (\<lambda>m.
       obind (ok_or V2E_ArithmeticOverflow (i32_checked_add accumulator m)) (\<lambda>z.
       obind (reduction_witness z) (\<lambda>reduction.
       obind (centered_activation (rw_output_remainder reduction)) (\<lambda>a.
       Ok (accumulator, a, reduction))))))))"

definition prove_layer ::
  "crypto \<Rightarrow> v2_reference \<Rightarrow> hash32 \<Rightarrow> int list \<times> layer_witness list \<Rightarrow> nat \<times> byte list
     \<Rightarrow> (v2_error, int list \<times> layer_witness list) outcome" where
  "prove_layer C r challenge state layer =
     (case state of (activation, witnesses) \<Rightarrow> case layer of (layer_index, weights) \<Rightarrow>
       obind (mask_coefficients C challenge (word_of_nat layer_index) (v2_rows r) (v2_width r)) (\<lambda>layer_mask.
       obind (omap (layer_cell r layer_mask activation weights)
                (List.product [0..<v2_rows r] [0..<v2_width r])) (\<lambda>cells.
       Ok (map (\<lambda>(_, a, _). a) cells,
           witnesses @ [\<lparr>lw_accumulators = map (\<lambda>(acc, _, _). acc) cells,
                         lw_reductions = map (\<lambda>(_, _, red). red) cells,
                         lw_output = map (\<lambda>(_, a, _). a) cells\<rparr>]))))"

definition prove_reference ::
  "crypto \<Rightarrow> v2_reference \<Rightarrow> block_challenge \<Rightarrow> u64 \<Rightarrow> (v2_error, v2_reference_proof) outcome" where
  "prove_reference C r block nonce =
     obind (challenge_digest_v2 C (v2_desc r) block nonce) (\<lambda>challenge.
     obind (mask_coefficients C challenge u32_max (v2_rows r) (v2_width r)) (\<lambda>input_mask.
     obind (omap (initial_cell r input_mask) (List.product [0..<v2_rows r] [0..<v2_width r])) (\<lambda>cells.
     obind (ofold (prove_layer C r challenge) (map fst cells, []) (enumerate 0 (v2_weights r)))
       (\<lambda>(activation, witnesses).
     obind (activation_bytes activation) (\<lambda>final_bytes.
     let final_activation_digest = output_digest_v2 C challenge final_bytes
     in Ok \<lparr>vr_nonce = nonce, vr_challenge_digest = challenge,
            vr_initial_reductions = map snd cells, vr_initial_activation = map fst cells,
            vr_layers = witnesses, vr_final_activation_digest = final_activation_digest,
            vr_work_digest = work_digest_v2 C (v2_desc r) challenge final_activation_digest\<rparr>)))))"

definition check_initial_cell ::
  "v2_reference \<Rightarrow> byte list \<Rightarrow> v2_reference_proof \<Rightarrow> nat \<times> nat \<Rightarrow> (v2_error, int) outcome" where
  "check_initial_cell r input_mask proof cell =
     (case cell of (row, col) \<Rightarrow>
       obind (initial_z r input_mask row col) (\<lambda>z.
       obind (index_or_panic (vr_initial_reductions proof) (row * v2_width r + col)) (\<lambda>reduction.
       obind (check_reduction z reduction) (\<lambda>_.
       obind (centered_activation (rw_output_remainder reduction)) (\<lambda>expected.
       obind (index_or_panic (vr_initial_activation proof) (row * v2_width r + col)) (\<lambda>a.
       if a \<noteq> expected then Err V2E_ActivationEncoding else Ok expected))))))"

definition expected_accumulate ::
  "nat \<Rightarrow> int list \<Rightarrow> byte list \<Rightarrow> nat \<Rightarrow> nat \<Rightarrow> (v2_error, int) outcome" where
  "expected_accumulate width activation weights row col =
     ofold (\<lambda>accumulator common.
        obind (index_or_panic activation (row * width + common)) (\<lambda>a.
        obind (index_or_panic weights (common * width + col)) (\<lambda>w.
        Ok (wrap_i64 (accumulator + a * decode_model_byte w)))))
       0 [0..<width]"

definition check_layer_cell ::
  "v2_reference \<Rightarrow> byte list \<Rightarrow> int list \<Rightarrow> byte list \<Rightarrow> layer_witness \<Rightarrow> nat \<times> nat
     \<Rightarrow> (v2_error, int) outcome" where
  "check_layer_cell r layer_mask activation weights layer cell =
     (case cell of (row, col) \<Rightarrow>
       let index = row * v2_width r + col in
       obind (expected_accumulate (v2_width r) activation weights row col) (\<lambda>expected_accumulator.
       obind (index_or_panic (lw_accumulators layer) index) (\<lambda>accumulator.
       if accumulator \<noteq> expected_accumulator then Err V2E_Accumulator
       else
         obind (mask_value layer_mask row col (v2_rows r) (v2_width r)) (\<lambda>m.
         obind (ok_or V2E_ArithmeticOverflow (i32_checked_add accumulator m)) (\<lambda>z.
         obind (index_or_panic (lw_reductions layer) index) (\<lambda>reduction.
         obind (check_reduction z reduction) (\<lambda>_.
         obind (centered_activation (rw_output_remainder reduction)) (\<lambda>expected.
         obind (index_or_panic (lw_output layer) index) (\<lambda>a.
         if a \<noteq> expected then Err V2E_ActivationEncoding else Ok expected))))))))) "

definition check_layer ::
  "crypto \<Rightarrow> v2_reference \<Rightarrow> hash32 \<Rightarrow> int list \<Rightarrow> nat \<times> byte list \<times> layer_witness
     \<Rightarrow> (v2_error, int list) outcome" where
  "check_layer C r challenge activation entry =
     (case entry of (layer_index, weights, layer) \<Rightarrow>
       let activation_len = v2_rows r * v2_width r in
       if length (lw_accumulators layer) \<noteq> activation_len \<or> length (lw_reductions layer) \<noteq> activation_len
          \<or> length (lw_output layer) \<noteq> activation_len
       then Err V2E_WitnessShape
       else
         obind (mask_coefficients C challenge (word_of_nat layer_index) (v2_rows r) (v2_width r)) (\<lambda>layer_mask.
         omap (check_layer_cell r layer_mask activation weights layer)
           (List.product [0..<v2_rows r] [0..<v2_width r])))"

definition verify_reference ::
  "crypto \<Rightarrow> v2_reference \<Rightarrow> block_challenge \<Rightarrow> v2_reference_proof \<Rightarrow> (v2_error, unit) outcome" where
  "verify_reference C r block proof =
     obind (challenge_digest_v2 C (v2_desc r) block (vr_nonce proof)) (\<lambda>challenge.
     if vr_challenge_digest proof \<noteq> challenge then Err V2E_ChallengeMismatch
     else
       let activation_len = v2_rows r * v2_width r in
       if length (vr_initial_reductions proof) \<noteq> activation_len
          \<or> length (vr_initial_activation proof) \<noteq> activation_len
          \<or> length (vr_layers proof) \<noteq> length (v2_weights r)
       then Err V2E_WitnessShape
       else
         obind (mask_coefficients C challenge u32_max (v2_rows r) (v2_width r)) (\<lambda>input_mask.
         obind (omap (check_initial_cell r input_mask proof)
                  (List.product [0..<v2_rows r] [0..<v2_width r])) (\<lambda>initial.
         obind (ofold (check_layer C r challenge) initial
                  (enumerate 0 (zip (v2_weights r) (vr_layers proof)))) (\<lambda>activation.
         obind (activation_bytes activation) (\<lambda>final_bytes.
         let expected_output = output_digest_v2 C challenge final_bytes in
         if vr_final_activation_digest proof \<noteq> expected_output then Err V2E_OutputDigest
         else
           let expected_work = work_digest_v2 C (v2_desc r) challenge expected_output in
           if vr_work_digest proof \<noteq> expected_work then Err V2E_WorkDigest
           else if \<not> lex_le (vr_work_digest proof) (bc_target block) then Err V2E_HighHash
           else Ok ())))))"

section \<open>Compact proofs\<close>

definition prove_compact ::
  "crypto \<Rightarrow> v2_reference \<Rightarrow> block_challenge \<Rightarrow> u64 \<Rightarrow> (v2_error, v2_compact_proof) outcome" where
  "prove_compact C r block nonce =
     obind (prove_reference C r block nonce) (\<lambda>reference.
     obind (map_err V2E_ModelBank (manifest_digest C (vd_model (v2_desc r)))) (\<lambda>model_digest.
     Ok \<lparr>vc_algorithm_version = vd_algorithm_version (v2_desc r),
         vc_proof_version = vd_proof_version (v2_desc r), vc_nonce = nonce,
         vc_model_manifest_digest = model_digest,
         vc_challenge_digest = vr_challenge_digest reference,
         vc_final_activation_digest = vr_final_activation_digest reference,
         vc_work_digest = vr_work_digest reference\<rparr>))"

definition verify_compact_relation ::
  "crypto \<Rightarrow> v2_reference \<Rightarrow> block_challenge \<Rightarrow> v2_compact_proof \<Rightarrow> (v2_error, unit) outcome" where
  "verify_compact_relation C r block proof =
     (if bc_network_id block \<noteq> vd_network_id (v2_desc r) then Err V2E_WrongNetwork
      else if vc_algorithm_version proof \<noteq> vd_algorithm_version (v2_desc r) then Err V2E_AlgorithmVersion
      else if vc_proof_version proof \<noteq> vd_proof_version (v2_desc r) then Err V2E_ProofVersion
      else
        obind (map_err V2E_ModelBank (manifest_digest C (vd_model (v2_desc r)))) (\<lambda>model_digest.
        if vc_model_manifest_digest proof \<noteq> model_digest then Err V2E_ModelManifestDigest
        else
          obind (prove_reference C r block (vc_nonce proof)) (\<lambda>expected.
          if vc_challenge_digest proof \<noteq> vr_challenge_digest expected then Err V2E_ChallengeMismatch
          else if vc_final_activation_digest proof \<noteq> vr_final_activation_digest expected
            then Err V2E_OutputDigest
          else if vc_work_digest proof \<noteq> vr_work_digest expected then Err V2E_WorkDigest
          else Ok ())))"

definition verify_compact ::
  "crypto \<Rightarrow> v2_reference \<Rightarrow> block_challenge \<Rightarrow> v2_compact_proof \<Rightarrow> (v2_error, unit) outcome" where
  "verify_compact C r block proof =
     obind (verify_compact_relation C r block proof) (\<lambda>_.
     if \<not> lex_le (vc_work_digest proof) (bc_target block) then Err V2E_HighHash else Ok ())"

fun mine_compact_from ::
  "crypto \<Rightarrow> v2_reference \<Rightarrow> block_challenge \<Rightarrow> u64 \<Rightarrow> nat \<Rightarrow> (v2_error, v2_compact_proof) outcome" where
  "mine_compact_from C r block nonce 0 = Err V2E_NonceExhausted"
| "mine_compact_from C r block nonce (Suc attempts) =
     obind (prove_compact C r block nonce) (\<lambda>proof.
     if lex_le (vc_work_digest proof) (bc_target block) then Ok proof
     else mine_compact_from C r block (nonce + 1) attempts)"

definition mine_compact ::
  "crypto \<Rightarrow> v2_reference \<Rightarrow> block_challenge \<Rightarrow> u64 \<Rightarrow> u64 \<Rightarrow> (v2_error, v2_compact_proof) outcome" where
  "mine_compact C r block start_nonce attempts = mine_compact_from C r block start_nonce (unat attempts)"

section \<open>Accelerator batches\<close>

definition accelerator_model :: "v2_reference \<Rightarrow> ('e, v2_accelerator_model) outcome" where
  "accelerator_model r =
     obind (ilog2_or_panic (v2_rows r)) (\<lambda>row_bits.
     obind (ilog2_or_panic (v2_width r)) (\<lambda>col_bits.
     Ok \<lparr>am_rows = mb_batch (vd_model (v2_desc r)), am_width = mb_dimension (vd_model (v2_desc r)),
         am_layers = mb_layers (vd_model (v2_desc r)),
         am_coefficient_count = word_of_nat (1 + row_bits + col_bits),
         am_base_input = v2_base_input r, am_weights = concat (v2_weights r)\<rparr>))"

definition nonce_at :: "v2_accelerator_batch \<Rightarrow> nat \<Rightarrow> u64 option" where
  "nonce_at b index =
     (if index < unat (ab_count b) then Some (ab_start_nonce b + word_of_nat index) else None)"

definition batch_nonce ::
  "crypto \<Rightarrow> v2_reference \<Rightarrow> block_challenge \<Rightarrow> u64 \<Rightarrow> hash32 list \<times> byte list \<Rightarrow> nat
     \<Rightarrow> (v2_error, hash32 list \<times> byte list) outcome" where
  "batch_nonce C r block start_nonce state offset =
     (case state of (challenges, coefficients) \<Rightarrow>
       obind (challenge_digest_v2 C (v2_desc r) block (start_nonce + word_of_nat offset)) (\<lambda>challenge.
       obind (mask_coefficients C challenge u32_max (v2_rows r) (v2_width r)) (\<lambda>input_mask.
       obind (omap (\<lambda>layer. mask_coefficients C challenge (word_of_nat layer) (v2_rows r) (v2_width r))
                [0..<unat (mb_layers (vd_model (v2_desc r)))]) (\<lambda>layer_masks.
       Ok (challenges @ [challenge], coefficients @ input_mask @ concat layer_masks)))))"

definition prepare_accelerator_batch ::
  "crypto \<Rightarrow> v2_reference \<Rightarrow> block_challenge \<Rightarrow> u64 \<Rightarrow> u32 \<Rightarrow> (v2_error, v2_accelerator_batch) outcome" where
  "prepare_accelerator_batch C r block start_nonce count =
     (if count = 0 \<or> V2_ACCELERATOR_MAX_BATCH < count then Err V2E_InvalidAcceleratorBatch
      else if bc_network_id block \<noteq> vd_network_id (v2_desc r) then Err V2E_WrongNetwork
      else
        obind (ilog2_or_panic (v2_rows r)) (\<lambda>row_bits.
        obind (ilog2_or_panic (v2_width r)) (\<lambda>col_bits.
        obind (ok_or V2E_ArithmeticOverflow
          (usize_mul (unat (mb_layers (vd_model (v2_desc r))) + 1) (1 + row_bits + col_bits))) (\<lambda>per_nonce.
        obind (ok_or V2E_ArithmeticOverflow (usize_mul (unat count) per_nonce)) (\<lambda>_.
        obind (ofold (batch_nonce C r block start_nonce) ([], []) [0..<unat count])
          (\<lambda>(challenges, coefficients).
        Ok \<lparr>ab_descriptor = v2_desc r, ab_block = block, ab_start_nonce = start_nonce, ab_count = count,
            ab_activation_len = v2_rows r * v2_width r, ab_coefficient_count = 1 + row_bits + col_bits,
            ab_challenges = challenges, ab_coefficients = coefficients\<rparr>))))))"

definition candidate_work_digest ::
  "crypto \<Rightarrow> v2_accelerator_batch \<Rightarrow> nat \<Rightarrow> byte list \<Rightarrow> (v2_error, hash32) outcome" where
  "candidate_work_digest C b index final_activation =
     (if unat (ab_count b) \<le> index \<or> length final_activation \<noteq> ab_activation_len b
        then Err V2E_AcceleratorOutputShape
      else if list_ex (\<lambda>v. 250 < v) final_activation then Err V2E_ActivationEncoding
      else obind (index_or_panic (ab_challenges b) index) (\<lambda>challenge.
        Ok (work_digest_v2 C (ab_descriptor b) challenge (output_digest_v2 C challenge final_activation))))"

definition matches_statement :: "v2_accelerator_batch \<Rightarrow> v2_descriptor \<Rightarrow> block_challenge \<Rightarrow> bool" where
  "matches_statement b d block \<longleftrightarrow> ab_descriptor b = d \<and> ab_block b = block"

definition verify_accelerator_candidate ::
  "crypto \<Rightarrow> v2_reference \<Rightarrow> block_challenge \<Rightarrow> v2_accelerator_batch \<Rightarrow> nat \<Rightarrow> hash32
     \<Rightarrow> (v2_error, v2_compact_proof) outcome" where
  "verify_accelerator_candidate C r block b index claimed_work_digest =
     (if \<not> matches_statement b (v2_desc r) block then Err V2E_ChallengeMismatch
      else obind (ok_or V2E_AcceleratorOutputShape (nonce_at b index)) (\<lambda>nonce.
        obind (prove_compact C r block nonce) (\<lambda>proof.
        if vc_work_digest proof \<noteq> claimed_work_digest then Err V2E_AcceleratorMismatch
        else Ok proof)))"

section \<open>Fixtures\<close>

definition gpu_fixture_layer ::
  "crypto \<Rightarrow> v2_reference \<Rightarrow> hash32 \<Rightarrow> byte list \<Rightarrow> nat \<times> byte list \<times> layer_witness
     \<Rightarrow> (v2_error, byte list) outcome" where
  "gpu_fixture_layer C r challenge fixture entry =
     (case entry of (layer_index, weights, layer) \<Rightarrow>
       obind (mask_coefficients C challenge (word_of_nat layer_index) (v2_rows r) (v2_width r)) (\<lambda>m.
       obind (activation_bytes (lw_output layer)) (\<lambda>out.
       Ok (fixture @ weights @ m @ out))))"

definition gpu_fixture_v2 ::
  "crypto \<Rightarrow> v2_reference \<Rightarrow> block_challenge \<Rightarrow> u64 \<Rightarrow> (v2_error, byte list) outcome" where
  "gpu_fixture_v2 C r block nonce =
     obind (prove_reference C r block nonce) (\<lambda>proof.
     obind (ilog2_or_panic (v2_rows r)) (\<lambda>row_bits.
     obind (ilog2_or_panic (v2_width r)) (\<lambda>col_bits.
     let coefficient_count = 1 + row_bits + col_bits;
         activation_len = v2_rows r * v2_width r;
         weight_len = v2_width r * v2_width r in
     obind (ok_or V2E_ArithmeticOverflow
       (Option.bind (usize_add 24 32) (\<lambda>l0. Option.bind (usize_add l0 activation_len) (\<lambda>l1.
        Option.bind (usize_add l1 coefficient_count) (\<lambda>l2. Option.bind (usize_add l2 activation_len) (\<lambda>l3.
        Option.bind (usize_mul (length (v2_weights r)) (weight_len + coefficient_count + activation_len))
          (\<lambda>m. usize_add l3 m))))))) (\<lambda>_.
     obind (mask_coefficients C (vr_challenge_digest proof) u32_max (v2_rows r) (v2_width r)) (\<lambda>input_mask.
     obind (activation_bytes (vr_initial_activation proof)) (\<lambda>initial.
     ofold (gpu_fixture_layer C r (vr_challenge_digest proof))
       (bytes_of_string ''CMFDGPU2'' @ to_le_bytes (mb_dimension (vd_model (v2_desc r))) @
        to_le_bytes (mb_batch (vd_model (v2_desc r))) @ to_le_bytes (mb_layers (vd_model (v2_desc r))) @
        to_le_bytes (word_of_nat coefficient_count :: u32) @ vr_challenge_digest proof @
        v2_base_input r @ input_mask @ initial)
       (enumerate 0 (zip (v2_weights r) (vr_layers proof)))))))))"

definition v2_test_reference :: "crypto \<Rightarrow> (v2_error, v2_reference) outcome" where
  "v2_test_reference C =
     (let base = [0, 1, 2, 3, 247, 248, 249, 250];
          layers = map (\<lambda>layer. map (\<lambda>index. word_of_nat ((layer * 41 + index * 17 + 3) mod 251))
             [0..<unat (V2_TEST_DIMENSION * V2_TEST_DIMENSION)]) [0..<unat V2_TEST_LAYERS] in
      obind (map_err V2E_ModelBank (build_small_model_bank C
        \<lparr>fx_model_version = 2, fx_dimension = V2_TEST_DIMENSION, fx_batch = V2_TEST_BATCH,
         fx_base_input = base, fx_layers = layers, fx_pcs_parameter_digest = replicate 32 0x91,
         fx_pcs_commitment_root = replicate 32 0xa2\<rparr>)) (\<lambda>built.
      obind (new_research C (replicate 32 0x63) 1 V2_TEST_LAYERS (bb_manifest built)) (\<lambda>d.
      from_explicit_model C d base layers)))"

section \<open>Lemmas on the cubic reduction\<close>

abbreviation transition_prime :: nat where "transition_prime \<equiv> 134217689"

definition encoded_nat :: "int \<Rightarrow> nat" where
  "encoded_nat z = nat (if 0 \<le> z then z else 134217689 + z)"

text \<open>The witness as arithmetic on naturals: the quotients and remainders of the square, of the
  cube and of the final reduction.\<close>

definition reduction_spec :: "int \<Rightarrow> reduction_data" where
  "reduction_spec z =
     (let e = encoded_nat z; sr = e * e mod transition_prime; cr = sr * e mod transition_prime
      in \<lparr>rw_z = z, rw_encoded_z = word_of_nat e,
          rw_square_quotient = word_of_nat (e * e div transition_prime),
          rw_square_remainder = word_of_nat sr,
          rw_cube_quotient = word_of_nat (sr * e div transition_prime),
          rw_cube_remainder = word_of_nat cr,
          rw_output_quotient = word_of_nat (cr div 251),
          rw_output_remainder = word_of_nat (cr mod 251)\<rparr>)"

lemma u32_bound: "unat (a :: u32) < 4294967296"
  using unsigned_less [of a, where ?'a = nat] by simp

lemma unat_u64_mul: "unat (ucast (a :: u32) * ucast (b :: u32) :: u64) = unat a * unat b"
proof -
  have "unat a * unat b < 4294967296 * 4294967296"
    using u32_bound [of a] u32_bound [of b] by (intro mult_strict_mono) simp_all
  then show ?thesis by (subst unat_mul_no_overflow) (simp_all add: unat_ucast_up)
qed

lemma unat_transition [simp]: "unat V2_TRANSITION_MODULUS = 134217689" "uint V2_TRANSITION_MODULUS = 134217689"
  by (simp_all add: V2_TRANSITION_MODULUS_def)

lemma unat_modulus_comb:
  assumes "unat (q :: u32) < transition_prime"
  shows "unat (ucast V2_TRANSITION_MODULUS * ucast q + ucast (r :: u32) :: u64) = 134217689 * unat q + unat r"
proof -
  have m: "unat (ucast V2_TRANSITION_MODULUS * ucast q :: u64) = 134217689 * unat q"
    by (simp add: unat_u64_mul)
  have "134217689 * unat q + unat r < 2 ^ 64" using assms u32_bound [of r] by simp
  then show ?thesis
    using m by (subst unat_add_no_overflow) (simp_all add: unat_ucast_up)
qed

lemma unat_output_comb:
  "unat (OUTPUT_MODULUS * ucast (q :: u32) + ucast (r :: u16) :: u64) = 251 * unat q + unat r"
proof -
  have q: "unat (ucast q :: u64) = unat q" by (simp add: unat_ucast_up)
  have r: "unat (ucast r :: u64) = unat r" "unat r < 65536"
    using unsigned_less [of r, where ?'a = nat] by (simp_all add: unat_ucast_up)
  have m: "unat (OUTPUT_MODULUS * ucast q) = 251 * unat q"
    using u32_bound [of q] by (subst unat_mul_no_overflow) (simp_all add: OUTPUT_MODULUS_def q)
  have "251 * unat q + unat r < 2 ^ 64" using r u32_bound [of q] by simp
  then show ?thesis using m r by (subst unat_add_no_overflow) simp_all
qed

lemma encoded_nat_bound: "\<bar>z\<bar> < 134217689 \<Longrightarrow> encoded_nat z < transition_prime"
  by (auto simp: encoded_nat_def nat_less_iff)

lemma encoded_u32:
  assumes "\<bar>z\<bar> < 134217689"
  shows "(if 0 \<le> z then u32_try_from z else u32_try_from (uint V2_TRANSITION_MODULUS + z)) =
    Some (word_of_nat (encoded_nat z))"
  using assms by (auto simp: u32_try_from_def encoded_nat_def)

lemma div_mod_unique_iff:
  assumes "r < (p :: nat)"
  shows "n = p * q + r \<longleftrightarrow> q = n div p \<and> r = n mod p"
  using assms by auto

lemma word_nat_eq_iff: "n < 2 ^ LENGTH('a) \<Longrightarrow> w = word_of_nat n \<longleftrightarrow> unat (w :: 'a::len word) = n"
  by (auto simp: unat_of_nat word_unat_eq_iff)

text \<open>In range, the three relations pin down the witness.\<close>

lemma check_reduction_nat:
  assumes z: "\<bar>z\<bar> < 134217689"
  shows "check_reduction z w = Ok () \<longleftrightarrow>
    unat (rw_square_quotient w) < transition_prime \<and> unat (rw_square_remainder w) < transition_prime \<and>
    unat (rw_cube_quotient w) < transition_prime \<and> unat (rw_cube_remainder w) < transition_prime \<and>
    unat (rw_output_quotient w) \<le> 534731 \<and> unat (rw_output_remainder w) \<le> 250 \<and>
    rw_z w = z \<and> unat (rw_encoded_z w) = encoded_nat z \<and>
    encoded_nat z * encoded_nat z = 134217689 * unat (rw_square_quotient w) + unat (rw_square_remainder w) \<and>
    unat (rw_square_remainder w) * encoded_nat z = 134217689 * unat (rw_cube_quotient w) + unat (rw_cube_remainder w) \<and>
    unat (rw_cube_remainder w) = 251 * unat (rw_output_quotient w) + unat (rw_output_remainder w)"
    (is "_ \<longleftrightarrow> ?rhs")
proof -
  note e = encoded_nat_bound [OF z]
  have lt: "\<not> V2_TRANSITION_MODULUS \<le> x \<longleftrightarrow> unat x < transition_prime" for x
    by (simp add: word_le_nat_alt not_le)
  have out: "\<not> MAX_OUTPUT_QUOTIENT < x \<longleftrightarrow> unat x \<le> 534731" "\<not> 250 < y \<longleftrightarrow> unat y \<le> 250" for x and y :: u16
    by (simp_all add: word_less_nat_alt not_less MAX_OUTPUT_QUOTIENT_def)
  have enc: "x = word_of_nat (encoded_nat z) \<longleftrightarrow> unat x = encoded_nat z" for x :: u32
    using e by (intro word_nat_eq_iff) simp
  have sq: "ucast (rw_encoded_z w) * ucast (rw_encoded_z w) =
      (ucast V2_TRANSITION_MODULUS * ucast (rw_square_quotient w) + ucast (rw_square_remainder w) :: u64) \<longleftrightarrow>
      unat (rw_encoded_z w) * unat (rw_encoded_z w) =
        134217689 * unat (rw_square_quotient w) + unat (rw_square_remainder w)"
    if "unat (rw_square_quotient w) < transition_prime"
    using that by (simp add: word_unat_eq_iff unat_u64_mul unat_modulus_comb)
  have cu: "ucast (rw_square_remainder w) * ucast (rw_encoded_z w) =
      (ucast V2_TRANSITION_MODULUS * ucast (rw_cube_quotient w) + ucast (rw_cube_remainder w) :: u64) \<longleftrightarrow>
      unat (rw_square_remainder w) * unat (rw_encoded_z w) =
        134217689 * unat (rw_cube_quotient w) + unat (rw_cube_remainder w)"
    if "unat (rw_cube_quotient w) < transition_prime"
    using that by (simp add: word_unat_eq_iff unat_u64_mul unat_modulus_comb)
  have ou: "ucast (rw_cube_remainder w) =
      (OUTPUT_MODULUS * ucast (rw_output_quotient w) + ucast (rw_output_remainder w) :: u64) \<longleftrightarrow>
      unat (rw_cube_remainder w) = 251 * unat (rw_output_quotient w) + unat (rw_output_remainder w)"
    by (simp add: word_unat_eq_iff unat_output_comb unat_ucast_up)
  have "check_reduction z w = Ok () \<longleftrightarrow>
     (\<not> V2_TRANSITION_MODULUS \<le> rw_encoded_z w \<and> \<not> V2_TRANSITION_MODULUS \<le> rw_square_quotient w \<and>
      \<not> V2_TRANSITION_MODULUS \<le> rw_square_remainder w \<and> \<not> V2_TRANSITION_MODULUS \<le> rw_cube_quotient w \<and>
      \<not> V2_TRANSITION_MODULUS \<le> rw_cube_remainder w \<and> \<not> MAX_OUTPUT_QUOTIENT < rw_output_quotient w \<and>
      \<not> 250 < rw_output_remainder w \<and> rw_z w = z \<and> rw_encoded_z w = word_of_nat (encoded_nat z) \<and>
      ucast (rw_encoded_z w) * ucast (rw_encoded_z w) =
        (ucast V2_TRANSITION_MODULUS * ucast (rw_square_quotient w) + ucast (rw_square_remainder w) :: u64) \<and>
      ucast (rw_square_remainder w) * ucast (rw_encoded_z w) =
        (ucast V2_TRANSITION_MODULUS * ucast (rw_cube_quotient w) + ucast (rw_cube_remainder w) :: u64) \<and>
      ucast (rw_cube_remainder w) =
        (OUTPUT_MODULUS * ucast (rw_output_quotient w) + ucast (rw_output_remainder w) :: u64))"
    unfolding check_reduction_def Let_def encoded_u32 [OF z] ok_or_simps obind.simps by auto
  also have "\<dots> \<longleftrightarrow> ?rhs"
    unfolding lt out enc ou using sq cu e by auto
  finally show ?thesis .
qed

lemma reduction_spec_bounds:
  assumes z: "\<bar>z\<bar> < 134217689"
  defines "e \<equiv> encoded_nat z"
  defines "sr \<equiv> e * e mod transition_prime"
  defines "cr \<equiv> sr * e mod transition_prime"
  shows "e * e div transition_prime < transition_prime" "sr < transition_prime"
    "sr * e div transition_prime < transition_prime" "cr < transition_prime"
    "cr div 251 \<le> 534731" "cr mod 251 \<le> 250"
proof -
  have e: "e < transition_prime" using encoded_nat_bound [OF z] by (simp add: e_def)
  show sr: "sr < transition_prime" and cr: "cr < transition_prime" by (simp_all add: sr_def cr_def)
  have "e * e < transition_prime * transition_prime" using e by (intro mult_strict_mono) simp_all
  then show "e * e div transition_prime < transition_prime" by (rule less_mult_imp_div_less)
  have "sr * e < transition_prime * transition_prime" using e sr by (intro mult_strict_mono) simp_all
  then show "sr * e div transition_prime < transition_prime" by (rule less_mult_imp_div_less)
  have "cr < 534732 * 251" using cr by simp
  then have "cr div 251 < 534732" by (rule less_mult_imp_div_less)
  then show "cr div 251 \<le> 534731" by simp
  have "cr mod 251 < 251" by simp
  then show "cr mod 251 \<le> 250" by linarith
qed

lemma check_reduction_unique:
  assumes z: "\<bar>z\<bar> < 134217689"
  shows "check_reduction z w = Ok () \<longleftrightarrow> w = reduction_spec z"
proof -
  let ?p = "134217689 :: nat"
  define e sr cr where "e = encoded_nat z" and "sr = e * e mod ?p" and "cr = sr * e mod ?p"
  note b = reduction_spec_bounds [OF z, folded e_def, folded sr_def, folded cr_def]
  have e: "e < ?p" using encoded_nat_bound [OF z] by (simp add: e_def)
  have spec: "w = reduction_spec z \<longleftrightarrow> rw_z w = z \<and> unat (rw_encoded_z w) = e \<and>
      unat (rw_square_quotient w) = e * e div ?p \<and> unat (rw_square_remainder w) = sr \<and>
      unat (rw_cube_quotient w) = sr * e div ?p \<and> unat (rw_cube_remainder w) = cr \<and>
      unat (rw_output_quotient w) = cr div 251 \<and> unat (rw_output_remainder w) = cr mod 251"
    (is "_ \<longleftrightarrow> ?det")
  proof -
    have "w = reduction_spec z \<longleftrightarrow> rw_z w = z \<and> rw_encoded_z w = word_of_nat e \<and>
      rw_square_quotient w = word_of_nat (e * e div ?p) \<and> rw_square_remainder w = word_of_nat sr \<and>
      rw_cube_quotient w = word_of_nat (sr * e div ?p) \<and> rw_cube_remainder w = word_of_nat cr \<and>
      rw_output_quotient w = word_of_nat (cr div 251) \<and> rw_output_remainder w = word_of_nat (cr mod 251)"
      unfolding reduction_spec_def Let_def e_def sr_def cr_def by (cases w) auto
    also have "\<dots> \<longleftrightarrow> ?det"
      using b e
        word_nat_eq_iff [of e "rw_encoded_z w"] word_nat_eq_iff [of "e * e div ?p" "rw_square_quotient w"]
        word_nat_eq_iff [of sr "rw_square_remainder w"] word_nat_eq_iff [of "sr * e div ?p" "rw_cube_quotient w"]
        word_nat_eq_iff [of cr "rw_cube_remainder w"] word_nat_eq_iff [of "cr div 251" "rw_output_quotient w"]
        word_nat_eq_iff [of "cr mod 251" "rw_output_remainder w"]
      by simp
    finally show ?thesis .
  qed
  show ?thesis
  proof
    assume "check_reduction z w = Ok ()"
    note c = this [unfolded check_reduction_nat [OF z], folded e_def]
    have s: "unat (rw_square_quotient w) = e * e div ?p \<and> unat (rw_square_remainder w) = sr"
      using c div_mod_unique_iff [of "unat (rw_square_remainder w)" ?p "e * e"] by (simp add: sr_def)
    then have u: "unat (rw_cube_quotient w) = sr * e div ?p \<and> unat (rw_cube_remainder w) = cr"
      using c div_mod_unique_iff [of "unat (rw_cube_remainder w)" ?p "sr * e"] by (simp add: cr_def)
    have "cr = 251 * unat (rw_output_quotient w) + unat (rw_output_remainder w)"
      "unat (rw_output_remainder w) < 251"
      using u c by simp_all
    then have "unat (rw_output_quotient w) = cr div 251 \<and> unat (rw_output_remainder w) = cr mod 251"
      using div_mod_unique_iff [of "unat (rw_output_remainder w)" 251 cr] by blast
    then show "w = reduction_spec z" unfolding spec using s u c by blast
  next
    assume "w = reduction_spec z"
    note d = this [unfolded spec]
    show "check_reduction z w = Ok ()"
      unfolding check_reduction_nat [OF z] e_def [symmetric]
      using d b e by (simp add: sr_def cr_def)
  qed
qed

lemma u32_try_from_u64_exact: "unat x < 4294967296 \<Longrightarrow> u32_try_from_u64 x = Some (word_of_nat (unat x))"
  by (simp add: u32_try_from_u64_def word_unat_eq_iff unat_of_nat unsigned_ucast_eq take_bit_nat_eq_self)

lemma u16_try_from_u64_exact: "unat x < 65536 \<Longrightarrow> u16_try_from_u64 x = Some (word_of_nat (unat x))"
  by (simp add: u16_try_from_u64_def word_unat_eq_iff unat_of_nat unsigned_ucast_eq take_bit_nat_eq_self)

lemma reduction_witness_exact:
  assumes z: "\<bar>z\<bar> < 134217689"
  shows "reduction_witness z = Ok (reduction_spec z)"
proof -
  let ?p = "134217689 :: nat" and ?m = "ucast V2_TRANSITION_MODULUS :: u64"
  define e sr cr where "e = encoded_nat z" and "sr = e * e mod ?p" and "cr = sr * e mod ?p"
  note b = reduction_spec_bounds [OF z, folded e_def, folded sr_def, folded cr_def]
  have e: "e < ?p" using encoded_nat_bound [OF z] by (simp add: e_def)
  let ?e = "word_of_nat e :: u32"
  let ?sq = "ucast ?e * ucast ?e :: u64"
  let ?cu = "?sq mod ?m * ucast ?e"
  have m: "unat ?m = ?p" by (simp add: unat_ucast_up)
  have ue: "unat ?e = e" using e by (simp add: unat_of_nat)
  have ue64: "unat (ucast ?e :: u64) = e" using ue by (simp add: unat_ucast_up)
  have sq: "unat ?sq = e * e" by (simp only: unat_u64_mul ue)
  have sr: "unat (?sq mod ?m) = sr" by (simp only: unat_mod sq m sr_def)
  have "sr * e < ?p * ?p" using b(2) e by (intro mult_strict_mono) simp_all
  then have cu: "unat ?cu = sr * e"
    by (subst unat_mul_no_overflow) (simp_all only: sr ue64, simp)
  have cr: "unat (?cu mod ?m) = cr" by (simp only: unat_mod cu m cr_def)
  have q: "unat (?sq div ?m) = e * e div ?p" "unat (?cu div ?m) = sr * e div ?p"
    by (simp_all only: unat_div sq cu m)
  have o: "unat (?cu mod ?m div OUTPUT_MODULUS) = cr div 251" "unat (?cu mod ?m mod OUTPUT_MODULUS) = cr mod 251"
    by (simp_all only: unat_div [of "?cu mod ?m"] unat_mod [of "?cu mod ?m"] cr)
      (simp_all add: OUTPUT_MODULUS_def)
  have enc: "(if 0 \<le> z then Ok (word_of_int z)
      else ok_or V2E_ArithmeticOverflow (u32_try_from (uint V2_TRANSITION_MODULUS + z))) = Ok ?e"
    using encoded_u32 [OF z] z by (auto simp: e_def encoded_nat_def)
  have conv: "u32_try_from_u64 (?sq div ?m) = Some (word_of_nat (e * e div ?p))"
    "u32_try_from_u64 (?sq mod ?m) = Some (word_of_nat sr)"
    "u32_try_from_u64 (?cu div ?m) = Some (word_of_nat (sr * e div ?p))"
    "u32_try_from_u64 (?cu mod ?m) = Some (word_of_nat cr)"
    "u32_try_from_u64 (?cu mod ?m div OUTPUT_MODULUS) = Some (word_of_nat (cr div 251))"
    "u16_try_from_u64 (?cu mod ?m mod OUTPUT_MODULUS) = Some (word_of_nat (cr mod 251))"
    using b u32_try_from_u64_exact [of "?sq div ?m", unfolded q] u32_try_from_u64_exact [of "?sq mod ?m", unfolded sr]
      u32_try_from_u64_exact [of "?cu div ?m", unfolded q] u32_try_from_u64_exact [of "?cu mod ?m", unfolded cr]
      u32_try_from_u64_exact [of "?cu mod ?m div OUTPUT_MODULUS", unfolded o]
      u16_try_from_u64_exact [of "?cu mod ?m mod OUTPUT_MODULUS", unfolded o]
    by linarith+
  have spec: "\<lparr>rw_z = z, rw_encoded_z = ?e, rw_square_quotient = word_of_nat (e * e div ?p),
      rw_square_remainder = word_of_nat sr, rw_cube_quotient = word_of_nat (sr * e div ?p),
      rw_cube_remainder = word_of_nat cr, rw_output_quotient = word_of_nat (cr div 251),
      rw_output_remainder = word_of_nat (cr mod 251)\<rparr> = reduction_spec z"
    by (simp add: reduction_spec_def Let_def e_def sr_def cr_def)
  have chk: "check_reduction z (reduction_spec z) = Ok ()" by (simp add: check_reduction_unique [OF z])
  have guard: "\<not> uint V2_TRANSITION_MODULUS \<le> \<bar>z\<bar>" using z by simp
  show ?thesis
    unfolding reduction_witness_def Let_def enc obind.simps conv ok_or_simps spec chk
    using guard by simp
qed

lemma reduction_spec_activation:
  assumes "\<bar>z\<bar> < 134217689"
  shows "\<exists>a. centered_activation (rw_output_remainder (reduction_spec z)) = Ok a \<and> \<bar>a\<bar> \<le> 125"
proof -
  let ?r = "rw_output_remainder (reduction_spec z)"
  have "check_reduction z (reduction_spec z) = Ok ()" by (simp add: check_reduction_unique [OF assms])
  then have r: "unat ?r \<le> 250" by (simp add: check_reduction_nat [OF assms])
  have "uint ?r = int (unat ?r)" by simp
  with r have u: "uint ?r \<le> 250" "0 \<le> uint ?r" by linarith+
  have "\<not> 250 < ?r" using r by (simp add: word_less_nat_alt)
  then have "centered_activation ?r = Ok (uint ?r - 125)"
    using u by (simp add: centered_activation_def CENTER_def)
  moreover have "\<bar>uint ?r - 125\<bar> \<le> 125" using u by linarith
  ultimately show ?thesis by blast
qed

section \<open>Lemmas on masks\<close>

definition xof_fair :: "crypto \<Rightarrow> bool" where
  "xof_fair C \<longleftrightarrow> (\<forall>domain input k. \<exists>j\<ge>k. \<exists>b \<in> set (xof_block C domain input j). b \<le> 250)"

text \<open>Rejection sampling ends as soon as the output keeps producing admissible bytes.\<close>

lemma mask_loop_done: "count \<le> length cs \<Longrightarrow> mask_loop block count k cs = Some cs"
  by (subst mask_loop.simps) simp

lemma mask_loop_terminates:
  assumes fair: "\<And>k. \<exists>j\<ge>k. \<exists>b \<in> set (block j). b \<le> (250 :: byte)"
    and "length cs \<le> count" "list_all (\<lambda>b. b \<le> 250) cs"
  shows "\<exists>c. mask_loop block count k cs = Some c \<and> length c = count \<and> list_all (\<lambda>b. b \<le> 250) c"
  using assms(2,3)
proof (induction "count - length cs" arbitrary: k cs rule: less_induct)
  case less
  obtain j b where j: "k \<le> j" "b \<in> set (block j)" "b \<le> 250" using fair by blast
  show ?case
    using j(1) less.prems less.hyps
  proof (induction "j - k" arbitrary: k cs)
    case 0
    then have "k = j" by simp
    let ?new = "take (count - length cs) (filter (\<lambda>b. b \<le> 250) (block k))"
    show ?case
    proof (cases "length cs < count")
      case True
      have "filter (\<lambda>b. b \<le> 250) (block k) \<noteq> []" using j(2,3) \<open>k = j\<close> by (auto simp: filter_empty_conv)
      then have n: "0 < length ?new" using True by simp
      have l: "length (cs @ ?new) \<le> count" using True by simp
      have a: "list_all (\<lambda>b. b \<le> 250) (cs @ ?new)"
        using "0.prems"(3) by (auto simp: list_all_iff dest!: in_set_takeD)
      have "count - length (cs @ ?new) < count - length cs"
        unfolding length_append using n True by linarith
      from "0.prems"(4) [OF this l a, of "Suc k"] show ?thesis
        using True by (subst mask_loop.simps) simp
    next
      case False
      then show ?thesis using "0.prems" by (simp add: mask_loop_done)
    qed
  next
    case (Suc n)
    let ?new = "take (count - length cs) (filter (\<lambda>b. b \<le> 250) (block k))"
    show ?case
    proof (cases "length cs < count")
      case True
      have l: "length (cs @ ?new) \<le> count" using True by simp
      have a: "list_all (\<lambda>b. b \<le> 250) (cs @ ?new)"
        using Suc.prems(3) by (auto simp: list_all_iff dest!: in_set_takeD)
      have "n = j - Suc k" "Suc k \<le> j" using Suc.hyps(2) by simp_all
      moreover have "\<exists>c. mask_loop block count k' cs' = Some c \<and> length c = count \<and> list_all (\<lambda>b. b \<le> 250) c"
        if "count - length cs' < count - length (cs @ ?new)" "length cs' \<le> count"
          "list_all (\<lambda>b. b \<le> 250) cs'" for k' cs'
      proof -
        have "count - length cs' < count - length cs" using that(1) by simp
        from Suc.prems(4) [OF this that(2,3)] show ?thesis .
      qed
      ultimately have "\<exists>c. mask_loop block count (Suc k) (cs @ ?new) = Some c \<and> length c = count
          \<and> list_all (\<lambda>b. b \<le> 250) c"
        using Suc.hyps(1) [OF _ _ l a] by blast
      then show ?thesis using True by (subst mask_loop.simps) simp
    next
      case False
      then show ?thesis using Suc.prems by (simp add: mask_loop_done)
    qed
  qed
qed

lemma mask_coefficients_exact:
  assumes "xof_fair C" "0 < rows" "0 < width"
  shows "\<exists>c. mask_coefficients C challenge layer rows width = (Ok c :: ('e, _) outcome) \<and>
    length c = 1 + ilog2 rows + ilog2 width \<and> list_all (\<lambda>b. b \<le> 250) c"
proof -
  let ?b = "xof_block C MASK_DOMAIN_V2 (challenge @ to_le_bytes layer)"
  have "\<exists>j\<ge>k. \<exists>b \<in> set (?b j). b \<le> 250" for k using assms(1) unfolding xof_fair_def by blast
  from mask_loop_terminates [OF this, of "[]" "1 + ilog2 rows + ilog2 width" 0]
  obtain c where "mask_loop ?b (1 + ilog2 rows + ilog2 width) 0 [] = Some c"
    "length c = 1 + ilog2 rows + ilog2 width" "list_all (\<lambda>b. b \<le> 250) c" by auto
  then show ?thesis
    using assms(2,3) by (simp add: mask_coefficients_def ilog2_or_panic_def)
qed

lemma ilog2_bound: "n < 2 ^ Suc k \<Longrightarrow> ilog2 n \<le> k"
proof (induction k arbitrary: n)
  case 0
  then show ?case by (simp add: ilog2.simps)
next
  case (Suc k)
  then have "n div 2 < 2 ^ Suc k" by (intro less_mult_imp_div_less) simp
  from Suc.IH [OF this] show ?case by (subst ilog2.simps) simp
qed

lemma uint_le_250: "b \<le> (250 :: byte) \<Longrightarrow> uint b \<le> 250"
  by (simp add: word_le_def)

lemma add_mask_bits_bound:
  assumes "list_all (\<lambda>b. b \<le> 250) c" "offset + n \<le> length c" "0 \<le> v" "v \<le> B"
  shows "0 \<le> fold (\<lambda>i v. add_mask_bits c offset x v i) [0..<n] v \<and>
    fold (\<lambda>i v. add_mask_bits c offset x v i) [0..<n] v \<le> B + 250 * int n"
  using assms(2)
proof (induction n)
  case (Suc n)
  have "uint (c ! (offset + n)) \<le> 250"
    using assms(1) Suc.prems by (intro uint_le_250) (simp add: list_all_length)
  moreover have "0 \<le> uint (c ! (offset + n))" by simp
  ultimately show ?case using Suc by (auto simp: add_mask_bits_def)
qed (use assms in simp)

lemma mask_value_bound:
  assumes c: "length c = 1 + ilog2 rows + ilog2 width" "list_all (\<lambda>b. b \<le> 250) c"
    and r: "0 < rows" "rows \<le> 4" and w: "0 < width" "width \<le> 32"
  shows "\<exists>m. mask_value c row col rows width = Ok m \<and> 0 \<le> m \<and> m \<le> 2000"
proof -
  let ?r = "ilog2 rows" and ?w = "ilog2 width"
  let ?m0 = "uint (c ! 0)"
  let ?m1 = "fold (\<lambda>i v. add_mask_bits c 1 row v i) [0..<?r] ?m0"
  let ?m2 = "fold (\<lambda>i v. add_mask_bits c (1 + ?r) col v i) [0..<?w] ?m1"
  have bits: "?r \<le> 2" "?w \<le> 5" using ilog2_bound [of rows 2] ilog2_bound [of width 5] r w by simp_all
  have "c ! 0 \<le> 250" using c by (simp add: list_all_length)
  then have m0: "0 \<le> ?m0" "?m0 \<le> 250" by (simp_all add: uint_le_250)
  have m1: "0 \<le> ?m1" "?m1 \<le> 250 + 250 * int ?r"
    using add_mask_bits_bound [OF c(2) _ m0, of 1 ?r row] c(1) by auto
  have "0 \<le> ?m2" "?m2 \<le> 250 + 250 * int ?r + 250 * int ?w"
    using add_mask_bits_bound [OF c(2) _ m1, of "1 + ?r" ?w col] c(1) by auto
  moreover have "mask_value c row col rows width = Ok ?m2"
    using c(1) r(1) w(1) by (simp add: mask_value_def ilog2_or_panic_def)
  ultimately show ?thesis using bits by auto
qed

section \<open>Lemmas on the reference relation\<close>

definition wf_v2 :: "v2_reference \<Rightarrow> bool" where
  "wf_v2 r \<longleftrightarrow> 0 < v2_rows r \<and> v2_rows r \<le> 4 \<and> 0 < v2_width r \<and> v2_width r \<le> 32 \<and>
     length (v2_base_input r) = v2_rows r * v2_width r \<and> canonical (v2_base_input r) \<and>
     list_all (\<lambda>l. length l = v2_width r * v2_width r \<and> canonical l) (v2_weights r) \<and>
     mb_validate_shape (vd_model (v2_desc r)) = Ok ()"

definition activation_ok :: "v2_reference \<Rightarrow> int list \<Rightarrow> bool" where
  "activation_ok r act \<longleftrightarrow> length act = v2_rows r * v2_width r \<and> list_all (\<lambda>a. \<bar>a\<bar> \<le> 125) act"

definition mask_ok :: "v2_reference \<Rightarrow> byte list \<Rightarrow> bool" where
  "mask_ok r c \<longleftrightarrow> length c = 1 + ilog2 (v2_rows r) + ilog2 (v2_width r) \<and> list_all (\<lambda>b. b \<le> 250) c"

lemma v2_mask_ok:
  assumes "xof_fair C" "wf_v2 r"
  shows "\<exists>c. mask_coefficients C challenge layer (v2_rows r) (v2_width r) = (Ok c :: ('e, _) outcome) \<and> mask_ok r c"
  using mask_coefficients_exact [OF assms(1), of "v2_rows r" "v2_width r" challenge layer, where ?'e = 'e] assms(2)
  by (auto simp: wf_v2_def mask_ok_def)

lemma v2_mask_value:
  assumes "wf_v2 r" "mask_ok r c"
  shows "\<exists>m. mask_value c row col (v2_rows r) (v2_width r) = Ok m \<and> 0 \<le> m \<and> m \<le> 2000"
  using assms by (intro mask_value_bound) (simp_all add: wf_v2_def mask_ok_def)

lemma decode_model_byte_bound: "b \<le> MAX_MODEL_BYTE \<Longrightarrow> \<bar>decode_model_byte b\<bar> \<le> 125"
proof -
  assume "b \<le> MAX_MODEL_BYTE"
  then have "uint b \<le> 250" "0 \<le> uint b" by (simp_all add: MAX_MODEL_BYTE_def uint_le_250)
  then have "\<bar>uint b - 125\<bar> \<le> 125" by linarith
  then show ?thesis by (simp add: decode_model_byte_def CENTER_def)
qed

text \<open>Cell \<open>k\<close> of the row-major order.\<close>

abbreviation v2_cells :: "v2_reference \<Rightarrow> (nat \<times> nat) list" where
  "v2_cells r \<equiv> List.product [0..<v2_rows r] [0..<v2_width r]"

lemma v2_cells_nth:
  assumes "k < v2_rows r * v2_width r"
  shows "\<exists>row col. v2_cells r ! k = (row, col) \<and> row < v2_rows r \<and> col < v2_width r \<and> row * v2_width r + col = k"
proof -
  have "0 < v2_width r" using assms by (metis gr0I less_nat_zero_code mult_0_right)
  then have "k div v2_width r < v2_rows r" "k mod v2_width r < v2_width r"
    using assms by (simp_all add: less_mult_imp_div_less)
  then show ?thesis using assms by (simp add: product_indices)
qed

lemma v2_cells_set:
  assumes "cell \<in> set (v2_cells r)"
  shows "\<exists>i<v2_rows r * v2_width r. cell = v2_cells r ! i"
proof -
  obtain i where "i < length (v2_cells r)" "v2_cells r ! i = cell"
    using assms unfolding in_set_conv_nth by blast
  then show ?thesis by (auto simp: length_product)
qed

lemma initial_z_bound:
  assumes "wf_v2 r" "mask_ok r c" "row * v2_width r + col < v2_rows r * v2_width r"
  shows "\<exists>z. initial_z r c row col = Ok z \<and> \<bar>z\<bar> < 134217689"
proof -
  let ?b = "v2_base_input r ! (row * v2_width r + col)"
  obtain m where m: "mask_value c row col (v2_rows r) (v2_width r) = Ok m" "0 \<le> m" "m \<le> 2000"
    using v2_mask_value [OF assms(1,2)] by blast
  have "\<bar>decode_model_byte ?b\<bar> \<le> 125"
    using assms(1,3) by (intro decode_model_byte_bound) (simp add: wf_v2_def canonical_def list_all_length)
  then have s: "\<bar>decode_model_byte ?b + m\<bar> \<le> 3000" using m by linarith
  then have "fits_i32 (decode_model_byte ?b + m)" unfolding fits_i32_def by linarith
  then show ?thesis
    using assms(1,3) m s by (simp add: initial_z_def wf_v2_def i32_checked_add_def)
qed

text \<open>The prover and the verifier agree on every cell.\<close>

lemma initial_cells_agree:
  assumes wf: "wf_v2 r" and m: "mask_ok r c" and k: "k < v2_rows r * v2_width r"
    and len: "length (vr_initial_reductions p) = v2_rows r * v2_width r"
      "length (vr_initial_activation p) = v2_rows r * v2_width r"
  shows "\<exists>a red. initial_cell r c (v2_cells r ! k) = Ok (a, red) \<and> \<bar>a\<bar> \<le> 125 \<and>
    (\<forall>x. check_initial_cell r c p (v2_cells r ! k) = Ok x \<longleftrightarrow>
       vr_initial_reductions p ! k = red \<and> vr_initial_activation p ! k = a \<and> x = a)"
proof -
  obtain row col where rc: "v2_cells r ! k = (row, col)" "row * v2_width r + col = k"
    using v2_cells_nth [OF k] by blast
  obtain z where z: "initial_z r c row col = Ok z" "\<bar>z\<bar> < 134217689"
    using initial_z_bound [OF wf m, of row col] rc k by auto
  obtain a where a: "centered_activation (rw_output_remainder (reduction_spec z)) = Ok a" "\<bar>a\<bar> \<le> 125"
    using reduction_spec_activation [OF z(2)] by blast
  have "initial_cell r c (v2_cells r ! k) = Ok (a, reduction_spec z)"
    by (simp add: rc initial_cell_def z(1) reduction_witness_exact [OF z(2)] a)
  moreover have "check_initial_cell r c p (v2_cells r ! k) = Ok x \<longleftrightarrow>
       vr_initial_reductions p ! k = reduction_spec z \<and> vr_initial_activation p ! k = a \<and> x = a" for x
    using k len a(1)
    by (auto simp: rc check_initial_cell_def z(1) check_reduction_unique [OF z(2)])
  ultimately show ?thesis using a(2) by blast
qed

definition v2_entry :: "nat \<Rightarrow> int list \<Rightarrow> byte list \<Rightarrow> nat \<Rightarrow> nat \<Rightarrow> int" where
  "v2_entry width act weights row col =
     (\<Sum>i<width. act ! (row * width + i) * decode_model_byte (weights ! (i * width + col)))"

lemma v2_entry_terms:
  assumes wf: "wf_v2 r" and act: "activation_ok r act"
    and ws: "length weights = v2_width r * v2_width r" "canonical weights"
    and rc: "row < v2_rows r" "col < v2_width r" and i: "i < v2_width r"
  shows "row * v2_width r + i < length act" "i * v2_width r + col < length weights"
    "\<bar>act ! (row * v2_width r + i) * decode_model_byte (weights ! (i * v2_width r + col))\<bar> \<le> 16129"
proof -
  let ?w = "v2_width r"
  have "(row + 1) * ?w \<le> v2_rows r * ?w" "(i + 1) * ?w \<le> ?w * ?w"
    using rc i by (intro mult_right_mono; simp)+
  then show idx: "row * ?w + i < length act" "i * ?w + col < length weights"
    using act ws(1) i rc(2) by (simp_all add: activation_ok_def)
  have "\<bar>act ! (row * ?w + i)\<bar> \<le> 125" using act idx(1) by (simp add: activation_ok_def list_all_length)
  moreover have "\<bar>decode_model_byte (weights ! (i * ?w + col))\<bar> \<le> 125"
    using ws(2) idx(2) by (intro decode_model_byte_bound) (simp add: canonical_def list_all_length)
  ultimately show "\<bar>act ! (row * ?w + i) * decode_model_byte (weights ! (i * ?w + col))\<bar> \<le> 16129"
    by (intro product_bound) linarith+
qed

lemma v2_accumulate_exact:
  assumes wf: "wf_v2 r" and act: "activation_ok r act"
    and ws: "length weights = v2_width r * v2_width r" "canonical weights"
    and rc: "row < v2_rows r" "col < v2_width r"
  shows "v2_accumulate (v2_width r) act weights row col = Ok (v2_entry (v2_width r) act weights row col)"
    and "expected_accumulate (v2_width r) act weights row col = Ok (v2_entry (v2_width r) act weights row col)"
    and "\<bar>v2_entry (v2_width r) act weights row col\<bar> \<le> 520000"
proof -
  let ?w = "v2_width r"
  let ?f = "\<lambda>i. act ! (row * ?w + i) * decode_model_byte (weights ! (i * ?w + col))"
  note t = v2_entry_terms [OF assms]
  have bound: "\<bar>\<Sum>i<n. ?f i\<bar> \<le> 520000" if "n \<le> ?w" for n
  proof -
    have "\<bar>\<Sum>i<n. ?f i\<bar> \<le> int n * 16129" using t(3) that by (intro sum_bound) simp
    also have "\<dots> \<le> 32 * 16129" using that wf by (intro mult_right_mono) (simp_all add: wf_v2_def)
    finally show ?thesis by simp
  qed
  have step: "\<bar>(\<Sum>i<n. ?f i) + ?f n\<bar> \<le> 520000" if "n < ?w" for n
    using bound [of "Suc n"] that by simp
  show "\<bar>v2_entry ?w act weights row col\<bar> \<le> 520000" using bound [of ?w] by (simp add: v2_entry_def)
  show "v2_accumulate ?w act weights row col = Ok (v2_entry ?w act weights row col)"
    unfolding v2_accumulate_def v2_entry_def
  proof (rule ofold_sum)
    fix n assume n: "n < ?w"
    have "fits_i64 ((\<Sum>i<n. ?f i) + ?f n)" using step [OF n] unfolding fits_i64_def by linarith
    then show "obind (index_or_panic act (row * ?w + n)) (\<lambda>a. obind (index_or_panic weights (n * ?w + col))
        (\<lambda>w. ok_or V2E_ArithmeticOverflow (i64_checked_add (\<Sum>i<n. ?f i) (a * decode_model_byte w)))) =
      Ok ((\<Sum>i<n. ?f i) + ?f n)"
      using t(1,2) [OF n] by (simp add: i64_checked_add_def)
  qed
  show "expected_accumulate ?w act weights row col = Ok (v2_entry ?w act weights row col)"
    unfolding expected_accumulate_def v2_entry_def
  proof (rule ofold_sum)
    fix n assume n: "n < ?w"
    have "wrap_i64 ((\<Sum>i<n. ?f i) + ?f n) = (\<Sum>i<n. ?f i) + ?f n"
      using step [OF n] by (intro wrap_i64_id) linarith+
    then show "obind (index_or_panic act (row * ?w + n)) (\<lambda>a. obind (index_or_panic weights (n * ?w + col))
        (\<lambda>w. Ok (wrap_i64 ((\<Sum>i<n. ?f i) + a * decode_model_byte w)))) = Ok ((\<Sum>i<n. ?f i) + ?f n)"
      using t(1,2) [OF n] by simp
  qed
qed

lemma layer_cells_agree:
  assumes wf: "wf_v2 r" and m: "mask_ok r c" and k: "k < v2_rows r * v2_width r"
    and act: "activation_ok r act" and ws: "length weights = v2_width r * v2_width r" "canonical weights"
    and len: "length (lw_accumulators l) = v2_rows r * v2_width r"
      "length (lw_reductions l) = v2_rows r * v2_width r" "length (lw_output l) = v2_rows r * v2_width r"
  shows "\<exists>acc a red. layer_cell r c act weights (v2_cells r ! k) = Ok (acc, a, red) \<and> \<bar>a\<bar> \<le> 125 \<and>
    (\<forall>x. check_layer_cell r c act weights l (v2_cells r ! k) = Ok x \<longleftrightarrow>
       lw_accumulators l ! k = acc \<and> lw_reductions l ! k = red \<and> lw_output l ! k = a \<and> x = a)"
proof -
  obtain row col where rc: "v2_cells r ! k = (row, col)" "row * v2_width r + col = k"
      "row < v2_rows r" "col < v2_width r"
    using v2_cells_nth [OF k] by blast
  note acc = v2_accumulate_exact [OF wf act ws rc(3,4)]
  let ?acc = "v2_entry (v2_width r) act weights row col"
  obtain mv where mv: "mask_value c row col (v2_rows r) (v2_width r) = Ok mv" "0 \<le> mv" "mv \<le> 2000"
    using v2_mask_value [OF wf m] by blast
  let ?z = "?acc + mv"
  have z: "\<bar>?z\<bar> < 134217689" and f: "fits_i32 ?acc" "fits_i32 ?z"
    using acc(3) mv unfolding fits_i32_def by linarith+
  obtain a where a: "centered_activation (rw_output_remainder (reduction_spec ?z)) = Ok a" "\<bar>a\<bar> \<le> 125"
    using reduction_spec_activation [OF z] by blast
  have "layer_cell r c act weights (v2_cells r ! k) = Ok (?acc, a, reduction_spec ?z)"
    by (simp add: rc(1) layer_cell_def acc(1) f mv(1) i32_checked_add_def reduction_witness_exact [OF z] a)
  moreover have "check_layer_cell r c act weights l (v2_cells r ! k) = Ok x \<longleftrightarrow>
       lw_accumulators l ! k = ?acc \<and> lw_reductions l ! k = reduction_spec ?z \<and> lw_output l ! k = a \<and> x = a" for x
    using k len a(1)
    by (auto simp: rc(1,2) check_layer_cell_def acc(2) mv(1) f i32_checked_add_def check_reduction_unique [OF z])
  ultimately show ?thesis using a(2) by blast
qed

lemma initial_table:
  assumes wf: "wf_v2 r" and m: "mask_ok r c"
  shows "\<exists>cells. omap (initial_cell r c) (v2_cells r) = Ok cells \<and> activation_ok r (map fst cells) \<and>
    (\<forall>p x. length (vr_initial_reductions p) = v2_rows r * v2_width r \<longrightarrow>
       length (vr_initial_activation p) = v2_rows r * v2_width r \<longrightarrow>
       (omap (check_initial_cell r c p) (v2_cells r) = Ok x \<longleftrightarrow>
          vr_initial_reductions p = map snd cells \<and> vr_initial_activation p = map fst cells \<and> x = map fst cells))"
proof -
  let ?n = "v2_rows r * v2_width r"
  have "\<exists>y. initial_cell r c (v2_cells r ! k) = Ok y \<and> \<bar>fst y\<bar> \<le> 125" if "k < ?n" for k
  proof -
    obtain p :: v2_reference_proof
      where "length (vr_initial_reductions p) = ?n" "length (vr_initial_activation p) = ?n"
      using length_replicate by (metis v2_reference_proof.select_convs(3,4))
    from initial_cells_agree [OF wf m that this] show ?thesis by auto
  qed
  note total = this
  have "\<exists>y. initial_cell r c cell = Ok y" if cell: "cell \<in> set (v2_cells r)" for cell
  proof -
    obtain i where i: "i < ?n" "cell = v2_cells r ! i" using v2_cells_set [OF cell] by blast
    from total [OF i(1)] show ?thesis unfolding i(2) by blast
  qed
  then obtain cells where cells: "omap (initial_cell r c) (v2_cells r) = Ok cells"
    using omap_total by blast
  then have len: "length cells = ?n" and nth: "\<And>k. k < ?n \<Longrightarrow> initial_cell r c (v2_cells r ! k) = Ok (cells ! k)"
    by (simp_all add: omap_Ok_iff)
  have "\<bar>fst (cells ! k)\<bar> \<le> 125" if "k < ?n" for k using total [OF that] nth [OF that] by auto
  then have ok: "activation_ok r (map fst cells)" by (simp add: activation_ok_def list_all_length len)
  have "omap (check_initial_cell r c p) (v2_cells r) = Ok x \<longleftrightarrow>
      vr_initial_reductions p = map snd cells \<and> vr_initial_activation p = map fst cells \<and> x = map fst cells"
    if l: "length (vr_initial_reductions p) = ?n" "length (vr_initial_activation p) = ?n" for p x
  proof -
    have "check_initial_cell r c p (v2_cells r ! k) = Ok y \<longleftrightarrow> vr_initial_reductions p ! k = snd (cells ! k)
        \<and> vr_initial_activation p ! k = fst (cells ! k) \<and> y = fst (cells ! k)" if "k < ?n" for k y
      using initial_cells_agree [OF wf m that l] nth [OF that] by auto
    then show ?thesis by (auto simp: omap_Ok_iff list_eq_iff_nth_eq l len)
  qed
  with cells ok show ?thesis by blast
qed

lemma layer_table:
  assumes wf: "wf_v2 r" and m: "mask_ok r c"
    and act: "activation_ok r act" and ws: "length weights = v2_width r * v2_width r" "canonical weights"
  shows "\<exists>cells. omap (layer_cell r c act weights) (v2_cells r) = Ok cells \<and>
    activation_ok r (map (\<lambda>(_, a, _). a) cells) \<and>
    (\<forall>l x. length (lw_accumulators l) = v2_rows r * v2_width r \<longrightarrow>
       length (lw_reductions l) = v2_rows r * v2_width r \<longrightarrow> length (lw_output l) = v2_rows r * v2_width r \<longrightarrow>
       (omap (check_layer_cell r c act weights l) (v2_cells r) = Ok x \<longleftrightarrow>
          lw_accumulators l = map (\<lambda>(acc, _, _). acc) cells \<and> lw_reductions l = map (\<lambda>(_, _, red). red) cells \<and>
          lw_output l = map (\<lambda>(_, a, _). a) cells \<and> x = map (\<lambda>(_, a, _). a) cells))"
proof -
  let ?n = "v2_rows r * v2_width r"
  have total: "\<exists>y. layer_cell r c act weights (v2_cells r ! k) = Ok y \<and> \<bar>fst (snd y)\<bar> \<le> 125" if "k < ?n" for k
  proof -
    obtain l :: layer_witness
      where "length (lw_accumulators l) = ?n" "length (lw_reductions l) = ?n" "length (lw_output l) = ?n"
      using length_replicate by (metis layer_witness.select_convs)
    from layer_cells_agree [OF wf m that act ws this] show ?thesis by auto
  qed
  have "\<exists>y. layer_cell r c act weights cell = Ok y" if cell: "cell \<in> set (v2_cells r)" for cell
  proof -
    obtain i where i: "i < ?n" "cell = v2_cells r ! i" using v2_cells_set [OF cell] by blast
    from total [OF i(1)] show ?thesis unfolding i(2) by blast
  qed
  then obtain cells where cells: "omap (layer_cell r c act weights) (v2_cells r) = Ok cells"
    using omap_total by blast
  then have len: "length cells = ?n" and nth: "\<And>k. k < ?n \<Longrightarrow> layer_cell r c act weights (v2_cells r ! k) = Ok (cells ! k)"
    by (simp_all add: omap_Ok_iff)
  have "\<bar>fst (snd (cells ! k))\<bar> \<le> 125" if "k < ?n" for k using total [OF that] nth [OF that] by auto
  then have ok: "activation_ok r (map (\<lambda>(_, a, _). a) cells)"
    by (simp add: activation_ok_def list_all_length len case_prod_beta)
  have "omap (check_layer_cell r c act weights l) (v2_cells r) = Ok x \<longleftrightarrow>
      lw_accumulators l = map (\<lambda>(acc, _, _). acc) cells \<and> lw_reductions l = map (\<lambda>(_, _, red). red) cells \<and>
      lw_output l = map (\<lambda>(_, a, _). a) cells \<and> x = map (\<lambda>(_, a, _). a) cells"
    if l: "length (lw_accumulators l) = ?n" "length (lw_reductions l) = ?n" "length (lw_output l) = ?n" for l x
  proof -
    have "check_layer_cell r c act weights l (v2_cells r ! k) = Ok y \<longleftrightarrow>
        lw_accumulators l ! k = fst (cells ! k) \<and> lw_reductions l ! k = snd (snd (cells ! k)) \<and>
        lw_output l ! k = fst (snd (cells ! k)) \<and> y = fst (snd (cells ! k))" if "k < ?n" for k y
      using layer_cells_agree [OF wf m that act ws l] nth [OF that] by auto
    then show ?thesis by (auto simp: omap_Ok_iff list_eq_iff_nth_eq l len case_prod_beta)
  qed
  with cells ok show ?thesis by blast
qed

lemma layer_agree:
  assumes fair: "xof_fair C" and wf: "wf_v2 r" and act: "activation_ok r act"
    and ws: "length weights = v2_width r * v2_width r" "canonical weights"
  shows "\<exists>l. prove_layer C r ch (act, wits) (k, weights) = Ok (lw_output l, wits @ [l]) \<and>
    activation_ok r (lw_output l) \<and>
    (\<forall>l' x. check_layer C r ch act (k, weights, l') = Ok x \<longleftrightarrow> l' = l \<and> x = lw_output l)"
proof -
  obtain c where c: "mask_coefficients C ch (word_of_nat k) (v2_rows r) (v2_width r) = (Ok c :: (v2_error, _) outcome)"
      "mask_ok r c"
    using v2_mask_ok [OF fair wf, of ch "word_of_nat k", where ?'e = v2_error] by blast
  obtain cells where cells: "omap (layer_cell r c act weights) (v2_cells r) = Ok cells"
    "activation_ok r (map (\<lambda>(_, a, _). a) cells)"
    "\<And>l x. length (lw_accumulators l) = v2_rows r * v2_width r \<Longrightarrow>
       length (lw_reductions l) = v2_rows r * v2_width r \<Longrightarrow> length (lw_output l) = v2_rows r * v2_width r \<Longrightarrow>
       (omap (check_layer_cell r c act weights l) (v2_cells r) = Ok x \<longleftrightarrow>
          lw_accumulators l = map (\<lambda>(acc, _, _). acc) cells \<and> lw_reductions l = map (\<lambda>(_, _, red). red) cells \<and>
          lw_output l = map (\<lambda>(_, a, _). a) cells \<and> x = map (\<lambda>(_, a, _). a) cells)"
    using layer_table [OF wf c(2) act ws] by blast
  define l where "l = \<lparr>lw_accumulators = map (\<lambda>(acc, _, _). acc) cells,
     lw_reductions = map (\<lambda>(_, _, red). red) cells, lw_output = map (\<lambda>(_, a, _). a) cells\<rparr>"
  have len: "length cells = v2_rows r * v2_width r" using cells(2) by (simp add: activation_ok_def)
  have "prove_layer C r ch (act, wits) (k, weights) = Ok (lw_output l, wits @ [l])"
    by (simp add: prove_layer_def c(1) cells(1) l_def)
  moreover have "check_layer C r ch act (k, weights, l') = Ok x \<longleftrightarrow> l' = l \<and> x = lw_output l" for l' x
  proof -
    have "check_layer C r ch act (k, weights, l') = Ok x \<longleftrightarrow>
        length (lw_accumulators l') = v2_rows r * v2_width r \<and>
        length (lw_reductions l') = v2_rows r * v2_width r \<and> length (lw_output l') = v2_rows r * v2_width r \<and>
        omap (check_layer_cell r c act weights l') (v2_cells r) = Ok x"
      by (auto simp: check_layer_def c(1) Let_def)
    moreover have "l' = l \<longleftrightarrow> lw_accumulators l' = map (\<lambda>(acc, _, _). acc) cells \<and>
        lw_reductions l' = map (\<lambda>(_, _, red). red) cells \<and> lw_output l' = map (\<lambda>(_, a, _). a) cells"
      by (cases l') (auto simp: l_def)
    moreover have "lw_output l = map (\<lambda>(_, a, _). a) cells" by (simp add: l_def)
    ultimately show ?thesis using cells(3) [of l' x] len by auto
  qed
  ultimately show ?thesis using cells(2) by (auto simp: l_def)
qed

lemma layers_agree:
  assumes fair: "xof_fair C" and wf: "wf_v2 r" and act: "activation_ok r act"
    and ws: "list_all (\<lambda>l. length l = v2_width r * v2_width r \<and> canonical l) ws"
  shows "\<exists>final ls. length ls = length ws \<and> activation_ok r final \<and>
    ofold (prove_layer C r ch) (act, wits) (enumerate k ws) = Ok (final, wits @ ls) \<and>
    (\<forall>ls' x. length ls' = length ws \<longrightarrow>
      (ofold (check_layer C r ch) act (enumerate k (zip ws ls')) = Ok x \<longleftrightarrow> ls' = ls \<and> x = final))"
  using act ws
proof (induction ws arbitrary: act wits k)
  case Nil
  then show ?case by auto
next
  case (Cons w ws)
  obtain l where l: "prove_layer C r ch (act, wits) (k, w) = Ok (lw_output l, wits @ [l])"
    "activation_ok r (lw_output l)"
    "\<And>l' x. check_layer C r ch act (k, w, l') = Ok x \<longleftrightarrow> l' = l \<and> x = lw_output l"
    using layer_agree [OF fair wf Cons.prems(1), of w ch wits k] Cons.prems(2) by auto
  obtain final ls where rest: "length ls = length ws" "activation_ok r final"
    "ofold (prove_layer C r ch) (lw_output l, wits @ [l]) (enumerate (Suc k) ws) = Ok (final, (wits @ [l]) @ ls)"
    "\<And>ls' x. length ls' = length ws \<Longrightarrow>
      (ofold (check_layer C r ch) (lw_output l) (enumerate (Suc k) (zip ws ls')) = Ok x \<longleftrightarrow> ls' = ls \<and> x = final)"
    using Cons.IH [OF l(2), of "wits @ [l]" "Suc k"] Cons.prems(2) by auto
  have "ofold (check_layer C r ch) act (enumerate k (zip (w # ws) ls')) = Ok x \<longleftrightarrow> ls' = l # ls \<and> x = final"
    if len: "length ls' = Suc (length ws)" for ls' x
  proof -
    obtain a as where ls': "ls' = a # as" "length as = length ws" using len by (cases ls') auto
    show ?thesis by (auto simp: ls' l(3) rest(4) [OF ls'(2)])
  qed
  then show ?case
    using l(1) rest(1-3) by (intro exI [of _ final] exI [of _ "l # ls"]) simp
qed

lemma activation_bytes_total:
  assumes "list_all (\<lambda>a. \<bar>a\<bar> \<le> 125) act"
  shows "\<exists>bs. activation_bytes act = Ok bs \<and> length bs = length act \<and> canonical bs"
proof -
  let ?f = "\<lambda>v. if 0 \<le> v + CENTER \<and> v + CENTER < 256 \<and> word_of_int (v + CENTER) \<le> (250 :: byte)
               then Ok (word_of_int (v + CENTER)) else Err V2E_ActivationEncoding"
  have b: "?f v = Ok (word_of_int (v + CENTER))" "word_of_int (v + CENTER) \<le> (250 :: byte)" if "\<bar>v\<bar> \<le> 125" for v
  proof -
    have rng: "0 \<le> v + CENTER" "v + CENTER \<le> 250" "v + CENTER < 256"
      using that unfolding CENTER_def by linarith+
    have small: "word_of_int x \<le> (250 :: byte)" if "0 \<le> x" "x \<le> 250" for x
      using that by (simp add: word_le_def uint_word_of_int)
    show le: "word_of_int (v + CENTER) \<le> (250 :: byte)" using small [OF rng(1,2)] .
    show "?f v = Ok (word_of_int (v + CENTER))" by (rule if_P) (intro conjI rng le)
  qed
  have "\<exists>y. ?f v = Ok y" if "v \<in> set act" for v
    using assms that b(1) [of v] unfolding list_all_iff by blast
  from omap_total [of act ?f, OF this] obtain bs where bs: "activation_bytes act = Ok bs"
    unfolding activation_bytes_def by blast
  moreover have "canonical bs"
    unfolding canonical_def list_all_iff MAX_MODEL_BYTE_def
  proof
    fix y assume "y \<in> set bs"
    then obtain v where v: "v \<in> set act" "?f v = Ok y"
      using omap_in_range [OF bs [unfolded activation_bytes_def]] by blast
    then have "\<bar>v\<bar> \<le> 125" using assms unfolding list_all_iff by blast
    from b [OF this] v(2) show "y \<le> 250" by (metis outcome.inject(1))
  qed
  ultimately show ?thesis using omap_length [OF bs [unfolded activation_bytes_def]] by blast
qed

end
