(* ===== verification/CF_Sumcheck.thy ===== *)
theory CF_Sumcheck
  imports CF_ForgeMatrix_V2 "HOL-Library.Numeral_Type"
begin

text \<open>
  The test-size matrix-product sum-check of \<open>crates/cmfd-consensus/src/sumcheck.rs\<close>: Goldilocks
  arithmetic on canonical 64-bit words, the Fiat-Shamir transcript with its rejection sampling, the
  prover and the verifier.

  Field elements stay the machine words of the code; the lemmas read them as residues of the ring of
  integers modulo the Goldilocks prime (the numeral type of that size), where the multilinear
  identities are proved. The theorems show that a correct product always gets a proof the verifier
  accepts, and that an accepted proof of a wrong product needs a challenge at which two different
  quadratic polynomials meet.
\<close>

section \<open>Constants and data\<close>

definition GOLDILOCKS_MODULUS :: u64 where "GOLDILOCKS_MODULUS = 0xffffffff00000001"
definition MAX_TOY_MATRIX_ELEMENTS :: nat where "MAX_TOY_MATRIX_ELEMENTS = 4096"
definition TRANSCRIPT_DOMAIN :: string where "TRANSCRIPT_DOMAIN = ''CMFD/FORGEMATRIX/SUMCHECK/TOY/V2''"
definition MATRIX_COMMITMENT_DOMAIN :: string where
  "MATRIX_COMMITMENT_DOMAIN = ''CMFD/FORGEMATRIX/MATRIX/TOY/V2''"
definition SUMCHECK_PROTOCOL_VERSION :: u32 where "SUMCHECK_PROTOCOL_VERSION = 1"

type_synonym goldilocks = u64
type_synonym round_message = "goldilocks \<times> goldilocks \<times> goldilocks"

record sumcheck_proof =
  sp_protocol_version :: u32
  sp_a_commitment :: hash32
  sp_b_commitment :: hash32
  sp_c_commitment :: hash32
  sp_c_evaluation :: u64
  sp_rounds :: "(u64 \<times> u64 \<times> u64) list"
  sp_a_final :: u64
  sp_b_final :: u64

definition sp_canonical_size :: "sumcheck_proof \<Rightarrow> nat" where
  "sp_canonical_size p = 4 + 3 * 32 + 8 + length (sp_rounds p) * 3 * 8 + 2 * 8"

datatype sumcheck_error =
    SC_InvalidDimensions | SC_InvalidLength | SC_ProductionDisabled | SC_Commitment
  | SC_ProtocolVersion | SC_NonCanonicalField | SC_RoundCount | SC_RoundClaim | SC_TerminalClaim
  | SC_Opening | SC_ArithmeticOverflow

section \<open>The Goldilocks field\<close>

definition INV_TWO :: goldilocks where "INV_TWO = 0x7fffffff80000001"

definition gl_canonical :: "u64 \<Rightarrow> (sumcheck_error, goldilocks) outcome" where
  "gl_canonical value = (if value < GOLDILOCKS_MODULUS then Ok value else Err SC_NonCanonicalField)"

text \<open>An \<open>i64\<close> is an integer; the casts to \<open>u64\<close> and \<open>unsigned_abs\<close> are exact on its two branches.\<close>

definition gl_from_signed :: "int \<Rightarrow> goldilocks" where
  "gl_from_signed value =
     (if 0 \<le> value then word_of_int value mod GOLDILOCKS_MODULUS
      else let magnitude = word_of_int (- value) mod GOLDILOCKS_MODULUS
           in if magnitude = 0 then 0 else GOLDILOCKS_MODULUS - magnitude)"

definition gl_add :: "goldilocks \<Rightarrow> goldilocks \<Rightarrow> goldilocks" where
  "gl_add a b = ucast ((ucast a + ucast b :: u128) mod ucast GOLDILOCKS_MODULUS)"

definition gl_sub :: "goldilocks \<Rightarrow> goldilocks \<Rightarrow> goldilocks" where
  "gl_sub a b = (if b \<le> a then a - b else GOLDILOCKS_MODULUS - (b - a))"

definition gl_mul :: "goldilocks \<Rightarrow> goldilocks \<Rightarrow> goldilocks" where
  "gl_mul a b = ucast ((ucast a * ucast b :: u128) mod ucast GOLDILOCKS_MODULUS)"

definition gl_double :: "goldilocks \<Rightarrow> goldilocks" where
  "gl_double a = gl_add a a"

definition gl_encode :: "goldilocks \<Rightarrow> byte list" where
  "gl_encode a = to_le_bytes a"

section \<open>The transcript\<close>

text \<open>The state of the hasher is everything it has been given since \<open>new_derive_key\<close>.\<close>

record transcript =
  tr_input :: "byte list"
  tr_counter :: u64

definition usize_le :: "nat \<Rightarrow> byte list" where
  "usize_le n = to_le_bytes (word_of_nat n :: u64)"

definition tr_absorb :: "byte list \<Rightarrow> byte list \<Rightarrow> transcript \<Rightarrow> transcript" where
  "tr_absorb label value t =
     t\<lparr>tr_input := tr_input t @ usize_le (length label) @ label @ usize_le (length value) @ value\<rparr>"

definition tr_new :: "byte list \<Rightarrow> nat \<Rightarrow> nat \<Rightarrow> nat \<Rightarrow> transcript" where
  "tr_new binding rows inner cols =
     (let t = \<lparr>tr_input = [], tr_counter = 0\<rparr>;
          t = tr_absorb (bytes_of_string ''protocol-version'') (to_le_bytes SUMCHECK_PROTOCOL_VERSION) t;
          t = tr_absorb (bytes_of_string ''public-binding'') binding t;
          t = tr_absorb (bytes_of_string ''rows'') (usize_le rows) t;
          t = tr_absorb (bytes_of_string ''inner'') (usize_le inner) t
      in tr_absorb (bytes_of_string ''cols'') (usize_le cols) t)"

definition tr_candidate :: "crypto \<Rightarrow> transcript \<Rightarrow> byte list \<Rightarrow> u64 \<Rightarrow> u64" where
  "tr_candidate C t label attempt =
     from_le_bytes (take 8 (b3_derive C TRANSCRIPT_DOMAIN
       (tr_input t @ usize_le (length label) @ label @ to_le_bytes (tr_counter t) @ to_le_bytes attempt)))"

lemma checked_add_decreases: "checked_add w 1 = Some w' \<Longrightarrow> 2 ^ 64 - unat (w' :: u64) < 2 ^ 64 - unat w"
  using unsigned_less [of w', where ?'a = nat] by (auto dest!: checked_add_unat)

function challenge_loop :: "crypto \<Rightarrow> transcript \<Rightarrow> byte list \<Rightarrow> u64
    \<Rightarrow> (sumcheck_error, goldilocks) outcome" where
  "challenge_loop C t label attempt =
     (let candidate = tr_candidate C t label attempt
      in if candidate < GOLDILOCKS_MODULUS then Ok candidate
         else case checked_add attempt 1 of None \<Rightarrow> Panic
              | Some attempt' \<Rightarrow> challenge_loop C t label attempt')"
  by pat_completeness auto
termination
  by (relation "measure (\<lambda>(C, t, label, attempt). 2 ^ 64 - unat attempt)")
     (simp_all add: checked_add_decreases [simplified])

declare challenge_loop.simps [simp del]

definition tr_challenge :: "crypto \<Rightarrow> transcript \<Rightarrow> byte list
    \<Rightarrow> (sumcheck_error, transcript \<times> goldilocks) outcome" where
  "tr_challenge C t label =
     obind (challenge_loop C t label 0) (\<lambda>field.
     case checked_add (tr_counter t) 1 of None \<Rightarrow> Panic
     | Some counter \<Rightarrow> Ok (tr_absorb (bytes_of_string ''derived-challenge'') (gl_encode field)
         (t\<lparr>tr_counter := counter\<rparr>), field))"

definition challenge_step :: "crypto \<Rightarrow> byte list \<Rightarrow> transcript \<times> goldilocks list \<Rightarrow> nat
    \<Rightarrow> (sumcheck_error, transcript \<times> goldilocks list) outcome" where
  "challenge_step C label = (\<lambda>(t, point) index.
     obind (tr_challenge C (tr_absorb (bytes_of_string ''point-index'') (usize_le index) t) label)
       (\<lambda>(t', challenge). Ok (t', point @ [challenge])))"

definition challenge_vector :: "crypto \<Rightarrow> transcript \<Rightarrow> byte list \<Rightarrow> nat
    \<Rightarrow> (sumcheck_error, transcript \<times> goldilocks list) outcome" where
  "challenge_vector C t label count = ofold (challenge_step C label) (t, []) [0..<count]"

section \<open>Shapes, commitments and the reference product\<close>

definition usize_is_power_of_two :: "nat \<Rightarrow> bool" where
  "usize_is_power_of_two n = list_ex (\<lambda>k. n = 2 ^ k) [0..<64]"

definition validate_shape :: "int list \<Rightarrow> int list \<Rightarrow> int list option \<Rightarrow> nat \<Rightarrow> nat \<Rightarrow> nat
    \<Rightarrow> (sumcheck_error, unit) outcome" where
  "validate_shape a b c rows inner cols =
     (if rows = 0 \<or> inner = 0 \<or> cols = 0 \<or> \<not> usize_is_power_of_two rows
        \<or> \<not> usize_is_power_of_two inner \<or> \<not> usize_is_power_of_two cols
      then Err SC_InvalidDimensions else
      obind (ok_or SC_InvalidLength (usize_mul rows inner)) (\<lambda>a_len.
      obind (ok_or SC_InvalidLength (usize_mul inner cols)) (\<lambda>b_len.
      obind (ok_or SC_InvalidLength (usize_mul rows cols)) (\<lambda>c_len.
      if length a \<noteq> a_len \<or> length b \<noteq> b_len
        \<or> (case c of None \<Rightarrow> False | Some values \<Rightarrow> length values \<noteq> c_len)
      then Err SC_InvalidLength
      else if a_len > MAX_TOY_MATRIX_ELEMENTS \<or> b_len > MAX_TOY_MATRIX_ELEMENTS
        \<or> c_len > MAX_TOY_MATRIX_ELEMENTS
      then Err SC_ProductionDisabled
      else Ok ()))))"

definition field_values :: "int list \<Rightarrow> goldilocks list" where
  "field_values values = map gl_from_signed values"

definition matrix_commitment :: "crypto \<Rightarrow> byte list \<Rightarrow> nat \<Rightarrow> nat \<Rightarrow> goldilocks list \<Rightarrow> hash32" where
  "matrix_commitment C label rows cols values =
     b3_derive C MATRIX_COMMITMENT_DOMAIN
       (usize_le (length label) @ label @ usize_le rows @ usize_le cols @ concat (map gl_encode values))"

text \<open>\<open>i128\<close> sums panic when they leave the range of the type.\<close>

definition i128_add :: "int \<Rightarrow> int \<Rightarrow> (sumcheck_error, int) outcome" where
  "i128_add x y = (if - (2 ^ 127) \<le> x + y \<and> x + y < 2 ^ 127 then Ok (x + y) else Panic)"

definition product_accumulate :: "int list \<Rightarrow> int list \<Rightarrow> nat \<Rightarrow> nat \<Rightarrow> nat \<Rightarrow> nat
    \<Rightarrow> int \<Rightarrow> nat \<Rightarrow> (sumcheck_error, int) outcome" where
  "product_accumulate a b inner cols row col accumulator common =
     obind (index_or_panic a (row * inner + common)) (\<lambda>x.
     obind (index_or_panic b (common * cols + col)) (\<lambda>y.
     i128_add accumulator (x * y)))"

definition i64_try_from :: "int \<Rightarrow> (sumcheck_error, int) outcome" where
  "i64_try_from x = (if - (2 ^ 63) \<le> x \<and> x < 2 ^ 63 then Ok x else Err SC_ArithmeticOverflow)"

definition reference_matrix_product :: "int list \<Rightarrow> int list \<Rightarrow> nat \<Rightarrow> nat \<Rightarrow> nat
    \<Rightarrow> (sumcheck_error, int list) outcome" where
  "reference_matrix_product a b rows inner cols =
     obind (validate_shape a b None rows inner cols) (\<lambda>_.
     omap (\<lambda>(row, col). obind (ofold (product_accumulate a b inner cols row col) 0 [0..<inner]) i64_try_from)
       (List.product [0..<rows] [0..<cols]))"

section \<open>Multilinear extensions\<close>

definition weights_step :: "goldilocks list \<Rightarrow> goldilocks \<Rightarrow> goldilocks list" where
  "weights_step previous challenge =
     map (\<lambda>value. gl_mul value (gl_sub 1 challenge)) previous @ map (\<lambda>value. gl_mul value challenge) previous"

definition equality_weights :: "goldilocks list \<Rightarrow> goldilocks list" where
  "equality_weights point = foldl weights_step [1] point"

fun chunks_exact_2 :: "'a list \<Rightarrow> ('a \<times> 'a) list" where
  "chunks_exact_2 (x # y # rest) = (x, y) # chunks_exact_2 rest"
| "chunks_exact_2 _ = []"

text \<open>A failed \<open>debug_assert\<close> is a panic.\<close>

definition gl_fold :: "goldilocks list \<Rightarrow> goldilocks \<Rightarrow> (sumcheck_error, goldilocks list) outcome" where
  "gl_fold table challenge =
     (if length table mod 2 \<noteq> 0 then Panic
      else Ok (map (\<lambda>(x, y). gl_add x (gl_mul (gl_sub y x) challenge)) (chunks_exact_2 table)))"

definition evaluate_mle :: "goldilocks list \<Rightarrow> goldilocks list \<Rightarrow> (sumcheck_error, goldilocks) outcome" where
  "evaluate_mle evaluations point =
     (if \<not> length point < 64 \<or> length evaluations \<noteq> 2 ^ length point then Panic
      else obind (ofold gl_fold evaluations point) (\<lambda>table. index_or_panic table 0))"

definition quadratic_accumulate :: "round_message \<Rightarrow> (goldilocks \<times> goldilocks) \<times> (goldilocks \<times> goldilocks)
    \<Rightarrow> round_message" where
  "quadratic_accumulate = (\<lambda>(v0, v1, v2) ((a0, a1), (b0, b1)).
     let a_at_two = gl_sub (gl_double a1) a0;
         b_at_two = gl_sub (gl_double b1) b0
     in (gl_add v0 (gl_mul a0 b0), gl_add v1 (gl_mul a1 b1), gl_add v2 (gl_mul a_at_two b_at_two)))"

definition quadratic_round :: "goldilocks list \<Rightarrow> goldilocks list \<Rightarrow> (sumcheck_error, round_message) outcome" where
  "quadratic_round a b =
     (if length a \<noteq> length b \<or> length a mod 2 \<noteq> 0 then Panic
      else Ok (foldl quadratic_accumulate (0, 0, 0) (zip (chunks_exact_2 a) (chunks_exact_2 b))))"

definition evaluate_quadratic :: "round_message \<Rightarrow> goldilocks \<Rightarrow> goldilocks" where
  "evaluate_quadratic = (\<lambda>(v0, v1, v2) point.
     let first_difference = gl_sub v1 v0;
         second_difference = gl_add (gl_sub v2 (gl_double v1)) v0
     in gl_add (gl_add v0 (gl_mul first_difference point))
          (gl_mul (gl_mul (gl_mul second_difference point) (gl_sub point 1)) INV_TWO))"

definition encode_round :: "round_message \<Rightarrow> byte list" where
  "encode_round = (\<lambda>(v0, v1, v2). gl_encode v0 @ gl_encode v1 @ gl_encode v2)"

section \<open>The prover\<close>

definition partial_row :: "goldilocks list \<Rightarrow> goldilocks list \<Rightarrow> nat \<Rightarrow> nat \<Rightarrow> nat
    \<Rightarrow> (sumcheck_error, goldilocks) outcome" where
  "partial_row a_values row_weights rows inner common =
     ofold (\<lambda>a_value row.
       obind (index_or_panic a_values (row * inner + common)) (\<lambda>v.
       obind (index_or_panic row_weights row) (\<lambda>w. Ok (gl_add a_value (gl_mul v w))))) 0 [0..<rows]"

definition partial_col :: "goldilocks list \<Rightarrow> goldilocks list \<Rightarrow> nat \<Rightarrow> nat
    \<Rightarrow> (sumcheck_error, goldilocks) outcome" where
  "partial_col b_values col_weights cols common =
     ofold (\<lambda>b_value col.
       obind (index_or_panic b_values (common * cols + col)) (\<lambda>v.
       obind (index_or_panic col_weights col) (\<lambda>w. Ok (gl_add b_value (gl_mul v w))))) 0 [0..<cols]"

definition absorb_round :: "nat \<Rightarrow> round_message \<Rightarrow> transcript \<Rightarrow> transcript" where
  "absorb_round round_index message t =
     tr_absorb (bytes_of_string ''round-message'') (encode_round message)
       (tr_absorb (bytes_of_string ''round-index'') (usize_le round_index) t)"

type_synonym prover_state = "transcript \<times> goldilocks list \<times> goldilocks list \<times> round_message list"

definition prove_round :: "crypto \<Rightarrow> prover_state \<Rightarrow> nat \<Rightarrow> (sumcheck_error, prover_state) outcome" where
  "prove_round C = (\<lambda>(t, a_partial, b_partial, rounds) round_index.
     obind (quadratic_round a_partial b_partial) (\<lambda>message.
     obind (tr_challenge C (absorb_round round_index message t) (bytes_of_string ''sumcheck-round''))
       (\<lambda>(t', challenge).
     obind (gl_fold a_partial challenge) (\<lambda>a_next.
     obind (gl_fold b_partial challenge) (\<lambda>b_next.
     Ok (t', a_next, b_next, rounds @ [message]))))))"

text \<open>What both sides do first: the transcript after the three commitments, and the two points.\<close>

definition absorb_commitments :: "byte list \<Rightarrow> nat \<Rightarrow> nat \<Rightarrow> nat \<Rightarrow> hash32 \<Rightarrow> hash32 \<Rightarrow> hash32 \<Rightarrow> transcript" where
  "absorb_commitments binding rows inner cols a_commitment b_commitment c_commitment =
     tr_absorb (bytes_of_string ''C-commitment'') c_commitment
       (tr_absorb (bytes_of_string ''B-commitment'') b_commitment
         (tr_absorb (bytes_of_string ''A-commitment'') a_commitment (tr_new binding rows inner cols)))"

definition sumcheck_points :: "crypto \<Rightarrow> transcript \<Rightarrow> nat \<Rightarrow> nat
    \<Rightarrow> (sumcheck_error, transcript \<times> goldilocks list \<times> goldilocks list) outcome" where
  "sumcheck_points C t rows cols =
     obind (ilog2_or_panic rows) (\<lambda>row_bits.
     obind (challenge_vector C t (bytes_of_string ''row-point'') row_bits) (\<lambda>(t', row_point).
     obind (ilog2_or_panic cols) (\<lambda>col_bits.
     obind (challenge_vector C t' (bytes_of_string ''col-point'') col_bits) (\<lambda>(t'', col_point).
     Ok (t'', row_point, col_point)))))"

definition prove_toy_matrix_product :: "crypto \<Rightarrow> byte list \<Rightarrow> int list \<Rightarrow> int list \<Rightarrow> int list
    \<Rightarrow> nat \<Rightarrow> nat \<Rightarrow> nat \<Rightarrow> (sumcheck_error, sumcheck_proof) outcome" where
  "prove_toy_matrix_product C binding a b c rows inner cols =
     obind (validate_shape a b (Some c) rows inner cols) (\<lambda>_.
     let a_values = field_values a; b_values = field_values b; c_values = field_values c;
         a_commitment = matrix_commitment C (bytes_of_string ''A'') rows inner a_values;
         b_commitment = matrix_commitment C (bytes_of_string ''B'') inner cols b_values;
         c_commitment = matrix_commitment C (bytes_of_string ''C'') rows cols c_values
     in obind (sumcheck_points C
          (absorb_commitments binding rows inner cols a_commitment b_commitment c_commitment) rows cols)
          (\<lambda>(t, row_point, col_point).
     obind (evaluate_mle c_values (col_point @ row_point)) (\<lambda>c_evaluation.
     let t = tr_absorb (bytes_of_string ''C-evaluation'') (gl_encode c_evaluation) t;
         row_weights = equality_weights row_point;
         col_weights = equality_weights col_point
     in obind (omap (partial_row a_values row_weights rows inner) [0..<inner]) (\<lambda>a_partial.
     obind (omap (partial_col b_values col_weights cols) [0..<inner]) (\<lambda>b_partial.
     obind (ilog2_or_panic inner) (\<lambda>inner_bits.
     obind (ofold (prove_round C) (t, a_partial, b_partial, []) [0..<inner_bits])
       (\<lambda>(t, a_partial, b_partial, rounds).
     obind (index_or_panic a_partial 0) (\<lambda>a_final.
     obind (index_or_panic b_partial 0) (\<lambda>b_final.
     Ok \<lparr>sp_protocol_version = SUMCHECK_PROTOCOL_VERSION, sp_a_commitment = a_commitment,
         sp_b_commitment = b_commitment, sp_c_commitment = c_commitment,
         sp_c_evaluation = c_evaluation, sp_rounds = rounds, sp_a_final = a_final,
         sp_b_final = b_final\<rparr>)))))))))"

section \<open>The verifier\<close>

type_synonym verifier_state = "transcript \<times> goldilocks \<times> goldilocks list"

definition verify_round :: "crypto \<Rightarrow> verifier_state \<Rightarrow> nat \<times> (u64 \<times> u64 \<times> u64)
    \<Rightarrow> (sumcheck_error, verifier_state) outcome" where
  "verify_round C = (\<lambda>(t, claim, common_point) (round_index, (e0, e1, e2)).
     obind (gl_canonical e0) (\<lambda>m0.
     obind (gl_canonical e1) (\<lambda>m1.
     obind (gl_canonical e2) (\<lambda>m2.
     if gl_add m0 m1 \<noteq> claim then Err SC_RoundClaim else
     obind (tr_challenge C (absorb_round round_index (m0, m1, m2) t) (bytes_of_string ''sumcheck-round''))
       (\<lambda>(t', challenge).
     Ok (t', evaluate_quadratic (m0, m1, m2) challenge, common_point @ [challenge]))))))"

definition verify_toy_matrix_product :: "crypto \<Rightarrow> byte list \<Rightarrow> int list \<Rightarrow> int list \<Rightarrow> int list
    \<Rightarrow> nat \<Rightarrow> nat \<Rightarrow> nat \<Rightarrow> sumcheck_proof \<Rightarrow> (sumcheck_error, unit) outcome" where
  "verify_toy_matrix_product C binding a b c rows inner cols proof =
     obind (validate_shape a b (Some c) rows inner cols) (\<lambda>_.
     if sp_protocol_version proof \<noteq> SUMCHECK_PROTOCOL_VERSION then Err SC_ProtocolVersion else
     obind (ilog2_or_panic inner) (\<lambda>inner_bits.
     if length (sp_rounds proof) \<noteq> inner_bits then Err SC_RoundCount else
     let a_values = field_values a; b_values = field_values b; c_values = field_values c;
         a_commitment = matrix_commitment C (bytes_of_string ''A'') rows inner a_values;
         b_commitment = matrix_commitment C (bytes_of_string ''B'') inner cols b_values;
         c_commitment = matrix_commitment C (bytes_of_string ''C'') rows cols c_values
     in if sp_a_commitment proof \<noteq> a_commitment \<or> sp_b_commitment proof \<noteq> b_commitment
          \<or> sp_c_commitment proof \<noteq> c_commitment
     then Err SC_Commitment else
     obind (sumcheck_points C
       (absorb_commitments binding rows inner cols a_commitment b_commitment c_commitment) rows cols)
       (\<lambda>(t, row_point, col_point).
     obind (evaluate_mle c_values (col_point @ row_point)) (\<lambda>expected_c.
     obind (gl_canonical (sp_c_evaluation proof)) (\<lambda>c_evaluation.
     if c_evaluation \<noteq> expected_c then Err SC_Opening else
     let t = tr_absorb (bytes_of_string ''C-evaluation'') (gl_encode c_evaluation) t
     in obind (ofold (verify_round C) (t, c_evaluation, []) (List.enumerate 0 (sp_rounds proof)))
       (\<lambda>(t, claim, common_point).
     obind (gl_canonical (sp_a_final proof)) (\<lambda>a_final.
     obind (gl_canonical (sp_b_final proof)) (\<lambda>b_final.
     if claim \<noteq> gl_mul a_final b_final then Err SC_TerminalClaim else
     obind (evaluate_mle a_values (common_point @ row_point)) (\<lambda>expected_a.
     if a_final \<noteq> expected_a then Err SC_Opening else
     obind (evaluate_mle b_values (col_point @ common_point)) (\<lambda>expected_b.
     if b_final \<noteq> expected_b then Err SC_Opening else Ok ()))))))))))"

section \<open>Residues\<close>

type_synonym gl = "18446744069414584321"

abbreviation (input) gl_p :: int where "gl_p \<equiv> 18446744069414584321"

definition gl_val :: "u64 \<Rightarrow> gl" where
  "gl_val x = of_int (uint x)"

abbreviation gl_ok :: "u64 \<Rightarrow> bool" where "gl_ok x \<equiv> x < GOLDILOCKS_MODULUS"

lemma gl_of_int_eq_iff: "(of_int x :: gl) = of_int y \<longleftrightarrow> x mod gl_p = y mod gl_p"
proof -
  have c: "int CARD(gl) = gl_p" by simp
  have "Rep_bit1 (of_int z :: gl) = z mod gl_p" for z
    using bit1.Rep_Abs_mod [where ?'a = "9223372034707292160"] bit1.of_int_eq [where ?'a = "9223372034707292160"]
    by simp
  then show ?thesis by (metis Rep_bit1_inject)
qed


lemma uint_modulus: "uint GOLDILOCKS_MODULUS = gl_p" "unat GOLDILOCKS_MODULUS = 18446744069414584321"
  by (simp_all add: GOLDILOCKS_MODULUS_def)

lemma gl_ok_iff: "gl_ok x \<longleftrightarrow> uint x < gl_p"
  by (simp add: word_less_def uint_modulus)

lemma u128_mod_val:
  assumes "uint (w :: u128) = n"
  shows "uint (ucast (w mod ucast GOLDILOCKS_MODULUS) :: u64) = n mod gl_p"
proof -
  have "uint (w mod ucast GOLDILOCKS_MODULUS) = n mod gl_p"
    using assms by (simp add: uint_mod GOLDILOCKS_MODULUS_def)
  moreover have "0 \<le> n mod gl_p" "n mod gl_p < 2 ^ 64"
    by (simp_all add: order_less_trans [OF pos_mod_bound])
  ultimately show ?thesis by (simp add: unsigned_ucast_eq take_bit_int_eq_self_iff)
qed

lemma uint_bounds64: "0 \<le> uint (a :: u64)" "uint a < 2 ^ 64"
  using uint_lt2p [of a] by simp_all

lemma uint_up128 [simp]: "uint (ucast (a :: u64) :: u128) = uint a"
  using uint_bounds64 [of a] by (simp add: unsigned_ucast_eq take_bit_int_eq_self_iff)

lemma uint_gl_add: "uint (gl_add a b) = (uint a + uint b) mod gl_p"
  unfolding gl_add_def
proof (rule u128_mod_val)
  show "uint (ucast a + ucast b :: u128) = uint a + uint b"
    using uint_bounds64 [of a] uint_bounds64 [of b] by (simp add: uint_word_ariths mod_pos_pos_trivial del: unsigned_ucast_eq)
qed

lemma uint_gl_mul: "uint (gl_mul a b) = (uint a * uint b) mod gl_p"
  unfolding gl_mul_def
proof (rule u128_mod_val)
  have "uint a * uint b < 2 ^ 64 * 2 ^ 64"
    using uint_bounds64 [of a] uint_bounds64 [of b] by (intro mult_strict_mono) simp_all
  then show "uint (ucast a * ucast b :: u128) = uint a * uint b"
    by (simp add: uint_word_ariths mod_pos_pos_trivial del: unsigned_ucast_eq)
qed

text \<open>Every operation returns a canonical element and acts on residues as the ring operation.\<close>

named_theorems gl_simps \<open>Goldilocks words read as residues\<close>

lemma gl_val_mod: "uint x = n mod gl_p \<Longrightarrow> gl_val x = of_int n"
  by (simp add: gl_val_def gl_of_int_eq_iff)

lemma gl_val_inj: "gl_ok x \<Longrightarrow> gl_ok y \<Longrightarrow> gl_val x = gl_val y \<longleftrightarrow> x = y"
  unfolding gl_val_def gl_of_int_eq_iff gl_ok_iff by (simp add: word_uint_eq_iff uint_bounds64)

lemma gl_val_add [gl_simps]: "gl_val (gl_add a b) = gl_val a + gl_val b"
  using gl_val_mod [OF uint_gl_add] by (simp add: gl_val_def)

lemma gl_val_mul [gl_simps]: "gl_val (gl_mul a b) = gl_val a * gl_val b"
  using gl_val_mod [OF uint_gl_mul] by (simp add: gl_val_def)

lemma gl_ok_add [simp]: "gl_ok (gl_add a b)"
  by (simp add: gl_ok_iff uint_gl_add)

lemma gl_ok_mul [simp]: "gl_ok (gl_mul a b)"
  by (simp add: gl_ok_iff uint_gl_mul)

lemma gl_mod_neg: "- gl_p \<le> d \<Longrightarrow> d < 0 \<Longrightarrow> d mod gl_p = gl_p + d"
  using mod_pos_pos_trivial [of "gl_p + d" gl_p] by simp

lemma uint_sub_le: "uint b \<le> uint a \<Longrightarrow> uint (a - b) = uint a - uint (b :: u64)"
  by (simp add: uint_sub_lem [THEN iffD1])

lemma uint_gl_sub:
  assumes "gl_ok a" "gl_ok b"
  shows "uint (gl_sub a b) = (uint a - uint b) mod gl_p"
proof (cases "b \<le> a")
  case True
  then have "0 \<le> uint a - uint b" "uint a - uint b < gl_p"
    using assms uint_bounds64 [of b] unfolding word_le_def gl_ok_iff by linarith+
  then have "(uint a - uint b) mod gl_p = uint a - uint b" by (rule mod_pos_pos_trivial)
  then show ?thesis using True by (simp add: gl_sub_def uint_sub_le word_le_def)
next
  case False
  then have lt: "uint a < uint b" by (simp add: word_le_def)
  then have d: "uint (b - a) = uint b - uint a" by (simp add: uint_sub_le)
  have b: "uint b - uint a \<le> gl_p" using assms uint_bounds64 [of a] unfolding gl_ok_iff by linarith
  then have "uint (GOLDILOCKS_MODULUS - (b - a)) = gl_p - (uint b - uint a)"
    by (simp add: uint_sub_le uint_modulus d)
  moreover have "(uint a - uint b) mod gl_p = gl_p + (uint a - uint b)"
    using lt b by (intro gl_mod_neg) linarith+
  ultimately show ?thesis using False by (simp add: gl_sub_def)
qed

lemma gl_val_sub [gl_simps]: "gl_ok a \<Longrightarrow> gl_ok b \<Longrightarrow> gl_val (gl_sub a b) = gl_val a - gl_val b"
  using gl_val_mod [OF uint_gl_sub] by (simp add: gl_val_def)

lemma gl_ok_sub [simp]: "gl_ok a \<Longrightarrow> gl_ok b \<Longrightarrow> gl_ok (gl_sub a b)"
  by (simp add: gl_ok_iff [of "gl_sub a b"] uint_gl_sub)

lemma gl_ok_double [simp]: "gl_ok (gl_double a)"
  by (simp add: gl_double_def)

lemma gl_val_double [gl_simps]: "gl_val (gl_double a) = 2 * gl_val a"
  by (simp add: gl_double_def gl_simps)

lemma gl_val_01 [gl_simps]: "gl_val 0 = 0" "gl_val 1 = 1"
  by (simp_all add: gl_val_def)

lemma gl_ok_01 [simp]: "gl_ok 0" "gl_ok 1"
  by (simp_all add: GOLDILOCKS_MODULUS_def)

lemma inverse_of_two: "2 * gl_val INV_TWO = 1"
  by (simp add: gl_val_def INV_TWO_def)

lemma uint_from_signed:
  assumes "- (2 ^ 63) \<le> v" "v < 2 ^ 63"
  shows "uint (gl_from_signed v) = v mod gl_p"
proof (cases "0 \<le> v")
  case True
  then show ?thesis using assms
    by (simp add: gl_from_signed_def uint_mod uint_modulus uint_word_of_int)
next
  case False
  have "- v mod 2 ^ 64 = - v" using False assms by (intro mod_pos_pos_trivial) simp_all
  then have "uint (word_of_int (- v) :: u64) = - v" by (simp only: uint_word_of_int len_bit0 len_num1) simp
  then have m: "uint (word_of_int (- v) mod GOLDILOCKS_MODULUS) = - v"
    using False assms by (simp add: uint_mod uint_modulus)
  then have "word_of_int (- v) mod GOLDILOCKS_MODULUS \<noteq> 0" using False by (metis neg_equal_0_iff_equal order_refl unsigned_0)
  moreover have "uint (GOLDILOCKS_MODULUS - word_of_int (- v) mod GOLDILOCKS_MODULUS) = gl_p + v"
    using m False assms by (simp add: uint_sub_le uint_modulus)
  moreover have "v mod gl_p = gl_p + v" using False assms by (intro gl_mod_neg) simp_all
  ultimately show ?thesis using False assms by (simp add: gl_from_signed_def Let_def)
qed

definition i64_list :: "int list \<Rightarrow> bool" where
  "i64_list vs \<longleftrightarrow> list_all (\<lambda>v. - (2 ^ 63) \<le> v \<and> v < 2 ^ 63) vs"

lemma gl_val_from_signed:
  "- (2 ^ 63) \<le> v \<Longrightarrow> v < 2 ^ 63 \<Longrightarrow> gl_val (gl_from_signed v) = of_int v \<and> gl_ok (gl_from_signed v)"
  using gl_val_mod [OF uint_from_signed [of v]] by (simp add: gl_ok_iff uint_from_signed)

section \<open>Multilinear algebra over a ring\<close>

definition rfold :: "'r::comm_ring_1 list \<Rightarrow> 'r \<Rightarrow> 'r list" where
  "rfold t c = map (\<lambda>(x, y). x + (y - x) * c) (chunks_exact_2 t)"

definition rweights :: "'r::comm_ring_1 list \<Rightarrow> 'r list" where
  "rweights pt = foldl (\<lambda>w c. map (\<lambda>v. v * (1 - c)) w @ map (\<lambda>v. v * c) w) [1] pt"

definition dotp :: "'r::comm_ring_1 list \<Rightarrow> 'r list \<Rightarrow> 'r" where
  "dotp xs ys = sum_list (map2 (*) xs ys)"

lemma rweights_simps [simp]:
  "rweights [] = [1]"
  "rweights (pt @ [c]) = map (\<lambda>v. v * (1 - c)) (rweights pt) @ map (\<lambda>v. v * c) (rweights pt)"
  by (simp_all add: rweights_def)

lemma length_rweights [simp]: "length (rweights pt) = 2 ^ length pt"
  by (induction pt rule: rev_induct) simp_all

lemma block_index: "i < K \<Longrightarrow> j < M \<Longrightarrow> j * K + i < M * (K :: nat)"
proof -
  assume "i < K" "j < M"
  then have "Suc j * K \<le> M * K" by (intro mult_le_mono1) simp
  then show ?thesis using \<open>i < K\<close> by simp
qed

text \<open>The weights of a concatenated point are the products of the weights of its parts.\<close>

lemma rweights_append_nth:
  "i < 2 ^ length p \<Longrightarrow> j < 2 ^ length q \<Longrightarrow>
   rweights (p @ q) ! (j * 2 ^ length p + i) = rweights p ! i * rweights q ! j"
proof (induction q arbitrary: j rule: rev_induct)
  case (snoc c q)
  let ?K = "2 ^ length p :: nat" and ?M = "2 ^ length q :: nat"
  have len: "length (rweights (p @ q)) = ?M * ?K" by (simp add: power_add)
  have split: "rweights (p @ q @ [c]) =
    map (\<lambda>v. v * (1 - c)) (rweights (p @ q)) @ map (\<lambda>v. v * c) (rweights (p @ q))"
    using rweights_simps(2) [of "p @ q" c] by (simp only: append_assoc)
  have j: "j < 2 * ?M" using snoc.prems by simp
  show ?case
  proof (cases "j < ?M")
    case True
    then show ?thesis
      using snoc.IH [OF snoc.prems(1) True] block_index [OF snoc.prems(1) True] len snoc.prems(1)
      unfolding split by (simp add: nth_append mult.assoc)
  next
    case False
    then have j': "j - ?M < ?M" and "\<not> j * ?K + i < ?M * ?K" using j by simp_all (meson mult_le_mono1 not_le trans_le_add1)
    moreover have "j * ?K + i - ?M * ?K = (j - ?M) * ?K + i" using False by (simp add: diff_mult_distrib)
    ultimately show ?thesis
      using snoc.IH [OF snoc.prems(1) j'] block_index [OF snoc.prems(1) j'] len False
      unfolding split by (simp add: nth_append mult.assoc)
  qed
qed simp

lemma dotp_simps [simp]: "dotp [] ys = 0" "dotp (x # xs) (y # ys) = x * y + dotp xs ys"
  by (simp_all add: dotp_def)

lemma dotp_append: "length s = length u \<Longrightarrow> dotp (s @ t) (u @ v) = dotp s u + dotp t v"
  by (simp add: dotp_def)

lemma dotp_scale: "dotp t (map (\<lambda>v. v * k) w) = dotp t w * k"
  by (induction t w rule: list_induct2') (simp_all add: dotp_def algebra_simps)

lemma dotp_index: "length xs = n \<Longrightarrow> length ys = n \<Longrightarrow> dotp xs ys = (\<Sum>i<n. xs ! i * ys ! i)"
  by (simp add: dotp_def sum_list_sum_nth atLeast0LessThan)

lemma length_chunks [simp]: "length (chunks_exact_2 xs) = length xs div 2"
  by (induction xs rule: chunks_exact_2.induct) simp_all

lemma chunks_map: "chunks_exact_2 (map f xs) = map (map_prod f f) (chunks_exact_2 xs)"
  by (induction xs rule: chunks_exact_2.induct) simp_all

lemma chunks_append: "even (length xs) \<Longrightarrow> chunks_exact_2 (xs @ ys) = chunks_exact_2 xs @ chunks_exact_2 ys"
  by (induction xs rule: chunks_exact_2.induct) simp_all

lemma set_chunks: "(x, y) \<in> set (chunks_exact_2 xs) \<Longrightarrow> x \<in> set xs \<and> y \<in> set xs"
  by (induction xs rule: chunks_exact_2.induct) auto

lemma length_rfold [simp]: "length (rfold t c) = length t div 2"
  by (simp add: rfold_def)

lemma rfold_pair: "rfold [x, y] c = [x * (1 - c) + y * c]"
  by (simp add: rfold_def algebra_simps)

lemma rfolds_append:
  "length s = 2 ^ length pt * m \<Longrightarrow> foldl rfold (s @ t) pt = foldl rfold s pt @ foldl rfold t pt"
proof (induction pt arbitrary: s t)
  case (Cons c pt)
  then have "even (length s)" "length (rfold s c) = 2 ^ length pt * m" by simp_all
  then show ?case using Cons.IH [of "rfold s c" "rfold t c"] by (simp add: rfold_def chunks_append)
qed simp

text \<open>Folding a table along a point evaluates its multilinear extension there.\<close>

lemma rfolds_dotp: "length t = 2 ^ length pt \<Longrightarrow> foldl rfold t pt = [dotp t (rweights pt)]"
proof (induction pt arbitrary: t rule: rev_induct)
  case Nil
  then obtain x where "t = [x]" by (auto simp: length_Suc_conv)
  then show ?case by simp
next
  case (snoc c pt)
  define u v where "u = take (2 ^ length pt) t" "v = drop (2 ^ length pt) t"
  then have t: "t = u @ v" and len: "length u = 2 ^ length pt" "length v = 2 ^ length pt"
    using snoc.prems by simp_all
  have "foldl rfold t (pt @ [c]) = rfold [dotp u (rweights pt), dotp v (rweights pt)] c"
    using rfolds_append [of u pt 1 v] snoc.IH len by (simp add: t)
  moreover have "dotp t (rweights (pt @ [c])) = dotp u (rweights pt) * (1 - c) + dotp v (rweights pt) * c"
    by (simp add: t dotp_append len dotp_scale)
  ultimately show ?case by (simp only: rfold_pair)
qed

lemma sum_blocks: "(\<Sum>i < M * K. f i) = (\<Sum>j<M. \<Sum>k<K. f (j * K + k :: nat))"
proof (induction M)
  case (Suc M)
  have "(\<Sum>i < Suc M * K. f i) = (\<Sum>i < M * K. f i) + sum f {M * K..<M * K + K}"
    using sum.atLeastLessThan_concat [of 0 "M * K" "M * K + K" f]
    by (simp add: lessThan_atLeast0 add.commute)
  also have "sum f {M * K..<M * K + K} = (\<Sum>k<K. f (M * K + k))"
    using sum.shift_bounds_nat_ivl [of f 0 "M * K" K] by (simp add: add.commute lessThan_atLeast0)
  finally show ?case using Suc.IH by simp
qed simp

text \<open>
  The round polynomial of two tables by its values at 0, 1 and 2, and the interpolation the verifier
  uses. Interpolating at \<open>c\<close> gives the inner product of the tables folded at \<open>c\<close>.
\<close>

fun rquad :: "'r::comm_ring_1 list \<Rightarrow> 'r list \<Rightarrow> 'r \<times> 'r \<times> 'r" where
  "rquad (a0 # a1 # as) (b0 # b1 # bs) =
     (let (q0, q1, q2) = rquad as bs
      in (a0 * b0 + q0, a1 * b1 + q1, (2 * a1 - a0) * (2 * b1 - b0) + q2))"
| "rquad _ _ = (0, 0, 0)"

definition reval :: "'r::comm_ring_1 \<Rightarrow> 'r \<times> 'r \<times> 'r \<Rightarrow> 'r \<Rightarrow> 'r" where
  "reval h = (\<lambda>(q0, q1, q2) c. q0 + (q1 - q0) * c + (q2 - 2 * q1 + q0) * c * (c - 1) * h)"

lemma reval_add: "reval h (x0 + q0, x1 + q1, x2 + q2) c = reval h (x0, x1, x2) c + reval h (q0, q1, q2) c"
  by (simp add: reval_def algebra_simps)

lemma reval_pair:
  assumes "2 * h = (1 :: 'r::comm_ring_1)"
  shows "reval h (a0 * b0, a1 * b1, (2 * a1 - a0) * (2 * b1 - b0)) c
    = (a0 + (a1 - a0) * c) * (b0 + (b1 - b0) * c)"
proof -
  have "((2 * a1 - a0) * (2 * b1 - b0) - 2 * (a1 * b1) + a0 * b0) * c * (c - 1) * h
    = (2 * h) * ((a1 - a0) * (b1 - b0) * c * (c - 1))"
    by (simp add: algebra_simps)
  then show ?thesis unfolding reval_def assms by (simp add: algebra_simps)
qed

lemma reval_rquad:
  assumes "2 * h = (1 :: 'r::comm_ring_1)"
  shows "reval h (rquad xs ys) c = dotp (rfold xs c) (rfold ys c)"
proof (induction xs ys rule: rquad.induct)
  case (1 a0 a1 as b0 b1 bs)
  obtain q0 q1 q2 where q: "rquad as bs = (q0, q1, q2)" by (cases "rquad as bs")
  then have "reval h (q0, q1, q2) c = dotp (rfold as c) (rfold bs c)" using "1.IH" by simp
  then show ?case by (simp add: q reval_add reval_pair [OF assms] rfold_def)
qed (simp_all add: reval_def rfold_def dotp_def)

lemma rquad_claim: "length xs = length ys \<Longrightarrow> even (length xs) \<Longrightarrow>
   fst (rquad xs ys) + fst (snd (rquad xs ys)) = dotp xs ys"
  by (induction xs ys rule: rquad.induct) (auto simp: algebra_simps split: prod.splits)

section \<open>The code's tables as tables of residues\<close>

definition repr :: "goldilocks list \<Rightarrow> gl list \<Rightarrow> bool" where
  "repr t vs \<longleftrightarrow> list_all gl_ok t \<and> map gl_val t = vs"

lemma repr_simps [simp]:
  "repr [] vs \<longleftrightarrow> vs = []" "repr (x # t) vs \<longleftrightarrow> gl_ok x \<and> (\<exists>ws. vs = gl_val x # ws \<and> repr t ws)"
  by (auto simp: repr_def)

lemma repr_append: "repr t vs \<Longrightarrow> repr u ws \<Longrightarrow> repr (t @ u) (vs @ ws)"
  by (auto simp: repr_def)

lemma repr_length: "repr t vs \<Longrightarrow> length vs = length t"
  by (auto simp: repr_def)

lemma repr_nth: "repr t vs \<Longrightarrow> i < length t \<Longrightarrow> gl_ok (t ! i) \<and> gl_val (t ! i) = vs ! i"
  by (auto simp: repr_def list_all_length)

lemma repr_field_values: "i64_list vs \<Longrightarrow> repr (field_values vs) (map of_int vs)"
  by (induction vs) (auto simp: i64_list_def field_values_def repr_def gl_val_from_signed)

lemma gl_fold_repr:
  assumes "repr t vs" "gl_ok c" "even (length t)"
  shows "\<exists>t'. gl_fold t c = Ok t' \<and> repr t' (rfold vs (gl_val c))"
proof -
  let ?t' = "map (\<lambda>(x, y). gl_add x (gl_mul (gl_sub y x) c)) (chunks_exact_2 t)"
  have "gl_ok x \<and> gl_ok y" if "(x, y) \<in> set (chunks_exact_2 t)" for x y
    using set_chunks [OF that] assms(1) by (auto simp: repr_def list_all_iff)
  then have "repr ?t' (rfold vs (gl_val c))"
    using assms(1) by (auto simp: repr_def rfold_def chunks_map list_all_iff gl_simps)
  moreover have "gl_fold t c = Ok ?t'" using assms(3) by (simp add: gl_fold_def even_iff_mod_2_eq_zero)
  ultimately show ?thesis by blast
qed

lemma gl_folds_repr:
  assumes "repr t vs" "repr pt rs" "length t = 2 ^ length pt * m"
  shows "\<exists>t'. ofold gl_fold t pt = Ok t' \<and> repr t' (foldl rfold vs rs)"
  using assms
proof (induction pt arbitrary: t vs rs)
  case (Cons c pt)
  then obtain rs' where rs: "rs = gl_val c # rs'" "repr pt rs'" "gl_ok c" by auto
  obtain u where u: "gl_fold t c = Ok u" "repr u (rfold vs (gl_val c))"
    using gl_fold_repr [of t vs c] Cons.prems rs by auto
  moreover have "length u = 2 ^ length pt * m"
    using repr_length [OF u(2)] repr_length [OF Cons.prems(1)] Cons.prems(3) by simp
  ultimately show ?case using Cons.IH [of u] rs by auto
qed simp

lemma evaluate_mle_repr:
  assumes "repr t vs" "repr pt rs" "length t = 2 ^ length pt" "length pt < 64"
  shows "\<exists>v. evaluate_mle t pt = Ok v \<and> gl_ok v \<and> gl_val v = dotp vs (rweights rs)"
proof -
  obtain t' where t': "ofold gl_fold t pt = Ok t'" "repr t' (foldl rfold vs rs)"
    using gl_folds_repr [of t vs pt rs 1] assms by auto
  moreover have "foldl rfold vs rs = [dotp vs (rweights rs)]"
    using assms repr_length by (intro rfolds_dotp) metis
  ultimately obtain v where "t' = [v]" "gl_ok v" "gl_val v = dotp vs (rweights rs)"
    by (auto simp: repr_def)
  then show ?thesis using t' assms by (simp add: evaluate_mle_def)
qed

lemma weights_step_repr:
  assumes "repr w ws" "gl_ok c"
  shows "repr (weights_step w c) (map (\<lambda>v. v * (1 - gl_val c)) ws @ map (\<lambda>v. v * gl_val c) ws)"
proof -
  have "ws = map gl_val w" using assms(1) by (simp add: repr_def)
  then show ?thesis using assms by (auto simp: repr_def weights_step_def list_all_iff gl_simps)
qed

lemma equality_weights_repr: "repr pt rs \<Longrightarrow> repr (equality_weights pt) (rweights rs)"
proof (induction pt arbitrary: rs rule: rev_induct)
  case (snoc c pt)
  then obtain rs' where rs: "rs = rs' @ [gl_val c]" "repr pt rs'" "gl_ok c" by (auto simp: repr_def)
  from weights_step_repr [OF snoc.IH [OF rs(2)] rs(3)] show ?case
    by (simp add: rs(1) equality_weights_def)
qed (simp add: repr_def equality_weights_def gl_simps)

text \<open>The two weighted sums of the prover.\<close>

lemma weighted_sum_repr:
  assumes "repr t vs" "repr w ws" "\<And>i. i < n \<Longrightarrow> g i < length t" "n \<le> length w"
  shows "\<exists>x. ofold (\<lambda>acc i. obind (index_or_panic t (g i)) (\<lambda>v. obind (index_or_panic w i)
      (\<lambda>u. Ok (gl_add acc (gl_mul v u))))) 0 [0..<n] = (Ok x :: (sumcheck_error, goldilocks) outcome)
    \<and> gl_ok x \<and> gl_val x = (\<Sum>i<n. vs ! g i * ws ! i)"
  using assms(3,4)
proof (induction n)
  case (Suc n)
  let ?step = "\<lambda>acc i. obind (index_or_panic t (g i)) (\<lambda>v. obind (index_or_panic w i)
      (\<lambda>u. Ok (gl_add acc (gl_mul v u))))"
  obtain x where x: "ofold ?step 0 [0..<n] = (Ok x :: (sumcheck_error, goldilocks) outcome)"
    "gl_val x = (\<Sum>i<n. vs ! g i * ws ! i)"
    using Suc.IH Suc.prems by auto
  moreover have "gl_val (t ! g n) = vs ! g n" "gl_val (w ! n) = ws ! n"
    using repr_nth [OF assms(1)] repr_nth [OF assms(2)] Suc.prems by simp_all
  ultimately show ?case using Suc.prems by (simp add: ofold_append gl_simps)
qed (simp add: gl_simps)

lemma weighted_sums_repr:
  assumes "\<And>k. k < n \<Longrightarrow> \<exists>x. f k = Ok x \<and> gl_ok x \<and> gl_val x = h k"
  shows "\<exists>xs. omap f [0..<n] = Ok xs \<and> length xs = n \<and> repr xs (map h [0..<n])"
proof -
  have "\<exists>y. f k = Ok y" if "k \<in> set [0..<n]" for k using assms [of k] that by auto
  then obtain xs where xs: "omap f [0..<n] = Ok xs" using omap_total by blast
  then have "length xs = n" "\<forall>k<n. f k = Ok (xs ! k)" by (auto simp: omap_Ok_iff)
  moreover from this assms have "\<forall>k<n. gl_ok (xs ! k) \<and> gl_val (xs ! k) = h k" by fastforce
  ultimately show ?thesis using xs by (auto simp: repr_def list_all_length intro: nth_equalityI)
qed

lemma partial_rows_repr:
  assumes "repr a vs" "repr w ws" "length a = rows * inner" "length w = rows"
  shows "\<exists>xs. omap (partial_row a w rows inner) [0..<inner] = Ok xs \<and> length xs = inner
    \<and> repr xs (map (\<lambda>k. \<Sum>r<rows. vs ! (r * inner + k) * ws ! r) [0..<inner])"
  unfolding partial_row_def using assms
  by (intro weighted_sums_repr weighted_sum_repr) (simp_all add: block_index)

lemma partial_cols_repr:
  assumes "repr b vs" "repr w ws" "length b = inner * cols" "length w = cols"
  shows "\<exists>xs. omap (partial_col b w cols) [0..<inner] = Ok xs \<and> length xs = inner
    \<and> repr xs (map (\<lambda>k. \<Sum>j<cols. vs ! (k * cols + j) * ws ! j) [0..<inner])"
  unfolding partial_col_def using assms
  by (intro weighted_sums_repr weighted_sum_repr) (simp_all add: block_index)

text \<open>Round messages.\<close>

definition message_ok :: "round_message \<Rightarrow> bool" where
  "message_ok = (\<lambda>(m0, m1, m2). gl_ok m0 \<and> gl_ok m1 \<and> gl_ok m2)"

definition message_val :: "round_message \<Rightarrow> gl \<times> gl \<times> gl" where
  "message_val = (\<lambda>(m0, m1, m2). (gl_val m0, gl_val m1, gl_val m2))"

definition tri_add :: "gl \<times> gl \<times> gl \<Rightarrow> gl \<times> gl \<times> gl \<Rightarrow> gl \<times> gl \<times> gl" where
  "tri_add = (\<lambda>(x0, x1, x2) (y0, y1, y2). (x0 + y0, x1 + y1, x2 + y2))"

lemma tri_add_assoc: "tri_add (tri_add x y) z = tri_add x (tri_add y z)"
  by (simp add: tri_add_def add.assoc split: prod.splits)

lemma tri_add_0 [simp]: "tri_add x (0, 0, 0) = x" "tri_add (0, 0, 0) x = x"
  by (simp_all add: tri_add_def split: prod.splits)

lemma quadratic_accumulate_val:
  assumes "gl_ok a0" "gl_ok b0"
  shows "message_ok (quadratic_accumulate m ((a0, a1), (b0, b1)))"
    and "message_val (quadratic_accumulate m ((a0, a1), (b0, b1))) = tri_add (message_val m)
      (gl_val a0 * gl_val b0, gl_val a1 * gl_val b1,
       (2 * gl_val a1 - gl_val a0) * (2 * gl_val b1 - gl_val b0))"
  using assms by (auto simp: quadratic_accumulate_def message_ok_def message_val_def tri_add_def Let_def
      gl_simps split: prod.splits)

lemma rquad_tri_add: "rquad (a0 # a1 # as) (b0 # b1 # bs) =
    tri_add (a0 * b0, a1 * b1, (2 * a1 - a0) * (2 * b1 - b0)) (rquad as bs)"
  by (simp add: tri_add_def Let_def split: prod.splits)

lemma quadratic_fold_val:
  assumes "list_all gl_ok a" "list_all gl_ok b" "message_ok m"
  shows "message_ok (foldl quadratic_accumulate m (zip (chunks_exact_2 a) (chunks_exact_2 b))) \<and>
    message_val (foldl quadratic_accumulate m (zip (chunks_exact_2 a) (chunks_exact_2 b)))
      = tri_add (message_val m) (rquad (map gl_val a) (map gl_val b))"
  using assms
proof (induction a b arbitrary: m rule: rquad.induct)
  case (1 a0 a1 as b0 b1 bs)
  then have ok: "gl_ok a0" "gl_ok b0" by simp_all
  from "1.IH" [OF _ _ quadratic_accumulate_val(1) [OF ok]] "1.prems" show ?case
    by (simp add: quadratic_accumulate_val(2) [OF ok] tri_add_assoc rquad_tri_add del: rquad.simps(1))
qed simp_all

lemma quadratic_round_repr:
  assumes "repr a vs" "repr b ws" "length a = length b" "even (length a)"
  shows "\<exists>m. quadratic_round a b = Ok m \<and> message_ok m \<and> message_val m = rquad vs ws"
proof -
  have "vs = map gl_val a" "ws = map gl_val b" "list_all gl_ok a" "list_all gl_ok b"
    using assms(1,2) by (auto simp: repr_def)
  moreover have "message_ok (0, 0, 0)" "message_val (0, 0, 0) = (0, 0, 0)"
    by (simp_all add: message_ok_def message_val_def gl_simps)
  ultimately show ?thesis using quadratic_fold_val [of a b "(0, 0, 0)"] assms(3,4)
    by (simp add: quadratic_round_def even_iff_mod_2_eq_zero)
qed

lemma evaluate_quadratic_val:
  assumes "message_ok m" "gl_ok c"
  shows "gl_val (evaluate_quadratic m c) = reval (gl_val INV_TWO) (message_val m) (gl_val c)"
    and "gl_ok (evaluate_quadratic m c)"
  using assms
  by (auto simp: evaluate_quadratic_def message_ok_def message_val_def reval_def Let_def gl_simps
      split: prod.splits)

section \<open>Challenges\<close>

lemma challenge_loop_ok: "challenge_loop C t label attempt = Ok c \<Longrightarrow> gl_ok c"
proof (induction C t label attempt rule: challenge_loop.induct)
  case (1 C t label attempt)
  then show ?case
    by (subst (asm) challenge_loop.simps) (auto simp: Let_def split: if_splits option.splits)
qed

lemma tr_challenge_ok: "tr_challenge C t label = Ok (t', c) \<Longrightarrow> gl_ok c"
  by (auto simp: tr_challenge_def split: option.splits dest: challenge_loop_ok)

lemma challenge_steps_ok:
  "ofold (challenge_step C label) (t, pt) is = Ok (t', pt') \<Longrightarrow> list_all gl_ok pt \<Longrightarrow>
   list_all gl_ok pt' \<and> length pt' = length pt + length is"
proof (induction "is" arbitrary: t pt)
  case (Cons i "is")
  then obtain u c where "tr_challenge C (tr_absorb (bytes_of_string ''point-index'') (usize_le i) t) label = Ok (u, c)"
    "ofold (challenge_step C label) (u, pt @ [c]) is = Ok (t', pt')"
    by (auto simp: challenge_step_def)
  then show ?case using Cons.IH [of u "pt @ [c]"] Cons.prems(2) tr_challenge_ok by auto
qed simp

lemma challenge_vector_repr:
  "challenge_vector C t label n = Ok (t', pt) \<Longrightarrow> repr pt (map gl_val pt) \<and> length pt = n"
  unfolding challenge_vector_def repr_def using challenge_steps_ok [of C label t "[]" "[0..<n]"] by auto

text \<open>
  The sampling cannot fail for ever if for every transcript some of the \<open>2 ^ 64\<close> attempts gives a
  canonical candidate.
\<close>

definition sampling_succeeds :: "crypto \<Rightarrow> bool" where
  "sampling_succeeds C \<longleftrightarrow> (\<forall>t label. \<exists>attempt. tr_candidate C t label attempt < GOLDILOCKS_MODULUS)"

lemma challenge_loop_total:
  assumes "unat attempt \<le> unat k" "gl_ok (tr_candidate C t label k)"
  shows "\<exists>c. challenge_loop C t label attempt = Ok c"
  using assms
proof (induction C t label attempt rule: challenge_loop.induct)
  case (1 C t label attempt)
  show ?case
  proof (cases "gl_ok (tr_candidate C t label attempt)")
    case True
    then show ?thesis by (subst challenge_loop.simps) simp
  next
    case False
    then have "attempt \<noteq> k" using "1.prems" by auto
    then have lt: "unat attempt < unat k" using "1.prems"(1) by (metis le_neq_implies_less word_unat_eq_iff)
    then have add: "checked_add attempt 1 = Some (attempt + 1)"
      using unsigned_less [of k, where ?'a = nat] by (simp add: checked_add_def)
    then have "unat (attempt + 1) \<le> unat k" using lt checked_add_unat [OF add] by simp
    then show ?thesis using "1.IH" [OF refl False add] "1.prems"(2) False add
      by (subst challenge_loop.simps) simp
  qed
qed

lemma tr_challenge_total:
  assumes "sampling_succeeds C" "unat (tr_counter t) < 2 ^ 64 - 1"
  shows "\<exists>t' c. tr_challenge C t label = Ok (t', c) \<and> unat (tr_counter t') = Suc (unat (tr_counter t))"
proof -
  obtain k where "gl_ok (tr_candidate C t label k)" using assms(1) by (auto simp: sampling_succeeds_def)
  then obtain c where "challenge_loop C t label 0 = Ok c" using challenge_loop_total [of 0 k C t label] by auto
  moreover have add: "checked_add (tr_counter t) 1 = Some (tr_counter t + 1)"
    using assms(2) by (simp add: checked_add_def)
  ultimately show ?thesis using checked_add_unat [OF add]
    by (simp add: tr_challenge_def tr_absorb_def)
qed

lemma tr_counter_absorb [simp]: "tr_counter (tr_absorb l v t) = tr_counter t"
  by (simp add: tr_absorb_def)

lemma challenge_vector_total:
  assumes "sampling_succeeds C" "unat (tr_counter t) + n < 2 ^ 64"
  shows "\<exists>t' pt. challenge_vector C t label n = Ok (t', pt) \<and> unat (tr_counter t') = unat (tr_counter t) + n"
  using assms(2)
proof (induction n)
  case (Suc n)
  then obtain u pt where u: "challenge_vector C t label n = Ok (u, pt)"
    "unat (tr_counter u) = unat (tr_counter t) + n" by auto
  moreover obtain t' c where
    "tr_challenge C (tr_absorb (bytes_of_string ''point-index'') (usize_le n) u) label = Ok (t', c)"
    "unat (tr_counter t') = Suc (unat (tr_counter u))"
    using tr_challenge_total [OF assms(1), of "tr_absorb (bytes_of_string ''point-index'') (usize_le n) u" label]
      Suc.prems u(2) by auto
  ultimately show ?case by (simp add: challenge_vector_def ofold_append challenge_step_def)
qed (simp add: challenge_vector_def)

section \<open>Rounds\<close>

lemma prove_round_cases:
  assumes "prove_round C (t, A, B, ms) i = Ok s"
  obtains m t' c A' B' where "quadratic_round A B = Ok m"
    "tr_challenge C (absorb_round i m t) (bytes_of_string ''sumcheck-round'') = Ok (t', c)"
    "gl_fold A c = Ok A'" "gl_fold B c = Ok B'" "s = (t', A', B', ms @ [m])"
  using assms by (auto simp: prove_round_def)

lemma verify_round_cases:
  assumes "verify_round C (t, claim, cp) (i, m) = Ok s"
  obtains t' c where "message_ok m" "gl_add (fst m) (fst (snd m)) = claim"
    "tr_challenge C (absorb_round i m t) (bytes_of_string ''sumcheck-round'') = Ok (t', c)"
    "s = (t', evaluate_quadratic m c, cp @ [c])"
  using assms by (auto simp: verify_round_def gl_canonical_def message_ok_def split: prod.splits if_splits)

lemma verify_round_intro:
  assumes "message_ok m" "gl_add (fst m) (fst (snd m)) = claim"
    "tr_challenge C (absorb_round i m t) (bytes_of_string ''sumcheck-round'') = Ok (t', c)"
  shows "verify_round C (t, claim, cp) (i, m) = Ok (t', evaluate_quadratic m c, cp @ [c])"
  using assms by (cases m) (simp add: verify_round_def gl_canonical_def message_ok_def)

text \<open>An honest round: its message passes the check and the next claim is that of the folded tables.\<close>

lemma honest_round:
  assumes "repr A vs" "repr B ws" "length A = length B" "even (length A)" "quadratic_round A B = Ok m" "gl_ok c"
  shows "message_ok m" "gl_val (gl_add (fst m) (fst (snd m))) = dotp vs ws"
    "gl_val (evaluate_quadratic m c) = dotp (rfold vs (gl_val c)) (rfold ws (gl_val c))"
proof -
  have m: "message_ok m" "message_val m = rquad vs ws"
    using quadratic_round_repr [OF assms(1-4)] assms(5) by auto
  then have "gl_val (fst m) = fst (rquad vs ws)" "gl_val (fst (snd m)) = fst (snd (rquad vs ws))"
    by (metis (no_types, lifting) case_prod_beta' fst_conv message_val_def snd_conv)+
  then show "message_ok m" "gl_val (gl_add (fst m) (fst (snd m))) = dotp vs ws"
    using m rquad_claim [of vs ws] repr_length assms by (simp_all add: gl_simps)
  show "gl_val (evaluate_quadratic m c) = dotp (rfold vs (gl_val c)) (rfold ws (gl_val c))"
    using evaluate_quadratic_val(1) [OF m(1) assms(6)] reval_rquad [OF inverse_of_two] m(2) by simp
qed

lemma rounds_complete:
  assumes "ofold (prove_round C) (t, A, B, ms0) is = Ok (t', A', B', ms)"
    "repr A vs" "repr B ws" "length A = 2 ^ length is" "length B = 2 ^ length is"
    "gl_ok claim" "gl_val claim = dotp vs ws"
  shows "\<exists>ms' cs claim'. ms = ms0 @ ms' \<and> length ms' = length is \<and> length cs = length is \<and>
    ofold (verify_round C) (t, claim, cp) (zip is ms') = Ok (t', claim', cp @ cs) \<and>
    list_all gl_ok cs \<and> gl_ok claim' \<and> repr A' (foldl rfold vs (map gl_val cs)) \<and>
    repr B' (foldl rfold ws (map gl_val cs)) \<and>
    gl_val claim' = dotp (foldl rfold vs (map gl_val cs)) (foldl rfold ws (map gl_val cs))"
  using assms
proof (induction "is" arbitrary: t A B ms0 vs ws claim cp)
  case (Cons i "is")
  obtain s where s: "prove_round C (t, A, B, ms0) i = Ok s"
    "ofold (prove_round C) s is = Ok (t', A', B', ms)" using Cons.prems(1) by auto
  from s(1) obtain m u c A1 B1 where r: "quadratic_round A B = Ok m"
    "tr_challenge C (absorb_round i m t) (bytes_of_string ''sumcheck-round'') = Ok (u, c)"
    "gl_fold A c = Ok A1" "gl_fold B c = Ok B1" "s = (u, A1, B1, ms0 @ [m])"
    by (rule prove_round_cases)
  have c: "gl_ok c" using tr_challenge_ok [OF r(2)] .
  have even: "even (length A)" "even (length B)" "length A = length B" using Cons.prems(4,5) by simp_all
  note h = honest_round [OF Cons.prems(2,3) even(3,1) r(1) c]
  have AB: "repr A1 (rfold vs (gl_val c))" "repr B1 (rfold ws (gl_val c))"
    using gl_fold_repr [OF Cons.prems(2) c even(1)] gl_fold_repr [OF Cons.prems(3) c even(2)] r(3,4) by auto
  have len: "length A1 = 2 ^ length is" "length B1 = 2 ^ length is"
    using repr_length [OF AB(1)] repr_length [OF AB(2)] repr_length [OF Cons.prems(2)]
      repr_length [OF Cons.prems(3)] Cons.prems(4,5) by simp_all
  have "gl_add (fst m) (fst (snd m)) = claim"
    using h(2) Cons.prems(6,7) gl_val_inj [of "gl_add (fst m) (fst (snd m))" claim] by simp
  from verify_round_intro [OF h(1) this r(2)]
  have v: "verify_round C (t, claim, cp) (i, m) = Ok (u, evaluate_quadratic m c, cp @ [c])" .
  from Cons.IH [OF s(2) [unfolded r(5)] AB len evaluate_quadratic_val(2) [OF h(1) c] h(3), of "cp @ [c]"]
  obtain ms' cs claim' where IH: "ms = (ms0 @ [m]) @ ms'" "length ms' = length is" "length cs = length is"
    "ofold (verify_round C) (u, evaluate_quadratic m c, cp @ [c]) (zip is ms') = Ok (t', claim', (cp @ [c]) @ cs)"
    "list_all gl_ok cs" "gl_ok claim'" "repr A' (foldl rfold (rfold vs (gl_val c)) (map gl_val cs))"
    "repr B' (foldl rfold (rfold ws (gl_val c)) (map gl_val cs))"
    "gl_val claim' = dotp (foldl rfold (rfold vs (gl_val c)) (map gl_val cs)) (foldl rfold (rfold ws (gl_val c)) (map gl_val cs))"
    by blast
  then show ?case using v c by (intro exI [of _ "m # ms'"] exI [of _ "c # cs"] exI [of _ claim']) simp
qed simp

lemma rounds_total:
  assumes "sampling_succeeds C" "repr A vs" "repr B ws" "length A = 2 ^ length is" "length B = 2 ^ length is"
    "unat (tr_counter t) + length is < 2 ^ 64"
  shows "\<exists>t' A' B' ms'. ofold (prove_round C) (t, A, B, ms) is = Ok (t', A', B', ms')"
  using assms(2-)
proof (induction "is" arbitrary: t A B ms vs ws)
  case (Cons i "is")
  have even: "even (length A)" "even (length B)" "length A = length B" using Cons.prems(3,4) by simp_all
  obtain m where m: "quadratic_round A B = Ok m"
    using quadratic_round_repr [OF Cons.prems(1,2) even(3,1)] by auto
  obtain u c where u: "tr_challenge C (absorb_round i m t) (bytes_of_string ''sumcheck-round'') = Ok (u, c)"
    "unat (tr_counter u) = Suc (unat (tr_counter t))"
    using tr_challenge_total [OF assms(1), of "absorb_round i m t" "bytes_of_string ''sumcheck-round''"] Cons.prems(5)
    by (auto simp: absorb_round_def)
  have c: "gl_ok c" using tr_challenge_ok [OF u(1)] .
  obtain A1 B1 where f: "gl_fold A c = Ok A1" "gl_fold B c = Ok B1"
    and AB: "repr A1 (rfold vs (gl_val c))" "repr B1 (rfold ws (gl_val c))"
    using gl_fold_repr [OF Cons.prems(1) c even(1)] gl_fold_repr [OF Cons.prems(2) c even(2)] by auto
  have "length A1 = 2 ^ length is" "length B1 = 2 ^ length is"
    using repr_length [OF AB(1)] repr_length [OF AB(2)] repr_length [OF Cons.prems(1)]
      repr_length [OF Cons.prems(2)] Cons.prems(3,4) by simp_all
  from Cons.IH [OF AB this, of u "ms @ [m]"] show ?case
    using Cons.prems(5) m u f by (simp add: prove_round_def)
qed simp

section \<open>The matrix identity\<close>

lemma mle_blocks:
  assumes "length t = 2 ^ length q * 2 ^ length p"
  shows "dotp t (rweights (p @ q)) = (\<Sum>j<2 ^ length q. \<Sum>i<2 ^ length p.
    t ! (j * 2 ^ length p + i) * (rweights p ! i * rweights q ! j))"
proof -
  have "dotp t (rweights (p @ q)) = (\<Sum>i<2 ^ length q * 2 ^ length p. t ! i * rweights (p @ q) ! i)"
    using assms by (intro dotp_index) (simp_all add: power_add)
  then show ?thesis by (simp add: sum_blocks rweights_append_nth)
qed

text \<open>The tables the prover starts the rounds with, over a ring.\<close>

definition row_table :: "'r::comm_ring_1 list \<Rightarrow> 'r list \<Rightarrow> nat \<Rightarrow> nat \<Rightarrow> 'r list" where
  "row_table va w rows inner = map (\<lambda>k. \<Sum>r<rows. va ! (r * inner + k) * w ! r) [0..<inner]"

definition col_table :: "'r::comm_ring_1 list \<Rightarrow> 'r list \<Rightarrow> nat \<Rightarrow> nat \<Rightarrow> 'r list" where
  "col_table vb w inner cols = map (\<lambda>k. \<Sum>j<cols. vb ! (k * cols + j) * w ! j) [0..<inner]"

lemma row_opening:
  assumes "length va = 2 ^ length rs * 2 ^ length cs"
  shows "dotp va (rweights (cs @ rs)) =
    dotp (row_table va (rweights rs) (2 ^ length rs) (2 ^ length cs)) (rweights cs)"
proof -
  have "dotp va (rweights (cs @ rs)) = (\<Sum>i<2 ^ length cs. \<Sum>j<2 ^ length rs.
    va ! (j * 2 ^ length cs + i) * (rweights cs ! i * rweights rs ! j))"
    using mle_blocks [OF assms] by (subst sum.swap) simp
  then show ?thesis
    by (simp add: dotp_index [of _ "2 ^ length cs"] row_table_def sum_distrib_left
        mult.assoc mult.commute mult.left_commute)
qed

lemma col_opening:
  assumes "length vb = 2 ^ length cs * 2 ^ length js"
  shows "dotp vb (rweights (js @ cs)) =
    dotp (col_table vb (rweights js) (2 ^ length cs) (2 ^ length js)) (rweights cs)"
  using assms
  by (simp add: mle_blocks dotp_index [of _ "2 ^ length cs"] col_table_def sum_distrib_left
      mult.assoc mult.commute mult.left_commute)

lemma product_claim:
  "dotp (row_table va rw rows inner) (col_table vb cw inner cols) =
    (\<Sum>r<rows. \<Sum>j<cols. (\<Sum>k<inner. va ! (r * inner + k) * vb ! (k * cols + j)) * (cw ! j * rw ! r))"
proof -
  have "dotp (row_table va rw rows inner) (col_table vb cw inner cols) =
    (\<Sum>k<inner. \<Sum>r<rows. \<Sum>j<cols. va ! (r * inner + k) * rw ! r * (vb ! (k * cols + j) * cw ! j))"
    by (simp add: dotp_index [of _ inner] row_table_def col_table_def sum_product)
  also have "\<dots> = (\<Sum>r<rows. \<Sum>k<inner. \<Sum>j<cols. va ! (r * inner + k) * rw ! r * (vb ! (k * cols + j) * cw ! j))"
    by (rule sum.swap)
  also have "\<dots> = (\<Sum>r<rows. \<Sum>j<cols. \<Sum>k<inner. va ! (r * inner + k) * rw ! r * (vb ! (k * cols + j) * cw ! j))"
    by (intro sum.cong refl sum.swap)
  finally show ?thesis by (simp add: sum_distrib_left mult.assoc mult.commute mult.left_commute)
qed

text \<open>
  How far \<open>c\<close> is from the product, seen at the sampled row and column point: the multilinear extension
  of the matrix \<open>c - a b\<close> there, modulo the Goldilocks prime.
\<close>

definition entry_defect :: "int list \<Rightarrow> int list \<Rightarrow> int list \<Rightarrow> nat \<Rightarrow> nat \<Rightarrow> nat \<Rightarrow> nat \<Rightarrow> int" where
  "entry_defect a b c inner cols r j =
     c ! (r * cols + j) - (\<Sum>k<inner. a ! (r * inner + k) * b ! (k * cols + j))"

definition product_defect :: "int list \<Rightarrow> int list \<Rightarrow> int list \<Rightarrow> nat \<Rightarrow> nat \<Rightarrow> nat
    \<Rightarrow> goldilocks list \<Rightarrow> goldilocks list \<Rightarrow> gl" where
  "product_defect a b c rows inner cols row_point col_point =
     (\<Sum>r<rows. \<Sum>j<cols. of_int (entry_defect a b c inner cols r j) *
        (rweights (map gl_val col_point) ! j * rweights (map gl_val row_point) ! r))"

lemma product_defect_claim:
  assumes "length a = 2 ^ length rp * 2 ^ k" "length b = 2 ^ k * 2 ^ length jp"
    "length c = 2 ^ length rp * 2 ^ length jp"
  shows "product_defect a b c (2 ^ length rp) (2 ^ k) (2 ^ length jp) rp jp =
    dotp (map of_int c) (rweights (map gl_val jp @ map gl_val rp)) -
    dotp (row_table (map of_int a) (rweights (map gl_val rp)) (2 ^ length rp) (2 ^ k))
         (col_table (map of_int b) (rweights (map gl_val jp)) (2 ^ k) (2 ^ length jp))"
proof -
  have "(of_int (entry_defect a b c (2 ^ k) (2 ^ length jp) r j) :: gl) =
      map of_int c ! (r * 2 ^ length jp + j) -
      (\<Sum>i<2 ^ k. map of_int a ! (r * 2 ^ k + i) * map of_int b ! (i * 2 ^ length jp + j))"
    if "r < 2 ^ length rp" "j < 2 ^ length jp" for r j
    using that assms by (simp add: entry_defect_def block_index)
  then show ?thesis
    unfolding product_defect_def product_claim using assms(3)
    by (simp add: mle_blocks left_diff_distrib sum_subtractf)
qed

section \<open>Shapes\<close>

lemma ilog2_power [simp]: "ilog2 (2 ^ k) = k"
proof (induction k)
  case (Suc k)
  then show ?case by (subst ilog2.simps) simp
qed (simp add: ilog2.simps)

lemma ilog2_or_panic_power [simp]: "ilog2_or_panic (2 ^ k) = Ok k"
  by (simp add: ilog2_or_panic_def)

lemma power_bits_bound: "(2 :: nat) ^ i * 2 ^ j \<le> 4096 \<Longrightarrow> i + j \<le> 12"
proof (rule ccontr)
  assume "2 ^ i * 2 ^ j \<le> (4096 :: nat)" "\<not> i + j \<le> 12"
  then have "(2 :: nat) ^ 13 \<le> 2 ^ (i + j)" by (intro power_increasing) simp_all
  with \<open>2 ^ i * 2 ^ j \<le> (4096 :: nat)\<close> show False by (simp add: power_add)
qed

lemma validate_shape_cases:
  assumes "validate_shape a b c rows inner cols = Ok ()"
  obtains r k n where "rows = 2 ^ r" "inner = 2 ^ k" "cols = 2 ^ n" "length a = rows * inner"
    "length b = inner * cols" "\<And>v. c = Some v \<Longrightarrow> length v = rows * cols"
    "r + k \<le> 12" "k + n \<le> 12" "r + n \<le> 12"
proof -
  from assms have "usize_is_power_of_two rows" "usize_is_power_of_two inner" "usize_is_power_of_two cols"
    and l: "length a = rows * inner" "length b = inner * cols" "\<And>v. c = Some v \<Longrightarrow> length v = rows * cols"
    and m: "rows * inner \<le> 4096" "inner * cols \<le> 4096" "rows * cols \<le> 4096"
    by (auto simp: validate_shape_def MAX_TOY_MATRIX_ELEMENTS_def usize_mul_def split: if_splits option.splits)
  then obtain r k n where "rows = 2 ^ r" "inner = 2 ^ k" "cols = 2 ^ n"
    by (auto simp: usize_is_power_of_two_def list_ex_iff)
  with l m that [of r k n] power_bits_bound show ?thesis by simp
qed

lemma validate_shape_product:
  assumes "validate_shape a b None rows inner cols = Ok ()" "length c = rows * cols"
  shows "validate_shape a b (Some c) rows inner cols = Ok ()"
  using assms by (auto simp: validate_shape_def usize_mul_def split: if_splits)

lemma sumcheck_points_repr:
  assumes "sumcheck_points C t (2 ^ r) (2 ^ n) = Ok (t', rp, jp)"
  shows "repr rp (map gl_val rp)" "repr jp (map gl_val jp)" "length rp = r" "length jp = n"
  using assms by (auto simp: sumcheck_points_def dest!: challenge_vector_repr)

lemma sumcheck_points_total:
  assumes "sampling_succeeds C" "unat (tr_counter t) + r + n < 2 ^ 64"
  shows "\<exists>t' rp jp. sumcheck_points C t (2 ^ r) (2 ^ n) = Ok (t', rp, jp)
    \<and> unat (tr_counter t') = unat (tr_counter t) + r + n"
proof -
  obtain u rp where u: "challenge_vector C t (bytes_of_string ''row-point'') r = Ok (u, rp)"
    "unat (tr_counter u) = unat (tr_counter t) + r"
    using challenge_vector_total [OF assms(1), of t r] assms(2) by fastforce
  moreover obtain t' jp where "challenge_vector C u (bytes_of_string ''col-point'') n = Ok (t', jp)"
    "unat (tr_counter t') = unat (tr_counter u) + n"
    using challenge_vector_total [OF assms(1), of u n] assms(2) u(2) by fastforce
  ultimately show ?thesis by (simp add: sumcheck_points_def)
qed

text \<open>What an accepted reference product contains.\<close>

lemma product_accumulate_sum:
  assumes "ofold (product_accumulate a b inner cols row col) 0 [0..<n] = Ok x"
  shows "x = (\<Sum>k<n. a ! (row * inner + k) * b ! (k * cols + col))"
  using assms
proof (induction n arbitrary: x)
  case (Suc n)
  then show ?case
    by (auto simp: ofold_append product_accumulate_def i128_add_def index_or_panic_def split: if_splits)
qed simp

lemma reference_product_entries:
  assumes "reference_matrix_product a b rows inner cols = Ok c"
  shows "validate_shape a b None rows inner cols = Ok ()" "length c = rows * cols" "i64_list c"
    and "r < rows \<Longrightarrow> j < cols \<Longrightarrow> entry_defect a b c inner cols r j = 0"
proof -
  let ?f = "\<lambda>(row, col). obind (ofold (product_accumulate a b inner cols row col) 0 [0..<inner]) i64_try_from"
  have v: "validate_shape a b None rows inner cols = Ok ()"
    and m: "omap (\<lambda>k. ?f (k div cols, k mod cols)) [0..<rows * cols] = Ok c"
    using assms by (auto simp: reference_matrix_product_def product_indices omap_Ok_iff)
  show "validate_shape a b None rows inner cols = Ok ()" by (rule v)
  show l: "length c = rows * cols" using m by (auto dest: omap_length)
  have e: "?f (i div cols, i mod cols) = Ok (c ! i)" if "i < rows * cols" for i
    using omap_nth [OF m, of i] that by simp
  then show "i64_list c"
    by (fastforce simp: i64_list_def list_all_length l i64_try_from_def split: if_splits)
  assume rj: "r < rows" "j < cols"
  then have "?f (r, j) = Ok (c ! (r * cols + j))" using e [of "r * cols + j"] block_index by fastforce
  then show "entry_defect a b c inner cols r j = 0"
    by (auto simp: entry_defect_def i64_try_from_def dest!: product_accumulate_sum split: if_splits)
qed

text \<open>The defects as a table. It vanishes at the point only if all of them are zero, or folding it along
  the point turns a pair of entries that are not both zero into zero: the coordinate is then a root
  of a linear polynomial that is not zero.\<close>

definition defect_table :: "int list \<Rightarrow> int list \<Rightarrow> int list \<Rightarrow> nat \<Rightarrow> nat \<Rightarrow> nat \<Rightarrow> gl list" where
  "defect_table a b c rows inner cols = map (\<lambda>i. of_int (entry_defect a b c inner cols (i div cols) (i mod cols))) [0..<rows * cols]"

definition lucky_point :: "'r::comm_ring_1 list \<Rightarrow> 'r list \<Rightarrow> bool" where
  "lucky_point t pt \<longleftrightarrow> (\<exists>i<length pt. \<exists>(x, y) \<in> set (chunks_exact_2 (foldl rfold t (take i pt))).
     (x, y) \<noteq> (0, 0) \<and> x + (y - x) * pt ! i = 0)"

lemma set_chunks_all: "even (length t) \<Longrightarrow> x \<in> set t \<Longrightarrow> \<exists>(u, v) \<in> set (chunks_exact_2 t). x = u \<or> x = v"
  by (induction t rule: chunks_exact_2.induct) auto

lemma vanishing_table:
  assumes "length t = 2 ^ length pt" "foldl rfold t pt = [0]" "x \<in> set t" "x \<noteq> 0"
  shows "lucky_point t pt"
  using assms
proof (induction pt arbitrary: t x)
  case Nil
  then show ?case by (auto simp: length_Suc_conv)
next
  case (Cons c pt)
  obtain u v where uv: "(u, v) \<in> set (chunks_exact_2 t)" "(u, v) \<noteq> (0, 0)"
    using set_chunks_all [of t x] Cons.prems(1,3,4) by auto
  show ?case
  proof (cases "u + (v - u) * c = 0")
    case True
    then show ?thesis unfolding lucky_point_def using uv by (intro exI [of _ 0]) auto
  next
    case False
    have "u + (v - u) * c \<in> set (rfold t c)" using uv(1) by (force simp: rfold_def)
    from Cons.IH [OF _ _ this False] Cons.prems(1,2) have "lucky_point (rfold t c) pt" by simp
    then show ?thesis unfolding lucky_point_def by (elim exE conjE) (rule exI [of _ "Suc i" for i], auto)
  qed
qed

lemma defect_table_vanishes:
  assumes "product_defect a b c (2 ^ length rp) inner (2 ^ length jp) rp jp = 0"
  shows "(\<forall>r < 2 ^ length rp. \<forall>j < 2 ^ length jp. entry_defect a b c inner (2 ^ length jp) r j mod gl_p = 0) \<or>
    lucky_point (defect_table a b c (2 ^ length rp) inner (2 ^ length jp)) (map gl_val (jp @ rp))"
proof (rule disj_imp [THEN iffD2], rule impI)
  let ?t = "defect_table a b c (2 ^ length rp) inner (2 ^ length jp)" and ?pt = "map gl_val (jp @ rp)"
  assume "\<not> (\<forall>r < 2 ^ length rp. \<forall>j < 2 ^ length jp. entry_defect a b c inner (2 ^ length jp) r j mod gl_p = 0)"
  then obtain r j where rj: "r < 2 ^ length rp" "j < 2 ^ length jp" "entry_defect a b c inner (2 ^ length jp) r j mod gl_p \<noteq> 0" by blast
  have len: "length ?t = 2 ^ length rp * 2 ^ length jp" by (simp add: defect_table_def)
  have nth: "?t ! (r * 2 ^ length jp + j) = of_int (entry_defect a b c inner (2 ^ length jp) r j)"
    if "r < 2 ^ length rp" "j < 2 ^ length jp" for r j
    using that by (simp add: defect_table_def block_index)
  have "dotp ?t (rweights (map gl_val jp @ map gl_val rp)) = 0"
    using mle_blocks [of ?t "map gl_val rp" "map gl_val jp"] assms len nth by (simp add: product_defect_def)
  then have "foldl rfold ?t ?pt = [0]" using rfolds_dotp [of ?t ?pt] len by (simp add: power_add)
  moreover have "?t ! (r * 2 ^ length jp + j) \<in> set ?t" using rj len block_index by (intro nth_mem) simp
  moreover have "?t ! (r * 2 ^ length jp + j) \<noteq> 0"
    using rj gl_of_int_eq_iff [of "entry_defect a b c inner (2 ^ length jp) r j" 0] by (simp add: nth)
  ultimately show "lucky_point ?t ?pt" using len by (intro vanishing_table) (simp_all add: power_add)
qed

section \<open>Completeness\<close>

definition commitments :: "crypto \<Rightarrow> int list \<Rightarrow> int list \<Rightarrow> int list \<Rightarrow> nat \<Rightarrow> nat \<Rightarrow> nat
    \<Rightarrow> hash32 \<times> hash32 \<times> hash32" where
  "commitments C a b c rows inner cols =
     (matrix_commitment C (bytes_of_string ''A'') rows inner (field_values a),
      matrix_commitment C (bytes_of_string ''B'') inner cols (field_values b),
      matrix_commitment C (bytes_of_string ''C'') rows cols (field_values c))"

lemma tr_counter_start [simp]:
  "tr_counter (absorb_commitments binding rows inner cols x y z) = 0"
  by (simp add: absorb_commitments_def tr_new_def Let_def)

text \<open>The facts both theorems start from: points of the right length and the tables of the prover.\<close>

lemma opening_tables:
  assumes "i64_list a" "i64_list b" "i64_list c" "repr rp (map gl_val rp)" "repr jp (map gl_val jp)"
    "length a = 2 ^ length rp * 2 ^ k" "length b = 2 ^ k * 2 ^ length jp"
    "length c = 2 ^ length rp * 2 ^ length jp" "length rp + length jp \<le> 12"
  shows "\<exists>A. omap (partial_row (field_values a) (equality_weights rp) (2 ^ length rp) (2 ^ k)) [0..<2 ^ k] = Ok A
      \<and> length A = 2 ^ k \<and> repr A (row_table (map of_int a) (rweights (map gl_val rp)) (2 ^ length rp) (2 ^ k))"
    and "\<exists>B. omap (partial_col (field_values b) (equality_weights jp) (2 ^ length jp)) [0..<2 ^ k] = Ok B
      \<and> length B = 2 ^ k \<and> repr B (col_table (map of_int b) (rweights (map gl_val jp)) (2 ^ k) (2 ^ length jp))"
    and "\<exists>v. evaluate_mle (field_values c) (jp @ rp) = Ok v \<and> gl_ok v
      \<and> gl_val v = dotp (map of_int c) (rweights (map gl_val jp @ map gl_val rp))"
proof -
  have len: "length (field_values vs) = length vs" for vs by (simp add: field_values_def)
  have w: "length (equality_weights pt) = 2 ^ length pt" if "repr pt (map gl_val pt)" for pt
    using repr_length [OF equality_weights_repr [OF that]] by simp
  show "\<exists>A. omap (partial_row (field_values a) (equality_weights rp) (2 ^ length rp) (2 ^ k)) [0..<2 ^ k] = Ok A
      \<and> length A = 2 ^ k \<and> repr A (row_table (map of_int a) (rweights (map gl_val rp)) (2 ^ length rp) (2 ^ k))"
    unfolding row_table_def using assms
    by (intro partial_rows_repr repr_field_values equality_weights_repr) (simp_all add: len w)
  show "\<exists>B. omap (partial_col (field_values b) (equality_weights jp) (2 ^ length jp)) [0..<2 ^ k] = Ok B
      \<and> length B = 2 ^ k \<and> repr B (col_table (map of_int b) (rweights (map gl_val jp)) (2 ^ k) (2 ^ length jp))"
    unfolding col_table_def using assms
    by (intro partial_cols_repr repr_field_values equality_weights_repr) (simp_all add: len w)
  show "\<exists>v. evaluate_mle (field_values c) (jp @ rp) = Ok v \<and> gl_ok v
      \<and> gl_val v = dotp (map of_int c) (rweights (map gl_val jp @ map gl_val rp))"
    using assms by (intro evaluate_mle_repr repr_field_values repr_append)
      (simp_all add: len power_add)
qed

text \<open>At the end of the rounds the tables have one entry, and it is the opening of the matrix.\<close>

lemma final_openings:
  assumes "i64_list a" "i64_list b" "repr rp (map gl_val rp)" "repr jp (map gl_val jp)"
    "repr cs (map gl_val cs)" "length a = 2 ^ length rp * 2 ^ length cs"
    "length b = 2 ^ length cs * 2 ^ length jp" "length rp + length cs \<le> 12" "length cs + length jp \<le> 12"
  defines "vs \<equiv> row_table (map of_int a) (rweights (map gl_val rp)) (2 ^ length rp) (2 ^ length cs)"
    and "ws \<equiv> col_table (map of_int b) (rweights (map gl_val jp)) (2 ^ length cs) (2 ^ length jp)"
  shows "\<exists>x. evaluate_mle (field_values a) (cs @ rp) = Ok x \<and> gl_ok x
      \<and> foldl rfold vs (map gl_val cs) = [gl_val x]"
    and "\<exists>y. evaluate_mle (field_values b) (jp @ cs) = Ok y \<and> gl_ok y
      \<and> foldl rfold ws (map gl_val cs) = [gl_val y]"
proof -
  have len: "length (field_values vs) = length vs" for vs by (simp add: field_values_def)
  have "\<exists>x. evaluate_mle (field_values a) (cs @ rp) = Ok x \<and> gl_ok x
      \<and> gl_val x = dotp (map of_int a) (rweights (map gl_val cs @ map gl_val rp))"
    using assms by (intro evaluate_mle_repr repr_field_values repr_append) (simp_all add: len power_add)
  then show "\<exists>x. evaluate_mle (field_values a) (cs @ rp) = Ok x \<and> gl_ok x
      \<and> foldl rfold vs (map gl_val cs) = [gl_val x]"
    using row_opening [of "map of_int a" "map gl_val rp" "map gl_val cs"] assms(6)
      rfolds_dotp [of vs "map gl_val cs"] by (auto simp: vs_def row_table_def)
  have "\<exists>y. evaluate_mle (field_values b) (jp @ cs) = Ok y \<and> gl_ok y
      \<and> gl_val y = dotp (map of_int b) (rweights (map gl_val jp @ map gl_val cs))"
    using assms by (intro evaluate_mle_repr repr_field_values repr_append) (simp_all add: len power_add)
  then show "\<exists>y. evaluate_mle (field_values b) (jp @ cs) = Ok y \<and> gl_ok y
      \<and> foldl rfold ws (map gl_val cs) = [gl_val y]"
    using col_opening [of "map of_int b" "map gl_val cs" "map gl_val jp"] assms(7)
      rfolds_dotp [of ws "map gl_val cs"] by (auto simp: ws_def col_table_def)
qed

lemma honest_product_core:
  assumes "sampling_succeeds C" "i64_list a" "i64_list b" "reference_matrix_product a b rows inner cols = Ok c"
  shows "\<exists>p. prove_toy_matrix_product C binding a b c rows inner cols = Ok p
    \<and> verify_toy_matrix_product C binding a b c rows inner cols p = Ok ()"
proof -
  note e = reference_product_entries [OF assms(4)]
  have shape: "validate_shape a b (Some c) rows inner cols = Ok ()"
    by (rule validate_shape_product [OF e(1,2)])
  then obtain r k n where d: "rows = 2 ^ r" "inner = 2 ^ k" "cols = 2 ^ n"
    and len: "length a = rows * inner" "length b = inner * cols" "length c = rows * cols"
    and bits: "r + k \<le> 12" "k + n \<le> 12" "r + n \<le> 12"
    by (rule validate_shape_cases) auto
  obtain x y z where cm: "commitments C a b c rows inner cols = (x, y, z)"
    by (cases "commitments C a b c rows inner cols")
  obtain t rp jp where pts: "sumcheck_points C (absorb_commitments binding rows inner cols x y z) rows cols = Ok (t, rp, jp)"
    "unat (tr_counter t) = r + n"
    using sumcheck_points_total [OF assms(1), of "absorb_commitments binding rows inner cols x y z" r n] bits d by auto
  note pt = sumcheck_points_repr [OF pts(1) [unfolded d]]
  have rp: "r = length rp" "n = length jp" using pt by simp_all
  note tables = opening_tables [OF assms(2,3) e(3) pt(1,2), of k]
  obtain A B v where A: "omap (partial_row (field_values a) (equality_weights rp) rows inner) [0..<inner] = Ok A"
      "length A = 2 ^ k" "repr A (row_table (map of_int a) (rweights (map gl_val rp)) rows inner)"
    and B: "omap (partial_col (field_values b) (equality_weights jp) cols) [0..<inner] = Ok B"
      "length B = 2 ^ k" "repr B (col_table (map of_int b) (rweights (map gl_val jp)) inner cols)"
    and v: "evaluate_mle (field_values c) (jp @ rp) = Ok v" "gl_ok v"
      "gl_val v = dotp (map of_int c) (rweights (map gl_val jp @ map gl_val rp))"
    using tables len d rp bits by auto
  let ?t = "tr_absorb (bytes_of_string ''C-evaluation'') (gl_encode v) t"
  obtain t' A' B' ms where rounds: "ofold (prove_round C) (?t, A, B, []) [0..<k] = Ok (t', A', B', ms)"
    using rounds_total [OF assms(1) A(3) B(3), of "[0..<k]" ?t "[]"] A(2) B(2) pts(2) bits by auto
  have "product_defect a b c rows inner cols rp jp = 0"
    by (simp add: product_defect_def e(4))
  then have claim: "gl_val v = dotp (row_table (map of_int a) (rweights (map gl_val rp)) rows inner)
      (col_table (map of_int b) (rweights (map gl_val jp)) inner cols)"
    using product_defect_claim [of a rp k b jp c] len d rp v(3) by simp
  from rounds_complete [OF rounds A(3) B(3) _ _ v(2) claim, of "[]"] A(2) B(2)
  obtain cs claim' where cs: "length ms = k" "length cs = k" "list_all gl_ok cs" "gl_ok claim'"
    "ofold (verify_round C) (?t, v, []) (zip [0..<k] ms) = Ok (t', claim', cs)"
    "repr A' (foldl rfold (row_table (map of_int a) (rweights (map gl_val rp)) rows inner) (map gl_val cs))"
    "repr B' (foldl rfold (col_table (map of_int b) (rweights (map gl_val jp)) inner cols) (map gl_val cs))"
    "gl_val claim' = dotp (foldl rfold (row_table (map of_int a) (rweights (map gl_val rp)) rows inner) (map gl_val cs))
      (foldl rfold (col_table (map of_int b) (rweights (map gl_val jp)) inner cols) (map gl_val cs))"
    by auto
  have "repr cs (map gl_val cs)" using cs(3) by (simp add: repr_def)
  from final_openings [OF assms(2,3) pt(1,2) this] len d rp bits cs(2)
  obtain f g where f: "evaluate_mle (field_values a) (cs @ rp) = Ok f" "gl_ok f"
      "foldl rfold (row_table (map of_int a) (rweights (map gl_val rp)) rows inner) (map gl_val cs) = [gl_val f]"
    and g: "evaluate_mle (field_values b) (jp @ cs) = Ok g" "gl_ok g"
      "foldl rfold (col_table (map of_int b) (rweights (map gl_val jp)) inner cols) (map gl_val cs) = [gl_val g]"
    by auto
  have AB: "A' = [f]" "B' = [g]"
    using cs(6,7) f(2,3) g(2,3) gl_val_inj by (auto simp: repr_def)
  have "claim' = gl_mul f g"
    using cs(4,8) f(3) g(3) gl_val_inj [of claim' "gl_mul f g"] by (simp add: gl_simps)
  moreover have "List.enumerate 0 ms = zip [0..<k] ms" using cs(1) by (simp add: enumerate_eq_zip)
  ultimately show ?thesis
    using shape cm pts(1) v(1,2) A(1) B(1) rounds AB f(1,2) g(1,2) cs(1,5) d(2)
    by (simp add: prove_toy_matrix_product_def verify_toy_matrix_product_def commitments_def Let_def gl_canonical_def)
qed

section \<open>Soundness up to lucky challenges\<close>

text \<open>
  Some round's message is not the honest one for the tables folded so far, and yet its polynomial has
  the honest value at the challenge drawn after it.
\<close>

definition honest_message :: "goldilocks list \<Rightarrow> goldilocks list \<Rightarrow> goldilocks list
    \<Rightarrow> (sumcheck_error, round_message) outcome" where
  "honest_message A B challenges =
     obind (ofold gl_fold A challenges) (\<lambda>A'. obind (ofold gl_fold B challenges) (quadratic_round A'))"

text \<open>The difference of two round messages is the quadratic polynomial through its values at 0, 1 and 2.\<close>

definition message_gap :: "round_message \<Rightarrow> round_message \<Rightarrow> gl \<times> gl \<times> gl" where
  "message_gap m m' = (case (message_val m, message_val m') of ((x0, x1, x2), (y0, y1, y2)) \<Rightarrow> (x0 - y0, x1 - y1, x2 - y2))"

lemma reval_nodes:
  assumes "2 * h = (1 :: 'r::comm_ring_1)"
  shows "reval h (x0, x1, x2) 0 = x0" "reval h (x0, x1, x2) 1 = x1" "reval h (x0, x1, x2) 2 = x2"
proof -
  have "reval h (x0, x1, x2) 2 = x0 + (x1 - x0) * 2 + (x2 - 2 * x1 + x0) * (2 * h)" by (simp add: reval_def mult.assoc)
  then show "reval h (x0, x1, x2) 2 = x2" unfolding assms by simp
qed (simp_all add: reval_def)

lemma message_gap_nonzero: "message_ok m \<Longrightarrow> message_ok m' \<Longrightarrow> m \<noteq> m' \<Longrightarrow> message_gap m m' \<noteq> (0, 0, 0)"
  by (cases m; cases m') (auto simp: message_gap_def message_val_def message_ok_def gl_val_inj)

lemma message_gap_root:
  assumes "message_ok m" "message_ok m'" "gl_ok c" "gl_val (evaluate_quadratic m c) = gl_val (evaluate_quadratic m' c)"
  shows "reval (gl_val INV_TWO) (message_gap m m') (gl_val c) = 0"
proof -
  have "reval h (x0 - y0, x1 - y1, x2 - y2) c = reval h (x0, x1, x2) c - reval h (y0, y1, y2) c" for h x0 x1 x2 y0 y1 y2 c :: gl
    by (simp add: reval_def algebra_simps)
  then show ?thesis using assms by (cases m; cases m') (simp add: evaluate_quadratic_val(1) message_gap_def message_val_def)
qed

text \<open>In round \<open>i\<close> the message is not the honest one, and the challenge drawn after it is a root of their
  difference, which is then a nonzero polynomial of degree at most two.\<close>

definition lucky_challenge :: "goldilocks list \<Rightarrow> goldilocks list \<Rightarrow> round_message list \<Rightarrow> goldilocks list \<Rightarrow> bool" where
  "lucky_challenge A B ms cs \<longleftrightarrow> (\<exists>i<length ms. \<exists>m. honest_message A B (take i cs) = Ok m \<and>
     message_gap m (ms ! i) \<noteq> (0, 0, 0) \<and> reval (gl_val INV_TWO) (message_gap m (ms ! i)) (gl_val (cs ! i)) = 0)"

lemma lucky_challenge_first:
  assumes "quadratic_round A B = Ok m" "message_ok m" "message_ok m'" "gl_ok c" "m \<noteq> m'"
    "gl_val (evaluate_quadratic m c) = gl_val (evaluate_quadratic m' c)"
  shows "lucky_challenge A B (m' # ms) (c # cs)"
  unfolding lucky_challenge_def using message_gap_nonzero [OF assms(2,3,5)] message_gap_root [OF assms(2-4,6)] assms(1)
  by (intro exI [of _ 0] exI [of _ m] conjI) (simp_all add: honest_message_def)

lemma lucky_challenge_later:
  assumes "gl_fold A c = Ok A1" "gl_fold B c = Ok B1" "lucky_challenge A1 B1 ms cs"
  shows "lucky_challenge A B (m' # ms) (c # cs)"
proof -
  from assms(3) obtain i m where "i < length ms" "honest_message A1 B1 (take i cs) = Ok m" "message_gap m (ms ! i) \<noteq> (0, 0, 0)"
    "reval (gl_val INV_TWO) (message_gap m (ms ! i)) (gl_val (cs ! i)) = 0"
    unfolding lucky_challenge_def by blast
  then show ?thesis unfolding lucky_challenge_def using assms(1,2)
    by (intro exI [of _ "Suc i"] exI [of _ m] conjI) (simp_all add: honest_message_def)
qed

lemma rounds_sound:
  assumes "ofold (verify_round C) (t, claim, cp) (zip is ms) = Ok (t', claim', cp')" "length ms = length is"
    "repr A vs" "repr B ws" "length A = 2 ^ length is" "length B = 2 ^ length is" "gl_ok claim"
  shows "\<exists>cs. cp' = cp @ cs \<and> length cs = length is \<and> list_all gl_ok cs \<and> gl_ok claim' \<and>
    (gl_val claim' = dotp (foldl rfold vs (map gl_val cs)) (foldl rfold ws (map gl_val cs)) \<longrightarrow>
      gl_val claim = dotp vs ws \<or> lucky_challenge A B ms cs)"
  using assms
proof (induction "is" arbitrary: t claim cp ms A B vs ws)
  case (Cons i "is")
  then obtain m' ms' where ms: "ms = m' # ms'" by (cases ms) auto
  then obtain s where s: "verify_round C (t, claim, cp) (i, m') = Ok s"
    "ofold (verify_round C) s (zip is ms') = Ok (t', claim', cp')" using Cons.prems(1) by auto
  from s(1) obtain u c where r: "message_ok m'" "gl_add (fst m') (fst (snd m')) = claim"
    "tr_challenge C (absorb_round i m' t) (bytes_of_string ''sumcheck-round'') = Ok (u, c)"
    "s = (u, evaluate_quadratic m' c, cp @ [c])" by (rule verify_round_cases)
  have c: "gl_ok c" using tr_challenge_ok [OF r(3)] .
  have even: "even (length A)" "even (length B)" "length A = length B" using Cons.prems(5,6) by simp_all
  obtain m where m: "quadratic_round A B = Ok m" using quadratic_round_repr [OF Cons.prems(3,4) even(3,1)] by auto
  note h = honest_round [OF Cons.prems(3,4) even(3,1) m c]
  obtain A1 B1 where f: "gl_fold A c = Ok A1" "gl_fold B c = Ok B1"
    and AB: "repr A1 (rfold vs (gl_val c))" "repr B1 (rfold ws (gl_val c))"
    using gl_fold_repr [OF Cons.prems(3) c even(1)] gl_fold_repr [OF Cons.prems(4) c even(2)] by auto
  have len: "length A1 = 2 ^ length is" "length B1 = 2 ^ length is"
    using repr_length [OF AB(1)] repr_length [OF AB(2)] repr_length [OF Cons.prems(3)]
      repr_length [OF Cons.prems(4)] Cons.prems(5,6) by simp_all
  note next_ok = evaluate_quadratic_val(2) [OF r(1) c] evaluate_quadratic_val(2) [OF h(1) c]
  from Cons.IH [OF s(2) [unfolded r(4)] _ AB len next_ok(1)] Cons.prems(2) ms
  obtain cs where IH: "cp' = (cp @ [c]) @ cs" "length cs = length is" "list_all gl_ok cs" "gl_ok claim'"
    "gl_val claim' = dotp (foldl rfold (rfold vs (gl_val c)) (map gl_val cs)) (foldl rfold (rfold ws (gl_val c)) (map gl_val cs)) \<longrightarrow>
      gl_val (evaluate_quadratic m' c) = dotp (rfold vs (gl_val c)) (rfold ws (gl_val c)) \<or> lucky_challenge A1 B1 ms' cs"
    by auto
  have "gl_val claim = dotp vs ws \<or> lucky_challenge A B ms (c # cs)"
    if "gl_val (evaluate_quadratic m' c) = dotp (rfold vs (gl_val c)) (rfold ws (gl_val c))"
    using that h(2,3) r(2) lucky_challenge_first [OF m h(1) r(1) c, of ms' cs] unfolding ms by metis
  then show ?case using IH c lucky_challenge_later [OF f, of ms' cs m'] unfolding ms
    by (intro exI [of _ "c # cs"]) auto
qed simp

lemma verify_toy_cases:
  assumes "verify_toy_matrix_product C binding a b c rows inner cols p = Ok ()"
  obtains k t rp jp t' claim cs where
    "validate_shape a b (Some c) rows inner cols = Ok ()" "ilog2_or_panic inner = (Ok k :: (sumcheck_error, nat) outcome)"
    "length (sp_rounds p) = k"
    "sumcheck_points C (absorb_commitments binding rows inner cols (sp_a_commitment p) (sp_b_commitment p)
       (sp_c_commitment p)) rows cols = Ok (t, rp, jp)"
    "evaluate_mle (field_values c) (jp @ rp) = Ok (sp_c_evaluation p)"
    "ofold (verify_round C) (tr_absorb (bytes_of_string ''C-evaluation'') (gl_encode (sp_c_evaluation p)) t,
       sp_c_evaluation p, []) (List.enumerate 0 (sp_rounds p)) = Ok (t', claim, cs)"
    "claim = gl_mul (sp_a_final p) (sp_b_final p)"
    "evaluate_mle (field_values a) (cs @ rp) = Ok (sp_a_final p)"
    "evaluate_mle (field_values b) (jp @ cs) = Ok (sp_b_final p)"
  using assms unfolding verify_toy_matrix_product_def Let_def gl_canonical_def
  by (auto split: if_splits)

section \<open>Theorems\<close>

lemma demo_candidate_ok: "gl_ok (from_le_bytes (replicate 8 32))"
proof -
  have "replicate 8 32 = [32, 32, 32, 32, 32, 32, 32, 32 :: byte]" by (simp add: numeral_eq_Suc)
  then show ?thesis by (simp add: from_le_bytes_def GOLDILOCKS_MODULUS_def)
qed

lemma sampling_succeeds_demo: "sampling_succeeds demo_crypto"
  using demo_candidate_ok
  by (simp add: sampling_succeeds_def tr_candidate_def demo_crypto_simps TRANSCRIPT_DOMAIN_def)

lemma validate_small_product: "validate_shape [u, v] [x, y] None 1 2 1 = Ok ()"
proof -
  have "usize_is_power_of_two 1" "usize_is_power_of_two 2"
    by (auto simp: usize_is_power_of_two_def list_ex_iff intro: bexI [of _ 0] bexI [of _ 1])
  then show ?thesis by (simp add: validate_shape_def usize_mul_def MAX_TOY_MATRIX_ELEMENTS_def)
qed

lemma small_product:
  "reference_matrix_product [u, v] [x, y] 1 2 1 =
     obind (obind (obind (i128_add 0 (u * x)) (\<lambda>s. i128_add s (v * y))) i64_try_from) (\<lambda>z. Ok [z])"
  by (simp add: reference_matrix_product_def validate_small_product [simplified] product_accumulate_def obind_assoc upt_rec)

lemma demo_product: "reference_matrix_product [1, -2] [3, 4] 1 2 1 = Ok [-5]"
  by (simp add: small_product [simplified] i128_add_def i64_try_from_def)

text \<open>C30. For matrices of the accepted shapes whose product fits the reference representation, the prover
  always returns a proof (given that rejection sampling of challenges succeeds), and the verifier
  accepts that proof of the reference product.\<close>

theorem honest_product_is_accepted:
  assumes "sampling_succeeds C" "i64_list a" "i64_list b"
    and "reference_matrix_product a b rows inner cols = Ok c"
  shows "\<exists>p. prove_toy_matrix_product C binding a b c rows inner cols = Ok p
    \<and> verify_toy_matrix_product C binding a b c rows inner cols p = Ok ()"
  using assms by (rule honest_product_core)

theorem honest_product_is_accepted_witness:
  "\<exists>p. prove_toy_matrix_product demo_crypto [7] [1, -2] [3, 4] [-5] 1 2 1 = Ok p
    \<and> verify_toy_matrix_product demo_crypto [7] [1, -2] [3, 4] [-5] 1 2 1 p = Ok ()"
  by (rule honest_product_is_accepted [OF sampling_succeeds_demo _ _ demo_product]) (simp_all add: i64_list_def)

text \<open>C29. Whatever the prover sent, when a proof is accepted one of three things holds: every entry of
  \<open>c\<close> is the entry of \<open>a b\<close> modulo the Goldilocks prime; or the entries differ and a coordinate of the
  row and column point, drawn after the commitments, is a root of a nonzero linear polynomial got from
  the differences; or in some round the message is not the honest one and the challenge drawn after it
  is a root of their difference, a nonzero polynomial of degree at most two. Nothing is said of the
  integers beyond the prime: see \<open>false_integer_product_is_accepted\<close>.\<close>

theorem accepted_product_exact_or_lucky:
  assumes "i64_list a" "i64_list b" "i64_list c"
    and "verify_toy_matrix_product C binding a b c rows inner cols p = Ok ()"
  shows "\<exists>t rp jp A B t' claim cs.
    sumcheck_points C (absorb_commitments binding rows inner cols (sp_a_commitment p) (sp_b_commitment p)
      (sp_c_commitment p)) rows cols = Ok (t, rp, jp) \<and>
    omap (partial_row (field_values a) (equality_weights rp) rows inner) [0..<inner] = Ok A \<and>
    omap (partial_col (field_values b) (equality_weights jp) cols) [0..<inner] = Ok B \<and>
    ofold (verify_round C) (tr_absorb (bytes_of_string ''C-evaluation'') (gl_encode (sp_c_evaluation p)) t,
      sp_c_evaluation p, []) (List.enumerate 0 (sp_rounds p)) = Ok (t', claim, cs) \<and>
    ((\<forall>r<rows. \<forall>j<cols. entry_defect a b c inner cols r j mod uint GOLDILOCKS_MODULUS = 0) \<or>
     lucky_point (defect_table a b c rows inner cols) (map gl_val (jp @ rp)) \<or>
     lucky_challenge A B (sp_rounds p) cs)"
proof -
  from assms(4) obtain k t rp jp t' claim cs where
    shape: "validate_shape a b (Some c) rows inner cols = Ok ()"
    and k: "ilog2_or_panic inner = (Ok k :: (sumcheck_error, nat) outcome)" "length (sp_rounds p) = k"
    and pts: "sumcheck_points C (absorb_commitments binding rows inner cols (sp_a_commitment p)
      (sp_b_commitment p) (sp_c_commitment p)) rows cols = Ok (t, rp, jp)"
    and v: "evaluate_mle (field_values c) (jp @ rp) = Ok (sp_c_evaluation p)"
    and rounds: "ofold (verify_round C) (tr_absorb (bytes_of_string ''C-evaluation'')
      (gl_encode (sp_c_evaluation p)) t, sp_c_evaluation p, []) (List.enumerate 0 (sp_rounds p)) = Ok (t', claim, cs)"
    and fin: "claim = gl_mul (sp_a_final p) (sp_b_final p)" "evaluate_mle (field_values a) (cs @ rp) = Ok (sp_a_final p)"
      "evaluate_mle (field_values b) (jp @ cs) = Ok (sp_b_final p)"
    by (rule verify_toy_cases)
  from shape obtain r k' n where d: "rows = 2 ^ r" "inner = 2 ^ k'" "cols = 2 ^ n"
    and len: "length a = rows * inner" "length b = inner * cols" "length c = rows * cols"
    and bits: "r + k' \<le> 12" "k' + n \<le> 12" "r + n \<le> 12"
    by (rule validate_shape_cases) auto
  have k': "k' = k" using k(1) d(2) by simp
  note pt = sumcheck_points_repr [OF pts [unfolded d]]
  have rp: "r = length rp" "n = length jp" using pt by simp_all
  let ?vs = "row_table (map of_int a) (rweights (map gl_val rp)) rows inner"
  let ?ws = "col_table (map of_int b) (rweights (map gl_val jp)) inner cols"
  obtain A B where A: "omap (partial_row (field_values a) (equality_weights rp) rows inner) [0..<inner] = Ok A"
      "length A = 2 ^ k" "repr A ?vs"
    and B: "omap (partial_col (field_values b) (equality_weights jp) cols) [0..<inner] = Ok B"
      "length B = 2 ^ k" "repr B ?ws"
    and c: "gl_ok (sp_c_evaluation p)"
      "gl_val (sp_c_evaluation p) = dotp (map of_int c) (rweights (map gl_val jp @ map gl_val rp))"
    using opening_tables [OF assms(1-3) pt(1,2), of k] len d rp bits k' v by auto
  have "List.enumerate 0 (sp_rounds p) = zip [0..<k] (sp_rounds p)" using k(2) by (simp add: enumerate_eq_zip)
  from rounds_sound [OF rounds [unfolded this] _ A(3) B(3) _ _ c(1)] A(2) B(2) k(2)
  have cs: "length cs = k" "list_all gl_ok cs"
    and sound: "gl_val claim = dotp (foldl rfold ?vs (map gl_val cs)) (foldl rfold ?ws (map gl_val cs)) \<Longrightarrow>
      gl_val (sp_c_evaluation p) = dotp ?vs ?ws \<or> lucky_challenge A B (sp_rounds p) cs" by auto
  have "repr cs (map gl_val cs)" using cs(2) by (simp add: repr_def)
  from final_openings [OF assms(1,2) pt(1,2) this] len d rp bits cs(1) fin(2,3) k'
  have "foldl rfold ?vs (map gl_val cs) = [gl_val (sp_a_final p)]"
    "foldl rfold ?ws (map gl_val cs) = [gl_val (sp_b_final p)]" by auto
  with sound have "gl_val (sp_c_evaluation p) = dotp ?vs ?ws \<or> lucky_challenge A B (sp_rounds p) cs"
    by (simp add: fin(1) gl_simps)
  moreover have "product_defect a b c rows inner cols rp jp = gl_val (sp_c_evaluation p) - dotp ?vs ?ws"
    using product_defect_claim [of a rp k b jp c] len d rp k' c(2) by simp
  ultimately have "product_defect a b c rows inner cols rp jp = 0 \<or> lucky_challenge A B (sp_rounds p) cs" by auto
  then have "(\<forall>r<rows. \<forall>j<cols. entry_defect a b c inner cols r j mod uint GOLDILOCKS_MODULUS = 0) \<or>
      lucky_point (defect_table a b c rows inner cols) (map gl_val (jp @ rp)) \<or> lucky_challenge A B (sp_rounds p) cs"
    using defect_table_vanishes [of a b c rp inner jp] unfolding d(1,3) rp uint_modulus by blast
  then show ?thesis using pts A(1) B(1) rounds by blast
qed

theorem accepted_product_exact_or_lucky_witness:
  "\<exists>p. verify_toy_matrix_product demo_crypto [7] [1, -2] [3, 4] [-5] 1 2 1 p = Ok () \<and>
    (\<exists>t rp jp A B t' claim cs.
    sumcheck_points demo_crypto (absorb_commitments [7] 1 2 1 (sp_a_commitment p) (sp_b_commitment p)
      (sp_c_commitment p)) 1 1 = Ok (t, rp, jp) \<and>
    omap (partial_row (field_values [1, -2]) (equality_weights rp) 1 2) [0..<2] = Ok A \<and>
    omap (partial_col (field_values [3, 4]) (equality_weights jp) 1) [0..<2] = Ok B \<and>
    ofold (verify_round demo_crypto) (tr_absorb (bytes_of_string ''C-evaluation'')
      (gl_encode (sp_c_evaluation p)) t, sp_c_evaluation p, []) (List.enumerate 0 (sp_rounds p)) = Ok (t', claim, cs) \<and>
    ((\<forall>r<1. \<forall>j<1. entry_defect [1, -2] [3, 4] [-5] 2 1 r j mod uint GOLDILOCKS_MODULUS = 0) \<or>
     lucky_point (defect_table [1, -2] [3, 4] [-5] 1 2 1) (map gl_val (jp @ rp)) \<or>
     lucky_challenge A B (sp_rounds p) cs))"
proof -
  have i: "i64_list [1, -2]" "i64_list [3, 4]" "i64_list [-5]" by (simp_all add: i64_list_def)
  obtain p where p: "verify_toy_matrix_product demo_crypto [7] [1, -2] [3, 4] [-5] 1 2 1 p = Ok ()"
    using honest_product_core [OF sampling_succeeds_demo i(1,2) demo_product] by blast
  show ?thesis by (rule exI [of _ p], rule conjI [OF p], rule accepted_product_exact_or_lucky [OF i p])
qed

text \<open>
  The accumulator of the reference product is an \<open>i128\<close>, and two products of \<open>i64::MIN\<close> by itself already
  leave its range: the addition overflows before the conversion that would report the error.
\<close>

theorem reference_product_accumulator_overflows:
  "reference_matrix_product [- (2 ^ 63), - (2 ^ 63)] [- (2 ^ 63), - (2 ^ 63)] 1 2 1 = Panic"
  by (simp add: small_product [simplified] i128_add_def)

text \<open>
  The values are \<open>i64\<close>, the field has less than 64 bits: a claimed product that is wrong by a multiple of
  the prime is accepted, with any transcript. Here the product is \<open>2 ^ 64\<close> and the claim \<open>2 ^ 32 - 1\<close>.
\<close>

theorem false_integer_product_is_accepted:
  "\<exists>p. verify_toy_matrix_product C binding [2 ^ 62] [4] [2 ^ 32 - 1] 1 1 1 p = Ok () \<and> entry_defect [2 ^ 62] [4] [2 ^ 32 - 1] 1 1 0 0 \<noteq> 0"
proof -
  let ?a = "[2 ^ 62]" and ?b = "[4]" and ?c = "[2 ^ 32 - 1]"
  let ?p = "\<lparr>sp_protocol_version = SUMCHECK_PROTOCOL_VERSION,
    sp_a_commitment = matrix_commitment C (bytes_of_string ''A'') 1 1 (field_values ?a),
    sp_b_commitment = matrix_commitment C (bytes_of_string ''B'') 1 1 (field_values ?b),
    sp_c_commitment = matrix_commitment C (bytes_of_string ''C'') 1 1 (field_values ?c),
    sp_c_evaluation = gl_from_signed (2 ^ 32 - 1), sp_rounds = [], sp_a_final = gl_from_signed (2 ^ 62), sp_b_final = gl_from_signed 4\<rparr>"
  have one: "usize_is_power_of_two 1" by (auto simp: usize_is_power_of_two_def list_ex_iff intro: bexI [of _ 0])
  have shape: "validate_shape ?a ?b (Some ?c) 1 1 1 = Ok ()"
    using one by (simp add: validate_shape_def usize_mul_def MAX_TOY_MATRIX_ELEMENTS_def)
  have vals: "gl_from_signed (2 ^ 62) = 0x4000000000000000" "gl_from_signed 4 = 4" "gl_from_signed (2 ^ 32 - 1) = 0xffffffff"
    by code_simp+
  have "gl_mul 0x4000000000000000 4 = 0xffffffff" by code_simp
  then have "verify_toy_matrix_product C binding ?a ?b ?c 1 1 1 ?p = Ok ()"
    using shape by (simp add: verify_toy_matrix_product_def field_values_def vals [simplified] ilog2_or_panic_power [of 0, simplified] sumcheck_points_def challenge_vector_def
        evaluate_mle_def index_or_panic_def gl_canonical_def GOLDILOCKS_MODULUS_def)
  moreover have "entry_defect ?a ?b ?c 1 1 0 0 \<noteq> 0" by (simp add: entry_defect_def)
  ultimately show ?thesis by blast
qed

end
