(* ===== verification/CF_V2_Oracle.thy ===== *)
theory CF_V2_Oracle
  imports CF_ForgeMatrix_V2
begin

text \<open>
  What the full-recomputation oracle of \<open>forgematrix_v2.rs\<close> accepts. The prover always returns
  for a reference built from an explicit model, the reference verifier accepts exactly the
  prover's witness when it meets the target, the compact verifier interprets the proof-of-work
  contract, and an accelerator can neither add nor change a proof.
\<close>

section \<open>References built from an explicit model\<close>

lemma is_power_of_two_pos: "is_power_of_two w \<Longrightarrow> w \<noteq> 0"
proof -
  assume "is_power_of_two w"
  then obtain k where k: "k < 32" "w = 2 ^ k" by (auto simp: is_power_of_two_def list_ex_iff)
  then have "bit w k" by (simp add: bit_exp_iff)
  then show "w \<noteq> 0" by auto
qed

lemma validate_researchD:
  assumes "validate_research C d = Ok ()"
  shows "vd_network_id d \<noteq> zero32" "mb_dimension (vd_model d) \<noteq> 0" "mb_batch (vd_model d) \<noteq> 0"
    "mb_dimension (vd_model d) \<le> 32" "mb_batch (vd_model d) \<le> 4" "mb_layers (vd_model d) \<le> 4"
    "mb_validate_shape (vd_model d) = Ok ()"
  using assms
  by (auto simp: validate_research_def manifest_digest_def not_less V2_REFERENCE_MAX_DIMENSION_def
      V2_REFERENCE_MAX_BATCH_def V2_REFERENCE_MAX_LAYERS_def dest: is_power_of_two_pos)

lemma wf_v2_from_explicit_model:
  assumes C: "crypto_ok C" and d: "wf_manifest (vd_model d)"
    and r: "from_explicit_model C d base ws = Ok r"
  shows "wf_v2 r" "v2_desc r = d" "v2_base_input r = base" "v2_weights r = ws"
proof -
  let ?f = "\<lparr>fx_model_version = mb_model_version (vd_model d), fx_dimension = mb_dimension (vd_model d),
         fx_batch = mb_batch (vd_model d), fx_base_input = base, fx_layers = ws,
         fx_pcs_parameter_digest = mb_pcs_parameter_digest (vd_model d),
         fx_pcs_commitment_root = mb_pcs_commitment_root (vd_model d)\<rparr>"
  obtain b where v: "validate_research C d = Ok ()" and b: "build_small_model_bank C ?f = Ok b"
    and m: "bb_manifest b = vd_model d" and eq: "r = \<lparr>v2_desc = d, v2_base_input = base, v2_weights = ws\<rparr>"
    using r by (auto simp: from_explicit_model_def)
  show sel: "v2_desc r = d" "v2_base_input r = base" "v2_weights r = ws" by (simp_all add: eq)
  note vd = validate_researchD [OF v]
  have bank: "bank_of C (vd_model d) base ws"
    using build_small_model_bank_bank_of [OF C _ _ b] d m by (auto simp: wf_manifest_def)
  have "0 < unat (mb_dimension (vd_model d))" "0 < unat (mb_batch (vd_model d))"
    using vd(2,3) by (simp_all add: unat_gt_0)
  moreover have "unat (mb_dimension (vd_model d)) \<le> 32" "unat (mb_batch (vd_model d)) \<le> 4"
    using vd(4,5) by (simp_all add: word_le_nat_alt)
  moreover have "list_all (\<lambda>l. length l = unat (mb_dimension (vd_model d)) * unat (mb_dimension (vd_model d))
      \<and> canonical l) ws"
    using bank shape_lengths(2) [OF vd(7)] by (simp add: bank_of_def layers_shaped_def list_all_iff)
  ultimately show "wf_v2 r"
    using bank shape_lengths(1) [OF vd(7)] vd(7)
    by (simp add: wf_v2_def v2_rows_def v2_width_def sel bank_of_def)
qed

section \<open>The oracle\<close>

definition on_network :: "v2_reference \<Rightarrow> block_challenge \<Rightarrow> bool" where
  "on_network r block \<longleftrightarrow> bc_network_id block = vd_network_id (v2_desc r)"

lemma challenge_total:
  assumes "wf_v2 r" "on_network r block"
  shows "\<exists>ch. challenge_digest_v2 C (v2_desc r) block nonce = Ok ch"
  using assms by (simp add: challenge_digest_v2_def on_network_def wf_v2_def manifest_digest_def)

lemma prove_reference_agrees:
  assumes fair: "xof_fair C" and wf: "wf_v2 r" and net: "on_network r block"
  shows "\<exists>q. prove_reference C r block nonce = Ok q \<and> vr_nonce q = nonce \<and>
    (\<forall>p. vr_nonce p = nonce \<longrightarrow>
      (verify_reference C r block p = Ok () \<longleftrightarrow> p = q \<and> lex_le (vr_work_digest q) (bc_target block)))"
proof -
  obtain ch where ch: "challenge_digest_v2 C (v2_desc r) block nonce = Ok ch"
    using challenge_total [OF wf net] by blast
  obtain c where c: "mask_coefficients C ch u32_max (v2_rows r) (v2_width r) = (Ok c :: (v2_error, _) outcome)"
      "mask_ok r c"
    using v2_mask_ok [OF fair wf, of ch u32_max, where ?'e = v2_error] by blast
  obtain cells where cells: "omap (initial_cell r c) (v2_cells r) = Ok cells" "activation_ok r (map fst cells)"
    and init: "\<And>p x. length (vr_initial_reductions p) = v2_rows r * v2_width r \<Longrightarrow>
       length (vr_initial_activation p) = v2_rows r * v2_width r \<Longrightarrow>
       (omap (check_initial_cell r c p) (v2_cells r) = Ok x \<longleftrightarrow>
          vr_initial_reductions p = map snd cells \<and> vr_initial_activation p = map fst cells \<and> x = map fst cells)"
    using initial_table [OF wf c(2)] by blast
  have ws: "list_all (\<lambda>l. length l = v2_width r * v2_width r \<and> canonical l) (v2_weights r)"
    using wf by (simp add: wf_v2_def)
  obtain final ls where ls: "length ls = length (v2_weights r)" "activation_ok r final"
    "ofold (prove_layer C r ch) (map fst cells, []) (enumerate 0 (v2_weights r)) = Ok (final, [] @ ls)"
    and layers: "\<And>ls' x. length ls' = length (v2_weights r) \<Longrightarrow>
      (ofold (check_layer C r ch) (map fst cells) (enumerate 0 (zip (v2_weights r) ls')) = Ok x \<longleftrightarrow>
         ls' = ls \<and> x = final)"
    using layers_agree [OF fair wf cells(2) ws, of ch "[]" 0] by blast
  obtain bs where bs: "activation_bytes final = Ok bs"
    using activation_bytes_total ls(2) by (auto simp: activation_ok_def)
  let ?out = "output_digest_v2 C ch bs"
  define q where "q = \<lparr>vr_nonce = nonce, vr_challenge_digest = ch,
    vr_initial_reductions = map snd cells, vr_initial_activation = map fst cells, vr_layers = ls,
    vr_final_activation_digest = ?out, vr_work_digest = work_digest_v2 C (v2_desc r) ch ?out\<rparr>"
  have prove: "prove_reference C r block nonce = Ok q"
    using ls(3) by (simp add: prove_reference_def ch c(1) cells(1) bs q_def Let_def)
  have len: "length cells = v2_rows r * v2_width r" using cells(2) by (simp add: activation_ok_def)
  have "verify_reference C r block p = Ok () \<longleftrightarrow> p = q \<and> lex_le (vr_work_digest q) (bc_target block)"
    if n: "vr_nonce p = nonce" for p
  proof
    assume "verify_reference C r block p = Ok ()"
    then obtain initial act bs' where p: "vr_challenge_digest p = ch"
      "length (vr_initial_reductions p) = v2_rows r * v2_width r"
      "length (vr_initial_activation p) = v2_rows r * v2_width r"
      "length (vr_layers p) = length (v2_weights r)"
      "omap (check_initial_cell r c p) (v2_cells r) = Ok initial"
      "ofold (check_layer C r ch) initial (enumerate 0 (zip (v2_weights r) (vr_layers p))) = Ok act"
      "activation_bytes act = Ok bs'" "vr_final_activation_digest p = output_digest_v2 C ch bs'"
      "vr_work_digest p = work_digest_v2 C (v2_desc r) ch (output_digest_v2 C ch bs')"
      "lex_le (vr_work_digest p) (bc_target block)"
      by (auto simp: verify_reference_def n ch c(1) Let_def)
    have i: "vr_initial_reductions p = map snd cells" "vr_initial_activation p = map fst cells" "initial = map fst cells"
      using p(5) init [OF p(2,3)] by blast+
    have l: "vr_layers p = ls" "act = final" using p(6) layers [OF p(4)] unfolding i(3) by blast+
    have "bs' = bs" using p(7) bs l(2) by simp
    then have "p = q" using p i l n by (cases p) (simp add: q_def)
    with p(10) show "p = q \<and> lex_le (vr_work_digest q) (bc_target block)" by blast
  next
    assume "p = q \<and> lex_le (vr_work_digest q) (bc_target block)"
    moreover have "omap (check_initial_cell r c q) (v2_cells r) = Ok (map fst cells)"
      using init [of q "map fst cells"] len by (simp add: q_def)
    moreover have "ofold (check_layer C r ch) (map fst cells) (enumerate 0 (zip (v2_weights r) ls)) = Ok final"
      using layers [OF ls(1)] by blast
    ultimately show "verify_reference C r block p = Ok ()"
      by (simp add: verify_reference_def q_def ch c(1) bs len ls(1) Let_def)
  qed
  then show ?thesis using prove by (auto simp: q_def)
qed

lemma prove_reference_wrong_network:
  "\<not> on_network r block \<Longrightarrow> prove_reference C r block nonce = Err V2E_WrongNetwork"
  "\<not> on_network r block \<Longrightarrow> verify_reference C r block p = Err V2E_WrongNetwork"
  by (simp_all add: prove_reference_def verify_reference_def challenge_digest_v2_def on_network_def)

lemma prove_compact_total:
  assumes "xof_fair C" "wf_v2 r" "on_network r block"
  shows "\<exists>q. prove_compact C r block nonce = Ok q"
  using prove_reference_agrees [OF assms, of nonce] assms(2)
  by (auto simp: prove_compact_def manifest_digest_def wf_v2_def)

lemma prove_compact_nonce: "prove_compact C r block nonce = Ok q \<Longrightarrow> vc_nonce q = nonce"
  by (auto simp: prove_compact_def)

lemma verify_compact_exact:
  "(\<exists>s. verify_compact C r block p = Ok s) \<longleftrightarrow>
     prove_compact C r block (vc_nonce p) = Ok p \<and> lex_le (vc_work_digest p) (bc_target block)"
proof (cases "on_network r block")
  case True
  then show ?thesis
    by (cases p) (auto simp: verify_compact_def verify_compact_relation_def prove_compact_def on_network_def)
next
  case False
  then show ?thesis
    by (auto simp: verify_compact_def verify_compact_relation_def prove_compact_def on_network_def
        prove_reference_wrong_network)
qed

interpretation forge_v2: pow_scheme
  "\<lambda>(C, r). xof_fair C \<and> wf_v2 r" "\<lambda>(C, r). prove_compact C r" "\<lambda>(C, r). verify_compact C r"
  "\<lambda>block p. lex_le (vc_work_digest p) (bc_target block)" vc_nonce
  "\<lambda>(C, r). mine_compact_from C r" V2E_NonceExhausted
proof (unfold_locales, goal_cases)
  case (1 cr block n p)
  then show ?case using prove_compact_nonce by (auto split: prod.splits)
next
  case (2 cr block p)
  then show ?case using verify_compact_exact by (auto split: prod.splits)
qed (simp_all split: prod.splits)

section \<open>Accelerators\<close>

lemma mask_coefficients_length:
  assumes "xof_fair C" "wf_v2 r"
    "mask_coefficients C ch layer (v2_rows r) (v2_width r) = (Ok c :: (v2_error, _) outcome)"
  shows "length c = 1 + ilog2 (v2_rows r) + ilog2 (v2_width r)"
  using v2_mask_ok [OF assms(1,2), of ch layer, where ?'e = v2_error] assms(3) by (auto simp: mask_ok_def)

lemma batch_nonces:
  assumes fair: "xof_fair C" and wf: "wf_v2 r"
    and "ofold (batch_nonce C r block start) ([], []) [0..<n] = Ok (chs, cs)"
  shows "length chs = n \<and>
    (\<forall>i<n. challenge_digest_v2 C (v2_desc r) block (start + word_of_nat i) = Ok (chs ! i)) \<and>
    length cs = n * ((unat (mb_layers (vd_model (v2_desc r))) + 1) * (1 + ilog2 (v2_rows r) + ilog2 (v2_width r)))"
  using assms(3)
proof (induction n arbitrary: chs cs)
  case (Suc n)
  let ?k = "1 + ilog2 (v2_rows r) + ilog2 (v2_width r)"
  obtain mid midc where mid: "ofold (batch_nonce C r block start) ([], []) [0..<n] = Ok (mid, midc)"
    "batch_nonce C r block start (mid, midc) n = Ok (chs, cs)"
    using Suc.prems by (auto simp: ofold_append)
  then obtain ch im lm where ch: "challenge_digest_v2 C (v2_desc r) block (start + word_of_nat n) = Ok ch"
    "mask_coefficients C ch u32_max (v2_rows r) (v2_width r) = (Ok im :: (v2_error, _) outcome)"
    "omap (\<lambda>layer. mask_coefficients C ch (word_of_nat layer) (v2_rows r) (v2_width r))
       [0..<unat (mb_layers (vd_model (v2_desc r)))] = (Ok lm :: (v2_error, _) outcome)"
    "chs = mid @ [ch]" "cs = midc @ im @ concat lm" by (auto simp: batch_nonce_def)
  have "length x = ?k" if "x \<in> set lm" for x
    using omap_in_range [OF ch(3) that] mask_coefficients_length [OF fair wf] by blast
  then have "layers_shaped ?k lm" by (simp add: layers_shaped_def list_all_iff)
  from length_concat_shaped [OF this] omap_length [OF ch(3)]
  have "length (concat lm) = unat (mb_layers (vd_model (v2_desc r))) * ?k" by simp
  moreover have "length im = ?k" by (rule mask_coefficients_length [OF fair wf ch(2)])
  ultimately show ?case
    using Suc.IH [OF mid(1)] ch(1,4,5) by (auto simp: nth_append less_Suc_eq algebra_simps)
qed simp

lemma batch_nonce_total:
  assumes "xof_fair C" "wf_v2 r" "on_network r block"
  shows "\<exists>s'. batch_nonce C r block start s n = Ok s'"
proof -
  obtain ch where ch: "challenge_digest_v2 C (v2_desc r) block (start + word_of_nat n) = Ok ch"
    using challenge_total [OF assms(2,3)] by blast
  have m: "\<exists>c. mask_coefficients C ch layer (v2_rows r) (v2_width r) = (Ok c :: (v2_error, _) outcome)" for layer
    using v2_mask_ok [OF assms(1,2), of ch layer, where ?'e = v2_error] by blast
  obtain lm where "omap (\<lambda>layer. mask_coefficients C ch (word_of_nat layer) (v2_rows r) (v2_width r))
       [0..<unat (mb_layers (vd_model (v2_desc r)))] = (Ok lm :: (v2_error, _) outcome)"
    using omap_total [of "[0..<unat (mb_layers (vd_model (v2_desc r)))]"
        "\<lambda>layer. mask_coefficients C ch (word_of_nat layer) (v2_rows r) (v2_width r) :: (v2_error, _) outcome"] m
    by blast
  with ch m [of u32_max] show ?thesis by (cases s) (auto simp: batch_nonce_def)
qed

lemma prepare_total:
  assumes fair: "xof_fair C" and wf: "wf_v2 r" and net: "on_network r block" and c: "count \<noteq> 0" "count \<le> 65536"
  shows "\<exists>b. prepare_accelerator_batch C r block start count = Ok b"
proof -
  let ?l = "unat (mb_layers (vd_model (v2_desc r))) + 1"
  let ?k = "1 + ilog2 (v2_rows r) + ilog2 (v2_width r)"
  have wfb: "0 < v2_rows r" "v2_rows r \<le> 4" "0 < v2_width r" "v2_width r \<le> 32" using wf by (simp_all add: wf_v2_def)
  have "?k \<le> 8" using ilog2_bound [of "v2_rows r" 2] ilog2_bound [of "v2_width r" 5] wfb by simp
  then have lk: "?l * ?k \<le> 4294967296 * 8"
    using u32_bound [of "mb_layers (vd_model (v2_desc r))"] by (intro mult_mono) simp_all
  have "unat count \<le> 65536" using c(2) by (simp add: word_le_nat_alt)
  then have "unat count * (?l * ?k) \<le> 65536 * (4294967296 * 8)" by (rule mult_le_mono [OF _ lk])
  then have sizes: "?l * ?k < usize_limit" "unat count * (?l * ?k) < usize_limit" using lk by simp_all
  have "\<exists>s'. ofold (batch_nonce C r block start) s ns = Ok s'" for s and ns :: "nat list"
  proof (induction ns arbitrary: s)
    case (Cons n ns)
    obtain s' where "batch_nonce C r block start s n = Ok s'" using batch_nonce_total [OF fair wf net] by blast
    with Cons show ?case by simp
  qed simp
  then obtain chs cs where "ofold (batch_nonce C r block start) ([], []) [0..<unat count] = Ok (chs, cs)"
    by (metis surj_pair)
  with sizes wfb net c show ?thesis
    unfolding prepare_accelerator_batch_def ilog2_or_panic_def usize_mul_def on_network_def
      V2_ACCELERATOR_MAX_BATCH_def
    by (auto simp: not_less)
qed

lemma prove_layers_last:
  assumes "ofold (prove_layer C r ch) (act, wits) ws = Ok (final, ls)" "wits \<noteq> [] \<longrightarrow> act = lw_output (last wits)"
  shows "ls \<noteq> [] \<longrightarrow> final = lw_output (last ls)"
proof -
  have "(\<lambda>(a, w). w \<noteq> [] \<longrightarrow> a = lw_output (last w)) (final, ls)"
    using assms(1) by (rule ofold_invariant) (use assms(2) in \<open>auto simp: prove_layer_def\<close>)
  then show ?thesis by simp
qed

lemma prove_reference_last:
  assumes "prove_reference C r block nonce = Ok q" "vr_layers q \<noteq> []"
    "activation_bytes (lw_output (last (vr_layers q))) = Ok bs"
  shows "vr_work_digest q = work_digest_v2 C (v2_desc r) (vr_challenge_digest q)
      (output_digest_v2 C (vr_challenge_digest q) bs)"
    "challenge_digest_v2 C (v2_desc r) block nonce = Ok (vr_challenge_digest q)"
proof -
  obtain ch and cells :: "(int \<times> reduction_data) list" and final ls bs' where q: "challenge_digest_v2 C (v2_desc r) block nonce = Ok ch"
    "ofold (prove_layer C r ch) (map fst cells, []) (enumerate 0 (v2_weights r)) = Ok (final, ls)"
    "activation_bytes final = Ok bs'" "vr_layers q = ls" "vr_challenge_digest q = ch"
    "vr_work_digest q = work_digest_v2 C (v2_desc r) ch (output_digest_v2 C ch bs')"
    using assms(1) by (auto simp: prove_reference_def Let_def)
  have "final = lw_output (last ls)" using prove_layers_last [OF q(2)] assms(2) q(4) by simp
  then have "bs' = bs" using q(3,4) assms(3) by simp
  then show "vr_work_digest q = work_digest_v2 C (v2_desc r) (vr_challenge_digest q)
      (output_digest_v2 C (vr_challenge_digest q) bs)"
    "challenge_digest_v2 C (v2_desc r) block nonce = Ok (vr_challenge_digest q)"
    using q by simp_all
qed

lemma candidate_honest:
  assumes fair: "xof_fair C" and wf: "wf_v2 r" and batch: "prepare_accelerator_batch C r block start count = Ok b"
    and i: "i < unat count" and q: "prove_reference C r block (start + word_of_nat i) = Ok q" "vr_layers q \<noteq> []"
    and bs: "activation_bytes (lw_output (last (vr_layers q))) = Ok bs" "canonical bs"
      "length bs = v2_rows r * v2_width r"
  shows "candidate_work_digest C b i bs = Ok (vr_work_digest q)"
proof -
  obtain chs cs where b: "ofold (batch_nonce C r block start) ([], []) [0..<unat count] = Ok (chs, cs)"
    "ab_challenges b = chs" "ab_count b = count" "ab_activation_len b = v2_rows r * v2_width r"
    "ab_descriptor b = v2_desc r"
    using batch by (auto simp: prepare_accelerator_batch_def)
  have "chs ! i = vr_challenge_digest q" "i < length chs"
    using batch_nonces [OF fair wf b(1)] i prove_reference_last(2) [OF q bs(1)] by auto
  moreover have "\<not> list_ex (\<lambda>v. 250 < v) bs"
    using bs(2) by (auto simp: canonical_def MAX_MODEL_BYTE_def list_ex_iff list_all_iff)
  ultimately show ?thesis
    using i bs(3) prove_reference_last(1) [OF q bs(1)] by (simp add: candidate_work_digest_def b)
qed

lemma prove_reference_final:
  assumes fair: "xof_fair C" and wf: "wf_v2 r" and net: "on_network r block"
    and q: "prove_reference C r block nonce = Ok q" and ne: "v2_weights r \<noteq> []"
  shows "\<exists>bs. vr_layers q \<noteq> [] \<and> activation_bytes (lw_output (last (vr_layers q))) = Ok bs \<and> canonical bs \<and>
    length bs = v2_rows r * v2_width r"
proof -
  obtain ch c and cells :: "(int \<times> reduction_data) list" and final ls bs where p:
    "mask_coefficients C ch u32_max (v2_rows r) (v2_width r) = (Ok c :: (v2_error, _) outcome)"
    "omap (initial_cell r c) (v2_cells r) = Ok cells"
    "ofold (prove_layer C r ch) (map fst cells, []) (enumerate 0 (v2_weights r)) = Ok (final, ls)"
    "activation_bytes final = Ok bs" "vr_layers q = ls"
    using q by (auto simp: prove_reference_def Let_def)
  have "mask_ok r c" using v2_mask_ok [OF fair wf, of ch u32_max, where ?'e = v2_error] p(1) by auto
  from initial_table [OF wf this] p(2) have act: "activation_ok r (map fst cells)" by auto
  have ws: "list_all (\<lambda>l. length l = v2_width r * v2_width r \<and> canonical l) (v2_weights r)"
    using wf by (simp add: wf_v2_def)
  have ls: "length ls = length (v2_weights r)" "activation_ok r final"
    using layers_agree [OF fair wf act ws, of ch "[]" 0] p(3) by auto
  then have "ls \<noteq> []" using ne by auto
  moreover have "final = lw_output (last ls)" using prove_layers_last [OF p(3)] \<open>ls \<noteq> []\<close> by simp
  moreover obtain bs' where "activation_bytes final = Ok bs'" "length bs' = length final" "canonical bs'"
    using activation_bytes_total [of final] ls(2) unfolding activation_ok_def by blast
  ultimately show ?thesis using p(5) ls(2) by (auto simp: activation_ok_def)
qed

section \<open>The cubic map\<close>

lemma reduction_output_cube:
  assumes z: "\<bar>z\<bar> < 134217689"
  shows "uint (rw_output_remainder (reduction_spec z)) = (z ^ 3 mod 134217689) mod 251"
proof -
  let ?p = "134217689 :: int"
  define e where "e = encoded_nat z"
  have e: "int e mod ?p = z mod ?p" using z by (auto simp: e_def encoded_nat_def)
  have b: "(e * e mod transition_prime) * e mod transition_prime mod 251 < 2 ^ 16" by (rule less_trans [of _ 251]) simp_all
  have "int ((e * e mod transition_prime) * e mod transition_prime) = (int e * int e * int e) mod ?p"
    by (simp add: zmod_int mod_mult_left_eq)
  also have "\<dots> = (z * z * z) mod ?p"
    using e by (metis mod_mult_cong)
  finally have "int ((e * e mod transition_prime) * e mod transition_prime mod 251) = (z ^ 3 mod ?p) mod 251"
    by (simp add: zmod_int power3_eq_cube)
  then show ?thesis
    using b by (simp add: reduction_spec_def Let_def e_def uint_word_of_nat)
qed

section \<open>Properties\<close>

definition demo_v2_manifest :: manifest where
  "demo_v2_manifest = demo_manifest
     \<lparr>mb_model_version := 2, mb_pcs_parameter_digest := replicate 32 0x91, mb_pcs_commitment_root := replicate 32 0xa2\<rparr>"

definition demo_v2_descriptor :: v2_descriptor where
  "demo_v2_descriptor = \<lparr>vd_network_id = replicate 32 1, vd_algorithm_version = 2, vd_proof_version = 1,
     vd_banks = 1, vd_layers_per_bank = 2, vd_model = demo_v2_manifest\<rparr>"

definition demo_v2_reference :: v2_reference where
  "demo_v2_reference = \<lparr>v2_desc = demo_v2_descriptor, v2_base_input = [3, 250], v2_weights = [[4], [5]]\<rparr>"

lemma xof_fair_demo: "xof_fair demo_crypto"
  unfolding xof_fair_def xof_block_def demo_crypto_simps
proof (intro allI)
  fix k :: nat
  have "set (drop (64 * k) (replicate (64 * Suc k) (5 :: byte))) = {5}" by (simp add: set_replicate_conv_if)
  then show "\<exists>j\<ge>k. \<exists>b\<in>set (drop (64 * j) (replicate (64 * Suc j) 5)). b \<le> (250 :: byte)"
    by (intro exI [of _ k]) simp
qed

lemma demo_v2_wf: "wf_manifest (vd_model demo_v2_descriptor)"
  by (simp add: demo_v2_descriptor_def demo_v2_manifest_def wf_manifest_def demo_manifest_def)

lemma demo_v2_shape: "mb_validate_shape demo_v2_manifest = Ok ()"
  by (simp add: demo_v2_manifest_def demo_bank_eval)

lemma is_power_of_two_demo: "is_power_of_two 1" "is_power_of_two 2"
proof -
  have "(1 :: u32) = 2 ^ 0" "(2 :: u32) = 2 ^ 1" by simp_all
  then show "is_power_of_two 1" "is_power_of_two 2"
    unfolding is_power_of_two_def list_ex_iff by (metis atLeastLessThan_iff le0 set_upt zero_less_numeral one_less_numeral_iff semiring_norm(76))+
qed

lemma zero32_replicate [simp]: "replicate 32 b = zero32 \<longleftrightarrow> b = 0"
  by (simp add: zero32_def replicate_eq_replicate)

lemma demo_v2_valid: "validate_research demo_crypto demo_v2_descriptor = Ok ()"
proof -
  have d: "vd_algorithm_version demo_v2_descriptor = 2" "vd_proof_version demo_v2_descriptor = 1"
    "vd_network_id demo_v2_descriptor = replicate 32 1" "vd_banks demo_v2_descriptor = 1"
    "vd_layers_per_bank demo_v2_descriptor = 2" "vd_model demo_v2_descriptor = demo_v2_manifest"
    by (simp_all add: demo_v2_descriptor_def)
  have m: "mb_raw_blake3_root demo_v2_manifest = replicate 32 2"
    "mb_pcs_parameter_digest demo_v2_manifest = replicate 32 0x91"
    "mb_pcs_commitment_root demo_v2_manifest = replicate 32 0xa2"
    "mb_dimension demo_v2_manifest = 1" "mb_batch demo_v2_manifest = 2" "mb_layers demo_v2_manifest = 2"
    by (simp_all add: demo_v2_manifest_def demo_manifest_def)
  show ?thesis
    unfolding validate_research_def d m
    by (simp add: is_power_of_two_demo checked_mul_def manifest_digest_def demo_v2_shape
        FORGEMATRIX_V2_ALGORITHM_VERSION_def FORGEMATRIX_V2_PROOF_VERSION_def
        V2_REFERENCE_MAX_DIMENSION_def V2_REFERENCE_MAX_BATCH_def V2_REFERENCE_MAX_LAYERS_def)
qed

lemma demo_v2_reference_ok:
  "from_explicit_model demo_crypto demo_v2_descriptor [3, 250] [[4], [5]] = Ok demo_v2_reference"
proof -
  have "build_small_model_bank demo_crypto \<lparr>fx_model_version = mb_model_version (vd_model demo_v2_descriptor),
       fx_dimension = mb_dimension (vd_model demo_v2_descriptor), fx_batch = mb_batch (vd_model demo_v2_descriptor),
       fx_base_input = [3, 250], fx_layers = [[4], [5]],
       fx_pcs_parameter_digest = mb_pcs_parameter_digest (vd_model demo_v2_descriptor),
       fx_pcs_commitment_root = mb_pcs_commitment_root (vd_model demo_v2_descriptor)\<rparr> =
     Ok \<lparr>bb_bytes = encode_header demo_v2_manifest @ [3, 250, 4, 5], bb_manifest = demo_v2_manifest\<rparr>"
    by (simp add: demo_bank_eval demo_v2_descriptor_def demo_v2_manifest_def Let_def)
  then show ?thesis
    unfolding from_explicit_model_def demo_v2_valid obind.simps
    by (simp add: demo_v2_reference_def demo_v2_descriptor_def)
qed

lemma demo_v2_network: "on_network demo_v2_reference demo_challenge"
  by (simp add: on_network_def demo_v2_reference_def demo_v2_descriptor_def demo_challenge_def)

text \<open>For every in-range accumulator the range checks and the three reduction relations admit
  exactly one witness, the one the prover computes, and its output remainder is the cube of the
  accumulator in the 27-bit prime field, reduced modulo 251.\<close>

theorem reduction_witness_unique_and_cubic:
  assumes "\<bar>z\<bar> < 134217689"
  shows "\<exists>w. reduction_witness z = Ok w \<and> (\<forall>v. check_reduction z v = Ok () \<longleftrightarrow> v = w) \<and>
    uint (rw_output_remainder w) = (z ^ 3 mod 134217689) mod 251"
  using reduction_witness_exact [OF assms] check_reduction_unique [OF assms] reduction_output_cube [OF assms]
  by blast

theorem reduction_witness_unique_and_cubic_witness:
  "\<exists>w. reduction_witness (- 7) = Ok w \<and> uint (rw_output_remainder w) = 116"
  using reduction_witness_unique_and_cubic [of "- 7"] by auto

text \<open>C38. The reference prover always returns on its own network, and the reference verifier
  accepts exactly the witness the prover computes for the claimed nonce, when its work digest
  meets the target: no other witness, however malformed, is accepted and none makes it panic.\<close>

theorem reference_verifier_accepts_exactly:
  assumes "crypto_ok C" "xof_fair C" "wf_manifest (vd_model d)"
    and "from_explicit_model C d base ws = Ok r" "bc_network_id block = vd_network_id d"
  shows "\<exists>q. prove_reference C r block nonce = Ok q \<and>
    (\<forall>p. vr_nonce p = nonce \<longrightarrow>
      (verify_reference C r block p = Ok () \<longleftrightarrow> p = q \<and> lex_le (vr_work_digest q) (bc_target block)))"
proof -
  note r = wf_v2_from_explicit_model [OF assms(1,3,4)]
  have "on_network r block" using assms(5) by (simp add: on_network_def r(2))
  from prove_reference_agrees [OF assms(2) r(1) this, of nonce] show ?thesis by blast
qed

theorem reference_verifier_accepts_exactly_witness:
  "\<exists>q. prove_reference demo_crypto demo_v2_reference demo_challenge 9 = Ok q"
  using reference_verifier_accepts_exactly [OF crypto_ok_demo xof_fair_demo demo_v2_wf demo_v2_reference_ok,
      of demo_challenge 9] demo_v2_network
  by (auto simp: on_network_def demo_v2_reference_def)

text \<open>C39. Rejection sampling of mask coefficients returns whenever the hash output keeps
  producing admissible bytes, with exactly one constant and one coefficient per coordinate bit,
  all at most 250.\<close>

theorem mask_sampling_terminates:
  assumes "xof_fair C" "0 < rows" "0 < width"
  shows "\<exists>c. mask_coefficients C challenge layer rows width = (Ok c :: (v2_error, _) outcome) \<and>
    length c = 1 + ilog2 rows + ilog2 width \<and> list_all (\<lambda>b. b \<le> 250) c"
  using assms by (rule mask_coefficients_exact)

theorem mask_sampling_terminates_witness:
  "\<exists>c. mask_coefficients demo_crypto zero32 3 2 4 = (Ok c :: (v2_error, _) outcome) \<and> length c = 4"
  using mask_sampling_terminates [OF xof_fair_demo, of 2 4 zero32 3] by (auto simp: ilog2.simps)

text \<open>Mining compact proofs returns the first nonce of the range that meets the target and
  what it returns is accepted by the compact verifier, which accepts at most one proof per nonce;
  when it reports exhaustion no nonce of the range meets the target.\<close>

theorem compact_mining_exact:
  assumes "xof_fair C" "wf_v2 r" "on_network r block"
  shows "(\<exists>q i. mine_compact C r block start attempts = Ok q \<and> verify_compact C r block q = Ok () \<and>
        i < unat attempts \<and> vc_nonce q = start + word_of_nat i \<and>
        (\<forall>p. verify_compact C r block p = Ok () \<longrightarrow> vc_nonce p = vc_nonce q \<longrightarrow> p = q))
    \<or> mine_compact C r block start attempts = Err V2E_NonceExhausted \<and>
      (\<forall>i<unat attempts. \<forall>p. vc_nonce p = start + word_of_nat i \<longrightarrow> verify_compact C r block p \<noteq> Ok ())"
proof -
  have v: "(\<lambda>(C, r). xof_fair C \<and> wf_v2 r) (C, r)" using assms by simp
  let ?prove = "\<lambda>i. prove_compact C r block (start + word_of_nat i)"
  let ?meets = "\<lambda>q. lex_le (vc_work_digest q) (bc_target block)"
  have total: "\<exists>q. ?prove i = Ok q" for i by (rule prove_compact_total [OF assms])
  have acc: "verify_compact C r block p = Ok () \<longleftrightarrow> prove_compact C r block (vc_nonce p) = Ok p \<and> ?meets p" for p
    using verify_compact_exact [of C r block p] by simp
  show ?thesis
  proof (cases "\<forall>i<unat attempts. \<forall>q. ?prove i = Ok q \<longrightarrow> \<not> ?meets q")
    case True
    then have "\<exists>q. ?prove i = Ok q \<and> \<not> ?meets q" if "i < unat attempts" for i
      using total that by blast
    then have "mine_compact C r block start attempts = Err V2E_NonceExhausted"
      using forge_v2.search_exhausted [of "unat attempts" "(C, r)" block start] by (simp add: mine_compact_def)
    moreover have "verify_compact C r block p \<noteq> Ok ()" if "i < unat attempts" "vc_nonce p = start + word_of_nat i" for i p
      using True that acc by auto
    ultimately show ?thesis by blast
  next
    case False
    then obtain i q0 where "i < unat attempts" "?prove i = Ok q0" "?meets q0" by blast
    then obtain q where q: "mine_compact_from C r block start (unat attempts) = Ok q"
      using forge_v2.search_complete [of "unat attempts" "(C, r)" block start i q0] total by auto
    then obtain j where j: "j < unat attempts" "?prove j = Ok q"
      using forge_v2.search_OkD [of "(C, r)" block start "unat attempts" q] by auto
    have ok: "verify_compact C r block q = Ok ()"
      using forge_v2.found_checks [OF v, of block start "unat attempts" q] q by simp
    moreover have "p = q" if "verify_compact C r block p = Ok ()" "vc_nonce p = vc_nonce q" for p
      using forge_v2.proof_unique [OF v, of block p "()" q "()"] that ok by simp
    moreover have "vc_nonce q = start + word_of_nat j" by (rule prove_compact_nonce [OF j(2)])
    moreover have "mine_compact C r block start attempts = Ok q" using q by (simp add: mine_compact_def)
    ultimately show ?thesis using j(1) by blast
  qed
qed

lemma demo_v2_work:
  "prove_compact demo_crypto r block nonce = Ok q \<Longrightarrow> vc_work_digest q = replicate 32 24"
  by (auto simp: prove_compact_def prove_reference_def Let_def work_digest_v2_def demo_crypto_simps WORK_DOMAIN_V2_def)

theorem compact_mining_exact_witness:
  "\<exists>q. mine_compact demo_crypto demo_v2_reference demo_challenge 5 1 = Ok q \<and>
     verify_compact demo_crypto demo_v2_reference demo_challenge q = Ok () \<and> vc_nonce q = 5"
proof -
  note wf = wf_v2_from_explicit_model(1) [OF crypto_ok_demo demo_v2_wf demo_v2_reference_ok]
  obtain q where q: "prove_compact demo_crypto demo_v2_reference demo_challenge 5 = Ok q"
    using prove_compact_total [OF xof_fair_demo wf demo_v2_network] by blast
  then have "lex_le (vc_work_digest q) (bc_target demo_challenge)"
    by (simp add: demo_v2_work demo_challenge_def lex_le_replicate)
  with q have "mine_compact demo_crypto demo_v2_reference demo_challenge 5 1 = Ok q"
    by (simp add: mine_compact_def)
  with compact_mining_exact [OF xof_fair_demo wf demo_v2_network, of 5 1] show ?thesis by auto
qed

text \<open>An accelerator batch lists one coefficient block per nonce and layer. For every index the
  recheck of a claimed digest accepts exactly the digest of the full recomputation and then
  returns the recomputed proof, and an honest accelerator output is given that digest: a wrong
  device can neither forge nor alter a proof and a right one is never refused.\<close>

theorem accelerator_is_untrusted:
  assumes "xof_fair C" "wf_v2 r" "v2_weights r \<noteq> []" "on_network r block"
    and count: "count \<le> 65536" and i: "i < unat count"
  shows "\<exists>b p q bs. prepare_accelerator_batch C r block start count = Ok b \<and>
    length (ab_coefficients b) =
      unat count * ((unat (mb_layers (vd_model (v2_desc r))) + 1) * ab_coefficient_count b) \<and>
    prove_compact C r block (start + word_of_nat i) = Ok p \<and>
    prove_reference C r block (start + word_of_nat i) = Ok q \<and>
    activation_bytes (lw_output (last (vr_layers q))) = Ok bs \<and>
    candidate_work_digest C b i bs = Ok (vc_work_digest p) \<and>
    (\<forall>d x. verify_accelerator_candidate C r block b i d = Ok x \<longleftrightarrow> d = vc_work_digest p \<and> x = p)"
proof -
  let ?n = "start + word_of_nat i :: u64"
  note net = assms(4)
  have "count \<noteq> 0" using i by auto
  then obtain b where batch: "prepare_accelerator_batch C r block start count = Ok b"
    using prepare_total [OF assms(1,2) net _ count] by blast
  then obtain chs cs where b: "ofold (batch_nonce C r block start) ([], []) [0..<unat count] = Ok (chs, cs)"
    "ab_coefficients b = cs" "ab_coefficient_count b = 1 + ilog2 (v2_rows r) + ilog2 (v2_width r)"
    "ab_descriptor b = v2_desc r" "ab_block b = block" "ab_count b = count" "ab_start_nonce b = start"
    by (auto simp: prepare_accelerator_batch_def ilog2_or_panic_def)
  obtain q where q: "prove_reference C r block ?n = Ok q"
    using prove_reference_agrees [OF assms(1,2) net, of ?n] by blast
  obtain p where p: "prove_compact C r block ?n = Ok p" using prove_compact_total [OF assms(1,2) net] by blast
  then have work: "vc_work_digest p = vr_work_digest q" using q by (auto simp: prove_compact_def)
  obtain bs where bs: "vr_layers q \<noteq> []" "activation_bytes (lw_output (last (vr_layers q))) = Ok bs"
    "canonical bs" "length bs = v2_rows r * v2_width r"
    using prove_reference_final [OF assms(1,2) net q assms(3)] by blast
  have "candidate_work_digest C b i bs = Ok (vc_work_digest p)"
    using candidate_honest [OF assms(1,2) batch i q bs] work by simp
  moreover have "verify_accelerator_candidate C r block b i d = Ok x \<longleftrightarrow> d = vc_work_digest p \<and> x = p" for d x
    using i p by (auto simp: verify_accelerator_candidate_def matches_statement_def nonce_at_def b)
  moreover have "length (ab_coefficients b) =
      unat count * ((unat (mb_layers (vd_model (v2_desc r))) + 1) * ab_coefficient_count b)"
    using batch_nonces [OF assms(1,2) b(1)] by (simp add: b)
  ultimately show ?thesis using batch p q bs(2) by blast
qed

theorem accelerator_is_untrusted_witness:
  "\<exists>b. prepare_accelerator_batch demo_crypto demo_v2_reference demo_challenge 0 2 = Ok b \<and>
     (\<exists>p. verify_accelerator_candidate demo_crypto demo_v2_reference demo_challenge b 1 (replicate 32 24) = Ok p)"
proof -
  note wf = wf_v2_from_explicit_model(1) [OF crypto_ok_demo demo_v2_wf demo_v2_reference_ok]
  have "v2_weights demo_v2_reference \<noteq> []" by (simp add: demo_v2_reference_def)
  from accelerator_is_untrusted [OF xof_fair_demo wf this demo_v2_network, of 2 1 0]
  obtain b p where "prepare_accelerator_batch demo_crypto demo_v2_reference demo_challenge 0 2 = Ok b"
    "prove_compact demo_crypto demo_v2_reference demo_challenge 1 = Ok p"
    "\<forall>d x. verify_accelerator_candidate demo_crypto demo_v2_reference demo_challenge b 1 d = Ok x \<longleftrightarrow>
       d = vc_work_digest p \<and> x = p"
    by auto
  then show ?thesis using demo_v2_work by metis
qed

end
