(* ===== verification/CF_Limits.thy ===== *)
theory CF_Limits
  imports CF_Prelude
begin

text \<open>
  The size and count limits of \<open>crates/cmfd-consensus/src/network.rs\<close> and the constants of
  \<open>crates/cmfd-consensus/src/wire.rs\<close>; a \<open>usize\<close> is a natural number.
\<close>

definition NETWORK_PROTOCOL_VERSION :: u32 where "NETWORK_PROTOCOL_VERSION = 1"
definition MAX_FUTURE_OFFSET_SECS :: u64 where "MAX_FUTURE_OFFSET_SECS = 24 * 60 * 60"
definition MEDIAN_TIME_WINDOW :: nat where "MEDIAN_TIME_WINDOW = 11"
definition MAX_BLOCK_TRANSACTIONS :: nat where "MAX_BLOCK_TRANSACTIONS = 1024"
definition MAX_TRANSACTION_INPUTS :: nat where "MAX_TRANSACTION_INPUTS = 128"
definition MAX_TRANSACTION_OUTPUTS :: nat where "MAX_TRANSACTION_OUTPUTS = 128"
definition MAX_BLOCK_AGGREGATE_INPUTS :: nat where "MAX_BLOCK_AGGREGATE_INPUTS = 4096"
definition MAX_BLOCK_AGGREGATE_OUTPUTS :: nat where "MAX_BLOCK_AGGREGATE_OUTPUTS = 4096"
definition MAX_BLOCK_SIGNATURE_CHECKS :: nat where "MAX_BLOCK_SIGNATURE_CHECKS = 2048"
definition MAX_COINBASE_OUTPUTS :: nat where "MAX_COINBASE_OUTPUTS = 3"
definition CONSENSUS_SIGNATURE_BYTES :: nat where "CONSENSUS_SIGNATURE_BYTES = 64"

definition WIRE_HEADER_BYTES :: nat where "WIRE_HEADER_BYTES = 16"
definition WIRE_VERSION :: u16 where "WIRE_VERSION = 1"
definition TRANSACTION_KIND :: u8 where "TRANSACTION_KIND = 1"
definition FORGEMATRIX_PROOF_KIND :: u8 where "FORGEMATRIX_PROOF_KIND = 2"
definition BLOCK_KIND :: u8 where "BLOCK_KIND = 3"
definition FORGEMATRIX_V1_PROOF_TAG :: u8 where "FORGEMATRIX_V1_PROOF_TAG = 1"
definition FORGEMATRIX_V2_PROOF_TAG :: u8 where "FORGEMATRIX_V2_PROOF_TAG = 2"
definition MAX_TRANSACTION_BYTES :: nat where "MAX_TRANSACTION_BYTES = 64 * 1024"
definition MAX_PROOF_BYTES :: nat where "MAX_PROOF_BYTES = 256 * 1024"
definition MAX_BLOCK_BYTES :: nat where "MAX_BLOCK_BYTES = 1024 * 1024"
definition FRAME_MAGIC :: "byte list" where "FRAME_MAGIC = bytes_of_string ''CMFD''"
definition NETWORK_MAGIC_DOMAIN :: string where "NETWORK_MAGIC_DOMAIN = ''CMFD/WIRE/NETWORK-MAGIC/V1''"

lemma length_FRAME_MAGIC [simp]: "length FRAME_MAGIC = 4"
  by (simp add: FRAME_MAGIC_def bytes_of_string_def)

lemmas wire_limits =
  MAX_BLOCK_TRANSACTIONS_def MAX_TRANSACTION_INPUTS_def MAX_TRANSACTION_OUTPUTS_def
  MAX_BLOCK_AGGREGATE_INPUTS_def MAX_BLOCK_AGGREGATE_OUTPUTS_def MAX_BLOCK_SIGNATURE_CHECKS_def
  MAX_COINBASE_OUTPUTS_def WIRE_HEADER_BYTES_def MAX_TRANSACTION_BYTES_def MAX_PROOF_BYTES_def
  MAX_BLOCK_BYTES_def

end
