(* ===== verification/CF_Stream.thy ===== *)
theory CF_Stream
  imports CF_Limits
begin

text \<open>
  The bounded writer and the bounds-checked reader of \<open>crates/cmfd-consensus/src/wire.rs\<close>,
  and the contract of an encoder/decoder pair built on them.

  \<open>fits w bs\<close> says that the writer has room for the bytes, \<open>emit\<close> appends them; \<open>starts r bs\<close>
  says that the unread input begins with the bytes, \<open>skip\<close> consumes them. A pair of functions
  is a \<open>wire_codec\<close> when writing succeeds exactly on acceptable values that fit and appends
  their bytes, and reading succeeds exactly on input that starts with the bytes of an acceptable
  value and consumes just those: decoding inverts encoding and accepts one encoding per value.
\<close>

section \<open>Errors\<close>

datatype wire_error =
    WE_Truncated nat nat
  | WE_InvalidMagic
  | WE_WrongNetworkMagic
  | WE_WrongNetworkId string
  | WE_UnsupportedVersion u16
  | WE_UnexpectedKind u8 u8
  | WE_NonZeroFlags u8
  | WE_SizeLimit string nat nat
  | WE_TrailingBytes nat
  | WE_CountLimit string nat nat
  | WE_UnknownTag string u8
  | WE_SignatureLength nat
  | WE_LengthOverflow

section \<open>Shared checks\<close>

definition check_count :: "nat \<Rightarrow> nat \<Rightarrow> string \<Rightarrow> (wire_error, unit) outcome" where
  "check_count actual maximum field =
     (if maximum < actual then Err (WE_CountLimit field actual maximum) else Ok ())"

definition payload_limit :: "nat \<Rightarrow> nat" where
  "payload_limit maximum_frame_bytes = maximum_frame_bytes - WIRE_HEADER_BYTES"

definition ensure_payload_size :: "nat \<Rightarrow> nat \<Rightarrow> string \<Rightarrow> (wire_error, unit) outcome" where
  "ensure_payload_size payload_bytes maximum_frame_bytes object_name =
     obind (ok_or WE_LengthOverflow (usize_add WIRE_HEADER_BYTES payload_bytes)) (\<lambda>total.
     if maximum_frame_bytes < total then Err (WE_SizeLimit object_name total maximum_frame_bytes)
     else Ok ())"

definition u32_of_usize :: "nat \<Rightarrow> (wire_error, u32) outcome" where
  "u32_of_usize n = (if n < 2 ^ 32 then Ok (word_of_nat n) else Err WE_LengthOverflow)"

section \<open>Writer\<close>

record writer =
  wr_bytes :: "byte list"
  wr_limit :: nat
  wr_object :: string

definition writer_new :: "nat \<Rightarrow> string \<Rightarrow> writer" where
  "writer_new limit object_name = \<lparr>wr_bytes = [], wr_limit = limit, wr_object = object_name\<rparr>"

definition wr_reserve :: "nat \<Rightarrow> writer \<Rightarrow> (wire_error, unit) outcome" where
  "wr_reserve additional w =
     obind (ok_or WE_LengthOverflow (usize_add (length (wr_bytes w)) additional)) (\<lambda>actual.
     if wr_limit w < actual then
       obind (ok_or WE_LengthOverflow (usize_add actual WIRE_HEADER_BYTES)) (\<lambda>framed_actual.
       obind (ok_or WE_LengthOverflow (usize_add (wr_limit w) WIRE_HEADER_BYTES)) (\<lambda>framed_limit.
       Err (WE_SizeLimit (wr_object w) framed_actual framed_limit)))
     else Ok ())"

definition wr_put :: "byte list \<Rightarrow> writer \<Rightarrow> (wire_error, writer) outcome" where
  "wr_put bs w =
     obind (wr_reserve (length bs) w) (\<lambda>_. Ok (w\<lparr>wr_bytes := wr_bytes w @ bs\<rparr>))"

definition wr_u8 :: "u8 \<Rightarrow> writer \<Rightarrow> (wire_error, writer) outcome" where
  "wr_u8 v w = wr_put [v] w"

definition wr_u32 :: "u32 \<Rightarrow> writer \<Rightarrow> (wire_error, writer) outcome" where
  "wr_u32 v w = wr_put (to_le_bytes v) w"

definition wr_u64 :: "u64 \<Rightarrow> writer \<Rightarrow> (wire_error, writer) outcome" where
  "wr_u64 v w = wr_put (to_le_bytes v) w"

definition wr_count :: "nat \<Rightarrow> nat \<Rightarrow> string \<Rightarrow> writer \<Rightarrow> (wire_error, writer) outcome" where
  "wr_count count maximum field w =
     obind (check_count count maximum field) (\<lambda>_.
     obind (u32_of_usize count) (\<lambda>n. wr_u32 n w))"

definition wr_sized_bytes :: "byte list \<Rightarrow> nat \<Rightarrow> string \<Rightarrow> writer \<Rightarrow> (wire_error, writer) outcome" where
  "wr_sized_bytes bs maximum_frame_bytes object_name w =
     obind (ensure_payload_size (length bs) maximum_frame_bytes object_name) (\<lambda>_.
     obind (u32_of_usize (length bs)) (\<lambda>n.
     obind (wr_u32 n w) (wr_put bs)))"

section \<open>Reader\<close>

record reader =
  rd_bytes :: "byte list"
  rd_offset :: nat

definition reader_new :: "byte list \<Rightarrow> reader" where
  "reader_new bs = \<lparr>rd_bytes = bs, rd_offset = 0\<rparr>"

definition rd_finish :: "reader \<Rightarrow> (wire_error, unit) outcome" where
  "rd_finish r =
     obind (usize_sub_or_panic (length (rd_bytes r)) (rd_offset r)) (\<lambda>remaining.
     if remaining \<noteq> 0 then Err (WE_TrailingBytes remaining) else Ok ())"

definition rd_take :: "nat \<Rightarrow> reader \<Rightarrow> (wire_error, byte list \<times> reader) outcome" where
  "rd_take n r =
     obind (usize_sub_or_panic (length (rd_bytes r)) (rd_offset r)) (\<lambda>remaining.
     if remaining < n then Err (WE_Truncated n remaining)
     else
       obind (ok_or WE_LengthOverflow (usize_add (rd_offset r) n)) (\<lambda>end_offset.
       obind (slice_or_panic (rd_bytes r) (rd_offset r) end_offset) (\<lambda>bs.
       Ok (bs, r\<lparr>rd_offset := end_offset\<rparr>))))"

definition rd_array :: "nat \<Rightarrow> reader \<Rightarrow> (wire_error, byte list \<times> reader) outcome" where
  "rd_array n r = rd_take n r"

definition rd_u8 :: "reader \<Rightarrow> (wire_error, u8 \<times> reader) outcome" where
  "rd_u8 r = obind (rd_take 1 r) (\<lambda>(bs, r'). obind (index_or_panic bs 0) (\<lambda>b. Ok (b, r')))"

definition rd_u32 :: "reader \<Rightarrow> (wire_error, u32 \<times> reader) outcome" where
  "rd_u32 r = obind (rd_take 4 r) (\<lambda>(bs, r'). Ok (from_le_bytes bs, r'))"

definition rd_u64 :: "reader \<Rightarrow> (wire_error, u64 \<times> reader) outcome" where
  "rd_u64 r = obind (rd_take 8 r) (\<lambda>(bs, r'). Ok (from_le_bytes bs, r'))"

definition rd_count :: "nat \<Rightarrow> string \<Rightarrow> reader \<Rightarrow> (wire_error, nat \<times> reader) outcome" where
  "rd_count maximum field r =
     obind (rd_u32 r) (\<lambda>(n, r').
     obind (check_count (unat n) maximum field) (\<lambda>_. Ok (unat n, r')))"

definition rd_sized_bytes :: "nat \<Rightarrow> string \<Rightarrow> reader \<Rightarrow> (wire_error, byte list \<times> reader) outcome" where
  "rd_sized_bytes maximum_frame_bytes object_name r =
     obind (rd_u32 r) (\<lambda>(n, r').
     obind (ensure_payload_size (unat n) maximum_frame_bytes object_name) (\<lambda>_. rd_take (unat n) r'))"

text \<open>The loops that read a counted sequence.\<close>

fun read_many :: "(reader \<Rightarrow> ('e, 'a \<times> reader) outcome) \<Rightarrow> nat \<Rightarrow> reader
     \<Rightarrow> ('e, 'a list \<times> reader) outcome" where
  "read_many get 0 r = Ok ([], r)"
| "read_many get (Suc n) r =
     obind (get r) (\<lambda>(x, r'). obind (read_many get n r') (\<lambda>(xs, r''). Ok (x # xs, r'')))"

section \<open>What writing and reading do\<close>

named_theorems wire_simps \<open>effect of the primitive stream operations\<close>

definition fits :: "writer \<Rightarrow> byte list \<Rightarrow> bool" where
  "fits w bs \<longleftrightarrow> length (wr_bytes w) + length bs \<le> wr_limit w \<and> length (wr_bytes w) + length bs < usize_limit"

definition emit :: "byte list \<Rightarrow> writer \<Rightarrow> writer" where
  "emit bs w = w\<lparr>wr_bytes := wr_bytes w @ bs\<rparr>"

definition ok_reader :: "reader \<Rightarrow> bool" where
  "ok_reader r \<longleftrightarrow> rd_offset r \<le> length (rd_bytes r) \<and> length (rd_bytes r) < usize_limit"

definition starts :: "reader \<Rightarrow> byte list \<Rightarrow> bool" where
  "starts r bs \<longleftrightarrow> rd_offset r + length bs \<le> length (rd_bytes r) \<and> rd_offset r + length bs < usize_limit \<and>
     take (length bs) (drop (rd_offset r) (rd_bytes r)) = bs"

definition skip :: "nat \<Rightarrow> reader \<Rightarrow> reader" where
  "skip n r = r\<lparr>rd_offset := rd_offset r + n\<rparr>"

lemma emit_emit [simp]: "emit b (emit a w) = emit (a @ b) w"
  by (simp add: emit_def)

lemma emit_bytes [simp]: "wr_bytes (emit bs w) = wr_bytes w @ bs"
  by (simp add: emit_def)

lemma fits_append: "fits w (a @ b) \<longleftrightarrow> fits w a \<and> fits (emit a w) b"
  by (auto simp: fits_def emit_def)

lemma wr_reserve_Ok [wire_simps]:
  "wr_reserve n w = Ok () \<longleftrightarrow> length (wr_bytes w) + n \<le> wr_limit w \<and> length (wr_bytes w) + n < usize_limit"
  by (auto simp: wr_reserve_def usize_add_def)

lemma wr_put_Ok [wire_simps]: "wr_put bs w = Ok w' \<longleftrightarrow> fits w bs \<and> w' = emit bs w"
  by (auto simp: wr_put_def wr_reserve_Ok fits_def emit_def)

lemma wr_u_Ok [wire_simps]:
  "wr_u8 b w = Ok w' \<longleftrightarrow> fits w [b] \<and> w' = emit [b] w"
  "wr_u32 x w = Ok w' \<longleftrightarrow> fits w (to_le_bytes x) \<and> w' = emit (to_le_bytes x) w"
  "wr_u64 y w = Ok w' \<longleftrightarrow> fits w (to_le_bytes y) \<and> w' = emit (to_le_bytes y) w"
  by (simp_all add: wr_u8_def wr_u32_def wr_u64_def wr_put_Ok)

lemma check_count_Ok [wire_simps]: "check_count n m f = Ok () \<longleftrightarrow> n \<le> m"
  by (auto simp: check_count_def)

lemma ensure_payload_size_Ok [wire_simps]:
  "ensure_payload_size n m f = Ok () \<longleftrightarrow> 16 + n \<le> m \<and> 16 + n < usize_limit"
  by (auto simp: ensure_payload_size_def usize_add_def WIRE_HEADER_BYTES_def)

abbreviation le32 :: "nat \<Rightarrow> byte list" where
  "le32 n \<equiv> to_le_bytes (word_of_nat n :: u32)"

lemma wr_count_Ok [wire_simps]:
  "wr_count n m f w = Ok w' \<longleftrightarrow> n \<le> m \<and> n < 2 ^ 32 \<and> fits w (le32 n) \<and> w' = emit (le32 n) w"
  by (auto simp: wr_count_def wire_simps u32_of_usize_def split: if_splits)

lemma wr_sized_bytes_Ok [wire_simps]:
  "wr_sized_bytes bs m f w = Ok w' \<longleftrightarrow> 16 + length bs \<le> m \<and> 16 + length bs < usize_limit \<and>
     length bs < 2 ^ 32 \<and> fits w (le32 (length bs) @ bs) \<and> w' = emit (le32 (length bs) @ bs) w"
  by (auto simp: wr_sized_bytes_def wire_simps u32_of_usize_def fits_append split: if_splits)

lemma skip_skip [simp]: "skip n (skip m r) = skip (m + n) r"
  by (simp add: skip_def)

lemma skip_0 [simp]: "skip 0 r = r"
  by (simp add: skip_def)

lemma starts_Nil: "starts r [] \<longleftrightarrow> rd_offset r \<le> length (rd_bytes r) \<and> rd_offset r < usize_limit"
  by (simp add: starts_def)

lemma starts_append: "starts r (a @ b) \<longleftrightarrow> starts r a \<and> starts (skip (length a) r) b"
proof (cases "rd_offset r + length a + length b \<le> length (rd_bytes r)")
  case True
  let ?d = "drop (rd_offset r) (rd_bytes r)"
  have "take (length a + length b) ?d = take (length a) ?d @ take (length b) (drop (length a) ?d)"
    by (rule take_add)
  moreover have "length (take (length a) ?d) = length a" using True by simp
  ultimately show ?thesis
    using True by (auto simp: starts_def skip_def add.commute)
next
  case False
  then show ?thesis by (auto simp: starts_def skip_def)
qed

lemma starts_unique: "starts r a \<Longrightarrow> starts r b \<Longrightarrow> length a = length b \<Longrightarrow> a = b"
  by (auto simp: starts_def)

lemma ok_reader_skip: "starts r bs \<Longrightarrow> length bs = n \<Longrightarrow> ok_reader r \<Longrightarrow> ok_reader (skip n r)"
  by (auto simp: starts_def ok_reader_def skip_def)

lemma starts_end: "starts r bs \<Longrightarrow> starts (skip (length bs) r) []"
  by (auto simp: starts_def skip_def)

lemma fits_end: "fits w bs \<Longrightarrow> fits (emit bs w) []"
  by (simp add: fits_def emit_def)

lemma starts_new: "starts (reader_new bs) cs \<longleftrightarrow> length cs < usize_limit \<and> (\<exists>rest. bs = cs @ rest)"
  by (auto simp: starts_def reader_new_def) (metis append_take_drop_id)

lemma rd_take_Ok [wire_simps]:
  "rd_take n r = Ok (bs, r') \<longleftrightarrow> length bs = n \<and> starts r bs \<and> r' = skip n r"
  by (auto simp: rd_take_def usize_sub_or_panic_def usize_add_def slice_or_panic_def starts_def skip_def
      split: if_splits)

lemma rd_array_Ok [wire_simps]:
  "rd_array n r = Ok (h, r') \<longleftrightarrow> length h = n \<and> starts r h \<and> r' = skip n r"
  by (simp add: rd_array_def wire_simps)

lemma rd_u8_Ok [wire_simps]: "rd_u8 r = Ok (b, r') \<longleftrightarrow> starts r [b] \<and> r' = skip 1 r"
  by (auto simp: rd_u8_def wire_simps length_Suc_conv index_or_panic_def)

lemma le_bytes_iff:
  "length bs = 4 \<and> starts r bs \<and> from_le_bytes bs = (x :: u32) \<longleftrightarrow> bs = to_le_bytes x \<and> starts r (to_le_bytes x)"
  "length bs = 8 \<and> starts r bs \<and> from_le_bytes bs = (y :: u64) \<longleftrightarrow> bs = to_le_bytes y \<and> starts r (to_le_bytes y)"
  by (auto simp: to_from_le_widths)

lemma rd_u32_Ok [wire_simps]: "rd_u32 r = Ok (x, r') \<longleftrightarrow> starts r (to_le_bytes x) \<and> r' = skip 4 r"
proof -
  have "rd_u32 r = Ok (x, r') \<longleftrightarrow>
      (\<exists>bs. (length bs = 4 \<and> starts r bs \<and> from_le_bytes bs = x) \<and> r' = skip 4 r)"
    by (auto simp: rd_u32_def wire_simps)
  then show ?thesis unfolding le_bytes_iff by blast
qed

lemma rd_u64_Ok [wire_simps]: "rd_u64 r = Ok (x, r') \<longleftrightarrow> starts r (to_le_bytes x) \<and> r' = skip 8 r"
proof -
  have "rd_u64 r = Ok (x, r') \<longleftrightarrow>
      (\<exists>bs. (length bs = 8 \<and> starts r bs \<and> from_le_bytes bs = x) \<and> r' = skip 8 r)"
    by (auto simp: rd_u64_def wire_simps)
  then show ?thesis unfolding le_bytes_iff by blast
qed

lemma unat_u32_iff: "unat (x :: u32) = n \<longleftrightarrow> n < 2 ^ 32 \<and> x = word_of_nat n"
  using unsigned_less [of x, where ?'a = nat] by (auto simp: unat_of_nat)

lemma rd_count_Ok [wire_simps]:
  "rd_count m f r = Ok (n, r') \<longleftrightarrow> n \<le> m \<and> n < 2 ^ 32 \<and> starts r (le32 n) \<and> r' = skip 4 r"
proof -
  have "rd_count m f r = Ok (n, r') \<longleftrightarrow>
      (\<exists>x :: u32. unat x = n \<and> n \<le> m \<and> starts r (to_le_bytes x) \<and> r' = skip 4 r)"
    by (auto simp: rd_count_def wire_simps)
  then show ?thesis unfolding unat_u32_iff by blast
qed

lemma rd_sized_bytes_Ok [wire_simps]:
  "rd_sized_bytes m f r = Ok (bs, r') \<longleftrightarrow> 16 + length bs \<le> m \<and> 16 + length bs < usize_limit \<and>
     length bs < 2 ^ 32 \<and> starts r (le32 (length bs) @ bs) \<and> r' = skip (4 + length bs) r"
proof -
  have "rd_sized_bytes m f r = Ok (bs, r') \<longleftrightarrow>
      (\<exists>x :: u32. unat x = length bs \<and> 16 + length bs \<le> m \<and> 16 + length bs < usize_limit \<and>
         starts r (to_le_bytes x) \<and> starts (skip 4 r) bs \<and> r' = skip (4 + length bs) r)"
    by (auto simp: rd_sized_bytes_def wire_simps)
  then show ?thesis unfolding unat_u32_iff starts_append by auto
qed

lemma rd_finish_Ok [wire_simps]: "rd_finish r = Ok () \<longleftrightarrow> rd_offset r = length (rd_bytes r)"
  by (auto simp: rd_finish_def usize_sub_or_panic_def split: if_splits)

section \<open>Readers do not panic\<close>

definition safe_reader :: "(reader \<Rightarrow> ('e, 'a \<times> reader) outcome) \<Rightarrow> bool" where
  "safe_reader get \<longleftrightarrow>
     (\<forall>r. ok_reader r \<longrightarrow> returns (get r) \<and> (\<forall>a r'. get r = Ok (a, r') \<longrightarrow> ok_reader r'))"

named_theorems safe_intros \<open>composition of readers that do not panic\<close>

lemma safe_take [safe_intros]: "safe_reader (rd_take n)"
  by (auto simp: safe_reader_def rd_take_Ok ok_reader_skip)
    (auto simp: rd_take_def usize_sub_or_panic_def usize_add_def slice_or_panic_def ok_reader_def)

lemma safe_array [safe_intros]: "safe_reader (rd_array n)"
  using safe_take [of n] by (simp add: safe_reader_def rd_array_def)

lemma safe_return [safe_intros]: "safe_reader (\<lambda>r. Ok (a, r))"
  by (simp add: safe_reader_def)

lemma safe_error [safe_intros]: "safe_reader (\<lambda>r. Err e)"
  by (simp add: safe_reader_def)

lemma safe_bind [safe_intros]:
  assumes "safe_reader get" "\<And>a. safe_reader (k a)"
  shows "safe_reader (\<lambda>r. obind (get r) (\<lambda>(a, r'). k a r'))"
proof -
  have "returns (obind (get r) (\<lambda>(a, r'). k a r')) \<and>
      (\<forall>b s. obind (get r) (\<lambda>(a, r'). k a r') = Ok (b, s) \<longrightarrow> ok_reader s)" if r: "ok_reader r" for r
  proof (cases "get r")
    case (Ok x)
    obtain a r' where x: "x = (a, r')" by (cases x)
    then have "ok_reader r'" using Ok assms(1) r unfolding safe_reader_def by blast
    then show ?thesis using Ok x assms(2) [of a] unfolding safe_reader_def by simp
  qed (use assms(1) r in \<open>auto simp: safe_reader_def\<close>)
  then show ?thesis unfolding safe_reader_def by blast
qed

lemma safe_check [safe_intros]:
  assumes "returns m" "\<And>a. safe_reader (k a)"
  shows "safe_reader (\<lambda>r. obind m (\<lambda>a. k a r))"
  using assms by (cases m) (simp_all add: safe_reader_def)

lemma safe_if [safe_intros]:
  "safe_reader f \<Longrightarrow> safe_reader g \<Longrightarrow> safe_reader (\<lambda>r. if b then f r else g r)"
  by (cases b) simp_all

lemma safe_read_many [safe_intros]: "safe_reader get \<Longrightarrow> safe_reader (read_many get n)"
proof (induction n)
  case (Suc n)
  then show ?case unfolding read_many.simps by (intro safe_intros)
qed (simp add: safe_reader_def)

lemma returns_checks [safe_intros]:
  "returns (check_count n m f)" "returns (ensure_payload_size n m f)"
  by (auto simp: check_count_def ensure_payload_size_def intro!: returns_obind)

lemma safe_words [safe_intros]:
  "safe_reader rd_u32" "safe_reader rd_u64" "safe_reader (rd_count m f)" "safe_reader (rd_sized_bytes m f)"
proof -
  show u32: "safe_reader rd_u32" and "safe_reader rd_u64"
    unfolding rd_u32_def [abs_def] rd_u64_def [abs_def] by (intro safe_intros)+
  show "safe_reader (rd_count m f)" "safe_reader (rd_sized_bytes m f)"
    unfolding rd_count_def [abs_def] rd_sized_bytes_def [abs_def] by (intro safe_intros u32)+
qed

lemma safe_u8 [safe_intros]: "safe_reader rd_u8"
proof -
  have "returns (rd_u8 r)" if "ok_reader r" for r
    unfolding rd_u8_def
    by (rule returns_obind) (use safe_take that in \<open>auto simp: safe_reader_def rd_take_Ok\<close>)
  then show ?thesis by (auto simp: safe_reader_def rd_u8_Ok ok_reader_skip)
qed

lemma returns_finish: "ok_reader r \<Longrightarrow> returns (rd_finish r)"
  by (simp add: rd_finish_def ok_reader_def)

lemma safe_readerD:
  "safe_reader get \<Longrightarrow> ok_reader r \<Longrightarrow> returns (get r)"
  "safe_reader get \<Longrightarrow> ok_reader r \<Longrightarrow> get r = Ok (a, r') \<Longrightarrow> ok_reader r'"
  by (auto simp: safe_reader_def)

section \<open>The contract of an encoder and its decoder\<close>

locale wire_codec =
  fixes writable :: "'a \<Rightarrow> bool" and readable :: "'a \<Rightarrow> bool" and raw :: "'a \<Rightarrow> byte list"
    and put :: "'a \<Rightarrow> writer \<Rightarrow> (wire_error, writer) outcome"
    and get :: "reader \<Rightarrow> (wire_error, 'a \<times> reader) outcome"
  assumes readable_writable: "readable a \<Longrightarrow> writable a"
    and put_iff: "put a w = Ok w' \<longleftrightarrow> writable a \<and> fits w (raw a) \<and> w' = emit (raw a) w"
    and get_iff: "get r = Ok (a, r') \<longleftrightarrow> readable a \<and> starts r (raw a) \<and> r' = skip (length (raw a)) r"
    and get_safe: "safe_reader get"
begin

lemma put_all_iff:
  "fits w [] \<Longrightarrow> ofold (\<lambda>w a. put a w) w xs = Ok w' \<longleftrightarrow>
     list_all writable xs \<and> fits w (concat (map raw xs)) \<and> w' = emit (concat (map raw xs)) w"
proof (induction xs arbitrary: w)
  case Nil
  then show ?case by (auto simp: emit_def)
next
  case (Cons x xs)
  have "ofold (\<lambda>w a. put a w) w (x # xs) = Ok w' \<longleftrightarrow> writable x \<and> fits w (raw x) \<and>
      ofold (\<lambda>w a. put a w) (emit (raw x) w) xs = Ok w'"
    by (auto simp: put_iff)
  also have "\<dots> \<longleftrightarrow> writable x \<and> fits w (raw x) \<and> list_all writable xs \<and>
      fits (emit (raw x) w) (concat (map raw xs)) \<and> w' = emit (concat (map raw xs)) (emit (raw x) w)"
    using Cons.IH fits_end by blast
  finally show ?case by (auto simp: fits_append)
qed

lemma get_all_iff:
  "starts r [] \<Longrightarrow> read_many get n r = Ok (xs, r') \<longleftrightarrow> length xs = n \<and> list_all readable xs \<and>
     starts r (concat (map raw xs)) \<and> r' = skip (length (concat (map raw xs))) r"
proof (induction n arbitrary: r xs)
  case 0
  then show ?case by auto
next
  case (Suc n)
  have "read_many get (Suc n) r = Ok (xs, r') \<longleftrightarrow> (\<exists>y ys. xs = y # ys \<and> readable y \<and> starts r (raw y) \<and>
      read_many get n (skip (length (raw y)) r) = Ok (ys, r'))"
    by (auto simp: get_iff)
  also have "\<dots> \<longleftrightarrow> (\<exists>y ys. xs = y # ys \<and> readable y \<and> starts r (raw y) \<and> length ys = n \<and> list_all readable ys \<and>
      starts (skip (length (raw y)) r) (concat (map raw ys)) \<and>
      r' = skip (length (concat (map raw ys))) (skip (length (raw y)) r))"
    using Suc.IH starts_end by blast
  finally show ?case by (auto simp: starts_append length_Suc_conv)
qed

lemma decode_encode:
  assumes "readable a" "put a w = Ok w'" "length (wr_bytes w') < usize_limit"
  shows "get \<lparr>rd_bytes = wr_bytes w', rd_offset = length (wr_bytes w)\<rparr> =
    Ok (a, \<lparr>rd_bytes = wr_bytes w', rd_offset = length (wr_bytes w')\<rparr>)"
  using assms by (auto simp: put_iff get_iff starts_def skip_def)

lemma encode_decode:
  assumes "get r = Ok (a, r')" "fits w (raw a)"
  shows "put a w = Ok (emit (raw a) w)" "take (rd_offset r' - rd_offset r) (drop (rd_offset r) (rd_bytes r)) = raw a"
  using assms readable_writable by (auto simp: put_iff get_iff starts_def skip_def)

end

end
