(* ===== verification/CF_Codec.thy ===== *)
theory CF_Codec
  imports CF_Prelude
begin

text \<open>
  Uniquely readable encodings. An encoding is a prefix code on the well-formed values when the
  bytes of a value determine the value whatever follows them. The locale gives the same for
  sequences with a length known or written in front; the components interpret it on their
  encoders to show that the strings they hash identify what was hashed.
\<close>

section \<open>Fields\<close>

lemma fixed_field: "length a = length b \<Longrightarrow> a @ r = b @ s \<longleftrightarrow> a = b \<and> r = s"
  by (rule append_eq_append_conv) simp

lemma le_field:
  "to_le_bytes (a :: u64) @ r = to_le_bytes b @ s \<longleftrightarrow> a = b \<and> r = s"
  "to_le_bytes (c :: u32) @ r = to_le_bytes d @ s \<longleftrightarrow> c = d \<and> r = s"
  "to_le_bytes (e :: u16) @ r = to_le_bytes f @ s \<longleftrightarrow> e = f \<and> r = s"
  using to_le_bytes_inj [of a b] to_le_bytes_inj [of c d] to_le_bytes_inj [of e f]
  by (auto simp: fixed_field)

lemma le_field_end:
  "to_le_bytes (a :: u64) = to_le_bytes b \<longleftrightarrow> a = b" "to_le_bytes (c :: u32) = to_le_bytes d \<longleftrightarrow> c = d"
  using to_le_bytes_inj [of a b] to_le_bytes_inj [of c d] by auto

lemma count_field:
  assumes "m < 2 ^ 64" "n < 2 ^ 64"
  shows "to_le_bytes (word_of_nat m :: u64) @ r = to_le_bytes (word_of_nat n :: u64) @ s \<longleftrightarrow> m = n \<and> r = s"
proof -
  have "(word_of_nat m :: u64) = word_of_nat n \<longleftrightarrow> m = n"
  proof
    assume "(word_of_nat m :: u64) = word_of_nat n"
    then have "unat (word_of_nat m :: u64) = unat (word_of_nat n :: u64)" by simp
    then show "m = n" using assms by (simp add: unat_of_nat)
  qed simp
  then show ?thesis by (simp add: le_field)
qed

lemma counted_bytes_field:
  assumes "length a < 2 ^ 64" "length b < 2 ^ 64"
  shows "to_le_bytes (word_of_nat (length a) :: u64) @ a @ r = to_le_bytes (word_of_nat (length b) :: u64) @ b @ s
    \<longleftrightarrow> a = b \<and> r = s"
  unfolding count_field [OF assms] by (auto simp: fixed_field)

section \<open>Prefix codes\<close>

locale prefix_code =
  fixes wf :: "'a \<Rightarrow> bool" and enc :: "'a \<Rightarrow> byte list"
  assumes unique: "wf a \<Longrightarrow> wf b \<Longrightarrow> enc a @ r = enc b @ s \<Longrightarrow> a = b \<and> r = s"
begin

lemma inj: "wf a \<Longrightarrow> wf b \<Longrightarrow> enc a = enc b \<Longrightarrow> a = b"
  using unique [of a b "[]" "[]"] by simp

lemma seq:
  assumes "length xs = length ys" "list_all wf xs" "list_all wf ys"
    and "concat (map enc xs) @ r = concat (map enc ys) @ s"
  shows "xs = ys \<and> r = s"
  using assms
proof (induction xs ys rule: list_induct2)
  case (Cons x xs y ys)
  then have "x = y" "concat (map enc xs) @ r = concat (map enc ys) @ s"
    using unique [of x y "concat (map enc xs) @ r" "concat (map enc ys) @ s"] by auto
  with Cons show ?case by auto
qed simp

lemma counted:
  assumes "length xs < 2 ^ 64" "length ys < 2 ^ 64" "list_all wf xs" "list_all wf ys"
    and "to_le_bytes (word_of_nat (length xs) :: u64) @ concat (map enc xs) @ r =
      to_le_bytes (word_of_nat (length ys) :: u64) @ concat (map enc ys) @ s"
  shows "xs = ys \<and> r = s"
proof -
  have "length xs = length ys" "concat (map enc xs) @ r = concat (map enc ys) @ s"
    using assms(5) count_field [OF assms(1,2)] by blast+
  then show ?thesis by (rule seq [OF _ assms(3,4)])
qed

end

end
