(* ===== verification/CF_Pow.thy ===== *)
theory CF_Pow
  imports CF_V2_Oracle
begin

text \<open>
  The dispatch between the two proof-of-work generations:
  \<open>crates/cmfd-consensus/src/pow.rs\<close>. The input absorbed by a hasher is the returned byte
  string.
\<close>

section \<open>Data\<close>

definition POW_TYPE_V1_LEGACY :: u16 where "POW_TYPE_V1_LEGACY = 1"
definition POW_TYPE_V2_REFERENCE :: u16 where "POW_TYPE_V2_REFERENCE = 2"

datatype pow_parameters =
    PP_V1Legacy forge_profile
  | PP_V2Reference v2_descriptor

datatype block_proof =
    BP_V1Legacy forge_proof
  | BP_V2Reference v2_compact_proof

datatype pow_error =
    PE_V1 forge_error | PE_V2 v2_error | PE_WrongProofType | PE_ParameterMismatch | PE_WrongNetwork

datatype pow_verifier =
    PV_V1Legacy forge_verifier
  | PV_V2Reference v2_reference

section \<open>Operations\<close>

definition pp_validate :: "crypto \<Rightarrow> pow_parameters \<Rightarrow> hash32 \<Rightarrow> (pow_error, unit) outcome" where
  "pp_validate C params network_id =
     (case params of
        PP_V1Legacy profile \<Rightarrow> obind (map_err PE_V1 (forge_new C profile)) (\<lambda>_. Ok ())
      | PP_V2Reference d \<Rightarrow>
          if vd_network_id d \<noteq> network_id then Err PE_WrongNetwork
          else obind (map_err PE_V2 (validate_research C d)) (\<lambda>_. Ok ()))"

definition pp_absorb :: "crypto \<Rightarrow> pow_parameters \<Rightarrow> hash32 \<Rightarrow> (pow_error, byte list) outcome" where
  "pp_absorb C params network_id =
     (case params of
        PP_V1Legacy p \<Rightarrow>
          obind (map_err PE_V1 (forge_new C p)) (\<lambda>v.
          Ok (to_le_bytes POW_TYPE_V1_LEGACY @ to_le_bytes (fp_algorithm_version p) @
              to_le_bytes (fp_model_version p) @ to_le_bytes (fp_dimension p) @
              to_le_bytes (fp_batch p) @ to_le_bytes (fp_layers p) @ fp_model_seed p @ fv_model_root v))
      | PP_V2Reference d \<Rightarrow>
          if vd_network_id d \<noteq> network_id then Err PE_WrongNetwork
          else
            obind (map_err PE_V2 (validate_research C d)) (\<lambda>_.
            obind (map_err (\<lambda>e. PE_V2 (V2E_ModelBank e)) (manifest_digest C (vd_model d))) (\<lambda>digest.
            Ok (to_le_bytes POW_TYPE_V2_REFERENCE @ vd_network_id d @ to_le_bytes (vd_algorithm_version d) @
                to_le_bytes (vd_proof_version d) @ to_le_bytes (vd_banks d) @
                to_le_bytes (vd_layers_per_bank d) @ digest))))"

definition proof_type :: "block_proof \<Rightarrow> u16" where
  "proof_type p = (case p of BP_V1Legacy _ \<Rightarrow> POW_TYPE_V1_LEGACY | BP_V2Reference _ \<Rightarrow> POW_TYPE_V2_REFERENCE)"

definition bp_work_digest :: "block_proof \<Rightarrow> hash32" where
  "bp_work_digest p = (case p of BP_V1Legacy q \<Rightarrow> pr_work_digest q | BP_V2Reference q \<Rightarrow> vc_work_digest q)"

definition bp_absorb :: "block_proof \<Rightarrow> byte list" where
  "bp_absorb p = to_le_bytes (proof_type p) @
     (case p of
        BP_V1Legacy q \<Rightarrow>
          to_le_bytes (pr_algorithm_version q) @ to_le_bytes (pr_model_version q) @
          to_le_bytes (pr_nonce q) @ pr_model_root q @ pr_output_digest q @ pr_work_digest q
      | BP_V2Reference q \<Rightarrow>
          to_le_bytes (vc_algorithm_version q) @ to_le_bytes (vc_proof_version q) @
          to_le_bytes (vc_nonce q) @ vc_model_manifest_digest q @ vc_challenge_digest q @
          vc_final_activation_digest q @ vc_work_digest q)"

definition pv_v1_legacy :: "crypto \<Rightarrow> forge_profile \<Rightarrow> (pow_error, pow_verifier) outcome" where
  "pv_v1_legacy C profile = obind (map_err PE_V1 (forge_new C profile)) (\<lambda>v. Ok (PV_V1Legacy v))"

definition pv_v2_reference :: "v2_reference \<Rightarrow> pow_verifier" where
  "pv_v2_reference r = PV_V2Reference r"

definition pv_parameters :: "pow_verifier \<Rightarrow> pow_parameters" where
  "pv_parameters v =
     (case v of PV_V1Legacy f \<Rightarrow> PP_V1Legacy (fv_profile f) | PV_V2Reference r \<Rightarrow> PP_V2Reference (v2_desc r))"

definition pow_verify ::
  "crypto \<Rightarrow> pow_verifier \<Rightarrow> block_challenge \<Rightarrow> block_proof \<Rightarrow> (pow_error, unit) outcome" where
  "pow_verify C v block proof =
     (case (v, proof) of
        (PV_V1Legacy f, BP_V1Legacy p) \<Rightarrow> obind (map_err PE_V1 (forge_verify C f block p)) (\<lambda>_. Ok ())
      | (PV_V2Reference r, BP_V2Reference p) \<Rightarrow> obind (map_err PE_V2 (verify_compact C r block p)) (\<lambda>_. Ok ())
      | _ \<Rightarrow> Err PE_WrongProofType)"

definition pow_evaluate ::
  "crypto \<Rightarrow> pow_verifier \<Rightarrow> block_challenge \<Rightarrow> u64 \<Rightarrow> (pow_error, block_proof) outcome" where
  "pow_evaluate C v block nonce =
     (case v of
        PV_V1Legacy f \<Rightarrow> obind (map_err PE_V1 (forge_prove C f block nonce)) (\<lambda>p. Ok (BP_V1Legacy p))
      | PV_V2Reference r \<Rightarrow> obind (map_err PE_V2 (prove_compact C r block nonce)) (\<lambda>p. Ok (BP_V2Reference p)))"

definition pow_accelerator_model :: "pow_verifier \<Rightarrow> (pow_error, v2_accelerator_model) outcome" where
  "pow_accelerator_model v =
     (case v of PV_V2Reference r \<Rightarrow> accelerator_model r | PV_V1Legacy _ \<Rightarrow> Err PE_WrongProofType)"

definition pow_prepare_batch ::
  "crypto \<Rightarrow> pow_verifier \<Rightarrow> block_challenge \<Rightarrow> u64 \<Rightarrow> u32 \<Rightarrow> (pow_error, v2_accelerator_batch) outcome" where
  "pow_prepare_batch C v block start_nonce count =
     (case v of
        PV_V2Reference r \<Rightarrow> map_err PE_V2 (prepare_accelerator_batch C r block start_nonce count)
      | PV_V1Legacy _ \<Rightarrow> Err PE_WrongProofType)"

definition pow_verify_candidate ::
  "crypto \<Rightarrow> pow_verifier \<Rightarrow> block_challenge \<Rightarrow> v2_accelerator_batch \<Rightarrow> nat \<Rightarrow> hash32
     \<Rightarrow> (pow_error, block_proof) outcome" where
  "pow_verify_candidate C v block batch index claimed =
     (case v of
        PV_V2Reference r \<Rightarrow>
          obind (map_err PE_V2 (verify_accelerator_candidate C r block batch index claimed))
            (\<lambda>p. Ok (BP_V2Reference p))
      | PV_V1Legacy _ \<Rightarrow> Err PE_WrongProofType)"

definition pow_validate_batch ::
  "pow_verifier \<Rightarrow> block_challenge \<Rightarrow> v2_accelerator_batch \<Rightarrow> (pow_error, unit) outcome" where
  "pow_validate_batch v block batch =
     (case v of
        PV_V2Reference r \<Rightarrow> if matches_statement batch (v2_desc r) block then Ok () else Err PE_ParameterMismatch
      | PV_V1Legacy _ \<Rightarrow> Err PE_WrongProofType)"

definition pow_verify_evaluation ::
  "crypto \<Rightarrow> pow_verifier \<Rightarrow> block_challenge \<Rightarrow> block_proof \<Rightarrow> (pow_error, unit) outcome" where
  "pow_verify_evaluation C v block proof =
     (case (v, proof) of
        (PV_V1Legacy f, BP_V1Legacy p) \<Rightarrow> obind (map_err PE_V1 (verify_relation C f block p)) (\<lambda>_. Ok ())
      | (PV_V2Reference r, BP_V2Reference p) \<Rightarrow>
          obind (map_err PE_V2 (verify_compact_relation C r block p)) (\<lambda>_. Ok ())
      | _ \<Rightarrow> Err PE_WrongProofType)"

definition pow_mine ::
  "crypto \<Rightarrow> pow_verifier \<Rightarrow> block_challenge \<Rightarrow> u64 \<Rightarrow> u64 \<Rightarrow> (pow_error, block_proof) outcome" where
  "pow_mine C v block start_nonce attempts =
     (case v of
        PV_V1Legacy f \<Rightarrow>
          obind (map_err PE_V1 (forge_mine C f block start_nonce attempts)) (\<lambda>p. Ok (BP_V1Legacy p))
      | PV_V2Reference r \<Rightarrow>
          obind (map_err PE_V2 (mine_compact C r block start_nonce attempts)) (\<lambda>p. Ok (BP_V2Reference p)))"

section \<open>Lemmas\<close>

definition bp_nonce :: "block_proof \<Rightarrow> u64" where
  "bp_nonce p = (case p of BP_V1Legacy q \<Rightarrow> pr_nonce q | BP_V2Reference q \<Rightarrow> vc_nonce q)"

definition wf_pow_verifier :: "pow_verifier \<Rightarrow> bool" where
  "wf_pow_verifier v = (case v of PV_V1Legacy f \<Rightarrow> wf_forge_verifier f | PV_V2Reference r \<Rightarrow> wf_v2 r)"

lemma verify_relation_exact:
  "(\<exists>s. verify_relation C v block p = Ok s) \<longleftrightarrow>
     (forge_prove C v block (pr_nonce p) :: (forge_error, _) outcome) = Ok p"
  by (cases p) (auto simp: verify_relation_def forge_prove_def)

lemma verify_compact_relation_exact:
  "verify_compact_relation C r block p = Ok () \<longleftrightarrow> prove_compact C r block (vc_nonce p) = Ok p"
proof (cases "on_network r block")
  case True
  then show ?thesis
    by (cases p) (auto simp: verify_compact_relation_def prove_compact_def on_network_def)
next
  case False
  then show ?thesis
    by (auto simp: verify_compact_relation_def prove_compact_def on_network_def prove_reference_wrong_network)
qed

lemma pow_evaluate_nonce: "pow_evaluate C v block n = Ok p \<Longrightarrow> bp_nonce p = n"
  by (auto simp: pow_evaluate_def bp_nonce_def forge_prove_def prove_compact_def split: pow_verifier.splits)

lemma pow_verify_evaluation_exact:
  "pow_verify_evaluation C v block p = Ok () \<longleftrightarrow> pow_evaluate C v block (bp_nonce p) = Ok p"
proof (cases v)
  case (PV_V1Legacy f)
  then show ?thesis
    using verify_relation_exact [of C f block]
    by (cases p) (auto simp: pow_verify_evaluation_def pow_evaluate_def bp_nonce_def)
next
  case (PV_V2Reference r)
  then show ?thesis
    using verify_compact_relation_exact [of C r block]
    by (cases p) (auto simp: pow_verify_evaluation_def pow_evaluate_def bp_nonce_def)
qed

lemma pow_verify_split:
  "pow_verify C v block p = Ok () \<longleftrightarrow>
     pow_verify_evaluation C v block p = Ok () \<and> lex_le (bp_work_digest p) (bc_target block)"
  by (cases v; cases p)
    (auto simp: pow_verify_def pow_verify_evaluation_def bp_work_digest_def forge_verify_def
      verify_compact_def meets_target_def)

lemma pow_mined_verifies:
  assumes "crypto_ok C" "xof_fair C" "wf_pow_verifier v" "pow_mine C v block start attempts = Ok p"
  shows "pow_verify C v block p = Ok ()"
proof (cases v)
  case (PV_V1Legacy f)
  then obtain q where q: "forge_mine_from C f block start (unat attempts) = Ok q" "p = BP_V1Legacy q"
    using assms(4) by (auto simp: pow_mine_def forge_mine_def)
  have "\<exists>s. forge_verify C f block q = Ok s"
    using forge_v1.found_checks [of "(C, f)" block start "unat attempts" q] q(1) assms(1,3) PV_V1Legacy
    by (simp add: wf_pow_verifier_def)
  then show ?thesis using PV_V1Legacy q(2) by (auto simp: pow_verify_def)
next
  case (PV_V2Reference r)
  then obtain q where q: "mine_compact_from C r block start (unat attempts) = Ok q" "p = BP_V2Reference q"
    using assms(4) by (auto simp: pow_mine_def mine_compact_def)
  have "\<exists>s. verify_compact C r block q = Ok s"
    using forge_v2.found_checks [of "(C, r)" block start "unat attempts" q] q(1) assms(2,3) PV_V2Reference
    by (simp add: wf_pow_verifier_def)
  then show ?thesis using PV_V2Reference q(2) by (auto simp: pow_verify_def)
qed

section \<open>Properties\<close>

text \<open>Block verification under either generation accepts exactly the proof that recomputing
  the relation at the claimed nonce yields, provided its work digest is at most the target; the
  share check accepts the same proofs without the target; a proof of the other generation is
  always rejected; and whatever mining returns verifies.\<close>

theorem pow_verify_is_recomputation:
  assumes "crypto_ok C" "xof_fair C" "wf_pow_verifier v"
  shows "(pow_verify C v block p = Ok () \<longleftrightarrow>
      pow_evaluate C v block (bp_nonce p) = Ok p \<and> lex_le (bp_work_digest p) (bc_target block)) \<and>
    (pow_verify_evaluation C v block p = Ok () \<longleftrightarrow> pow_evaluate C v block (bp_nonce p) = Ok p) \<and>
    (pow_mine C v block start attempts = Ok p \<longrightarrow> pow_verify C v block p = Ok ()) \<and>
    ((case (v, p) of (PV_V1Legacy _, BP_V2Reference _) \<Rightarrow> True | (PV_V2Reference _, BP_V1Legacy _) \<Rightarrow> True
        | _ \<Rightarrow> False) \<longrightarrow> pow_verify C v block p = Err PE_WrongProofType)"
  using pow_verify_split pow_verify_evaluation_exact pow_mined_verifies [OF assms]
  by (auto simp: pow_verify_def split: pow_verifier.splits block_proof.splits)

theorem pow_verify_is_recomputation_witness:
  "\<exists>p. pow_evaluate demo_crypto (PV_V1Legacy demo_verifier) demo_challenge 5 = Ok p \<and>
     pow_verify demo_crypto (PV_V1Legacy demo_verifier) demo_challenge p = Ok () \<and>
     pow_verify demo_crypto (PV_V2Reference demo_v2_reference) demo_challenge p = Err PE_WrongProofType"
proof -
  have wf: "wf_pow_verifier (PV_V1Legacy demo_verifier)" "wf_pow_verifier (PV_V2Reference demo_v2_reference)"
    using forge_new_wf(1) [OF crypto_ok_demo demo_forge_new]
      wf_v2_from_explicit_model(1) [OF crypto_ok_demo demo_v2_wf demo_v2_reference_ok]
    by (simp_all add: wf_pow_verifier_def)
  obtain q where q: "forge_prove demo_crypto demo_verifier demo_challenge 5 = (Ok q :: (forge_error, _) outcome)"
    using forge_prove_total [OF crypto_ok_demo forge_new_wf(1) [OF crypto_ok_demo demo_forge_new]] by blast
  then have "pr_work_digest q = replicate 32 24" "pr_nonce q = 5"
    by (auto simp: forge_prove_def evaluate_def Let_def demo_crypto_simps WORK_DOMAIN_def)
  then have "lex_le (bp_work_digest (BP_V1Legacy q)) (bc_target demo_challenge)" "bp_nonce (BP_V1Legacy q) = 5"
    by (simp_all add: bp_work_digest_def bp_nonce_def demo_challenge_def lex_le_replicate)
  moreover have "pow_evaluate demo_crypto (PV_V1Legacy demo_verifier) demo_challenge 5 = Ok (BP_V1Legacy q)"
    using q by (simp add: pow_evaluate_def)
  ultimately show ?thesis
    using pow_verify_is_recomputation [OF crypto_ok_demo xof_fair_demo wf(1), of demo_challenge "BP_V1Legacy q" 0 0]
      pow_verify_is_recomputation [OF crypto_ok_demo xof_fair_demo wf(2), of demo_challenge "BP_V1Legacy q" 0 0]
    by auto
qed

end
