(* ===== verification/CF_Marketplace.thy ===== *)
theory CF_Marketplace
  imports CF_Prelude
begin

text \<open>
  Inference payment channels: \<open>crates/cmfd-marketplace/src/lib.rs\<close>.

  The terms of a channel, the cumulative payment states the customer signs, the receipts the
  provider signs, settlement and refund. The lemmas show that every state the code builds or
  accepts splits the deposit exactly, that the quoted price is the documented ceiling formula,
  and which transitions the state machine admits.
\<close>

section \<open>Data\<close>

definition CHANNEL_DOMAIN :: string where
  "CHANNEL_DOMAIN = ''CMFD/MARKETPLACE/CHANNEL/V1''"

definition STATE_DOMAIN :: string where
  "STATE_DOMAIN = ''CMFD/MARKETPLACE/PAYMENT-STATE/V1''"

definition RECEIPT_DOMAIN :: string where
  "RECEIPT_DOMAIN = ''CMFD/MARKETPLACE/INFERENCE-RECEIPT/V1''"

definition SETTLEMENT_DOMAIN :: string where
  "SETTLEMENT_DOMAIN = ''CMFD/MARKETPLACE/SETTLEMENT/V1''"

definition SETTLEMENT_WITNESS_DOMAIN :: string where
  "SETTLEMENT_WITNESS_DOMAIN = ''CMFD/MARKETPLACE/SETTLEMENT-WITNESS/V1''"

record channel_terms =
  ct_network_id :: hash32
  ct_job_id :: hash32
  ct_customer_key :: hash32
  ct_provider_key :: hash32
  ct_model_digest :: hash32
  ct_runtime_digest :: hash32
  ct_input_digest :: hash32
  ct_deposit :: u64
  ct_close_fee_burn :: u64
  ct_base_price :: u64
  ct_input_price_per_1000 :: u64
  ct_output_price_per_1000 :: u64
  ct_max_input_tokens :: u64
  ct_max_output_tokens :: u64
  ct_output_chunk_tokens :: u64
  ct_refund_height :: u64

record payment_state =
  ps_channel_id :: hash32
  ps_sequence :: u64
  ps_input_tokens :: u64
  ps_authorized_output_tokens :: u64
  ps_provider_payment :: u64
  ps_customer_refund :: u64
  ps_close_fee_burn :: u64
  ps_previous_receipt :: hash32

record signed_payment_state =
  sps_state :: payment_state
  sps_customer_signature :: "byte list"

record inference_receipt =
  ir_channel_id :: hash32
  ir_state_sequence :: u64
  ir_input_tokens :: u64
  ir_delivered_output_tokens :: u64
  ir_rolling_output_digest :: hash32
  ir_completed :: bool

record signed_inference_receipt =
  sir_receipt :: inference_receipt
  sir_provider_signature :: "byte list"

record settlement =
  se_state :: signed_payment_state
  se_provider_signature :: "byte list"

record refund =
  rf_channel_id :: hash32
  rf_available_height :: u64
  rf_customer_amount :: u64
  rf_fee_burn :: u64

datatype channel_error =
    CE_Terms | CE_AmountOverflow | CE_DepositExceeded | CE_ChannelId | CE_Sequence
  | CE_InputTokens | CE_OutputTokens | CE_Payment | CE_ReceiptLink | CE_ReceiptDelivery
  | CE_MalformedSignature | CE_InvalidSignature | CE_RefundLocked

section \<open>Encodings and digests\<close>

definition encode_terms :: "channel_terms \<Rightarrow> byte list" where
  "encode_terms t =
     ct_network_id t @ ct_job_id t @ ct_customer_key t @ ct_provider_key t @ ct_model_digest t @
     ct_runtime_digest t @ ct_input_digest t @
     concat (map to_le_bytes
       [ct_deposit t, ct_close_fee_burn t, ct_base_price t, ct_input_price_per_1000 t,
        ct_output_price_per_1000 t, ct_max_input_tokens t, ct_max_output_tokens t,
        ct_output_chunk_tokens t, ct_refund_height t])"

definition encode_state :: "payment_state \<Rightarrow> byte list" where
  "encode_state s =
     ps_channel_id s @
     concat (map to_le_bytes
       [ps_sequence s, ps_input_tokens s, ps_authorized_output_tokens s, ps_provider_payment s,
        ps_customer_refund s, ps_close_fee_burn s]) @
     ps_previous_receipt s"

definition encode_receipt :: "inference_receipt \<Rightarrow> byte list" where
  "encode_receipt r =
     ir_channel_id r @
     concat (map to_le_bytes
       [ir_state_sequence r, ir_input_tokens r, ir_delivered_output_tokens r]) @
     ir_rolling_output_digest r @ [if ir_completed r then 1 else 0]"

text \<open>A byte string preceded by its length as a \<open>u64\<close>.\<close>

definition len_prefixed :: "byte list \<Rightarrow> byte list" where
  "len_prefixed bs = to_le_bytes (word_of_nat (length bs) :: u64) @ bs"

definition state_digest :: "crypto \<Rightarrow> payment_state \<Rightarrow> hash32" where
  "state_digest C s = b3_derive C STATE_DOMAIN (encode_state s)"

definition receipt_digest :: "crypto \<Rightarrow> inference_receipt \<Rightarrow> hash32" where
  "receipt_digest C r = b3_derive C RECEIPT_DOMAIN (encode_receipt r)"

definition settlement_digest :: "crypto \<Rightarrow> signed_payment_state \<Rightarrow> hash32" where
  "settlement_digest C s =
     b3_derive C SETTLEMENT_DOMAIN
       (encode_state (sps_state s) @ len_prefixed (sps_customer_signature s))"

definition sir_digest :: "crypto \<Rightarrow> signed_inference_receipt \<Rightarrow> hash32" where
  "sir_digest C r =
     b3_derive C RECEIPT_DOMAIN
       (encode_receipt (sir_receipt r) @ len_prefixed (sir_provider_signature r))"

definition witness_digest :: "crypto \<Rightarrow> settlement \<Rightarrow> hash32" where
  "witness_digest C s =
     b3_derive C SETTLEMENT_WITNESS_DOMAIN
       (encode_state (sps_state (se_state s)) @
        len_prefixed (sps_customer_signature (se_state s)) @
        len_prefixed (se_provider_signature s))"

definition verify_signature ::
  "crypto \<Rightarrow> hash32 \<Rightarrow> hash32 \<Rightarrow> byte list \<Rightarrow> (channel_error, unit) outcome" where
  "verify_signature C key digest bytes =
     (if \<not> key_from_bytes C key then Err CE_MalformedSignature
      else if \<not> sig_from_bytes C bytes then Err CE_MalformedSignature
      else if \<not> schnorr_verify C key digest bytes then Err CE_InvalidSignature
      else Ok ())"

section \<open>Terms and states\<close>

definition ct_validate :: "crypto \<Rightarrow> channel_terms \<Rightarrow> (channel_error, unit) outcome" where
  "ct_validate C t =
     (if ct_deposit t = 0 \<or> ct_output_chunk_tokens t = 0 \<or> ct_max_input_tokens t = 0
         \<or> ct_max_output_tokens t = 0 \<or> ct_deposit t \<le> ct_close_fee_burn t
         \<or> ct_customer_key t = ct_provider_key t
      then Err CE_Terms
      else if \<not> key_from_bytes C (ct_customer_key t) then Err CE_Terms
      else if \<not> key_from_bytes C (ct_provider_key t) then Err CE_Terms
      else Ok ())"

definition ct_channel_id :: "crypto \<Rightarrow> channel_terms \<Rightarrow> (channel_error, hash32) outcome" where
  "ct_channel_id C t =
     obind (ct_validate C t) (\<lambda>_. Ok (b3_derive C CHANNEL_DOMAIN (encode_terms t)))"

definition rounded_token_charge :: "u64 \<Rightarrow> u64 \<Rightarrow> (channel_error, u64) outcome" where
  "rounded_token_charge tokens price_per_1000 =
     obind (ok_or CE_AmountOverflow
        (Option.bind (checked_mul (ucast tokens :: u128) (ucast price_per_1000))
           (\<lambda>value. checked_add value 999)))
       (\<lambda>numerator.
         let q = numerator div 1000 in
         if unat q < 2 ^ 64 then Ok (ucast q) else Err CE_AmountOverflow)"

definition quoted_payment :: "channel_terms \<Rightarrow> u64 \<Rightarrow> u64 \<Rightarrow> (channel_error, u64) outcome" where
  "quoted_payment t input_tokens output_tokens =
     (if ct_max_input_tokens t < input_tokens then Err CE_InputTokens
      else if ct_max_output_tokens t < output_tokens then Err CE_OutputTokens
      else
        obind (rounded_token_charge input_tokens (ct_input_price_per_1000 t)) (\<lambda>inp.
        obind (rounded_token_charge output_tokens (ct_output_price_per_1000 t)) (\<lambda>out.
        ok_or CE_AmountOverflow
          (Option.bind (checked_add (ct_base_price t) inp) (\<lambda>value. checked_add value out)))))"

definition state_for ::
  "crypto \<Rightarrow> channel_terms \<Rightarrow> u64 \<Rightarrow> u64 \<Rightarrow> u64 \<Rightarrow> hash32 \<Rightarrow> (channel_error, payment_state) outcome" where
  "state_for C t sequence input_tokens output_tokens previous_receipt =
     obind (quoted_payment t input_tokens output_tokens) (\<lambda>provider_payment.
     obind (ok_or CE_AmountOverflow (checked_add provider_payment (ct_close_fee_burn t))) (\<lambda>used.
     obind (ok_or CE_DepositExceeded (checked_sub (ct_deposit t) used)) (\<lambda>customer_refund.
     obind (ct_channel_id C t) (\<lambda>cid.
     Ok \<lparr>ps_channel_id = cid, ps_sequence = sequence, ps_input_tokens = input_tokens,
         ps_authorized_output_tokens = output_tokens, ps_provider_payment = provider_payment,
         ps_customer_refund = customer_refund, ps_close_fee_burn = ct_close_fee_burn t,
         ps_previous_receipt = previous_receipt\<rparr>))))"

definition initial_state ::
  "crypto \<Rightarrow> channel_terms \<Rightarrow> u64 \<Rightarrow> u64 \<Rightarrow> (channel_error, payment_state) outcome" where
  "initial_state C t input_tokens authorized_output_tokens =
     (if authorized_output_tokens = 0 \<or> ct_output_chunk_tokens t < authorized_output_tokens
      then Err CE_OutputTokens
      else state_for C t 0 input_tokens authorized_output_tokens zero32)"

definition verify_receipt ::
  "crypto \<Rightarrow> channel_terms \<Rightarrow> signed_payment_state \<Rightarrow> signed_inference_receipt
     \<Rightarrow> (channel_error, unit) outcome" where
  "verify_receipt C t state sst =
     obind (ct_channel_id C t) (\<lambda>cid.
       if ir_channel_id (sir_receipt sst) \<noteq> cid
          \<or> ir_state_sequence (sir_receipt sst) \<noteq> ps_sequence (sps_state state)
       then Err CE_ReceiptLink
       else if ir_input_tokens (sir_receipt sst) \<noteq> ps_input_tokens (sps_state state)
          \<or> ps_authorized_output_tokens (sps_state state)
              < ir_delivered_output_tokens (sir_receipt sst)
       then Err CE_ReceiptDelivery
       else verify_signature C (ct_provider_key t) (receipt_digest C (sir_receipt sst))
              (sir_provider_signature sst))"

text \<open>The part of \<open>verify_state\<close> that depends on the previous state.\<close>

definition verify_link ::
  "crypto \<Rightarrow> channel_terms \<Rightarrow> signed_payment_state option \<Rightarrow> payment_state
     \<Rightarrow> signed_inference_receipt option \<Rightarrow> (channel_error, unit) outcome" where
  "verify_link C t previous state receipt =
     (case previous of
        None \<Rightarrow>
          if ps_sequence state \<noteq> 0 \<or> ps_previous_receipt state \<noteq> zero32 then Err CE_Sequence
          else if ps_authorized_output_tokens state = 0
             \<or> ct_output_chunk_tokens t < ps_authorized_output_tokens state
          then Err CE_OutputTokens
          else Ok ()
      | Some prior \<Rightarrow>
          if ps_sequence state \<noteq> ps_sequence (sps_state prior) + 1 then Err CE_Sequence
          else if ps_input_tokens state \<noteq> ps_input_tokens (sps_state prior) then Err CE_InputTokens
          else if ps_authorized_output_tokens state < ps_authorized_output_tokens (sps_state prior)
             \<or> ct_output_chunk_tokens t
                 < ps_authorized_output_tokens state - ps_authorized_output_tokens (sps_state prior)
          then Err CE_OutputTokens
          else
            obind (ok_or CE_ReceiptLink receipt) (\<lambda>r.
            obind (verify_receipt C t prior r) (\<lambda>_.
              if ps_previous_receipt state \<noteq> sir_digest C r then Err CE_ReceiptLink else Ok ())))"

text \<open>The payment check and the customer's signature, shared with \<open>verify_close_state\<close>.\<close>

definition verify_payment ::
  "crypto \<Rightarrow> channel_terms \<Rightarrow> signed_payment_state \<Rightarrow> (channel_error, unit) outcome" where
  "verify_payment C t sst =
     (let s = sps_state sst in
      obind (state_for C t (ps_sequence s) (ps_input_tokens s) (ps_authorized_output_tokens s)
               (ps_previous_receipt s)) (\<lambda>expected.
        if s \<noteq> expected then Err CE_Payment
        else verify_signature C (ct_customer_key t) (state_digest C s)
               (sps_customer_signature sst)))"

definition verify_state ::
  "crypto \<Rightarrow> channel_terms \<Rightarrow> signed_payment_state option \<Rightarrow> signed_payment_state
     \<Rightarrow> signed_inference_receipt option \<Rightarrow> (channel_error, unit) outcome" where
  "verify_state C t previous sst receipt =
     obind (ct_channel_id C t) (\<lambda>cid.
       if ps_channel_id (sps_state sst) \<noteq> cid then Err CE_ChannelId
       else
         obind (verify_link C t previous (sps_state sst) receipt) (\<lambda>_.
         verify_payment C t sst))"

definition next_state ::
  "crypto \<Rightarrow> channel_terms \<Rightarrow> signed_payment_state \<Rightarrow> signed_inference_receipt \<Rightarrow> u64
     \<Rightarrow> (channel_error, payment_state) outcome" where
  "next_state C t previous receipt authorized_output_tokens =
     obind (verify_state C t None previous None) (\<lambda>_.
     obind (verify_receipt C t previous receipt) (\<lambda>_.
       if authorized_output_tokens < ps_authorized_output_tokens (sps_state previous)
          \<or> ct_output_chunk_tokens t
              < authorized_output_tokens - ps_authorized_output_tokens (sps_state previous)
       then Err CE_OutputTokens
       else state_for C t (ps_sequence (sps_state previous) + 1)
              (ps_input_tokens (sps_state previous)) authorized_output_tokens
              (sir_digest C receipt)))"

definition ct_refund :: "crypto \<Rightarrow> channel_terms \<Rightarrow> u64 \<Rightarrow> (channel_error, refund) outcome" where
  "ct_refund C t current_height =
     (if current_height < ct_refund_height t then Err CE_RefundLocked
      else
        obind (ct_channel_id C t) (\<lambda>cid.
        Ok \<lparr>rf_channel_id = cid, rf_available_height = ct_refund_height t,
            rf_customer_amount = ct_deposit t - ct_close_fee_burn t,
            rf_fee_burn = ct_close_fee_burn t\<rparr>))"

section \<open>Signing and settlement\<close>

definition sign_state :: "crypto \<Rightarrow> payment_state \<Rightarrow> byte list \<Rightarrow> signed_payment_state" where
  "sign_state C state customer =
     \<lparr>sps_state = state, sps_customer_signature = schnorr_sign C customer (state_digest C state)\<rparr>"

definition sign_receipt :: "crypto \<Rightarrow> inference_receipt \<Rightarrow> byte list \<Rightarrow> signed_inference_receipt" where
  "sign_receipt C receipt provider =
     \<lparr>sir_receipt = receipt,
      sir_provider_signature = schnorr_sign C provider (receipt_digest C receipt)\<rparr>"

definition settlement_close :: "crypto \<Rightarrow> signed_payment_state \<Rightarrow> byte list \<Rightarrow> settlement" where
  "settlement_close C state provider =
     \<lparr>se_state = state,
      se_provider_signature = schnorr_sign C provider (settlement_digest C state)\<rparr>"

definition verify_close_state ::
  "crypto \<Rightarrow> channel_terms \<Rightarrow> signed_payment_state \<Rightarrow> (channel_error, unit) outcome" where
  "verify_close_state C t sst =
     obind (ct_channel_id C t) (\<lambda>cid.
       if ps_channel_id (sps_state sst) \<noteq> cid then Err CE_ChannelId
       else verify_payment C t sst)"

definition settlement_verify ::
  "crypto \<Rightarrow> settlement \<Rightarrow> channel_terms \<Rightarrow> (channel_error, unit) outcome" where
  "settlement_verify C s t =
     obind
       (or_else (verify_state C t None (se_state s) None) (\<lambda>error.
          if ps_sequence (sps_state (se_state s)) = 0 then Err error
          else verify_close_state C t (se_state s)))
       (\<lambda>_. verify_signature C (ct_provider_key t) (settlement_digest C (se_state s))
              (se_provider_signature s))"

section \<open>The price\<close>

text \<open>The documented price: a base plus two charges rounded up to the next unit.\<close>

definition token_charge :: "nat \<Rightarrow> nat \<Rightarrow> nat" where
  "token_charge tokens price = (tokens * price + 999) div 1000"

definition price_of :: "channel_terms \<Rightarrow> u64 \<Rightarrow> u64 \<Rightarrow> nat" where
  "price_of t inp out =
     unat (ct_base_price t) + token_charge (unat inp) (unat (ct_input_price_per_1000 t)) +
     token_charge (unat out) (unat (ct_output_price_per_1000 t))"

lemma ceiling_div_1000: "x \<le> 1000 * ((x + 999) div 1000)" "1000 * ((x + 999) div 1000) < x + (1000 :: nat)"
  using mult_div_mod_eq [of 1000 "x + 999"] mod_less_divisor [of 1000 "x + 999"] by linarith+

lemma token_charge_ceiling:
  "n * p \<le> 1000 * token_charge n p" "1000 * token_charge n p < n * p + 1000"
  unfolding token_charge_def by (rule ceiling_div_1000)+

lemma token_charge_mono: "n \<le> m \<Longrightarrow> token_charge n p \<le> token_charge m p"
  unfolding token_charge_def by (intro div_le_mono add_right_mono mult_le_mono1)

lemma rounded_token_charge_exact:
  assumes "rounded_token_charge tokens price = Ok c"
  shows "unat c = token_charge (unat tokens) (unat price)"
proof -
  obtain v n where v: "checked_mul (ucast tokens :: u128) (ucast price) = Some v"
      "checked_add v 999 = Some n" "unat (n div 1000) < 2 ^ 64" "c = ucast (n div 1000)"
    using assms
    by (auto simp: rounded_token_charge_def Let_def ok_or_def
        split: option.splits if_splits bind_splits)
  have "unat n = unat tokens * unat price + 999"
    using checked_add_unat [OF v(2)] checked_mul_unat [OF v(1)] by (simp add: unat_ucast_up)
  moreover have "unat c = unat (n div 1000)"
    using v(3,4) by (simp add: unsigned_ucast_eq take_bit_nat_eq_self)
  ultimately show ?thesis by (simp add: unat_div token_charge_def)
qed

lemma quoted_payment_exact:
  assumes "quoted_payment t inp out = Ok v"
  shows "unat v = price_of t inp out" "inp \<le> ct_max_input_tokens t" "out \<le> ct_max_output_tokens t"
proof -
  obtain a b w where "rounded_token_charge inp (ct_input_price_per_1000 t) = Ok a"
      "rounded_token_charge out (ct_output_price_per_1000 t) = Ok b"
      "checked_add (ct_base_price t) a = Some w" "checked_add w b = Some v"
    using assms by (auto simp: quoted_payment_def split: bind_splits)
  then show "unat v = price_of t inp out"
    by (simp add: price_of_def rounded_token_charge_exact checked_add_unat)
  show "inp \<le> ct_max_input_tokens t" "out \<le> ct_max_output_tokens t"
    using assms by (auto simp: quoted_payment_def)
qed

section \<open>What an accepted state means\<close>

text \<open>A payment state splits the deposit of its channel exactly at the quoted price.\<close>

definition exact_split :: "channel_terms \<Rightarrow> payment_state \<Rightarrow> bool" where
  "exact_split t s \<longleftrightarrow>
     unat (ps_provider_payment s) + unat (ps_customer_refund s) + unat (ps_close_fee_burn s)
       = unat (ct_deposit t) \<and>
     unat (ps_provider_payment s) = price_of t (ps_input_tokens s) (ps_authorized_output_tokens s) \<and>
     ps_close_fee_burn s = ct_close_fee_burn t"

lemma state_for_OkD:
  assumes "state_for C t n inp out r = Ok s"
  shows "exact_split t s" "ps_sequence s = n" "ps_input_tokens s = inp"
    "ps_authorized_output_tokens s = out" "ps_previous_receipt s = r"
    "ct_channel_id C t = Ok (ps_channel_id s)" "out \<le> ct_max_output_tokens t"
proof -
  obtain p u c i where p: "quoted_payment t inp out = Ok p"
      "checked_add p (ct_close_fee_burn t) = Some u" "checked_sub (ct_deposit t) u = Some c"
      "ct_channel_id C t = Ok i"
      "s = \<lparr>ps_channel_id = i, ps_sequence = n, ps_input_tokens = inp,
         ps_authorized_output_tokens = out, ps_provider_payment = p, ps_customer_refund = c,
         ps_close_fee_burn = ct_close_fee_burn t, ps_previous_receipt = r\<rparr>"
    using assms by (auto simp: state_for_def)
  then show "exact_split t s"
    using checked_add_unat [OF p(2)] checked_sub_unat [OF p(3)] quoted_payment_exact [OF p(1)]
    by (simp add: exact_split_def)
  show "ps_sequence s = n" "ps_input_tokens s = inp" "ps_authorized_output_tokens s = out"
    "ps_previous_receipt s = r" "ct_channel_id C t = Ok (ps_channel_id s)"
    "out \<le> ct_max_output_tokens t"
    using p quoted_payment_exact [OF p(1)] by simp_all
qed

lemma verify_signature_Ok:
  "verify_signature C k d s = Ok () \<longleftrightarrow> key_from_bytes C k \<and> sig_from_bytes C s \<and> schnorr_verify C k d s"
  by (auto simp: verify_signature_def)

lemma verify_payment_OkD:
  assumes "verify_payment C t sst = Ok ()"
  shows "exact_split t (sps_state sst)"
    "schnorr_verify C (ct_customer_key t) (state_digest C (sps_state sst))
       (sps_customer_signature sst)"
    "ct_channel_id C t = Ok (ps_channel_id (sps_state sst))"
  using assms state_for_OkD
  by (auto simp: verify_payment_def Let_def verify_signature_Ok)

lemma verify_state_OkD:
  assumes "verify_state C t previous sst receipt = Ok ()"
  shows "verify_link C t previous (sps_state sst) receipt = Ok ()"
    "verify_payment C t sst = Ok ()"
  using assms by (auto simp: verify_state_def)

lemma verify_state_initial:
  assumes "verify_state C t None sst receipt = Ok ()"
  shows "ps_sequence (sps_state sst) = 0"
  using verify_state_OkD(1) [OF assms] by (simp add: verify_link_def)

lemma settlement_verify_OkD:
  assumes "settlement_verify C s t = Ok ()"
  shows "verify_payment C t (se_state s) = Ok ()"
    "schnorr_verify C (ct_provider_key t) (settlement_digest C (se_state s))
       (se_provider_signature s)"
  using assms verify_state_OkD(2)
  by (auto simp: settlement_verify_def or_else_eq_Ok verify_close_state_def verify_signature_Ok)

text \<open>What valid terms guarantee.\<close>

lemma ct_validate_Ok:
  "ct_validate C t = Ok () \<Longrightarrow> ct_close_fee_burn t < ct_deposit t"
  by (auto simp: ct_validate_def)

lemma ct_channel_id_Ok:
  "ct_channel_id C t = Ok cid \<longleftrightarrow>
     ct_validate C t = Ok () \<and> cid = b3_derive C CHANNEL_DOMAIN (encode_terms t)"
  by (auto simp: ct_channel_id_def)

lemma ct_refund_OkD:
  assumes "ct_refund C t h = Ok r"
  shows "ct_refund_height t \<le> h" "rf_fee_burn r = ct_close_fee_burn t"
    "unat (rf_customer_amount r) + unat (rf_fee_burn r) = unat (ct_deposit t)"
proof -
  obtain cid where "ct_channel_id C t = Ok cid" and h: "ct_refund_height t \<le> h"
    and r: "rf_customer_amount r = ct_deposit t - ct_close_fee_burn t"
      "rf_fee_burn r = ct_close_fee_burn t"
    using assms by (auto simp: ct_refund_def)
  then have "ct_close_fee_burn t \<le> ct_deposit t"
    using ct_validate_Ok by (auto simp: ct_channel_id_Ok dest!: ct_validate_Ok)
  then show "unat (rf_customer_amount r) + unat (rf_fee_burn r) = unat (ct_deposit t)"
    by (simp add: r unat_sub_no_underflow word_le_nat_alt)
  show "ct_refund_height t \<le> h" "rf_fee_burn r = ct_close_fee_burn t" using h r by simp_all
qed

section \<open>Completeness\<close>

lemma state_for_verifies:
  assumes "state_for C t n inp out r = Ok s" "signer_ok C sk" "ct_customer_key t = verifying_key C sk"
  shows "verify_payment C t (sign_state C s sk) = Ok ()"
  using assms state_for_OkD [OF assms(1)]
  by (simp add: verify_payment_def Let_def sign_state_def verify_signature_def signer_ok_def)

lemma initial_state_verifies:
  assumes "initial_state C t inp out = Ok s" "signer_ok C sk" "ct_customer_key t = verifying_key C sk"
  shows "verify_state C t None (sign_state C s sk) None = Ok ()"
proof -
  have s: "state_for C t 0 inp out zero32 = Ok s"
    and out: "out \<noteq> 0" "\<not> ct_output_chunk_tokens t < out"
    using assms(1) by (auto simp: initial_state_def)
  note d = state_for_OkD [OF s]
  have "verify_link C t None s None = Ok ()"
    using d out by (simp add: verify_link_def)
  with d(6) state_for_verifies [OF s assms(2,3)] show ?thesis
    by (simp add: verify_state_def sign_state_def)
qed

text \<open>Terms and a state used by the examples.\<close>

definition demo_terms :: channel_terms where
  "demo_terms = \<lparr>ct_network_id = replicate 32 1, ct_job_id = replicate 32 2,
     ct_customer_key = replicate 32 7, ct_provider_key = replicate 32 8,
     ct_model_digest = replicate 32 3, ct_runtime_digest = replicate 32 4,
     ct_input_digest = replicate 32 5, ct_deposit = 1000000, ct_close_fee_burn = 1000,
     ct_base_price = 100, ct_input_price_per_1000 = 2000, ct_output_price_per_1000 = 4000,
     ct_max_input_tokens = 8192, ct_max_output_tokens = 1024, ct_output_chunk_tokens = 32,
     ct_refund_height = 500\<rparr>"

definition demo_state :: "u64 \<Rightarrow> payment_state" where
  "demo_state out = \<lparr>ps_channel_id = b3_derive demo_crypto CHANNEL_DOMAIN (encode_terms demo_terms),
     ps_sequence = 0, ps_input_tokens = 100, ps_authorized_output_tokens = out,
     ps_provider_payment = 300 + 4 * out, ps_customer_refund = 998700 - 4 * out,
     ps_close_fee_burn = 1000, ps_previous_receipt = zero32\<rparr>"

definition demo_receipt :: inference_receipt where
  "demo_receipt = \<lparr>ir_channel_id = b3_derive demo_crypto CHANNEL_DOMAIN (encode_terms demo_terms),
     ir_state_sequence = 0, ir_input_tokens = 100, ir_delivered_output_tokens = 32,
     ir_rolling_output_digest = replicate 32 9, ir_completed = False\<rparr>"

abbreviation demo_customer :: "byte list" where "demo_customer \<equiv> replicate 32 7"
abbreviation demo_provider :: "byte list" where "demo_provider \<equiv> replicate 32 8"

lemmas channel_eval = demo_crypto_def demo_terms_def demo_state_def demo_receipt_def sign_state_def
  sign_receipt_def settlement_close_def initial_state_def state_for_def quoted_payment_def
  rounded_token_charge_def checked_add_def checked_mul_def checked_sub_def ct_channel_id_def
  ct_validate_def verify_state_def verify_link_def verify_payment_def verify_receipt_def
  verify_signature_def settlement_verify_def next_state_def sir_digest_def Let_def

lemma demo_initial: "initial_state demo_crypto demo_terms 100 32 = Ok (demo_state 32)"
  by (simp add: channel_eval)

lemma demo_verifies:
  "verify_state demo_crypto demo_terms None (sign_state demo_crypto (demo_state 16) demo_customer) None
     = Ok ()"
  "verify_state demo_crypto demo_terms None (sign_state demo_crypto (demo_state 32) demo_customer) None
     = Ok ()"
  by (simp_all add: channel_eval)

section \<open>Properties\<close>

text \<open>Every payment state that \<open>verify_state\<close> accepts splits the channel deposit exactly
  into provider payment, customer refund and burned close fee, charges the documented price
  (base plus both token charges rounded up), carries the customer's signature and names the
  channel derived from the terms.\<close>

theorem accepted_state_splits_deposit:
  assumes "verify_state C t previous sst receipt = Ok ()"
  shows "unat (ps_provider_payment (sps_state sst)) + unat (ps_customer_refund (sps_state sst))
      + unat (ps_close_fee_burn (sps_state sst)) = unat (ct_deposit t)
    \<and> unat (ps_provider_payment (sps_state sst)) =
        price_of t (ps_input_tokens (sps_state sst)) (ps_authorized_output_tokens (sps_state sst))
    \<and> ct_channel_id C t = Ok (ps_channel_id (sps_state sst))
    \<and> schnorr_verify C (ct_customer_key t) (state_digest C (sps_state sst))
        (sps_customer_signature sst)"
  using verify_payment_OkD [OF verify_state_OkD(2) [OF assms]] unfolding exact_split_def by blast

theorem accepted_state_splits_deposit_witness:
  "verify_state demo_crypto demo_terms None
     (sign_state demo_crypto (demo_state 32) demo_customer) None = Ok () \<and>
   unat (ps_provider_payment (demo_state 32)) = price_of demo_terms 100 32"
  using demo_verifies(2) accepted_state_splits_deposit [OF demo_verifies(2)]
  by (simp add: sign_state_def demo_state_def)

text \<open>C36. A settlement is accepted only when both parties signed it and it pays exactly the
  quoted price: whatever the sequence number, the amounts add up to the deposit, the customer
  signed the state and the provider signed the close.\<close>

theorem settlement_is_exact_and_dual_signed:
  assumes "settlement_verify C s t = Ok ()"
  shows "exact_split t (sps_state (se_state s))
    \<and> schnorr_verify C (ct_customer_key t) (state_digest C (sps_state (se_state s)))
        (sps_customer_signature (se_state s))
    \<and> schnorr_verify C (ct_provider_key t) (settlement_digest C (se_state s))
        (se_provider_signature s)"
  using settlement_verify_OkD [OF assms] verify_payment_OkD by blast

theorem settlement_is_exact_and_dual_signed_witness:
  "settlement_verify demo_crypto (settlement_close demo_crypto
       (sign_state demo_crypto (demo_state 32) demo_customer) demo_provider) demo_terms = Ok () \<and>
   exact_split demo_terms (demo_state 32)"
proof -
  have v: "settlement_verify demo_crypto (settlement_close demo_crypto
       (sign_state demo_crypto (demo_state 32) demo_customer) demo_provider) demo_terms = Ok ()"
    by (simp add: channel_eval)
  from settlement_is_exact_and_dual_signed [OF v] v show ?thesis
    by (simp add: settlement_close_def sign_state_def)
qed

text \<open>C37. \<open>next_state\<close> validates its predecessor as an initial state, so it only ever produces
  the state with sequence number one: from any state with a non-zero sequence number it fails,
  although the channel protocol continues chunk after chunk.\<close>

theorem next_state_only_follows_initial:
  assumes "next_state C t previous receipt out = Ok s"
  shows "ps_sequence (sps_state previous) = 0 \<and> ps_sequence s = 1"
proof -
  have "verify_state C t None previous None = Ok ()"
    and s: "state_for C t (ps_sequence (sps_state previous) + 1)
      (ps_input_tokens (sps_state previous)) out (sir_digest C receipt) = Ok s"
    using assms by (auto simp: next_state_def)
  then show ?thesis using verify_state_initial state_for_OkD(2) [OF s] by fastforce
qed

theorem next_state_only_follows_initial_witness:
  "\<exists>s. next_state demo_crypto demo_terms (sign_state demo_crypto (demo_state 32) demo_customer)
      (sign_receipt demo_crypto demo_receipt demo_provider) 64 = Ok s \<and> ps_sequence s = 1"
proof -
  have n: "next_state demo_crypto demo_terms (sign_state demo_crypto (demo_state 32) demo_customer)
      (sign_receipt demo_crypto demo_receipt demo_provider) 64 =
      Ok ((demo_state 64)\<lparr>ps_sequence := 1,
        ps_previous_receipt := sir_digest demo_crypto
          (sign_receipt demo_crypto demo_receipt demo_provider)\<rparr>)"
    by (simp add: channel_eval)
  from next_state_only_follows_initial [OF n] n show ?thesis by auto
qed

text \<open>Payment states are cumulative: of two accepted states of a channel for the same
  input, the one authorizing fewer output tokens pays the provider no more and returns the
  customer no less.\<close>

theorem older_state_pays_less:
  assumes "verify_payment C t a = Ok ()" "verify_payment C t b = Ok ()"
    and "ps_input_tokens (sps_state a) = ps_input_tokens (sps_state b)"
    and "ps_authorized_output_tokens (sps_state a) \<le> ps_authorized_output_tokens (sps_state b)"
  shows "ps_provider_payment (sps_state a) \<le> ps_provider_payment (sps_state b) \<and>
    ps_customer_refund (sps_state b) \<le> ps_customer_refund (sps_state a)"
proof -
  note a = verify_payment_OkD(1) [OF assms(1)] and b = verify_payment_OkD(1) [OF assms(2)]
  have "price_of t (ps_input_tokens (sps_state a)) (ps_authorized_output_tokens (sps_state a))
      \<le> price_of t (ps_input_tokens (sps_state b)) (ps_authorized_output_tokens (sps_state b))"
    using assms(3,4) by (simp add: price_of_def token_charge_mono word_le_nat_alt)
  moreover have "unat (ps_close_fee_burn (sps_state a)) = unat (ps_close_fee_burn (sps_state b))"
    using a b by (simp add: exact_split_def)
  ultimately show ?thesis
    using a b unfolding exact_split_def word_le_nat_alt by (intro conjI; linarith)
qed

theorem older_state_pays_less_witness:
  "ps_provider_payment (demo_state 16) \<le> ps_provider_payment (demo_state 32) \<and>
   ps_customer_refund (demo_state 32) \<le> ps_customer_refund (demo_state 16)"
proof -
  note v = demo_verifies [THEN verify_state_OkD(2)]
  from older_state_pays_less [OF v] show ?thesis
    by (simp add: sign_state_def demo_state_def)
qed

text \<open>The honest path completes: an initial state built from the terms, signed with the
  customer's key and closed with the provider's key, is accepted by settlement.\<close>

theorem honest_channel_settles:
  assumes "initial_state C t inp out = Ok s" "signer_ok C customer" "signer_ok C provider"
    and "ct_customer_key t = verifying_key C customer"
    and "ct_provider_key t = verifying_key C provider"
  shows "settlement_verify C (settlement_close C (sign_state C s customer) provider) t = Ok ()"
  using initial_state_verifies [OF assms(1,2,4)] assms(3,5)
  by (simp add: settlement_verify_def settlement_close_def verify_signature_def signer_ok_def)

theorem honest_channel_settles_witness:
  "settlement_verify demo_crypto (settlement_close demo_crypto
     (sign_state demo_crypto (demo_state 32) demo_customer) demo_provider) demo_terms = Ok ()"
  by (rule honest_channel_settles [OF demo_initial signer_ok_demo signer_ok_demo])
    (simp_all add: channel_eval)

end
