(* ===== verification/CF_Economics.thy ===== *)
theory CF_Economics
  imports CF_Prelude
begin

text \<open>
  The emission schedule and the split of each block's subsidy:
  \<open>crates/cmfd-consensus/src/economics.rs\<close>.

  The lemmas give the value of the subsidy and of every share on natural numbers (no widening
  or narrowing conversion loses a bit), show that the shares always add up to the subsidy, and
  prove the closed form \<open>linear_supply\<close> of the total emission equal to the sum it replaces.
\<close>

section \<open>Definitions\<close>

definition COIN :: u64 where
  "COIN = 100000000"

definition BLOCKS_PER_365_DAY_YEAR :: u64 where
  "BLOCKS_PER_365_DAY_YEAR = 365 * 24 * 60"

definition INITIAL_EMISSION_YEARS :: u64 where
  "INITIAL_EMISSION_YEARS = 5"

definition INITIAL_EMISSION_BLOCKS :: u64 where
  "INITIAL_EMISSION_BLOCKS = BLOCKS_PER_365_DAY_YEAR * INITIAL_EMISSION_YEARS"

record monetary_policy =
  initial_subsidy :: u64
  tail_height :: u64
  tail_subsidy :: u64
  steward_percent :: u8
  community_percent :: u8

definition DEFAULT_MONETARY_POLICY :: monetary_policy where
  "DEFAULT_MONETARY_POLICY = \<lparr>
     initial_subsidy = 500 * COIN,
     tail_height = INITIAL_EMISSION_BLOCKS + 1,
     tail_subsidy = 5 * COIN,
     steward_percent = 25,
     community_percent = 5\<rparr>"

record allocation =
  al_subsidy :: u64
  al_miner :: u64
  al_steward :: u64
  al_community :: u64
  al_fees_burned :: u64

record coinbase_claim =
  cl_miner :: u64
  cl_steward :: u64
  cl_community :: u64

datatype economics_error =
    EE_Miner u64 u64
  | EE_Steward u64 u64
  | EE_Community u64 u64
  | EE_InvalidPercentages
  | EE_ZeroInitialSubsidy
  | EE_InvalidEmissionWindow
  | EE_ZeroTailSubsidy
  | EE_EmissionReachesZeroEarly
  | EE_VanishingPreTailReward

definition declining_subsidy_unchecked :: "monetary_policy \<Rightarrow> u64 \<Rightarrow> u64" where
  "declining_subsidy_unchecked p height =
     (let emission_blocks = tail_height p - 1;
          elapsed = min (saturating_sub height 1) emission_blocks;
          remaining = emission_blocks - elapsed
      in ucast ((ucast (initial_subsidy p) :: u128) * ucast remaining div ucast emission_blocks))"

text \<open>The expression \<open>(u128::from(value) * u128::from(percent) / 100) as u64\<close>.\<close>

definition percent_of :: "u64 \<Rightarrow> u8 \<Rightarrow> u64" where
  "percent_of value percent = ucast ((ucast value :: u128) * ucast percent div 100)"

definition mp_validate :: "monetary_policy \<Rightarrow> (economics_error, unit) outcome" where
  "mp_validate p =
     (if initial_subsidy p = 0 then Err EE_ZeroInitialSubsidy
      else if tail_height p \<le> 1 then Err EE_InvalidEmissionWindow
      else if tail_subsidy p = 0 then Err EE_ZeroTailSubsidy
      else if 100 < (ucast (steward_percent p) :: u16) + ucast (community_percent p)
        then Err EE_InvalidPercentages
      else
        let preceding_subsidy = declining_subsidy_unchecked p (tail_height p - 1) in
        if preceding_subsidy = 0 then Err EE_EmissionReachesZeroEarly
        else
          let steward = percent_of preceding_subsidy (steward_percent p);
              community = percent_of preceding_subsidy (community_percent p);
              miner = preceding_subsidy - steward - community in
          if miner = 0 \<or> (steward_percent p \<noteq> 0 \<and> steward = 0)
             \<or> (community_percent p \<noteq> 0 \<and> community = 0)
          then Err EE_VanishingPreTailReward
          else Ok ())"

definition subsidy_unchecked :: "monetary_policy \<Rightarrow> u64 \<Rightarrow> u64" where
  "subsidy_unchecked p height =
     (if tail_height p \<le> height then tail_subsidy p else declining_subsidy_unchecked p height)"

definition subsidy :: "monetary_policy \<Rightarrow> u64 \<Rightarrow> (economics_error, u64) outcome" where
  "subsidy p height = obind (mp_validate p) (\<lambda>_. Ok (subsidy_unchecked p height))"

definition mp_allocation :: "monetary_policy \<Rightarrow> u64 \<Rightarrow> u64 \<Rightarrow> (economics_error, allocation) outcome" where
  "mp_allocation p height fees =
     obind (mp_validate p) (\<lambda>_.
       let sub = subsidy_unchecked p height in
       if tail_height p \<le> height
       then Ok \<lparr>al_subsidy = sub, al_miner = sub, al_steward = 0, al_community = 0,
                al_fees_burned = fees\<rparr>
       else
         let steward = percent_of sub (steward_percent p);
             community = percent_of sub (community_percent p);
             miner = sub - steward - community
         in Ok \<lparr>al_subsidy = sub, al_miner = miner, al_steward = steward,
                al_community = community, al_fees_burned = fees\<rparr>)"

definition mp_validate_coinbase ::
  "monetary_policy \<Rightarrow> u64 \<Rightarrow> u64 \<Rightarrow> coinbase_claim \<Rightarrow> (economics_error, allocation) outcome" where
  "mp_validate_coinbase p height fees claim =
     obind (mp_allocation p height fees) (\<lambda>expected.
       if cl_miner claim \<noteq> al_miner expected
         then Err (EE_Miner (cl_miner claim) (al_miner expected))
       else if cl_steward claim \<noteq> al_steward expected
         then Err (EE_Steward (cl_steward claim) (al_steward expected))
       else if cl_community claim \<noteq> al_community expected
         then Err (EE_Community (cl_community claim) (al_community expected))
       else Ok expected)"

function greatest_common_divisor :: "u64 \<Rightarrow> u64 \<Rightarrow> u64" where
  "greatest_common_divisor left right =
     (if right \<noteq> 0 then greatest_common_divisor right (left mod right) else left)"
  by pat_completeness auto
termination
proof (relation "measure (\<lambda>(l, r). unat r)")
  fix left right :: u64
  assume "right \<noteq> 0"
  then have "unat left mod unat right < unat right"
    by (simp add: unat_gt_0)
  then show "((right, left mod right), left, right) \<in> measure (\<lambda>(l, r). unat r)"
    by (simp add: unat_mod)
qed simp

declare greatest_common_divisor.simps [simp del]

definition linear_supply :: "u64 \<Rightarrow> u64 \<Rightarrow> u128" where
  "linear_supply initial emission_blocks =
     (let sub = (ucast initial :: u128); blocks = (ucast emission_blocks :: u128) in
      (sub * blocks + sub - blocks + ucast (greatest_common_divisor initial emission_blocks)) div 2)"

definition scheduled_supply_before_tail :: "monetary_policy \<Rightarrow> (economics_error, u128) outcome" where
  "scheduled_supply_before_tail p =
     obind (mp_validate p) (\<lambda>_. Ok (linear_supply (initial_subsidy p) (tail_height p - 1)))"

section \<open>Values on natural numbers\<close>

lemma u64_bound: "unat (w :: u64) < 2 ^ 64"
  using unsigned_less [of w, where ?'a = nat] by simp

lemma u8_bound: "unat (w :: u8) < 256"
  using unsigned_less [of w, where ?'a = nat] by simp

lemma unat_ucast_64_128 [simp]: "unat (ucast (w :: u64) :: u128) = unat w"
  by (simp add: unat_ucast_up)

lemma unat_ucast_8_128 [simp]: "unat (ucast (w :: u8) :: u128) = unat w"
  by (simp add: unat_ucast_up)

lemma unat_ucast_8_16 [simp]: "unat (ucast (w :: u8) :: u16) = unat w"
  by (simp add: unat_ucast_up)

lemma unat_widened_mul: "unat ((ucast (a :: u64) :: u128) * ucast (b :: u64)) = unat a * unat b"
proof -
  have "unat a * unat b < 2 ^ 64 * 2 ^ 64"
    using u64_bound [of a] u64_bound [of b] by (intro mult_strict_mono) simp_all
  then show ?thesis by (subst unat_mul_no_overflow) simp_all
qed

lemma unat_narrow: "unat w < 2 ^ 64 \<Longrightarrow> unat (ucast (w :: u128) :: u64) = unat w"
  by (simp add: unsigned_ucast_eq take_bit_nat_eq_self)

lemma percent_of_exact:
  assumes "unat percent \<le> 100"
  shows "unat (percent_of v percent) = unat v * unat percent div 100"
proof -
  have "unat v * unat percent \<le> unat v * 100" using assms by simp
  moreover have "unat v * 100 < 2 ^ 128" using u64_bound [of v] by simp
  ultimately have "unat v * unat percent < 2 ^ 128" by linarith
  then have "unat ((ucast v :: u128) * ucast percent) = unat v * unat percent"
    by (subst unat_mul_no_overflow) simp_all
  then have q: "unat ((ucast v :: u128) * ucast percent div 100) = unat v * unat percent div 100"
    by (simp add: unat_div)
  moreover have "unat v * unat percent div 100 \<le> unat v"
    using assms by (metis div_le_mono mult_le_mono2 nonzero_mult_div_cancel_right zero_neq_numeral)
  then have "unat v * unat percent div 100 < 2 ^ 64" using u64_bound [of v] by linarith
  ultimately show ?thesis unfolding percent_of_def by (subst unat_narrow) simp_all
qed

definition emission_blocks :: "monetary_policy \<Rightarrow> nat" where
  "emission_blocks p = unat (tail_height p) - 1"

lemma mp_validateD:
  assumes "mp_validate p = Ok ()"
  shows "0 < unat (initial_subsidy p)" "1 < unat (tail_height p)" "0 < unat (tail_subsidy p)"
    "unat (steward_percent p) + unat (community_percent p) \<le> 100"
    "declining_subsidy_unchecked p (tail_height p - 1) \<noteq> 0"
proof -
  have s: "unat ((ucast (steward_percent p) :: u16) + ucast (community_percent p)) =
      unat (steward_percent p) + unat (community_percent p)"
    using u8_bound [of "steward_percent p"] u8_bound [of "community_percent p"]
    by (subst unat_add_no_overflow) simp_all
  show "unat (steward_percent p) + unat (community_percent p) \<le> 100"
    using assms s by (auto simp: mp_validate_def Let_def word_less_nat_alt)
  show "0 < unat (initial_subsidy p)" "1 < unat (tail_height p)" "0 < unat (tail_subsidy p)"
    "declining_subsidy_unchecked p (tail_height p - 1) \<noteq> 0"
    using assms
    by (auto simp: mp_validate_def Let_def unat_gt_0 word_le_nat_alt not_le)
qed

lemma unat_emission_blocks:
  "1 < unat (tail_height p) \<Longrightarrow> unat (tail_height p - 1) = emission_blocks p"
  by (subst unat_sub_no_underflow) (simp_all add: emission_blocks_def word_le_nat_alt)

lemma declining_subsidy_exact:
  assumes "1 < unat (tail_height p)"
  shows "unat (declining_subsidy_unchecked p h) =
    unat (initial_subsidy p) * (emission_blocks p - min (unat h - 1) (emission_blocks p))
      div emission_blocks p"
proof -
  let ?n = "tail_height p - 1"
  let ?e = "min (saturating_sub h 1) ?n"
  let ?q = "unat (initial_subsidy p) * unat (?n - ?e) div unat ?n"
  have n: "unat ?n = emission_blocks p" by (rule unat_emission_blocks [OF assms])
  have ss: "unat (saturating_sub h 1) = unat h - 1"
    by (auto simp: saturating_sub_def word_le_nat_alt unat_sub_no_underflow)
  have e: "unat ?e = min (unat h - 1) (emission_blocks p)"
    by (simp add: min_def word_le_nat_alt ss n)
  have r: "unat (?n - ?e) = emission_blocks p - min (unat h - 1) (emission_blocks p)"
    by (subst unat_sub_no_underflow) (simp_all add: n e)
  have "?q \<le> unat (initial_subsidy p) * unat ?n div unat ?n"
    by (intro div_le_mono mult_le_mono2) (simp add: r n)
  also have "\<dots> \<le> unat (initial_subsidy p)" by simp
  finally have "?q < 2 ^ 64" using u64_bound [of "initial_subsidy p"] by linarith
  then have "unat (declining_subsidy_unchecked p h) = ?q"
    by (simp add: declining_subsidy_unchecked_def Let_def unat_narrow unat_div unat_widened_mul)
  then show ?thesis by (simp only: r n)
qed

lemma declining_subsidy_le: 
  assumes "1 < unat (tail_height p)" "unat h \<le> unat k"
  shows "unat (declining_subsidy_unchecked p k) \<le> unat (declining_subsidy_unchecked p h)"
  unfolding declining_subsidy_exact [OF assms(1)]
  using assms(2)
  by (intro div_le_mono mult_le_mono2 diff_le_mono2 min.mono diff_le_mono order_refl)

text \<open>The shares of a subsidy.\<close>

lemma shares_sum:
  assumes "unat s + unat c \<le> 100"
  shows "unat (percent_of v s) + unat (percent_of v c) \<le> unat v"
    "unat (v - percent_of v s - percent_of v c) =
       unat v - unat (percent_of v s) - unat (percent_of v c)"
proof -
  have "unat v * unat s div 100 + unat v * unat c div 100 \<le> (unat v * unat s + unat v * unat c) div 100"
    by (subst div_add1_eq [of "unat v * unat s"]) (rule le_add1)
  also have "\<dots> \<le> unat v * 100 div 100"
    using assms by (intro div_le_mono) (simp flip: distrib_left)
  finally show le: "unat (percent_of v s) + unat (percent_of v c) \<le> unat v"
    using assms by (simp add: percent_of_exact)
  have a: "percent_of v s \<le> v" using le by (simp add: word_le_nat_alt)
  then have "unat (v - percent_of v s) = unat v - unat (percent_of v s)"
    by (rule unat_sub_no_underflow)
  moreover from this have "percent_of v c \<le> v - percent_of v s"
    using le by (simp add: word_le_nat_alt)
  ultimately show "unat (v - percent_of v s - percent_of v c) =
      unat v - unat (percent_of v s) - unat (percent_of v c)"
    by (simp add: unat_sub_no_underflow)
qed

lemma allocation_exact:
  assumes "mp_allocation p height fees = Ok a"
  shows "unat (al_miner a) + unat (al_steward a) + unat (al_community a) = unat (al_subsidy a)
    \<and> al_subsidy a = subsidy_unchecked p height \<and> al_fees_burned a = fees
    \<and> unat (al_steward a) = (if tail_height p \<le> height then 0 else unat (al_subsidy a) * unat (steward_percent p) div 100)
    \<and> unat (al_community a) = (if tail_height p \<le> height then 0 else unat (al_subsidy a) * unat (community_percent p) div 100)"
proof -
  have v: "mp_validate p = Ok ()" using assms by (auto simp: mp_allocation_def)
  note le = mp_validateD(4) [OF v]
  show ?thesis
  proof (cases "tail_height p \<le> height")
    case True
    with assms v show ?thesis by (auto simp: mp_allocation_def Let_def)
  next
    case False
    let ?v = "subsidy_unchecked p height"
    have "a = \<lparr>al_subsidy = ?v,
        al_miner = ?v - percent_of ?v (steward_percent p) - percent_of ?v (community_percent p),
        al_steward = percent_of ?v (steward_percent p),
        al_community = percent_of ?v (community_percent p), al_fees_burned = fees\<rparr>"
      using assms v False by (simp add: mp_allocation_def Let_def)
    then show ?thesis
      using False shares_sum [OF le, of ?v] le by (simp add: percent_of_exact)
  qed
qed

section \<open>The closed form of the supply\<close>

lemma card_multiples_upto: "0 < d \<Longrightarrow> card {k \<in> {1..d * g}. d dvd k} = (g::nat)"
proof -
  assume d: "0 < d"
  have "{k \<in> {1..d * g}. d dvd k} = (\<lambda>i. d * i) ` {1..g}"
    using d by (auto simp: image_iff elim!: dvdE)
  then show ?thesis using d by (simp add: card_image inj_on_def)
qed

lemma card_dvd_mult: "0 < n \<Longrightarrow> card {k \<in> {1..n}. n dvd s * k} = gcd s (n::nat)"
proof -
  assume n: "0 < n"
  define g where "g = gcd s n"
  define d where "d = n div g"
  define t where "t = s div g"
  have g: "0 < g" using n by (simp add: g_def)
  have nd: "n = d * g" and st: "s = t * g" by (simp_all add: d_def t_def g_def)
  have cop: "coprime d t"
    using n unfolding d_def t_def g_def by (metis coprime_commute div_gcd_coprime neq0_conv)
  have "n dvd s * k \<longleftrightarrow> d dvd k" for k
  proof -
    have "n dvd s * k \<longleftrightarrow> d * g dvd (t * k) * g" by (simp add: nd st ac_simps)
    also have "\<dots> \<longleftrightarrow> d dvd t * k" using g by simp
    also have "\<dots> \<longleftrightarrow> d dvd k" using cop by (simp add: coprime_dvd_mult_right_iff)
    finally show ?thesis .
  qed
  then have "{k \<in> {1..n}. n dvd s * k} = {k \<in> {1..d * g}. d dvd k}" using nd by simp
  moreover have "0 < d" using nd n by (cases "d = 0") simp_all
  ultimately show ?thesis using card_multiples_upto [of d g] g_def by simp
qed

lemma floor_pair:
  assumes "0 < n" "k \<le> n"
  shows "s * k div n + s * (n - k) div n + (if n dvd s * k then 0 else 1) = (s::nat)"
proof -
  have sum: "s * k + s * (n - k) = s * n" using assms by (simp flip: distrib_left)
  have "n dvd s * k \<longleftrightarrow> n dvd s * (n - k)"
    using sum by (metis dvd_add_right_iff dvd_add_left_iff dvd_triv_right)
  let ?a = "s * k mod n" and ?b = "s * (n - k) mod n"
  have "n * (s * k div n + s * (n - k) div n) + (?a + ?b) = s * n"
    using sum by (metis (no_types, lifting) add.assoc add.left_commute distrib_left mult_div_mod_eq)
  then have ab: "?a + ?b = n * (s - (s * k div n + s * (n - k) div n))"
    by (simp add: diff_mult_distrib2 mult.commute)
  have lt: "?a + ?b < n * 2" using assms by (simp add: add_strict_mono mult_2_right)
  define q where "q = s - (s * k div n + s * (n - k) div n)"
  have "q < 2" using ab lt assms by (simp add: q_def)
  have le: "s * k div n + s * (n - k) div n \<le> s"
  proof (rule ccontr)
    assume "\<not> ?thesis"
    then have "n * s < n * (s * k div n + s * (n - k) div n)" using assms by simp
    with \<open>n * (s * k div n + s * (n - k) div n) + (?a + ?b) = s * n\<close> show False
      by (metis le_add1 mult.commute not_le)
  qed
  show ?thesis
  proof (cases "n dvd s * k")
    case True
    then have "?a = 0" "?b = 0" using \<open>n dvd s * k \<longleftrightarrow> n dvd s * (n - k)\<close> by auto
    then have "q = 0" using ab assms by (simp add: q_def)
    with True le show ?thesis by (simp add: q_def)
  next
    case False
    then have "0 < ?a" by (simp add: dvd_eq_mod_eq_0)
    then have "q \<noteq> 0" using ab by (auto simp: q_def)
    with \<open>q < 2\<close> have "q = 1" by simp
    with False le show ?thesis by (simp add: q_def)
  qed
qed

lemma linear_floor_sum:
  assumes "0 < n"
  shows "2 * (\<Sum>k = 1..n. s * k div n) + n = s * n + s + gcd s (n::nat)"
proof -
  let ?f = "\<lambda>k. s * k div n" and ?d = "\<lambda>k. if n dvd s * k then 0 else 1 :: nat"
  have rev: "(\<Sum>k = 0..n. ?f (n - k)) = (\<Sum>k = 0..n. ?f k)"
    by (rule sum.reindex_bij_witness [of _ "\<lambda>k. n - k" "\<lambda>k. n - k"]) auto
  have "(\<Sum>k = 0..n. ?f k + ?f (n - k) + ?d k) = (\<Sum>k = 0..n. s)"
    using assms by (intro sum.cong) (auto simp: floor_pair)
  then have two: "2 * (\<Sum>k = 0..n. ?f k) + (\<Sum>k = 0..n. ?d k) = (n + 1) * s"
    using rev by (simp add: sum.distrib mult_2)
  have z: "(\<Sum>k = 0..n. ?f k) = (\<Sum>k = 1..n. ?f k)" "(\<Sum>k = 0..n. ?d k) = (\<Sum>k = 1..n. ?d k)"
    by (simp_all add: sum.atLeast_Suc_atMost)
  have "(\<Sum>k = 1..n. ?d k) = card {k \<in> {1..n}. \<not> n dvd s * k}"
    by (simp add: sum.If_cases Int_def)
  also have "\<dots> = n - gcd s n"
  proof -
    let ?A = "{k \<in> {1..n}. n dvd s * k}" and ?B = "{k \<in> {1..n}. \<not> n dvd s * k}"
    have "card ?A + card ?B = card (?A \<union> ?B)" by (rule card_Un_disjoint [symmetric]) auto
    also have "?A \<union> ?B = {1..n}" by auto
    finally show ?thesis using card_dvd_mult [OF assms, of s] by simp
  qed
  finally have "(\<Sum>k = 0..n. ?d k) = n - gcd s n" using z by simp
  moreover have "gcd s n \<le> n" using assms by (simp add: gcd_le2_nat)
  ultimately show ?thesis using two z by (simp add: algebra_simps)
qed

lemma gcd_loop_correct: "unat (greatest_common_divisor a b) = gcd (unat a) (unat b)"
proof (induction a b rule: greatest_common_divisor.induct)
  case (1 l r)
  show ?case
  proof (cases "r = 0")
    case True
    then show ?thesis by (subst greatest_common_divisor.simps) simp
  next
    case False
    then have "unat (greatest_common_divisor l r) = gcd (unat r) (unat l mod unat r)"
      using "1.IH" by (simp add: greatest_common_divisor.simps [of l r] unat_mod)
    then show ?thesis by (simp add: gcd_red_nat [symmetric] gcd.commute)
  qed
qed

lemma linear_supply_exact:
  assumes "0 < unat s" "0 < unat n"
  shows "unat (linear_supply s n) = (\<Sum>k = 1..unat n. unat s * k div unat n)"
proof -
  let ?s = "unat s" and ?n = "unat n" and ?g = "gcd (unat s) (unat n)"
  have b: "?s \<le> 2 ^ 64 - 1" "?n \<le> 2 ^ 64 - 1" using u64_bound [of s] u64_bound [of n] by simp_all
  have prod: "?s * ?n \<le> (2 ^ 64 - 1) * (2 ^ 64 - 1)" by (rule mult_le_mono [OF b])
  have "?g \<le> ?n" "?n \<le> ?s * ?n" using assms by (simp_all add: gcd_le2_nat)
  have m: "unat ((ucast s :: u128) * ucast n) = ?s * ?n" by (rule unat_widened_mul)
  have a: "unat ((ucast s :: u128) * ucast n + ucast s) = ?s * ?n + ?s"
    using prod b by (subst unat_add_no_overflow) (simp_all add: m)
  have "(ucast n :: u128) \<le> ucast s * ucast n + ucast s"
    unfolding word_le_nat_alt a unat_ucast_64_128 using \<open>?n \<le> ?s * ?n\<close> by linarith
  then have d: "unat ((ucast s :: u128) * ucast n + ucast s - ucast n) = ?s * ?n + ?s - ?n"
    by (simp add: unat_sub_no_underflow a)
  have "unat ((ucast s :: u128) * ucast n + ucast s - ucast n + ucast (greatest_common_divisor s n))
      = ?s * ?n + ?s - ?n + ?g"
    using prod b \<open>?g \<le> ?n\<close> \<open>?n \<le> ?s * ?n\<close>
    by (subst unat_add_no_overflow) (simp_all add: d gcd_loop_correct)
  then have "unat (linear_supply s n) = (?s * ?n + ?s - ?n + ?g) div 2"
    by (simp add: linear_supply_def Let_def unat_div)
  also have "\<dots> = (\<Sum>k = 1..?n. ?s * k div ?n)"
    using linear_floor_sum [OF assms(2), of ?s] \<open>?n \<le> ?s * ?n\<close> by linarith
  finally show ?thesis .
qed

section \<open>The schedule as a whole\<close>

lemma subsidy_before_tail:
  assumes "mp_validate p = Ok ()" "1 \<le> h" "h < unat (tail_height p)"
  shows "unat (subsidy_unchecked p (word_of_nat h)) =
    unat (initial_subsidy p) * (emission_blocks p - (h - 1)) div emission_blocks p"
proof -
  note v = mp_validateD [OF assms(1)]
  have "h < 2 ^ 64" using assms(3) u64_bound [of "tail_height p"] by linarith
  then have h: "unat (word_of_nat h :: u64) = h" by (simp add: unat_of_nat)
  have "min (h - 1) (emission_blocks p) = h - 1" using assms(3) by (simp add: emission_blocks_def)
  with h assms(3) show ?thesis
    by (simp add: subsidy_unchecked_def word_le_nat_alt declining_subsidy_exact [OF v(2)])
qed

lemma declining_sum:
  assumes "mp_validate p = Ok ()"
  shows "(\<Sum>h = 1..<unat (tail_height p). unat (subsidy_unchecked p (word_of_nat h))) =
    (\<Sum>k = 1..emission_blocks p. unat (initial_subsidy p) * k div emission_blocks p)"
proof -
  let ?n = "emission_blocks p"
  have t: "{1..<unat (tail_height p)} = {1..?n}"
    using mp_validateD(2) [OF assms] by (auto simp: emission_blocks_def)
  have "(\<Sum>h = 1..<unat (tail_height p). unat (subsidy_unchecked p (word_of_nat h))) =
      (\<Sum>h = 1..?n. unat (initial_subsidy p) * (?n - (h - 1)) div ?n)"
    unfolding t by (intro sum.cong refl subsidy_before_tail [OF assms])
      (use t in \<open>auto simp: emission_blocks_def\<close>)
  also have "\<dots> = (\<Sum>k = 1..?n. unat (initial_subsidy p) * k div ?n)"
    by (rule sum.reindex_bij_witness
        [of _ "\<lambda>k. ?n - (k - 1)" "\<lambda>h. ?n - (h - 1)"]) auto
  finally show ?thesis .
qed

lemma subsidy_positive:
  assumes "mp_validate p = Ok ()"
  shows "0 < unat (subsidy_unchecked p h)"
proof (cases "tail_height p \<le> h")
  case True
  with mp_validateD(3) [OF assms] show ?thesis by (simp add: subsidy_unchecked_def)
next
  case False
  note v = mp_validateD [OF assms]
  have "unat h \<le> unat (tail_height p - 1)"
    using False by (simp add: word_le_nat_alt unat_emission_blocks [OF v(2)] emission_blocks_def)
  then have "unat (declining_subsidy_unchecked p (tail_height p - 1)) \<le>
      unat (declining_subsidy_unchecked p h)"
    by (rule declining_subsidy_le [OF v(2)])
  with v(5) False show ?thesis by (simp add: subsidy_unchecked_def unat_gt_0 [symmetric])
qed

section \<open>Properties\<close>

text \<open>C32. Whenever the policy validates, the closed form returned by
  \<open>scheduled_supply_before_tail\<close> is the sum of the subsidies of all blocks before the tail,
  with no overflow in its 128-bit intermediate values.\<close>

theorem supply_closed_form:
  assumes "mp_validate p = Ok ()"
  shows "\<exists>s. scheduled_supply_before_tail p = Ok s \<and>
    unat s = (\<Sum>h = 1..<unat (tail_height p). unat (subsidy_unchecked p (word_of_nat h)))"
proof -
  note v = mp_validateD [OF assms]
  have n: "unat (tail_height p - 1) = emission_blocks p" by (rule unat_emission_blocks [OF v(2)])
  have "0 < unat (tail_height p - 1)" using v(2) by (simp add: n emission_blocks_def)
  from linear_supply_exact [OF v(1) this]
  have "unat (linear_supply (initial_subsidy p) (tail_height p - 1)) =
      (\<Sum>h = 1..<unat (tail_height p). unat (subsidy_unchecked p (word_of_nat h)))"
    by (simp only: declining_sum [OF assms] n)
  then show ?thesis by (simp add: scheduled_supply_before_tail_def assms)
qed

theorem supply_closed_form_witness:
  "mp_validate DEFAULT_MONETARY_POLICY = Ok () \<and>
   (\<Sum>h = 1..<unat (tail_height DEFAULT_MONETARY_POLICY).
      unat (subsidy_unchecked DEFAULT_MONETARY_POLICY (word_of_nat h))) = 65700024998688000"
proof -
  have v: "mp_validate DEFAULT_MONETARY_POLICY = Ok ()" by code_simp
  have "scheduled_supply_before_tail DEFAULT_MONETARY_POLICY = Ok 65700024998688000" by code_simp
  with supply_closed_form [OF v] show ?thesis by (auto simp: v)
qed

text \<open>An allocation divides exactly the block's subsidy between miner, steward and
  community: nothing is created or lost by rounding, fees never enter it, before the tail the
  steward and community receive the floor of their percentage, and from the tail on the miner
  receives everything.\<close>

theorem allocation_conserves_subsidy:
  assumes "mp_allocation p height fees = Ok a"
  shows "unat (al_miner a) + unat (al_steward a) + unat (al_community a) = unat (al_subsidy a)
    \<and> al_subsidy a = subsidy_unchecked p height \<and> al_fees_burned a = fees
    \<and> (if tail_height p \<le> height then al_steward a = 0 \<and> al_community a = 0
       else unat (al_steward a) = unat (al_subsidy a) * unat (steward_percent p) div 100
          \<and> unat (al_community a) = unat (al_subsidy a) * unat (community_percent p) div 100)"
  using allocation_exact [OF assms] by (auto simp: unat_eq_0 split: if_splits)

theorem allocation_conserves_subsidy_witness:
  "\<exists>a. mp_allocation DEFAULT_MONETARY_POLICY 2 1200 = Ok a \<and>
     unat (al_miner a) + unat (al_steward a) + unat (al_community a) = 49999980974"
proof -
  have a: "mp_allocation DEFAULT_MONETARY_POLICY 2 1200 = Ok \<lparr>al_subsidy = 49999980974,
      al_miner = 34999986683, al_steward = 12499995243, al_community = 2499999048,
      al_fees_burned = 1200\<rparr>"
    by code_simp
  from allocation_conserves_subsidy [OF a] a show ?thesis by auto
qed

text \<open>Under a valid policy every block has a positive subsidy and the subsidy never rises
  before the tail begins.\<close>

theorem subsidy_positive_and_declining:
  assumes "subsidy p h = Ok s" "subsidy p k = Ok t" "h \<le> k" "k < tail_height p"
  shows "0 < t \<and> t \<le> s"
proof -
  have v: "mp_validate p = Ok ()" and st: "s = subsidy_unchecked p h" "t = subsidy_unchecked p k"
    using assms(1,2) by (auto simp: subsidy_def)
  have "h < tail_height p" using assms(3,4) by simp
  then have "unat t \<le> unat s"
    unfolding st using assms(3,4) declining_subsidy_le [OF mp_validateD(2) [OF v]]
    by (simp add: subsidy_unchecked_def word_le_nat_alt word_less_nat_alt not_le)
  moreover have "0 < unat t" unfolding st by (rule subsidy_positive [OF v])
  ultimately show ?thesis by (simp add: word_le_nat_alt unat_gt_0 word_gt_0)
qed

theorem subsidy_positive_and_declining_witness:
  "subsidy DEFAULT_MONETARY_POLICY 1 = Ok 50000000000 \<and>
   subsidy DEFAULT_MONETARY_POLICY 2628000 = Ok 19025 \<and> (19025 :: u64) \<le> 50000000000"
proof -
  have a: "subsidy DEFAULT_MONETARY_POLICY 1 = Ok 50000000000" by code_simp
  have b: "subsidy DEFAULT_MONETARY_POLICY 2628000 = Ok 19025" by code_simp
  have c: "(2628000 :: u64) < tail_height DEFAULT_MONETARY_POLICY" by code_simp
  from subsidy_positive_and_declining [OF a b _ c] a b show ?thesis by simp
qed

end
