(* ===== verification/CF_Types.thy ===== *)
theory CF_Types
  imports CF_Codec CF_Pow CF_Marketplace CF_Economics
begin

text \<open>
  Transactions, coinbases and blocks and the digests that identify them: the data types and
  the encodings of \<open>crates/cmfd-consensus/src/chain.rs\<close>. The bytes a function feeds to a
  hasher are a byte string; the digest is the hash of that string in the source's domain.
\<close>

section \<open>Constants and data\<close>

definition TX_SIGNING_DOMAIN :: string where "TX_SIGNING_DOMAIN = ''CMFD/TRANSACTION/SIGNING/V1''"
definition TX_ID_DOMAIN :: string where "TX_ID_DOMAIN = ''CMFD/TRANSACTION/ID/V1''"
definition COINBASE_ID_DOMAIN :: string where "COINBASE_ID_DOMAIN = ''CMFD/COINBASE/ID/V1''"
definition MERKLE_LEAF_DOMAIN :: string where "MERKLE_LEAF_DOMAIN = ''CMFD/MERKLE/LEAF/V1''"
definition MERKLE_NODE_DOMAIN :: string where "MERKLE_NODE_DOMAIN = ''CMFD/MERKLE/NODE/V1''"
definition BLOCK_ID_DOMAIN :: string where "BLOCK_ID_DOMAIN = ''CMFD/BLOCK/ID/V1''"
definition COINBASE_OUTPOINT_DOMAIN :: string where "COINBASE_OUTPOINT_DOMAIN = ''CMFD/COINBASE/OUTPOINT/V1''"

definition COINBASE_MATURITY :: u64 where "COINBASE_MATURITY = 100"
definition BLOCK_VERSION :: u32 where "BLOCK_VERSION = 1"
definition TRANSACTION_VERSION :: u32 where "TRANSACTION_VERSION = 1"

record out_point =
  op_txid :: hash32
  op_index :: u32

datatype output_lock =
    OL_Key hash32
  | OL_InferenceChannel hash32

record tx_output =
  to_value :: u64
  to_lock :: output_lock
  to_spendable_height :: u64

datatype input_witness =
    IW_Key hash32 "byte list"
  | IW_InferenceSettlement channel_terms settlement
  | IW_InferenceRefund channel_terms

record tx_input =
  ti_previous :: out_point
  ti_witness :: input_witness

record transaction =
  tx_network_id :: hash32
  tx_version :: u32
  tx_inputs :: "tx_input list"
  tx_outputs :: "tx_output list"

record coinbase =
  cb_height :: u64
  cb_outputs :: "tx_output list"

record block =
  bl_version :: u32
  bl_challenge :: block_challenge
  bl_proof :: block_proof
  bl_coinbase :: coinbase
  bl_transactions :: "transaction list"

record reward_destinations =
  rd_steward :: hash32
  rd_community :: hash32

section \<open>Hashed encodings\<close>

definition encode_bytes :: "byte list \<Rightarrow> byte list" where
  "encode_bytes bs = to_le_bytes (word_of_nat (length bs) :: u64) @ bs"

definition encode_channel_terms :: "channel_terms \<Rightarrow> byte list" where
  "encode_channel_terms t =
     ct_network_id t @ ct_job_id t @ ct_customer_key t @ ct_provider_key t @ ct_model_digest t @
     ct_runtime_digest t @ ct_input_digest t @
     to_le_bytes (ct_deposit t) @ to_le_bytes (ct_close_fee_burn t) @ to_le_bytes (ct_base_price t) @
     to_le_bytes (ct_input_price_per_1000 t) @ to_le_bytes (ct_output_price_per_1000 t) @
     to_le_bytes (ct_max_input_tokens t) @ to_le_bytes (ct_max_output_tokens t) @
     to_le_bytes (ct_output_chunk_tokens t) @ to_le_bytes (ct_refund_height t)"

definition encode_payment_state :: "payment_state \<Rightarrow> byte list" where
  "encode_payment_state s =
     ps_channel_id s @
     to_le_bytes (ps_sequence s) @ to_le_bytes (ps_input_tokens s) @
     to_le_bytes (ps_authorized_output_tokens s) @ to_le_bytes (ps_provider_payment s) @
     to_le_bytes (ps_customer_refund s) @ to_le_bytes (ps_close_fee_burn s) @
     ps_previous_receipt s"

definition encode_output :: "tx_output \<Rightarrow> byte list" where
  "encode_output out =
     to_le_bytes (to_value out) @
     (case to_lock out of
        OL_Key owner \<Rightarrow> [0] @ owner
      | OL_InferenceChannel channel_id \<Rightarrow> [1] @ channel_id) @
     to_le_bytes (to_spendable_height out)"

definition encode_outputs :: "tx_output list \<Rightarrow> byte list" where
  "encode_outputs outs =
     to_le_bytes (word_of_nat (length outs) :: u64) @ concat (map encode_output outs)"

definition encode_witness :: "crypto \<Rightarrow> input_witness \<Rightarrow> bool \<Rightarrow> byte list" where
  "encode_witness C witness include_signatures =
     (case witness of
        IW_Key public_key signature \<Rightarrow>
          [0] @ public_key @ (if include_signatures then encode_bytes signature else [])
      | IW_InferenceSettlement terms settlement \<Rightarrow>
          [1] @ encode_channel_terms terms @ encode_payment_state (sps_state (se_state settlement)) @
          (if include_signatures
           then encode_bytes (sps_customer_signature (se_state settlement)) @
                encode_bytes (se_provider_signature settlement) @ witness_digest C settlement
           else [])
      | IW_InferenceRefund terms \<Rightarrow> [2] @ encode_channel_terms terms)"

definition encode_unsigned_input :: "crypto \<Rightarrow> tx_input \<Rightarrow> byte list" where
  "encode_unsigned_input C i =
     op_txid (ti_previous i) @ to_le_bytes (op_index (ti_previous i)) @
     encode_witness C (ti_witness i) False"

definition encode_unsigned_transaction :: "crypto \<Rightarrow> transaction \<Rightarrow> byte list" where
  "encode_unsigned_transaction C t =
     tx_network_id t @ to_le_bytes (tx_version t) @
     to_le_bytes (word_of_nat (length (tx_inputs t)) :: u64) @
     concat (map (encode_unsigned_input C) (tx_inputs t)) @
     encode_outputs (tx_outputs t)"

definition signing_digest :: "crypto \<Rightarrow> transaction \<Rightarrow> hash32" where
  "signing_digest C t = b3_derive C TX_SIGNING_DOMAIN (encode_unsigned_transaction C t)"

definition txid_preimage :: "crypto \<Rightarrow> transaction \<Rightarrow> byte list" where
  "txid_preimage C t =
     encode_unsigned_transaction C t @
     concat (map (\<lambda>i. encode_witness C (ti_witness i) True) (tx_inputs t))"

definition txid :: "crypto \<Rightarrow> transaction \<Rightarrow> hash32" where
  "txid C t = b3_derive C TX_ID_DOMAIN (txid_preimage C t)"

section \<open>Signing\<close>

datatype sign_error = SE_MalformedSignature | SE_WrongWitness

text \<open>
  The two loops of \<open>sign_all\<close> return the inputs as they leave them and whether every input
  had a key witness; keys are the byte strings of the signing keys.
\<close>

fun reset_witnesses :: "crypto \<Rightarrow> tx_input list \<Rightarrow> byte list list \<Rightarrow> tx_input list \<times> bool" where
  "reset_witnesses C (i # inputs) (k # ks) =
     (case ti_witness i of
        IW_Key _ _ \<Rightarrow>
          (case reset_witnesses C inputs ks of (rest, ok) \<Rightarrow>
             (i\<lparr>ti_witness := IW_Key (verifying_key C k) []\<rparr> # rest, ok))
      | _ \<Rightarrow> (i # inputs, False))"
| "reset_witnesses C inputs ks = (inputs, True)"

fun sign_witnesses :: "crypto \<Rightarrow> hash32 \<Rightarrow> tx_input list \<Rightarrow> byte list list \<Rightarrow> tx_input list \<times> bool" where
  "sign_witnesses C digest (i # inputs) (k # ks) =
     (case ti_witness i of
        IW_Key pk _ \<Rightarrow>
          (case sign_witnesses C digest inputs ks of (rest, ok) \<Rightarrow>
             (i\<lparr>ti_witness := IW_Key pk (schnorr_sign C k digest)\<rparr> # rest, ok))
      | _ \<Rightarrow> (i # inputs, False))"
| "sign_witnesses C digest inputs ks = (inputs, True)"

definition sign_all :: "crypto \<Rightarrow> byte list list \<Rightarrow> transaction \<Rightarrow> transaction \<times> (sign_error, unit) outcome" where
  "sign_all C keys t =
     (if length keys \<noteq> length (tx_inputs t) then (t, Err SE_MalformedSignature)
      else case reset_witnesses C (tx_inputs t) keys of (inputs, ok) \<Rightarrow>
        if \<not> ok then (t\<lparr>tx_inputs := inputs\<rparr>, Err SE_WrongWitness)
        else
          let t1 = t\<lparr>tx_inputs := inputs\<rparr> in
          case sign_witnesses C (signing_digest C t1) (tx_inputs t1) keys of (inputs2, ok2) \<Rightarrow>
            (t1\<lparr>tx_inputs := inputs2\<rparr>, if ok2 then Ok () else Err SE_WrongWitness))"

section \<open>Coinbases, Merkle trees and block identities\<close>

definition coinbase_new ::
  "u64 \<Rightarrow> allocation \<Rightarrow> hash32 \<Rightarrow> reward_destinations \<Rightarrow> coinbase" where
  "coinbase_new height alloc miner_destination fixed =
     \<lparr>cb_height = height,
      cb_outputs =
        [\<lparr>to_value = al_miner alloc, to_lock = OL_Key miner_destination,
          to_spendable_height = saturating_add height COINBASE_MATURITY\<rparr>] @
        (if 0 < al_steward alloc
         then [\<lparr>to_value = al_steward alloc, to_lock = OL_Key (rd_steward fixed), to_spendable_height = height\<rparr>]
         else []) @
        (if 0 < al_community alloc
         then [\<lparr>to_value = al_community alloc, to_lock = OL_Key (rd_community fixed), to_spendable_height = height\<rparr>]
         else [])\<rparr>"

definition coinbase_commitment :: "crypto \<Rightarrow> coinbase \<Rightarrow> hash32 \<Rightarrow> hash32" where
  "coinbase_commitment C cb network_id =
     b3_derive C COINBASE_ID_DOMAIN
       (network_id @ to_le_bytes (cb_height cb) @ encode_outputs (cb_outputs cb))"

definition merkle_leaf :: "crypto \<Rightarrow> hash32 \<Rightarrow> hash32" where
  "merkle_leaf C leaf = b3_derive C MERKLE_LEAF_DOMAIN leaf"

definition merkle_node :: "crypto \<Rightarrow> hash32 \<Rightarrow> hash32 \<Rightarrow> hash32" where
  "merkle_node C l r = b3_derive C MERKLE_NODE_DOMAIN (l @ r)"

definition pad_level :: "hash32 list \<Rightarrow> hash32 list" where
  "pad_level level = (if odd (length level) then level @ [last level] else level)"

fun pair_level :: "crypto \<Rightarrow> hash32 list \<Rightarrow> hash32 list" where
  "pair_level C (a # b # rest) = merkle_node C a b # pair_level C rest"
| "pair_level C _ = []"

lemma length_pair_level [simp]: "length (pair_level C xs) = length xs div 2"
  by (induction C xs rule: pair_level.induct) simp_all

lemma length_pad_level: "length (pad_level xs) = (if odd (length xs) then Suc (length xs) else length xs)"
  by (simp add: pad_level_def)

function merkle_levels :: "crypto \<Rightarrow> hash32 list \<Rightarrow> hash32 list" where
  "merkle_levels C level =
     (if 1 < length level then merkle_levels C (pair_level C (pad_level level)) else level)"
  by pat_completeness auto
termination
  by (relation "measure (\<lambda>(C, level). length level)") (auto simp: length_pad_level elim!: oddE)

declare merkle_levels.simps [simp del]

definition merkle_root :: "crypto \<Rightarrow> hash32 list \<Rightarrow> hash32" where
  "merkle_root C txids =
     (if txids = [] then b3_derive C MERKLE_LEAF_DOMAIN []
      else hd (merkle_levels C (map (merkle_leaf C) txids)))"

definition transaction_root :: "crypto \<Rightarrow> block \<Rightarrow> hash32" where
  "transaction_root C b =
     merkle_root C
       (coinbase_commitment C (bl_coinbase b) (bc_network_id (bl_challenge b))
        # map (txid C) (bl_transactions b))"

definition block_id :: "crypto \<Rightarrow> block \<Rightarrow> hash32" where
  "block_id C b =
     b3_derive C BLOCK_ID_DOMAIN
       (to_le_bytes (bl_version b) @ bc_network_id (bl_challenge b) @
        bc_previous_block (bl_challenge b) @ bc_transaction_root (bl_challenge b) @
        to_le_bytes (bc_height (bl_challenge b)) @ to_le_bytes (bc_timestamp (bl_challenge b)) @
        bc_target (bl_challenge b) @ bp_absorb (bl_proof b))"

definition coinbase_outpoint_id :: "crypto \<Rightarrow> block \<Rightarrow> hash32" where
  "coinbase_outpoint_id C b =
     b3_derive C COINBASE_OUTPOINT_DOMAIN (bc_network_id (bl_challenge b) @ block_id C b)"

section \<open>Well-formed values\<close>

text \<open>The arrays of the source have 32 bytes and its vectors fewer than \<open>2\<^sup>6\<^sup>4\<close> elements.\<close>

definition wf_terms :: "channel_terms \<Rightarrow> bool" where
  "wf_terms t \<longleftrightarrow> length (ct_network_id t) = 32 \<and> length (ct_job_id t) = 32 \<and>
     length (ct_customer_key t) = 32 \<and> length (ct_provider_key t) = 32 \<and>
     length (ct_model_digest t) = 32 \<and> length (ct_runtime_digest t) = 32 \<and> length (ct_input_digest t) = 32"

definition wf_payment_state :: "payment_state \<Rightarrow> bool" where
  "wf_payment_state s \<longleftrightarrow> length (ps_channel_id s) = 32 \<and> length (ps_previous_receipt s) = 32"

definition wf_lock :: "output_lock \<Rightarrow> bool" where
  "wf_lock l = (case l of OL_Key k \<Rightarrow> length k = 32 | OL_InferenceChannel c \<Rightarrow> length c = 32)"

definition wf_output :: "tx_output \<Rightarrow> bool" where
  "wf_output out = wf_lock (to_lock out)"

definition wf_witness :: "input_witness \<Rightarrow> bool" where
  "wf_witness w = (case w of
       IW_Key pk sig \<Rightarrow> length pk = 32 \<and> length sig < 2 ^ 64
     | IW_InferenceSettlement t s \<Rightarrow> wf_terms t \<and> wf_payment_state (sps_state (se_state s)) \<and>
         length (sps_customer_signature (se_state s)) < 2 ^ 64 \<and> length (se_provider_signature s) < 2 ^ 64
     | IW_InferenceRefund t \<Rightarrow> wf_terms t)"

definition wf_input :: "tx_input \<Rightarrow> bool" where
  "wf_input i \<longleftrightarrow> length (op_txid (ti_previous i)) = 32 \<and> wf_witness (ti_witness i)"

definition wf_transaction :: "transaction \<Rightarrow> bool" where
  "wf_transaction t \<longleftrightarrow> length (tx_network_id t) = 32 \<and> list_all wf_input (tx_inputs t) \<and>
     list_all wf_output (tx_outputs t) \<and> length (tx_inputs t) < 2 ^ 64 \<and> length (tx_outputs t) < 2 ^ 64"

text \<open>An input without its signatures: what the signing digest commits to.\<close>

definition erase_witness :: "input_witness \<Rightarrow> input_witness" where
  "erase_witness w = (case w of
       IW_Key pk sig \<Rightarrow> IW_Key pk []
     | IW_InferenceSettlement t s \<Rightarrow> IW_InferenceSettlement t
         \<lparr>se_state = (se_state s)\<lparr>sps_customer_signature := []\<rparr>, se_provider_signature = []\<rparr>
     | IW_InferenceRefund t \<Rightarrow> IW_InferenceRefund t)"

definition erase_input :: "tx_input \<Rightarrow> tx_input" where
  "erase_input i = i\<lparr>ti_witness := erase_witness (ti_witness i)\<rparr>"

definition erase_signatures :: "transaction \<Rightarrow> transaction" where
  "erase_signatures t = t\<lparr>tx_inputs := map erase_input (tx_inputs t)\<rparr>"

section \<open>Unique readability\<close>

interpretation terms_code: prefix_code wf_terms encode_channel_terms
proof
  fix a b r s
  assume "wf_terms a" "wf_terms b" "encode_channel_terms a @ r = encode_channel_terms b @ s"
  then show "a = b \<and> r = s"
    by (cases a; cases b) (simp add: wf_terms_def encode_channel_terms_def fixed_field le_field)
qed

interpretation state_code: prefix_code wf_payment_state encode_payment_state
proof
  fix a b r s
  assume "wf_payment_state a" "wf_payment_state b" "encode_payment_state a @ r = encode_payment_state b @ s"
  then show "a = b \<and> r = s"
    by (cases a; cases b) (simp add: wf_payment_state_def encode_payment_state_def fixed_field le_field)
qed

interpretation output_code: prefix_code wf_output encode_output
proof
  fix a b r s
  assume "wf_output a" "wf_output b" "encode_output a @ r = encode_output b @ s"
  then show "a = b \<and> r = s"
    by (cases a; cases b)
      (auto simp: wf_output_def wf_lock_def encode_output_def fixed_field le_field split: output_lock.splits)
qed

lemma encode_bytes_unique:
  "length a < 2 ^ 64 \<Longrightarrow> length b < 2 ^ 64 \<Longrightarrow> encode_bytes a @ r = encode_bytes b @ s \<longleftrightarrow> a = b \<and> r = s"
  unfolding encode_bytes_def append_assoc by (rule counted_bytes_field)

interpretation witness_code: prefix_code wf_witness "\<lambda>w. encode_witness C w True" for C
proof
  fix a b r s
  assume wf: "wf_witness a" "wf_witness b"
    and eq: "encode_witness C a True @ r = encode_witness C b True @ s"
  show "a = b \<and> r = s"
  proof (cases a; cases b)
    fix pk sig pk' sig'
    assume ab: "a = IW_Key pk sig" "b = IW_Key pk' sig'"
    then show ?thesis using wf eq by (simp add: wf_witness_def encode_witness_def fixed_field encode_bytes_unique)
  next
    fix t st t' st'
    assume ab: "a = IW_InferenceSettlement t st" "b = IW_InferenceSettlement t' st'"
    let ?tail = "\<lambda>x. encode_bytes (sps_customer_signature (se_state x)) @ encode_bytes (se_provider_signature x) @
      witness_digest C x"
    have e: "encode_channel_terms t @ encode_payment_state (sps_state (se_state st)) @ ?tail st @ r =
        encode_channel_terms t' @ encode_payment_state (sps_state (se_state st')) @ ?tail st' @ s"
      using eq ab by (simp add: encode_witness_def)
    from terms_code.unique [OF _ _ e] wf ab have t: "t = t'"
      "encode_payment_state (sps_state (se_state st)) @ ?tail st @ r =
        encode_payment_state (sps_state (se_state st')) @ ?tail st' @ s"
      by (simp_all add: wf_witness_def)
    from state_code.unique [OF _ _ t(2)] wf ab
    have p: "sps_state (se_state st) = sps_state (se_state st')" "?tail st @ r = ?tail st' @ s"
      by (simp_all add: wf_witness_def)
    then have "sps_customer_signature (se_state st) = sps_customer_signature (se_state st')"
      "se_provider_signature st = se_provider_signature st'" "witness_digest C st @ r = witness_digest C st' @ s"
      using wf ab by (simp_all add: wf_witness_def encode_bytes_unique)
    moreover from this p have "st = st'" by (cases st; cases st') (auto intro: signed_payment_state.equality)
    ultimately show ?thesis using ab t by simp
  next
    fix t t'
    assume ab: "a = IW_InferenceRefund t" "b = IW_InferenceRefund t'"
    then show ?thesis
      using terms_code.unique [of t t' r s] wf eq by (simp add: wf_witness_def encode_witness_def)
  qed (use eq in \<open>auto simp: encode_witness_def\<close>)
qed

lemma encode_unsigned_erase: "encode_unsigned_input C (erase_input i) = encode_unsigned_input C i"
  by (simp add: encode_unsigned_input_def erase_input_def encode_witness_def erase_witness_def
      split: input_witness.splits)

lemma wf_erase_input: "wf_input i \<Longrightarrow> wf_input (erase_input i) \<and> erase_input (erase_input i) = erase_input i"
  by (auto simp: wf_input_def erase_input_def erase_witness_def wf_witness_def split: input_witness.splits)

interpretation unsigned_code: prefix_code "\<lambda>i. wf_input i \<and> erase_input i = i" "encode_unsigned_input C" for C
proof
  fix i j r s
  assume wf: "wf_input i \<and> erase_input i = i" "wf_input j \<and> erase_input j = j"
    and eq: "encode_unsigned_input C i @ r = encode_unsigned_input C j @ s"
  let ?a = "ti_witness i" and ?b = "ti_witness j"
  have prev: "ti_previous i = ti_previous j" and w: "encode_witness C ?a False @ r = encode_witness C ?b False @ s"
    using wf eq by (auto simp: encode_unsigned_input_def wf_input_def fixed_field le_field intro: out_point.equality)
  have ea: "erase_witness ?a = ?a" "erase_witness ?b = ?b"
    using wf by (auto simp: erase_input_def) (metis tx_input.select_convs(2) tx_input.surjective tx_input.update_convs(2))+
  have wfw: "wf_witness ?a" "wf_witness ?b" using wf by (simp_all add: wf_input_def)
  have "?a = ?b \<and> r = s"
  proof (cases ?a; cases ?b)
    fix pk sig pk' sig'
    assume "?a = IW_Key pk sig" "?b = IW_Key pk' sig'"
    then show ?thesis using w wfw ea by (auto simp: wf_witness_def encode_witness_def erase_witness_def fixed_field)
  next
    fix t st t' st'
    assume ab: "?a = IW_InferenceSettlement t st" "?b = IW_InferenceSettlement t' st'"
    have e: "encode_channel_terms t @ encode_payment_state (sps_state (se_state st)) @ r =
        encode_channel_terms t' @ encode_payment_state (sps_state (se_state st')) @ s"
      using w ab by (simp add: encode_witness_def)
    from terms_code.unique [OF _ _ e] wfw ab have t: "t = t'"
      "encode_payment_state (sps_state (se_state st)) @ r = encode_payment_state (sps_state (se_state st')) @ s"
      by (simp_all add: wf_witness_def)
    from state_code.unique [OF _ _ t(2)] wfw ab
    have "sps_state (se_state st) = sps_state (se_state st')" "r = s" by (simp_all add: wf_witness_def)
    with ea ab t show ?thesis
      by (cases st; cases st'; cases "se_state st"; cases "se_state st'") (auto simp: erase_witness_def)
  next
    fix t t'
    assume ab: "?a = IW_InferenceRefund t" "?b = IW_InferenceRefund t'"
    then show ?thesis
      using terms_code.unique [of t t' r s] wfw w by (simp add: wf_witness_def encode_witness_def)
  qed (use w in \<open>auto simp: encode_witness_def\<close>)
  with prev show "i = j \<and> r = s" by (auto intro: tx_input.equality)
qed

lemma encode_outputs_unique:
  assumes "list_all wf_output a" "list_all wf_output b" "length a < 2 ^ 64" "length b < 2 ^ 64"
    "encode_outputs a @ r = encode_outputs b @ s"
  shows "a = b \<and> r = s"
  using output_code.counted [OF assms(3,4,1,2), of r s] assms(5) by (simp add: encode_outputs_def)

lemma encode_unsigned_unique:
  assumes t: "wf_transaction t" and u: "wf_transaction u"
    and eq: "encode_unsigned_transaction C t @ r = encode_unsigned_transaction C u @ s"
  shows "erase_signatures t = erase_signatures u \<and> r = s"
proof -
  have map_erase: "map (encode_unsigned_input C) is = map (encode_unsigned_input C) (map erase_input is)" for "is"
    by (simp add: encode_unsigned_erase)
  have w: "list_all (\<lambda>i. wf_input i \<and> erase_input i = i) (map erase_input (tx_inputs x))"
    if "wf_transaction x" for x
    using that wf_erase_input by (auto simp: wf_transaction_def list_all_iff)
  have head: "tx_network_id t = tx_network_id u" "tx_version t = tx_version u"
    and rest: "to_le_bytes (word_of_nat (length (map erase_input (tx_inputs t))) :: u64) @
        concat (map (encode_unsigned_input C) (map erase_input (tx_inputs t))) @ encode_outputs (tx_outputs t) @ r =
      to_le_bytes (word_of_nat (length (map erase_input (tx_inputs u))) :: u64) @
        concat (map (encode_unsigned_input C) (map erase_input (tx_inputs u))) @ encode_outputs (tx_outputs u) @ s"
    using eq t u map_erase [of "tx_inputs t"] map_erase [of "tx_inputs u"]
    by (simp_all add: encode_unsigned_transaction_def wf_transaction_def fixed_field le_field)
  have i: "map erase_input (tx_inputs t) = map erase_input (tx_inputs u)"
    "encode_outputs (tx_outputs t) @ r = encode_outputs (tx_outputs u) @ s"
    using unsigned_code.counted [OF _ _ w [OF t] w [OF u] rest] t u by (simp_all add: wf_transaction_def)
  have "tx_outputs t = tx_outputs u \<and> r = s"
    using encode_outputs_unique [OF _ _ _ _ i(2)] t u by (simp add: wf_transaction_def)
  then show ?thesis
    using head i(1) by (auto simp: erase_signatures_def intro: transaction.equality)
qed

lemma txid_preimage_unique:
  assumes t: "wf_transaction t" and u: "wf_transaction u" and eq: "txid_preimage C t = txid_preimage C u"
  shows "t = u"
proof -
  let ?wits = "\<lambda>x. map ti_witness (tx_inputs x)"
  let ?enc = "\<lambda>w. encode_witness C w True"
  have e: "encode_unsigned_transaction C t @ concat (map ?enc (?wits t)) =
      encode_unsigned_transaction C u @ concat (map ?enc (?wits u))"
    using eq by (simp add: txid_preimage_def comp_def)
  from encode_unsigned_unique [OF t u e]
  have er: "erase_signatures t = erase_signatures u" and w: "concat (map ?enc (?wits t)) = concat (map ?enc (?wits u))"
    by simp_all
  have inputs: "map erase_input (tx_inputs t) = map erase_input (tx_inputs u)"
    using arg_cong [OF er, of tx_inputs] by (simp add: erase_signatures_def)
  then have len: "length (?wits t) = length (?wits u)" by (metis length_map)
  have wf: "list_all wf_witness (?wits x)" if "wf_transaction x" for x
    using that by (auto simp: wf_transaction_def wf_input_def list_all_iff)
  have wits: "?wits t = ?wits u"
    using witness_code.seq [OF len wf [OF t] wf [OF u], of C "[]" "[]"] w by simp
  have prevs: "map ti_previous (tx_inputs t) = map ti_previous (tx_inputs u)"
    using arg_cong [OF inputs, of "map ti_previous"] by (simp add: erase_input_def comp_def)
  have "tx_inputs t = tx_inputs u"
  proof (rule nth_equalityI)
    fix k assume k: "k < length (tx_inputs t)"
    with len have k': "k < length (tx_inputs u)" by simp
    show "tx_inputs t ! k = tx_inputs u ! k"
      using arg_cong [OF wits, of "\<lambda>xs. xs ! k"] arg_cong [OF prevs, of "\<lambda>xs. xs ! k"] k k'
      by (auto intro: tx_input.equality)
  qed (use len in simp)
  moreover have "tx_network_id t = tx_network_id u" "tx_version t = tx_version u" "tx_outputs t = tx_outputs u"
    using arg_cong [OF er, of tx_network_id] arg_cong [OF er, of tx_version] arg_cong [OF er, of tx_outputs]
    by (simp_all add: erase_signatures_def)
  ultimately show ?thesis by (auto intro: transaction.equality)
qed

section \<open>Signing\<close>

definition key_inputs :: "tx_input list \<Rightarrow> bool" where
  "key_inputs is = list_all (\<lambda>i. case ti_witness i of IW_Key _ _ \<Rightarrow> True | _ \<Rightarrow> False) is"

lemma reset_witnesses_exact:
  assumes "length ks = length is" "key_inputs is"
  shows "reset_witnesses C is ks =
    (map2 (\<lambda>i k. i\<lparr>ti_witness := IW_Key (verifying_key C k) []\<rparr>) is ks, True)"
  using assms
  by (induction ks "is" rule: list_induct2) (auto simp: key_inputs_def split: input_witness.splits)

lemma sign_witnesses_exact:
  assumes "length ks = length is"
  shows "sign_witnesses C d (map2 (\<lambda>i k. i\<lparr>ti_witness := IW_Key (verifying_key C k) []\<rparr>) is ks) ks =
    (map2 (\<lambda>i k. i\<lparr>ti_witness := IW_Key (verifying_key C k) (schnorr_sign C k d)\<rparr>) is ks, True)"
  using assms by (induction ks "is" rule: list_induct2) simp_all

lemma encode_unsigned_ignores_signatures:
  assumes "length ks = length is"
  shows "map (encode_unsigned_input C) (map2 (\<lambda>i k. i\<lparr>ti_witness := IW_Key (verifying_key C k) (f k)\<rparr>) is ks) =
    map (encode_unsigned_input C) (map2 (\<lambda>i k. i\<lparr>ti_witness := IW_Key (verifying_key C k) []\<rparr>) is ks)"
  using assms
  by (induction ks "is" rule: list_induct2) (simp_all add: encode_unsigned_input_def encode_witness_def)

section \<open>Merkle roots\<close>

lemma pair_pad_nonempty:
  assumes "1 < length level"
  shows "pair_level C (pad_level level) \<noteq> []"
proof -
  have "0 < length (pair_level C (pad_level level))" using assms by (simp add: length_pad_level)
  then show ?thesis unfolding length_greater_0_conv .
qed

lemma merkle_levels_length: "level \<noteq> [] \<Longrightarrow> length (merkle_levels C level) = 1"
proof (induction C level rule: merkle_levels.induct)
  case (1 C level)
  show ?case
  proof (cases "1 < length level")
    case True
    from "1.IH" [OF True pair_pad_nonempty [OF True]] True show ?thesis
      by (subst merkle_levels.simps) simp
  next
    case False
    with "1.prems" show ?thesis by (subst merkle_levels.simps) (cases level, auto)
  qed
qed

lemma merkle_levels_pad:
  assumes "1 < length level"
  shows "merkle_levels C (pad_level level) = merkle_levels C level"
proof -
  have "level \<noteq> []" "1 < length (pad_level level)" using assms by (auto simp: length_pad_level)
  moreover have "pad_level (pad_level level) = pad_level level" by (simp add: pad_level_def)
  ultimately show ?thesis
    using assms by (subst (1 2) merkle_levels.simps) simp
qed

definition hash_collision :: "crypto \<Rightarrow> string \<Rightarrow> bool" where
  "hash_collision C domain \<longleftrightarrow> (\<exists>a b. a \<noteq> b \<and> b3_derive C domain a = b3_derive C domain b)"

lemma pair_level_collision:
  assumes "length xs = length ys" "even (length xs)" "pair_level C xs = pair_level C ys" "xs \<noteq> ys"
    "list_all (\<lambda>h. length h = 32) xs" "list_all (\<lambda>h. length h = 32) ys"
  shows "hash_collision C MERKLE_NODE_DOMAIN"
  using assms
proof (induction C xs arbitrary: ys rule: pair_level.induct)
  case (1 C a b rest)
  then obtain a' b' rest' where ys: "ys = a' # b' # rest'" by (cases ys; cases "tl ys") auto
  show ?case
  proof (cases "a @ b = a' @ b'")
    case True
    then have "a = a' \<and> b = b'" using 1 ys by (simp add: fixed_field)
    then show ?thesis using 1 ys by auto
  next
    case False
    moreover have "b3_derive C MERKLE_NODE_DOMAIN (a @ b) = b3_derive C MERKLE_NODE_DOMAIN (a' @ b')"
      using "1.prems"(3) by (simp add: ys merkle_node_def)
    ultimately show ?thesis unfolding hash_collision_def by blast
  qed
qed auto

lemma pair_level_lengths:
  assumes "crypto_ok C"
  shows "list_all (\<lambda>h. length h = 32) (pair_level C xs)"
  using assms by (induction C xs rule: pair_level.induct) (simp_all add: merkle_node_def crypto_lengths)

lemma pad_level_eq:
  assumes "length xs = length ys" "pad_level xs = pad_level ys"
  shows "xs = ys"
  using assms by (auto simp: pad_level_def split: if_splits)

lemma merkle_levels_collision:
  assumes C: "crypto_ok C" and len: "length xs = length ys" and "merkle_levels C xs = merkle_levels C ys"
    and "xs \<noteq> ys" "list_all (\<lambda>h. length h = 32) xs" "list_all (\<lambda>h. length h = 32) ys"
  shows "hash_collision C MERKLE_NODE_DOMAIN"
  using assms
proof (induction C xs arbitrary: ys rule: merkle_levels.induct)
  case (1 C xs)
  show ?case
  proof (cases "1 < length xs")
    case True
    let ?p = "pad_level xs" and ?q = "pad_level ys"
    have eq: "merkle_levels C (pair_level C ?p) = merkle_levels C (pair_level C ?q)"
      using "1.prems"(2,3) True by (metis merkle_levels.simps)
    have len: "length ?p = length ?q" "even (length ?p)" using "1.prems"(2) by (auto simp: length_pad_level)
    have ne: "?p \<noteq> ?q" using pad_level_eq "1.prems"(2,4) by blast
    have last: "last zs \<in> set zs" if "1 < length zs" for zs :: "hash32 list" using that by (cases zs rule: rev_cases) auto
    have l32: "list_all (\<lambda>h. length h = 32) ?p" "list_all (\<lambda>h. length h = 32) ?q"
      using "1.prems"(2,5,6) True last [of xs] last [of ys] by (auto simp: pad_level_def list_all_iff)
    show ?thesis
    proof (cases "pair_level C ?p = pair_level C ?q")
      case True
      then show ?thesis using pair_level_collision [OF len _ ne l32] by blast
    next
      case False
      show ?thesis
        by (rule "1.IH" [OF True "1.prems"(1) _ eq False])
          (use len pair_level_lengths [OF "1.prems"(1)] in simp_all)
    qed
  next
    case False
    with "1.prems"(2,3) have "xs = ys" by (metis merkle_levels.simps)
    with "1.prems"(4) show ?thesis by simp
  qed
qed

lemma merkle_root_pad:
  assumes "odd (length ids)" "1 < length ids"
  shows "merkle_root C (ids @ [last ids]) = merkle_root C ids"
proof -
  have ne: "ids \<noteq> []" using assms(2) by auto
  then have "map (merkle_leaf C) (ids @ [last ids]) = pad_level (map (merkle_leaf C) ids)"
    using assms(1) by (simp add: pad_level_def last_map)
  then show ?thesis using assms(2) ne merkle_levels_pad [of "map (merkle_leaf C) ids" C] by (simp add: merkle_root_def)
qed

section \<open>Properties\<close>

definition demo_input :: tx_input where
  "demo_input = \<lparr>ti_previous = \<lparr>op_txid = replicate 32 9, op_index = 1\<rparr>,
     ti_witness = IW_Key (replicate 32 4) (replicate 64 7)\<rparr>"

definition demo_output :: tx_output where
  "demo_output = \<lparr>to_value = 500, to_lock = OL_Key (replicate 32 6), to_spendable_height = 3\<rparr>"

definition demo_transaction :: transaction where
  "demo_transaction = \<lparr>tx_network_id = replicate 32 1, tx_version = 1, tx_inputs = [demo_input],
     tx_outputs = [demo_output]\<rparr>"

lemma wf_demo_transaction: "wf_transaction demo_transaction"
  by (simp add: wf_transaction_def demo_transaction_def demo_input_def demo_output_def wf_input_def wf_witness_def
      wf_output_def wf_lock_def)

text \<open>The byte string a transaction identifier hashes is read in one way only: two
  well-formed transactions with the same string are equal, signatures included, and two with
  the same signing string agree on everything but their signatures.\<close>

theorem transaction_preimages_identify:
  assumes "wf_transaction t" "wf_transaction u"
  shows "(txid_preimage C t = txid_preimage C u \<longleftrightarrow> t = u) \<and>
    (encode_unsigned_transaction C t = encode_unsigned_transaction C u \<longleftrightarrow>
       erase_signatures t = erase_signatures u)"
proof -
  have er: "encode_unsigned_transaction C x = encode_unsigned_transaction C (erase_signatures x)" for x
    by (simp add: encode_unsigned_transaction_def erase_signatures_def comp_def encode_unsigned_erase)
  have "encode_unsigned_transaction C t = encode_unsigned_transaction C u"
    if "erase_signatures t = erase_signatures u"
    by (subst er [of t], subst er [of u]) (simp only: that)
  moreover have "erase_signatures t = erase_signatures u"
    if "encode_unsigned_transaction C t = encode_unsigned_transaction C u"
    using encode_unsigned_unique [OF assms, of C "[]" "[]"] that by blast
  ultimately show ?thesis using txid_preimage_unique [OF assms, of C] by blast
qed

theorem transaction_preimages_identify_witness:
  "txid_preimage demo_crypto demo_transaction \<noteq>
     txid_preimage demo_crypto (demo_transaction\<lparr>tx_version := 2\<rparr>)"
proof -
  have "wf_transaction (demo_transaction\<lparr>tx_version := 2\<rparr>)"
    using wf_demo_transaction by (simp add: wf_transaction_def)
  moreover have "demo_transaction \<noteq> demo_transaction\<lparr>tx_version := 2\<rparr>" by (simp add: demo_transaction_def)
  ultimately show ?thesis using transaction_preimages_identify [OF wf_demo_transaction] by blast
qed

text \<open>Signing a transaction whose inputs all carry key witnesses succeeds, leaves everything
  but the witnesses alone, and gives every input the signer's key and a signature that verifies
  over the signing digest of the signed transaction.\<close>

theorem sign_all_signs_every_input:
  assumes "length keys = length (tx_inputs t)" "key_inputs (tx_inputs t)" "list_all (signer_ok C) keys"
  shows "\<exists>u. sign_all C keys t = (u, Ok ()) \<and> tx_outputs u = tx_outputs t \<and>
    map ti_previous (tx_inputs u) = map ti_previous (tx_inputs t) \<and>
    (\<forall>k<length keys. \<exists>sig. ti_witness (tx_inputs u ! k) = IW_Key (verifying_key C (keys ! k)) sig \<and>
       schnorr_verify C (verifying_key C (keys ! k)) (signing_digest C u) sig)"
proof -
  let ?f = "\<lambda>g. map2 (\<lambda>i k. i\<lparr>ti_witness := IW_Key (verifying_key C k) (g k)\<rparr>) (tx_inputs t) keys"
  let ?t = "t\<lparr>tx_inputs := ?f (\<lambda>_. [])\<rparr>"
  define d where "d = signing_digest C ?t"
  define u where "u = t\<lparr>tx_inputs := ?f (\<lambda>k. schnorr_sign C k d)\<rparr>"
  have sign: "sign_all C keys t = (u, Ok ())"
    using assms(1,2)
    by (simp add: sign_all_def reset_witnesses_exact sign_witnesses_exact Let_def u_def d_def)
  have iu: "tx_inputs u = ?f (\<lambda>k. schnorr_sign C k d)" and it: "tx_inputs ?t = ?f (\<lambda>_. [])"
    unfolding u_def by simp_all
  have m: "map (encode_unsigned_input C) (tx_inputs u) = map (encode_unsigned_input C) (tx_inputs ?t)"
    unfolding iu it by (rule encode_unsigned_ignores_signatures [OF assms(1)])
  have "encode_unsigned_transaction C u = encode_unsigned_transaction C ?t"
    unfolding encode_unsigned_transaction_def m by (simp add: u_def)
  then have dig: "signing_digest C u = d" by (simp add: d_def signing_digest_def)
  have "ti_witness (tx_inputs u ! k) = IW_Key (verifying_key C (keys ! k)) (schnorr_sign C (keys ! k) d) \<and>
      schnorr_verify C (verifying_key C (keys ! k)) (signing_digest C u) (schnorr_sign C (keys ! k) d)"
    if "k < length keys" for k
    using that assms(1,3) unfolding dig by (simp add: u_def list_all_length signer_ok_def)
  moreover have "map ti_previous (tx_inputs u) = map ti_previous (tx_inputs t)"
    using assms(1) by (auto simp: u_def intro: nth_equalityI)
  ultimately show ?thesis using sign by (auto simp: u_def)
qed

theorem sign_all_signs_every_input_witness:
  "\<exists>u sig. sign_all demo_crypto [replicate 32 8] demo_transaction = (u, Ok ()) \<and>
     ti_witness (tx_inputs u ! 0) = IW_Key (verifying_key demo_crypto (replicate 32 8)) sig"
proof -
  have "key_inputs (tx_inputs demo_transaction)" "length [replicate 32 8] = length (tx_inputs demo_transaction)"
    "list_all (signer_ok demo_crypto) [replicate 32 8]"
    by (simp_all add: key_inputs_def demo_transaction_def demo_input_def)
  from sign_all_signs_every_input [OF this(2,1,3)] show ?thesis
  proof (elim exE conjE)
    fix u
    assume u: "sign_all demo_crypto [replicate 32 8] demo_transaction = (u, Ok ())"
      and all: "\<forall>k<length [replicate 32 8]. \<exists>sig. ti_witness (tx_inputs u ! k) =
          IW_Key (verifying_key demo_crypto ([replicate 32 8] ! k)) sig \<and>
        schnorr_verify demo_crypto (verifying_key demo_crypto ([replicate 32 8] ! k)) (signing_digest demo_crypto u) sig"
    from all [rule_format, of 0] u show ?thesis by auto
  qed
qed

text \<open>The Merkle root binds the list of identifiers up to its length: two different lists of
  the same length with the same root exhibit two different strings with the same leaf or node
  hash. The length is not bound: repeating the last identifier of a list of odd length above one
  keeps the root.\<close>

theorem merkle_root_binds_same_length:
  assumes "crypto_ok C" "length xs = length ys" "xs \<noteq> ys" "merkle_root C xs = merkle_root C ys"
    and "odd (length ids)" "1 < length ids"
  shows "(hash_collision C MERKLE_LEAF_DOMAIN \<or> hash_collision C MERKLE_NODE_DOMAIN) \<and>
    merkle_root C (ids @ [last ids]) = merkle_root C ids"
proof -
  let ?l = "map (merkle_leaf C) xs" and ?m = "map (merkle_leaf C) ys"
  have ne: "xs \<noteq> []" "ys \<noteq> []" using assms(2,3) by auto
  have "hash_collision C MERKLE_LEAF_DOMAIN \<or> hash_collision C MERKLE_NODE_DOMAIN"
  proof (cases "?l = ?m")
    case True
    obtain k where "k < length xs" "xs ! k \<noteq> ys ! k" using assms(2,3) by (metis nth_equalityI)
    with True assms(2) show ?thesis
      unfolding hash_collision_def by (metis merkle_leaf_def nth_map)
  next
    case False
    have "length (merkle_levels C ?l) = 1" "length (merkle_levels C ?m) = 1"
      using ne by (simp_all add: merkle_levels_length)
    then have "merkle_levels C ?l = merkle_levels C ?m"
      using assms(4) ne by (simp add: merkle_root_def) (metis length_0_conv length_Suc_conv list.sel(1))
    then show ?thesis
      using merkle_levels_collision [OF assms(1), of ?l ?m] False assms(1,2)
      by (simp add: list_all_iff merkle_leaf_def crypto_lengths)
  qed
  then show ?thesis using merkle_root_pad [OF assms(5,6)] by blast
qed

theorem merkle_root_binds_same_length_witness:
  "hash_collision demo_crypto MERKLE_LEAF_DOMAIN \<or> hash_collision demo_crypto MERKLE_NODE_DOMAIN"
  using merkle_root_binds_same_length [of demo_crypto "[zero32]" "[replicate 32 1]" "[[], [], []]"]
  by (simp add: merkle_root_def merkle_levels.simps merkle_leaf_def demo_crypto_simps)
    (metis zero32_replicate zero_neq_one)

end
