(* ===== verification/CF_Wire.thy ===== *)
theory CF_Wire
  imports CF_Stream CF_Types
begin

text \<open>
  The wire format of \<open>crates/cmfd-consensus/src/wire.rs\<close>: framed transactions, proofs and
  blocks with their size, count and network checks. Each pair of an \<open>encode_x\<close> and a \<open>decode_x\<close>
  of the source is an interpretation of \<open>wire_codec\<close>; the frame and the three public pairs are
  characterised exactly on top of them.
\<close>

section \<open>Network magic and frames\<close>

definition network_magic :: "crypto \<Rightarrow> hash32 \<Rightarrow> byte list" where
  "network_magic C network_id = take 4 (b3_derive C NETWORK_MAGIC_DOMAIN network_id)"

definition encode_frame ::
  "crypto \<Rightarrow> u8 \<Rightarrow> hash32 \<Rightarrow> byte list \<Rightarrow> nat \<Rightarrow> string \<Rightarrow> (wire_error, byte list) outcome" where
  "encode_frame C kind network_id payload maximum_bytes object_name =
     obind (ensure_payload_size (length payload) maximum_bytes object_name) (\<lambda>_.
     obind (u32_of_usize (length payload)) (\<lambda>payload_length.
     obind (ok_or WE_LengthOverflow (usize_add WIRE_HEADER_BYTES (length payload))) (\<lambda>total.
     Ok (FRAME_MAGIC @ network_magic C network_id @ to_le_bytes WIRE_VERSION @ [kind] @ [0] @
         to_le_bytes payload_length @ payload))))"

definition decode_frame ::
  "crypto \<Rightarrow> byte list \<Rightarrow> hash32 \<Rightarrow> u8 \<Rightarrow> nat \<Rightarrow> string \<Rightarrow> (wire_error, byte list) outcome" where
  "decode_frame C bytes expected_network_id expected_kind maximum_bytes object_name =
     (if length bytes < WIRE_HEADER_BYTES then Err (WE_Truncated WIRE_HEADER_BYTES (length bytes))
      else if maximum_bytes < length bytes then Err (WE_SizeLimit object_name (length bytes) maximum_bytes)
      else
        obind (slice_or_panic bytes 0 4) (\<lambda>magic.
        if magic \<noteq> FRAME_MAGIC then Err WE_InvalidMagic
        else
        obind (slice_or_panic bytes 4 8) (\<lambda>net.
        if net \<noteq> network_magic C expected_network_id then Err WE_WrongNetworkMagic
        else
        obind (index_or_panic bytes 8) (\<lambda>b8. obind (index_or_panic bytes 9) (\<lambda>b9.
        let version = from_le_bytes [b8, b9] :: u16 in
        if version \<noteq> WIRE_VERSION then Err (WE_UnsupportedVersion version)
        else
        obind (index_or_panic bytes 10) (\<lambda>kind.
        if kind \<noteq> expected_kind then Err (WE_UnexpectedKind expected_kind kind)
        else
        obind (index_or_panic bytes 11) (\<lambda>flags.
        if flags \<noteq> 0 then Err (WE_NonZeroFlags flags)
        else
        obind (index_or_panic bytes 12) (\<lambda>b12. obind (index_or_panic bytes 13) (\<lambda>b13.
        obind (index_or_panic bytes 14) (\<lambda>b14. obind (index_or_panic bytes 15) (\<lambda>b15.
        let payload_length = unat (from_le_bytes [b12, b13, b14, b15] :: u32) in
        obind (ensure_payload_size payload_length maximum_bytes object_name) (\<lambda>_.
        obind (usize_sub_or_panic (length bytes) WIRE_HEADER_BYTES) (\<lambda>actual_payload.
        if actual_payload < payload_length then Err (WE_Truncated payload_length actual_payload)
        else if payload_length < actual_payload then Err (WE_TrailingBytes (actual_payload - payload_length))
        else slice_or_panic bytes WIRE_HEADER_BYTES (length bytes))))))))))))))"

section \<open>Element encoders\<close>

definition wire_encode_signature :: "byte list \<Rightarrow> writer \<Rightarrow> (wire_error, writer) outcome" where
  "wire_encode_signature signature w =
     (if length signature \<noteq> CONSENSUS_SIGNATURE_BYTES then Err (WE_SignatureLength (length signature))
      else wr_put signature w)"

definition wire_decode_signature :: "reader \<Rightarrow> (wire_error, byte list \<times> reader) outcome" where
  "wire_decode_signature r = rd_array CONSENSUS_SIGNATURE_BYTES r"

definition wire_encode_output :: "tx_output \<Rightarrow> writer \<Rightarrow> (wire_error, writer) outcome" where
  "wire_encode_output out w =
     obind (wr_u64 (to_value out) w) (\<lambda>w.
     obind (case to_lock out of
              OL_Key owner \<Rightarrow> obind (wr_u8 0 w) (wr_put owner)
            | OL_InferenceChannel channel_id \<Rightarrow> obind (wr_u8 1 w) (wr_put channel_id)) (\<lambda>w.
     wr_u64 (to_spendable_height out) w))"

definition wire_decode_lock :: "u8 \<Rightarrow> reader \<Rightarrow> (wire_error, output_lock \<times> reader) outcome" where
  "wire_decode_lock tag r =
     (if tag = 0 then obind (rd_array 32 r) (\<lambda>(owner, r). Ok (OL_Key owner, r))
      else if tag = 1 then obind (rd_array 32 r) (\<lambda>(channel_id, r). Ok (OL_InferenceChannel channel_id, r))
      else Err (WE_UnknownTag ''output lock'' tag))"

definition wire_decode_output :: "reader \<Rightarrow> (wire_error, tx_output \<times> reader) outcome" where
  "wire_decode_output r =
     obind (rd_u64 r) (\<lambda>(amount, r).
     obind (rd_u8 r) (\<lambda>(tag, r).
     obind (wire_decode_lock tag r) (\<lambda>(lock, r).
     obind (rd_u64 r) (\<lambda>(spendable_height, r).
     Ok (\<lparr>to_value = amount, to_lock = lock, to_spendable_height = spendable_height\<rparr>, r)))))"

definition wire_encode_channel_terms :: "channel_terms \<Rightarrow> writer \<Rightarrow> (wire_error, writer) outcome" where
  "wire_encode_channel_terms t w =
     obind (wr_put (ct_network_id t) w) (\<lambda>w.
     obind (wr_put (ct_job_id t) w) (\<lambda>w.
     obind (wr_put (ct_customer_key t) w) (\<lambda>w.
     obind (wr_put (ct_provider_key t) w) (\<lambda>w.
     obind (wr_put (ct_model_digest t) w) (\<lambda>w.
     obind (wr_put (ct_runtime_digest t) w) (\<lambda>w.
     obind (wr_put (ct_input_digest t) w) (\<lambda>w.
     ofold (\<lambda>w v. wr_u64 v w) w
       [ct_deposit t, ct_close_fee_burn t, ct_base_price t, ct_input_price_per_1000 t,
        ct_output_price_per_1000 t, ct_max_input_tokens t, ct_max_output_tokens t,
        ct_output_chunk_tokens t, ct_refund_height t])))))))"

definition wire_decode_channel_terms :: "hash32 \<Rightarrow> reader \<Rightarrow> (wire_error, channel_terms \<times> reader) outcome" where
  "wire_decode_channel_terms expected_network_id r =
     obind (rd_array 32 r) (\<lambda>(network_id, r).
     if network_id \<noteq> expected_network_id then Err (WE_WrongNetworkId ''channel terms'')
     else
     obind (rd_array 32 r) (\<lambda>(job_id, r).
     obind (rd_array 32 r) (\<lambda>(customer_key, r).
     obind (rd_array 32 r) (\<lambda>(provider_key, r).
     obind (rd_array 32 r) (\<lambda>(model_digest, r).
     obind (rd_array 32 r) (\<lambda>(runtime_digest, r).
     obind (rd_array 32 r) (\<lambda>(input_digest, r).
     obind (rd_u64 r) (\<lambda>(deposit, r).
     obind (rd_u64 r) (\<lambda>(close_fee_burn, r).
     obind (rd_u64 r) (\<lambda>(base_price, r).
     obind (rd_u64 r) (\<lambda>(input_price, r).
     obind (rd_u64 r) (\<lambda>(output_price, r).
     obind (rd_u64 r) (\<lambda>(max_input, r).
     obind (rd_u64 r) (\<lambda>(max_output, r).
     obind (rd_u64 r) (\<lambda>(chunk, r).
     obind (rd_u64 r) (\<lambda>(refund_height, r).
     Ok (\<lparr>ct_network_id = network_id, ct_job_id = job_id, ct_customer_key = customer_key,
          ct_provider_key = provider_key, ct_model_digest = model_digest,
          ct_runtime_digest = runtime_digest, ct_input_digest = input_digest,
          ct_deposit = deposit, ct_close_fee_burn = close_fee_burn, ct_base_price = base_price,
          ct_input_price_per_1000 = input_price, ct_output_price_per_1000 = output_price,
          ct_max_input_tokens = max_input, ct_max_output_tokens = max_output,
          ct_output_chunk_tokens = chunk, ct_refund_height = refund_height\<rparr>, r)))))))))))))))))"

definition wire_encode_payment_state :: "payment_state \<Rightarrow> writer \<Rightarrow> (wire_error, writer) outcome" where
  "wire_encode_payment_state s w =
     obind (wr_put (ps_channel_id s) w) (\<lambda>w.
     obind (wr_u64 (ps_sequence s) w) (\<lambda>w.
     obind (wr_u64 (ps_input_tokens s) w) (\<lambda>w.
     obind (wr_u64 (ps_authorized_output_tokens s) w) (\<lambda>w.
     obind (wr_u64 (ps_provider_payment s) w) (\<lambda>w.
     obind (wr_u64 (ps_customer_refund s) w) (\<lambda>w.
     obind (wr_u64 (ps_close_fee_burn s) w) (\<lambda>w.
     wr_put (ps_previous_receipt s) w)))))))"

definition wire_decode_payment_state :: "reader \<Rightarrow> (wire_error, payment_state \<times> reader) outcome" where
  "wire_decode_payment_state r =
     obind (rd_array 32 r) (\<lambda>(channel_id, r).
     obind (rd_u64 r) (\<lambda>(sequence, r).
     obind (rd_u64 r) (\<lambda>(input_tokens, r).
     obind (rd_u64 r) (\<lambda>(output_tokens, r).
     obind (rd_u64 r) (\<lambda>(payment, r).
     obind (rd_u64 r) (\<lambda>(customer_refund, r).
     obind (rd_u64 r) (\<lambda>(close_fee_burn, r).
     obind (rd_array 32 r) (\<lambda>(previous_receipt, r).
     Ok (\<lparr>ps_channel_id = channel_id, ps_sequence = sequence, ps_input_tokens = input_tokens,
          ps_authorized_output_tokens = output_tokens, ps_provider_payment = payment,
          ps_customer_refund = customer_refund, ps_close_fee_burn = close_fee_burn,
          ps_previous_receipt = previous_receipt\<rparr>, r)))))))))"

definition wire_encode_input :: "tx_input \<Rightarrow> writer \<Rightarrow> (wire_error, writer) outcome" where
  "wire_encode_input i w =
     obind (wr_put (op_txid (ti_previous i)) w) (\<lambda>w.
     obind (wr_u32 (op_index (ti_previous i)) w) (\<lambda>w.
     case ti_witness i of
       IW_Key public_key signature \<Rightarrow>
         obind (wr_u8 0 w) (\<lambda>w. obind (wr_put public_key w) (wire_encode_signature signature))
     | IW_InferenceSettlement terms settlement \<Rightarrow>
         obind (wr_u8 1 w) (\<lambda>w.
         obind (wire_encode_channel_terms terms w) (\<lambda>w.
         obind (wire_encode_payment_state (sps_state (se_state settlement)) w) (\<lambda>w.
         obind (wire_encode_signature (sps_customer_signature (se_state settlement)) w)
           (wire_encode_signature (se_provider_signature settlement)))))
     | IW_InferenceRefund terms \<Rightarrow> obind (wr_u8 2 w) (wire_encode_channel_terms terms)))"

definition wire_decode_witness :: "hash32 \<Rightarrow> u8 \<Rightarrow> reader \<Rightarrow> (wire_error, input_witness \<times> reader) outcome" where
  "wire_decode_witness expected_network_id tag r =
     (if tag = 0 then
        obind (rd_array 32 r) (\<lambda>(public_key, r).
        obind (wire_decode_signature r) (\<lambda>(signature, r).
        Ok (IW_Key public_key signature, r)))
      else if tag = 1 then
        obind (wire_decode_channel_terms expected_network_id r) (\<lambda>(terms, r).
        obind (wire_decode_payment_state r) (\<lambda>(state, r).
        obind (wire_decode_signature r) (\<lambda>(customer_signature, r).
        obind (wire_decode_signature r) (\<lambda>(provider_signature, r).
        Ok (IW_InferenceSettlement terms
              \<lparr>se_state = \<lparr>sps_state = state, sps_customer_signature = customer_signature\<rparr>,
               se_provider_signature = provider_signature\<rparr>, r)))))
      else if tag = 2 then
        obind (wire_decode_channel_terms expected_network_id r) (\<lambda>(terms, r).
        Ok (IW_InferenceRefund terms, r))
      else Err (WE_UnknownTag ''input witness'' tag))"

definition wire_decode_input :: "hash32 \<Rightarrow> reader \<Rightarrow> (wire_error, tx_input \<times> reader) outcome" where
  "wire_decode_input expected_network_id r =
     obind (rd_array 32 r) (\<lambda>(txid_bytes, r).
     obind (rd_u32 r) (\<lambda>(index, r).
     obind (rd_u8 r) (\<lambda>(tag, r).
     obind (wire_decode_witness expected_network_id tag r) (\<lambda>(witness, r).
     Ok (\<lparr>ti_previous = \<lparr>op_txid = txid_bytes, op_index = index\<rparr>, ti_witness = witness\<rparr>, r)))))"

definition wire_encode_challenge :: "block_challenge \<Rightarrow> writer \<Rightarrow> (wire_error, writer) outcome" where
  "wire_encode_challenge c w =
     obind (wr_put (bc_network_id c) w) (\<lambda>w.
     obind (wr_put (bc_previous_block c) w) (\<lambda>w.
     obind (wr_put (bc_transaction_root c) w) (\<lambda>w.
     obind (wr_u64 (bc_height c) w) (\<lambda>w.
     obind (wr_u64 (bc_timestamp c) w) (\<lambda>w.
     wr_put (bc_target c) w)))))"

definition wire_decode_challenge :: "hash32 \<Rightarrow> reader \<Rightarrow> (wire_error, block_challenge \<times> reader) outcome" where
  "wire_decode_challenge expected_network_id r =
     obind (rd_array 32 r) (\<lambda>(network_id, r).
     if network_id \<noteq> expected_network_id then Err (WE_WrongNetworkId ''block challenge'')
     else
     obind (rd_array 32 r) (\<lambda>(previous_block, r).
     obind (rd_array 32 r) (\<lambda>(root, r).
     obind (rd_u64 r) (\<lambda>(height, r).
     obind (rd_u64 r) (\<lambda>(timestamp, r).
     obind (rd_array 32 r) (\<lambda>(target, r).
     Ok (\<lparr>bc_network_id = network_id, bc_previous_block = previous_block, bc_transaction_root = root,
          bc_height = height, bc_timestamp = timestamp, bc_target = target\<rparr>, r)))))))"

definition wire_encode_coinbase :: "coinbase \<Rightarrow> writer \<Rightarrow> (wire_error, writer) outcome" where
  "wire_encode_coinbase cb w =
     obind (wr_u64 (cb_height cb) w) (\<lambda>w.
     obind (wr_count (length (cb_outputs cb)) MAX_COINBASE_OUTPUTS ''coinbase outputs'' w) (\<lambda>w.
     ofold (\<lambda>w out. wire_encode_output out w) w (cb_outputs cb)))"

definition wire_decode_coinbase :: "reader \<Rightarrow> (wire_error, coinbase \<times> reader) outcome" where
  "wire_decode_coinbase r =
     obind (rd_u64 r) (\<lambda>(height, r).
     obind (rd_count MAX_COINBASE_OUTPUTS ''coinbase outputs'' r) (\<lambda>(output_count, r).
     obind (read_many wire_decode_output output_count r) (\<lambda>(outs, r).
     Ok (\<lparr>cb_height = height, cb_outputs = outs\<rparr>, r))))"

section \<open>The bytes of a value\<close>

definition lock_bytes :: "output_lock \<Rightarrow> byte list" where
  "lock_bytes l = (case l of OL_Key owner \<Rightarrow> 0 # owner | OL_InferenceChannel channel_id \<Rightarrow> 1 # channel_id)"

definition witness_bytes :: "input_witness \<Rightarrow> byte list" where
  "witness_bytes w = (case w of
       IW_Key pk sig \<Rightarrow> 0 # pk @ sig
     | IW_InferenceSettlement t s \<Rightarrow> 1 # encode_channel_terms t @ encode_payment_state (sps_state (se_state s)) @
         sps_customer_signature (se_state s) @ se_provider_signature s
     | IW_InferenceRefund t \<Rightarrow> 2 # encode_channel_terms t)"

definition input_bytes :: "tx_input \<Rightarrow> byte list" where
  "input_bytes i = op_txid (ti_previous i) @ to_le_bytes (op_index (ti_previous i)) @ witness_bytes (ti_witness i)"

definition challenge_bytes :: "block_challenge \<Rightarrow> byte list" where
  "challenge_bytes c = bc_network_id c @ bc_previous_block c @ bc_transaction_root c @
     to_le_bytes (bc_height c) @ to_le_bytes (bc_timestamp c) @ bc_target c"

definition coinbase_bytes :: "coinbase \<Rightarrow> byte list" where
  "coinbase_bytes cb = to_le_bytes (cb_height cb) @ le32 (length (cb_outputs cb)) @
     concat (map encode_output (cb_outputs cb))"

text \<open>Signatures a witness may carry, and the network its channel terms must name.\<close>

definition signed64 :: "input_witness \<Rightarrow> bool" where
  "signed64 w = (case w of
       IW_Key _ sig \<Rightarrow> length sig = 64
     | IW_InferenceSettlement _ s \<Rightarrow> length (sps_customer_signature (se_state s)) = 64 \<and> length (se_provider_signature s) = 64
     | IW_InferenceRefund _ \<Rightarrow> True)"

definition terms_on :: "hash32 \<Rightarrow> input_witness \<Rightarrow> bool" where
  "terms_on net w = (case w of
       IW_Key _ _ \<Rightarrow> True
     | IW_InferenceSettlement t _ \<Rightarrow> ct_network_id t = net
     | IW_InferenceRefund t \<Rightarrow> ct_network_id t = net)"

definition wf_challenge :: "block_challenge \<Rightarrow> bool" where
  "wf_challenge c \<longleftrightarrow> length (bc_network_id c) = 32 \<and> length (bc_previous_block c) = 32 \<and>
     length (bc_transaction_root c) = 32 \<and> length (bc_target c) = 32"

section \<open>Every pair of element functions is a codec\<close>

lemma starts_tag: "NO_MATCH [] bs \<Longrightarrow> starts r (b # bs) \<longleftrightarrow> starts r [b] \<and> starts (skip 1 r) bs"
  using starts_append [of r "[b]" bs] by simp

lemma fits_tag: "NO_MATCH [] bs \<Longrightarrow> fits w (b # bs) \<longleftrightarrow> fits w [b] \<and> fits (emit [b] w) bs"
  using fits_append [of w "[b]" bs] by simp

lemmas stream_append = starts_append fits_append starts_tag fits_tag

lemma wire_decode_lock_Ok [wire_simps]:
  "wire_decode_lock tag r = Ok (l, r') \<longleftrightarrow> wf_lock l \<and> tag = hd (lock_bytes l) \<and>
     starts r (tl (lock_bytes l)) \<and> r' = skip 32 r"
  by (cases l) (auto simp: wire_decode_lock_def wire_simps lock_bytes_def wf_lock_def split: if_splits)

lemma lock_get_iff:
  "(\<exists>tag r1. rd_u8 r = Ok (tag, r1) \<and> wire_decode_lock tag r1 = Ok (l, r')) \<longleftrightarrow>
     wf_lock l \<and> starts r (lock_bytes l) \<and> r' = skip (length (lock_bytes l)) r"
  by (cases l) (auto simp: wire_simps lock_bytes_def wf_lock_def stream_append)

interpretation signature_wire: wire_codec "\<lambda>z. length z = 64" "\<lambda>z. length z = 64" "\<lambda>z. z"
  wire_encode_signature wire_decode_signature
proof unfold_locales
  show "safe_reader wire_decode_signature" unfolding wire_decode_signature_def [abs_def] by (intro safe_intros)
qed (auto simp: wire_encode_signature_def wire_decode_signature_def wire_simps CONSENSUS_SIGNATURE_BYTES_def)

interpretation output_wire: wire_codec "\<lambda>_. True" wf_output encode_output wire_encode_output wire_decode_output
proof unfold_locales
  have bytes: "encode_output a = to_le_bytes (to_value a) @ lock_bytes (to_lock a) @ to_le_bytes (to_spendable_height a)" for a
    by (simp add: encode_output_def lock_bytes_def split: output_lock.splits)
  show "wire_encode_output a w = Ok w' \<longleftrightarrow> True \<and> fits w (encode_output a) \<and> w' = emit (encode_output a) w" for a w w'
    by (cases "to_lock a") (auto simp: wire_encode_output_def wire_simps bytes lock_bytes_def stream_append)
  show "wire_decode_output r = Ok (a, r') \<longleftrightarrow>
      wf_output a \<and> starts r (encode_output a) \<and> r' = skip (length (encode_output a)) r" for r a r'
  proof -
    have "wire_decode_output r = Ok (a, r') \<longleftrightarrow> (\<exists>r2. starts r (to_le_bytes (to_value a)) \<and>
        (\<exists>tag r1. rd_u8 (skip 8 r) = Ok (tag, r1) \<and> wire_decode_lock tag r1 = Ok (to_lock a, r2)) \<and>
        starts r2 (to_le_bytes (to_spendable_height a)) \<and> r' = skip 8 r2)"
      by (cases a) (auto simp: wire_decode_output_def wire_simps)
    then show ?thesis unfolding lock_get_iff by (auto simp: bytes wf_output_def stream_append add.assoc)
  qed
  show "safe_reader wire_decode_output"
    unfolding wire_decode_output_def [abs_def] wire_decode_lock_def [abs_def] by (intro safe_intros)
qed simp

interpretation terms_wire: wire_codec "\<lambda>_. True" "\<lambda>t. wf_terms t \<and> ct_network_id t = net" encode_channel_terms
  wire_encode_channel_terms "wire_decode_channel_terms net" for net
proof unfold_locales
  show "wire_encode_channel_terms a w = Ok w' \<longleftrightarrow>
      True \<and> fits w (encode_channel_terms a) \<and> w' = emit (encode_channel_terms a) w" for a w w'
    by (auto simp: wire_encode_channel_terms_def wire_simps encode_channel_terms_def stream_append)
  show "wire_decode_channel_terms net r = Ok (a, r') \<longleftrightarrow> (wf_terms a \<and> ct_network_id a = net) \<and>
      starts r (encode_channel_terms a) \<and> r' = skip (length (encode_channel_terms a)) r" for r a r'
    by (cases a) (auto simp: wire_decode_channel_terms_def wire_simps encode_channel_terms_def wf_terms_def stream_append)
  show "safe_reader (wire_decode_channel_terms net)"
    unfolding wire_decode_channel_terms_def [abs_def] by (intro safe_intros)
qed simp

interpretation state_wire: wire_codec "\<lambda>_. True" wf_payment_state encode_payment_state
  wire_encode_payment_state wire_decode_payment_state
proof unfold_locales
  show "wire_encode_payment_state a w = Ok w' \<longleftrightarrow>
      True \<and> fits w (encode_payment_state a) \<and> w' = emit (encode_payment_state a) w" for a w w'
    by (auto simp: wire_encode_payment_state_def wire_simps encode_payment_state_def stream_append)
  show "wire_decode_payment_state r = Ok (a, r') \<longleftrightarrow> wf_payment_state a \<and>
      starts r (encode_payment_state a) \<and> r' = skip (length (encode_payment_state a)) r" for r a r'
    by (cases a) (auto simp: wire_decode_payment_state_def wire_simps encode_payment_state_def
        wf_payment_state_def stream_append)
  show "safe_reader wire_decode_payment_state"
    unfolding wire_decode_payment_state_def [abs_def] by (intro safe_intros)
qed simp

lemmas element_iffs = signature_wire.put_iff signature_wire.get_iff output_wire.put_iff output_wire.get_iff
  terms_wire.put_iff terms_wire.get_iff state_wire.put_iff state_wire.get_iff

lemmas element_safe = signature_wire.get_safe output_wire.get_safe terms_wire.get_safe state_wire.get_safe

lemma wire_decode_witness_Ok:
  "wire_decode_witness net tag r = Ok (x, r') \<longleftrightarrow> wf_witness x \<and> signed64 x \<and> terms_on net x \<and>
     tag = hd (witness_bytes x) \<and> starts r (tl (witness_bytes x)) \<and> r' = skip (length (tl (witness_bytes x))) r"
proof (cases x)
  case (IW_Key pk sig)
  then show ?thesis
    by (auto simp: wire_decode_witness_def wire_simps element_iffs witness_bytes_def wf_witness_def signed64_def
        terms_on_def stream_append split: if_splits)
next
  case (IW_InferenceSettlement t z)
  obtain st cs ps where z: "z = \<lparr>se_state = \<lparr>sps_state = st, sps_customer_signature = cs\<rparr>, se_provider_signature = ps\<rparr>"
    by (cases z, metis signed_payment_state.cases)
  show ?thesis
    by (auto simp: IW_InferenceSettlement z wire_decode_witness_def wire_simps element_iffs witness_bytes_def
        wf_witness_def signed64_def terms_on_def stream_append add.assoc split: if_splits)
next
  case (IW_InferenceRefund t)
  then show ?thesis
    by (auto simp: wire_decode_witness_def wire_simps element_iffs witness_bytes_def wf_witness_def signed64_def
        terms_on_def stream_append split: if_splits)
qed

lemma witness_bytes_split: "witness_bytes x = hd (witness_bytes x) # tl (witness_bytes x)"
  by (simp add: witness_bytes_def split: input_witness.splits)

interpretation input_wire: wire_codec "\<lambda>i. signed64 (ti_witness i)"
  "\<lambda>i. wf_input i \<and> signed64 (ti_witness i) \<and> terms_on net (ti_witness i)"
  input_bytes wire_encode_input "wire_decode_input net" for net
proof unfold_locales
  show "wire_encode_input a w = Ok w' \<longleftrightarrow>
      signed64 (ti_witness a) \<and> fits w (input_bytes a) \<and> w' = emit (input_bytes a) w" for a w w'
    by (cases "ti_witness a")
      (auto simp: wire_encode_input_def wire_simps element_iffs input_bytes_def witness_bytes_def signed64_def
        stream_append)
  show "wire_decode_input net r = Ok (a, r') \<longleftrightarrow> (wf_input a \<and> signed64 (ti_witness a) \<and> terms_on net (ti_witness a)) \<and>
      starts r (input_bytes a) \<and> r' = skip (length (input_bytes a)) r" for r a r'
  proof -
    obtain h k x where a: "a = \<lparr>ti_previous = \<lparr>op_txid = h, op_index = k\<rparr>, ti_witness = x\<rparr>"
      by (cases a, metis out_point.cases)
    obtain b bs where x: "witness_bytes x = b # bs" using witness_bytes_split by blast
    have "input_bytes a = h @ to_le_bytes k @ [b] @ bs" by (simp add: input_bytes_def a x)
    then show ?thesis
      by (auto simp: a x wire_decode_input_def wire_simps wire_decode_witness_Ok wf_input_def stream_append)
  qed
  show "safe_reader (wire_decode_input net)"
    unfolding wire_decode_input_def [abs_def] wire_decode_witness_def [abs_def] by (intro safe_intros element_safe)
qed simp

interpretation challenge_wire: wire_codec "\<lambda>_. True" "\<lambda>c. wf_challenge c \<and> bc_network_id c = net" challenge_bytes
  wire_encode_challenge "wire_decode_challenge net" for net
proof unfold_locales
  show "wire_encode_challenge a w = Ok w' \<longleftrightarrow>
      True \<and> fits w (challenge_bytes a) \<and> w' = emit (challenge_bytes a) w" for a w w'
    by (auto simp: wire_encode_challenge_def wire_simps challenge_bytes_def stream_append)
  show "wire_decode_challenge net r = Ok (a, r') \<longleftrightarrow> (wf_challenge a \<and> bc_network_id a = net) \<and>
      starts r (challenge_bytes a) \<and> r' = skip (length (challenge_bytes a)) r" for r a r'
    by (cases a) (auto simp: wire_decode_challenge_def wire_simps challenge_bytes_def wf_challenge_def stream_append)
  show "safe_reader (wire_decode_challenge net)"
    unfolding wire_decode_challenge_def [abs_def] by (intro safe_intros)
qed simp

text \<open>Counted sequences: the count that is checked and the elements that follow it.\<close>

lemma counted_put:
  assumes "wire_codec writable readable raw put get" "m < 2 ^ 32"
  shows "obind (wr_count (length xs) m f w) (\<lambda>w. ofold (\<lambda>w a. put a w) w xs) = Ok w' \<longleftrightarrow>
    length xs \<le> m \<and> list_all writable xs \<and> fits w (le32 (length xs) @ concat (map raw xs)) \<and>
    w' = emit (le32 (length xs) @ concat (map raw xs)) w"
proof -
  have "obind (wr_count (length xs) m f w) (\<lambda>w. ofold (\<lambda>w a. put a w) w xs) = Ok w' \<longleftrightarrow>
      length xs \<le> m \<and> fits w (le32 (length xs)) \<and>
      ofold (\<lambda>w a. put a w) (emit (le32 (length xs)) w) xs = Ok w'"
    using assms(2) by (auto simp: wire_simps)
  then show ?thesis using wire_codec.put_all_iff [OF assms(1) fits_end, of w "le32 (length xs)" xs w']
    by (auto simp: stream_append)
qed

lemma counted_get:
  assumes "wire_codec writable readable raw put get" "m < 2 ^ 32"
  shows "obind (rd_count m f r) (\<lambda>(n, r). read_many get n r) = Ok (xs, r') \<longleftrightarrow>
    length xs \<le> m \<and> list_all readable xs \<and> starts r (le32 (length xs) @ concat (map raw xs)) \<and>
    r' = skip (4 + length (concat (map raw xs))) r"
proof -
  have "obind (rd_count m f r) (\<lambda>(n, r). read_many get n r) = Ok (xs, r') \<longleftrightarrow>
      (\<exists>n. n \<le> m \<and> starts r (le32 n) \<and> read_many get n (skip 4 r) = Ok (xs, r'))"
    using assms(2) by (auto simp: wire_simps)
  also have "\<dots> \<longleftrightarrow> (\<exists>n. n \<le> m \<and> starts r (le32 n) \<and> length xs = n \<and> list_all readable xs \<and>
      starts (skip 4 r) (concat (map raw xs)) \<and> r' = skip (length (concat (map raw xs))) (skip 4 r))"
  proof -
    have "starts (skip 4 r) []" if "starts r (le32 n)" for n using starts_end [OF that] by simp
    then show ?thesis using wire_codec.get_all_iff [OF assms(1), of "skip 4 r" _ xs r'] by blast
  qed
  finally show ?thesis by (auto simp: stream_append)
qed

interpretation coinbase_wire: wire_codec "\<lambda>cb. length (cb_outputs cb) \<le> 3"
  "\<lambda>cb. length (cb_outputs cb) \<le> 3 \<and> list_all wf_output (cb_outputs cb)" coinbase_bytes
  wire_encode_coinbase wire_decode_coinbase
proof unfold_locales
  have max: "MAX_COINBASE_OUTPUTS < 2 ^ 32" "MAX_COINBASE_OUTPUTS = 3" by (simp_all add: MAX_COINBASE_OUTPUTS_def)
  show "wire_encode_coinbase a w = Ok w' \<longleftrightarrow>
      length (cb_outputs a) \<le> 3 \<and> fits w (coinbase_bytes a) \<and> w' = emit (coinbase_bytes a) w" for a w w'
  proof -
    have "wire_encode_coinbase a w = Ok w' \<longleftrightarrow> fits w (to_le_bytes (cb_height a)) \<and>
        obind (wr_count (length (cb_outputs a)) MAX_COINBASE_OUTPUTS ''coinbase outputs'' (emit (to_le_bytes (cb_height a)) w))
          (\<lambda>w. ofold (\<lambda>w out. wire_encode_output out w) w (cb_outputs a)) = Ok w'"
      by (simp only: wire_encode_coinbase_def obind_eq_Ok wr_u_Ok) blast
    then show ?thesis
      unfolding counted_put [OF output_wire.wire_codec_axioms max(1)]
      by (auto simp: coinbase_bytes_def stream_append max(2) list_all_iff)
  qed
  show "wire_decode_coinbase r = Ok (a, r') \<longleftrightarrow> (length (cb_outputs a) \<le> 3 \<and> list_all wf_output (cb_outputs a)) \<and>
      starts r (coinbase_bytes a) \<and> r' = skip (length (coinbase_bytes a)) r" for r a r'
  proof -
    have "wire_decode_coinbase r = Ok (a, r') \<longleftrightarrow> starts r (to_le_bytes (cb_height a)) \<and>
        obind (rd_count MAX_COINBASE_OUTPUTS ''coinbase outputs'' (skip 8 r))
          (\<lambda>(n, r). read_many wire_decode_output n r) = Ok (cb_outputs a, r')"
      by (cases a) (auto simp: wire_decode_coinbase_def rd_u64_Ok)
    then show ?thesis
      unfolding counted_get [OF output_wire.wire_codec_axioms max(1)]
      by (auto simp: coinbase_bytes_def stream_append max(2) add.assoc)
  qed
  show "safe_reader wire_decode_coinbase"
    unfolding wire_decode_coinbase_def [abs_def] by (intro safe_intros element_safe)
qed simp

end
