(* ===== verification/CF_Wire_Objects.thy ===== *)
theory CF_Wire_Objects
  imports CF_Wire
begin

text \<open>
  Payloads and framed objects of \<open>crates/cmfd-consensus/src/wire.rs\<close>: transactions, proofs and
  blocks, with the shape and resource checks of both directions. The decoders accept exactly
  the canonical frames the encoders write for the expected network, and they never panic.
\<close>

section \<open>Shape checks\<close>

definition check_terms_network :: "channel_terms \<Rightarrow> hash32 \<Rightarrow> (wire_error, unit) outcome" where
  "check_terms_network terms expected_network_id =
     (if ct_network_id terms \<noteq> expected_network_id then Err (WE_WrongNetworkId ''channel terms'') else Ok ())"

definition check_signature :: "byte list \<Rightarrow> (wire_error, unit) outcome" where
  "check_signature signature =
     (if length signature \<noteq> CONSENSUS_SIGNATURE_BYTES then Err (WE_SignatureLength (length signature)) else Ok ())"

definition check_witness :: "hash32 \<Rightarrow> input_witness \<Rightarrow> (wire_error, unit) outcome" where
  "check_witness expected_network_id witness =
     (case witness of
        IW_Key _ signature \<Rightarrow> check_signature signature
      | IW_InferenceSettlement terms settlement \<Rightarrow>
          obind (check_terms_network terms expected_network_id) (\<lambda>_.
          obind (check_signature (sps_customer_signature (se_state settlement))) (\<lambda>_.
          check_signature (se_provider_signature settlement)))
      | IW_InferenceRefund terms \<Rightarrow> check_terms_network terms expected_network_id)"

definition validate_transaction_shape :: "transaction \<Rightarrow> hash32 \<Rightarrow> (wire_error, unit) outcome" where
  "validate_transaction_shape t expected_network_id =
     (if tx_network_id t \<noteq> expected_network_id then Err (WE_WrongNetworkId ''transaction'')
      else
        obind (check_count (length (tx_inputs t)) MAX_TRANSACTION_INPUTS ''transaction inputs'') (\<lambda>_.
        obind (check_count (length (tx_outputs t)) MAX_TRANSACTION_OUTPUTS ''transaction outputs'') (\<lambda>_.
        ofold (\<lambda>_ i. check_witness expected_network_id (ti_witness i)) () (tx_inputs t))))"

record block_resources =
  br_inputs :: nat
  br_outputs :: nat
  br_signature_checks :: nat

definition no_resources :: block_resources where
  "no_resources = \<lparr>br_inputs = 0, br_outputs = 0, br_signature_checks = 0\<rparr>"

definition witness_checks :: "input_witness \<Rightarrow> nat" where
  "witness_checks w = (case w of IW_Key _ _ \<Rightarrow> 1 | IW_InferenceSettlement _ _ \<Rightarrow> 2 | IW_InferenceRefund _ \<Rightarrow> 0)"

definition add_block_resources ::
  "block_resources \<Rightarrow> transaction \<Rightarrow> (wire_error, block_resources) outcome" where
  "add_block_resources res t =
     obind (ok_or WE_LengthOverflow (usize_add (br_inputs res) (length (tx_inputs t)))) (\<lambda>inputs.
     obind (check_count inputs MAX_BLOCK_AGGREGATE_INPUTS ''block aggregate inputs'') (\<lambda>_.
     obind (ok_or WE_LengthOverflow (usize_add (br_outputs res) (length (tx_outputs t)))) (\<lambda>outputs.
     obind (check_count outputs MAX_BLOCK_AGGREGATE_OUTPUTS ''block aggregate outputs'') (\<lambda>_.
     obind (ofold (\<lambda>checks i.
              obind (ok_or WE_LengthOverflow (usize_add checks (witness_checks (ti_witness i)))) (\<lambda>checks.
              obind (check_count checks MAX_BLOCK_SIGNATURE_CHECKS ''block signature checks'') (\<lambda>_. Ok checks)))
            (br_signature_checks res) (tx_inputs t)) (\<lambda>checks.
     Ok \<lparr>br_inputs = inputs, br_outputs = outputs, br_signature_checks = checks\<rparr>)))))"

definition validate_block_shape :: "block \<Rightarrow> (wire_error, unit) outcome" where
  "validate_block_shape b =
     obind (check_count (length (cb_outputs (bl_coinbase b))) MAX_COINBASE_OUTPUTS ''coinbase outputs'') (\<lambda>_.
     obind (check_count (length (bl_transactions b)) MAX_BLOCK_TRANSACTIONS ''block transactions'') (\<lambda>_.
     obind (ofold (\<lambda>res t.
              obind (validate_transaction_shape t (bc_network_id (bl_challenge b))) (\<lambda>_.
              add_block_resources res t))
            no_resources (bl_transactions b)) (\<lambda>_.
     Ok ())))"

section \<open>Payloads\<close>

definition encode_transaction_payload :: "transaction \<Rightarrow> (wire_error, byte list) outcome" where
  "encode_transaction_payload t =
     obind (validate_transaction_shape t (tx_network_id t)) (\<lambda>_.
     let w = writer_new (payload_limit MAX_TRANSACTION_BYTES) ''transaction'' in
     obind (wr_put (tx_network_id t) w) (\<lambda>w.
     obind (wr_u32 (tx_version t) w) (\<lambda>w.
     obind (wr_count (length (tx_inputs t)) MAX_TRANSACTION_INPUTS ''transaction inputs'' w) (\<lambda>w.
     obind (ofold (\<lambda>w i. wire_encode_input i w) w (tx_inputs t)) (\<lambda>w.
     obind (wr_count (length (tx_outputs t)) MAX_TRANSACTION_OUTPUTS ''transaction outputs'' w) (\<lambda>w.
     obind (ofold (\<lambda>w out. wire_encode_output out w) w (tx_outputs t)) (\<lambda>w.
     Ok (wr_bytes w))))))))"

definition decode_transaction_payload :: "byte list \<Rightarrow> hash32 \<Rightarrow> (wire_error, transaction) outcome" where
  "decode_transaction_payload payload expected_network_id =
     obind (ensure_payload_size (length payload) MAX_TRANSACTION_BYTES ''transaction'') (\<lambda>_.
     obind (rd_array 32 (reader_new payload)) (\<lambda>(network_id, r).
     if network_id \<noteq> expected_network_id then Err (WE_WrongNetworkId ''transaction'')
     else
     obind (rd_u32 r) (\<lambda>(version, r).
     obind (rd_count MAX_TRANSACTION_INPUTS ''transaction inputs'' r) (\<lambda>(input_count, r).
     obind (read_many (wire_decode_input expected_network_id) input_count r) (\<lambda>(inputs, r).
     obind (rd_count MAX_TRANSACTION_OUTPUTS ''transaction outputs'' r) (\<lambda>(output_count, r).
     obind (read_many wire_decode_output output_count r) (\<lambda>(outputs, r).
     obind (rd_finish r) (\<lambda>_.
     Ok \<lparr>tx_network_id = network_id, tx_version = version, tx_inputs = inputs, tx_outputs = outputs\<rparr>))))))))"

definition encode_forgematrix_proof_payload :: "block_proof \<Rightarrow> hash32 \<Rightarrow> (wire_error, byte list) outcome" where
  "encode_forgematrix_proof_payload proof network_id =
     (let w = writer_new (payload_limit MAX_PROOF_BYTES) ''ForgeMatrix proof'' in
      obind (case proof of
          BP_V1Legacy p \<Rightarrow>
            obind (wr_u8 FORGEMATRIX_V1_PROOF_TAG w) (\<lambda>w.
            obind (wr_put network_id w) (\<lambda>w.
            obind (wr_u32 (pr_algorithm_version p) w) (\<lambda>w.
            obind (wr_u32 (pr_model_version p) w) (\<lambda>w.
            obind (wr_u64 (pr_nonce p) w) (\<lambda>w.
            obind (wr_put (pr_model_root p) w) (\<lambda>w.
            obind (wr_put (pr_output_digest p) w) (\<lambda>w.
            wr_put (pr_work_digest p) w)))))))
        | BP_V2Reference p \<Rightarrow>
            obind (wr_u8 FORGEMATRIX_V2_PROOF_TAG w) (\<lambda>w.
            obind (wr_put network_id w) (\<lambda>w.
            obind (wr_u32 (vc_algorithm_version p) w) (\<lambda>w.
            obind (wr_u32 (vc_proof_version p) w) (\<lambda>w.
            obind (wr_u64 (vc_nonce p) w) (\<lambda>w.
            obind (wr_put (vc_model_manifest_digest p) w) (\<lambda>w.
            obind (wr_put (vc_challenge_digest p) w) (\<lambda>w.
            obind (wr_put (vc_final_activation_digest p) w) (\<lambda>w.
            wr_put (vc_work_digest p) w))))))))) (\<lambda>w.
      Ok (wr_bytes w)))"

definition decode_v1_proof :: "reader \<Rightarrow> (wire_error, block_proof \<times> reader) outcome" where
  "decode_v1_proof r =
     obind (rd_u32 r) (\<lambda>(algorithm_version, r).
     obind (rd_u32 r) (\<lambda>(model_version, r).
     obind (rd_u64 r) (\<lambda>(nonce, r).
     obind (rd_array 32 r) (\<lambda>(model_root, r).
     obind (rd_array 32 r) (\<lambda>(output_digest, r).
     obind (rd_array 32 r) (\<lambda>(work_digest, r).
     Ok (BP_V1Legacy \<lparr>pr_algorithm_version = algorithm_version, pr_model_version = model_version,
           pr_nonce = nonce, pr_model_root = model_root, pr_output_digest = output_digest,
           pr_work_digest = work_digest\<rparr>, r)))))))"

definition decode_v2_proof :: "reader \<Rightarrow> (wire_error, block_proof \<times> reader) outcome" where
  "decode_v2_proof r =
     obind (rd_u32 r) (\<lambda>(algorithm_version, r).
     obind (rd_u32 r) (\<lambda>(proof_version, r).
     obind (rd_u64 r) (\<lambda>(nonce, r).
     obind (rd_array 32 r) (\<lambda>(manifest_digest, r).
     obind (rd_array 32 r) (\<lambda>(challenge_digest, r).
     obind (rd_array 32 r) (\<lambda>(final_activation_digest, r).
     obind (rd_array 32 r) (\<lambda>(work_digest, r).
     Ok (BP_V2Reference \<lparr>vc_algorithm_version = algorithm_version, vc_proof_version = proof_version,
           vc_nonce = nonce, vc_model_manifest_digest = manifest_digest,
           vc_challenge_digest = challenge_digest, vc_final_activation_digest = final_activation_digest,
           vc_work_digest = work_digest\<rparr>, r))))))))"

definition decode_forgematrix_proof_payload :: "byte list \<Rightarrow> hash32 \<Rightarrow> (wire_error, block_proof) outcome" where
  "decode_forgematrix_proof_payload payload expected_network_id =
     obind (ensure_payload_size (length payload) MAX_PROOF_BYTES ''ForgeMatrix proof'') (\<lambda>_.
     obind (rd_u8 (reader_new payload)) (\<lambda>(tag, r).
     obind (rd_array 32 r) (\<lambda>(network_id, r).
     if network_id \<noteq> expected_network_id then Err (WE_WrongNetworkId ''ForgeMatrix proof'')
     else
     obind (if tag = FORGEMATRIX_V1_PROOF_TAG then decode_v1_proof r
            else if tag = FORGEMATRIX_V2_PROOF_TAG then decode_v2_proof r
            else Err (WE_UnknownTag ''ForgeMatrix proof'' tag)) (\<lambda>(proof, r).
     obind (rd_finish r) (\<lambda>_. Ok proof)))))"

section \<open>Framed objects\<close>

definition encode_transaction :: "crypto \<Rightarrow> transaction \<Rightarrow> (wire_error, byte list) outcome" where
  "encode_transaction C t =
     obind (encode_transaction_payload t) (\<lambda>payload.
     encode_frame C TRANSACTION_KIND (tx_network_id t) payload MAX_TRANSACTION_BYTES ''transaction'')"

definition decode_transaction :: "crypto \<Rightarrow> byte list \<Rightarrow> hash32 \<Rightarrow> (wire_error, transaction) outcome" where
  "decode_transaction C bytes expected_network_id =
     obind (decode_frame C bytes expected_network_id TRANSACTION_KIND MAX_TRANSACTION_BYTES ''transaction'') (\<lambda>payload.
     decode_transaction_payload payload expected_network_id)"

definition encode_forgematrix_proof :: "crypto \<Rightarrow> block_proof \<Rightarrow> hash32 \<Rightarrow> (wire_error, byte list) outcome" where
  "encode_forgematrix_proof C proof network_id =
     obind (encode_forgematrix_proof_payload proof network_id) (\<lambda>payload.
     encode_frame C FORGEMATRIX_PROOF_KIND network_id payload MAX_PROOF_BYTES ''ForgeMatrix proof'')"

definition decode_forgematrix_proof :: "crypto \<Rightarrow> byte list \<Rightarrow> hash32 \<Rightarrow> (wire_error, block_proof) outcome" where
  "decode_forgematrix_proof C bytes expected_network_id =
     obind (decode_frame C bytes expected_network_id FORGEMATRIX_PROOF_KIND MAX_PROOF_BYTES ''ForgeMatrix proof'') (\<lambda>payload.
     decode_forgematrix_proof_payload payload expected_network_id)"

definition put_block_transaction :: "transaction \<Rightarrow> writer \<Rightarrow> (wire_error, writer) outcome" where
  "put_block_transaction t w =
     obind (encode_transaction_payload t) (\<lambda>payload.
     wr_sized_bytes payload MAX_TRANSACTION_BYTES ''transaction'' w)"

definition encode_block :: "crypto \<Rightarrow> block \<Rightarrow> (wire_error, byte list) outcome" where
  "encode_block C b =
     obind (validate_block_shape b) (\<lambda>_.
     let network_id = bc_network_id (bl_challenge b);
         w = writer_new (payload_limit MAX_BLOCK_BYTES) ''block'' in
     obind (wr_u32 (bl_version b) w) (\<lambda>w.
     obind (wire_encode_challenge (bl_challenge b) w) (\<lambda>w.
     obind (encode_forgematrix_proof_payload (bl_proof b) network_id) (\<lambda>proof.
     obind (wr_sized_bytes proof MAX_PROOF_BYTES ''ForgeMatrix proof'' w) (\<lambda>w.
     obind (wire_encode_coinbase (bl_coinbase b) w) (\<lambda>w.
     obind (wr_count (length (bl_transactions b)) MAX_BLOCK_TRANSACTIONS ''block transactions'' w) (\<lambda>w.
     obind (ofold (\<lambda>w t. put_block_transaction t w) w (bl_transactions b)) (\<lambda>w.
     encode_frame C BLOCK_KIND network_id (wr_bytes w) MAX_BLOCK_BYTES ''block''))))))))"

definition get_block_transaction :: "hash32 \<Rightarrow> reader \<Rightarrow> (wire_error, transaction \<times> reader) outcome" where
  "get_block_transaction expected_network_id r =
     obind (rd_sized_bytes MAX_TRANSACTION_BYTES ''transaction'' r) (\<lambda>(payload, r).
     obind (decode_transaction_payload payload expected_network_id) (\<lambda>t. Ok (t, r)))"

fun read_block_transactions ::
  "hash32 \<Rightarrow> nat \<Rightarrow> block_resources \<Rightarrow> reader \<Rightarrow> (wire_error, transaction list \<times> reader) outcome" where
  "read_block_transactions net 0 res r = Ok ([], r)"
| "read_block_transactions net (Suc n) res r =
     obind (get_block_transaction net r) (\<lambda>(t, r).
     obind (add_block_resources res t) (\<lambda>res.
     obind (read_block_transactions net n res r) (\<lambda>(ts, r). Ok (t # ts, r))))"

definition decode_block :: "crypto \<Rightarrow> byte list \<Rightarrow> hash32 \<Rightarrow> (wire_error, block) outcome" where
  "decode_block C bytes expected_network_id =
     obind (decode_frame C bytes expected_network_id BLOCK_KIND MAX_BLOCK_BYTES ''block'') (\<lambda>payload.
     obind (rd_u32 (reader_new payload)) (\<lambda>(version, r).
     obind (wire_decode_challenge expected_network_id r) (\<lambda>(challenge, r).
     obind (rd_sized_bytes MAX_PROOF_BYTES ''ForgeMatrix proof'' r) (\<lambda>(proof_payload, r).
     obind (decode_forgematrix_proof_payload proof_payload (bc_network_id challenge)) (\<lambda>proof.
     obind (wire_decode_coinbase r) (\<lambda>(cb, r).
     obind (rd_count MAX_BLOCK_TRANSACTIONS ''block transactions'' r) (\<lambda>(transaction_count, r).
     obind (read_block_transactions expected_network_id transaction_count no_resources r) (\<lambda>(transactions, r).
     obind (rd_finish r) (\<lambda>_.
     Ok \<lparr>bl_version = version, bl_challenge = challenge, bl_proof = proof, bl_coinbase = cb,
         bl_transactions = transactions\<rparr>)))))))))"

section \<open>Whole payloads\<close>

lemma fits_new: "fits (writer_new l f) bs \<longleftrightarrow> length bs \<le> l \<and> length bs < usize_limit"
  by (simp add: fits_def writer_new_def)

lemma writer_new_bytes [simp]: "wr_bytes (writer_new l f) = []"
  by (simp add: writer_new_def)

lemma finish_new:
  "starts (reader_new p) bs \<and> rd_finish (skip (length bs) (reader_new p)) = Ok () \<longleftrightarrow> p = bs \<and> length bs < usize_limit"
proof -
  have "rd_finish (skip (length bs) (reader_new p)) = Ok () \<longleftrightarrow> length bs = length p"
    by (simp add: rd_finish_Ok skip_def reader_new_def)
  moreover have "(\<exists>rest. p = bs @ rest) \<and> length bs = length p \<longleftrightarrow> p = bs" by auto
  ultimately show ?thesis unfolding starts_new by blast
qed

definition tx_shape :: "hash32 \<Rightarrow> transaction \<Rightarrow> bool" where
  "tx_shape net t \<longleftrightarrow> tx_network_id t = net \<and> length (tx_inputs t) \<le> 128 \<and> length (tx_outputs t) \<le> 128 \<and>
     list_all (\<lambda>i. signed64 (ti_witness i) \<and> terms_on net (ti_witness i)) (tx_inputs t)"

definition tx_payload :: "transaction \<Rightarrow> byte list" where
  "tx_payload t = tx_network_id t @ to_le_bytes (tx_version t) @
     (le32 (length (tx_inputs t)) @ concat (map input_bytes (tx_inputs t))) @
     le32 (length (tx_outputs t)) @ concat (map encode_output (tx_outputs t))"

lemma check_witness_Ok: "check_witness net w = Ok () \<longleftrightarrow> signed64 w \<and> terms_on net w"
  by (cases w) (auto simp: check_witness_def check_signature_def check_terms_network_def signed64_def terms_on_def
      CONSENSUS_SIGNATURE_BYTES_def)

lemma check_all_Ok: "ofold (\<lambda>_ i. f i) () xs = Ok () \<longleftrightarrow> list_all (\<lambda>i. f i = Ok ()) xs"
  by (induction xs) auto

lemma validate_transaction_shape_Ok: "validate_transaction_shape t net = Ok () \<longleftrightarrow> tx_shape net t"
  by (auto simp: validate_transaction_shape_def wire_simps check_all_Ok check_witness_Ok tx_shape_def wire_limits)

lemma encode_transaction_payload_Ok:
  "encode_transaction_payload t = Ok bs \<longleftrightarrow>
     tx_shape (tx_network_id t) t \<and> bs = tx_payload t \<and> length bs \<le> 65520"
proof -
  let ?w = "writer_new (payload_limit MAX_TRANSACTION_BYTES) ''transaction''"
  let ?a = "tx_network_id t @ to_le_bytes (tx_version t)"
  let ?b = "le32 (length (tx_inputs t)) @ concat (map input_bytes (tx_inputs t))"
  let ?c = "le32 (length (tx_outputs t)) @ concat (map encode_output (tx_outputs t))"
  have max: "MAX_TRANSACTION_INPUTS < 2 ^ 32" "MAX_TRANSACTION_OUTPUTS < 2 ^ 32" by (simp_all add: wire_limits)
  have "encode_transaction_payload t = Ok bs \<longleftrightarrow> tx_shape (tx_network_id t) t \<and> (\<exists>w2 w3.
      fits ?w ?a \<and>
      obind (wr_count (length (tx_inputs t)) MAX_TRANSACTION_INPUTS ''transaction inputs'' (emit ?a ?w))
        (\<lambda>w. ofold (\<lambda>w i. wire_encode_input i w) w (tx_inputs t)) = Ok w2 \<and>
      obind (wr_count (length (tx_outputs t)) MAX_TRANSACTION_OUTPUTS ''transaction outputs'' w2)
        (\<lambda>w. ofold (\<lambda>w out. wire_encode_output out w) w (tx_outputs t)) = Ok w3 \<and> bs = wr_bytes w3)"
    by (auto simp: encode_transaction_payload_def validate_transaction_shape_Ok Let_def wr_put_Ok wr_u_Ok
        stream_append)
  also have "\<dots> \<longleftrightarrow> tx_shape (tx_network_id t) t \<and> fits ?w (?a @ ?b @ ?c) \<and> bs = ?a @ ?b @ ?c"
    unfolding counted_put [OF input_wire.wire_codec_axioms max(1)] counted_put [OF output_wire.wire_codec_axioms max(2)]
    by (auto simp: stream_append tx_shape_def wire_limits list_all_iff)
  finally show ?thesis
    unfolding fits_new by (auto simp: tx_payload_def payload_limit_def wire_limits)
qed

lemma decode_transaction_payload_Ok:
  "decode_transaction_payload bs net = Ok t \<longleftrightarrow>
    tx_shape net t \<and> wf_transaction t \<and> bs = tx_payload t \<and> length bs \<le> 65520"
proof -
  let ?r = "reader_new bs"
  let ?b = "le32 (length (tx_inputs t)) @ concat (map input_bytes (tx_inputs t))"
  let ?c = "le32 (length (tx_outputs t)) @ concat (map encode_output (tx_outputs t))"
  have max: "MAX_TRANSACTION_INPUTS < 2 ^ 32" "MAX_TRANSACTION_OUTPUTS < 2 ^ 32" by (simp_all add: wire_limits)
  have "decode_transaction_payload bs net = Ok t \<longleftrightarrow> length bs \<le> 65520 \<and> (\<exists>r2 r3.
      tx_network_id t = net \<and> length net = 32 \<and> starts ?r net \<and> starts (skip 32 ?r) (to_le_bytes (tx_version t)) \<and>
      obind (rd_count MAX_TRANSACTION_INPUTS ''transaction inputs'' (skip 36 ?r))
        (\<lambda>(n, r). read_many (wire_decode_input net) n r) = Ok (tx_inputs t, r2) \<and>
      obind (rd_count MAX_TRANSACTION_OUTPUTS ''transaction outputs'' r2)
        (\<lambda>(n, r). read_many wire_decode_output n r) = Ok (tx_outputs t, r3) \<and> rd_finish r3 = Ok ())"
    by (cases t)
      (auto simp: decode_transaction_payload_def ensure_payload_size_Ok rd_array_Ok rd_u32_Ok wire_limits)
  also have "\<dots> \<longleftrightarrow> length bs \<le> 65520 \<and> tx_shape net t \<and> wf_transaction t \<and> starts ?r (tx_payload t) \<and>
      rd_finish (skip (length (tx_payload t)) ?r) = Ok ()"
    unfolding counted_get [OF input_wire.wire_codec_axioms max(1)] counted_get [OF output_wire.wire_codec_axioms max(2)]
    by (auto simp: stream_append tx_shape_def wf_transaction_def tx_payload_def wire_limits list_all_iff add.assoc)
  finally show ?thesis unfolding finish_new by auto
qed

definition proof_payload :: "hash32 \<Rightarrow> block_proof \<Rightarrow> byte list" where
  "proof_payload net p = (case p of
       BP_V1Legacy q \<Rightarrow> [1] @ net @ to_le_bytes (pr_algorithm_version q) @ to_le_bytes (pr_model_version q) @
         to_le_bytes (pr_nonce q) @ pr_model_root q @ pr_output_digest q @ pr_work_digest q
     | BP_V2Reference q \<Rightarrow> [2] @ net @ to_le_bytes (vc_algorithm_version q) @ to_le_bytes (vc_proof_version q) @
         to_le_bytes (vc_nonce q) @ vc_model_manifest_digest q @ vc_challenge_digest q @
         vc_final_activation_digest q @ vc_work_digest q)"

definition wf_proof :: "block_proof \<Rightarrow> bool" where
  "wf_proof p = (case p of
       BP_V1Legacy q \<Rightarrow> length (pr_model_root q) = 32 \<and> length (pr_output_digest q) = 32 \<and> length (pr_work_digest q) = 32
     | BP_V2Reference q \<Rightarrow> length (vc_model_manifest_digest q) = 32 \<and> length (vc_challenge_digest q) = 32 \<and>
         length (vc_final_activation_digest q) = 32 \<and> length (vc_work_digest q) = 32)"

lemma encode_proof_payload_Ok:
  "encode_forgematrix_proof_payload p net = Ok bs \<longleftrightarrow> bs = proof_payload net p \<and> length bs \<le> 262128"
proof -
  let ?w = "writer_new (payload_limit MAX_PROOF_BYTES) ''ForgeMatrix proof''"
  have "encode_forgematrix_proof_payload p net = Ok bs \<longleftrightarrow> fits ?w (proof_payload net p) \<and> bs = proof_payload net p"
    by (cases p) (auto simp: encode_forgematrix_proof_payload_def Let_def wire_simps stream_append proof_payload_def
        FORGEMATRIX_V1_PROOF_TAG_def FORGEMATRIX_V2_PROOF_TAG_def)
  then show ?thesis by (auto simp: fits_new payload_limit_def wire_limits)
qed

lemma decode_proof_body_Ok:
  "(if tag = FORGEMATRIX_V1_PROOF_TAG then decode_v1_proof r else if tag = FORGEMATRIX_V2_PROOF_TAG then decode_v2_proof r
    else Err (WE_UnknownTag f tag)) = Ok (p, r') \<longleftrightarrow>
    wf_proof p \<and> tag = hd (proof_payload [] p) \<and> starts r (tl (proof_payload [] p)) \<and>
    r' = skip (length (tl (proof_payload [] p))) r"
proof (cases p)
  case (BP_V1Legacy q)
  then show ?thesis
    by (cases q) (auto simp: decode_v1_proof_def decode_v2_proof_def wire_simps stream_append proof_payload_def wf_proof_def
        FORGEMATRIX_V1_PROOF_TAG_def FORGEMATRIX_V2_PROOF_TAG_def split: if_splits)
next
  case (BP_V2Reference q)
  then show ?thesis
    by (cases q) (auto simp: decode_v1_proof_def decode_v2_proof_def wire_simps stream_append proof_payload_def wf_proof_def
        FORGEMATRIX_V1_PROOF_TAG_def FORGEMATRIX_V2_PROOF_TAG_def split: if_splits)
qed

lemma decode_proof_payload_Ok:
  "decode_forgematrix_proof_payload bs net = Ok p \<longleftrightarrow>
    length net = 32 \<and> wf_proof p \<and> bs = proof_payload net p \<and> length bs \<le> 262128"
proof -
  let ?r = "reader_new bs" and ?h = "hd (proof_payload [] p)" and ?t = "tl (proof_payload [] p)"
  have split: "proof_payload net p = [?h] @ net @ ?t"
    by (cases p) (simp_all add: proof_payload_def)
  have "decode_forgematrix_proof_payload bs net = Ok p \<longleftrightarrow> length bs \<le> 262128 \<and> length net = 32 \<and> wf_proof p \<and>
      starts ?r [?h] \<and> starts (skip 1 ?r) net \<and> starts (skip 33 ?r) ?t \<and> rd_finish (skip (33 + length ?t) ?r) = Ok ()"
    by (auto simp: decode_forgematrix_proof_payload_def ensure_payload_size_Ok rd_u8_Ok rd_array_Ok
        decode_proof_body_Ok wire_limits)
  also have "\<dots> \<longleftrightarrow> length bs \<le> 262128 \<and> length net = 32 \<and> wf_proof p \<and>
      starts ?r (proof_payload net p) \<and> rd_finish (skip (length (proof_payload net p)) ?r) = Ok ()"
    unfolding split by (auto simp: stream_append)
  finally show ?thesis unfolding finish_new by auto
qed

section \<open>Frames\<close>

definition frame_bytes :: "crypto \<Rightarrow> u8 \<Rightarrow> hash32 \<Rightarrow> byte list \<Rightarrow> byte list" where
  "frame_bytes C kind net payload = FRAME_MAGIC @ network_magic C net @ to_le_bytes WIRE_VERSION @ [kind] @ [0] @
     le32 (length payload) @ payload"

lemma length_network_magic [simp]: "crypto_ok C \<Longrightarrow> length (network_magic C net) = 4"
  by (simp add: network_magic_def crypto_lengths)

lemma length_frame_bytes: "crypto_ok C \<Longrightarrow> length (frame_bytes C kind net payload) = 16 + length payload"
  by (simp add: frame_bytes_def)

lemma encode_frame_Ok:
  assumes "m < 2 ^ 32"
  shows "encode_frame C kind net payload m f = Ok bs \<longleftrightarrow>
    16 + length payload \<le> m \<and> bs = frame_bytes C kind net payload"
  using assms
  by (auto simp: encode_frame_def ensure_payload_size_Ok u32_of_usize_def usize_add_def frame_bytes_def WIRE_HEADER_BYTES_def)

lemma header_split:
  assumes "16 \<le> length bs"
  obtains a b v0 v1 k fl l0 l1 l2 l3 p where
    "bs = a @ b @ [v0, v1, k, fl, l0, l1, l2, l3] @ p" "length a = 4" "length b = 4"
proof -
  define h where "h = take 8 (drop 8 bs)"
  have "8 = length h" using assms by (simp add: h_def)
  then obtain v0 v1 k fl l0 l1 l2 l3 where h: "h = [v0, v1, k, fl, l0, l1, l2, l3]"
    by (auto simp: numeral_eq_Suc Suc_length_conv length_Suc_conv)
  have "bs = take 4 bs @ take 4 (drop 4 bs) @ h @ drop 16 bs"
    unfolding h_def by (metis append_take_drop_id drop_drop numeral_Bit0)
  then show thesis unfolding h by (rule that) (use assms in simp_all)
qed

lemma decode_frame_parts:
  assumes "length a = 4" "length b = 4"
  shows "decode_frame C (a @ b @ [v0, v1, k, fl, l0, l1, l2, l3] @ p) net kind m f = Ok payload \<longleftrightarrow>
    16 + length p \<le> m \<and> a = FRAME_MAGIC \<and> b = network_magic C net \<and> from_le_bytes [v0, v1] = WIRE_VERSION \<and>
    k = kind \<and> fl = 0 \<and> unat (from_le_bytes [l0, l1, l2, l3] :: u32) = length p \<and>
    16 + length p < usize_limit \<and> payload = p"
proof -
  obtain a0 a1 a2 a3 where a: "a = [a0, a1, a2, a3]" using assms(1) by (auto simp: numeral_eq_Suc length_Suc_conv)
  obtain b0 b1 b2 b3 where b: "b = [b0, b1, b2, b3]" using assms(2) by (auto simp: numeral_eq_Suc length_Suc_conv)
  show ?thesis
    by (auto simp: a b decode_frame_def Let_def WIRE_HEADER_BYTES_def index_or_panic_def slice_or_panic_def
        usize_sub_or_panic_def ensure_payload_size_Ok not_less not_le)
qed

lemma decode_frame_Ok:
  assumes "crypto_ok C" "m < 2 ^ 32"
  shows "decode_frame C bs net kind m f = Ok payload \<longleftrightarrow>
    16 + length payload \<le> m \<and> bs = frame_bytes C kind net payload"
proof (cases "16 \<le> length bs")
  case True
  then obtain a b v0 v1 k fl l0 l1 l2 l3 p where
    bs: "bs = a @ b @ [v0, v1, k, fl, l0, l1, l2, l3] @ p" and len: "length a = 4" "length b = 4"
    by (rule header_split)
  have v: "from_le_bytes [v0, v1] = (x :: u16) \<longleftrightarrow> [v0, v1] = to_le_bytes x" for x
    by (metis from_to_le_widths(1) length_Cons list.size(3) numeral_2_eq_2 to_from_le_widths(1))
  have l: "unat (from_le_bytes [l0, l1, l2, l3] :: u32) = n \<longleftrightarrow> [l0, l1, l2, l3] = le32 n" if "n < 2 ^ 32" for n
  proof -
    have "to_le_bytes (from_le_bytes [l0, l1, l2, l3] :: u32) = [l0, l1, l2, l3]" by (rule to_from_le_widths) simp
    then show ?thesis using that by (metis from_to_le_widths(2) unat_u32_iff)
  qed
  have "frame_bytes C kind net payload =
      FRAME_MAGIC @ network_magic C net @ to_le_bytes WIRE_VERSION @ [kind] @ [0] @ le32 (length payload) @ payload"
    by (simp add: frame_bytes_def)
  then have "bs = frame_bytes C kind net payload \<longleftrightarrow> a = FRAME_MAGIC \<and> b = network_magic C net \<and>
      [v0, v1] = to_le_bytes WIRE_VERSION \<and> k = kind \<and> fl = 0 \<and> [l0, l1, l2, l3] = le32 (length payload) \<and> p = payload"
    using len assms(1) fixed_field [of "[v0, v1]" "to_le_bytes WIRE_VERSION"]
      fixed_field [of "[l0, l1, l2, l3]" "le32 (length payload)"]
    by (simp add: bs fixed_field)
  then show ?thesis
    unfolding bs decode_frame_parts [OF len] v using l [of "length p"] assms(2) by auto
next
  case False
  then show ?thesis using length_frame_bytes [OF assms(1)] by (auto simp: decode_frame_def WIRE_HEADER_BYTES_def)
qed

lemma decode_frame_returns: "length bs < usize_limit \<Longrightarrow> returns (decode_frame C bs net kind m f)"
  by (auto simp: decode_frame_def Let_def WIRE_HEADER_BYTES_def intro!: returns_obind returns_checks)

section \<open>Blocks\<close>

definition tx_size_ok :: "transaction \<Rightarrow> bool" where
  "tx_size_ok t \<longleftrightarrow> length (tx_payload t) \<le> 65520"

definition sized_tx :: "transaction \<Rightarrow> byte list" where
  "sized_tx t = le32 (length (tx_payload t)) @ tx_payload t"

named_theorems closing_intros \<open>readers that end the input do not panic\<close>

definition closing :: "(reader \<Rightarrow> ('e, 'a) outcome) \<Rightarrow> bool" where
  "closing k \<longleftrightarrow> (\<forall>r. ok_reader r \<longrightarrow> returns (k r))"

lemma closing_bind [closing_intros]:
  assumes "safe_reader get" "\<And>a. closing (k a)"
  shows "closing (\<lambda>r. obind (get r) (\<lambda>(a, r'). k a r'))"
proof -
  have "returns (obind (get r) (\<lambda>(a, r'). k a r'))" if r: "ok_reader r" for r
    by (rule returns_obind)
      (use safe_readerD [OF assms(1) r] assms(2) in \<open>auto simp: closing_def split: prod.splits\<close>)
  then show ?thesis by (simp add: closing_def)
qed

lemma closing_check [closing_intros]:
  "returns m \<Longrightarrow> (\<And>a. closing (k a)) \<Longrightarrow> closing (\<lambda>r. obind m (\<lambda>a. k a r))"
  by (cases m) (simp_all add: closing_def)

lemma closing_if [closing_intros]: "closing f \<Longrightarrow> closing g \<Longrightarrow> closing (\<lambda>r. if b then f r else g r)"
  by (cases b) simp_all

lemma closing_error [closing_intros]: "closing (\<lambda>r. Err e)"
  by (simp add: closing_def)

lemma closing_finish [closing_intros]: "closing (\<lambda>r. obind (rd_finish r) (\<lambda>_. Ok x))"
  by (auto simp: closing_def returns_finish intro!: returns_obind)

lemma ok_reader_new: "length p < usize_limit \<Longrightarrow> ok_reader (reader_new p)"
  by (simp add: ok_reader_def reader_new_def)

lemma returns_after_size_check:
  assumes "closing k" "m < 2 ^ 32"
  shows "returns (obind (ensure_payload_size (length p) m f) (\<lambda>_. k (reader_new p)))"
proof (rule returns_obind)
  fix u assume "ensure_payload_size (length p) m f = Ok u"
  then have "length p < usize_limit" by (simp add: ensure_payload_size_Ok)
  then show "returns (k (reader_new p))" using assms(1) ok_reader_new by (auto simp: closing_def)
qed (rule returns_checks)

lemma decode_transaction_payload_returns: "returns (decode_transaction_payload p net)"
  unfolding decode_transaction_payload_def
  by (rule returns_after_size_check)
    (intro closing_intros safe_intros element_safe input_wire.get_safe, simp add: wire_limits)

lemma decode_proof_payload_returns: "returns (decode_forgematrix_proof_payload p net)"
  unfolding decode_forgematrix_proof_payload_def decode_v1_proof_def decode_v2_proof_def
  by (rule returns_after_size_check) (intro closing_intros safe_intros, simp add: wire_limits)

interpretation block_tx_wire: wire_codec "\<lambda>t. tx_shape (tx_network_id t) t \<and> tx_size_ok t"
  "\<lambda>t. tx_shape net t \<and> wf_transaction t \<and> tx_size_ok t" sized_tx put_block_transaction "get_block_transaction net" for net
proof unfold_locales
  show "put_block_transaction t w = Ok w' \<longleftrightarrow>
      (tx_shape (tx_network_id t) t \<and> tx_size_ok t) \<and> fits w (sized_tx t) \<and> w' = emit (sized_tx t) w" for t w w'
    by (auto simp: put_block_transaction_def encode_transaction_payload_Ok wr_sized_bytes_Ok tx_size_ok_def sized_tx_def
        wire_limits)
  show "get_block_transaction net r = Ok (t, r') \<longleftrightarrow> (tx_shape net t \<and> wf_transaction t \<and> tx_size_ok t) \<and>
      starts r (sized_tx t) \<and> r' = skip (length (sized_tx t)) r" for t r r'
    by (auto simp: get_block_transaction_def decode_transaction_payload_Ok rd_sized_bytes_Ok tx_size_ok_def sized_tx_def
        wire_limits)
  show "safe_reader (get_block_transaction net)"
    unfolding get_block_transaction_def [abs_def] by (intro safe_intros decode_transaction_payload_returns)
qed (simp add: tx_shape_def)

lemma add_block_resources_returns: "returns (add_block_resources res t)"
  unfolding add_block_resources_def
  by (intro returns_obind returns_ok_or returns_checks returns_ofold [where P = "\<lambda>_. True"]) simp_all

lemma read_block_transactions_safe: "safe_reader (read_block_transactions net n res)"
proof (induction n arbitrary: res)
  case (Suc n)
  show ?case unfolding read_block_transactions.simps
    by (intro safe_intros block_tx_wire.get_safe add_block_resources_returns Suc)
qed (simp add: safe_reader_def)

lemma read_block_transactions_Ok:
  "starts r [] \<Longrightarrow> read_block_transactions net n res r = Ok (ts, r') \<longleftrightarrow>
     (\<exists>res'. ofold add_block_resources res ts = Ok res') \<and> read_many (get_block_transaction net) n r = Ok (ts, r')"
proof (induction n arbitrary: r res ts)
  case (Suc n)
  have next_start: "starts r'' []" if "get_block_transaction net r = Ok (t, r'')" for t r''
    using that starts_end by (auto simp: block_tx_wire.get_iff)
  show ?case
  proof (cases ts)
    case (Cons t us)
    have "read_block_transactions net (Suc n) res r = Ok (ts, r') \<longleftrightarrow> (\<exists>r'' res''. get_block_transaction net r = Ok (t, r'') \<and>
        add_block_resources res t = Ok res'' \<and> read_block_transactions net n res'' r'' = Ok (us, r'))"
      by (auto simp: Cons)
    also have "\<dots> \<longleftrightarrow> (\<exists>r'' res''. get_block_transaction net r = Ok (t, r'') \<and> add_block_resources res t = Ok res'' \<and>
        (\<exists>res'. ofold add_block_resources res'' us = Ok res') \<and> read_many (get_block_transaction net) n r'' = Ok (us, r'))"
      using Suc.IH next_start by blast
    finally show ?thesis by (auto simp: Cons)
  qed auto
qed auto

definition block_payload :: "block \<Rightarrow> byte list" where
  "block_payload b =
     (let pp = proof_payload (bc_network_id (bl_challenge b)) (bl_proof b) in
      to_le_bytes (bl_version b) @ challenge_bytes (bl_challenge b) @ (le32 (length pp) @ pp) @
      coinbase_bytes (bl_coinbase b) @
      le32 (length (bl_transactions b)) @ concat (map sized_tx (bl_transactions b)))"

definition block_shape :: "block \<Rightarrow> bool" where
  "block_shape b \<longleftrightarrow> length (cb_outputs (bl_coinbase b)) \<le> 3 \<and> length (bl_transactions b) \<le> 1024 \<and>
     list_all (tx_shape (bc_network_id (bl_challenge b))) (bl_transactions b) \<and>
     (\<exists>res. ofold add_block_resources no_resources (bl_transactions b) = Ok res)"

definition block_sizes :: "block \<Rightarrow> bool" where
  "block_sizes b \<longleftrightarrow> length (proof_payload (bc_network_id (bl_challenge b)) (bl_proof b)) \<le> 262128 \<and>
     list_all tx_size_ok (bl_transactions b) \<and> length (block_payload b) \<le> 1048560"

definition wf_block :: "block \<Rightarrow> bool" where
  "wf_block b \<longleftrightarrow> wf_challenge (bl_challenge b) \<and> wf_proof (bl_proof b) \<and>
     list_all wf_output (cb_outputs (bl_coinbase b)) \<and> list_all wf_transaction (bl_transactions b)"

lemma checked_ofold_split:
  "ofold (\<lambda>s x. obind (f x) (\<lambda>(_ :: unit). g s x)) s xs = Ok s' \<longleftrightarrow> list_all (\<lambda>x. f x = Ok ()) xs \<and> ofold g s xs = Ok s'"
  by (induction xs arbitrary: s) auto

lemma validate_block_shape_Ok: "validate_block_shape b = Ok () \<longleftrightarrow> block_shape b"
  by (auto simp: validate_block_shape_def wire_simps checked_ofold_split validate_transaction_shape_Ok block_shape_def
      wire_limits)

lemma tx_shape_own: "tx_shape net t \<Longrightarrow> tx_shape (tx_network_id t) t"
  by (simp add: tx_shape_def)

lemma encode_block_Ok:
  "encode_block C b = Ok bs \<longleftrightarrow> block_shape b \<and> block_sizes b \<and>
     bs = frame_bytes C BLOCK_KIND (bc_network_id (bl_challenge b)) (block_payload b)"
proof -
  let ?w = "writer_new (payload_limit MAX_BLOCK_BYTES) ''block''"
  let ?net = "bc_network_id (bl_challenge b)"
  let ?pp = "proof_payload ?net (bl_proof b)"
  let ?a = "to_le_bytes (bl_version b) @ challenge_bytes (bl_challenge b) @ (le32 (length ?pp) @ ?pp) @ coinbase_bytes (bl_coinbase b)"
  have max: "MAX_BLOCK_TRANSACTIONS < 2 ^ 32" "MAX_BLOCK_BYTES < 2 ^ 32" by (simp_all add: wire_limits)
  have "encode_block C b = Ok bs \<longleftrightarrow> block_shape b \<and> (\<exists>w2. length ?pp \<le> 262128 \<and> fits ?w ?a \<and>
      obind (wr_count (length (bl_transactions b)) MAX_BLOCK_TRANSACTIONS ''block transactions'' (emit ?a ?w))
        (\<lambda>w. ofold (\<lambda>w t. put_block_transaction t w) w (bl_transactions b)) = Ok w2 \<and>
      encode_frame C BLOCK_KIND ?net (wr_bytes w2) MAX_BLOCK_BYTES ''block'' = Ok bs)"
    by (auto simp: encode_block_def validate_block_shape_Ok Let_def wr_u_Ok challenge_wire.put_iff encode_proof_payload_Ok
        wr_sized_bytes_Ok coinbase_wire.put_iff stream_append wire_limits block_shape_def)
  also have "\<dots> \<longleftrightarrow> block_shape b \<and> length ?pp \<le> 262128 \<and> list_all tx_size_ok (bl_transactions b) \<and>
      fits ?w (block_payload b) \<and> encode_frame C BLOCK_KIND ?net (block_payload b) MAX_BLOCK_BYTES ''block'' = Ok bs"
    unfolding counted_put [OF block_tx_wire.wire_codec_axioms max(1)]
    by (auto simp: block_payload_def Let_def stream_append block_shape_def wire_limits list_all_iff intro: tx_shape_own)
  finally show ?thesis
    unfolding encode_frame_Ok [OF max(2)] fits_new by (auto simp: block_sizes_def payload_limit_def wire_limits)
qed

text \<open>The part of a block in front of its transactions.\<close>

definition block_prefix :: "block \<Rightarrow> byte list" where
  "block_prefix b =
     (let pp = proof_payload (bc_network_id (bl_challenge b)) (bl_proof b) in
      to_le_bytes (bl_version b) @ challenge_bytes (bl_challenge b) @ (le32 (length pp) @ pp) @ coinbase_bytes (bl_coinbase b))"

definition wf_prefix :: "hash32 \<Rightarrow> block \<Rightarrow> bool" where
  "wf_prefix net b \<longleftrightarrow> bc_network_id (bl_challenge b) = net \<and> wf_challenge (bl_challenge b) \<and> wf_proof (bl_proof b) \<and>
     length (proof_payload net (bl_proof b)) \<le> 262128 \<and> length (cb_outputs (bl_coinbase b)) \<le> 3 \<and>
     list_all wf_output (cb_outputs (bl_coinbase b))"

lemma block_payload_split:
  "block_payload b = block_prefix b @ le32 (length (bl_transactions b)) @ concat (map sized_tx (bl_transactions b))"
  by (simp add: block_payload_def block_prefix_def Let_def)

lemma decode_block_prefix:
  "decode_block C bs net = Ok b \<longleftrightarrow> (\<exists>p r2. decode_frame C bs net BLOCK_KIND MAX_BLOCK_BYTES ''block'' = Ok p \<and>
     wf_prefix net b \<and> starts (reader_new p) (block_prefix b) \<and>
     obind (rd_count MAX_BLOCK_TRANSACTIONS ''block transactions'' (skip (length (block_prefix b)) (reader_new p)))
       (\<lambda>(n, r). read_block_transactions net n no_resources r) = Ok (bl_transactions b, r2) \<and> rd_finish r2 = Ok ())"
    (is "_ \<longleftrightarrow> ?R")
proof
  assume "decode_block C bs net = Ok b"
  then show ?R
    by (cases b) (auto simp: decode_block_def rd_u32_Ok challenge_wire.get_iff rd_sized_bytes_Ok decode_proof_payload_Ok
        coinbase_wire.get_iff stream_append wire_limits add.assoc wf_challenge_def block_prefix_def wf_prefix_def Let_def)
next
  let ?pp = "proof_payload (bc_network_id (bl_challenge b)) (bl_proof b)"
  let ?v = "to_le_bytes (bl_version b)" and ?c = "challenge_bytes (bl_challenge b)" and ?k = "coinbase_bytes (bl_coinbase b)"
  assume ?R
  then obtain p r2 n r1 where p: "decode_frame C bs net BLOCK_KIND MAX_BLOCK_BYTES ''block'' = Ok p" and wf: "wf_prefix net b"
    and st: "starts (reader_new p) (block_prefix b)"
    and n: "rd_count MAX_BLOCK_TRANSACTIONS ''block transactions'' (skip (length (block_prefix b)) (reader_new p)) = Ok (n, r1)"
    and ts: "read_block_transactions net n no_resources r1 = Ok (bl_transactions b, r2)" and fin: "rd_finish r2 = Ok ()"
    by auto
  define r where "r = reader_new p"
  define a where "a = length ?c"
  define c where "c = length ?k"
  have s: "starts r ?v" "starts (skip 4 r) ?c" "starts (skip (4 + a) r) (le32 (length ?pp) @ ?pp)"
    "starts (skip (8 + a + length ?pp) r) ?k"
    using st by (simp_all add: block_prefix_def Let_def stream_append r_def a_def add.assoc)
  have len: "length (block_prefix b) = 8 + a + length ?pp + c"
    by (simp add: block_prefix_def Let_def a_def c_def)
  have "rd_u32 r = Ok (bl_version b, skip 4 r)"
    using s(1) by (simp add: rd_u32_Ok)
  moreover have "wire_decode_challenge net (skip 4 r) = Ok (bl_challenge b, skip (4 + a) r)"
    using s(2) wf by (simp add: challenge_wire.get_iff wf_prefix_def a_def)
  moreover have "rd_sized_bytes MAX_PROOF_BYTES ''ForgeMatrix proof'' (skip (4 + a) r) = Ok (?pp, skip (8 + a + length ?pp) r)"
    using s(3) wf by (auto simp: rd_sized_bytes_Ok wf_prefix_def wire_limits add.assoc)
  moreover have "decode_forgematrix_proof_payload ?pp (bc_network_id (bl_challenge b)) = Ok (bl_proof b)"
    using wf by (auto simp: decode_proof_payload_Ok wf_prefix_def wf_challenge_def)
  moreover have "wire_decode_coinbase (skip (8 + a + length ?pp) r) = Ok (bl_coinbase b, skip (8 + a + length ?pp + c) r)"
    using s(4) wf by (simp add: coinbase_wire.get_iff wf_prefix_def c_def)
  ultimately show "decode_block C bs net = Ok b"
    using p n ts fin unfolding len r_def [symmetric] by (simp add: decode_block_def r_def [symmetric])
qed

lemma counted_block_transactions:
  "obind (rd_count MAX_BLOCK_TRANSACTIONS f r) (\<lambda>(n, r). read_block_transactions net n no_resources r) = Ok (ts, r2) \<longleftrightarrow>
    (\<exists>res. ofold add_block_resources no_resources ts = Ok res) \<and>
    obind (rd_count MAX_BLOCK_TRANSACTIONS f r) (\<lambda>(n, r). read_many (get_block_transaction net) n r) = Ok (ts, r2)"
proof -
  have "starts (skip 4 r) []" if "starts r (le32 n)" for n using starts_end [OF that] by simp
  then show ?thesis using read_block_transactions_Ok [of "skip 4 r"] by (auto simp: rd_count_Ok)
qed

lemma decode_block_Ok:
  assumes C: "crypto_ok C"
  shows "decode_block C bs net = Ok b \<longleftrightarrow> bc_network_id (bl_challenge b) = net \<and> wf_block b \<and> block_shape b \<and>
    block_sizes b \<and> bs = frame_bytes C BLOCK_KIND net (block_payload b)"
proof -
  let ?net = "bc_network_id (bl_challenge b)"
  have max: "MAX_BLOCK_TRANSACTIONS < 2 ^ 32" "MAX_BLOCK_BYTES < 2 ^ 32" by (simp_all add: wire_limits)
  have "decode_block C bs net = Ok b \<longleftrightarrow> (\<exists>p. decode_frame C bs net BLOCK_KIND MAX_BLOCK_BYTES ''block'' = Ok p \<and> ?net = net \<and>
      wf_block b \<and> block_shape b \<and> length (proof_payload ?net (bl_proof b)) \<le> 262128 \<and>
      list_all tx_size_ok (bl_transactions b) \<and>
      starts (reader_new p) (block_payload b) \<and> rd_finish (skip (length (block_payload b)) (reader_new p)) = Ok ())"
    unfolding decode_block_prefix counted_block_transactions counted_get [OF block_tx_wire.wire_codec_axioms max(1)]
    by (auto simp: block_payload_split stream_append block_shape_def wf_block_def wf_prefix_def wire_limits list_all_iff
        add.assoc)
  then show ?thesis
    unfolding decode_frame_Ok [OF C max(2)] finish_new by (auto simp: block_sizes_def wire_limits)
qed

section \<open>Resource totals\<close>

definition tx_checks :: "transaction \<Rightarrow> nat" where
  "tx_checks t = sum_list (map (\<lambda>i. witness_checks (ti_witness i)) (tx_inputs t))"

lemma signature_loop_Ok:
  assumes "c \<le> MAX_BLOCK_SIGNATURE_CHECKS"
  shows "ofold (\<lambda>checks i.
      obind (ok_or WE_LengthOverflow (usize_add checks (witness_checks (ti_witness i)))) (\<lambda>checks.
      obind (check_count checks MAX_BLOCK_SIGNATURE_CHECKS f) (\<lambda>_. Ok checks))) c is = Ok c' \<longleftrightarrow>
    c' = c + sum_list (map (\<lambda>i. witness_checks (ti_witness i)) is) \<and> c' \<le> MAX_BLOCK_SIGNATURE_CHECKS"
  using assms
proof (induction "is" arbitrary: c)
  case (Cons i "is")
  have big: "MAX_BLOCK_SIGNATURE_CHECKS < usize_limit" by (simp add: wire_limits)
  show ?case
  proof (cases "c + witness_checks (ti_witness i) \<le> MAX_BLOCK_SIGNATURE_CHECKS")
    case True
    then have "usize_add c (witness_checks (ti_witness i)) = Some (c + witness_checks (ti_witness i))"
      using big unfolding usize_add_def by (simp only: order.strict_trans1 if_True)
    then show ?thesis using Cons.IH [OF True] True by (auto simp: check_count_def add.assoc)
  next
    case False
    then show ?thesis by (auto simp: checked_simps check_count_Ok)
  qed
qed auto

lemma add_block_resources_Ok:
  assumes "br_signature_checks res \<le> 2048"
  shows "add_block_resources res t = Ok res' \<longleftrightarrow>
    res' = \<lparr>br_inputs = br_inputs res + length (tx_inputs t), br_outputs = br_outputs res + length (tx_outputs t),
      br_signature_checks = br_signature_checks res + tx_checks t\<rparr> \<and>
    br_inputs res' \<le> 4096 \<and> br_outputs res' \<le> 4096 \<and> br_signature_checks res' \<le> 2048"
proof -
  have c: "br_signature_checks res \<le> MAX_BLOCK_SIGNATURE_CHECKS" using assms by (simp add: wire_limits)
  show ?thesis
    unfolding add_block_resources_def obind_eq_Ok signature_loop_Ok [OF c] ok_or_eq_Ok usize_add_Some
    by (auto simp: check_count_Ok tx_checks_def wire_limits)
qed

lemma ofold_resources:
  "ofold add_block_resources res ts = Ok res' \<Longrightarrow> br_signature_checks res \<le> 2048 \<Longrightarrow>
    br_inputs res' = br_inputs res + sum_list (map (\<lambda>t. length (tx_inputs t)) ts) \<and>
    br_outputs res' = br_outputs res + sum_list (map (\<lambda>t. length (tx_outputs t)) ts) \<and>
    br_signature_checks res' = br_signature_checks res + sum_list (map tx_checks ts) \<and>
    (ts \<noteq> [] \<longrightarrow> br_inputs res' \<le> 4096 \<and> br_outputs res' \<le> 4096 \<and> br_signature_checks res' \<le> 2048)"
proof (induction ts arbitrary: res)
  case (Cons t ts)
  then obtain res1 where r: "add_block_resources res t = Ok res1" "ofold add_block_resources res1 ts = Ok res'" by auto
  note st = r(1) [unfolded add_block_resources_Ok [OF Cons.prems(2)]]
  then have "br_signature_checks res1 \<le> 2048" by blast
  from Cons.IH [OF r(2) this] st r(2) show ?case by (cases ts) auto
qed simp

lemma block_shape_totals:
  assumes "block_shape b"
  shows "sum_list (map (\<lambda>t. length (tx_inputs t)) (bl_transactions b)) \<le> 4096"
    "sum_list (map (\<lambda>t. length (tx_outputs t)) (bl_transactions b)) \<le> 4096"
    "sum_list (map tx_checks (bl_transactions b)) \<le> 2048"
proof -
  from assms obtain res where "ofold add_block_resources no_resources (bl_transactions b) = Ok res"
    by (auto simp: block_shape_def)
  from ofold_resources [OF this] show
    "sum_list (map (\<lambda>t. length (tx_inputs t)) (bl_transactions b)) \<le> 4096"
    "sum_list (map (\<lambda>t. length (tx_outputs t)) (bl_transactions b)) \<le> 4096"
    "sum_list (map tx_checks (bl_transactions b)) \<le> 2048"
    by (cases "bl_transactions b"; simp add: no_resources_def)+
qed

section \<open>Properties\<close>

lemma encode_transaction_Ok:
  "encode_transaction C t = Ok bs \<longleftrightarrow> tx_shape (tx_network_id t) t \<and> tx_size_ok t \<and>
     bs = frame_bytes C TRANSACTION_KIND (tx_network_id t) (tx_payload t)"
proof -
  have max: "MAX_TRANSACTION_BYTES < 2 ^ 32" by (simp add: wire_limits)
  show ?thesis
    unfolding encode_transaction_def obind_eq_Ok encode_transaction_payload_Ok encode_frame_Ok [OF max]
    by (auto simp: tx_size_ok_def wire_limits)
qed

lemma decode_transaction_Ok:
  assumes "crypto_ok C"
  shows "decode_transaction C bs net = Ok t \<longleftrightarrow>
    tx_network_id t = net \<and> wf_transaction t \<and> encode_transaction C t = Ok bs"
proof -
  have max: "MAX_TRANSACTION_BYTES < 2 ^ 32" by (simp add: wire_limits)
  show ?thesis
    unfolding decode_transaction_def encode_transaction_Ok obind_eq_Ok decode_frame_Ok [OF assms max]
      decode_transaction_payload_Ok
    by (auto simp: tx_shape_def tx_size_ok_def wire_limits)
qed

text \<open>The transaction decoder accepts a byte string for a network exactly when it is the frame
  the encoder writes for a transaction of that network, and returns that transaction: decoding
  inverts encoding and no transaction has a second encoding.\<close>

theorem transaction_wire_roundtrip:
  assumes "crypto_ok C"
  shows "decode_transaction C bs net = Ok t \<longleftrightarrow>
    tx_network_id t = net \<and> wf_transaction t \<and> encode_transaction C t = Ok bs"
  by (rule decode_transaction_Ok [OF assms])

lemma demo_transaction_encodes: "\<exists>bs. encode_transaction demo_crypto demo_transaction = Ok bs"
  by (auto simp: encode_transaction_Ok tx_shape_def tx_size_ok_def demo_transaction_def demo_input_def signed64_def
      terms_on_def tx_payload_def input_bytes_def witness_bytes_def demo_output_def encode_output_def)

theorem transaction_wire_roundtrip_witness:
  "\<exists>bs. decode_transaction demo_crypto bs (replicate 32 1) = Ok demo_transaction"
proof -
  have "tx_network_id demo_transaction = replicate 32 1" by (simp add: demo_transaction_def)
  then show ?thesis
    using demo_transaction_encodes wf_demo_transaction transaction_wire_roundtrip [of demo_crypto] by auto
qed

text \<open>The proof decoder accepts a byte string for a network exactly when it is the frame the
  encoder writes for a proof, of either version, on that network.\<close>

theorem proof_wire_roundtrip:
  assumes "crypto_ok C" "length net = 32"
  shows "decode_forgematrix_proof C bs net = Ok p \<longleftrightarrow> wf_proof p \<and> encode_forgematrix_proof C p net = Ok bs"
proof -
  have max: "MAX_PROOF_BYTES < 2 ^ 32" by (simp add: wire_limits)
  show ?thesis
    unfolding decode_forgematrix_proof_def encode_forgematrix_proof_def obind_eq_Ok decode_frame_Ok [OF assms(1) max]
      encode_frame_Ok [OF max] decode_proof_payload_Ok encode_proof_payload_Ok
    using assms(2) by (auto simp: wire_limits)
qed

definition demo_forge_proof :: block_proof where
  "demo_forge_proof = BP_V1Legacy \<lparr>pr_algorithm_version = 1, pr_model_version = 1, pr_nonce = 7,
     pr_model_root = replicate 32 3, pr_output_digest = replicate 32 4, pr_work_digest = replicate 32 5\<rparr>"

theorem proof_wire_roundtrip_witness:
  "\<exists>bs. decode_forgematrix_proof demo_crypto bs (replicate 32 1) = Ok demo_forge_proof"
proof -
  have "\<exists>bs. encode_forgematrix_proof demo_crypto demo_forge_proof (replicate 32 1) = Ok bs"
    by (auto simp: encode_forgematrix_proof_def encode_proof_payload_Ok encode_frame_Ok wire_limits proof_payload_def
        demo_forge_proof_def)
  moreover have "wf_proof demo_forge_proof" by (simp add: wf_proof_def demo_forge_proof_def)
  ultimately show ?thesis using proof_wire_roundtrip [of demo_crypto "replicate 32 1"] by auto
qed

text \<open>C40. The block decoder accepts a byte string for a network exactly when it is the frame the
  encoder writes for a block of that network; every block it accepts respects the limits on
  transactions, aggregate inputs and outputs and signature checks.\<close>

theorem block_wire_roundtrip:
  assumes "crypto_ok C"
  shows "(decode_block C bs net = Ok b \<longleftrightarrow>
      bc_network_id (bl_challenge b) = net \<and> wf_block b \<and> encode_block C b = Ok bs) \<and>
    (encode_block C b = Ok bs \<longrightarrow> length bs \<le> MAX_BLOCK_BYTES \<and> length (bl_transactions b) \<le> MAX_BLOCK_TRANSACTIONS \<and>
      sum_list (map (\<lambda>t. length (tx_inputs t)) (bl_transactions b)) \<le> MAX_BLOCK_AGGREGATE_INPUTS \<and>
      sum_list (map (\<lambda>t. length (tx_outputs t)) (bl_transactions b)) \<le> MAX_BLOCK_AGGREGATE_OUTPUTS \<and>
      sum_list (map tx_checks (bl_transactions b)) \<le> MAX_BLOCK_SIGNATURE_CHECKS)"
proof
  show "decode_block C bs net = Ok b \<longleftrightarrow>
      bc_network_id (bl_challenge b) = net \<and> wf_block b \<and> encode_block C b = Ok bs"
    unfolding decode_block_Ok [OF assms] encode_block_Ok by auto
  show "encode_block C b = Ok bs \<longrightarrow> length bs \<le> MAX_BLOCK_BYTES \<and> length (bl_transactions b) \<le> MAX_BLOCK_TRANSACTIONS \<and>
      sum_list (map (\<lambda>t. length (tx_inputs t)) (bl_transactions b)) \<le> MAX_BLOCK_AGGREGATE_INPUTS \<and>
      sum_list (map (\<lambda>t. length (tx_outputs t)) (bl_transactions b)) \<le> MAX_BLOCK_AGGREGATE_OUTPUTS \<and>
      sum_list (map tx_checks (bl_transactions b)) \<le> MAX_BLOCK_SIGNATURE_CHECKS"
    unfolding encode_block_Ok wire_limits
    by (auto simp: block_shape_totals length_frame_bytes [OF assms] block_sizes_def block_shape_def)
qed

definition demo_block :: block where
  "demo_block = \<lparr>bl_version = 1,
     bl_challenge = \<lparr>bc_network_id = replicate 32 1, bc_previous_block = replicate 32 2, bc_transaction_root = replicate 32 3,
       bc_height = 4, bc_timestamp = 5, bc_target = replicate 32 6\<rparr>,
     bl_proof = demo_forge_proof, bl_coinbase = \<lparr>cb_height = 4, cb_outputs = [demo_output]\<rparr>,
     bl_transactions = [demo_transaction]\<rparr>"

theorem block_wire_roundtrip_witness:
  "\<exists>bs. decode_block demo_crypto bs (replicate 32 1) = Ok demo_block \<and> length bs \<le> MAX_BLOCK_BYTES"
proof -
  have res: "add_block_resources no_resources demo_transaction =
      Ok \<lparr>br_inputs = 1, br_outputs = 1, br_signature_checks = 1\<rparr>"
    by (simp add: add_block_resources_Ok no_resources_def demo_transaction_def tx_checks_def demo_input_def
        witness_checks_def)
  have shape: "block_shape demo_block"
    by (simp add: block_shape_def demo_block_def res)
      (simp add: tx_shape_def demo_transaction_def demo_input_def signed64_def terms_on_def)
  have sizes: "block_sizes demo_block"
    by (simp add: block_sizes_def demo_block_def demo_forge_proof_def proof_payload_def tx_size_ok_def block_payload_def
        Let_def demo_transaction_def demo_input_def tx_payload_def input_bytes_def witness_bytes_def demo_output_def
        encode_output_def sized_tx_def challenge_bytes_def coinbase_bytes_def)
  from shape sizes obtain bs where bs: "encode_block demo_crypto demo_block = Ok bs"
    by (auto simp: encode_block_Ok)
  have "wf_block demo_block" using wf_demo_transaction
    by (simp add: wf_block_def demo_block_def wf_challenge_def wf_proof_def demo_forge_proof_def wf_output_def wf_lock_def
        demo_output_def)
  moreover have "bc_network_id (bl_challenge demo_block) = replicate 32 1" by (simp add: demo_block_def)
  ultimately show ?thesis using bs block_wire_roundtrip [of demo_crypto bs "replicate 32 1" demo_block] by auto
qed

lemma decode_block_returns:
  assumes "length bs < usize_limit"
  shows "returns (decode_block C bs net)"
  unfolding decode_block_def
proof (rule returns_obind)
  show "returns (decode_frame C bs net BLOCK_KIND MAX_BLOCK_BYTES ''block'')" by (rule decode_frame_returns [OF assms])
  fix p assume "decode_frame C bs net BLOCK_KIND MAX_BLOCK_BYTES ''block'' = Ok p"
  then have "length p < usize_limit"
    using assms by (auto simp: decode_frame_def Let_def slice_or_panic_def split: if_splits)
  then have ok: "ok_reader (reader_new p)" by (rule ok_reader_new)
  have "closing (\<lambda>r. obind (rd_u32 r) (\<lambda>(version, r).
   obind (wire_decode_challenge net r) (\<lambda>(challenge, r).
   obind (rd_sized_bytes MAX_PROOF_BYTES ''ForgeMatrix proof'' r) (\<lambda>(proof_payload, r).
   obind (decode_forgematrix_proof_payload proof_payload (bc_network_id challenge)) (\<lambda>proof.
   obind (wire_decode_coinbase r) (\<lambda>(cb, r).
   obind (rd_count MAX_BLOCK_TRANSACTIONS ''block transactions'' r) (\<lambda>(transaction_count, r).
   obind (read_block_transactions net transaction_count no_resources r) (\<lambda>(transactions, r).
   obind (rd_finish r) (\<lambda>_.
   Ok \<lparr>bl_version = version, bl_challenge = challenge, bl_proof = proof, bl_coinbase = cb,
       bl_transactions = transactions\<rparr>)))))))))" (is "closing ?body")
    by (intro closing_intros safe_intros challenge_wire.get_safe decode_proof_payload_returns coinbase_wire.get_safe
        read_block_transactions_safe)
  with ok show "returns (?body (reader_new p))" by (simp add: closing_def)
qed

lemma decode_transaction_returns:
  assumes "length bs < usize_limit"
  shows "returns (decode_transaction C bs net)"
  unfolding decode_transaction_def
  by (auto intro!: returns_obind decode_frame_returns assms decode_transaction_payload_returns)

text \<open>On every input shorter than the address space the three decoders return a value or an
  error: no index, slice or subtraction is out of range; a frame with the wrong magic, network,
  version, kind, flags or length is rejected.\<close>

theorem decoders_never_panic:
  assumes "length bs < usize_limit"
  shows "returns (decode_transaction C bs net) \<and> returns (decode_forgematrix_proof C bs net) \<and>
    returns (decode_block C bs net)"
  using assms unfolding decode_forgematrix_proof_def
  by (auto intro!: returns_obind decode_block_returns decode_transaction_returns decode_frame_returns
      decode_proof_payload_returns)

theorem decoders_never_panic_witness: "returns (decode_block demo_crypto (replicate 16 0) zero32)"
  using decoders_never_panic [of "replicate 16 0" demo_crypto zero32] by simp

end
