(* ===== verification/CF_Difficulty.thy ===== *)
theory CF_Difficulty
  imports CF_Prelude
begin

text \<open>
  Proof-of-work accounting and retargeting: \<open>crates/cmfd-consensus/src/difficulty.rs\<close>.

  The 256- and 512-bit integers of the source are words of the same width. The library's
  operators panic on overflow where a word operation would wrap; the exactness lemmas show that
  every intermediate value stays in range, so the two agree on every call. The abstract
  specification \<open>dgw_spec\<close> states the retarget rule on natural numbers.
\<close>

section \<open>Definitions\<close>

definition TARGET_SPACING_SECONDS :: u64 where
  "TARGET_SPACING_SECONDS = 60"

definition DGW_WINDOW :: nat where
  "DGW_WINDOW = 180"

record header_work =
  hw_timestamp :: u64
  hw_target :: hash32

datatype difficulty_error = DE_ZeroPowLimit | DE_ZeroTarget | DE_TimestampOrder | DE_WorkOverflow

definition block_work :: "hash32 \<Rightarrow> (difficulty_error, u512) outcome" where
  "block_work target =
     (let t = (from_big_endian target :: u256) in
      if t = 0 then Err DE_ZeroTarget
      else Ok (push_bit 256 (1 :: u512) div (ucast t + 1)))"

definition add_chain_work :: "u512 \<Rightarrow> hash32 \<Rightarrow> (difficulty_error, u512) outcome" where
  "add_chain_work current target =
     obind (block_work target) (\<lambda>w.
       if unat current + unat w < 2 ^ 512 then Ok (current + w) else Err DE_WorkOverflow)"

definition chain_work_bytes :: "u512 \<Rightarrow> byte list" where
  "chain_work_bytes work = to_big_endian work"

definition to_bytes :: "u256 \<Rightarrow> hash32" where
  "to_bytes value = to_big_endian value"

fun timestamps_ordered :: "header_work list \<Rightarrow> bool" where
  "timestamps_ordered (a # b # hs) =
     (if hw_timestamp b < hw_timestamp a then False else timestamps_ordered (b # hs))"
| "timestamps_ordered _ = True"

fun sum_targets :: "u512 \<Rightarrow> header_work list \<Rightarrow> (difficulty_error, u512) outcome" where
  "sum_targets acc [] = Ok acc"
| "sum_targets acc (h # hs) =
     (let t = (from_big_endian (hw_target h) :: u256) in
      if t = 0 then Err DE_ZeroTarget else sum_targets (acc + ucast t) hs)"

definition clamp :: "'a::linorder \<Rightarrow> 'a \<Rightarrow> 'a \<Rightarrow> 'a" where
  "clamp x lo hi = (if x < lo then lo else if hi < x then hi else x)"

definition dgw_window :: "header_work list \<Rightarrow> header_work list" where
  "dgw_window history = drop (length history - DGW_WINDOW) history"

definition next_work_target :: "header_work list \<Rightarrow> hash32 \<Rightarrow> (difficulty_error, hash32) outcome" where
  "next_work_target history pow_limit =
     (let limit = (from_big_endian pow_limit :: u256) in
      if limit = 0 then Err DE_ZeroPowLimit
      else if history = [] then Ok (to_bytes limit)
      else
        let window = dgw_window history in
        if \<not> timestamps_ordered window then Err DE_TimestampOrder
        else obind (sum_targets 0 window) (\<lambda>target_sum.
          if length window = 1
          then Ok (to_bytes (min (from_big_endian (hw_target (hd window))) limit))
          else
            let count = (word_of_nat (length window) :: u64);
                average = target_sum div ucast count;
                expected_span = (count - 1) * TARGET_SPACING_SECONDS;
                measured_span = hw_timestamp (last window) - hw_timestamp (hd window);
                clamped_span = clamp measured_span (expected_span div 3) (expected_span * 3);
                adjusted = average * ucast clamped_span div ucast expected_span;
                capped = min adjusted (ucast limit);
                target = (if capped = 0 then 1 else ucast capped)
            in Ok (to_bytes target)))"

section \<open>Specification\<close>

text \<open>
  A history is well formed when every target has 32 bytes. \<open>dgw_spec\<close> is the retarget rule on
  naturals: the average target of the window scaled by the clamped ratio of measured to expected
  time, between one and the limit.
\<close>

definition wf_history :: "header_work list \<Rightarrow> bool" where
  "wf_history hs = list_all (\<lambda>h. length (hw_target h) = 32) hs"

definition targets_nonzero :: "header_work list \<Rightarrow> bool" where
  "targets_nonzero hs = list_all (\<lambda>h. be_nat (hw_target h) \<noteq> 0) hs"

definition mean_target :: "header_work list \<Rightarrow> nat" where
  "mean_target hs = sum_list (map (\<lambda>h. be_nat (hw_target h)) hs) div length hs"

definition expected_time :: "header_work list \<Rightarrow> nat" where
  "expected_time hs = (length hs - 1) * 60"

definition measured_time :: "header_work list \<Rightarrow> nat" where
  "measured_time hs = unat (hw_timestamp (last hs)) - unat (hw_timestamp (hd hs))"

definition dgw_spec :: "header_work list \<Rightarrow> nat \<Rightarrow> nat" where
  "dgw_spec hs limit =
     (if length hs \<le> 1 then min (mean_target hs) limit
      else max 1 (min limit
        (mean_target hs * clamp (measured_time hs) (expected_time hs div 3) (expected_time hs * 3)
           div expected_time hs)))"

section \<open>Lemmas\<close>

lemma wf_historyD: "wf_history hs \<Longrightarrow> h \<in> set hs \<Longrightarrow> length (hw_target h) = 32"
  by (simp add: wf_history_def list_all_iff)

lemma wf_history_append [simp]: "wf_history (xs @ ys) \<longleftrightarrow> wf_history xs \<and> wf_history ys"
  by (simp add: wf_history_def)

lemma unat_target [simp]: "length t = 32 \<Longrightarrow> unat (from_big_endian t :: u256) = be_nat t"
  by (simp add: unat_from_big_endian)

lemma target_zero_iff: "length t = 32 \<Longrightarrow> (from_big_endian t :: u256) = 0 \<longleftrightarrow> be_nat t = 0"
  using unat_target [of t] by (metis unat_eq_zero)

lemma be_nat_to_bytes [simp]: "be_nat (to_bytes v) = unat v"
  by (simp add: to_bytes_def be_nat_to_big_endian)

lemma length_to_bytes [simp]: "length (to_bytes v) = 32"
  by (simp add: to_bytes_def)

lemma unat_ucast_512 [simp]: "unat (ucast (t :: u256) :: u512) = unat t"
  by (simp add: unat_ucast_up)

lemma unat_ucast_64_512 [simp]: "unat (ucast (t :: u64) :: u512) = unat t"
  by (simp add: unat_ucast_up)

lemma be_nat32_bound: "length t = 32 \<Longrightarrow> be_nat t < 2 ^ 256"
  using be_nat_bound [of t] by (simp add: pow256)

lemma u512_pow256: "unat (push_bit 256 (1 :: u512)) = 2 ^ 256"
  by (simp add: push_bit_eq_mult unat_word_ariths)

lemma unat_target_plus_one: "unat (ucast (t :: u256) + 1 :: u512) = unat t + 1"
proof -
  have "unat t < 2 ^ 256" using unsigned_less [of t, where ?'a = nat] by simp
  then have "unat t + 1 < 2 ^ 512" by simp
  then show ?thesis by (simp add: unat_word_ariths)
qed

lemma block_work_exact:
  assumes "length target = 32" "be_nat target \<noteq> 0"
  shows "\<exists>w. block_work target = Ok w \<and> unat w = 2 ^ 256 div (be_nat target + 1)"
  using assms
  by (simp add: block_work_def Let_def target_zero_iff unat_div u512_pow256 unat_target_plus_one)

lemma block_work_positive:
  assumes "length target = 32" "block_work target = Ok w"
  shows "0 < unat w" "unat w \<le> 2 ^ 255"
proof -
  have nz: "be_nat target \<noteq> 0"
    using assms by (auto simp: block_work_def Let_def target_zero_iff)
  then have w: "unat w = 2 ^ 256 div (be_nat target + 1)"
    using block_work_exact [OF assms(1) nz] assms(2) by auto
  have "be_nat target + 1 \<le> 2 ^ 256"
    using be_nat32_bound [OF assms(1)] by simp
  then show "0 < unat w"
    unfolding w by (simp only: div_greater_zero_iff) simp
  have "2 ^ 256 div (be_nat target + 1) \<le> 2 ^ 256 div (2 :: nat)"
    using nz by (intro div_le_mono2) auto
  then show "unat w \<le> 2 ^ 255" unfolding w by simp
qed

lemma clamp_bounds: "lo \<le> hi \<Longrightarrow> lo \<le> clamp x lo hi" "lo \<le> hi \<Longrightarrow> clamp x lo hi \<le> hi"
  by (auto simp: clamp_def)

lemma unat_clamp: "unat (clamp x lo hi) = clamp (unat x) (unat lo) (unat (hi :: 'a::len word))"
  by (simp add: clamp_def word_less_nat_alt)

lemma sum_targets_exact:
  assumes "wf_history hs" "targets_nonzero hs" "unat acc + length hs * 2 ^ 256 < 2 ^ 512"
  shows "\<exists>s. sum_targets acc hs = Ok s \<and>
           unat s = unat acc + sum_list (map (\<lambda>h. be_nat (hw_target h)) hs)"
  using assms
proof (induction hs arbitrary: acc)
  case (Cons h hs)
  let ?t = "from_big_endian (hw_target h) :: u256"
  have len: "length (hw_target h) = 32" and nz: "be_nat (hw_target h) \<noteq> 0"
    using Cons.prems by (auto simp: wf_history_def targets_nonzero_def)
  have b: "be_nat (hw_target h) < 2 ^ 256" by (rule be_nat32_bound [OF len])
  have acc: "unat (acc + ucast ?t) = unat acc + be_nat (hw_target h)"
    using Cons.prems(3) b len by (subst unat_add_no_overflow) simp_all
  have "unat (acc + ucast ?t) + length hs * 2 ^ 256 < 2 ^ 512"
    unfolding acc using Cons.prems(3) b by simp
  then obtain s where "sum_targets (acc + ucast ?t) hs = Ok s"
      "unat s = unat (acc + ucast ?t) + sum_list (map (\<lambda>h. be_nat (hw_target h)) hs)"
    using Cons.IH Cons.prems by (auto simp: wf_history_def targets_nonzero_def)
  then show ?case
    using len nz by (simp add: Let_def target_zero_iff acc)
qed simp

lemma sum_targets_nonzero:
  "wf_history hs \<Longrightarrow> sum_targets acc hs = Ok s \<Longrightarrow> targets_nonzero hs"
  by (induction hs arbitrary: acc)
    (auto simp: Let_def wf_history_def targets_nonzero_def target_zero_iff)

lemma timestamps_ordered_sorted:
  "timestamps_ordered hs \<longleftrightarrow> sorted (map hw_timestamp hs)"
  by (induction hs rule: timestamps_ordered.induct) auto

lemma sorted_hd_le_last: "sorted xs \<Longrightarrow> xs \<noteq> [] \<Longrightarrow> hd xs \<le> last xs"
  by (induction xs) auto

lemma measured_time_exact:
  assumes "timestamps_ordered hs" "hs \<noteq> []"
  shows "unat (hw_timestamp (last hs) - hw_timestamp (hd hs)) = measured_time hs"
proof -
  have "hw_timestamp (hd hs) \<le> hw_timestamp (last hs)"
    using sorted_hd_le_last [of "map hw_timestamp hs"] assms
    by (simp add: timestamps_ordered_sorted hd_map last_map)
  then show ?thesis by (simp add: measured_time_def unat_sub_no_underflow)
qed

lemma length_dgw_window: "length (dgw_window h) = min 180 (length h)"
  by (simp add: dgw_window_def DGW_WINDOW_def)

lemma dgw_window_empty [simp]: "dgw_window h = [] \<longleftrightarrow> h = []"
  by (cases h) (auto simp: dgw_window_def DGW_WINDOW_def)

lemma set_dgw_window: "set (dgw_window h) \<subseteq> set h"
  by (simp add: dgw_window_def set_drop_subset)

lemma wf_history_window: "wf_history h \<Longrightarrow> wf_history (dgw_window h)"
  using set_dgw_window [of h] by (auto simp: wf_history_def list_all_iff)

lemma targets_nonzero_window: "targets_nonzero h \<Longrightarrow> targets_nonzero (dgw_window h)"
  using set_dgw_window [of h] by (auto simp: targets_nonzero_def list_all_iff)

lemma ordered_window: "timestamps_ordered h \<Longrightarrow> timestamps_ordered (dgw_window h)"
  by (simp add: timestamps_ordered_sorted dgw_window_def drop_map [symmetric] sorted_wrt_drop)

lemma mean_target_bound:
  assumes "wf_history hs" "hs \<noteq> []"
  shows "mean_target hs < 2 ^ 256"
proof -
  have "sum_list (map (\<lambda>h. be_nat (hw_target h)) hs) < length hs * 2 ^ 256"
    using assms
  proof (induction hs)
    case (Cons h hs)
    have "length (hw_target h) = 32" using Cons.prems by (simp add: wf_history_def)
    then have "be_nat (hw_target h) < 2 ^ 256" by (rule be_nat32_bound)
    with Cons show ?case by (cases "hs = []") (auto simp: wf_history_def)
  qed simp
  then show ?thesis
    unfolding mean_target_def using assms(2) by (simp add: less_mult_imp_div_less mult.commute)
qed

lemma expected_span_exact:
  assumes "1 < n" "n \<le> 180"
  defines "c \<equiv> word_of_nat n :: u64"
  shows "unat ((c - 1) * TARGET_SPACING_SECONDS) = (n - 1) * 60"
    "unat ((c - 1) * TARGET_SPACING_SECONDS * 3) = (n - 1) * 60 * 3"
    "unat c = n"
proof -
  have c: "unat c = n" using assms by (simp add: unat_of_nat)
  then have "1 \<le> c" using assms by (simp add: word_le_nat_alt)
  then have "unat (c - 1) = n - 1" using c by (simp add: unat_sub_no_underflow)
  moreover have sp: "unat TARGET_SPACING_SECONDS = 60" by (simp add: TARGET_SPACING_SECONDS_def)
  ultimately show e: "unat ((c - 1) * TARGET_SPACING_SECONDS) = (n - 1) * 60"
    using assms by (subst unat_mul_no_overflow) simp_all
  show "unat ((c - 1) * TARGET_SPACING_SECONDS * 3) = (n - 1) * 60 * 3"
    using assms e by (subst unat_mul_no_overflow) simp_all
  show "unat c = n" by (rule c)
qed

text \<open>Scaling by the clamped span never leaves 512 bits.\<close>

lemma adjusted_exact:
  assumes "unat avg < 2 ^ 256" "unat e \<noteq> 0"
  shows "unat (avg * ucast (c :: u64) div ucast (e :: u64) :: u512) = unat avg * unat c div unat e"
proof -
  have "unat c < 2 ^ 64" using unsigned_less [of c, where ?'a = nat] by simp
  with assms(1) have "unat avg * unat c < 2 ^ 256 * 2 ^ 64"
    by (intro mult_strict_mono) simp_all
  also have "\<dots> < (2::nat) ^ 512" by simp
  finally have "unat (avg * ucast c) = unat avg * unat c"
    by (subst unat_mul_no_overflow) simp_all
  then show ?thesis by (simp add: unat_div)
qed

lemma capped_exact:
  fixes adjusted :: u512 and limit :: u256
  assumes "unat limit \<noteq> 0"
  defines "capped \<equiv> min adjusted (ucast limit)"
  shows "unat (if capped = 0 then 1 else ucast capped :: u256)
    = max 1 (min (unat limit) (unat adjusted))"
proof -
  have cap: "unat capped = min (unat adjusted) (unat limit)"
    by (simp add: capped_def min_def word_le_nat_alt)
  have "unat capped < 2 ^ 256"
    using cap unsigned_less [of limit, where ?'a = nat] by (simp add: min_def)
  then have "unat (ucast capped :: u256) = unat capped"
    by (simp add: unsigned_ucast_eq take_bit_nat_eq_self)
  moreover have "unat adjusted = 0" if "capped = 0"
    using that cap assms(1) by (simp add: min_def split: if_splits)
  moreover have "1 \<le> min (unat adjusted) (unat limit)" if "capped \<noteq> 0"
    using that cap by (metis less_one not_less unat_eq_zero)
  ultimately show ?thesis
    using cap by (cases "capped = 0") (simp_all add: min.commute max_absorb2)
qed

lemma unat_min: "unat (min a b) = min (unat a) (unat (b :: 'a::len word))"
  by (simp add: min_def word_le_nat_alt)

lemma next_work_target_exact:
  assumes wf: "wf_history history" "length pow_limit = 32" and ne: "history \<noteq> []"
    and limit: "be_nat pow_limit \<noteq> 0"
    and nz: "targets_nonzero (dgw_window history)"
    and ord: "timestamps_ordered (dgw_window history)"
  shows "\<exists>t. next_work_target history pow_limit = Ok t \<and> length t = 32 \<and>
    be_nat t = dgw_spec (dgw_window history) (be_nat pow_limit)"
proof -
  let ?w = "dgw_window history" and ?l = "from_big_endian pow_limit :: u256"
  let ?n = "length ?w" and ?c = "word_of_nat (length ?w) :: u64"
  have n: "0 < ?n" "?n \<le> 180" using ne length_dgw_window [of history] by auto
  have wfw: "wf_history ?w" using wf(1) by (rule wf_history_window)
  have "?n * 2 ^ 256 \<le> 180 * (2::nat) ^ 256" using n(2) by (intro mult_right_mono) simp_all
  then have "unat (0 :: u512) + ?n * 2 ^ 256 < 2 ^ 512" by simp
  then obtain s where s: "sum_targets 0 ?w = Ok s"
      "unat s = sum_list (map (\<lambda>h. be_nat (hw_target h)) ?w)"
    using sum_targets_exact [OF wfw nz, of 0] by auto
  have l: "unat ?l = be_nat pow_limit" "?l \<noteq> 0"
    using wf(2) limit by (simp_all add: target_zero_iff)
  show ?thesis
  proof (cases "?n = 1")
    case True
    then obtain h where h: "?w = [h]" by (metis length_0_conv length_Suc_conv One_nat_def)
    then have "length (hw_target h) = 32" using wfw by (simp add: wf_history_def)
    with h True s l ne ord show ?thesis
      by (simp add: next_work_target_def Let_def unat_min dgw_spec_def mean_target_def)
  next
    case False
    with n(1) have n1: "1 < ?n" by linarith
    let ?e = "(?c - 1) * TARGET_SPACING_SECONDS"
    let ?m = "hw_timestamp (last ?w) - hw_timestamp (hd ?w)"
    let ?k = "clamp ?m (?e div 3) (?e * 3)"
    let ?avg = "s div ucast ?c :: u512"
    note span = expected_span_exact [OF n1 n(2)]
    have e: "unat ?e = expected_time ?w" "unat (?e * 3) = expected_time ?w * 3"
      using span by (simp_all add: expected_time_def)
    have e0: "unat ?e \<noteq> 0" using e(1) n1 by (simp add: expected_time_def)
    have k: "unat ?k = clamp (measured_time ?w) (expected_time ?w div 3) (expected_time ?w * 3)"
      using measured_time_exact [OF ord] ne by (simp add: unat_clamp e unat_div)
    have avg: "unat ?avg = mean_target ?w"
      using s(2) span(3) by (simp add: unat_div mean_target_def)
    have "unat ?avg < 2 ^ 256" unfolding avg using mean_target_bound [OF wfw] ne by simp
    note adj = adjusted_exact [OF this e0, of ?k, unfolded avg k e(1)]
    have "unat ?l \<noteq> 0" using l limit by simp
    note cap = capped_exact [OF this, of "?avg * ucast ?k div ucast ?e", unfolded adj l(1)]
    let ?r = "if min (?avg * ucast ?k div ucast ?e) (ucast ?l) = 0 then 1
         else ucast (min (?avg * ucast ?k div ucast ?e) (ucast ?l)) :: u256"
    have "next_work_target history pow_limit = Ok (to_bytes ?r)"
      using s l ne ord n1 by (simp add: next_work_target_def Let_def)
    moreover have "unat ?r = dgw_spec ?w (be_nat pow_limit)"
      unfolding cap dgw_spec_def using n1 by (simp only: not_le [symmetric] if_False)
    ultimately show ?thesis by (metis be_nat_to_bytes length_to_bytes)
  qed
qed

text \<open>When the computation succeeds its preconditions held.\<close>

lemma next_work_target_OkD:
  assumes "next_work_target history pow_limit = Ok t" "wf_history history" "length pow_limit = 32"
  shows "be_nat pow_limit \<noteq> 0" "timestamps_ordered (dgw_window history)"
    "targets_nonzero (dgw_window history)"
proof -
  show "be_nat pow_limit \<noteq> 0"
    using assms by (auto simp: next_work_target_def Let_def target_zero_iff)
  show "timestamps_ordered (dgw_window history)" "targets_nonzero (dgw_window history)"
    using assms sum_targets_nonzero [OF wf_history_window [OF assms(2)]]
    by (cases "history = []", auto simp: next_work_target_def Let_def dgw_window_def
        targets_nonzero_def split: if_splits)+
qed

text \<open>The specification moves the target by at most a factor of three and respects the limit.\<close>

lemma dgw_spec_limit:
  assumes "0 < limit" "hs \<noteq> []" "targets_nonzero hs"
  shows "1 \<le> dgw_spec hs limit" "dgw_spec hs limit \<le> limit"
proof -
  show "dgw_spec hs limit \<le> limit" using assms by (simp add: dgw_spec_def)
  show "1 \<le> dgw_spec hs limit"
  proof (cases "length hs \<le> 1")
    case True
    then obtain h where "hs = [h]" using assms(2) by (cases hs) auto
    with assms show ?thesis by (simp add: dgw_spec_def mean_target_def targets_nonzero_def)
  qed (simp add: dgw_spec_def)
qed

lemma dgw_spec_step_bounds:
  assumes "1 < length hs" "0 < limit"
  shows "dgw_spec hs limit \<le> max 1 (3 * mean_target hs)"
    "min limit (mean_target hs div 3) \<le> dgw_spec hs limit"
proof -
  let ?e = "expected_time hs" and ?a = "mean_target hs"
  let ?c = "clamp (measured_time hs) (?e div 3) (?e * 3)"
  have e: "0 < ?e" "3 dvd ?e" using assms by (auto simp: expected_time_def)
  have c: "?c \<le> ?e * 3" "?e div 3 \<le> ?c" by (auto intro!: clamp_bounds)
  have "?a * ?c div ?e \<le> ?a * (?e * 3) div ?e"
    by (rule div_le_mono [OF mult_le_mono2 [OF c(1)]])
  moreover have "?a * (?e div 3) div ?e \<le> ?a * ?c div ?e"
    by (rule div_le_mono [OF mult_le_mono2 [OF c(2)]])
  moreover have "?a * (?e * 3) div ?e = 3 * ?a" using e by simp
  moreover have "?a * (?e div 3) div ?e = ?a div 3"
  proof -
    obtain k where "?e = 3 * k" using e(2) by (elim dvdE)
    then show ?thesis using e(1) by simp
  qed
  ultimately have b: "?a * ?c div ?e \<le> 3 * ?a" "?a div 3 \<le> ?a * ?c div ?e" by simp_all
  show "dgw_spec hs limit \<le> max 1 (3 * ?a)" "min limit (?a div 3) \<le> dgw_spec hs limit"
    using assms b unfolding dgw_spec_def by (auto simp: min_def max_def)
qed

section \<open>Properties\<close>

text \<open>C33. On every nonempty history whose window has nonzero targets and non-decreasing
  timestamps, \<open>next_work_target\<close> succeeds with the value of the retarget rule on naturals: no
  256-, 512- or 64-bit operation overflows and the clamp never sees inverted bounds.\<close>

theorem retarget_matches_specification:
  assumes "wf_history history" "length pow_limit = 32" "history \<noteq> []" "be_nat pow_limit \<noteq> 0"
    and "targets_nonzero (dgw_window history)" "timestamps_ordered (dgw_window history)"
  shows "\<exists>t. next_work_target history pow_limit = Ok t \<and> length t = 32 \<and>
    be_nat t = dgw_spec (dgw_window history) (be_nat pow_limit)"
  using assms by (rule next_work_target_exact)

definition demo_target :: "byte \<Rightarrow> hash32" where
  "demo_target b = replicate 31 0 @ [b]"

definition demo_history :: "header_work list" where
  "demo_history = [\<lparr>hw_timestamp = 1000, hw_target = demo_target 12\<rparr>,
     \<lparr>hw_timestamp = 1030, hw_target = demo_target 12\<rparr>,
     \<lparr>hw_timestamp = 1060, hw_target = demo_target 12\<rparr>]"

lemma demo_target [simp]: "length (demo_target b) = 32" "be_nat (demo_target b) = unat b"
  by (simp_all add: demo_target_def be_nat_def) (simp add: numeral_eq_Suc)

lemma demo_history_ok:
  "wf_history demo_history" "demo_history \<noteq> []" "targets_nonzero (dgw_window demo_history)"
  "timestamps_ordered (dgw_window demo_history)" "dgw_window demo_history = demo_history"
  "targets_nonzero demo_history" "timestamps_ordered demo_history"
  by (simp_all add: demo_history_def wf_history_def targets_nonzero_def dgw_window_def DGW_WINDOW_def)

lemma demo_dgw_spec: "dgw_spec demo_history 200 = 6"
  by (simp add: dgw_spec_def demo_history_def mean_target_def expected_time_def measured_time_def
      clamp_def)

theorem retarget_matches_specification_witness:
  "\<exists>t. next_work_target demo_history (demo_target 200) = Ok t \<and> be_nat t = 6"
  using retarget_matches_specification [OF demo_history_ok(1), of "demo_target 200"]
  by (auto simp: demo_history_ok demo_dgw_spec)

text \<open>A computed target lies between one and the network limit, and one retarget moves it
  away from the mean target of the window by at most a factor of three in either direction.\<close>

theorem retarget_bounded:
  assumes "next_work_target history pow_limit = Ok t" "wf_history history" "length pow_limit = 32"
    and "1 < length history"
  shows "1 \<le> be_nat t \<and> be_nat t \<le> be_nat pow_limit \<and>
    be_nat t \<le> max 1 (3 * mean_target (dgw_window history)) \<and>
    min (be_nat pow_limit) (mean_target (dgw_window history) div 3) \<le> be_nat t"
proof -
  let ?w = "dgw_window history"
  note pre = next_work_target_OkD [OF assms(1-3)]
  have ne: "history \<noteq> []" using assms(4) by auto
  have t: "be_nat t = dgw_spec ?w (be_nat pow_limit)"
    using next_work_target_exact [OF assms(2,3) ne pre(1,3,2)] assms(1) by auto
  have len: "1 < length ?w" using assms(4) by (simp add: length_dgw_window)
  have w: "?w \<noteq> []" using ne by simp
  have pos: "0 < be_nat pow_limit" using pre(1) by simp
  show ?thesis
    unfolding t
    using dgw_spec_limit [OF pos w pre(3)] dgw_spec_step_bounds [OF len pos] by blast
qed

theorem retarget_bounded_witness:
  "\<exists>t. next_work_target demo_history (demo_target 200) = Ok t \<and> be_nat t \<le> 36 \<and> 4 \<le> be_nat t"
proof -
  obtain t where t: "next_work_target demo_history (demo_target 200) = Ok t"
    using next_work_target_exact [OF demo_history_ok(1), of "demo_target 200"]
    by (auto simp: demo_history_ok)
  have "1 < length demo_history" "mean_target demo_history = 12"
    by (simp_all add: demo_history_def mean_target_def)
  with retarget_bounded [OF t demo_history_ok(1)] t show ?thesis
    by (auto simp: demo_history_ok)
qed

text \<open>The work of a block is the exact quotient of \<open>2\<^sup>2\<^sup>5\<^sup>6\<close> by the target plus one,
  is positive, and a lower target never counts for less; a zero target is the only error.\<close>

theorem block_work_exact_and_monotone:
  assumes "length target = 32" "length easier = 32" "0 < be_nat target"
    and "be_nat target \<le> be_nat easier"
  shows "\<exists>w v. block_work target = Ok w \<and> block_work easier = Ok v \<and>
    unat w = 2 ^ 256 div (be_nat target + 1) \<and> 0 < v \<and> v \<le> w \<and>
    block_work zero32 = Err DE_ZeroTarget"
proof -
  obtain w v where w: "block_work target = Ok w" "unat w = 2 ^ 256 div (be_nat target + 1)"
    and v: "block_work easier = Ok v" "unat v = 2 ^ 256 div (be_nat easier + 1)"
    using block_work_exact [OF assms(1)] block_work_exact [OF assms(2)] assms(3,4) by auto
  have "unat v \<le> unat w" unfolding w(2) v(2) using assms(4) by (intro div_le_mono2) simp_all
  moreover have "0 < unat v" by (rule block_work_positive(1) [OF assms(2) v(1)])
  moreover have "block_work zero32 = Err DE_ZeroTarget"
    by (simp add: block_work_def from_big_endian_def)
  ultimately show ?thesis
    using w v by (auto simp: word_le_nat_alt word_less_nat_alt)
qed

theorem block_work_exact_and_monotone_witness:
  "\<exists>w. block_work (demo_target 3) = Ok w \<and> unat w = 2 ^ 254"
  using block_work_exact_and_monotone [of "demo_target 3" "demo_target 7"] by auto

end
