(* ===== verification/CF_Network.thy ===== *)
theory CF_Network
  imports CF_Types CF_Limits CF_Difficulty
begin

text \<open>
  The immutable network parameters of \<open>crates/cmfd-consensus/src/network.rs\<close>: their validation and
  the fingerprint that commits to them and to every consensus limit of the implementation.
\<close>

section \<open>Data\<close>

definition NETWORK_PARAMS_DOMAIN :: string where "NETWORK_PARAMS_DOMAIN = ''CMFD/NETWORK/PARAMS/V1''"

record network_params =
  np_network_id :: hash32
  np_protocol_version :: u32
  np_genesis_hash :: hash32
  np_genesis_timestamp :: u64
  np_pow_limit :: hash32
  np_pow :: pow_parameters
  np_monetary_policy :: monetary_policy
  np_rewards :: reward_destinations
  np_max_future_offset_secs :: u64

record block_validation_context =
  vc_now_unix_seconds :: u64

datatype network_error =
    NE_ZeroNetworkId | NE_UnsupportedProtocolVersion | NE_ZeroGenesisHash | NE_ZeroPowLimit
  | NE_ZeroFutureOffset | NE_FutureOffsetTooLarge | NE_UnusableGenesisTimestamp
  | NE_MonetaryPolicy economics_error | NE_InvalidStewardDestination | NE_InvalidCommunityDestination
  | NE_ForgeMatrix forge_error | NE_InvalidPowParameters | NE_WrongPowNetwork

section \<open>Operations\<close>

definition map_pow_parameter_error :: "pow_error \<Rightarrow> network_error" where
  "map_pow_parameter_error e =
     (case e of
        PE_V1 err \<Rightarrow> NE_ForgeMatrix err
      | PE_WrongNetwork \<Rightarrow> NE_WrongPowNetwork
      | PE_V2 _ \<Rightarrow> NE_InvalidPowParameters
      | PE_WrongProofType \<Rightarrow> NE_InvalidPowParameters
      | PE_ParameterMismatch \<Rightarrow> NE_InvalidPowParameters)"

definition validate_without_pow :: "crypto \<Rightarrow> network_params \<Rightarrow> (network_error, unit) outcome" where
  "validate_without_pow C p =
     (if np_network_id p = zero32 then Err NE_ZeroNetworkId
      else if np_protocol_version p \<noteq> NETWORK_PROTOCOL_VERSION then Err NE_UnsupportedProtocolVersion
      else if np_genesis_hash p = zero32 then Err NE_ZeroGenesisHash
      else if np_pow_limit p = zero32 then Err NE_ZeroPowLimit
      else if np_max_future_offset_secs p = 0 then Err NE_ZeroFutureOffset
      else if MAX_FUTURE_OFFSET_SECS < np_max_future_offset_secs p then Err NE_FutureOffsetTooLarge
      else if checked_add (np_genesis_timestamp p) (np_max_future_offset_secs p) = None
        then Err NE_UnusableGenesisTimestamp
      else
        obind (map_err NE_MonetaryPolicy (mp_validate (np_monetary_policy p))) (\<lambda>_.
        if \<not> key_from_bytes C (rd_steward (np_rewards p)) then Err NE_InvalidStewardDestination
        else if \<not> key_from_bytes C (rd_community (np_rewards p)) then Err NE_InvalidCommunityDestination
        else Ok ()))"

definition np_validate :: "crypto \<Rightarrow> network_params \<Rightarrow> (network_error, unit) outcome" where
  "np_validate C p =
     obind (validate_without_pow C p) (\<lambda>_.
     map_err map_pow_parameter_error (pp_validate C (np_pow p) (np_network_id p)))"

definition validate_for_bound_verifier :: "crypto \<Rightarrow> network_params \<Rightarrow> (network_error, unit) outcome" where
  "validate_for_bound_verifier C p =
     obind (validate_without_pow C p) (\<lambda>_.
     case np_pow p of
       PP_V2Reference descriptor \<Rightarrow>
         if vd_network_id descriptor \<noteq> np_network_id p then Err NE_WrongPowNetwork else Ok ()
     | PP_V1Legacy _ \<Rightarrow> Ok ())"

definition consensus_caps :: "nat list" where
  "consensus_caps = [MEDIAN_TIME_WINDOW, MAX_BLOCK_TRANSACTIONS, MAX_TRANSACTION_INPUTS, MAX_TRANSACTION_OUTPUTS,
     MAX_BLOCK_AGGREGATE_INPUTS, MAX_BLOCK_AGGREGATE_OUTPUTS, MAX_BLOCK_SIGNATURE_CHECKS, MAX_COINBASE_OUTPUTS,
     CONSENSUS_SIGNATURE_BYTES, DGW_WINDOW, WIRE_HEADER_BYTES, MAX_TRANSACTION_BYTES, MAX_PROOF_BYTES,
     MAX_BLOCK_BYTES]"

definition fingerprint_suffix :: "network_params \<Rightarrow> byte list" where
  "fingerprint_suffix p =
     to_le_bytes (initial_subsidy (np_monetary_policy p)) @ to_le_bytes (tail_height (np_monetary_policy p)) @
     to_le_bytes (tail_subsidy (np_monetary_policy p)) @ [steward_percent (np_monetary_policy p)] @
     [community_percent (np_monetary_policy p)] @
     rd_steward (np_rewards p) @ rd_community (np_rewards p) @ to_le_bytes (np_max_future_offset_secs p) @
     concat (map (\<lambda>cap. to_le_bytes (word_of_nat cap :: u64)) consensus_caps) @
     to_le_bytes BLOCK_VERSION @ to_le_bytes TRANSACTION_VERSION @ to_le_bytes COINBASE_MATURITY @
     to_le_bytes TARGET_SPACING_SECONDS @ to_le_bytes WIRE_VERSION"

definition fingerprint_preimage :: "network_params \<Rightarrow> byte list \<Rightarrow> byte list" where
  "fingerprint_preimage p pow_bytes =
     np_network_id p @ to_le_bytes (np_protocol_version p) @ np_genesis_hash p @
     to_le_bytes (np_genesis_timestamp p) @ np_pow_limit p @ pow_bytes @ fingerprint_suffix p"

definition fingerprint :: "crypto \<Rightarrow> network_params \<Rightarrow> (network_error, hash32) outcome" where
  "fingerprint C p =
     obind (validate_without_pow C p) (\<lambda>_.
     obind (map_err map_pow_parameter_error (pp_absorb C (np_pow p) (np_network_id p))) (\<lambda>pow_bytes.
     Ok (b3_derive C NETWORK_PARAMS_DOMAIN (fingerprint_preimage p pow_bytes))))"

section \<open>Well-formed parameters\<close>

definition wf_pow_parameters :: "pow_parameters \<Rightarrow> bool" where
  "wf_pow_parameters q = (case q of
       PP_V1Legacy f \<Rightarrow> length (fp_model_seed f) = 32
     | PP_V2Reference d \<Rightarrow> length (vd_network_id d) = 32 \<and> wf_manifest (vd_model d))"

definition wf_params :: "network_params \<Rightarrow> bool" where
  "wf_params p \<longleftrightarrow> length (np_network_id p) = 32 \<and> length (np_genesis_hash p) = 32 \<and> length (np_pow_limit p) = 32 \<and>
     length (rd_steward (np_rewards p)) = 32 \<and> length (rd_community (np_rewards p)) = 32 \<and> wf_pow_parameters (np_pow p)"

lemma validate_without_pow_Ok:
  "validate_without_pow C p = Ok () \<longleftrightarrow> np_network_id p \<noteq> zero32 \<and> np_protocol_version p = 1 \<and>
     np_genesis_hash p \<noteq> zero32 \<and> np_pow_limit p \<noteq> zero32 \<and> np_max_future_offset_secs p \<noteq> 0 \<and>
     np_max_future_offset_secs p \<le> MAX_FUTURE_OFFSET_SECS \<and>
     unat (np_genesis_timestamp p) + unat (np_max_future_offset_secs p) < 2 ^ 64 \<and>
     mp_validate (np_monetary_policy p) = Ok () \<and>
     key_from_bytes C (rd_steward (np_rewards p)) \<and> key_from_bytes C (rd_community (np_rewards p))"
  by (auto simp: validate_without_pow_def NETWORK_PROTOCOL_VERSION_def checked_add_def not_less)

lemma encode_header_inj:
  assumes "wf_manifest m" "wf_manifest n" "encode_header m = encode_header n"
  shows "m = n"
proof -
  have "encode_header m @ [] = encode_header n @ []" using assms(3) by simp
  then show ?thesis using assms(1,2)
    by (cases m; cases n) (simp add: encode_header_def wf_manifest_def fixed_field le_field)
qed

lemma forge_root_length: "crypto_ok C \<Longrightarrow> forge_new C f = Ok v \<Longrightarrow> length (fv_model_root v) = 32"
  by (auto simp: forge_new_def Let_def crypto_lengths split: if_splits)

lemma pp_absorb_field:
  assumes C: "crypto_ok C" and wf: "wf_pow_parameters x" "wf_pow_parameters y"
    and ax: "pp_absorb C x net = Ok bx" and ay: "pp_absorb C y net' = Ok bY" and eq: "bx @ r = bY @ s"
  shows "(x = y \<or> hash_collision C MANIFEST_DOMAIN) \<and> r = s"
proof (cases x)
  case (PP_V1Legacy f)
  then obtain v where v: "forge_new C f = Ok v"
    and bx: "bx = to_le_bytes POW_TYPE_V1_LEGACY @ to_le_bytes (fp_algorithm_version f) @
              to_le_bytes (fp_model_version f) @ to_le_bytes (fp_dimension f) @
              to_le_bytes (fp_batch f) @ to_le_bytes (fp_layers f) @ fp_model_seed f @ fv_model_root v"
    using ax by (auto simp: pp_absorb_def)
  show ?thesis
  proof (cases y)
    case V1: (PP_V1Legacy g)
    with ay obtain u where u: "forge_new C g = Ok u"
      and bY: "bY = to_le_bytes POW_TYPE_V1_LEGACY @ to_le_bytes (fp_algorithm_version g) @
              to_le_bytes (fp_model_version g) @ to_le_bytes (fp_dimension g) @
              to_le_bytes (fp_batch g) @ to_le_bytes (fp_layers g) @ fp_model_seed g @ fv_model_root u"
      by (auto simp: pp_absorb_def)
    have "f = g \<and> r = s"
      using eq wf forge_root_length [OF C v] forge_root_length [OF C u] unfolding bx bY PP_V1Legacy V1
      by (cases f; cases g) (simp add: wf_pow_parameters_def fixed_field le_field)
    then show ?thesis using PP_V1Legacy V1 by simp
  next
    case (PP_V2Reference e)
    have "POW_TYPE_V1_LEGACY \<noteq> POW_TYPE_V2_REFERENCE" by (simp add: POW_TYPE_V1_LEGACY_def POW_TYPE_V2_REFERENCE_def)
    moreover have "\<exists>t t'. to_le_bytes POW_TYPE_V1_LEGACY @ t = to_le_bytes POW_TYPE_V2_REFERENCE @ t'"
      using eq ay unfolding bx PP_V2Reference by (auto simp: pp_absorb_def)
    ultimately show ?thesis by (simp add: le_field)
  qed
next
  case (PP_V2Reference d)
  then obtain h where h: "manifest_digest C (vd_model d) = Ok h"
    and bx: "bx = to_le_bytes POW_TYPE_V2_REFERENCE @ vd_network_id d @ to_le_bytes (vd_algorithm_version d) @
                to_le_bytes (vd_proof_version d) @ to_le_bytes (vd_banks d) @
                to_le_bytes (vd_layers_per_bank d) @ h"
    using ax by (auto simp: pp_absorb_def)
  show ?thesis
  proof (cases y)
    case (PP_V1Legacy e)
    have "POW_TYPE_V1_LEGACY \<noteq> POW_TYPE_V2_REFERENCE" by (simp add: POW_TYPE_V1_LEGACY_def POW_TYPE_V2_REFERENCE_def)
    moreover have "\<exists>t t'. to_le_bytes POW_TYPE_V2_REFERENCE @ t = to_le_bytes POW_TYPE_V1_LEGACY @ t'"
      using eq ay unfolding bx PP_V1Legacy by (auto simp: pp_absorb_def)
    ultimately show ?thesis by (simp add: le_field)
  next
    case V2: (PP_V2Reference e)
    with ay obtain k where k: "manifest_digest C (vd_model e) = Ok k"
      and bY: "bY = to_le_bytes POW_TYPE_V2_REFERENCE @ vd_network_id e @ to_le_bytes (vd_algorithm_version e) @
                to_le_bytes (vd_proof_version e) @ to_le_bytes (vd_banks e) @
                to_le_bytes (vd_layers_per_bank e) @ k"
      by (auto simp: pp_absorb_def)
    have dig: "h = b3_derive C MANIFEST_DOMAIN (encode_header (vd_model d))"
      "k = b3_derive C MANIFEST_DOMAIN (encode_header (vd_model e))"
      using h k by (auto simp: manifest_digest_def)
    then have len: "length h = 32" "length k = 32" using C by (simp_all add: crypto_lengths)
    have fields: "d\<lparr>vd_model := vd_model e\<rparr> = e \<and> h = k \<and> r = s"
      using eq wf len unfolding bx bY PP_V2Reference V2
      by (cases d; cases e) (simp add: wf_pow_parameters_def fixed_field le_field)
    show ?thesis
    proof (cases "vd_model d = vd_model e")
      case True
      then have "d\<lparr>vd_model := vd_model e\<rparr> = d" by (cases d) simp
      then show ?thesis using fields PP_V2Reference V2 by auto
    next
      case False
      then have "encode_header (vd_model d) \<noteq> encode_header (vd_model e)"
        using encode_header_inj wf PP_V2Reference V2 by (auto simp: wf_pow_parameters_def)
      then show ?thesis using fields dig unfolding hash_collision_def by metis
    qed
  qed
qed

lemma fingerprint_suffix_inj:
  assumes "wf_params p" "wf_params q" "fingerprint_suffix p = fingerprint_suffix q"
  shows "np_monetary_policy p = np_monetary_policy q \<and> np_rewards p = np_rewards q \<and>
    np_max_future_offset_secs p = np_max_future_offset_secs q"
  using assms unfolding fingerprint_suffix_def wf_params_def
  by (cases "np_monetary_policy p"; cases "np_monetary_policy q"; cases "np_rewards p"; cases "np_rewards q")
    (simp add: le_field le_field_end fixed_field)

lemma fingerprint_OkD:
  assumes "fingerprint C p = Ok h"
  obtains b where "pp_absorb C (np_pow p) (np_network_id p) = Ok b"
    "h = b3_derive C NETWORK_PARAMS_DOMAIN (fingerprint_preimage p b)"
  using assms by (auto simp: fingerprint_def)

section \<open>Properties\<close>

text \<open>The fingerprint commits to every network parameter: two different well-formed
  parameter sets with the same fingerprint exhibit a collision of the parameter hash or of the
  model manifest hash.\<close>

theorem fingerprint_binds_parameters:
  assumes C: "crypto_ok C" and wf: "wf_params p" "wf_params q"
    and fp: "fingerprint C p = Ok h" "fingerprint C q = Ok h" and ne: "p \<noteq> q"
  shows "hash_collision C NETWORK_PARAMS_DOMAIN \<or> hash_collision C MANIFEST_DOMAIN"
proof -
  from fp(1) obtain a where a: "pp_absorb C (np_pow p) (np_network_id p) = Ok a"
    and ha: "h = b3_derive C NETWORK_PARAMS_DOMAIN (fingerprint_preimage p a)" by (rule fingerprint_OkD)
  from fp(2) obtain b where b: "pp_absorb C (np_pow q) (np_network_id q) = Ok b"
    and hb: "h = b3_derive C NETWORK_PARAMS_DOMAIN (fingerprint_preimage q b)" by (rule fingerprint_OkD)
  show ?thesis
  proof (cases "fingerprint_preimage p a = fingerprint_preimage q b")
    case False
    then show ?thesis using ha hb unfolding hash_collision_def by metis
  next
    case True
    have front: "np_network_id p = np_network_id q \<and> np_protocol_version p = np_protocol_version q \<and>
        np_genesis_hash p = np_genesis_hash q \<and> np_genesis_timestamp p = np_genesis_timestamp q \<and>
        np_pow_limit p = np_pow_limit q \<and> a @ fingerprint_suffix p = b @ fingerprint_suffix q"
      using True wf unfolding fingerprint_preimage_def wf_params_def by (simp add: le_field fixed_field)
    then have "np_pow p = np_pow q \<or> hash_collision C MANIFEST_DOMAIN" "fingerprint_suffix p = fingerprint_suffix q"
      using pp_absorb_field [OF C _ _ a b] wf by (auto simp: wf_params_def)
    then show ?thesis using front fingerprint_suffix_inj [OF wf] ne by (auto intro: network_params.equality)
  qed
qed

definition demo_params :: network_params where
  "demo_params = \<lparr>np_network_id = replicate 32 1, np_protocol_version = 1, np_genesis_hash = replicate 32 2,
     np_genesis_timestamp = 1000, np_pow_limit = replicate 32 255, np_pow = PP_V1Legacy (fv_profile demo_verifier),
     np_monetary_policy = DEFAULT_MONETARY_POLICY,
     np_rewards = \<lparr>rd_steward = replicate 32 3, rd_community = replicate 32 4\<rparr>, np_max_future_offset_secs = 7200\<rparr>"

lemma demo_policy_valid: "mp_validate DEFAULT_MONETARY_POLICY = Ok ()"
  by code_simp

lemma demo_params_valid: "validate_without_pow demo_crypto demo_params = Ok ()"
  by (simp add: validate_without_pow_Ok demo_params_def demo_policy_valid demo_crypto_simps zero32_def
      MAX_FUTURE_OFFSET_SECS_def replicate_eq_replicate)

lemma demo_fingerprint:
  "fingerprint demo_crypto demo_params = Ok (replicate 32 22)"
  "fingerprint demo_crypto (demo_params\<lparr>np_genesis_timestamp := 2000\<rparr>) = Ok (replicate 32 22)"
proof -
  have pow: "pp_absorb demo_crypto (np_pow demo_params) net =
      Ok (to_le_bytes POW_TYPE_V1_LEGACY @ encode_profile demo_profile @ fv_model_root demo_verifier)" for net
    by (simp add: pp_absorb_def demo_params_def demo_verifier_def demo_forge_new [unfolded demo_verifier_def]
        encode_profile_def)
  have "validate_without_pow demo_crypto (demo_params\<lparr>np_genesis_timestamp := 2000\<rparr>) = Ok ()"
    using demo_params_valid by (simp add: validate_without_pow_Ok demo_params_def)
  then show "fingerprint demo_crypto demo_params = Ok (replicate 32 22)"
    "fingerprint demo_crypto (demo_params\<lparr>np_genesis_timestamp := 2000\<rparr>) = Ok (replicate 32 22)"
    using demo_params_valid by (simp_all add: fingerprint_def pow demo_crypto_simps NETWORK_PARAMS_DOMAIN_def)
qed

theorem fingerprint_binds_parameters_witness:
  "hash_collision demo_crypto NETWORK_PARAMS_DOMAIN \<or> hash_collision demo_crypto MANIFEST_DOMAIN"
proof (rule fingerprint_binds_parameters [OF crypto_ok_demo _ _ demo_fingerprint])
  show "wf_params demo_params" "wf_params (demo_params\<lparr>np_genesis_timestamp := 2000\<rparr>)"
    by (simp_all add: wf_params_def demo_params_def wf_pow_parameters_def demo_verifier_def demo_profile_def)
  show "demo_params \<noteq> demo_params\<lparr>np_genesis_timestamp := 2000\<rparr>" by (simp add: demo_params_def)
qed

end
