(* ===== verification/CF_Ledger.thy ===== *)
theory CF_Ledger
  imports CF_Wire_Objects CF_Network "HOL-Library.AList" "HOL-Library.Finite_Map"
begin

text \<open>
  The unspent output set, its block-local overlay and the delta of
  \<open>crates/cmfd-consensus/src/chain.rs\<close>. The hash map of unspent outputs is a finite map, the sets
  of channel identifiers are sets, and the maps of a delta are association lists with one entry
  per key, in the order in which an iteration visits them.

  \<open>staged_map\<close> is the contract of a staged key-value change: it is interpreted on
  \<open>stage_output\<close> over the output map and on \<open>stage_membership\<close> over the channel sets. Its lemmas
  say that a delta records the base value of each changed key and nothing else, that looking
  through the delta is looking into the state the delta will produce, and that applying it in
  any iteration order produces that state.
\<close>

section \<open>Errors\<close>

datatype chain_error =
    CH_Network network_error | CH_Proof forge_error | CH_InvalidV2Proof | CH_WrongProofType
  | CH_PowParameterMismatch | CH_Economics economics_error | CH_Channel channel_error
  | CH_Difficulty difficulty_error | CH_UnexpectedHeight u64 u64 | CH_WrongNetwork
  | CH_UnsupportedBlockVersion | CH_UnsupportedTransactionVersion | CH_PreviousBlock
  | CH_StaleValidatedBlock | CH_UnexpectedTarget | CH_TimestampNotAfterMedian
  | CH_TimestampTooFarInFuture | CH_InvalidValidationTime | CH_HeightMismatch | CH_MerkleRoot
  | CH_NoInputs | CH_NoOutputs | CH_ZeroValueOutput | CH_MissingInput | CH_DuplicateInput
  | CH_ImmatureInput u64 | CH_WrongOwner | CH_WrongWitness | CH_MalformedSignature
  | CH_InvalidSignature | CH_CreatesValue | CH_AmountOverflow | CH_HeightExhausted
  | CH_CoinbaseLayout | CH_TxidCollision | CH_DuplicateChannel | CH_ChannelDeposit
  | CH_ChannelCloseShape | CH_BlockTransactionLimit | CH_TransactionInputLimit
  | CH_TransactionOutputLimit | CH_BlockAggregateLimit | CH_BlockSignatureLimit
  | CH_CoinbaseOutputLimit | CH_SignatureLength | CH_BlockEncoding

section \<open>State\<close>

record utxo_set =
  us_outputs :: "(out_point, tx_output) fmap"
  us_active :: "hash32 set"
  us_retired :: "hash32 set"

definition utxo_default :: utxo_set where
  "utxo_default = \<lparr>us_outputs = fmempty, us_active = {}, us_retired = {}\<rparr>"

record output_change =
  oc_previous :: "tx_output option"
  oc_next :: "tx_output option"

record membership_change =
  mc_previous :: bool
  mc_next :: bool

record utxo_delta =
  ud_outputs :: "(out_point \<times> output_change) list"
  ud_active :: "(hash32 \<times> membership_change) list"
  ud_retired :: "(hash32 \<times> membership_change) list"

record utxo_overlay =
  ov_base :: utxo_set
  ov_delta :: utxo_delta

section \<open>Operations of the set and its overlay\<close>

definition utxo_get :: "utxo_set \<Rightarrow> out_point \<Rightarrow> tx_output option" where
  "utxo_get u k = fmlookup (us_outputs u) k"

definition overlay_new :: "utxo_set \<Rightarrow> utxo_overlay" where
  "overlay_new base = \<lparr>ov_base = base, ov_delta = \<lparr>ud_outputs = [], ud_active = [], ud_retired = []\<rparr>\<rparr>"

definition into_delta :: "utxo_overlay \<Rightarrow> utxo_delta" where
  "into_delta ov = ov_delta ov"

definition overlay_get :: "utxo_overlay \<Rightarrow> out_point \<Rightarrow> tx_output option" where
  "overlay_get ov k =
     (case map_of (ud_outputs (ov_delta ov)) k of
        None \<Rightarrow> fmlookup (us_outputs (ov_base ov)) k
      | Some change \<Rightarrow> oc_next change)"

definition contains_active_channel :: "utxo_overlay \<Rightarrow> hash32 \<Rightarrow> bool" where
  "contains_active_channel ov c =
     (case map_of (ud_active (ov_delta ov)) c of None \<Rightarrow> c \<in> us_active (ov_base ov) | Some change \<Rightarrow> mc_next change)"

definition contains_retired_channel :: "utxo_overlay \<Rightarrow> hash32 \<Rightarrow> bool" where
  "contains_retired_channel ov c =
     (case map_of (ud_retired (ov_delta ov)) c of None \<Rightarrow> c \<in> us_retired (ov_base ov) | Some change \<Rightarrow> mc_next change)"

definition stage_output_change ::
  "(out_point \<times> output_change) list \<Rightarrow> out_point \<Rightarrow> tx_output option \<Rightarrow> tx_output option
     \<Rightarrow> (out_point \<times> output_change) list" where
  "stage_output_change changes k previous next_value =
     (let entry = (case map_of changes k of Some c \<Rightarrow> c | None \<Rightarrow> \<lparr>oc_previous = previous, oc_next = previous\<rparr>);
          change = entry\<lparr>oc_next := next_value\<rparr>
      in if oc_previous change = oc_next change then AList.delete k changes else AList.update k change changes)"

definition stage_output :: "out_point \<Rightarrow> tx_output option \<Rightarrow> utxo_overlay \<Rightarrow> utxo_overlay" where
  "stage_output k next_value ov =
     ov\<lparr>ov_delta := (ov_delta ov)\<lparr>ud_outputs :=
       stage_output_change (ud_outputs (ov_delta ov)) k (fmlookup (us_outputs (ov_base ov)) k) next_value\<rparr>\<rparr>"

definition stage_membership ::
  "(hash32 \<times> membership_change) list \<Rightarrow> hash32 \<Rightarrow> bool \<Rightarrow> bool \<Rightarrow> (hash32 \<times> membership_change) list" where
  "stage_membership changes c previous next_value =
     (let entry = (case map_of changes c of Some x \<Rightarrow> x | None \<Rightarrow> \<lparr>mc_previous = previous, mc_next = previous\<rparr>);
          change = entry\<lparr>mc_next := next_value\<rparr>
      in if mc_previous change = mc_next change then AList.delete c changes else AList.update c change changes)"

definition stage_active_channel :: "hash32 \<Rightarrow> bool \<Rightarrow> utxo_overlay \<Rightarrow> utxo_overlay" where
  "stage_active_channel c next_value ov =
     ov\<lparr>ov_delta := (ov_delta ov)\<lparr>ud_active :=
       stage_membership (ud_active (ov_delta ov)) c (c \<in> us_active (ov_base ov)) next_value\<rparr>\<rparr>"

definition stage_retired_channel :: "hash32 \<Rightarrow> bool \<Rightarrow> utxo_overlay \<Rightarrow> utxo_overlay" where
  "stage_retired_channel c next_value ov =
     ov\<lparr>ov_delta := (ov_delta ov)\<lparr>ud_retired :=
       stage_membership (ud_retired (ov_delta ov)) c (c \<in> us_retired (ov_base ov)) next_value\<rparr>\<rparr>"

definition delta_matches :: "utxo_delta \<Rightarrow> utxo_set \<Rightarrow> bool" where
  "delta_matches d u \<longleftrightarrow>
     list_all (\<lambda>(k, change). fmlookup (us_outputs u) k = oc_previous change) (ud_outputs d) \<and>
     list_all (\<lambda>(c, change). (c \<in> us_active u) = mc_previous change) (ud_active d) \<and>
     list_all (\<lambda>(c, change). (c \<in> us_retired u) = mc_previous change) (ud_retired d)"

definition write_output :: "out_point \<Rightarrow> tx_output option \<Rightarrow> (out_point, tx_output) fmap \<Rightarrow> (out_point, tx_output) fmap" where
  "write_output k v m = (case v of Some out \<Rightarrow> fmupd k out m | None \<Rightarrow> fmdrop k m)"

definition write_member :: "hash32 \<Rightarrow> bool \<Rightarrow> hash32 set \<Rightarrow> hash32 set" where
  "write_member c v s = (if v then insert c s else s - {c})"

definition delta_apply :: "utxo_delta \<Rightarrow> utxo_set \<Rightarrow> utxo_set" where
  "delta_apply d u =
     \<lparr>us_outputs = fold (\<lambda>(k, change). write_output k (oc_next change)) (ud_outputs d) (us_outputs u),
      us_active = fold (\<lambda>(c, change). write_member c (mc_next change)) (ud_active d) (us_active u),
      us_retired = fold (\<lambda>(c, change). write_member c (mc_next change)) (ud_retired d) (us_retired u)\<rparr>"

section \<open>The contract of a staged change\<close>

locale staged_map =
  fixes prev :: "'c \<Rightarrow> 'v" and nxt :: "'c \<Rightarrow> 'v" and mk :: "'v \<Rightarrow> 'v \<Rightarrow> 'c"
    and stage :: "('k \<times> 'c) list \<Rightarrow> 'k \<Rightarrow> 'v \<Rightarrow> 'v \<Rightarrow> ('k \<times> 'c) list"
    and get :: "'s \<Rightarrow> 'k \<Rightarrow> 'v" and upd :: "'k \<Rightarrow> 'v \<Rightarrow> 's \<Rightarrow> 's"
  assumes mk: "prev (mk p n) = p" "nxt (mk p n) = n"
    and stage_keys: "distinct (map fst d) \<Longrightarrow> distinct (map fst (stage d k p n))"
    and stage_lookup: "(\<And>c. map_of d k = Some c \<Longrightarrow> prev c = p) \<Longrightarrow>
      map_of (stage d k p n) = (if p = n then (map_of d)(k := None) else (map_of d)(k \<mapsto> mk p n))"
    and get_upd: "get (upd k v s) = (get s)(k := v)"
    and get_ext: "get s = get t \<Longrightarrow> s = t"
begin

definition view :: "('k \<Rightarrow> 'v) \<Rightarrow> ('k \<times> 'c) list \<Rightarrow> 'k \<Rightarrow> 'v" where
  "view base d k = (case map_of d k of None \<Rightarrow> base k | Some c \<Rightarrow> nxt c)"

definition records :: "('k \<Rightarrow> 'v) \<Rightarrow> ('k \<times> 'c) list \<Rightarrow> bool" where
  "records base d \<longleftrightarrow> distinct (map fst d) \<and> (\<forall>k c. map_of d k = Some c \<longrightarrow> prev c = base k \<and> nxt c \<noteq> prev c)"

lemma records_Nil: "records base []"
  by (simp add: records_def)

lemma view_Nil: "view base [] = base"
  by (simp add: view_def fun_eq_iff)

lemma stage_records:
  assumes "records base d"
  shows "records base (stage d k (base k) n)"
proof -
  have "map_of (stage d k (base k) n) = (if base k = n then (map_of d)(k := None) else (map_of d)(k \<mapsto> mk (base k) n))"
    using assms by (intro stage_lookup) (auto simp: records_def)
  moreover have "distinct (map fst (stage d k (base k) n))" using assms stage_keys by (simp add: records_def)
  moreover have "map_of d k' = Some c \<Longrightarrow> prev c = base k' \<and> nxt c \<noteq> prev c" for k' c
    using assms unfolding records_def by blast
  ultimately show ?thesis unfolding records_def by (simp add: mk) metis
qed

lemma stage_view:
  assumes "records base d"
  shows "view base (stage d k (base k) n) = (view base d)(k := n)"
proof -
  have "map_of (stage d k (base k) n) = (if base k = n then (map_of d)(k := None) else (map_of d)(k \<mapsto> mk (base k) n))"
    using assms by (intro stage_lookup) (auto simp: records_def)
  then show ?thesis by (auto simp: view_def mk fun_eq_iff)
qed

lemma fold_upd:
  "distinct (map fst d) \<Longrightarrow> get (fold (\<lambda>(k, c). upd k (nxt c)) d s) = view (get s) d"
proof (induction d arbitrary: s)
  case (Cons x d)
  obtain k c where x: "x = (k, c)" by (cases x)
  have "map_of d k = None" using Cons.prems by (simp add: x map_of_eq_None_iff)
  then show ?case using Cons by (auto simp: x view_def get_upd fun_eq_iff split: option.splits)
qed (simp add: view_Nil)

lemma fold_upd_order:
  assumes "distinct (map fst d)" "distinct (map fst e)" "set e = set d"
  shows "fold (\<lambda>(k, c). upd k (nxt c)) e s = fold (\<lambda>(k, c). upd k (nxt c)) d s"
proof (rule get_ext)
  have "map_of e = map_of d" using assms by (metis map_of_inject_set)
  then show "get (fold (\<lambda>(k, c). upd k (nxt c)) e s) = get (fold (\<lambda>(k, c). upd k (nxt c)) d s)"
    using assms by (simp add: fold_upd view_def fun_eq_iff)
qed

lemma stage_apply:
  assumes "records (get s) d"
  shows "fold (\<lambda>(k, c). upd k (nxt c)) (stage d k (get s k) n) s = upd k n (fold (\<lambda>(k, c). upd k (nxt c)) d s)"
proof (rule get_ext)
  have "distinct (map fst d)" "distinct (map fst (stage d k (get s k) n))"
    using assms stage_keys by (auto simp: records_def)
  then show "get (fold (\<lambda>(k, c). upd k (nxt c)) (stage d k (get s k) n) s) =
      get (upd k n (fold (\<lambda>(k, c). upd k (nxt c)) d s))"
    by (simp add: fold_upd get_upd stage_view [OF assms])
qed

lemma fold_upd_other: "k \<notin> fst ` set e \<Longrightarrow> get (fold (\<lambda>(k, c). upd k (nxt c)) e s) k = get s k"
  by (induction e arbitrary: s) (auto simp: get_upd)

text \<open>Whatever list of writes leads from the base to the view writes every key that is recorded.\<close>

lemma records_least:
  assumes "records (get s) d" "fold (\<lambda>(k, c). upd k (nxt c)) e s = fold (\<lambda>(k, c). upd k (nxt c)) d s"
  shows "fst ` set d \<subseteq> fst ` set e"
proof
  fix k assume "k \<in> fst ` set d"
  then obtain c where c: "map_of d k = Some c" by (metis map_of_eq_None_iff not_None_eq)
  have "get (fold (\<lambda>(k, c). upd k (nxt c)) d s) k = nxt c"
    using assms(1) c by (simp add: fold_upd view_def records_def)
  moreover have "nxt c \<noteq> get s k" using assms(1) c unfolding records_def by metis
  ultimately show "k \<in> fst ` set e" using fold_upd_other [of k e s] assms(2) by metis
qed

lemma records_matches: "records base d \<Longrightarrow> list_all (\<lambda>(k, c). base k = prev c) d"
  by (auto simp: records_def list_all_iff)

end

interpretation staged_outputs: staged_map oc_previous oc_next "\<lambda>p n. \<lparr>oc_previous = p, oc_next = n\<rparr>"
  stage_output_change fmlookup write_output
proof
  fix d :: "(out_point \<times> output_change) list" and k :: out_point and p n :: "tx_output option"
  show "distinct (map fst d) \<Longrightarrow> distinct (map fst (stage_output_change d k p n))"
    by (simp add: stage_output_change_def Let_def distinct_delete distinct_update)
  show "(\<And>c. map_of d k = Some c \<Longrightarrow> oc_previous c = p) \<Longrightarrow> map_of (stage_output_change d k p n) =
      (if p = n then (map_of d)(k := None) else (map_of d)(k \<mapsto> \<lparr>oc_previous = p, oc_next = n\<rparr>))"
    by (cases "map_of d k") (auto simp: stage_output_change_def Let_def delete_conv' update_conv')
qed (auto simp: write_output_def fun_eq_iff intro: fmap_ext split: option.splits)

interpretation staged_members: staged_map mc_previous mc_next "\<lambda>p n. \<lparr>mc_previous = p, mc_next = n\<rparr>"
  stage_membership "\<lambda>s c. c \<in> s" write_member
proof
  fix d :: "(hash32 \<times> membership_change) list" and k :: hash32 and p n :: bool
  show "distinct (map fst d) \<Longrightarrow> distinct (map fst (stage_membership d k p n))"
    by (simp add: stage_membership_def Let_def distinct_delete distinct_update)
  show "(\<And>c. map_of d k = Some c \<Longrightarrow> mc_previous c = p) \<Longrightarrow> map_of (stage_membership d k p n) =
      (if p = n then (map_of d)(k := None) else (map_of d)(k \<mapsto> \<lparr>mc_previous = p, mc_next = n\<rparr>))"
    by (cases "map_of d k") (auto simp: stage_membership_def Let_def delete_conv' update_conv')
qed (auto simp: write_member_def fun_eq_iff)

section \<open>The state an overlay stands for\<close>

definition ov_commit :: "utxo_overlay \<Rightarrow> utxo_set" where
  "ov_commit ov = delta_apply (ov_delta ov) (ov_base ov)"

definition ov_ok :: "utxo_overlay \<Rightarrow> bool" where
  "ov_ok ov \<longleftrightarrow> staged_outputs.records (fmlookup (us_outputs (ov_base ov))) (ud_outputs (ov_delta ov)) \<and>
     staged_members.records (\<lambda>c. c \<in> us_active (ov_base ov)) (ud_active (ov_delta ov)) \<and>
     staged_members.records (\<lambda>c. c \<in> us_retired (ov_base ov)) (ud_retired (ov_delta ov))"

lemma ov_okD:
  assumes "ov_ok ov"
  shows "distinct (map fst (ud_outputs (ov_delta ov)))" "distinct (map fst (ud_active (ov_delta ov)))"
    "distinct (map fst (ud_retired (ov_delta ov)))"
  using assms by (simp_all add: ov_ok_def staged_outputs.records_def staged_members.records_def)

lemma overlay_new_ok [simp]: "ov_ok (overlay_new u)" "ov_commit (overlay_new u) = u" "ov_base (overlay_new u) = u"
  by (simp_all add: ov_ok_def overlay_new_def staged_outputs.records_Nil staged_members.records_Nil ov_commit_def
      delta_apply_def)

lemma overlay_reads:
  assumes "ov_ok ov"
  shows "overlay_get ov k = utxo_get (ov_commit ov) k"
    "contains_active_channel ov c \<longleftrightarrow> c \<in> us_active (ov_commit ov)"
    "contains_retired_channel ov c \<longleftrightarrow> c \<in> us_retired (ov_commit ov)"
proof -
  note d = ov_okD [OF assms]
  show "overlay_get ov k = utxo_get (ov_commit ov) k"
    using fun_cong [OF staged_outputs.fold_upd [OF d(1), where s = "us_outputs (ov_base ov)"], where x = k]
    by (simp add: overlay_get_def utxo_get_def ov_commit_def delta_apply_def staged_outputs.view_def)
  show "contains_active_channel ov c \<longleftrightarrow> c \<in> us_active (ov_commit ov)"
    using fun_cong [OF staged_members.fold_upd [OF d(2), where s = "us_active (ov_base ov)"], where x = c]
    by (simp add: contains_active_channel_def ov_commit_def delta_apply_def staged_members.view_def)
  show "contains_retired_channel ov c \<longleftrightarrow> c \<in> us_retired (ov_commit ov)"
    using fun_cong [OF staged_members.fold_upd [OF d(3), where s = "us_retired (ov_base ov)"], where x = c]
    by (simp add: contains_retired_channel_def ov_commit_def delta_apply_def staged_members.view_def)
qed

lemma stage_base [simp]:
  "ov_base (stage_output k v ov) = ov_base ov" "ov_base (stage_active_channel c b ov) = ov_base ov"
  "ov_base (stage_retired_channel c b ov) = ov_base ov"
  by (simp_all add: stage_output_def stage_active_channel_def stage_retired_channel_def)

lemma stage_ok [simp]:
  assumes "ov_ok ov"
  shows "ov_ok (stage_output k v ov)" "ov_ok (stage_active_channel c b ov)" "ov_ok (stage_retired_channel c b ov)"
  using assms staged_outputs.stage_records staged_members.stage_records [where base = "\<lambda>c. c \<in> us_active (ov_base ov)"]
    staged_members.stage_records [where base = "\<lambda>c. c \<in> us_retired (ov_base ov)"]
  by (simp_all add: ov_ok_def stage_output_def stage_active_channel_def stage_retired_channel_def)

lemma stage_commit [simp]:
  assumes "ov_ok ov"
  shows "ov_commit (stage_output k v ov) = (ov_commit ov)\<lparr>us_outputs := write_output k v (us_outputs (ov_commit ov))\<rparr>"
    "ov_commit (stage_active_channel c b ov) = (ov_commit ov)\<lparr>us_active := write_member c b (us_active (ov_commit ov))\<rparr>"
    "ov_commit (stage_retired_channel c b ov) = (ov_commit ov)\<lparr>us_retired := write_member c b (us_retired (ov_commit ov))\<rparr>"
  using assms
  by (simp_all add: ov_ok_def ov_commit_def delta_apply_def stage_output_def stage_active_channel_def
      stage_retired_channel_def staged_outputs.stage_apply staged_members.stage_apply)

lemma delta_matches_base: "ov_ok ov \<Longrightarrow> delta_matches (into_delta ov) (ov_base ov)"
  using staged_outputs.records_matches staged_members.records_matches
  by (simp add: ov_ok_def delta_matches_def into_delta_def)

lemma delta_apply_order:
  assumes "ov_ok ov" "set (ud_outputs d) = set (ud_outputs (ov_delta ov))" "distinct (map fst (ud_outputs d))"
    "set (ud_active d) = set (ud_active (ov_delta ov))" "distinct (map fst (ud_active d))"
    "set (ud_retired d) = set (ud_retired (ov_delta ov))" "distinct (map fst (ud_retired d))"
  shows "delta_apply d u = delta_apply (ov_delta ov) u"
  unfolding delta_apply_def
  using staged_outputs.fold_upd_order [OF ov_okD(1) [OF assms(1)] assms(3,2)]
    staged_members.fold_upd_order [OF ov_okD(2) [OF assms(1)] assms(5,4)]
    staged_members.fold_upd_order [OF ov_okD(3) [OF assms(1)] assms(7,6)]
  by presburger

text \<open>A delta changes every key it lists, so every other delta with the same effect lists that key too.\<close>

lemma delta_least:
  assumes "ov_ok ov" "delta_apply d (ov_base ov) = ov_commit ov"
  shows "fst ` set (ud_outputs (ov_delta ov)) \<subseteq> fst ` set (ud_outputs d)"
    "fst ` set (ud_active (ov_delta ov)) \<subseteq> fst ` set (ud_active d)"
    "fst ` set (ud_retired (ov_delta ov)) \<subseteq> fst ` set (ud_retired d)"
proof -
  let ?u = "ov_base ov"
  note r = assms(1) [unfolded ov_ok_def]
  have e: "us_outputs (delta_apply d ?u) = us_outputs (ov_commit ov)"
    "us_active (delta_apply d ?u) = us_active (ov_commit ov)"
    "us_retired (delta_apply d ?u) = us_retired (ov_commit ov)" using assms(2) by simp_all
  show "fst ` set (ud_outputs (ov_delta ov)) \<subseteq> fst ` set (ud_outputs d)"
    using r e(1) by (intro staged_outputs.records_least [where s = "us_outputs ?u"]) (simp_all add: ov_commit_def delta_apply_def)
  show "fst ` set (ud_active (ov_delta ov)) \<subseteq> fst ` set (ud_active d)"
    using r e(2) by (intro staged_members.records_least [where s = "us_active ?u"]) (simp_all add: ov_commit_def delta_apply_def)
  show "fst ` set (ud_retired (ov_delta ov)) \<subseteq> fst ` set (ud_retired d)"
    using r e(3) by (intro staged_members.records_least [where s = "us_retired ?u"]) (simp_all add: ov_commit_def delta_apply_def)
qed

section \<open>Property\<close>

text \<open>C23. The overlay is the state it will commit to: reading through it gives what the committed
  set holds, staging an output or a membership commutes with committing, the delta still matches
  the base it was built on, applying its entries in any iteration order of its three maps gives
  the committed set, and it is the least delta with that effect: any delta that leads from the
  base to the committed set lists at least its outputs, active channels and retired channels.\<close>

theorem overlay_refines_direct_updates:
  assumes "ov_ok ov"
  shows "overlay_get ov k = utxo_get (ov_commit ov) k \<and>
    (contains_active_channel ov c \<longleftrightarrow> c \<in> us_active (ov_commit ov)) \<and>
    (contains_retired_channel ov c \<longleftrightarrow> c \<in> us_retired (ov_commit ov)) \<and>
    ov_commit (stage_output k v ov) = (ov_commit ov)\<lparr>us_outputs := write_output k v (us_outputs (ov_commit ov))\<rparr> \<and>
    ov_commit (stage_active_channel c b ov) = (ov_commit ov)\<lparr>us_active := write_member c b (us_active (ov_commit ov))\<rparr> \<and>
    ov_commit (stage_retired_channel c b ov) = (ov_commit ov)\<lparr>us_retired := write_member c b (us_retired (ov_commit ov))\<rparr> \<and>
    ov_ok (stage_output k v ov) \<and> ov_ok (stage_active_channel c b ov) \<and> ov_ok (stage_retired_channel c b ov) \<and>
    delta_matches (into_delta ov) (ov_base ov) \<and>
    (\<forall>d. set (ud_outputs d) = set (ud_outputs (into_delta ov)) \<and> distinct (map fst (ud_outputs d)) \<and>
       set (ud_active d) = set (ud_active (into_delta ov)) \<and> distinct (map fst (ud_active d)) \<and>
       set (ud_retired d) = set (ud_retired (into_delta ov)) \<and> distinct (map fst (ud_retired d)) \<longrightarrow>
       delta_apply d (ov_base ov) = ov_commit ov) \<and>
    (\<forall>d. delta_apply d (ov_base ov) = ov_commit ov \<longrightarrow>
       fst ` set (ud_outputs (into_delta ov)) \<subseteq> fst ` set (ud_outputs d) \<and>
       fst ` set (ud_active (into_delta ov)) \<subseteq> fst ` set (ud_active d) \<and>
       fst ` set (ud_retired (into_delta ov)) \<subseteq> fst ` set (ud_retired d))"
proof -
  have order: "delta_apply d (ov_base ov) = ov_commit ov"
    if "set (ud_outputs d) = set (ud_outputs (ov_delta ov))" "distinct (map fst (ud_outputs d))"
      "set (ud_active d) = set (ud_active (ov_delta ov))" "distinct (map fst (ud_active d))"
      "set (ud_retired d) = set (ud_retired (ov_delta ov))" "distinct (map fst (ud_retired d))" for d
    using delta_apply_order [OF assms that] by (simp add: ov_commit_def)
  show ?thesis
    using overlay_reads [OF assms] stage_ok [OF assms] stage_commit [OF assms] delta_matches_base [OF assms]
      delta_least [OF assms] order by (simp add: into_delta_def)
qed

definition demo_point :: out_point where
  "demo_point = \<lparr>op_txid = replicate 32 9, op_index = 1\<rparr>"

theorem overlay_refines_direct_updates_witness:
  "utxo_get (ov_commit (stage_output demo_point (Some demo_output) (overlay_new utxo_default))) demo_point = Some demo_output"
  using overlay_refines_direct_updates [of "overlay_new utxo_default" demo_point _ "Some demo_output"]
  by (simp add: utxo_get_def write_output_def)

end
