(* ===== verification/CF_Transactions.thy ===== *)
theory CF_Transactions
  imports CF_Ledger
begin

text \<open>
  Applying transactions to the block-local overlay: \<open>apply_transaction\<close>,
  \<open>apply_channel_transaction\<close>, \<open>insert_output\<close> and \<open>channel_outputs\<close> of
  \<open>crates/cmfd-consensus/src/chain.rs\<close>. A call that fails returns before its caller keeps the
  overlay or the set of spent outpoints, so the model returns them on success only.
\<close>

section \<open>Operations\<close>

definition channel_of :: "tx_output \<Rightarrow> hash32 option" where
  "channel_of out = (case to_lock out of OL_InferenceChannel channel_id \<Rightarrow> Some channel_id | OL_Key _ \<Rightarrow> None)"

definition insert_output :: "out_point \<Rightarrow> tx_output \<Rightarrow> utxo_overlay \<Rightarrow> (chain_error, utxo_overlay) outcome" where
  "insert_output outpoint out ov =
     (if to_value out = 0 then Err CH_ZeroValueOutput
      else if (case channel_of out of
                 Some c \<Rightarrow> contains_active_channel ov c \<or> contains_retired_channel ov c
               | None \<Rightarrow> False)
        then Err CH_DuplicateChannel
      else if overlay_get ov outpoint \<noteq> None then Err CH_TxidCollision
      else
        Ok (stage_output outpoint (Some out)
             (case channel_of out of Some c \<Rightarrow> stage_active_channel c True ov | None \<Rightarrow> ov)))"

definition insert_outputs :: "hash32 \<Rightarrow> tx_output list \<Rightarrow> utxo_overlay \<Rightarrow> (chain_error, utxo_overlay) outcome" where
  "insert_outputs tid outs ov =
     ofold (\<lambda>ov (index, out). insert_output \<lparr>op_txid = tid, op_index = word_of_nat index\<rparr> out ov) ov (enumerate 0 outs)"

definition sum_outputs :: "tx_output list \<Rightarrow> (chain_error, u64) outcome" where
  "sum_outputs outs = ofold (\<lambda>total out. ok_or CH_AmountOverflow (checked_add total (to_value out))) 0 outs"

definition channel_outputs :: "u64 \<Rightarrow> hash32 \<Rightarrow> u64 \<Rightarrow> hash32 \<Rightarrow> u64 \<Rightarrow> tx_output list" where
  "channel_outputs provider_value provider_key customer_value customer_key height =
     (if 0 < provider_value
      then [\<lparr>to_value = provider_value, to_lock = OL_Key provider_key, to_spendable_height = height\<rparr>] else []) @
     (if 0 < customer_value
      then [\<lparr>to_value = customer_value, to_lock = OL_Key customer_key, to_spendable_height = height\<rparr>] else [])"

definition close_terms_checks :: "crypto \<Rightarrow> channel_terms \<Rightarrow> hash32 \<Rightarrow> hash32 \<Rightarrow> tx_output \<Rightarrow> (chain_error, unit) outcome" where
  "close_terms_checks C terms network_id channel_id previous =
     (if ct_network_id terms \<noteq> network_id then Err CH_WrongNetwork
      else
        obind (map_err CH_Channel (ct_channel_id C terms)) (\<lambda>cid.
        if cid \<noteq> channel_id then Err CH_WrongWitness
        else if ct_deposit terms \<noteq> to_value previous then Err CH_ChannelDeposit
        else Ok ()))"

definition expected_close ::
  "crypto \<Rightarrow> input_witness \<Rightarrow> u64 \<Rightarrow> hash32 \<Rightarrow> hash32 \<Rightarrow> tx_output \<Rightarrow> (chain_error, tx_output list \<times> u64) outcome" where
  "expected_close C witness height network_id channel_id previous =
     (case witness of
        IW_InferenceSettlement terms settlement \<Rightarrow>
          obind (close_terms_checks C terms network_id channel_id previous) (\<lambda>_.
          obind (map_err CH_Channel (settlement_verify C settlement terms)) (\<lambda>_.
          let state = sps_state (se_state settlement) in
          Ok (channel_outputs (ps_provider_payment state) (ct_provider_key terms)
                (ps_customer_refund state) (ct_customer_key terms) height, ps_close_fee_burn state)))
      | IW_InferenceRefund terms \<Rightarrow>
          obind (close_terms_checks C terms network_id channel_id previous) (\<lambda>_.
          obind (map_err CH_Channel (ct_refund C terms height)) (\<lambda>rf.
          Ok (channel_outputs 0 (ct_provider_key terms) (rf_customer_amount rf) (ct_customer_key terms) height,
              rf_fee_burn rf)))
      | IW_Key _ _ \<Rightarrow> Err CH_WrongWitness)"

definition apply_channel_transaction ::
  "crypto \<Rightarrow> transaction \<Rightarrow> u64 \<Rightarrow> hash32 \<Rightarrow> utxo_overlay \<times> out_point set
     \<Rightarrow> (chain_error, u64 \<times> utxo_overlay \<times> out_point set) outcome" where
  "apply_channel_transaction C t height network_id state =
     (case state of (ov, spent) \<Rightarrow>
       if length (tx_inputs t) \<noteq> 1 then Err CH_ChannelCloseShape
       else
       obind (index_or_panic (tx_inputs t) 0) (\<lambda>i.
       if ti_previous i \<in> spent then Err CH_DuplicateInput
       else
       obind (ok_or CH_MissingInput (overlay_get ov (ti_previous i))) (\<lambda>previous.
       if height < to_spendable_height previous then Err (CH_ImmatureInput (to_spendable_height previous))
       else
       obind (ok_or CH_WrongWitness (channel_of previous)) (\<lambda>channel_id.
       obind (expected_close C (ti_witness i) height network_id channel_id previous) (\<lambda>(expected_outputs, fee).
       if tx_outputs t \<noteq> expected_outputs then Err CH_ChannelCloseShape
       else
       obind (sum_outputs (tx_outputs t)) (\<lambda>output_total.
       obind (ok_or CH_AmountOverflow (checked_add output_total fee)) (\<lambda>total.
       if total \<noteq> to_value previous then Err CH_ChannelCloseShape
       else
       obind (insert_outputs (txid C t) (tx_outputs t)
                (stage_retired_channel channel_id True
                  (stage_active_channel channel_id False (stage_output (ti_previous i) None ov)))) (\<lambda>ov.
       Ok (fee, ov, insert (ti_previous i) spent)))))))))"

definition is_key_witness :: "input_witness \<Rightarrow> bool" where
  "is_key_witness w = (case w of IW_Key _ _ \<Rightarrow> True | _ \<Rightarrow> False)"

definition spend_key_input ::
  "crypto \<Rightarrow> hash32 \<Rightarrow> u64 \<Rightarrow> utxo_overlay \<Rightarrow> out_point set \<times> u64 \<Rightarrow> tx_input
     \<Rightarrow> (chain_error, out_point set \<times> u64) outcome" where
  "spend_key_input C digest height ov state i =
     (case state of (spent, input_total) \<Rightarrow>
       if ti_previous i \<in> spent then Err CH_DuplicateInput
       else
       obind (ok_or CH_MissingInput (overlay_get ov (ti_previous i))) (\<lambda>previous.
       if height < to_spendable_height previous then Err (CH_ImmatureInput (to_spendable_height previous))
       else
       case to_lock previous of
         OL_InferenceChannel _ \<Rightarrow> Err CH_WrongWitness
       | OL_Key owner \<Rightarrow>
         (case ti_witness i of
            IW_Key public_key signature \<Rightarrow>
              if public_key \<noteq> owner then Err CH_WrongOwner
              else if \<not> key_from_bytes C public_key then Err CH_MalformedSignature
              else if \<not> sig_from_bytes C signature then Err CH_MalformedSignature
              else if \<not> schnorr_verify C public_key digest signature then Err CH_InvalidSignature
              else
                obind (ok_or CH_AmountOverflow (checked_add input_total (to_value previous))) (\<lambda>input_total.
                Ok (insert (ti_previous i) spent, input_total))
          | _ \<Rightarrow> Err CH_WrongWitness)))"

definition apply_transaction ::
  "crypto \<Rightarrow> transaction \<Rightarrow> u64 \<Rightarrow> hash32 \<Rightarrow> utxo_overlay \<times> out_point set
     \<Rightarrow> (chain_error, u64 \<times> utxo_overlay \<times> out_point set) outcome" where
  "apply_transaction C t height network_id state =
     (case state of (ov, spent) \<Rightarrow>
       if tx_network_id t \<noteq> network_id then Err CH_WrongNetwork
       else if tx_version t \<noteq> TRANSACTION_VERSION then Err CH_UnsupportedTransactionVersion
       else if tx_inputs t = [] then Err CH_NoInputs
       else if tx_outputs t = [] then Err CH_NoOutputs
       else if list_ex (\<lambda>out. to_value out = 0) (tx_outputs t) then Err CH_ZeroValueOutput
       else if list_ex (\<lambda>i. \<not> is_key_witness (ti_witness i)) (tx_inputs t)
         then apply_channel_transaction C t height network_id (ov, spent)
       else
         let digest = signing_digest C t in
         obind (ofold (spend_key_input C digest height ov) (spent, 0) (tx_inputs t)) (\<lambda>(spent, input_total).
         obind (sum_outputs (tx_outputs t)) (\<lambda>output_total.
         if input_total < output_total then Err CH_CreatesValue
         else
           let ov = fold (\<lambda>i ov. stage_output (ti_previous i) None ov) (tx_inputs t) ov in
           obind (insert_outputs (txid C t) (tx_outputs t) ov) (\<lambda>ov.
           Ok (input_total - output_total, ov, spent)))))"

section \<open>Values\<close>

definition out_value :: "tx_output \<Rightarrow> nat" where
  "out_value out = unat (to_value out)"

definition total_value :: "utxo_set \<Rightarrow> nat" where
  "total_value u = (\<Sum>k\<in>fmdom' (us_outputs u). out_value (the (utxo_get u k)))"

lemma finite_fmdom' [simp]: "finite (fmdom' m)"
  by (simp add: fmdom'_alt_def)

lemma total_value_drop:
  assumes "utxo_get u k = Some out"
  shows "total_value u = total_value (u\<lparr>us_outputs := fmdrop k (us_outputs u)\<rparr>) + out_value out"
proof -
  have k: "k \<in> fmdom' (us_outputs u)" using assms by (simp add: utxo_get_def fmdom'I)
  have "total_value (u\<lparr>us_outputs := fmdrop k (us_outputs u)\<rparr>) =
      (\<Sum>x\<in>fmdom' (us_outputs u) - {k}. out_value (the (utxo_get u x)))"
    unfolding total_value_def by (rule sum.cong) (auto simp: utxo_get_def)
  then show ?thesis using assms sum.remove [OF finite_fmdom' k, of "\<lambda>x. out_value (the (utxo_get u x))"]
    by (simp add: total_value_def)
qed

lemma total_value_cong: "us_outputs u = us_outputs v \<Longrightarrow> total_value u = total_value v"
  by (simp add: total_value_def utxo_get_def)

lemma total_value_upd:
  assumes "utxo_get u k = None"
  shows "total_value (u\<lparr>us_outputs := fmupd k out (us_outputs u)\<rparr>) = total_value u + out_value out"
proof -
  let ?v = "u\<lparr>us_outputs := fmupd k out (us_outputs u)\<rparr>"
  have "utxo_get ?v k = Some out" by (simp add: utxo_get_def)
  from total_value_drop [OF this] have "total_value ?v = total_value (?v\<lparr>us_outputs := fmdrop k (us_outputs ?v)\<rparr>) + out_value out" .
  moreover have "fmdrop k (us_outputs ?v) = us_outputs u"
    using assms by (intro fmap_ext) (simp add: utxo_get_def)
  then have "total_value (?v\<lparr>us_outputs := fmdrop k (us_outputs ?v)\<rparr>) = total_value u" by (intro total_value_cong) simp
  ultimately show ?thesis by simp
qed

lemma sum_outputs_exact:
  assumes "sum_outputs outs = Ok amount"
  shows "unat amount = sum_list (map out_value outs)"
proof -
  have "ofold (\<lambda>v out. ok_or CH_AmountOverflow (checked_add v (to_value out))) a xs = Ok b \<Longrightarrow>
      unat b = unat a + sum_list (map out_value xs)" for a b xs
    by (induction xs arbitrary: a) (auto simp: out_value_def dest!: checked_add_unat)
  from this [of 0 outs amount] assms show ?thesis by (simp add: sum_outputs_def)
qed

section \<open>Inserting outputs\<close>

text \<open>What inserting a checked output does to the set itself.\<close>

definition direct_insert :: "out_point \<Rightarrow> tx_output \<Rightarrow> utxo_set \<Rightarrow> utxo_set" where
  "direct_insert k out u =
     \<lparr>us_outputs = fmupd k out (us_outputs u),
      us_active = (case channel_of out of Some c \<Rightarrow> insert c (us_active u) | None \<Rightarrow> us_active u),
      us_retired = us_retired u\<rparr>"

definition insertable :: "out_point \<Rightarrow> tx_output \<Rightarrow> utxo_set \<Rightarrow> bool" where
  "insertable k out u \<longleftrightarrow> to_value out \<noteq> 0 \<and> utxo_get u k = None \<and>
     (\<forall>c. channel_of out = Some c \<longrightarrow> c \<notin> us_active u \<and> c \<notin> us_retired u)"

definition tx_points :: "hash32 \<Rightarrow> tx_output list \<Rightarrow> (out_point \<times> tx_output) list" where
  "tx_points tid outs = map (\<lambda>(index, out). (\<lparr>op_txid = tid, op_index = word_of_nat index\<rparr>, out)) (enumerate 0 outs)"

lemma map_snd_tx_points: "map snd (tx_points tid outs) = outs"
  by (simp add: tx_points_def comp_def case_prod_unfold map_snd_enumerate [unfolded comp_def])

lemma insert_output_Ok:
  assumes "ov_ok ov" "insert_output k out ov = Ok ov'"
  shows "ov_ok ov'" "ov_base ov' = ov_base ov" "insertable k out (ov_commit ov)"
    "ov_commit ov' = direct_insert k out (ov_commit ov)"
  using assms
  by (auto simp: insert_output_def overlay_reads insertable_def direct_insert_def write_output_def write_member_def
      split: option.splits if_splits)

lemma insert_outputs_alt:
  "insert_outputs tid outs ov = ofold (\<lambda>ov (k, out). insert_output k out ov) ov (tx_points tid outs)"
  by (simp add: insert_outputs_def tx_points_def ofold_map case_prod_unfold)

fun insertable_all :: "(out_point \<times> tx_output) list \<Rightarrow> utxo_set \<Rightarrow> bool" where
  "insertable_all [] u = True"
| "insertable_all (x # xs) u = (insertable (fst x) (snd x) u \<and> insertable_all xs (direct_insert (fst x) (snd x) u))"

definition direct_inserts :: "(out_point \<times> tx_output) list \<Rightarrow> utxo_set \<Rightarrow> utxo_set" where
  "direct_inserts xs u = fold (\<lambda>(k, out). direct_insert k out) xs u"

lemma insert_outputs_Ok:
  assumes "ov_ok ov" "insert_outputs tid outs ov = Ok ov'"
  shows "ov_ok ov'" "ov_base ov' = ov_base ov" "insertable_all (tx_points tid outs) (ov_commit ov)"
    "ov_commit ov' = direct_inserts (tx_points tid outs) (ov_commit ov)"
proof -
  have "ov_ok ov' \<and> ov_base ov' = ov_base ov \<and> insertable_all xs (ov_commit ov) \<and> ov_commit ov' = direct_inserts xs (ov_commit ov)"
    if "ofold (\<lambda>ov (k, out). insert_output k out ov) ov xs = Ok ov'" "ov_ok ov" for xs ov
    using that
  proof (induction xs arbitrary: ov)
    case (Cons x xs)
    obtain k out where x: "x = (k, out)" by (cases x)
    from Cons.prems obtain ov1 where o: "insert_output k out ov = Ok ov1"
      and rest: "ofold (\<lambda>ov (k, out). insert_output k out ov) ov1 xs = Ok ov'" by (auto simp: x)
    note i = insert_output_Ok [OF Cons.prems(2) o]
    from Cons.IH [OF rest i(1)] i show ?case by (simp add: x direct_inserts_def)
  qed (simp add: direct_inserts_def)
  from this [OF assms(2) [unfolded insert_outputs_alt] assms(1)]
  show "ov_ok ov'" "ov_base ov' = ov_base ov" "insertable_all (tx_points tid outs) (ov_commit ov)"
    "ov_commit ov' = direct_inserts (tx_points tid outs) (ov_commit ov)" by blast+
qed

lemma direct_insert_value:
  "insertable k out u \<Longrightarrow> total_value (direct_insert k out u) = total_value u + out_value out"
  using total_value_upd [of u k out] total_value_cong [of "direct_insert k out u" "u\<lparr>us_outputs := fmupd k out (us_outputs u)\<rparr>"]
  by (simp add: direct_insert_def insertable_def)

lemma direct_inserts_value:
  "insertable_all xs u \<Longrightarrow> total_value (direct_inserts xs u) = total_value u + sum_list (map (out_value \<circ> snd) xs)"
  by (induction xs arbitrary: u) (simp_all add: direct_inserts_def direct_insert_value case_prod_unfold)

lemma direct_inserts_retired: "us_retired (direct_inserts xs u) = us_retired u"
  by (induction xs arbitrary: u) (simp_all add: direct_inserts_def direct_insert_def case_prod_unfold)

section \<open>Removing outputs\<close>

definition direct_drop :: "out_point \<Rightarrow> utxo_set \<Rightarrow> utxo_set" where
  "direct_drop k u = u\<lparr>us_outputs := fmdrop k (us_outputs u)\<rparr>"

lemma direct_drop_get: "utxo_get (direct_drop k u) k' = (if k' = k then None else utxo_get u k')"
  by (simp add: direct_drop_def utxo_get_def)

lemma direct_drop_value:
  "utxo_get u k = Some out \<Longrightarrow> total_value u = total_value (direct_drop k u) + out_value out"
  unfolding direct_drop_def by (rule total_value_drop)

lemma stage_drops:
  assumes "ov_ok ov"
  shows "ov_ok (fold (\<lambda>i ov. stage_output (ti_previous i) None ov) is ov)"
    "ov_base (fold (\<lambda>i ov. stage_output (ti_previous i) None ov) is ov) = ov_base ov"
    "ov_commit (fold (\<lambda>i ov. stage_output (ti_previous i) None ov) is ov) =
      fold direct_drop (map ti_previous is) (ov_commit ov)"
  using assms by (induction "is" arbitrary: ov) (simp_all add: direct_drop_def write_output_def)

lemma drops_value:
  assumes "distinct ks" "\<forall>k\<in>set ks. utxo_get u k \<noteq> None"
  shows "total_value u = total_value (fold direct_drop ks u) + sum_list (map (\<lambda>k. out_value (the (utxo_get u k))) ks)"
  using assms
proof (induction ks arbitrary: u)
  case (Cons k ks)
  then obtain out where out: "utxo_get u k = Some out" by auto
  have same: "map (\<lambda>x. out_value (the (utxo_get (direct_drop k u) x))) ks = map (\<lambda>x. out_value (the (utxo_get u x))) ks"
    using Cons.prems(1) by (auto simp: direct_drop_get)
  have "\<forall>x\<in>set ks. utxo_get (direct_drop k u) x \<noteq> None" using Cons.prems by (auto simp: direct_drop_get)
  then have "total_value (direct_drop k u) = total_value (fold direct_drop ks (direct_drop k u)) +
      sum_list (map (\<lambda>x. out_value (the (utxo_get u x))) ks)"
    using Cons.IH [of "direct_drop k u"] Cons.prems(1) unfolding same by simp
  then show ?case using direct_drop_value [OF out] out by simp
qed simp

section \<open>Spending with keys\<close>

text \<open>An input that may spend: its output exists, is mature, is locked to the key of the witness,
  and the signature verifies over the digest.\<close>

definition authorised :: "crypto \<Rightarrow> hash32 \<Rightarrow> u64 \<Rightarrow> utxo_set \<Rightarrow> tx_input \<Rightarrow> bool" where
  "authorised C digest height u i \<longleftrightarrow> (\<exists>out pk sig. utxo_get u (ti_previous i) = Some out \<and>
     to_spendable_height out \<le> height \<and> to_lock out = OL_Key pk \<and> ti_witness i = IW_Key pk sig \<and>
     key_from_bytes C pk \<and> sig_from_bytes C sig \<and> schnorr_verify C pk digest sig)"

lemma spend_key_input_Ok:
  assumes "ov_ok ov" "spend_key_input C digest height ov (S, v) i = Ok (S', v')"
  shows "ti_previous i \<notin> S" "S' = insert (ti_previous i) S" "authorised C digest height (ov_commit ov) i"
    "unat v' = unat v + out_value (the (utxo_get (ov_commit ov) (ti_previous i)))"
proof -
  from assms(2) obtain out where out: "utxo_get (ov_commit ov) (ti_previous i) = Some out"
    by (auto simp: spend_key_input_def overlay_reads(1) [OF assms(1)])
  obtain pk where pk: "to_lock out = OL_Key pk"
    using assms(2) out by (cases "to_lock out") (auto simp: spend_key_input_def overlay_reads(1) [OF assms(1)])
  obtain sig where sig: "ti_witness i = IW_Key pk sig"
    using assms(2) out pk by (cases "ti_witness i") (auto simp: spend_key_input_def overlay_reads(1) [OF assms(1)])
  have ok: "ti_previous i \<notin> S \<and> to_spendable_height out \<le> height \<and> key_from_bytes C pk \<and> sig_from_bytes C sig \<and>
      schnorr_verify C pk digest sig \<and> S' = insert (ti_previous i) S \<and> checked_add v (to_value out) = Some v'"
    using assms(2) out pk sig by (auto simp: spend_key_input_def overlay_reads(1) [OF assms(1)])
  show "ti_previous i \<notin> S" "S' = insert (ti_previous i) S" using ok by auto
  show "authorised C digest height (ov_commit ov) i" using ok out pk sig by (auto simp: authorised_def)
  show "unat v' = unat v + out_value (the (utxo_get (ov_commit ov) (ti_previous i)))"
    using ok out by (auto simp: out_value_def dest!: checked_add_unat)
qed

lemma spend_loop_Ok:
  assumes "ov_ok ov" "ofold (spend_key_input C digest height ov) (S, v) is = Ok (S', v')"
  shows "distinct (map ti_previous is)" "S \<inter> set (map ti_previous is) = {}" "S' = S \<union> set (map ti_previous is)"
    "list_all (authorised C digest height (ov_commit ov)) is"
    "unat v' = unat v + sum_list (map (\<lambda>k. out_value (the (utxo_get (ov_commit ov) k))) (map ti_previous is))"
proof -
  have "distinct (map ti_previous is) \<and> S \<inter> set (map ti_previous is) = {} \<and> S' = S \<union> set (map ti_previous is) \<and>
    list_all (authorised C digest height (ov_commit ov)) is \<and>
    unat v' = unat v + sum_list (map (\<lambda>k. out_value (the (utxo_get (ov_commit ov) k))) (map ti_previous is))"
    using assms(2)
  proof (induction "is" arbitrary: S v)
    case (Cons i "is")
    then obtain S1 v1 where s: "spend_key_input C digest height ov (S, v) i = Ok (S1, v1)"
      and rest: "ofold (spend_key_input C digest height ov) (S1, v1) is = Ok (S', v')" by auto
    from Cons.IH [OF rest] spend_key_input_Ok [OF assms(1) s] show ?case by auto
  qed simp
  then show "distinct (map ti_previous is)" "S \<inter> set (map ti_previous is) = {}" "S' = S \<union> set (map ti_previous is)"
    "list_all (authorised C digest height (ov_commit ov)) is"
    "unat v' = unat v + sum_list (map (\<lambda>k. out_value (the (utxo_get (ov_commit ov) k))) (map ti_previous is))" by blast+
qed

section \<open>Effect of a transaction\<close>

definition direct_close :: "out_point \<Rightarrow> hash32 \<Rightarrow> utxo_set \<Rightarrow> utxo_set" where
  "direct_close k c u =
     \<lparr>us_outputs = fmdrop k (us_outputs u), us_active = us_active u - {c}, us_retired = insert c (us_retired u)\<rparr>"

text \<open>The two ways a transaction changes the set; the last argument is the fee it burns.\<close>

inductive tx_effect :: "crypto \<Rightarrow> transaction \<Rightarrow> u64 \<Rightarrow> hash32 \<Rightarrow> utxo_set \<Rightarrow> utxo_set \<Rightarrow> nat \<Rightarrow> bool"
  for C t height net u where
    key_spend: "\<lbrakk>tx_inputs t \<noteq> []; distinct (map ti_previous (tx_inputs t));
      list_all (authorised C (signing_digest C t) height u) (tx_inputs t);
      sum_list (map out_value (tx_outputs t)) + fee =
        sum_list (map (\<lambda>k. out_value (the (utxo_get u k))) (map ti_previous (tx_inputs t)));
      v = fold direct_drop (map ti_previous (tx_inputs t)) u;
      insertable_all (tx_points (txid C t) (tx_outputs t)) v;
      u' = direct_inserts (tx_points (txid C t) (tx_outputs t)) v\<rbrakk>
    \<Longrightarrow> tx_effect C t height net u u' fee"
  | channel_close: "\<lbrakk>tx_inputs t = [i]; utxo_get u (ti_previous i) = Some out; to_spendable_height out \<le> height;
      channel_of out = Some c; expected_close C (ti_witness i) height net c out = Ok (tx_outputs t, burn);
      sum_list (map out_value (tx_outputs t)) + fee = out_value out; fee = unat burn;
      v = direct_close (ti_previous i) c u;
      insertable_all (tx_points (txid C t) (tx_outputs t)) v;
      u' = direct_inserts (tx_points (txid C t) (tx_outputs t)) v\<rbrakk>
    \<Longrightarrow> tx_effect C t height net u u' fee"

lemma apply_channel_transaction_Ok:
  assumes ok: "ov_ok ov" and app: "apply_channel_transaction C t height net (ov, S) = Ok (fee, ov', S')"
  shows "ov_ok ov'" "ov_base ov' = ov_base ov" "S \<inter> set (map ti_previous (tx_inputs t)) = {}"
    "S' = S \<union> set (map ti_previous (tx_inputs t))" "tx_effect C t height net (ov_commit ov) (ov_commit ov') (unat fee)"
proof -
  from app have "length (tx_inputs t) = 1" by (auto simp: apply_channel_transaction_def)
  then obtain i where i: "tx_inputs t = [i]" by (auto simp: length_Suc_conv)
  from app [unfolded apply_channel_transaction_def] obtain out c outs s v where
    fresh: "ti_previous i \<notin> S" and out: "utxo_get (ov_commit ov) (ti_previous i) = Some out"
    and mature: "to_spendable_height out \<le> height" and c: "channel_of out = Some c"
    and close: "expected_close C (ti_witness i) height net c out = Ok (tx_outputs t, fee)"
    and total: "sum_outputs (tx_outputs t) = Ok s" "checked_add s fee = Some (to_value out)"
    and ins: "insert_outputs (txid C t) (tx_outputs t) (stage_retired_channel c True
        (stage_active_channel c False (stage_output (ti_previous i) None ov))) = Ok ov'"
    and S': "S' = insert (ti_previous i) S"
    by (auto simp: i overlay_reads(1) [OF ok] not_less split: prod.splits)
  let ?ov = "stage_retired_channel c True (stage_active_channel c False (stage_output (ti_previous i) None ov))"
  have commit: "ov_commit ?ov = direct_close (ti_previous i) c (ov_commit ov)"
    using ok by (simp add: direct_close_def write_output_def write_member_def)
  have "ov_ok ?ov" using ok by simp
  note r = insert_outputs_Ok [OF this ins, unfolded commit]
  show "ov_ok ov'" "ov_base ov' = ov_base ov" using r by simp_all
  show "S \<inter> set (map ti_previous (tx_inputs t)) = {}" "S' = S \<union> set (map ti_previous (tx_inputs t))"
    using fresh S' by (auto simp: i)
  have "sum_list (map out_value (tx_outputs t)) + unat fee = out_value out"
    using sum_outputs_exact [OF total(1)] checked_add_unat [OF total(2)] by (simp add: out_value_def)
  then show "tx_effect C t height net (ov_commit ov) (ov_commit ov') (unat fee)"
    using i out mature c close r(3,4) by (blast intro: channel_close)
qed

lemma apply_transaction_Ok:
  assumes ok: "ov_ok ov" and app: "apply_transaction C t height net (ov, S) = Ok (fee, ov', S')"
  shows "ov_ok ov'" "ov_base ov' = ov_base ov" "S \<inter> set (map ti_previous (tx_inputs t)) = {}"
    "S' = S \<union> set (map ti_previous (tx_inputs t))" "tx_effect C t height net (ov_commit ov) (ov_commit ov') (unat fee)"
    "tx_network_id t = net" "tx_version t = 1" "tx_inputs t \<noteq> []" "tx_outputs t \<noteq> []"
proof -
  show hdr: "tx_network_id t = net" "tx_version t = 1" "tx_inputs t \<noteq> []" "tx_outputs t \<noteq> []"
    using app by (auto simp: apply_transaction_def TRANSACTION_VERSION_def)
  have "ov_ok ov' \<and> ov_base ov' = ov_base ov \<and> S \<inter> set (map ti_previous (tx_inputs t)) = {} \<and>
      S' = S \<union> set (map ti_previous (tx_inputs t)) \<and> tx_effect C t height net (ov_commit ov) (ov_commit ov') (unat fee)"
  proof (cases "list_ex (\<lambda>i. \<not> is_key_witness (ti_witness i)) (tx_inputs t)")
    case True
    then have "apply_channel_transaction C t height net (ov, S) = Ok (fee, ov', S')"
      using app by (auto simp: apply_transaction_def)
    from apply_channel_transaction_Ok [OF ok this] show ?thesis by blast
  next
    case False
    let ?ov = "fold (\<lambda>i ov. stage_output (ti_previous i) None ov) (tx_inputs t) ov"
    from app False obtain v s where
      spend: "ofold (spend_key_input C (signing_digest C t) height ov) (S, 0) (tx_inputs t) = Ok (S', v)"
      and s: "sum_outputs (tx_outputs t) = Ok s" "s \<le> v" and fee: "fee = v - s"
      and ins: "insert_outputs (txid C t) (tx_outputs t) ?ov = Ok ov'"
      by (auto simp: apply_transaction_def Let_def not_less)
    note sp = spend_loop_Ok [OF ok spend]
    note dr = stage_drops [OF ok, of "tx_inputs t"]
    note r = insert_outputs_Ok [OF dr(1) ins, unfolded dr(2,3)]
    have "sum_list (map out_value (tx_outputs t)) + unat fee =
        sum_list (map (\<lambda>k. out_value (the (utxo_get (ov_commit ov) k))) (map ti_previous (tx_inputs t)))"
      using sum_outputs_exact [OF s(1)] sp(5) s(2) by (simp add: fee unat_sub word_le_nat_alt)
    then show ?thesis
      using sp r hdr(3) by (blast intro: key_spend)
  qed
  then show "ov_ok ov'" "ov_base ov' = ov_base ov" "S \<inter> set (map ti_previous (tx_inputs t)) = {}"
    "S' = S \<union> set (map ti_previous (tx_inputs t))" "tx_effect C t height net (ov_commit ov) (ov_commit ov') (unat fee)"
    by blast+
qed

lemma tx_effect_value:
  assumes "tx_effect C t height net u u' fee"
  shows "total_value u' + fee = total_value u"
  using assms
proof cases
  case (key_spend v)
  have "\<forall>k\<in>set (map ti_previous (tx_inputs t)). utxo_get u k \<noteq> None"
    using key_spend(3) by (auto simp: list_all_iff authorised_def)
  from drops_value [OF key_spend(2) this] direct_inserts_value [OF key_spend(6)] key_spend(4)
  show ?thesis by (simp add: key_spend(5,7) map_snd_tx_points flip: map_map)
next
  case (channel_close i out c burn v)
  have "total_value u = total_value v + out_value out"
    using direct_drop_value [OF channel_close(2)] total_value_cong [of v "direct_drop (ti_previous i) u"]
    by (simp add: channel_close(8) direct_close_def direct_drop_def)
  with direct_inserts_value [OF channel_close(9)] channel_close(6) show ?thesis
    by (simp add: channel_close(10) map_snd_tx_points flip: map_map)
qed

section \<open>The ledger invariant\<close>

text \<open>No unspent output has value zero; the active channels are exactly the channels with an
  unspent funding output, each has one such output, and none of them was ever closed.\<close>

definition ledger_inv :: "utxo_set \<Rightarrow> bool" where
  "ledger_inv u \<longleftrightarrow> (\<forall>k out. utxo_get u k = Some out \<longrightarrow> to_value out \<noteq> 0) \<and>
     us_active u = {c. \<exists>k out. utxo_get u k = Some out \<and> channel_of out = Some c} \<and>
     (\<forall>k k' out out' c. utxo_get u k = Some out \<and> utxo_get u k' = Some out' \<and>
        channel_of out = Some c \<and> channel_of out' = Some c \<longrightarrow> k = k') \<and>
     us_active u \<inter> us_retired u = {}"

lemma ledger_invI:
  assumes "\<And>k out. utxo_get u k = Some out \<Longrightarrow> to_value out \<noteq> 0"
    and "\<And>c. c \<in> us_active u \<longleftrightarrow> (\<exists>k out. utxo_get u k = Some out \<and> channel_of out = Some c)"
    and "\<And>k k' out out' c. utxo_get u k = Some out \<Longrightarrow> utxo_get u k' = Some out' \<Longrightarrow>
      channel_of out = Some c \<Longrightarrow> channel_of out' = Some c \<Longrightarrow> k = k'"
    and "\<And>c. c \<in> us_active u \<Longrightarrow> c \<notin> us_retired u"
  shows "ledger_inv u"
  unfolding ledger_inv_def using assms by blast

lemma ledger_invD:
  assumes "ledger_inv u"
  shows "utxo_get u k = Some out \<Longrightarrow> to_value out \<noteq> 0"
    "c \<in> us_active u \<longleftrightarrow> (\<exists>k out. utxo_get u k = Some out \<and> channel_of out = Some c)"
    "utxo_get u k = Some out \<Longrightarrow> utxo_get u k' = Some out' \<Longrightarrow> channel_of out = Some c \<Longrightarrow>
      channel_of out' = Some c \<Longrightarrow> k = k'"
    "c \<in> us_active u \<Longrightarrow> c \<notin> us_retired u"
  using assms unfolding ledger_inv_def by blast+

lemma ledger_inv_default: "ledger_inv utxo_default"
  by (simp add: ledger_inv_def utxo_default_def utxo_get_def)

lemma direct_insert_get: "utxo_get (direct_insert k out u) k' = (if k' = k then Some out else utxo_get u k')"
  by (simp add: direct_insert_def utxo_get_def)

lemma direct_insert_inv:
  assumes inv: "ledger_inv u" and ins: "insertable k out u"
  shows "ledger_inv (direct_insert k out u)"
proof (rule ledger_invI)
  note d = ledger_invD [OF inv]
  have act: "c \<in> us_active (direct_insert k out u) \<longleftrightarrow> channel_of out = Some c \<or> c \<in> us_active u" for c
    by (auto simp: direct_insert_def split: option.splits)
  show "c \<in> us_active (direct_insert k out u) \<longleftrightarrow>
      (\<exists>k' out'. utxo_get (direct_insert k out u) k' = Some out' \<and> channel_of out' = Some c)" for c
  proof -
    have "utxo_get u k = None" using ins by (simp add: insertable_def)
    then have "(\<exists>k' out'. utxo_get (direct_insert k out u) k' = Some out' \<and> channel_of out' = Some c) \<longleftrightarrow>
        channel_of out = Some c \<or> (\<exists>k' out'. utxo_get u k' = Some out' \<and> channel_of out' = Some c)"
      unfolding direct_insert_get by (metis option.distinct(1) option.inject)
    then show ?thesis unfolding act d(2) by (rule sym)
  qed
  show "c \<in> us_active (direct_insert k out u) \<Longrightarrow> c \<notin> us_retired (direct_insert k out u)" for c
    using ins d(4) unfolding act by (auto simp: direct_insert_def insertable_def)
  show "utxo_get (direct_insert k out u) k' = Some out' \<Longrightarrow> to_value out' \<noteq> 0" for k' out'
    using ins d(1) by (auto simp: direct_insert_get insertable_def split: if_splits)
  show "x = y" if "utxo_get (direct_insert k out u) x = Some a" "utxo_get (direct_insert k out u) y = Some b"
    "channel_of a = Some c" "channel_of b = Some c" for x y a b c
  proof -
    have "channel_of out = Some c \<Longrightarrow> utxo_get u z = Some e \<Longrightarrow> channel_of e \<noteq> Some c" for z e
      using ins d(2) by (auto simp: insertable_def)
    then show ?thesis using that d(3) by (auto simp: direct_insert_get split: if_splits)
  qed
qed

lemma direct_inserts_inv: "ledger_inv u \<Longrightarrow> insertable_all xs u \<Longrightarrow> ledger_inv (direct_inserts xs u)"
  by (induction xs arbitrary: u) (simp_all add: direct_inserts_def direct_insert_inv case_prod_unfold)

lemma direct_drop_inv:
  assumes inv: "ledger_inv u" and "utxo_get u k = Some out" "channel_of out = None"
  shows "ledger_inv (direct_drop k u)"
proof (rule ledger_invI)
  note d = ledger_invD [OF inv]
  have act: "us_active (direct_drop k u) = us_active u" by (simp add: direct_drop_def)
  show "c \<in> us_active (direct_drop k u) \<longleftrightarrow>
      (\<exists>k' out'. utxo_get (direct_drop k u) k' = Some out' \<and> channel_of out' = Some c)" for c
    using assms(2,3) unfolding act direct_drop_get d(2) by (metis option.distinct(1) option.inject)
qed (use ledger_invD [OF inv] in \<open>auto simp: direct_drop_get split: if_splits\<close>, simp add: direct_drop_def)

lemma direct_drops_inv:
  assumes "ledger_inv u" "distinct ks" "\<forall>k\<in>set ks. \<exists>out. utxo_get u k = Some out \<and> channel_of out = None"
  shows "ledger_inv (fold direct_drop ks u)"
  using assms
proof (induction ks arbitrary: u)
  case (Cons k ks)
  then have "ledger_inv (direct_drop k u)" by (auto intro: direct_drop_inv)
  moreover have "\<forall>x\<in>set ks. \<exists>out. utxo_get (direct_drop k u) x = Some out \<and> channel_of out = None"
    using Cons.prems by (auto simp: direct_drop_get)
  ultimately show ?case using Cons by simp
qed simp

lemma direct_close_inv:
  assumes inv: "ledger_inv u" and out: "utxo_get u k = Some out" "channel_of out = Some c"
  shows "ledger_inv (direct_close k c u)"
proof (rule ledger_invI)
  note d = ledger_invD [OF inv]
  have get: "utxo_get (direct_close k c u) x = (if x = k then None else utxo_get u x)" for x
    by (simp add: direct_close_def utxo_get_def)
  show "e \<in> us_active (direct_close k c u) \<longleftrightarrow>
      (\<exists>x a. utxo_get (direct_close k c u) x = Some a \<and> channel_of a = Some e)" for e
  proof -
    have "e \<in> us_active (direct_close k c u) \<longleftrightarrow> e \<noteq> c \<and> (\<exists>x a. utxo_get u x = Some a \<and> channel_of a = Some e)"
      by (auto simp: direct_close_def d(2))
    also have "\<dots> \<longleftrightarrow> (\<exists>x a. x \<noteq> k \<and> utxo_get u x = Some a \<and> channel_of a = Some e)"
      using out d(3) by (metis option.inject)
    finally show ?thesis by (auto simp: get)
  qed
  show "utxo_get (direct_close k c u) x = Some a \<Longrightarrow> to_value a \<noteq> 0" for x a
    using d(1) by (auto simp: get split: if_splits)
  show "utxo_get (direct_close k c u) x = Some a \<Longrightarrow> utxo_get (direct_close k c u) y = Some b \<Longrightarrow>
      channel_of a = Some e \<Longrightarrow> channel_of b = Some e \<Longrightarrow> x = y" for x y a b e
    using d(3) by (auto simp: get split: if_splits)
  show "e \<in> us_active (direct_close k c u) \<Longrightarrow> e \<notin> us_retired (direct_close k c u)" for e
    using d(4) by (auto simp: direct_close_def)
qed

lemma fold_drop_retired: "us_retired (fold direct_drop ks u) = us_retired u"
  by (induction ks arbitrary: u) (simp_all add: direct_drop_def)

lemma tx_effect_inv:
  assumes "tx_effect C t height net u u' fee" "ledger_inv u"
  shows "ledger_inv u'" "us_retired u \<subseteq> us_retired u'"
  using assms(1)
proof (atomize (full), cases)
  case (key_spend v)
  have "\<forall>k\<in>set (map ti_previous (tx_inputs t)). \<exists>out. utxo_get u k = Some out \<and> channel_of out = None"
    using key_spend(3) by (auto simp: list_all_iff authorised_def channel_of_def)
  from direct_drops_inv [OF assms(2) key_spend(2) this] direct_inserts_inv [of v] key_spend(5-7)
  show "ledger_inv u' \<and> us_retired u \<subseteq> us_retired u'" by (simp add: direct_inserts_retired fold_drop_retired)
next
  case (channel_close i out c burn v)
  from direct_close_inv [OF assms(2) channel_close(2,4)] direct_inserts_inv [of v] channel_close(8-10)
  show "ledger_inv u' \<and> us_retired u \<subseteq> us_retired u'"
    by (auto simp: direct_inserts_retired) (simp add: direct_close_def)
qed

section \<open>Properties\<close>

definition demo_coin :: tx_output where
  "demo_coin = \<lparr>to_value = 800, to_lock = OL_Key (replicate 32 4), to_spendable_height = 3\<rparr>"

definition demo_utxo :: utxo_set where
  "demo_utxo = \<lparr>us_outputs = fmupd demo_point demo_coin fmempty, us_active = {}, us_retired = {}\<rparr>"

lemma demo_utxo_inv: "ledger_inv demo_utxo" "total_value demo_utxo = 800"
proof -
  have u: "demo_utxo = direct_insert demo_point demo_coin utxo_default"
    by (simp add: demo_utxo_def direct_insert_def utxo_default_def channel_of_def demo_coin_def)
  have i: "insertable demo_point demo_coin utxo_default"
    by (simp add: insertable_def demo_coin_def utxo_get_def utxo_default_def channel_of_def)
  show "ledger_inv demo_utxo" unfolding u by (rule direct_insert_inv [OF ledger_inv_default i])
  show "total_value demo_utxo = 800"
    unfolding u direct_insert_value [OF i] by (simp add: total_value_def utxo_default_def out_value_def demo_coin_def)
qed

lemma demo_apply:
  "\<exists>ov'. apply_transaction demo_crypto demo_transaction 10 (replicate 32 1) (overlay_new demo_utxo, {}) =
     Ok (300, ov', {demo_point})"
  by (simp add: apply_transaction_def demo_transaction_def TRANSACTION_VERSION_def demo_input_def demo_output_def
      is_key_witness_def spend_key_input_def overlay_reads utxo_get_def demo_utxo_def demo_point_def demo_coin_def
      demo_crypto_simps checked_add_def sum_outputs_def Let_def insert_outputs_def enumerate_eq_zip insert_output_def
      channel_of_def txid_def TX_ID_DOMAIN_def write_output_def)

text \<open>C8. A transaction conserves value: what it leaves unspent plus the fee it burns is what was
  unspent before, each of its inputs existed, was not spent earlier in the block and is named
  once, and the overlay still stands for a well-formed state on the same base.\<close>

theorem transaction_conserves_value:
  assumes "ov_ok ov" "apply_transaction C t height net (ov, S) = Ok (fee, ov', S')"
  shows "total_value (ov_commit ov') + unat fee = total_value (ov_commit ov) \<and>
    ov_ok ov' \<and> ov_base ov' = ov_base ov \<and>
    S \<inter> set (map ti_previous (tx_inputs t)) = {} \<and> S' = S \<union> set (map ti_previous (tx_inputs t)) \<and>
    distinct (map ti_previous (tx_inputs t)) \<and>
    (\<forall>i\<in>set (tx_inputs t). utxo_get (ov_commit ov) (ti_previous i) \<noteq> None)"
proof -
  note r = apply_transaction_Ok [OF assms]
  from r(5) have "distinct (map ti_previous (tx_inputs t)) \<and>
      (\<forall>i\<in>set (tx_inputs t). utxo_get (ov_commit ov) (ti_previous i) \<noteq> None)"
    by cases (auto simp: list_all_iff authorised_def)
  then show ?thesis using r tx_effect_value [OF r(5)] by blast
qed

theorem transaction_conserves_value_witness:
  "\<exists>ov'. apply_transaction demo_crypto demo_transaction 10 (replicate 32 1) (overlay_new demo_utxo, {}) =
     Ok (300, ov', {demo_point}) \<and> total_value (ov_commit ov') = 500"
proof -
  obtain ov' where a: "apply_transaction demo_crypto demo_transaction 10 (replicate 32 1) (overlay_new demo_utxo, {}) =
      Ok (300, ov', {demo_point})" using demo_apply by blast
  from transaction_conserves_value [OF _ a] have "total_value (ov_commit ov') + 300 = 800"
    by (simp add: demo_utxo_inv)
  with a show ?thesis by auto
qed

text \<open>C9. Nothing is spent without authority: either every input of an accepted transaction spends a
  mature output locked to the key of its witness, with a signature that verifies over the
  transaction's signing digest, or the transaction closes one mature channel and its outputs are
  exactly the split that both parties signed, or the refund of the customer after the timeout.\<close>

theorem spending_is_authorised:
  assumes "ov_ok ov" "apply_transaction C t height net (ov, S) = Ok (fee, ov', S')"
  shows "list_all (authorised C (signing_digest C t) height (ov_commit ov)) (tx_inputs t) \<or>
    (\<exists>i out c terms. tx_inputs t = [i] \<and> utxo_get (ov_commit ov) (ti_previous i) = Some out \<and>
       to_spendable_height out \<le> height \<and> channel_of out = Some c \<and>
       ct_network_id terms = net \<and> ct_channel_id C terms = Ok c \<and> ct_deposit terms = to_value out \<and>
       ((\<exists>z. ti_witness i = IW_InferenceSettlement terms z \<and> settlement_verify C z terms = Ok () \<and>
          tx_outputs t = channel_outputs (ps_provider_payment (sps_state (se_state z))) (ct_provider_key terms)
            (ps_customer_refund (sps_state (se_state z))) (ct_customer_key terms) height \<and>
          fee = ps_close_fee_burn (sps_state (se_state z))) \<or>
        (ti_witness i = IW_InferenceRefund terms \<and> ct_refund_height terms \<le> height \<and>
          tx_outputs t = channel_outputs 0 (ct_provider_key terms) (ct_deposit terms - ct_close_fee_burn terms)
            (ct_customer_key terms) height \<and> fee = ct_close_fee_burn terms)))"
  using apply_transaction_Ok(5) [OF assms]
proof cases
  case (channel_close i out c burn v)
  have burn: "fee = burn" using channel_close(7) by (simp add: word_unat_eq_iff)
  note close = channel_close(5) [unfolded expected_close_def close_terms_checks_def]
  show ?thesis
  proof (cases "ti_witness i")
    case (IW_InferenceSettlement terms z)
    with channel_close(1-4) close burn show ?thesis by (intro disjI2) (auto simp: Let_def)
  next
    case (IW_InferenceRefund terms)
    with channel_close(1-4) close burn show ?thesis
      by (intro disjI2) (auto simp: Let_def ct_refund_def)
  next
    case (IW_Key pk sig)
    with close show ?thesis by simp
  qed
qed simp

theorem spending_is_authorised_witness:
  "list_all (authorised demo_crypto (signing_digest demo_crypto demo_transaction) 10 demo_utxo) (tx_inputs demo_transaction)"
proof -
  obtain ov' where a: "apply_transaction demo_crypto demo_transaction 10 (replicate 32 1) (overlay_new demo_utxo, {}) =
      Ok (300, ov', {demo_point})" using demo_apply by blast
  have "utxo_get demo_utxo demo_point = Some demo_coin" "channel_of demo_coin = None"
    "tx_inputs demo_transaction = [demo_input]" "ti_previous demo_input = demo_point"
    by (simp_all add: demo_utxo_def utxo_get_def channel_of_def demo_coin_def demo_transaction_def demo_input_def demo_point_def)
  then show ?thesis using spending_is_authorised [OF _ a] by auto
qed

text \<open>The ledger invariant: applying a transaction keeps every unspent output nonzero, the
  active channels equal to the channels with an unspent funding output, one output per channel,
  and active and retired channels apart; a retired channel stays retired, so its identifier is
  never reused.\<close>

theorem transaction_preserves_ledger_invariant:
  assumes "ov_ok ov" "apply_transaction C t height net (ov, S) = Ok (fee, ov', S')" "ledger_inv (ov_commit ov)"
  shows "ledger_inv (ov_commit ov') \<and> us_retired (ov_commit ov) \<subseteq> us_retired (ov_commit ov')"
  using tx_effect_inv [OF apply_transaction_Ok(5) [OF assms(1,2)] assms(3)] by blast

theorem transaction_preserves_ledger_invariant_witness:
  "\<exists>ov'. apply_transaction demo_crypto demo_transaction 10 (replicate 32 1) (overlay_new demo_utxo, {}) =
     Ok (300, ov', {demo_point}) \<and> ledger_inv (ov_commit ov')"
proof -
  obtain ov' where a: "apply_transaction demo_crypto demo_transaction 10 (replicate 32 1) (overlay_new demo_utxo, {}) =
      Ok (300, ov', {demo_point})" using demo_apply by blast
  from transaction_preserves_ledger_invariant [OF _ a] have "ledger_inv (ov_commit ov')" by (simp add: demo_utxo_inv)
  with a show ?thesis by blast
qed

end
