(* ===== verification/CF_Blocks.thy ===== *)
theory CF_Blocks
  imports CF_Transactions
begin

text \<open>
  Block-level validation of \<open>crates/cmfd-consensus/src/chain.rs\<close>: resource limits, the coinbase
  and \<open>validate_delta\<close>, which checks a block against an unspent output set and returns the fees it
  burns with the delta of its changes.
\<close>

section \<open>Resources\<close>

record set_validation =
  sv_total_burned_fees :: u64
  sv_aggregate_inputs :: nat
  sv_aggregate_outputs :: nat
  sv_signature_checks :: nat

definition count_witness :: "nat \<Rightarrow> tx_input \<Rightarrow> (chain_error, nat) outcome" where
  "count_witness checks i =
     obind (case ti_witness i of
        IW_Key _ signature \<Rightarrow>
          if length signature \<noteq> CONSENSUS_SIGNATURE_BYTES then Err CH_SignatureLength else Ok (1 :: nat)
      | IW_InferenceSettlement _ settlement \<Rightarrow>
          if length (sps_customer_signature (se_state settlement)) \<noteq> CONSENSUS_SIGNATURE_BYTES \<or>
             length (se_provider_signature settlement) \<noteq> CONSENSUS_SIGNATURE_BYTES
          then Err CH_SignatureLength else Ok 2
      | IW_InferenceRefund _ \<Rightarrow> Ok 0) (\<lambda>n.
     ok_or CH_BlockSignatureLimit (usize_add checks n))"

definition count_transaction :: "nat \<times> nat \<times> nat \<Rightarrow> transaction \<Rightarrow> (chain_error, nat \<times> nat \<times> nat) outcome" where
  "count_transaction counts t =
     (case counts of (aggregate_inputs, aggregate_outputs, signature_checks) \<Rightarrow>
       if MAX_TRANSACTION_INPUTS < length (tx_inputs t) then Err CH_TransactionInputLimit
       else if MAX_TRANSACTION_OUTPUTS < length (tx_outputs t) then Err CH_TransactionOutputLimit
       else
         obind (ok_or CH_BlockAggregateLimit (usize_add aggregate_inputs (length (tx_inputs t)))) (\<lambda>inputs.
         obind (ok_or CH_BlockAggregateLimit (usize_add aggregate_outputs (length (tx_outputs t)))) (\<lambda>outputs.
         obind (ofold count_witness signature_checks (tx_inputs t)) (\<lambda>checks.
         Ok (inputs, outputs, checks)))))"

definition validate_transaction_resources :: "transaction list \<Rightarrow> (chain_error, set_validation) outcome" where
  "validate_transaction_resources transactions =
     obind (ofold count_transaction (0, 0, 0) transactions) (\<lambda>(inputs, outputs, checks).
     if MAX_BLOCK_AGGREGATE_INPUTS < inputs \<or> MAX_BLOCK_AGGREGATE_OUTPUTS < outputs then Err CH_BlockAggregateLimit
     else if MAX_BLOCK_SIGNATURE_CHECKS < checks then Err CH_BlockSignatureLimit
     else Ok \<lparr>sv_total_burned_fees = 0, sv_aggregate_inputs = inputs, sv_aggregate_outputs = outputs,
              sv_signature_checks = checks\<rparr>)"

definition validate_transaction_set_resources :: "transaction list \<Rightarrow> (chain_error, set_validation) outcome" where
  "validate_transaction_set_resources transactions =
     (if MAX_BLOCK_TRANSACTIONS < length transactions then Err CH_BlockTransactionLimit
      else validate_transaction_resources transactions)"

definition validate_block_resources :: "block \<Rightarrow> (chain_error, unit) outcome" where
  "validate_block_resources b =
     (if MAX_BLOCK_TRANSACTIONS < length (bl_transactions b) then Err CH_BlockTransactionLimit
      else if MAX_COINBASE_OUTPUTS < length (cb_outputs (bl_coinbase b)) then Err CH_CoinbaseOutputLimit
      else obind (validate_transaction_resources (bl_transactions b)) (\<lambda>_. Ok ()))"

section \<open>Coinbase\<close>

definition value_at :: "tx_output list \<Rightarrow> nat \<Rightarrow> u64" where
  "value_at outs n = (if n < length outs then to_value (outs ! n) else 0)"

definition validate_coinbase ::
  "crypto \<Rightarrow> coinbase \<Rightarrow> allocation \<Rightarrow> reward_destinations \<Rightarrow> (chain_error, unit) outcome" where
  "validate_coinbase C cb alloc fixed =
     (case cb_outputs cb of
        [] \<Rightarrow> Err CH_CoinbaseLayout
      | first # _ \<Rightarrow>
        (case to_lock first of
           OL_InferenceChannel _ \<Rightarrow> Err CH_CoinbaseLayout
         | OL_Key miner_destination \<Rightarrow>
             if \<not> key_from_bytes C miner_destination then Err CH_CoinbaseLayout
             else if cb_outputs cb \<noteq> cb_outputs (coinbase_new (cb_height cb) alloc miner_destination fixed)
               then Err CH_CoinbaseLayout
             else
               let claim = \<lparr>cl_miner = value_at (cb_outputs cb) 0, cl_steward = value_at (cb_outputs cb) 1,
                            cl_community = value_at (cb_outputs cb) 2\<rparr> in
               if cl_miner claim \<noteq> al_miner alloc \<or> cl_steward claim \<noteq> al_steward alloc
                  \<or> cl_community claim \<noteq> al_community alloc
               then Err CH_CoinbaseLayout
               else Ok ()))"

section \<open>Whole blocks\<close>

definition map_pow_error :: "pow_error \<Rightarrow> chain_error" where
  "map_pow_error e =
     (case e of
        PE_V1 err \<Rightarrow> CH_Proof err
      | PE_V2 _ \<Rightarrow> CH_InvalidV2Proof
      | PE_WrongProofType \<Rightarrow> CH_WrongProofType
      | PE_ParameterMismatch \<Rightarrow> CH_PowParameterMismatch
      | PE_WrongNetwork \<Rightarrow> CH_WrongNetwork)"

definition check_transaction_identity :: "hash32 \<Rightarrow> transaction \<Rightarrow> (chain_error, unit) outcome" where
  "check_transaction_identity network_id t =
     (if tx_network_id t \<noteq> network_id then Err CH_WrongNetwork
      else if tx_version t \<noteq> TRANSACTION_VERSION then Err CH_UnsupportedTransactionVersion
      else Ok ())"

definition apply_and_sum ::
  "crypto \<Rightarrow> u64 \<Rightarrow> hash32 \<Rightarrow> u64 \<times> utxo_overlay \<times> out_point set \<Rightarrow> transaction
     \<Rightarrow> (chain_error, u64 \<times> utxo_overlay \<times> out_point set) outcome" where
  "apply_and_sum C height network_id state t =
     (case state of (fees, ov, spent) \<Rightarrow>
       obind (apply_transaction C t height network_id (ov, spent)) (\<lambda>(fee, ov, spent).
       obind (ok_or CH_AmountOverflow (checked_add fees fee)) (\<lambda>fees.
       Ok (fees, ov, spent))))"

definition validate_delta ::
  "crypto \<Rightarrow> utxo_set \<Rightarrow> block \<Rightarrow> pow_verifier \<Rightarrow> network_params \<Rightarrow> (chain_error, u64 \<times> utxo_delta) outcome" where
  "validate_delta C u b verifier params =
     obind (validate_block_resources b) (\<lambda>_.
     if bl_version b \<noteq> BLOCK_VERSION then Err CH_UnsupportedBlockVersion
     else if bc_network_id (bl_challenge b) \<noteq> np_network_id params then Err CH_WrongNetwork
     else
     obind (ofold (\<lambda>_ t. check_transaction_identity (np_network_id params) t) () (bl_transactions b)) (\<lambda>_.
     obind (map_err (\<lambda>_. CH_BlockEncoding) (encode_block C b)) (\<lambda>_.
     if bc_height (bl_challenge b) \<noteq> cb_height (bl_coinbase b) then Err CH_HeightMismatch
     else if transaction_root C b \<noteq> bc_transaction_root (bl_challenge b) then Err CH_MerkleRoot
     else
     obind (map_err map_pow_error (pow_verify C verifier (bl_challenge b) (bl_proof b))) (\<lambda>_.
     obind (ofold (apply_and_sum C (bc_height (bl_challenge b)) (np_network_id params))
              (0, overlay_new u, {}) (bl_transactions b)) (\<lambda>(fees, candidate, _).
     obind (map_err CH_Economics (mp_allocation (np_monetary_policy params) (bc_height (bl_challenge b)) fees)) (\<lambda>alloc.
     obind (validate_coinbase C (bl_coinbase b) alloc (np_rewards params)) (\<lambda>_.
     obind (insert_outputs (coinbase_outpoint_id C b) (cb_outputs (bl_coinbase b)) candidate) (\<lambda>candidate.
     Ok (fees, into_delta candidate)))))))))"

section \<open>Resource limits agree with the wire format\<close>

lemma count_witness_Ok:
  assumes "c + 2 < usize_limit"
  shows "count_witness c i = Ok c' \<longleftrightarrow> signed64 (ti_witness i) \<and> c' = c + witness_checks (ti_witness i)"
  using assms by (cases "ti_witness i")
    (auto simp: count_witness_def signed64_def witness_checks_def CONSENSUS_SIGNATURE_BYTES_def usize_add_def)

lemma witness_checks_le: "witness_checks w \<le> 2"
  by (simp add: witness_checks_def split: input_witness.splits)

lemma tx_checks_le: "tx_checks t \<le> 2 * length (tx_inputs t)"
proof -
  have "sum_list (map (\<lambda>i. witness_checks (ti_witness i)) is) \<le> 2 * length is" for "is" :: "tx_input list"
  proof (induction "is")
    case (Cons i "is")
    with add_mono [OF witness_checks_le [of "ti_witness i"] Cons.IH] show ?case by simp
  qed simp
  then show ?thesis by (simp add: tx_checks_def)
qed

lemma count_witnesses_Ok:
  assumes "c + 2 * length is < usize_limit"
  shows "ofold count_witness c is = Ok c' \<longleftrightarrow> list_all (\<lambda>i. signed64 (ti_witness i)) is \<and>
    c' = c + sum_list (map (\<lambda>i. witness_checks (ti_witness i)) is)"
  using assms
proof (induction "is" arbitrary: c)
  case (Cons i "is")
  have "count_witness c i = Ok d \<longleftrightarrow> signed64 (ti_witness i) \<and> d = c + witness_checks (ti_witness i)" for d
    using Cons.prems by (intro count_witness_Ok) simp
  moreover have "ofold count_witness (c + witness_checks (ti_witness i)) is = Ok c' \<longleftrightarrow>
      list_all (\<lambda>i. signed64 (ti_witness i)) is \<and>
      c' = c + witness_checks (ti_witness i) + sum_list (map (\<lambda>i. witness_checks (ti_witness i)) is)"
    using Cons.prems witness_checks_le [of "ti_witness i"] by (intro Cons.IH) simp
  ultimately show ?case by (auto simp: add.assoc)
qed auto

definition tx_limits :: "transaction \<Rightarrow> bool" where
  "tx_limits t \<longleftrightarrow> length (tx_inputs t) \<le> 128 \<and> length (tx_outputs t) \<le> 128 \<and>
     list_all (\<lambda>i. signed64 (ti_witness i)) (tx_inputs t)"

lemma count_transaction_Ok:
  assumes "a \<le> 128 * n" "b \<le> 128 * n" "c \<le> 256 * n" "n \<le> 1024"
  shows "count_transaction (a, b, c) t = Ok r \<longleftrightarrow> tx_limits t \<and>
    r = (a + length (tx_inputs t), b + length (tx_outputs t), c + tx_checks t)"
proof (cases "length (tx_inputs t) \<le> 128 \<and> length (tx_outputs t) \<le> 128")
  case True
  then have small: "a + length (tx_inputs t) < usize_limit" "b + length (tx_outputs t) < usize_limit"
    "c + 2 * length (tx_inputs t) < usize_limit"
    using assms by simp_all
  have "ofold count_witness c (tx_inputs t) = Ok d \<longleftrightarrow> list_all (\<lambda>i. signed64 (ti_witness i)) (tx_inputs t) \<and>
      d = c + tx_checks t" for d
    unfolding tx_checks_def by (rule count_witnesses_Ok [OF small(3)])
  then show ?thesis
    using True small by (auto simp: count_transaction_def wire_limits usize_add_def tx_limits_def)
next
  case False
  then show ?thesis by (auto simp: count_transaction_def wire_limits tx_limits_def)
qed

lemma count_transactions_Ok:
  assumes "a \<le> 128 * n" "b \<le> 128 * n" "c \<le> 256 * n" "n + length ts \<le> 1024"
  shows "ofold count_transaction (a, b, c) ts = Ok r \<longleftrightarrow> list_all tx_limits ts \<and>
    r = (a + sum_list (map (\<lambda>t. length (tx_inputs t)) ts), b + sum_list (map (\<lambda>t. length (tx_outputs t)) ts),
         c + sum_list (map tx_checks ts))"
  using assms
proof (induction ts arbitrary: a b c n)
  case (Cons t ts)
  note head = count_transaction_Ok [OF Cons.prems(1-3), of t]
  show ?case
  proof (cases "tx_limits t")
    case True
    have "ofold count_transaction (a + length (tx_inputs t), b + length (tx_outputs t), c + tx_checks t) ts = Ok r \<longleftrightarrow>
        list_all tx_limits ts \<and> r = (a + length (tx_inputs t) + sum_list (map (\<lambda>t. length (tx_inputs t)) ts),
          b + length (tx_outputs t) + sum_list (map (\<lambda>t. length (tx_outputs t)) ts),
          c + tx_checks t + sum_list (map tx_checks ts))"
      using True Cons.prems tx_checks_le [of t] by (intro Cons.IH [of _ "Suc n"]) (auto simp: tx_limits_def)
    then show ?thesis using head Cons.prems(4) True by (auto simp: add.assoc)
  next
    case False
    then show ?thesis using head Cons.prems(4) by auto
  qed
qed auto

lemma validate_transaction_resources_Ok:
  assumes "length ts \<le> 1024"
  shows "validate_transaction_resources ts = Ok v \<longleftrightarrow> list_all tx_limits ts \<and>
    v = \<lparr>sv_total_burned_fees = 0, sv_aggregate_inputs = sum_list (map (\<lambda>t. length (tx_inputs t)) ts),
      sv_aggregate_outputs = sum_list (map (\<lambda>t. length (tx_outputs t)) ts), sv_signature_checks = sum_list (map tx_checks ts)\<rparr> \<and>
    sv_aggregate_inputs v \<le> 4096 \<and> sv_aggregate_outputs v \<le> 4096 \<and> sv_signature_checks v \<le> 2048"
  unfolding validate_transaction_resources_def obind_eq_Ok
  using count_transactions_Ok [of 0 0 0 0 ts] assms by (auto simp: wire_limits not_less)

lemma ofold_resources_iff:
  assumes "br_signature_checks res \<le> 2048" "br_inputs res \<le> 4096" "br_outputs res \<le> 4096"
  shows "(\<exists>res'. ofold add_block_resources res ts = Ok res') \<longleftrightarrow>
    br_inputs res + sum_list (map (\<lambda>t. length (tx_inputs t)) ts) \<le> 4096 \<and>
    br_outputs res + sum_list (map (\<lambda>t. length (tx_outputs t)) ts) \<le> 4096 \<and>
    br_signature_checks res + sum_list (map tx_checks ts) \<le> 2048"
  using assms
proof (induction ts arbitrary: res)
  case (Cons t ts)
  let ?r = "\<lparr>br_inputs = br_inputs res + length (tx_inputs t), br_outputs = br_outputs res + length (tx_outputs t),
      br_signature_checks = br_signature_checks res + tx_checks t\<rparr>"
  show ?case
  proof (cases "br_inputs ?r \<le> 4096 \<and> br_outputs ?r \<le> 4096 \<and> br_signature_checks ?r \<le> 2048")
    case True
    then have "add_block_resources res t = Ok ?r" using add_block_resources_Ok [OF Cons.prems(1)] by blast
    then show ?thesis using Cons.IH [of ?r] True by (simp add: add.assoc)
  next
    case False
    have "add_block_resources res t \<noteq> Ok r'" for r'
    proof
      assume "add_block_resources res t = Ok r'"
      then have r: "r' = ?r \<and> br_inputs r' \<le> 4096 \<and> br_outputs r' \<le> 4096 \<and> br_signature_checks r' \<le> 2048"
        by (rule add_block_resources_Ok [OF Cons.prems(1), THEN iffD1])
      with False show False by (simp only: conjunct1 [OF r] False) blast
    qed
    then have "\<nexists>r'. ofold add_block_resources res (t # ts) = Ok r'" by simp
    moreover from False have "\<not> (br_inputs res + length (tx_inputs t) \<le> 4096 \<and>
        br_outputs res + length (tx_outputs t) \<le> 4096 \<and> br_signature_checks res + tx_checks t \<le> 2048)"
      unfolding block_resources.select_convs .
    then have "\<not> (br_inputs res + (length (tx_inputs t) + x) \<le> 4096 \<and>
        br_outputs res + (length (tx_outputs t) + y) \<le> 4096 \<and> br_signature_checks res + (tx_checks t + z) \<le> 2048)"
      for x y z unfolding add.assoc [symmetric] using add_leD1 by blast
    ultimately show ?thesis by (simp only: list.map sum_list.Cons)
  qed
qed auto

lemma block_shape_resources:
  "block_shape b \<longleftrightarrow> validate_block_resources b = Ok () \<and>
     list_all (\<lambda>t. tx_network_id t = bc_network_id (bl_challenge b) \<and>
       list_all (\<lambda>i. terms_on (bc_network_id (bl_challenge b)) (ti_witness i)) (tx_inputs t)) (bl_transactions b)"
proof (cases "length (bl_transactions b) \<le> 1024")
  case True
  let ?net = "bc_network_id (bl_challenge b)"
  have shape: "list_all (tx_shape ?net) ts \<longleftrightarrow> list_all tx_limits ts \<and> list_all (\<lambda>t. tx_network_id t = ?net \<and>
      list_all (\<lambda>i. terms_on ?net (ti_witness i)) (tx_inputs t)) ts" for ts
    by (auto simp: list_all_iff tx_shape_def tx_limits_def)
  have res: "validate_block_resources b = Ok () \<longleftrightarrow> length (cb_outputs (bl_coinbase b)) \<le> 3 \<and>
      list_all tx_limits (bl_transactions b) \<and> (\<exists>res. ofold add_block_resources no_resources (bl_transactions b) = Ok res)"
    using True validate_transaction_resources_Ok [OF True]
      ofold_resources_iff [of no_resources "bl_transactions b"]
    by (auto simp: validate_block_resources_def wire_limits no_resources_def not_less)
  show ?thesis unfolding block_shape_def shape res using True by blast
qed (auto simp: block_shape_def validate_block_resources_def wire_limits)

section \<open>Coinbase layout\<close>

lemma validate_coinbase_Ok:
  "validate_coinbase C cb alloc fixed = Ok () \<longleftrightarrow>
     (\<exists>miner. key_from_bytes C miner \<and> cb_outputs cb = cb_outputs (coinbase_new (cb_height cb) alloc miner fixed)) \<and>
     (al_steward alloc = 0 \<longrightarrow> al_community alloc = 0)"
  by (auto simp: validate_coinbase_def coinbase_new_def value_at_def Let_def word_gt_0
      split: list.splits output_lock.splits)

lemma validate_coinbase_error:
  "validate_coinbase C cb alloc fixed = Ok () \<or> validate_coinbase C cb alloc fixed = Err CH_CoinbaseLayout"
  by (simp add: validate_coinbase_def Let_def split: list.splits output_lock.splits)

lemma coinbase_value:
  assumes "unat (al_miner a) + unat (al_steward a) + unat (al_community a) = unat (al_subsidy a)"
  shows "sum_list (map out_value (cb_outputs (coinbase_new h a miner fixed))) = unat (al_subsidy a)"
  using assms by (auto simp: coinbase_new_def out_value_def word_gt_0)

section \<open>The transactions of a block\<close>

definition block_spends :: "transaction list \<Rightarrow> out_point list" where
  "block_spends ts = concat (map (\<lambda>t. map ti_previous (tx_inputs t)) ts)"

lemma block_spends_simps [simp]:
  "block_spends [] = []"
  "block_spends (t # ts) = map ti_previous (tx_inputs t) @ block_spends ts"
  by (simp_all add: block_spends_def)

lemma tx_effect_distinct: "tx_effect C t height net u u' fee \<Longrightarrow> distinct (map ti_previous (tx_inputs t))"
  by (erule tx_effect.cases) simp_all

lemma apply_and_sum_Ok:
  assumes "apply_and_sum C height net (fees, ov, S) t = Ok (fees', ov', S')"
  obtains fee where "apply_transaction C t height net (ov, S) = Ok (fee, ov', S')" "unat fees' = unat fees + unat fee"
  using assms by (auto simp: apply_and_sum_def dest!: checked_add_unat)

lemma block_loop_Ok:
  assumes "ofold (apply_and_sum C height net) (fees, ov, S) ts = Ok (fees', ov', S')" "ov_ok ov"
  shows "ov_ok ov' \<and> ov_base ov' = ov_base ov"
    "total_value (ov_commit ov') + unat fees' = total_value (ov_commit ov) + unat fees"
    "ledger_inv (ov_commit ov) \<Longrightarrow> ledger_inv (ov_commit ov') \<and> us_retired (ov_commit ov) \<subseteq> us_retired (ov_commit ov')"
    "distinct (block_spends ts) \<and> S \<inter> set (block_spends ts) = {}"
    "list_all (\<lambda>t. tx_inputs t \<noteq> []) ts"
proof -
  have "(ov_ok ov' \<and> ov_base ov' = ov_base ov) \<and>
    total_value (ov_commit ov') + unat fees' = total_value (ov_commit ov) + unat fees \<and>
    (ledger_inv (ov_commit ov) \<longrightarrow> ledger_inv (ov_commit ov') \<and> us_retired (ov_commit ov) \<subseteq> us_retired (ov_commit ov')) \<and>
    (distinct (block_spends ts) \<and> S \<inter> set (block_spends ts) = {}) \<and> list_all (\<lambda>t. tx_inputs t \<noteq> []) ts"
    using assms
  proof (induction ts arbitrary: fees ov S)
    case (Cons t ts)
    then obtain fees1 ov1 S1 where hd: "apply_and_sum C height net (fees, ov, S) t = Ok (fees1, ov1, S1)"
      and tl: "ofold (apply_and_sum C height net) (fees1, ov1, S1) ts = Ok (fees', ov', S')" by auto
    from hd obtain fee where app: "apply_transaction C t height net (ov, S) = Ok (fee, ov1, S1)"
      and sum: "unat fees1 = unat fees + unat fee" by (rule apply_and_sum_Ok)
    note a = apply_transaction_Ok [OF Cons.prems(2) app]
    note IH = Cons.IH [OF tl a(1)]
    have "total_value (ov_commit ov') + unat fees' = total_value (ov_commit ov) + unat fees"
      using IH tx_effect_value [OF a(5)] sum by linarith
    moreover have "distinct (block_spends (t # ts)) \<and> S \<inter> set (block_spends (t # ts)) = {}"
      using IH a(3,4) tx_effect_distinct [OF a(5)] by auto
    moreover have "ledger_inv (ov_commit ov) \<longrightarrow> ledger_inv (ov_commit ov') \<and> us_retired (ov_commit ov) \<subseteq> us_retired (ov_commit ov')"
      using IH tx_effect_inv [OF a(5)] by blast
    ultimately show ?case using IH a(2,8) by simp
  qed simp
  then show "ov_ok ov' \<and> ov_base ov' = ov_base ov"
    "total_value (ov_commit ov') + unat fees' = total_value (ov_commit ov) + unat fees"
    "ledger_inv (ov_commit ov) \<Longrightarrow> ledger_inv (ov_commit ov') \<and> us_retired (ov_commit ov) \<subseteq> us_retired (ov_commit ov')"
    "distinct (block_spends ts) \<and> S \<inter> set (block_spends ts) = {}"
    "list_all (\<lambda>t. tx_inputs t \<noteq> []) ts" by blast+
qed

text \<open>Transactions that each spend something and share no input are pairwise different.\<close>

lemma spends_distinct_transactions:
  "distinct (block_spends ts) \<Longrightarrow> list_all (\<lambda>t. tx_inputs t \<noteq> []) ts \<Longrightarrow> distinct ts"
proof (induction ts)
  case (Cons t ts)
  have "t \<notin> set ts"
  proof
    assume "t \<in> set ts"
    then have "set (map ti_previous (tx_inputs t)) \<subseteq> set (block_spends ts)" by (auto simp: block_spends_def)
    with Cons.prems show False by (cases "tx_inputs t") auto
  qed
  with Cons show ?case by simp
qed simp

lemma validate_delta_Ok:
  assumes "validate_delta C u b verifier params = Ok (fees, d)"
  obtains cand S alloc ov where
    "ofold (apply_and_sum C (bc_height (bl_challenge b)) (np_network_id params)) (0, overlay_new u, {}) (bl_transactions b) =
       Ok (fees, cand, S)"
    "mp_allocation (np_monetary_policy params) (bc_height (bl_challenge b)) fees = Ok alloc"
    "validate_coinbase C (bl_coinbase b) alloc (np_rewards params) = Ok ()"
    "insert_outputs (coinbase_outpoint_id C b) (cb_outputs (bl_coinbase b)) cand = Ok ov" "d = into_delta ov"
    "validate_block_resources b = Ok ()" "bl_version b = BLOCK_VERSION" "bc_network_id (bl_challenge b) = np_network_id params"
    "\<exists>bs. encode_block C b = Ok bs" "bc_height (bl_challenge b) = cb_height (bl_coinbase b)"
    "transaction_root C b = bc_transaction_root (bl_challenge b)"
    "pow_verify C verifier (bl_challenge b) (bl_proof b) = Ok ()"
  using assms unfolding validate_delta_def
  by (auto split: if_splits)

lemma block_delta:
  assumes "validate_delta C u b verifier params = Ok (fees, d)"
  shows "total_value (delta_apply d u) + unat fees =
      total_value u + unat (subsidy_unchecked (np_monetary_policy params) (bc_height (bl_challenge b)))"
    "delta_matches d u"
    "ledger_inv u \<longrightarrow> ledger_inv (delta_apply d u) \<and> us_retired u \<subseteq> us_retired (delta_apply d u)"
proof -
  obtain cand S alloc ov where
    loop: "ofold (apply_and_sum C (bc_height (bl_challenge b)) (np_network_id params)) (0, overlay_new u, {})
      (bl_transactions b) = Ok (fees, cand, S)"
    and alloc: "mp_allocation (np_monetary_policy params) (bc_height (bl_challenge b)) fees = Ok alloc"
    and cb: "validate_coinbase C (bl_coinbase b) alloc (np_rewards params) = Ok ()"
    and ins: "insert_outputs (coinbase_outpoint_id C b) (cb_outputs (bl_coinbase b)) cand = Ok ov" and d: "d = into_delta ov"
    using validate_delta_Ok [OF assms] by metis
  note l = block_loop_Ok [OF loop overlay_new_ok(1)]
  have ok: "ov_ok cand" "ov_base cand = u" using l(1) by simp_all
  note i = insert_outputs_Ok [OF ok(1) ins]
  have commit: "delta_apply d u = ov_commit ov" using i(2) ok(2) by (simp add: d ov_commit_def into_delta_def)
  note e = allocation_exact [OF alloc]
  have "sum_list (map out_value (cb_outputs (bl_coinbase b))) = unat (al_subsidy alloc)"
    using cb coinbase_value e unfolding validate_coinbase_Ok by metis
  then show "total_value (delta_apply d u) + unat fees =
      total_value u + unat (subsidy_unchecked (np_monetary_policy params) (bc_height (bl_challenge b)))"
    using l(2) e direct_inserts_value [OF i(3)]
    by (simp add: commit i(4) map_snd_tx_points flip: map_map)
  show "delta_matches d u" using delta_matches_base [OF i(1)] i(2) ok(2) d by simp
  show "ledger_inv u \<longrightarrow> ledger_inv (delta_apply d u) \<and> us_retired u \<subseteq> us_retired (delta_apply d u)"
    using l(3) direct_inserts_inv i(3) by (auto simp: commit i(4) direct_inserts_retired)
qed

text \<open>Inserting succeeds when the identifier is fresh and every output is a nonzero key output.\<close>

definition fresh_txid :: "hash32 \<Rightarrow> utxo_set \<Rightarrow> bool" where
  "fresh_txid tid u \<longleftrightarrow> (\<forall>k. op_txid k = tid \<longrightarrow> utxo_get u k = None)"

lemma insert_output_succeeds:
  assumes "ov_ok ov" "to_value out \<noteq> 0" "channel_of out = None" "utxo_get (ov_commit ov) k = None"
  shows "\<exists>ov'. insert_output k out ov = Ok ov' \<and> ov_ok ov' \<and> ov_commit ov' = direct_insert k out (ov_commit ov)"
  using assms by (simp add: insert_output_def overlay_reads direct_insert_def write_output_def)

lemma insert_outputs_succeeds:
  assumes "ov_ok ov" "list_all (\<lambda>out. to_value out \<noteq> 0 \<and> channel_of out = None) outs" "fresh_txid tid (ov_commit ov)"
    "length outs < 2 ^ 32"
  shows "\<exists>ov'. insert_outputs tid outs ov = Ok ov'"
proof -
  have "\<exists>ov'. ofold (\<lambda>ov (index, out). insert_output \<lparr>op_txid = tid, op_index = word_of_nat index\<rparr> out ov) ov (enumerate n outs) = Ok ov'"
    if "ov_ok ov" "list_all (\<lambda>out. to_value out \<noteq> 0 \<and> channel_of out = None) outs" "n + length outs < 2 ^ 32"
      "\<forall>i\<ge>n. i < 2 ^ 32 \<longrightarrow> utxo_get (ov_commit ov) \<lparr>op_txid = tid, op_index = word_of_nat i\<rparr> = None" for n ov
    using that
  proof (induction outs arbitrary: n ov)
    case (Cons out outs)
    let ?k = "\<lambda>i. \<lparr>op_txid = tid, op_index = (word_of_nat i :: u32)\<rparr>"
    have n: "n < 2 ^ 32" using Cons.prems(3) by simp
    then obtain ov1 where ov1: "insert_output (?k n) out ov = Ok ov1" "ov_ok ov1" "ov_commit ov1 = direct_insert (?k n) out (ov_commit ov)"
      using Cons.prems insert_output_succeeds [of ov out "?k n"] by auto
    have "utxo_get (ov_commit ov1) (?k i) = None" if "Suc n \<le> i" "i < 2 ^ 32" for i
    proof -
      have "(word_of_nat i :: u32) \<noteq> word_of_nat n"
        using that n by (simp add: word_of_nat_eq_iff take_bit_nat_eq_self)
      then show ?thesis using that Cons.prems(4) by (simp add: ov1(3) direct_insert_get)
    qed
    then show ?case using Cons.IH [of ov1 "Suc n"] Cons.prems(2,3) ov1 by auto
  qed simp
  from this [of ov 0] show ?thesis using assms by (simp add: insert_outputs_def fresh_txid_def)
qed

section \<open>A mined block\<close>

definition demo_proof :: block_proof where
  "demo_proof = BP_V1Legacy \<lparr>pr_algorithm_version = 1, pr_model_version = 1, pr_nonce = 5, pr_model_root = replicate 32 25,
     pr_output_digest = replicate 32 26, pr_work_digest = replicate 32 24\<rparr>"

definition demo_allocation :: "u64 \<Rightarrow> u64 \<Rightarrow> allocation" where
  "demo_allocation height fees = (case mp_allocation DEFAULT_MONETARY_POLICY height fees of Ok a \<Rightarrow> a | _ \<Rightarrow>
     \<lparr>al_subsidy = 0, al_miner = 0, al_steward = 0, al_community = 0, al_fees_burned = 0\<rparr>)"

definition demo_mined :: "u64 \<Rightarrow> hash32 \<Rightarrow> u64 \<Rightarrow> transaction list \<Rightarrow> u64 \<Rightarrow> block" where
  "demo_mined height previous timestamp txs fees = \<lparr>bl_version = 1,
     bl_challenge = \<lparr>bc_network_id = replicate 32 1, bc_previous_block = previous, bc_transaction_root = replicate 32 19,
       bc_height = height, bc_timestamp = timestamp, bc_target = replicate 32 255\<rparr>,
     bl_proof = demo_proof,
     bl_coinbase = coinbase_new height (demo_allocation height fees) (replicate 32 9) (np_rewards demo_params),
     bl_transactions = txs\<rparr>"

lemma demo_mined_pow:
  "pow_verify demo_crypto (PV_V1Legacy demo_verifier) (bl_challenge (demo_mined h prev ts txs fees))
     (bl_proof (demo_mined h prev ts txs fees)) = Ok ()"
proof -
  let ?ch = "bl_challenge (demo_mined h prev ts txs fees)"
  obtain q where q: "forge_prove demo_crypto demo_verifier ?ch 5 = (Ok q :: (forge_error, _) outcome)"
    using forge_prove_total [OF crypto_ok_demo forge_new_wf(1) [OF crypto_ok_demo demo_forge_new]] by blast
  then have "BP_V1Legacy q = demo_proof"
    by (auto simp: forge_prove_def evaluate_def Let_def demo_crypto_simps WORK_DOMAIN_def OUTPUT_DOMAIN_def
        demo_proof_def demo_verifier_def demo_profile_def)
  then have "pow_evaluate demo_crypto (PV_V1Legacy demo_verifier) ?ch (bp_nonce demo_proof) = Ok demo_proof"
    using q by (auto simp: pow_evaluate_def bp_nonce_def demo_proof_def)
  then show ?thesis
    unfolding pow_verify_split pow_verify_evaluation_exact
    by (simp add: demo_mined_def) (simp add: bp_work_digest_def demo_proof_def lex_le_replicate)
qed

lemma demo_allocations:
  "mp_allocation DEFAULT_MONETARY_POLICY 10 300 = Ok (demo_allocation 10 300)"
  "mp_allocation DEFAULT_MONETARY_POLICY 1 0 = Ok (demo_allocation 1 0)"
  "al_steward (demo_allocation 10 300) \<noteq> 0" "al_community (demo_allocation 10 300) \<noteq> 0" "al_miner (demo_allocation 10 300) \<noteq> 0"
  "al_steward (demo_allocation 1 0) \<noteq> 0" "al_community (demo_allocation 1 0) \<noteq> 0" "al_miner (demo_allocation 1 0) \<noteq> 0"
  by (code_simp)+

lemma demo_mined_encodes:
  assumes "txs = [] \<or> txs = [demo_transaction]" "length prev = 32"
  shows "\<exists>bs. encode_block demo_crypto (demo_mined h prev ts txs fees) = Ok bs"
proof -
  have res: "add_block_resources no_resources demo_transaction =
      Ok \<lparr>br_inputs = 1, br_outputs = 1, br_signature_checks = 1\<rparr>"
    by (simp add: add_block_resources_Ok no_resources_def demo_transaction_def tx_checks_def demo_input_def
        witness_checks_def)
  have tx: "tx_shape (replicate 32 1) demo_transaction"
    by (simp add: tx_shape_def demo_transaction_def demo_input_def signed64_def terms_on_def)
  have shape: "block_shape (demo_mined h prev ts txs fees)"
    using assms by (auto simp: block_shape_def demo_mined_def res tx coinbase_new_def)
  have sizes: "block_sizes (demo_mined h prev ts txs fees)"
    using assms
    by (elim disjE; simp add: block_sizes_def demo_mined_def demo_proof_def proof_payload_def tx_size_ok_def block_payload_def
        Let_def demo_transaction_def demo_input_def tx_payload_def input_bytes_def witness_bytes_def demo_output_def
        encode_output_def sized_tx_def challenge_bytes_def coinbase_bytes_def coinbase_new_def)
      (simp_all add: demo_params_def)
  from shape sizes show ?thesis by (auto simp: encode_block_Ok)
qed

lemma demo_mined_root: "txs = [] \<or> txs = [demo_transaction] \<Longrightarrow>
  transaction_root demo_crypto (demo_mined h prev ts txs fees) = replicate 32 19"
  by (elim disjE; simp add: transaction_root_def demo_mined_def merkle_root_def merkle_leaf_def merkle_node_def
      demo_crypto_simps MERKLE_LEAF_DOMAIN_def MERKLE_NODE_DOMAIN_def pad_level_def merkle_levels.simps [of _ "[_, _]"]
      merkle_levels.simps [of _ "[_]"])

lemma demo_mined_resources:
  assumes "txs = [] \<or> txs = [demo_transaction]" "length prev = 32"
  shows "validate_block_resources (demo_mined h prev ts txs fees) = Ok ()"
  using demo_mined_encodes [OF assms] by (auto simp: encode_block_Ok block_shape_resources)

lemma demo_block_validates:
  "\<exists>d. validate_delta demo_crypto demo_utxo (demo_mined 10 (replicate 32 2) 2000 [demo_transaction] 300)
     (PV_V1Legacy demo_verifier) demo_params = Ok (300, d)"
proof -
  let ?b = "demo_mined 10 (replicate 32 2) 2000 [demo_transaction] 300"
  obtain ov where ov: "apply_transaction demo_crypto demo_transaction 10 (replicate 32 1) (overlay_new demo_utxo, {}) =
      Ok (300, ov, {demo_point})" using demo_apply by blast
  have "\<exists>ov'. insert_outputs (coinbase_outpoint_id demo_crypto ?b) (cb_outputs (bl_coinbase ?b)) ov = Ok ov'"
  proof (rule insert_outputs_succeeds)
    note ok = apply_transaction_Ok [OF overlay_new_ok(1) ov]
    show "ov_ok ov" by (rule ok(1))
    show "list_all (\<lambda>out. to_value out \<noteq> 0 \<and> channel_of out = None) (cb_outputs (bl_coinbase ?b))"
      using demo_allocations(3-5) by (simp add: demo_mined_def coinbase_new_def channel_of_def)
    show "length (cb_outputs (bl_coinbase ?b)) < 2 ^ 32" by (simp add: demo_mined_def coinbase_new_def)
    from ok(5) have "ov_commit ov = direct_inserts (tx_points (replicate 32 22) [demo_output]) (direct_drop demo_point demo_utxo)"
      by cases (auto simp: demo_transaction_def demo_input_def demo_point_def txid_def TX_ID_DOMAIN_def demo_crypto_simps
          demo_utxo_def utxo_get_def demo_coin_def channel_of_def)
    moreover have "utxo_get demo_utxo k = (if k = demo_point then Some demo_coin else None)" for k
      by (simp add: demo_utxo_def utxo_get_def)
    ultimately show "fresh_txid (coinbase_outpoint_id demo_crypto ?b) (ov_commit ov)"
      by (auto simp: fresh_txid_def coinbase_outpoint_id_def COINBASE_OUTPOINT_DOMAIN_def demo_crypto_simps direct_inserts_def
          tx_points_def enumerate_eq_zip direct_insert_get direct_drop_get replicate_32_eq)
  qed
  then obtain ov' where ins: "insert_outputs (coinbase_outpoint_id demo_crypto ?b) (cb_outputs (bl_coinbase ?b)) ov = Ok ov'" ..
  obtain bs where bs: "encode_block demo_crypto ?b = Ok bs" using demo_mined_encodes [of "[demo_transaction]" "replicate 32 2" 10 2000 300] by auto
  have fields: "bl_version ?b = BLOCK_VERSION" "bc_network_id (bl_challenge ?b) = np_network_id demo_params"
    "bc_height (bl_challenge ?b) = 10" "cb_height (bl_coinbase ?b) = 10" "bl_transactions ?b = [demo_transaction]"
    "bc_transaction_root (bl_challenge ?b) = replicate 32 19" "np_network_id demo_params = replicate 32 1"
    "np_monetary_policy demo_params = DEFAULT_MONETARY_POLICY"
    by (simp_all add: demo_mined_def BLOCK_VERSION_def demo_params_def coinbase_new_def)
  have cb: "validate_coinbase demo_crypto (bl_coinbase ?b) (demo_allocation 10 300) (np_rewards demo_params) = Ok ()"
    unfolding validate_coinbase_Ok using demo_allocations(3)
    by (auto simp: demo_mined_def demo_crypto_simps intro!: exI [of _ "replicate 32 9"]) (simp_all add: coinbase_new_def)
  have tid: "check_transaction_identity (replicate 32 1) demo_transaction = Ok ()"
    by (simp add: check_transaction_identity_def demo_transaction_def TRANSACTION_VERSION_def)
  show ?thesis
    unfolding validate_delta_def
    by (simp add: demo_mined_resources fields bs demo_mined_root demo_mined_pow apply_and_sum_def ov cb tid ins
        demo_allocations(1) checked_add_def)
qed

section \<open>Properties\<close>

text \<open>Consensus validation and the wire format enforce the same limits: a block has an encoding
  exactly when it passes the resource checks of validation, its parts fit the byte limits, and
  every transaction and every channel term it carries names the network of the block.\<close>

theorem consensus_and_wire_limits_agree:
  "(\<exists>bs. encode_block C b = Ok bs) \<longleftrightarrow> validate_block_resources b = Ok () \<and> block_sizes b \<and>
     list_all (\<lambda>t. tx_network_id t = bc_network_id (bl_challenge b) \<and>
       list_all (\<lambda>i. terms_on (bc_network_id (bl_challenge b)) (ti_witness i)) (tx_inputs t)) (bl_transactions b)"
  unfolding encode_block_Ok block_shape_resources by blast

text \<open>C12. A block that validates conserves value: applying its delta leaves unspent what was unspent
  before, plus the subsidy of its height, minus the fees it burns; the delta still matches the set
  it was computed from, keeps the ledger invariant and never reopens a retired channel; and the
  block carries a proof of work that verifies.\<close>

theorem block_conserves_value:
  assumes "validate_delta C u b verifier params = Ok (fees, d)"
  shows "total_value (delta_apply d u) + unat fees =
      total_value u + unat (subsidy_unchecked (np_monetary_policy params) (bc_height (bl_challenge b))) \<and>
    delta_matches d u \<and>
    (ledger_inv u \<longrightarrow> ledger_inv (delta_apply d u) \<and> us_retired u \<subseteq> us_retired (delta_apply d u)) \<and>
    pow_verify C verifier (bl_challenge b) (bl_proof b) = Ok ()"
  using block_delta [OF assms] validate_delta_Ok [OF assms] by metis

theorem block_conserves_value_witness:
  "\<exists>d. validate_delta demo_crypto demo_utxo (demo_mined 10 (replicate 32 2) 2000 [demo_transaction] 300)
     (PV_V1Legacy demo_verifier) demo_params = Ok (300, d) \<and> ledger_inv (delta_apply d demo_utxo) \<and>
     total_value (delta_apply d demo_utxo) = 500 + unat (subsidy_unchecked DEFAULT_MONETARY_POLICY 10)"
proof -
  obtain d where d: "validate_delta demo_crypto demo_utxo (demo_mined 10 (replicate 32 2) 2000 [demo_transaction] 300)
     (PV_V1Legacy demo_verifier) demo_params = Ok (300, d)" using demo_block_validates by blast
  from block_conserves_value [OF d] demo_utxo_inv have "ledger_inv (delta_apply d demo_utxo) \<and>
     total_value (delta_apply d demo_utxo) = 500 + unat (subsidy_unchecked DEFAULT_MONETARY_POLICY 10)"
    by (simp add: demo_mined_def demo_params_def)
  with d show ?thesis by blast
qed

text \<open>C14. No output is spent twice in a block: the inputs of all its transactions are pairwise
  different, and so are its transactions, so that a block whose last transactions are repeated,
  which has the same Merkle root, does not validate.\<close>

theorem block_spends_once:
  assumes "validate_delta C u b verifier params = Ok (fees, d)"
  shows "distinct (block_spends (bl_transactions b)) \<and> distinct (bl_transactions b)"
  using validate_delta_Ok [OF assms] block_loop_Ok(4,5) [OF _ overlay_new_ok(1)] spends_distinct_transactions by metis

theorem block_spends_once_witness:
  "(\<exists>fees d. validate_delta demo_crypto demo_utxo (demo_mined 10 (replicate 32 2) 2000 [demo_transaction] 300)
     (PV_V1Legacy demo_verifier) demo_params = Ok (fees, d)) \<and>
   distinct (block_spends (bl_transactions (demo_mined 10 (replicate 32 2) 2000 [demo_transaction] 300)))"
  using block_spends_once demo_block_validates by blast

text \<open>C31. A policy with no steward share but a community share passes validation, and yet no
  coinbase is accepted under it at a height before the tail where the community share comes to at least one
  unit: the layout check reads the community output of
  \<open>Coinbase::new\<close> as the steward's, because absent shares have no output.\<close>

theorem community_without_steward_rejects_every_coinbase:
  assumes "mp_validate p = Ok ()" "steward_percent p = 0" "height < tail_height p"
    "100 \<le> unat (subsidy_unchecked p height) * unat (community_percent p)"
  shows "\<exists>alloc. mp_allocation p height fees = Ok alloc \<and> validate_coinbase C cb alloc fixed = Err CH_CoinbaseLayout"
proof -
  have "\<exists>alloc. mp_allocation p height fees = Ok alloc"
    using assms(1) by (cases "tail_height p \<le> height") (simp_all add: mp_allocation_def Let_def)
  then obtain alloc where a: "mp_allocation p height fees = Ok alloc" ..
  note e = allocation_exact [OF a]
  have early: "\<not> tail_height p \<le> height" using assms(3) by simp
  have "100 \<le> unat (al_subsidy alloc) * unat (community_percent p)" using assms(4) e by auto
  then have "0 < unat (al_community alloc)" using e early by (simp add: div_greater_zero_iff)
  moreover have "al_steward alloc = 0" using e assms(2) early by (simp add: unat_eq_0)
  ultimately have "validate_coinbase C cb alloc fixed \<noteq> Ok ()" by (auto simp: validate_coinbase_Ok)
  with a show ?thesis using validate_coinbase_error by blast
qed

definition demo_no_steward :: monetary_policy where
  "demo_no_steward = \<lparr>initial_subsidy = 1000000, tail_height = 1001, tail_subsidy = 1000, steward_percent = 0,
     community_percent = 5\<rparr>"

theorem community_without_steward_rejects_every_coinbase_witness:
  "\<exists>alloc. mp_allocation demo_no_steward 1 0 = Ok alloc \<and>
     validate_coinbase demo_crypto (coinbase_new 1 alloc (replicate 32 9) (np_rewards demo_params)) alloc (np_rewards demo_params)
       = Err CH_CoinbaseLayout"
proof -
  have v: "mp_validate demo_no_steward = Ok ()" by code_simp
  have h: "1 < tail_height demo_no_steward" by (simp add: demo_no_steward_def)
  have "100 \<le> subsidy_unchecked demo_no_steward 1" by code_simp
  then have "100 \<le> unat (subsidy_unchecked demo_no_steward 1)" by (simp add: word_le_nat_alt)
  then have s: "100 \<le> unat (subsidy_unchecked demo_no_steward 1) * unat (community_percent demo_no_steward)"
    by (simp add: demo_no_steward_def)
  have "steward_percent demo_no_steward = 0" by (simp add: demo_no_steward_def)
  from community_without_steward_rejects_every_coinbase [OF v this h s] show ?thesis by (metis outcome.inject(1))
qed

end
