(* ===== verification/CF_Chain.thy ===== *)
theory CF_Chain
  imports CF_Blocks
begin

text \<open>
  The chain state of \<open>crates/cmfd-consensus/src/chain.rs\<close>: creation from network parameters,
  validation of a successor block without changing the state, and the commit of a validated block.
  A method that takes \<open>&mut self\<close> returns the new state with its result; on an error the caller
  keeps the old one.

  \<open>chain_run\<close> is the relation of the states reachable from a fresh chain. The median of the last
  timestamps never falls along a run, which is why the retarget of the next block never meets
  timestamps out of order.
\<close>

section \<open>State\<close>

record chain_state =
  cs_params :: network_params
  cs_utxos :: utxo_set
  cs_history :: "header_work list"
  cs_raw_timestamps :: "u64 list"
  cs_tip :: hash32
  cs_next_height :: u64
  cs_verifier :: pow_verifier

record validated_block =
  vb_params :: network_params
  vb_base_tip :: hash32
  vb_base_next_height :: u64
  vb_base_expected_target :: hash32
  vb_base_median_time_past :: u64
  vb_base_history_len :: nat
  vb_base_timestamp_len :: nat
  vb_delta :: utxo_delta
  vb_fees :: u64
  vb_timestamp :: u64
  vb_effective_timestamp :: u64
  vb_target :: hash32
  vb_next_tip :: hash32
  vb_next_height :: u64

section \<open>Operations\<close>

definition median_timestamp :: "u64 list \<Rightarrow> ('e, u64) outcome" where
  "median_timestamp timestamps =
     (let window = sort (drop (length timestamps - MEDIAN_TIME_WINDOW) timestamps)
      in index_or_panic window (length window div 2))"

definition chain_new :: "crypto \<Rightarrow> network_params \<Rightarrow> pow_verifier \<Rightarrow> (chain_error, chain_state) outcome" where
  "chain_new C params verifier =
     obind (map_err CH_Network (validate_for_bound_verifier C params)) (\<lambda>_.
     if pv_parameters verifier \<noteq> np_pow params then Err CH_PowParameterMismatch
     else Ok \<lparr>cs_params = params, cs_utxos = utxo_default,
              cs_history = [\<lparr>hw_timestamp = np_genesis_timestamp params, hw_target = np_pow_limit params\<rparr>],
              cs_raw_timestamps = [np_genesis_timestamp params], cs_tip = np_genesis_hash params,
              cs_next_height = 1, cs_verifier = verifier\<rparr>)"

definition expected_target :: "chain_state \<Rightarrow> (chain_error, hash32) outcome" where
  "expected_target st = map_err CH_Difficulty (next_work_target (cs_history st) (np_pow_limit (cs_params st)))"

definition median_time_past :: "chain_state \<Rightarrow> ('e, u64) outcome" where
  "median_time_past st = median_timestamp (cs_raw_timestamps st)"

definition validate_transactions_for_next_block ::
  "crypto \<Rightarrow> chain_state \<Rightarrow> transaction list \<Rightarrow> (chain_error, set_validation) outcome" where
  "validate_transactions_for_next_block C st transactions =
     obind (validate_transaction_set_resources transactions) (\<lambda>validation.
     obind (ofold (\<lambda>_ t. check_transaction_identity (np_network_id (cs_params st)) t) () transactions) (\<lambda>_.
     obind (ofold (\<lambda>_ t. obind (map_err (\<lambda>_. CH_BlockEncoding) (encode_transaction C t)) (\<lambda>_. Ok ())) () transactions) (\<lambda>_.
     obind (ofold (apply_and_sum C (cs_next_height st) (np_network_id (cs_params st)))
              (sv_total_burned_fees validation, overlay_new (cs_utxos st), {}) transactions) (\<lambda>(fees, _, _).
     Ok (validation\<lparr>sv_total_burned_fees := fees\<rparr>)))))"

definition validate_block ::
  "crypto \<Rightarrow> chain_state \<Rightarrow> block \<Rightarrow> block_validation_context \<Rightarrow> (chain_error, validated_block) outcome" where
  "validate_block C st b context =
     (if bl_version b \<noteq> BLOCK_VERSION then Err CH_UnsupportedBlockVersion
      else if bc_network_id (bl_challenge b) \<noteq> np_network_id (cs_params st) then Err CH_WrongNetwork
      else if bc_height (bl_challenge b) \<noteq> cs_next_height st
        then Err (CH_UnexpectedHeight (cs_next_height st) (bc_height (bl_challenge b)))
      else
      obind (ok_or CH_HeightExhausted (checked_add (cs_next_height st) 1)) (\<lambda>next_height.
      obind (ok_or CH_HeightExhausted (checked_add (bc_height (bl_challenge b)) COINBASE_MATURITY)) (\<lambda>_.
      if bc_previous_block (bl_challenge b) \<noteq> cs_tip st then Err CH_PreviousBlock
      else
      obind (median_time_past st) (\<lambda>median.
      if bc_timestamp (bl_challenge b) \<le> median then Err CH_TimestampNotAfterMedian
      else
      obind (ok_or CH_InvalidValidationTime
               (checked_add (vc_now_unix_seconds context) (np_max_future_offset_secs (cs_params st)))) (\<lambda>maximum_timestamp.
      if maximum_timestamp < bc_timestamp (bl_challenge b) then Err CH_TimestampTooFarInFuture
      else
      obind (expected_target st) (\<lambda>target.
      if bc_target (bl_challenge b) \<noteq> target then Err CH_UnexpectedTarget
      else
      obind (validate_delta C (cs_utxos st) b (cs_verifier st) (cs_params st)) (\<lambda>(fees, delta).
      let window_start = length (cs_raw_timestamps st) - (MEDIAN_TIME_WINDOW - 1);
          timestamp_window = drop window_start (cs_raw_timestamps st) @ [bc_timestamp (bl_challenge b)] in
      obind (median_timestamp timestamp_window) (\<lambda>effective_timestamp.
      Ok \<lparr>vb_params = cs_params st, vb_base_tip = cs_tip st, vb_base_next_height = cs_next_height st,
          vb_base_expected_target = target, vb_base_median_time_past = median,
          vb_base_history_len = length (cs_history st), vb_base_timestamp_len = length (cs_raw_timestamps st),
          vb_delta = delta, vb_fees = fees, vb_timestamp = bc_timestamp (bl_challenge b),
          vb_effective_timestamp = effective_timestamp, vb_target = bc_target (bl_challenge b),
          vb_next_tip = block_id C b, vb_next_height = next_height\<rparr>))))))))"

definition commit_validated :: "chain_state \<Rightarrow> validated_block \<Rightarrow> (chain_error, u64 \<times> chain_state) outcome" where
  "commit_validated st v =
     (if cs_params st \<noteq> vb_params v \<or> cs_tip st \<noteq> vb_base_tip v \<or> cs_next_height st \<noteq> vb_base_next_height v \<or>
         length (cs_history st) \<noteq> vb_base_history_len v \<or> length (cs_raw_timestamps st) \<noteq> vb_base_timestamp_len v
      then Err CH_StaleValidatedBlock
      else
      obind (median_time_past st) (\<lambda>median.
      if median \<noteq> vb_base_median_time_past v \<or> expected_target st \<noteq> Ok (vb_base_expected_target v) \<or>
         \<not> delta_matches (vb_delta v) (cs_utxos st)
      then Err CH_StaleValidatedBlock
      else
        Ok (vb_fees v,
          st\<lparr>cs_utxos := delta_apply (vb_delta v) (cs_utxos st),
             cs_raw_timestamps := cs_raw_timestamps st @ [vb_timestamp v],
             cs_history := cs_history st @ [\<lparr>hw_timestamp = vb_effective_timestamp v, hw_target = vb_target v\<rparr>],
             cs_tip := vb_next_tip v, cs_next_height := vb_next_height v\<rparr>)))"

definition validate_and_apply ::
  "crypto \<Rightarrow> chain_state \<Rightarrow> block \<Rightarrow> block_validation_context \<Rightarrow> (chain_error, u64 \<times> chain_state) outcome" where
  "validate_and_apply C st b context =
     obind (validate_block C st b context) (\<lambda>validated. commit_validated st validated)"

section \<open>Medians\<close>

lemma sorted_filter_less: "sorted ys \<Longrightarrow> filter (\<lambda>x. x < (m :: u64)) ys = takeWhile (\<lambda>x. x < m) ys"
proof (induction ys)
  case (Cons y ys)
  then show ?case
  proof (cases "y < m")
    case False
    with Cons.prems have "\<forall>x\<in>set ys. \<not> x < m" by auto
    with False show ?thesis by (simp add: filter_empty_conv)
  qed simp
qed simp

text \<open>The element at an index of a sorted list is at least \<open>m\<close> exactly when no more elements than
  that index lie below \<open>m\<close>.\<close>

lemma sort_nth_ge_iff:
  assumes "k < length xs"
  shows "m \<le> sort xs ! k \<longleftrightarrow> length (filter (\<lambda>x. x < (m :: u64)) xs) \<le> k"
proof -
  have "length (filter (\<lambda>x. x < m) xs) = length (filter (\<lambda>x. x < m) (sort xs))"
    by (metis filter_sort length_sort)
  also have "\<dots> = length (takeWhile (\<lambda>x. x < m) (sort xs))"
    by (simp add: sorted_filter_less)
  finally have len: "length (filter (\<lambda>x. x < m) xs) = length (takeWhile (\<lambda>x. x < m) (sort xs))" .
  show ?thesis
  proof
    assume "m \<le> sort xs ! k"
    moreover have "sort xs ! k < m" if "k < length (takeWhile (\<lambda>x. x < m) (sort xs))"
      using nth_mem [OF that] set_takeWhileD [of _ "\<lambda>x. x < m" "sort xs"] takeWhile_nth [OF that] by auto
    ultimately show "length (filter (\<lambda>x. x < m) xs) \<le> k" unfolding len by (meson not_le)
  next
    assume "length (filter (\<lambda>x. x < m) xs) \<le> k"
    then have "length (takeWhile (\<lambda>x. x < m) (sort xs)) \<le> k" unfolding len .
    moreover from this assms have "m \<le> sort xs ! length (takeWhile (\<lambda>x. x < m) (sort xs))"
      using nth_length_takeWhile [of "\<lambda>x. x < m" "sort xs"] by (simp add: not_less)
    ultimately show "m \<le> sort xs ! k"
      using sorted_nth_mono [OF sorted_sort [of xs], of "length (takeWhile (\<lambda>x. x < m) (sort xs))" k] assms
      by (simp add: order_trans)
  qed
qed

definition time_window :: "u64 list \<Rightarrow> u64 list" where
  "time_window ts = drop (length ts - MEDIAN_TIME_WINDOW) ts"

lemma median_timestamp_Ok:
  assumes "ts \<noteq> []"
  shows "median_timestamp ts = Ok (sort (time_window ts) ! (length (time_window ts) div 2))"
    "length (time_window ts) div 2 < length (time_window ts)"
proof -
  show "length (time_window ts) div 2 < length (time_window ts)"
    using assms by (cases "length ts") (auto simp: time_window_def MEDIAN_TIME_WINDOW_def)
  then show "median_timestamp ts = Ok (sort (time_window ts) ! (length (time_window ts) div 2))"
    by (simp add: median_timestamp_def Let_def index_or_panic_def time_window_def)
qed

text \<open>A timestamp after the median does not lower the median.\<close>

lemma median_mono:
  assumes "ts \<noteq> []" "median_timestamp ts = (Ok m :: (chain_error, u64) outcome)" "m < t"
  shows "\<exists>m'. median_timestamp (ts @ [t]) = (Ok m' :: (chain_error, u64) outcome) \<and> m \<le> m'"
proof -
  let ?w = "time_window ts" and ?w' = "time_window (ts @ [t])"
  let ?low = "\<lambda>x :: u64. x < m"
  note med = median_timestamp_Ok [OF assms(1)] and med' = median_timestamp_Ok [of "ts @ [t]"]
  have m: "m = sort ?w ! (length ?w div 2)" using assms(2) by (simp add: med(1))
  then have "length (filter ?low ?w) \<le> length ?w div 2"
    using sort_nth_ge_iff [OF med(2), of m] by simp
  moreover have "length (filter ?low ?w') \<le> length (filter ?low ?w)"
  proof -
    have "?w' = drop (length ts + 1 - 11 - (length ts - 11)) ?w @ [t]"
      by (cases "length ts < 11") (auto simp: time_window_def MEDIAN_TIME_WINDOW_def intro!: arg_cong [of _ _ "\<lambda>n. drop n ts"])
    then have "filter ?low ?w' = filter ?low (drop (length ts + 1 - 11 - (length ts - 11)) ?w)"
      using assms(3) by simp
    then show ?thesis by (metis append_take_drop_id filter_append length_append le_add2)
  qed
  moreover have "length ?w div 2 \<le> length ?w' div 2"
    by (rule div_le_mono) (simp add: time_window_def MEDIAN_TIME_WINDOW_def)
  ultimately have "m \<le> sort ?w' ! (length ?w' div 2)"
    using sort_nth_ge_iff [OF med'(2)] by simp
  then show ?thesis by (simp add: med'(1))
qed

text \<open>The window that \<open>validate_block\<close> builds has the median of the extended list.\<close>

lemma effective_window:
  "median_timestamp (drop (length ts - (MEDIAN_TIME_WINDOW - 1)) ts @ [t]) = median_timestamp (ts @ [t])"
  by (simp add: median_timestamp_def MEDIAN_TIME_WINDOW_def Let_def)

section \<open>Runs\<close>

text \<open>The blocks applied so far with the fees they burned, and the state they lead to.\<close>

inductive chain_run :: "crypto \<Rightarrow> network_params \<Rightarrow> pow_verifier \<Rightarrow> (block \<times> u64) list \<Rightarrow> chain_state \<Rightarrow> bool"
  for C params verifier where
    genesis: "chain_new C params verifier = Ok st \<Longrightarrow> chain_run C params verifier [] st"
  | extend: "\<lbrakk>chain_run C params verifier bs st; validate_and_apply C st b context = Ok (fees, st')\<rbrakk>
      \<Longrightarrow> chain_run C params verifier (bs @ [(b, fees)]) st'"

text \<open>The invariant of a chain state.\<close>

definition wf_chain :: "chain_state \<Rightarrow> bool" where
  "wf_chain st \<longleftrightarrow> cs_history st \<noteq> [] \<and> length (cs_raw_timestamps st) = length (cs_history st) \<and>
     wf_history (cs_history st) \<and> targets_nonzero (cs_history st) \<and> timestamps_ordered (cs_history st) \<and>
     median_timestamp (cs_raw_timestamps st) = (Ok (hw_timestamp (last (cs_history st))) :: (chain_error, u64) outcome) \<and>
     pv_parameters (cs_verifier st) = np_pow (cs_params st) \<and> ledger_inv (cs_utxos st)"

definition wf_limit :: "network_params \<Rightarrow> bool" where
  "wf_limit params \<longleftrightarrow> length (np_pow_limit params) = 32"

lemma chain_new_Ok:
  assumes "chain_new C params verifier = Ok st"
  shows "validate_without_pow C params = Ok ()" "pv_parameters verifier = np_pow params"
    "st = \<lparr>cs_params = params, cs_utxos = utxo_default,
       cs_history = [\<lparr>hw_timestamp = np_genesis_timestamp params, hw_target = np_pow_limit params\<rparr>],
       cs_raw_timestamps = [np_genesis_timestamp params], cs_tip = np_genesis_hash params, cs_next_height = 1,
       cs_verifier = verifier\<rparr>"
  using assms by (auto simp: chain_new_def validate_for_bound_verifier_def)

lemma limit_nonzero:
  "validate_without_pow C params = Ok () \<Longrightarrow> wf_limit params \<Longrightarrow> be_nat (np_pow_limit params) \<noteq> 0"
  by (simp add: validate_without_pow_Ok wf_limit_def be_nat_zero_iff)

lemma chain_new_wf: "chain_new C params verifier = Ok st \<Longrightarrow> wf_limit params \<Longrightarrow> wf_chain st"
  using chain_new_Ok [of C params verifier st] limit_nonzero [of C params]
  by (simp add: wf_chain_def wf_history_def targets_nonzero_def wf_limit_def median_timestamp_def index_or_panic_def
      MEDIAN_TIME_WINDOW_def ledger_inv_default)

text \<open>The target of the next block always exists.\<close>

lemma expected_target_total:
  assumes "wf_chain st" "wf_limit (cs_params st)" "be_nat (np_pow_limit (cs_params st)) \<noteq> 0"
  shows "\<exists>t. expected_target st = Ok t \<and> length t = 32 \<and> 1 \<le> be_nat t \<and> be_nat t \<le> be_nat (np_pow_limit (cs_params st))"
proof -
  let ?h = "cs_history st" and ?l = "np_pow_limit (cs_params st)"
  have h: "wf_history ?h" "?h \<noteq> []" "timestamps_ordered (dgw_window ?h)" "length ?l = 32"
    using assms by (simp_all add: wf_chain_def wf_limit_def ordered_window)
  have nz: "targets_nonzero (dgw_window ?h)"
    using assms(1) by (auto simp: wf_chain_def targets_nonzero_def dgw_window_def list_all_iff dest: in_set_dropD)
  obtain t where t: "next_work_target ?h ?l = Ok t" "length t = 32" "be_nat t = dgw_spec (dgw_window ?h) (be_nat ?l)"
    using next_work_target_exact [OF h(1,4,2) assms(3) nz h(3)] by blast
  moreover have "dgw_window ?h \<noteq> []" using h(2) by simp
  ultimately show ?thesis
    using dgw_spec_limit [OF _ _ nz, of "be_nat ?l"] assms(3) by (simp add: expected_target_def)
qed

lemma validate_block_Ok:
  assumes "validate_block C st b context = Ok v"
  obtains median fees delta effective where
    "bl_version b = BLOCK_VERSION" "bc_network_id (bl_challenge b) = np_network_id (cs_params st)"
    "bc_height (bl_challenge b) = cs_next_height st" "unat (cs_next_height st) + 1 < 2 ^ 64"
    "bc_previous_block (bl_challenge b) = cs_tip st"
    "median_time_past st = (Ok median :: (chain_error, u64) outcome)" "median < bc_timestamp (bl_challenge b)"
    "expected_target st = Ok (bc_target (bl_challenge b))"
    "validate_delta C (cs_utxos st) b (cs_verifier st) (cs_params st) = Ok (fees, delta)"
    "median_timestamp (cs_raw_timestamps st @ [bc_timestamp (bl_challenge b)]) = (Ok effective :: (chain_error, u64) outcome)"
    "v = \<lparr>vb_params = cs_params st, vb_base_tip = cs_tip st, vb_base_next_height = cs_next_height st,
          vb_base_expected_target = bc_target (bl_challenge b), vb_base_median_time_past = median,
          vb_base_history_len = length (cs_history st), vb_base_timestamp_len = length (cs_raw_timestamps st),
          vb_delta = delta, vb_fees = fees, vb_timestamp = bc_timestamp (bl_challenge b),
          vb_effective_timestamp = effective, vb_target = bc_target (bl_challenge b),
          vb_next_tip = block_id C b, vb_next_height = cs_next_height st + 1\<rparr>"
  using assms unfolding validate_block_def effective_window Let_def
  by (auto simp: not_le checked_add_def split: if_splits)

text \<open>A validated block commits on the state it was validated against.\<close>

definition chain_after :: "crypto \<Rightarrow> chain_state \<Rightarrow> block \<Rightarrow> utxo_delta \<Rightarrow> u64 \<Rightarrow> chain_state" where
  "chain_after C st b delta effective =
     st\<lparr>cs_utxos := delta_apply delta (cs_utxos st),
        cs_raw_timestamps := cs_raw_timestamps st @ [bc_timestamp (bl_challenge b)],
        cs_history := cs_history st @ [\<lparr>hw_timestamp = effective, hw_target = bc_target (bl_challenge b)\<rparr>],
        cs_tip := block_id C b, cs_next_height := cs_next_height st + 1\<rparr>"

lemma commit_after_validate:
  assumes "validate_block C st b context = Ok v"
  shows "commit_validated st v = Ok (vb_fees v, chain_after C st b (vb_delta v) (vb_effective_timestamp v))"
  using assms
proof (rule validate_block_Ok)
  fix median fees delta effective
  assume "validate_delta C (cs_utxos st) b (cs_verifier st) (cs_params st) = Ok (fees, delta)"
  note m = block_delta(2) [OF this]
  assume "median_time_past st = (Ok median :: (chain_error, u64) outcome)"
    "expected_target st = Ok (bc_target (bl_challenge b))"
    "v = \<lparr>vb_params = cs_params st, vb_base_tip = cs_tip st, vb_base_next_height = cs_next_height st,
          vb_base_expected_target = bc_target (bl_challenge b), vb_base_median_time_past = median,
          vb_base_history_len = length (cs_history st), vb_base_timestamp_len = length (cs_raw_timestamps st),
          vb_delta = delta, vb_fees = fees, vb_timestamp = bc_timestamp (bl_challenge b),
          vb_effective_timestamp = effective, vb_target = bc_target (bl_challenge b),
          vb_next_tip = block_id C b, vb_next_height = cs_next_height st + 1\<rparr>"
  with m show ?thesis by (simp add: commit_validated_def chain_after_def)
qed

lemma validate_and_apply_Ok:
  assumes "validate_and_apply C st b context = Ok (fees, st')"
  obtains v where "validate_block C st b context = Ok v" "fees = vb_fees v"
    "st' = chain_after C st b (vb_delta v) (vb_effective_timestamp v)"
  using assms commit_after_validate by (auto simp: validate_and_apply_def)

lemma chain_after_simps [simp]:
  "cs_params (chain_after C st b d e) = cs_params st" "cs_verifier (chain_after C st b d e) = cs_verifier st"
  "cs_tip (chain_after C st b d e) = block_id C b" "cs_next_height (chain_after C st b d e) = cs_next_height st + 1"
  "cs_utxos (chain_after C st b d e) = delta_apply d (cs_utxos st)"
  "cs_raw_timestamps (chain_after C st b d e) = cs_raw_timestamps st @ [bc_timestamp (bl_challenge b)]"
  "cs_history (chain_after C st b d e) = cs_history st @ [\<lparr>hw_timestamp = e, hw_target = bc_target (bl_challenge b)\<rparr>]"
  by (simp_all add: chain_after_def)

lemma timestamps_ordered_snoc:
  "timestamps_ordered hs \<Longrightarrow> (hs \<noteq> [] \<Longrightarrow> hw_timestamp (last hs) \<le> hw_timestamp h) \<Longrightarrow> timestamps_ordered (hs @ [h])"
  by (induction hs rule: timestamps_ordered.induct) (auto split: if_splits)

lemma wf_chain_step:
  assumes "wf_chain st" "wf_limit (cs_params st)" "be_nat (np_pow_limit (cs_params st)) \<noteq> 0"
    "validate_block C st b context = Ok v"
  shows "wf_chain (chain_after C st b (vb_delta v) (vb_effective_timestamp v))"
  using assms(4)
proof (rule validate_block_Ok)
  fix median fees delta effective
  assume med: "median_time_past st = (Ok median :: (chain_error, u64) outcome)" "median < bc_timestamp (bl_challenge b)"
    and tgt: "expected_target st = Ok (bc_target (bl_challenge b))"
    and del: "validate_delta C (cs_utxos st) b (cs_verifier st) (cs_params st) = Ok (fees, delta)"
    and eff: "median_timestamp (cs_raw_timestamps st @ [bc_timestamp (bl_challenge b)]) = (Ok effective :: (chain_error, u64) outcome)"
    and v: "v = \<lparr>vb_params = cs_params st, vb_base_tip = cs_tip st, vb_base_next_height = cs_next_height st,
          vb_base_expected_target = bc_target (bl_challenge b), vb_base_median_time_past = median,
          vb_base_history_len = length (cs_history st), vb_base_timestamp_len = length (cs_raw_timestamps st),
          vb_delta = delta, vb_fees = fees, vb_timestamp = bc_timestamp (bl_challenge b),
          vb_effective_timestamp = effective, vb_target = bc_target (bl_challenge b),
          vb_next_tip = block_id C b, vb_next_height = cs_next_height st + 1\<rparr>"
  have ne: "cs_raw_timestamps st \<noteq> []" "cs_history st \<noteq> []" using assms(1) by (auto simp: wf_chain_def)
  have "median \<le> effective"
    using median_mono [OF ne(1) med(1) [unfolded median_time_past_def] med(2)] eff by simp
  moreover have "median = hw_timestamp (last (cs_history st))"
    using assms(1) med(1) by (simp add: wf_chain_def median_time_past_def)
  ultimately have "timestamps_ordered (cs_history st @ [\<lparr>hw_timestamp = effective, hw_target = bc_target (bl_challenge b)\<rparr>])"
    using assms(1) by (intro timestamps_ordered_snoc) (auto simp: wf_chain_def)
  moreover have "length (bc_target (bl_challenge b)) = 32" "be_nat (bc_target (bl_challenge b)) \<noteq> 0"
    using expected_target_total [OF assms(1-3)] tgt by auto
  moreover have "ledger_inv (delta_apply delta (cs_utxos st))"
    using block_delta(3) [OF del] assms(1) by (simp add: wf_chain_def)
  ultimately show ?thesis
    using assms(1) eff by (simp add: wf_chain_def v wf_history_def targets_nonzero_def)
qed

lemma chain_run_wf:
  assumes "chain_run C params verifier bs st" "wf_limit params"
  shows "wf_chain st" "cs_params st = params" "cs_verifier st = verifier" "be_nat (np_pow_limit params) \<noteq> 0"
    "unat (cs_next_height st) = Suc (length bs)"
proof -
  have "wf_chain st \<and> cs_params st = params \<and> cs_verifier st = verifier \<and> be_nat (np_pow_limit params) \<noteq> 0 \<and>
    unat (cs_next_height st) = Suc (length bs)"
    using assms
  proof (induction rule: chain_run.induct)
    case (genesis st)
    then show ?case
      using chain_new_wf [OF genesis] chain_new_Ok [OF genesis.hyps] limit_nonzero by simp
  next
    case (extend bs st b ctx fees st')
    then have IH: "wf_chain st" "cs_params st = params" "cs_verifier st = verifier" "be_nat (np_pow_limit params) \<noteq> 0"
      "unat (cs_next_height st) = Suc (length bs)" by simp_all
    from extend.hyps(2) obtain v where v: "validate_block C st b ctx = Ok v"
      and st': "st' = chain_after C st b (vb_delta v) (vb_effective_timestamp v)" by (rule validate_and_apply_Ok)
    from v have "unat (cs_next_height st) + 1 < 2 ^ 64" by (rule validate_block_Ok)
    then have "unat (cs_next_height st + 1) = Suc (Suc (length bs))"
      using IH(5) by (simp add: unat_word_ariths)
    moreover have "wf_chain st'"
      unfolding st' using IH extend.prems by (intro wf_chain_step [OF _ _ _ v]) simp_all
    ultimately show ?case using IH by (simp add: st')
  qed
  then show "wf_chain st" "cs_params st = params" "cs_verifier st = verifier" "be_nat (np_pow_limit params) \<noteq> 0"
    "unat (cs_next_height st) = Suc (length bs)" by blast+
qed

lemma chain_run_supply:
  assumes "chain_run C params verifier bs st" "wf_limit params"
  shows "total_value (cs_utxos st) + sum_list (map (unat \<circ> snd) bs) =
    (\<Sum>h = 1..length bs. unat (subsidy_unchecked (np_monetary_policy params) (word_of_nat h)))"
  using assms
proof (induction rule: chain_run.induct)
  case (genesis st)
  then show ?case using chain_new_Ok(3) [OF genesis.hyps] by (simp add: total_value_def utxo_default_def)
next
  case (extend bs st b ctx fees st')
  note run = chain_run_wf [OF extend.hyps(1) extend.prems]
  from extend.hyps(2) obtain v where v: "validate_block C st b ctx = Ok v" "fees = vb_fees v"
    "st' = chain_after C st b (vb_delta v) (vb_effective_timestamp v)" by (rule validate_and_apply_Ok)
  from v(1) have "total_value (delta_apply (vb_delta v) (cs_utxos st)) + unat (vb_fees v) =
      total_value (cs_utxos st) + unat (subsidy_unchecked (np_monetary_policy params) (cs_next_height st))"
    by (rule validate_block_Ok) (auto dest!: block_delta(1) simp: run)
  moreover have "cs_next_height st = word_of_nat (Suc (length bs))"
    unfolding run(5) [symmetric] by simp
  ultimately show ?case using extend.IH [OF extend.prems] by (simp add: v)
qed

section \<open>Templates\<close>

text \<open>A block made of transactions that were validated for the next block: the coinbase pays the
  allocation of the validated fees, the header names the state, and the proof verifies.\<close>

definition template_block ::
  "crypto \<Rightarrow> chain_state \<Rightarrow> transaction list \<Rightarrow> u64 \<Rightarrow> block_validation_context \<Rightarrow> allocation \<Rightarrow> hash32 \<Rightarrow> block \<Rightarrow> bool" where
  "template_block C st txs fees context alloc miner b \<longleftrightarrow>
     mp_allocation (np_monetary_policy (cs_params st)) (cs_next_height st) fees = Ok alloc \<and>
     al_miner alloc \<noteq> 0 \<and> (al_steward alloc = 0 \<longrightarrow> al_community alloc = 0) \<and> key_from_bytes C miner \<and>
     bl_version b = BLOCK_VERSION \<and> bl_transactions b = txs \<and>
     bl_coinbase b = coinbase_new (cs_next_height st) alloc miner (np_rewards (cs_params st)) \<and>
     bc_network_id (bl_challenge b) = np_network_id (cs_params st) \<and> bc_height (bl_challenge b) = cs_next_height st \<and>
     bc_previous_block (bl_challenge b) = cs_tip st \<and> expected_target st = Ok (bc_target (bl_challenge b)) \<and>
     bc_transaction_root (bl_challenge b) = transaction_root C b \<and> block_sizes b \<and>
     hw_timestamp (last (cs_history st)) < bc_timestamp (bl_challenge b) \<and>
     unat (vc_now_unix_seconds context) + unat (np_max_future_offset_secs (cs_params st)) < 2 ^ 64 \<and>
     bc_timestamp (bl_challenge b) \<le> vc_now_unix_seconds context + np_max_future_offset_secs (cs_params st) \<and>
     unat (cs_next_height st) + unat COINBASE_MATURITY < 2 ^ 64 \<and>
     pow_verify C (cs_verifier st) (bl_challenge b) (bl_proof b) = Ok () \<and>
     fresh_txid (coinbase_outpoint_id C b) (cs_utxos st) \<and> coinbase_outpoint_id C b \<notin> txid C ` set txs"

lemma direct_inserts_fresh:
  "fresh_txid tid u \<Longrightarrow> tid \<notin> (op_txid \<circ> fst) ` set xs \<Longrightarrow> fresh_txid tid (direct_inserts xs u)"
  by (induction xs arbitrary: u) (auto simp: direct_inserts_def fresh_txid_def direct_insert_get)

lemma direct_drops_fresh: "fresh_txid tid u \<Longrightarrow> fresh_txid tid (fold direct_drop ks u)"
  by (induction ks arbitrary: u) (auto simp: fresh_txid_def direct_drop_get)

lemma tx_effect_fresh:
  assumes "tx_effect C t height net u u' fee" "fresh_txid tid u" "tid \<noteq> txid C t"
  shows "fresh_txid tid u'"
  using assms(1)
proof cases
  case (key_spend v)
  then show ?thesis
    using direct_drops_fresh [OF assms(2)] assms(3) by (auto intro!: direct_inserts_fresh simp: tx_points_def)
next
  case (channel_close i out c burn v)
  then have "fresh_txid tid v" using assms(2) by (auto simp: fresh_txid_def direct_close_def utxo_get_def)
  with channel_close assms(3) show ?thesis by (auto intro!: direct_inserts_fresh simp: tx_points_def)
qed

lemma block_loop_fresh:
  assumes "ofold (apply_and_sum C height net) (fees, ov, S) ts = Ok (fees', ov', S')" "ov_ok ov"
    "fresh_txid tid (ov_commit ov)" "tid \<notin> txid C ` set ts"
  shows "fresh_txid tid (ov_commit ov')"
  using assms
proof (induction ts arbitrary: fees ov S)
  case (Cons t ts)
  then obtain fees1 ov1 S1 where hd: "apply_and_sum C height net (fees, ov, S) t = Ok (fees1, ov1, S1)"
    and tl: "ofold (apply_and_sum C height net) (fees1, ov1, S1) ts = Ok (fees', ov', S')" by auto
  from hd obtain fee where app: "apply_transaction C t height net (ov, S) = Ok (fee, ov1, S1)" by (rule apply_and_sum_Ok)
  note a = apply_transaction_Ok [OF Cons.prems(2) app]
  from Cons.IH [OF tl a(1) tx_effect_fresh [OF a(5) Cons.prems(3)]] Cons.prems(4) show ?case by auto
qed simp

lemma unit_loop_Ok: "ofold (\<lambda>_. f) () xs = Ok () \<longleftrightarrow> list_all (\<lambda>x. f x = Ok ()) xs"
  by (induction xs) auto

lemma validate_transactions_Ok:
  assumes "validate_transactions_for_next_block C st txs = Ok sv"
  obtains cand S where "length txs \<le> MAX_BLOCK_TRANSACTIONS" "validate_transaction_resources txs = Ok (sv\<lparr>sv_total_burned_fees := 0\<rparr>)"
    "list_all (\<lambda>t. check_transaction_identity (np_network_id (cs_params st)) t = Ok ()) txs"
    "list_all (\<lambda>t. tx_shape (np_network_id (cs_params st)) t) txs"
    "ofold (apply_and_sum C (cs_next_height st) (np_network_id (cs_params st))) (0, overlay_new (cs_utxos st), {}) txs =
       Ok (sv_total_burned_fees sv, cand, S)"
proof -
  from assms obtain v0 fees cand S where
    res: "length txs \<le> MAX_BLOCK_TRANSACTIONS" "validate_transaction_resources txs = Ok v0"
    and ids: "list_all (\<lambda>t. check_transaction_identity (np_network_id (cs_params st)) t = Ok ()) txs"
    and enc: "list_all (\<lambda>t. \<exists>bs. encode_transaction C t = Ok bs) txs"
    and loop: "ofold (apply_and_sum C (cs_next_height st) (np_network_id (cs_params st)))
       (sv_total_burned_fees v0, overlay_new (cs_utxos st), {}) txs = Ok (fees, cand, S)"
    and sv: "sv = v0\<lparr>sv_total_burned_fees := fees\<rparr>"
    by (auto simp: validate_transactions_for_next_block_def validate_transaction_set_resources_def unit_loop_Ok not_less)
  have v0: "sv_total_burned_fees v0 = 0"
    using res validate_transaction_resources_Ok [of txs v0] by (simp add: wire_limits)
  have "list_all (\<lambda>t. tx_shape (np_network_id (cs_params st)) t) txs"
    using ids enc by (auto simp: list_all_iff encode_transaction_Ok check_transaction_identity_def)
  moreover have "v0 = sv\<lparr>sv_total_burned_fees := 0\<rparr>" using v0 by (simp add: sv)
  ultimately show thesis using that res ids loop v0 by (simp add: sv)
qed

lemma validate_delta_succeeds:
  assumes "block_shape b" "block_sizes b" "bl_version b = BLOCK_VERSION" "bc_network_id (bl_challenge b) = np_network_id params"
    "list_all (\<lambda>t. check_transaction_identity (np_network_id params) t = Ok ()) (bl_transactions b)"
    "bc_transaction_root (bl_challenge b) = transaction_root C b"
    "pow_verify C verifier (bl_challenge b) (bl_proof b) = Ok ()"
    and loop: "ofold (apply_and_sum C (bc_height (bl_challenge b)) (np_network_id params)) (0, overlay_new u, {}) (bl_transactions b) =
       Ok (fees, cand, S)"
    and cb: "mp_allocation (np_monetary_policy params) (bc_height (bl_challenge b)) fees = Ok alloc"
      "bl_coinbase b = coinbase_new (bc_height (bl_challenge b)) alloc miner (np_rewards params)" "key_from_bytes C miner"
      "al_miner alloc \<noteq> 0" "al_steward alloc = 0 \<longrightarrow> al_community alloc = 0"
    and fresh: "fresh_txid (coinbase_outpoint_id C b) u" "coinbase_outpoint_id C b \<notin> txid C ` set (bl_transactions b)"
  shows "\<exists>d. validate_delta C u b verifier params = Ok (fees, d)"
proof -
  have enc: "\<exists>bs. encode_block C b = Ok bs" using assms(1,2) by (simp add: encode_block_Ok)
  have ids: "ofold (\<lambda>_ t. check_transaction_identity (np_network_id params) t) () (bl_transactions b) = Ok ()"
    using assms(5) by (simp add: unit_loop_Ok)
  have res: "validate_block_resources b = Ok ()" using assms(1) by (simp add: block_shape_resources)
  have h: "cb_height (bl_coinbase b) = bc_height (bl_challenge b)" by (simp add: cb(2) coinbase_new_def)
  have coin: "validate_coinbase C (bl_coinbase b) alloc (np_rewards params) = Ok ()"
    unfolding validate_coinbase_Ok h using cb by auto
  have "\<exists>ov. insert_outputs (coinbase_outpoint_id C b) (cb_outputs (bl_coinbase b)) cand = Ok ov"
  proof (rule insert_outputs_succeeds)
    show "ov_ok cand" using block_loop_Ok(1) [OF loop] by simp
    show "list_all (\<lambda>out. to_value out \<noteq> 0 \<and> channel_of out = None) (cb_outputs (bl_coinbase b))"
      using cb by (auto simp: coinbase_new_def channel_of_def)
    show "fresh_txid (coinbase_outpoint_id C b) (ov_commit cand)"
      using block_loop_fresh [OF loop] fresh by simp
    show "length (cb_outputs (bl_coinbase b)) < 2 ^ 32" using cb(2) by (simp add: coinbase_new_def)
  qed
  with enc show ?thesis
    using assms(3,4,6,7) loop cb(1) h ids res coin by (auto simp: validate_delta_def)
qed

lemma validate_block_succeeds:
  assumes "wf_chain st" "bl_version b = BLOCK_VERSION" "bc_network_id (bl_challenge b) = np_network_id (cs_params st)"
    "bc_height (bl_challenge b) = cs_next_height st" "unat (cs_next_height st) + unat COINBASE_MATURITY < 2 ^ 64"
    "bc_previous_block (bl_challenge b) = cs_tip st" "hw_timestamp (last (cs_history st)) < bc_timestamp (bl_challenge b)"
    "unat (vc_now_unix_seconds ctx) + unat (np_max_future_offset_secs (cs_params st)) < 2 ^ 64"
    "bc_timestamp (bl_challenge b) \<le> vc_now_unix_seconds ctx + np_max_future_offset_secs (cs_params st)"
    "expected_target st = Ok (bc_target (bl_challenge b))"
    "validate_delta C (cs_utxos st) b (cs_verifier st) (cs_params st) = Ok (fees, d)"
  shows "\<exists>v. validate_block C st b ctx = Ok v \<and> vb_fees v = fees"
proof -
  have med: "median_time_past st = (Ok (hw_timestamp (last (cs_history st))) :: (chain_error, u64) outcome)"
    using assms(1) by (simp add: wf_chain_def median_time_past_def)
  have "\<exists>e. median_timestamp (cs_raw_timestamps st @ [bc_timestamp (bl_challenge b)]) = (Ok e :: (chain_error, u64) outcome)"
    using median_timestamp_Ok(1) by blast
  moreover have "unat (cs_next_height st) + 1 < 2 ^ 64" using assms(5) by (simp add: COINBASE_MATURITY_def)
  ultimately show ?thesis
    unfolding validate_block_def effective_window Let_def using assms med by (auto simp: checked_add_def)
qed

section \<open>A first block\<close>

definition demo_genesis :: chain_state where
  "demo_genesis = \<lparr>cs_params = demo_params, cs_utxos = utxo_default,
     cs_history = [\<lparr>hw_timestamp = 1000, hw_target = replicate 32 255\<rparr>], cs_raw_timestamps = [1000],
     cs_tip = replicate 32 2, cs_next_height = 1, cs_verifier = PV_V1Legacy demo_verifier\<rparr>"

definition demo_first :: block where
  "demo_first = demo_mined 1 (replicate 32 2) 2000 [] 0"

definition demo_context :: block_validation_context where
  "demo_context = \<lparr>vc_now_unix_seconds = 2000\<rparr>"

lemma demo_chain_new: "chain_new demo_crypto demo_params (PV_V1Legacy demo_verifier) = Ok demo_genesis"
  using demo_params_valid
  by (simp add: chain_new_def validate_for_bound_verifier_def demo_genesis_def pv_parameters_def)
    (simp add: demo_params_def)

lemma demo_wf_limit: "wf_limit demo_params"
  by (simp add: wf_limit_def demo_params_def)

lemma demo_expected: "expected_target demo_genesis = Ok (replicate 32 255)"
proof -
  let ?h = "cs_history demo_genesis" and ?l = "replicate 32 255 :: hash32"
  have w: "dgw_window ?h = ?h" "?h \<noteq> []" "wf_history ?h" "timestamps_ordered ?h"
    by (simp_all add: dgw_window_def demo_genesis_def DGW_WINDOW_def wf_history_def)
  have l: "be_nat ?l \<noteq> 0" by (simp add: be_nat_zero_iff zero32_def replicate_32_eq)
  then have "targets_nonzero ?h" by (simp add: targets_nonzero_def demo_genesis_def)
  with next_work_target_exact [OF w(3) _ w(2) l] w obtain t where
    t: "next_work_target ?h ?l = Ok t" "length t = 32" "be_nat t = dgw_spec ?h (be_nat ?l)" by auto
  have "be_nat t = be_nat ?l" unfolding t(3) by (simp add: dgw_spec_def mean_target_def demo_genesis_def)
  then have "t = ?l" using t(2) be_nat_inj [of t ?l] by simp
  with t(1) show ?thesis by (simp add: expected_target_def demo_genesis_def demo_params_def)
qed

lemma demo_first_template:
  "template_block demo_crypto demo_genesis [] 0 demo_context (demo_allocation 1 0) (replicate 32 9) demo_first"
proof -
  have sizes: "block_sizes demo_first"
    using demo_mined_encodes [of "[]" "replicate 32 2" 1 2000 0] by (auto simp: demo_first_def encode_block_Ok)
  have root: "transaction_root demo_crypto demo_first = replicate 32 19"
    by (simp add: demo_first_def demo_mined_root)
  have pow: "pow_verify demo_crypto (PV_V1Legacy demo_verifier) (bl_challenge demo_first) (bl_proof demo_first) = Ok ()"
    by (simp add: demo_first_def demo_mined_pow)
  have fresh: "fresh_txid x utxo_default" for x by (simp add: fresh_txid_def utxo_get_def utxo_default_def)
  show ?thesis
    unfolding template_block_def using sizes root pow fresh demo_allocations(2,6-8) demo_expected
    by (simp add: demo_genesis_def demo_first_def demo_mined_def demo_params_def demo_context_def demo_crypto_simps
        BLOCK_VERSION_def COINBASE_MATURITY_def)
qed

lemma template_validates:
  assumes "wf_chain st" "validate_transactions_for_next_block C st txs = Ok sv"
    "template_block C st txs (sv_total_burned_fees sv) ctx alloc miner b"
  shows "\<exists>v. validate_block C st b ctx = Ok v \<and> vb_fees v = sv_total_burned_fees sv"
  using assms(2)
proof (rule validate_transactions_Ok)
  fix cand S
  note t = assms(3) [unfolded template_block_def]
  assume res: "length txs \<le> MAX_BLOCK_TRANSACTIONS" "validate_transaction_resources txs = Ok (sv\<lparr>sv_total_burned_fees := 0\<rparr>)"
    and ids: "list_all (\<lambda>t. check_transaction_identity (np_network_id (cs_params st)) t = Ok ()) txs"
    and shape: "list_all (tx_shape (np_network_id (cs_params st))) txs"
    and loop: "ofold (apply_and_sum C (cs_next_height st) (np_network_id (cs_params st))) (0, overlay_new (cs_utxos st), {}) txs =
       Ok (sv_total_burned_fees sv, cand, S)"
  have "validate_block_resources b = Ok ()"
    using t res by (simp add: validate_block_resources_def coinbase_new_def wire_limits)
  moreover have "list_all (\<lambda>t. tx_network_id t = bc_network_id (bl_challenge b) \<and>
      list_all (\<lambda>i. terms_on (bc_network_id (bl_challenge b)) (ti_witness i)) (tx_inputs t)) (bl_transactions b)"
    using shape t by (auto simp: list_all_iff tx_shape_def)
  ultimately have "block_shape b" by (simp add: block_shape_resources)
  then have "\<exists>d. validate_delta C (cs_utxos st) b (cs_verifier st) (cs_params st) = Ok (sv_total_burned_fees sv, d)"
    using t ids loop by (intro validate_delta_succeeds [where alloc = alloc and miner = miner and cand = cand and S = S]) simp_all
  then obtain d where "validate_delta C (cs_utxos st) b (cs_verifier st) (cs_params st) = Ok (sv_total_burned_fees sv, d)" ..
  then show ?thesis using t assms(1) by (intro validate_block_succeeds) simp_all
qed

lemma demo_first_applies:
  "\<exists>st. validate_and_apply demo_crypto demo_genesis demo_first demo_context = Ok (0, st) \<and>
     chain_run demo_crypto demo_params (PV_V1Legacy demo_verifier) [(demo_first, 0)] st"
proof -
  have "validate_transactions_for_next_block demo_crypto demo_genesis [] =
      Ok \<lparr>sv_total_burned_fees = 0, sv_aggregate_inputs = 0, sv_aggregate_outputs = 0, sv_signature_checks = 0\<rparr>"
    by (simp add: validate_transactions_for_next_block_def validate_transaction_set_resources_def
        validate_transaction_resources_def wire_limits)
  then obtain v where v: "validate_block demo_crypto demo_genesis demo_first demo_context = Ok v" "vb_fees v = 0"
    using template_validates [OF chain_new_wf [OF demo_chain_new demo_wf_limit]] demo_first_template by fastforce
  let ?st = "chain_after demo_crypto demo_genesis demo_first (vb_delta v) (vb_effective_timestamp v)"
  have a: "validate_and_apply demo_crypto demo_genesis demo_first demo_context = Ok (0, ?st)"
    using v commit_after_validate [OF v(1)] by (simp add: validate_and_apply_def)
  moreover have "chain_run demo_crypto demo_params (PV_V1Legacy demo_verifier) ([] @ [(demo_first, 0)]) ?st"
    using a by (intro chain_run.extend) (rule chain_run.genesis [OF demo_chain_new])
  ultimately show ?thesis by auto
qed

section \<open>Properties\<close>

text \<open>C1. Along every run of the chain the money supply is accounted for: what is unspent plus all
  the fees burned so far is the sum of the subsidies of the heights reached, and the next height is
  one more than the number of blocks.\<close>

theorem chain_supply_accounted:
  assumes "chain_run C params verifier bs st" "wf_limit params"
  shows "total_value (cs_utxos st) + sum_list (map (unat \<circ> snd) bs) =
      (\<Sum>h = 1..length bs. unat (subsidy_unchecked (np_monetary_policy params) (word_of_nat h))) \<and>
    unat (cs_next_height st) = Suc (length bs)"
  using chain_run_supply [OF assms] chain_run_wf(5) [OF assms] by blast

theorem chain_supply_accounted_witness:
  "\<exists>st. chain_run demo_crypto demo_params (PV_V1Legacy demo_verifier) [(demo_first, 0)] st \<and>
     total_value (cs_utxos st) = unat (subsidy_unchecked DEFAULT_MONETARY_POLICY 1)"
proof -
  obtain st where st: "chain_run demo_crypto demo_params (PV_V1Legacy demo_verifier) [(demo_first, 0)] st"
    using demo_first_applies by blast
  from chain_supply_accounted [OF this demo_wf_limit] st show ?thesis by (auto simp: demo_params_def)
qed

text \<open>C10. Every reachable chain state is well formed: one timestamp per header, nonzero 32-byte targets,
  effective timestamps that never fall and end with the median of the raw ones, a verifier for the
  parameters of the network, and a ledger that satisfies its invariant. Hence the median time is
  always defined and the retarget of the next block always succeeds with a target between one and
  the limit: its timestamp-order error is unreachable.\<close>

theorem chain_state_well_formed:
  assumes "chain_run C params verifier bs st" "wf_limit params"
  shows "wf_chain st \<and> cs_params st = params \<and> cs_verifier st = verifier \<and>
    (\<exists>t m. expected_target st = Ok t \<and> 1 \<le> be_nat t \<and> be_nat t \<le> be_nat (np_pow_limit params) \<and>
       median_time_past st = (Ok m :: (chain_error, u64) outcome))"
proof -
  note r = chain_run_wf [OF assms]
  have "\<exists>m. median_time_past st = (Ok m :: (chain_error, u64) outcome)"
    using r(1) by (simp add: wf_chain_def median_time_past_def)
  with expected_target_total [OF r(1)] assms(2) r show ?thesis by auto
qed

theorem chain_state_well_formed_witness:
  "\<exists>st. chain_run demo_crypto demo_params (PV_V1Legacy demo_verifier) [(demo_first, 0)] st \<and> wf_chain st \<and>
     (\<exists>t. expected_target st = Ok t)"
  using chain_state_well_formed [OF _ demo_wf_limit] demo_first_applies by meson

text \<open>C13. Validation and commit fit together: a validated block commits on the state it was validated
  against, with the same result as \<open>validate_and_apply\<close>; the new state has the block as its tip and
  the delta applied; and the same token is refused as stale on the new state, so a validated block
  is never committed twice.\<close>

theorem validated_block_commits_once:
  assumes "validate_block C st b ctx = Ok v"
  shows "\<exists>st'. commit_validated st v = Ok (vb_fees v, st') \<and> validate_and_apply C st b ctx = Ok (vb_fees v, st') \<and>
    cs_tip st' = block_id C b \<and> cs_utxos st' = delta_apply (vb_delta v) (cs_utxos st) \<and>
    cs_next_height st' = cs_next_height st + 1 \<and> commit_validated st' v = Err CH_StaleValidatedBlock"
proof -
  let ?st = "chain_after C st b (vb_delta v) (vb_effective_timestamp v)"
  have c: "commit_validated st v = Ok (vb_fees v, ?st)" by (rule commit_after_validate [OF assms])
  moreover have "vb_base_history_len v = length (cs_history st)" using assms by (rule validate_block_Ok) simp
  then have "commit_validated ?st v = Err CH_StaleValidatedBlock" by (simp add: commit_validated_def)
  ultimately show ?thesis using assms by (auto simp: validate_and_apply_def)
qed

theorem validated_block_commits_once_witness:
  "\<exists>v st. validate_block demo_crypto demo_genesis demo_first demo_context = Ok v \<and> cs_tip st = block_id demo_crypto demo_first \<and>
     commit_validated demo_genesis v = Ok (vb_fees v, st) \<and> commit_validated st v = Err CH_StaleValidatedBlock"
proof -
  obtain v where "validate_block demo_crypto demo_genesis demo_first demo_context = Ok v"
    using demo_first_applies by (auto simp: validate_and_apply_def)
  with validated_block_commits_once [OF this] show ?thesis by blast
qed

text \<open>A state with an unspent output, and the block that spends it, for the example below.\<close>

definition demo_tenth :: chain_state where
  "demo_tenth = demo_genesis\<lparr>cs_utxos := demo_utxo, cs_next_height := 10\<rparr>"

abbreviation demo_spend :: block where
  "demo_spend \<equiv> demo_mined 10 (replicate 32 2) 2000 [demo_transaction] 300"

lemma demo_tenth_wf: "wf_chain demo_tenth"
  using chain_new_wf [OF demo_chain_new demo_wf_limit] demo_utxo_inv by (simp add: wf_chain_def demo_tenth_def)

lemma demo_tenth_transactions:
  "validate_transactions_for_next_block demo_crypto demo_tenth [demo_transaction] =
     Ok \<lparr>sv_total_burned_fees = 300, sv_aggregate_inputs = 1, sv_aggregate_outputs = 1, sv_signature_checks = 1\<rparr>"
proof -
  obtain ov where ov: "apply_transaction demo_crypto demo_transaction 10 (replicate 32 1) (overlay_new demo_utxo, {}) =
      Ok (300, ov, {demo_point})" using demo_apply by blast
  obtain bs where "encode_block demo_crypto demo_spend = Ok bs"
    using demo_mined_encodes [of "[demo_transaction]" "replicate 32 2" 10 2000 300] by auto
  then have "block_shape demo_spend" "block_sizes demo_spend" by (simp_all add: encode_block_Ok)
  then have "\<exists>bs. encode_transaction demo_crypto demo_transaction = Ok bs"
    by (simp add: encode_transaction_Ok block_shape_def block_sizes_def demo_mined_def tx_shape_def)
  then obtain ts where "encode_transaction demo_crypto demo_transaction = Ok ts" ..
  moreover have "check_transaction_identity (replicate 32 1) demo_transaction = Ok ()"
    by (simp add: check_transaction_identity_def demo_transaction_def TRANSACTION_VERSION_def)
  moreover have "validate_transaction_set_resources [demo_transaction] =
      Ok \<lparr>sv_total_burned_fees = 0, sv_aggregate_inputs = 1, sv_aggregate_outputs = 1, sv_signature_checks = 1\<rparr>"
    by (simp add: validate_transaction_set_resources_def validate_transaction_resources_def wire_limits count_transaction_def
        demo_transaction_def demo_input_def count_witness_def usize_add_def CONSENSUS_SIGNATURE_BYTES_def)
  ultimately show ?thesis
    by (simp add: validate_transactions_for_next_block_def demo_tenth_def demo_genesis_def demo_params_def apply_and_sum_def
        ov checked_add_def)
qed

lemma demo_spend_template:
  "template_block demo_crypto demo_tenth [demo_transaction] 300 demo_context (demo_allocation 10 300) (replicate 32 9) demo_spend"
proof -
  have sizes: "block_sizes demo_spend"
    using demo_mined_encodes [of "[demo_transaction]" "replicate 32 2" 10 2000 300] by (auto simp: encode_block_Ok)
  have expected: "expected_target demo_tenth = Ok (replicate 32 255)"
    using demo_expected by (simp add: expected_target_def demo_tenth_def)
  have fresh: "coinbase_outpoint_id demo_crypto demo_spend \<noteq> replicate 32 9"
    "coinbase_outpoint_id demo_crypto demo_spend \<noteq> txid demo_crypto demo_transaction"
    by (simp_all add: coinbase_outpoint_id_def COINBASE_OUTPOINT_DOMAIN_def txid_def TX_ID_DOMAIN_def demo_crypto_simps
        replicate_32_eq)
  then have "fresh_txid (coinbase_outpoint_id demo_crypto demo_spend) demo_utxo"
    by (auto simp: fresh_txid_def demo_utxo_def utxo_get_def demo_point_def)
  then show ?thesis
    unfolding template_block_def
    using sizes expected fresh demo_mined_pow [of 10 "replicate 32 2" 2000 "[demo_transaction]" 300]
      demo_mined_root [of "[demo_transaction]" 10 "replicate 32 2" 2000 300] demo_allocations(1,3-5)
    by (simp add: demo_tenth_def demo_genesis_def demo_params_def demo_context_def)
      (simp add: demo_mined_def demo_params_def demo_crypto_simps BLOCK_VERSION_def COINBASE_MATURITY_def)
qed

text \<open>C11. A block template is valid on every well-formed state, such as the reachable ones: when the
  transactions of a block validated for the next block, and the block made of them is as
  \<open>template_block\<close> says, then it validates and applies, burns exactly the validated fees and becomes the
  tip. The conditions: its coinbase is the one \<open>Coinbase::new\<close> builds for the validated fees and a
  valid key, with a miner share and no community share without a steward share; its header names
  the state, its target, its root and a timestamp after the median and at most the allowed offset
  ahead; it is within the byte limits of a block, which a validated set alone need not be; the
  height leaves room for the maturity of the coinbase; the proof of work verifies; and the coinbase
  identifier is fresh.\<close>

theorem validated_template_is_accepted:
  assumes "wf_chain st" "validate_transactions_for_next_block C st txs = Ok sv"
    "template_block C st txs (sv_total_burned_fees sv) ctx alloc miner b"
  shows "\<exists>st'. validate_and_apply C st b ctx = Ok (sv_total_burned_fees sv, st') \<and> cs_tip st' = block_id C b"
  using template_validates [OF assms] commit_after_validate by (fastforce simp: validate_and_apply_def)

theorem validated_template_is_accepted_witness:
  "\<exists>st. validate_and_apply demo_crypto demo_tenth demo_spend demo_context = Ok (300, st) \<and>
     cs_tip st = block_id demo_crypto demo_spend"
  using validated_template_is_accepted [OF demo_tenth_wf demo_tenth_transactions] demo_spend_template by simp

end
