(* ===== verification/CF_Fork.thy ===== *)
theory CF_Fork
  imports CF_Chain
begin

text \<open>
  The fork index and the fork choice of \<open>crates/cmfd-node/src/lib.rs\<close>: \<open>BlockIndex\<close>,
  \<open>prepare_block\<close>, \<open>rebuild_state_to\<close> and \<open>commit_prepared\<close>. The hash map of indexed blocks is a
  finite map. The text of a corrupt-log error is represented by the place that reports it and the
  error it quotes (\<open>ND_ForkReplay\<close> and \<open>ND_RestoreFork\<close> are the two that quote another node error);
  paths, addresses and the operating system's error values are left out.

  \<open>fork_run\<close> is the relation of the pairs of active state and index that preparing and committing
  blocks can reach. Its invariant says that every indexed block can be replayed from genesis, that
  the active state is the replay of the active tip, and that no indexed block has more cumulative
  work than the active chain.
\<close>

section \<open>Data\<close>

datatype log_fault =
    LF_ParentCycle | LF_MissingParent | LF_AbsentBlock | LF_Undecodable wire_error | LF_Metadata
  | LF_BranchReplay chain_error | LF_NoWorkIncrease | LF_NonV2Proof | LF_BlockLength | LF_BlockLimit
  | LF_TruncatedHeader u64 | LF_InvalidHeader u64 | LF_RecordLimit u64 | LF_TruncatedBlock u64
  | LF_TruncatedChecksum u64 | LF_ChecksumMismatch u64 | LF_RecordUndecodable u64 wire_error
  | LF_RecordUnencodable u64 wire_error | LF_NotCanonical u64

datatype node_error =
    ND_DataDirLocked | ND_Io | ND_InvalidMetadata | ND_MissingMetadata | ND_FingerprintMismatch
  | ND_InvalidWalletKey | ND_CorruptLog log_fault
  | ND_ForkReplay u64 node_error | ND_RestoreFork u64 node_error
  | ND_InvalidSystemTime | ND_NonLoopbackRpc | ND_RpcIo | ND_SharedNodePoisoned | ND_Json
  | ND_TemplateTimeUnavailable | ND_InvalidMinerDestination | ND_InvalidMiningSearchAttempts
  | ND_InvalidMiningShareTarget | ND_StorageFaulted | ND_DuplicateBlock hash32 | ND_UnknownParent hash32
  | ND_DuplicateMempoolTransaction hash32 | ND_MempoolInputConflict out_point
  | ND_MempoolUnconfirmedInput out_point | ND_MempoolTransactionLimit | ND_MempoolByteLimit
  | ND_MempoolFeeTooLow u64 u64 | ND_InvalidWalletRecipient | ND_InvalidWalletAmount
  | ND_WalletAmountOverflow | ND_WalletZeroAmount | ND_WalletFundsImmature u64 u64
  | ND_WalletInsufficientFunds u64 u64 | ND_WalletInputLimit u64 u64 | ND_InvalidConsolidationMaxInputs
  | ND_WalletNotEnoughUtxos nat | ND_WalletConsolidationFee u64 | ND_InvalidRpcRequest string
  | ND_Network network_error | ND_Chain chain_error | ND_Wire wire_error | ND_Pow pow_error
  | ND_Economics economics_error

record indexed_block =
  ib_parent :: hash32
  ib_height :: u64
  ib_accepted_at :: u64
  ib_canonical :: "byte list"
  ib_cumulative_work :: u512

record block_index =
  bi_genesis :: hash32
  bi_blocks :: "(hash32, indexed_block) fmap"
  bi_active_chain :: "hash32 list"
  bi_active_work :: u512

datatype validated_candidate =
    VC_Active validated_block
  | VC_Branch chain_state validated_block

record prepared_block =
  pb_block_id :: hash32
  pb_parent :: hash32
  pb_height :: u64
  pb_accepted_at :: u64
  pb_canonical :: "byte list"
  pb_cumulative_work :: u512
  pb_candidate :: validated_candidate

section \<open>The index\<close>

definition index_new :: "hash32 \<Rightarrow> block_index" where
  "index_new genesis = \<lparr>bi_genesis = genesis, bi_blocks = fmempty, bi_active_chain = [genesis], bi_active_work = 0\<rparr>"

definition index_contains :: "block_index \<Rightarrow> hash32 \<Rightarrow> bool" where
  "index_contains idx bid \<longleftrightarrow> bid = bi_genesis idx \<or> fmlookup (bi_blocks idx) bid \<noteq> None"

definition work_at :: "block_index \<Rightarrow> hash32 \<Rightarrow> u512 option" where
  "work_at idx bid =
     (if bid = bi_genesis idx then Some 0 else map_option ib_cumulative_work (fmlookup (bi_blocks idx) bid))"

text \<open>The loop of \<open>path_to\<close>; the first argument counts down from the number of indexed blocks.\<close>

fun path_walk :: "nat \<Rightarrow> block_index \<Rightarrow> hash32 \<Rightarrow> hash32 list \<Rightarrow> (node_error, hash32 list) outcome" where
  "path_walk 0 idx cursor path =
     (if cursor = bi_genesis idx then Ok path else Err (ND_CorruptLog LF_ParentCycle))"
| "path_walk (Suc n) idx cursor path =
     (if cursor = bi_genesis idx then Ok path
      else case fmlookup (bi_blocks idx) cursor of
        None \<Rightarrow> Err (ND_CorruptLog LF_MissingParent)
      | Some entry \<Rightarrow> path_walk n idx (ib_parent entry) (cursor # path))"

definition path_to :: "block_index \<Rightarrow> hash32 \<Rightarrow> (node_error, hash32 list) outcome" where
  "path_to idx tip =
     (if tip = bi_genesis idx then Ok [] else path_walk (fcard (fmdom (bi_blocks idx))) idx tip [])"

fun list_position :: "'a \<Rightarrow> 'a list \<Rightarrow> nat option" where
  "list_position x [] = None"
| "list_position x (y # ys) = (if y = x then Some 0 else map_option Suc (list_position x ys))"

definition active_position :: "block_index \<Rightarrow> hash32 \<Rightarrow> nat option" where
  "active_position idx bid = list_position bid (bi_active_chain idx)"

section \<open>Fork choice\<close>

definition replay_indexed ::
  "crypto \<Rightarrow> block_index \<Rightarrow> network_params \<Rightarrow> chain_state \<Rightarrow> hash32 \<Rightarrow> (node_error, chain_state) outcome" where
  "replay_indexed C idx params st bid =
     (case fmlookup (bi_blocks idx) bid of
        None \<Rightarrow> Err (ND_CorruptLog LF_AbsentBlock)
      | Some entry \<Rightarrow>
          obind (map_err (\<lambda>e. ND_CorruptLog (LF_Undecodable e)) (decode_block C (ib_canonical entry) (np_network_id params))) (\<lambda>b.
          if block_id C b \<noteq> bid \<or> bc_previous_block (bl_challenge b) \<noteq> ib_parent entry \<or>
             bc_height (bl_challenge b) \<noteq> ib_height entry
          then Err (ND_CorruptLog LF_Metadata)
          else
            obind (map_err (\<lambda>e. ND_CorruptLog (LF_BranchReplay e))
                     (validate_and_apply C st b \<lparr>vc_now_unix_seconds = ib_accepted_at entry\<rparr>)) (\<lambda>(_, st).
            Ok st)))"

definition rebuild_state_to ::
  "crypto \<Rightarrow> block_index \<Rightarrow> network_params \<Rightarrow> pow_verifier \<Rightarrow> hash32 \<Rightarrow> (node_error, chain_state) outcome" where
  "rebuild_state_to C idx params verifier tip =
     obind (map_err ND_Chain (chain_new C params verifier)) (\<lambda>st.
     obind (path_to idx tip) (\<lambda>path.
     ofold (replay_indexed C idx params) st path))"

definition prepare_block ::
  "crypto \<Rightarrow> chain_state \<Rightarrow> block_index \<Rightarrow> network_params \<Rightarrow> pow_verifier \<Rightarrow> block \<Rightarrow> u64 \<Rightarrow> byte list
     \<Rightarrow> (node_error, prepared_block) outcome" where
  "prepare_block C active_state idx params verifier b accepted_at frame =
     (let bid = block_id C b; parent = bc_previous_block (bl_challenge b); ctx = \<lparr>vc_now_unix_seconds = accepted_at\<rparr> in
      if index_contains idx bid then Err (ND_DuplicateBlock bid)
      else
      obind (ok_or (ND_UnknownParent parent) (work_at idx parent)) (\<lambda>parent_work.
      obind (if parent = cs_tip active_state
             then obind (map_err ND_Chain (validate_block C active_state b ctx)) (\<lambda>v. Ok (VC_Active v))
             else
               obind (rebuild_state_to C idx params verifier parent) (\<lambda>branch_state.
               obind (map_err ND_Chain (validate_block C branch_state b ctx)) (\<lambda>v.
               Ok (VC_Branch branch_state v)))) (\<lambda>candidate.
      obind (map_err (\<lambda>e. ND_Chain (CH_Difficulty e)) (add_chain_work parent_work (bc_target (bl_challenge b)))) (\<lambda>work.
      Ok \<lparr>pb_block_id = bid, pb_parent = parent, pb_height = bc_height (bl_challenge b), pb_accepted_at = accepted_at,
          pb_canonical = frame, pb_cumulative_work = work, pb_candidate = candidate\<rparr>))))"

text \<open>A step of a function that mutates its state and may fail: on an error the state so far stays.\<close>

definition try_in :: "'s \<Rightarrow> ('e, 'a) outcome \<Rightarrow> ('a \<Rightarrow> 's \<times> ('e, 'b) outcome) \<Rightarrow> 's \<times> ('e, 'b) outcome" where
  "try_in s m f = (case m of Ok x \<Rightarrow> f x | Err e \<Rightarrow> (s, Err e) | Panic \<Rightarrow> (s, Panic) | Diverge \<Rightarrow> (s, Diverge))"

definition commit_prepared ::
  "chain_state \<times> block_index \<Rightarrow> prepared_block \<Rightarrow> (chain_state \<times> block_index) \<times> (node_error, u64) outcome" where
  "commit_prepared s p =
     (case s of (active_state, idx) \<Rightarrow>
      let activates = bi_active_work idx < pb_cumulative_work p in
      if (case pb_candidate p of VC_Active _ \<Rightarrow> True | VC_Branch _ _ \<Rightarrow> False) \<and> \<not> activates
      then (s, Err (ND_CorruptLog LF_NoWorkIncrease))
      else
      try_in s (if activates
                then obind (path_to idx (pb_parent p)) (\<lambda>path. Ok (Some ([bi_genesis idx] @ path @ [pb_block_id p])))
                else Ok None) (\<lambda>next_active_chain.
      try_in s (map_err ND_Chain
                 (case pb_candidate p of
                    VC_Active v \<Rightarrow> commit_validated active_state v
                  | VC_Branch st v \<Rightarrow>
                      obind (commit_validated st v) (\<lambda>(fees, st'). Ok (fees, if activates then st' else active_state)))) (\<lambda>(fees, active').
      let entry = \<lparr>ib_parent = pb_parent p, ib_height = pb_height p, ib_accepted_at = pb_accepted_at p,
                   ib_canonical = pb_canonical p, ib_cumulative_work = pb_cumulative_work p\<rparr>;
          idx' = idx\<lparr>bi_blocks := fmupd (pb_block_id p) entry (bi_blocks idx)\<rparr> in
      if fmlookup (bi_blocks idx) (pb_block_id p) \<noteq> None
      then ((active', idx'), Err (ND_DuplicateBlock (pb_block_id p)))
      else
        ((active',
          case next_active_chain of
            Some chain \<Rightarrow> idx'\<lparr>bi_active_chain := chain, bi_active_work := pb_cumulative_work p\<rparr>
          | None \<Rightarrow> idx'), Ok fees))))"

section \<open>Paths\<close>

lemma path_walk_append: "path_walk n idx c (p @ q) = obind (path_walk n idx c p) (\<lambda>r. Ok (r @ q))"
  by (induction n idx c p rule: path_walk.induct) (auto split: option.splits simp flip: append_Cons)

lemma path_walk_more: "path_walk n idx c p = Ok r \<Longrightarrow> n \<le> m \<Longrightarrow> path_walk m idx c p = Ok r"
proof (induction n idx c p arbitrary: m rule: path_walk.induct)
  case (1 idx c p)
  then show ?case by (cases m) (auto split: if_splits)
next
  case (2 n idx c p)
  then show ?case by (cases m) (auto split: if_splits option.splits)
qed

text \<open>Indexing a fresh block leaves the paths to the other blocks and their replays as they are.\<close>

definition index_adds :: "block_index \<Rightarrow> hash32 \<Rightarrow> indexed_block \<Rightarrow> block_index \<Rightarrow> bool" where
  "index_adds idx bid entry idx' \<longleftrightarrow> \<not> index_contains idx bid \<and> bi_genesis idx' = bi_genesis idx \<and>
     bi_blocks idx' = fmupd bid entry (bi_blocks idx)"

lemma index_addsD:
  assumes "index_adds idx bid entry idx'"
  shows "fmlookup (bi_blocks idx) bid = None" "bid \<noteq> bi_genesis idx" "bi_genesis idx' = bi_genesis idx"
    "fmlookup (bi_blocks idx') x = (if x = bid then Some entry else fmlookup (bi_blocks idx) x)"
    "fcard (fmdom (bi_blocks idx')) = Suc (fcard (fmdom (bi_blocks idx)))"
  using assms by (auto simp: index_adds_def index_contains_def fcard_finsert_disjoint fmdom_notI)

lemma index_adds_contains: "index_adds idx bid entry idx' \<Longrightarrow> index_contains idx' x \<longleftrightarrow> x = bid \<or> index_contains idx x"
  by (auto simp: index_contains_def index_addsD)

lemma index_adds_work:
  "index_adds idx bid entry idx' \<Longrightarrow> work_at idx' x = (if x = bid then Some (ib_cumulative_work entry) else work_at idx x)"
  by (auto simp: work_at_def index_addsD)

lemma path_walk_insert:
  assumes "index_adds idx bid entry idx'"
  shows "path_walk n idx c p = Ok r \<Longrightarrow> path_walk n idx' c p = Ok r"
  by (induction n arbitrary: c p) (auto simp: index_addsD [OF assms] split: if_splits option.splits)

lemma path_to_walk: "path_to idx c = path_walk (fcard (fmdom (bi_blocks idx))) idx c []"
proof (cases "c = bi_genesis idx")
  case True
  then show ?thesis by (cases "fcard (fmdom (bi_blocks idx))") (simp_all only: path_to_def path_walk.simps simp_thms if_True)
qed (simp add: path_to_def)

lemma path_to_insert:
  assumes "index_adds idx bid entry idx'" "path_to idx c = Ok r"
  shows "path_to idx' c = Ok r"
  unfolding path_to_walk index_addsD(5) [OF assms(1)]
  by (rule path_walk_more [OF path_walk_insert [OF assms(1) assms(2) [unfolded path_to_walk]]]) simp

lemma path_to_new:
  assumes "index_adds idx bid entry idx'" "path_to idx (ib_parent entry) = Ok r"
  shows "path_to idx' bid = Ok (r @ [bid])"
proof -
  have "path_walk (fcard (fmdom (bi_blocks idx))) idx' (ib_parent entry) [] = Ok r"
    using path_walk_insert [OF assms(1)] assms(2) by (simp add: path_to_walk)
  then show ?thesis
    using path_walk_append [of "fcard (fmdom (bi_blocks idx))" idx' "ib_parent entry" "[]" "[bid]"]
    by (simp add: path_to_walk index_addsD [OF assms(1)])
qed

lemma path_walk_members: "path_walk n idx c p = Ok r \<Longrightarrow> x \<in> set r \<Longrightarrow> x \<in> set p \<or> fmlookup (bi_blocks idx) x \<noteq> None"
  by (induction n arbitrary: c p) (fastforce split: if_splits option.splits)+

lemma path_to_members: "path_to idx c = Ok r \<Longrightarrow> x \<in> set r \<Longrightarrow> fmlookup (bi_blocks idx) x \<noteq> None"
  using path_walk_members [of _ idx c "[]" r x] by (auto simp: path_to_walk)

lemma rebuild_insert:
  assumes "index_adds idx bid entry idx'" "rebuild_state_to C idx params verifier c = Ok st"
  shows "rebuild_state_to C idx' params verifier c = Ok st"
proof -
  from assms(2) obtain st0 path where s: "chain_new C params verifier = Ok st0" "path_to idx c = Ok path"
    "ofold (replay_indexed C idx params) st0 path = Ok st" by (auto simp: rebuild_state_to_def)
  have "ofold (replay_indexed C idx' params) st0 path = ofold (replay_indexed C idx params) st0 path"
  proof (rule ofold_cong)
    fix s x
    assume "x \<in> set path"
    from path_to_members [OF s(2) this] have "x \<noteq> bid" using index_addsD(1) [OF assms(1)] by auto
    then show "replay_indexed C idx' params s x = replay_indexed C idx params s x"
      by (simp add: replay_indexed_def index_addsD [OF assms(1)])
  qed simp_all
  then show ?thesis using s path_to_insert [OF assms(1)] by (simp add: rebuild_state_to_def)
qed

lemma rebuild_new:
  assumes "index_adds idx bid entry idx'" "rebuild_state_to C idx params verifier (ib_parent entry) = Ok st"
    "replay_indexed C idx' params st bid = Ok st'"
  shows "rebuild_state_to C idx' params verifier bid = Ok st'"
proof -
  from assms(2) obtain st0 path where s: "chain_new C params verifier = Ok st0" "path_to idx (ib_parent entry) = Ok path"
    "ofold (replay_indexed C idx params) st0 path = Ok st" by (auto simp: rebuild_state_to_def)
  have "ofold (replay_indexed C idx' params) st0 path = Ok st"
    using rebuild_insert [OF assms(1,2)] s path_to_insert [OF assms(1) s(2)] by (simp add: rebuild_state_to_def)
  then show ?thesis
    using s(1) path_to_new [OF assms(1) s(2)] assms(3) by (simp add: rebuild_state_to_def ofold_append)
qed

section \<open>Runs of the fork choice\<close>

text \<open>The records accepted so far and the active state with the index they lead to.\<close>

inductive fork_run ::
  "crypto \<Rightarrow> network_params \<Rightarrow> pow_verifier \<Rightarrow> (u64 \<times> byte list) list \<Rightarrow> chain_state \<Rightarrow> block_index \<Rightarrow> bool"
  for C params verifier where
    fork_start: "chain_new C params verifier = Ok st \<Longrightarrow>
      fork_run C params verifier [] st (index_new (np_genesis_hash params))"
  | fork_step: "\<lbrakk>fork_run C params verifier rs st idx; wf_block b; encode_block C b = Ok frame;
      prepare_block C st idx params verifier b accepted_at frame = Ok p;
      commit_prepared (st, idx) p = ((st', idx'), Ok fees)\<rbrakk>
      \<Longrightarrow> fork_run C params verifier (rs @ [(accepted_at, frame)]) st' idx'"

definition run_work :: "(block \<times> u64) list \<Rightarrow> (difficulty_error, u512) outcome" where
  "run_work bs = ofold (\<lambda>w (b, _). add_chain_work w (bc_target (bl_challenge b))) 0 bs"

definition indexed_ok :: "crypto \<Rightarrow> network_params \<Rightarrow> pow_verifier \<Rightarrow> block_index \<Rightarrow> hash32 \<Rightarrow> bool" where
  "indexed_ok C params verifier idx bid \<longleftrightarrow> (\<exists>st bs w. rebuild_state_to C idx params verifier bid = Ok st \<and>
     cs_tip st = bid \<and> chain_run C params verifier bs st \<and> path_to idx bid = Ok (map (block_id C \<circ> fst) bs) \<and>
     work_at idx bid = Some w \<and> run_work bs = Ok w)"

definition fork_inv :: "crypto \<Rightarrow> network_params \<Rightarrow> pow_verifier \<Rightarrow> chain_state \<Rightarrow> block_index \<Rightarrow> bool" where
  "fork_inv C params verifier st idx \<longleftrightarrow>
     (\<forall>bid. index_contains idx bid \<longrightarrow> indexed_ok C params verifier idx bid) \<and>
     index_contains idx (cs_tip st) \<and> rebuild_state_to C idx params verifier (cs_tip st) = Ok st \<and>
     bi_active_chain idx \<noteq> [] \<and> hd (bi_active_chain idx) = bi_genesis idx \<and>
     path_to idx (cs_tip st) = Ok (tl (bi_active_chain idx)) \<and>
     work_at idx (cs_tip st) = Some (bi_active_work idx) \<and>
     (\<forall>bid w. work_at idx bid = Some w \<longrightarrow> w \<le> bi_active_work idx)"

lemma fork_inv_start:
  assumes "chain_new C params verifier = Ok st"
  shows "fork_inv C params verifier st (index_new (np_genesis_hash params))"
proof -
  have "rebuild_state_to C (index_new (np_genesis_hash params)) params verifier (np_genesis_hash params) = Ok st"
    using assms by (simp add: rebuild_state_to_def path_to_def index_new_def)
  moreover have "cs_tip st = np_genesis_hash params" using chain_new_Ok(3) [OF assms] by simp
  ultimately show ?thesis
    using chain_run.genesis [OF assms]
    by (auto simp: fork_inv_def indexed_ok_def index_contains_def index_new_def work_at_def path_to_def run_work_def
        intro!: exI [of _ "[] :: (block \<times> u64) list"])
qed

lemma add_chain_work_increases: "add_chain_work w t = Ok w' \<Longrightarrow> length t = 32 \<Longrightarrow> w < w'"
  using block_work_positive by (auto simp: add_chain_work_def word_less_nat_alt unat_word_ariths)

lemma prepare_block_Ok:
  assumes "prepare_block C st idx params verifier b accepted_at frame = Ok p"
    "rebuild_state_to C idx params verifier (cs_tip st) = Ok st"
  obtains base v w where "\<not> index_contains idx (block_id C b)"
    "rebuild_state_to C idx params verifier (bc_previous_block (bl_challenge b)) = Ok base"
    "validate_block C base b \<lparr>vc_now_unix_seconds = accepted_at\<rparr> = Ok v"
    "work_at idx (bc_previous_block (bl_challenge b)) = Some w"
    "add_chain_work w (bc_target (bl_challenge b)) = Ok (pb_cumulative_work p)"
    "pb_block_id p = block_id C b" "pb_parent p = bc_previous_block (bl_challenge b)"
    "pb_height p = bc_height (bl_challenge b)" "pb_accepted_at p = accepted_at" "pb_canonical p = frame"
    "pb_candidate p = (if bc_previous_block (bl_challenge b) = cs_tip st then VC_Active v else VC_Branch base v)"
    "bc_previous_block (bl_challenge b) = cs_tip st \<Longrightarrow> base = st"
  using assms unfolding prepare_block_def Let_def
  by (cases "bc_previous_block (bl_challenge b) = cs_tip st") (auto split: if_splits)

lemma run_work_snoc: "run_work bs = Ok w \<Longrightarrow> run_work (bs @ [(b, fees)]) = add_chain_work w (bc_target (bl_challenge b))"
  by (simp add: run_work_def ofold_append)

text \<open>A block that was validated on the replay of its parent is itself replayable once it is indexed.\<close>

lemma indexed_ok_new:
  assumes C: "crypto_ok C" and b: "wf_block b" "encode_block C b = Ok frame"
    and add: "index_adds idx (block_id C b) entry idx'"
    and entry: "ib_parent entry = bc_previous_block (bl_challenge b)" "ib_height entry = bc_height (bl_challenge b)"
      "ib_accepted_at entry = accepted_at" "ib_canonical entry = frame" "ib_cumulative_work entry = w'"
    and par: "indexed_ok C params verifier idx (bc_previous_block (bl_challenge b))"
      "rebuild_state_to C idx params verifier (bc_previous_block (bl_challenge b)) = Ok base"
    and val: "validate_block C base b \<lparr>vc_now_unix_seconds = accepted_at\<rparr> = Ok v"
    and work: "work_at idx (bc_previous_block (bl_challenge b)) = Some w" "add_chain_work w (bc_target (bl_challenge b)) = Ok w'"
  shows "rebuild_state_to C idx' params verifier (block_id C b) =
      Ok (chain_after C base b (vb_delta v) (vb_effective_timestamp v))"
    "indexed_ok C params verifier idx' (block_id C b)"
proof -
  let ?st = "chain_after C base b (vb_delta v) (vb_effective_timestamp v)"
  from par obtain bs where run: "chain_run C params verifier bs base"
    and path: "path_to idx (bc_previous_block (bl_challenge b)) = Ok (map (block_id C \<circ> fst) bs)" and rw: "run_work bs = Ok w"
    using work(1) unfolding indexed_ok_def by auto
  have params: "cs_params base = params"
    using run by (induction) (auto dest: chain_new_Ok(3) elim!: validate_and_apply_Ok)
  have app: "validate_and_apply C base b \<lparr>vc_now_unix_seconds = accepted_at\<rparr> = Ok (vb_fees v, ?st)"
    using val commit_after_validate [OF val] by (simp add: validate_and_apply_def)
  have net: "bc_network_id (bl_challenge b) = np_network_id params"
    using val params by (auto elim!: validate_block_Ok)
  have dec: "decode_block C frame (np_network_id params) = Ok b"
    using b net by (auto simp: decode_block_Ok [OF C] encode_block_Ok)
  have "replay_indexed C idx' params base (block_id C b) = Ok ?st"
    by (simp add: replay_indexed_def index_addsD [OF add] entry dec app)
  then show reb: "rebuild_state_to C idx' params verifier (block_id C b) = Ok ?st"
    using rebuild_new [OF add] par(2) entry(1) by simp
  have "path_to idx' (block_id C b) = Ok (map (block_id C \<circ> fst) (bs @ [(b, vb_fees v)]))"
    using path_to_new [OF add] path entry(1) by simp
  moreover have "work_at idx' (block_id C b) = Some w'" using index_adds_work [OF add] entry(5) by simp
  moreover have "run_work (bs @ [(b, vb_fees v)]) = Ok w'" using run_work_snoc [OF rw] work(2) by simp
  ultimately show "indexed_ok C params verifier idx' (block_id C b)"
    using reb chain_run.extend [OF run app] unfolding indexed_ok_def by auto
qed

lemma indexed_ok_insert:
  assumes "index_adds idx bid entry idx'" "indexed_ok C params verifier idx x" "x \<noteq> bid"
  shows "indexed_ok C params verifier idx' x"
  using assms rebuild_insert [OF assms(1)] path_to_insert [OF assms(1)] index_adds_work [OF assms(1)]
  unfolding indexed_ok_def by fastforce

text \<open>Committing a prepared block always succeeds, and re-establishes the invariant.\<close>

lemma commit_prepared_step:
  assumes C: "crypto_ok C" and inv: "fork_inv C params verifier st idx" and b: "wf_block b" "encode_block C b = Ok frame"
    and prep: "prepare_block C st idx params verifier b accepted_at frame = Ok p"
  shows "\<exists>st' idx' fees. commit_prepared (st, idx) p = ((st', idx'), Ok fees) \<and> fork_inv C params verifier st' idx' \<and>
    cs_tip st' = (if bi_active_work idx < pb_cumulative_work p then block_id C b else cs_tip st) \<and>
    bi_active_work idx' = max (bi_active_work idx) (pb_cumulative_work p) \<and>
    index_contains idx' (block_id C b) \<and> (\<forall>x. index_contains idx x \<longrightarrow> index_contains idx' x)"
proof -
  note I = inv [unfolded fork_inv_def]
  obtain base v w where pr: "\<not> index_contains idx (block_id C b)"
    "rebuild_state_to C idx params verifier (bc_previous_block (bl_challenge b)) = Ok base"
    "validate_block C base b \<lparr>vc_now_unix_seconds = accepted_at\<rparr> = Ok v"
    "work_at idx (bc_previous_block (bl_challenge b)) = Some w"
    "add_chain_work w (bc_target (bl_challenge b)) = Ok (pb_cumulative_work p)"
    and p: "pb_block_id p = block_id C b" "pb_parent p = bc_previous_block (bl_challenge b)"
    "pb_height p = bc_height (bl_challenge b)" "pb_accepted_at p = accepted_at" "pb_canonical p = frame"
    "pb_candidate p = (if bc_previous_block (bl_challenge b) = cs_tip st then VC_Active v else VC_Branch base v)"
    and base: "bc_previous_block (bl_challenge b) = cs_tip st \<Longrightarrow> base = st"
    using prepare_block_Ok [OF prep] I by metis
  let ?act = "bi_active_work idx < pb_cumulative_work p"
  define entry where "entry = \<lparr>ib_parent = pb_parent p, ib_height = pb_height p, ib_accepted_at = pb_accepted_at p,
    ib_canonical = pb_canonical p, ib_cumulative_work = pb_cumulative_work p\<rparr>"
  have e: "ib_parent entry = bc_previous_block (bl_challenge b)" "ib_height entry = bc_height (bl_challenge b)"
    "ib_accepted_at entry = accepted_at" "ib_canonical entry = frame" "ib_cumulative_work entry = pb_cumulative_work p"
    by (simp_all add: entry_def p)
  let ?st = "chain_after C base b (vb_delta v) (vb_effective_timestamp v)"
  have par: "indexed_ok C params verifier idx (bc_previous_block (bl_challenge b))"
    using I pr(4) by (auto simp: work_at_def index_contains_def split: if_splits)
  then obtain path where path: "path_to idx (bc_previous_block (bl_challenge b)) = Ok path" by (auto simp: indexed_ok_def)
  have "length (bc_target (bl_challenge b)) = 32" using b(1) by (simp add: wf_block_def wf_challenge_def)
  note inc = add_chain_work_increases [OF pr(5) this]
  have ext: "bc_previous_block (bl_challenge b) = cs_tip st \<Longrightarrow> ?act" using inc pr(4) I by simp
  define idx' where "idx' = (let i = idx\<lparr>bi_blocks := fmupd (block_id C b) entry (bi_blocks idx)\<rparr> in
    if ?act then i\<lparr>bi_active_chain := bi_genesis idx # path @ [block_id C b], bi_active_work := pb_cumulative_work p\<rparr> else i)"
  define st' where "st' = (if ?act then ?st else st)"
  have commit: "commit_prepared (st, idx) p = ((st', idx'), Ok (vb_fees v))"
    using pr(1) p(6) base ext commit_after_validate [OF pr(3)] path
    by (auto simp: commit_prepared_def try_in_def p(1-5) index_contains_def Let_def idx'_def entry_def st'_def)
  have idx': "bi_active_chain idx' = (if ?act then bi_genesis idx # path @ [block_id C b] else bi_active_chain idx)"
    "bi_active_work idx' = max (bi_active_work idx) (pb_cumulative_work p)" "bi_genesis idx' = bi_genesis idx"
    by (auto simp: idx'_def Let_def max_def)
  have add: "index_adds idx (block_id C b) entry idx'" using pr(1) by (simp add: index_adds_def idx'_def Let_def)
  note new = indexed_ok_new [OF C b add e par pr(2-5)]
  note cont = index_adds_contains [OF add] and works = index_adds_work [OF add, unfolded e(5)]
  have all: "indexed_ok C params verifier idx' x" if "index_contains idx' x" for x
    using that new(2) I indexed_ok_insert [OF add, of C params verifier x] cont by (cases "x = block_id C b") auto
  have tip: "cs_tip st \<noteq> block_id C b" "cs_tip st' = (if ?act then block_id C b else cs_tip st)"
    using I pr(1) by (auto simp: st'_def)
  have reb: "rebuild_state_to C idx' params verifier (cs_tip st') = Ok st'"
    using new(1) rebuild_insert [OF add] I by (simp add: st'_def)
  have pth: "path_to idx' (cs_tip st') = Ok (tl (bi_active_chain idx'))"
    using path_to_new [OF add] path_to_insert [OF add] path I by (simp add: st'_def idx' e)
  have best: "w \<le> bi_active_work idx'" if "work_at idx' x = Some w" for x w
    using that I by (auto simp: works idx' max_def split: if_splits intro: order.trans less_imp_le)
  have "fork_inv C params verifier st' idx'"
    unfolding fork_inv_def using all reb pth best tip I cont works by (auto simp: idx' max_def)
  then show ?thesis using commit cont idx'(2) tip(2) by blast
qed

lemma fork_run_inv: "fork_run C params verifier rs st idx \<Longrightarrow> crypto_ok C \<Longrightarrow> fork_inv C params verifier st idx"
proof (induction rule: fork_run.induct)
  case (fork_step rs st idx b frame accepted_at p st' idx' fees)
  from commit_prepared_step [OF fork_step.prems fork_step.IH [OF fork_step.prems] fork_step.hyps(2-4)] fork_step.hyps(5)
  show ?case by auto
qed (rule fork_inv_start)

end
