(* ===== verification/CF_Mempool.thy ===== *)
theory CF_Mempool
  imports CF_Fork
begin

text \<open>
  The mempool of \<open>crates/cmfd-node/src/lib.rs\<close>: admission policy, insertion, and revalidation after
  the active chain changed. The ordered map of the source is a list of key and value in
  increasing order of the key.
\<close>

section \<open>Ordered maps\<close>

definition lex_less :: "byte list \<Rightarrow> byte list \<Rightarrow> bool" where
  "lex_less xs ys \<longleftrightarrow> lex_le xs ys \<and> xs \<noteq> ys"

fun bt_insert :: "hash32 \<Rightarrow> 'v \<Rightarrow> (hash32 \<times> 'v) list \<Rightarrow> (hash32 \<times> 'v) list" where
  "bt_insert k v [] = [(k, v)]"
| "bt_insert k v ((k', v') # m) =
     (if k = k' then (k, v) # m
      else if lex_less k k' then (k, v) # (k', v') # m
      else (k', v') # bt_insert k v m)"

definition bt_ordered :: "(hash32 \<times> 'v) list \<Rightarrow> bool" where
  "bt_ordered m \<longleftrightarrow> sorted_wrt lex_less (map fst m)"

section \<open>Data\<close>

definition MAX_MEMPOOL_TRANSACTIONS :: nat where "MAX_MEMPOOL_TRANSACTIONS = 1024"
definition MAX_MEMPOOL_BYTES :: nat where "MAX_MEMPOOL_BYTES = 512 * 1024"
definition MIN_RELAY_FEE_PER_KIB :: u64 where "MIN_RELAY_FEE_PER_KIB = 1"

record mempool_entry =
  me_txid :: hash32
  me_transaction :: transaction
  me_encoded_bytes :: nat
  me_fee_burned :: u64

type_synonym mempool = "(hash32 \<times> mempool_entry) list"

section \<open>Operations\<close>

definition mempool_spent_inputs :: "mempool \<Rightarrow> out_point set" where
  "mempool_spent_inputs pool =
     set (concat (map (\<lambda>(_, entry). map ti_previous (tx_inputs (me_transaction entry))) pool))"

definition required_relay_fee :: "nat \<Rightarrow> u64" where
  "required_relay_fee encoded_bytes =
     (let kib = min (encoded_bytes + 1023) (usize_limit - 1) div 1024
      in max (case checked_mul (word_of_nat kib) MIN_RELAY_FEE_PER_KIB of Some fee \<Rightarrow> fee | None \<Rightarrow> - 1)
             MIN_RELAY_FEE_PER_KIB)"

definition check_mempool_input :: "chain_state \<Rightarrow> out_point set \<Rightarrow> tx_input \<Rightarrow> (node_error, unit) outcome" where
  "check_mempool_input st spends i =
     (if utxo_get (cs_utxos st) (ti_previous i) = None then Err (ND_MempoolUnconfirmedInput (ti_previous i))
      else if ti_previous i \<in> spends then Err (ND_MempoolInputConflict (ti_previous i))
      else Ok ())"

definition validate_mempool_transaction ::
  "crypto \<Rightarrow> chain_state \<Rightarrow> transaction \<Rightarrow> nat \<Rightarrow> out_point set \<Rightarrow> (node_error, u64) outcome" where
  "validate_mempool_transaction C st t encoded_bytes mempool_spends =
     obind (ofold (\<lambda>_ i. check_mempool_input st mempool_spends i) () (tx_inputs t)) (\<lambda>_.
     obind (map_err ND_Chain (validate_transactions_for_next_block C st [t])) (\<lambda>validation.
     let required = required_relay_fee encoded_bytes in
     if sv_total_burned_fees validation < required
     then Err (ND_MempoolFeeTooLow required (sv_total_burned_fees validation))
     else Ok (sv_total_burned_fees validation)))"

text \<open>The loop that merges the new transaction into the ordered transactions of the pool.\<close>

definition ordered_transactions :: "hash32 \<Rightarrow> transaction \<Rightarrow> mempool \<Rightarrow> transaction list" where
  "ordered_transactions tid t pool =
     (case fold (\<lambda>(existing, entry) (ordered, inserted).
              if \<not> inserted \<and> lex_less tid existing
              then (ordered @ [t] @ [me_transaction entry], True)
              else (ordered @ [me_transaction entry], inserted)) pool ([], False) of
        (ordered, inserted) \<Rightarrow> if \<not> inserted then ordered @ [t] else ordered)"

definition submit_transaction ::
  "crypto \<Rightarrow> chain_state \<Rightarrow> mempool \<times> nat \<Rightarrow> transaction \<Rightarrow> (node_error, mempool_entry \<times> mempool \<times> nat) outcome" where
  "submit_transaction C st s t =
     (case s of (pool, mempool_bytes) \<Rightarrow>
      obind (map_err ND_Wire (encode_transaction C t)) (\<lambda>frame.
      let tid = txid C t in
      if map_of pool tid \<noteq> None then Err (ND_DuplicateMempoolTransaction tid)
      else if MAX_MEMPOOL_TRANSACTIONS \<le> length pool then Err ND_MempoolTransactionLimit
      else
      obind (ok_or ND_MempoolByteLimit (usize_add mempool_bytes (length frame))) (\<lambda>next_bytes.
      if MAX_MEMPOOL_BYTES < next_bytes then Err ND_MempoolByteLimit
      else
      obind (validate_mempool_transaction C st t (length frame) (mempool_spent_inputs pool)) (\<lambda>fee_burned.
      obind (map_err ND_Chain (validate_transactions_for_next_block C st (ordered_transactions tid t pool))) (\<lambda>_.
      let entry = \<lparr>me_txid = tid, me_transaction = t, me_encoded_bytes = length frame, me_fee_burned = fee_burned\<rparr> in
      Ok (entry, bt_insert tid entry pool, next_bytes))))))"

definition is_ok :: "('e, 'a) outcome \<Rightarrow> bool" where
  "is_ok m = (case m of Ok _ \<Rightarrow> True | _ \<Rightarrow> False)"

definition revalidate_entry ::
  "crypto \<Rightarrow> chain_state \<Rightarrow> hash32 set \<Rightarrow> hash32 \<times> mempool_entry
     \<Rightarrow> mempool \<times> transaction list \<times> out_point set \<times> nat \<Rightarrow> mempool \<times> transaction list \<times> out_point set \<times> nat" where
  "revalidate_entry C st confirmed item s =
     (case item of (tid, entry) \<Rightarrow> case s of (retained, transactions, spends, bytes) \<Rightarrow>
      if tid \<in> confirmed then s
      else
        case validate_mempool_transaction C st (me_transaction entry) (me_encoded_bytes entry) spends of
          Ok fee_burned \<Rightarrow>
            if \<not> is_ok (validate_transactions_for_next_block C st (transactions @ [me_transaction entry])) then s
            else
              (bt_insert tid (entry\<lparr>me_fee_burned := fee_burned\<rparr>) retained,
               transactions @ [me_transaction entry],
               spends \<union> set (map ti_previous (tx_inputs (me_transaction entry))),
               bytes + me_encoded_bytes entry)
        | _ \<Rightarrow> s)"

definition revalidate_mempool :: "crypto \<Rightarrow> chain_state \<Rightarrow> hash32 set \<Rightarrow> mempool \<Rightarrow> mempool \<times> nat" where
  "revalidate_mempool C st confirmed old_pool =
     (case fold (revalidate_entry C st confirmed) old_pool ([], [], {}, 0) of
        (retained, _, _, bytes) \<Rightarrow> (retained, bytes))"

section \<open>Order\<close>

lemma lex_le_refl [simp]: "lex_le xs xs"
  by (induction xs) auto

lemma lex_le_total: "lex_le xs ys \<or> lex_le ys xs"
  by (induction xs ys rule: lex_le.induct) auto

lemma lex_le_Nil [simp]: "lex_le ys [] \<longleftrightarrow> ys = []"
  by (cases ys) auto

lemma lex_le_antisym: "lex_le xs ys \<Longrightarrow> lex_le ys xs \<Longrightarrow> xs = ys"
  by (induction xs ys rule: lex_le.induct) (auto split: if_splits)

lemma lex_le_trans: "lex_le xs ys \<Longrightarrow> lex_le ys zs \<Longrightarrow> lex_le xs zs"
proof (induction xs ys arbitrary: zs rule: lex_le.induct)
  case (3 x xs y ys)
  then show ?case by (cases zs) (auto split: if_splits)
qed (auto elim: lex_le.elims)

lemma lex_less_trans: "lex_less xs ys \<Longrightarrow> lex_less ys zs \<Longrightarrow> lex_less xs zs"
  unfolding lex_less_def using lex_le_trans lex_le_antisym by blast

lemma lex_less_total: "xs \<noteq> ys \<Longrightarrow> \<not> lex_less xs ys \<Longrightarrow> lex_less ys xs"
  unfolding lex_less_def using lex_le_total by blast

lemma lex_less_irrefl [simp]: "\<not> lex_less xs xs"
  by (simp add: lex_less_def)

lemma bt_ordered_Cons: "bt_ordered ((k, v) # m) \<longleftrightarrow> (\<forall>k'\<in>fst ` set m. lex_less k k') \<and> bt_ordered m"
  by (auto simp: bt_ordered_def)

lemma bt_ordered_distinct: "bt_ordered m \<Longrightarrow> distinct (map fst m)"
  by (induction m) (auto simp: bt_ordered_def)

lemma set_bt_insert: "k \<notin> fst ` set m \<Longrightarrow> set (bt_insert k v m) = insert (k, v) (set m)"
  by (induction k v m rule: bt_insert.induct) auto

lemma bt_insert_ordered: "bt_ordered m \<Longrightarrow> k \<notin> fst ` set m \<Longrightarrow> bt_ordered (bt_insert k v m)"
proof (induction k v m rule: bt_insert.induct)
  case (2 k v k' v' m)
  then show ?case
    using lex_less_total [of k k'] by (auto simp: bt_ordered_Cons set_bt_insert dest: lex_less_trans)
qed (simp add: bt_ordered_def)

lemma bt_insert_last: "\<forall>k'\<in>fst ` set m. lex_less k' k \<Longrightarrow> bt_insert k v m = m @ [(k, v)]"
proof (induction k v m rule: bt_insert.induct)
  case (2 k v k' v' m)
  then have "lex_less k' k" by simp
  then have "k \<noteq> k'" "\<not> lex_less k k'" using lex_less_trans by fastforce+
  with 2 show ?case by auto
qed simp

section \<open>The invariant of the pool\<close>

abbreviation pool_txs :: "mempool \<Rightarrow> transaction list" where
  "pool_txs pool \<equiv> map (me_transaction \<circ> snd) pool"

abbreviation pool_bytes :: "mempool \<Rightarrow> nat" where
  "pool_bytes pool \<equiv> sum_list (map (me_encoded_bytes \<circ> snd) pool)"

definition entry_static :: "crypto \<Rightarrow> hash32 \<times> mempool_entry \<Rightarrow> bool" where
  "entry_static C item = (case item of (tid, entry) \<Rightarrow> me_txid entry = tid \<and> tid = txid C (me_transaction entry) \<and>
     (\<exists>frame. encode_transaction C (me_transaction entry) = Ok frame \<and> me_encoded_bytes entry = length frame))"

definition entry_valid :: "crypto \<Rightarrow> chain_state \<Rightarrow> hash32 \<times> mempool_entry \<Rightarrow> bool" where
  "entry_valid C st item = (case item of (_, entry) \<Rightarrow>
     required_relay_fee (me_encoded_bytes entry) \<le> me_fee_burned entry \<and>
     list_all (\<lambda>i. utxo_get (cs_utxos st) (ti_previous i) \<noteq> None) (tx_inputs (me_transaction entry)) \<and>
     (\<exists>sv. validate_transactions_for_next_block C st [me_transaction entry] = Ok sv \<and> sv_total_burned_fees sv = me_fee_burned entry))"

definition mempool_inv :: "crypto \<Rightarrow> chain_state \<Rightarrow> mempool \<times> nat \<Rightarrow> bool" where
  "mempool_inv C st s = (case s of (pool, bytes) \<Rightarrow>
     bt_ordered pool \<and> list_all (entry_static C) pool \<and> list_all (entry_valid C st) pool \<and> bytes = pool_bytes pool \<and>
     bytes \<le> MAX_MEMPOOL_BYTES \<and> length pool \<le> MAX_MEMPOOL_TRANSACTIONS \<and>
     is_ok (validate_transactions_for_next_block C st (pool_txs pool)))"

lemma is_ok_iff: "is_ok m \<longleftrightarrow> (\<exists>x. m = Ok x)"
  by (cases m) (auto simp: is_ok_def)

lemma validate_no_transactions: "is_ok (validate_transactions_for_next_block C st [])"
  by (simp add: is_ok_def validate_transactions_for_next_block_def validate_transaction_set_resources_def
      validate_transaction_resources_def wire_limits)

lemma validate_mempool_transaction_Ok:
  assumes "validate_mempool_transaction C st t n spends = Ok fee"
  shows "list_all (\<lambda>i. utxo_get (cs_utxos st) (ti_previous i) \<noteq> None \<and> ti_previous i \<notin> spends) (tx_inputs t)"
    "required_relay_fee n \<le> fee"
    "\<exists>sv. validate_transactions_for_next_block C st [t] = Ok sv \<and> sv_total_burned_fees sv = fee"
proof -
  from assms have "list_all (\<lambda>i. check_mempool_input st spends i = Ok ()) (tx_inputs t)"
    by (auto simp: validate_mempool_transaction_def unit_loop_Ok)
  then show "list_all (\<lambda>i. utxo_get (cs_utxos st) (ti_previous i) \<noteq> None \<and> ti_previous i \<notin> spends) (tx_inputs t)"
    by (simp add: list_all_iff check_mempool_input_def)
  show "required_relay_fee n \<le> fee"
    "\<exists>sv. validate_transactions_for_next_block C st [t] = Ok sv \<and> sv_total_burned_fees sv = fee"
    using assms by (auto simp: validate_mempool_transaction_def Let_def not_less)
qed

lemma bt_insert_parts:
  assumes "k \<notin> fst ` set pool"
  shows "length (bt_insert k e pool) = Suc (length pool)" "pool_bytes (bt_insert k e pool) = me_encoded_bytes e + pool_bytes pool"
  using assms by (induction k e pool rule: bt_insert.induct) auto

lemma ordered_transactions_insert:
  assumes "tid \<notin> fst ` set pool"
  shows "ordered_transactions tid (me_transaction e) pool = pool_txs (bt_insert tid e pool)"
proof -
  let ?f = "\<lambda>(existing, entry) (ordered, inserted). if \<not> inserted \<and> lex_less tid existing
    then (ordered @ [me_transaction e] @ [me_transaction entry], True) else (ordered @ [me_transaction entry], inserted)"
  have tail: "fold ?f pool (acc, True) = (acc @ pool_txs pool, True)" for acc and pool :: mempool
    by (induction pool arbitrary: acc) auto
  have "(case fold ?f pool (acc, False) of (ordered, inserted) \<Rightarrow> if \<not> inserted then ordered @ [me_transaction e] else ordered) =
      acc @ pool_txs (bt_insert tid e pool)" if "tid \<notin> fst ` set pool" for acc and pool :: mempool
    using that by (induction pool arbitrary: acc) (auto simp: tail)
  from this [OF assms, of "[]"] show ?thesis by (simp add: ordered_transactions_def)
qed

lemma submit_transaction_inv:
  assumes "mempool_inv C st s" "submit_transaction C st s t = Ok (entry, s')"
  shows "mempool_inv C st s'"
proof -
  obtain pool bytes where s: "s = (pool, bytes)" by (cases s)
  note I = assms(1) [unfolded s mempool_inv_def prod.case]
  let ?tid = "txid C t"
  from assms(2) obtain frame fee next_bytes where
    enc: "encode_transaction C t = Ok frame" and fresh: "map_of pool ?tid = None" and len: "length pool < MAX_MEMPOOL_TRANSACTIONS"
    and nb: "next_bytes = bytes + length frame" "next_bytes \<le> MAX_MEMPOOL_BYTES"
    and fee: "validate_mempool_transaction C st t (length frame) (mempool_spent_inputs pool) = Ok fee"
    and all: "is_ok (validate_transactions_for_next_block C st (ordered_transactions ?tid t pool))"
    and entry: "entry = \<lparr>me_txid = ?tid, me_transaction = t, me_encoded_bytes = length frame, me_fee_burned = fee\<rparr>"
    and s': "s' = (bt_insert ?tid entry pool, next_bytes)"
    by (auto simp: s submit_transaction_def Let_def is_ok_iff not_le not_less usize_add_Some)
  have new: "?tid \<notin> fst ` set pool" using fresh by (simp add: map_of_eq_None_iff)
  have tx: "me_transaction entry = t" by (simp add: entry)
  note v = validate_mempool_transaction_Ok [OF fee]
  have "entry_static C (?tid, entry)" using enc by (simp add: entry_static_def entry)
  moreover have "entry_valid C st (?tid, entry)" using v by (simp add: entry_valid_def entry list_all_iff)
  ultimately show ?thesis
    using I new len nb all bt_insert_ordered [of pool ?tid entry] ordered_transactions_insert [OF new, of entry]
    by (auto simp: mempool_inv_def s' bt_insert_parts set_bt_insert list_all_iff tx entry)
qed

section \<open>Revalidation\<close>

text \<open>What the loop keeps: the retained pool is valid for the new state, and its companions are its
  transactions, its spends and its bytes.\<close>

definition retained_ok :: "crypto \<Rightarrow> chain_state \<Rightarrow> mempool \<times> transaction list \<times> out_point set \<times> nat \<Rightarrow> bool" where
  "retained_ok C st s = (case s of (pool, txs, spends, bytes) \<Rightarrow>
     bt_ordered pool \<and> list_all (entry_static C) pool \<and> list_all (entry_valid C st) pool \<and>
     txs = pool_txs pool \<and> spends = mempool_spent_inputs pool \<and> bytes = pool_bytes pool \<and>
     is_ok (validate_transactions_for_next_block C st txs))"

lemma bt_ordered_snoc: "bt_ordered (m @ [(k, v)]) \<longleftrightarrow> bt_ordered m \<and> (\<forall>k'\<in>fst ` set m. lex_less k' k)"
  by (auto simp: bt_ordered_def sorted_wrt_append)

lemma revalidate_entry_cases:
  assumes "retained_ok C st (pool, txs, spends, bytes)" "entry_static C (tid, entry)" "\<forall>k\<in>fst ` set pool. lex_less k tid"
  shows "revalidate_entry C st confirmed (tid, entry) (pool, txs, spends, bytes) = (pool, txs, spends, bytes) \<or>
    (\<exists>fee pool' txs' spends' bytes'. tid \<notin> confirmed \<and> pool' = pool @ [(tid, entry\<lparr>me_fee_burned := fee\<rparr>)] \<and>
       bytes' = bytes + me_encoded_bytes entry \<and> retained_ok C st (pool', txs', spends', bytes') \<and>
       revalidate_entry C st confirmed (tid, entry) (pool, txs, spends, bytes) = (pool', txs', spends', bytes'))"
proof (cases "tid \<in> confirmed \<or> \<not> is_ok (validate_mempool_transaction C st (me_transaction entry) (me_encoded_bytes entry) spends) \<or>
    \<not> is_ok (validate_transactions_for_next_block C st (txs @ [me_transaction entry]))")
  case True
  then show ?thesis by (auto simp: revalidate_entry_def is_ok_def split: outcome.splits)
next
  case False
  then obtain fee where fee: "validate_mempool_transaction C st (me_transaction entry) (me_encoded_bytes entry) spends = Ok fee"
    by (auto simp: is_ok_iff)
  let ?e = "entry\<lparr>me_fee_burned := fee\<rparr>"
  note I = assms(1) [unfolded retained_ok_def prod.case]
  have step: "revalidate_entry C st confirmed (tid, entry) (pool, txs, spends, bytes) =
      (pool @ [(tid, ?e)], txs @ [me_transaction entry],
       spends \<union> set (map ti_previous (tx_inputs (me_transaction entry))), bytes + me_encoded_bytes entry)"
    using False fee bt_insert_last [OF assms(3)] by (simp add: revalidate_entry_def)
  have "entry_valid C st (tid, ?e)"
    using validate_mempool_transaction_Ok [OF fee] by (simp add: entry_valid_def list_all_iff)
  moreover have "entry_static C (tid, ?e)" using assms(2) by (simp add: entry_static_def)
  ultimately have "retained_ok C st (pool @ [(tid, ?e)], txs @ [me_transaction entry],
       spends \<union> set (map ti_previous (tx_inputs (me_transaction entry))), bytes + me_encoded_bytes entry)"
    using I False assms(3) by (auto simp: retained_ok_def bt_ordered_snoc mempool_spent_inputs_def)
  with step False show ?thesis by blast
qed

lemma revalidate_loop:
  assumes "retained_ok C st (pool, txs, spends, bytes)" "list_all (entry_static C) old" "bt_ordered old"
    "\<forall>k\<in>fst ` set pool. \<forall>k'\<in>fst ` set old. lex_less k k'"
    "fold (revalidate_entry C st confirmed) old (pool, txs, spends, bytes) = (pool', txs', spends', bytes')"
  shows "retained_ok C st (pool', txs', spends', bytes') \<and> length pool' \<le> length pool + length old \<and>
    bytes' \<le> bytes + pool_bytes old \<and> fst ` set pool' \<subseteq> fst ` set pool \<union> (fst ` set old - confirmed)"
  using assms
proof (induction old arbitrary: pool txs spends bytes)
  case (Cons item old)
  obtain tid entry where item: "item = (tid, entry)" by (cases item)
  have st: "entry_static C (tid, entry)" and lt: "\<forall>k\<in>fst ` set pool. lex_less k tid"
    and ord: "\<forall>k'\<in>fst ` set old. lex_less tid k'" "bt_ordered old" and rest: "list_all (entry_static C) old"
    using Cons.prems by (auto simp: item bt_ordered_Cons)
  consider "revalidate_entry C st confirmed item (pool, txs, spends, bytes) = (pool, txs, spends, bytes)"
    | fee p1 t1 s1 b1 where "tid \<notin> confirmed" "p1 = pool @ [(tid, entry\<lparr>me_fee_burned := fee\<rparr>)]" "b1 = bytes + me_encoded_bytes entry"
      "retained_ok C st (p1, t1, s1, b1)" "revalidate_entry C st confirmed item (pool, txs, spends, bytes) = (p1, t1, s1, b1)"
    using revalidate_entry_cases [OF Cons.prems(1) st lt, of confirmed] unfolding item by blast
  then show ?case
  proof cases
    case 1
    with Cons.prems(5) have "fold (revalidate_entry C st confirmed) old (pool, txs, spends, bytes) = (pool', txs', spends', bytes')"
      by simp
    moreover have "\<forall>k\<in>fst ` set pool. \<forall>k'\<in>fst ` set old. lex_less k k'" using Cons.prems(4) by auto
    ultimately have IH: "retained_ok C st (pool', txs', spends', bytes') \<and> length pool' \<le> length pool + length old \<and>
        bytes' \<le> bytes + pool_bytes old \<and> fst ` set pool' \<subseteq> fst ` set pool \<union> (fst ` set old - confirmed)"
      using Cons.IH [OF Cons.prems(1) rest ord(2)] by blast
    then show ?thesis by (auto simp: item comp_def)
  next
    case 2
    with Cons.prems(5) have "fold (revalidate_entry C st confirmed) old (p1, t1, s1, b1) = (pool', txs', spends', bytes')" by simp
    moreover have "\<forall>k\<in>fst ` set p1. \<forall>k'\<in>fst ` set old. lex_less k k'" using Cons.prems(4) ord(1) 2(2) by (auto simp: item)
    ultimately have IH: "retained_ok C st (pool', txs', spends', bytes') \<and> length pool' \<le> length p1 + length old \<and>
        bytes' \<le> b1 + pool_bytes old \<and> fst ` set pool' \<subseteq> fst ` set p1 \<union> (fst ` set old - confirmed)"
      using Cons.IH [OF 2(4) rest ord(2)] by blast
    then show ?thesis using 2(1-3) by (auto simp: item comp_def)
  qed
qed auto

lemma revalidate_mempool_inv:
  assumes "mempool_inv C st0 (old, bytes0)" "revalidate_mempool C st confirmed old = (pool, bytes)"
  shows "mempool_inv C st (pool, bytes)" "fst ` set pool \<subseteq> fst ` set old - confirmed"
proof -
  note I = assms(1) [unfolded mempool_inv_def prod.case]
  obtain txs spends where f: "fold (revalidate_entry C st confirmed) old ([], [], {}, 0) = (pool, txs, spends, bytes)"
    using assms(2) by (auto simp: revalidate_mempool_def split: prod.splits)
  have start: "retained_ok C st ([], [], {}, 0)"
    using validate_no_transactions by (simp add: retained_ok_def bt_ordered_def mempool_spent_inputs_def)
  from revalidate_loop [OF start _ _ _ f] I
  have r: "retained_ok C st (pool, txs, spends, bytes) \<and> length pool \<le> length old \<and> bytes \<le> pool_bytes old \<and>
      fst ` set pool \<subseteq> fst ` set old - confirmed" by auto
  then show "fst ` set pool \<subseteq> fst ` set old - confirmed" by blast
  from r I show "mempool_inv C st (pool, bytes)" by (auto simp: mempool_inv_def retained_ok_def)
qed

end
