(* ===== verification/CF_Records.thy ===== *)
theory CF_Records
  imports CF_Fork
begin

text \<open>
  The append-only block log of \<open>crates/cmfd-node/src/lib.rs\<close>: the record format and the strict
  replay that rebuilds the active state and the fork index when a node starts. The file is its
  byte string; a read that meets the end of it fails as \<open>read_exact\<close> does.
\<close>

section \<open>Records\<close>

definition RECORD_MAGIC :: "byte list" where "RECORD_MAGIC = bytes_of_string ''CMFR''"
definition RECORD_VERSION :: u16 where "RECORD_VERSION = 1"
definition RECORD_HEADER_BYTES :: nat where "RECORD_HEADER_BYTES = 20"
definition RECORD_CHECKSUM_BYTES :: nat where "RECORD_CHECKSUM_BYTES = 32"
definition RECORD_CHECKSUM_DOMAIN :: string where "RECORD_CHECKSUM_DOMAIN = ''CMFD/NODE/BLOCK-RECORD/V1''"

definition record_checksum :: "crypto \<Rightarrow> byte list \<Rightarrow> hash32" where
  "record_checksum C bytes = b3_derive C RECORD_CHECKSUM_DOMAIN bytes"

definition encode_record :: "crypto \<Rightarrow> u64 \<Rightarrow> byte list \<Rightarrow> (node_error, byte list) outcome" where
  "encode_record C accepted_at frame =
     (if 2 ^ 32 \<le> length frame then Err (ND_CorruptLog LF_BlockLength)
      else if MAX_BLOCK_BYTES < length frame then Err (ND_CorruptLog LF_BlockLimit)
      else
        let body = RECORD_MAGIC @ to_le_bytes RECORD_VERSION @ to_le_bytes (0 :: u16) @ to_le_bytes accepted_at @
                   to_le_bytes (word_of_nat (length frame) :: u32) @ frame
        in Ok (body @ record_checksum C body))"

section \<open>Replay\<close>

definition replay_block ::
  "crypto \<Rightarrow> network_params \<Rightarrow> pow_verifier \<Rightarrow> chain_state \<times> block_index \<Rightarrow> u64 \<Rightarrow> u64 \<Rightarrow> byte list
     \<Rightarrow> (node_error, chain_state \<times> block_index) outcome" where
  "replay_block C params verifier s record_index accepted_at block_bytes =
     obind (map_err (\<lambda>e. ND_CorruptLog (LF_RecordUndecodable record_index e))
              (decode_block C block_bytes (np_network_id params))) (\<lambda>b.
     obind (map_err (\<lambda>e. ND_CorruptLog (LF_RecordUnencodable record_index e)) (encode_block C b)) (\<lambda>reencoded.
     if reencoded \<noteq> block_bytes then Err (ND_CorruptLog (LF_NotCanonical record_index))
     else
     obind (map_err (ND_ForkReplay record_index)
              (prepare_block C (fst s) (snd s) params verifier b accepted_at block_bytes)) (\<lambda>prepared.
     case commit_prepared s prepared of (s', result) \<Rightarrow>
       obind (map_err (ND_RestoreFork record_index) result) (\<lambda>_. Ok s'))))"

function replay_log ::
  "crypto \<Rightarrow> network_params \<Rightarrow> pow_verifier \<Rightarrow> chain_state \<times> block_index \<Rightarrow> u64 \<Rightarrow> byte list
     \<Rightarrow> (node_error, chain_state \<times> block_index) outcome" where
  "replay_log C params verifier s record_index bytes =
     (if bytes = [] then Ok s
      else if length bytes < RECORD_HEADER_BYTES then Err (ND_CorruptLog (LF_TruncatedHeader record_index))
      else
        let header = take RECORD_HEADER_BYTES bytes; rest = drop RECORD_HEADER_BYTES bytes in
        if take 4 header \<noteq> RECORD_MAGIC \<or> (from_le_bytes (take 2 (drop 4 header)) :: u16) \<noteq> RECORD_VERSION \<or>
           take 2 (drop 6 header) \<noteq> [0, 0]
        then Err (ND_CorruptLog (LF_InvalidHeader record_index))
        else
          let accepted_at = (from_le_bytes (take 8 (drop 8 header)) :: u64);
              block_len = unat (from_le_bytes (take 4 (drop 16 header)) :: u32) in
          if MAX_BLOCK_BYTES < block_len then Err (ND_CorruptLog (LF_RecordLimit record_index))
          else if length rest < block_len then Err (ND_CorruptLog (LF_TruncatedBlock record_index))
          else
            let block_bytes = take block_len rest; rest = drop block_len rest in
            if length rest < RECORD_CHECKSUM_BYTES then Err (ND_CorruptLog (LF_TruncatedChecksum record_index))
            else
              let checksum = take RECORD_CHECKSUM_BYTES rest; rest = drop RECORD_CHECKSUM_BYTES rest in
              if checksum \<noteq> record_checksum C (header @ block_bytes)
              then Err (ND_CorruptLog (LF_ChecksumMismatch record_index))
              else
                obind (replay_block C params verifier s record_index accepted_at block_bytes) (\<lambda>s.
                replay_log C params verifier s (record_index + 1) rest))"
  by pat_completeness auto
termination
  by (relation "measure (\<lambda>(C, params, verifier, s, record_index, bytes). length bytes)")
    (auto simp: RECORD_HEADER_BYTES_def)

declare replay_log.simps [simp del]

section \<open>Reading back what was written\<close>

lemma length_RECORD_MAGIC [simp]: "length RECORD_MAGIC = 4"
  by (simp add: RECORD_MAGIC_def bytes_of_string_def)

lemma zero_u16_bytes: "to_le_bytes (0 :: u16) = [0, 0]"
  by (simp add: to_le_bytes_def)

lemma encode_record_Ok:
  "encode_record C accepted_at frame = Ok r \<longleftrightarrow> length frame \<le> MAX_BLOCK_BYTES \<and>
     (let body = RECORD_MAGIC @ to_le_bytes RECORD_VERSION @ [0, 0] @ to_le_bytes accepted_at @
                 to_le_bytes (word_of_nat (length frame) :: u32) @ frame
      in r = body @ record_checksum C body)"
  by (auto simp: encode_record_def Let_def wire_limits zero_u16_bytes)

text \<open>Replaying a log that starts with a written record replays its block and goes on behind it.\<close>

lemma replay_log_record:
  assumes C: "crypto_ok C" and r: "encode_record C accepted_at frame = Ok r"
  shows "replay_log C params verifier s i (r @ rest) =
    obind (replay_block C params verifier s i accepted_at frame) (\<lambda>s. replay_log C params verifier s (i + 1) rest)"
proof -
  let ?h = "RECORD_MAGIC @ to_le_bytes RECORD_VERSION @ [0, 0] @ to_le_bytes accepted_at @
    to_le_bytes (word_of_nat (length frame) :: u32)"
  have len: "length frame \<le> MAX_BLOCK_BYTES" and rr: "r = ?h @ frame @ record_checksum C (?h @ frame)"
    using r by (simp_all add: encode_record_Ok Let_def)
  have h: "length ?h = 20" by simp
  have n: "unat (word_of_nat (length frame) :: u32) = length frame"
    using len by (simp add: unat_of_nat wire_limits)
  have ck: "length (record_checksum C x) = 32" for x by (simp add: record_checksum_def crypto_lengths [OF C])
  have t: "take 20 (?h @ x) = ?h" "drop 20 (?h @ x) = x" for x using h by simp_all
  have f: "take 4 ?h = RECORD_MAGIC" "take 2 (drop 4 ?h) = to_le_bytes RECORD_VERSION" "take 2 (drop 6 ?h) = [0, 0]"
    "take 8 (drop 8 ?h) = to_le_bytes accepted_at" "take 4 (drop 16 ?h) = to_le_bytes (word_of_nat (length frame) :: u32)"
    by simp_all
  have parts: "r @ rest \<noteq> []" "\<not> length (r @ rest) < 20" "take 20 (r @ rest) = ?h"
    "drop 20 (r @ rest) = frame @ record_checksum C (?h @ frame) @ rest"
    unfolding rr using t h by (simp_all del: length_append_singleton)
  show ?thesis
    unfolding replay_log.simps [of C params verifier s i "r @ rest"] RECORD_HEADER_BYTES_def RECORD_CHECKSUM_BYTES_def
      Let_def parts f
    using parts(1,2) len n ck by auto
qed

text \<open>A record that the reader accepts is one the writer writes.\<close>

lemma header_fields:
  assumes "length h = 20" "take 4 h = RECORD_MAGIC" "(from_le_bytes (take 2 (drop 4 h)) :: u16) = RECORD_VERSION"
    "take 2 (drop 6 h) = [0, 0]"
  shows "h = RECORD_MAGIC @ to_le_bytes RECORD_VERSION @ [0, 0] @ to_le_bytes (from_le_bytes (take 8 (drop 8 h)) :: u64) @
    to_le_bytes (from_le_bytes (take 4 (drop 16 h)) :: u32)"
proof -
  have split: "h = take 4 h @ take 2 (drop 4 h) @ take 2 (drop 6 h) @ take 8 (drop 8 h) @ take 4 (drop 16 h)"
    using append_take_drop_id [of 4 h] append_take_drop_id [of 2 "drop 4 h"] append_take_drop_id [of 2 "drop 6 h"]
      append_take_drop_id [of 8 "drop 8 h"] assms(1) by simp
  have "to_le_bytes RECORD_VERSION = take 2 (drop 4 h)"
    unfolding assms(3) [symmetric] using assms(1) by (simp add: le_simps)
  moreover have "to_le_bytes (from_le_bytes (take 8 (drop 8 h)) :: u64) = take 8 (drop 8 h)"
    "to_le_bytes (from_le_bytes (take 4 (drop 16 h)) :: u32) = take 4 (drop 16 h)"
    using assms(1) by (simp_all add: le_simps)
  ultimately show ?thesis using split assms(2,4) by simp
qed

lemma replay_log_Ok_cases:
  assumes C: "crypto_ok C" and ok: "replay_log C params verifier s i bytes = Ok s'"
  shows "bytes = [] \<and> s' = s \<or> (\<exists>accepted_at frame r rest s1. encode_record C accepted_at frame = Ok r \<and> bytes = r @ rest \<and>
    length rest < length bytes \<and>
    replay_block C params verifier s i accepted_at frame = Ok s1 \<and> replay_log C params verifier s1 (i + 1) rest = Ok s')"
proof (cases "bytes = []")
  case True
  with ok show ?thesis by (simp add: replay_log.simps)
next
  case False
  define h where "h = take 20 bytes"
  define at where "at = (from_le_bytes (take 8 (drop 8 h)) :: u64)"
  define w where "w = (from_le_bytes (take 4 (drop 16 h)) :: u32)"
  define frame where "frame = take (unat w) (drop 20 bytes)"
  define tl where "tl = drop (unat w) (drop 20 bytes)"
  have facts: "20 \<le> length bytes" "take 4 h = RECORD_MAGIC" "(from_le_bytes (take 2 (drop 4 h)) :: u16) = RECORD_VERSION"
    "take 2 (drop 6 h) = [0, 0]" "unat w \<le> MAX_BLOCK_BYTES" "unat w \<le> length (drop 20 bytes)" "32 \<le> length tl"
    "take 32 tl = record_checksum C (h @ frame)"
    and rest: "\<exists>s1. replay_block C params verifier s i at frame = Ok s1 \<and>
      replay_log C params verifier s1 (i + 1) (drop 32 tl) = Ok s'"
    using ok False unfolding replay_log.simps [of C params verifier s i bytes] RECORD_HEADER_BYTES_def RECORD_CHECKSUM_BYTES_def
      Let_def h_def [symmetric] at_def [symmetric] w_def [symmetric] frame_def [symmetric] tl_def [symmetric]
    by (simp_all add: not_less split: if_splits)
  have h: "h = RECORD_MAGIC @ to_le_bytes RECORD_VERSION @ [0, 0] @ to_le_bytes at @ to_le_bytes w"
    unfolding at_def w_def by (rule header_fields) (use facts in \<open>simp_all add: h_def\<close>)
  have frame: "length frame = unat w" using facts(6) by (simp add: frame_def)
  have "encode_record C at frame = Ok (h @ frame @ take 32 tl)"
    using facts(5,8) frame h by (simp add: encode_record_Ok Let_def)
  moreover have "bytes = (h @ frame @ take 32 tl) @ drop 32 tl"
  proof -
    have "frame @ tl = drop 20 bytes" unfolding frame_def tl_def by (rule append_take_drop_id)
    then show ?thesis using append_take_drop_id [of 20 bytes] by (simp add: h_def)
  qed
  moreover have "length (drop 32 tl) < length bytes" using False by (simp add: tl_def)
  ultimately show ?thesis using rest by blast
qed

section \<open>Logs and runs\<close>

definition encode_log :: "crypto \<Rightarrow> (u64 \<times> byte list) list \<Rightarrow> (node_error, byte list) outcome" where
  "encode_log C rs = obind (omap (\<lambda>(accepted_at, frame). encode_record C accepted_at frame) rs) (\<lambda>records. Ok (concat records))"

lemma encode_log_Nil [simp]: "encode_log C [] = Ok []"
  by (simp add: encode_log_def)

lemma encode_log_Cons:
  "encode_log C ((accepted_at, frame) # rs) = Ok bytes \<longleftrightarrow>
     (\<exists>r rest. encode_record C accepted_at frame = Ok r \<and> encode_log C rs = Ok rest \<and> bytes = r @ rest)"
  by (auto simp: encode_log_def)

lemma encode_log_snoc:
  "encode_log C (rs @ [(accepted_at, frame)]) = Ok bytes \<longleftrightarrow>
     (\<exists>front r. encode_log C rs = Ok front \<and> encode_record C accepted_at frame = Ok r \<and> bytes = front @ r)"
proof (induction rs arbitrary: bytes)
  case (Cons x rs)
  show ?case using Cons.IH by (cases x) (auto simp: encode_log_Cons)
qed (auto simp: encode_log_Cons)

lemma replay_block_step:
  assumes "crypto_ok C" "fork_run C params verifier rs st idx" "wf_block b" "encode_block C b = Ok frame"
    "prepare_block C st idx params verifier b accepted_at frame = Ok p"
    "commit_prepared (st, idx) p = ((st', idx'), Ok fees)"
  shows "replay_block C params verifier (st, idx) i accepted_at frame = Ok (st', idx')"
proof -
  note inv = fork_run_inv [OF assms(2,1), unfolded fork_inv_def]
  obtain base v where base: "rebuild_state_to C idx params verifier (bc_previous_block (bl_challenge b)) = Ok base"
    "validate_block C base b \<lparr>vc_now_unix_seconds = accepted_at\<rparr> = Ok v"
    and w: "work_at idx (bc_previous_block (bl_challenge b)) \<noteq> None"
    using prepare_block_Ok [OF assms(5)] inv by (metis option.distinct(1))
  have "index_contains idx (bc_previous_block (bl_challenge b))"
    using w by (auto simp: work_at_def index_contains_def split: if_splits)
  then obtain bs where "chain_run C params verifier bs base" using inv base(1) unfolding indexed_ok_def by fastforce
  then have "cs_params base = params" by (induction) (auto dest: chain_new_Ok(3) elim!: validate_and_apply_Ok)
  then have "bc_network_id (bl_challenge b) = np_network_id params" using base(2) by (auto elim!: validate_block_Ok)
  then have "decode_block C frame (np_network_id params) = Ok b"
    using assms(3,4) by (auto simp: decode_block_Ok [OF assms(1)] encode_block_Ok)
  with assms(4-6) show ?thesis by (simp add: replay_block_def)
qed

lemma replay_run:
  assumes "fork_run C params verifier rs st idx" "crypto_ok C" "chain_new C params verifier = Ok st0"
    "encode_log C rs = Ok bytes"
  shows "replay_log C params verifier (st0, index_new (np_genesis_hash params)) i (bytes @ rest) =
    replay_log C params verifier (st, idx) (i + word_of_nat (length rs)) rest"
  using assms
proof (induction arbitrary: bytes rest rule: fork_run.induct)
  case (fork_step rs st idx b frame accepted_at p st' idx' fees)
  from fork_step.prems(3) obtain front r where
    r: "encode_log C rs = Ok front" "encode_record C accepted_at frame = Ok r" "bytes = front @ r"
    unfolding encode_log_snoc by blast
  note step = replay_block_step [OF fork_step.prems(1) fork_step.hyps(1-5)]
  show ?case
    using fork_step.IH [OF fork_step.prems(1,2) r(1), of "r @ rest"] replay_log_record [OF fork_step.prems(1) r(2)] step
    by (simp add: r(3) ac_simps)
qed simp

lemma replay_block_Ok:
  assumes "crypto_ok C" "replay_block C params verifier s i accepted_at frame = Ok s1"
  shows "\<exists>b p fees. wf_block b \<and> encode_block C b = Ok frame \<and>
    prepare_block C (fst s) (snd s) params verifier b accepted_at frame = Ok p \<and> commit_prepared s p = (s1, Ok fees)"
proof -
  from assms(2) obtain b p where b: "decode_block C frame (np_network_id params) = Ok b" "encode_block C b = Ok frame"
    "prepare_block C (fst s) (snd s) params verifier b accepted_at frame = Ok p"
    and c: "(case commit_prepared s p of (s', result) \<Rightarrow> obind (map_err (ND_RestoreFork i) result) (\<lambda>_. Ok s')) = Ok s1"
    by (auto simp: replay_block_def)
  have "wf_block b" using b(1) by (simp add: decode_block_Ok [OF assms(1)])
  moreover have "\<exists>fees. commit_prepared s p = (s1, Ok fees)" using c by (cases "commit_prepared s p") auto
  ultimately show ?thesis using b by blast
qed

lemma replay_sound:
  assumes "crypto_ok C" "fork_run C params verifier rs (fst s) (snd s)" "replay_log C params verifier s i bytes = Ok s'"
  shows "\<exists>rs'. fork_run C params verifier (rs @ rs') (fst s') (snd s') \<and> encode_log C rs' = Ok bytes"
  using assms(2,3)
proof (induction "length bytes" arbitrary: bytes s rs i rule: less_induct)
  case less
  from replay_log_Ok_cases [OF assms(1) less.prems(2)] consider "bytes = []" "s' = s"
    | accepted_at frame r rest s1 where "encode_record C accepted_at frame = Ok r" "bytes = r @ rest"
      "length rest < length bytes" "replay_block C params verifier s i accepted_at frame = Ok s1"
      "replay_log C params verifier s1 (i + 1) rest = Ok s'" by blast
  then show ?case
  proof cases
    case 1
    with less.prems(1) show ?thesis by (intro exI [of _ "[]"]) simp
  next
    case 2
    from replay_block_Ok [OF assms(1) 2(4)] obtain b p fees where b: "wf_block b" "encode_block C b = Ok frame"
      "prepare_block C (fst s) (snd s) params verifier b accepted_at frame = Ok p"
      "commit_prepared (fst s, snd s) p = ((fst s1, snd s1), Ok fees)" by auto
    from less.hyps [OF 2(3) fork_step [OF less.prems(1) b] 2(5)] obtain rs' where
      "fork_run C params verifier (rs @ (accepted_at, frame) # rs') (fst s') (snd s')" "encode_log C rs' = Ok rest" by auto
    with 2(1,2) show ?thesis by (intro exI [of _ "(accepted_at, frame) # rs'"]) (auto simp: encode_log_Cons)
  qed
qed

section \<open>Properties\<close>

text \<open>C7. Replaying a block log is exact: a byte string replays to an active state and a fork index if
  and only if it is the concatenation of the records of a run of the fork choice that leads to
  them. Hence a restart restores the state of the node that wrote the log, and a truncated,
  altered or reordered log either is such a run itself or is refused.\<close>

theorem log_replay_is_exact:
  assumes "crypto_ok C" "chain_new C params verifier = Ok st0"
  shows "replay_log C params verifier (st0, index_new (np_genesis_hash params)) 0 bytes = Ok (st, idx) \<longleftrightarrow>
    (\<exists>rs. fork_run C params verifier rs st idx \<and> encode_log C rs = Ok bytes)"
proof
  assume "replay_log C params verifier (st0, index_new (np_genesis_hash params)) 0 bytes = Ok (st, idx)"
  from replay_sound [OF assms(1) _ this] fork_start [OF assms(2)]
  show "\<exists>rs. fork_run C params verifier rs st idx \<and> encode_log C rs = Ok bytes" by fastforce
next
  assume "\<exists>rs. fork_run C params verifier rs st idx \<and> encode_log C rs = Ok bytes"
  then obtain rs where rs: "fork_run C params verifier rs st idx" "encode_log C rs = Ok bytes" by blast
  from replay_run [OF rs(1) assms rs(2), of 0 "[]"]
  show "replay_log C params verifier (st0, index_new (np_genesis_hash params)) 0 bytes = Ok (st, idx)"
    by (simp add: replay_log.simps [of _ _ _ "(st, idx)"])
qed

lemma demo_first_wf: "wf_block demo_first"
  by (simp add: wf_block_def demo_first_def demo_mined_def wf_challenge_def wf_proof_def demo_proof_def wf_output_def
      wf_lock_def coinbase_new_def demo_params_def)

text \<open>The first block of the example chain as a record of a log.\<close>

lemma demo_fork_run:
  "\<exists>frame st idx. encode_block demo_crypto demo_first = Ok frame \<and> cs_tip st = block_id demo_crypto demo_first \<and>
     fork_run demo_crypto demo_params (PV_V1Legacy demo_verifier) [(2000, frame)] st idx"
proof -
  let ?C = demo_crypto and ?V = "PV_V1Legacy demo_verifier" and ?idx = "index_new (np_genesis_hash demo_params)"
  obtain frame where frame: "encode_block ?C demo_first = Ok frame"
    using demo_mined_encodes [of "[]" "replicate 32 2" 1 2000 0] by (auto simp: demo_first_def)
  obtain v where v: "validate_block ?C demo_genesis demo_first \<lparr>vc_now_unix_seconds = 2000\<rparr> = Ok v"
    using demo_first_applies by (auto simp: validate_and_apply_def demo_context_def)
  have bid: "block_id ?C demo_first = replicate 32 16" by (simp add: block_id_def demo_crypto_simps BLOCK_ID_DOMAIN_def)
  have par: "bc_previous_block (bl_challenge demo_first) = replicate 32 2" "cs_tip demo_genesis = replicate 32 2"
    "np_genesis_hash demo_params = replicate 32 2" "bc_target (bl_challenge demo_first) = replicate 32 255"
    by (simp_all add: demo_first_def demo_mined_def demo_genesis_def demo_params_def)
  have work: "\<exists>w. add_chain_work 0 (replicate 32 255) = Ok w"
  proof -
    have "be_nat (replicate 32 255) \<noteq> 0" by (simp add: be_nat_zero_iff zero32_def replicate_32_eq)
    then obtain w where "block_work (replicate 32 255) = Ok w" using block_work_exact [of "replicate 32 255"] by auto
    moreover have "unat w < 2 ^ 512" using unsigned_less [of w] by simp
    ultimately show ?thesis by (simp add: add_chain_work_def)
  qed
  then obtain p where p: "prepare_block ?C demo_genesis ?idx demo_params ?V demo_first 2000 frame = Ok p"
    using v by (auto simp: prepare_block_def Let_def index_contains_def work_at_def index_new_def par bid replicate_32_eq)
  have run: "fork_run ?C demo_params ?V [] demo_genesis ?idx" by (rule fork_start [OF demo_chain_new])
  from commit_prepared_step [OF crypto_ok_demo fork_run_inv [OF run crypto_ok_demo] demo_first_wf frame p] obtain st idx fees where
    c: "commit_prepared (demo_genesis, ?idx) p = ((st, idx), Ok fees)"
    and tip: "cs_tip st = (if bi_active_work ?idx < pb_cumulative_work p then block_id ?C demo_first else cs_tip demo_genesis)"
    by blast
  have "bi_active_work ?idx < pb_cumulative_work p"
  proof -
    have "add_chain_work 0 (replicate 32 255) = Ok (pb_cumulative_work p)"
      using p v by (auto simp: prepare_block_def Let_def index_contains_def work_at_def index_new_def par bid replicate_32_eq)
    from add_chain_work_increases [OF this] show ?thesis by (simp add: index_new_def)
  qed
  then show ?thesis using fork_step [OF run demo_first_wf frame p c] frame tip by auto
qed

theorem log_replay_is_exact_witness:
  "\<exists>bytes st idx. replay_log demo_crypto demo_params (PV_V1Legacy demo_verifier)
      (demo_genesis, index_new (np_genesis_hash demo_params)) 0 bytes = Ok (st, idx) \<and>
    cs_tip st = block_id demo_crypto demo_first"
proof -
  obtain frame st idx where f: "encode_block demo_crypto demo_first = Ok frame" "cs_tip st = block_id demo_crypto demo_first"
    "fork_run demo_crypto demo_params (PV_V1Legacy demo_verifier) [(2000, frame)] st idx" using demo_fork_run by blast
  have "length frame \<le> MAX_BLOCK_BYTES"
    using f(1) by (auto simp: encode_block_Ok block_sizes_def length_frame_bytes wire_limits)
  then obtain bytes where "encode_log demo_crypto [(2000, frame)] = Ok bytes"
    by (auto simp: encode_log_def encode_record_def Let_def wire_limits)
  with log_replay_is_exact [OF crypto_ok_demo demo_chain_new, of bytes st idx] f(2,3) show ?thesis by blast
qed

end
