(* ===== verification/CF_Node.thy ===== *)
theory CF_Node
  imports CF_Mempool CF_Records
begin

text \<open>
  The node of \<open>crates/cmfd-node/src/lib.rs\<close>: block submission with its durable append, transaction
  submission, and the block template. The node's state holds the fields these operations read and
  write; the log file is its byte string, and the outcome of an append is an argument.

  \<open>node_run\<close> relates a node to the records it has appended; its invariant joins those of the fork
  choice, the log and the mempool.
\<close>

section \<open>State\<close>

record node =
  nd_params :: network_params
  nd_verifier :: pow_verifier
  nd_state :: chain_state
  nd_index :: block_index
  nd_mempool :: mempool
  nd_mempool_bytes :: nat
  nd_log :: "byte list"
  nd_storage_faulted :: bool

record block_template =
  bt_challenge :: block_challenge
  bt_coinbase :: coinbase
  bt_transactions :: "transaction list"
  bt_total_fees_burned :: u64

text \<open>What the file system does with an append: everything is durable, the write fails after some
  bytes, or the write succeeds and the sync fails.\<close>

datatype append_io = IO_Durable | IO_WriteFails nat | IO_SyncFails

section \<open>Operations\<close>

definition node_open ::
  "crypto \<Rightarrow> network_params \<Rightarrow> pow_verifier \<Rightarrow> byte list \<Rightarrow> (node_error, node) outcome" where
  "node_open C params verifier log =
     obind (map_err ND_Chain (chain_new C params verifier)) (\<lambda>state.
     obind (replay_log C params verifier (state, index_new (np_genesis_hash params)) 0 log) (\<lambda>(state, idx).
     Ok \<lparr>nd_params = params, nd_verifier = verifier, nd_state = state, nd_index = idx, nd_mempool = [],
         nd_mempool_bytes = 0, nd_log = log, nd_storage_faulted = False\<rparr>))"

definition node_submit_transaction ::
  "crypto \<Rightarrow> node \<Rightarrow> transaction \<Rightarrow> (node_error, mempool_entry \<times> node) outcome" where
  "node_submit_transaction C nd t =
     obind (submit_transaction C (nd_state nd) (nd_mempool nd, nd_mempool_bytes nd) t) (\<lambda>(entry, pool, bytes).
     Ok (entry, nd\<lparr>nd_mempool := pool, nd_mempool_bytes := bytes\<rparr>))"

definition node_revalidate :: "crypto \<Rightarrow> hash32 set \<Rightarrow> node \<Rightarrow> node" where
  "node_revalidate C confirmed nd =
     (case revalidate_mempool C (nd_state nd) confirmed (nd_mempool nd) of
        (pool, bytes) \<Rightarrow> nd\<lparr>nd_mempool := pool, nd_mempool_bytes := bytes\<rparr>)"

definition submit_block :: "crypto \<Rightarrow> append_io \<Rightarrow> node \<Rightarrow> block \<Rightarrow> u64 \<Rightarrow> node \<times> (node_error, u64) outcome" where
  "submit_block C io nd b accepted_at =
     (if nd_storage_faulted nd then (nd, Err ND_StorageFaulted)
      else
      let previous_tip = cs_tip (nd_state nd); confirmed = set (map (txid C) (bl_transactions b)) in
      try_in nd (map_err ND_Wire (encode_block C b)) (\<lambda>frame.
      try_in nd (prepare_block C (nd_state nd) (nd_index nd) (nd_params nd) (nd_verifier nd) b accepted_at frame) (\<lambda>prepared.
      try_in nd (encode_record C accepted_at frame) (\<lambda>record_bytes.
      case io of
        IO_WriteFails n \<Rightarrow>
          (nd\<lparr>nd_log := nd_log nd @ take n record_bytes, nd_storage_faulted := True\<rparr>, Err ND_Io)
      | IO_SyncFails \<Rightarrow> (nd\<lparr>nd_log := nd_log nd @ record_bytes, nd_storage_faulted := True\<rparr>, Err ND_Io)
      | IO_Durable \<Rightarrow>
          (case commit_prepared (nd_state nd, nd_index nd) prepared of ((state, idx), result) \<Rightarrow>
             let nd = nd\<lparr>nd_log := nd_log nd @ record_bytes, nd_state := state, nd_index := idx\<rparr> in
             case result of
               Ok fees \<Rightarrow> (if cs_tip state \<noteq> previous_tip then node_revalidate C confirmed nd else nd, Ok fees)
             | other \<Rightarrow> (nd\<lparr>nd_storage_faulted := True\<rparr>, other))))))"

definition build_template :: "crypto \<Rightarrow> node \<Rightarrow> hash32 \<Rightarrow> u64 \<Rightarrow> (node_error, block_template) outcome" where
  "build_template C nd miner_destination now_unix_seconds =
     (if nd_storage_faulted nd then Err ND_StorageFaulted
      else if \<not> key_from_bytes C miner_destination then Err ND_InvalidMinerDestination
      else
      obind (median_time_past (nd_state nd)) (\<lambda>median.
      obind (ok_or ND_TemplateTimeUnavailable (checked_add median 1)) (\<lambda>earliest.
      obind (ok_or ND_TemplateTimeUnavailable (checked_add now_unix_seconds (np_max_future_offset_secs (nd_params nd)))) (\<lambda>latest.
      let timestamp = max now_unix_seconds earliest in
      if latest < timestamp then Err ND_TemplateTimeUnavailable
      else
      let height = cs_next_height (nd_state nd); transactions = pool_txs (nd_mempool nd) in
      obind (map_err ND_Chain (validate_transactions_for_next_block C (nd_state nd) transactions)) (\<lambda>validation.
      obind (map_err ND_Economics (mp_allocation (np_monetary_policy (nd_params nd)) height (sv_total_burned_fees validation))) (\<lambda>alloc.
      let coinbase = coinbase_new height alloc miner_destination (np_rewards (nd_params nd));
          root = merkle_root C (coinbase_commitment C coinbase (np_network_id (nd_params nd)) # map (txid C) transactions) in
      obind (map_err ND_Chain (expected_target (nd_state nd))) (\<lambda>target.
      Ok \<lparr>bt_challenge = \<lparr>bc_network_id = np_network_id (nd_params nd), bc_previous_block = cs_tip (nd_state nd),
            bc_transaction_root = root, bc_height = height, bc_timestamp = timestamp, bc_target = target\<rparr>,
          bt_coinbase = coinbase, bt_transactions = transactions,
          bt_total_fees_burned = sv_total_burned_fees validation\<rparr>)))))))"

text \<open>The block that a miner makes of a template and a proof.\<close>

definition template_with_proof :: "block_template \<Rightarrow> block_proof \<Rightarrow> block" where
  "template_with_proof tpl proof = \<lparr>bl_version = BLOCK_VERSION, bl_challenge = bt_challenge tpl, bl_proof = proof,
     bl_coinbase = bt_coinbase tpl, bl_transactions = bt_transactions tpl\<rparr>"

definition mine_once ::
  "crypto \<Rightarrow> append_io \<Rightarrow> node \<Rightarrow> hash32 \<Rightarrow> u64 \<Rightarrow> u64 \<Rightarrow> node \<times> (node_error, block) outcome" where
  "mine_once C io nd miner_destination now_unix_seconds attempts =
     try_in nd (build_template C nd miner_destination now_unix_seconds) (\<lambda>tpl.
     try_in nd (map_err ND_Pow (pow_mine C (nd_verifier nd) (bt_challenge tpl) 0 attempts)) (\<lambda>proof.
     case proof of
       BP_V1Legacy _ \<Rightarrow> (nd, Err (ND_CorruptLog LF_NonV2Proof))
     | BP_V2Reference _ \<Rightarrow>
         let b = template_with_proof tpl proof in
         (case submit_block C io nd b now_unix_seconds of (nd, result) \<Rightarrow> (nd, obind result (\<lambda>_. Ok b)))))"

section \<open>Runs of a node\<close>

inductive node_run :: "crypto \<Rightarrow> network_params \<Rightarrow> pow_verifier \<Rightarrow> (u64 \<times> byte list) list \<Rightarrow> node \<Rightarrow> bool"
  for C params verifier where
    node_start: "node_open C params verifier [] = Ok nd \<Longrightarrow> node_run C params verifier [] nd"
  | node_transaction: "\<lbrakk>node_run C params verifier rs nd; node_submit_transaction C nd t = Ok (entry, nd')\<rbrakk>
      \<Longrightarrow> node_run C params verifier rs nd'"
  | node_block: "\<lbrakk>node_run C params verifier rs nd; wf_block b; encode_block C b = Ok frame;
      submit_block C io nd b accepted_at = (nd', Ok fees)\<rbrakk>
      \<Longrightarrow> node_run C params verifier (rs @ [(accepted_at, frame)]) nd'"

definition node_inv :: "crypto \<Rightarrow> network_params \<Rightarrow> pow_verifier \<Rightarrow> (u64 \<times> byte list) list \<Rightarrow> node \<Rightarrow> bool" where
  "node_inv C params verifier rs nd \<longleftrightarrow> nd_params nd = params \<and> nd_verifier nd = verifier \<and> \<not> nd_storage_faulted nd \<and>
     fork_run C params verifier rs (nd_state nd) (nd_index nd) \<and> encode_log C rs = Ok (nd_log nd) \<and>
     mempool_inv C (nd_state nd) (nd_mempool nd, nd_mempool_bytes nd)"

lemma replay_log_Nil [simp]: "replay_log C params verifier s i [] = Ok s"
  by (simp add: replay_log.simps)

lemma mempool_inv_empty: "mempool_inv C st ([], 0)"
  using validate_no_transactions by (simp add: mempool_inv_def bt_ordered_def)

lemma frame_length: "crypto_ok C \<Longrightarrow> encode_block C b = Ok frame \<Longrightarrow> length frame \<le> MAX_BLOCK_BYTES"
  by (auto simp: encode_block_Ok block_sizes_def length_frame_bytes wire_limits)

lemma encode_record_total: "length frame \<le> MAX_BLOCK_BYTES \<Longrightarrow> \<exists>r. encode_record C accepted_at frame = Ok r"
  by (simp add: encode_record_def Let_def wire_limits)

text \<open>When the tip does not move, the active state does not change.\<close>

lemma rebuild_same_tip:
  assumes "crypto_ok C" "fork_run C params verifier rs st idx" "wf_block b" "encode_block C b = Ok frame"
    "prepare_block C st idx params verifier b accepted_at frame = Ok p"
    "commit_prepared (st, idx) p = ((st', idx'), Ok fees)" "cs_tip st' = cs_tip st"
  shows "st' = st"
proof -
  note inv = fork_run_inv [OF assms(2,1)]
  have "index_contains idx (cs_tip st)" "rebuild_state_to C idx params verifier (cs_tip st) = Ok st"
    using inv by (auto simp: fork_inv_def)
  moreover have "\<not> index_contains idx (block_id C b)"
    using assms(5) by (auto simp: prepare_block_def Let_def)
  ultimately have new: "cs_tip st \<noteq> block_id C b" by auto
  from commit_prepared_step [OF assms(1) inv assms(3-5)] assms(6,7) new
  have "\<not> bi_active_work idx < pb_cumulative_work p" by (auto split: if_splits)
  then show ?thesis using assms(6)
    by (auto simp: commit_prepared_def try_in_def Let_def split: validated_candidate.splits outcome.splits if_splits prod.splits)
qed

text \<open>The three results of submitting a block.\<close>

lemma submit_block_cases:
  assumes C: "crypto_ok C" and inv: "node_inv C params verifier rs nd" and wf: "wf_block b"
    and sub: "submit_block C io nd b accepted_at = (nd', result)"
  obtains (refused) "nd' = nd" "\<not> is_ok result"
    | (storage) r where "io \<noteq> IO_Durable" "result = Err ND_Io"
        "nd' = nd\<lparr>nd_log := nd_log nd @ r, nd_storage_faulted := True\<rparr>"
    | (accepted) frame fees where "result = Ok fees" "encode_block C b = Ok frame"
        "node_inv C params verifier (rs @ [(accepted_at, frame)]) nd'"
proof -
  note I = inv [unfolded node_inv_def]
  show thesis
  proof (cases "\<exists>frame p. encode_block C b = Ok frame \<and>
      prepare_block C (nd_state nd) (nd_index nd) params verifier b accepted_at frame = Ok p")
    case False
    then have "nd' = nd \<and> \<not> is_ok result"
      using sub I by (auto simp: submit_block_def try_in_def Let_def is_ok_def split: outcome.splits)
    then show thesis using refused by blast
  next
    case True
    then obtain frame p where f: "encode_block C b = Ok frame"
      "prepare_block C (nd_state nd) (nd_index nd) params verifier b accepted_at frame = Ok p" by blast
    obtain r where r: "encode_record C accepted_at frame = Ok r"
      using encode_record_total [OF frame_length [OF C f(1)]] by blast
    have run: "fork_run C params verifier rs (nd_state nd) (nd_index nd)" using I by blast
    from commit_prepared_step [OF C fork_run_inv [OF run C] wf f] obtain st idx fees where
      c: "commit_prepared (nd_state nd, nd_index nd) p = ((st, idx), Ok fees)" by blast
    note run' = fork_step [OF run wf f c]
    show thesis
    proof (cases io)
      case IO_Durable
      let ?nd = "nd\<lparr>nd_log := nd_log nd @ r, nd_state := st, nd_index := idx\<rparr>"
      let ?conf = "set (map (txid C) (bl_transactions b))"
      have nd': "nd' = (if cs_tip st \<noteq> cs_tip (nd_state nd) then node_revalidate C ?conf ?nd else ?nd)" and res: "result = Ok fees"
        using sub I f r c IO_Durable by (auto simp: submit_block_def try_in_def Let_def)
      have log: "encode_log C (rs @ [(accepted_at, frame)]) = Ok (nd_log nd @ r)"
        using I r by (auto simp: encode_log_snoc)
      have "node_inv C params verifier (rs @ [(accepted_at, frame)]) nd'"
      proof (cases "cs_tip st = cs_tip (nd_state nd)")
        case True
        have "st = nd_state nd"
          by (rule rebuild_same_tip [OF C run wf f c True])
        then show ?thesis using nd' True I run' log by (simp add: node_inv_def)
      next
        case False
        obtain pool bytes where rv: "revalidate_mempool C st ?conf (nd_mempool nd) = (pool, bytes)" by fastforce
        have "mempool_inv C st (pool, bytes)" using revalidate_mempool_inv(1) [OF _ rv] I by blast
        then show ?thesis using nd' False I run' log rv by (simp add: node_inv_def node_revalidate_def)
      qed
      then show thesis using accepted [OF res f(1)] by blast
    next
      case (IO_WriteFails n)
      then show thesis using sub I f r by (intro storage [of "take n r"]) (auto simp: submit_block_def try_in_def Let_def)
    next
      case IO_SyncFails
      then show thesis using sub I f r by (intro storage [of r]) (auto simp: submit_block_def try_in_def Let_def)
    qed
  qed
qed

lemma node_run_inv: "node_run C params verifier rs nd \<Longrightarrow> crypto_ok C \<Longrightarrow> node_inv C params verifier rs nd"
proof (induction rule: node_run.induct)
  case (node_start nd)
  then obtain st where "chain_new C params verifier = Ok st" "nd = \<lparr>nd_params = params, nd_verifier = verifier, nd_state = st,
      nd_index = index_new (np_genesis_hash params), nd_mempool = [], nd_mempool_bytes = 0, nd_log = [],
      nd_storage_faulted = False\<rparr>" by (auto simp: node_open_def)
  then show ?case by (simp add: node_inv_def fork_start mempool_inv_empty)
next
  case (node_transaction rs nd t entry nd')
  then show ?case by (auto simp: node_inv_def node_submit_transaction_def dest: submit_transaction_inv)
next
  case (node_block rs nd b frame io accepted_at nd' fees)
  from submit_block_cases [OF node_block.prems node_block.IH [OF node_block.prems] node_block.hyps(2,4)]
  show ?case using node_block.hyps(3) by (auto simp: is_ok_def)
qed

lemma node_chain_run:
  assumes "crypto_ok C" "node_inv C params verifier rs nd"
  obtains bs where "chain_run C params verifier bs (nd_state nd)" "run_work bs = Ok (bi_active_work (nd_index nd))"
proof -
  have "fork_inv C params verifier (nd_state nd) (nd_index nd)"
    using assms fork_run_inv by (auto simp: node_inv_def)
  then show thesis using that unfolding fork_inv_def indexed_ok_def by fastforce
qed

section \<open>Mining a template\<close>

lemma run_work_bound: "run_work bs = Ok w \<Longrightarrow> list_all (\<lambda>(b, _). length (bc_target (bl_challenge b)) = 32) bs \<Longrightarrow> unat w \<le> length bs * 2 ^ 255"
proof (induction bs arbitrary: w rule: rev_induct)
  case (snoc x bs)
  obtain b fees where x: "x = (b, fees)" by (cases x)
  from snoc.prems obtain w0 bw where w: "run_work bs = Ok w0" "block_work (bc_target (bl_challenge b)) = Ok bw" "unat w = unat w0 + unat bw"
    by (auto simp: run_work_def ofold_append x add_chain_work_def unat_word_ariths)
  have "unat bw \<le> 2 ^ 255" using block_work_positive(2) [OF _ w(2)] snoc.prems(2) by (simp add: x)
  with snoc.IH [OF w(1)] w(3) snoc.prems(2) show ?case by simp
qed (simp add: run_work_def)

lemma chain_run_targets:
  "chain_run C params verifier bs st \<Longrightarrow> wf_limit params \<Longrightarrow> list_all (\<lambda>(b, _). length (bc_target (bl_challenge b)) = 32) bs"
proof (induction rule: chain_run.induct)
  case (extend bs st b ctx fees st')
  note r = chain_run_wf [OF extend.hyps(1) extend.prems]
  from extend.hyps(2) obtain v where "validate_block C st b ctx = Ok v" by (rule validate_and_apply_Ok)
  then have "expected_target st = Ok (bc_target (bl_challenge b))" by (rule validate_block_Ok)
  with expected_target_total [OF r(1)] r extend show ?case by auto
qed simp

lemma active_work_room:
  assumes "crypto_ok C" "node_inv C params verifier rs nd" "wf_limit params" "length t = 32" "be_nat t \<noteq> 0"
  shows "\<exists>w. add_chain_work (bi_active_work (nd_index nd)) t = Ok w"
proof -
  obtain bs where bs: "chain_run C params verifier bs (nd_state nd)" "run_work bs = Ok (bi_active_work (nd_index nd))"
    using node_chain_run [OF assms(1,2)] .
  have "Suc (length bs) < 2 ^ 64"
    unfolding chain_run_wf(5) [OF bs(1) assms(3), symmetric] using unsigned_less [of "cs_next_height (nd_state nd)"] by simp
  then have "length bs * 2 ^ 255 + 2 ^ 255 < (2 ^ 512 :: nat)"
    by (simp add: less_le_trans [OF mult_strict_right_mono])
  moreover obtain w where w: "block_work t = Ok w" using block_work_exact [OF assms(4,5)] by auto
  ultimately show ?thesis
    using run_work_bound [OF bs(2) chain_run_targets [OF bs(1) assms(3)]] block_work_positive(2) [OF assms(4) w]
    by (simp add: add_chain_work_def)
qed

text \<open>A full mempool fits into a block.\<close>

lemma pool_sizes:
  assumes C: "crypto_ok C" and static: "list_all (entry_static C) pool"
  shows "length (concat (map sized_tx (pool_txs pool))) \<le> pool_bytes pool" "list_all tx_size_ok (pool_txs pool)"
proof -
  have one: "length (sized_tx (me_transaction e)) \<le> me_encoded_bytes e \<and> tx_size_ok (me_transaction e)" if "entry_static C (k, e)" for k e
    using that by (auto simp: entry_static_def encode_transaction_Ok length_frame_bytes [OF C] sized_tx_def)
  show "length (concat (map sized_tx (pool_txs pool))) \<le> pool_bytes pool"
    using static by (induction pool) (auto dest: one intro: add_mono)
  show "list_all tx_size_ok (pool_txs pool)" using static by (induction pool) (auto dest: one)
qed

lemma template_sizes:
  assumes C: "crypto_ok C" and wf: "wf_block b" and txs: "bl_transactions b = pool_txs pool"
    and pool: "list_all (entry_static C) pool" "pool_bytes pool \<le> MAX_MEMPOOL_BYTES"
    and cb: "length (cb_outputs (bl_coinbase b)) \<le> 3"
  shows "block_sizes b"
proof -
  let ?pp = "proof_payload (bc_network_id (bl_challenge b)) (bl_proof b)"
  have pp: "length ?pp \<le> 200"
    using wf by (auto simp: wf_block_def wf_proof_def wf_challenge_def proof_payload_def split: block_proof.splits)
  have ch: "length (challenge_bytes (bl_challenge b)) = 144"
    using wf by (simp add: wf_block_def wf_challenge_def challenge_bytes_def)
  have out: "length (encode_output out) \<le> 60" if "wf_output out" for out
    using that by (simp add: encode_output_def wf_output_def wf_lock_def split: output_lock.splits)
  have "length (concat (map encode_output outs)) \<le> 60 * length outs" if "list_all wf_output outs" for outs
    using that by (induction outs) (auto dest: out)
  then have "length (concat (map encode_output (cb_outputs (bl_coinbase b)))) \<le> 60 * length (cb_outputs (bl_coinbase b))"
    using wf by (simp add: wf_block_def)
  then have cbl: "length (coinbase_bytes (bl_coinbase b)) \<le> 200" using cb by (simp add: coinbase_bytes_def)
  have "length (concat (map sized_tx (bl_transactions b))) \<le> 524288"
    using pool_sizes(1) [OF C pool(1)] pool(2) txs by (simp add: MAX_MEMPOOL_BYTES_def)
  with pp ch cbl have "length (block_payload b) \<le> 1048560"
    by (simp add: block_payload_def Let_def)
  with pp show ?thesis using pool_sizes(2) [OF C pool(1)] txs by (simp add: block_sizes_def)
qed

definition fair_policy :: "monetary_policy \<Rightarrow> bool" where
  "fair_policy p \<longleftrightarrow> community_percent p \<le> steward_percent p \<and> unat (steward_percent p) + unat (community_percent p) < 100"

lemma fair_allocation:
  assumes "mp_allocation p height fees = Ok alloc" "fair_policy p"
  shows "al_miner alloc \<noteq> 0" "al_steward alloc = 0 \<longrightarrow> al_community alloc = 0"
proof -
  note e = allocation_exact [OF assms(1)]
  let ?v = "unat (al_subsidy alloc)" and ?s = "unat (steward_percent p)" and ?c = "unat (community_percent p)"
  have valid: "mp_validate p = Ok ()" using assms(1) by (auto simp: mp_allocation_def)
  have v: "0 < ?v" using subsidy_positive [OF valid] e by simp
  have cs: "?c \<le> ?s" "?s + ?c < 100" using assms(2) by (simp_all add: fair_policy_def word_le_nat_alt)
  have "?v * ?s div 100 + ?v * ?c div 100 \<le> (?v * ?s + ?v * ?c) div 100"
    by (subst div_add1_eq [of "?v * ?s"]) (rule le_add1)
  also have "\<dots> < ?v"
  proof -
    have "?v * ?s + ?v * ?c = ?v * (?s + ?c)" by (simp add: distrib_left)
    also have "\<dots> < ?v * 100" using v cs(2) by simp
    finally show ?thesis by (simp add: div_less_iff_less_mult)
  qed
  finally have "unat (al_steward alloc) + unat (al_community alloc) < ?v" using e v by simp
  then have "0 < unat (al_miner alloc)" using e by linarith
  then show "al_miner alloc \<noteq> 0" by auto
  have "unat (al_community alloc) \<le> unat (al_steward alloc)" using e cs(1) by (simp add: div_le_mono)
  then show "al_steward alloc = 0 \<longrightarrow> al_community alloc = 0" by (auto simp: unat_eq_0 [symmetric])
qed

lemma build_template_Ok:
  assumes "build_template C nd miner now = Ok tpl" "median_time_past (nd_state nd) = (Ok median :: (node_error, u64) outcome)"
  obtains sv alloc where "\<not> nd_storage_faulted nd" "key_from_bytes C miner"
    "unat now + unat (np_max_future_offset_secs (nd_params nd)) < 2 ^ 64"
    "median < bc_timestamp (bt_challenge tpl)"
    "bc_timestamp (bt_challenge tpl) \<le> now + np_max_future_offset_secs (nd_params nd)"
    "validate_transactions_for_next_block C (nd_state nd) (pool_txs (nd_mempool nd)) = Ok sv"
    "mp_allocation (np_monetary_policy (nd_params nd)) (cs_next_height (nd_state nd)) (sv_total_burned_fees sv) = Ok alloc"
    "expected_target (nd_state nd) = Ok (bc_target (bt_challenge tpl))"
    "bt_coinbase tpl = coinbase_new (cs_next_height (nd_state nd)) alloc miner (np_rewards (nd_params nd))"
    "bt_transactions tpl = pool_txs (nd_mempool nd)" "bt_total_fees_burned tpl = sv_total_burned_fees sv"
    "bc_network_id (bt_challenge tpl) = np_network_id (nd_params nd)" "bc_previous_block (bt_challenge tpl) = cs_tip (nd_state nd)"
    "bc_height (bt_challenge tpl) = cs_next_height (nd_state nd)"
    "bc_transaction_root (bt_challenge tpl) = merkle_root C (coinbase_commitment C (bt_coinbase tpl) (np_network_id (nd_params nd))
       # map (txid C) (bt_transactions tpl))"
proof -
  have step: "median < max now (median + 1)" if "unat median + 1 < 2 ^ 64"
  proof -
    have "median < median + 1" using that by (simp add: word_less_nat_alt unat_word_ariths)
    then show ?thesis by (simp add: less_max_iff_disj)
  qed
  show thesis
    using assms that step unfolding build_template_def Let_def
    by (auto simp: not_less checked_add_def split: if_splits)
qed

lemma wf_chain_median:
  assumes "wf_chain st"
  shows "median_time_past st = Ok (hw_timestamp (last (cs_history st)))"
proof -
  have "cs_raw_timestamps st \<noteq> []" using assms by (auto simp: wf_chain_def)
  note m = median_timestamp_Ok(1) [OF this]
  show ?thesis using assms by (simp add: wf_chain_def median_time_past_def m)
qed

text \<open>What a miner may rely on: the proof verifies, the identifiers it makes are new, and the height
  leaves room for the maturity of the coinbase.\<close>

definition mined_for :: "crypto \<Rightarrow> node \<Rightarrow> block_template \<Rightarrow> block_proof \<Rightarrow> bool" where
  "mined_for C nd tpl proof \<longleftrightarrow> (let b = template_with_proof tpl proof in
     wf_block b \<and> pow_verify C (nd_verifier nd) (bt_challenge tpl) proof = Ok () \<and>
     \<not> index_contains (nd_index nd) (block_id C b) \<and> fresh_txid (coinbase_outpoint_id C b) (cs_utxos (nd_state nd)) \<and>
     coinbase_outpoint_id C b \<notin> txid C ` set (bt_transactions tpl) \<and>
     unat (cs_next_height (nd_state nd)) + unat COINBASE_MATURITY < 2 ^ 64)"

lemma mined_template_prepares:
  assumes C: "crypto_ok C" and inv: "node_inv C params verifier rs nd" and lim: "wf_limit params"
    and fair: "fair_policy (np_monetary_policy params)"
    and tpl: "build_template C nd miner now = Ok tpl" and mined: "mined_for C nd tpl proof"
  defines "b \<equiv> template_with_proof tpl proof"
  obtains frame p v where "encode_block C b = Ok frame"
    "prepare_block C (nd_state nd) (nd_index nd) params verifier b now frame = Ok p"
    "pb_candidate p = VC_Active v" "vb_fees v = bt_total_fees_burned tpl" "validate_block C (nd_state nd) b \<lparr>vc_now_unix_seconds = now\<rparr> = Ok v"
    "bi_active_work (nd_index nd) < pb_cumulative_work p"
proof -
  let ?st = "nd_state nd"
  note I = inv [unfolded node_inv_def] and M = mined [unfolded mined_for_def Let_def, folded b_def]
  obtain bs where run: "chain_run C params verifier bs ?st" using node_chain_run [OF C inv] .
  note r = chain_run_wf [OF run lim]
  obtain sv alloc where t: "key_from_bytes C miner" "unat now + unat (np_max_future_offset_secs params) < 2 ^ 64"
    "hw_timestamp (last (cs_history ?st)) < bc_timestamp (bt_challenge tpl)"
    "bc_timestamp (bt_challenge tpl) \<le> now + np_max_future_offset_secs params"
    and val: "validate_transactions_for_next_block C ?st (pool_txs (nd_mempool nd)) = Ok sv"
    and alloc: "mp_allocation (np_monetary_policy params) (cs_next_height ?st) (sv_total_burned_fees sv) = Ok alloc"
    and tgt: "expected_target ?st = Ok (bc_target (bt_challenge tpl))"
    and parts: "bt_coinbase tpl = coinbase_new (cs_next_height ?st) alloc miner (np_rewards params)"
    "bt_transactions tpl = pool_txs (nd_mempool nd)" "bt_total_fees_burned tpl = sv_total_burned_fees sv"
    "bc_network_id (bt_challenge tpl) = np_network_id params" "bc_previous_block (bt_challenge tpl) = cs_tip ?st"
    "bc_height (bt_challenge tpl) = cs_next_height ?st"
    "bc_transaction_root (bt_challenge tpl) = merkle_root C (coinbase_commitment C (bt_coinbase tpl) (np_network_id params)
       # map (txid C) (bt_transactions tpl))"
    using build_template_Ok [OF tpl wf_chain_median [OF r(1)]] I by metis
  have b: "bl_version b = BLOCK_VERSION" "bl_challenge b = bt_challenge tpl" "bl_proof b = proof" "bl_coinbase b = bt_coinbase tpl"
    "bl_transactions b = pool_txs (nd_mempool nd)" by (simp_all add: b_def template_with_proof_def parts(2))
  have M': "wf_block b" "pow_verify C verifier (bt_challenge tpl) proof = Ok ()" "\<not> index_contains (nd_index nd) (block_id C b)"
    "fresh_txid (coinbase_outpoint_id C b) (cs_utxos ?st)" "coinbase_outpoint_id C b \<notin> txid C ` set (pool_txs (nd_mempool nd))"
    "unat (cs_next_height ?st) + unat COINBASE_MATURITY < 2 ^ 64"
    using M I by (simp_all only: parts(2)) blast+
  have pool: "list_all (entry_static C) (nd_mempool nd)" "pool_bytes (nd_mempool nd) \<le> MAX_MEMPOOL_BYTES"
    using I by (simp_all add: mempool_inv_def)
  have sizes: "block_sizes b"
    by (rule template_sizes [OF C M'(1) b(5) pool]) (simp add: b(4) parts(1) coinbase_new_def)
  have "template_block C ?st (pool_txs (nd_mempool nd)) (sv_total_burned_fees sv) \<lparr>vc_now_unix_seconds = now\<rparr> alloc miner b"
    unfolding template_block_def using alloc t tgt sizes M' fair_allocation [OF alloc fair]
    by (simp add: b parts r(2,3) transaction_root_def)
  from template_validates [OF r(1) val this] obtain v where
    v: "validate_block C ?st b \<lparr>vc_now_unix_seconds = now\<rparr> = Ok v" "vb_fees v = bt_total_fees_burned tpl" by (auto simp: parts(3))
  then have "\<exists>fees d. validate_delta C (cs_utxos ?st) b (cs_verifier ?st) (cs_params ?st) = Ok (fees, d)"
    by (auto elim!: validate_block_Ok)
  then obtain frame where frame: "encode_block C b = Ok frame" by (auto elim!: validate_delta_Ok)
  have work: "work_at (nd_index nd) (cs_tip ?st) = Some (bi_active_work (nd_index nd))"
    using fork_run_inv [OF _ C] I by (auto simp: fork_inv_def)
  have len: "length (bc_target (bt_challenge tpl)) = 32" "be_nat (bc_target (bt_challenge tpl)) \<noteq> 0"
    using expected_target_total [OF r(1)] lim r(2,4) tgt by auto
  then obtain w where w: "add_chain_work (bi_active_work (nd_index nd)) (bc_target (bt_challenge tpl)) = Ok w"
    using active_work_room [OF C inv lim] by blast
  let ?p = "\<lparr>pb_block_id = block_id C b, pb_parent = cs_tip ?st, pb_height = cs_next_height ?st, pb_accepted_at = now,
    pb_canonical = frame, pb_cumulative_work = w, pb_candidate = VC_Active v\<rparr>"
  have "prepare_block C ?st (nd_index nd) params verifier b now frame = Ok ?p"
    using M'(3) work v(1) w by (simp add: prepare_block_def Let_def b parts(5,6))
  with frame v show thesis using add_chain_work_increases [OF w len(1)] by (intro that [of frame ?p v]) simp_all
qed

lemma submit_block_extends:
  assumes C: "crypto_ok C" and inv: "node_inv C params verifier rs nd" and wf: "wf_block b"
    and enc: "encode_block C b = Ok frame"
    and prep: "prepare_block C (nd_state nd) (nd_index nd) params verifier b now frame = Ok p" "pb_candidate p = VC_Active v"
    and val: "validate_block C (nd_state nd) b \<lparr>vc_now_unix_seconds = now\<rparr> = Ok v"
    and more: "bi_active_work (nd_index nd) < pb_cumulative_work p"
  shows "\<exists>nd'. submit_block C IO_Durable nd b now = (nd', Ok (vb_fees v)) \<and> cs_tip (nd_state nd') = block_id C b \<and>
    fst ` set (nd_mempool nd') \<subseteq> fst ` set (nd_mempool nd) - txid C ` set (bl_transactions b)"
proof -
  note I = inv [unfolded node_inv_def]
  have run: "fork_run C params verifier rs (nd_state nd) (nd_index nd)" using I by blast
  note finv = fork_run_inv [OF run C]
  obtain r where r: "encode_record C now frame = Ok r" using encode_record_total [OF frame_length [OF C enc]] by blast
  from commit_prepared_step [OF C finv wf enc prep(1)] more obtain st idx fees where
    c: "commit_prepared (nd_state nd, nd_index nd) p = ((st, idx), Ok fees)" and tip: "cs_tip st = block_id C b" by auto
  have fees: "fees = vb_fees v"
    using c prep(2) more commit_after_validate [OF val]
    by (auto simp: commit_prepared_def try_in_def Let_def split: outcome.splits if_splits)
  have "\<not> index_contains (nd_index nd) (block_id C b)" using prep(1) by (auto simp: prepare_block_def Let_def)
  then have moved: "cs_tip st \<noteq> cs_tip (nd_state nd)" using finv tip by (auto simp: fork_inv_def)
  let ?nd = "nd\<lparr>nd_log := nd_log nd @ r, nd_state := st, nd_index := idx\<rparr>"
  have sub: "submit_block C IO_Durable nd b now = (node_revalidate C (set (map (txid C) (bl_transactions b))) ?nd, Ok (vb_fees v))"
    using I enc prep(1) r c moved fees by (simp add: submit_block_def try_in_def Let_def)
  obtain pool bytes where rv: "revalidate_mempool C st (set (map (txid C) (bl_transactions b))) (nd_mempool nd) = (pool, bytes)"
    by fastforce
  have "mempool_inv C (nd_state nd) (nd_mempool nd, nd_mempool_bytes nd)" using I by blast
  from revalidate_mempool_inv(2) [OF this rv] show ?thesis using sub rv tip by (simp add: node_revalidate_def)
qed

section \<open>An example node\<close>

definition demo_node :: node where
  "demo_node = \<lparr>nd_params = demo_params, nd_verifier = PV_V1Legacy demo_verifier, nd_state = demo_genesis,
     nd_index = index_new (np_genesis_hash demo_params), nd_mempool = [], nd_mempool_bytes = 0, nd_log = [],
     nd_storage_faulted = False\<rparr>"

lemma demo_node_run: "node_run demo_crypto demo_params (PV_V1Legacy demo_verifier) [] demo_node"
  by (rule node_start) (simp add: node_open_def demo_chain_new demo_node_def)

lemma demo_fair: "fair_policy DEFAULT_MONETARY_POLICY"
  by (simp add: fair_policy_def DEFAULT_MONETARY_POLICY_def)

lemma demo_template:
  "\<exists>tpl. build_template demo_crypto demo_node (replicate 32 9) 2000 = Ok tpl \<and> template_with_proof tpl demo_proof = demo_first \<and>
     bt_transactions tpl = [] \<and> bt_total_fees_burned tpl = 0 \<and> bt_challenge tpl = bl_challenge demo_first"
proof -
  have med: "median_time_past demo_genesis = (Ok 1000 :: (node_error, u64) outcome)"
    using wf_chain_median [OF chain_new_wf [OF demo_chain_new demo_wf_limit]] by (simp add: demo_genesis_def)
  have val: "validate_transactions_for_next_block demo_crypto demo_genesis [] =
      Ok \<lparr>sv_total_burned_fees = 0, sv_aggregate_inputs = 0, sv_aggregate_outputs = 0, sv_signature_checks = 0\<rparr>"
    by (simp add: validate_transactions_for_next_block_def validate_transaction_set_resources_def
        validate_transaction_resources_def wire_limits)
  have root: "merkle_root demo_crypto [x] = replicate 32 19" for x
    by (simp add: merkle_root_def merkle_leaf_def demo_crypto_simps MERKLE_LEAF_DOMAIN_def merkle_levels.simps [of _ "[_]"])
  have st: "nd_state demo_node = demo_genesis" "nd_params demo_node = demo_params" "nd_mempool demo_node = []"
    "\<not> nd_storage_faulted demo_node" "cs_next_height demo_genesis = 1" "cs_tip demo_genesis = replicate 32 2"
    by (simp_all add: demo_node_def demo_genesis_def)
  have p: "np_max_future_offset_secs demo_params = 7200" "np_monetary_policy demo_params = DEFAULT_MONETARY_POLICY"
    "np_network_id demo_params = replicate 32 1" by (simp_all add: demo_params_def)
  show ?thesis
    unfolding build_template_def st p
    by (simp add: med val root demo_expected demo_allocations(2) checked_add_def demo_crypto_simps Let_def template_with_proof_def
        demo_first_def demo_mined_def BLOCK_VERSION_def st)
qed

lemma demo_mined_for:
  assumes "template_with_proof tpl demo_proof = demo_first" "bt_transactions tpl = []" "bt_challenge tpl = bl_challenge demo_first"
  shows "mined_for demo_crypto demo_node tpl demo_proof"
proof -
  have "pow_verify demo_crypto (PV_V1Legacy demo_verifier) (bl_challenge demo_first) demo_proof = Ok ()"
    using demo_mined_pow [of 1 "replicate 32 2" 2000 "[]" 0] by (simp add: demo_first_def) (simp add: demo_mined_def)
  then show ?thesis
    unfolding mined_for_def Let_def assms using demo_first_wf
    by (simp add: demo_node_def demo_genesis_def index_contains_def index_new_def fresh_txid_def utxo_get_def utxo_default_def
        block_id_def demo_crypto_simps BLOCK_ID_DOMAIN_def demo_params_def replicate_32_eq COINBASE_MATURITY_def)
qed

lemma demo_submit:
  "\<exists>nd'. submit_block demo_crypto IO_Durable demo_node demo_first 2000 = (nd', Ok 0) \<and>
     cs_tip (nd_state nd') = block_id demo_crypto demo_first"
proof -
  obtain tpl where t: "build_template demo_crypto demo_node (replicate 32 9) 2000 = Ok tpl"
    "template_with_proof tpl demo_proof = demo_first" "bt_transactions tpl = []" "bt_total_fees_burned tpl = 0"
    "bt_challenge tpl = bl_challenge demo_first" using demo_template by blast
  note inv = node_run_inv [OF demo_node_run crypto_ok_demo]
  have fair: "fair_policy (np_monetary_policy demo_params)" using demo_fair by (simp add: demo_params_def)
  note m = mined_template_prepares [OF crypto_ok_demo inv demo_wf_limit fair t(1) demo_mined_for [OF t(2,3,5)], unfolded t(2,4)]
  show ?thesis by (rule m) (use submit_block_extends [OF crypto_ok_demo inv demo_first_wf] in metis)
qed

section \<open>Properties\<close>

text \<open>C2. The fork choice follows the most work: on every node that runs, no indexed block has more
  cumulative work than the active chain, the active chain is the path from genesis to the tip of
  the active state, that state is the full replay of the path, and every indexed side branch can
  be replayed too, so a reorganisation never meets a corrupt index.\<close>

theorem active_chain_has_most_work:
  assumes "crypto_ok C" "node_run C params verifier rs nd"
  shows "(\<forall>bid w. work_at (nd_index nd) bid = Some w \<longrightarrow> w \<le> bi_active_work (nd_index nd)) \<and>
    path_to (nd_index nd) (cs_tip (nd_state nd)) = Ok (tl (bi_active_chain (nd_index nd))) \<and>
    rebuild_state_to C (nd_index nd) params verifier (cs_tip (nd_state nd)) = Ok (nd_state nd) \<and>
    (\<forall>bid. index_contains (nd_index nd) bid \<longrightarrow> indexed_ok C params verifier (nd_index nd) bid)"
  using node_run_inv [OF assms(2,1)] fork_run_inv [OF _ assms(1)] by (auto simp: node_inv_def fork_inv_def)

theorem active_chain_has_most_work_witness:
  "\<exists>nd. node_run demo_crypto demo_params (PV_V1Legacy demo_verifier) [] nd \<and>
     rebuild_state_to demo_crypto (nd_index nd) demo_params (PV_V1Legacy demo_verifier) (cs_tip (nd_state nd)) = Ok (nd_state nd)"
  using active_chain_has_most_work [OF crypto_ok_demo demo_node_run] demo_node_run by blast

text \<open>C4. Submitting a block is atomic: it is refused and nothing changes, or the append to the log
  fails and the node keeps its state, index and pool, marks its storage as faulted and refuses every
  block submitted later, or the block is recorded, committed and the node keeps running. A record that is
  durable is never refused by the commit. (Transactions are still admitted to the pool of a faulted node.)\<close>

theorem block_submission_is_atomic:
  assumes "crypto_ok C" "node_run C params verifier rs nd" "wf_block b" "submit_block C io nd b accepted_at = (nd', result)"
  shows "nd' = nd \<and> \<not> is_ok result \<or>
    io \<noteq> IO_Durable \<and> result = Err ND_Io \<and> nd_storage_faulted nd' \<and> nd_state nd' = nd_state nd \<and>
      nd_index nd' = nd_index nd \<and> nd_mempool nd' = nd_mempool nd \<and> nd_mempool_bytes nd' = nd_mempool_bytes nd \<and>
      (\<exists>tail. nd_log nd' = nd_log nd @ tail) \<and>
      (\<forall>io' b' later. submit_block C io' nd' b' later = (nd', Err ND_StorageFaulted)) \<or>
    (\<exists>frame fees. result = Ok fees \<and> encode_block C b = Ok frame \<and>
       node_run C params verifier (rs @ [(accepted_at, frame)]) nd')"
proof (cases rule: submit_block_cases [OF assms(1) node_run_inv [OF assms(2,1)] assms(3,4), case_names refused storage accepted])
  case (accepted frame fees)
  then show ?thesis using node_block [OF assms(2,3)] assms(4) by blast
next
  case (storage r)
  have "submit_block C io' nd' b' later = (nd', Err ND_StorageFaulted)" for io' b' later
    by (simp add: submit_block_def storage(3))
  then show ?thesis using storage by simp
qed simp_all

theorem block_submission_is_atomic_witness:
  "\<exists>nd rs. submit_block demo_crypto IO_Durable demo_node demo_first 2000 = (nd, Ok 0) \<and>
     node_run demo_crypto demo_params (PV_V1Legacy demo_verifier) rs nd"
proof -
  obtain nd where nd: "submit_block demo_crypto IO_Durable demo_node demo_first 2000 = (nd, Ok 0)" using demo_submit by blast
  from block_submission_is_atomic [OF crypto_ok_demo demo_node_run demo_first_wf nd] nd show ?thesis
    by (auto simp: is_ok_def)
qed

text \<open>C3. A restart restores the node: opening the log that a running node has written gives the same
  chain state and the same fork index, with an empty mempool.\<close>

theorem restart_restores_node:
  assumes "crypto_ok C" "node_run C params verifier rs nd"
  shows "node_open C params verifier (nd_log nd) = Ok (nd\<lparr>nd_mempool := [], nd_mempool_bytes := 0\<rparr>)"
proof -
  note I = node_run_inv [OF assms(2,1), unfolded node_inv_def]
  then have run: "fork_run C params verifier rs (nd_state nd) (nd_index nd)" "encode_log C rs = Ok (nd_log nd)" by simp_all
  obtain st0 where st0: "chain_new C params verifier = Ok st0"
    using run(1) by (induction) auto
  from replay_run [OF run(1) assms(1) st0 run(2), of 0 "[]"] I st0 show ?thesis
    by (simp add: node_open_def)
qed

theorem restart_restores_node_witness:
  "\<exists>nd nd'. submit_block demo_crypto IO_Durable demo_node demo_first 2000 = (nd, Ok 0) \<and>
     node_open demo_crypto demo_params (PV_V1Legacy demo_verifier) (nd_log nd) = Ok nd' \<and>
     cs_tip (nd_state nd') = block_id demo_crypto demo_first"
proof -
  obtain nd where nd: "submit_block demo_crypto IO_Durable demo_node demo_first 2000 = (nd, Ok 0)"
    "cs_tip (nd_state nd) = block_id demo_crypto demo_first" using demo_submit by blast
  obtain frame where "encode_block demo_crypto demo_first = Ok frame"
    using demo_mined_encodes [of "[]" "replicate 32 2" 1 2000 0] by (auto simp: demo_first_def)
  from restart_restores_node [OF crypto_ok_demo node_block [OF demo_node_run demo_first_wf this nd(1)]] nd show ?thesis by auto
qed

text \<open>C5. The mempool of a running node is always minable: it lists its transactions by increasing
  identifier, and in that order they are valid together for the next block, spend pairwise different outputs that are
  confirmed on the active chain, and each burns at least the relay fee; the pool respects its
  limits. This survives reorganisations.\<close>

theorem mempool_is_always_minable:
  assumes "crypto_ok C" "node_run C params verifier rs nd"
  shows "bt_ordered (nd_mempool nd) \<and> list_all (\<lambda>(k, e). k = txid C (me_transaction e)) (nd_mempool nd) \<and>
    is_ok (validate_transactions_for_next_block C (nd_state nd) (pool_txs (nd_mempool nd))) \<and>
    distinct (block_spends (pool_txs (nd_mempool nd))) \<and>
    list_all (\<lambda>k. utxo_get (cs_utxos (nd_state nd)) k \<noteq> None) (block_spends (pool_txs (nd_mempool nd))) \<and>
    list_all (\<lambda>(_, e). required_relay_fee (me_encoded_bytes e) \<le> me_fee_burned e) (nd_mempool nd) \<and>
    nd_mempool_bytes nd = pool_bytes (nd_mempool nd) \<and> nd_mempool_bytes nd \<le> MAX_MEMPOOL_BYTES \<and>
    length (nd_mempool nd) \<le> MAX_MEMPOOL_TRANSACTIONS"
proof -
  let ?txs = "pool_txs (nd_mempool nd)"
  have I: "mempool_inv C (nd_state nd) (nd_mempool nd, nd_mempool_bytes nd)"
    using node_run_inv [OF assms(2,1)] by (simp add: node_inv_def)
  then obtain sv where "validate_transactions_for_next_block C (nd_state nd) ?txs = Ok sv"
    by (auto simp: mempool_inv_def is_ok_iff)
  then obtain cand S where "ofold (apply_and_sum C (cs_next_height (nd_state nd)) (np_network_id (cs_params (nd_state nd))))
      (0, overlay_new (cs_utxos (nd_state nd)), {}) ?txs = Ok (sv_total_burned_fees sv, cand, S)"
    by (rule validate_transactions_Ok)
  from block_loop_Ok(4) [OF this] have "distinct (block_spends ?txs)" by simp
  moreover have "list_all (\<lambda>k. utxo_get (cs_utxos (nd_state nd)) k \<noteq> None) (block_spends ?txs)"
    using I by (auto simp: mempool_inv_def list_all_iff entry_valid_def block_spends_def)
  moreover have "list_all (\<lambda>(_, e). required_relay_fee (me_encoded_bytes e) \<le> me_fee_burned e) (nd_mempool nd)"
    using I by (auto simp: mempool_inv_def list_all_iff entry_valid_def)
  moreover have "list_all (\<lambda>(k, e). k = txid C (me_transaction e)) (nd_mempool nd)"
    using I by (auto simp: mempool_inv_def list_all_iff entry_static_def)
  ultimately show ?thesis using I by (simp add: mempool_inv_def)
qed

theorem mempool_is_always_minable_witness:
  "\<exists>nd. submit_block demo_crypto IO_Durable demo_node demo_first 2000 = (nd, Ok 0) \<and>
     is_ok (validate_transactions_for_next_block demo_crypto (nd_state nd) (pool_txs (nd_mempool nd)))"
proof -
  obtain nd where nd: "submit_block demo_crypto IO_Durable demo_node demo_first 2000 = (nd, Ok 0)" using demo_submit by blast
  obtain frame where "encode_block demo_crypto demo_first = Ok frame"
    using demo_mined_encodes [of "[]" "replicate 32 2" 1 2000 0] by (auto simp: demo_first_def)
  from mempool_is_always_minable [OF crypto_ok_demo node_block [OF demo_node_run demo_first_wf this nd]] nd show ?thesis by blast
qed

text \<open>What a node builds it accepts: on a running node, a template completed with a proof that
  verifies is stored as the new tip, burns exactly the fees of the template, and leaves the
  mempool empty, whatever the mempool held; in particular a full mempool fits into a block.\<close>

theorem mined_template_becomes_tip:
  assumes "crypto_ok C" "node_run C params verifier rs nd" "wf_limit params" "fair_policy (np_monetary_policy params)"
    "build_template C nd miner now = Ok tpl" "mined_for C nd tpl proof"
  shows "\<exists>nd'. submit_block C IO_Durable nd (template_with_proof tpl proof) now = (nd', Ok (bt_total_fees_burned tpl)) \<and>
    cs_tip (nd_state nd') = block_id C (template_with_proof tpl proof) \<and> nd_mempool nd' = []"
proof -
  let ?b = "template_with_proof tpl proof"
  note inv = node_run_inv [OF assms(2,1)]
  have wf: "wf_block ?b" using assms(6) by (simp add: mined_for_def Let_def)
  obtain frame p v where p: "encode_block C ?b = Ok frame"
    "prepare_block C (nd_state nd) (nd_index nd) params verifier ?b now frame = Ok p"
    "pb_candidate p = VC_Active v" "vb_fees v = bt_total_fees_burned tpl"
    "validate_block C (nd_state nd) ?b \<lparr>vc_now_unix_seconds = now\<rparr> = Ok v" "bi_active_work (nd_index nd) < pb_cumulative_work p"
    using mined_template_prepares [OF assms(1) inv assms(3-6)] .
  obtain nd' where nd': "submit_block C IO_Durable nd ?b now = (nd', Ok (vb_fees v))" "cs_tip (nd_state nd') = block_id C ?b"
    "fst ` set (nd_mempool nd') \<subseteq> fst ` set (nd_mempool nd) - txid C ` set (bl_transactions ?b)"
    using submit_block_extends [OF assms(1) inv wf p(1-3) p(5,6)] by blast
  have "bl_transactions ?b = pool_txs (nd_mempool nd)"
    using assms(5) by (auto simp: template_with_proof_def build_template_def Let_def split: if_splits)
  moreover have "fst x = txid C (me_transaction (snd x))" if "x \<in> set (nd_mempool nd)" for x
    using inv that by (auto simp: node_inv_def mempool_inv_def list_all_iff entry_static_def)
  ultimately have "fst ` set (nd_mempool nd) - txid C ` set (bl_transactions ?b) = {}" by auto
  with nd' have "nd_mempool nd' = []" by simp
  with nd' p(4) show ?thesis by auto
qed

end
