(* ===== verification/CF_Sync.thy ===== *)
theory CF_Sync
  imports CF_Node
begin

text \<open>
  Chain synchronisation between nodes, of \<open>crates/cmfd-node/src/lib.rs\<close>: the locator a node sends,
  the inventory a peer answers with, and the inventory relayed to a peer whose tip is known.

  The lemmas say that consecutive identifiers of an active chain are parent and child, so that a
  list of identifiers handed to a peer can be indexed in order once its first parent is known.
\<close>

section \<open>Locators\<close>

text \<open>The loop of \<open>block_locator\<close>; \<open>position\<close> is an index of the chain while the loop runs.\<close>

function locator_walk :: "hash32 list \<Rightarrow> nat \<Rightarrow> nat \<Rightarrow> nat \<Rightarrow> hash32 list \<Rightarrow> hash32 list" where
  "locator_walk chain limit position step locator =
     (if 0 < position \<and> length locator + 1 < limit
      then
        let locator = locator @ [chain ! position];
            position = position - step;
            step = (if 10 \<le> length locator then min (step * 2) (usize_limit - 1) else step)
        in locator_walk chain limit position step locator
      else locator)"
  by pat_completeness auto
termination
  by (relation "measure (\<lambda>(chain, limit, position, step, locator). limit - length locator)") auto

declare locator_walk.simps [simp del]

definition block_locator :: "node \<Rightarrow> nat \<Rightarrow> hash32 list" where
  "block_locator nd limit =
     (let chain = bi_active_chain (nd_index nd); genesis = bi_genesis (nd_index nd) in
      if limit = 0 then []
      else if limit = 1 \<or> length chain = 1 then [genesis]
      else locator_walk chain limit (length chain - 1) 1 [] @ [genesis])"

section \<open>Inventories\<close>

fun find_position :: "block_index \<Rightarrow> hash32 list \<Rightarrow> nat option" where
  "find_position idx [] = None"
| "find_position idx (bid # locator) =
     (case active_position idx bid of Some position \<Rightarrow> Some position | None \<Rightarrow> find_position idx locator)"

fun fill_inventory :: "hash32 \<Rightarrow> nat \<Rightarrow> hash32 list \<Rightarrow> hash32 list \<Rightarrow> hash32 list" where
  "fill_inventory stop limit inventory [] = inventory"
| "fill_inventory stop limit inventory (bid # chain) =
     (let inventory = inventory @ [bid] in
      if length inventory = limit \<or> (stop \<noteq> replicate 32 0 \<and> bid = stop) then inventory
      else fill_inventory stop limit inventory chain)"

definition inventory_after :: "node \<Rightarrow> hash32 list \<Rightarrow> hash32 \<Rightarrow> nat \<Rightarrow> hash32 list" where
  "inventory_after nd locator stop limit =
     (if limit = 0 then []
      else case find_position (nd_index nd) locator of
        None \<Rightarrow> []
      | Some position \<Rightarrow> fill_inventory stop limit [] (drop (position + 1) (bi_active_chain (nd_index nd))))"

text \<open>The loop of \<open>relay_inventory_after\<close>; the first argument counts its iterations.\<close>

fun relay_walk :: "nat \<Rightarrow> block_index \<Rightarrow> hash32 \<Rightarrow> nat option" where
  "relay_walk 0 idx cursor = None"
| "relay_walk (Suc n) idx cursor =
     (case active_position idx cursor of
        Some position \<Rightarrow> Some position
      | None \<Rightarrow>
          (case fmlookup (bi_blocks idx) cursor of
             None \<Rightarrow> None
           | Some entry \<Rightarrow> relay_walk n idx (ib_parent entry)))"

definition relay_inventory_after :: "node \<Rightarrow> hash32 \<Rightarrow> nat \<Rightarrow> hash32 list" where
  "relay_inventory_after nd peer_tip limit =
     (let idx = nd_index nd in
      if limit = 0 \<or> \<not> index_contains idx peer_tip then []
      else case relay_walk (fcard (fmdom (bi_blocks idx)) + 1) idx peer_tip of
        None \<Rightarrow> []
      | Some position \<Rightarrow> take limit (drop (position + 1) (bi_active_chain idx)))"

section \<open>Chains of parents\<close>

definition follows :: "block_index \<Rightarrow> hash32 \<Rightarrow> hash32 \<Rightarrow> bool" where
  "follows idx parent bid \<longleftrightarrow> (\<exists>entry. fmlookup (bi_blocks idx) bid = Some entry \<and> ib_parent entry = parent)"

lemma path_walk_follows:
  "path_walk n idx c p = Ok r \<Longrightarrow> successively (follows idx) (c # p) \<Longrightarrow> successively (follows idx) (bi_genesis idx # r)"
proof (induction n arbitrary: c p)
  case (Suc n)
  show ?case
  proof (cases "c = bi_genesis idx")
    case False
    with Suc.prems(1) obtain entry where e: "fmlookup (bi_blocks idx) c = Some entry"
      "path_walk n idx (ib_parent entry) (c # p) = Ok r" by (auto split: option.splits)
    then show ?thesis using Suc.IH [OF e(2)] Suc.prems(2) by (auto simp: follows_def)
  qed (use Suc.prems in simp)
qed (auto split: if_splits)

lemma path_walk_suffix: "path_walk n idx c p = Ok r \<Longrightarrow> \<exists>q. bi_genesis idx # r = q @ c # p"
proof (induction n arbitrary: c p)
  case (Suc n)
  show ?case
  proof (cases "c = bi_genesis idx")
    case False
    with Suc.prems obtain entry where e: "fmlookup (bi_blocks idx) c = Some entry"
      "path_walk n idx (ib_parent entry) (c # p) = Ok r" by (auto split: option.splits)
    from Suc.IH [OF e(2)] show ?thesis by (metis append.assoc append_Cons append_Nil)
  qed (use Suc.prems in auto)
qed (auto split: if_splits)

lemma list_position_Some: "list_position x xs = Some k \<Longrightarrow> k < length xs \<and> xs ! k = x"
  by (induction xs arbitrary: k) (auto split: if_splits)

lemma list_position_None: "list_position x xs = None \<longleftrightarrow> x \<notin> set xs"
  by (induction xs) auto

text \<open>The active chain of a running node is a chain of parents that starts at genesis and ends at the
  tip.\<close>

lemma active_chain_follows:
  assumes "crypto_ok C" "node_run C params verifier rs nd"
  shows "bi_active_chain (nd_index nd) = bi_genesis (nd_index nd) # tl (bi_active_chain (nd_index nd))"
    "successively (follows (nd_index nd)) (bi_active_chain (nd_index nd))"
    "last (bi_active_chain (nd_index nd)) = cs_tip (nd_state nd)"
    "bi_genesis (nd_index nd) = np_genesis_hash params"
    "\<forall>x \<in> set (bi_active_chain (nd_index nd)). index_contains (nd_index nd) x"
proof -
  let ?idx = "nd_index nd"
  have run: "fork_run C params verifier rs (nd_state nd) ?idx"
    using node_run_inv [OF assms(2,1)] by (simp add: node_inv_def)
  note F = fork_run_inv [OF run assms(1), unfolded fork_inv_def]
  show cons: "bi_active_chain ?idx = bi_genesis ?idx # tl (bi_active_chain ?idx)" using F by (metis list.collapse)
  have p: "path_to ?idx (cs_tip (nd_state nd)) = Ok (tl (bi_active_chain ?idx))" using F by blast
  then have w: "path_walk (fcard (fmdom (bi_blocks ?idx))) ?idx (cs_tip (nd_state nd)) [] = Ok (tl (bi_active_chain ?idx))"
    by (simp add: path_to_walk)
  show "successively (follows ?idx) (bi_active_chain ?idx)" using path_walk_follows [OF w] cons by simp
  obtain q where "bi_genesis ?idx # tl (bi_active_chain ?idx) = q @ [cs_tip (nd_state nd)]" using path_walk_suffix [OF w] by blast
  then show "last (bi_active_chain ?idx) = cs_tip (nd_state nd)" using cons by simp
  show "bi_genesis ?idx = np_genesis_hash params" using run
    by (induction) (auto simp: index_new_def commit_prepared_def try_in_def Let_def split: outcome.splits if_splits option.splits validated_candidate.splits)
  show "\<forall>x \<in> set (bi_active_chain ?idx). index_contains ?idx x"
    by (subst cons) (use path_to_members [OF p] in \<open>auto simp: index_contains_def\<close>)
qed

section \<open>What locators and inventories hold\<close>

lemma locator_walk_step:
  "0 < position \<Longrightarrow> length locator + 1 < limit \<Longrightarrow> locator_walk chain limit position step locator =
     locator_walk chain limit (position - step)
       (if 10 \<le> length (locator @ [chain ! position]) then min (step * 2) (usize_limit - 1) else step) (locator @ [chain ! position])"
  by (subst locator_walk.simps) (simp add: Let_def)

lemma locator_walk_done:
  "\<not> (0 < position \<and> length locator + 1 < limit) \<Longrightarrow> locator_walk chain limit position step locator = locator"
  by (subst locator_walk.simps) (simp only: if_False)

lemma locator_walk_members:
  "position < length chain \<Longrightarrow> set locator \<subseteq> set chain \<Longrightarrow> set (locator_walk chain limit position step locator) \<subseteq> set chain"
proof (induction chain limit position step locator rule: locator_walk.induct)
  case (1 chain limit position step locator)
  show ?case
  proof (cases "0 < position \<and> length locator + 1 < limit")
    case True
    have "position - step < length chain" "set (locator @ [chain ! position]) \<subseteq> set chain" using 1(2,3) by auto
    from 1(1) [OF True refl refl refl this] True show ?thesis by (subst locator_walk.simps) (simp add: Let_def)
  next
    case False
    show ?thesis unfolding locator_walk_done [OF False] by (rule 1(3))
  qed
qed

lemma locator_walk_length:
  "length locator + 1 \<le> limit \<Longrightarrow> length (locator_walk chain limit position step locator) + 1 \<le> limit"
proof (induction chain limit position step locator rule: locator_walk.induct)
  case (1 chain limit position step locator)
  show ?case
  proof (cases "0 < position \<and> length locator + 1 < limit")
    case True
    then have "length (locator @ [chain ! position]) + 1 \<le> limit" by simp
    from 1(1) [OF True refl refl refl this] True show ?thesis by (subst locator_walk.simps) (simp add: Let_def)
  next
    case False
    show ?thesis unfolding locator_walk_done [OF False] by (rule 1(2))
  qed
qed

lemma locator_walk_prefix: "\<exists>more. locator_walk chain limit position step locator = locator @ more"
proof (induction chain limit position step locator rule: locator_walk.induct)
  case (1 chain limit position step locator)
  show ?case
  proof (cases "0 < position \<and> length locator + 1 < limit")
    case True
    from 1 [OF True refl refl refl] show ?thesis unfolding locator_walk_step [OF conjunct1 [OF True] conjunct2 [OF True]] by auto
  next
    case False
    show ?thesis unfolding locator_walk_done [OF False] by simp
  qed
qed

lemma block_locator_shape:
  assumes "crypto_ok C" "node_run C params verifier rs nd" "0 < limit"
  shows "set (block_locator nd limit) \<subseteq> set (bi_active_chain (nd_index nd))"
    "last (block_locator nd limit) = np_genesis_hash params" "length (block_locator nd limit) \<le> limit"
    "2 \<le> limit \<Longrightarrow> hd (block_locator nd limit) = cs_tip (nd_state nd)"
proof -
  let ?chain = "bi_active_chain (nd_index nd)" and ?g = "bi_genesis (nd_index nd)"
  note A = active_chain_follows [OF assms(1,2)]
  obtain rest where chain: "?chain = ?g # rest" using A(1) by blast
  have gin: "?g \<in> set ?chain" by (simp add: chain)
  have w: "set (locator_walk ?chain limit (length ?chain - 1) 1 []) \<subseteq> set ?chain"
    by (rule locator_walk_members) (simp_all add: chain)
  show "set (block_locator nd limit) \<subseteq> set ?chain" using gin w by (simp add: block_locator_def Let_def)
  show "last (block_locator nd limit) = np_genesis_hash params" using assms(3) A(4) by (simp add: block_locator_def Let_def)
  show "length (block_locator nd limit) \<le> limit"
    using assms(3) locator_walk_length [of "[]" limit ?chain "length ?chain - 1" 1] by (simp add: block_locator_def Let_def)
  show "hd (block_locator nd limit) = cs_tip (nd_state nd)" if "2 \<le> limit"
  proof (cases "rest = []")
    case True
    then show ?thesis using that A(3) by (simp add: block_locator_def Let_def chain)
  next
    case False
    let ?top = "?chain ! (length ?chain - 1)"
    have "0 < length ?chain - 1" using False by (simp add: chain)
    from locator_walk_step [OF this, of "[]" limit ?chain 1] that
    have "locator_walk ?chain limit (length ?chain - 1) 1 [] = locator_walk ?chain limit (length ?chain - 1 - 1) 1 [?top]" by simp
    then obtain more where more: "locator_walk ?chain limit (length ?chain - 1) 1 [] = ?top # more"
      using locator_walk_prefix [of ?chain limit "length ?chain - 1 - 1" 1 "[?top]"] by auto
    have "?chain ! (length ?chain - 1) = cs_tip (nd_state nd)" using A(3) chain by (metis last_conv_nth list.distinct(1))
    with more show ?thesis using that False by (simp add: block_locator_def Let_def chain)
  qed
qed

lemma fill_inventory_prefix:
  "0 < limit \<Longrightarrow> length acc < limit \<Longrightarrow>
     \<exists>k. fill_inventory stop limit acc chain = acc @ take k chain \<and> length acc + min k (length chain) \<le> limit \<and> (chain \<noteq> [] \<longrightarrow> 0 < k) \<and>
       (stop = replicate 32 0 \<longrightarrow> k = limit - length acc)"
proof (induction chain arbitrary: acc)
  case (Cons b chain)
  consider (full) "Suc (length acc) = limit" | (halt) "Suc (length acc) \<noteq> limit" "stop \<noteq> replicate 32 0" "b = stop"
    | (more) "Suc (length acc) \<noteq> limit" "\<not> (stop \<noteq> replicate 32 0 \<and> b = stop)" by blast
  then show ?case
  proof cases
    case more
    with Cons.prems have "length (acc @ [b]) < limit" by simp
    from Cons.IH [OF Cons.prems(1) this] obtain k where "fill_inventory stop limit (acc @ [b]) chain = (acc @ [b]) @ take k chain"
      "length (acc @ [b]) + min k (length chain) \<le> limit" "stop = replicate 32 0 \<longrightarrow> k = limit - length (acc @ [b])" by blast
    with more Cons.prems show ?thesis by (intro exI [of _ "Suc k"]) (auto simp: Let_def)
  next
    case full
    then show ?thesis using Cons.prems by (intro exI [of _ 1]) (auto simp: Let_def)
  next
    case halt
    then show ?thesis using Cons.prems by (intro exI [of _ 1]) (auto simp: Let_def)
  qed
qed (auto intro: exI [of _ "limit - length acc"])

lemma find_position_Some:
  "find_position idx locator = Some k \<Longrightarrow> k < length (bi_active_chain idx) \<and> bi_active_chain idx ! k \<in> set locator"
  by (induction locator) (auto simp: active_position_def dest: list_position_Some split: option.splits)

lemma find_position_None: "find_position idx locator = None \<longleftrightarrow> set locator \<inter> set (bi_active_chain idx) = {}"
proof (induction locator)
  case (Cons bid locator)
  then show ?case
    using list_position_None [of bid "bi_active_chain idx"] by (cases "active_position idx bid") (auto simp: active_position_def)
qed simp

text \<open>Walking down from an indexed block finds the last block of its path on the active chain.\<close>

lemma relay_walk_finds:
  assumes "bi_genesis idx \<in> set (bi_active_chain idx)"
  shows "path_walk n idx c p = Ok r \<Longrightarrow> \<exists>k q side. relay_walk (Suc n) idx c = Some k \<and> k < length (bi_active_chain idx) \<and>
    bi_genesis idx # r = q @ bi_active_chain idx ! k # side @ p \<and> set side \<inter> set (bi_active_chain idx) = {}"
proof (induction n arbitrary: c p)
  case 0
  then have c: "c = bi_genesis idx" "r = p" by (auto split: if_splits)
  obtain k where k: "active_position idx c = Some k"
    using assms list_position_None [of c "bi_active_chain idx"] by (auto simp: active_position_def c)
  with list_position_Some [of c "bi_active_chain idx" k] c show ?case
    by (intro exI [of _ k] exI [of _ "[]"]) (simp add: active_position_def)
next
  case (Suc n)
  show ?case
  proof (cases "active_position idx c")
    case None
    then have "c \<notin> set (bi_active_chain idx)" by (simp add: active_position_def list_position_None)
    with assms have ne: "c \<noteq> bi_genesis idx" by auto
    with Suc.prems obtain entry where e: "fmlookup (bi_blocks idx) c = Some entry"
      "path_walk n idx (ib_parent entry) (c # p) = Ok r" by (auto split: option.splits)
    from Suc.IH [OF e(2)] obtain k q side where IH: "relay_walk (Suc n) idx (ib_parent entry) = Some k"
      "k < length (bi_active_chain idx)" "bi_genesis idx # r = q @ bi_active_chain idx ! k # side @ c # p"
      "set side \<inter> set (bi_active_chain idx) = {}" by blast
    show ?thesis
      by (rule exI [of _ k], rule exI [of _ q], rule exI [of _ "side @ [c]"])
        (use IH None e \<open>c \<notin> set (bi_active_chain idx)\<close> in auto)
  next
    case (Some k)
    obtain q where "bi_genesis idx # r = q @ c # p" using path_walk_suffix [OF Suc.prems] by blast
    with Some list_position_Some [of c "bi_active_chain idx" k] show ?thesis
      by (intro exI [of _ k] exI [of _ q] exI [of _ "[]"]) (simp add: active_position_def)
  qed
qed

lemma path_walk_through:
  "path_walk n idx c p = Ok r \<Longrightarrow> bi_genesis idx # r = q @ x # s \<Longrightarrow> length p \<le> length s \<Longrightarrow> \<exists>m. path_walk m idx x s = Ok r"
proof (induction n arbitrary: c p)
  case (Suc n)
  obtain q' where q': "bi_genesis idx # r = q' @ c # p" using path_walk_suffix [OF Suc.prems(1)] by blast
  show ?case
  proof (cases "length p = length s")
    case True
    then have "x = c" "s = p" using q' Suc.prems(2) by (auto simp: append_eq_append_conv)
    then show ?thesis using Suc.prems(1) by blast
  next
    case False
    then have "c \<noteq> bi_genesis idx" using Suc.prems by (auto simp: Cons_eq_append_conv)
    with Suc.prems(1) obtain entry where e: "fmlookup (bi_blocks idx) c = Some entry"
      "path_walk n idx (ib_parent entry) (c # p) = Ok r" by (auto split: option.splits)
    show ?thesis by (rule Suc.IH [OF e(2) Suc.prems(2)]) (use False Suc.prems(3) in simp)
  qed
next
  case 0
  then have "c = bi_genesis idx" "r = p" by (auto split: if_splits)
  then have "q = []" "x = c" "s = p" using 0 by (auto simp: Cons_eq_append_conv)
  then show ?case using 0(1) by blast
qed

text \<open>A block lies on all paths through it with the same blocks below it.\<close>

lemma path_walk_below:
  assumes "path_walk n idx c [] = Ok r" "bi_genesis idx # r = q @ x # s"
    "path_walk n' idx c' [] = Ok r'" "bi_genesis idx # r' = q' @ x # s'"
  shows "q = q'"
proof -
  have parts: "\<exists>t m. path_walk m idx x [] = Ok t \<and> r = t @ s" if w: "path_walk n idx c [] = Ok r" "bi_genesis idx # r = q @ x # s" for n c r q s
    using path_walk_through [OF w] path_walk_append [of _ idx x "[]" s] by force
  obtain t m where t: "path_walk m idx x [] = Ok t" "r = t @ s" using parts [OF assms(1,2)] by blast
  obtain t' m' where t': "path_walk m' idx x [] = Ok t'" "r' = t' @ s'" using parts [OF assms(3,4)] by blast
  have "t = t'" using path_walk_more [OF t(1), of "max m m'"] path_walk_more [OF t'(1), of "max m m'"] by simp
  moreover have "bi_genesis idx # t = q @ [x]" using assms(2) t(2) append_same_eq [of "bi_genesis idx # t" s "q @ [x]"] by simp
  moreover have "bi_genesis idx # t' = q' @ [x]" using assms(4) t'(2) append_same_eq [of "bi_genesis idx # t'" s' "q' @ [x]"] by simp
  ultimately show ?thesis by simp
qed

section \<open>Properties\<close>

text \<open>C15. What a peer answers to a locator connects: it continues, parent by parent, a block of the
  asking node's active chain that is named in the locator; it respects the limit; it reaches the
  peer's tip when there is no stop and the limit is not reached; and it is empty only when the
  asking node has already indexed the peer's tip.\<close>

theorem sync_inventory_connects:
  assumes "crypto_ok C" "node_run C params verifier rs nd" "node_run C params verifier rs' peer" "0 < n" "0 < limit"
  shows "\<exists>anchor. anchor \<in> set (block_locator nd n) \<and> index_contains (nd_index nd) anchor \<and>
    (let inventory = inventory_after peer (block_locator nd n) stop limit in
     successively (follows (nd_index peer)) (anchor # inventory) \<and> length inventory \<le> limit \<and>
     (stop = replicate 32 0 \<and> length inventory < limit \<longrightarrow> last (anchor # inventory) = cs_tip (nd_state peer)) \<and>
     (inventory = [] \<longrightarrow> index_contains (nd_index nd) (cs_tip (nd_state peer))))"
proof -
  note A = active_chain_follows [OF assms(1,2)] and B = active_chain_follows [OF assms(1,3)]
  note L = block_locator_shape [OF assms(1,2,4)]
  let ?chain = "bi_active_chain (nd_index peer)" and ?loc = "block_locator nd n"
  have "?loc \<noteq> []" using assms(4) by (auto simp: block_locator_def Let_def)
  then have "np_genesis_hash params \<in> set ?loc" using L(2) by (metis last_in_set)
  moreover have "np_genesis_hash params \<in> set ?chain" using B(1,4) by (metis list.set_intros(1))
  ultimately obtain k where k: "find_position (nd_index peer) ?loc = Some k"
    using find_position_None [of "nd_index peer" ?loc] by (cases "find_position (nd_index peer) ?loc") auto
  have anchor: "k < length ?chain" "?chain ! k \<in> set ?loc" using find_position_Some [OF k] by simp_all
  obtain j where j: "fill_inventory stop limit [] (drop (k + 1) ?chain) = take j (drop (k + 1) ?chain)"
    "min j (length (drop (k + 1) ?chain)) \<le> limit" "drop (k + 1) ?chain \<noteq> [] \<longrightarrow> 0 < j" "stop = replicate 32 0 \<longrightarrow> j = limit"
    using fill_inventory_prefix [of limit "[]" stop "drop (k + 1) ?chain"] assms(5) by auto
  have inventory: "inventory_after peer ?loc stop limit = take j (drop (k + 1) ?chain)"
    using assms(5) k j(1) by (simp add: inventory_after_def)
  have split: "?chain = take k ?chain @ ?chain ! k # drop (k + 1) ?chain" using id_take_nth_drop [OF anchor(1)] by simp
  have rest: "successively (follows (nd_index peer)) (?chain ! k # drop (k + 1) ?chain)"
    using B(2) split by (metis successively_append_iff)
  have ends: "last (?chain ! k # drop (k + 1) ?chain) = cs_tip (nd_state peer)" using B(3) split by (metis last_append list.distinct(1))
  have "successively (follows (nd_index peer)) (?chain ! k # take j (drop (k + 1) ?chain))"
    using rest by (metis append_Cons append_take_drop_id successively_append_iff)
  moreover have "last (?chain ! k # take j (drop (k + 1) ?chain)) = cs_tip (nd_state peer)"
    if "length (drop (k + 1) ?chain) \<le> j" using ends that by simp
  moreover have "index_contains (nd_index nd) (?chain ! k)" using anchor(2) L(1) A(5) by blast
  moreover have "index_contains (nd_index nd) (cs_tip (nd_state peer))" if "take j (drop (k + 1) ?chain) = []"
    using that j(3) ends calculation(3) by auto
  ultimately show ?thesis
    using anchor(2) j(2,4) unfolding inventory Let_def by (intro exI [of _ "?chain ! k"]) auto
qed

text \<open>What is relayed to a peer with an indexed tip starts at the fork point: the path to the
  peer's tip and the active chain share a prefix, nothing above it on the peer's side is active,
  and the relayed blocks are the active ones above it, up to the limit.\<close>

theorem relay_starts_at_fork_point:
  assumes "crypto_ok C" "node_run C params verifier rs nd" "index_contains (nd_index nd) peer_tip" "0 < limit"
  shows "\<exists>path below fork side rest. path_to (nd_index nd) peer_tip = Ok path \<and>
    bi_genesis (nd_index nd) # path = below @ fork # side \<and> bi_active_chain (nd_index nd) = below @ fork # rest \<and>
    set side \<inter> set (bi_active_chain (nd_index nd)) = {} \<and> relay_inventory_after nd peer_tip limit = take limit rest"
proof -
  let ?idx = "nd_index nd" and ?chain = "bi_active_chain (nd_index nd)"
  note A = active_chain_follows [OF assms(1,2)]
  have run: "fork_run C params verifier rs (nd_state nd) ?idx"
    using node_run_inv [OF assms(2,1)] by (simp add: node_inv_def)
  note F = fork_run_inv [OF run assms(1), unfolded fork_inv_def]
  obtain path where path: "path_to ?idx peer_tip = Ok path" using F assms(3) by (auto simp: indexed_ok_def)
  have active: "path_to ?idx (cs_tip (nd_state nd)) = Ok (tl ?chain)" using F by blast
  have "bi_genesis ?idx \<in> set ?chain" using A(1) by (metis list.set_intros(1))
  from relay_walk_finds [OF this path [unfolded path_to_walk]] obtain k below side where
    k: "relay_walk (Suc (fcard (fmdom (bi_blocks ?idx)))) ?idx peer_tip = Some k" "k < length ?chain"
    "bi_genesis ?idx # path = below @ ?chain ! k # side" "set side \<inter> set ?chain = {}" by auto
  have split: "?chain = take k ?chain @ ?chain ! k # drop (k + 1) ?chain" using id_take_nth_drop [OF k(2)] by simp
  then have "bi_genesis ?idx # tl ?chain = take k ?chain @ ?chain ! k # drop (k + 1) ?chain" using A(1) by simp
  note below = path_walk_below [OF path [unfolded path_to_walk] k(3) active [unfolded path_to_walk] this]
  have "relay_inventory_after nd peer_tip limit = take limit (drop (k + 1) ?chain)"
    using assms(3,4) k(1) by (simp add: relay_inventory_after_def Let_def)
  then show ?thesis using path k(3,4) split unfolding below by blast
qed

theorem sync_inventory_connects_witness:
  "\<exists>peer. submit_block demo_crypto IO_Durable demo_node demo_first 2000 = (peer, Ok 0) \<and>
     inventory_after peer (block_locator demo_node 32) (replicate 32 0) 8 \<noteq> []"
proof -
  obtain peer where peer: "submit_block demo_crypto IO_Durable demo_node demo_first 2000 = (peer, Ok 0)"
    "cs_tip (nd_state peer) = block_id demo_crypto demo_first" using demo_submit by blast
  obtain frame where "encode_block demo_crypto demo_first = Ok frame"
    using demo_mined_encodes [of "[]" "replicate 32 2" 1 2000 0] by (auto simp: demo_first_def)
  note run = node_block [OF demo_node_run demo_first_wf this peer(1)]
  have "\<not> index_contains (nd_index demo_node) (block_id demo_crypto demo_first)"
    by (simp add: demo_node_def index_contains_def index_new_def block_id_def demo_crypto_simps BLOCK_ID_DOMAIN_def demo_params_def replicate_32_eq)
  with sync_inventory_connects [OF crypto_ok_demo demo_node_run run, of 32 8 "replicate 32 0"] peer show ?thesis by (auto simp: Let_def)
qed

theorem relay_starts_at_fork_point_witness:
  "\<exists>peer. submit_block demo_crypto IO_Durable demo_node demo_first 2000 = (peer, Ok 0) \<and>
     (\<exists>path below fork side rest. path_to (nd_index peer) (cs_tip (nd_state peer)) = Ok path \<and>
        bi_genesis (nd_index peer) # path = below @ fork # side \<and> relay_inventory_after peer (cs_tip (nd_state peer)) 8 = take 8 rest)"
proof -
  obtain peer where peer: "submit_block demo_crypto IO_Durable demo_node demo_first 2000 = (peer, Ok 0)"
    "cs_tip (nd_state peer) = block_id demo_crypto demo_first" using demo_submit by blast
  obtain frame where "encode_block demo_crypto demo_first = Ok frame"
    using demo_mined_encodes [of "[]" "replicate 32 2" 1 2000 0] by (auto simp: demo_first_def)
  note run = node_block [OF demo_node_run demo_first_wf this peer(1)]
  have "index_contains (nd_index peer) (cs_tip (nd_state peer))"
    using node_run_inv [OF run crypto_ok_demo] fork_run_inv [OF _ crypto_ok_demo] by (auto simp: node_inv_def fork_inv_def)
  from relay_starts_at_fork_point [OF crypto_ok_demo run this, of 8] peer show ?thesis by auto
qed

end
