(* ===== verification/CF_Mining.thy ===== *)
theory CF_Mining
  imports CF_Node
begin

text \<open>
  Mining outside the node's lock, of \<open>crates/cmfd-node/src/lib.rs\<close>: \<open>MiningJob\<close> and \<open>MiningWork\<close> with
  their bounded nonce searches, the evaluation of pool shares, and the completion of accelerator
  batches. The cancellation callback is asked once before every nonce; \<open>should_cancel k\<close> is its answer
  after \<open>k\<close> nonces.

  The lemmas relate the three searches: the search for a block is the search for a share at the
  block target, and completing a batch of honest accelerator outputs is the search by the reference
  prover.
\<close>

section \<open>Data\<close>

definition MAX_MINING_SEARCH_ATTEMPTS :: u64 where "MAX_MINING_SEARCH_ATTEMPTS = 1000000"

record mining_job =
  mj_template :: block_template
  mj_verifier :: pow_verifier

record mining_work =
  mw_challenge :: block_challenge
  mw_verifier :: pow_verifier

datatype mining_search_result =
    MS_Found block u64 u64
  | MS_Exhausted u64 u64
  | MS_Cancelled u64 u64

record mining_share_evaluation =
  se_proof :: block_proof
  se_work_digest :: hash32
  se_meets_share_target :: bool
  se_meets_chain_target :: bool

datatype share_search_result =
    SS_Found block_proof hash32 bool u64 u64
  | SS_Exhausted u64 u64
  | SS_Cancelled u64 u64

section \<open>Jobs\<close>

definition build_mining_job :: "crypto \<Rightarrow> node \<Rightarrow> hash32 \<Rightarrow> u64 \<Rightarrow> (node_error, mining_job) outcome" where
  "build_mining_job C nd miner_destination now_unix_seconds =
     obind (build_template C nd miner_destination now_unix_seconds) (\<lambda>tpl.
     Ok \<lparr>mj_template = tpl, mj_verifier = nd_verifier nd\<rparr>)"

definition mj_challenge :: "mining_job \<Rightarrow> block_challenge" where
  "mj_challenge job = bt_challenge (mj_template job)"

definition mj_work :: "mining_job \<Rightarrow> mining_work" where
  "mj_work job = \<lparr>mw_challenge = bt_challenge (mj_template job), mw_verifier = mj_verifier job\<rparr>"

definition mj_prepare_batch ::
  "crypto \<Rightarrow> mining_job \<Rightarrow> u64 \<Rightarrow> u32 \<Rightarrow> (node_error, v2_accelerator_batch) outcome" where
  "mj_prepare_batch C job start_nonce count =
     map_err ND_Pow (pow_prepare_batch C (mj_verifier job) (bt_challenge (mj_template job)) start_nonce count)"

definition mw_prepare_batch ::
  "crypto \<Rightarrow> mining_work \<Rightarrow> u64 \<Rightarrow> u32 \<Rightarrow> (node_error, v2_accelerator_batch) outcome" where
  "mw_prepare_batch C work start_nonce count =
     map_err ND_Pow (pow_prepare_batch C (mw_verifier work) (mw_challenge work) start_nonce count)"

definition validate_share_target :: "mining_job \<Rightarrow> hash32 \<Rightarrow> (node_error, unit) outcome" where
  "validate_share_target job share_target =
     (if lex_less share_target (bc_target (bt_challenge (mj_template job))) then Err ND_InvalidMiningShareTarget else Ok ())"

section \<open>Searching for a block\<close>

fun search_from ::
  "crypto \<Rightarrow> mining_job \<Rightarrow> (u64 \<Rightarrow> bool) \<Rightarrow> u64 \<Rightarrow> u64 \<Rightarrow> nat \<Rightarrow> (node_error, mining_search_result) outcome" where
  "search_from C job should_cancel start_nonce completed 0 =
     Ok (MS_Exhausted completed (start_nonce + completed))"
| "search_from C job should_cancel start_nonce completed (Suc remaining) =
     (let nonce = start_nonce + completed in
      if should_cancel completed then Ok (MS_Cancelled completed nonce)
      else case pow_mine C (mj_verifier job) (bt_challenge (mj_template job)) nonce 1 of
        Ok proof \<Rightarrow> Ok (MS_Found (template_with_proof (mj_template job) proof) (completed + 1) (nonce + 1))
      | Err e \<Rightarrow>
          if e = PE_V1 FE_NonceExhausted \<or> e = PE_V2 V2E_NonceExhausted
          then search_from C job should_cancel start_nonce (completed + 1) remaining
          else Err (ND_Pow e)
      | Panic \<Rightarrow> Panic
      | Diverge \<Rightarrow> Diverge)"

definition search_range ::
  "crypto \<Rightarrow> mining_job \<Rightarrow> u64 \<Rightarrow> u64 \<Rightarrow> (u64 \<Rightarrow> bool) \<Rightarrow> (node_error, mining_search_result) outcome" where
  "search_range C job start_nonce attempts should_cancel =
     (if attempts = 0 \<or> MAX_MINING_SEARCH_ATTEMPTS < attempts then Err ND_InvalidMiningSearchAttempts
      else search_from C job should_cancel start_nonce 0 (unat attempts))"

section \<open>Shares\<close>

definition evaluate_share_unchecked ::
  "crypto \<Rightarrow> mining_job \<Rightarrow> u64 \<Rightarrow> hash32 \<Rightarrow> (node_error, mining_share_evaluation) outcome" where
  "evaluate_share_unchecked C job nonce share_target =
     obind (map_err ND_Pow (pow_evaluate C (mj_verifier job) (bt_challenge (mj_template job)) nonce)) (\<lambda>proof.
     let digest = bp_work_digest proof in
     Ok \<lparr>se_proof = proof, se_work_digest = digest, se_meets_share_target = lex_le digest share_target,
         se_meets_chain_target = lex_le digest (bc_target (bt_challenge (mj_template job)))\<rparr>)"

definition evaluate_share ::
  "crypto \<Rightarrow> mining_job \<Rightarrow> u64 \<Rightarrow> hash32 \<Rightarrow> (node_error, mining_share_evaluation) outcome" where
  "evaluate_share C job nonce share_target =
     obind (validate_share_target job share_target) (\<lambda>_. evaluate_share_unchecked C job nonce share_target)"

fun search_share_from ::
  "crypto \<Rightarrow> mining_job \<Rightarrow> hash32 \<Rightarrow> (u64 \<Rightarrow> bool) \<Rightarrow> u64 \<Rightarrow> u64 \<Rightarrow> nat \<Rightarrow> (node_error, share_search_result) outcome" where
  "search_share_from C job share_target should_cancel start_nonce completed 0 =
     Ok (SS_Exhausted completed (start_nonce + completed))"
| "search_share_from C job share_target should_cancel start_nonce completed (Suc remaining) =
     (let nonce = start_nonce + completed in
      if should_cancel completed then Ok (SS_Cancelled completed nonce)
      else
        obind (evaluate_share_unchecked C job nonce share_target) (\<lambda>evaluation.
        if se_meets_share_target evaluation
        then Ok (SS_Found (se_proof evaluation) (se_work_digest evaluation) (se_meets_chain_target evaluation)
                   (completed + 1) (nonce + 1))
        else search_share_from C job share_target should_cancel start_nonce (completed + 1) remaining))"

definition search_share_range ::
  "crypto \<Rightarrow> mining_job \<Rightarrow> u64 \<Rightarrow> u64 \<Rightarrow> hash32 \<Rightarrow> (u64 \<Rightarrow> bool) \<Rightarrow> (node_error, share_search_result) outcome" where
  "search_share_range C job start_nonce attempts share_target should_cancel =
     (if attempts = 0 \<or> MAX_MINING_SEARCH_ATTEMPTS < attempts then Err ND_InvalidMiningSearchAttempts
      else
        obind (validate_share_target job share_target) (\<lambda>_.
        search_share_from C job share_target should_cancel start_nonce 0 (unat attempts)))"

definition build_block_if_chain_valid :: "crypto \<Rightarrow> mining_job \<Rightarrow> block_proof \<Rightarrow> (node_error, block option) outcome" where
  "build_block_if_chain_valid C job proof =
     obind (map_err ND_Pow (pow_verify_evaluation C (mj_verifier job) (bt_challenge (mj_template job)) proof)) (\<lambda>_.
     if lex_less (bc_target (bt_challenge (mj_template job))) (bp_work_digest proof) then Ok None
     else Ok (Some (template_with_proof (mj_template job) proof)))"

section \<open>Accelerator outputs\<close>

definition verify_output ::
  "crypto \<Rightarrow> pow_verifier \<Rightarrow> block_challenge \<Rightarrow> v2_accelerator_batch \<Rightarrow> nat \<Rightarrow> byte list \<Rightarrow> (node_error, hash32) outcome" where
  "verify_output C verifier challenge batch index final =
     obind (map_err ND_Pow (pow_validate_batch verifier challenge batch)) (\<lambda>_.
     obind (map_err (\<lambda>e. ND_Pow (PE_V2 e)) (candidate_work_digest C batch index final)) (\<lambda>digest.
     obind (map_err ND_Pow (pow_verify_candidate C verifier challenge batch index digest)) (\<lambda>_.
     Ok digest)))"

definition mj_verify_accelerator_output ::
  "crypto \<Rightarrow> mining_job \<Rightarrow> v2_accelerator_batch \<Rightarrow> nat \<Rightarrow> byte list \<Rightarrow> (node_error, hash32) outcome" where
  "mj_verify_accelerator_output C job = verify_output C (mj_verifier job) (bt_challenge (mj_template job))"

definition mw_verify_accelerator_output ::
  "crypto \<Rightarrow> mining_work \<Rightarrow> v2_accelerator_batch \<Rightarrow> nat \<Rightarrow> byte list \<Rightarrow> (node_error, hash32) outcome" where
  "mw_verify_accelerator_output C work = verify_output C (mw_verifier work) (mw_challenge work)"

text \<open>The length check in front of the scan: the product is taken in 32 bits.\<close>

definition check_output_length :: "v2_accelerator_batch \<Rightarrow> byte list \<Rightarrow> (node_error, unit) outcome" where
  "check_output_length batch outputs =
     obind (ok_or (ND_Pow (PE_V2 V2E_AcceleratorOutputShape))
              (checked_mul (ab_count batch) (word_of_nat (ab_activation_len batch)))) (\<lambda>expected_len.
     if length outputs \<noteq> unat expected_len then Err (ND_Pow (PE_V2 V2E_AcceleratorOutputShape)) else Ok ())"

text \<open>The scan over the exact chunks of the outputs; the last argument counts the chunks left.\<close>

fun scan_outputs ::
  "crypto \<Rightarrow> pow_verifier \<Rightarrow> block_challenge \<Rightarrow> v2_accelerator_batch \<Rightarrow> hash32 \<Rightarrow> (hash32 \<Rightarrow> bool) \<Rightarrow> nat \<Rightarrow> byte list \<Rightarrow> nat
     \<Rightarrow> (node_error, share_search_result) outcome" where
  "scan_outputs C verifier challenge batch threshold meets_chain index outputs 0 =
     Ok (SS_Exhausted (ucast (ab_count batch)) (ab_start_nonce batch + ucast (ab_count batch)))"
| "scan_outputs C verifier challenge batch threshold meets_chain index outputs (Suc chunks) =
     obind (map_err (\<lambda>e. ND_Pow (PE_V2 e)) (candidate_work_digest C batch index (take (ab_activation_len batch) outputs))) (\<lambda>digest.
     if lex_le digest threshold
     then
       obind (map_err ND_Pow (pow_verify_candidate C verifier challenge batch index digest)) (\<lambda>proof.
       obind (ok_or (ND_Pow (PE_V2 V2E_AcceleratorOutputShape)) (nonce_at batch index)) (\<lambda>nonce.
       Ok (SS_Found proof digest (meets_chain digest) (word_of_nat index + 1) (nonce + 1))))
     else scan_outputs C verifier challenge batch threshold meets_chain (index + 1) (drop (ab_activation_len batch) outputs) chunks)"

definition scan_batch ::
  "crypto \<Rightarrow> pow_verifier \<Rightarrow> block_challenge \<Rightarrow> v2_accelerator_batch \<Rightarrow> hash32 \<Rightarrow> (hash32 \<Rightarrow> bool) \<Rightarrow> byte list
     \<Rightarrow> (node_error, share_search_result) outcome" where
  "scan_batch C verifier challenge batch threshold meets_chain outputs =
     obind (map_err ND_Pow (pow_validate_batch verifier challenge batch)) (\<lambda>_.
     obind (check_output_length batch outputs) (\<lambda>_.
     if ab_activation_len batch = 0 then Panic
     else scan_outputs C verifier challenge batch threshold meets_chain 0 outputs (length outputs div ab_activation_len batch)))"

definition complete_accelerator_batch ::
  "crypto \<Rightarrow> mining_job \<Rightarrow> v2_accelerator_batch \<Rightarrow> byte list \<Rightarrow> hash32 \<Rightarrow> (node_error, share_search_result) outcome" where
  "complete_accelerator_batch C job batch outputs share_target =
     obind (validate_share_target job share_target) (\<lambda>_.
     scan_batch C (mj_verifier job) (bt_challenge (mj_template job)) batch share_target
       (\<lambda>digest. lex_le digest (bc_target (bt_challenge (mj_template job)))) outputs)"

definition mw_complete_accelerator_batch ::
  "crypto \<Rightarrow> mining_work \<Rightarrow> v2_accelerator_batch \<Rightarrow> byte list \<Rightarrow> (node_error, share_search_result) outcome" where
  "mw_complete_accelerator_batch C work batch outputs =
     scan_batch C (mw_verifier work) (mw_challenge work) batch (bc_target (mw_challenge work)) (\<lambda>_. True) outputs"

text \<open>\<open>MiningWork::from_devnet_challenge\<close>, with the parameters and the reference of the network it
  serves.\<close>

definition work_from_challenge ::
  "network_params \<Rightarrow> v2_reference \<Rightarrow> block_challenge \<Rightarrow> (node_error, mining_work) outcome" where
  "work_from_challenge params reference challenge =
     (if bc_network_id challenge \<noteq> np_network_id params \<or> lex_less (np_pow_limit params) (bc_target challenge)
      then Err (ND_InvalidRpcRequest ''mining challenge does not belong to this Devnet'')
      else Ok \<lparr>mw_challenge = challenge, mw_verifier = pv_v2_reference reference\<rparr>)"

section \<open>One nonce\<close>

text \<open>The verifier of a job fits the challenge: it is well formed and made for the network.\<close>

definition usable :: "crypto \<Rightarrow> pow_verifier \<Rightarrow> block_challenge \<Rightarrow> bool" where
  "usable C verifier challenge \<longleftrightarrow> crypto_ok C \<and> xof_fair C \<and> wf_pow_verifier verifier \<and>
     (case verifier of PV_V1Legacy _ \<Rightarrow> True | PV_V2Reference r \<Rightarrow> on_network r challenge)"

lemma pow_evaluate_total: "usable C verifier challenge \<Longrightarrow> \<exists>p. pow_evaluate C verifier challenge nonce = Ok p"
proof (cases verifier)
  case (PV_V1Legacy f)
  assume "usable C verifier challenge"
  with PV_V1Legacy obtain p where "forge_prove C f challenge nonce = (Ok p :: (forge_error, _) outcome)"
    using forge_prove_total [of C f challenge nonce] by (auto simp: usable_def wf_pow_verifier_def)
  then show ?thesis by (simp add: pow_evaluate_def PV_V1Legacy)
next
  case (PV_V2Reference r)
  assume "usable C verifier challenge"
  with PV_V2Reference obtain p where "prove_compact C r challenge nonce = Ok p"
    using prove_compact_total [of C r challenge nonce] by (auto simp: usable_def wf_pow_verifier_def)
  then show ?thesis by (simp add: pow_evaluate_def PV_V2Reference)
qed

lemma pow_mine_one:
  assumes "pow_evaluate C verifier challenge nonce = Ok p"
  shows "lex_le (bp_work_digest p) (bc_target challenge) \<Longrightarrow> pow_mine C verifier challenge nonce 1 = Ok p"
    "\<not> lex_le (bp_work_digest p) (bc_target challenge) \<Longrightarrow>
       pow_mine C verifier challenge nonce 1 \<in> {Err (PE_V1 FE_NonceExhausted), Err (PE_V2 V2E_NonceExhausted)}"
  using assms by (auto simp: pow_evaluate_def pow_mine_def forge_mine_def mine_compact_def bp_work_digest_def meets_target_def
      split: pow_verifier.splits)

text \<open>What a nonce of a job evaluates to, and that it falls short of a target.\<close>

definition proof_at :: "crypto \<Rightarrow> mining_job \<Rightarrow> u64 \<Rightarrow> block_proof \<Rightarrow> bool" where
  "proof_at C job nonce p \<longleftrightarrow> pow_evaluate C (mj_verifier job) (bt_challenge (mj_template job)) nonce = Ok p"

definition misses :: "crypto \<Rightarrow> mining_job \<Rightarrow> hash32 \<Rightarrow> u64 \<Rightarrow> bool" where
  "misses C job target nonce \<longleftrightarrow> (\<exists>p. proof_at C job nonce p \<and> \<not> lex_le (bp_work_digest p) target)"

lemma evaluate_share_at:
  "proof_at C job nonce p \<Longrightarrow> evaluate_share_unchecked C job nonce target =
     Ok \<lparr>se_proof = p, se_work_digest = bp_work_digest p, se_meets_share_target = lex_le (bp_work_digest p) target,
         se_meets_chain_target = lex_le (bp_work_digest p) (bc_target (bt_challenge (mj_template job)))\<rparr>"
  by (simp add: evaluate_share_unchecked_def proof_at_def Let_def)

section \<open>Searches\<close>

text \<open>What a search for a share returns after \<open>k\<close> misses.\<close>

definition search_ends ::
  "crypto \<Rightarrow> mining_job \<Rightarrow> hash32 \<Rightarrow> (u64 \<Rightarrow> bool) \<Rightarrow> u64 \<Rightarrow> nat \<Rightarrow> nat \<Rightarrow> (node_error, share_search_result) outcome \<Rightarrow> bool" where
  "search_ends C job target should_cancel start attempts k result \<longleftrightarrow>
     k = attempts \<and> result = Ok (SS_Exhausted (word_of_nat k) (start + word_of_nat k)) \<or>
     k < attempts \<and> should_cancel (word_of_nat k) \<and> result = Ok (SS_Cancelled (word_of_nat k) (start + word_of_nat k)) \<or>
     k < attempts \<and> \<not> should_cancel (word_of_nat k) \<and> (\<exists>p. proof_at C job (start + word_of_nat k) p \<and> lex_le (bp_work_digest p) target \<and>
       result = Ok (SS_Found p (bp_work_digest p) (lex_le (bp_work_digest p) (bc_target (bt_challenge (mj_template job))))
         (word_of_nat (Suc k)) (start + word_of_nat (Suc k))))"

lemma search_share_from_ends:
  assumes "usable C (mj_verifier job) (bt_challenge (mj_template job))"
  shows "\<exists>k\<ge>seen. k \<le> seen + n \<and> (\<forall>j. seen \<le> j \<and> j < k \<longrightarrow> \<not> should_cancel (word_of_nat j) \<and> misses C job target (start + word_of_nat j)) \<and>
    search_ends C job target should_cancel start (seen + n) k
      (search_share_from C job target should_cancel start (word_of_nat seen) n)"
proof (induction n arbitrary: seen)
  case (Suc n)
  let ?d = seen
  obtain p where p: "proof_at C job (start + word_of_nat ?d) p"
    using pow_evaluate_total [OF assms] by (auto simp: proof_at_def)
  show ?case
  proof (cases "should_cancel (word_of_nat ?d) \<or> lex_le (bp_work_digest p) target")
    case True
    then show ?thesis
      using evaluate_share_at [OF p, of target] p
      by (intro exI [of _ ?d]) (auto simp: search_ends_def Let_def ac_simps)
  next
    case False
    from Suc.IH [of "Suc ?d"] obtain k where k: "Suc ?d \<le> k" "k \<le> ?d + Suc n"
      "\<forall>j. Suc ?d \<le> j \<and> j < k \<longrightarrow> \<not> should_cancel (word_of_nat j) \<and> misses C job target (start + word_of_nat j)"
      "search_ends C job target should_cancel start (?d + Suc n) k
         (search_share_from C job target should_cancel start (word_of_nat (Suc ?d)) n)" by auto
    have step: "search_share_from C job target should_cancel start (word_of_nat ?d) (Suc n) =
        search_share_from C job target should_cancel start (word_of_nat (Suc ?d)) n"
      using evaluate_share_at [OF p, of target] False by (simp add: Let_def ac_simps)
    have "misses C job target (start + word_of_nat ?d)" using p False by (auto simp: misses_def)
    then have "\<forall>j. ?d \<le> j \<and> j < k \<longrightarrow> \<not> should_cancel (word_of_nat j) \<and> misses C job target (start + word_of_nat j)"
      using k(3) False by (metis le_antisym not_less_eq_eq)
    then show ?thesis using k(1,2,4) unfolding step by (intro exI [of _ k]) simp
  qed
qed (auto simp: search_ends_def)

text \<open>The search for a block is the search for a share at the block target.\<close>

definition block_result :: "block_template \<Rightarrow> share_search_result \<Rightarrow> mining_search_result" where
  "block_result tpl r = (case r of
     SS_Found p _ _ k n \<Rightarrow> MS_Found (template_with_proof tpl p) k n
   | SS_Exhausted k n \<Rightarrow> MS_Exhausted k n
   | SS_Cancelled k n \<Rightarrow> MS_Cancelled k n)"

lemma search_from_share:
  assumes "usable C (mj_verifier job) (bt_challenge (mj_template job))"
  shows "search_from C job should_cancel start completed n =
    obind (search_share_from C job (bc_target (bt_challenge (mj_template job))) should_cancel start completed n)
      (\<lambda>r. Ok (block_result (mj_template job) r))"
proof (induction n arbitrary: completed)
  case (Suc n)
  obtain p where p: "proof_at C job (start + completed) p" using pow_evaluate_total [OF assms] by (auto simp: proof_at_def)
  note e = evaluate_share_at [OF p, of "bc_target (bt_challenge (mj_template job))"] and one = pow_mine_one [OF p [unfolded proof_at_def]]
  show ?case
  proof (cases "lex_le (bp_work_digest p) (bc_target (bt_challenge (mj_template job)))")
    case True
    then show ?thesis using e one(1) by (simp add: Let_def block_result_def)
  next
    case False
    then show ?thesis using e one(2) Suc.IH by (auto simp: Let_def block_result_def)
  qed
qed (simp add: block_result_def)

lemma validate_share_target_Ok: "validate_share_target job t = Ok () \<longleftrightarrow> \<not> lex_less t (bc_target (bt_challenge (mj_template job)))"
  by (simp add: validate_share_target_def)

lemma search_range_share:
  assumes "usable C (mj_verifier job) (bt_challenge (mj_template job))"
  shows "search_range C job start attempts should_cancel =
    obind (search_share_range C job start attempts (bc_target (bt_challenge (mj_template job))) should_cancel)
      (\<lambda>r. Ok (block_result (mj_template job) r))"
  using validate_share_target_Ok [of job "bc_target (bt_challenge (mj_template job))"]
  by (simp add: search_range_def search_share_range_def search_from_share [OF assms] lex_less_irrefl)

section \<open>Accelerated searches\<close>

text \<open>The final activation that the reference prover computes at a nonce, as an accelerator reports it.\<close>

definition honest_output :: "crypto \<Rightarrow> v2_reference \<Rightarrow> block_challenge \<Rightarrow> u64 \<Rightarrow> (v2_error, byte list) outcome" where
  "honest_output C r block nonce =
     obind (prove_reference C r block nonce) (\<lambda>q. activation_bytes (lw_output (last (vr_layers q))))"

lemma prepared_batch:
  assumes "prepare_accelerator_batch C r block start count = Ok b"
  shows "ab_count b = count" "ab_start_nonce b = start" "ab_descriptor b = v2_desc r" "ab_block b = block"
    "ab_activation_len b = v2_rows r * v2_width r"
  using assms by (auto simp: prepare_accelerator_batch_def split: if_splits)

lemma honest_output_digest:
  assumes "xof_fair C" "wf_v2 r" "v2_weights r \<noteq> []" "on_network r block"
    and batch: "prepare_accelerator_batch C r block start count = Ok b" and i: "i < unat count"
    and out: "honest_output C r block (start + word_of_nat i) = Ok bs"
  obtains p where "prove_compact C r block (start + word_of_nat i) = Ok p" "length bs = ab_activation_len b"
    "candidate_work_digest C b i bs = Ok (vc_work_digest p)"
proof -
  from out obtain q where q: "prove_reference C r block (start + word_of_nat i) = Ok q"
    "activation_bytes (lw_output (last (vr_layers q))) = Ok bs" by (auto simp: honest_output_def)
  obtain p where p: "prove_compact C r block (start + word_of_nat i) = Ok p" using prove_compact_total [OF assms(1,2,4)] by blast
  have f: "vr_layers q \<noteq> []" "canonical bs" "length bs = v2_rows r * v2_width r"
    using prove_reference_final [OF assms(1,2,4) q(1) assms(3)] q(2) by auto
  have "vc_work_digest p = vr_work_digest q" using p q(1) by (auto simp: prove_compact_def)
  then show thesis using that [OF p] f(3) candidate_honest [OF assms(1,2) batch i q(1) f(1) q(2) f(2,3)] prepared_batch(5) [OF batch] by simp
qed

lemma scan_outputs_honest:
  assumes env: "xof_fair C" "wf_v2 r" "v2_weights r \<noteq> []" "on_network r block"
    and batch: "prepare_accelerator_batch C r block start count = Ok b"
    and outs: "\<And>i. i < unat count \<Longrightarrow> honest_output C r block (start + word_of_nat i) = Ok (outs ! i)" "length outs = unat count"
    and job: "mj_verifier job = PV_V2Reference r" "bt_challenge (mj_template job) = block"
  shows "index + chunks = unat count \<Longrightarrow>
    scan_outputs C (PV_V2Reference r) block b target (\<lambda>d. lex_le d (bc_target block)) index (concat (drop index outs)) chunks =
      search_share_from C job target (\<lambda>_. False) start (word_of_nat index) chunks"
proof (induction chunks arbitrary: index)
  case 0
  then have "word_of_nat index = (ucast count :: u64)" by simp
  then show ?case by (simp add: prepared_batch [OF batch])
next
  case (Suc chunks)
  then have i: "index < unat count" by simp
  note B = prepared_batch [OF batch]
  obtain p where p: "prove_compact C r block (start + word_of_nat index) = Ok p" "length (outs ! index) = ab_activation_len b"
    "candidate_work_digest C b index (outs ! index) = Ok (vc_work_digest p)"
    by (rule honest_output_digest [OF env batch i outs(1) [OF i]])
  have drop: "drop index outs = outs ! index # drop (Suc index) outs" using i outs(2) by (simp add: Cons_nth_drop_Suc)
  have at: "proof_at C job (start + word_of_nat index) (BP_V2Reference p)"
    using p(1) by (simp add: proof_at_def pow_evaluate_def job)
  have "pow_verify_candidate C (PV_V2Reference r) block b index (vc_work_digest p) = Ok (BP_V2Reference p)"
    using p(1) i by (simp add: pow_verify_candidate_def verify_accelerator_candidate_def matches_statement_def B nonce_at_def)
  moreover have "nonce_at b index = Some (start + word_of_nat index)" using i by (simp add: nonce_at_def B)
  moreover have "word_of_nat (Suc index) = (word_of_nat index + 1 :: u64)" by simp
  ultimately show ?case
    using Suc.IH [of "Suc index"] Suc.prems p(2,3) evaluate_share_at [OF at, of target]
    by (simp add: drop bp_work_digest_def job Let_def add.commute)
qed

lemma length_concat_const: "list_all (\<lambda>x. length x = n) xs \<Longrightarrow> length (concat xs) = length xs * n"
  by (induction xs) simp_all

lemma honest_outputs_length:
  assumes "xof_fair C" "wf_v2 r" "v2_weights r \<noteq> []" "on_network r block"
    "prepare_accelerator_batch C r block start count = Ok b"
    "\<And>i. i < unat count \<Longrightarrow> honest_output C r block (start + word_of_nat i) = Ok (outs ! i)" "length outs = unat count"
  shows "length (concat outs) = unat count * (v2_rows r * v2_width r)"
proof -
  have "length (outs ! i) = v2_rows r * v2_width r" if "i < unat count" for i
    by (rule honest_output_digest [OF assms(1-5) that assms(6) [OF that]]) (simp add: prepared_batch(5) [OF assms(5)])
  then have "list_all (\<lambda>x. length x = v2_rows r * v2_width r) outs" by (simp add: list_all_length assms(7))
  from length_concat_const [OF this] show ?thesis by (simp add: assms(7))
qed

lemma scan_outputs_sound:
  assumes "pow_validate_batch verifier challenge b = Ok ()"
  shows "scan_outputs C verifier challenge b threshold meets index outputs chunks = Ok (SS_Found p d m k n) \<Longrightarrow>
    pow_evaluate C verifier challenge (n - 1) = Ok p \<and> d = bp_work_digest p \<and> lex_le d threshold \<and> m = meets d"
proof (induction chunks arbitrary: index outputs)
  case (Suc chunks)
  from assms obtain r where r: "verifier = PV_V2Reference r" by (auto simp: pow_validate_batch_def split: pow_verifier.splits)
  from Suc show ?case
    by (auto simp: r pow_verify_candidate_def verify_accelerator_candidate_def pow_evaluate_def bp_work_digest_def split: if_splits)
qed simp

lemma batch_facts:
  assumes "prepare_accelerator_batch C r block start count = Ok b" "wf_v2 r"
  shows "count \<noteq> 0" "unat count \<le> 65536" "pow_validate_batch (PV_V2Reference r) block b = Ok ()"
    "0 < ab_activation_len b" "ab_activation_len b \<le> 128"
proof -
  note B = prepared_batch [OF assms(1)]
  show "count \<noteq> 0" "unat count \<le> 65536"
    using assms(1) by (auto simp: prepare_accelerator_batch_def V2_ACCELERATOR_MAX_BATCH_def word_less_nat_alt split: if_splits)
  show "pow_validate_batch (PV_V2Reference r) block b = Ok ()" by (simp add: pow_validate_batch_def matches_statement_def B)
  have wf: "0 < v2_rows r" "v2_rows r \<le> 4" "0 < v2_width r" "v2_width r \<le> 32" using assms(2) by (simp_all add: wf_v2_def)
  then show "0 < ab_activation_len b" "ab_activation_len b \<le> 128"
    using mult_mono [of "v2_rows r" 4 "v2_width r" 32] by (simp_all add: B)
qed

lemma complete_batch_honest:
  assumes env: "xof_fair C" "wf_v2 r" "v2_weights r \<noteq> []" "on_network r block"
    and job: "mj_verifier job = PV_V2Reference r" "bt_challenge (mj_template job) = block"
    and batch: "prepare_accelerator_batch C r block start count = Ok b"
    and outs: "omap (\<lambda>i. honest_output C r block (start + word_of_nat i)) [0..<unat count] = Ok outs"
  shows "complete_accelerator_batch C job b (concat outs) target = search_share_range C job start (ucast count) target (\<lambda>_. False)"
proof -
  note B = prepared_batch [OF batch] and F = batch_facts [OF batch env(2)]
  define len where "len = ab_activation_len b"
  have l: "length outs = unat count" using omap_length [OF outs] by simp
  have at: "honest_output C r block (start + word_of_nat i) = Ok (outs ! i)" if "i < unat count" for i
    using omap_nth [OF outs, of i] that by simp
  have total: "length (concat outs) = unat count * len" using honest_outputs_length [OF env batch at l] by (simp add: len_def B)
  have "unat count * len \<le> 65536 * 128" using F(2,5) by (intro mult_mono) (simp_all add: len_def)
  then have small: "unat count * len < 2 ^ 32" by simp
  have wl: "unat (word_of_nat len :: u32) = len" using F(5) by (simp add: len_def unat_of_nat take_bit_nat_eq_self)
  have "check_output_length b (concat outs) = Ok ()"
    using small total by (simp add: check_output_length_def checked_mul_def B(1) len_def [symmetric] wl unat_word_ariths)
  moreover have "unat count * len div len = unat count" using F(4) by (simp add: len_def)
  ultimately have "scan_batch C (PV_V2Reference r) block b target (\<lambda>d. lex_le d (bc_target block)) (concat outs) =
      search_share_from C job target (\<lambda>_. False) start 0 (unat count)"
    using scan_outputs_honest [OF env batch at l job, of 0 "unat count" target] F(3,4)
    by (simp add: scan_batch_def len_def [symmetric] total)
  moreover have u: "unat (ucast count :: u64) = unat count" by (rule unat_ucast_up) simp
  moreover have "(ucast count :: u64) \<noteq> 0" using u F(1) by (metis unat_0 unat_eq_0)
  moreover have "\<not> MAX_MINING_SEARCH_ATTEMPTS < (ucast count :: u64)"
    using F(2) unfolding word_less_nat_alt u by (simp add: MAX_MINING_SEARCH_ATTEMPTS_def)
  ultimately show ?thesis by (simp add: complete_accelerator_batch_def search_share_range_def job)
qed

section \<open>Blocks made by miners\<close>

lemma search_from_verifies:
  assumes "crypto_ok C" "xof_fair C" "wf_pow_verifier (mj_verifier job)"
  shows "search_from C job should_cancel start completed n = Ok (MS_Found b k next_nonce) \<Longrightarrow>
    \<exists>p. b = template_with_proof (mj_template job) p \<and> pow_verify C (mj_verifier job) (bt_challenge (mj_template job)) p = Ok ()"
proof (induction n arbitrary: completed)
  case (Suc n)
  then show ?case
    using pow_mined_verifies [OF assms, of "bt_challenge (mj_template job)" "start + completed" 1]
    by (auto simp: Let_def split: if_splits outcome.splits)
qed simp

lemma chain_valid_block:
  "build_block_if_chain_valid C job p = Ok (Some b) \<longleftrightarrow> b = template_with_proof (mj_template job) p \<and>
     pow_verify C (mj_verifier job) (bt_challenge (mj_template job)) p = Ok ()"
proof -
  have "\<not> lex_less t d \<longleftrightarrow> lex_le d t" for t d
    using lex_le_total [of d t] lex_le_antisym [of d t] by (auto simp: lex_less_def lex_le_refl)
  then show ?thesis by (auto simp: build_block_if_chain_valid_def pow_verify_split)
qed

text \<open>What remains to be said of a mined block beyond its proof: its fields have their widths, its
  identifiers are new to the node, and the height leaves room for the maturity of the coinbase.\<close>

definition new_to :: "crypto \<Rightarrow> node \<Rightarrow> block \<Rightarrow> bool" where
  "new_to C nd b \<longleftrightarrow> wf_block b \<and> \<not> index_contains (nd_index nd) (block_id C b) \<and>
     fresh_txid (coinbase_outpoint_id C b) (cs_utxos (nd_state nd)) \<and> coinbase_outpoint_id C b \<notin> txid C ` set (bl_transactions b) \<and>
     unat (cs_next_height (nd_state nd)) + unat COINBASE_MATURITY < 2 ^ 64"

lemma mined_for_new:
  "mined_for C nd tpl p \<longleftrightarrow> new_to C nd (template_with_proof tpl p) \<and> pow_verify C (nd_verifier nd) (bt_challenge tpl) p = Ok ()"
  by (auto simp: mined_for_def new_to_def Let_def template_with_proof_def)

section \<open>Examples\<close>

definition demo_job :: "pow_verifier \<Rightarrow> mining_job" where
  "demo_job v = \<lparr>mj_template = \<lparr>bt_challenge = demo_challenge, bt_coinbase = bl_coinbase demo_first, bt_transactions = [],
     bt_total_fees_burned = 0\<rparr>, mj_verifier = v\<rparr>"

lemma demo_job_simps [simp]:
  "mj_verifier (demo_job v) = v" "bt_challenge (mj_template (demo_job v)) = demo_challenge"
  by (simp_all add: demo_job_def)

lemma demo_v1_wf: "wf_pow_verifier (PV_V1Legacy demo_verifier)"
  using forge_new_wf(1) [OF crypto_ok_demo demo_forge_new] by (simp add: wf_pow_verifier_def)

section \<open>Properties\<close>

text \<open>The nonce search of a job is exact: it reports how many nonces it tried, and where to go on,
  whatever the callback answers. All nonces before that point were tried and missed the share
  target; it stops at the first one that meets it, with the proof that recomputing that nonce
  gives, or because it was asked to, or at the end of the range. The search for a block is this
  search at the block target.\<close>

theorem mining_search_exact:
  assumes "usable C (mj_verifier job) (bt_challenge (mj_template job))" "0 < attempts" "attempts \<le> MAX_MINING_SEARCH_ATTEMPTS"
    "\<not> lex_less target (bc_target (bt_challenge (mj_template job)))"
  shows "(\<exists>k \<le> unat attempts. (\<forall>j<k. \<not> should_cancel (word_of_nat j) \<and> misses C job target (start + word_of_nat j)) \<and>
      search_ends C job target should_cancel start (unat attempts) k (search_share_range C job start attempts target should_cancel)) \<and>
    search_range C job start attempts should_cancel =
      obind (search_share_range C job start attempts (bc_target (bt_challenge (mj_template job))) should_cancel)
        (\<lambda>r. Ok (block_result (mj_template job) r))"
proof -
  have "search_share_range C job start attempts target should_cancel =
      search_share_from C job target should_cancel start 0 (unat attempts)"
    using assms(2-4) validate_share_target_Ok [of job target] by (auto simp: search_share_range_def)
  then show ?thesis
    using search_share_from_ends [OF assms(1), of 0 "unat attempts" should_cancel target start] search_range_share [OF assms(1)] by simp
qed

text \<open>C16. Accelerators change nothing but speed: completing a batch with the outputs that the reference
  prover would have computed returns what the reference search over the same nonces returns; and
  whatever the outputs are, a share that is returned is the proof the reference evaluates at that
  nonce, with its own digest, and meets the share target.\<close>

theorem accelerated_search_is_reference_search:
  assumes "crypto_ok C" "xof_fair C" "wf_v2 r" "v2_weights r \<noteq> []" "on_network r block"
    "mj_verifier job = PV_V2Reference r" "bt_challenge (mj_template job) = block"
    "mj_prepare_batch C job start count = Ok b"
  shows "(omap (\<lambda>i. honest_output C r block (start + word_of_nat i)) [0..<unat count] = Ok outs \<longrightarrow>
      complete_accelerator_batch C job b (concat outs) target = search_share_range C job start (ucast count) target (\<lambda>_. False)) \<and>
    (complete_accelerator_batch C job b outputs target = Ok (SS_Found p d m k n) \<longrightarrow>
      proof_at C job (n - 1) p \<and> d = bp_work_digest p \<and> lex_le d target \<and> m = lex_le d (bc_target block))"
proof -
  have batch: "prepare_accelerator_batch C r block start count = Ok b"
    using assms(6-8) by (simp add: mj_prepare_batch_def pow_prepare_batch_def)
  note F = batch_facts [OF batch assms(3)]
  have "proof_at C job (n - 1) p \<and> d = bp_work_digest p \<and> lex_le d target \<and> m = lex_le d (bc_target block)"
    if "complete_accelerator_batch C job b outputs target = Ok (SS_Found p d m k n)"
    using that scan_outputs_sound [OF F(3), of C target "\<lambda>d. lex_le d (bc_target block)" 0 outputs _ p d m k n] F(3,4)
    by (auto simp: complete_accelerator_batch_def scan_batch_def proof_at_def assms(6,7))
  then show ?thesis using complete_batch_honest [OF assms(2-7) batch] by blast
qed

text \<open>C6. A job ends in a new tip: the block that a search of a job finds, or that the job builds from
  a proof somebody else claims, is accepted by the node that made the job, burns the fees of the
  template, becomes the tip, and empties the pool. The conditions: the node is a reachable one and is
  still in the state the job was made in; its policy gives the community no more than the steward
  and the miner a share, as the default policy does (under a policy with a community share and no
  steward share no coinbase is accepted, see \<open>community_without_steward_rejects_every_coinbase\<close>);
  its verifier is well formed; the block is new to the node, as \<open>new_to\<close> says: its identifier is not
  indexed, its coinbase identifier is fresh, and the height leaves room for the maturity of the
  coinbase; the append to the log is durable; and the sampling of the verifier's masks ends.\<close>

theorem mined_job_becomes_tip:
  assumes "crypto_ok C" "xof_fair C" "node_run C params verifier rs nd" "wf_limit params" "fair_policy (np_monetary_policy params)"
    "wf_pow_verifier (nd_verifier nd)" "build_mining_job C nd miner now = Ok job"
    "search_range C job start attempts should_cancel = Ok (MS_Found b k n) \<or> build_block_if_chain_valid C job p = Ok (Some b)"
    "new_to C nd b"
  shows "\<exists>nd'. submit_block C IO_Durable nd b now = (nd', Ok (bt_total_fees_burned (mj_template job))) \<and>
    cs_tip (nd_state nd') = block_id C b \<and> nd_mempool nd' = []"
proof -
  obtain tpl where job: "build_template C nd miner now = Ok tpl" "job = \<lparr>mj_template = tpl, mj_verifier = nd_verifier nd\<rparr>"
    using assms(7) by (auto simp: build_mining_job_def)
  obtain q where q: "b = template_with_proof tpl q" "pow_verify C (nd_verifier nd) (bt_challenge tpl) q = Ok ()"
    using assms(8) search_from_verifies [OF assms(1,2), of job] assms(6) chain_valid_block [of C job p b]
    by (fastforce simp: search_range_def job(2) split: if_splits)
  then have "mined_for C nd tpl q" using assms(9) by (simp add: mined_for_new)
  from mined_template_becomes_tip [OF assms(1,3,4,5) job(1) this] show ?thesis by (simp add: q(1) job(2))
qed

theorem mining_search_exact_witness:
  "\<exists>k \<le> 3. search_ends demo_crypto (demo_job (PV_V1Legacy demo_verifier)) (bc_target demo_challenge) (\<lambda>_. False) 5 3 k
     (search_share_range demo_crypto (demo_job (PV_V1Legacy demo_verifier)) 5 3 (bc_target demo_challenge) (\<lambda>_. False))"
proof -
  let ?job = "demo_job (PV_V1Legacy demo_verifier)"
  have u: "usable demo_crypto (mj_verifier ?job) (bt_challenge (mj_template ?job))"
    using crypto_ok_demo xof_fair_demo demo_v1_wf by (simp add: usable_def)
  have t: "\<not> lex_less (bc_target demo_challenge) (bc_target (bt_challenge (mj_template ?job)))" by (simp add: lex_less_irrefl)
  have a: "0 < (3 :: u64)" "3 \<le> MAX_MINING_SEARCH_ATTEMPTS" by (simp_all add: MAX_MINING_SEARCH_ATTEMPTS_def)
  show ?thesis using mining_search_exact [OF u a t, of "\<lambda>_. False" 5] by auto
qed

theorem accelerated_search_is_reference_search_witness:
  "\<exists>b outs. mj_prepare_batch demo_crypto (demo_job (PV_V2Reference demo_v2_reference)) 0 2 = Ok b \<and>
     complete_accelerator_batch demo_crypto (demo_job (PV_V2Reference demo_v2_reference)) b (concat outs) (bc_target demo_challenge) =
     search_share_range demo_crypto (demo_job (PV_V2Reference demo_v2_reference)) 0 2 (bc_target demo_challenge) (\<lambda>_. False)"
proof -
  let ?job = "demo_job (PV_V2Reference demo_v2_reference)"
  note wf = wf_v2_from_explicit_model(1) [OF crypto_ok_demo demo_v2_wf demo_v2_reference_ok]
  have ne: "v2_weights demo_v2_reference \<noteq> []" by (simp add: demo_v2_reference_def)
  obtain b where b: "prepare_accelerator_batch demo_crypto demo_v2_reference demo_challenge 0 2 = Ok b"
    using prepare_total [OF xof_fair_demo wf demo_v2_network, of 2 0] by auto
  have "\<exists>bs. honest_output demo_crypto demo_v2_reference demo_challenge n = Ok bs" for n
    using prove_reference_agrees [OF xof_fair_demo wf demo_v2_network, of n]
      prove_reference_final [OF xof_fair_demo wf demo_v2_network _ ne] by (fastforce simp: honest_output_def)
  then obtain outs where outs: "omap (\<lambda>i. honest_output demo_crypto demo_v2_reference demo_challenge (0 + word_of_nat i)) [0..<unat (2 :: u32)] = Ok outs"
    using omap_total [of "[0..<unat (2 :: u32)]" "\<lambda>i. honest_output demo_crypto demo_v2_reference demo_challenge (0 + word_of_nat i)"] by blast
  have prep: "mj_prepare_batch demo_crypto ?job 0 2 = Ok b" by (simp add: mj_prepare_batch_def pow_prepare_batch_def b)
  from accelerated_search_is_reference_search [OF crypto_ok_demo xof_fair_demo wf ne demo_v2_network _ _ prep, of outs "bc_target demo_challenge"] outs
  have "complete_accelerator_batch demo_crypto ?job b (concat outs) (bc_target demo_challenge) =
      search_share_range demo_crypto ?job 0 (ucast (2 :: u32)) (bc_target demo_challenge) (\<lambda>_. False)" by (simp del: upt_Suc)
  then show ?thesis using prep by auto
qed

theorem mined_job_becomes_tip_witness:
  "\<exists>job nd. build_mining_job demo_crypto demo_node (replicate 32 9) 2000 = Ok job \<and>
     submit_block demo_crypto IO_Durable demo_node demo_first 2000 = (nd, Ok (bt_total_fees_burned (mj_template job))) \<and>
     cs_tip (nd_state nd) = block_id demo_crypto demo_first"
proof -
  obtain tpl where t: "build_template demo_crypto demo_node (replicate 32 9) 2000 = Ok tpl"
    "template_with_proof tpl demo_proof = demo_first" "bt_transactions tpl = []" "bt_challenge tpl = bl_challenge demo_first"
    using demo_template by blast
  let ?job = "\<lparr>mj_template = tpl, mj_verifier = nd_verifier demo_node\<rparr>"
  have fair: "fair_policy (np_monetary_policy demo_params)" using demo_fair by (simp add: demo_params_def)
  note m = demo_mined_for [OF t(2,3,4), unfolded mined_for_new t(2)]
  have job: "build_mining_job demo_crypto demo_node (replicate 32 9) 2000 = Ok ?job" by (simp add: build_mining_job_def t(1))
  have "build_block_if_chain_valid demo_crypto ?job demo_proof = Ok (Some demo_first)" using m t(2) by (simp add: chain_valid_block)
  moreover have "wf_pow_verifier (nd_verifier demo_node)" using demo_v1_wf by (simp add: demo_node_def)
  ultimately show ?thesis
    using mined_job_becomes_tip [OF crypto_ok_demo xof_fair_demo demo_node_run demo_wf_limit fair _ job _ conjunct1 [OF m]] job by blast
qed

end
