(* ===== verification/CF_Wallet.thy ===== *)
theory CF_Wallet
  imports CF_Node "HOL-Library.Multiset"
begin

text \<open>
  The wallet of \<open>crates/cmfd-node/src/lib.rs\<close>: reading amounts, balances, coin selection, sending and
  consolidating. The node's signing key is an argument, and so is \<open>entries\<close>, the unspent outputs in the
  order in which the hash map happens to list them; \<open>lists\<close> says that they are those of the map.
  The hexadecimal decoder of the \<open>hex\<close> crate is the argument \<open>hex_decode\<close>. Responses hold numbers where
  the code renders them as decimal text, without the fixed notices.
\<close>

section \<open>Amounts\<close>

fun split_on :: "char \<Rightarrow> string \<Rightarrow> string list" where
  "split_on sep [] = [[]]"
| "split_on sep (c # cs) =
     (if c = sep then [] # split_on sep cs
      else case split_on sep cs of [] \<Rightarrow> [[c]] | part # parts \<Rightarrow> (c # part) # parts)"

definition is_ascii_digit :: "char \<Rightarrow> bool" where
  "is_ascii_digit c \<longleftrightarrow> of_char c \<ge> (48 :: nat) \<and> of_char c \<le> (57 :: nat)"

definition digit_value :: "char \<Rightarrow> nat" where
  "digit_value c = of_char c - 48"

definition decimal_value :: "string \<Rightarrow> nat" where
  "decimal_value = foldl (\<lambda>n c. n * 10 + digit_value c) 0"

text \<open>\<open>parse::<u64>\<close> on a nonempty string of digits fails only when the value is too large.\<close>

definition parse_u64 :: "string \<Rightarrow> u64 option" where
  "parse_u64 digits = (if decimal_value digits < 2 ^ 64 then Some (word_of_nat (decimal_value digits)) else None)"

definition parse_fraction :: "string option \<Rightarrow> (node_error, u64) outcome" where
  "parse_fraction fractional =
     (case fractional of
        None \<Rightarrow> Ok 0
      | Some digits \<Rightarrow>
          if digits \<noteq> [] \<and> length digits \<le> 8 \<and> list_all is_ascii_digit digits
          then obind (ok_or ND_InvalidWalletAmount (parse_u64 digits)) (\<lambda>v. Ok (v * 10 ^ (8 - length digits)))
          else Err ND_InvalidWalletAmount)"

definition parse_cmfd_atoms :: "string \<Rightarrow> (node_error, u64) outcome" where
  "parse_cmfd_atoms input =
     (let parts = split_on CHR ''.'' input; whole = hd parts;
          fractional = (case tl parts of [] \<Rightarrow> None | f # _ \<Rightarrow> Some f) in
      if 2 < length parts \<or> whole = [] \<or> \<not> list_all is_ascii_digit whole then Err ND_InvalidWalletAmount
      else
      obind (ok_or ND_WalletAmountOverflow (parse_u64 whole)) (\<lambda>w.
      obind (ok_or ND_WalletAmountOverflow (checked_mul w COIN)) (\<lambda>whole_atoms.
      obind (parse_fraction fractional) (\<lambda>fractional_atoms.
      ok_or ND_WalletAmountOverflow (checked_add whole_atoms fractional_atoms)))))"

definition parse_wallet_recipient :: "crypto \<Rightarrow> (string \<Rightarrow> byte list option) \<Rightarrow> string \<Rightarrow> (node_error, hash32) outcome" where
  "parse_wallet_recipient C hex_decode input =
     (if length input \<noteq> 64 then Err ND_InvalidWalletRecipient
      else
      obind (ok_or ND_InvalidWalletRecipient (hex_decode input)) (\<lambda>bytes.
      if length bytes \<noteq> 32 \<or> \<not> key_from_bytes C bytes then Err ND_InvalidWalletRecipient else Ok bytes))"

section \<open>Coins\<close>

definition checked_wallet_add :: "u64 \<Rightarrow> u64 \<Rightarrow> (node_error, u64) outcome" where
  "checked_wallet_add left right = ok_or ND_WalletAmountOverflow (checked_add left right)"

type_synonym coin = "out_point \<times> u64"

definition outpoint_le :: "out_point \<Rightarrow> out_point \<Rightarrow> bool" where
  "outpoint_le a b \<longleftrightarrow> lex_less (op_txid a) (op_txid b) \<or> op_txid a = op_txid b \<and> op_index a \<le> op_index b"

definition larger_first :: "coin \<Rightarrow> coin \<Rightarrow> bool" where
  "larger_first a b \<longleftrightarrow> snd b < snd a \<or> snd a = snd b \<and> outpoint_le (fst a) (fst b)"

definition smaller_first :: "coin \<Rightarrow> coin \<Rightarrow> bool" where
  "smaller_first a b \<longleftrightarrow> snd a < snd b \<or> snd a = snd b \<and> outpoint_le (fst a) (fst b)"

fun insert_by :: "('a \<Rightarrow> 'a \<Rightarrow> bool) \<Rightarrow> 'a \<Rightarrow> 'a list \<Rightarrow> 'a list" where
  "insert_by le x [] = [x]"
| "insert_by le x (y # ys) = (if le x y then x # y # ys else y # insert_by le x ys)"

definition sort_by :: "('a \<Rightarrow> 'a \<Rightarrow> bool) \<Rightarrow> 'a list \<Rightarrow> 'a list" where
  "sort_by le xs = foldr (insert_by le) xs []"

record coin_selection =
  sel_outpoints :: "out_point list"
  sel_selected_value :: u64
  sel_available :: u64

fun pick_coins :: "u64 \<Rightarrow> out_point list \<Rightarrow> u64 \<Rightarrow> coin list \<Rightarrow> (node_error, out_point list \<times> u64) outcome" where
  "pick_coins required outpoints selected [] = Ok (outpoints, selected)"
| "pick_coins required outpoints selected ((outpoint, v) # coins) =
     obind (checked_wallet_add selected v) (\<lambda>selected.
     if required \<le> selected then Ok (outpoints @ [outpoint], selected)
     else pick_coins required (outpoints @ [outpoint]) selected coins)"

definition sum_coins :: "coin list \<Rightarrow> (node_error, u64) outcome" where
  "sum_coins coins = ofold (\<lambda>s (_, v). checked_wallet_add s v) 0 coins"

definition select_send_utxos :: "coin list \<Rightarrow> u64 \<Rightarrow> (node_error, coin_selection) outcome" where
  "select_send_utxos candidates required =
     obind (sum_coins candidates) (\<lambda>available.
     obind (pick_coins required [] 0 (take MAX_TRANSACTION_INPUTS (sort_by larger_first candidates))) (\<lambda>(outpoints, selected).
     Ok \<lparr>sel_outpoints = outpoints, sel_selected_value = selected, sel_available = available\<rparr>))"

section \<open>Balances\<close>

record wallet_balances =
  wb_spendable :: u64
  wb_immature :: u64
  wb_pending :: u64
  wb_spendable_count :: nat
  wb_immature_count :: nat
  wb_reserved_count :: nat

definition count_output ::
  "hash32 \<Rightarrow> u64 \<Rightarrow> out_point set \<Rightarrow> wallet_balances \<Rightarrow> out_point \<times> tx_output \<Rightarrow> (node_error, wallet_balances) outcome" where
  "count_output destination next_height reserved w entry =
     (case entry of (outpoint, out) \<Rightarrow>
      if to_lock out \<noteq> OL_Key destination then Ok w
      else if next_height < to_spendable_height out
      then obind (checked_wallet_add (wb_immature w) (to_value out)) (\<lambda>v.
           Ok (w\<lparr>wb_immature := v, wb_immature_count := wb_immature_count w + 1\<rparr>))
      else if outpoint \<in> reserved then Ok (w\<lparr>wb_reserved_count := wb_reserved_count w + 1\<rparr>)
      else obind (checked_wallet_add (wb_spendable w) (to_value out)) (\<lambda>v.
           Ok (w\<lparr>wb_spendable := v, wb_spendable_count := wb_spendable_count w + 1\<rparr>)))"

definition count_pending :: "hash32 \<Rightarrow> wallet_balances \<Rightarrow> tx_output \<Rightarrow> (node_error, wallet_balances) outcome" where
  "count_pending destination w out =
     (if to_lock out = OL_Key destination
      then obind (checked_wallet_add (wb_pending w) (to_value out)) (\<lambda>v. Ok (w\<lparr>wb_pending := v\<rparr>))
      else Ok w)"

definition wallet_balances_of ::
  "crypto \<Rightarrow> byte list \<Rightarrow> (out_point \<times> tx_output) list \<Rightarrow> node \<Rightarrow> (node_error, wallet_balances) outcome" where
  "wallet_balances_of C key entries nd =
     (let destination = verifying_key C key; reserved = mempool_spent_inputs (nd_mempool nd) in
      obind (ofold (count_output destination (cs_next_height (nd_state nd)) reserved)
               \<lparr>wb_spendable = 0, wb_immature = 0, wb_pending = 0, wb_spendable_count = 0, wb_immature_count = 0,
                wb_reserved_count = 0\<rparr> entries) (\<lambda>w.
      ofold (\<lambda>w (_, entry). ofold (count_pending destination) w (tx_outputs (me_transaction entry))) w (nd_mempool nd)))"

section \<open>Sending\<close>

definition gather_coin ::
  "hash32 \<Rightarrow> u64 \<Rightarrow> out_point set \<Rightarrow> coin list \<times> u64 \<Rightarrow> out_point \<times> tx_output \<Rightarrow> (node_error, coin list \<times> u64) outcome" where
  "gather_coin destination next_height reserved s entry =
     (case s of (candidates, immature) \<Rightarrow> case entry of (outpoint, out) \<Rightarrow>
      if to_lock out \<noteq> OL_Key destination then Ok s
      else if next_height < to_spendable_height out
      then obind (checked_wallet_add immature (to_value out)) (\<lambda>immature. Ok (candidates, immature))
      else if outpoint \<in> reserved then Ok s
      else Ok (candidates @ [(outpoint, to_value out)], immature))"

definition unsigned_input :: "out_point \<Rightarrow> tx_input" where
  "unsigned_input previous = \<lparr>ti_previous = previous, ti_witness = IW_Key (replicate 32 0) []\<rparr>"

definition sign_fault :: "sign_error \<Rightarrow> node_error" where
  "sign_fault e = ND_Chain (case e of SE_MalformedSignature \<Rightarrow> CH_MalformedSignature | SE_WrongWitness \<Rightarrow> CH_WrongWitness)"

text \<open>The common end of sending and consolidating: the transaction is built, signed with the one key,
  checked against the relay fee and submitted.\<close>

definition sign_and_submit ::
  "crypto \<Rightarrow> byte list \<Rightarrow> node \<Rightarrow> out_point list \<Rightarrow> tx_output list \<Rightarrow> u64 \<Rightarrow> (node_error, mempool_entry \<times> node) outcome" where
  "sign_and_submit C key nd previous outputs fee_burned =
     (let draft = \<lparr>tx_network_id = np_network_id (nd_params nd), tx_version = TRANSACTION_VERSION,
            tx_inputs = map unsigned_input previous, tx_outputs = outputs\<rparr> in
      case sign_all C (replicate (length previous) key) draft of (t, signing) \<Rightarrow>
      obind (map_err sign_fault signing) (\<lambda>_.
      obind (map_err ND_Wire (encode_transaction C t)) (\<lambda>frame.
      let minimum_fee = required_relay_fee (length frame) in
      if fee_burned < minimum_fee then Err (ND_MempoolFeeTooLow minimum_fee fee_burned)
      else node_submit_transaction C nd t)))"

record send_response =
  sr_txid :: hash32
  sr_amount :: u64
  sr_fee_burned :: u64
  sr_change :: u64
  sr_mempool_transactions :: nat
  sr_mempool_bytes :: nat

definition send_from_dev_wallet ::
  "crypto \<Rightarrow> byte list \<Rightarrow> (out_point \<times> tx_output) list \<Rightarrow> node \<Rightarrow> hash32 \<Rightarrow> u64 \<Rightarrow> u64
     \<Rightarrow> (node_error, send_response \<times> node) outcome" where
  "send_from_dev_wallet C key entries nd recipient amount fee_burned =
     (if \<not> key_from_bytes C recipient then Err ND_InvalidWalletRecipient
      else if amount = 0 then Err ND_WalletZeroAmount
      else
      obind (ok_or ND_WalletAmountOverflow (checked_add amount fee_burned)) (\<lambda>required.
      let destination = verifying_key C key; height = cs_next_height (nd_state nd) in
      obind (ofold (gather_coin destination height (mempool_spent_inputs (nd_mempool nd))) ([], 0) entries) (\<lambda>(candidates, immature).
      obind (select_send_utxos candidates required) (\<lambda>selection.
      let available = sel_available selection; selected_value = sel_selected_value selection in
      if selected_value < required
      then
        if required \<le> available then Err (ND_WalletInputLimit selected_value required)
        else
        obind (checked_wallet_add available immature) (\<lambda>available_with_immature.
        if required \<le> available_with_immature then Err (ND_WalletFundsImmature immature required)
        else Err (ND_WalletInsufficientFunds available required))
      else
      let change = selected_value - required;
          outputs = [\<lparr>to_value = amount, to_lock = OL_Key recipient, to_spendable_height = height\<rparr>] @
            (if 0 < change then [\<lparr>to_value = change, to_lock = OL_Key destination, to_spendable_height = height\<rparr>] else []) in
      obind (sign_and_submit C key nd (sel_outpoints selection) outputs fee_burned) (\<lambda>(entry, nd).
      Ok (\<lparr>sr_txid = me_txid entry, sr_amount = amount, sr_fee_burned = me_fee_burned entry, sr_change = change,
           sr_mempool_transactions = length (nd_mempool nd), sr_mempool_bytes = nd_mempool_bytes nd\<rparr>, nd))))))"

definition send_from_dev_wallet_request ::
  "crypto \<Rightarrow> (string \<Rightarrow> byte list option) \<Rightarrow> byte list \<Rightarrow> (out_point \<times> tx_output) list \<Rightarrow> node \<Rightarrow> string \<Rightarrow> string \<Rightarrow> string
     \<Rightarrow> (node_error, send_response \<times> node) outcome" where
  "send_from_dev_wallet_request C hex_decode key entries nd recipient amount fee =
     obind (parse_wallet_recipient C hex_decode recipient) (\<lambda>recipient.
     obind (parse_cmfd_atoms amount) (\<lambda>amount.
     if amount = 0 then Err ND_WalletZeroAmount
     else
     obind (parse_cmfd_atoms fee) (\<lambda>fee.
     send_from_dev_wallet C key entries nd recipient amount fee)))"

section \<open>Consolidating\<close>

record consolidate_response =
  cr_txid :: hash32
  cr_inputs_consolidated :: nat
  cr_input_atoms :: u64
  cr_output_atoms :: u64
  cr_fee_burned :: u64
  cr_mempool_transactions :: nat
  cr_mempool_bytes :: nat

definition consolidate_dev_wallet ::
  "crypto \<Rightarrow> byte list \<Rightarrow> (out_point \<times> tx_output) list \<Rightarrow> node \<Rightarrow> u64 \<Rightarrow> nat
     \<Rightarrow> (node_error, consolidate_response \<times> node) outcome" where
  "consolidate_dev_wallet C key entries nd fee_burned max_inputs =
     (if \<not> (2 \<le> max_inputs \<and> max_inputs \<le> MAX_TRANSACTION_INPUTS) then Err ND_InvalidConsolidationMaxInputs
      else
      let destination = verifying_key C key; height = cs_next_height (nd_state nd);
          reserved = mempool_spent_inputs (nd_mempool nd);
          candidates = map (\<lambda>(outpoint, out). (outpoint, to_value out))
            (filter (\<lambda>(outpoint, out). to_lock out = OL_Key destination \<and> to_spendable_height out \<le> height \<and> outpoint \<notin> reserved) entries);
          selected = take max_inputs (sort_by smaller_first candidates) in
      if length selected < 2 then Err (ND_WalletNotEnoughUtxos (length selected))
      else
      obind (sum_coins selected) (\<lambda>input_atoms.
      obind (ok_or (ND_WalletConsolidationFee input_atoms)
               (case checked_sub input_atoms fee_burned of Some v \<Rightarrow> if 0 < v then Some v else None | None \<Rightarrow> None)) (\<lambda>output_atoms.
      obind (sign_and_submit C key nd (map fst selected)
               [\<lparr>to_value = output_atoms, to_lock = OL_Key destination, to_spendable_height = height\<rparr>] fee_burned) (\<lambda>(entry, nd).
      Ok (\<lparr>cr_txid = me_txid entry, cr_inputs_consolidated = length selected, cr_input_atoms = input_atoms,
           cr_output_atoms = output_atoms, cr_fee_burned = me_fee_burned entry,
           cr_mempool_transactions = length (nd_mempool nd), cr_mempool_bytes = nd_mempool_bytes nd\<rparr>, nd)))))"

definition consolidate_dev_wallet_request ::
  "crypto \<Rightarrow> byte list \<Rightarrow> (out_point \<times> tx_output) list \<Rightarrow> node \<Rightarrow> string \<Rightarrow> nat
     \<Rightarrow> (node_error, consolidate_response \<times> node) outcome" where
  "consolidate_dev_wallet_request C key entries nd fee max_inputs =
     (if \<not> (2 \<le> max_inputs \<and> max_inputs \<le> MAX_TRANSACTION_INPUTS) then Err ND_InvalidConsolidationMaxInputs
      else
      obind (parse_cmfd_atoms fee) (\<lambda>fee.
      consolidate_dev_wallet C key entries nd fee max_inputs))"

section \<open>Reading amounts\<close>

lemma split_on_nonempty: "split_on sep s \<noteq> []"
  by (induction s) (auto split: list.splits)

lemma split_on_none: "sep \<notin> set s \<Longrightarrow> split_on sep s = [s]"
  by (induction s) auto

lemma split_on_append: "sep \<notin> set w \<Longrightarrow> split_on sep (w @ sep # s) = w # split_on sep s"
  by (induction w) auto

lemma split_on_one: "split_on sep s = [w] \<longleftrightarrow> s = w \<and> sep \<notin> set w"
proof
  show "split_on sep s = [w] \<Longrightarrow> s = w \<and> sep \<notin> set w"
    using split_on_nonempty by (induction s arbitrary: w) (auto split: list.splits if_splits)
qed (auto simp: split_on_none)

lemma split_on_two: "split_on sep s = [w, f] \<longleftrightarrow> s = w @ sep # f \<and> sep \<notin> set w \<and> sep \<notin> set f"
proof
  show "split_on sep s = [w, f] \<Longrightarrow> s = w @ sep # f \<and> sep \<notin> set w \<and> sep \<notin> set f"
  proof (induction s arbitrary: w)
    case (Cons c s)
    show ?case
    proof (cases "c = sep")
      case True
      with Cons.prems have "w = []" "split_on sep s = [f]" by simp_all
      then show ?thesis using True by (simp add: split_on_one)
    next
      case False
      with Cons.prems obtain w' where w': "w = c # w'" "split_on sep s = [w', f]" by (auto split: list.splits)
      from Cons.IH [OF w'(2)] show ?thesis using False w'(1) by simp
    qed
  qed simp
qed (simp add: split_on_append split_on_none)

lemma decimal_value_snoc: "decimal_value (s @ [c]) = decimal_value s * 10 + digit_value c"
  by (simp add: decimal_value_def)

lemma decimal_value_append: "decimal_value (w @ f) = decimal_value w * 10 ^ length f + decimal_value f"
proof (induction f rule: rev_induct)
  case (snoc c f)
  then show ?case using decimal_value_snoc [of "w @ f" c] by (simp add: decimal_value_snoc algebra_simps)
qed (simp add: decimal_value_def)

lemma decimal_value_bound: "list_all is_ascii_digit s \<Longrightarrow> decimal_value s < 10 ^ length s"
proof (induction s rule: rev_induct)
  case (snoc c s)
  then have "digit_value c \<le> 9" "decimal_value s < 10 ^ length s" by (auto simp: is_ascii_digit_def digit_value_def)
  then show ?case by (simp add: decimal_value_snoc)
qed (simp add: decimal_value_def)

lemma unat_COIN: "unat COIN = 10 ^ 8"
  by (simp add: COIN_def)

lemma parse_u64_Some: "parse_u64 s = Some v \<longleftrightarrow> decimal_value s = unat v"
  by (auto simp: parse_u64_def unat_of_nat take_bit_nat_eq_self unsigned_less [where 'b = 64, simplified])

lemma unat_small: "n < 2 ^ 64 \<Longrightarrow> unat (word_of_nat n :: u64) = n"
  by (simp add: unat_of_nat take_bit_nat_eq_self)

lemma scale_fraction:
  assumes "list_all is_ascii_digit f" "length f \<le> 8"
  shows "decimal_value f * 10 ^ (8 - length f) < 10 ^ 8"
proof -
  have "decimal_value f * 10 ^ (8 - length f) < 10 ^ length f * 10 ^ (8 - length f)" using decimal_value_bound [OF assms(1)] by simp
  also have "\<dots> = (10 :: nat) ^ 8" using assms(2) by (simp flip: power_add)
  finally show ?thesis .
qed

lemma parse_fraction_Ok:
  "parse_fraction (Some f) = Ok v \<longleftrightarrow> f \<noteq> [] \<and> length f \<le> 8 \<and> list_all is_ascii_digit f \<and> unat v = decimal_value f * 10 ^ (8 - length f)"
proof (cases "f \<noteq> [] \<and> length f \<le> 8 \<and> list_all is_ascii_digit f")
  case True
  then have b: "decimal_value f * 10 ^ (8 - length f) < 10 ^ 8" using scale_fraction by blast
  then have d: "decimal_value f < 2 ^ 64" by (rule le_less_trans [rotated, OF less_trans]) simp_all
  let ?w = "word_of_nat (decimal_value f) :: u64"
  have "?w * 10 ^ (8 - length f) = word_of_nat (decimal_value f * 10 ^ (8 - length f))" by simp
  moreover have "unat (word_of_nat (decimal_value f * 10 ^ (8 - length f)) :: u64) = decimal_value f * 10 ^ (8 - length f)"
    by (rule unat_small [OF less_trans [OF b]]) simp
  ultimately have "unat (?w * 10 ^ (8 - length f)) = decimal_value f * 10 ^ (8 - length f)" by metis
  with True d show ?thesis by (auto simp: parse_fraction_def parse_u64_def word_unat_eq_iff)
qed (auto simp: parse_fraction_def)

text \<open>A decimal number as the code accepts it: digits before the point, and at most eight behind it.\<close>

definition decimal_text :: "string \<Rightarrow> string \<Rightarrow> string \<Rightarrow> bool" where
  "decimal_text s w f \<longleftrightarrow> w \<noteq> [] \<and> list_all is_ascii_digit (w @ f) \<and> length f \<le> 8 \<and>
     (s = w \<and> f = [] \<or> s = w @ CHR ''.'' # f \<and> f \<noteq> [])"

lemma point_not_digit: "list_all is_ascii_digit s \<Longrightarrow> CHR ''.'' \<notin> set s"
  by (auto simp: list_all_iff is_ascii_digit_def)

lemma decimal_text_parts: "decimal_text s w f \<Longrightarrow> split_on CHR ''.'' s = (if f = [] then [w] else [w, f])"
  using point_not_digit [of w] point_not_digit [of f] by (auto simp: decimal_text_def split_on_none split_on_append)

lemma whole_atoms:
  "(\<exists>x. parse_u64 w = Some x \<and> checked_mul x COIN = Some a) \<longleftrightarrow> unat a = decimal_value w * 10 ^ 8"
proof
  assume a: "unat a = decimal_value w * 10 ^ 8"
  then have "decimal_value w * 10 ^ 8 < 2 ^ 64" using u64_bound [of a] by simp
  then have d: "decimal_value w < 2 ^ 64" by simp
  have u: "unat (word_of_nat (decimal_value w) :: u64) = decimal_value w" by (rule unat_small [OF d])
  have "checked_mul (word_of_nat (decimal_value w)) COIN = Some a"
    using a u64_bound [of a] u unat_COIN by (auto simp: checked_mul_def word_unat_eq_iff unat_mul_no_overflow)
  then show "\<exists>x. parse_u64 w = Some x \<and> checked_mul x COIN = Some a" using d by (auto simp: parse_u64_def)
qed (auto simp: parse_u64_Some unat_COIN dest!: checked_mul_unat)

lemma checked_add_iff: "checked_add a b = Some v \<longleftrightarrow> unat v = unat a + unat (b :: u64)"
  using u64_bound [of v] by (auto simp: checked_add_def word_unat_eq_iff unat_add_no_overflow)

lemma parse_parts:
  "parse_cmfd_atoms s = Ok v \<longleftrightarrow> (let parts = split_on CHR ''.'' s; w = hd parts in length parts \<le> 2 \<and> w \<noteq> [] \<and> list_all is_ascii_digit w \<and>
     (\<exists>(a :: u64) (b :: u64). unat a = decimal_value w * 10 ^ 8 \<and> parse_fraction (case tl parts of [] \<Rightarrow> None | f # _ \<Rightarrow> Some f) = Ok b \<and> unat v = unat a + unat b))"
proof -
  let ?parts = "split_on CHR ''.'' s"
  let ?w = "hd ?parts" and ?fraction = "parse_fraction (case tl ?parts of [] \<Rightarrow> None | f # _ \<Rightarrow> Some f)"
  have "parse_cmfd_atoms s = Ok v \<longleftrightarrow> length ?parts \<le> 2 \<and> ?w \<noteq> [] \<and> list_all is_ascii_digit ?w \<and>
      (\<exists>a b. (\<exists>x. parse_u64 ?w = Some x \<and> checked_mul x COIN = Some a) \<and> ?fraction = Ok b \<and> checked_add a b = Some v)"
    by (auto simp: parse_cmfd_atoms_def Let_def)
  then show ?thesis by (simp only: whole_atoms checked_add_iff Let_def)
qed

lemma parse_whole_Ok:
  assumes "CHR ''.'' \<notin> set w"
  shows "parse_cmfd_atoms w = Ok v \<longleftrightarrow> w \<noteq> [] \<and> list_all is_ascii_digit w \<and> unat v = decimal_value w * 10 ^ 8"
proof -
  have "(\<exists>(a :: u64) (b :: u64). unat a = decimal_value w * 10 ^ 8 \<and> (Ok 0 :: (node_error, u64) outcome) = Ok b \<and> unat v = unat a + unat b) \<longleftrightarrow>
      unat v = decimal_value w * 10 ^ 8" by auto
  then show ?thesis
    using parse_parts [of w v] by (simp add: Let_def split_on_none [OF assms] parse_fraction_def del: power_numeral)
qed

lemma parse_pointed_Ok:
  assumes "CHR ''.'' \<notin> set w" "CHR ''.'' \<notin> set f"
  shows "parse_cmfd_atoms (w @ CHR ''.'' # f) = Ok v \<longleftrightarrow> w \<noteq> [] \<and> list_all is_ascii_digit w \<and> f \<noteq> [] \<and> length f \<le> 8 \<and>
    list_all is_ascii_digit f \<and> unat v = decimal_value w * 10 ^ 8 + decimal_value f * 10 ^ (8 - length f)"
proof -
  let ?a = "decimal_value w * 10 ^ 8" and ?b = "decimal_value f * 10 ^ (8 - length f)"
  have split: "split_on CHR ''.'' (w @ CHR ''.'' # f) = [w, f]" using assms by (simp add: split_on_append split_on_none)
  have "(\<exists>(a :: u64) (b :: u64). unat a = ?a \<and> unat b = ?b \<and> unat v = unat a + unat b) \<longleftrightarrow> unat v = ?a + ?b"
  proof
    assume v: "unat v = ?a + ?b"
    then have "?a < 2 ^ 64" "?b < 2 ^ 64" using u64_bound [of v] by linarith+
    then have "unat (word_of_nat ?a :: u64) = ?a" "unat (word_of_nat ?b :: u64) = ?b" by (blast intro: unat_small)+
    with v show "\<exists>(a :: u64) (b :: u64). unat a = ?a \<and> unat b = ?b \<and> unat v = unat a + unat b"
      by (intro exI [of _ "word_of_nat ?a"] exI [of _ "word_of_nat ?b"]) simp_all
  qed auto
  then show ?thesis using parse_parts [of "w @ CHR ''.'' # f" v] by (auto simp: Let_def split parse_fraction_Ok simp del: power_numeral)
qed

lemma scale_decimal:
  assumes "l \<le> 8"
  shows "(n :: nat) = a * 10 ^ 8 + b * 10 ^ (8 - l) \<longleftrightarrow> n * 10 ^ l = (a * 10 ^ l + b) * 10 ^ 8"
proof -
  have "(10 :: nat) ^ 8 = 10 ^ (8 - l) * 10 ^ l" using assms by (simp flip: power_add)
  then have "(a * 10 ^ l + b) * 10 ^ 8 = (a * 10 ^ 8 + b * 10 ^ (8 - l)) * 10 ^ l" by (simp only: algebra_simps)
  then show ?thesis by simp
qed

lemma parse_many_parts:
  assumes "2 < length (split_on CHR ''.'' s)"
  shows "parse_cmfd_atoms s \<noteq> Ok v" "\<not> decimal_text s w f"
proof -
  show "parse_cmfd_atoms s \<noteq> Ok v" using assms by (simp add: parse_cmfd_atoms_def Let_def)
  show "\<not> decimal_text s w f"
    using assms decimal_text_parts [of s w f] by (auto split: if_splits)
qed

section \<open>Sorting coins\<close>

text \<open>Sorting by a total order is determined by the elements.\<close>

locale total_order_by =
  fixes le :: "'a \<Rightarrow> 'a \<Rightarrow> bool"
  assumes le_total: "le x y \<or> le y x"
    and le_trans: "le x y \<Longrightarrow> le y z \<Longrightarrow> le x z"
    and le_antisym: "le x y \<Longrightarrow> le y x \<Longrightarrow> x = y"
begin

lemma mset_insert_by: "mset (insert_by le x ys) = add_mset x (mset ys)"
  by (induction ys) auto

lemma mset_sort_by: "mset (sort_by le xs) = mset xs"
  by (induction xs) (simp_all add: sort_by_def mset_insert_by)

lemma set_insert_by: "set (insert_by le x ys) = insert x (set ys)"
  by (induction ys) auto

lemma insert_by_sorted: "sorted_wrt le ys \<Longrightarrow> sorted_wrt le (insert_by le x ys)"
proof (induction ys)
  case (Cons y ys)
  then show ?case using le_total [of x y] le_trans [of x y] by (auto simp: set_insert_by)
qed simp

lemma sort_by_sorted: "sorted_wrt le (sort_by le xs)"
  by (induction xs) (simp_all add: sort_by_def insert_by_sorted)

lemma sorted_unique: "sorted_wrt le xs \<Longrightarrow> sorted_wrt le ys \<Longrightarrow> mset xs = mset ys \<Longrightarrow> xs = ys"
proof (induction xs arbitrary: ys)
  case (Cons x xs)
  then obtain y zs where ys: "ys = y # zs" by (cases ys) auto
  have members: "set (x # xs) = set (y # zs)" using Cons.prems(3) by (metis ys set_mset_mset)
  have "y = x \<or> le x y" using Cons.prems(1) members by auto
  moreover have "x = y \<or> le y x" using Cons.prems(2) members by (auto simp: ys)
  ultimately have "x = y" using le_antisym by blast
  then show ?case using Cons.IH [of zs] Cons.prems by (simp add: ys)
qed simp

lemma sort_by_cong: "mset xs = mset ys \<Longrightarrow> sort_by le xs = sort_by le ys"
  by (rule sorted_unique) (simp_all add: sort_by_sorted mset_sort_by)

end

lemma outpoint_le_order:
  "outpoint_le a b \<or> outpoint_le b a" "outpoint_le a b \<Longrightarrow> outpoint_le b c \<Longrightarrow> outpoint_le a c"
  "outpoint_le a b \<Longrightarrow> outpoint_le b a \<Longrightarrow> a = b"
proof -
  show "outpoint_le a b \<or> outpoint_le b a" using lex_less_total [of "op_txid a" "op_txid b"]
    by (cases "op_txid a = op_txid b") (auto simp: outpoint_le_def)
  show "outpoint_le a b \<Longrightarrow> outpoint_le b c \<Longrightarrow> outpoint_le a c" using lex_less_trans [of "op_txid a" "op_txid b" "op_txid c"] by (auto simp: outpoint_le_def)
  assume ab: "outpoint_le a b" "outpoint_le b a"
  have "\<not> (lex_less (op_txid a) (op_txid b) \<and> lex_less (op_txid b) (op_txid a))" using lex_le_antisym by (auto simp: lex_less_def)
  then have "op_txid a = op_txid b" using ab unfolding outpoint_le_def by metis
  moreover from this have "op_index a = op_index b" using ab lex_less_irrefl [of "op_txid b"] unfolding outpoint_le_def by (simp add: order_antisym)
  ultimately show "a = b" by (simp add: out_point.equality)
qed

interpretation by_size: total_order_by larger_first
proof unfold_locales
  fix x y z :: coin
  show "larger_first x y \<or> larger_first y x" using outpoint_le_order(1) [of "fst x" "fst y"] by (auto simp: larger_first_def)
  show "larger_first x y \<Longrightarrow> larger_first y z \<Longrightarrow> larger_first x z" using outpoint_le_order(2) [of "fst x" "fst y" "fst z"] by (auto simp: larger_first_def)
  show "larger_first x y \<Longrightarrow> larger_first y x \<Longrightarrow> x = y" using outpoint_le_order(3) [of "fst x" "fst y"] by (auto simp: larger_first_def prod_eq_iff)
qed

interpretation by_dust: total_order_by smaller_first
proof unfold_locales
  fix x y z :: coin
  show "smaller_first x y \<or> smaller_first y x" using outpoint_le_order(1) [of "fst x" "fst y"] by (auto simp: smaller_first_def)
  show "smaller_first x y \<Longrightarrow> smaller_first y z \<Longrightarrow> smaller_first x z" using outpoint_le_order(2) [of "fst x" "fst y" "fst z"] by (auto simp: smaller_first_def)
  show "smaller_first x y \<Longrightarrow> smaller_first y x \<Longrightarrow> x = y" using outpoint_le_order(3) [of "fst x" "fst y"] by (auto simp: smaller_first_def prod_eq_iff)
qed

section \<open>Selecting coins\<close>

definition coins_value :: "coin list \<Rightarrow> nat" where
  "coins_value coins = sum_list (map (unat \<circ> snd) coins)"

lemma coins_value_simps [simp]:
  "coins_value [] = 0" "coins_value (c # cs) = unat (snd c) + coins_value cs" "coins_value (cs @ ds) = coins_value cs + coins_value ds"
  by (simp_all add: coins_value_def)

lemma coins_value_mset: "mset xs = mset ys \<Longrightarrow> coins_value xs = coins_value ys"
  by (metis coins_value_def mset_map sum_mset_sum_list)

lemma coins_value_take: "coins_value (take n xs) \<le> coins_value xs" "m \<le> n \<Longrightarrow> coins_value (take m xs) \<le> coins_value (take n xs)"
proof -
  have prefix: "coins_value (take n xs) \<le> coins_value xs" for n xs by (metis append_take_drop_id coins_value_simps(3) le_add1)
  then show "coins_value (take n xs) \<le> coins_value xs" .
  show "m \<le> n \<Longrightarrow> coins_value (take m xs) \<le> coins_value (take n xs)" using prefix [of m "take n xs"] by (simp add: min_def)
qed

lemma wallet_add_Ok: "checked_wallet_add a b = Ok c \<longleftrightarrow> unat c = unat a + unat b"
  by (simp add: checked_wallet_add_def checked_add_iff)

lemma wallet_add_small: "unat a + unat b < 2 ^ 64 \<Longrightarrow> checked_wallet_add a b = Ok (a + b) \<and> unat (a + b) = unat a + unat b"
  by (simp add: checked_wallet_add_def checked_add_def unat_add_no_overflow)

lemma sum_coins_from:
  "ofold (\<lambda>s (_, v). checked_wallet_add s v) a coins = Ok c \<longleftrightarrow> unat c = unat a + coins_value coins"
proof (induction coins arbitrary: a)
  case (Cons coin coins)
  obtain k v where coin: "coin = (k, v)" by (cases coin)
  show ?case
  proof (cases "unat a + unat v < 2 ^ 64")
    case True
    from wallet_add_small [OF this] show ?thesis using Cons.IH [of "a + v"] by (auto simp: coin)
  next
    case False
    then have "checked_wallet_add a v \<noteq> Ok d" for d using u64_bound [of d] by (auto simp: wallet_add_Ok)
    moreover have "unat c < 2 ^ 64" by (rule u64_bound)
    ultimately show ?thesis using False by (auto simp: coin)
  qed
qed (auto simp: word_unat_eq_iff)

lemma sum_coins_Ok: "sum_coins coins = Ok c \<longleftrightarrow> unat c = coins_value coins"
  unfolding sum_coins_def sum_coins_from by simp

lemma pick_coins_prefix:
  assumes "unat selected + coins_value coins < 2 ^ 64"
  shows "\<exists>k v. pick_coins required ops selected coins = Ok (ops @ map fst (take k coins), v) \<and> k \<le> length coins \<and>
    unat v = unat selected + coins_value (take k coins) \<and> (\<forall>j<k. 0 < j \<longrightarrow> unat selected + coins_value (take j coins) < unat required) \<and>
    (v < required \<longrightarrow> k = length coins)"
  using assms
proof (induction coins arbitrary: selected ops)
  case (Cons coin coins)
  obtain x v where coin: "coin = (x, v)" by (cases coin)
  have "unat selected + unat v < 2 ^ 64" using Cons.prems by (simp add: coin)
  note s = wallet_add_small [OF this]
  show ?case
  proof (cases "required \<le> selected + v")
    case True
    then show ?thesis using s by (intro exI [of _ 1] exI [of _ "selected + v"]) (auto simp: coin)
  next
    case False
    have "unat (selected + v) + coins_value coins < 2 ^ 64" using Cons.prems s by (simp add: coin)
    from Cons.IH [OF this, of "ops @ [x]"] obtain k w where
      k: "pick_coins required (ops @ [x]) (selected + v) coins = Ok ((ops @ [x]) @ map fst (take k coins), w)" "k \<le> length coins"
      "unat w = unat (selected + v) + coins_value (take k coins)"
      "\<forall>j<k. 0 < j \<longrightarrow> unat (selected + v) + coins_value (take j coins) < unat required" "w < required \<longrightarrow> k = length coins" by blast
    have "unat selected + coins_value (take j (coin # coins)) < unat required" if "j < Suc k" "0 < j" for j
    proof (cases j)
      case (Suc i)
      then show ?thesis
        using k(4) that(1) s False by (cases i) (auto simp: coin word_le_nat_alt)
    qed (use that in simp)
    then show ?thesis using k s False by (intro exI [of _ "Suc k"] exI [of _ w]) (auto simp: coin)
  qed
qed simp

text \<open>The first coins of a list with the largest first are worth at least as much as any other so many.\<close>

lemma largest_are_worth_most:
  "sorted_wrt larger_first xs \<Longrightarrow> M \<subseteq># mset xs \<Longrightarrow> (\<Sum>c\<in>#M. unat (snd c)) \<le> coins_value (take (size M) xs)"
proof (induction xs arbitrary: M)
  case (Cons x xs)
  show ?case
  proof (cases "x \<in># M")
    case True
    then obtain N where N: "M = add_mset x N" by (metis insert_DiffM)
    with Cons.prems have "N \<subseteq># mset xs" by simp
    from Cons.IH [OF _ this] Cons.prems(1) show ?thesis by (simp add: N)
  next
    case False
    then have sub: "M \<subseteq># mset xs" using Cons.prems(2) by (metis diff_single_trivial insert_DiffM mset.simps(2) subset_eq_diff_conv add_mset_add_single diff_subset_eq_self subset_mset.order_trans)
    show ?thesis
    proof (cases "size M")
      case (Suc n)
      have n: "n < length xs" using size_mset_mono [OF sub] Suc by simp
      have "unat (snd (xs ! n)) \<le> unat (snd x)"
        using Cons.prems(1) n by (auto simp: larger_first_def word_le_nat_alt word_less_nat_alt dest!: bspec [of _ _ "xs ! n"])
      then have "coins_value (take (Suc n) xs) \<le> coins_value (take (Suc n) (x # xs))" using n by (simp add: take_Suc_conv_app_nth)
      with Cons.IH [OF _ sub] Cons.prems(1) Suc show ?thesis by simp
    qed simp
  qed
qed simp

text \<open>Taking the largest coins until the amount is covered covers it whenever that is possible, with
  the fewest coins.\<close>

lemma greedy_best:
  fixes v required :: u64
  assumes sorted: "sorted_wrt larger_first coins" and v: "unat v = coins_value (take k (take n coins))"
    and early: "\<forall>j<k. 0 < j \<longrightarrow> coins_value (take j (take n coins)) < unat required"
    and all: "v < required \<longrightarrow> k = length (take n coins)"
    and other: "mset other \<subseteq># mset coins" "length other \<le> n" "unat required \<le> coins_value other" and pos: "0 < required"
  shows "required \<le> v \<and> k \<le> length other"
proof -
  let ?top = "take n coins"
  have "coins_value other = (\<Sum>c\<in>#mset other. unat (snd c))" by (simp add: coins_value_def flip: sum_mset_sum_list) (simp add: comp_def)
  also have "\<dots> \<le> coins_value (take (length other) coins)" using largest_are_worth_most [OF sorted other(1)] by simp
  also have "take (length other) coins = take (length other) ?top" using other(2) by (simp add: min_def)
  finally have reach: "unat required \<le> coins_value (take (length other) ?top)" using other(3) by simp
  then have "length other \<noteq> 0" using pos by (auto simp: word_less_nat_alt)
  then have "k \<le> length other" using early reach by (metis leD not_le_imp_less neq0_conv)
  moreover have "\<not> v < required"
  proof
    assume short: "v < required"
    then have "take k ?top = ?top" using all take_all [of ?top k] by (metis order_refl)
    then have "coins_value (take (length other) ?top) \<le> unat v" using v coins_value_take(1) [of "length other" ?top] by simp
    with reach short show False by (simp add: word_less_nat_alt)
  qed
  ultimately show ?thesis by simp
qed

lemma mset_take_sub: "mset (take n xs) \<subseteq># mset xs"
  by (metis append_take_drop_id mset_append mset_subset_eq_add_left)

lemma selection_prefix:
  assumes "select_send_utxos candidates required = Ok sel"
  defines "first \<equiv> take MAX_TRANSACTION_INPUTS (sort_by larger_first candidates)"
  obtains k where "k \<le> length first" "sel_outpoints sel = map fst (take k first)" "unat (sel_selected_value sel) = coins_value (take k first)"
    "\<forall>j<k. 0 < j \<longrightarrow> coins_value (take j first) < unat required" "sel_selected_value sel < required \<longrightarrow> k = length first"
    "mset (take k first) \<subseteq># mset candidates" "unat (sel_available sel) = coins_value candidates"
proof -
  let ?sorted = "sort_by larger_first candidates"
  obtain ops v available where sel: "sum_coins candidates = Ok available" "pick_coins required [] 0 first = Ok (ops, v)"
    "sel = \<lparr>sel_outpoints = ops, sel_selected_value = v, sel_available = available\<rparr>"
    using assms(1) by (auto simp: select_send_utxos_def first_def)
  have av: "unat available = coins_value candidates" using sel(1) by (simp add: sum_coins_Ok)
  have "coins_value first < 2 ^ 64"
    using coins_value_take(1) [of MAX_TRANSACTION_INPUTS ?sorted] coins_value_mset [OF by_size.mset_sort_by [of candidates]] av u64_bound [of available]
    unfolding first_def by linarith
  then obtain k where k: "ops = map fst (take k first)" "k \<le> length first" "unat v = coins_value (take k first)"
    "\<forall>j<k. 0 < j \<longrightarrow> coins_value (take j first) < unat required" "v < required \<longrightarrow> k = length first"
    using pick_coins_prefix [of 0 first required "[]"] sel(2) by auto
  have sub: "mset (take k first) \<subseteq># mset candidates"
    using mset_take_sub [of k first] mset_take_sub [of MAX_TRANSACTION_INPUTS ?sorted]
    unfolding first_def by_size.mset_sort_by by (rule subset_mset.order_trans)
  show thesis
    by (rule that [of k]) (use k in \<open>simp_all only: sel(3) coin_selection.simps sub av\<close>)
qed

section \<open>Spending\<close>

definition lists :: "(out_point \<times> tx_output) list \<Rightarrow> node \<Rightarrow> bool" where
  "lists entries nd \<longleftrightarrow> distinct (map fst entries) \<and> map_of entries = fmlookup (us_outputs (cs_utxos (nd_state nd)))"

text \<open>The outputs the wallet may spend: its own, mature, and not spent by the pool.\<close>

definition spendable :: "crypto \<Rightarrow> byte list \<Rightarrow> node \<Rightarrow> out_point \<times> tx_output \<Rightarrow> bool" where
  "spendable C key nd entry \<longleftrightarrow> to_lock (snd entry) = OL_Key (verifying_key C key) \<and>
     to_spendable_height (snd entry) \<le> cs_next_height (nd_state nd) \<and> fst entry \<notin> mempool_spent_inputs (nd_mempool nd)"

definition coins_of :: "crypto \<Rightarrow> byte list \<Rightarrow> node \<Rightarrow> (out_point \<times> tx_output) list \<Rightarrow> coin list" where
  "coins_of C key nd entries = map (\<lambda>(k, out). (k, to_value out)) (filter (spendable C key nd) entries)"

text \<open>A new entry of the pool spends outputs of the wallet for given outputs and a given fee.\<close>

definition spends_own :: "crypto \<Rightarrow> byte list \<Rightarrow> node \<Rightarrow> node \<Rightarrow> hash32 \<Rightarrow> tx_output list \<Rightarrow> u64 \<Rightarrow> bool" where
  "spends_own C key nd nd' tid outputs fee \<longleftrightarrow>
     (\<exists>entry. (tid, entry) \<in> set (nd_mempool nd') \<and> tid = txid C (me_transaction entry) \<and> me_fee_burned entry = fee \<and>
        tx_outputs (me_transaction entry) = outputs \<and>
        (let previous = map ti_previous (tx_inputs (me_transaction entry)); u = cs_utxos (nd_state nd) in distinct previous \<and>
           list_all (\<lambda>k. \<exists>out. utxo_get u k = Some out \<and> spendable C key nd (k, out)) previous \<and>
           sum_list (map (\<lambda>k. out_value (the (utxo_get u k))) previous) = sum_list (map out_value outputs) + unat fee))"

lemma reset_witnesses_previous: "map ti_previous (fst (reset_witnesses C inputs keys)) = map ti_previous inputs"
  by (induction C inputs keys rule: reset_witnesses.induct) (auto split: input_witness.splits prod.splits)

lemma sign_witnesses_previous: "map ti_previous (fst (sign_witnesses C d inputs keys)) = map ti_previous inputs"
  by (induction C d inputs keys rule: sign_witnesses.induct) (auto split: input_witness.splits prod.splits)

lemma sign_all_keeps:
  "tx_outputs (fst (sign_all C keys t)) = tx_outputs t"
  "map ti_previous (tx_inputs (fst (sign_all C keys t))) = map ti_previous (tx_inputs t)"
  using reset_witnesses_previous [of C "tx_inputs t" keys] sign_witnesses_previous [of C _ _ keys]
  by (auto simp: sign_all_def Let_def split: prod.splits) (metis fst_conv)

lemma tx_effect_balance:
  "tx_effect C t height net u u' fee \<Longrightarrow> distinct (map ti_previous (tx_inputs t)) \<and>
     sum_list (map (\<lambda>k. out_value (the (utxo_get u k))) (map ti_previous (tx_inputs t))) = sum_list (map out_value (tx_outputs t)) + fee"
  by (induction rule: tx_effect.cases) auto

lemma pooled_fee:
  assumes "node_submit_transaction C nd t = Ok (entry, nd')"
  shows "(txid C t, entry) \<in> set (nd_mempool nd')" "me_transaction entry = t" "me_txid entry = txid C t"
    "distinct (map ti_previous (tx_inputs t))"
    "sum_list (map (\<lambda>k. out_value (the (utxo_get (cs_utxos (nd_state nd)) k))) (map ti_previous (tx_inputs t))) =
       sum_list (map out_value (tx_outputs t)) + unat (me_fee_burned entry)"
proof -
  from assms obtain n fee where entry: "entry = \<lparr>me_txid = txid C t, me_transaction = t, me_encoded_bytes = n, me_fee_burned = fee\<rparr>"
    and fee: "validate_mempool_transaction C (nd_state nd) t n (mempool_spent_inputs (nd_mempool nd)) = Ok fee"
    and pool: "nd_mempool nd' = bt_insert (txid C t) entry (nd_mempool nd)"
    and absent: "map_of (nd_mempool nd) (txid C t) = None"
    by (auto simp: node_submit_transaction_def submit_transaction_def Let_def split: if_splits)
  show "(txid C t, entry) \<in> set (nd_mempool nd')" using absent by (simp add: pool set_bt_insert map_of_eq_None_iff)
  show "me_transaction entry = t" "me_txid entry = txid C t" by (simp_all add: entry)
  obtain sv where sv: "validate_transactions_for_next_block C (nd_state nd) [t] = Ok sv" "sv_total_burned_fees sv = fee"
    using validate_mempool_transaction_Ok(3) [OF fee] by blast
  let ?u = "cs_utxos (nd_state nd)" and ?h = "cs_next_height (nd_state nd)" and ?net = "np_network_id (cs_params (nd_state nd))"
  obtain ov S where "ofold (apply_and_sum C ?h ?net) (0, overlay_new ?u, {}) [t] = Ok (fee, ov, S)"
    by (rule validate_transactions_Ok [OF sv(1)]) (simp add: sv(2))
  then obtain one where one: "apply_transaction C t ?h ?net (overlay_new ?u, {}) = Ok (one, ov, S)" "unat fee = unat one"
    by (auto elim!: apply_and_sum_Ok)
  have "tx_effect C t ?h ?net ?u (ov_commit ov) (unat fee)"
    using apply_transaction_Ok(5) [OF _ one(1)] overlay_new_ok [of ?u] one(2) by simp
  from tx_effect_balance [OF this] show "distinct (map ti_previous (tx_inputs t))"
    "sum_list (map (\<lambda>k. out_value (the (utxo_get ?u k))) (map ti_previous (tx_inputs t))) =
       sum_list (map out_value (tx_outputs t)) + unat (me_fee_burned entry)" by (simp_all add: entry)
qed

lemma gather_coins:
  "ofold (gather_coin (verifying_key C key) (cs_next_height (nd_state nd)) (mempool_spent_inputs (nd_mempool nd))) (cs, im) entries = Ok (cs', im') \<Longrightarrow>
     cs' = cs @ coins_of C key nd entries"
proof (induction entries arbitrary: cs im)
  case (Cons entry entries)
  then show ?case
    by (cases entry) (force simp: gather_coin_def coins_of_def spendable_def split: if_splits)
qed (simp add: coins_of_def)

text \<open>Coins chosen among the spendable ones name outputs of the ledger with their value.\<close>

lemma chosen_coins:
  assumes "lists entries nd" "mset chosen \<subseteq># mset (coins_of C key nd entries)"
  shows "list_all (\<lambda>k. \<exists>out. utxo_get (cs_utxos (nd_state nd)) k = Some out \<and> spendable C key nd (k, out)) (map fst chosen)"
    "sum_list (map (\<lambda>k. out_value (the (utxo_get (cs_utxos (nd_state nd)) k))) (map fst chosen)) = coins_value chosen"
proof -
  have at: "\<exists>out. utxo_get (cs_utxos (nd_state nd)) (fst c) = Some out \<and> spendable C key nd (fst c, out) \<and> to_value out = snd c"
    if "c \<in> set chosen" for c
  proof -
    have "c \<in># mset (coins_of C key nd entries)" using that assms(2) by (meson mset_subset_eqD set_mset_mset in_multiset_in_set)
    then obtain k out where e: "(k, out) \<in> set entries" "spendable C key nd (k, out)" "c = (k, to_value out)"
      by (auto simp: coins_of_def)
    have "map_of entries k = Some out" using assms(1) e(1) by (metis lists_def map_of_is_SomeI)
    then show ?thesis using assms(1) e by (auto simp: lists_def utxo_get_def)
  qed
  then show "list_all (\<lambda>k. \<exists>out. utxo_get (cs_utxos (nd_state nd)) k = Some out \<and> spendable C key nd (k, out)) (map fst chosen)"
    by (fastforce simp: list_all_iff)
  have "map (\<lambda>k. out_value (the (utxo_get (cs_utxos (nd_state nd)) k))) (map fst chosen) = map (unat \<circ> snd) chosen"
    using at by (fastforce simp: out_value_def)
  then show "sum_list (map (\<lambda>k. out_value (the (utxo_get (cs_utxos (nd_state nd)) k))) (map fst chosen)) = coins_value chosen"
    by (simp only: coins_value_def)
qed

lemma sign_and_submit_spends:
  assumes "lists entries nd" "mset chosen \<subseteq># mset (coins_of C key nd entries)"
    "sign_and_submit C key nd (map fst chosen) outputs fee = Ok (entry, nd')" "coins_value chosen = sum_list (map out_value outputs) + unat fee"
  shows "spends_own C key nd nd' (me_txid entry) outputs fee" "me_fee_burned entry = fee"
proof -
  let ?draft = "\<lparr>tx_network_id = np_network_id (nd_params nd), tx_version = TRANSACTION_VERSION,
    tx_inputs = map unsigned_input (map fst chosen), tx_outputs = outputs\<rparr>"
  define t where "t = fst (sign_all C (replicate (length chosen) key) ?draft)"
  have sub: "node_submit_transaction C nd t = Ok (entry, nd')"
    using assms(3) by (auto simp: sign_and_submit_def Let_def t_def split: prod.splits if_splits)
  have t: "tx_outputs t = outputs" "map ti_previous (tx_inputs t) = map fst chosen"
    by (simp_all add: t_def sign_all_keeps comp_def unsigned_input_def)
  note P = pooled_fee [OF sub, unfolded t] and K = chosen_coins [OF assms(1,2)]
  show fee: "me_fee_burned entry = fee" using P(5) K(2) assms(4) by (simp add: word_unat_eq_iff)
  show "spends_own C key nd nd' (me_txid entry) outputs fee"
    unfolding spends_own_def using P K fee t by (intro exI [of _ entry]) (simp add: Let_def)
qed

lemma send_spends:
  assumes "lists entries nd" "send_from_dev_wallet C key entries nd recipient amount fee = Ok (r, nd')"
  shows "sr_amount r = amount" "sr_fee_burned r = fee"
    "spends_own C key nd nd' (sr_txid r)
        (\<lparr>to_value = amount, to_lock = OL_Key recipient, to_spendable_height = cs_next_height (nd_state nd)\<rparr> #
         (if 0 < sr_change r then [\<lparr>to_value = sr_change r, to_lock = OL_Key (verifying_key C key),
            to_spendable_height = cs_next_height (nd_state nd)\<rparr>] else [])) fee"
proof -
  let ?h = "cs_next_height (nd_state nd)" and ?me = "OL_Key (verifying_key C key)"
  define outputs where "outputs change = \<lparr>to_value = amount, to_lock = OL_Key recipient, to_spendable_height = ?h\<rparr> #
    (if 0 < change then [\<lparr>to_value = change, to_lock = ?me, to_spendable_height = ?h\<rparr>] else [])" for change
  from assms(2) obtain required candidates immature sel entry where
    req: "checked_add amount fee = Some required"
    and gather: "ofold (gather_coin (verifying_key C key) ?h (mempool_spent_inputs (nd_mempool nd))) ([], 0) entries = Ok (candidates, immature)"
    and sel: "select_send_utxos candidates required = Ok sel" "\<not> sel_selected_value sel < required"
    and sub: "sign_and_submit C key nd (sel_outpoints sel) (outputs (sel_selected_value sel - required)) fee = Ok (entry, nd')"
    and r: "r = \<lparr>sr_txid = me_txid entry, sr_amount = amount, sr_fee_burned = me_fee_burned entry,
      sr_change = sel_selected_value sel - required, sr_mempool_transactions = length (nd_mempool nd'), sr_mempool_bytes = nd_mempool_bytes nd'\<rparr>"
    by (auto simp: send_from_dev_wallet_def outputs_def Let_def split: if_splits)
  obtain chosen where chosen: "mset chosen \<subseteq># mset candidates" "sel_outpoints sel = map fst chosen"
    "unat (sel_selected_value sel) = coins_value chosen"
    using selection_prefix [OF sel(1)] by blast
  have unat_req: "unat required = unat amount + unat fee" using req by (simp add: checked_add_iff)
  have change: "unat (sel_selected_value sel - required) = unat (sel_selected_value sel) - unat required"
    using sel(2) by (simp add: unat_sub_no_underflow not_less)
  have "unat required \<le> unat (sel_selected_value sel)" using sel(2) by (simp add: word_le_nat_alt not_less)
  then have "coins_value chosen = sum_list (map out_value (outputs (sel_selected_value sel - required))) + unat fee"
    using unat_req change chosen(3) by (auto simp: outputs_def out_value_def word_less_nat_alt)
  note S = sign_and_submit_spends [OF assms(1) _ sub [unfolded chosen(2)] this]
  have "candidates = coins_of C key nd entries" using gather_coins [OF gather] by simp
  then have own: "spends_own C key nd nd' (me_txid entry) (outputs (sel_selected_value sel - required)) fee" and fee: "me_fee_burned entry = fee"
    using S chosen(1) by blast+
  show "sr_amount r = amount" "sr_fee_burned r = fee" using fee by (simp_all add: r)
  show "spends_own C key nd nd' (sr_txid r) (\<lparr>to_value = amount, to_lock = OL_Key recipient, to_spendable_height = ?h\<rparr> #
         (if 0 < sr_change r then [\<lparr>to_value = sr_change r, to_lock = ?me, to_spendable_height = ?h\<rparr>] else [])) fee"
    using own unfolding outputs_def r send_response.simps .
qed

lemma consolidate_spends:
  assumes "lists entries nd" "consolidate_dev_wallet C key entries nd fee max_inputs = Ok (c, nd')"
  shows "unat (cr_input_atoms c) = unat (cr_output_atoms c) + unat fee" "2 \<le> cr_inputs_consolidated c" "cr_inputs_consolidated c \<le> max_inputs"
    "cr_fee_burned c = fee"
    "spends_own C key nd nd' (cr_txid c)
        [\<lparr>to_value = cr_output_atoms c, to_lock = OL_Key (verifying_key C key), to_spendable_height = cs_next_height (nd_state nd)\<rparr>] fee"
proof -
  define chosen where "chosen = take max_inputs (sort_by smaller_first (coins_of C key nd entries))"
  define outputs where "outputs v = [\<lparr>to_value = v, to_lock = OL_Key (verifying_key C key), to_spendable_height = cs_next_height (nd_state nd)\<rparr>]" for v
  have coins: "map (\<lambda>(k, out). (k, to_value out)) (filter (\<lambda>(k, out). to_lock out = OL_Key (verifying_key C key) \<and>
      to_spendable_height out \<le> cs_next_height (nd_state nd) \<and> k \<notin> mempool_spent_inputs (nd_mempool nd)) entries) = coins_of C key nd entries"
    by (simp add: coins_of_def spendable_def [abs_def] case_prod_unfold)
  from assms(2) obtain ins v entry where len: "2 \<le> length chosen" and ins: "sum_coins chosen = Ok ins"
    and v: "checked_sub ins fee = Some v" and sub: "sign_and_submit C key nd (map fst chosen) (outputs v) fee = Ok (entry, nd')"
    and c: "c = \<lparr>cr_txid = me_txid entry, cr_inputs_consolidated = length chosen, cr_input_atoms = ins, cr_output_atoms = v,
      cr_fee_burned = me_fee_burned entry, cr_mempool_transactions = length (nd_mempool nd'), cr_mempool_bytes = nd_mempool_bytes nd'\<rparr>"
    unfolding consolidate_dev_wallet_def Let_def coins chosen_def [symmetric] outputs_def
    by (auto split: if_splits option.splits simp: not_less)
  have "unat ins = unat v + unat fee" using checked_sub_unat [OF v] v by (simp add: checked_sub_Some word_le_nat_alt)
  then have total: "coins_value chosen = sum_list (map out_value (outputs v)) + unat fee"
    using ins by (simp add: sum_coins_Ok outputs_def out_value_def)
  have "mset chosen \<subseteq># mset (coins_of C key nd entries)"
    using mset_take_sub [of max_inputs "sort_by smaller_first (coins_of C key nd entries)"] by (simp add: chosen_def by_dust.mset_sort_by)
  note S = sign_and_submit_spends [OF assms(1) this sub total]
  show "unat (cr_input_atoms c) = unat (cr_output_atoms c) + unat fee" "2 \<le> cr_inputs_consolidated c" "cr_inputs_consolidated c \<le> max_inputs"
    "cr_fee_burned c = fee" "spends_own C key nd nd' (cr_txid c)
        [\<lparr>to_value = cr_output_atoms c, to_lock = OL_Key (verifying_key C key), to_spendable_height = cs_next_height (nd_state nd)\<rparr>] fee"
    using \<open>unat ins = unat v + unat fee\<close> len S by (simp_all add: c outputs_def) (simp add: chosen_def)
qed

section \<open>An example payment\<close>

definition demo_wallet_node :: node where
  "demo_wallet_node = demo_node\<lparr>nd_state := demo_genesis\<lparr>cs_utxos := demo_utxo, cs_next_height := 3\<rparr>\<rparr>"

lemma demo_frame: "\<exists>bs. encode_transaction demo_crypto demo_transaction = Ok bs \<and> length bs \<le> 1024"
  by (auto simp: encode_transaction_Ok length_frame_bytes crypto_ok_demo tx_shape_def tx_size_ok_def demo_transaction_def demo_input_def signed64_def
      terms_on_def tx_payload_def input_bytes_def witness_bytes_def demo_output_def encode_output_def)

lemma demo_pays:
  "\<exists>sv. validate_transactions_for_next_block demo_crypto (nd_state demo_wallet_node) [demo_transaction] = Ok sv \<and> sv_total_burned_fees sv = 300"
proof -
  obtain bs where bs: "encode_transaction demo_crypto demo_transaction = Ok bs" using demo_frame by blast
  have app: "\<exists>ov'. apply_transaction demo_crypto demo_transaction 3 (replicate 32 1) (overlay_new demo_utxo, {}) = Ok (300, ov', {demo_point})"
    by (simp add: apply_transaction_def demo_transaction_def TRANSACTION_VERSION_def demo_input_def demo_output_def
        is_key_witness_def spend_key_input_def overlay_reads utxo_get_def demo_utxo_def demo_point_def demo_coin_def
        demo_crypto_simps checked_add_def sum_outputs_def Let_def insert_outputs_def enumerate_eq_zip insert_output_def
        channel_of_def txid_def TX_ID_DOMAIN_def write_output_def)
  then obtain ov where ov: "apply_transaction demo_crypto demo_transaction 3 (replicate 32 1) (overlay_new demo_utxo, {}) = Ok (300, ov, {demo_point})" by blast
  have res: "validate_transaction_set_resources [demo_transaction] =
      Ok \<lparr>sv_total_burned_fees = 0, sv_aggregate_inputs = 1, sv_aggregate_outputs = 1, sv_signature_checks = 1\<rparr>"
    by (simp add: validate_transaction_set_resources_def validate_transaction_resources_def count_transaction_def wire_limits
        demo_transaction_def demo_input_def count_witness_def usize_add_def CONSENSUS_SIGNATURE_BYTES_def)
  show ?thesis
    by (simp add: validate_transactions_for_next_block_def res bs check_transaction_identity_def demo_wallet_node_def demo_genesis_def
        demo_params_def apply_and_sum_def ov checked_add_def) (simp add: demo_transaction_def TRANSACTION_VERSION_def)
qed

lemma demo_payment:
  "\<exists>r nd. send_from_dev_wallet demo_crypto (replicate 32 4) [(demo_point, demo_coin)] demo_wallet_node (replicate 32 6) 500 300 = Ok (r, nd)"
proof -
  obtain bs where bs: "encode_transaction demo_crypto demo_transaction = Ok bs" "length bs \<le> 1024" using demo_frame by blast
  obtain sv where sv: "validate_transactions_for_next_block demo_crypto (nd_state demo_wallet_node) [demo_transaction] = Ok sv"
    "sv_total_burned_fees sv = 300" using demo_pays by blast
  have nd: "nd_mempool demo_wallet_node = []" "nd_mempool_bytes demo_wallet_node = 0" "cs_next_height (nd_state demo_wallet_node) = 3"
    "np_network_id (nd_params demo_wallet_node) = replicate 32 1" "cs_utxos (nd_state demo_wallet_node) = demo_utxo"
    by (simp_all add: demo_wallet_node_def demo_node_def demo_params_def)
  have fee: "required_relay_fee (length bs) = 1"
  proof -
    have "(length bs + 1023) div 1024 \<le> 1" using bs(2) by (simp add: div_le_mono [of _ 2047 1024, simplified])
    then have "(length bs + 1023) div 1024 = 0 \<or> (length bs + 1023) div 1024 = 1" by linarith
    then show ?thesis using bs(2) by (auto simp: required_relay_fee_def Let_def checked_mul_def MIN_RELAY_FEE_PER_KIB_def min_def)
  qed
  have spent: "check_mempool_input (nd_state demo_wallet_node) {} demo_input = Ok ()"
    by (simp add: check_mempool_input_def nd utxo_get_def demo_utxo_def demo_input_def demo_point_def)
  have "\<exists>entry nd. node_submit_transaction demo_crypto demo_wallet_node demo_transaction = Ok (entry, nd)"
    using bs sv fee spent
    by (simp add: node_submit_transaction_def submit_transaction_def nd usize_add_def Let_def validate_mempool_transaction_def
        mempool_spent_inputs_def ordered_transactions_def MAX_MEMPOOL_TRANSACTIONS_def MAX_MEMPOOL_BYTES_def) (simp add: demo_transaction_def)
  then obtain entry nd' where sub: "node_submit_transaction demo_crypto demo_wallet_node demo_transaction = Ok (entry, nd')" by blast
  have vk: "verifying_key demo_crypto (replicate 32 4) = replicate 32 4" by (simp add: demo_crypto_def)
  have sign: "sign_all demo_crypto [replicate 32 4] \<lparr>tx_network_id = replicate 32 1, tx_version = TRANSACTION_VERSION,
      tx_inputs = [unsigned_input demo_point], tx_outputs = [demo_output]\<rparr> = (demo_transaction, Ok ())"
    by (simp add: sign_all_def unsigned_input_def demo_crypto_simps vk demo_transaction_def demo_input_def demo_point_def TRANSACTION_VERSION_def)
  have select: "select_send_utxos [(demo_point, 800)] 800 = Ok \<lparr>sel_outpoints = [demo_point], sel_selected_value = 800, sel_available = 800\<rparr>"
    by (simp add: select_send_utxos_def sum_coins_def checked_wallet_add_def checked_add_def sort_by_def MAX_TRANSACTION_INPUTS_def)
  have "sign_and_submit demo_crypto (replicate 32 4) demo_wallet_node [demo_point] [demo_output] 300 = Ok (entry, nd')"
    using bs(1) fee sub sign by (simp add: sign_and_submit_def nd Let_def)
  then show ?thesis
    using select
    by (simp add: send_from_dev_wallet_def nd demo_crypto_simps vk checked_add_def Let_def gather_coin_def demo_coin_def
        mempool_spent_inputs_def demo_output_def)
qed

section \<open>Properties\<close>

text \<open>Amounts are read exactly: a text is accepted with a value precisely when it is digits with at
  most eight digits behind one decimal point, and the value, in atoms, is the number it denotes,
  which has to fit 64 bits; nothing is rounded and nothing wraps around.\<close>

theorem amounts_are_read_exactly:
  "parse_cmfd_atoms s = Ok v \<longleftrightarrow>
     (\<exists>w f. decimal_text s w f \<and> unat v * 10 ^ length f = decimal_value (w @ f) * 10 ^ 8)"
proof -
  consider (one) w where "split_on CHR ''.'' s = [w]" | (two) w f where "split_on CHR ''.'' s = [w, f]"
    | (more) "2 < length (split_on CHR ''.'' s)"
    using split_on_nonempty [of "CHR ''.''" s] by (cases "split_on CHR ''.'' s" rule: remdups_adj.cases) (auto simp: numeral_2_eq_2)
  then show ?thesis
  proof cases
    case one
    then have "s = w" "CHR ''.'' \<notin> set w" by (simp_all add: split_on_one)
    then show ?thesis using parse_whole_Ok by (auto simp: decimal_text_def)
  next
    case two
    then have s: "s = w @ CHR ''.'' # f" "CHR ''.'' \<notin> set w" "CHR ''.'' \<notin> set f" by (simp_all add: split_on_two)
    have "decimal_text s w' f' \<longleftrightarrow> w' = w \<and> f' = f \<and> w \<noteq> [] \<and> f \<noteq> [] \<and> list_all is_ascii_digit (w @ f) \<and> length f \<le> 8" for w' f'
      using two decimal_text_parts [of s w' f'] by (auto simp: decimal_text_def s(1) split: if_splits)
    then show ?thesis
      using parse_pointed_Ok [OF s(2,3), of v] scale_decimal [of "length f" "unat v" "decimal_value w" "decimal_value f"]
      by (auto simp: s(1) decimal_value_append)
  next
    case more
    then show ?thesis using parse_many_parts by blast
  qed
qed

text \<open>C17. Coin selection is optimal and deterministic: it selects different candidates and adds up their
  value exactly; if any admissible number of candidates covers the required amount then so does
  the selection, and with no more inputs; and it does not depend on the order in which the
  candidates were listed.\<close>

theorem coin_selection_optimal:
  assumes "select_send_utxos candidates required = Ok sel" "0 < required"
  shows "(\<exists>chosen. mset chosen \<subseteq># mset candidates \<and> length chosen \<le> MAX_TRANSACTION_INPUTS \<and>
      sel_outpoints sel = map fst chosen \<and> unat (sel_selected_value sel) = coins_value chosen) \<and>
    unat (sel_available sel) = coins_value candidates \<and>
    (\<forall>other. mset other \<subseteq># mset candidates \<and> length other \<le> MAX_TRANSACTION_INPUTS \<and> unat required \<le> coins_value other \<longrightarrow>
      required \<le> sel_selected_value sel \<and> length (sel_outpoints sel) \<le> length other) \<and>
    (\<forall>listed. mset listed = mset candidates \<longrightarrow> select_send_utxos listed required = Ok sel)"
proof -
  have same: "select_send_utxos listed required = Ok sel" if "mset listed = mset candidates" for listed
  proof -
    from assms(1) obtain available where "sum_coins candidates = Ok available" by (auto simp: select_send_utxos_def)
    then have "sum_coins listed = sum_coins candidates" using coins_value_mset [OF that] by (metis sum_coins_Ok)
    then show ?thesis using assms(1) by (simp add: select_send_utxos_def by_size.sort_by_cong [OF that])
  qed
  let ?top = "take MAX_TRANSACTION_INPUTS (sort_by larger_first candidates)"
  obtain k where k: "k \<le> length ?top" "sel_outpoints sel = map fst (take k ?top)" "unat (sel_selected_value sel) = coins_value (take k ?top)"
    "\<forall>j<k. 0 < j \<longrightarrow> coins_value (take j ?top) < unat required" "sel_selected_value sel < required \<longrightarrow> k = length ?top"
    "mset (take k ?top) \<subseteq># mset candidates" "unat (sel_available sel) = coins_value candidates"
    by (rule selection_prefix [OF assms(1)])
  have "required \<le> sel_selected_value sel \<and> k \<le> length other"
    if "mset other \<subseteq># mset candidates" "length other \<le> MAX_TRANSACTION_INPUTS" "unat required \<le> coins_value other" for other
    using greedy_best [OF by_size.sort_by_sorted k(3,4,5) _ that(2,3) assms(2)] that(1) by (simp add: by_size.mset_sort_by)
  then show ?thesis using same k by (intro conjI exI [of _ "take k ?top"]) auto
qed

theorem coin_selection_optimal_witness:
  "\<exists>sel. select_send_utxos [(\<lparr>op_txid = [1], op_index = 0\<rparr>, 5), (\<lparr>op_txid = [2], op_index = 1\<rparr>, 9)] 12 = Ok sel \<and> length (sel_outpoints sel) \<le> 2"
proof -
  let ?coins = "[(\<lparr>op_txid = [1], op_index = 0\<rparr>, 5), (\<lparr>op_txid = [2], op_index = 1\<rparr>, 9)] :: coin list"
  obtain sel where sel: "select_send_utxos ?coins 12 = Ok sel"
    by (simp add: select_send_utxos_def sum_coins_def checked_wallet_add_def checked_add_def sort_by_def larger_first_def
        MAX_TRANSACTION_INPUTS_def)
  have "(0 :: u64) < 12" by simp
  from coin_selection_optimal [OF sel this] have "length (sel_outpoints sel) \<le> length ?coins"
    by (metis MAX_TRANSACTION_INPUTS_def length_map mset_subset_size size_mset size_mset_mono)
  with sel show ?thesis by auto
qed

text \<open>C22. The wallet spends what it says: a payment or a consolidation that succeeds adds one
  transaction to the pool. It spends different outputs of the wallet, all mature and none spent in
  the pool already, and what it spends is the sum of its outputs and exactly the fee that was asked
  for: the payment goes to the recipient and the rest back to the wallet, and a consolidation pays
  everything but the fee back to the wallet.\<close>

theorem wallet_spends_exactly:
  assumes "lists entries nd"
  shows "(send_from_dev_wallet C key entries nd recipient amount fee = Ok (r, nd') \<longrightarrow>
      sr_amount r = amount \<and> sr_fee_burned r = fee \<and>
      spends_own C key nd nd' (sr_txid r)
        (\<lparr>to_value = amount, to_lock = OL_Key recipient, to_spendable_height = cs_next_height (nd_state nd)\<rparr> #
         (if 0 < sr_change r then [\<lparr>to_value = sr_change r, to_lock = OL_Key (verifying_key C key),
            to_spendable_height = cs_next_height (nd_state nd)\<rparr>] else [])) fee) \<and>
    (consolidate_dev_wallet C key entries nd fee max_inputs = Ok (c, nd') \<longrightarrow>
      unat (cr_input_atoms c) = unat (cr_output_atoms c) + unat fee \<and> 2 \<le> cr_inputs_consolidated c \<and> cr_inputs_consolidated c \<le> max_inputs \<and>
      cr_fee_burned c = fee \<and>
      spends_own C key nd nd' (cr_txid c)
        [\<lparr>to_value = cr_output_atoms c, to_lock = OL_Key (verifying_key C key), to_spendable_height = cs_next_height (nd_state nd)\<rparr>] fee)"
  by (intro conjI impI; erule send_spends [OF assms] consolidate_spends [OF assms])

theorem wallet_spends_exactly_witness:
  "\<exists>r nd. send_from_dev_wallet demo_crypto (replicate 32 4) [(demo_point, demo_coin)] demo_wallet_node (replicate 32 6) 500 300 = Ok (r, nd) \<and>
     sr_fee_burned r = 300"
proof -
  have "lists [(demo_point, demo_coin)] demo_wallet_node"
    by (auto simp: lists_def demo_wallet_node_def demo_utxo_def)
  from wallet_spends_exactly [OF this] demo_payment show ?thesis by blast
qed

end
