(* ===== verification/CF_Peer.thy ===== *)
theory CF_Peer
  imports CF_Wire_Objects
begin

text \<open>
  The bounded peer protocol of \<open>crates/cmfd-node/src/peer.rs\<close>: limits and addresses, the frame codec
  for the thirteen messages, the session with its handshake, sequence numbers and budgets, and the
  planner of linear synchronisation.

  A payload reader has the two fields of the consensus reader, so the model reuses that record and
  its lemmas; durations are natural numbers of nanoseconds, and socket addresses hold the numeric
  address. The lemmas give the exact image of every encoder, from which the frame round trip, the
  invariant of reachable sessions and the delivery between two sessions follow.
\<close>

section \<open>Constants\<close>

definition PEER_MAGIC :: "byte list" where "PEER_MAGIC = bytes_of_string ''CMFP''"
definition PEER_PROTOCOL_VERSION :: u16 where "PEER_PROTOCOL_VERSION = 3"
definition PEER_FRAME_HEADER_BYTES :: nat where "PEER_FRAME_HEADER_BYTES = 20"
definition MAX_PEER_PAYLOAD_BYTES :: nat where "MAX_PEER_PAYLOAD_BYTES = MAX_BLOCK_BYTES"
definition MAX_HEADER_LOCATORS :: nat where "MAX_HEADER_LOCATORS = 32"
definition MAX_INVENTORY_ITEMS :: nat where "MAX_INVENTORY_ITEMS = 1024"
definition MAX_CONFIGURED_PEERS :: nat where "MAX_CONFIGURED_PEERS = 64"
definition MAX_MESSAGES_PER_PEER :: u64 where "MAX_MESSAGES_PER_PEER = 4096"
definition MAX_BYTES_PER_PEER :: u64 where "MAX_BYTES_PER_PEER = 64 * 1024 * 1024"
definition from_secs :: "nat \<Rightarrow> nat" where "from_secs n = n * 1000000000"
definition MAX_CONNECT_TIMEOUT :: nat where "MAX_CONNECT_TIMEOUT = from_secs 30"
definition MAX_IDLE_TIMEOUT :: nat where "MAX_IDLE_TIMEOUT = from_secs 60"
definition MAX_TOTAL_TIMEOUT :: nat where "MAX_TOTAL_TIMEOUT = from_secs (30 * 60)"
definition HELLO_PAYLOAD_BYTES :: nat where "HELLO_PAYLOAD_BYTES = 200"
definition MIN_SESSION_HANDSHAKE_BYTES :: u64 where
  "MIN_SESSION_HANDSHAKE_BYTES = 2 * word_of_nat (PEER_FRAME_HEADER_BYTES + HELLO_PAYLOAD_BYTES)"

definition HELLO_KIND :: u8 where "HELLO_KIND = 1"
definition GET_HEADERS_KIND :: u8 where "GET_HEADERS_KIND = 2"
definition INVENTORY_KIND :: u8 where "INVENTORY_KIND = 3"
definition GET_BLOCK_KIND :: u8 where "GET_BLOCK_KIND = 4"
definition PEER_BLOCK_KIND :: u8 where "PEER_BLOCK_KIND = 5"
definition GET_MEMPOOL_KIND :: u8 where "GET_MEMPOOL_KIND = 6"
definition TRANSACTION_INVENTORY_KIND :: u8 where "TRANSACTION_INVENTORY_KIND = 7"
definition GET_TRANSACTION_KIND :: u8 where "GET_TRANSACTION_KIND = 8"
definition PEER_TRANSACTION_KIND :: u8 where "PEER_TRANSACTION_KIND = 9"
definition SUBMIT_BLOCK_KIND :: u8 where "SUBMIT_BLOCK_KIND = 10"
definition BLOCK_SUBMISSION_RESULT_KIND :: u8 where "BLOCK_SUBMISSION_RESULT_KIND = 11"
definition GET_MINING_TEMPLATE_KIND :: u8 where "GET_MINING_TEMPLATE_KIND = 12"
definition MINING_TEMPLATE_KIND :: u8 where "MINING_TEMPLATE_KIND = 13"

lemmas peer_kinds = HELLO_KIND_def GET_HEADERS_KIND_def INVENTORY_KIND_def GET_BLOCK_KIND_def PEER_BLOCK_KIND_def
  GET_MEMPOOL_KIND_def TRANSACTION_INVENTORY_KIND_def GET_TRANSACTION_KIND_def PEER_TRANSACTION_KIND_def
  SUBMIT_BLOCK_KIND_def BLOCK_SUBMISSION_RESULT_KIND_def GET_MINING_TEMPLATE_KIND_def MINING_TEMPLATE_KIND_def

section \<open>Data\<close>

type_synonym chain_work = "byte list"

record peer_hello =
  ph_network_id :: hash32
  ph_consensus_fingerprint :: hash32
  ph_node_nonce :: hash32
  ph_tip :: hash32
  ph_height :: u64
  ph_cumulative_work :: chain_work

datatype submission_status = SS_Accepted | SS_AlreadyKnown | SS_Rejected

record submission_result =
  sr_block_id :: hash32
  sr_status :: submission_status
  sr_peer_height :: u64
  sr_peer_tip :: hash32

record mining_template =
  mt_challenge :: block_challenge
  mt_coinbase :: coinbase
  mt_transactions :: "transaction list"

datatype peer_message =
    PM_Hello peer_hello
  | PM_GetHeaders "hash32 list" hash32
  | PM_Inventory "hash32 list"
  | PM_GetBlock hash32
  | PM_Block block
  | PM_SubmitBlock block
  | PM_BlockSubmissionResult submission_result
  | PM_GetMempool
  | PM_TransactionInventory "hash32 list"
  | PM_GetTransaction hash32
  | PM_Transaction transaction
  | PM_GetMiningTemplate hash32
  | PM_MiningTemplate mining_template

record peer_frame =
  pf_sequence :: u64
  pf_message :: peer_message

record peer_limits =
  pl_connect_timeout :: nat
  pl_idle_timeout :: nat
  pl_total_timeout :: nat
  pl_max_peers :: nat
  pl_max_messages_per_peer :: u64
  pl_max_bytes_per_peer :: u64

datatype ip_addr = IP_V4 u32 | IP_V6 u128

record socket_addr =
  sa_ip :: ip_addr
  sa_port :: u16
  sa_flowinfo :: u32
  sa_scope_id :: u32

datatype peer_error =
    PE_Truncated nat nat
  | PE_InvalidMagic
  | PE_UnsupportedVersion u16
  | PE_NonZeroFlags
  | PE_UnknownKind u8
  | PE_InvalidBlockSubmissionStatus u8
  | PE_PayloadTooLarge nat nat
  | PE_TrailingBytes nat
  | PE_CountLimit string nat nat
  | PE_EmptyLocator
  | PE_DuplicateIdentifier string
  | PE_ZeroNodeNonce
  | PE_WrongNetwork
  | PE_WrongConsensusFingerprint
  | PE_SelfConnect
  | PE_LocalHelloRequired
  | PE_RemoteHelloRequired
  | PE_DuplicateHello
  | PE_HandshakeRequired
  | PE_UnexpectedSequence u64 u64
  | PE_SequenceExhausted
  | PE_PeerBudgetExceeded
  | PE_InvalidLimits
  | PE_NonPrivateAddress socket_addr
  | PE_UnsafeAddress socket_addr
  | PE_TooManyPeers nat nat
  | PE_ConfiguredSelfAddress socket_addr
  | PE_DuplicatePeer socket_addr
  | PE_TotalTimeout
  | PE_IdleTimeout
  | PE_Io
  | PE_NonCanonicalBlock
  | PE_NonCanonicalTransaction
  | PE_InvalidMiningTemplate string
  | PE_InvalidMiningOutputLockTag u8
  | PE_ConsensusWire wire_error

definition status_byte :: "submission_status \<Rightarrow> u8" where
  "status_byte s = (case s of SS_Accepted \<Rightarrow> 0 | SS_AlreadyKnown \<Rightarrow> 1 | SS_Rejected \<Rightarrow> 2)"

definition status_from_byte :: "u8 \<Rightarrow> (peer_error, submission_status) outcome" where
  "status_from_byte v =
     (if v = 0 then Ok SS_Accepted else if v = 1 then Ok SS_AlreadyKnown else if v = 2 then Ok SS_Rejected
      else Err (PE_InvalidBlockSubmissionStatus v))"

definition template_into_block :: "mining_template \<Rightarrow> block_proof \<Rightarrow> block" where
  "template_into_block t proof = \<lparr>bl_version = BLOCK_VERSION, bl_challenge = mt_challenge t, bl_proof = proof,
     bl_coinbase = mt_coinbase t, bl_transactions = mt_transactions t\<rparr>"

section \<open>Limits and addresses\<close>

definition default_limits :: peer_limits where
  "default_limits = \<lparr>pl_connect_timeout = from_secs 5, pl_idle_timeout = from_secs 10,
     pl_total_timeout = from_secs (5 * 60), pl_max_peers = 16, pl_max_messages_per_peer = 512,
     pl_max_bytes_per_peer = 32 * 1024 * 1024\<rparr>"

definition pl_validate :: "peer_limits \<Rightarrow> (peer_error, unit) outcome" where
  "pl_validate l =
     (if pl_connect_timeout l = 0 \<or> pl_idle_timeout l = 0 \<or> pl_total_timeout l = 0
        \<or> pl_max_peers l = 0 \<or> pl_max_peers l > MAX_CONFIGURED_PEERS
        \<or> pl_max_messages_per_peer l < 2 \<or> pl_max_messages_per_peer l > MAX_MESSAGES_PER_PEER
        \<or> pl_max_bytes_per_peer l < MIN_SESSION_HANDSHAKE_BYTES \<or> pl_max_bytes_per_peer l > MAX_BYTES_PER_PEER
        \<or> pl_connect_timeout l > MAX_CONNECT_TIMEOUT \<or> pl_idle_timeout l > MAX_IDLE_TIMEOUT
        \<or> pl_total_timeout l > MAX_TOTAL_TIMEOUT
      then Err PE_InvalidLimits else Ok ())"

datatype address_policy = PrivateOnly | AllowPublic

record static_peer_config =
  sc_listen_address :: socket_addr
  sc_peers :: "socket_addr list"
  sc_limits :: peer_limits
  sc_address_policy :: address_policy

text \<open>The standard library's classification of addresses.\<close>

definition v4_is_loopback :: "u32 \<Rightarrow> bool" where "v4_is_loopback a \<longleftrightarrow> drop_bit 24 a = 127"
definition v4_is_private :: "u32 \<Rightarrow> bool" where
  "v4_is_private a \<longleftrightarrow> drop_bit 24 a = 10 \<or> drop_bit 20 a = 0xac1 \<or> drop_bit 16 a = 0xc0a8"
definition v4_is_multicast :: "u32 \<Rightarrow> bool" where "v4_is_multicast a \<longleftrightarrow> drop_bit 28 a = 14"
definition v6_is_loopback :: "u128 \<Rightarrow> bool" where "v6_is_loopback a \<longleftrightarrow> a = 1"
definition v6_is_unique_local :: "u128 \<Rightarrow> bool" where "v6_is_unique_local a \<longleftrightarrow> drop_bit 121 a = 0x7e"
definition v6_is_link_local :: "u128 \<Rightarrow> bool" where "v6_is_link_local a \<longleftrightarrow> drop_bit 118 a = 0x3fa"
definition v6_is_multicast :: "u128 \<Rightarrow> bool" where "v6_is_multicast a \<longleftrightarrow> drop_bit 120 a = 0xff"

definition private_ip :: "ip_addr \<Rightarrow> bool" where
  "private_ip ip = (case ip of
       IP_V4 a \<Rightarrow> v4_is_loopback a \<or> v4_is_private a
     | IP_V6 a \<Rightarrow> v6_is_loopback a \<or> v6_is_unique_local a \<or> v6_is_link_local a)"

definition unsafe_address :: "socket_addr \<Rightarrow> bool" where
  "unsafe_address address \<longleftrightarrow> sa_port address = 0 \<or> (case sa_ip address of
       IP_V4 a \<Rightarrow> a = 0 \<or> v4_is_multicast a \<or> a = 0xffffffff
     | IP_V6 a \<Rightarrow> a = 0 \<or> v6_is_multicast a)"

definition validate_peer_address :: "socket_addr \<Rightarrow> address_policy \<Rightarrow> (peer_error, unit) outcome" where
  "validate_peer_address address policy =
     (if unsafe_address address then Err (PE_UnsafeAddress address)
      else if \<not> private_ip (sa_ip address) \<and> policy = PrivateOnly then Err (PE_NonPrivateAddress address)
      else Ok ())"

definition check_configured_peer :: "static_peer_config \<Rightarrow> bool \<Rightarrow> socket_addr list \<Rightarrow> socket_addr
    \<Rightarrow> (peer_error, socket_addr list) outcome" where
  "check_configured_peer cfg reject_listener unique peer =
     obind (validate_peer_address peer (sc_address_policy cfg)) (\<lambda>_.
     if reject_listener \<and> peer = sc_listen_address cfg then Err (PE_ConfiguredSelfAddress peer)
     else if peer \<in> set unique then Err (PE_DuplicatePeer peer)
     else Ok (peer # unique))"

definition validate_peer_list :: "static_peer_config \<Rightarrow> bool \<Rightarrow> (peer_error, unit) outcome" where
  "validate_peer_list cfg reject_listener =
     (if length (sc_peers cfg) > pl_max_peers (sc_limits cfg)
      then Err (PE_TooManyPeers (length (sc_peers cfg)) (pl_max_peers (sc_limits cfg)))
      else obind (ofold (check_configured_peer cfg reject_listener) [] (sc_peers cfg)) (\<lambda>_. Ok ()))"

definition sc_validate :: "static_peer_config \<Rightarrow> (peer_error, unit) outcome" where
  "sc_validate cfg =
     obind (pl_validate (sc_limits cfg)) (\<lambda>_.
     obind (validate_peer_address (sc_listen_address cfg) (sc_address_policy cfg)) (\<lambda>_.
     validate_peer_list cfg True))"

definition sc_validate_client_peers :: "static_peer_config \<Rightarrow> (peer_error, unit) outcome" where
  "sc_validate_client_peers cfg = obind (pl_validate (sc_limits cfg)) (\<lambda>_. validate_peer_list cfg False)"

section \<open>Validation of message contents\<close>

definition validate_hello :: "peer_hello \<Rightarrow> (peer_error, unit) outcome" where
  "validate_hello hello = (if ph_node_nonce hello = replicate 32 0 then Err PE_ZeroNodeNonce else Ok ())"

definition validate_identifiers :: "hash32 list \<Rightarrow> nat \<Rightarrow> string \<Rightarrow> bool \<Rightarrow> (peer_error, unit) outcome" where
  "validate_identifiers identifiers limit field require_nonempty =
     (if require_nonempty \<and> identifiers = [] then Err PE_EmptyLocator
      else if length identifiers > limit then Err (PE_CountLimit field (length identifiers) limit)
      else if \<not> distinct identifiers then Err (PE_DuplicateIdentifier field)
      else Ok ())"

definition validate_mining_template :: "crypto \<Rightarrow> mining_template \<Rightarrow> hash32 \<Rightarrow> (peer_error, unit) outcome" where
  "validate_mining_template C t expected_network_id =
     (if bc_network_id (mt_challenge t) \<noteq> expected_network_id then Err PE_WrongNetwork
      else if cb_height (mt_coinbase t) \<noteq> bc_height (mt_challenge t)
        then Err (PE_InvalidMiningTemplate ''coinbase height does not match challenge height'')
      else if length (cb_outputs (mt_coinbase t)) > MAX_COINBASE_OUTPUTS
        then Err (PE_CountLimit ''mining template coinbase outputs'' (length (cb_outputs (mt_coinbase t))) MAX_COINBASE_OUTPUTS)
      else if length (mt_transactions t) > MAX_BLOCK_TRANSACTIONS
        then Err (PE_CountLimit ''mining template transactions'' (length (mt_transactions t)) MAX_BLOCK_TRANSACTIONS)
      else if list_ex (\<lambda>tx. tx_network_id tx \<noteq> expected_network_id) (mt_transactions t) then Err PE_WrongNetwork
      else if merkle_root C (coinbase_commitment C (mt_coinbase t) expected_network_id # map (txid C) (mt_transactions t))
          \<noteq> bc_transaction_root (mt_challenge t)
        then Err (PE_InvalidMiningTemplate ''transaction root does not match template contents'')
      else Ok ())"

section \<open>Encoding\<close>

abbreviation le16 :: "nat \<Rightarrow> byte list" where "le16 n \<equiv> to_le_bytes (word_of_nat n :: u16)"

definition encode_block_challenge :: "block_challenge \<Rightarrow> byte list" where
  "encode_block_challenge c = bc_network_id c @ bc_previous_block c @ bc_transaction_root c @
     to_le_bytes (bc_height c) @ to_le_bytes (bc_timestamp c) @ bc_target c"

definition encode_template_output :: "tx_output \<Rightarrow> byte list" where
  "encode_template_output out = to_le_bytes (to_value out) @
     (case to_lock out of OL_Key key \<Rightarrow> [0] @ key | OL_InferenceChannel channel_id \<Rightarrow> [1] @ channel_id) @
     to_le_bytes (to_spendable_height out)"

definition put_template_transaction :: "crypto \<Rightarrow> byte list \<Rightarrow> transaction \<Rightarrow> (peer_error, byte list) outcome" where
  "put_template_transaction C payload t =
     obind (map_err PE_ConsensusWire (encode_transaction C t)) (\<lambda>encoded.
     if length encoded < 2 ^ 32
     then Ok (payload @ to_le_bytes (word_of_nat (length encoded) :: u32) @ encoded)
     else Err (PE_PayloadTooLarge (length encoded) MAX_TRANSACTION_BYTES))"

definition encode_mining_template :: "crypto \<Rightarrow> mining_template \<Rightarrow> (peer_error, byte list) outcome" where
  "encode_mining_template C t =
     obind (validate_mining_template C t (bc_network_id (mt_challenge t))) (\<lambda>_.
     ofold (put_template_transaction C)
       (encode_block_challenge (mt_challenge t) @ to_le_bytes (cb_height (mt_coinbase t)) @
        [word_of_nat (length (cb_outputs (mt_coinbase t)))] @
        concat (map encode_template_output (cb_outputs (mt_coinbase t))) @
        le16 (length (mt_transactions t)))
       (mt_transactions t))"

definition encode_message :: "crypto \<Rightarrow> peer_message \<Rightarrow> (peer_error, u8 \<times> byte list) outcome" where
  "encode_message C m = (case m of
       PM_Hello hello \<Rightarrow> obind (validate_hello hello) (\<lambda>_.
         Ok (HELLO_KIND, ph_network_id hello @ ph_consensus_fingerprint hello @ ph_node_nonce hello @ ph_tip hello @
           to_le_bytes (ph_height hello) @ ph_cumulative_work hello))
     | PM_GetHeaders locator stop \<Rightarrow>
         obind (validate_identifiers locator MAX_HEADER_LOCATORS ''header locator'' True) (\<lambda>_.
         Ok (GET_HEADERS_KIND, le16 (length locator) @ concat locator @ stop))
     | PM_Inventory block_ids \<Rightarrow>
         obind (validate_identifiers block_ids MAX_INVENTORY_ITEMS ''inventory'' False) (\<lambda>_.
         Ok (INVENTORY_KIND, le16 (length block_ids) @ concat block_ids))
     | PM_GetBlock bid \<Rightarrow> Ok (GET_BLOCK_KIND, bid)
     | PM_Block b \<Rightarrow> obind (map_err PE_ConsensusWire (encode_block C b)) (\<lambda>p. Ok (PEER_BLOCK_KIND, p))
     | PM_SubmitBlock b \<Rightarrow> obind (map_err PE_ConsensusWire (encode_block C b)) (\<lambda>p. Ok (SUBMIT_BLOCK_KIND, p))
     | PM_BlockSubmissionResult r \<Rightarrow>
         Ok (BLOCK_SUBMISSION_RESULT_KIND, sr_block_id r @ [status_byte (sr_status r)] @
           to_le_bytes (sr_peer_height r) @ sr_peer_tip r)
     | PM_GetMempool \<Rightarrow> Ok (GET_MEMPOOL_KIND, [])
     | PM_TransactionInventory txids \<Rightarrow>
         obind (validate_identifiers txids MAX_INVENTORY_ITEMS ''transaction inventory'' False) (\<lambda>_.
         Ok (TRANSACTION_INVENTORY_KIND, le16 (length txids) @ concat txids))
     | PM_GetTransaction tid \<Rightarrow> Ok (GET_TRANSACTION_KIND, tid)
     | PM_Transaction t \<Rightarrow>
         obind (map_err PE_ConsensusWire (encode_transaction C t)) (\<lambda>payload.
         if length payload > MAX_TRANSACTION_BYTES
         then Err (PE_PayloadTooLarge (length payload) MAX_TRANSACTION_BYTES)
         else Ok (PEER_TRANSACTION_KIND, payload))
     | PM_GetMiningTemplate payout \<Rightarrow> Ok (GET_MINING_TEMPLATE_KIND, payout)
     | PM_MiningTemplate t \<Rightarrow> obind (encode_mining_template C t) (\<lambda>p. Ok (MINING_TEMPLATE_KIND, p)))"

definition encode_peer_frame :: "crypto \<Rightarrow> peer_frame \<Rightarrow> (peer_error, byte list) outcome" where
  "encode_peer_frame C f =
     obind (encode_message C (pf_message f)) (\<lambda>(kind, payload).
     if length payload > MAX_PEER_PAYLOAD_BYTES \<or> \<not> length payload < 2 ^ 32
     then Err (PE_PayloadTooLarge (length payload) MAX_PEER_PAYLOAD_BYTES)
     else Ok (PEER_MAGIC @ to_le_bytes PEER_PROTOCOL_VERSION @ [kind, 0] @ to_le_bytes (pf_sequence f) @
            to_le_bytes (word_of_nat (length payload) :: u32) @ payload))"

section \<open>Decoding\<close>

definition pr_take :: "nat \<Rightarrow> reader \<Rightarrow> (peer_error, byte list \<times> reader) outcome" where
  "pr_take count r =
     (case usize_add (rd_offset r) count of
        None \<Rightarrow> Err (PE_Truncated (usize_limit - 1) (length (rd_bytes r) - rd_offset r))
      | Some end_offset \<Rightarrow>
          if end_offset > length (rd_bytes r) then Err (PE_Truncated count (length (rd_bytes r) - rd_offset r))
          else obind (slice_or_panic (rd_bytes r) (rd_offset r) end_offset) (\<lambda>bs.
            Ok (bs, r\<lparr>rd_offset := end_offset\<rparr>)))"

definition pr_u16 :: "reader \<Rightarrow> (peer_error, u16 \<times> reader) outcome" where
  "pr_u16 r = obind (pr_take 2 r) (\<lambda>(bs, r). Ok (from_le_bytes bs, r))"

definition pr_u32 :: "reader \<Rightarrow> (peer_error, u32 \<times> reader) outcome" where
  "pr_u32 r = obind (pr_take 4 r) (\<lambda>(bs, r). Ok (from_le_bytes bs, r))"

definition pr_u8 :: "reader \<Rightarrow> (peer_error, u8 \<times> reader) outcome" where
  "pr_u8 r = obind (pr_take 1 r) (\<lambda>(bs, r). obind (index_or_panic bs 0) (\<lambda>b. Ok (b, r)))"

definition pr_u64 :: "reader \<Rightarrow> (peer_error, u64 \<times> reader) outcome" where
  "pr_u64 r = obind (pr_take 8 r) (\<lambda>(bs, r). Ok (from_le_bytes bs, r))"

definition pr_array :: "nat \<Rightarrow> reader \<Rightarrow> (peer_error, byte list \<times> reader) outcome" where
  "pr_array n r = pr_take n r"

definition pr_finish :: "reader \<Rightarrow> (peer_error, unit) outcome" where
  "pr_finish r =
     obind (usize_sub_or_panic (length (rd_bytes r)) (rd_offset r)) (\<lambda>remaining.
     if remaining \<noteq> 0 then Err (PE_TrailingBytes remaining) else Ok ())"

definition decode_block_challenge :: "hash32 \<Rightarrow> reader \<Rightarrow> (peer_error, block_challenge \<times> reader) outcome" where
  "decode_block_challenge expected_network_id r =
     obind (pr_array 32 r) (\<lambda>(network_id, r).
     obind (pr_array 32 r) (\<lambda>(previous_block, r).
     obind (pr_array 32 r) (\<lambda>(root, r).
     obind (pr_u64 r) (\<lambda>(height, r).
     obind (pr_u64 r) (\<lambda>(timestamp, r).
     obind (pr_array 32 r) (\<lambda>(target, r).
     if network_id \<noteq> expected_network_id then Err PE_WrongNetwork
     else Ok (\<lparr>bc_network_id = network_id, bc_previous_block = previous_block, bc_transaction_root = root,
            bc_height = height, bc_timestamp = timestamp, bc_target = target\<rparr>, r)))))))"

definition decode_template_lock :: "u8 \<Rightarrow> reader \<Rightarrow> (peer_error, output_lock \<times> reader) outcome" where
  "decode_template_lock tag r =
     (if tag = 0 then obind (pr_array 32 r) (\<lambda>(key, r). Ok (OL_Key key, r))
      else if tag = 1 then obind (pr_array 32 r) (\<lambda>(channel_id, r). Ok (OL_InferenceChannel channel_id, r))
      else Err (PE_InvalidMiningOutputLockTag tag))"

definition decode_template_output :: "reader \<Rightarrow> (peer_error, tx_output \<times> reader) outcome" where
  "decode_template_output r =
     obind (pr_u64 r) (\<lambda>(amount, r).
     obind (pr_u8 r) (\<lambda>(tag, r).
     obind (decode_template_lock tag r) (\<lambda>(lock, r).
     obind (pr_u64 r) (\<lambda>(spendable_height, r).
     Ok (\<lparr>to_value = amount, to_lock = lock, to_spendable_height = spendable_height\<rparr>, r)))))"

definition get_template_transaction :: "crypto \<Rightarrow> hash32 \<Rightarrow> reader \<Rightarrow> (peer_error, transaction \<times> reader) outcome" where
  "get_template_transaction C expected_network_id r =
     obind (pr_u32 r) (\<lambda>(n, r).
     if unat n > MAX_TRANSACTION_BYTES then Err (PE_PayloadTooLarge (unat n) MAX_TRANSACTION_BYTES)
     else
     obind (pr_take (unat n) r) (\<lambda>(encoded, r).
     obind (map_err PE_ConsensusWire (decode_transaction C encoded expected_network_id)) (\<lambda>t.
     obind (map_err PE_ConsensusWire (encode_transaction C t)) (\<lambda>again.
     if again \<noteq> encoded then Err PE_NonCanonicalTransaction else Ok (t, r)))))"

definition decode_mining_template :: "crypto \<Rightarrow> byte list \<Rightarrow> hash32 \<Rightarrow> (peer_error, mining_template) outcome" where
  "decode_mining_template C payload expected_network_id =
     obind (decode_block_challenge expected_network_id (reader_new payload)) (\<lambda>(challenge, r).
     obind (pr_u64 r) (\<lambda>(coinbase_height, r).
     obind (pr_u8 r) (\<lambda>(output_count, r).
     if unat output_count > MAX_COINBASE_OUTPUTS
     then Err (PE_CountLimit ''mining template coinbase outputs'' (unat output_count) MAX_COINBASE_OUTPUTS) else
     obind (read_many decode_template_output (unat output_count) r) (\<lambda>(outputs, r).
     obind (pr_u16 r) (\<lambda>(transaction_count, r).
     if unat transaction_count > MAX_BLOCK_TRANSACTIONS
     then Err (PE_CountLimit ''mining template transactions'' (unat transaction_count) MAX_BLOCK_TRANSACTIONS) else
     obind (read_many (get_template_transaction C expected_network_id) (unat transaction_count) r) (\<lambda>(transactions, r).
     obind (pr_finish r) (\<lambda>_.
     let t = \<lparr>mt_challenge = challenge, mt_coinbase = \<lparr>cb_height = coinbase_height, cb_outputs = outputs\<rparr>,
          mt_transactions = transactions\<rparr>
     in obind (validate_mining_template C t expected_network_id) (\<lambda>_. Ok t))))))))"

definition decode_hello :: "byte list \<Rightarrow> hash32 \<Rightarrow> (peer_error, peer_hello) outcome" where
  "decode_hello payload expected_network_id =
     obind (pr_array 32 (reader_new payload)) (\<lambda>(network_id, r).
     obind (pr_array 32 r) (\<lambda>(fingerprint, r).
     obind (pr_array 32 r) (\<lambda>(nonce, r).
     obind (pr_array 32 r) (\<lambda>(tip, r).
     obind (pr_u64 r) (\<lambda>(height, r).
     obind (pr_array 64 r) (\<lambda>(work, r).
     obind (pr_finish r) (\<lambda>_.
     let hello = \<lparr>ph_network_id = network_id, ph_consensus_fingerprint = fingerprint, ph_node_nonce = nonce,
           ph_tip = tip, ph_height = height, ph_cumulative_work = work\<rparr>
     in obind (validate_hello hello) (\<lambda>_.
     if network_id \<noteq> expected_network_id then Err PE_WrongNetwork else Ok hello))))))))"

definition decode_get_headers :: "byte list \<Rightarrow> (peer_error, hash32 list \<times> hash32) outcome" where
  "decode_get_headers payload =
     obind (pr_u16 (reader_new payload)) (\<lambda>(count, r).
     if count = 0 then Err PE_EmptyLocator
     else if unat count > MAX_HEADER_LOCATORS then Err (PE_CountLimit ''header locator'' (unat count) MAX_HEADER_LOCATORS)
     else
     obind (read_many (pr_array 32) (unat count) r) (\<lambda>(locator, r).
     obind (pr_array 32 r) (\<lambda>(stop, r).
     obind (pr_finish r) (\<lambda>_.
     obind (validate_identifiers locator MAX_HEADER_LOCATORS ''header locator'' True) (\<lambda>_.
     Ok (locator, stop))))))"

definition decode_inventory :: "string \<Rightarrow> byte list \<Rightarrow> (peer_error, hash32 list) outcome" where
  "decode_inventory field payload =
     obind (pr_u16 (reader_new payload)) (\<lambda>(count, r).
     if unat count > MAX_INVENTORY_ITEMS then Err (PE_CountLimit field (unat count) MAX_INVENTORY_ITEMS)
     else
     obind (read_many (pr_array 32) (unat count) r) (\<lambda>(ids, r).
     obind (pr_finish r) (\<lambda>_.
     obind (validate_identifiers ids MAX_INVENTORY_ITEMS field False) (\<lambda>_. Ok ids))))"

definition decode_identifier :: "byte list \<Rightarrow> (peer_error, hash32) outcome" where
  "decode_identifier payload =
     obind (pr_array 32 (reader_new payload)) (\<lambda>(ident, r). obind (pr_finish r) (\<lambda>_. Ok ident))"

definition decode_peer_block :: "crypto \<Rightarrow> byte list \<Rightarrow> hash32 \<Rightarrow> (peer_error, block) outcome" where
  "decode_peer_block C payload expected_network_id =
     obind (map_err PE_ConsensusWire (decode_block C payload expected_network_id)) (\<lambda>b.
     obind (map_err PE_ConsensusWire (encode_block C b)) (\<lambda>again.
     if again \<noteq> payload then Err PE_NonCanonicalBlock else Ok b))"

definition decode_peer_transaction :: "crypto \<Rightarrow> byte list \<Rightarrow> hash32 \<Rightarrow> (peer_error, transaction) outcome" where
  "decode_peer_transaction C payload expected_network_id =
     (if length payload > MAX_TRANSACTION_BYTES then Err (PE_PayloadTooLarge (length payload) MAX_TRANSACTION_BYTES)
      else
      obind (map_err PE_ConsensusWire (decode_transaction C payload expected_network_id)) (\<lambda>t.
      obind (map_err PE_ConsensusWire (encode_transaction C t)) (\<lambda>again.
      if again \<noteq> payload then Err PE_NonCanonicalTransaction else Ok t)))"

definition decode_submission_result :: "byte list \<Rightarrow> (peer_error, submission_result) outcome" where
  "decode_submission_result payload =
     obind (pr_array 32 (reader_new payload)) (\<lambda>(bid, r).
     obind (pr_u8 r) (\<lambda>(byte, r).
     obind (status_from_byte byte) (\<lambda>status.
     obind (pr_u64 r) (\<lambda>(height, r).
     obind (pr_array 32 r) (\<lambda>(tip, r).
     obind (pr_finish r) (\<lambda>_.
     Ok \<lparr>sr_block_id = bid, sr_status = status, sr_peer_height = height, sr_peer_tip = tip\<rparr>))))))"

definition decode_message :: "crypto \<Rightarrow> u8 \<Rightarrow> byte list \<Rightarrow> hash32 \<Rightarrow> (peer_error, peer_message) outcome" where
  "decode_message C kind payload net =
     (if kind = HELLO_KIND then obind (decode_hello payload net) (\<lambda>h. Ok (PM_Hello h))
      else if kind = GET_HEADERS_KIND then obind (decode_get_headers payload) (\<lambda>(l, s). Ok (PM_GetHeaders l s))
      else if kind = INVENTORY_KIND then obind (decode_inventory ''inventory'' payload) (\<lambda>ids. Ok (PM_Inventory ids))
      else if kind = GET_BLOCK_KIND then obind (decode_identifier payload) (\<lambda>i. Ok (PM_GetBlock i))
      else if kind = PEER_BLOCK_KIND then obind (decode_peer_block C payload net) (\<lambda>b. Ok (PM_Block b))
      else if kind = SUBMIT_BLOCK_KIND then obind (decode_peer_block C payload net) (\<lambda>b. Ok (PM_SubmitBlock b))
      else if kind = BLOCK_SUBMISSION_RESULT_KIND
        then obind (decode_submission_result payload) (\<lambda>r. Ok (PM_BlockSubmissionResult r))
      else if kind = GET_MEMPOOL_KIND then obind (pr_finish (reader_new payload)) (\<lambda>_. Ok PM_GetMempool)
      else if kind = TRANSACTION_INVENTORY_KIND
        then obind (decode_inventory ''transaction inventory'' payload) (\<lambda>ids. Ok (PM_TransactionInventory ids))
      else if kind = GET_TRANSACTION_KIND then obind (decode_identifier payload) (\<lambda>i. Ok (PM_GetTransaction i))
      else if kind = PEER_TRANSACTION_KIND then obind (decode_peer_transaction C payload net) (\<lambda>t. Ok (PM_Transaction t))
      else if kind = GET_MINING_TEMPLATE_KIND then obind (decode_identifier payload) (\<lambda>i. Ok (PM_GetMiningTemplate i))
      else if kind = MINING_TEMPLATE_KIND then obind (decode_mining_template C payload net) (\<lambda>t. Ok (PM_MiningTemplate t))
      else Err (PE_UnknownKind kind))"

definition peer_payload_limit :: "u8 \<Rightarrow> nat" where
  "peer_payload_limit kind = (if kind = PEER_TRANSACTION_KIND then MAX_TRANSACTION_BYTES else MAX_PEER_PAYLOAD_BYTES)"

definition decode_peer_frame :: "crypto \<Rightarrow> byte list \<Rightarrow> hash32 \<Rightarrow> (peer_error, peer_frame) outcome" where
  "decode_peer_frame C bytes net =
     (if length bytes < PEER_FRAME_HEADER_BYTES then Err (PE_Truncated PEER_FRAME_HEADER_BYTES (length bytes)) else
      obind (slice_or_panic bytes 0 4) (\<lambda>magic.
      if magic \<noteq> PEER_MAGIC then Err PE_InvalidMagic else
      obind (slice_or_panic bytes 4 6) (\<lambda>version_bytes.
      let version = from_le_bytes version_bytes in
      if version \<noteq> PEER_PROTOCOL_VERSION then Err (PE_UnsupportedVersion version) else
      obind (index_or_panic bytes 6) (\<lambda>kind.
      obind (index_or_panic bytes 7) (\<lambda>flags.
      if flags \<noteq> 0 then Err PE_NonZeroFlags else
      obind (slice_or_panic bytes 8 16) (\<lambda>sequence_bytes.
      obind (slice_or_panic bytes 16 20) (\<lambda>length_bytes.
      let payload_len = unat (from_le_bytes length_bytes :: u32) in
      if payload_len > peer_payload_limit kind
      then Err (PE_PayloadTooLarge payload_len (peer_payload_limit kind)) else
      obind (ok_or (PE_PayloadTooLarge payload_len MAX_PEER_PAYLOAD_BYTES) (usize_add PEER_FRAME_HEADER_BYTES payload_len))
        (\<lambda>expected_len.
      if length bytes < expected_len then Err (PE_Truncated expected_len (length bytes))
      else if length bytes > expected_len then Err (PE_TrailingBytes (length bytes - expected_len)) else
      obind (slice_or_panic bytes PEER_FRAME_HEADER_BYTES (length bytes)) (\<lambda>payload.
      obind (decode_message C kind payload net) (\<lambda>message.
      Ok \<lparr>pf_sequence = from_le_bytes sequence_bytes, pf_message = message\<rparr>))))))))))"

definition validate_frame_header :: "byte list \<Rightarrow> (peer_error, unit) outcome" where
  "validate_frame_header header =
     (if length header \<noteq> PEER_FRAME_HEADER_BYTES then Err (PE_Truncated PEER_FRAME_HEADER_BYTES (length header)) else
      obind (slice_or_panic header 0 4) (\<lambda>magic.
      if magic \<noteq> PEER_MAGIC then Err PE_InvalidMagic else
      obind (slice_or_panic header 4 6) (\<lambda>version_bytes.
      let version = from_le_bytes version_bytes in
      if version \<noteq> PEER_PROTOCOL_VERSION then Err (PE_UnsupportedVersion version) else
      obind (index_or_panic header 6) (\<lambda>kind.
      if kind \<notin> {HELLO_KIND, GET_HEADERS_KIND, INVENTORY_KIND, GET_BLOCK_KIND, PEER_BLOCK_KIND, GET_MEMPOOL_KIND,
          TRANSACTION_INVENTORY_KIND, GET_TRANSACTION_KIND, PEER_TRANSACTION_KIND, SUBMIT_BLOCK_KIND,
          BLOCK_SUBMISSION_RESULT_KIND, GET_MINING_TEMPLATE_KIND, MINING_TEMPLATE_KIND}
      then Err (PE_UnknownKind kind) else
      obind (index_or_panic header 7) (\<lambda>flags.
      if flags \<noteq> 0 then Err PE_NonZeroFlags else Ok ())))))"

section \<open>Sessions\<close>

record peer_session =
  ps_local_hello :: peer_hello
  ps_remote_hello :: "peer_hello option"
  ps_hello_sent :: bool
  ps_next_outbound :: u64
  ps_next_inbound :: u64
  ps_messages_used :: u64
  ps_bytes_used :: u64
  ps_limits :: peer_limits

definition session_new :: "peer_hello \<Rightarrow> peer_limits \<Rightarrow> (peer_error, peer_session) outcome" where
  "session_new local_hello limits =
     obind (pl_validate limits) (\<lambda>_.
     obind (validate_hello local_hello) (\<lambda>_.
     Ok \<lparr>ps_local_hello = local_hello, ps_remote_hello = None, ps_hello_sent = False, ps_next_outbound = 0,
         ps_next_inbound = 0, ps_messages_used = 0, ps_bytes_used = 0, ps_limits = limits\<rparr>))"

definition handshake_complete :: "peer_session \<Rightarrow> bool" where
  "handshake_complete s \<longleftrightarrow> ps_hello_sent s \<and> ps_remote_hello s \<noteq> None"

definition ensure_budget :: "peer_session \<Rightarrow> nat \<Rightarrow> (peer_error, unit) outcome" where
  "ensure_budget s frame_len =
     obind (ok_or PE_PeerBudgetExceeded (checked_add (ps_messages_used s) 1)) (\<lambda>next_messages.
     obind (ok_or PE_PeerBudgetExceeded (checked_add (ps_bytes_used s) (word_of_nat frame_len))) (\<lambda>next_bytes.
     if next_messages > pl_max_messages_per_peer (ps_limits s) \<or> next_bytes > pl_max_bytes_per_peer (ps_limits s)
     then Err PE_PeerBudgetExceeded else Ok ()))"

definition charge :: "peer_session \<Rightarrow> nat \<Rightarrow> (peer_error, peer_session) outcome" where
  "charge s frame_len =
     (case (checked_add (ps_messages_used s) 1, checked_add (ps_bytes_used s) (word_of_nat frame_len)) of
        (Some messages, Some bytes) \<Rightarrow> Ok (s\<lparr>ps_messages_used := messages, ps_bytes_used := bytes\<rparr>)
      | _ \<Rightarrow> Panic)"

definition check_outbound :: "peer_session \<Rightarrow> peer_message \<Rightarrow> (peer_error, unit) outcome" where
  "check_outbound s m = (case m of
       PM_Hello hello \<Rightarrow>
         if ps_hello_sent s then Err PE_DuplicateHello
         else if hello \<noteq> ps_local_hello s then Err PE_WrongNetwork else Ok ()
     | _ \<Rightarrow>
         if \<not> ps_hello_sent s then Err PE_LocalHelloRequired
         else if ps_remote_hello s = None then Err PE_HandshakeRequired else Ok ())"

definition encode_outbound :: "crypto \<Rightarrow> peer_session \<Rightarrow> peer_message
    \<Rightarrow> (peer_error, byte list \<times> peer_session) outcome" where
  "encode_outbound C s m =
     obind (check_outbound s m) (\<lambda>_.
     let sequence = ps_next_outbound s in
     obind (ok_or PE_SequenceExhausted (checked_add sequence 1)) (\<lambda>next_sequence.
     obind (encode_peer_frame C \<lparr>pf_sequence = sequence, pf_message = m\<rparr>) (\<lambda>encoded.
     obind (ensure_budget s (length encoded)) (\<lambda>_.
     obind (charge s (length encoded)) (\<lambda>s.
     let s = s\<lparr>ps_next_outbound := next_sequence\<rparr>
     in Ok (encoded, if sequence = 0 then s\<lparr>ps_hello_sent := True\<rparr> else s))))))"

definition encode_hello :: "crypto \<Rightarrow> peer_session \<Rightarrow> (peer_error, byte list \<times> peer_session) outcome" where
  "encode_hello C s = encode_outbound C s (PM_Hello (ps_local_hello s))"

definition check_inbound :: "peer_session \<Rightarrow> peer_message \<Rightarrow> (peer_error, unit) outcome" where
  "check_inbound s m = (case m of
       PM_Hello hello \<Rightarrow>
         if ps_remote_hello s \<noteq> None then Err PE_DuplicateHello
         else if ph_consensus_fingerprint hello \<noteq> ph_consensus_fingerprint (ps_local_hello s)
           then Err PE_WrongConsensusFingerprint
         else if ph_node_nonce hello = ph_node_nonce (ps_local_hello s) then Err PE_SelfConnect else Ok ()
     | _ \<Rightarrow>
         if ps_remote_hello s = None then Err PE_RemoteHelloRequired
         else if \<not> ps_hello_sent s then Err PE_HandshakeRequired else Ok ())"

definition accept_inbound :: "crypto \<Rightarrow> peer_session \<Rightarrow> byte list
    \<Rightarrow> (peer_error, peer_message \<times> peer_session) outcome" where
  "accept_inbound C s bytes =
     obind (ensure_budget s (length bytes)) (\<lambda>_.
     obind (decode_peer_frame C bytes (ph_network_id (ps_local_hello s))) (\<lambda>frame.
     if pf_sequence frame \<noteq> ps_next_inbound s
     then Err (PE_UnexpectedSequence (ps_next_inbound s) (pf_sequence frame)) else
     obind (ok_or PE_SequenceExhausted (checked_add (ps_next_inbound s) 1)) (\<lambda>next_sequence.
     obind (check_inbound s (pf_message frame)) (\<lambda>_.
     obind (charge s (length bytes)) (\<lambda>s.
     let s = s\<lparr>ps_next_inbound := next_sequence\<rparr>
     in Ok (pf_message frame, case pf_message frame of PM_Hello hello \<Rightarrow> s\<lparr>ps_remote_hello := Some hello\<rparr> | _ \<Rightarrow> s))))))"

section \<open>The planner\<close>

record chain_summary =
  sy_tip :: hash32
  sy_height :: u64
  sy_cumulative_work :: chain_work

datatype sync_plan =
    SP_UpToDate
  | SP_RequestInventory "hash32 list" hash32
  | SP_RequestBlock hash32
  | SP_AwaitInventory
  | SP_ForkChoiceRequired

text \<open>\<open>ChainWork\<close> compares its 64 bytes lexicographically.\<close>

definition plan_initial_sync :: "chain_summary \<Rightarrow> peer_hello \<Rightarrow> hash32 list \<Rightarrow> (peer_error, sync_plan) outcome" where
  "plan_initial_sync own remote locator =
     (if lex_le (ph_cumulative_work remote) (sy_cumulative_work own) then Ok SP_UpToDate
      else if ph_height remote \<le> sy_height own then Ok SP_ForkChoiceRequired
      else obind (validate_identifiers locator MAX_HEADER_LOCATORS ''header locator'' True) (\<lambda>_.
        Ok (SP_RequestInventory locator (ph_tip remote))))"

definition plan_inventory_sync :: "chain_summary \<Rightarrow> peer_hello \<Rightarrow> hash32 list \<Rightarrow> (peer_error, sync_plan) outcome" where
  "plan_inventory_sync own remote block_ids =
     (if lex_le (ph_cumulative_work remote) (sy_cumulative_work own) then Ok SP_UpToDate
      else if ph_height remote \<le> sy_height own then Ok SP_ForkChoiceRequired
      else obind (validate_identifiers block_ids MAX_INVENTORY_ITEMS ''inventory'' False) (\<lambda>_.
        case block_ids of
          [] \<Rightarrow> Ok SP_AwaitInventory
        | bid # _ \<Rightarrow> if bid = sy_tip own then Ok SP_ForkChoiceRequired else Ok (SP_RequestBlock bid)))"

section \<open>What reading a payload does\<close>

named_theorems payload_simps \<open>effect of the primitive reads of a payload\<close>

lemma pr_take_Ok [payload_simps]:
  "pr_take n r = Ok (bs, r') \<longleftrightarrow> length bs = n \<and> starts r bs \<and> r' = skip n r"
  by (auto simp: pr_take_def usize_add_def slice_or_panic_def starts_def skip_def)

lemma pr_array_Ok [payload_simps]:
  "pr_array n r = Ok (bs, r') \<longleftrightarrow> length bs = n \<and> starts r bs \<and> r' = skip n r"
  by (simp add: pr_array_def pr_take_Ok)

lemma le16_bytes_iff:
  "length bs = 2 \<and> starts r bs \<and> from_le_bytes bs = (x :: u16) \<longleftrightarrow> bs = to_le_bytes x \<and> starts r (to_le_bytes x)"
  by (auto simp: to_from_le_widths)

lemma pr_word_Ok [payload_simps]:
  "pr_u8 r = Ok (b, r') \<longleftrightarrow> starts r [b] \<and> r' = skip 1 r"
  "pr_u16 r = Ok (x, r') \<longleftrightarrow> starts r (to_le_bytes x) \<and> r' = skip 2 r"
  "pr_u32 r = Ok (y, r') \<longleftrightarrow> starts r (to_le_bytes y) \<and> r' = skip 4 r"
  "pr_u64 r = Ok (z, r') \<longleftrightarrow> starts r (to_le_bytes z) \<and> r' = skip 8 r"
proof -
  show "pr_u8 r = Ok (b, r') \<longleftrightarrow> starts r [b] \<and> r' = skip 1 r"
    by (auto simp: pr_u8_def payload_simps length_Suc_conv index_or_panic_def)
  have "pr_u16 r = Ok (x, r') \<longleftrightarrow> (\<exists>bs. (length bs = 2 \<and> starts r bs \<and> from_le_bytes bs = x) \<and> r' = skip 2 r)"
    by (auto simp: pr_u16_def payload_simps)
  then show "pr_u16 r = Ok (x, r') \<longleftrightarrow> starts r (to_le_bytes x) \<and> r' = skip 2 r" unfolding le16_bytes_iff by blast
  have "pr_u32 r = Ok (y, r') \<longleftrightarrow> (\<exists>bs. (length bs = 4 \<and> starts r bs \<and> from_le_bytes bs = y) \<and> r' = skip 4 r)"
    by (auto simp: pr_u32_def payload_simps)
  then show "pr_u32 r = Ok (y, r') \<longleftrightarrow> starts r (to_le_bytes y) \<and> r' = skip 4 r" unfolding le_bytes_iff by blast
  have "pr_u64 r = Ok (z, r') \<longleftrightarrow> (\<exists>bs. (length bs = 8 \<and> starts r bs \<and> from_le_bytes bs = z) \<and> r' = skip 8 r)"
    by (auto simp: pr_u64_def payload_simps)
  then show "pr_u64 r = Ok (z, r') \<longleftrightarrow> starts r (to_le_bytes z) \<and> r' = skip 8 r" unfolding le_bytes_iff by blast
qed

lemma pr_finish_Ok [payload_simps]: "pr_finish r = Ok () \<longleftrightarrow> rd_offset r = length (rd_bytes r)"
  by (auto simp: pr_finish_def usize_sub_or_panic_def split: if_splits)

text \<open>Reading exactly \<open>bs\<close> from a fresh reader and finishing means that \<open>bs\<close> is the whole payload.\<close>

lemma payload_whole:
  "starts (reader_new p) bs \<and> rd_offset (skip (length bs) (reader_new p)) = length (rd_bytes (skip (length bs) (reader_new p)))
     \<longleftrightarrow> p = bs \<and> length bs < usize_limit"
  using finish_new [of p bs] by (simp add: rd_finish_Ok)

section \<open>Elements of payloads\<close>

lemma pr_take_safe [safe_intros]: "safe_reader (pr_take n)"
  by (auto simp: safe_reader_def pr_take_Ok ok_reader_skip)
    (auto simp: pr_take_def usize_add_def slice_or_panic_def ok_reader_def)

lemma pr_array_safe [safe_intros]: "safe_reader (pr_array n)"
  using pr_take_safe [of n] by (simp add: safe_reader_def pr_array_def)

lemma pr_words_safe [safe_intros]: "safe_reader pr_u16" "safe_reader pr_u32" "safe_reader pr_u64"
  unfolding pr_u16_def [abs_def] pr_u32_def [abs_def] pr_u64_def [abs_def] by (intro safe_intros)+

lemma pr_u8_safe [safe_intros]: "safe_reader pr_u8"
proof -
  have "returns (pr_u8 r)" if "ok_reader r" for r
    unfolding pr_u8_def
    by (rule returns_obind) (use pr_take_safe that in \<open>auto simp: safe_reader_def pr_take_Ok\<close>)
  then show ?thesis by (auto simp: safe_reader_def pr_word_Ok ok_reader_skip)
qed

lemma pr_finish_closing [closing_intros]: "returns m \<Longrightarrow> closing (\<lambda>r. obind (pr_finish r) (\<lambda>_. m))"
  by (auto simp: closing_def pr_finish_def ok_reader_def intro!: returns_obind)

text \<open>
  The contract of a reading function for an element: it accepts exactly the encodings of readable
  values, and on a reader inside its payload it returns.
\<close>

locale payload_element =
  fixes readable :: "'a \<Rightarrow> bool" and raw :: "'a \<Rightarrow> byte list"
    and get :: "reader \<Rightarrow> (peer_error, 'a \<times> reader) outcome"
  assumes get_iff: "get r = Ok (a, r') \<longleftrightarrow> readable a \<and> starts r (raw a) \<and> r' = skip (length (raw a)) r"
    and get_safe: "safe_reader get"
begin

lemma get_all_iff:
  "starts r [] \<Longrightarrow> read_many get n r = Ok (xs, r') \<longleftrightarrow> length xs = n \<and> list_all readable xs \<and>
     starts r (concat (map raw xs)) \<and> r' = skip (length (concat (map raw xs))) r"
proof (induction n arbitrary: r xs)
  case 0
  then show ?case by auto
next
  case (Suc n)
  have "read_many get (Suc n) r = Ok (xs, r') \<longleftrightarrow> (\<exists>y ys. xs = y # ys \<and> readable y \<and> starts r (raw y) \<and>
      read_many get n (skip (length (raw y)) r) = Ok (ys, r'))"
    by (auto simp: get_iff)
  also have "\<dots> \<longleftrightarrow> (\<exists>y ys. xs = y # ys \<and> readable y \<and> starts r (raw y) \<and> length ys = n \<and> list_all readable ys \<and>
      starts (skip (length (raw y)) r) (concat (map raw ys)) \<and>
      r' = skip (length (concat (map raw ys))) (skip (length (raw y)) r))"
    using Suc.IH starts_end by blast
  finally show ?case by (auto simp: starts_append length_Suc_conv)
qed

text \<open>A count of any width, its bound, and the elements.\<close>

lemma counted_iff:
  fixes cnt :: "reader \<Rightarrow> (peer_error, 'w::len word \<times> reader) outcome"
  assumes cnt: "\<And>x r1. cnt r = Ok (x, r1) \<longleftrightarrow> starts r (to_le_bytes x) \<and> r1 = skip (LENGTH('w) div 8) r"
    and m: "m < 2 ^ LENGTH('w)"
  shows "(\<exists>x r1. cnt r = Ok (x, r1) \<and> unat x \<le> m \<and> read_many get (unat x) r1 = Ok (xs, r')) \<longleftrightarrow>
    length xs \<le> m \<and> list_all readable xs \<and>
    starts r (to_le_bytes (word_of_nat (length xs) :: 'w word) @ concat (map raw xs)) \<and>
    r' = skip (LENGTH('w) div 8 + length (concat (map raw xs))) r"
proof -
  let ?w = "LENGTH('w) div 8" and ?le = "\<lambda>n. to_le_bytes (word_of_nat n :: 'w word)"
  have count: "unat (x :: 'w word) = n \<longleftrightarrow> n < 2 ^ LENGTH('w) \<and> x = word_of_nat n" for x n
    using unsigned_less [of x, where ?'a = nat] by (auto simp: unat_of_nat)
  have "(\<exists>x r1. cnt r = Ok (x, r1) \<and> unat x \<le> m \<and> read_many get (unat x) r1 = Ok (xs, r')) \<longleftrightarrow>
      (\<exists>n x. unat x = n \<and> n \<le> m \<and> starts r (to_le_bytes (x :: 'w word)) \<and> read_many get n (skip ?w r) = Ok (xs, r'))"
    by (auto simp: cnt)
  also have "\<dots> \<longleftrightarrow> (\<exists>n. n \<le> m \<and> starts r (?le n) \<and> read_many get n (skip ?w r) = Ok (xs, r'))"
    unfolding count using m by (auto intro: order_le_less_trans)
  also have "\<dots> \<longleftrightarrow> (\<exists>n. n \<le> m \<and> starts r (?le n) \<and> length xs = n \<and> list_all readable xs \<and>
      starts (skip ?w r) (concat (map raw xs)) \<and> r' = skip (length (concat (map raw xs))) (skip ?w r))"
  proof -
    have "starts (skip ?w r) []" if "starts r (?le n)" for n using starts_end [OF that] by simp
    then show ?thesis using get_all_iff [of "skip ?w r" _ xs r'] by blast
  qed
  finally show ?thesis by (auto simp: stream_append)
qed

end

lemma le_byte: "to_le_bytes (x :: u8) = [x]"
  using unsigned_less [of x, where ?'a = nat] by (simp add: to_le_bytes_def)

interpretation ident_element: payload_element "\<lambda>i. length i = 32" "\<lambda>i. i" "pr_array 32"
  by unfold_locales (auto simp: payload_simps intro: safe_intros)

lemma decode_template_lock_Ok:
  "decode_template_lock tag r = Ok (l, r') \<longleftrightarrow> wf_lock l \<and> tag = hd (lock_bytes l) \<and>
     starts r (tl (lock_bytes l)) \<and> r' = skip 32 r"
  by (cases l) (auto simp: decode_template_lock_def payload_simps lock_bytes_def wf_lock_def split: if_splits)

lemma template_lock_get_iff:
  "(\<exists>tag r1. pr_u8 r = Ok (tag, r1) \<and> decode_template_lock tag r1 = Ok (l, r')) \<longleftrightarrow>
     wf_lock l \<and> starts r (lock_bytes l) \<and> r' = skip (length (lock_bytes l)) r"
  by (cases l) (auto simp: payload_simps decode_template_lock_Ok lock_bytes_def wf_lock_def stream_append)

lemma template_output_bytes:
  "encode_template_output a = to_le_bytes (to_value a) @ lock_bytes (to_lock a) @ to_le_bytes (to_spendable_height a)"
  by (simp add: encode_template_output_def lock_bytes_def split: output_lock.splits)

interpretation template_output: payload_element wf_output encode_template_output decode_template_output
proof unfold_locales
  show "decode_template_output r = Ok (a, r') \<longleftrightarrow> wf_output a \<and> starts r (encode_template_output a) \<and>
      r' = skip (length (encode_template_output a)) r" for r a r'
  proof -
    have "decode_template_output r = Ok (a, r') \<longleftrightarrow> (\<exists>r2. starts r (to_le_bytes (to_value a)) \<and>
        (\<exists>tag r1. pr_u8 (skip 8 r) = Ok (tag, r1) \<and> decode_template_lock tag r1 = Ok (to_lock a, r2)) \<and>
        starts r2 (to_le_bytes (to_spendable_height a)) \<and> r' = skip 8 r2)"
      by (cases a) (auto simp: decode_template_output_def payload_simps)
    then show ?thesis unfolding template_lock_get_iff
      by (auto simp: template_output_bytes wf_output_def stream_append add.assoc)
  qed
  show "safe_reader decode_template_output"
    unfolding decode_template_output_def [abs_def] decode_template_lock_def [abs_def] by (intro safe_intros)
qed

interpretation template_challenge: payload_element "\<lambda>c. wf_challenge c \<and> bc_network_id c = net" encode_block_challenge
  "decode_block_challenge net" for net
proof unfold_locales
  show "decode_block_challenge net r = Ok (a, r') \<longleftrightarrow> (wf_challenge a \<and> bc_network_id a = net) \<and>
      starts r (encode_block_challenge a) \<and> r' = skip (length (encode_block_challenge a)) r" for r a r'
    by (cases a) (auto simp: decode_block_challenge_def payload_simps encode_block_challenge_def wf_challenge_def stream_append)
  show "safe_reader (decode_block_challenge net)"
    unfolding decode_block_challenge_def [abs_def] by (intro safe_intros)
qed

section \<open>Mining templates\<close>

definition template_tx_bytes :: "crypto \<Rightarrow> transaction \<Rightarrow> byte list" where
  "template_tx_bytes C t = (let f = frame_bytes C TRANSACTION_KIND (tx_network_id t) (tx_payload t) in le32 (length f) @ f)"

definition encodable_tx :: "transaction \<Rightarrow> bool" where
  "encodable_tx t \<longleftrightarrow> tx_shape (tx_network_id t) t \<and> tx_size_ok t"

lemma encodable_tx_iff:
  "encode_transaction C t = Ok bs \<longleftrightarrow> encodable_tx t \<and> bs = frame_bytes C TRANSACTION_KIND (tx_network_id t) (tx_payload t)"
  by (auto simp: encode_transaction_Ok encodable_tx_def)

lemma encodable_tx_length:
  "crypto_ok C \<Longrightarrow> encodable_tx t \<Longrightarrow> length (frame_bytes C TRANSACTION_KIND (tx_network_id t) (tx_payload t)) \<le> 65536"
  by (simp add: encodable_tx_def tx_size_ok_def length_frame_bytes)

lemma put_template_transaction_Ok:
  assumes "crypto_ok C"
  shows "put_template_transaction C p t = Ok q \<longleftrightarrow> encodable_tx t \<and> q = p @ template_tx_bytes C t"
  using encodable_tx_length [OF assms, of t]
  by (auto simp: put_template_transaction_def encodable_tx_iff template_tx_bytes_def Let_def)

lemma put_template_transactions_Ok:
  assumes "crypto_ok C"
  shows "ofold (put_template_transaction C) p ts = Ok q \<longleftrightarrow>
    list_all encodable_tx ts \<and> q = p @ concat (map (template_tx_bytes C) ts)"
  by (induction ts arbitrary: p) (auto simp: put_template_transaction_Ok [OF assms])

lemma decode_peer_transaction_returns: "crypto_ok C \<Longrightarrow> returns (decode_peer_transaction C p net)"
  unfolding decode_peer_transaction_def using decode_transaction_returns [of p C net]
  by (auto simp: wire_limits decode_transaction_Ok intro!: returns_obind)

lemma template_tx_element:
  assumes "crypto_ok C"
  shows "payload_element (\<lambda>t. tx_network_id t = net \<and> wf_transaction t \<and> encodable_tx t) (template_tx_bytes C)
    (get_template_transaction C net)"
proof unfold_locales
  fix r t r'
  let ?f = "frame_bytes C TRANSACTION_KIND (tx_network_id t) (tx_payload t)"
  have "get_template_transaction C net r = Ok (t, r') \<longleftrightarrow> (\<exists>n. unat (n :: u32) = length ?f \<and> length ?f \<le> 65536 \<and>
      tx_network_id t = net \<and> wf_transaction t \<and> encodable_tx t \<and> starts r (to_le_bytes n) \<and>
      starts (skip 4 r) ?f \<and> r' = skip (4 + length ?f) r)"
    by (auto simp: get_template_transaction_def payload_simps decode_transaction_Ok [OF assms] encodable_tx_iff wire_limits
        split: if_splits)
  then show "get_template_transaction C net r = Ok (t, r') \<longleftrightarrow>
      (tx_network_id t = net \<and> wf_transaction t \<and> encodable_tx t) \<and> starts r (template_tx_bytes C t) \<and>
      r' = skip (length (template_tx_bytes C t)) r"
    unfolding unat_u32_iff using encodable_tx_length [OF assms, of t]
    by (auto simp: template_tx_bytes_def Let_def stream_append)
next
  have again: "length e \<le> MAX_TRANSACTION_BYTES \<Longrightarrow>
      obind (map_err PE_ConsensusWire (decode_transaction C e net)) (\<lambda>t.
      obind (map_err PE_ConsensusWire (encode_transaction C t)) (\<lambda>x.
      if x \<noteq> e then Err PE_NonCanonicalTransaction else Ok (t, r))) =
      obind (decode_peer_transaction C e net) (\<lambda>t. Ok (t, r))" for e and r :: reader
    unfolding decode_peer_transaction_def by (simp add: obind_assoc) (intro obind_cong refl, simp)
  have "get_template_transaction C net r = obind (pr_u32 r) (\<lambda>(n, r).
      if unat n > MAX_TRANSACTION_BYTES then Err (PE_PayloadTooLarge (unat n) MAX_TRANSACTION_BYTES)
      else obind (pr_take (unat n) r) (\<lambda>(encoded, r). obind (decode_peer_transaction C encoded net) (\<lambda>t. Ok (t, r))))" for r
    unfolding get_template_transaction_def
    by (rule obind_cong [OF refl], simp split: prod.splits, intro allI impI, rule obind_cong [OF refl])
      (auto simp: payload_simps again)
  then have "get_template_transaction C net = (\<lambda>r. obind (pr_u32 r) (\<lambda>(n, r).
      if unat n > MAX_TRANSACTION_BYTES then Err (PE_PayloadTooLarge (unat n) MAX_TRANSACTION_BYTES)
      else obind (pr_take (unat n) r) (\<lambda>(encoded, r). obind (decode_peer_transaction C encoded net) (\<lambda>t. Ok (t, r)))))"
    by (rule ext)
  moreover have "safe_reader \<dots>" by (intro safe_intros decode_peer_transaction_returns assms)
  ultimately show "safe_reader (get_template_transaction C net)" by simp
qed

definition template_bytes :: "crypto \<Rightarrow> mining_template \<Rightarrow> byte list" where
  "template_bytes C t = encode_block_challenge (mt_challenge t) @ to_le_bytes (cb_height (mt_coinbase t)) @
     (to_le_bytes (word_of_nat (length (cb_outputs (mt_coinbase t))) :: u8) @
      concat (map encode_template_output (cb_outputs (mt_coinbase t)))) @
     (le16 (length (mt_transactions t)) @ concat (map (template_tx_bytes C) (mt_transactions t)))"

definition wf_template :: "hash32 \<Rightarrow> mining_template \<Rightarrow> bool" where
  "wf_template net t \<longleftrightarrow> wf_challenge (mt_challenge t) \<and> bc_network_id (mt_challenge t) = net \<and>
     list_all wf_output (cb_outputs (mt_coinbase t)) \<and> list_all wf_transaction (mt_transactions t)"

lemma encode_mining_template_Ok:
  assumes "crypto_ok C"
  shows "encode_mining_template C t = Ok p \<longleftrightarrow>
    validate_mining_template C t (bc_network_id (mt_challenge t)) = Ok () \<and> list_all encodable_tx (mt_transactions t) \<and>
    p = template_bytes C t"
  by (auto simp: encode_mining_template_def put_template_transactions_Ok [OF assms] template_bytes_def le_byte)

lemma decode_mining_template_split:
  "decode_mining_template C p net = Ok t \<longleftrightarrow> (\<exists>r1 r2 r3 r4.
     decode_block_challenge net (reader_new p) = Ok (mt_challenge t, r1) \<and>
     pr_u64 r1 = Ok (cb_height (mt_coinbase t), r2) \<and>
     (\<exists>x r. pr_u8 r2 = Ok (x, r) \<and> unat x \<le> MAX_COINBASE_OUTPUTS \<and>
        read_many decode_template_output (unat x) r = Ok (cb_outputs (mt_coinbase t), r3)) \<and>
     (\<exists>x r. pr_u16 r3 = Ok (x, r) \<and> unat x \<le> MAX_BLOCK_TRANSACTIONS \<and>
        read_many (get_template_transaction C net) (unat x) r = Ok (mt_transactions t, r4)) \<and>
     pr_finish r4 = Ok () \<and> validate_mining_template C t net = Ok ())"
  (is "_ \<longleftrightarrow> ?R")
proof
  assume "decode_mining_template C p net = Ok t"
  then show ?R by (auto simp: decode_mining_template_def Let_def not_less)
next
  assume ?R
  then show "decode_mining_template C p net = Ok t"
    by (cases t, cases "mt_coinbase t") (auto simp: decode_mining_template_def Let_def)
qed

lemma decode_mining_template_Ok:
  assumes "crypto_ok C"
  shows "decode_mining_template C p net = Ok t \<longleftrightarrow>
    wf_template net t \<and> encode_mining_template C t = Ok p \<and> length p < usize_limit"
proof -
  have u8: "\<And>x r1. pr_u8 r = Ok (x, r1) \<longleftrightarrow> starts r (to_le_bytes x) \<and> r1 = skip (LENGTH(8) div 8) r" for r
    by (simp add: payload_simps le_byte)
  have u16: "\<And>x r1. pr_u16 r = Ok (x, r1) \<longleftrightarrow> starts r (to_le_bytes x) \<and> r1 = skip (LENGTH(16) div 8) r" for r
    by (simp add: payload_simps)
  have max: "MAX_COINBASE_OUTPUTS < 2 ^ LENGTH(8)" "MAX_BLOCK_TRANSACTIONS < 2 ^ LENGTH(16)"
    by (simp_all add: wire_limits MAX_COINBASE_OUTPUTS_def)
  let ?c = "encode_block_challenge (mt_challenge t)" and ?txs = "mt_transactions t"
  have v: "validate_mining_template C t net = Ok () \<Longrightarrow> bc_network_id (mt_challenge t) = net \<and>
      length (cb_outputs (mt_coinbase t)) \<le> MAX_COINBASE_OUTPUTS \<and> length ?txs \<le> MAX_BLOCK_TRANSACTIONS \<and>
      list_all (\<lambda>x. tx_network_id x = net) ?txs"
    by (auto simp: validate_mining_template_def list_all_iff list_ex_iff split: if_splits)
  have outs: "(\<exists>x r. pr_u8 r2 = Ok (x, r) \<and> unat x \<le> MAX_COINBASE_OUTPUTS \<and>
        read_many decode_template_output (unat x) r = Ok (xs, r3)) \<longleftrightarrow>
      length xs \<le> MAX_COINBASE_OUTPUTS \<and> list_all wf_output xs \<and>
      starts r2 (to_le_bytes (word_of_nat (length xs) :: u8) @ concat (map encode_template_output xs)) \<and>
      r3 = skip (1 + length (concat (map encode_template_output xs))) r2" for r2 xs r3
    using template_output.counted_iff [of pr_u8 r2 MAX_COINBASE_OUTPUTS xs r3, OF u8 max(1)] by simp
  have txs: "(\<exists>x r. pr_u16 r3 = Ok (x, r) \<and> unat x \<le> MAX_BLOCK_TRANSACTIONS \<and>
        read_many (get_template_transaction C net) (unat x) r = Ok (xs, r4)) \<longleftrightarrow>
      length xs \<le> MAX_BLOCK_TRANSACTIONS \<and> list_all (\<lambda>t. tx_network_id t = net \<and> wf_transaction t \<and> encodable_tx t) xs \<and>
      starts r3 (le16 (length xs) @ concat (map (template_tx_bytes C) xs)) \<and>
      r4 = skip (2 + length (concat (map (template_tx_bytes C) xs))) r3" for r3 xs r4
    using payload_element.counted_iff [OF template_tx_element [OF assms], of pr_u16 r3 MAX_BLOCK_TRANSACTIONS net xs r4, OF u16 max(2)] by simp
  have "decode_mining_template C p net = Ok t \<longleftrightarrow> wf_template net t \<and> validate_mining_template C t net = Ok () \<and>
      list_all encodable_tx ?txs \<and> starts (reader_new p) (template_bytes C t) \<and>
      pr_finish (skip (length (template_bytes C t)) (reader_new p)) = Ok ()"
    unfolding decode_mining_template_split template_challenge.get_iff pr_word_Ok(4) outs txs
    using v by (auto simp: wf_template_def template_bytes_def stream_append add.assoc add.commute add.left_commute list_all_iff)
  then show ?thesis
    unfolding encode_mining_template_Ok [OF assms] pr_finish_Ok payload_whole by (auto simp: wf_template_def)
qed

section \<open>Messages and frames\<close>

definition wf_hello :: "peer_hello \<Rightarrow> bool" where
  "wf_hello h \<longleftrightarrow> length (ph_network_id h) = 32 \<and> length (ph_consensus_fingerprint h) = 32 \<and>
     length (ph_node_nonce h) = 32 \<and> length (ph_tip h) = 32 \<and> length (ph_cumulative_work h) = 64"

text \<open>The arrays of a message have their lengths, and what it carries belongs to the network.\<close>

definition wf_message :: "hash32 \<Rightarrow> peer_message \<Rightarrow> bool" where
  "wf_message net m = (case m of
       PM_Hello h \<Rightarrow> wf_hello h \<and> ph_network_id h = net
     | PM_GetHeaders locator stop \<Rightarrow> list_all (\<lambda>i. length i = 32) locator \<and> length stop = 32
     | PM_Inventory ids \<Rightarrow> list_all (\<lambda>i. length i = 32) ids
     | PM_GetBlock i \<Rightarrow> length i = 32
     | PM_Block b \<Rightarrow> wf_block b \<and> bc_network_id (bl_challenge b) = net
     | PM_SubmitBlock b \<Rightarrow> wf_block b \<and> bc_network_id (bl_challenge b) = net
     | PM_BlockSubmissionResult r \<Rightarrow> length (sr_block_id r) = 32 \<and> length (sr_peer_tip r) = 32
     | PM_GetMempool \<Rightarrow> True
     | PM_TransactionInventory ids \<Rightarrow> list_all (\<lambda>i. length i = 32) ids
     | PM_GetTransaction i \<Rightarrow> length i = 32
     | PM_Transaction t \<Rightarrow> wf_transaction t \<and> tx_network_id t = net
     | PM_GetMiningTemplate i \<Rightarrow> length i = 32
     | PM_MiningTemplate t \<Rightarrow> wf_template net t)"

lemma validate_identifiers_Ok [simp]:
  "validate_identifiers ids m f ne = Ok () \<longleftrightarrow> (ne \<longrightarrow> ids \<noteq> []) \<and> length ids \<le> m \<and> distinct ids"
  by (auto simp: validate_identifiers_def)

lemma decode_hello_Ok:
  "decode_hello p net = Ok h \<longleftrightarrow> wf_hello h \<and> ph_network_id h = net \<and> length p < usize_limit \<and>
     encode_message C (PM_Hello h) = Ok (HELLO_KIND, p)"
proof -
  let ?b = "ph_network_id h @ ph_consensus_fingerprint h @ ph_node_nonce h @ ph_tip h @ to_le_bytes (ph_height h) @
    ph_cumulative_work h"
  have "decode_hello p net = Ok h \<longleftrightarrow> wf_hello h \<and> ph_network_id h = net \<and> validate_hello h = Ok () \<and>
      starts (reader_new p) ?b \<and> pr_finish (skip (length ?b) (reader_new p)) = Ok ()"
    by (cases h) (auto simp: decode_hello_def payload_simps wf_hello_def stream_append Let_def)
  then show ?thesis unfolding pr_finish_Ok payload_whole by (auto simp: encode_message_def)
qed

lemma decode_inventory_Ok:
  "decode_inventory f p = Ok ids \<longleftrightarrow> list_all (\<lambda>i. length i = 32) ids \<and> length p < usize_limit \<and>
     length ids \<le> MAX_INVENTORY_ITEMS \<and> distinct ids \<and> p = le16 (length ids) @ concat ids"
proof -
  have u16: "\<And>x r1. pr_u16 r = Ok (x, r1) \<longleftrightarrow> starts r (to_le_bytes x) \<and> r1 = skip (LENGTH(16) div 8) r" for r
    by (simp add: payload_simps)
  have max: "MAX_INVENTORY_ITEMS < 2 ^ LENGTH(16)" by (simp add: MAX_INVENTORY_ITEMS_def)
  have "decode_inventory f p = Ok ids \<longleftrightarrow> (\<exists>r'. (\<exists>x r. pr_u16 (reader_new p) = Ok (x, r) \<and>
      unat x \<le> MAX_INVENTORY_ITEMS \<and> read_many (pr_array 32) (unat x) r = Ok (ids, r')) \<and> pr_finish r' = Ok () \<and>
      length ids \<le> MAX_INVENTORY_ITEMS \<and> distinct ids)"
    by (auto simp: decode_inventory_def not_less)
  also have "\<dots> \<longleftrightarrow> length ids \<le> MAX_INVENTORY_ITEMS \<and> list_all (\<lambda>i. length i = 32) ids \<and> distinct ids \<and>
      starts (reader_new p) (le16 (length ids) @ concat ids) \<and>
      pr_finish (skip (length (le16 (length ids) @ concat ids)) (reader_new p)) = Ok ()"
    using ident_element.counted_iff [of pr_u16 "reader_new p" MAX_INVENTORY_ITEMS ids, OF u16 max] by auto
  finally show ?thesis unfolding pr_finish_Ok payload_whole by auto
qed

lemma decode_get_headers_Ok:
  "decode_get_headers p = Ok (locator, stop) \<longleftrightarrow> list_all (\<lambda>i. length i = 32) locator \<and> length stop = 32 \<and>
     length p < usize_limit \<and> locator \<noteq> [] \<and> length locator \<le> MAX_HEADER_LOCATORS \<and> distinct locator \<and>
     p = le16 (length locator) @ concat locator @ stop"
proof -
  let ?b = "le16 (length locator) @ concat locator @ stop"
  have u16: "\<And>x r1. pr_u16 r = Ok (x, r1) \<longleftrightarrow> starts r (to_le_bytes x) \<and> r1 = skip (LENGTH(16) div 8) r" for r
    by (simp add: payload_simps)
  have max: "MAX_HEADER_LOCATORS < 2 ^ LENGTH(16)" by (simp add: MAX_HEADER_LOCATORS_def)
  have ne: "read_many (pr_array 32) (unat x) r = Ok (locator, r') \<Longrightarrow> x = 0 \<longleftrightarrow> locator = []" for x :: u16 and r r'
    by (cases "unat x") (auto simp: unat_eq_0)
  have "decode_get_headers p = Ok (locator, stop) \<longleftrightarrow> (\<exists>r'. (\<exists>x r. pr_u16 (reader_new p) = Ok (x, r) \<and>
      unat x \<le> MAX_HEADER_LOCATORS \<and> read_many (pr_array 32) (unat x) r = Ok (locator, r')) \<and> length stop = 32 \<and>
      starts r' stop \<and> pr_finish (skip 32 r') = Ok () \<and>
      locator \<noteq> [] \<and> length locator \<le> MAX_HEADER_LOCATORS \<and> distinct locator)"
    using ne by (auto simp: decode_get_headers_def not_less payload_simps(2))
  also have "\<dots> \<longleftrightarrow> locator \<noteq> [] \<and> length locator \<le> MAX_HEADER_LOCATORS \<and> list_all (\<lambda>i. length i = 32) locator \<and>
      length stop = 32 \<and> distinct locator \<and> starts (reader_new p) ?b \<and> pr_finish (skip (length ?b) (reader_new p)) = Ok ()"
    using ident_element.counted_iff [of pr_u16 "reader_new p" MAX_HEADER_LOCATORS locator, OF u16 max]
    by (auto simp: stream_append add.commute add.left_commute)
  finally show ?thesis unfolding pr_finish_Ok payload_whole by auto
qed

lemma decode_identifier_Ok: "decode_identifier p = Ok i \<longleftrightarrow> length i = 32 \<and> p = i"
proof -
  have "decode_identifier p = Ok i \<longleftrightarrow> length i = 32 \<and> starts (reader_new p) i \<and>
      pr_finish (skip (length i) (reader_new p)) = Ok ()"
    by (auto simp: decode_identifier_def payload_simps(2))
  then show ?thesis unfolding pr_finish_Ok payload_whole by auto
qed

lemma status_from_byte_Ok: "status_from_byte v = Ok s \<longleftrightarrow> v = status_byte s"
  by (cases s) (auto simp: status_from_byte_def status_byte_def)

lemma decode_submission_result_Ok:
  "decode_submission_result p = Ok r \<longleftrightarrow> length (sr_block_id r) = 32 \<and> length (sr_peer_tip r) = 32 \<and>
     p = sr_block_id r @ [status_byte (sr_status r)] @ to_le_bytes (sr_peer_height r) @ sr_peer_tip r"
proof -
  let ?b = "sr_block_id r @ [status_byte (sr_status r)] @ to_le_bytes (sr_peer_height r) @ sr_peer_tip r"
  have "decode_submission_result p = Ok r \<longleftrightarrow> length (sr_block_id r) = 32 \<and> length (sr_peer_tip r) = 32 \<and>
      starts (reader_new p) ?b \<and> pr_finish (skip (length ?b) (reader_new p)) = Ok ()"
    by (cases r) (auto simp: decode_submission_result_def payload_simps(1-6) status_from_byte_Ok stream_append)
  then show ?thesis unfolding pr_finish_Ok payload_whole by auto
qed

lemma decode_peer_block_Ok:
  assumes "crypto_ok C"
  shows "decode_peer_block C p net = Ok b \<longleftrightarrow> wf_block b \<and> bc_network_id (bl_challenge b) = net \<and> encode_block C b = Ok p"
  by (auto simp: decode_peer_block_def decode_block_Ok [OF assms] encode_block_Ok)

lemma decode_peer_transaction_Ok:
  assumes "crypto_ok C"
  shows "decode_peer_transaction C p net = Ok t \<longleftrightarrow> wf_transaction t \<and> tx_network_id t = net \<and>
    encode_transaction C t = Ok p \<and> length p \<le> MAX_TRANSACTION_BYTES"
  by (auto simp: decode_peer_transaction_def decode_transaction_Ok [OF assms])

lemma encoded_block_length: "crypto_ok C \<Longrightarrow> encode_block C b = Ok p \<Longrightarrow> length p \<le> MAX_BLOCK_BYTES"
  by (auto simp: encode_block_Ok block_sizes_def length_frame_bytes wire_limits)

text \<open>Each kind byte selects one constructor and its decoder.\<close>

lemma decode_message_cases:
  "decode_message C kind p net = Ok m \<longleftrightarrow> (case m of
       PM_Hello h \<Rightarrow> kind = HELLO_KIND \<and> decode_hello p net = Ok h
     | PM_GetHeaders l s \<Rightarrow> kind = GET_HEADERS_KIND \<and> decode_get_headers p = Ok (l, s)
     | PM_Inventory ids \<Rightarrow> kind = INVENTORY_KIND \<and> decode_inventory ''inventory'' p = Ok ids
     | PM_GetBlock i \<Rightarrow> kind = GET_BLOCK_KIND \<and> decode_identifier p = Ok i
     | PM_Block b \<Rightarrow> kind = PEER_BLOCK_KIND \<and> decode_peer_block C p net = Ok b
     | PM_SubmitBlock b \<Rightarrow> kind = SUBMIT_BLOCK_KIND \<and> decode_peer_block C p net = Ok b
     | PM_BlockSubmissionResult r \<Rightarrow> kind = BLOCK_SUBMISSION_RESULT_KIND \<and> decode_submission_result p = Ok r
     | PM_GetMempool \<Rightarrow> kind = GET_MEMPOOL_KIND \<and> pr_finish (reader_new p) = Ok ()
     | PM_TransactionInventory ids \<Rightarrow>
         kind = TRANSACTION_INVENTORY_KIND \<and> decode_inventory ''transaction inventory'' p = Ok ids
     | PM_GetTransaction i \<Rightarrow> kind = GET_TRANSACTION_KIND \<and> decode_identifier p = Ok i
     | PM_Transaction t \<Rightarrow> kind = PEER_TRANSACTION_KIND \<and> decode_peer_transaction C p net = Ok t
     | PM_GetMiningTemplate i \<Rightarrow> kind = GET_MINING_TEMPLATE_KIND \<and> decode_identifier p = Ok i
     | PM_MiningTemplate t \<Rightarrow> kind = MINING_TEMPLATE_KIND \<and> decode_mining_template C p net = Ok t)"
  by (cases m) (simp_all add: decode_message_def peer_kinds case_prod_unfold)

text \<open>Decoding a payload is the inverse of encoding a message, on payloads of addressable length.\<close>

lemma decode_message_Ok:
  assumes "crypto_ok C" "length p < usize_limit"
  shows "decode_message C kind p net = Ok m \<longleftrightarrow> wf_message net m \<and> encode_message C m = Ok (kind, p)"
  unfolding decode_message_cases
  using assms(2) decode_hello_Ok [of p net _ C]
  by (cases m) (auto simp: wf_message_def decode_get_headers_Ok decode_inventory_Ok decode_identifier_Ok
      decode_peer_block_Ok [OF assms(1)] decode_submission_result_Ok decode_peer_transaction_Ok [OF assms(1)]
      decode_mining_template_Ok [OF assms(1)] pr_finish_Ok reader_new_def encode_message_def not_less)

lemma frame_header_split:
  assumes "20 \<le> length bs"
  obtains a v k fl q l p where "bs = a @ v @ [k, fl] @ q @ l @ p" "length a = 4" "length v = 2" "length q = 8" "length l = 4"
proof -
  define h where "h = take 2 (drop 6 bs)"
  have "2 = length h" using assms by (simp add: h_def)
  then obtain k fl where h: "h = [k, fl]" by (auto simp: numeral_eq_Suc Suc_length_conv length_Suc_conv)
  have "bs = take 4 bs @ take 2 (drop 4 bs) @ h @ take 8 (drop 8 bs) @ take 4 (drop 16 bs) @ drop 20 bs"
    unfolding h_def
    using append_take_drop_id [of 4 bs] append_take_drop_id [of 2 "drop 4 bs"] append_take_drop_id [of 2 "drop 6 bs"]
      append_take_drop_id [of 8 "drop 8 bs"] append_take_drop_id [of 4 "drop 16 bs"] by simp
  then show thesis unfolding h by (rule that) (use assms in simp_all)
qed

lemma twenty_plus: "20 + n = Suc (Suc (Suc (Suc (Suc (Suc (Suc (Suc (Suc (Suc (Suc (Suc (Suc (Suc (Suc (Suc (Suc (Suc (Suc (Suc n)))))))))))))))))))"
  by simp

lemma decode_peer_frame_parts:
  assumes "length a = 4" "length v = 2" "length q = 8" "length l = 4"
  shows "decode_peer_frame C (a @ v @ [k, fl] @ q @ l @ p) net = Ok f \<longleftrightarrow>
    a = PEER_MAGIC \<and> from_le_bytes v = PEER_PROTOCOL_VERSION \<and> fl = 0 \<and> length p \<le> peer_payload_limit k \<and>
    unat (from_le_bytes l :: u32) = length p \<and> 20 + length p < usize_limit \<and>
    pf_sequence f = from_le_bytes q \<and> decode_message C k p net = Ok (pf_message f)"
proof -
  obtain a0 a1 a2 a3 where a: "a = [a0, a1, a2, a3]" using assms(1) by (auto simp: numeral_eq_Suc length_Suc_conv)
  obtain v0 v1 where v: "v = [v0, v1]" using assms(2) by (auto simp: numeral_eq_Suc length_Suc_conv)
  obtain q0 q1 q2 q3 q4 q5 q6 q7 where q: "q = [q0, q1, q2, q3, q4, q5, q6, q7]"
    using assms(3) by (auto simp: numeral_eq_Suc length_Suc_conv)
  obtain l0 l1 l2 l3 where l: "l = [l0, l1, l2, l3]" using assms(4) by (auto simp: numeral_eq_Suc length_Suc_conv)
  define n where "n = unat (from_le_bytes [l0, l1, l2, l3] :: u32)"
  have "decode_peer_frame C (a @ v @ [k, fl] @ q @ l @ p) net =
    (if [a0, a1, a2, a3] \<noteq> PEER_MAGIC then Err PE_InvalidMagic
     else if from_le_bytes [v0, v1] \<noteq> PEER_PROTOCOL_VERSION then Err (PE_UnsupportedVersion (from_le_bytes [v0, v1]))
     else if fl \<noteq> 0 then Err PE_NonZeroFlags
     else if n > peer_payload_limit k then Err (PE_PayloadTooLarge n (peer_payload_limit k))
     else obind (ok_or (PE_PayloadTooLarge n MAX_PEER_PAYLOAD_BYTES) (usize_add 20 n)) (\<lambda>expected_len.
      if 20 + length p < expected_len then Err (PE_Truncated expected_len (20 + length p))
      else if 20 + length p > expected_len then Err (PE_TrailingBytes (20 + length p - expected_len)) else
      obind (decode_message C k p net) (\<lambda>m.
      Ok \<lparr>pf_sequence = from_le_bytes [q0, q1, q2, q3, q4, q5, q6, q7], pf_message = m\<rparr>)))"
    unfolding n_def
    by (simp add: a v q l decode_peer_frame_def Let_def PEER_FRAME_HEADER_BYTES_def slice_or_panic_def index_or_panic_def
        twenty_plus cong: if_cong)
  then show ?thesis unfolding a v q l n_def [symmetric]
    by (cases f) (auto simp: usize_add_def not_less)
qed

definition peer_frame_bytes :: "u8 \<Rightarrow> u64 \<Rightarrow> byte list \<Rightarrow> byte list" where
  "peer_frame_bytes kind sequence p =
     PEER_MAGIC @ to_le_bytes PEER_PROTOCOL_VERSION @ [kind, 0] @ to_le_bytes sequence @ le32 (length p) @ p"

lemma length_PEER_MAGIC [simp]: "length PEER_MAGIC = 4"
  by (simp add: PEER_MAGIC_def bytes_of_string_def)

lemma encode_peer_frame_Ok:
  "encode_peer_frame C f = Ok bs \<longleftrightarrow> (\<exists>kind p. encode_message C (pf_message f) = Ok (kind, p) \<and>
     length p \<le> MAX_PEER_PAYLOAD_BYTES \<and> bs = peer_frame_bytes kind (pf_sequence f) p)"
  by (auto simp: encode_peer_frame_def peer_frame_bytes_def MAX_PEER_PAYLOAD_BYTES_def wire_limits)

lemma encode_message_limit:
  "encode_message C m = Ok (kind, p) \<Longrightarrow> length p \<le> MAX_PEER_PAYLOAD_BYTES \<Longrightarrow> length p \<le> peer_payload_limit kind"
  by (cases m) (auto simp: encode_message_def peer_payload_limit_def peer_kinds split: if_splits)

lemma peer_frame_header:
  assumes "length a = 4" "length v = 2" "length q = 8" "length l = 4" "length p < 2 ^ 32"
  shows "a @ v @ [k, fl] @ q @ l @ p = peer_frame_bytes kind sq p' \<longleftrightarrow>
    a = PEER_MAGIC \<and> from_le_bytes v = PEER_PROTOCOL_VERSION \<and> k = kind \<and> fl = 0 \<and> from_le_bytes q = sq \<and>
    unat (from_le_bytes l :: u32) = length p \<and> p = p'"
proof -
  have w: "from_le_bytes v = (x :: u16) \<longleftrightarrow> v = to_le_bytes x" "from_le_bytes q = (y :: u64) \<longleftrightarrow> q = to_le_bytes y"
    "from_le_bytes l = (z :: u32) \<longleftrightarrow> l = to_le_bytes z" for x y z
    by (metis assms(2) to_from_le_widths(1) from_to_le_widths(1), metis assms(3) to_from_le_widths(3) from_to_le_widths(3),
        metis assms(4) to_from_le_widths(2) from_to_le_widths(2))
  have "a @ v @ [k, fl] @ q @ l @ p = peer_frame_bytes kind sq p' \<longleftrightarrow> a = PEER_MAGIC \<and> v = to_le_bytes PEER_PROTOCOL_VERSION \<and>
      k = kind \<and> fl = 0 \<and> q = to_le_bytes sq \<and> l = le32 (length p') \<and> p = p'"
    unfolding peer_frame_bytes_def using assms by (simp add: fixed_field)
  then show ?thesis unfolding unat_u32_iff w using assms(5) by auto
qed

lemma decode_peer_frame_Ok:
  assumes "crypto_ok C"
  shows "decode_peer_frame C bs net = Ok f \<longleftrightarrow> wf_message net (pf_message f) \<and> encode_peer_frame C f = Ok bs"
proof (cases "20 \<le> length bs")
  case True
  then obtain a v k fl q l p where bs: "bs = a @ v @ [k, fl] @ q @ l @ p"
    and len: "length a = 4" "length v = 2" "length q = 8" "length l = 4" by (rule frame_header_split)
  have small: "length p \<le> MAX_PEER_PAYLOAD_BYTES \<Longrightarrow> length p < 2 ^ 32" for p :: "byte list"
    by (simp add: MAX_PEER_PAYLOAD_BYTES_def wire_limits)
  have limit: "length p \<le> peer_payload_limit k \<Longrightarrow> length p \<le> MAX_PEER_PAYLOAD_BYTES"
    by (auto simp: peer_payload_limit_def MAX_PEER_PAYLOAD_BYTES_def wire_limits split: if_splits)
  have us: "length p \<le> MAX_PEER_PAYLOAD_BYTES \<Longrightarrow> length p < usize_limit \<and> 20 + length p < usize_limit"
    by (simp add: MAX_PEER_PAYLOAD_BYTES_def wire_limits)
  have "(\<exists>kind p'. encode_message C (pf_message f) = Ok (kind, p') \<and> length p' \<le> MAX_PEER_PAYLOAD_BYTES \<and>
        bs = peer_frame_bytes kind (pf_sequence f) p') \<longleftrightarrow>
      encode_message C (pf_message f) = Ok (k, p) \<and> length p \<le> MAX_PEER_PAYLOAD_BYTES \<and> a = PEER_MAGIC \<and>
        from_le_bytes v = PEER_PROTOCOL_VERSION \<and> fl = 0 \<and> from_le_bytes q = pf_sequence f \<and>
        unat (from_le_bytes l :: u32) = length p" (is "?L \<longleftrightarrow> ?R")
  proof
    assume ?L
    then obtain kind p' where e: "encode_message C (pf_message f) = Ok (kind, p')" "length p' \<le> MAX_PEER_PAYLOAD_BYTES"
      "bs = peer_frame_bytes kind (pf_sequence f) p'" by blast
    have "length bs = 20 + length p'" using e(3) by (simp add: peer_frame_bytes_def)
    then have "length p = length p'" using bs len by simp
    then show ?R using e peer_frame_header [OF len, of p] small bs by auto
  next
    assume ?R
    then show ?L using peer_frame_header [OF len small] bs by auto
  qed
  then show ?thesis
    unfolding encode_peer_frame_Ok unfolding bs decode_peer_frame_parts [OF len]
    using decode_message_Ok [OF assms, of p k net "pf_message f"] limit us encode_message_limit by auto
next
  case False
  then show ?thesis
    by (auto simp: decode_peer_frame_def PEER_FRAME_HEADER_BYTES_def encode_peer_frame_Ok peer_frame_bytes_def)
qed

section \<open>Decoding does not panic\<close>

lemma returns_validations [closing_intros]:
  "returns (validate_hello h)" "returns (validate_identifiers ids m f ne)" "returns (validate_mining_template C t net)"
  "returns (status_from_byte b)"
  by (simp_all add: validate_hello_def validate_identifiers_def validate_mining_template_def status_from_byte_def)

lemma closing_new: "closing k \<Longrightarrow> length p < usize_limit \<Longrightarrow> returns (k (reader_new p))"
  using ok_reader_new by (auto simp: closing_def)

lemma decode_parts_return:
  assumes "length p < usize_limit"
  shows "returns (decode_hello p net)" "returns (decode_get_headers p)" "returns (decode_inventory f p)"
    "returns (decode_identifier p)" "returns (decode_submission_result p)"
proof -
  show "returns (decode_hello p net)" unfolding decode_hello_def Let_def
    by (rule closing_new [OF _ assms])
      (intro closing_intros safe_intros returns_obind, simp_all add: returns_validations)
  show "returns (decode_get_headers p)" unfolding decode_get_headers_def
    by (rule closing_new [OF _ assms])
      (intro closing_intros safe_intros returns_obind, simp_all add: returns_validations)
  show "returns (decode_inventory f p)" unfolding decode_inventory_def
    by (rule closing_new [OF _ assms])
      (intro closing_intros safe_intros returns_obind, simp_all add: returns_validations)
  show "returns (decode_identifier p)" unfolding decode_identifier_def
    by (rule closing_new [OF _ assms]) (intro closing_intros safe_intros, simp)
  show "returns (decode_submission_result p)" unfolding decode_submission_result_def
    by (rule closing_new [OF _ assms]) (intro closing_intros safe_intros, simp)
qed

lemma decoded_block_encodes: "crypto_ok C \<Longrightarrow> decode_block C p net = Ok b \<Longrightarrow> encode_block C b = Ok p"
  by (auto simp: decode_block_Ok encode_block_Ok)

lemma returns_if: "returns f \<Longrightarrow> returns g \<Longrightarrow> returns (if b then f else g)"
  by simp

lemma decode_objects_return:
  assumes "crypto_ok C" "length p < usize_limit"
  shows "returns (decode_peer_block C p net)" "returns (decode_mining_template C p net)"
proof -
  show "returns (decode_peer_block C p net)"
    unfolding decode_peer_block_def using decode_block_returns [OF assms(2), of C net]
    by (intro returns_obind) (auto dest: decoded_block_encodes [OF assms(1)])
  show "returns (decode_mining_template C p net)" unfolding decode_mining_template_def Let_def
    by (rule closing_new [OF _ assms(2)])
      (intro closing_intros safe_intros returns_obind template_challenge.get_safe template_output.get_safe
        payload_element.get_safe [OF template_tx_element] assms(1), simp_all add: returns_validations)
qed

lemma decode_peer_frame_returns:
  assumes "crypto_ok C" "length bs < usize_limit"
  shows "returns (decode_peer_frame C bs net)"
proof -
  have message: "returns (decode_message C k p net)" if p: "length p < usize_limit" for k p
    unfolding decode_message_def
    by (intro returns_if returns_obind decode_parts_return [OF p] decode_objects_return [OF assms(1) p]
        decode_peer_transaction_returns [OF assms(1)])
      (auto simp: pr_finish_def reader_new_def split: prod.splits)
  show ?thesis
  proof (cases "20 \<le> length bs")
    case True
    then show ?thesis
      unfolding decode_peer_frame_def Let_def
      by (intro returns_if returns_obind message)
        (use assms(2) in \<open>auto simp: PEER_FRAME_HEADER_BYTES_def slice_or_panic_def index_or_panic_def\<close>)
  qed (simp add: decode_peer_frame_def PEER_FRAME_HEADER_BYTES_def)
qed

section \<open>Runs of a session\<close>

text \<open>A session with the messages it has sent and received so far, oldest first.\<close>

inductive session_run :: "crypto \<Rightarrow> peer_hello \<Rightarrow> peer_limits \<Rightarrow> peer_message list \<Rightarrow> peer_message list \<Rightarrow> peer_session \<Rightarrow> bool"
  for C own limits where
    session_start: "session_new own limits = Ok s \<Longrightarrow> session_run C own limits [] [] s"
  | session_send: "\<lbrakk>session_run C own limits sent received s; encode_outbound C s m = Ok (bs, s')\<rbrakk>
      \<Longrightarrow> session_run C own limits (sent @ [m]) received s'"
  | session_receive: "\<lbrakk>session_run C own limits sent received s; accept_inbound C s bs = Ok (m, s')\<rbrakk>
      \<Longrightarrow> session_run C own limits sent (received @ [m]) s'"

definition is_hello :: "peer_message \<Rightarrow> bool" where
  "is_hello m = (case m of PM_Hello _ \<Rightarrow> True | _ \<Rightarrow> False)"

definition compatible_hello :: "peer_hello \<Rightarrow> peer_hello \<Rightarrow> bool" where
  "compatible_hello own h \<longleftrightarrow> ph_network_id h = ph_network_id own \<and>
     ph_consensus_fingerprint h = ph_consensus_fingerprint own \<and> ph_node_nonce h \<noteq> ph_node_nonce own"

text \<open>One direction of the traffic: nothing, or one greeting followed by protocol messages.\<close>

fun greeted :: "(peer_hello \<Rightarrow> bool) \<Rightarrow> peer_message list \<Rightarrow> bool" where
  "greeted P [] = True"
| "greeted P (m # ms) = ((\<exists>h. m = PM_Hello h \<and> P h) \<and> list_all (\<lambda>m. \<not> is_hello m) ms)"

definition session_inv :: "peer_hello \<Rightarrow> peer_limits \<Rightarrow> peer_message list \<Rightarrow> peer_message list \<Rightarrow> peer_session \<Rightarrow> bool" where
  "session_inv own limits sent received s \<longleftrightarrow> ps_local_hello s = own \<and> ps_limits s = limits \<and>
     unat (ps_next_outbound s) = length sent \<and> unat (ps_next_inbound s) = length received \<and>
     unat (ps_messages_used s) = length sent + length received \<and>
     ps_messages_used s \<le> pl_max_messages_per_peer limits \<and> ps_bytes_used s \<le> pl_max_bytes_per_peer limits \<and>
     (ps_hello_sent s \<longleftrightarrow> sent \<noteq> []) \<and> (ps_remote_hello s \<noteq> None \<longleftrightarrow> received \<noteq> []) \<and>
     greeted (\<lambda>h. h = own) sent \<and> greeted (compatible_hello own) received \<and>
     (1 < length sent \<longrightarrow> received \<noteq> []) \<and> (1 < length received \<longrightarrow> sent \<noteq> [])"

lemma budget_charge:
  assumes "ensure_budget s n = Ok ()" "charge s n = Ok s'"
  obtains mu bu where "s' = s\<lparr>ps_messages_used := mu, ps_bytes_used := bu\<rparr>"
    "unat mu = Suc (unat (ps_messages_used s))" "unat bu = unat (ps_bytes_used s) + unat (word_of_nat n :: u64)"
    "mu \<le> pl_max_messages_per_peer (ps_limits s)" "bu \<le> pl_max_bytes_per_peer (ps_limits s)"
  using assms checked_add_unat [of "ps_messages_used s" 1] checked_add_unat [of "ps_bytes_used s" "word_of_nat n"]
  by (auto simp: ensure_budget_def charge_def not_less split: option.splits if_splits)

lemma greeted_snoc:
  "greeted P (ms @ [m]) \<longleftrightarrow> greeted P ms \<and> (if ms = [] then \<exists>h. m = PM_Hello h \<and> P h else \<not> is_hello m)"
  by (cases ms) auto

lemma check_outbound_Ok:
  "check_outbound s m = Ok () \<longleftrightarrow> (if is_hello m then \<not> ps_hello_sent s \<and> m = PM_Hello (ps_local_hello s)
     else ps_hello_sent s \<and> ps_remote_hello s \<noteq> None)"
  by (cases m) (auto simp: check_outbound_def is_hello_def)

lemma check_inbound_Ok:
  "check_inbound s m = Ok () \<longleftrightarrow> (case m of
       PM_Hello h \<Rightarrow> ps_remote_hello s = None \<and>
         ph_consensus_fingerprint h = ph_consensus_fingerprint (ps_local_hello s) \<and>
         ph_node_nonce h \<noteq> ph_node_nonce (ps_local_hello s)
     | _ \<Rightarrow> ps_remote_hello s \<noteq> None \<and> ps_hello_sent s)"
  by (cases m) (auto simp: check_inbound_def)

lemma session_inv_run:
  assumes "crypto_ok C" "session_run C own limits sent received s"
  shows "session_inv own limits sent received s"
  using assms(2)
proof induction
  case (session_start s)
  then show ?case by (auto simp: session_new_def session_inv_def)
next
  case (session_send sent received s m bs s')
  then obtain n s1 where c: "check_outbound s m = Ok ()" "checked_add (ps_next_outbound s) 1 = Some n"
    "ensure_budget s (length bs) = Ok ()" "charge s (length bs) = Ok s1"
    and s': "s' = (if ps_next_outbound s = 0 then s1\<lparr>ps_next_outbound := n, ps_hello_sent := True\<rparr> else s1\<lparr>ps_next_outbound := n\<rparr>)"
    by (auto simp: encode_outbound_def Let_def)
  from c(3,4) obtain mu bu where b: "s1 = s\<lparr>ps_messages_used := mu, ps_bytes_used := bu\<rparr>"
    "unat mu = Suc (unat (ps_messages_used s))" "mu \<le> pl_max_messages_per_peer (ps_limits s)"
    "bu \<le> pl_max_bytes_per_peer (ps_limits s)" by (rule budget_charge)
  have z: "ps_next_outbound s = 0 \<longleftrightarrow> sent = []"
    using session_send.IH by (metis length_0_conv session_inv_def unat_eq_zero)
  have "is_hello m \<longleftrightarrow> sent = []" "sent = [] \<Longrightarrow> m = PM_Hello own" "sent \<noteq> [] \<Longrightarrow> received \<noteq> []"
    using c(1) session_send.IH by (auto simp: check_outbound_Ok session_inv_def split: if_splits)
  then show ?case
    using session_send.IH b(2-4) checked_add_unat [OF c(2)] z
    by (auto simp: s' b(1) session_inv_def greeted_snoc)
next
  case (session_receive sent received s bs m s')
  then obtain n s1 f where c: "decode_peer_frame C bs (ph_network_id (ps_local_hello s)) = Ok f" "pf_message f = m"
    "checked_add (ps_next_inbound s) 1 = Some n" "check_inbound s m = Ok ()"
    "ensure_budget s (length bs) = Ok ()" "charge s (length bs) = Ok s1"
    and s': "s' = (case m of PM_Hello h \<Rightarrow> s1\<lparr>ps_next_inbound := n, ps_remote_hello := Some h\<rparr> | _ \<Rightarrow> s1\<lparr>ps_next_inbound := n\<rparr>)"
    by (auto simp: accept_inbound_def Let_def split: if_splits)
  from c(5,6) obtain mu bu where b: "s1 = s\<lparr>ps_messages_used := mu, ps_bytes_used := bu\<rparr>"
    "unat mu = Suc (unat (ps_messages_used s))" "mu \<le> pl_max_messages_per_peer (ps_limits s)"
    "bu \<le> pl_max_bytes_per_peer (ps_limits s)" by (rule budget_charge)
  have wf: "wf_message (ph_network_id (ps_local_hello s)) m"
    using c(1,2) by (auto simp: decode_peer_frame_Ok [OF assms(1)])
  show ?case
  proof (cases "is_hello m")
    case True
    then obtain h where m: "m = PM_Hello h" by (auto simp: is_hello_def split: peer_message.splits)
    then have "received = []" "compatible_hello own h"
      using c(4) wf session_receive.IH
      by (auto simp: check_inbound_Ok session_inv_def wf_message_def compatible_hello_def)
    then show ?thesis
      using session_receive.IH b(2-4) checked_add_unat [OF c(3)] by (auto simp: s' m b(1) session_inv_def greeted_snoc)
  next
    case False
    then have "s' = s1\<lparr>ps_next_inbound := n\<rparr>" "received \<noteq> []" "sent \<noteq> []"
      using c(4) session_receive.IH
      by (auto simp: s' is_hello_def check_inbound_Ok session_inv_def split: peer_message.splits)
    then show ?thesis
      using False session_receive.IH b(2-4) checked_add_unat [OF c(3)] by (auto simp: b(1) session_inv_def greeted_snoc)
  qed
qed

section \<open>The handshake\<close>

lemma hello_frame:
  assumes "wf_hello h" "validate_hello h = Ok ()"
  shows "\<exists>bs. encode_peer_frame C \<lparr>pf_sequence = 0, pf_message = PM_Hello h\<rparr> = Ok bs \<and> length bs = 220"
  using assms by (auto simp: encode_peer_frame_Ok encode_message_def peer_frame_bytes_def wf_hello_def
      MAX_PEER_PAYLOAD_BYTES_def wire_limits)

text \<open>Valid limits leave room for both greetings.\<close>

lemma valid_limits:
  assumes "pl_validate l = Ok ()"
  shows "2 \<le> unat (pl_max_messages_per_peer l)" "440 \<le> unat (pl_max_bytes_per_peer l)"
  using assms by (auto simp: pl_validate_def MIN_SESSION_HANDSHAKE_BYTES_def PEER_FRAME_HEADER_BYTES_def HELLO_PAYLOAD_BYTES_def
      not_less word_le_nat_alt split: if_splits)

lemma budget_for_hello:
  assumes "pl_validate (ps_limits s) = Ok ()" "unat (ps_messages_used s) \<le> 1" "unat (ps_bytes_used s) \<le> 220"
  shows "ensure_budget s 220 = Ok ()"
    "charge s 220 = Ok (s\<lparr>ps_messages_used := ps_messages_used s + 1, ps_bytes_used := ps_bytes_used s + 220\<rparr>)"
proof -
  have "checked_add (ps_messages_used s) 1 = Some (ps_messages_used s + 1)"
    "checked_add (ps_bytes_used s) 220 = Some (ps_bytes_used s + 220)"
    using assms(2,3) by (simp_all add: checked_add_def)
  moreover from this have "unat (ps_messages_used s + 1) \<le> 2" "unat (ps_bytes_used s + 220) \<le> 440"
    using checked_add_unat [of "ps_messages_used s" 1] checked_add_unat [of "ps_bytes_used s" 220] assms(2,3) by auto
  ultimately show "ensure_budget s 220 = Ok ()"
    "charge s 220 = Ok (s\<lparr>ps_messages_used := ps_messages_used s + 1, ps_bytes_used := ps_bytes_used s + 220\<rparr>)"
    using valid_limits [OF assms(1)] by (auto simp: ensure_budget_def charge_def word_less_nat_alt)
qed

lemma fresh_session_greets:
  assumes "session_new h l = Ok s" "wf_hello h"
  shows "\<exists>bs s'. encode_hello C s = Ok (bs, s') \<and> length bs = 220 \<and>
    encode_peer_frame C \<lparr>pf_sequence = 0, pf_message = PM_Hello h\<rparr> = Ok bs \<and>
    s' = s\<lparr>ps_messages_used := 1, ps_bytes_used := 220, ps_next_outbound := 1, ps_hello_sent := True\<rparr>"
proof -
  have v: "pl_validate l = Ok ()" "validate_hello h = Ok ()" and s: "s = \<lparr>ps_local_hello = h, ps_remote_hello = None,
      ps_hello_sent = False, ps_next_outbound = 0, ps_next_inbound = 0, ps_messages_used = 0, ps_bytes_used = 0, ps_limits = l\<rparr>"
    using assms(1) by (auto simp: session_new_def)
  obtain bs where bs: "encode_peer_frame C \<lparr>pf_sequence = 0, pf_message = PM_Hello h\<rparr> = Ok bs" "length bs = 220"
    using hello_frame [OF assms(2) v(2)] by blast
  have "encode_hello C s = Ok (bs, s\<lparr>ps_messages_used := 1, ps_bytes_used := 220, ps_next_outbound := 1, ps_hello_sent := True\<rparr>)"
    using bs budget_for_hello [of s] v(1) unfolding s
    by (simp add: encode_hello_def encode_outbound_def check_outbound_def checked_add_def)
  then show ?thesis using bs by blast
qed

lemma greeting_accepted:
  assumes "crypto_ok C" "session_new h l = Ok s" "wf_hello h'" "compatible_hello h h'"
    "encode_peer_frame C \<lparr>pf_sequence = 0, pf_message = PM_Hello h'\<rparr> = Ok bs" "length bs = 220"
    "s1 = s\<lparr>ps_messages_used := 1, ps_bytes_used := 220, ps_next_outbound := 1, ps_hello_sent := True\<rparr>"
  shows "\<exists>s2. accept_inbound C s1 bs = Ok (PM_Hello h', s2) \<and> handshake_complete s2"
proof -
  have v: "pl_validate l = Ok ()" and s: "s = \<lparr>ps_local_hello = h, ps_remote_hello = None,
      ps_hello_sent = False, ps_next_outbound = 0, ps_next_inbound = 0, ps_messages_used = 0, ps_bytes_used = 0, ps_limits = l\<rparr>"
    using assms(2) by (auto simp: session_new_def)
  have d: "decode_peer_frame C bs (ph_network_id h) = Ok \<lparr>pf_sequence = 0, pf_message = PM_Hello h'\<rparr>"
    using assms(3-5) by (simp add: decode_peer_frame_Ok [OF assms(1)] wf_message_def compatible_hello_def)
  show ?thesis
    using budget_for_hello [of s1] v d assms(4,6) unfolding assms(7) s
    by (simp add: accept_inbound_def check_inbound_def checked_add_def compatible_hello_def handshake_complete_def)
qed

section \<open>Properties\<close>

text \<open>The peer frame decoder accepts a byte string on a network exactly when it is the frame the
  encoder writes for a sequence number and a message of that network: every one of the thirteen
  messages survives the wire, and no frame has a second encoding.\<close>

theorem peer_frame_roundtrip:
  assumes "crypto_ok C"
  shows "decode_peer_frame C bs net = Ok f \<longleftrightarrow> wf_message net (pf_message f) \<and> encode_peer_frame C f = Ok bs"
  by (rule decode_peer_frame_Ok [OF assms])

theorem peer_frame_roundtrip_witness:
  "\<exists>bs. encode_peer_frame demo_crypto \<lparr>pf_sequence = 7, pf_message = PM_GetHeaders [replicate 32 1, replicate 32 2] (replicate 32 3)\<rparr> = Ok bs \<and>
    decode_peer_frame demo_crypto bs (replicate 32 9) =
      Ok \<lparr>pf_sequence = 7, pf_message = PM_GetHeaders [replicate 32 1, replicate 32 2] (replicate 32 3)\<rparr>"
proof -
  let ?f = "\<lparr>pf_sequence = 7, pf_message = PM_GetHeaders [replicate 32 1, replicate 32 2] (replicate 32 3)\<rparr>"
  have "replicate 32 (1 :: byte) \<noteq> replicate 32 2" by (simp add: replicate_eq_replicate)
  then obtain bs where "encode_peer_frame demo_crypto ?f = Ok bs"
    by (auto simp: encode_peer_frame_Ok encode_message_def MAX_HEADER_LOCATORS_def MAX_PEER_PAYLOAD_BYTES_def wire_limits)
  then show ?thesis using peer_frame_roundtrip [OF crypto_ok_demo, of bs "replicate 32 9" ?f] by (auto simp: wf_message_def)
qed

text \<open>C27. Whatever a session sends and receives, each direction carries nothing or one greeting first and
  protocol messages after it; the greeting sent is the session's own and the one accepted is of the same
  network and consensus parameters but another node; neither side goes past its greeting before the other
  greeting; and the sequence numbers count the messages, which stay within the message and byte budgets.\<close>

theorem session_follows_protocol:
  assumes "crypto_ok C" "session_run C own limits sent received s"
  shows "greeted (\<lambda>h. h = own) sent \<and> greeted (compatible_hello own) received \<and>
    (1 < length sent \<longrightarrow> received \<noteq> []) \<and> (1 < length received \<longrightarrow> sent \<noteq> []) \<and>
    (handshake_complete s \<longleftrightarrow> sent \<noteq> [] \<and> received \<noteq> []) \<and>
    unat (ps_next_outbound s) = length sent \<and> unat (ps_next_inbound s) = length received \<and>
    length sent + length received \<le> unat (pl_max_messages_per_peer limits) \<and>
    unat (ps_bytes_used s) \<le> unat (pl_max_bytes_per_peer limits)"
  using session_inv_run [OF assms] by (auto simp: session_inv_def handshake_complete_def word_le_nat_alt)

definition demo_hello :: "u8 \<Rightarrow> peer_hello" where
  "demo_hello n = \<lparr>ph_network_id = replicate 32 1, ph_consensus_fingerprint = replicate 32 2,
     ph_node_nonce = replicate 32 n, ph_tip = replicate 32 3, ph_height = 4, ph_cumulative_work = replicate 64 5\<rparr>"

lemma demo_session: "n \<noteq> 0 \<Longrightarrow> \<exists>s. session_new (demo_hello n) default_limits = Ok s"
  by (simp add: session_new_def pl_validate_def default_limits_def validate_hello_def demo_hello_def from_secs_def
      MAX_CONFIGURED_PEERS_def MAX_MESSAGES_PER_PEER_def MIN_SESSION_HANDSHAKE_BYTES_def PEER_FRAME_HEADER_BYTES_def
      HELLO_PAYLOAD_BYTES_def MAX_BYTES_PER_PEER_def MAX_CONNECT_TIMEOUT_def MAX_IDLE_TIMEOUT_def MAX_TOTAL_TIMEOUT_def
      replicate_eq_replicate)

lemma wf_demo_hello: "wf_hello (demo_hello n)"
  by (simp add: wf_hello_def demo_hello_def)

theorem session_follows_protocol_witness:
  "\<exists>s. session_run demo_crypto (demo_hello 1) default_limits [PM_Hello (demo_hello 1)] [] s \<and>
    \<not> handshake_complete s \<and> unat (ps_next_outbound s) = 1 \<and> unat (ps_bytes_used s) \<le> 32 * 1024 * 1024"
proof -
  obtain s where s: "session_new (demo_hello 1) default_limits = Ok s" using demo_session [of 1] by auto
  obtain bs s' where e: "encode_hello demo_crypto s = Ok (bs, s')"
    using fresh_session_greets [OF s wf_demo_hello] by blast
  have "ps_local_hello s = demo_hello 1" using s by (auto simp: session_new_def)
  then have run: "session_run demo_crypto (demo_hello 1) default_limits [PM_Hello (demo_hello 1)] [] s'"
    using session_send [OF session_start [OF s], of demo_crypto] e by (simp add: encode_hello_def)
  then show ?thesis using session_follows_protocol [OF crypto_ok_demo run] by (auto simp: default_limits_def)
qed

text \<open>C28. Two fresh sessions with valid limits, greetings of the same network and consensus parameters
  and different nonces always complete the handshake: each greeting is encoded, fits both budgets and
  is accepted by the other side.\<close>

theorem handshake_always_completes:
  assumes "crypto_ok C" "session_new ha la = Ok sa" "session_new hb lb = Ok sb"
    and "wf_hello ha" "wf_hello hb" "compatible_hello ha hb"
  shows "\<exists>fa sa' fb sb' sa'' sb''. encode_hello C sa = Ok (fa, sa') \<and> encode_hello C sb = Ok (fb, sb') \<and>
    accept_inbound C sa' fb = Ok (PM_Hello hb, sa'') \<and> accept_inbound C sb' fa = Ok (PM_Hello ha, sb'') \<and>
    handshake_complete sa'' \<and> handshake_complete sb''"
proof -
  obtain fa sa' where a: "encode_hello C sa = Ok (fa, sa')" "length fa = 220"
    "encode_peer_frame C \<lparr>pf_sequence = 0, pf_message = PM_Hello ha\<rparr> = Ok fa"
    "sa' = sa\<lparr>ps_messages_used := 1, ps_bytes_used := 220, ps_next_outbound := 1, ps_hello_sent := True\<rparr>"
    using fresh_session_greets [OF assms(2,4)] by blast
  obtain fb sb' where b: "encode_hello C sb = Ok (fb, sb')" "length fb = 220"
    "encode_peer_frame C \<lparr>pf_sequence = 0, pf_message = PM_Hello hb\<rparr> = Ok fb"
    "sb' = sb\<lparr>ps_messages_used := 1, ps_bytes_used := 220, ps_next_outbound := 1, ps_hello_sent := True\<rparr>"
    using fresh_session_greets [OF assms(3,5)] by blast
  have "compatible_hello hb ha" using assms(6) by (auto simp: compatible_hello_def)
  then show ?thesis
    using a(1) b(1) greeting_accepted [OF assms(1,2,5,6) b(3,2) a(4)] greeting_accepted [OF assms(1,3,4) _ a(3,2) b(4)]
    by blast
qed

theorem handshake_always_completes_witness:
  "\<exists>sa sb fa sa' fb sb' sa'' sb''. session_new (demo_hello 1) default_limits = Ok sa \<and>
    session_new (demo_hello 2) default_limits = Ok sb \<and>
    encode_hello demo_crypto sa = Ok (fa, sa') \<and> encode_hello demo_crypto sb = Ok (fb, sb') \<and>
    accept_inbound demo_crypto sa' fb = Ok (PM_Hello (demo_hello 2), sa'') \<and>
    accept_inbound demo_crypto sb' fa = Ok (PM_Hello (demo_hello 1), sb'') \<and>
    handshake_complete sa'' \<and> handshake_complete sb''"
proof -
  obtain sa sb where s: "session_new (demo_hello 1) default_limits = Ok sa" "session_new (demo_hello 2) default_limits = Ok sb"
    using demo_session [of 1] demo_session [of 2] by auto
  have "compatible_hello (demo_hello 1) (demo_hello 2)"
    by (simp add: compatible_hello_def demo_hello_def replicate_eq_replicate)
  from handshake_always_completes [OF crypto_ok_demo s wf_demo_hello wf_demo_hello this] show ?thesis using s by blast
qed

text \<open>After the handshake, a frame that one session sends is decoded by the other to the message that
  was sent whenever its sequence number is the next one and the receiver's budget allows it; both
  sequence numbers then agree again. Any other sequence number is refused, so frames cannot be
  replayed, dropped or reordered unnoticed.\<close>

theorem frames_are_delivered_in_order:
  assumes "crypto_ok C" "encode_outbound C sa m = Ok (bs, sa')" "\<not> is_hello m"
    and "wf_message (ph_network_id (ps_local_hello sb)) m" "handshake_complete sb"
    and "ensure_budget sb (length bs) = Ok ()"
  shows "(ps_next_inbound sb = ps_next_outbound sa \<longrightarrow>
      (\<exists>sb'. accept_inbound C sb bs = Ok (m, sb') \<and> ps_next_inbound sb' = ps_next_outbound sa' \<and> handshake_complete sb')) \<and>
    (ps_next_inbound sb \<noteq> ps_next_outbound sa \<longrightarrow>
      accept_inbound C sb bs = Err (PE_UnexpectedSequence (ps_next_inbound sb) (ps_next_outbound sa)))"
proof -
  obtain n sa1 where o: "checked_add (ps_next_outbound sa) 1 = Some n" "charge sa (length bs) = Ok sa1"
    "encode_peer_frame C \<lparr>pf_sequence = ps_next_outbound sa, pf_message = m\<rparr> = Ok bs" "ps_next_outbound sa' = n"
    using assms(2) by (auto simp: encode_outbound_def Let_def)
  have d: "decode_peer_frame C bs (ph_network_id (ps_local_hello sb)) = Ok \<lparr>pf_sequence = ps_next_outbound sa, pf_message = m\<rparr>"
    using o(3) assms(4) by (simp add: decode_peer_frame_Ok [OF assms(1)])
  have c: "check_inbound sb m = Ok ()"
    using assms(3,5) by (auto simp: check_inbound_Ok is_hello_def handshake_complete_def split: peer_message.splits)
  obtain sb1 where ch: "charge sb (length bs) = Ok sb1"
    using assms(6) by (auto simp: ensure_budget_def charge_def split: option.splits)
  from assms(6) ch obtain mu bu where "sb1 = sb\<lparr>ps_messages_used := mu, ps_bytes_used := bu\<rparr>" by (rule budget_charge)
  then show ?thesis using assms(3,5,6) d c ch o(1,4)
    by (auto simp: accept_inbound_def Let_def handshake_complete_def is_hello_def split: peer_message.splits)
qed

definition demo_greeted :: "u8 \<Rightarrow> u8 \<Rightarrow> peer_session" where
  "demo_greeted a b = \<lparr>ps_local_hello = demo_hello a, ps_remote_hello = Some (demo_hello b), ps_hello_sent = True,
     ps_next_outbound = 1, ps_next_inbound = 1, ps_messages_used = 2, ps_bytes_used = 440, ps_limits = default_limits\<rparr>"

theorem frames_are_delivered_in_order_witness:
  "\<exists>bs sa' sb'. encode_outbound demo_crypto (demo_greeted 1 2) PM_GetMempool = Ok (bs, sa') \<and>
    accept_inbound demo_crypto (demo_greeted 2 1) bs = Ok (PM_GetMempool, sb') \<and>
    ps_next_inbound sb' = ps_next_outbound sa'"
proof -
  have e: "encode_peer_frame demo_crypto \<lparr>pf_sequence = 1, pf_message = PM_GetMempool\<rparr> = Ok (peer_frame_bytes GET_MEMPOOL_KIND 1 [])"
    by (auto simp: encode_peer_frame_Ok encode_message_def)
  have l: "length (peer_frame_bytes GET_MEMPOOL_KIND 1 []) = 20" by (simp add: peer_frame_bytes_def)
  have b: "ensure_budget (demo_greeted x y) 20 = Ok ()" "\<exists>s. charge (demo_greeted x y) 20 = Ok s" for x y
    by (simp_all add: ensure_budget_def charge_def demo_greeted_def default_limits_def checked_add_def)
  obtain sa' where o: "encode_outbound demo_crypto (demo_greeted 1 2) PM_GetMempool = Ok (peer_frame_bytes GET_MEMPOOL_KIND 1 [], sa')"
    using e l b(1) [of 1 2] b(2) [of 1 2] by (auto simp: encode_outbound_def Let_def check_outbound_def demo_greeted_def checked_add_def)
  have "ps_next_inbound (demo_greeted 2 1) = ps_next_outbound (demo_greeted 1 2)" "handshake_complete (demo_greeted 2 1)"
    by (simp_all add: demo_greeted_def handshake_complete_def)
  then show ?thesis
    using frames_are_delivered_in_order [OF crypto_ok_demo o, of "demo_greeted 2 1"] o b(1) [of 2 1] l
    by (auto simp: is_hello_def wf_message_def)
qed

text \<open>No byte string a peer sends makes a session panic: the frame is decoded or refused, every count and
  length is checked before it is used, and the budget counters cannot overflow. A refused frame leaves
  the session as it was.\<close>

theorem session_never_panics:
  assumes "crypto_ok C" "length bs < usize_limit"
  shows "returns (decode_peer_frame C bs net) \<and> returns (accept_inbound C s bs)"
proof -
  have "returns (charge s n)" if "ensure_budget s n = Ok ()" for n
    using that by (auto simp: ensure_budget_def charge_def split: option.splits)
  moreover have "returns (ensure_budget s n)" "returns (check_inbound s m)" for n m
    by (auto simp: ensure_budget_def check_inbound_def intro!: returns_obind split: peer_message.splits)
  ultimately have "returns (accept_inbound C s bs)"
    unfolding accept_inbound_def Let_def
    by (intro returns_obind returns_if decode_peer_frame_returns [OF assms]) simp_all
  then show ?thesis using decode_peer_frame_returns [OF assms] by simp
qed

theorem session_never_panics_witness:
  "returns (decode_peer_frame demo_crypto (replicate 20 255) zero32) \<and>
    returns (accept_inbound demo_crypto (demo_greeted 1 2) (replicate 20 255))"
  using session_never_panics [of demo_crypto "replicate 20 255"] by simp

text \<open>A configuration that validates names distinct peers, at most 64 of them, none of them the local
  listener, all with a usable address, and all private unless public peers were allowed.\<close>

lemma configured_peers:
  assumes "ofold (check_configured_peer cfg reject) u ps = Ok u'" "distinct u"
  shows "distinct ps \<and> set ps \<inter> set u = {} \<and> (reject \<longrightarrow> sc_listen_address cfg \<notin> set ps) \<and>
    (\<forall>p \<in> set ps. validate_peer_address p (sc_address_policy cfg) = Ok ())"
  using assms
proof (induction ps arbitrary: u)
  case (Cons p ps)
  have step: "check_configured_peer cfg reject u p = Ok v \<longleftrightarrow> validate_peer_address p (sc_address_policy cfg) = Ok () \<and>
      (reject \<longrightarrow> p \<noteq> sc_listen_address cfg) \<and> p \<notin> set u \<and> v = p # u" for v
    by (auto simp: check_configured_peer_def)
  from Cons.prems(1) have "ofold (check_configured_peer cfg reject) (p # u) ps = Ok u'" "p \<notin> set u"
    "reject \<longrightarrow> p \<noteq> sc_listen_address cfg" "validate_peer_address p (sc_address_policy cfg) = Ok ()"
    by (auto simp: step)
  then show ?case using Cons.IH [of "p # u"] Cons.prems(2) by auto
qed simp

theorem static_configuration_is_safe:
  assumes "sc_validate cfg = Ok ()"
  shows "distinct (sc_peers cfg) \<and> length (sc_peers cfg) \<le> MAX_CONFIGURED_PEERS \<and>
    sc_listen_address cfg \<notin> set (sc_peers cfg) \<and>
    (\<forall>p \<in> insert (sc_listen_address cfg) (set (sc_peers cfg)). \<not> unsafe_address p \<and>
      (sc_address_policy cfg = PrivateOnly \<longrightarrow> private_ip (sa_ip p)))"
proof -
  from assms obtain u where c: "ofold (check_configured_peer cfg True) [] (sc_peers cfg) = Ok u"
    and l: "length (sc_peers cfg) \<le> pl_max_peers (sc_limits cfg)" "pl_validate (sc_limits cfg) = Ok ()"
    and a: "validate_peer_address (sc_listen_address cfg) (sc_address_policy cfg) = Ok ()"
    by (auto simp: sc_validate_def validate_peer_list_def not_less split: if_splits)
  have "pl_max_peers (sc_limits cfg) \<le> MAX_CONFIGURED_PEERS"
    using l(2) by (auto simp: pl_validate_def not_less split: if_splits)
  moreover have "validate_peer_address p q = Ok () \<Longrightarrow> \<not> unsafe_address p \<and> (q = PrivateOnly \<longrightarrow> private_ip (sa_ip p))" for p q
    by (auto simp: validate_peer_address_def split: if_splits)
  ultimately show ?thesis using configured_peers [OF c] l(1) a by auto
qed

end
