(* ===== verification/CF_P2p.thy ===== *)
theory CF_P2p
  imports CF_Peer CF_Sync
begin

text \<open>
  The peer runtime: \<open>PeerConnection\<close> of \<open>crates/cmfd-node/src/peer.rs\<close> over a socket that may cut the
  stream anywhere, and the calls of \<open>crates/cmfd-node/src/p2p.rs\<close> that pull from a peer, relay to a
  peer, fetch and submit mining templates, and serve a peer.

  A socket is the list of what its reads and writes will do. The node is shared with other threads
  behind a mutex: between two locks of one call, others may submit blocks and transactions, which
  \<open>env_others\<close> lists for every lock. The clock and the file system are in the environment too. A call
  is an action: a function from the shared state and the connection to the new ones and an outcome,
  so that what a failed call has done to the node stays.

  Peer statistics, the threads of the listener and of the poller, and their shutdown are left out.
\<close>

section \<open>Errors and reports\<close>

definition MAX_BLOCKS_PER_SYNC :: nat where "MAX_BLOCKS_PER_SYNC = 16"
definition MAX_TRANSACTIONS_PER_SYNC :: nat where "MAX_TRANSACTIONS_PER_SYNC = 64"

datatype p2p_error =
    P2P_Peer peer_error
  | P2P_Node node_error
  | P2P_Wire wire_error
  | P2P_PoisonedNode
  | P2P_PoisonedStop
  | P2P_UnexpectedMessage string string
  | P2P_WrongBlock hash32 hash32
  | P2P_WrongTransaction hash32 hash32
  | P2P_WrongBlockSubmission hash32 hash32
  | P2P_RejectedBlockSubmission hash32
  | P2P_NonContiguousInventory hash32
  | P2P_UnknownRequestedBlock hash32
  | P2P_UnknownRequestedTransaction hash32
  | P2P_UnexpectedMiningTemplate
  | P2P_UnexpectedMiningPayout
  | P2P_ZeroPollInterval
  | P2P_ThreadPanicked
  | P2P_ListenerIo

record sync_report =
  sy_remote_hello :: peer_hello
  sy_inventory_items :: nat
  sy_requested_blocks :: nat
  sy_accepted_blocks :: nat
  sy_already_known :: nat
  sy_transaction_inventory_items :: nat
  sy_requested_transactions :: nat
  sy_accepted_transactions :: nat
  sy_already_known_transactions :: nat
  sy_rejected_transactions :: nat

record relay_report =
  rr_remote_hello :: peer_hello
  rr_offered_blocks :: nat
  rr_accepted_blocks :: nat
  rr_already_known :: nat
  rr_peer_height :: u64
  rr_peer_tip :: hash32

record template_response =
  tr_remote_hello :: peer_hello
  tr_template :: mining_template

definition up_to_date :: "sync_report \<Rightarrow> bool" where
  "up_to_date r \<longleftrightarrow> sy_inventory_items r = 0 \<and>
     sy_transaction_inventory_items r - sy_already_known_transactions r \<le> sy_requested_transactions r"

section \<open>Sockets and connections\<close>

text \<open>A call on the socket fails because the deadline of the connection has passed before it, because it
  times out (with the deadline passed by then or not), or with another error.\<close>

datatype socket_fault = SF_Expired | SF_TimedOut bool | SF_Failed

definition socket_error :: "socket_fault \<Rightarrow> peer_error" where
  "socket_error f = (case f of
       SF_Expired \<Rightarrow> PE_TotalTimeout
     | SF_TimedOut past_deadline \<Rightarrow> if past_deadline then PE_TotalTimeout else PE_IdleTimeout
     | SF_Failed \<Rightarrow> PE_Io)"

text \<open>What the reads and writes of a socket will do. A read takes at most what was asked for and leaves
  the rest; when nothing is left the stream has ended, as it has after an empty read. A write
  accepts some bytes; when nothing is listed it accepts all of them.\<close>

datatype read_event = RD_Data "byte list" | RD_Fault socket_fault
datatype write_event = WR_Accepts nat | WR_Fault socket_fault

record socket =
  so_peer_addr :: "socket_addr option"
  so_nodelay_ok :: bool
  so_reads :: "read_event list"
  so_writes :: "write_event list"

record peer_connection =
  pc_session :: peer_session
  pc_reads :: "read_event list"
  pc_writes :: "write_event list"
  pc_sent :: "byte list"

fun socket_read :: "nat \<Rightarrow> read_event list \<Rightarrow> read_event list \<times> (peer_error, byte list) outcome" where
  "socket_read n [] = ([], Ok [])"
| "socket_read n (RD_Fault f # es) = (es, Err (socket_error f))"
| "socket_read n (RD_Data bs # es) =
     (if length bs \<le> n then (es, Ok bs) else (RD_Data (drop n bs) # es, Ok (take n bs)))"

text \<open>The loop of \<open>read_exact_bounded\<close>; \<open>got\<close> is the filled part of the buffer.\<close>

function read_loop :: "nat \<Rightarrow> byte list \<Rightarrow> read_event list \<Rightarrow> read_event list \<times> (peer_error, byte list) outcome" where
  "read_loop len got reads =
     (if length got < len then
        (case socket_read (len - length got) reads of
           (reads', Ok chunk) \<Rightarrow>
             if chunk = [] then (reads', Err (PE_Truncated len (length got)))
             else read_loop len (got @ chunk) reads'
         | (reads', other) \<Rightarrow> (reads', other))
      else (reads, Ok got))"
  by pat_completeness auto
termination
  by (relation "measure (\<lambda>(len, got, reads). len - length got)") (auto intro!: diff_less_mono2)

declare read_loop.simps [simp del]

definition read_exact_bounded :: "nat \<Rightarrow> peer_connection \<Rightarrow> peer_connection \<times> (peer_error, byte list) outcome" where
  "read_exact_bounded len c =
     (case read_loop len [] (pc_reads c) of (reads, r) \<Rightarrow> (c\<lparr>pc_reads := reads\<rparr>, r))"

fun write_loop :: "byte list \<Rightarrow> byte list \<Rightarrow> write_event list \<Rightarrow> (write_event list \<times> byte list) \<times> (peer_error, unit) outcome" where
  "write_loop bytes sent [] = (([], sent @ bytes), Ok ())"
| "write_loop bytes sent (e # es) =
     (if bytes = [] then ((e # es, sent), Ok ())
      else case e of
        WR_Fault f \<Rightarrow> ((es, sent), Err (socket_error f))
      | WR_Accepts n \<Rightarrow>
          if n = 0 then ((es, sent), Err PE_Io)
          else write_loop (drop n bytes) (sent @ take n bytes) es)"

definition write_all_bounded :: "byte list \<Rightarrow> peer_connection \<Rightarrow> peer_connection \<times> (peer_error, unit) outcome" where
  "write_all_bounded bytes c =
     (case write_loop bytes (pc_sent c) (pc_writes c) of ((writes, sent), r) \<Rightarrow>
        (c\<lparr>pc_writes := writes, pc_sent := sent\<rparr>, r))"

definition conn_send :: "crypto \<Rightarrow> peer_message \<Rightarrow> peer_connection \<Rightarrow> peer_connection \<times> (peer_error, unit) outcome" where
  "conn_send C m c =
     try_in c (encode_outbound C (pc_session c) m) (\<lambda>(bytes, session). write_all_bounded bytes (c\<lparr>pc_session := session\<rparr>))"

definition conn_send_hello :: "crypto \<Rightarrow> peer_connection \<Rightarrow> peer_connection \<times> (peer_error, unit) outcome" where
  "conn_send_hello C c =
     try_in c (encode_hello C (pc_session c)) (\<lambda>(bytes, session). write_all_bounded bytes (c\<lparr>pc_session := session\<rparr>))"

definition receive_payload ::
  "crypto \<Rightarrow> byte list \<Rightarrow> nat \<Rightarrow> peer_connection \<Rightarrow> peer_connection \<times> (peer_error, peer_message) outcome" where
  "receive_payload C header payload_len c =
     (case read_exact_bounded payload_len c of (c, r) \<Rightarrow>
      try_in c r (\<lambda>payload.
      try_in c (accept_inbound C (pc_session c) (header @ payload)) (\<lambda>(m, session).
      (c\<lparr>pc_session := session\<rparr>, Ok m))))"

definition conn_receive :: "crypto \<Rightarrow> peer_connection \<Rightarrow> peer_connection \<times> (peer_error, peer_message) outcome" where
  "conn_receive C c =
     (case read_exact_bounded PEER_FRAME_HEADER_BYTES c of (c, r) \<Rightarrow>
      try_in c r (\<lambda>header.
      try_in c (validate_frame_header header) (\<lambda>_.
      try_in c (slice_or_panic header 16 20) (\<lambda>length_bytes.
      try_in c (index_or_panic header 6) (\<lambda>kind.
      let payload_len = unat (from_le_bytes length_bytes :: u32); payload_limit = peer_payload_limit kind in
      if payload_len > payload_limit then (c, Err (PE_PayloadTooLarge payload_len payload_limit))
      else try_in c (ensure_budget (pc_session c) (PEER_FRAME_HEADER_BYTES + payload_len)) (\<lambda>_.
      receive_payload C header payload_len c))))))"

definition from_stream_with_policy ::
  "socket \<Rightarrow> peer_session \<Rightarrow> address_policy \<Rightarrow> (peer_error, peer_connection) outcome" where
  "from_stream_with_policy stream session policy =
     obind (ok_or PE_Io (so_peer_addr stream)) (\<lambda>address.
     obind (validate_peer_address address policy) (\<lambda>_.
     obind (pl_validate (ps_limits session)) (\<lambda>_.
     if \<not> so_nodelay_ok stream then Err PE_Io
     else Ok \<lparr>pc_session = session, pc_reads = so_reads stream, pc_writes = so_writes stream, pc_sent = []\<rparr>)))"

text \<open>\<open>dial\<close> is what the operating system answers to the connection attempt.\<close>

definition connect_with_policy ::
  "socket option \<Rightarrow> socket_addr \<Rightarrow> peer_session \<Rightarrow> address_policy \<Rightarrow> (peer_error, peer_connection) outcome" where
  "connect_with_policy dial address session policy =
     obind (validate_peer_address address policy) (\<lambda>_.
     obind (ok_or PE_Io dial) (\<lambda>stream. from_stream_with_policy stream session policy))"

section \<open>The shared node\<close>

text \<open>What other threads do to the node between two locks.\<close>

datatype node_event = NE_Transaction transaction | NE_Block append_io block u64

definition apply_event :: "crypto \<Rightarrow> node \<Rightarrow> node_event \<Rightarrow> node" where
  "apply_event C nd e = (case e of
       NE_Transaction t \<Rightarrow> (case node_submit_transaction C nd t of Ok (_, nd') \<Rightarrow> nd' | _ \<Rightarrow> nd)
     | NE_Block io b accepted_at \<Rightarrow> fst (submit_block C io nd b accepted_at))"

text \<open>The environment of a call: the process nonce and the stored fingerprint, and, at each point of
  time, the reading of the clock (none before the epoch), what the others have done (none when the
  mutex is poisoned) and what an append to the log does.\<close>

record environment =
  env_fingerprint :: hash32
  env_nonce :: hash32
  env_clock :: "nat \<Rightarrow> u64 option"
  env_others :: "nat \<Rightarrow> node_event list option"
  env_append :: "nat \<Rightarrow> append_io"

record shared =
  sh_node :: node
  sh_tick :: nat

record peer_task = shared +
  tk_connection :: peer_connection

type_synonym ('s, 'a) action = "'s \<Rightarrow> 's \<times> (p2p_error, 'a) outcome"

definition abind :: "('s, 'a) action \<Rightarrow> ('a \<Rightarrow> ('s, 'b) action) \<Rightarrow> ('s, 'b) action" where
  "abind m f w = (case m w of (w', r) \<Rightarrow> try_in w' r (\<lambda>x. f x w'))"

definition aret :: "'a \<Rightarrow> ('s, 'a) action" where "aret x w = (w, Ok x)"
definition afail :: "p2p_error \<Rightarrow> ('s, 'a) action" where "afail e w = (w, Err e)"
definition alift :: "(p2p_error, 'a) outcome \<Rightarrow> ('s, 'a) action" where "alift r w = (w, r)"

primrec afold :: "('a \<Rightarrow> 'b \<Rightarrow> ('s, 'a) action) \<Rightarrow> 'a \<Rightarrow> 'b list \<Rightarrow> ('s, 'a) action" where
  "afold f a [] = aret a"
| "afold f a (x # xs) = abind (f a x) (\<lambda>a. afold f a xs)"

definition lock_node :: "crypto \<Rightarrow> environment \<Rightarrow> ('z shared_scheme, unit) action" where
  "lock_node C E w =
     (case env_others E (sh_tick w) of
        None \<Rightarrow> (w\<lparr>sh_tick := Suc (sh_tick w)\<rparr>, Err P2P_PoisonedNode)
      | Some events \<Rightarrow>
          (w\<lparr>sh_node := foldl (apply_event C) (sh_node w) events, sh_tick := Suc (sh_tick w)\<rparr>, Ok ()))"

definition unix_time_seconds :: "environment \<Rightarrow> ('z shared_scheme, u64) action" where
  "unix_time_seconds E w =
     (w\<lparr>sh_tick := Suc (sh_tick w)\<rparr>, ok_or (P2P_Node ND_InvalidSystemTime) (env_clock E (sh_tick w)))"

text \<open>A critical section that only reads the node.\<close>

definition read_node :: "crypto \<Rightarrow> environment \<Rightarrow> (node \<Rightarrow> 'a) \<Rightarrow> ('z shared_scheme, 'a) action" where
  "read_node C E f = abind (lock_node C E) (\<lambda>_ w. (w, Ok (f (sh_node w))))"

text \<open>The critical sections that submit a block and a transaction.\<close>

definition lock_and_submit_block :: "crypto \<Rightarrow> environment \<Rightarrow> block \<Rightarrow> u64 \<Rightarrow> ('z shared_scheme, unit) action" where
  "lock_and_submit_block C E b accepted_at =
     abind (lock_node C E) (\<lambda>_ w.
       case submit_block C (env_append E (sh_tick w)) (sh_node w) b accepted_at of (nd, r) \<Rightarrow>
         (w\<lparr>sh_node := nd\<rparr>, map_err P2P_Node (obind r (\<lambda>_. Ok ()))))"

definition lock_and_submit_transaction :: "crypto \<Rightarrow> environment \<Rightarrow> transaction \<Rightarrow> ('z shared_scheme, bool) action" where
  "lock_and_submit_transaction C E t =
     abind (lock_node C E) (\<lambda>_ w.
       case node_submit_transaction C (sh_node w) t of
         Ok (_, nd) \<Rightarrow> (w\<lparr>sh_node := nd\<rparr>, Ok True)
       | Err _ \<Rightarrow> (w, Ok False)
       | Panic \<Rightarrow> (w, Panic)
       | Diverge \<Rightarrow> (w, Diverge))"

definition cumulative_work :: "node \<Rightarrow> chain_work" where
  "cumulative_work nd = chain_work_bytes (bi_active_work (nd_index nd))"

definition node_peer_hello :: "environment \<Rightarrow> node \<Rightarrow> peer_hello" where
  "node_peer_hello E nd = \<lparr>ph_network_id = np_network_id (nd_params nd), ph_consensus_fingerprint = env_fingerprint E,
     ph_node_nonce = env_nonce E, ph_tip = cs_tip (nd_state nd),
     ph_height = (if cs_next_height (nd_state nd) = 0 then 0 else cs_next_height (nd_state nd) - 1),
     ph_cumulative_work = cumulative_work nd\<rparr>"

definition contains_block :: "node \<Rightarrow> hash32 \<Rightarrow> bool" where
  "contains_block nd bid = index_contains (nd_index nd) bid"

definition canonical_block :: "node \<Rightarrow> hash32 \<Rightarrow> byte list option" where
  "canonical_block nd bid = map_option ib_canonical (fmlookup (bi_blocks (nd_index nd)) bid)"

definition with_nonce :: "peer_hello \<Rightarrow> hash32 option \<Rightarrow> peer_hello" where
  "with_nonce hello nonce_override =
     (case nonce_override of Some nonce \<Rightarrow> hello\<lparr>ph_node_nonce := nonce\<rparr> | None \<Rightarrow> hello)"

section \<open>Messages that are expected\<close>

definition message_name :: "peer_message \<Rightarrow> string" where
  "message_name m = (case m of
       PM_Hello _ \<Rightarrow> ''Hello'' | PM_GetHeaders _ _ \<Rightarrow> ''GetHeaders'' | PM_Inventory _ \<Rightarrow> ''Inventory''
     | PM_GetBlock _ \<Rightarrow> ''GetBlock'' | PM_Block _ \<Rightarrow> ''Block'' | PM_SubmitBlock _ \<Rightarrow> ''SubmitBlock''
     | PM_BlockSubmissionResult _ \<Rightarrow> ''BlockSubmissionResult'' | PM_GetMempool \<Rightarrow> ''GetMempool''
     | PM_TransactionInventory _ \<Rightarrow> ''TransactionInventory'' | PM_GetTransaction _ \<Rightarrow> ''GetTransaction''
     | PM_Transaction _ \<Rightarrow> ''Transaction'' | PM_GetMiningTemplate _ \<Rightarrow> ''GetMiningTemplate''
     | PM_MiningTemplate _ \<Rightarrow> ''MiningTemplate'')"

definition expect_hello :: "peer_message \<Rightarrow> (p2p_error, peer_hello) outcome" where
  "expect_hello m = (case m of PM_Hello h \<Rightarrow> Ok h | other \<Rightarrow> Err (P2P_UnexpectedMessage ''Hello'' (message_name other)))"

definition expect_inventory :: "peer_message \<Rightarrow> (p2p_error, hash32 list) outcome" where
  "expect_inventory m =
     (case m of PM_Inventory ids \<Rightarrow> Ok ids | other \<Rightarrow> Err (P2P_UnexpectedMessage ''Inventory'' (message_name other)))"

definition expect_block :: "peer_message \<Rightarrow> (p2p_error, block) outcome" where
  "expect_block m = (case m of PM_Block b \<Rightarrow> Ok b | other \<Rightarrow> Err (P2P_UnexpectedMessage ''Block'' (message_name other)))"

definition expect_transaction_inventory :: "peer_message \<Rightarrow> (p2p_error, hash32 list) outcome" where
  "expect_transaction_inventory m =
     (case m of PM_TransactionInventory ids \<Rightarrow> Ok ids
      | other \<Rightarrow> Err (P2P_UnexpectedMessage ''TransactionInventory'' (message_name other)))"

definition expect_transaction :: "peer_message \<Rightarrow> (p2p_error, transaction) outcome" where
  "expect_transaction m =
     (case m of PM_Transaction t \<Rightarrow> Ok t | other \<Rightarrow> Err (P2P_UnexpectedMessage ''Transaction'' (message_name other)))"

definition expect_block_submission_result :: "peer_message \<Rightarrow> (p2p_error, submission_result) outcome" where
  "expect_block_submission_result m =
     (case m of PM_BlockSubmissionResult r \<Rightarrow> Ok r
      | other \<Rightarrow> Err (P2P_UnexpectedMessage ''BlockSubmissionResult'' (message_name other)))"

definition expect_mining_template :: "peer_message \<Rightarrow> (p2p_error, mining_template) outcome" where
  "expect_mining_template m =
     (case m of PM_MiningTemplate t \<Rightarrow> Ok t
      | other \<Rightarrow> Err (P2P_UnexpectedMessage ''MiningTemplate'' (message_name other)))"

section \<open>Actions on a connection\<close>

definition on_connection ::
  "(peer_connection \<Rightarrow> peer_connection \<times> (peer_error, 'a) outcome) \<Rightarrow> (peer_task, 'a) action" where
  "on_connection f w = (case f (tk_connection w) of (c, r) \<Rightarrow> (w\<lparr>tk_connection := c\<rparr>, map_err P2P_Peer r))"

definition send_hello :: "crypto \<Rightarrow> (peer_task, unit) action" where
  "send_hello C = on_connection (conn_send_hello C)"

definition send :: "crypto \<Rightarrow> peer_message \<Rightarrow> (peer_task, unit) action" where
  "send C m = on_connection (conn_send C m)"

definition receive :: "crypto \<Rightarrow> (peer_task, peer_message) action" where
  "receive C = on_connection (conn_receive C)"

text \<open>Send a request, receive the reply and take from it what is expected.\<close>

definition exchange :: "crypto \<Rightarrow> peer_message \<Rightarrow> (peer_message \<Rightarrow> (p2p_error, 'a) outcome) \<Rightarrow> (peer_task, 'a) action" where
  "exchange C m expect = abind (send C m) (\<lambda>_. abind (receive C) (\<lambda>reply. alift (expect reply)))"

definition greet :: "crypto \<Rightarrow> (peer_task, peer_hello) action" where
  "greet C = abind (send_hello C) (\<lambda>_. abind (receive C) (\<lambda>reply. alift (expect_hello reply)))"

text \<open>The part of a call that runs on a connection; the connection is closed afterwards.\<close>

definition run_connected :: "(peer_error, peer_connection) outcome \<Rightarrow> (peer_task, 'a) action \<Rightarrow> (shared, 'a) action" where
  "run_connected connection m = abind (alift (map_err P2P_Peer connection)) (\<lambda>c w.
     case m \<lparr>sh_node = sh_node w, sh_tick = sh_tick w, tk_connection = c\<rparr> of
       (w', r) \<Rightarrow> (\<lparr>sh_node = sh_node w', sh_tick = sh_tick w'\<rparr>, r))"

section \<open>Pulling from a peer\<close>

text \<open>Progress of the block loop: blocks requested, accepted and already known, and the previous
  identifier of the inventory.\<close>

type_synonym block_progress = "nat \<times> nat \<times> nat \<times> hash32 option"

definition sync_block :: "crypto \<Rightarrow> environment \<Rightarrow> block_progress \<Rightarrow> hash32 \<Rightarrow> (peer_task, block_progress) action" where
  "sync_block C E progress requested =
     (case progress of (requested_blocks, accepted_blocks, already_known, previous_id) \<Rightarrow>
      abind (read_node C E (\<lambda>nd. contains_block nd requested)) (\<lambda>known.
      if known then aret (requested_blocks, accepted_blocks, already_known + 1, Some requested)
      else
      abind (exchange C (PM_GetBlock requested) expect_block) (\<lambda>b.
      let actual = block_id C b in
      if actual \<noteq> requested then afail (P2P_WrongBlock requested actual)
      else
      abind (case previous_id of
               Some previous \<Rightarrow> aret (bc_previous_block (bl_challenge b) = previous)
             | None \<Rightarrow> read_node C E (\<lambda>nd. contains_block nd (bc_previous_block (bl_challenge b)))) (\<lambda>parent_is_ordered.
      if \<not> parent_is_ordered then afail (P2P_NonContiguousInventory requested)
      else
      abind (unix_time_seconds E) (\<lambda>accepted_at.
      abind (lock_and_submit_block C E b accepted_at) (\<lambda>_.
      aret (requested_blocks + 1, accepted_blocks + 1, already_known, Some requested)))))))"

text \<open>Progress of the transaction loop: requested, accepted and rejected.\<close>

definition sync_transaction :: "crypto \<Rightarrow> environment \<Rightarrow> nat \<times> nat \<times> nat \<Rightarrow> hash32 \<Rightarrow> (peer_task, nat \<times> nat \<times> nat) action" where
  "sync_transaction C E progress requested =
     (case progress of (requested_transactions, accepted_transactions, rejected_transactions) \<Rightarrow>
      abind (exchange C (PM_GetTransaction requested) expect_transaction) (\<lambda>t.
      let actual = txid C t in
      if actual \<noteq> requested then afail (P2P_WrongTransaction requested actual)
      else
      abind (lock_and_submit_transaction C E t) (\<lambda>admitted.
      aret (if admitted then (requested_transactions + 1, accepted_transactions + 1, rejected_transactions)
            else (requested_transactions + 1, accepted_transactions, rejected_transactions + 1)))))"

definition sync_exchange :: "crypto \<Rightarrow> environment \<Rightarrow> hash32 list \<Rightarrow> (peer_task, sync_report) action" where
  "sync_exchange C E locator =
     abind (greet C) (\<lambda>remote_hello.
     abind (exchange C (PM_GetHeaders locator (ph_tip remote_hello)) expect_inventory) (\<lambda>inventory.
     if length inventory > MAX_BLOCKS_PER_SYNC
     then afail (P2P_Peer (PE_CountLimit ''sync inventory'' (length inventory) MAX_BLOCKS_PER_SYNC))
     else
     abind (afold (sync_block C E) (0, 0, 0, None) inventory) (\<lambda>(requested_blocks, accepted_blocks, already_known, _).
     abind (exchange C PM_GetMempool expect_transaction_inventory) (\<lambda>transaction_inventory.
     abind (read_node C E (\<lambda>nd. set (map (me_txid \<circ> snd) (nd_mempool nd)))) (\<lambda>known_transactions.
     abind (afold (sync_transaction C E) (0, 0, 0)
              (take MAX_TRANSACTIONS_PER_SYNC (filter (\<lambda>t. t \<notin> known_transactions) transaction_inventory)))
       (\<lambda>(requested_transactions, accepted_transactions, rejected_transactions).
     aret \<lparr>sy_remote_hello = remote_hello, sy_inventory_items = length inventory, sy_requested_blocks = requested_blocks,
       sy_accepted_blocks = accepted_blocks, sy_already_known = already_known,
       sy_transaction_inventory_items = length transaction_inventory,
       sy_requested_transactions = requested_transactions, sy_accepted_transactions = accepted_transactions,
       sy_already_known_transactions = length (filter (\<lambda>t. t \<in> known_transactions) transaction_inventory),
       sy_rejected_transactions = rejected_transactions\<rparr>))))))"

definition sync_from_peer :: "crypto \<Rightarrow> environment \<Rightarrow> socket option \<Rightarrow> socket_addr \<Rightarrow> peer_limits \<Rightarrow> address_policy
    \<Rightarrow> hash32 option \<Rightarrow> (shared, sync_report) action" where
  "sync_from_peer C E dial address limits policy nonce_override =
     abind (read_node C E (\<lambda>nd. (node_peer_hello E nd, block_locator nd MAX_BLOCKS_PER_SYNC))) (\<lambda>(hello, locator).
     abind (alift (map_err P2P_Peer (session_new (with_nonce hello nonce_override) limits))) (\<lambda>session.
     run_connected (connect_with_policy dial address session policy) (sync_exchange C E locator)))"

section \<open>Relaying to a peer\<close>

text \<open>Progress of a relay: blocks accepted and already known by the peer, and its height and tip.\<close>

type_synonym relay_progress = "nat \<times> nat \<times> u64 \<times> hash32"

definition relay_block :: "crypto \<Rightarrow> environment \<Rightarrow> hash32 \<Rightarrow> relay_progress \<Rightarrow> hash32 \<Rightarrow> (peer_task, relay_progress) action" where
  "relay_block C E network_id progress bid =
     (case progress of (accepted_blocks, already_known, _, _) \<Rightarrow>
      abind (read_node C E (\<lambda>nd. canonical_block nd bid)) (\<lambda>canonical.
      abind (alift (ok_or (P2P_UnknownRequestedBlock bid) canonical)) (\<lambda>bytes.
      abind (alift (map_err P2P_Wire (decode_block C bytes network_id))) (\<lambda>b.
      let actual = block_id C b in
      if actual \<noteq> bid then afail (P2P_WrongBlock bid actual)
      else
      abind (exchange C (PM_SubmitBlock b) expect_block_submission_result) (\<lambda>result.
      if sr_block_id result \<noteq> bid then afail (P2P_WrongBlockSubmission bid (sr_block_id result))
      else
      case sr_status result of
        SS_Accepted \<Rightarrow> aret (accepted_blocks + 1, already_known, sr_peer_height result, sr_peer_tip result)
      | SS_AlreadyKnown \<Rightarrow> aret (accepted_blocks, already_known + 1, sr_peer_height result, sr_peer_tip result)
      | SS_Rejected \<Rightarrow> afail (P2P_RejectedBlockSubmission bid))))))"

definition relay_exchange :: "crypto \<Rightarrow> environment \<Rightarrow> hash32 \<Rightarrow> (peer_task, relay_report) action" where
  "relay_exchange C E network_id =
     abind (greet C) (\<lambda>remote_hello.
     abind (read_node C E (\<lambda>nd. relay_inventory_after nd (ph_tip remote_hello) MAX_BLOCKS_PER_SYNC)) (\<lambda>block_ids.
     abind (afold (relay_block C E network_id) (0, 0, ph_height remote_hello, ph_tip remote_hello) block_ids)
       (\<lambda>(accepted_blocks, already_known, peer_height, peer_tip).
     aret \<lparr>rr_remote_hello = remote_hello, rr_offered_blocks = length block_ids, rr_accepted_blocks = accepted_blocks,
       rr_already_known = already_known, rr_peer_height = peer_height, rr_peer_tip = peer_tip\<rparr>)))"

definition relay_blocks_to_peer :: "crypto \<Rightarrow> environment \<Rightarrow> socket option \<Rightarrow> socket_addr \<Rightarrow> peer_limits \<Rightarrow> address_policy
    \<Rightarrow> hash32 option \<Rightarrow> (shared, relay_report) action" where
  "relay_blocks_to_peer C E dial address limits policy nonce_override =
     abind (read_node C E (node_peer_hello E)) (\<lambda>hello.
     let hello = with_nonce hello nonce_override in
     abind (alift (map_err P2P_Peer (session_new hello limits))) (\<lambda>session.
     run_connected (connect_with_policy dial address session policy) (relay_exchange C E (ph_network_id hello))))"

section \<open>Mining against a remote node\<close>

text \<open>\<open>devnet_params\<close> is the parameter \<open>params\<close> and its fingerprint is computed here; these calls do not
  use a node of their own.\<close>

definition thin_miner_hello :: "crypto \<Rightarrow> network_params \<Rightarrow> hash32 \<Rightarrow> (p2p_error, peer_hello) outcome" where
  "thin_miner_hello C params nonce =
     obind (map_err (\<lambda>e. P2P_Node (ND_Network e)) (fingerprint C params)) (\<lambda>fp.
     Ok \<lparr>ph_network_id = np_network_id params, ph_consensus_fingerprint = fp, ph_node_nonce = nonce,
       ph_tip = np_genesis_hash params, ph_height = 0, ph_cumulative_work = replicate 64 0\<rparr>)"

definition pays_first :: "hash32 \<Rightarrow> tx_output list \<Rightarrow> bool" where
  "pays_first payout outputs = (case outputs of
       [] \<Rightarrow> False
     | out # _ \<Rightarrow> (case to_lock out of OL_Key destination \<Rightarrow> destination = payout | _ \<Rightarrow> False))"

definition template_exchange :: "crypto \<Rightarrow> hash32 \<Rightarrow> (peer_task, template_response) action" where
  "template_exchange C payout =
     abind (greet C) (\<lambda>remote_hello.
     abind (exchange C (PM_GetMiningTemplate payout) expect_mining_template) (\<lambda>tpl.
     if bc_previous_block (mt_challenge tpl) \<noteq> ph_tip remote_hello \<or>
        bc_height (mt_challenge tpl) \<noteq> (case checked_add (ph_height remote_hello) 1 of Some h \<Rightarrow> h | None \<Rightarrow> - 1)
     then afail P2P_UnexpectedMiningTemplate
     else if \<not> pays_first payout (cb_outputs (mt_coinbase tpl)) then afail P2P_UnexpectedMiningPayout
     else aret \<lparr>tr_remote_hello = remote_hello, tr_template = tpl\<rparr>))"

definition request_mining_template :: "crypto \<Rightarrow> network_params \<Rightarrow> hash32 \<Rightarrow> socket option \<Rightarrow> socket_addr \<Rightarrow> hash32
    \<Rightarrow> peer_limits \<Rightarrow> address_policy \<Rightarrow> (shared, template_response) action" where
  "request_mining_template C params nonce dial address payout limits policy =
     abind (alift (thin_miner_hello C params nonce)) (\<lambda>hello.
     abind (alift (map_err P2P_Peer (session_new hello limits))) (\<lambda>session.
     run_connected (connect_with_policy dial address session policy) (template_exchange C payout)))"

definition submit_exchange :: "crypto \<Rightarrow> block \<Rightarrow> (peer_task, submission_result) action" where
  "submit_exchange C b =
     abind (greet C) (\<lambda>_.
     abind (exchange C (PM_SubmitBlock b) expect_block_submission_result) (\<lambda>result.
     if sr_block_id result \<noteq> block_id C b then afail (P2P_WrongBlockSubmission (block_id C b) (sr_block_id result))
     else aret result))"

definition submit_mined_block :: "crypto \<Rightarrow> network_params \<Rightarrow> hash32 \<Rightarrow> socket option \<Rightarrow> socket_addr \<Rightarrow> block
    \<Rightarrow> peer_limits \<Rightarrow> address_policy \<Rightarrow> (shared, submission_result) action" where
  "submit_mined_block C params nonce dial address b limits policy =
     abind (alift (thin_miner_hello C params nonce)) (\<lambda>hello.
     abind (alift (map_err P2P_Peer (session_new hello limits))) (\<lambda>session.
     run_connected (connect_with_policy dial address session policy) (submit_exchange C b)))"

section \<open>Serving a peer\<close>

text \<open>The critical section that judges a submitted block.\<close>

definition judge_submission :: "crypto \<Rightarrow> environment \<Rightarrow> block \<Rightarrow> u64 \<Rightarrow> (peer_task, submission_status) action" where
  "judge_submission C E b accepted_at =
     abind (lock_node C E) (\<lambda>_ w.
       if contains_block (sh_node w) (block_id C b) then (w, Ok SS_AlreadyKnown)
       else case submit_block C (env_append E (sh_tick w)) (sh_node w) b accepted_at of
         (nd, Ok _) \<Rightarrow> (w\<lparr>sh_node := nd\<rparr>, Ok SS_Accepted)
       | (nd, Err _) \<Rightarrow> (w\<lparr>sh_node := nd\<rparr>, Ok SS_Rejected)
       | (nd, Panic) \<Rightarrow> (w\<lparr>sh_node := nd\<rparr>, Panic)
       | (nd, Diverge) \<Rightarrow> (w\<lparr>sh_node := nd\<rparr>, Diverge))"

text \<open>The reply to a request; every arm of the loop ends by sending it.\<close>

definition answer :: "crypto \<Rightarrow> environment \<Rightarrow> hash32 \<Rightarrow> peer_message \<Rightarrow> (peer_task, peer_message) action" where
  "answer C E network_id m = (case m of
       PM_GetHeaders locator stop \<Rightarrow>
         abind (read_node C E (\<lambda>nd. inventory_after nd locator stop MAX_BLOCKS_PER_SYNC)) (\<lambda>block_ids.
         aret (PM_Inventory block_ids))
     | PM_GetBlock bid \<Rightarrow>
         abind (read_node C E (\<lambda>nd. canonical_block nd bid)) (\<lambda>canonical.
         abind (alift (ok_or (P2P_UnknownRequestedBlock bid) canonical)) (\<lambda>bytes.
         abind (alift (map_err P2P_Wire (decode_block C bytes network_id))) (\<lambda>b.
         if block_id C b \<noteq> bid then afail (P2P_WrongBlock bid (block_id C b)) else aret (PM_Block b))))
     | PM_GetMempool \<Rightarrow>
         abind (read_node C E (\<lambda>nd. map (me_txid \<circ> snd) (nd_mempool nd))) (\<lambda>txids.
         aret (PM_TransactionInventory txids))
     | PM_GetTransaction requested \<Rightarrow>
         abind (read_node C E (\<lambda>nd. find (\<lambda>entry. me_txid entry = requested) (map snd (nd_mempool nd)))) (\<lambda>entry.
         abind (alift (ok_or (P2P_UnknownRequestedTransaction requested) (map_option me_transaction entry))) (\<lambda>t.
         if txid C t \<noteq> requested then afail (P2P_WrongTransaction requested (txid C t)) else aret (PM_Transaction t)))
     | PM_GetMiningTemplate payout \<Rightarrow>
         abind (lock_node C E) (\<lambda>_.
         abind (unix_time_seconds E) (\<lambda>now w.
           (w, obind (map_err P2P_Node (build_template C (sh_node w) payout now)) (\<lambda>tpl.
               Ok (PM_MiningTemplate \<lparr>mt_challenge = bt_challenge tpl, mt_coinbase = bt_coinbase tpl,
                 mt_transactions = bt_transactions tpl\<rparr>)))))
     | PM_SubmitBlock b \<Rightarrow>
         abind (unix_time_seconds E) (\<lambda>accepted_at.
         abind (judge_submission C E b accepted_at) (\<lambda>status.
         abind (read_node C E (node_peer_hello E)) (\<lambda>peer.
         aret (PM_BlockSubmissionResult \<lparr>sr_block_id = block_id C b, sr_status = status,
           sr_peer_height = ph_height peer, sr_peer_tip = ph_tip peer\<rparr>))))
     | other \<Rightarrow>
         afail (P2P_UnexpectedMessage
           ''GetHeaders, GetBlock, GetMempool, GetTransaction, GetMiningTemplate, or SubmitBlock'' (message_name other)))"

section \<open>Reading and writing\<close>

text \<open>The bytes a list of reads will deliver, and that it delivers them without fault or early end.\<close>

definition incoming :: "read_event list \<Rightarrow> byte list" where
  "incoming reads = concat (map (\<lambda>e. case e of RD_Data bs \<Rightarrow> bs | RD_Fault _ \<Rightarrow> []) reads)"

definition clean_reads :: "read_event list \<Rightarrow> bool" where
  "clean_reads reads \<longleftrightarrow> list_all (\<lambda>e. case e of RD_Data bs \<Rightarrow> bs \<noteq> [] | RD_Fault _ \<Rightarrow> False) reads"

definition clean_writes :: "write_event list \<Rightarrow> bool" where
  "clean_writes writes \<longleftrightarrow> list_all (\<lambda>e. case e of WR_Accepts n \<Rightarrow> 0 < n | WR_Fault _ \<Rightarrow> False) writes"

lemma incoming_simps [simp]:
  "incoming [] = []" "incoming (RD_Data bs # es) = bs @ incoming es" "incoming (RD_Fault f # es) = incoming es"
  by (simp_all add: incoming_def)

lemma clean_simps [simp]:
  "clean_reads []" "clean_reads (RD_Data bs # es) \<longleftrightarrow> bs \<noteq> [] \<and> clean_reads es" "\<not> clean_reads (RD_Fault f # es)"
  "clean_writes []" "clean_writes (WR_Accepts n # ws) \<longleftrightarrow> 0 < n \<and> clean_writes ws" "\<not> clean_writes (WR_Fault f # ws)"
  by (simp_all add: clean_reads_def clean_writes_def)

lemma socket_read_takes:
  "socket_read n reads = (reads', r) \<Longrightarrow> incoming reads = (case r of Ok bs \<Rightarrow> bs | _ \<Rightarrow> []) @ incoming reads' \<and>
     (\<forall>bs. r = Ok bs \<longrightarrow> length bs \<le> n) \<and> (\<forall>e. r = Err e \<longrightarrow> (\<exists>f. e = socket_error f)) \<and> returns r"
  by (cases "(n, reads)" rule: socket_read.cases) (auto split: if_splits)

lemma socket_read_clean:
  "clean_reads reads \<Longrightarrow> 0 < n \<Longrightarrow> incoming reads \<noteq> [] \<Longrightarrow>
     \<exists>bs reads'. socket_read n reads = (reads', Ok bs) \<and> bs \<noteq> [] \<and> clean_reads reads'"
  by (cases "(n, reads)" rule: socket_read.cases) auto

lemma read_loop_more:
  "length got < len \<Longrightarrow> socket_read (len - length got) reads = (reads', Ok chunk) \<Longrightarrow> chunk \<noteq> [] \<Longrightarrow>
     read_loop len got reads = read_loop len (got @ chunk) reads'"
  by (subst read_loop.simps) simp

lemma read_loop_takes:
  assumes "read_loop len got reads = (reads', r)" "length got \<le> len"
  shows "\<exists>pre. incoming reads = pre @ incoming reads' \<and> (\<forall>bs. r = Ok bs \<longrightarrow> bs = got @ pre \<and> length bs = len)"
  using assms
proof (induction len got reads rule: read_loop.induct)
  case (1 len got reads)
  show ?case
  proof (cases "length got < len")
    case False
    then show ?thesis using "1.prems" by (auto simp: read_loop.simps)
  next
    case True
    obtain reads1 q where s: "socket_read (len - length got) reads = (reads1, q)" by fastforce
    note T = socket_read_takes [OF s]
    show ?thesis
    proof (cases "\<exists>chunk. q = Ok chunk \<and> chunk \<noteq> []")
      case False
      then show ?thesis using "1.prems" T True s
        by (subst (asm) read_loop.simps) (auto split: outcome.splits)
    next
      case ok: True
      then obtain chunk where q: "q = Ok chunk" "chunk \<noteq> []" by blast
      have "read_loop len (got @ chunk) reads1 = (reads', r)"
        using "1.prems"(1) read_loop_more [OF True s [unfolded q(1)] q(2)] by simp
      moreover have "length (got @ chunk) \<le> len" "incoming reads = chunk @ incoming reads1" using T q(1) True by auto
      ultimately obtain pre where "incoming reads1 = pre @ incoming reads'" "\<forall>bs. r = Ok bs \<longrightarrow> bs = (got @ chunk) @ pre \<and> length bs = len"
        using "1.IH" [OF True s [symmetric] q] by blast
      then show ?thesis using \<open>incoming reads = chunk @ incoming reads1\<close> by (intro exI [of _ "chunk @ pre"]) simp
    qed
  qed
qed

lemma read_loop_clean:
  assumes "clean_reads reads" "length got \<le> len" "len \<le> length got + length (incoming reads)"
  shows "\<exists>reads'. read_loop len got reads = (reads', Ok (take len (got @ incoming reads))) \<and> clean_reads reads' \<and>
    incoming reads' = drop len (got @ incoming reads)"
  using assms
proof (induction len got reads rule: read_loop.induct)
  case (1 len got reads)
  show ?case
  proof (cases "length got < len")
    case False
    then show ?thesis using "1.prems" by (simp add: read_loop.simps)
  next
    case True
    with "1.prems"(3) have "incoming reads \<noteq> []" by auto
    with socket_read_clean [OF "1.prems"(1)] True obtain chunk reads1 where
      s: "socket_read (len - length got) reads = (reads1, Ok chunk)" "chunk \<noteq> []" "clean_reads reads1" by (meson zero_less_diff)
    have i: "incoming reads = chunk @ incoming reads1" "length chunk \<le> len - length got" using socket_read_takes [OF s(1)] by auto
    have "length (got @ chunk) \<le> len" "len \<le> length (got @ chunk) + length (incoming reads1)"
      using i True "1.prems"(3) by auto
    from "1.IH" [OF True s(1) [symmetric] refl s(2,3) this] show ?thesis
      unfolding read_loop_more [OF True s(1,2)] i(1) by simp
  qed
qed

lemma write_loop_result:
  "write_loop bytes sent writes = ((writes', sent'), r) \<Longrightarrow>
     (r = Ok () \<longrightarrow> sent' = sent @ bytes) \<and> (\<forall>e. r = Err e \<longrightarrow> (\<exists>f. e = socket_error f)) \<and> returns r"
proof (induction bytes sent writes rule: write_loop.induct)
  case (2 bytes sent e es)
  consider "bytes = []" | f where "bytes \<noteq> []" "e = WR_Fault f" | "bytes \<noteq> []" "e = WR_Accepts 0"
    | n where "bytes \<noteq> []" "e = WR_Accepts n" "0 < n" by (cases e) auto
  then show ?case
  proof cases
    case 3
    then show ?thesis using 2(2) by (auto intro: exI [of _ SF_Failed] simp: socket_error_def)
  next
    case 4
    then show ?thesis using 2 by auto
  qed (use 2(2) in auto)
qed auto

lemma write_loop_clean:
  "clean_writes writes \<Longrightarrow> \<exists>writes'. write_loop bytes sent writes = ((writes', sent @ bytes), Ok ()) \<and> clean_writes writes'"
proof (induction bytes sent writes rule: write_loop.induct)
  case (2 bytes sent e es)
  then show ?case by (cases e) auto
qed simp

lemma try_in_simps [simp]:
  "try_in s (Ok x) f = f x" "try_in s (Err e) f = (s, Err e)" "try_in s Panic f = (s, Panic)" "try_in s Diverge f = (s, Diverge)"
  by (simp_all add: try_in_def)

lemma try_in_eq_Ok: "try_in s m f = (s', Ok y) \<longleftrightarrow> (\<exists>x. m = Ok x \<and> f x = (s', Ok y))"
  by (cases m) auto

lemma try_in_cases:
  assumes "try_in s m f = (s', r)"
  obtains x where "m = Ok x" "f x = (s', r)" | "s' = s" "\<forall>y. r \<noteq> Ok y"
  using assms by (cases m) auto

lemma try_in_past:
  "try_in s m f = (s', r) \<Longrightarrow> \<not> (s' = s \<and> (\<forall>y. r \<noteq> Ok y)) \<Longrightarrow> \<exists>x. m = Ok x \<and> f x = (s', r)"
  by (rule try_in_cases) auto

lemma read_exact_bounded_takes:
  assumes "read_exact_bounded n c = (c', r)"
  shows "\<exists>pre. incoming (pc_reads c) = pre @ incoming (pc_reads c') \<and> (\<forall>bs. r = Ok bs \<longrightarrow> bs = pre \<and> length bs = n)"
    "c' = c\<lparr>pc_reads := pc_reads c'\<rparr>"
  using assms read_loop_takes [of n "[]" "pc_reads c"] by (auto simp: read_exact_bounded_def split: prod.splits)

text \<open>A frame is taken off the stream before the session sees it; a failed read leaves the session as it
  was.\<close>

lemma conn_receive_takes:
  assumes "conn_receive C c = (c', r)"
  shows "\<exists>frame. incoming (pc_reads c) = frame @ incoming (pc_reads c') \<and>
    (case r of Ok m \<Rightarrow> 20 \<le> length frame \<and> length frame \<le> 20 + MAX_PEER_PAYLOAD_BYTES \<and>
        accept_inbound C (pc_session c) frame = Ok (m, pc_session c') | _ \<Rightarrow> pc_session c' = pc_session c)"
    "pc_writes c' = pc_writes c" "pc_sent c' = pc_sent c"
proof -
  obtain c1 r1 where one: "read_exact_bounded PEER_FRAME_HEADER_BYTES c = (c1, r1)" by fastforce
  note A = read_exact_bounded_takes [OF one]
  have 1: "pc_session c1 = pc_session c" "pc_writes c1 = pc_writes c" "pc_sent c1 = pc_sent c"
    by (subst A(2), simp)+
  have "(\<exists>frame. incoming (pc_reads c) = frame @ incoming (pc_reads c') \<and>
      (case r of Ok m \<Rightarrow> 20 \<le> length frame \<and> length frame \<le> 20 + MAX_PEER_PAYLOAD_BYTES \<and>
        accept_inbound C (pc_session c) frame = Ok (m, pc_session c') | _ \<Rightarrow> pc_session c' = pc_session c)) \<and>
      pc_writes c' = pc_writes c \<and> pc_sent c' = pc_sent c"
  proof (cases "c' = c1 \<and> (\<forall>m. r \<noteq> Ok m)")
    case True
    then show ?thesis using A(1) 1 by (auto split: outcome.splits)
  next
    case False
    note past = try_in_past [OF _ False]
    from past [OF assms [unfolded conn_receive_def one prod.case]] obtain header where h: "r1 = Ok header"
      and p1: "try_in c1 (validate_frame_header header) (\<lambda>_.
        try_in c1 (slice_or_panic header 16 20) (\<lambda>length_bytes.
        try_in c1 (index_or_panic header 6) (\<lambda>kind.
        let payload_len = unat (from_le_bytes length_bytes :: u32); payload_limit = peer_payload_limit kind in
        if payload_len > payload_limit then (c1, Err (PE_PayloadTooLarge payload_len payload_limit))
        else try_in c1 (ensure_budget (pc_session c1) (PEER_FRAME_HEADER_BYTES + payload_len)) (\<lambda>_.
        receive_payload C header payload_len c1)))) = (c', r)" by blast
    obtain n kind where n: "(if peer_payload_limit kind < n then (c1, Err (PE_PayloadTooLarge n (peer_payload_limit kind)))
        else try_in c1 (ensure_budget (pc_session c1) (PEER_FRAME_HEADER_BYTES + n)) (\<lambda>_.
        receive_payload C header n c1)) = (c', r)"
      using past [OF p1] unfolding Let_def by (blast dest: past)
    then have le: "n \<le> peer_payload_limit kind" and "try_in c1 (ensure_budget (pc_session c1) (PEER_FRAME_HEADER_BYTES + n)) (\<lambda>_.
        receive_payload C header n c1) = (c', r)" using False by (auto simp: not_less split: if_splits)
    from past [OF this(2)] have rp: "receive_payload C header n c1 = (c', r)" by blast
    obtain c2 r2 where two: "read_exact_bounded n c1 = (c2, r2)" by fastforce
    note B = read_exact_bounded_takes [OF two]
    have 2: "pc_session c2 = pc_session c" "pc_writes c2 = pc_writes c" "pc_sent c2 = pc_sent c"
      by (subst B(2), simp add: 1)+
    obtain pre1 pre2 where i: "incoming (pc_reads c) = pre1 @ pre2 @ incoming (pc_reads c2)" "header = pre1" "length header = 20"
      "\<forall>bs. r2 = Ok bs \<longrightarrow> bs = pre2 \<and> length bs = n" using A(1) B(1) h by (auto simp: PEER_FRAME_HEADER_BYTES_def)
    have nm: "n \<le> MAX_PEER_PAYLOAD_BYTES" using le
      by (auto simp: peer_payload_limit_def MAX_PEER_PAYLOAD_BYTES_def wire_limits split: if_splits)
    show ?thesis
    proof (cases "r2 = Ok pre2 \<and> (\<exists>m s. accept_inbound C (pc_session c) (pre1 @ pre2) = Ok (m, s) \<and> c' = c2\<lparr>pc_session := s\<rparr> \<and> r = Ok m)")
      case True
      then obtain m s where ok: "r2 = Ok pre2" "accept_inbound C (pc_session c) (pre1 @ pre2) = Ok (m, s)"
        "c' = c2\<lparr>pc_session := s\<rparr>" "r = Ok m" by blast
      have "length pre2 = n" using i(4) ok(1) by blast
      then show ?thesis using i(1-3) nm 2 ok(2) unfolding ok(3,4) by (intro conjI exI [of _ "pre1 @ pre2"]) simp_all
    next
      case False
      then have "c' = c2 \<and> (\<forall>m. r \<noteq> Ok m)" using rp two i(2,4) 2(1) unfolding receive_payload_def
        by (cases r2; cases "accept_inbound C (pc_session c) (pre1 @ pre2)") (auto split: prod.splits)
      then show ?thesis using i 2 by (auto intro!: exI [of _ "pre1 @ pre2"] split: outcome.splits)
    qed
  qed
  then show "\<exists>frame. incoming (pc_reads c) = frame @ incoming (pc_reads c') \<and>
      (case r of Ok m \<Rightarrow> 20 \<le> length frame \<and> length frame \<le> 20 + MAX_PEER_PAYLOAD_BYTES \<and>
        accept_inbound C (pc_session c) frame = Ok (m, pc_session c') | _ \<Rightarrow> pc_session c' = pc_session c)"
    "pc_writes c' = pc_writes c" "pc_sent c' = pc_sent c" by simp_all
qed

lemma write_all_bounded_writes:
  assumes "write_all_bounded bytes c = (c', r)"
  shows "pc_session c' = pc_session c" "pc_reads c' = pc_reads c" "r = Ok () \<Longrightarrow> pc_sent c' = pc_sent c @ bytes"
    "\<And>e. r = Err e \<Longrightarrow> \<exists>f. e = socket_error f" "returns r"
  using assms write_loop_result [of bytes "pc_sent c" "pc_writes c"]
  by (auto simp: write_all_bounded_def split: prod.splits)

lemma conn_send_writes:
  assumes "conn_send C m c = (c', r)"
  shows "pc_reads c' = pc_reads c"
    "case encode_outbound C (pc_session c) m of
       Ok (bs, s) \<Rightarrow> pc_session c' = s \<and> (r = Ok () \<longrightarrow> pc_sent c' = pc_sent c @ bs) \<and> (\<forall>e. r = Err e \<longrightarrow> (\<exists>f. e = socket_error f)) \<and> returns r
     | Err e \<Rightarrow> r = Err e \<and> c' = c | Panic \<Rightarrow> r = Panic \<and> c' = c | Diverge \<Rightarrow> r = Diverge \<and> c' = c"
proof -
  have *: "write_all_bounded bs (c\<lparr>pc_session := s\<rparr>) = (c', r) \<Longrightarrow> pc_reads c' = pc_reads c \<and> pc_session c' = s \<and>
      (r = Ok () \<longrightarrow> pc_sent c' = pc_sent c @ bs) \<and> (\<forall>e. r = Err e \<longrightarrow> (\<exists>f. e = socket_error f)) \<and> returns r" for bs s
    using write_all_bounded_writes [of bs "c\<lparr>pc_session := s\<rparr>" c' r] by auto
  show "pc_reads c' = pc_reads c" using assms * by (auto simp: conn_send_def elim!: try_in_cases)
  show "case encode_outbound C (pc_session c) m of
       Ok (bs, s) \<Rightarrow> pc_session c' = s \<and> (r = Ok () \<longrightarrow> pc_sent c' = pc_sent c @ bs) \<and> (\<forall>e. r = Err e \<longrightarrow> (\<exists>f. e = socket_error f)) \<and> returns r
     | Err e \<Rightarrow> r = Err e \<and> c' = c | Panic \<Rightarrow> r = Panic \<and> c' = c | Diverge \<Rightarrow> r = Diverge \<and> c' = c"
    using assms * by (auto simp: conn_send_def split: outcome.splits)
qed

section \<open>The loop that serves a peer\<close>

lemma abind_cong [fundef_cong]:
  "m w = m' w' \<Longrightarrow> (\<And>x v. m' w' = (v, Ok x) \<Longrightarrow> f x v = f' x v) \<Longrightarrow> abind m f w = abind m' f' w'"
  by (auto simp: abind_def try_in_def split: prod.splits outcome.splits)

definition reads_left :: "peer_task \<Rightarrow> nat" where
  "reads_left w = length (incoming (pc_reads (tk_connection w)))"

definition keeps_reads :: "(peer_task, 'a) action \<Rightarrow> bool" where
  "keeps_reads m \<longleftrightarrow> (\<forall>w w' r. m w = (w', r) \<longrightarrow> reads_left w' = reads_left w)"

lemma keeps_reads_abind: "keeps_reads m \<Longrightarrow> (\<And>x. keeps_reads (f x)) \<Longrightarrow> keeps_reads (abind m f)"
  unfolding keeps_reads_def abind_def by (auto elim!: try_in_cases split: prod.splits) metis+

lemma keeps_reads_simple: "keeps_reads (aret x)" "keeps_reads (afail e)" "keeps_reads (alift r)" "keeps_reads (lock_node C E)"
  "keeps_reads (unix_time_seconds E)" "keeps_reads (\<lambda>w. (w, f w))"
  by (auto simp: keeps_reads_def aret_def afail_def alift_def lock_node_def unix_time_seconds_def reads_left_def split: option.splits)

lemma keeps_reads_read_node: "keeps_reads (read_node C E f)"
  unfolding read_node_def by (intro keeps_reads_abind keeps_reads_simple)

lemma keeps_reads_send: "keeps_reads (send C m)"
  using conn_send_writes(1) by (fastforce simp: keeps_reads_def send_def on_connection_def reads_left_def split: prod.splits)

lemma keeps_reads_judge: "keeps_reads (judge_submission C E b t)"
  unfolding judge_submission_def
  by (intro keeps_reads_abind keeps_reads_simple) (auto simp: keeps_reads_def reads_left_def split: prod.splits outcome.splits if_splits)

lemmas keeps_reads = keeps_reads_abind keeps_reads_simple keeps_reads_read_node keeps_reads_send keeps_reads_judge

lemma keeps_readsD: "keeps_reads m \<Longrightarrow> m w = (w', r) \<Longrightarrow> reads_left w' = reads_left w"
  by (auto simp: keeps_reads_def)

lemma keeps_reads_answer: "keeps_reads (answer C E network_id m)"
  unfolding answer_def by (cases m) (simp_all, (intro keeps_reads | simp add: keeps_reads)+)

lemma receive_reads:
  assumes "receive C w = (w', r)"
  shows "case r of Ok m \<Rightarrow> reads_left w' + 20 \<le> reads_left w | _ \<Rightarrow> True"
  using assms conn_receive_takes(1) [of C "tk_connection w"]
  by (fastforce simp: receive_def on_connection_def reads_left_def split: prod.splits outcome.splits)

lemma respond_step_reads:
  assumes "receive C w = (w1, Ok m)" "answer C E network_id m w1 = (w2, Ok reply)" "send C reply w2 = (w3, r)"
  shows "reads_left w3 < reads_left w"
  using receive_reads [OF assms(1)] keeps_readsD [OF keeps_reads_answer assms(2)] keeps_readsD [OF keeps_reads_send assms(3)] by simp

function respond_loop :: "crypto \<Rightarrow> environment \<Rightarrow> hash32 \<Rightarrow> (peer_task, unit) action" where
  "respond_loop C E network_id w =
     (case receive C w of
        (w', Ok m) \<Rightarrow> abind (answer C E network_id m) (\<lambda>reply. abind (send C reply) (\<lambda>_. respond_loop C E network_id)) w'
      | (w', Err e) \<Rightarrow> if e = P2P_Peer (PE_Truncated PEER_FRAME_HEADER_BYTES 0) then (w', Ok ()) else (w', Err e)
      | (w', Panic) \<Rightarrow> (w', Panic)
      | (w', Diverge) \<Rightarrow> (w', Diverge))"
  by pat_completeness auto
termination
  by (relation "measure (\<lambda>(C, E, network_id, w). reads_left w)") (auto dest!: sym [of "(_, _)"] dest: respond_step_reads)

declare respond_loop.simps [simp del]

definition respond_to_peer :: "crypto \<Rightarrow> environment \<Rightarrow> socket \<Rightarrow> peer_limits \<Rightarrow> address_policy \<Rightarrow> hash32 option \<Rightarrow> (shared, unit) action" where
  "respond_to_peer C E stream limits policy nonce_override =
     abind (read_node C E (node_peer_hello E)) (\<lambda>hello.
     let hello = with_nonce hello nonce_override in
     abind (alift (map_err P2P_Peer (session_new hello limits))) (\<lambda>session.
     run_connected (from_stream_with_policy stream session policy)
       (abind (greet C) (\<lambda>_. respond_loop C E (ph_network_id hello)))))"

section \<open>Triples\<close>

text \<open>From a state with \<open>P\<close> the action ends in \<open>Q\<close> with a value, or in \<open>R\<close> with an error (none for a panic).\<close>

definition triple :: "('s \<Rightarrow> bool) \<Rightarrow> ('s, 'a) action \<Rightarrow> ('a \<Rightarrow> 's \<Rightarrow> bool) \<Rightarrow> (p2p_error option \<Rightarrow> 's \<Rightarrow> bool) \<Rightarrow> bool" where
  "triple P m Q R \<longleftrightarrow> (\<forall>w w' r. P w \<longrightarrow> m w = (w', r) \<longrightarrow>
     (case r of Ok x \<Rightarrow> Q x w' | Err e \<Rightarrow> R (Some e) w' | Panic \<Rightarrow> R None w' | Diverge \<Rightarrow> R None w'))"

lemma tripleI:
  "(\<And>w w' r. P w \<Longrightarrow> m w = (w', r) \<Longrightarrow> case r of Ok x \<Rightarrow> Q x w' | Err e \<Rightarrow> R (Some e) w' | Panic \<Rightarrow> R None w' | Diverge \<Rightarrow> R None w') \<Longrightarrow>
     triple P m Q R"
  unfolding triple_def by blast

lemma tripleD:
  assumes "triple P m Q R" "P w" "m w = (w', r)"
  shows "case r of Ok x \<Rightarrow> Q x w' | Err e \<Rightarrow> R (Some e) w' | Panic \<Rightarrow> R None w' | Diverge \<Rightarrow> R None w'"
  using assms unfolding triple_def by blast

lemma triple_abind:
  assumes "triple P m Q R" "\<And>x. triple (Q x) (f x) S R"
  shows "triple P (abind m f) S R"
proof (rule tripleI)
  fix w w' r
  assume "P w" and run: "abind m f w = (w', r)"
  obtain w1 q where m: "m w = (w1, q)" by fastforce
  note T = tripleD [OF assms(1) \<open>P w\<close> m]
  show "case r of Ok x \<Rightarrow> S x w' | Err e \<Rightarrow> R (Some e) w' | Panic \<Rightarrow> R None w' | Diverge \<Rightarrow> R None w'"
  proof (cases q)
    case (Ok x)
    then show ?thesis using T run m by (intro tripleD [OF assms(2) [of x]]) (simp_all add: abind_def)
  qed (use T run m in \<open>auto simp: abind_def\<close>)
qed

lemma triple_aret: "(\<And>w. P w \<Longrightarrow> Q x w) \<Longrightarrow> triple P (aret x) Q R"
  by (simp add: triple_def aret_def)

lemma triple_afail: "(\<And>w. P w \<Longrightarrow> R (Some e) w) \<Longrightarrow> triple P (afail e) Q R"
  by (simp add: triple_def afail_def)

lemma triple_alift:
  "(\<And>w x. P w \<Longrightarrow> r = Ok x \<Longrightarrow> Q x w) \<Longrightarrow> (\<And>w e. P w \<Longrightarrow> r = Err e \<Longrightarrow> R (Some e) w) \<Longrightarrow>
     (\<And>w. P w \<Longrightarrow> \<not> returns r \<Longrightarrow> R None w) \<Longrightarrow> triple P (alift r) Q R"
  by (auto simp: triple_def alift_def split: outcome.splits)

lemma triple_conseq:
  "triple P m Q R \<Longrightarrow> (\<And>w. P' w \<Longrightarrow> P w) \<Longrightarrow> (\<And>x w. Q x w \<Longrightarrow> Q' x w) \<Longrightarrow> (\<And>e w. R e w \<Longrightarrow> R' e w) \<Longrightarrow> triple P' m Q' R'"
  by (rule tripleI, drule tripleD) (auto split: outcome.splits)

lemma triple_afold:
  assumes "\<And>pre x post a. xs = pre @ x # post \<Longrightarrow> triple (I pre a) (f a x) (I (pre @ [x])) R"
  shows "triple (I [] a) (afold f a xs) (I xs) R"
proof -
  have "triple (I pre a) (afold f a post) (I xs) R" if "xs = pre @ post" for pre post a
    using that
  proof (induction post arbitrary: pre a)
    case (Cons x post)
    have "triple (I (pre @ [x]) b) (afold f b post) (I xs) R" for b using Cons.IH [of "pre @ [x]"] Cons.prems by simp
    then show ?case unfolding afold.simps by (intro triple_abind [OF assms [OF Cons.prems]])
  qed (auto intro: triple_aret)
  from this [of "[]" xs] show ?thesis by simp
qed

section \<open>What a call does to the node\<close>

text \<open>The block of an event has arrays of the right lengths, as every value of the Rust types has.\<close>

definition wf_event :: "node_event \<Rightarrow> bool" where
  "wf_event e = (case e of NE_Transaction _ \<Rightarrow> True | NE_Block _ b _ \<Rightarrow> wf_block b)"

definition env_wf :: "environment \<Rightarrow> bool" where
  "env_wf E \<longleftrightarrow> (\<forall>n events. env_others E n = Some events \<longrightarrow> list_all wf_event events)"

text \<open>The node has gone through a sequence of submissions.\<close>

definition evolves :: "crypto \<Rightarrow> node \<Rightarrow> node \<Rightarrow> bool" where
  "evolves C nd nd' \<longleftrightarrow> (\<exists>events. list_all wf_event events \<and> nd' = foldl (apply_event C) nd events)"

lemma evolves_refl [simp]: "evolves C nd nd"
  unfolding evolves_def by (intro exI [of _ "[]"]) simp

lemma evolves_events: "evolves C nd nd1 \<Longrightarrow> list_all wf_event events \<Longrightarrow> evolves C nd (foldl (apply_event C) nd1 events)"
  unfolding evolves_def by (metis foldl_append list_all_append)

lemma evolves_block: "evolves C nd nd1 \<Longrightarrow> wf_block b \<Longrightarrow> submit_block C io nd1 b t = (nd2, r) \<Longrightarrow> evolves C nd nd2"
  using evolves_events [of C nd nd1 "[NE_Block io b t]"] by (simp add: wf_event_def apply_event_def)

lemma evolves_transaction: "evolves C nd nd1 \<Longrightarrow> node_submit_transaction C nd1 t = Ok (e, nd2) \<Longrightarrow> evolves C nd nd2"
  using evolves_events [of C nd nd1 "[NE_Transaction t]"] by (simp add: wf_event_def apply_event_def)

text \<open>A node that is running, or whose log has failed and which has gone on without it.\<close>

definition node_sound :: "crypto \<Rightarrow> network_params \<Rightarrow> pow_verifier \<Rightarrow> node \<Rightarrow> bool" where
  "node_sound C params verifier nd \<longleftrightarrow> (\<exists>rs nd0. node_run C params verifier rs nd0 \<and>
     (nd = nd0 \<or> (\<exists>log. nd = nd0\<lparr>nd_log := log, nd_storage_faulted := True\<rparr>)))"

lemma node_sound_event:
  assumes "crypto_ok C" "node_sound C params verifier nd" "wf_event e"
  shows "node_sound C params verifier (apply_event C nd e)"
proof -
  obtain rs nd0 where run: "node_run C params verifier rs nd0"
    and nd: "nd = nd0 \<or> (\<exists>log. nd = nd0\<lparr>nd_log := log, nd_storage_faulted := True\<rparr>)"
    using assms(2) by (auto simp: node_sound_def)
  show ?thesis
  proof (cases e)
    case (NE_Transaction t)
    show ?thesis
    proof (cases "submit_transaction C (nd_state nd0) (nd_mempool nd0, nd_mempool_bytes nd0) t")
      case (Ok x)
      obtain entry pool bytes where x: "x = (entry, pool, bytes)" by (cases x)
      let ?nd1 = "nd0\<lparr>nd_mempool := pool, nd_mempool_bytes := bytes\<rparr>"
      have run1: "node_run C params verifier rs ?nd1"
        by (rule node_transaction [OF run, of t entry]) (simp add: node_submit_transaction_def Ok x)
      show ?thesis unfolding node_sound_def
        by (rule exI [of _ rs], rule exI [of _ ?nd1], cases nd0)
          (use nd run1 Ok x in \<open>auto simp: NE_Transaction apply_event_def node_submit_transaction_def\<close>)
    qed (use assms(2) nd in \<open>auto simp: NE_Transaction apply_event_def node_submit_transaction_def\<close>)
  next
    case (NE_Block io b t)
    show ?thesis
    proof (cases "nd_storage_faulted nd")
      case True
      then show ?thesis using assms(2) by (simp add: NE_Block apply_event_def submit_block_def)
    next
      case False
      then have eq: "nd = nd0" using nd by auto
      obtain nd' r where sub: "submit_block C io nd0 b t = (nd', r)" by fastforce
      have wf: "wf_block b" using assms(3) by (simp add: wf_event_def NE_Block)
      from assms(1) node_run_inv [OF run assms(1)] wf sub show ?thesis
      proof (cases rule: submit_block_cases)
        case refused
        then show ?thesis using sub eq assms(2) by (simp add: NE_Block apply_event_def)
      next
        case (storage r)
        then show ?thesis using sub eq run unfolding node_sound_def by (auto simp: NE_Block apply_event_def)
      next
        case (accepted frame fees)
        have "node_run C params verifier (rs @ [(t, frame)]) nd'"
          using node_block [OF run wf accepted(2)] sub accepted(1) by blast
        then show ?thesis using sub eq unfolding node_sound_def by (auto simp: NE_Block apply_event_def)
      qed
    qed
  qed
qed

lemma node_sound_evolves:
  assumes "crypto_ok C" "node_sound C params verifier nd" "evolves C nd nd'"
  shows "node_sound C params verifier nd'"
proof -
  from assms(3) obtain events where "list_all wf_event events" "nd' = foldl (apply_event C) nd events" by (auto simp: evolves_def)
  then show ?thesis using assms(2)
    by (induction events arbitrary: nd) (auto intro: node_sound_event [OF assms(1)])
qed

end
