(* ===== verification/CF_P2p_Honest.thy ===== *)
theory CF_P2p_Honest
  imports CF_P2p
begin

text \<open>
  A connection without faults to a peer that follows the protocol: frames arrive whole however the
  stream is cut, a session with budget left encodes and accepts the next message, and a pull from such
  a peer runs to its report. The peer of the example advertises and serves one new block.
\<close>

section \<open>Connections without faults\<close>

lemma decoded_frame_header:
  assumes "decode_peer_frame C frame net = Ok f"
  obtains header p l k where "frame = header @ p" "length header = 20" "validate_frame_header header = Ok ()"
    "slice_or_panic header 16 20 = (Ok l :: (peer_error, byte list) outcome)" "index_or_panic header 6 = (Ok k :: (peer_error, byte) outcome)"
    "unat (from_le_bytes l :: u32) = length p" "length p \<le> peer_payload_limit k"
proof -
  have "20 \<le> length frame" using assms by (auto simp: decode_peer_frame_def PEER_FRAME_HEADER_BYTES_def split: if_splits)
  then obtain a v k fl q l p where bs: "frame = a @ v @ [k, fl] @ q @ l @ p"
    and len: "length a = 4" "length v = 2" "length q = 8" "length l = 4" by (rule frame_header_split)
  have parts: "a = PEER_MAGIC" "from_le_bytes v = PEER_PROTOCOL_VERSION" "fl = 0" "length p \<le> peer_payload_limit k"
    "unat (from_le_bytes l :: u32) = length p" "decode_message C k p net = Ok (pf_message f)"
    using assms unfolding bs decode_peer_frame_parts [OF len] by blast+
  let ?h = "a @ v @ [k, fl] @ q @ l"
  have s: "slice_or_panic ?h 0 4 = (Ok a :: (peer_error, byte list) outcome)"
    "slice_or_panic ?h 4 6 = (Ok v :: (peer_error, byte list) outcome)"
    "slice_or_panic ?h 16 20 = (Ok l :: (peer_error, byte list) outcome)"
    "index_or_panic ?h 6 = (Ok k :: (peer_error, byte) outcome)" "index_or_panic ?h 7 = (Ok fl :: (peer_error, byte) outcome)"
    using len by (simp_all add: slice_or_panic_def index_or_panic_def nth_append)
  have "k \<in> {HELLO_KIND, GET_HEADERS_KIND, INVENTORY_KIND, GET_BLOCK_KIND, PEER_BLOCK_KIND, GET_MEMPOOL_KIND,
          TRANSACTION_INVENTORY_KIND, GET_TRANSACTION_KIND, PEER_TRANSACTION_KIND, SUBMIT_BLOCK_KIND,
          BLOCK_SUBMISSION_RESULT_KIND, GET_MINING_TEMPLATE_KIND, MINING_TEMPLATE_KIND}"
    using parts(6) by (auto simp: decode_message_def split: if_splits)
  then have "validate_frame_header ?h = Ok ()"
    unfolding validate_frame_header_def s using len parts(1-3) by (simp add: PEER_FRAME_HEADER_BYTES_def)
  then show thesis using len parts(4,5) s by (intro that [of ?h p l k]) (simp_all add: bs)
qed

lemma read_exact_clean:
  assumes "clean_reads (pc_reads c)" "incoming (pc_reads c) = bs @ rest"
  shows "\<exists>reads. read_exact_bounded (length bs) c = (c\<lparr>pc_reads := reads\<rparr>, Ok bs) \<and> clean_reads reads \<and> incoming reads = rest"
  using read_loop_clean [OF assms(1), of "[]" "length bs"] assms(2) by (auto simp: read_exact_bounded_def)

text \<open>The next frame of the stream is received, whatever pieces it arrives in.\<close>

lemma conn_receive_clean:
  assumes "clean_reads (pc_reads c)" "incoming (pc_reads c) = frame @ rest" "accept_inbound C (pc_session c) frame = Ok (m, s)"
  shows "\<exists>reads. conn_receive C c = (c\<lparr>pc_reads := reads, pc_session := s\<rparr>, Ok m) \<and> clean_reads reads \<and> incoming reads = rest"
proof -
  have budget: "ensure_budget (pc_session c) (length frame) = Ok ()"
    and dec: "\<exists>f. decode_peer_frame C frame (ph_network_id (ps_local_hello (pc_session c))) = Ok f"
    using assms(3) by (auto simp: accept_inbound_def)
  from dec obtain f where "decode_peer_frame C frame (ph_network_id (ps_local_hello (pc_session c))) = Ok f" ..
  then obtain header p l k where h: "frame = header @ p" "length header = 20" "validate_frame_header header = Ok ()"
    "slice_or_panic header 16 20 = (Ok l :: (peer_error, byte list) outcome)" "index_or_panic header 6 = (Ok k :: (peer_error, byte) outcome)"
    "unat (from_le_bytes l :: u32) = length p" "length p \<le> peer_payload_limit k" by (rule decoded_frame_header)
  obtain reads where r: "read_exact_bounded 20 c = (c\<lparr>pc_reads := reads\<rparr>, Ok header)" "clean_reads reads" "incoming reads = p @ rest"
    using read_exact_clean [OF assms(1), of header "p @ rest"] assms(2) h(1,2) by auto
  obtain reads' where r': "read_exact_bounded (length p) (c\<lparr>pc_reads := reads\<rparr>) = (c\<lparr>pc_reads := reads'\<rparr>, Ok p)"
    "clean_reads reads'" "incoming reads' = rest"
    using read_exact_clean [of "c\<lparr>pc_reads := reads\<rparr>" p rest] r(2,3) by auto
  have "receive_payload C header (length p) (c\<lparr>pc_reads := reads\<rparr>) = (c\<lparr>pc_reads := reads', pc_session := s\<rparr>, Ok m)"
    using assms(3) by (simp add: receive_payload_def r' h(1))
  then have "conn_receive C c = (c\<lparr>pc_reads := reads', pc_session := s\<rparr>, Ok m)"
    unfolding conn_receive_def PEER_FRAME_HEADER_BYTES_def r(1) prod.case try_in_simps h(3-5) Let_def h(6)
    using budget h(1,2,7) by simp
  then show ?thesis using r' by blast
qed

lemma conn_send_clean:
  assumes "clean_writes (pc_writes c)" "encode_outbound C (pc_session c) m = Ok (bs, s)"
  shows "\<exists>writes. conn_send C m c = (c\<lparr>pc_session := s, pc_writes := writes, pc_sent := pc_sent c @ bs\<rparr>, Ok ()) \<and> clean_writes writes"
  using write_loop_clean [OF assms(1), of bs "pc_sent c"] assms(2) by (auto simp: conn_send_def write_all_bounded_def)

section \<open>Steps of a task\<close>

text \<open>A task on such a connection: its session, the bytes still to arrive, the node and the clock.\<close>

definition peer_at :: "peer_session \<Rightarrow> byte list \<Rightarrow> node \<Rightarrow> nat \<Rightarrow> peer_task \<Rightarrow> bool" where
  "peer_at s rest nd t w \<longleftrightarrow> sh_node w = nd \<and> sh_tick w = t \<and> pc_session (tk_connection w) = s \<and>
     clean_reads (pc_reads (tk_connection w)) \<and> incoming (pc_reads (tk_connection w)) = rest \<and>
     clean_writes (pc_writes (tk_connection w))"

text \<open>The action succeeds with \<open>v\<close>.\<close>

definition gives :: "('s \<Rightarrow> bool) \<Rightarrow> ('s, 'a) action \<Rightarrow> 'a \<Rightarrow> ('s \<Rightarrow> bool) \<Rightarrow> bool" where
  "gives P m v Q \<longleftrightarrow> (\<forall>w. P w \<longrightarrow> (\<exists>w'. m w = (w', Ok v) \<and> Q w'))"

lemma gives_abind: "gives P m v Q \<Longrightarrow> gives Q (f v) u S \<Longrightarrow> gives P (abind m f) u S"
  unfolding gives_def abind_def by (metis (no_types, lifting) case_prod_conv try_in_simps(1))

lemma gives_aret: "gives P (aret x) x P"
  by (simp add: gives_def aret_def)

lemma gives_alift: "r = Ok x \<Longrightarrow> gives P (alift r) x P"
  by (simp add: gives_def alift_def)

lemma gives_send:
  assumes "encode_outbound C s m = Ok (bs, s')"
  shows "gives (peer_at s rest nd t) (send C m) () (peer_at s' rest nd t)"
  unfolding gives_def send_def on_connection_def peer_at_def
  using conn_send_clean [where C = C and m = m] assms by fastforce

lemma gives_receive:
  assumes "accept_inbound C s frame = Ok (m, s')"
  shows "gives (peer_at s (frame @ rest) nd t) (receive C) m (peer_at s' rest nd t)"
  unfolding gives_def receive_def on_connection_def peer_at_def
  using conn_receive_clean [where C = C and frame = frame and m = m and s = s' and rest = rest] assms by fastforce

lemma gives_read:
  assumes "env_others E t = Some events" "nd' = foldl (apply_event C) nd events"
  shows "gives (peer_at s rest nd t) (read_node C E f) (f nd') (peer_at s rest nd' (Suc t))"
  using assms by (auto simp: gives_def read_node_def abind_def lock_node_def peer_at_def)

lemma gives_clock: "env_clock E t = Some now \<Longrightarrow> gives (peer_at s rest nd t) (unix_time_seconds E) now (peer_at s rest nd (Suc t))"
  by (auto simp: gives_def unix_time_seconds_def peer_at_def)

lemma gives_submit:
  assumes "env_others E t = Some events" "submit_block C (env_append E (Suc t)) (foldl (apply_event C) nd events) b now = (nd', Ok fees)"
  shows "gives (peer_at s rest nd t) (lock_and_submit_block C E b now) () (peer_at s rest nd' (Suc t))"
  using assms by (auto simp: gives_def lock_and_submit_block_def abind_def lock_node_def peer_at_def)

section \<open>Sessions with budget left\<close>

text \<open>A session after the handshake, with its counters.\<close>

definition talking :: "peer_hello \<Rightarrow> peer_hello \<Rightarrow> u64 \<Rightarrow> u64 \<Rightarrow> u64 \<Rightarrow> peer_session" where
  "talking own other sent received bytes = \<lparr>ps_local_hello = own, ps_remote_hello = Some other, ps_hello_sent = True,
     ps_next_outbound = sent, ps_next_inbound = received, ps_messages_used = sent + received, ps_bytes_used = bytes,
     ps_limits = default_limits\<rparr>"

lemma talking_budget:
  assumes "unat sent \<le> 100" "unat received \<le> 100" "unat bytes + n \<le> 16777216"
  obtains bytes' where "unat bytes' = unat bytes + n" "ensure_budget (talking own other sent received bytes) n = Ok ()"
    "charge (talking own other sent received bytes) n =
       Ok ((talking own other sent received bytes)\<lparr>ps_messages_used := sent + received + 1, ps_bytes_used := bytes'\<rparr>)"
    "checked_add sent 1 = Some (sent + 1)" "checked_add received 1 = Some (received + 1)"
proof -
  let ?b = "bytes + word_of_nat n"
  have n: "unat (word_of_nat n :: u64) = n" using assms(3) by (simp add: unat_of_nat)
  have sr: "unat (sent + received) = unat sent + unat received" using assms(1,2) by (subst unat_add_lem [THEN iffD1]) simp_all
  have m: "checked_add (sent + received) 1 = Some (sent + received + 1)" "unat (sent + received + 1) = unat sent + unat received + 1"
    using assms(1,2) checked_add_unat [of "sent + received" 1 "sent + received + 1"] by (simp_all add: checked_add_def sr)
  have b: "checked_add bytes (word_of_nat n) = Some ?b" using assms(3) n by (simp add: checked_add_def)
  then have ub: "unat ?b = unat bytes + n" using checked_add_unat [OF b] n by simp
  have "\<not> sent + received + 1 > 512" "\<not> ?b > 33554432" using assms m(2) ub by (simp_all add: word_less_nat_alt)
  then show thesis using assms(1,2) m(1) b ub
    by (intro that [of ?b]) (simp_all add: ensure_budget_def charge_def talking_def default_limits_def checked_add_def)
qed

lemma talking_sends:
  assumes "encode_message C m = Ok (kind, p)" "\<not> is_hello m" "length p \<le> MAX_PEER_PAYLOAD_BYTES"
    and "unat sent \<le> 100" "unat received \<le> 100" "unat bytes + (20 + length p) \<le> 16777216"
  obtains bytes' where "unat bytes' = unat bytes + (20 + length p)" "sent \<noteq> 0 \<Longrightarrow>
    encode_outbound C (talking own other sent received bytes) m =
       Ok (peer_frame_bytes kind sent p, talking own other (sent + 1) received bytes')"
proof -
  let ?s = "talking own other sent received bytes"
  have frame: "encode_peer_frame C \<lparr>pf_sequence = sent, pf_message = m\<rparr> = Ok (peer_frame_bytes kind sent p)"
    using assms(1,3) by (simp add: encode_peer_frame_Ok)
  have check: "check_outbound ?s m = Ok ()" using assms(2) by (simp add: check_outbound_Ok talking_def)
  have len: "length (peer_frame_bytes kind sent p) = 20 + length p" by (simp add: peer_frame_bytes_def)
  obtain bytes' where b: "unat bytes' = unat bytes + (20 + length p)" "ensure_budget ?s (20 + length p) = Ok ()"
    "charge ?s (20 + length p) = Ok (?s\<lparr>ps_messages_used := sent + received + 1, ps_bytes_used := bytes'\<rparr>)"
    "checked_add sent 1 = Some (sent + 1)" using talking_budget [OF assms(4-6)] by metis
  have seq: "ps_next_outbound ?s = sent" by (simp add: talking_def)
  show thesis
  proof (rule that [OF b(1)])
    assume "sent \<noteq> 0"
    then show "encode_outbound C ?s m = Ok (peer_frame_bytes kind sent p, talking own other (sent + 1) received bytes')"
      using check frame b(2-4) by (simp add: encode_outbound_def Let_def seq len) (simp add: talking_def)
  qed
qed

lemma talking_receives:
  assumes "crypto_ok C" "encode_message C m = Ok (kind, p)" "\<not> is_hello m" "wf_message (ph_network_id own) m"
    and "length p \<le> MAX_PEER_PAYLOAD_BYTES" "unat sent \<le> 100" "unat received \<le> 100" "unat bytes + (20 + length p) \<le> 16777216"
  obtains bytes' where "unat bytes' = unat bytes + (20 + length p)"
    "accept_inbound C (talking own other sent received bytes) (peer_frame_bytes kind received p) =
       Ok (m, talking own other sent (received + 1) bytes')"
proof -
  let ?s = "talking own other sent received bytes"
  have "encode_peer_frame C \<lparr>pf_sequence = received, pf_message = m\<rparr> = Ok (peer_frame_bytes kind received p)"
    using assms(2,5) by (simp add: encode_peer_frame_Ok)
  then have dec: "decode_peer_frame C (peer_frame_bytes kind received p) (ph_network_id own) = Ok \<lparr>pf_sequence = received, pf_message = m\<rparr>"
    using assms(4) by (simp add: decode_peer_frame_Ok [OF assms(1)])
  have check: "check_inbound ?s m = Ok ()" using assms(3) by (auto simp: check_inbound_Ok talking_def is_hello_def split: peer_message.splits)
  have len: "length (peer_frame_bytes kind received p) = 20 + length p" by (simp add: peer_frame_bytes_def)
  obtain bytes' where b: "unat bytes' = unat bytes + (20 + length p)" "ensure_budget ?s (20 + length p) = Ok ()"
    "charge ?s (20 + length p) = Ok (?s\<lparr>ps_messages_used := sent + received + 1, ps_bytes_used := bytes'\<rparr>)"
    "checked_add received 1 = Some (received + 1)" using talking_budget [OF assms(6-8)] by metis
  have fields: "ps_next_inbound ?s = received" "ps_local_hello ?s = own" by (simp_all add: talking_def)
  show thesis
    by (rule that [OF b(1)])
      (use check dec b(2-4) assms(3) in \<open>simp add: accept_inbound_def Let_def fields len; simp add: talking_def is_hello_def add.assoc split: peer_message.splits\<close>)
qed

section \<open>The handshake\<close>

lemma gives_send_hello:
  assumes "encode_hello C s = Ok (bs, s')"
  shows "gives (peer_at s rest nd t) (send_hello C) () (peer_at s' rest nd t)"
proof -
  have "conn_send_hello C c = conn_send C (PM_Hello (ps_local_hello (pc_session c))) c" for c
    by (simp add: conn_send_hello_def conn_send_def encode_hello_def)
  then show ?thesis
    using gives_send [of C s "PM_Hello (ps_local_hello s)" bs s' rest nd t] assms
    by (simp add: encode_hello_def gives_def send_hello_def send_def on_connection_def peer_at_def)
qed

lemma default_limits_valid: "pl_validate default_limits = Ok ()"
  by (simp add: pl_validate_def default_limits_def from_secs_def MAX_CONFIGURED_PEERS_def MAX_MESSAGES_PER_PEER_def
      MIN_SESSION_HANDSHAKE_BYTES_def PEER_FRAME_HEADER_BYTES_def HELLO_PAYLOAD_BYTES_def MAX_BYTES_PER_PEER_def
      MAX_CONNECT_TIMEOUT_def MAX_IDLE_TIMEOUT_def MAX_TOTAL_TIMEOUT_def)

lemma gives_greet:
  assumes "crypto_ok C" "session_new own default_limits = Ok s" "wf_hello own" "wf_hello other" "compatible_hello own other"
    and "validate_hello other = Ok ()"
  shows "\<exists>frame. encode_peer_frame C \<lparr>pf_sequence = 0, pf_message = PM_Hello other\<rparr> = Ok frame \<and>
    gives (peer_at s (frame @ rest) nd t) (greet C) other (peer_at (talking own other 1 1 440) rest nd t)"
proof -
  have s: "s = \<lparr>ps_local_hello = own, ps_remote_hello = None, ps_hello_sent = False, ps_next_outbound = 0,
      ps_next_inbound = 0, ps_messages_used = 0, ps_bytes_used = 0, ps_limits = default_limits\<rparr>"
    using assms(2) by (auto simp: session_new_def)
  obtain fa s1 where a: "encode_hello C s = Ok (fa, s1)"
    "s1 = s\<lparr>ps_messages_used := 1, ps_bytes_used := 220, ps_next_outbound := 1, ps_hello_sent := True\<rparr>"
    using fresh_session_greets [OF assms(2,3)] by blast
  obtain frame where f: "encode_peer_frame C \<lparr>pf_sequence = 0, pf_message = PM_Hello other\<rparr> = Ok frame" "length frame = 220"
    using hello_frame [OF assms(4,6)] by blast
  have d: "decode_peer_frame C frame (ph_network_id own) = Ok \<lparr>pf_sequence = 0, pf_message = PM_Hello other\<rparr>"
    using f(1) assms(4,5) by (simp add: decode_peer_frame_Ok [OF assms(1)] wf_message_def compatible_hello_def)
  have "accept_inbound C s1 frame = Ok (PM_Hello other, talking own other 1 1 440)"
    using budget_for_hello [of s1] default_limits_valid d f(2) assms(5) unfolding a(2) s
    by (simp add: accept_inbound_def check_inbound_def checked_add_def compatible_hello_def talking_def)
  note received = gives_receive [OF this, of rest nd t]
  have "gives (peer_at (talking own other 1 1 440) rest nd t) (alift (expect_hello (PM_Hello other))) other (peer_at (talking own other 1 1 440) rest nd t)"
    by (rule gives_alift) (simp add: expect_hello_def)
  then have "gives (peer_at s (frame @ rest) nd t) (greet C) other (peer_at (talking own other 1 1 440) rest nd t)"
    unfolding greet_def by (intro gives_abind [OF gives_send_hello [OF a(1)]]) (rule gives_abind [OF received])
  with f(1) show ?thesis by blast
qed

text \<open>A request and its reply.\<close>

lemma gives_exchange:
  assumes "crypto_ok C" "encode_message C m = Ok (kind, p)" "\<not> is_hello m" "length p \<le> MAX_PEER_PAYLOAD_BYTES"
    and "encode_message C m' = Ok (kind', p')" "\<not> is_hello m'" "wf_message (ph_network_id own) m'" "length p' \<le> MAX_PEER_PAYLOAD_BYTES"
    and "sent \<noteq> 0" "unat sent \<le> 50" "unat received \<le> 50" "unat bytes + (20 + length p) + (20 + length p') \<le> 16777216"
    and "expect m' = Ok v"
  obtains bytes' where "unat bytes' = unat bytes + (20 + length p) + (20 + length p')"
    "\<And>rest nd t. gives (peer_at (talking own other sent received bytes) (peer_frame_bytes kind' received p' @ rest) nd t)
       (exchange C m expect) v (peer_at (talking own other (sent + 1) (received + 1) bytes') rest nd t)"
proof -
  have small: "unat sent \<le> 100" "unat received \<le> 100" "unat bytes + (20 + length p) \<le> 16777216" using assms(10-12) by simp_all
  obtain b1 where b1: "unat b1 = unat bytes + (20 + length p)" "encode_outbound C (talking own other sent received bytes) m =
      Ok (peer_frame_bytes kind sent p, talking own other (sent + 1) received b1)"
    using talking_sends [OF assms(2-4) small] assms(9) by metis
  have "unat (sent + 1) \<le> 100" using assms(10) by (simp add: unat_word_ariths mod_less_eq_dividend [THEN order_trans])
  moreover have "unat b1 + (20 + length p') \<le> 16777216" using b1(1) assms(12) by simp
  ultimately obtain b2 where b2: "unat b2 = unat b1 + (20 + length p')"
    "accept_inbound C (talking own other (sent + 1) received b1) (peer_frame_bytes kind' received p') =
       Ok (m', talking own other (sent + 1) (received + 1) b2)"
    using talking_receives [OF assms(1,5,6,7,8) _ small(2)] by metis
  show thesis
  proof (rule that [of b2])
    show "gives (peer_at (talking own other sent received bytes) (peer_frame_bytes kind' received p' @ rest) nd t)
       (exchange C m expect) v (peer_at (talking own other (sent + 1) (received + 1) b2) rest nd t)" for rest nd t
      unfolding exchange_def using assms(13)
      by (intro gives_abind [OF gives_send [OF b1(2)]] gives_abind [OF gives_receive [OF b2(2)]] gives_alift)
  qed (use b1(1) b2(1) in simp)
qed

section \<open>A pull\<close>

text \<open>The environment: the clock stands at 2000, and while the pull reads the pool another thread submits
  the same block again.\<close>

definition demo_environment :: environment where
  "demo_environment = \<lparr>env_fingerprint = replicate 32 2, env_nonce = replicate 32 7, env_clock = \<lambda>_. Some 2000,
     env_others = \<lambda>n. if n = 5 then Some [NE_Block IO_Durable demo_first 2000] else Some [], env_append = \<lambda>_. IO_Durable\<rparr>"

definition demo_address :: socket_addr where
  "demo_address = \<lparr>sa_ip = IP_V4 0x7f000001, sa_port = 18444, sa_flowinfo = 0, sa_scope_id = 0\<rparr>"

text \<open>The peer answers with its greeting, an inventory of one block, the block, and an empty pool; its bytes
  arrive in two pieces.\<close>

definition demo_frame :: "u64 \<Rightarrow> peer_message \<Rightarrow> byte list" where
  "demo_frame sequence m = (case encode_peer_frame demo_crypto \<lparr>pf_sequence = sequence, pf_message = m\<rparr> of Ok bs \<Rightarrow> bs | _ \<Rightarrow> [])"

definition demo_served :: "byte list" where
  "demo_served = demo_frame 0 (PM_Hello (demo_hello 1)) @ demo_frame 1 (PM_Inventory [block_id demo_crypto demo_first]) @
     demo_frame 2 (PM_Block demo_first) @ demo_frame 3 (PM_TransactionInventory [])"

definition demo_socket :: socket where
  "demo_socket = \<lparr>so_peer_addr = Some demo_address, so_nodelay_ok = True,
     so_reads = [RD_Data (take 7 demo_served), RD_Data (drop 7 demo_served)], so_writes = [WR_Accepts 100]\<rparr>"

lemma demo_environment_wf: "env_wf demo_environment"
  using demo_first_wf by (simp add: env_wf_def demo_environment_def wf_event_def)

definition demo_own :: peer_hello where
  "demo_own = node_peer_hello demo_environment demo_node"

lemma demo_frame_message:
  "encode_message demo_crypto m = Ok (kind, p) \<Longrightarrow> length p \<le> MAX_PEER_PAYLOAD_BYTES \<Longrightarrow> demo_frame sq m = peer_frame_bytes kind sq p"
  by (simp add: demo_frame_def encode_peer_frame_def peer_frame_bytes_def MAX_PEER_PAYLOAD_BYTES_def wire_limits)

lemma demo_block_new:
  "length (block_id demo_crypto demo_first) = 32" "\<not> contains_block demo_node (block_id demo_crypto demo_first)"
  by (simp_all add: contains_block_def demo_node_def index_contains_def index_new_def block_id_def demo_crypto_simps
      BLOCK_ID_DOMAIN_def demo_params_def replicate_32_eq)

lemma demo_block_message:
  "\<exists>p. encode_message demo_crypto (PM_Block demo_first) = Ok (PEER_BLOCK_KIND, p) \<and> length p \<le> MAX_PEER_PAYLOAD_BYTES"
proof -
  obtain fb where "encode_block demo_crypto demo_first = Ok fb"
    using demo_mined_encodes [of "[]" "replicate 32 2" 1 2000 0] by (auto simp: demo_first_def)
  then show ?thesis by (auto simp: encode_message_def encode_block_Ok block_sizes_def MAX_PEER_PAYLOAD_BYTES_def wire_limits frame_bytes_def)
qed

lemma demo_greetings:
  "wf_hello demo_own" "compatible_hello demo_own (demo_hello 1)" "validate_hello (demo_hello 1) = Ok ()"
  "\<exists>s. session_new demo_own default_limits = Ok s" "ph_network_id demo_own = replicate 32 1"
  by (simp_all add: demo_own_def node_peer_hello_def demo_environment_def demo_node_def demo_genesis_def demo_params_def
      demo_hello_def wf_hello_def compatible_hello_def validate_hello_def session_new_def default_limits_valid
      cumulative_work_def chain_work_bytes_def replicate_eq_replicate)

abbreviation demo_report :: sync_report where
  "demo_report \<equiv> \<lparr>sy_remote_hello = demo_hello 1, sy_inventory_items = 1, sy_requested_blocks = 1, sy_accepted_blocks = 1,
     sy_already_known = 0, sy_transaction_inventory_items = 0, sy_requested_transactions = 0, sy_accepted_transactions = 0,
     sy_already_known_transactions = 0, sy_rejected_transactions = 0\<rparr>"

lemma demo_exchange:
  assumes sub: "submit_block demo_crypto IO_Durable demo_node demo_first 2000 = (nd, Ok 0)"
    and session: "session_new demo_own default_limits = Ok s"
  shows "\<exists>s'. gives (peer_at s demo_served demo_node 1) (sync_exchange demo_crypto demo_environment [replicate 32 2]) demo_report
    (peer_at s' [] (apply_event demo_crypto nd (NE_Block IO_Durable demo_first 2000)) 6)"
proof -
  let ?C = demo_crypto and ?E = demo_environment and ?id = "block_id demo_crypto demo_first"
  let ?nd = "apply_event ?C nd (NE_Block IO_Durable demo_first 2000)" and ?talk = "talking demo_own (demo_hello 1)"
  obtain pb where pb: "encode_message ?C (PM_Block demo_first) = Ok (PEER_BLOCK_KIND, pb)" "length pb \<le> MAX_PEER_PAYLOAD_BYTES"
    using demo_block_message by blast
  have limit: "MAX_PEER_PAYLOAD_BYTES = 1048576" by (simp add: MAX_PEER_PAYLOAD_BYTES_def wire_limits)
  have msgs: "encode_message ?C (PM_GetHeaders [replicate 32 2] (replicate 32 3)) = Ok (GET_HEADERS_KIND, le16 1 @ replicate 32 2 @ replicate 32 3)"
    "encode_message ?C (PM_Inventory [?id]) = Ok (INVENTORY_KIND, le16 1 @ ?id)"
    "encode_message ?C (PM_GetBlock ?id) = Ok (GET_BLOCK_KIND, ?id)"
    "encode_message ?C PM_GetMempool = Ok (GET_MEMPOOL_KIND, [])"
    "encode_message ?C (PM_TransactionInventory []) = Ok (TRANSACTION_INVENTORY_KIND, le16 0)"
    by (simp_all add: encode_message_def validate_identifiers_def MAX_HEADER_LOCATORS_def MAX_INVENTORY_ITEMS_def)
  have net: "bc_network_id (bl_challenge demo_first) = replicate 32 1" by (simp add: demo_first_def demo_mined_def)
  note greets = gives_greet [OF crypto_ok_demo session demo_greetings(1) wf_demo_hello demo_greetings(2,3)]
  obtain fa where fa: "encode_peer_frame ?C \<lparr>pf_sequence = 0, pf_message = PM_Hello (demo_hello 1)\<rparr> = Ok fa" using greets by blast
  have hello: "gives (peer_at s (fa @ rest) nd t) (greet ?C) (demo_hello 1) (peer_at (?talk 1 1 440) rest nd t)" for rest nd t
    using greets [of rest nd t] fa by simp
  have served: "demo_served = fa @ peer_frame_bytes INVENTORY_KIND 1 (le16 1 @ ?id) @ peer_frame_bytes PEER_BLOCK_KIND 2 pb @
      peer_frame_bytes TRANSACTION_INVENTORY_KIND 3 (le16 0)"
    using demo_frame_message [OF msgs(2), of 1] demo_frame_message [OF pb, of 2] demo_frame_message [OF msgs(5), of 3] fa
    by (simp add: demo_served_def demo_block_new limit) (simp add: demo_frame_def)
  obtain b1 where b1: "unat b1 = 440 + 86 + 54"
    "\<And>rest nd t. gives (peer_at (?talk 1 1 440) (peer_frame_bytes INVENTORY_KIND 1 (le16 1 @ ?id) @ rest) nd t)
       (exchange ?C (PM_GetHeaders [replicate 32 2] (replicate 32 3)) expect_inventory) [?id] (peer_at (?talk 2 2 b1) rest nd t)"
    by (rule gives_exchange [OF crypto_ok_demo msgs(1) _ _ msgs(2), of demo_own 1 1 440 expect_inventory "[?id]" "demo_hello 1"])
      (simp_all add: is_hello_def limit demo_block_new wf_message_def expect_inventory_def)
  obtain b2 where b2: "unat b2 = unat b1 + 52 + (20 + length pb)"
    "\<And>rest nd t. gives (peer_at (?talk 2 2 b1) (peer_frame_bytes PEER_BLOCK_KIND 2 pb @ rest) nd t)
       (exchange ?C (PM_GetBlock ?id) expect_block) demo_first (peer_at (?talk 3 3 b2) rest nd t)"
    by (rule gives_exchange [OF crypto_ok_demo msgs(3) _ _ pb(1), of demo_own 2 2 b1 expect_block demo_first "demo_hello 1"])
      (use pb(2) b1(1) in \<open>simp_all add: is_hello_def limit demo_block_new wf_message_def expect_block_def demo_first_wf
        demo_greetings(5) net\<close>)
  obtain b3 where b3: "unat b3 = unat b2 + 20 + 22"
    "\<And>rest nd t. gives (peer_at (?talk 3 3 b2) (peer_frame_bytes TRANSACTION_INVENTORY_KIND 3 (le16 0) @ rest) nd t)
       (exchange ?C PM_GetMempool expect_transaction_inventory) [] (peer_at (?talk 4 4 b3) rest nd t)"
    by (rule gives_exchange [OF crypto_ok_demo msgs(4) _ _ msgs(5), of demo_own 3 3 b2 expect_transaction_inventory "[]" "demo_hello 1"])
      (use pb(2) b1(1) b2(1) in \<open>simp_all add: is_hello_def limit wf_message_def expect_transaction_inventory_def\<close>)
  let ?R = "\<lambda>r b w. peer_at (?talk r r b) w" and ?tail = "peer_frame_bytes TRANSACTION_INVENTORY_KIND 3 (le16 0)"
  have others: "n \<noteq> 5 \<Longrightarrow> env_others ?E n = Some []" "env_others ?E 5 = Some [NE_Block IO_Durable demo_first 2000]" for n
    by (simp_all add: demo_environment_def)
  have known: "gives (?R 2 b1 w demo_node 1) (read_node ?C ?E (\<lambda>nd. contains_block nd ?id)) False (?R 2 b1 w demo_node 2)" for w
    using gives_read [of ?E 1 "[]" demo_node ?C demo_node "?talk 2 2 b1" w "\<lambda>nd. contains_block nd ?id"] others(1) [of 1] demo_block_new(2)
    by (simp add: numeral_2_eq_2)
  have parent: "gives (?R 3 b2 w demo_node 2) (read_node ?C ?E (\<lambda>nd. contains_block nd (bc_previous_block (bl_challenge demo_first)))) True
      (?R 3 b2 w demo_node 3)" for w
    using gives_read [of ?E 2 "[]" demo_node ?C demo_node "?talk 3 3 b2" w "\<lambda>nd. contains_block nd (bc_previous_block (bl_challenge demo_first))"]
      others(1) [of 2] by (simp add: contains_block_def index_contains_def demo_node_def index_new_def demo_first_def demo_mined_def demo_params_def)
  have clock: "gives (?R 3 b2 w demo_node 3) (unix_time_seconds ?E) 2000 (?R 3 b2 w demo_node 4)" for w
    using gives_clock [of ?E 3 2000 "?talk 3 3 b2" w demo_node] by (simp add: demo_environment_def)
  have submit: "gives (?R 3 b2 w demo_node 4) (lock_and_submit_block ?C ?E demo_first 2000) () (?R 3 b2 w nd 5)" for w
    using gives_submit [of ?E 4 "[]" ?C demo_node demo_first 2000 nd 0 "?talk 3 3 b2" w] others(1) [of 4] sub by (simp add: demo_environment_def)
  have pool: "gives (?R 4 b3 w nd 5) (read_node ?C ?E f) (f ?nd) (?R 4 b3 w ?nd 6)" for w f
    using gives_read [of ?E 5 "[NE_Block IO_Durable demo_first 2000]" ?nd ?C nd "?talk 4 4 b3" w f] others(2) by simp
  have block: "gives (?R 2 b1 (peer_frame_bytes PEER_BLOCK_KIND 2 pb @ w) demo_node 1) (sync_block ?C ?E (0, 0, 0, None) ?id) (1, 1, 0, Some ?id)
      (?R 3 b2 w nd 5)" for w
    unfolding sync_block_def prod.case
    apply (rule gives_abind [OF known], simp only: if_False)
    apply (rule gives_abind [OF b2(2)], simp add: Let_def)
    apply (rule gives_abind [OF parent], simp)
    apply (rule gives_abind [OF clock])
    apply (rule gives_abind [OF submit])
    apply (simp add: gives_def aret_def)
    done
  let ?served = "fa @ peer_frame_bytes INVENTORY_KIND 1 (le16 1 @ ?id) @ peer_frame_bytes PEER_BLOCK_KIND 2 pb @ ?tail"
  have tip: "ph_tip (demo_hello 1) = replicate 32 3" by (simp add: demo_hello_def)
  have "gives (peer_at s ?served demo_node 1) (sync_exchange ?C ?E [replicate 32 2]) demo_report (?R 4 b3 [] ?nd 6)"
    unfolding sync_exchange_def
    apply (rule gives_abind [OF hello], simp only: tip)
    apply (rule gives_abind [OF b1(2)], simp add: MAX_BLOCKS_PER_SYNC_def del: One_nat_def)
    apply (rule gives_abind [OF gives_abind [OF block gives_aret]], simp del: One_nat_def)
    apply (rule gives_abind [OF b3(2) [of "[]", simplified]])
    apply (rule gives_abind [OF pool], simp del: One_nat_def)
    apply (rule gives_abind [OF gives_aret], simp del: One_nat_def)
    apply (simp add: gives_def aret_def)
    done
  then show ?thesis unfolding served by blast
qed

lemma demo_pull:
  "\<exists>w' nd. sync_from_peer demo_crypto demo_environment (Some demo_socket) demo_address default_limits PrivateOnly None
      \<lparr>sh_node = demo_node, sh_tick = 0\<rparr> = (w', Ok demo_report) \<and>
    submit_block demo_crypto IO_Durable demo_node demo_first 2000 = (nd, Ok 0) \<and>
    sh_node w' = apply_event demo_crypto nd (NE_Block IO_Durable demo_first 2000)"
proof -
  obtain nd where nd: "submit_block demo_crypto IO_Durable demo_node demo_first 2000 = (nd, Ok 0)" using demo_submit by blast
  obtain s where s: "session_new demo_own default_limits = Ok s" using demo_greetings(4) by blast
  obtain s' where x: "gives (peer_at s demo_served demo_node 1) (sync_exchange demo_crypto demo_environment [replicate 32 2]) demo_report
    (peer_at s' [] (apply_event demo_crypto nd (NE_Block IO_Durable demo_first 2000)) 6)" using demo_exchange [OF nd s] by blast
  have limits: "ps_limits s = default_limits" using s by (auto simp: session_new_def)
  let ?c = "\<lparr>pc_session = s, pc_reads = so_reads demo_socket, pc_writes = so_writes demo_socket, pc_sent = []\<rparr>"
  have address: "validate_peer_address demo_address PrivateOnly = Ok ()" by code_simp
  have connect: "connect_with_policy (Some demo_socket) demo_address s PrivateOnly = Ok ?c"
    by (simp add: connect_with_policy_def from_stream_with_policy_def demo_socket_def limits default_limits_valid
        address)
  have "encode_message demo_crypto (PM_TransactionInventory []) = Ok (TRANSACTION_INVENTORY_KIND, le16 0)"
    by (simp add: encode_message_def validate_identifiers_def)
  from demo_frame_message [OF this, of 3] have ne: "8 \<le> length demo_served"
    by (simp add: demo_served_def MAX_PEER_PAYLOAD_BYTES_def wire_limits peer_frame_bytes_def)
  have "peer_at s demo_served demo_node 1 \<lparr>sh_node = demo_node, sh_tick = 1, tk_connection = ?c\<rparr>"
    using ne by (auto simp: peer_at_def demo_socket_def)
  then obtain w where w: "sync_exchange demo_crypto demo_environment [replicate 32 2] \<lparr>sh_node = demo_node, sh_tick = 1, tk_connection = ?c\<rparr> =
      (w, Ok demo_report)" "sh_node w = apply_event demo_crypto nd (NE_Block IO_Durable demo_first 2000)"
    using x unfolding gives_def peer_at_def by blast
  have own: "with_nonce (node_peer_hello demo_environment demo_node) None = demo_own" by (simp add: with_nonce_def demo_own_def)
  have loc: "block_locator demo_node MAX_BLOCKS_PER_SYNC = [replicate 32 2]"
    by (simp add: block_locator_def demo_node_def index_new_def MAX_BLOCKS_PER_SYNC_def demo_params_def)
  have others: "env_others demo_environment 0 = Some []" by (simp add: demo_environment_def)
  show ?thesis
    unfolding sync_from_peer_def
    using w nd by (simp add: abind_def read_node_def lock_node_def others loc own s alift_def run_connected_def connect)
qed

end
