(* ===== verification/CF_P2p_Calls.thy ===== *)
theory CF_P2p_Calls
  imports CF_P2p_Honest
begin

text \<open>
  What the calls of the peer runtime guarantee whatever the peer sends: the node only goes through
  submissions, reports count what was done, and the default limits are large enough for a pull.

  \<open>tracked\<close> follows a call: how the node has evolved and how much of the session's budget is used.
\<close>

section \<open>Sizes of frames\<close>

definition frame_bound :: "peer_message \<Rightarrow> nat" where
  "frame_bound m = (case m of
       PM_GetBlock i \<Rightarrow> 20 + length i
     | PM_GetTransaction i \<Rightarrow> 20 + length i
     | PM_GetMempool \<Rightarrow> 20
     | PM_Transaction _ \<Rightarrow> 65556
     | _ \<Rightarrow> 1048596)"

lemma length_peer_frame_bytes [simp]: "length (peer_frame_bytes kind sq p) = 20 + length p"
  by (simp add: peer_frame_bytes_def)

lemma encoded_frame_bound: "encode_peer_frame C f = Ok bs \<Longrightarrow> length bs \<le> frame_bound (pf_message f)"
  by (auto simp: encode_peer_frame_Ok frame_bound_def encode_message_def MAX_PEER_PAYLOAD_BYTES_def wire_limits
      split: peer_message.splits if_splits)

section \<open>Errors that do not concern the budget\<close>

definition within_budget :: "(peer_error, 'a) outcome \<Rightarrow> bool" where
  "within_budget r \<longleftrightarrow> r \<noteq> Err PE_PeerBudgetExceeded"

lemma within_obind: "within_budget m \<Longrightarrow> (\<And>x. within_budget (f x)) \<Longrightarrow> within_budget (obind m f)"
  by (cases m) (auto simp: within_budget_def)

lemma within_map_err: "(\<And>e. g e \<noteq> PE_PeerBudgetExceeded) \<Longrightarrow> within_budget (map_err g m)"
  by (cases m) (auto simp: within_budget_def)

lemma within_ok_or: "e \<noteq> PE_PeerBudgetExceeded \<Longrightarrow> within_budget (ok_or e m)"
  by (cases m) (auto simp: within_budget_def ok_or_def)

lemma within_simple: "within_budget (Ok x)" "e \<noteq> PE_PeerBudgetExceeded \<Longrightarrow> within_budget (Err e)" "within_budget Panic"
  "within_budget (slice_or_panic bs i j)" "within_budget (index_or_panic bs i)"
  by (auto simp: within_budget_def slice_or_panic_def index_or_panic_def)

lemma within_if: "(b \<Longrightarrow> within_budget x) \<Longrightarrow> (\<not> b \<Longrightarrow> within_budget y) \<Longrightarrow> within_budget (if b then x else y)"
  by simp

lemma within_prod: "(\<And>a b. within_budget (f a b)) \<Longrightarrow> within_budget (case p of (a, b) \<Rightarrow> f a b)"
  by (cases p) simp

lemma within_Let: "(\<And>x. within_budget (f x)) \<Longrightarrow> within_budget (let x = v in f x)"
  by simp

lemma within_ofold: "(\<And>s x. within_budget (f s x)) \<Longrightarrow> within_budget (ofold f s xs)"
  by (induction xs arbitrary: s) (auto intro: within_obind within_simple)

lemma within_read_many: "(\<And>r. within_budget (f r)) \<Longrightarrow> within_budget (read_many f n r)"
  by (induction n arbitrary: r) (auto intro!: within_obind within_simple within_prod)

lemma within_option: "within_budget x \<Longrightarrow> (\<And>a. within_budget (f a)) \<Longrightarrow> within_budget (case m of None \<Rightarrow> x | Some a \<Rightarrow> f a)"
  by (cases m) simp_all

lemmas within_intros = within_obind within_map_err within_ok_or within_simple within_if within_prod within_Let within_ofold
  within_read_many within_option peer_error.distinct

lemma within_take: "within_budget (pr_take n r)"
  unfolding pr_take_def by (intro within_intros)

lemma within_word: "within_budget (pr_u8 r)" "within_budget (pr_u16 r)" "within_budget (pr_u32 r)" "within_budget (pr_u64 r)"
  "within_budget (pr_array n r)"
  unfolding pr_u8_def pr_u16_def pr_u32_def pr_u64_def pr_array_def
  by (intro within_intros within_take; fail)+

lemma within_finish: "within_budget (pr_finish r)"
  unfolding pr_finish_def by (intro within_intros) (simp add: within_budget_def usize_sub_or_panic_def)

lemmas within_payload = within_intros within_take within_word within_finish

lemma within_validate: "within_budget (validate_hello h)" "within_budget (validate_identifiers ids n f ne)"
  "within_budget (validate_mining_template C t net)" "within_budget (status_from_byte x)"
  unfolding validate_hello_def validate_identifiers_def validate_mining_template_def status_from_byte_def
  by (intro within_intros; fail)+

lemma within_template: "within_budget (decode_block_challenge net r)" "within_budget (decode_template_lock tag r)"
  "within_budget (decode_template_output r)" "within_budget (get_template_transaction C net r)" "within_budget (decode_mining_template C p net)"
proof -
  show c: "within_budget (decode_block_challenge net r)" for r unfolding decode_block_challenge_def by (intro within_payload)
  show l: "within_budget (decode_template_lock tag r)" for tag r unfolding decode_template_lock_def by (intro within_payload)
  show o: "within_budget (decode_template_output r)" for r unfolding decode_template_output_def by (intro within_payload l)
  show t: "within_budget (get_template_transaction C net r)" for r unfolding get_template_transaction_def by (intro within_payload)
  show "within_budget (decode_mining_template C p net)"
    unfolding decode_mining_template_def by (intro within_payload within_validate c o t)
qed

lemma within_messages: "within_budget (decode_hello p net)" "within_budget (decode_get_headers p)" "within_budget (decode_inventory f p)"
  "within_budget (decode_identifier p)" "within_budget (decode_peer_block C p net)" "within_budget (decode_peer_transaction C p net)"
  "within_budget (decode_submission_result p)"
  unfolding decode_hello_def decode_get_headers_def decode_inventory_def decode_identifier_def decode_peer_block_def
    decode_peer_transaction_def decode_submission_result_def
  by (intro within_payload within_validate; fail)+

lemma within_decode_message: "within_budget (decode_message C kind p net)"
  unfolding decode_message_def by (intro within_payload within_messages within_template)

lemma within_decode_frame: "within_budget (decode_peer_frame C bs net)"
  unfolding decode_peer_frame_def by (intro within_payload within_decode_message)

lemma within_encode_template: "within_budget (encode_mining_template C t)"
  unfolding encode_mining_template_def put_template_transaction_def by (intro within_payload within_validate)

lemma within_encode_message: "within_budget (encode_message C m)"
  unfolding encode_message_def
  by (cases m) (simp_all, (intro within_payload within_validate within_encode_template)+)

lemma within_encode_frame: "within_budget (encode_peer_frame C f)"
  unfolding encode_peer_frame_def by (intro within_payload within_encode_message)

lemma within_header: "within_budget (validate_frame_header h)"
  unfolding validate_frame_header_def by (intro within_payload)

lemma within_checks: "within_budget (check_outbound s m)" "within_budget (check_inbound s m)"
  unfolding check_outbound_def check_inbound_def by (cases m; simp; intro conjI impI within_intros)+

section \<open>The budget of a session\<close>

definition spent :: "peer_limits \<Rightarrow> hash32 \<Rightarrow> nat \<Rightarrow> nat \<Rightarrow> peer_session \<Rightarrow> bool" where
  "spent l net n b s \<longleftrightarrow> ps_limits s = l \<and> ph_network_id (ps_local_hello s) = net \<and>
     unat (ps_messages_used s) \<le> n \<and> unat (ps_bytes_used s) \<le> b"

definition affordable :: "peer_limits \<Rightarrow> nat \<Rightarrow> nat \<Rightarrow> bool" where
  "affordable l n b \<longleftrightarrow> n \<le> unat (pl_max_messages_per_peer l) \<and> b \<le> unat (pl_max_bytes_per_peer l)"

lemma affordable_ensures:
  assumes "spent l net n b s" "affordable l (n + 1) (b + k)" "len \<le> k"
  shows "ensure_budget s len = Ok ()"
proof -
  have room: "unat (ps_messages_used s) + 1 \<le> unat (pl_max_messages_per_peer l)" "unat (ps_bytes_used s) + len \<le> unat (pl_max_bytes_per_peer l)"
    using assms by (auto simp: spent_def affordable_def)
  have u64: "unat (x :: u64) < 2 ^ 64" for x using unsigned_less [of x] by simp
  have small: "unat (ps_messages_used s) + 1 < 2 ^ 64" "unat (ps_bytes_used s) + len < 2 ^ 64"
    using le_less_trans [OF room(1) u64] le_less_trans [OF room(2) u64] .
  then have len: "unat (word_of_nat len :: u64) = len" by (simp add: unat_of_nat)
  from small have c: "checked_add (ps_messages_used s) 1 = Some (ps_messages_used s + 1)"
    "checked_add (ps_bytes_used s) (word_of_nat len) = Some (ps_bytes_used s + word_of_nat len)"
    using len by (simp_all add: checked_add_def)
  from checked_add_unat [OF c(1)] checked_add_unat [OF c(2)] room len
  have "ps_messages_used s + 1 \<le> pl_max_messages_per_peer l" "ps_bytes_used s + word_of_nat len \<le> pl_max_bytes_per_peer l"
    by (simp_all add: word_le_nat_alt)
  then show ?thesis using c assms(1) by (auto simp: ensure_budget_def spent_def)
qed

lemma spent_cong:
  "spent l net n b s \<Longrightarrow> ps_limits s' = ps_limits s \<Longrightarrow> ps_local_hello s' = ps_local_hello s \<Longrightarrow>
     ps_messages_used s' = ps_messages_used s \<Longrightarrow> ps_bytes_used s' = ps_bytes_used s \<Longrightarrow> spent l net n b s'"
  by (simp add: spent_def)

lemma charged_spent:
  assumes "spent l net n b s" "ensure_budget s len = Ok ()" "charge s len = Ok s'" "len \<le> k"
  shows "spent l net (n + 1) (b + k) s'"
proof -
  have "unat (word_of_nat len :: u64) \<le> len" by (simp add: unat_of_nat)
  moreover obtain mu bu where "s' = s\<lparr>ps_messages_used := mu, ps_bytes_used := bu\<rparr>"
    "unat mu = Suc (unat (ps_messages_used s))" "unat bu = unat (ps_bytes_used s) + unat (word_of_nat len :: u64)"
    using budget_charge [OF assms(2,3)] .
  ultimately show ?thesis using assms(1,4) unfolding spent_def by simp
qed

lemma encode_outbound_parts:
  assumes "encode_outbound C s m = Ok (bs, s')"
  obtains s1 where "ensure_budget s (length bs) = Ok ()" "charge s (length bs) = Ok s1"
    "encode_peer_frame C \<lparr>pf_sequence = ps_next_outbound s, pf_message = m\<rparr> = Ok bs"
    "ps_limits s' = ps_limits s1" "ps_local_hello s' = ps_local_hello s1"
    "ps_messages_used s' = ps_messages_used s1" "ps_bytes_used s' = ps_bytes_used s1"
proof -
  obtain n s1 where s: "ensure_budget s (length bs) = Ok ()" "charge s (length bs) = Ok s1"
    "encode_peer_frame C \<lparr>pf_sequence = ps_next_outbound s, pf_message = m\<rparr> = Ok bs"
    and s': "s' = (if ps_next_outbound s = 0 then s1\<lparr>ps_next_outbound := n, ps_hello_sent := True\<rparr> else s1\<lparr>ps_next_outbound := n\<rparr>)"
    using assms unfolding encode_outbound_def Let_def by auto
  show thesis by (rule that [OF s]) (simp_all add: s')
qed

lemma encode_outbound_spent:
  assumes "spent l net n b s" "encode_outbound C s m = Ok (bs, s')"
  shows "spent l net (n + 1) (b + frame_bound m) s'"
proof -
  obtain s1 where p: "ensure_budget s (length bs) = Ok ()" "charge s (length bs) = Ok s1"
    "encode_peer_frame C \<lparr>pf_sequence = ps_next_outbound s, pf_message = m\<rparr> = Ok bs"
    "ps_limits s' = ps_limits s1" "ps_local_hello s' = ps_local_hello s1"
    "ps_messages_used s' = ps_messages_used s1" "ps_bytes_used s' = ps_bytes_used s1"
    using encode_outbound_parts [OF assms(2)] .
  have "length bs \<le> frame_bound m" using encoded_frame_bound [OF p(3)] by simp
  from spent_cong [OF charged_spent [OF assms(1) p(1,2) this] p(4-7)] show ?thesis .
qed

lemma encode_outbound_within:
  assumes "spent l net n b s" "affordable l (n + 1) (b + frame_bound m)"
  shows "within_budget (encode_outbound C s m)"
proof -
  have "encode_peer_frame C \<lparr>pf_sequence = ps_next_outbound s, pf_message = m\<rparr> = Ok bs \<Longrightarrow> ensure_budget s (length bs) = Ok ()" for bs
    using affordable_ensures [OF assms] encoded_frame_bound by fastforce
  moreover have "within_budget (charge s k)" for k by (auto simp: charge_def within_budget_def split: option.splits)
  ultimately show ?thesis
    using within_checks(1) [of s m] within_encode_frame [of C "\<lparr>pf_sequence = ps_next_outbound s, pf_message = m\<rparr>"]
    by (auto simp: encode_outbound_def Let_def within_budget_def obind_eq_Err ok_or_eq_Err split: option.splits)
qed

lemma accept_inbound_parts:
  assumes "accept_inbound C s bs = Ok (m, s')"
  obtains f s1 where "ensure_budget s (length bs) = Ok ()" "charge s (length bs) = Ok s1"
    "decode_peer_frame C bs (ph_network_id (ps_local_hello s)) = Ok f" "m = pf_message f"
    "ps_limits s' = ps_limits s1" "ps_local_hello s' = ps_local_hello s1"
    "ps_messages_used s' = ps_messages_used s1" "ps_bytes_used s' = ps_bytes_used s1"
proof -
  obtain f n s1 where s: "ensure_budget s (length bs) = Ok ()" "charge s (length bs) = Ok s1"
    "decode_peer_frame C bs (ph_network_id (ps_local_hello s)) = Ok f" "m = pf_message f"
    and s': "s' = (case pf_message f of PM_Hello hello \<Rightarrow> s1\<lparr>ps_next_inbound := n, ps_remote_hello := Some hello\<rparr> | _ \<Rightarrow> s1\<lparr>ps_next_inbound := n\<rparr>)"
    using assms unfolding accept_inbound_def Let_def by (auto split: if_splits)
  show thesis by (rule that [OF s]) (simp_all add: s' split: peer_message.splits)
qed

lemma accept_inbound_spent:
  assumes "crypto_ok C" "spent l net n b s" "accept_inbound C s bs = Ok (m, s')"
  shows "spent l net (n + 1) (b + frame_bound m) s'" "wf_message net m"
proof -
  obtain f s1 where p: "ensure_budget s (length bs) = Ok ()" "charge s (length bs) = Ok s1"
    "decode_peer_frame C bs (ph_network_id (ps_local_hello s)) = Ok f" "m = pf_message f"
    "ps_limits s' = ps_limits s1" "ps_local_hello s' = ps_local_hello s1"
    "ps_messages_used s' = ps_messages_used s1" "ps_bytes_used s' = ps_bytes_used s1"
    using accept_inbound_parts [OF assms(3)] .
  have "wf_message net (pf_message f)" "encode_peer_frame C f = Ok bs"
    using p(3) assms(2) unfolding decode_peer_frame_Ok [OF assms(1)] by (simp_all add: spent_def)
  then have "wf_message net m" "length bs \<le> frame_bound m" using encoded_frame_bound p(4) by blast+
  then show "spent l net (n + 1) (b + frame_bound m) s'" "wf_message net m"
    using spent_cong [OF charged_spent [OF assms(2) p(1,2)] p(5-8)] by blast+
qed

lemma accept_inbound_within:
  assumes "ensure_budget s (length bs) = Ok ()"
  shows "within_budget (accept_inbound C s bs)"
proof -
  have "within_budget (charge s k)" for k by (auto simp: charge_def within_budget_def split: option.splits)
  then show ?thesis using assms
    unfolding accept_inbound_def Let_def by (auto intro!: within_payload within_decode_frame within_checks)
qed

lemma socket_error_within: "socket_error f \<noteq> PE_PeerBudgetExceeded"
  by (cases f) (auto simp: socket_error_def)

lemma read_loop_within: "within_budget (snd (read_loop len got reads))"
proof (induction len got reads rule: read_loop.induct)
  case (1 len got reads)
  show ?case
  proof (cases "length got < len")
    case True
    obtain reads1 q where s: "socket_read (len - length got) reads = (reads1, q)" by fastforce
    note T = socket_read_takes [OF s]
    show ?thesis
    proof (cases "\<exists>chunk. q = Ok chunk \<and> chunk \<noteq> []")
      case False
      then show ?thesis using T True s socket_error_within
        by (subst read_loop.simps) (auto simp: within_budget_def split: outcome.splits)
    next
      case ok: True
      then obtain chunk where q: "q = Ok chunk" "chunk \<noteq> []" by blast
      show ?thesis using "1.IH" [OF True s [symmetric] q] unfolding read_loop_more [OF True s [unfolded q(1)] q(2)] .
    qed
  qed (simp add: read_loop.simps within_simple)
qed

lemma within_try_in: "within_budget m \<Longrightarrow> (\<And>x. m = Ok x \<Longrightarrow> within_budget (snd (f x))) \<Longrightarrow> within_budget (snd (try_in s m f))"
  by (cases m) (auto simp: within_budget_def)

lemma conn_receive_within:
  assumes "\<And>k. k \<le> 1048596 \<Longrightarrow> ensure_budget (pc_session c) k = Ok ()"
  shows "within_budget (snd (conn_receive C c))"
proof -
  have read: "within_budget (snd (read_exact_bounded n c))" "pc_session (fst (read_exact_bounded n c)) = pc_session c" for n c
    using read_loop_within [of n "[]" "pc_reads c"] by (auto simp: read_exact_bounded_def split: prod.splits)
  have readn: "read_exact_bounded n c = (c1, Ok bs) \<Longrightarrow> length bs = n" for n c c1 bs
    using read_exact_bounded_takes(1) by blast
  have payload: "within_budget (snd (receive_payload C header n c1))"
    if "pc_session c1 = pc_session c" "length header = 20" "n \<le> peer_payload_limit kind" for header n c1 kind
  proof -
    obtain c2 r2 where two: "read_exact_bounded n c1 = (c2, r2)" by fastforce
    have "20 + n \<le> 1048596" using that(3)
      by (auto simp: peer_payload_limit_def MAX_PEER_PAYLOAD_BYTES_def wire_limits split: if_splits)
    then have "within_budget (accept_inbound C (pc_session c2) (header @ bs))" if "r2 = Ok bs" for bs
      using read(2) [of n c1] readn [of n c1 c2 bs] two \<open>r2 = Ok bs\<close> \<open>pc_session c1 = pc_session c\<close> \<open>length header = 20\<close>
      by (intro accept_inbound_within) (simp add: assms)
    then show ?thesis using read(1) [of n c1] unfolding receive_payload_def two prod.case snd_conv
      by (intro within_try_in) (auto simp: within_simple)
  qed
  obtain c1 r1 where one: "read_exact_bounded PEER_FRAME_HEADER_BYTES c = (c1, r1)" by fastforce
  have c1: "pc_session c1 = pc_session c" using read(2) [of PEER_FRAME_HEADER_BYTES c] one by simp
  have h: "length header = 20" if "r1 = Ok header" for header using readn one that by (simp add: PEER_FRAME_HEADER_BYTES_def)
  have lim: "n \<le> peer_payload_limit kind \<Longrightarrow> ensure_budget (pc_session c1) (PEER_FRAME_HEADER_BYTES + n) = Ok ()" for n kind
    unfolding c1 by (rule assms) (auto simp: peer_payload_limit_def MAX_PEER_PAYLOAD_BYTES_def wire_limits PEER_FRAME_HEADER_BYTES_def split: if_splits)
  show ?thesis
    unfolding conn_receive_def one prod.case Let_def
    using read(1) [of PEER_FRAME_HEADER_BYTES c] one
    by (intro within_try_in within_header within_simple)
      (auto simp: within_simple not_less lim intro!: payload [OF c1 h])
qed

section \<open>Following a call\<close>

definition tracked :: "crypto \<Rightarrow> node \<Rightarrow> hash32 set \<Rightarrow> peer_limits \<Rightarrow> hash32 \<Rightarrow> nat \<Rightarrow> nat \<Rightarrow> peer_task \<Rightarrow> bool" where
  "tracked C nd0 K l net n b w \<longleftrightarrow> evolves C nd0 (sh_node w) \<and> (\<forall>x \<in> K. contains_block (sh_node w) x) \<and>
     spent l net n b (pc_session (tk_connection w))"

definition failing :: "crypto \<Rightarrow> node \<Rightarrow> bool \<Rightarrow> p2p_error option \<Rightarrow> 'z shared_scheme \<Rightarrow> bool" where
  "failing C nd0 a e w \<longleftrightarrow> evolves C nd0 (sh_node w) \<and> (a \<longrightarrow> e \<noteq> Some (P2P_Peer PE_PeerBudgetExceeded))"

lemma tracked_mono: "tracked C nd0 K l net n b w \<Longrightarrow> n \<le> n' \<Longrightarrow> b \<le> b' \<Longrightarrow> K' \<subseteq> K \<Longrightarrow> tracked C nd0 K' l net n' b' w"
  by (auto simp: tracked_def spent_def)

lemma triple_pure: "(\<phi> \<Longrightarrow> triple P m Q R) \<Longrightarrow> triple (\<lambda>w. P w \<and> \<phi>) m Q R"
  by (auto simp: triple_def)

text \<open>No submission removes a block from the index.\<close>

lemma submit_block_keeps:
  assumes "submit_block C io nd b t = (nd', r)" "contains_block nd x"
  shows "contains_block nd' x"
proof -
  have "index_contains idx' x" if "commit_prepared (st, idx) p = ((st', idx'), q)" "index_contains idx x" for st idx p st' idx' q
    using that by (auto simp: commit_prepared_def Let_def index_contains_def try_in_def
        split: validated_candidate.splits if_splits outcome.splits prod.splits option.splits)
  then show ?thesis using assms
    by (auto simp: contains_block_def submit_block_def Let_def node_revalidate_def try_in_def
        split: if_splits outcome.splits append_io.splits prod.splits)
qed

lemma evolves_keeps:
  assumes "evolves C nd nd'" "contains_block nd x"
  shows "contains_block nd' x"
proof -
  have step: "contains_block (apply_event C n e) x" if "contains_block n x" for n e
    using that submit_block_keeps [of C _ n _ _ _ _ x]
    by (cases e) (auto simp: apply_event_def contains_block_def node_submit_transaction_def split: outcome.splits prod.splits, metis prod.collapse)
  from assms(1) obtain events where "nd' = foldl (apply_event C) nd events" by (auto simp: evolves_def)
  then show ?thesis using assms(2) by (induction events arbitrary: nd) (auto simp: step)
qed

lemma submit_block_indexes:
  assumes "submit_block C io nd b t = (nd', Ok fees)"
  shows "contains_block nd' (block_id C b)"
proof -
  have "index_contains idx' (pb_block_id p)" if "commit_prepared (st, idx) p = ((st', idx'), Ok f)" for st idx p st' idx' f
    using that by (auto simp: commit_prepared_def Let_def index_contains_def try_in_def
        split: validated_candidate.splits if_splits outcome.splits prod.splits option.splits)
  moreover have "pb_block_id p = block_id C b" if "prepare_block C st idx params verifier b t frame = Ok p" for st idx params verifier frame p
    using that by (auto simp: prepare_block_def Let_def)
  ultimately show ?thesis using assms
    by (auto simp: contains_block_def submit_block_def Let_def node_revalidate_def try_in_def
        split: if_splits outcome.splits append_io.splits prod.splits) (metis (no_types))+
qed

lemma evolves_lock:
  assumes "env_wf E" "evolves C nd0 (sh_node w)" "lock_node C E w = (w', r)"
  shows "evolves C nd0 (sh_node w')" "evolves C (sh_node w) (sh_node w')" "r = Ok () \<or> r = Err P2P_PoisonedNode"
    "shared.more w' = shared.more w"
  using assms evolves_events [OF assms(2)] evolves_events [OF evolves_refl]
  by (auto simp: lock_node_def env_wf_def split: option.splits)

lemma tracked_step:
  assumes "tracked C nd0 K l net n b w" "evolves C (sh_node w) (sh_node w')" "evolves C nd0 (sh_node w')" "shared.more w' = shared.more w"
  shows "tracked C nd0 K l net n b w'"
proof -
  have "tk_connection w' = tk_connection w" using assms(4) by (cases w; cases w') simp
  then show ?thesis using assms evolves_keeps by (auto simp: tracked_def)
qed

lemma triple_lock:
  assumes "env_wf E"
  shows "triple (tracked C nd0 K l net n b) (lock_node C E) (\<lambda>_. tracked C nd0 K l net n b) (failing C nd0 a)"
proof (rule tripleI)
  fix w w' r
  assume t: "tracked C nd0 K l net n b w" and r: "lock_node C E w = (w', r)"
  have e: "evolves C nd0 (sh_node w)" using t by (simp add: tracked_def)
  from tracked_step [OF t] evolves_lock [OF assms e r]
  show "case r of Ok x \<Rightarrow> tracked C nd0 K l net n b w' | Err e \<Rightarrow> failing C nd0 a (Some e) w'
      | Panic \<Rightarrow> failing C nd0 a None w' | Diverge \<Rightarrow> failing C nd0 a None w'"
    by (auto simp: failing_def)
qed

lemma triple_read_node:
  assumes "env_wf E"
  shows "triple (tracked C nd0 K l net n b) (read_node C E f) (\<lambda>x w. tracked C nd0 K l net n b w \<and> x = f (sh_node w)) (failing C nd0 a)"
  unfolding read_node_def by (rule triple_abind [OF triple_lock [OF assms]]) (simp add: triple_def)

lemma triple_clock: "triple (tracked C nd0 K l net n b) (unix_time_seconds E) (\<lambda>_. tracked C nd0 K l net n b) (failing C nd0 a)"
  by (auto simp: triple_def unix_time_seconds_def tracked_def failing_def ok_or_def split: option.splits)

lemma triple_submit_block:
  assumes "env_wf E" "wf_block blk"
  shows "triple (tracked C nd0 K l net n b) (lock_and_submit_block C E blk t)
    (\<lambda>_. tracked C nd0 (insert (block_id C blk) K) l net n b) (failing C nd0 a)"
  unfolding lock_and_submit_block_def
proof (rule triple_abind [OF triple_lock [OF assms(1)]], rule tripleI)
  fix w w' r and u :: unit
  assume t: "tracked C nd0 K l net n b w" and run: "(case submit_block C (env_append E (sh_tick w)) (sh_node w) blk t of (nd, r) \<Rightarrow>
         (w\<lparr>sh_node := nd\<rparr>, map_err P2P_Node (obind r (\<lambda>_. Ok ())))) = (w', r)"
  obtain nd q where s: "submit_block C (env_append E (sh_tick w)) (sh_node w) blk t = (nd, q)" by fastforce
  have w': "w' = w\<lparr>sh_node := nd\<rparr>" "r = map_err P2P_Node (obind q (\<lambda>_. Ok ()))" using run s by auto
  have e: "evolves C nd0 nd" using evolves_block [OF _ assms(2) s] t by (auto simp: tracked_def)
  have "tracked C nd0 (insert (block_id C blk) K) l net n b w'" if "q = Ok fees" for fees
    using t e submit_block_keeps [OF s] submit_block_indexes [of C _ _ blk t nd fees] s that by (auto simp: tracked_def w')
  then show "case r of Ok x \<Rightarrow> tracked C nd0 (insert (block_id C blk) K) l net n b w' | Err e \<Rightarrow> failing C nd0 a (Some e) w'
      | Panic \<Rightarrow> failing C nd0 a None w' | Diverge \<Rightarrow> failing C nd0 a None w'"
    using e w' by (cases q) (auto simp: failing_def)
qed

lemma triple_submit_transaction:
  assumes "env_wf E"
  shows "triple (tracked C nd0 K l net n b) (lock_and_submit_transaction C E t) (\<lambda>_. tracked C nd0 K l net n b) (failing C nd0 a)"
  unfolding lock_and_submit_transaction_def
proof (rule triple_abind [OF triple_lock [OF assms]], rule tripleI)
  fix w w' and r :: "(p2p_error, bool) outcome" and u :: unit
  assume t: "tracked C nd0 K l net n b w" and run: "(case node_submit_transaction C (sh_node w) t of
         Ok (_, nd) \<Rightarrow> (w\<lparr>sh_node := nd\<rparr>, Ok True) | Err _ \<Rightarrow> (w, Ok False) | Panic \<Rightarrow> (w, Panic) | Diverge \<Rightarrow> (w, Diverge)) = (w', r)"
  have e: "evolves C nd0 (sh_node w)" using t by (simp add: tracked_def)
  have k: "contains_block nd x" if "node_submit_transaction C (sh_node w) t = Ok (en, nd)" "x \<in> K" for en nd x
    using that t by (auto simp: node_submit_transaction_def contains_block_def tracked_def)
  show "case r of Ok x \<Rightarrow> tracked C nd0 K l net n b w' | Err e \<Rightarrow> failing C nd0 a (Some e) w'
      | Panic \<Rightarrow> failing C nd0 a None w' | Diverge \<Rightarrow> failing C nd0 a None w'"
    using run t e k evolves_transaction [OF e, of t]
    by (cases "node_submit_transaction C (sh_node w) t") (auto simp: tracked_def failing_def)
qed

lemma triple_send:
  assumes "a \<longrightarrow> affordable l (n + 1) (b + frame_bound m)"
  shows "triple (tracked C nd0 K l net n b) (send C m) (\<lambda>_. tracked C nd0 K l net (n + 1) (b + frame_bound m)) (failing C nd0 a)"
proof (rule tripleI)
  fix w w' r
  assume t: "tracked C nd0 K l net n b w" and run: "send C m w = (w', r)"
  obtain c q where c: "conn_send C m (tk_connection w) = (c, q)" by fastforce
  have w': "w' = w\<lparr>tk_connection := c\<rparr>" "r = map_err P2P_Peer q" using run c by (auto simp: send_def on_connection_def)
  have sp: "spent l net n b (pc_session (tk_connection w))" using t by (simp add: tracked_def)
  have ok: "spent l net (n + 1) (b + frame_bound m) s" if "encode_outbound C (pc_session (tk_connection w)) m = Ok (bs, s)" for bs s
    using encode_outbound_spent [OF sp that] .
  have err: "encode_outbound C (pc_session (tk_connection w)) m \<noteq> Err PE_PeerBudgetExceeded" if a
    using encode_outbound_within [OF sp] assms that by (simp add: within_budget_def)
  show "case r of Ok x \<Rightarrow> tracked C nd0 K l net (n + 1) (b + frame_bound m) w' | Err e \<Rightarrow> failing C nd0 a (Some e) w'
      | Panic \<Rightarrow> failing C nd0 a None w' | Diverge \<Rightarrow> failing C nd0 a None w'"
    using conn_send_writes(2) [OF c] t ok err socket_error_within unfolding w'
    by (cases "encode_outbound C (pc_session (tk_connection w)) m"; cases q) (auto simp: tracked_def failing_def)
qed

lemma send_hello_send:
  "send_hello C w = send C (PM_Hello (ps_local_hello (pc_session (tk_connection w)))) w"
  by (simp add: send_hello_def send_def on_connection_def conn_send_hello_def conn_send_def encode_hello_def)

lemma triple_send_hello:
  assumes "a \<longrightarrow> affordable l (n + 1) (b + 1048596)"
  shows "triple (tracked C nd0 K l net n b) (send_hello C) (\<lambda>_. tracked C nd0 K l net (n + 1) (b + 1048596)) (failing C nd0 a)"
proof -
  have "frame_bound (PM_Hello h) = 1048596" for h by (simp add: frame_bound_def)
  then have "triple (tracked C nd0 K l net n b) (send C (PM_Hello h)) (\<lambda>_. tracked C nd0 K l net (n + 1) (b + 1048596)) (failing C nd0 a)" for h
    using triple_send [of a l n b "PM_Hello h" C nd0 K net] assms by simp
  then show ?thesis unfolding triple_def send_hello_send by blast
qed

lemma triple_receive:
  assumes "crypto_ok C" "a \<longrightarrow> affordable l (n + 1) (b + 1048596)"
  shows "triple (tracked C nd0 K l net n b) (receive C)
    (\<lambda>m w. tracked C nd0 K l net (n + 1) (b + frame_bound m) w \<and> wf_message net m) (failing C nd0 a)"
proof (rule tripleI)
  fix w w' r
  assume t: "tracked C nd0 K l net n b w" and run: "receive C w = (w', r)"
  obtain c q where c: "conn_receive C (tk_connection w) = (c, q)" by fastforce
  have w': "w' = w\<lparr>tk_connection := c\<rparr>" "r = map_err P2P_Peer q" using run c by (auto simp: receive_def on_connection_def)
  have sp: "spent l net n b (pc_session (tk_connection w))" using t by (simp add: tracked_def)
  have err: "q \<noteq> Err PE_PeerBudgetExceeded" if a
    using conn_receive_within [of "tk_connection w" C] affordable_ensures [OF sp] assms(2) that c by (simp add: within_budget_def)
  have ok: "spent l net (n + 1) (b + frame_bound m) (pc_session c) \<and> wf_message net m" if "q = Ok m" for m
    using conn_receive_takes(1) [OF c] that accept_inbound_spent [OF assms(1) sp] by auto
  show "case r of Ok m \<Rightarrow> tracked C nd0 K l net (n + 1) (b + frame_bound m) w' \<and> wf_message net m
      | Err e \<Rightarrow> failing C nd0 a (Some e) w' | Panic \<Rightarrow> failing C nd0 a None w' | Diverge \<Rightarrow> failing C nd0 a None w'"
    using t ok err unfolding w' by (cases q) (auto simp: tracked_def failing_def)
qed

text \<open>An expected reply: what it holds, how large its frame may be, and that nothing else is an exceeded
  budget.\<close>

definition expects :: "hash32 \<Rightarrow> (peer_message \<Rightarrow> (p2p_error, 'a) outcome) \<Rightarrow> ('a \<Rightarrow> bool) \<Rightarrow> nat \<Rightarrow> bool" where
  "expects net expect \<phi> k \<longleftrightarrow> (\<forall>m. wf_message net m \<longrightarrow> (case expect m of
     Ok x \<Rightarrow> \<phi> x \<and> frame_bound m \<le> k | Err e \<Rightarrow> e \<noteq> P2P_Peer PE_PeerBudgetExceeded | _ \<Rightarrow> False))"

lemma expects_replies:
  "expects net expect_hello wf_hello 1048596"
  "expects net expect_inventory (list_all (\<lambda>i. length i = 32)) 1048596"
  "expects net expect_block wf_block 1048596"
  "expects net expect_transaction_inventory (list_all (\<lambda>i. length i = 32)) 1048596"
  "expects net expect_transaction wf_transaction 65556"
  "expects net expect_block_submission_result (\<lambda>_. True) 1048596"
  "expects net expect_mining_template (wf_template net) 1048596"
  by (auto simp: expects_def expect_hello_def expect_inventory_def expect_block_def expect_transaction_inventory_def
      expect_transaction_def expect_block_submission_result_def expect_mining_template_def wf_message_def frame_bound_def
      split: peer_message.splits)

lemma triple_expect:
  assumes "expects net expect \<phi> k"
  shows "triple (\<lambda>w. tracked C nd0 K l net n (b + frame_bound m) w \<and> wf_message net m) (alift (expect m))
    (\<lambda>x w. tracked C nd0 K l net n (b + k) w \<and> \<phi> x) (failing C nd0 a)"
  using assms
  by (auto simp: triple_def alift_def expects_def failing_def tracked_def spent_def split: outcome.splits)

lemma triple_exchange:
  assumes "crypto_ok C" "expects net expect \<phi> k" "a \<longrightarrow> affordable l (n + 2) (b + frame_bound m + 1048596)"
  shows "triple (tracked C nd0 K l net n b) (exchange C m expect)
    (\<lambda>x w. tracked C nd0 K l net (n + 2) (b + frame_bound m + k) w \<and> \<phi> x) (failing C nd0 a)"
proof -
  have a: "a \<longrightarrow> affordable l (n + 1) (b + frame_bound m)" "a \<longrightarrow> affordable l (n + 1 + 1) (b + frame_bound m + 1048596)"
    using assms(3) by (auto simp: affordable_def)
  show ?thesis unfolding exchange_def
    using triple_abind [OF triple_send [OF a(1)] triple_abind [OF triple_receive [OF assms(1) a(2)] triple_expect [OF assms(2)]]]
    by simp
qed

lemma triple_exchange_upto:
  assumes "crypto_ok C" "expects net expect \<phi> k" "frame_bound m \<le> f" "n + 2 \<le> n'" "b + f + k \<le> b'"
    "a \<longrightarrow> affordable l n' (b + f + 1048596)"
  shows "triple (tracked C nd0 K l net n b) (exchange C m expect) (\<lambda>x w. tracked C nd0 K l net n' b' w \<and> \<phi> x) (failing C nd0 a)"
proof (rule triple_conseq [OF triple_exchange [OF assms(1,2), of a l n b m]])
  show "a \<longrightarrow> affordable l (n + 2) (b + frame_bound m + 1048596)" using assms(3,4,6) by (auto simp: affordable_def)
qed (use assms(3-5) in \<open>auto elim!: tracked_mono\<close>)

lemma triple_greet:
  assumes "crypto_ok C" "a \<longrightarrow> affordable l (n + 2) (b + 2097192)"
  shows "triple (tracked C nd0 K l net n b) (greet C)
    (\<lambda>x w. tracked C nd0 K l net (n + 2) (b + 2097192) w \<and> wf_hello x) (failing C nd0 a)"
proof -
  have a: "a \<longrightarrow> affordable l (n + 1) (b + 1048596)" "a \<longrightarrow> affordable l (n + 1 + 1) (b + 1048596 + 1048596)"
    using assms(2) by (auto simp: affordable_def)
  show ?thesis unfolding greet_def
    using triple_abind [OF triple_send_hello [OF a(1)] triple_abind [OF triple_receive [OF assms(1) a(2)] triple_expect [OF expects_replies(1)]]]
    by (simp add: add.assoc)
qed

lemma triple_if: "(c \<Longrightarrow> triple P x Q R) \<Longrightarrow> (\<not> c \<Longrightarrow> triple P y Q R) \<Longrightarrow> triple P (if c then x else y) Q R"
  by simp

lemma triple_fails: "e \<noteq> P2P_Peer PE_PeerBudgetExceeded \<Longrightarrow> triple (tracked C nd0 K l net n b) (afail e) Q (failing C nd0 a)"
  by (rule triple_afail) (simp add: failing_def tracked_def)

text \<open>One block of the inventory; the constants are the sizes of a request and of the largest block.\<close>

definition block_progress_ok :: "block_progress \<Rightarrow> nat \<Rightarrow> bool" where
  "block_progress_ok p k \<longleftrightarrow> (case p of (requested, accepted, known, _) \<Rightarrow> requested = accepted \<and> accepted + known = k)"

lemma triple_sync_block:
  assumes "crypto_ok C" "env_wf E" "length i = 32" "a \<longrightarrow> affordable l (n + 2) (b + 1048648)"
  shows "triple (\<lambda>w. tracked C nd0 K l net n b w \<and> block_progress_ok p k) (sync_block C E p i)
    (\<lambda>p w. tracked C nd0 (insert i K) l net (n + 2) (b + 1048648) w \<and> block_progress_ok p (Suc k)) (failing C nd0 a)"
proof (rule triple_pure)
  assume ok: "block_progress_ok p k"
  obtain rq ac kn prev where p: "p = (rq, ac, kn, prev)" by (cases p)
  let ?post = "\<lambda>p w. tracked C nd0 (insert i K) l net (n + 2) (b + 1048648) w \<and> block_progress_ok p (Suc k)"
  have known: "triple (\<lambda>w. tracked C nd0 K l net n b w \<and> True = contains_block (sh_node w) i) (aret (rq, ac, kn + 1, Some i)) ?post (failing C nd0 a)"
    using ok p by (intro triple_aret) (auto simp: block_progress_ok_def tracked_def spent_def)
  have submit: "triple (\<lambda>w. tracked C nd0 K l net (n + 2) (b + 1048648) w) (abind (unix_time_seconds E) (\<lambda>t.
      abind (lock_and_submit_block C E blk t) (\<lambda>_. aret (rq + 1, ac + 1, kn, Some i)))) ?post (failing C nd0 a)"
    if "wf_block blk" "block_id C blk = i" for blk
    using ok p that(2)
    by (intro triple_abind [OF triple_clock] triple_abind [OF triple_submit_block [OF assms(2) that(1)]] triple_aret)
      (auto simp: block_progress_ok_def)
  have order: "triple (tracked C nd0 K l net (n + 2) (b + 1048648))
      (case prev of Some q \<Rightarrow> aret (f q) | None \<Rightarrow> read_node C E g) (\<lambda>_. tracked C nd0 K l net (n + 2) (b + 1048648)) (failing C nd0 a)" for f g
    by (cases prev) (auto intro!: triple_aret triple_conseq [OF triple_read_node [OF assms(2)]])
  have fetched: "triple (\<lambda>w. tracked C nd0 K l net (n + 2) (b + 1048648) w \<and> wf_block blk)
      (let actual = block_id C blk in
       if actual \<noteq> i then afail (P2P_WrongBlock i actual)
       else abind (case prev of Some previous \<Rightarrow> aret (bc_previous_block (bl_challenge blk) = previous)
              | None \<Rightarrow> read_node C E (\<lambda>nd. contains_block nd (bc_previous_block (bl_challenge blk)))) (\<lambda>ordered.
         if \<not> ordered then afail (P2P_NonContiguousInventory i)
         else abind (unix_time_seconds E) (\<lambda>t. abind (lock_and_submit_block C E blk t) (\<lambda>_. aret (rq + 1, ac + 1, kn, Some i))))) ?post (failing C nd0 a)"
    for blk
    unfolding Let_def by (intro triple_pure triple_if triple_fails triple_abind [OF order] submit) simp_all
  have fetch: "triple (tracked C nd0 K l net n b) (exchange C (PM_GetBlock i) expect_block)
      (\<lambda>x w. tracked C nd0 K l net (n + 2) (b + 1048648) w \<and> wf_block x) (failing C nd0 a)"
    by (rule triple_exchange_upto [OF assms(1) expects_replies(3), where f = 52]) (use assms(3,4) in \<open>auto simp: frame_bound_def add.commute\<close>)
  show "triple (tracked C nd0 K l net n b) (sync_block C E p i) ?post (failing C nd0 a)"
    unfolding sync_block_def p prod.case
  proof (rule triple_abind [OF triple_read_node [OF assms(2)]], rule triple_if)
    fix known assume "known"
    then show "triple (\<lambda>w. tracked C nd0 K l net n b w \<and> known = contains_block (sh_node w) i) (aret (rq, ac, kn + 1, Some i)) ?post (failing C nd0 a)"
      using known by simp
  next
    fix known assume "\<not> known"
    show "triple (\<lambda>w. tracked C nd0 K l net n b w \<and> known = contains_block (sh_node w) i)
      (abind (exchange C (PM_GetBlock i) expect_block) (\<lambda>blk.
       let actual = block_id C blk in
       if actual \<noteq> i then afail (P2P_WrongBlock i actual)
       else abind (case prev of Some previous \<Rightarrow> aret (bc_previous_block (bl_challenge blk) = previous)
              | None \<Rightarrow> read_node C E (\<lambda>nd. contains_block nd (bc_previous_block (bl_challenge blk)))) (\<lambda>ordered.
         if \<not> ordered then afail (P2P_NonContiguousInventory i)
         else abind (unix_time_seconds E) (\<lambda>t. abind (lock_and_submit_block C E blk t) (\<lambda>_. aret (rq + 1, ac + 1, kn, Some i))))))
      ?post (failing C nd0 a)"
      by (rule triple_conseq [OF triple_abind [OF fetch fetched]]) auto
  qed
qed

definition transaction_progress_ok :: "nat \<times> nat \<times> nat \<Rightarrow> nat \<Rightarrow> bool" where
  "transaction_progress_ok p k \<longleftrightarrow> (case p of (requested, accepted, rejected) \<Rightarrow> requested = k \<and> accepted + rejected = k)"

lemma triple_sync_transaction:
  assumes "crypto_ok C" "env_wf E" "length i = 32" "a \<longrightarrow> affordable l (n + 2) (b + 52 + 1048596)"
  shows "triple (\<lambda>w. tracked C nd0 K l net n b w \<and> transaction_progress_ok p k) (sync_transaction C E p i)
    (\<lambda>p w. tracked C nd0 K l net (n + 2) (b + 65608) w \<and> transaction_progress_ok p (Suc k)) (failing C nd0 a)"
proof (rule triple_pure)
  assume ok: "transaction_progress_ok p k"
  obtain rq ac rj where p: "p = (rq, ac, rj)" by (cases p)
  have fetch: "triple (tracked C nd0 K l net n b) (exchange C (PM_GetTransaction i) expect_transaction)
      (\<lambda>x w. tracked C nd0 K l net (n + 2) (b + 65608) w \<and> wf_transaction x) (failing C nd0 a)"
    by (rule triple_exchange_upto [OF assms(1) expects_replies(5), where f = 52]) (use assms(3,4) in \<open>auto simp: frame_bound_def add.commute\<close>)
  show "triple (tracked C nd0 K l net n b) (sync_transaction C E p i)
    (\<lambda>p w. tracked C nd0 K l net (n + 2) (b + 65608) w \<and> transaction_progress_ok p (Suc k)) (failing C nd0 a)"
    unfolding sync_transaction_def p prod.case Let_def using ok p
    by (intro triple_abind [OF fetch] triple_pure triple_if triple_fails triple_abind [OF triple_submit_transaction [OF assms(2)]] triple_aret)
      (auto simp: transaction_progress_ok_def)
qed

text \<open>The whole pull: at most sixteen blocks and sixty-four transactions.\<close>

definition SYNC_MESSAGES :: nat where "SYNC_MESSAGES = 166"
definition SYNC_BYTES :: nat where "SYNC_BYTES = 5242980 + 20 + 16 * 1048648 + 64 * 65608 + 1048596"

definition report_ok :: "sync_report \<Rightarrow> bool" where
  "report_ok r \<longleftrightarrow> sy_inventory_items r \<le> MAX_BLOCKS_PER_SYNC \<and> sy_requested_blocks r = sy_accepted_blocks r \<and>
     sy_accepted_blocks r + sy_already_known r = sy_inventory_items r \<and>
     sy_requested_transactions r \<le> MAX_TRANSACTIONS_PER_SYNC \<and>
     sy_accepted_transactions r + sy_rejected_transactions r = sy_requested_transactions r \<and>
     sy_requested_transactions r = min MAX_TRANSACTIONS_PER_SYNC (sy_transaction_inventory_items r - sy_already_known_transactions r) \<and>
     sy_already_known_transactions r \<le> sy_transaction_inventory_items r"

lemma triple_sync_blocks:
  assumes C: "crypto_ok C" and E: "env_wf E" and ids: "list_all (\<lambda>i. length i = 32) ids" "length ids \<le> MAX_BLOCKS_PER_SYNC"
    and a: "a \<longrightarrow> affordable l SYNC_MESSAGES SYNC_BYTES"
  shows "triple (tracked C nd0 {} l net 4 4194384) (afold (sync_block C E) (0, 0, 0, None) ids)
    (\<lambda>p w. tracked C nd0 (set ids) l net 36 (4194384 + 16 * 1048648) w \<and> block_progress_ok p (length ids)) (failing C nd0 a)"
proof -
  let ?I = "\<lambda>pre p w. tracked C nd0 (set pre) l net (4 + 2 * length pre) (4194384 + length pre * 1048648) w \<and> block_progress_ok p (length pre)"
  have "triple (?I [] (0, 0, 0, None)) (afold (sync_block C E) (0, 0, 0, None) ids) (?I ids) (failing C nd0 a)"
  proof (rule triple_afold [where I = ?I])
    fix pre i post and p :: block_progress
    assume split: "ids = pre @ i # post"
    have i: "length i = 32" and len: "length pre < 16" using ids split by (auto simp: MAX_BLOCKS_PER_SYNC_def)
    have "a \<longrightarrow> affordable l (4 + 2 * length pre + 2) (4194384 + length pre * 1048648 + 1048648)"
      using a len by (auto simp: affordable_def SYNC_MESSAGES_def SYNC_BYTES_def)
    from triple_sync_block [OF C E i this, of nd0 "set pre" net p "length pre"]
    show "triple (?I pre p) (sync_block C E p i) (?I (pre @ [i])) (failing C nd0 a)" by (simp add: add.commute add.left_commute)
  qed
  then show ?thesis
    by (rule triple_conseq) (use ids(2) in \<open>auto simp: block_progress_ok_def MAX_BLOCKS_PER_SYNC_def elim!: tracked_mono\<close>)
qed

lemma triple_sync_transactions:
  assumes C: "crypto_ok C" and E: "env_wf E" and ids: "list_all (\<lambda>i. length i = 32) ids" "length ids \<le> MAX_TRANSACTIONS_PER_SYNC"
    and a: "a \<longrightarrow> affordable l SYNC_MESSAGES SYNC_BYTES"
  shows "triple (tracked C nd0 K l net 38 (5243000 + 16 * 1048648)) (afold (sync_transaction C E) (0, 0, 0) ids)
    (\<lambda>p w. tracked C nd0 K l net SYNC_MESSAGES SYNC_BYTES w \<and> transaction_progress_ok p (length ids)) (failing C nd0 a)"
proof -
  let ?I = "\<lambda>(pre :: hash32 list) p w. tracked C nd0 K l net (38 + 2 * length pre) (5243000 + 16 * 1048648 + length pre * 65608) w \<and>
    transaction_progress_ok p (length pre)"
  have "triple (?I [] (0, 0, 0)) (afold (sync_transaction C E) (0, 0, 0) ids) (?I ids) (failing C nd0 a)"
  proof (rule triple_afold [where I = ?I])
    fix pre i post and p :: "nat \<times> nat \<times> nat"
    assume split: "ids = pre @ i # post"
    have i: "length i = 32" and len: "length pre < 64" using ids split by (auto simp: MAX_TRANSACTIONS_PER_SYNC_def)
    have "a \<longrightarrow> affordable l (38 + 2 * length pre + 2) (5243000 + 16 * 1048648 + length pre * 65608 + 52 + 1048596)"
      using a len by (auto simp: affordable_def SYNC_MESSAGES_def SYNC_BYTES_def)
    from triple_sync_transaction [OF C E i this, of nd0 K net p "length pre"]
    show "triple (?I pre p) (sync_transaction C E p i) (?I (pre @ [i])) (failing C nd0 a)" by (simp add: add.commute add.left_commute)
  qed
  then show ?thesis
    by (rule triple_conseq) (use ids(2) in \<open>auto simp: transaction_progress_ok_def MAX_TRANSACTIONS_PER_SYNC_def SYNC_MESSAGES_def SYNC_BYTES_def elim!: tracked_mono\<close>)
qed

lemma triple_case_prod: "(\<And>x y. p = (x, y) \<Longrightarrow> triple P (f x y) Q R) \<Longrightarrow> triple P (case p of (x, y) \<Rightarrow> f x y) Q R"
  by (cases p) simp

lemma triple_sync_exchange:
  assumes C: "crypto_ok C" and E: "env_wf E" and a: "a \<longrightarrow> affordable l SYNC_MESSAGES SYNC_BYTES"
  shows "triple (tracked C nd0 {} l net 0 0) (sync_exchange C E locator)
    (\<lambda>r w. tracked C nd0 {} l net SYNC_MESSAGES SYNC_BYTES w \<and> report_ok r) (failing C nd0 a)"
  unfolding sync_exchange_def
proof (rule triple_abind [OF triple_greet [OF C]], goal_cases)
  case 1
  then show ?case using a by (auto simp: affordable_def SYNC_MESSAGES_def SYNC_BYTES_def)
next
  case (2 hello)
  have headers: "triple (\<lambda>w. tracked C nd0 {} l net (0 + 2) (0 + 2097192) w \<and> wf_hello hello) (exchange C (PM_GetHeaders locator (ph_tip hello)) expect_inventory)
      (\<lambda>ids w. tracked C nd0 {} l net 4 4194384 w \<and> list_all (\<lambda>i. length i = 32) ids) (failing C nd0 a)"
    by (rule triple_pure, rule triple_exchange_upto [OF C expects_replies(2), where f = 1048596])
      (use a in \<open>auto simp: frame_bound_def affordable_def SYNC_MESSAGES_def SYNC_BYTES_def\<close>)
  have pool: "triple (tracked C nd0 K l net 36 (4194384 + 16 * 1048648)) (exchange C PM_GetMempool expect_transaction_inventory)
      (\<lambda>ids w. tracked C nd0 K l net 38 (5243000 + 16 * 1048648) w \<and> list_all (\<lambda>i. length i = 32) ids) (failing C nd0 a)" for K
    by (rule triple_exchange_upto [OF C expects_replies(4), where f = 20])
      (use a in \<open>auto simp: frame_bound_def affordable_def SYNC_MESSAGES_def SYNC_BYTES_def\<close>)
  have count: "length (filter (\<lambda>t. t \<in> S) ids) \<le> length ids"
    "length (take m (filter (\<lambda>t. t \<notin> S) ids)) = min m (length ids - length (filter (\<lambda>t. t \<in> S) ids))" for S and ids :: "hash32 list" and m
    using sum_length_filter_compl [of "\<lambda>t. t \<in> S" ids] by simp_all
  show ?case
  proof (rule triple_abind [OF headers], rule triple_pure, rule triple_if)
    fix ids :: "hash32 list"
    show "triple (tracked C nd0 {} l net 4 4194384)
      (afail (P2P_Peer (PE_CountLimit ''sync inventory'' (length ids) MAX_BLOCKS_PER_SYNC)))
      (\<lambda>r w. tracked C nd0 {} l net SYNC_MESSAGES SYNC_BYTES w \<and> report_ok r) (failing C nd0 a)" by (rule triple_fails) simp
  next
    fix ids :: "hash32 list"
    assume ids: "list_all (\<lambda>i. length i = 32) ids" "\<not> MAX_BLOCKS_PER_SYNC < length ids"
    then have len: "length ids \<le> MAX_BLOCKS_PER_SYNC" by simp
    show "triple (tracked C nd0 {} l net 4 4194384)
      (abind (afold (sync_block C E) (0, 0, 0, None) ids) (\<lambda>(requested_blocks, accepted_blocks, already_known, _).
       abind (exchange C PM_GetMempool expect_transaction_inventory) (\<lambda>txids.
       abind (read_node C E (\<lambda>nd. set (map (me_txid \<circ> snd) (nd_mempool nd)))) (\<lambda>known.
       abind (afold (sync_transaction C E) (0, 0, 0) (take MAX_TRANSACTIONS_PER_SYNC (filter (\<lambda>t. t \<notin> known) txids)))
         (\<lambda>(requested_transactions, accepted_transactions, rejected_transactions).
       aret \<lparr>sy_remote_hello = hello, sy_inventory_items = length ids, sy_requested_blocks = requested_blocks,
         sy_accepted_blocks = accepted_blocks, sy_already_known = already_known,
         sy_transaction_inventory_items = length txids,
         sy_requested_transactions = requested_transactions, sy_accepted_transactions = accepted_transactions,
         sy_already_known_transactions = length (filter (\<lambda>t. t \<in> known) txids),
         sy_rejected_transactions = rejected_transactions\<rparr>)))))
      (\<lambda>r w. tracked C nd0 {} l net SYNC_MESSAGES SYNC_BYTES w \<and> report_ok r) (failing C nd0 a)"
    proof (rule triple_abind [OF triple_sync_blocks [OF C E ids(1) len a]], rule triple_pure, intro triple_case_prod,
        rule triple_abind [OF pool], rule triple_pure, rule triple_abind [OF triple_read_node [OF E]])
      fix p :: block_progress and rq ac kn prev r1 r2 and txids :: "hash32 list" and known :: "hash32 set"
      assume ok: "block_progress_ok p (length ids)" and p: "p = (rq, r1)" "r1 = (ac, r2)" "r2 = (kn, prev)"
        and tx: "list_all (\<lambda>i. length i = 32) txids"
      let ?txs = "take MAX_TRANSACTIONS_PER_SYNC (filter (\<lambda>t. t \<notin> known) txids)"
      have txs: "list_all (\<lambda>i. length i = 32) ?txs" "length ?txs \<le> MAX_TRANSACTIONS_PER_SYNC"
        using tx by (auto simp: list_all_iff dest: in_set_takeD)
      show "triple (\<lambda>w. tracked C nd0 (set ids) l net 38 (5243000 + 16 * 1048648) w \<and>
            known = set (map (me_txid \<circ> snd) (nd_mempool (sh_node w))))
        (abind (afold (sync_transaction C E) (0, 0, 0) ?txs)
         (\<lambda>(requested_transactions, accepted_transactions, rejected_transactions).
         aret \<lparr>sy_remote_hello = hello, sy_inventory_items = length ids, sy_requested_blocks = rq,
           sy_accepted_blocks = ac, sy_already_known = kn,
           sy_transaction_inventory_items = length txids,
           sy_requested_transactions = requested_transactions, sy_accepted_transactions = accepted_transactions,
           sy_already_known_transactions = length (filter (\<lambda>t. t \<in> known) txids),
           sy_rejected_transactions = rejected_transactions\<rparr>))
        (\<lambda>r w. tracked C nd0 {} l net SYNC_MESSAGES SYNC_BYTES w \<and> report_ok r) (failing C nd0 a)"
        by (rule triple_conseq [OF triple_abind [OF triple_sync_transactions [OF C E txs a]]], rule triple_pure, intro triple_case_prod triple_aret)
          (use ok p len count [where S = known and ids = txids] in \<open>auto simp: report_ok_def block_progress_ok_def transaction_progress_ok_def elim!: tracked_mono\<close>)
    qed
  qed
qed

section \<open>Connections\<close>

lemma session_new_spent: "session_new h l = Ok s \<Longrightarrow> spent l (ph_network_id h) 0 0 s"
  by (auto simp: session_new_def spent_def)

lemma connected_session:
  "connect_with_policy dial address s policy = Ok c \<Longrightarrow> pc_session c = s"
  "from_stream_with_policy stream s policy = Ok c \<Longrightarrow> pc_session c = s"
  by (auto simp: connect_with_policy_def from_stream_with_policy_def split: if_splits)

lemma connect_within: "within_budget (connect_with_policy dial address s policy)" "within_budget (from_stream_with_policy stream s policy)"
  "within_budget (session_new h l)"
proof -
  have v: "within_budget (validate_peer_address address policy)" "within_budget (pl_validate l)" for address policy l
    unfolding validate_peer_address_def pl_validate_def by (intro within_intros; fail)+
  show f: "within_budget (from_stream_with_policy stream s policy)" for stream
    unfolding from_stream_with_policy_def by (intro within_payload v)
  show "within_budget (connect_with_policy dial address s policy)" unfolding connect_with_policy_def by (intro within_payload v f)
  show "within_budget (session_new h l)" unfolding session_new_def by (intro within_payload v within_validate)
qed

text \<open>A call that opens a session, connects and then follows \<open>m\<close>.\<close>

lemma triple_run_connected:
  assumes "triple (tracked C nd0 {} l net 0 0) m (\<lambda>x w. evolves C nd0 (sh_node w) \<and> \<phi> x) (failing C nd0 a)"
    "\<And>c. connection = Ok c \<Longrightarrow> spent l net 0 0 (pc_session c)" "within_budget connection"
  shows "triple (\<lambda>w. evolves C nd0 (sh_node w)) (run_connected connection m) (\<lambda>x w. evolves C nd0 (sh_node w) \<and> \<phi> x) (failing C nd0 a)"
  unfolding run_connected_def
proof (rule triple_abind)
  show "triple (\<lambda>w. evolves C nd0 (sh_node w)) (alift (map_err P2P_Peer connection))
    (\<lambda>c w. evolves C nd0 (sh_node w) \<and> connection = Ok c) (failing C nd0 a)"
    using assms(3) by (cases connection) (auto simp: triple_def alift_def failing_def within_budget_def)
next
  fix c
  show "triple (\<lambda>w. evolves C nd0 (sh_node w) \<and> connection = Ok c)
    (\<lambda>w. case m \<lparr>sh_node = sh_node w, sh_tick = sh_tick w, tk_connection = c\<rparr> of
       (w', r) \<Rightarrow> (\<lparr>sh_node = sh_node w', sh_tick = sh_tick w'\<rparr>, r)) (\<lambda>x w. evolves C nd0 (sh_node w) \<and> \<phi> x) (failing C nd0 a)"
  proof (rule tripleI)
    fix w w' r
    assume P: "evolves C nd0 (sh_node w) \<and> connection = Ok c" and run: "(case m \<lparr>sh_node = sh_node w, sh_tick = sh_tick w, tk_connection = c\<rparr> of
       (w', r) \<Rightarrow> (\<lparr>sh_node = sh_node w', sh_tick = sh_tick w'\<rparr>, r)) = (w', r)"
    obtain w1 q where m: "m \<lparr>sh_node = sh_node w, sh_tick = sh_tick w, tk_connection = c\<rparr> = (w1, q)" by fastforce
    have "tracked C nd0 {} l net 0 0 \<lparr>sh_node = sh_node w, sh_tick = sh_tick w, tk_connection = c\<rparr>"
      using P assms(2) by (simp add: tracked_def)
    from tripleD [OF assms(1) this m] show "case r of Ok x \<Rightarrow> evolves C nd0 (sh_node w') \<and> \<phi> x | Err e \<Rightarrow> failing C nd0 a (Some e) w'
        | Panic \<Rightarrow> failing C nd0 a None w' | Diverge \<Rightarrow> failing C nd0 a None w'"
      using run m by (auto simp: failing_def split: outcome.splits)
  qed
qed

lemma triple_evolves_read:
  assumes "env_wf E"
  shows "triple (\<lambda>w. evolves C nd0 (sh_node w)) (read_node C E f) (\<lambda>_ w. evolves C nd0 (sh_node w)) (failing C nd0 a)"
  using evolves_lock [OF assms]
  by (fastforce simp: triple_def read_node_def abind_def failing_def split: prod.splits)

lemma triple_open_session:
  "(\<And>s. session_new h l = Ok s \<Longrightarrow> triple (\<lambda>w. evolves C nd0 (sh_node w)) (f s) Q (failing C nd0 a)) \<Longrightarrow>
     triple (\<lambda>w. evolves C nd0 (sh_node w)) (abind (alift (map_err P2P_Peer (session_new h l))) f) Q (failing C nd0 a)"
  using connect_within(3) [of h l]
  by (cases "session_new h l") (auto simp: triple_def abind_def alift_def failing_def within_budget_def)

lemma triple_sync_from_peer:
  assumes C: "crypto_ok C" and E: "env_wf E" and a: "a \<longrightarrow> affordable limits SYNC_MESSAGES SYNC_BYTES"
  shows "triple (\<lambda>w. evolves C nd0 (sh_node w)) (sync_from_peer C E dial address limits policy nonce)
    (\<lambda>r w. evolves C nd0 (sh_node w) \<and> report_ok r) (failing C nd0 a)"
  unfolding sync_from_peer_def
proof (rule triple_abind [OF triple_evolves_read [OF E]], intro triple_case_prod triple_open_session)
  fix x h locator s
  assume s: "session_new (with_nonce h nonce) limits = Ok s"
  show "triple (\<lambda>w. evolves C nd0 (sh_node w)) (run_connected (connect_with_policy dial address s policy) (sync_exchange C E locator))
    (\<lambda>r w. evolves C nd0 (sh_node w) \<and> report_ok r) (failing C nd0 a)"
  proof (rule triple_run_connected [where l = limits and net = "ph_network_id (with_nonce h nonce)"])
    show "triple (tracked C nd0 {} limits (ph_network_id (with_nonce h nonce)) 0 0) (sync_exchange C E locator)
      (\<lambda>x w. evolves C nd0 (sh_node w) \<and> report_ok x) (failing C nd0 a)"
      by (rule triple_conseq [OF triple_sync_exchange [OF C E a]]) (auto simp: tracked_def)
  qed (use s connected_session(1) session_new_spent connect_within(1) in blast)+
qed

section \<open>Serving and relaying\<close>

lemma triple_judge:
  assumes "env_wf E" "wf_block blk"
  shows "triple (tracked C nd0 K l net n b) (judge_submission C E blk t) (\<lambda>_. tracked C nd0 K l net n b) (failing C nd0 a)"
  unfolding judge_submission_def
proof (rule triple_abind [OF triple_lock [OF assms(1)]], rule tripleI)
  fix w w' :: peer_task and r :: "(p2p_error, submission_status) outcome" and u :: unit
  let ?sub = "submit_block C (env_append E (sh_tick w)) (sh_node w) blk t"
  assume t: "tracked C nd0 K l net n b w" and run: "(if contains_block (sh_node w) (block_id C blk) then (w, Ok SS_AlreadyKnown)
       else case ?sub of (nd, Ok _) \<Rightarrow> (w\<lparr>sh_node := nd\<rparr>, Ok SS_Accepted) | (nd, Err _) \<Rightarrow> (w\<lparr>sh_node := nd\<rparr>, Ok SS_Rejected)
       | (nd, Panic) \<Rightarrow> (w\<lparr>sh_node := nd\<rparr>, Panic) | (nd, Diverge) \<Rightarrow> (w\<lparr>sh_node := nd\<rparr>, Diverge)) = (w', r)"
  obtain nd q where s: "?sub = (nd, q)" by fastforce
  have e: "evolves C nd0 nd" using evolves_block [OF _ assms(2) s] t by (auto simp: tracked_def)
  have "tracked C nd0 K l net n b (w\<lparr>sh_node := nd\<rparr>)" using t e submit_block_keeps [OF s] by (auto simp: tracked_def)
  then show "case r of Ok x \<Rightarrow> tracked C nd0 K l net n b w' | Err e \<Rightarrow> failing C nd0 a (Some e) w'
      | Panic \<Rightarrow> failing C nd0 a None w' | Diverge \<Rightarrow> failing C nd0 a None w'"
    using run s t e by (cases q) (auto simp: failing_def split: if_splits)
qed

lemma triple_any_lift:
  "triple (tracked C nd0 K l net n b) (alift r) (\<lambda>_. tracked C nd0 K l net n b) (failing C nd0 False)"
  by (rule triple_alift) (auto simp: failing_def tracked_def)

lemma triple_any_fail: "triple (tracked C nd0 K l net n b) (afail e) Q (failing C nd0 False)"
  by (rule triple_afail) (auto simp: failing_def tracked_def)

lemma triple_any_read:
  "env_wf E \<Longrightarrow> triple (tracked C nd0 K l net n b) (read_node C E f) (\<lambda>_. tracked C nd0 K l net n b) (failing C nd0 False)"
  by (rule triple_conseq [OF triple_read_node]) auto

lemma triple_any_state:
  "triple (tracked C nd0 K l net n b) (\<lambda>w. (w, f w)) (\<lambda>_. tracked C nd0 K l net n b) (failing C nd0 False)"
  by (auto simp: triple_def failing_def tracked_def split: outcome.splits)

lemma triple_seq: "triple P m (\<lambda>_. P) R \<Longrightarrow> (\<And>x. triple P (f x) (\<lambda>_. P) R) \<Longrightarrow> triple P (abind m f) (\<lambda>_. P) R"
  by (rule triple_abind)

lemmas triple_any = triple_seq triple_any_lift triple_any_fail triple_any_read triple_any_state triple_lock triple_clock triple_if

lemma triple_answer:
  assumes "env_wf E" "wf_message net m"
  shows "triple (tracked C nd0 K l net n b) (answer C E net' m) (\<lambda>_. tracked C nd0 K l net n b) (failing C nd0 False)"
proof -
  have r: "triple (tracked C nd0 K l net n b) (aret x) (\<lambda>_. tracked C nd0 K l net n b) (failing C nd0 False)" for x :: peer_message
    by (rule triple_aret)
  show ?thesis
  proof (cases m)
    case (PM_SubmitBlock blk)
    then have "wf_block blk" using assms(2) by (simp add: wf_message_def)
    then show ?thesis unfolding answer_def PM_SubmitBlock peer_message.case
      by (intro triple_any assms(1) r triple_judge)
  qed (simp_all add: answer_def, (intro triple_any assms(1) r)+)
qed

lemma tracked_any:
  "evolves C nd0 (sh_node w) \<Longrightarrow> \<exists>l net n b. tracked C nd0 {} l net n b w"
  by (auto simp: tracked_def spent_def)

lemma respond_loop_evolves:
  assumes C: "crypto_ok C" and E: "env_wf E"
  shows "respond_loop C E net' w = (w', r) \<Longrightarrow> evolves C nd0 (sh_node w) \<Longrightarrow> evolves C nd0 (sh_node w')"
proof (induction "reads_left w" arbitrary: w rule: less_induct)
  case less
  obtain l net n b where t: "tracked C nd0 {} l net n b w" using tracked_any [OF less.prems(2)] by blast
  obtain w1 q where rc: "receive C w = (w1, q)" by fastforce
  note R = tripleD [OF triple_receive [OF C, of False] t rc, simplified]
  show ?case
  proof (cases q)
    case (Ok m)
    then have t1: "tracked C nd0 {} l net (n + 1) (b + frame_bound m) w1" and wf: "wf_message net m" using R by auto
    obtain w2 q2 where an: "answer C E net' m w1 = (w2, q2)" by fastforce
    note A = tripleD [OF triple_answer [OF E wf] t1 an]
    show ?thesis
    proof (cases q2)
      case ok2: (Ok reply)
      then have t2: "tracked C nd0 {} l net (n + 1) (b + frame_bound m) w2" using A by auto
      obtain w3 q3 where se: "send C reply w2 = (w3, q3)" by fastforce
      note S = tripleD [OF triple_send [of False] t2 se, simplified]
      have "evolves C nd0 (sh_node w3)" using S by (cases q3) (auto simp: tracked_def failing_def)
      moreover have "respond_loop C E net' w = try_in w3 q3 (\<lambda>_. respond_loop C E net' w3)"
        using rc Ok an ok2 se by (subst respond_loop.simps) (simp add: abind_def)
      moreover have "reads_left w3 < reads_left w" using respond_step_reads rc Ok an ok2 se by blast
      ultimately show ?thesis using less by (cases q3) auto
    qed (use less.prems(1) rc Ok an A in \<open>subst (asm) respond_loop.simps, auto simp: abind_def failing_def\<close>)+
  qed (use less.prems rc R in \<open>subst (asm) respond_loop.simps, auto simp: failing_def split: if_splits\<close>)+
qed

lemma triple_respond_to_peer:
  assumes C: "crypto_ok C" and E: "env_wf E"
  shows "triple (\<lambda>w. evolves C nd0 (sh_node w)) (respond_to_peer C E stream limits policy nonce)
    (\<lambda>_ w. evolves C nd0 (sh_node w)) (failing C nd0 False)"
  unfolding respond_to_peer_def Let_def
proof (rule triple_abind [OF triple_evolves_read [OF E]], rule triple_open_session)
  fix h s
  assume s: "session_new (with_nonce h nonce) limits = Ok s"
  have loop: "triple (\<lambda>w. tracked C nd0 {} limits net (0 + 2) (0 + 2097192) w \<and> wf_hello x) (respond_loop C E net') (\<lambda>x w. evolves C nd0 (sh_node w) \<and> True) (failing C nd0 False)" for x net net'
    using respond_loop_evolves [OF C E] by (auto simp: triple_def tracked_def failing_def split: outcome.splits)
  have "triple (\<lambda>w. evolves C nd0 (sh_node w)) (run_connected (from_stream_with_policy stream s policy)
      (abind (greet C) (\<lambda>_. respond_loop C E (ph_network_id (with_nonce h nonce))))) (\<lambda>_ w. evolves C nd0 (sh_node w) \<and> True) (failing C nd0 False)"
  proof (rule triple_run_connected [where l = limits and net = "ph_network_id (with_nonce h nonce)"])
    show "triple (tracked C nd0 {} limits (ph_network_id (with_nonce h nonce)) 0 0)
      (abind (greet C) (\<lambda>_. respond_loop C E (ph_network_id (with_nonce h nonce)))) (\<lambda>_ w. evolves C nd0 (sh_node w) \<and> True) (failing C nd0 False)"
      by (rule triple_abind [OF triple_greet [OF C] loop]) simp
  qed (use s connected_session(2) session_new_spent connect_within(2) in blast)+
  then show "triple (\<lambda>w. evolves C nd0 (sh_node w)) (run_connected (from_stream_with_policy stream s policy)
      (abind (greet C) (\<lambda>_. respond_loop C E (ph_network_id (with_nonce h nonce))))) (\<lambda>_ w. evolves C nd0 (sh_node w)) (failing C nd0 False)" by simp
qed

section \<open>Properties\<close>

text \<open>C24. Pulling from a peer does nothing to the node but submissions, whatever bytes the peer sends, wherever
  they are cut, whenever the socket fails and whatever other threads submit in between: the node it
  leaves, also when it fails half way, is the node it found after a sequence of block and transaction
  submissions, so that a sound node stays sound and no block is forgotten. When the call returns a
  report, it has fetched at most sixteen blocks and sixty-four transactions, every advertised block is
  known or accepted, and every fetched transaction was accepted or rejected by the pool.\<close>

theorem pulling_only_submits:
  assumes "crypto_ok C" "env_wf E" "node_sound C params verifier (sh_node w)"
    and "sync_from_peer C E dial address limits policy nonce w = (w', r)"
  shows "(\<exists>events. list_all wf_event events \<and> sh_node w' = foldl (apply_event C) (sh_node w) events) \<and>
    node_sound C params verifier (sh_node w') \<and>
    (\<forall>x. contains_block (sh_node w) x \<longrightarrow> contains_block (sh_node w') x) \<and> (\<forall>report. r = Ok report \<longrightarrow> report_ok report)"
proof -
  have "evolves C (sh_node w) (sh_node w') \<and> (\<forall>report. r = Ok report \<longrightarrow> report_ok report)"
    using tripleD [OF triple_sync_from_peer [OF assms(1,2), of False] _ assms(4), of "sh_node w", simplified]
    by (cases r) (auto simp: failing_def)
  then show ?thesis using node_sound_evolves [OF assms(1,3)] evolves_keeps unfolding evolves_def by blast
qed

text \<open>C25. Serving a peer does nothing to the node but submissions either, whatever the peer requests and
  however the connection ends: the node it leaves is the node it found after a sequence of block and
  transaction submissions, its own and those of other threads, so that a sound node stays sound and
  forgets no block.\<close>

theorem serving_only_submits:
  assumes "crypto_ok C" "env_wf E" "node_sound C params verifier (sh_node w)"
    and "respond_to_peer C E stream limits policy nonce w = (w', r)"
  shows "(\<exists>events. list_all wf_event events \<and> sh_node w' = foldl (apply_event C) (sh_node w) events) \<and>
    node_sound C params verifier (sh_node w') \<and> (\<forall>x. contains_block (sh_node w) x \<longrightarrow> contains_block (sh_node w') x)"
proof -
  have "evolves C (sh_node w) (sh_node w')"
    using tripleD [OF triple_respond_to_peer [OF assms(1,2)] _ assms(4), of "sh_node w", simplified]
    by (cases r) (auto simp: failing_def)
  then show ?thesis using node_sound_evolves [OF assms(1,3)] evolves_keeps unfolding evolves_def by blast
qed

text \<open>C26. The budget of a session is large enough for a pull, as the comment on the sixteen blocks and
  sixty-four transactions says: no peer makes a pull fail for lack of budget when the limits allow
  166 messages and 26 MiB, and the default limits do.\<close>

theorem default_budget_suffices:
  assumes "crypto_ok C" "env_wf E" "166 \<le> unat (pl_max_messages_per_peer limits)" "26 * 1024 * 1024 + 5900 \<le> unat (pl_max_bytes_per_peer limits)"
  shows "snd (sync_from_peer C E dial address limits policy nonce w) \<noteq> Err (P2P_Peer PE_PeerBudgetExceeded) \<and>
    166 \<le> unat (pl_max_messages_per_peer default_limits) \<and> 26 * 1024 * 1024 + 5900 \<le> unat (pl_max_bytes_per_peer default_limits)"
proof -
  have "affordable limits SYNC_MESSAGES SYNC_BYTES" using assms(3,4) by (simp add: affordable_def SYNC_MESSAGES_def SYNC_BYTES_def)
  moreover obtain w' r where run: "sync_from_peer C E dial address limits policy nonce w = (w', r)" by fastforce
  ultimately have "r \<noteq> Err (P2P_Peer PE_PeerBudgetExceeded)"
    using tripleD [OF triple_sync_from_peer [OF assms(1,2), of True limits] _ run, of "sh_node w", simplified] by (auto simp: failing_def)
  then show ?thesis using run by (simp add: default_limits_def)
qed

lemma demo_sound: "node_sound demo_crypto demo_params (PV_V1Legacy demo_verifier) demo_node"
  unfolding node_sound_def using demo_node_run by blast

theorem pulling_only_submits_witness:
  "\<exists>w'. sync_from_peer demo_crypto demo_environment (Some demo_socket) demo_address default_limits PrivateOnly None
      \<lparr>sh_node = demo_node, sh_tick = 0\<rparr> = (w', Ok demo_report) \<and>
    node_sound demo_crypto demo_params (PV_V1Legacy demo_verifier) (sh_node w') \<and>
    contains_block (sh_node w') (block_id demo_crypto demo_first) \<and> report_ok demo_report"
proof -
  let ?w = "\<lparr>sh_node = demo_node, sh_tick = 0\<rparr>"
  obtain w' nd where run: "sync_from_peer demo_crypto demo_environment (Some demo_socket) demo_address default_limits PrivateOnly None ?w =
      (w', Ok demo_report)" and nd: "submit_block demo_crypto IO_Durable demo_node demo_first 2000 = (nd, Ok 0)"
    "sh_node w' = apply_event demo_crypto nd (NE_Block IO_Durable demo_first 2000)" using demo_pull by blast
  have "evolves demo_crypto nd (sh_node w')"
    using evolves_events [OF evolves_refl, of "[NE_Block IO_Durable demo_first 2000]"] demo_first_wf by (simp add: wf_event_def nd(2))
  then have "contains_block (sh_node w') (block_id demo_crypto demo_first)"
    using evolves_keeps submit_block_indexes [OF nd(1)] by blast
  moreover have "node_sound demo_crypto demo_params (PV_V1Legacy demo_verifier) (sh_node ?w)" using demo_sound by simp
  ultimately show ?thesis using pulling_only_submits [OF crypto_ok_demo demo_environment_wf _ run] run by blast
qed

theorem serving_only_submits_witness:
  "\<exists>w' r. respond_to_peer demo_crypto demo_environment demo_socket default_limits PrivateOnly None
      \<lparr>sh_node = demo_node, sh_tick = 0\<rparr> = (w', r) \<and> node_sound demo_crypto demo_params (PV_V1Legacy demo_verifier) (sh_node w')"
proof -
  let ?w = "\<lparr>sh_node = demo_node, sh_tick = 0\<rparr>"
  obtain w' r where run: "respond_to_peer demo_crypto demo_environment demo_socket default_limits PrivateOnly None ?w = (w', r)"
    by fastforce
  have "node_sound demo_crypto demo_params (PV_V1Legacy demo_verifier) (sh_node ?w)" using demo_sound by simp
  from serving_only_submits [OF crypto_ok_demo demo_environment_wf this run] run show ?thesis by blast
qed

theorem default_budget_suffices_witness:
  "snd (sync_from_peer demo_crypto demo_environment (Some demo_socket) demo_address default_limits PrivateOnly None
      \<lparr>sh_node = demo_node, sh_tick = 0\<rparr>) \<noteq> Err (P2P_Peer PE_PeerBudgetExceeded)"
  using default_budget_suffices [OF crypto_ok_demo demo_environment_wf, of default_limits] by (simp add: default_limits_def)

end
