(* ===== verification/CF_Pool_Ledger.thy ===== *)
theory CF_Pool_Ledger
  imports CF_Mining CF_P2p "HOL-Library.AList" "HOL-Library.Char_ord" "HOL-Library.List_Lexorder"
begin

text \<open>
  The accounting of the pool, of \<open>crates/cmfd-node/src/pool.rs\<close>: the ledger with a record per session and
  per payout key, registration with the eviction of old records, and the credits for shares. The
  ordered maps of the source are lists of key and value in increasing order of the key. Statistics show a
  payout key as its bytes; the source writes them in hexadecimal.

  The four counters that the ledger keeps at three levels obey the same laws: they are stated as
  the locale \<open>ledger_counter\<close> and interpreted for each of them. What a session is credited is exactly
  the sum of its credits, and no level shows less than the levels below it add up to.
\<close>

unbundle bit_operations_syntax

section \<open>Ordered maps\<close>

fun om_put :: "'k::linorder \<Rightarrow> 'v \<Rightarrow> ('k \<times> 'v) list \<Rightarrow> ('k \<times> 'v) list" where
  "om_put k v [] = [(k, v)]"
| "om_put k v ((k', v') # m) =
     (if k = k' then (k, v) # m else if k < k' then (k, v) # (k', v') # m else (k', v') # om_put k v m)"

definition om_ordered :: "('k::linorder \<times> 'v) list \<Rightarrow> bool" where
  "om_ordered m \<longleftrightarrow> sorted_wrt (<) (map fst m)"

section \<open>Data\<close>

definition POOL_PROTOCOL_VERSION :: u16 where "POOL_PROTOCOL_VERSION = 1"
definition DEFAULT_SHARE_LEADING_ZERO_BITS :: u16 where "DEFAULT_SHARE_LEADING_ZERO_BITS = 7"
definition DEFAULT_TEST_CREDIT_ATOMS_PER_SHARE :: u64 where "DEFAULT_TEST_CREDIT_ATOMS_PER_SHARE = 1"
definition POOL_MAX_FRAME_BYTES :: nat where "POOL_MAX_FRAME_BYTES = 16 * 1024"
definition POOL_MAX_WORKER_BYTES :: nat where "POOL_MAX_WORKER_BYTES = 32"
definition POOL_MAX_CONNECTIONS :: nat where "POOL_MAX_CONNECTIONS = 64"
definition POOL_MAX_MESSAGES_PER_SESSION :: u64 where "POOL_MAX_MESSAGES_PER_SESSION = 1000000"
definition POOL_MAX_SHARES_PER_JOB :: nat where "POOL_MAX_SHARES_PER_JOB = 65536"
definition POOL_MAX_LEDGER_SESSIONS :: nat where "POOL_MAX_LEDGER_SESSIONS = 1024"
definition POOL_MAX_LEDGER_PAYOUTS :: nat where "POOL_MAX_LEDGER_PAYOUTS = 1024"

definition POOL_ACCOUNTING_SEMANTICS :: string where
  "POOL_ACCOUNTING_SEMANTICS =
     ''session-only accounting records; nonwithdrawable; not funds; not an on-chain balance or payout''"

definition POOL_PERSISTENCE :: string where
  "POOL_PERSISTENCE = ''session-only; reset on pool process restart''"

definition POOL_JOB_DOMAIN :: string where "POOL_JOB_DOMAIN = ''CMFD/DEVNET-POOL/JOB/V1''"
definition POOL_NONCE_ORIGIN_DOMAIN :: string where "POOL_NONCE_ORIGIN_DOMAIN = ''CMFD/DEVNET-POOL/NONCE-ORIGIN/V1''"

datatype pool_error =
    PL_PublicAddress socket_addr
  | PL_InvalidWorker
  | PL_InvalidConnectionLimit
  | PL_MessageCountLimit
  | PL_FrameLimit
  | PL_InvalidMessage string
  | PL_ProtocolMismatch
  | PL_NetworkMismatch
  | PL_FingerprintMismatch
  | PL_ConnectionClosed
  | PL_SharedStatePoisoned
  | PL_LedgerCapacity
  | PL_Random
  | PL_Io
  | PL_Json
  | PL_Node node_error
  | PL_Pow pow_error

record session_record =
  sr_connected :: bool
  sr_worker :: string
  sr_payout :: hash32
  sr_accepted_shares :: u64
  sr_rejected_shares :: u64
  sr_pool_blocks :: u64
  sr_credited_devnet_atoms :: u64

record payout_record =
  pr_accepted_shares :: u64
  pr_rejected_shares :: u64
  pr_pool_blocks :: u64
  pr_credited_devnet_atoms :: u64
  pr_last_session_id :: u64

record ledger =
  lg_accepted_shares :: u64
  lg_rejected_shares :: u64
  lg_pool_blocks :: u64
  lg_credited_devnet_atoms :: u64
  lg_sessions :: "(u64 \<times> session_record) list"
  lg_payouts :: "(hash32 \<times> payout_record) list"

text \<open>The reports. The payout key is shown as text by the \<open>hex\<close> crate in the source; here it is the key itself.\<close>

record pool_session_stats =
  ps_session_id :: u64
  ps_connected :: bool
  ps_worker :: string
  ps_payout :: hash32
  ps_accepted_shares :: u64
  ps_rejected_shares :: u64
  ps_pool_blocks :: u64
  ps_credited_devnet_atoms :: u64

record pool_payout_stats =
  pp_payout :: hash32
  pp_accepted_shares :: u64
  pp_rejected_shares :: u64
  pp_pool_blocks :: u64
  pp_credited_devnet_atoms :: u64

record pool_ledger_snapshot =
  pn_accounting_semantics :: string
  pn_persistence :: string
  pn_accepted_shares :: u64
  pn_rejected_shares :: u64
  pn_pool_blocks :: u64
  pn_credited_devnet_atoms :: u64
  pn_sessions :: "pool_session_stats list"
  pn_payouts :: "pool_payout_stats list"

definition ledger_default :: ledger where
  "ledger_default = \<lparr>lg_accepted_shares = 0, lg_rejected_shares = 0, lg_pool_blocks = 0, lg_credited_devnet_atoms = 0,
     lg_sessions = [], lg_payouts = []\<rparr>"

definition payout_default :: payout_record where
  "payout_default = \<lparr>pr_accepted_shares = 0, pr_rejected_shares = 0, pr_pool_blocks = 0, pr_credited_devnet_atoms = 0,
     pr_last_session_id = 0\<rparr>"

section \<open>Checks\<close>

definition easier_target :: "hash32 \<Rightarrow> hash32 \<Rightarrow> hash32" where
  "easier_target configured chain = (if lex_le configured chain then chain else configured)"

definition validate_private_address :: "socket_addr \<Rightarrow> (pool_error, unit) outcome" where
  "validate_private_address address =
     (if (case sa_ip address of
            IP_V4 ip \<Rightarrow> v4_is_loopback ip \<or> v4_is_private ip
          | IP_V6 ip \<Rightarrow> v6_is_loopback ip \<or> (drop_bit 112 ip AND 0xfe00) = 0xfc00)
      then Ok () else Err (PL_PublicAddress address))"

definition worker_char :: "char \<Rightarrow> bool" where
  "worker_char c \<longleftrightarrow> (CHR ''0'' \<le> c \<and> c \<le> CHR ''9'') \<or> (CHR ''A'' \<le> c \<and> c \<le> CHR ''Z'') \<or> (CHR ''a'' \<le> c \<and> c \<le> CHR ''z'') \<or>
     c \<in> {CHR ''.'', CHR ''_'', CHR ''-''}"

definition validate_worker :: "string \<Rightarrow> (pool_error, unit) outcome" where
  "validate_worker worker =
     (if worker = [] \<or> POOL_MAX_WORKER_BYTES < length worker \<or> \<not> list_all worker_char worker
      then Err PL_InvalidWorker else Ok ())"

definition validate_message_count :: "u64 \<Rightarrow> (pool_error, unit) outcome" where
  "validate_message_count count =
     (if POOL_MAX_MESSAGES_PER_SESSION < count then Err PL_MessageCountLimit else Ok ())"

definition make_job_id :: "crypto \<Rightarrow> hash32 \<Rightarrow> hash32 \<Rightarrow> u64 \<Rightarrow> block_challenge \<Rightarrow> hash32 \<Rightarrow> hash32" where
  "make_job_id C startup_nonce job_nonce sequence challenge share_target =
     b3_derive C POOL_JOB_DOMAIN
       (startup_nonce @ job_nonce @ to_le_bytes sequence @ bc_network_id challenge @ bc_previous_block challenge @
        bc_transaction_root challenge @ to_le_bytes (bc_height challenge) @ to_le_bytes (bc_timestamp challenge) @
        bc_target challenge @ share_target)"

definition pool_nonce_origin :: "crypto \<Rightarrow> hash32 \<Rightarrow> u64 \<Rightarrow> u64" where
  "pool_nonce_origin C job_id session_id =
     from_le_bytes (take 8 (b3_derive C POOL_NONCE_ORIGIN_DOMAIN (job_id @ to_le_bytes session_id)))"

section \<open>Sessions\<close>

text \<open>The first session that is not connected makes room; on an error the sessions removed so far stay removed.\<close>

function prune_sessions :: "(u64 \<times> session_record) list \<Rightarrow> (u64 \<times> session_record) list \<times> (pool_error, unit) outcome" where
  "prune_sessions sessions =
     (if length sessions < POOL_MAX_LEDGER_SESSIONS then (sessions, Ok ())
      else case find (\<lambda>(_, session). \<not> sr_connected session) sessions of
        None \<Rightarrow> (sessions, Err PL_LedgerCapacity)
      | Some (inactive, _) \<Rightarrow> prune_sessions (AList.delete inactive sessions))"
  by pat_completeness auto

lemma delete_found_shorter:
  assumes "find P m = Some (k, v)" shows "length (AList.delete k m) < length m"
proof -
  have "(k, v) \<in> set m" using assms by (auto simp: find_Some_iff in_set_conv_nth)
  then have "length (removeAll k (map fst m)) < length (map fst m)" by (intro length_removeAll_less) force
  then show ?thesis by (metis delete_keys length_map)
qed

termination prune_sessions
  by (relation "measure length") (auto simp: delete_found_shorter)

declare prune_sessions.simps [simp del]

definition removable_payouts :: "(u64 \<times> session_record) list \<Rightarrow> (hash32 \<times> payout_record) list \<Rightarrow> (hash32 \<times> payout_record) list" where
  "removable_payouts sessions payouts =
     filter (\<lambda>(candidate, _). \<not> list_ex (\<lambda>(_, session). sr_payout session = candidate) sessions) payouts"

definition prune_payouts ::
  "hash32 \<Rightarrow> (u64 \<times> session_record) list \<Rightarrow> (hash32 \<times> payout_record) list
     \<Rightarrow> (pool_error, (hash32 \<times> payout_record) list) outcome" where
  "prune_payouts payout sessions payouts =
     (if map_of payouts payout = None \<and> POOL_MAX_LEDGER_PAYOUTS \<le> length payouts
      then case removable_payouts sessions payouts of
          [] \<Rightarrow> Err PL_LedgerCapacity
        | candidates \<Rightarrow> Ok (AList.delete (fst (arg_min_list (\<lambda>(_, record). pr_last_session_id record) candidates)) payouts)
      else Ok payouts)"

definition payout_entry :: "(hash32 \<times> payout_record) list \<Rightarrow> hash32 \<Rightarrow> payout_record" where
  "payout_entry payouts payout = (case map_of payouts payout of Some record \<Rightarrow> record | None \<Rightarrow> payout_default)"

definition new_session :: "string \<Rightarrow> hash32 \<Rightarrow> session_record" where
  "new_session worker payout = \<lparr>sr_connected = True, sr_worker = worker, sr_payout = payout, sr_accepted_shares = 0,
     sr_rejected_shares = 0, sr_pool_blocks = 0, sr_credited_devnet_atoms = 0\<rparr>"

definition register_session :: "u64 \<Rightarrow> string \<Rightarrow> hash32 \<Rightarrow> ledger \<Rightarrow> ledger \<times> (pool_error, unit) outcome" where
  "register_session session_id worker payout lg =
     (case prune_sessions (lg_sessions lg) of (sessions, pruned) \<Rightarrow>
      let lg = lg\<lparr>lg_sessions := sessions\<rparr> in
      try_in lg pruned (\<lambda>_.
      try_in lg (prune_payouts payout sessions (lg_payouts lg)) (\<lambda>payouts.
      (lg\<lparr>lg_sessions := om_put session_id (new_session worker payout) sessions,
          lg_payouts := om_put payout (payout_entry payouts payout\<lparr>pr_last_session_id := session_id\<rparr>) payouts\<rparr>, Ok ()))))"

text \<open>\<open>SessionGuard::drop\<close>.\<close>

definition disconnect_session :: "u64 \<Rightarrow> ledger \<Rightarrow> ledger" where
  "disconnect_session session_id lg =
     (case map_of (lg_sessions lg) session_id of
        Some session \<Rightarrow> lg\<lparr>lg_sessions := om_put session_id (session\<lparr>sr_connected := False\<rparr>) (lg_sessions lg)\<rparr>
      | None \<Rightarrow> lg)"

definition session_snapshot :: "u64 \<Rightarrow> session_record \<Rightarrow> (pool_error, pool_session_stats) outcome" where
  "session_snapshot session_id r =
     obind (validate_worker (sr_worker r)) (\<lambda>_.
     Ok \<lparr>ps_session_id = session_id, ps_connected = sr_connected r, ps_worker = sr_worker r, ps_payout = sr_payout r,
         ps_accepted_shares = sr_accepted_shares r, ps_rejected_shares = sr_rejected_shares r,
         ps_pool_blocks = sr_pool_blocks r, ps_credited_devnet_atoms = sr_credited_devnet_atoms r\<rparr>)"

definition snapshot_ledger :: "ledger \<Rightarrow> (pool_error, pool_ledger_snapshot) outcome" where
  "snapshot_ledger lg =
     obind (omap (\<lambda>(session_id, r). session_snapshot session_id r) (lg_sessions lg)) (\<lambda>sessions.
     Ok \<lparr>pn_accounting_semantics = POOL_ACCOUNTING_SEMANTICS, pn_persistence = POOL_PERSISTENCE,
         pn_accepted_shares = lg_accepted_shares lg, pn_rejected_shares = lg_rejected_shares lg,
         pn_pool_blocks = lg_pool_blocks lg, pn_credited_devnet_atoms = lg_credited_devnet_atoms lg,
         pn_sessions = sessions,
         pn_payouts = map (\<lambda>(payout, r). \<lparr>pp_payout = payout, pp_accepted_shares = pr_accepted_shares r,
           pp_rejected_shares = pr_rejected_shares r, pp_pool_blocks = pr_pool_blocks r,
           pp_credited_devnet_atoms = pr_credited_devnet_atoms r\<rparr>) (lg_payouts lg)\<rparr>)"

section \<open>Credits\<close>

definition session_accepted :: "bool \<Rightarrow> u64 \<Rightarrow> session_record \<Rightarrow> session_record" where
  "session_accepted block atoms r = r\<lparr>sr_accepted_shares := saturating_add (sr_accepted_shares r) 1,
     sr_credited_devnet_atoms := saturating_add (sr_credited_devnet_atoms r) atoms,
     sr_pool_blocks := (if block then saturating_add (sr_pool_blocks r) 1 else sr_pool_blocks r)\<rparr>"

definition payout_accepted :: "u64 \<Rightarrow> bool \<Rightarrow> u64 \<Rightarrow> payout_record \<Rightarrow> payout_record" where
  "payout_accepted session_id block atoms r = r\<lparr>pr_last_session_id := session_id,
     pr_accepted_shares := saturating_add (pr_accepted_shares r) 1,
     pr_credited_devnet_atoms := saturating_add (pr_credited_devnet_atoms r) atoms,
     pr_pool_blocks := (if block then saturating_add (pr_pool_blocks r) 1 else pr_pool_blocks r)\<rparr>"

definition credit_accepted_share :: "u64 \<Rightarrow> bool \<Rightarrow> u64 \<Rightarrow> ledger \<Rightarrow> ledger \<times> (pool_error, pool_session_stats) outcome" where
  "credit_accepted_share session_id block atoms lg =
     (case map_of (lg_sessions lg) session_id of
        None \<Rightarrow> (lg, Err (PL_InvalidMessage ''unknown session''))
      | Some session \<Rightarrow>
          let session' = session_accepted block atoms session; payout = sr_payout session in
          (lg\<lparr>lg_accepted_shares := saturating_add (lg_accepted_shares lg) 1,
              lg_credited_devnet_atoms := saturating_add (lg_credited_devnet_atoms lg) atoms,
              lg_pool_blocks := (if block then saturating_add (lg_pool_blocks lg) 1 else lg_pool_blocks lg),
              lg_sessions := om_put session_id session' (lg_sessions lg),
              lg_payouts := om_put payout (payout_accepted session_id block atoms (payout_entry (lg_payouts lg) payout))
                (lg_payouts lg)\<rparr>, session_snapshot session_id session'))"

definition session_rejected :: "session_record \<Rightarrow> session_record" where
  "session_rejected r = r\<lparr>sr_rejected_shares := saturating_add (sr_rejected_shares r) 1\<rparr>"

definition payout_rejected :: "u64 \<Rightarrow> payout_record \<Rightarrow> payout_record" where
  "payout_rejected session_id r = r\<lparr>pr_last_session_id := session_id,
     pr_rejected_shares := saturating_add (pr_rejected_shares r) 1\<rparr>"

definition credit_rejected_share :: "u64 \<Rightarrow> ledger \<Rightarrow> ledger \<times> (pool_error, pool_session_stats) outcome" where
  "credit_rejected_share session_id lg =
     (case map_of (lg_sessions lg) session_id of
        None \<Rightarrow> (lg, Err (PL_InvalidMessage ''unknown session''))
      | Some session \<Rightarrow>
          let session' = session_rejected session; payout = sr_payout session in
          (lg\<lparr>lg_rejected_shares := saturating_add (lg_rejected_shares lg) 1,
              lg_sessions := om_put session_id session' (lg_sessions lg),
              lg_payouts := om_put payout (payout_rejected session_id (payout_entry (lg_payouts lg) payout)) (lg_payouts lg)\<rparr>,
           session_snapshot session_id session'))"

section \<open>Lemmas on ordered maps\<close>

lemma map_of_om_put [simp]: "map_of (om_put k v m) = (map_of m)(k \<mapsto> v)"
  by (induction k v m rule: om_put.induct) auto

lemma keys_om_put [simp]: "fst ` set (om_put k v m) = insert k (fst ` set m)"
  by (induction k v m rule: om_put.induct) auto

lemma om_ordered_Cons: "om_ordered ((k, v) # m) \<longleftrightarrow> (\<forall>k' \<in> fst ` set m. k < k') \<and> om_ordered m"
  by (simp add: om_ordered_def)

lemma om_fresh: "om_ordered ((k', v') # m) \<Longrightarrow> k \<le> k' \<Longrightarrow> k \<notin> fst ` set m"
  by (auto simp: om_ordered_Cons)

lemma om_ordered_put [simp]: "om_ordered m \<Longrightarrow> om_ordered (om_put k v m)"
proof (induction k v m rule: om_put.induct)
  case (2 k v k' v' m)
  then show ?case by (auto simp: om_ordered_Cons intro: order.strict_trans)
qed (simp add: om_ordered_def)

lemma om_ordered_filter [simp]: "om_ordered m \<Longrightarrow> om_ordered (filter P m)"
  by (induction m) (auto simp: om_ordered_def)

lemma om_ordered_delete [simp]: "om_ordered m \<Longrightarrow> om_ordered (AList.delete k m)"
  by (simp add: AList.delete_eq)

lemma om_ordered_distinct: "om_ordered m \<Longrightarrow> distinct (map fst m)"
  by (induction m) (auto simp: om_ordered_def)

lemma map_of_ordered: "om_ordered m \<Longrightarrow> map_of m k = Some v \<longleftrightarrow> (k, v) \<in> set m"
  using map_of_eq_Some_iff [OF om_ordered_distinct] .

lemma mem_om_put: "om_ordered m \<Longrightarrow> (i, s) \<in> set (om_put k v m) \<longleftrightarrow> (if i = k then s = v else (i, s) \<in> set m)"
  by (simp flip: map_of_ordered) auto

lemma length_om_put: "om_ordered m \<Longrightarrow> length (om_put k v m) = (if map_of m k = None then Suc (length m) else length m)"
proof (induction k v m rule: om_put.induct)
  case (2 k v k' v' m)
  then have "k < k' \<Longrightarrow> map_of m k = None" using om_fresh [of k' v' m k] by (simp add: map_of_eq_None_iff)
  then show ?case using 2 by (cases "k < k'") (auto simp: om_ordered_Cons)
qed simp

text \<open>Sums over the values change by the value that is put.\<close>

lemma sum_om_put:
  fixes f :: "'k::linorder \<times> 'v \<Rightarrow> nat"
  assumes "om_ordered m"
  shows "sum_list (map f (om_put k v m)) + (case map_of m k of None \<Rightarrow> 0 | Some old \<Rightarrow> f (k, old)) =
    sum_list (map f m) + f (k, v)"
  using assms
proof (induction k v m rule: om_put.induct)
  case (2 k v k' v' m)
  have "map_of m k = None" if "k < k'" using om_fresh [OF 2(2), of k] that by (simp add: map_of_eq_None_iff)
  then show ?case using 2 by (auto simp: om_ordered_Cons)
qed simp

lemma sum_delete:
  fixes f :: "'k \<times> 'v \<Rightarrow> nat"
  shows "sum_list (map f (AList.delete k m)) \<le> sum_list (map f m)"
  by (induction m) auto


section \<open>The invariant of the ledger\<close>

definition books_inv :: "ledger \<Rightarrow> bool" where
  "books_inv lg \<longleftrightarrow> om_ordered (lg_sessions lg) \<and> om_ordered (lg_payouts lg) \<and>
     length (lg_sessions lg) \<le> POOL_MAX_LEDGER_SESSIONS \<and> length (lg_payouts lg) \<le> POOL_MAX_LEDGER_PAYOUTS \<and>
     (\<forall>(i, r) \<in> set (lg_sessions lg). validate_worker (sr_worker r) = Ok () \<and> sr_payout r \<in> fst ` set (lg_payouts lg))"

lemma books_inv_default: "books_inv ledger_default"
  by (simp add: books_inv_def ledger_default_def om_ordered_def)

lemma books_inv_payout:
  assumes "books_inv lg" "map_of (lg_sessions lg) i = Some r"
  shows "sr_payout r \<in> fst ` set (lg_payouts lg)" "validate_worker (sr_worker r) = Ok ()"
  using assms map_of_SomeD [OF assms(2)] by (auto simp: books_inv_def)

text \<open>Pruning keeps the connected sessions, and fails only when all are connected.\<close>

lemma prune_sessions_keeps:
  assumes "om_ordered m" "prune_sessions m = (m', r)"
  obtains P where "m' = filter P m" "\<And>i s. (i, s) \<in> set m \<Longrightarrow> sr_connected s \<Longrightarrow> P (i, s)"
    "r = Ok () \<and> length m' < POOL_MAX_LEDGER_SESSIONS \<or>
     r = Err PL_LedgerCapacity \<and> POOL_MAX_LEDGER_SESSIONS \<le> length m' \<and> (\<forall>(i, s) \<in> set m'. sr_connected s)"
proof -
  have "\<exists>P. m' = filter P m \<and> (\<forall>(i, s) \<in> set m. sr_connected s \<longrightarrow> P (i, s)) \<and>
    (r = Ok () \<and> length m' < POOL_MAX_LEDGER_SESSIONS \<or>
     r = Err PL_LedgerCapacity \<and> POOL_MAX_LEDGER_SESSIONS \<le> length m' \<and> (\<forall>(i, s) \<in> set m'. sr_connected s))"
    using assms
  proof (induction m rule: prune_sessions.induct)
    case (1 m)
    let ?f = "find (\<lambda>(_, session). \<not> sr_connected session) m"
    show ?case
    proof (cases "length m < POOL_MAX_LEDGER_SESSIONS \<or> ?f = None")
      case True
      have all: "\<forall>(i, s) \<in> set m. sr_connected s" if "?f = None" using that by (auto simp: find_None_iff)
      have "(m', r) = (m, if length m < POOL_MAX_LEDGER_SESSIONS then Ok () else Err PL_LedgerCapacity)"
        using 1(3) True by (subst (asm) prune_sessions.simps) (auto split: if_splits)
      then show ?thesis using True all by (intro exI [of _ "\<lambda>_. True"]) (auto split: if_splits)
    next
      case False
      then obtain k v where f: "?f = Some (k, v)" by auto
      have run: "prune_sessions (AList.delete k m) = (m', r)"
        using 1(3) False f by (subst (asm) prune_sessions.simps) simp
      have kv: "(k, v) \<in> set m" "\<not> sr_connected v" using f by (auto simp: find_Some_iff in_set_conv_nth)
      have only: "s = v" if "(k, s) \<in> set m" for s
        using that kv(1) eq_key_imp_eq_value [OF om_ordered_distinct [OF 1(2)]] by metis
      from 1(1) [OF _ f refl om_ordered_delete [OF 1(2)] run] False obtain P where
        P: "m' = filter P (AList.delete k m)" "\<forall>(i, s) \<in> set (AList.delete k m). sr_connected s \<longrightarrow> P (i, s)"
        "r = Ok () \<and> length m' < POOL_MAX_LEDGER_SESSIONS \<or>
         r = Err PL_LedgerCapacity \<and> POOL_MAX_LEDGER_SESSIONS \<le> length m' \<and> (\<forall>(i, s) \<in> set m'. sr_connected s)" by auto
      have "m' = filter (\<lambda>kv. P kv \<and> fst kv \<noteq> k) m" using P(1) by (auto simp: AList.delete_eq intro!: filter_cong)
      moreover have "\<forall>(i, s) \<in> set m. sr_connected s \<longrightarrow> P (i, s) \<and> i \<noteq> k"
        using P(2) only kv(2) by (auto simp: AList.delete_eq)
      ultimately show ?thesis using P(3) by (intro exI [of _ "\<lambda>kv. P kv \<and> fst kv \<noteq> k"]) auto
    qed
  qed
  then show thesis using that by blast
qed

text \<open>There is always a payout record to remove: fewer sessions are left than payouts are kept.\<close>

lemma prune_payouts_total:
  assumes "om_ordered payouts" "length payouts \<le> POOL_MAX_LEDGER_PAYOUTS" "length sessions < POOL_MAX_LEDGER_SESSIONS"
  obtains Q where "prune_payouts payout sessions payouts = Ok (filter Q payouts)"
    "\<And>i s r. (i, s) \<in> set sessions \<Longrightarrow> Q (sr_payout s, r)"
    "map_of payouts payout = None \<Longrightarrow> length (filter Q payouts) < POOL_MAX_LEDGER_PAYOUTS"
    "map_of payouts payout \<noteq> None \<Longrightarrow> filter Q payouts = payouts"
proof (cases "map_of payouts payout = None \<and> POOL_MAX_LEDGER_PAYOUTS \<le> length payouts")
  case False
  then show thesis using that [of "\<lambda>_. True"] by (auto simp: prune_payouts_def)
next
  case True
  let ?rem = "removable_payouts sessions payouts"
  have "?rem \<noteq> []"
  proof
    assume "?rem = []"
    then have "fst ` set payouts \<subseteq> (\<lambda>(i, s). sr_payout s) ` set sessions"
      by (force simp: removable_payouts_def filter_empty_conv list_ex_iff image_iff)
    then have "card (fst ` set payouts) \<le> length sessions"
      by (meson card_image_le card_length card_mono finite_imageI List.finite_set order_trans)
    moreover have "card (fst ` set payouts) = length payouts"
      using distinct_card [OF om_ordered_distinct [OF assms(1)]] by simp
    ultimately show False using True assms(3) by (simp add: POOL_MAX_LEDGER_PAYOUTS_def POOL_MAX_LEDGER_SESSIONS_def)
  qed
  then obtain p r where m: "arg_min_list (\<lambda>(_, record). pr_last_session_id record) ?rem = (p, r)" "(p, r) \<in> set ?rem"
    using arg_min_list_in by (metis surj_pair)
  have eq: "AList.delete p payouts = filter (\<lambda>kv. fst kv \<noteq> p) payouts" by (auto simp: AList.delete_eq intro!: filter_cong)
  have "length (filter (\<lambda>kv. fst kv \<noteq> p) payouts) < length payouts"
    using m(2) by (intro length_filter_less [of "(p, r)"]) (auto simp: removable_payouts_def)
  moreover have "prune_payouts payout sessions payouts = Ok (filter (\<lambda>kv. fst kv \<noteq> p) payouts)"
    using True m(1) \<open>?rem \<noteq> []\<close> by (cases ?rem) (simp_all add: prune_payouts_def eq)
  moreover have "sr_payout s \<noteq> p" if "(i, s) \<in> set sessions" for i s
    using m(2) that by (auto simp: removable_payouts_def list_ex_iff)
  ultimately show thesis using that [of "\<lambda>kv. fst kv \<noteq> p"] True assms(2) by auto
qed


lemma register_session_cases:
  assumes inv: "books_inv lg" and run: "register_session sid worker payout lg = (lg', r)"
  obtains (full) P where "r = Err PL_LedgerCapacity" "lg' = lg\<lparr>lg_sessions := filter P (lg_sessions lg)\<rparr>"
      "\<And>i s. (i, s) \<in> set (lg_sessions lg) \<Longrightarrow> sr_connected s \<Longrightarrow> P (i, s)"
      "POOL_MAX_LEDGER_SESSIONS \<le> length (lg_sessions lg')" "\<forall>(i, s) \<in> set (lg_sessions lg'). sr_connected s"
    | (registered) P Q where "r = Ok ()"
      "\<And>i s. (i, s) \<in> set (lg_sessions lg) \<Longrightarrow> sr_connected s \<Longrightarrow> P (i, s)"
      "\<And>i s r. (i, s) \<in> set (filter P (lg_sessions lg)) \<Longrightarrow> Q (sr_payout s, r)"
      "lg' = lg\<lparr>lg_sessions := om_put sid (new_session worker payout) (filter P (lg_sessions lg)),
         lg_payouts := om_put payout (payout_entry (filter Q (lg_payouts lg)) payout\<lparr>pr_last_session_id := sid\<rparr>)
           (filter Q (lg_payouts lg))\<rparr>"
      "length (lg_sessions lg') \<le> POOL_MAX_LEDGER_SESSIONS" "length (lg_payouts lg') \<le> POOL_MAX_LEDGER_PAYOUTS"
      "payout_entry (filter Q (lg_payouts lg)) payout = payout_entry (lg_payouts lg) payout"
proof -
  obtain m pruned where pr: "prune_sessions (lg_sessions lg) = (m, pruned)" by fastforce
  have o: "om_ordered (lg_sessions lg)" "om_ordered (lg_payouts lg)" "length (lg_payouts lg) \<le> POOL_MAX_LEDGER_PAYOUTS"
    using inv by (simp_all add: books_inv_def)
  obtain P where P: "m = filter P (lg_sessions lg)" "\<And>i s. (i, s) \<in> set (lg_sessions lg) \<Longrightarrow> sr_connected s \<Longrightarrow> P (i, s)"
    "pruned = Ok () \<and> length m < POOL_MAX_LEDGER_SESSIONS \<or>
     pruned = Err PL_LedgerCapacity \<and> POOL_MAX_LEDGER_SESSIONS \<le> length m \<and> (\<forall>(i, s) \<in> set m. sr_connected s)"
    using prune_sessions_keeps [OF o(1) pr] by metis
  show thesis
  proof (cases "pruned = Ok ()")
    case False
    then show thesis using full [of P] P run by (auto simp: register_session_def pr try_in_def Let_def)
  next
    case True
    then have len: "length m < POOL_MAX_LEDGER_SESSIONS" using P(3) by auto
    obtain Q where Q: "prune_payouts payout m (lg_payouts lg) = Ok (filter Q (lg_payouts lg))"
      "\<And>i s r. (i, s) \<in> set m \<Longrightarrow> Q (sr_payout s, r)"
      "map_of (lg_payouts lg) payout = None \<Longrightarrow> length (filter Q (lg_payouts lg)) < POOL_MAX_LEDGER_PAYOUTS"
      "map_of (lg_payouts lg) payout \<noteq> None \<Longrightarrow> filter Q (lg_payouts lg) = lg_payouts lg"
      using prune_payouts_total [OF o(2,3) len] by metis
    note put = length_om_put [OF om_ordered_filter]
    have gone: "map_of (filter Q (lg_payouts lg)) payout = None" if "map_of (lg_payouts lg) payout = None"
      using that by (auto simp: map_of_eq_None_iff)
    have "length (om_put payout x (filter Q (lg_payouts lg))) \<le> POOL_MAX_LEDGER_PAYOUTS" for x
      using put [OF o(2), of payout x Q] Q(3,4) o(3) gone by (cases "map_of (lg_payouts lg) payout") auto
    moreover have "length (om_put sid x m) \<le> POOL_MAX_LEDGER_SESSIONS" for x
      using put [OF o(1), of sid x P] len by (simp add: P(1))
    moreover have "payout_entry (filter Q (lg_payouts lg)) payout = payout_entry (lg_payouts lg) payout"
      using gone Q(4) by (cases "map_of (lg_payouts lg) payout") (auto simp: payout_entry_def)
    ultimately show thesis
      using registered [of P Q] P(1,2) Q(1,2) True run by (simp add: register_session_def pr try_in_def Let_def)
  qed
qed

lemma register_session_inv:
  assumes inv: "books_inv lg" and run: "register_session sid worker payout lg = (lg', r)" and w: "validate_worker worker = Ok ()"
  shows "books_inv lg'"
  using inv run
proof (cases rule: register_session_cases)
  case (full P)
  then show ?thesis
    using inv le_trans [OF length_filter_le [of P "lg_sessions lg"]] by (auto simp: books_inv_def)
next
  case (registered P Q)
  note I = inv [unfolded books_inv_def]
  have ok: "validate_worker (sr_worker s) = Ok () \<and> sr_payout s \<in> fst ` set (filter Q (lg_payouts lg))"
    if "(i, s) \<in> set (filter P (lg_sessions lg))" for i s
  proof -
    have "sr_payout s \<in> fst ` set (lg_payouts lg)" using I that by auto
    then obtain r where "(sr_payout s, r) \<in> set (lg_payouts lg)" by force
    then have "sr_payout s \<in> fst ` set (filter Q (lg_payouts lg))" using registered(3) [OF that, of r] by force
    then show ?thesis using I that by auto
  qed
  have "validate_worker (sr_worker s) = Ok () \<and> sr_payout s \<in> fst ` set (lg_payouts lg')" if "(i, s) \<in> set (lg_sessions lg')" for i s
    using that ok [of i s] w I by (auto simp: registered(4) mem_om_put new_session_def split: if_splits)
  then show ?thesis using I registered(4-6) by (auto simp: books_inv_def)
qed

lemma disconnect_session_inv: "books_inv lg \<Longrightarrow> books_inv (disconnect_session sid lg)"
proof (cases "map_of (lg_sessions lg) sid")
  case (Some r)
  moreover assume "books_inv lg"
  ultimately show ?thesis
    using map_of_SomeD [OF Some] by (auto simp: books_inv_def disconnect_session_def mem_om_put length_om_put split: if_splits)
qed (simp add: disconnect_session_def)

text \<open>A credit, for a share that is accepted or for one that is not.\<close>

datatype share_credit = SC_Accepted bool u64 | SC_Rejected

definition credit_share :: "u64 \<Rightarrow> share_credit \<Rightarrow> ledger \<Rightarrow> ledger \<times> (pool_error, pool_session_stats) outcome" where
  "credit_share sid c = (case c of SC_Accepted block atoms \<Rightarrow> credit_accepted_share sid block atoms | SC_Rejected \<Rightarrow> credit_rejected_share sid)"

definition session_credited :: "share_credit \<Rightarrow> session_record \<Rightarrow> session_record" where
  "session_credited c = (case c of SC_Accepted block atoms \<Rightarrow> session_accepted block atoms | SC_Rejected \<Rightarrow> session_rejected)"

definition payout_credited :: "u64 \<Rightarrow> share_credit \<Rightarrow> payout_record \<Rightarrow> payout_record" where
  "payout_credited sid c = (case c of SC_Accepted block atoms \<Rightarrow> payout_accepted sid block atoms | SC_Rejected \<Rightarrow> payout_rejected sid)"

definition totals_credited :: "share_credit \<Rightarrow> ledger \<Rightarrow> ledger" where
  "totals_credited c lg = (case c of
       SC_Accepted block atoms \<Rightarrow> lg\<lparr>lg_accepted_shares := saturating_add (lg_accepted_shares lg) 1,
         lg_credited_devnet_atoms := saturating_add (lg_credited_devnet_atoms lg) atoms,
         lg_pool_blocks := (if block then saturating_add (lg_pool_blocks lg) 1 else lg_pool_blocks lg)\<rparr>
     | SC_Rejected \<Rightarrow> lg\<lparr>lg_rejected_shares := saturating_add (lg_rejected_shares lg) 1\<rparr>)"

lemmas credited_defs = session_credited_def payout_credited_def totals_credited_def session_accepted_def session_rejected_def
  payout_accepted_def payout_rejected_def

lemma session_credited_kept [simp]:
  "sr_payout (session_credited c r) = sr_payout r" "sr_worker (session_credited c r) = sr_worker r"
  "sr_connected (session_credited c r) = sr_connected r"
  by (simp_all add: credited_defs split: share_credit.split)

lemma credit_share_Some:
  "map_of (lg_sessions lg) sid = Some r \<Longrightarrow> credit_share sid c lg =
     ((totals_credited c lg)\<lparr>lg_sessions := om_put sid (session_credited c r) (lg_sessions lg),
        lg_payouts := om_put (sr_payout r) (payout_credited sid c (payout_entry (lg_payouts lg) (sr_payout r))) (lg_payouts lg)\<rparr>,
      session_snapshot sid (session_credited c r))"
  by (simp add: credit_share_def credit_accepted_share_def credit_rejected_share_def credited_defs Let_def split: share_credit.split)

lemma credit_share_None:
  "map_of (lg_sessions lg) sid = None \<Longrightarrow> credit_share sid c lg = (lg, Err (PL_InvalidMessage ''unknown session''))"
  by (simp add: credit_share_def credit_accepted_share_def credit_rejected_share_def split: share_credit.split)

lemma credit_share_inv: "books_inv lg \<Longrightarrow> books_inv (fst (credit_share sid c lg))"
proof (cases "map_of (lg_sessions lg) sid")
  case (Some r)
  assume inv: "books_inv lg"
  then have "sr_payout r \<in> fst ` set (lg_payouts lg)" "validate_worker (sr_worker r) = Ok ()"
    using Some books_inv_payout by blast+
  then show ?thesis
    using inv Some by (auto simp: credit_share_Some books_inv_def mem_om_put length_om_put map_of_eq_None_iff split: if_splits)
qed (simp add: credit_share_None)

text \<open>Credits to a session on record succeed.\<close>

lemma credit_share_Ok:
  "books_inv lg \<Longrightarrow> map_of (lg_sessions lg) sid = Some r \<Longrightarrow> \<exists>lg' stats. credit_share sid c lg = (lg', Ok stats)"
  using books_inv_payout(2) by (simp add: credit_share_Some session_snapshot_def)


section \<open>The laws of a counter\<close>

abbreviation u64_top :: nat where "u64_top \<equiv> 2 ^ 64 - 1"

lemma unat_saturating_add: "unat (saturating_add a b :: u64) = min u64_top (unat a + unat b)"
  by (auto simp: saturating_add_def unat_word_ariths unsigned_minus_1_eq_mask mask_eq_exp_minus_1)

lemma saturating_add_0 [simp]: "saturating_add a 0 = (a :: u64)"
proof -
  have "unat a < 2 ^ 64" using unsigned_less [of a] by simp
  then show ?thesis by (simp add: saturating_add_def)
qed

lemma capped_step: "min t x \<le> a \<Longrightarrow> y \<le> x + d \<Longrightarrow> min t y \<le> min t (a + d)" for t x :: nat
  by auto

lemma capped_mono: "min t x \<le> a \<Longrightarrow> y \<le> x \<Longrightarrow> min t y \<le> a" for t x :: nat
  by auto

text \<open>\<open>adds_up\<close>: no level shows less than the level below it adds up to. \<open>booked\<close>: the total and the sessions show
  exactly what has been credited. Both up to the largest number that fits.\<close>

definition session_sum :: "(session_record \<Rightarrow> u64) \<Rightarrow> hash32 \<Rightarrow> (u64 \<times> session_record) list \<Rightarrow> nat" where
  "session_sum of_session p sessions = sum_list (map (\<lambda>(_, s). if sr_payout s = p then unat (of_session s) else 0) sessions)"

definition payout_sum :: "(payout_record \<Rightarrow> u64) \<Rightarrow> (hash32 \<times> payout_record) list \<Rightarrow> nat" where
  "payout_sum of_payout payouts = sum_list (map (\<lambda>(_, r). unat (of_payout r)) payouts)"

definition adds_up :: "(session_record \<Rightarrow> u64) \<Rightarrow> (payout_record \<Rightarrow> u64) \<Rightarrow> (ledger \<Rightarrow> u64) \<Rightarrow> ledger \<Rightarrow> bool" where
  "adds_up of_session of_payout of_ledger lg \<longleftrightarrow>
     (\<forall>p r. map_of (lg_payouts lg) p = Some r \<longrightarrow> min u64_top (session_sum of_session p (lg_sessions lg)) \<le> unat (of_payout r)) \<and>
     min u64_top (payout_sum of_payout (lg_payouts lg)) \<le> unat (of_ledger lg)"

lemma adds_upD:
  assumes "adds_up of_session of_payout of_ledger lg"
  shows "map_of (lg_payouts lg) p = Some r \<Longrightarrow> min u64_top (session_sum of_session p (lg_sessions lg)) \<le> unat (of_payout r)"
    "min u64_top (payout_sum of_payout (lg_payouts lg)) \<le> unat (of_ledger lg)"
  using assms unfolding adds_up_def by blast+

lemma adds_upI:
  assumes "\<And>p r. map_of (lg_payouts lg) p = Some r \<Longrightarrow> min u64_top (session_sum of_session p (lg_sessions lg)) \<le> unat (of_payout r)"
    "min u64_top (payout_sum of_payout (lg_payouts lg)) \<le> unat (of_ledger lg)"
  shows "adds_up of_session of_payout of_ledger lg"
  using assms unfolding adds_up_def by blast

type_synonym credits = "(u64 \<times> share_credit) list"

definition credited_to :: "(share_credit \<Rightarrow> u64) \<Rightarrow> (u64 \<Rightarrow> bool) \<Rightarrow> credits \<Rightarrow> nat" where
  "credited_to amount who h = sum_list (map (\<lambda>(i, c). if who i then unat (amount c) else 0) h)"

definition booked :: "(session_record \<Rightarrow> u64) \<Rightarrow> (ledger \<Rightarrow> u64) \<Rightarrow> (share_credit \<Rightarrow> u64) \<Rightarrow> credits \<Rightarrow> ledger \<Rightarrow> bool" where
  "booked of_session of_ledger amount h lg \<longleftrightarrow>
     unat (of_ledger lg) = min u64_top (credited_to amount (\<lambda>_. True) h) \<and>
     (\<forall>i s. map_of (lg_sessions lg) i = Some s \<longrightarrow> unat (of_session s) = min u64_top (credited_to amount (\<lambda>j. j = i) h))"

lemma credited_to_snoc [simp]:
  "credited_to amount who (h @ [(i, c)]) = credited_to amount who h + (if who i then unat (amount c) else 0)"
  by (simp add: credited_to_def)

lemma credited_to_none: "\<forall>(i, c) \<in> set h. \<not> who i \<Longrightarrow> credited_to amount who h = 0"
  unfolding credited_to_def by (induction h) auto

lemma sum_filter_le: "sum_list (map (f :: _ \<Rightarrow> nat) (filter P m)) \<le> sum_list (map f m)"
  by (induction m) auto

lemma session_sum_put:
  "om_ordered m \<Longrightarrow> session_sum f p (om_put k v m) + (case map_of m k of None \<Rightarrow> 0 | Some s \<Rightarrow> if sr_payout s = p then unat (f s) else 0) =
     session_sum f p m + (if sr_payout v = p then unat (f v) else 0)"
  using sum_om_put [of m "\<lambda>(_, s). if sr_payout s = p then unat (f s) else 0" k v]
  by (cases "map_of m k") (simp_all add: session_sum_def)

lemma payout_sum_put:
  "om_ordered m \<Longrightarrow> payout_sum f (om_put k v m) + (case map_of m k of None \<Rightarrow> 0 | Some r \<Rightarrow> unat (f r)) = payout_sum f m + unat (f v)"
  using sum_om_put [of m "\<lambda>(_, r). unat (f r)" k v]
  by (cases "map_of m k") (simp_all add: payout_sum_def)

locale ledger_counter =
  fixes of_session :: "session_record \<Rightarrow> u64" and of_payout :: "payout_record \<Rightarrow> u64" and of_ledger :: "ledger \<Rightarrow> u64"
    and amount :: "share_credit \<Rightarrow> u64"
  assumes session_new: "of_session (new_session worker payout) = 0"
    and session_kept: "of_session (s\<lparr>sr_connected := b\<rparr>) = of_session s"
    and session_credit: "of_session (session_credited c s) = saturating_add (of_session s) (amount c)"
    and payout_new: "of_payout payout_default = 0"
    and payout_kept: "of_payout (r\<lparr>pr_last_session_id := i\<rparr>) = of_payout r"
    and payout_credit: "of_payout (payout_credited i c r) = saturating_add (of_payout r) (amount c)"
    and ledger_new: "of_ledger ledger_default = 0"
    and ledger_kept: "of_ledger (lg\<lparr>lg_sessions := m\<rparr>) = of_ledger lg" "of_ledger (lg\<lparr>lg_payouts := p\<rparr>) = of_ledger lg"
    and ledger_credit: "of_ledger (totals_credited c lg) = saturating_add (of_ledger lg) (amount c)"
begin

lemmas laws = session_new session_kept session_credit payout_new payout_kept payout_credit ledger_new ledger_kept ledger_credit

lemma adds_up_default: "adds_up of_session of_payout of_ledger ledger_default"
  by (simp add: adds_up_def ledger_default_def payout_sum_def)

lemma adds_up_disconnect:
  assumes "books_inv lg" "adds_up of_session of_payout of_ledger lg"
  shows "adds_up of_session of_payout of_ledger (disconnect_session sid lg)"
proof (cases "map_of (lg_sessions lg) sid")
  case (Some s)
  have o: "om_ordered (lg_sessions lg)" using assms(1) by (simp add: books_inv_def)
  have "session_sum of_session p (om_put sid (s\<lparr>sr_connected := False\<rparr>) (lg_sessions lg)) = session_sum of_session p (lg_sessions lg)" for p
    using session_sum_put [OF o, of of_session p sid "s\<lparr>sr_connected := False\<rparr>"] by (auto simp: Some laws split: if_splits)
  then show ?thesis using assms(2) by (simp add: disconnect_session_def Some adds_up_def laws)
qed (simp add: disconnect_session_def assms(2))

lemma adds_up_credit:
  assumes inv: "books_inv lg" and up: "adds_up of_session of_payout of_ledger lg"
  shows "adds_up of_session of_payout of_ledger (fst (credit_share sid c lg))"
proof (cases "map_of (lg_sessions lg) sid")
  case (Some s)
  have o: "om_ordered (lg_sessions lg)" "om_ordered (lg_payouts lg)" using inv by (simp_all add: books_inv_def)
  obtain r where r: "map_of (lg_payouts lg) (sr_payout s) = Some r"
    using books_inv_payout(1) [OF inv Some] by (metis map_of_eq_None_iff option.exhaust)
  have e: "payout_entry (lg_payouts lg) (sr_payout s) = r" by (simp add: payout_entry_def r)
  let ?d = "unat (amount c)"
  have s: "session_sum of_session p (om_put sid (session_credited c s) (lg_sessions lg)) \<le>
      session_sum of_session p (lg_sessions lg) + (if p = sr_payout s then ?d else 0)" for p
    using session_sum_put [OF o(1), of of_session p sid "session_credited c s"] by (auto simp: Some laws unat_saturating_add)
  have p: "payout_sum of_payout (om_put (sr_payout s) (payout_credited sid c r) (lg_payouts lg)) \<le> payout_sum of_payout (lg_payouts lg) + ?d"
    using payout_sum_put [OF o(2), of of_payout "sr_payout s" "payout_credited sid c r"] by (auto simp: r laws unat_saturating_add)
  note U = adds_upD [OF up]
  let ?lg = "fst (credit_share sid c lg)"
  have lg: "lg_sessions ?lg = om_put sid (session_credited c s) (lg_sessions lg)"
    "lg_payouts ?lg = om_put (sr_payout s) (payout_credited sid c r) (lg_payouts lg)"
    "unat (of_ledger ?lg) = min u64_top (unat (of_ledger lg) + ?d)"
    by (simp_all add: credit_share_Some [OF Some] e laws unat_saturating_add)
  show ?thesis
  proof (rule adds_upI)
    fix p q
    assume q: "map_of (lg_payouts ?lg) p = Some q"
    show "min u64_top (session_sum of_session p (lg_sessions ?lg)) \<le> unat (of_payout q)"
    proof (cases "p = sr_payout s")
      case True
      then have "q = payout_credited sid c r" using q by (simp add: lg)
      then show ?thesis
        using capped_step [OF U(1) [OF r], of _ ?d] s [of p] True by (simp add: lg laws unat_saturating_add)
    next
      case False
      then show ?thesis using q s [of p] capped_mono [OF U(1) [of p q]] by (simp add: lg)
    qed
  next
    show "min u64_top (payout_sum of_payout (lg_payouts ?lg)) \<le> unat (of_ledger ?lg)"
      using capped_step [OF U(2) p] by (simp add: lg)
  qed
qed (simp add: credit_share_None up)

lemma adds_up_register:
  assumes inv: "books_inv lg" and up: "adds_up of_session of_payout of_ledger lg"
    and run: "register_session sid worker payout lg = (lg', r)" and new: "map_of (lg_sessions lg) sid = None"
  shows "adds_up of_session of_payout of_ledger lg'"
  using inv run
proof (cases rule: register_session_cases)
  case (full P)
  have "session_sum of_session p (filter P (lg_sessions lg)) \<le> session_sum of_session p (lg_sessions lg)" for p
    by (simp add: session_sum_def sum_filter_le)
  then show ?thesis
    using adds_upD [OF up] unfolding full(2) by (intro adds_upI) (auto simp: laws intro: capped_mono)
next
  case (registered P Q)
  have o: "om_ordered (lg_sessions lg)" "om_ordered (lg_payouts lg)" using inv by (simp_all add: books_inv_def)
  have "map_of (filter P (lg_sessions lg)) sid = None" using new by (auto simp: map_of_eq_None_iff)
  then have "session_sum of_session p (om_put sid (new_session worker payout) (filter P (lg_sessions lg))) =
      session_sum of_session p (filter P (lg_sessions lg))" for p
    using session_sum_put [OF om_ordered_filter [OF o(1)], of of_session p sid "new_session worker payout" P] by (simp add: laws)
  then have s: "session_sum of_session p (lg_sessions lg') \<le> session_sum of_session p (lg_sessions lg)" for p
    by (simp add: registered(4) session_sum_def sum_filter_le)
  let ?m = "filter Q (lg_payouts lg)"
  let ?r = "payout_entry ?m payout\<lparr>pr_last_session_id := sid\<rparr>"
  have "payout_sum of_payout (om_put payout ?r ?m) = payout_sum of_payout ?m"
    using payout_sum_put [OF om_ordered_filter [OF o(2)], of of_payout payout ?r Q]
    by (cases "map_of ?m payout") (simp_all add: laws payout_entry_def)
  then have "payout_sum of_payout (om_put payout ?r ?m) \<le> payout_sum of_payout (lg_payouts lg)"
    by (simp add: payout_sum_def sum_filter_le)
  moreover have "min u64_top (session_sum of_session payout (lg_sessions lg)) \<le> unat (of_payout ?r)"
  proof (cases "map_of (lg_payouts lg) payout")
    case None
    then have "\<forall>(i, s) \<in> set (lg_sessions lg). sr_payout s \<noteq> payout" using inv by (auto simp: books_inv_def map_of_eq_None_iff)
    then have "session_sum of_session payout (lg_sessions lg) = 0" unfolding session_sum_def by (induction "lg_sessions lg") auto
    then show ?thesis by simp
  next
    case (Some r)
    then have "payout_entry ?m payout = r" using registered(7) by (simp add: payout_entry_def)
    then show ?thesis using adds_upD(1) [OF up Some] by (simp add: laws)
  qed
  moreover have "map_of (lg_payouts lg) p = Some q" if "map_of ?m p = Some q" for p q
    using that o(2) by (simp add: map_of_ordered)
  ultimately have new: "payout_sum of_payout (lg_payouts lg') \<le> payout_sum of_payout (lg_payouts lg)"
    "\<And>p q. map_of (lg_payouts lg') p = Some q \<Longrightarrow> min u64_top (session_sum of_session p (lg_sessions lg)) \<le> unat (of_payout q)"
    using adds_upD(1) [OF up] by (auto simp: registered(4) split: if_splits)
  show ?thesis
    using capped_mono [OF adds_upD(2) [OF up] new(1)] capped_mono [OF new(2) s]
    by (intro adds_upI) (simp_all add: registered(4) laws)
qed

lemma booked_default: "booked of_session of_ledger amount [] ledger_default"
  by (simp add: booked_def ledger_default_def credited_to_def laws(7) [unfolded ledger_default_def])

lemma booked_disconnect:
  "booked of_session of_ledger amount h lg \<Longrightarrow> booked of_session of_ledger amount h (disconnect_session sid lg)"
  by (auto simp: booked_def disconnect_session_def laws split: option.splits if_splits)

lemma booked_credit:
  assumes b: "booked of_session of_ledger amount h lg" and s: "map_of (lg_sessions lg) sid = Some s"
  shows "booked of_session of_ledger amount (h @ [(sid, c)]) (fst (credit_share sid c lg))"
proof -
  have cap: "min u64_top (min u64_top x + d) = min u64_top (x + d)" for x d :: nat by auto
  show ?thesis using b s unfolding booked_def by (auto simp: credit_share_Some laws unat_saturating_add cap)
qed

lemma booked_register:
  assumes inv: "books_inv lg" and b: "booked of_session of_ledger amount h lg"
    and run: "register_session sid worker payout lg = (lg', r)" and new: "\<forall>(i, c) \<in> set h. i \<noteq> sid"
  shows "booked of_session of_ledger amount h lg'"
  using inv run
proof (cases rule: register_session_cases)
  case (full P)
  have "om_ordered (lg_sessions lg)" using inv by (simp add: books_inv_def)
  then show ?thesis using b by (auto simp: full(2) booked_def laws map_of_ordered)
next
  case (registered P Q)
  have "om_ordered (lg_sessions lg)" using inv by (simp add: books_inv_def)
  moreover have "credited_to amount (\<lambda>j. j = sid) h = 0" using new by (intro credited_to_none) auto
  ultimately show ?thesis using b by (auto simp: registered(4) booked_def laws map_of_ordered)
qed

end

interpretation accepted_shares: ledger_counter sr_accepted_shares pr_accepted_shares lg_accepted_shares
  "\<lambda>c. case c of SC_Accepted _ _ \<Rightarrow> 1 | SC_Rejected \<Rightarrow> 0"
  by unfold_locales (auto simp: new_session_def payout_default_def ledger_default_def credited_defs split: share_credit.split)

interpretation rejected_shares: ledger_counter sr_rejected_shares pr_rejected_shares lg_rejected_shares
  "\<lambda>c. case c of SC_Accepted _ _ \<Rightarrow> 0 | SC_Rejected \<Rightarrow> 1"
  by unfold_locales (auto simp: new_session_def payout_default_def ledger_default_def credited_defs split: share_credit.split)

interpretation pool_blocks: ledger_counter sr_pool_blocks pr_pool_blocks lg_pool_blocks
  "\<lambda>c. case c of SC_Accepted block _ \<Rightarrow> (if block then 1 else 0) | SC_Rejected \<Rightarrow> 0"
  by unfold_locales (auto simp: new_session_def payout_default_def ledger_default_def credited_defs split: share_credit.split)

interpretation credited_atoms: ledger_counter sr_credited_devnet_atoms pr_credited_devnet_atoms lg_credited_devnet_atoms
  "\<lambda>c. case c of SC_Accepted _ atoms \<Rightarrow> atoms | SC_Rejected \<Rightarrow> 0"
  by unfold_locales (auto simp: new_session_def payout_default_def ledger_default_def credited_defs split: share_credit.split)

end
