(* ===== verification/CF_Progress.thy ===== *)
theory CF_Progress
  imports CF_Mining CF_P2p
begin

text \<open>
  Two facts about a running node that its services rely on. First, the blocks that its mining jobs lead
  to have arrays of the right lengths (\<open>typed_node\<close>, \<open>typed_job\<close>): the Rust types say so, here it follows from
  the lengths of the parameters, the keys and the transactions that come in. Second, the node never
  comes back to a tip it has left: leaving it takes more work (\<open>left_behind\<close>).
\<close>

section \<open>Arrays have their lengths\<close>

definition typed_event :: "node_event \<Rightarrow> bool" where
  "typed_event e = (case e of NE_Transaction t \<Rightarrow> wf_transaction t | NE_Block _ b _ \<Rightarrow> wf_block b)"

definition pool_set :: "mempool \<Rightarrow> transaction set" where "pool_set m = set (pool_txs m)"

definition typed_node :: "node \<Rightarrow> bool" where
  "typed_node nd \<longleftrightarrow> Ball (pool_set (nd_mempool nd)) wf_transaction"

definition typed_verifier :: "pow_verifier \<Rightarrow> bool" where
  "typed_verifier v = (case v of PV_V1Legacy f \<Rightarrow> length (fv_model_root f) = 32 | PV_V2Reference _ \<Rightarrow> True)"

definition typed_job :: "mining_job \<Rightarrow> bool" where
  "typed_job job \<longleftrightarrow> wf_challenge (bt_challenge (mj_template job)) \<and>
     list_all wf_output (cb_outputs (bt_coinbase (mj_template job))) \<and>
     list_all wf_transaction (bt_transactions (mj_template job)) \<and> typed_verifier (mj_verifier job)"

lemma typed_event_wf: "typed_event e \<Longrightarrow> wf_event e"
  by (cases e) (simp_all add: typed_event_def wf_event_def)

lemma pool_set_simps [simp]:
  "pool_set [] = {}" "pool_set (item # m) = insert (me_transaction (snd item)) (pool_set m)"
  by (simp_all add: pool_set_def)

lemma pool_set_insert: "pool_set (bt_insert k v m) \<subseteq> insert (me_transaction v) (pool_set m)"
  by (induction k v m rule: bt_insert.induct) (auto split: if_splits)

lemma submitted_transactions:
  assumes "submit_transaction C st (m, n) t = Ok (entry, m', n')"
  shows "pool_set m' \<subseteq> insert t (pool_set m)"
  using assms pool_set_insert [of "txid C t" _ m] by (fastforce simp: submit_transaction_def Let_def split: if_splits)

lemma revalidated_transactions:
  assumes "revalidate_mempool C st confirmed old = (m, n)"
  shows "pool_set m \<subseteq> pool_set old"
proof -
  have step: "pool_set (fst (revalidate_entry C st confirmed item s)) \<subseteq> insert (me_transaction (snd item)) (pool_set (fst s))" for item s
  proof -
    obtain tid entry where item: "item = (tid, entry)" by fastforce
    have "pool_set (bt_insert tid (entry\<lparr>me_fee_burned := fee\<rparr>) (fst s)) \<subseteq> insert (me_transaction entry) (pool_set (fst s))" for fee
      using pool_set_insert [of tid "entry\<lparr>me_fee_burned := fee\<rparr>" "fst s"] by simp
    then show ?thesis by (cases s) (auto simp: revalidate_entry_def item split: outcome.split)
  qed
  have "pool_set (fst (fold (revalidate_entry C st confirmed) old s)) \<subseteq> pool_set old \<union> pool_set (fst s)" for s
  proof (induction old arbitrary: s)
    case (Cons item old)
    show ?case using Cons.IH [of "revalidate_entry C st confirmed item s"] step [of item s] by auto
  qed simp
  from this [of "([], [], {}, 0)"] show ?thesis
    using assms by (auto simp: revalidate_mempool_def split: prod.splits)
qed

text \<open>What a submitted block does: nothing to the state and the index, or a step of the fork choice.\<close>

lemma submit_block_moves:
  assumes C: "crypto_ok C" and inv: "node_inv C params verifier rs nd" and wf: "wf_block b"
    and sub: "submit_block C io nd b t = (nd', r)"
  obtains (still) "nd_state nd' = nd_state nd" "nd_index nd' = nd_index nd" "nd_mempool nd' = nd_mempool nd"
        "\<not> is_ok r"
    | (moved) frame p st idx fees where "r = Ok fees" "encode_block C b = Ok frame"
        "prepare_block C (nd_state nd) (nd_index nd) params verifier b t frame = Ok p"
        "commit_prepared (nd_state nd, nd_index nd) p = ((st, idx), Ok fees)"
        "nd_state nd' = st" "nd_index nd' = idx" "pool_set (nd_mempool nd') \<subseteq> pool_set (nd_mempool nd)"
proof -
  note I = inv [unfolded node_inv_def]
  have run: "fork_run C params verifier rs (nd_state nd) (nd_index nd)" using I by blast
  show thesis
  proof (cases "\<exists>frame p. encode_block C b = Ok frame \<and>
      prepare_block C (nd_state nd) (nd_index nd) params verifier b t frame = Ok p \<and> io = IO_Durable")
    case True
    then obtain frame p where f: "encode_block C b = Ok frame"
      "prepare_block C (nd_state nd) (nd_index nd) params verifier b t frame = Ok p" and io: "io = IO_Durable" by blast
    obtain r' where r': "encode_record C t frame = Ok r'" using encode_record_total [OF frame_length [OF C f(1)]] by blast
    from commit_prepared_step [OF C fork_run_inv [OF run C] wf f] obtain st idx fees where
      c: "commit_prepared (nd_state nd, nd_index nd) p = ((st, idx), Ok fees)" by blast
    let ?nd = "nd\<lparr>nd_log := nd_log nd @ r', nd_state := st, nd_index := idx\<rparr>"
    let ?conf = "set (map (txid C) (bl_transactions b))"
    have nd': "nd' = (if cs_tip st \<noteq> cs_tip (nd_state nd) then node_revalidate C ?conf ?nd else ?nd)" "r = Ok fees"
      using sub I f r' c io by (auto simp: submit_block_def try_in_def Let_def)
    obtain m n where rv: "revalidate_mempool C st ?conf (nd_mempool nd) = (m, n)" by fastforce
    have parts: "nd_state nd' = st" "nd_index nd' = idx"
      "nd_mempool nd' = (if cs_tip st \<noteq> cs_tip (nd_state nd) then m else nd_mempool nd)"
      using rv by (simp_all add: nd'(1) node_revalidate_def)
    then have "pool_set (nd_mempool nd') \<subseteq> pool_set (nd_mempool nd)"
      using revalidated_transactions [OF rv] by (cases "cs_tip st = cs_tip (nd_state nd)") simp_all
    then show thesis using moved nd'(2) f c parts by blast
  next
    case False
    then have "nd_state nd' = nd_state nd \<and> nd_index nd' = nd_index nd \<and> nd_mempool nd' = nd_mempool nd \<and> \<not> is_ok r"
      using sub I by (auto simp: submit_block_def try_in_def Let_def is_ok_def split: outcome.splits append_io.splits)
    then show thesis using still by blast
  qed
qed

lemma node_sound_inv:
  assumes "crypto_ok C" "node_sound C params verifier nd"
  obtains rs nd0 where "node_inv C params verifier rs nd0" "nd_state nd = nd_state nd0" "nd_index nd = nd_index nd0"
    "nd_mempool nd = nd_mempool nd0" "nd_params nd = params" "nd_verifier nd = verifier" "\<not> nd_storage_faulted nd \<Longrightarrow> nd = nd0"
proof -
  obtain rs nd0 where run: "node_run C params verifier rs nd0"
    "nd = nd0 \<or> (\<exists>log. nd = nd0\<lparr>nd_log := log, nd_storage_faulted := True\<rparr>)"
    using assms(2) by (auto simp: node_sound_def)
  have inv: "node_inv C params verifier rs nd0" using node_run_inv [OF run(1) assms(1)] .
  show thesis by (rule that [OF inv]) (use run(2) inv in \<open>auto simp: node_inv_def\<close>)
qed

lemma typed_node_event:
  assumes C: "crypto_ok C" and nd: "node_sound C params verifier nd" "typed_node nd" and e: "typed_event e"
  shows "typed_node (apply_event C nd e)"
proof (cases e)
  case (NE_Transaction t)
  then show ?thesis
    using nd(2) e submitted_transactions [of C "nd_state nd" "nd_mempool nd" "nd_mempool_bytes nd" t]
    by (fastforce simp: apply_event_def node_submit_transaction_def typed_node_def typed_event_def split: outcome.splits)
next
  case (NE_Block io b t)
  then have wf: "wf_block b" using e by (simp add: typed_event_def)
  obtain nd' r where sub: "submit_block C io nd b t = (nd', r)" by fastforce
  have "pool_set (nd_mempool nd') \<subseteq> pool_set (nd_mempool nd)"
  proof (cases "nd_storage_faulted nd")
    case True
    then show ?thesis using sub by (simp add: submit_block_def)
  next
    case False
    then obtain rs where "node_inv C params verifier rs nd" using node_sound_inv [OF C nd(1)] by metis
    from submit_block_moves [OF C this wf sub] show ?thesis by cases auto
  qed
  then show ?thesis using nd(2) sub by (auto simp: NE_Block apply_event_def typed_node_def)
qed

section \<open>The tips that a node leaves\<close>

definition left_behind :: "node \<Rightarrow> hash32 \<Rightarrow> bool" where
  "left_behind nd x \<longleftrightarrow> (case work_at (nd_index nd) x of Some w \<Rightarrow> w < bi_active_work (nd_index nd) | None \<Rightarrow> False)"

lemma commit_keeps_work:
  assumes "commit_prepared (st, idx) p = ((st', idx'), Ok fees)" "work_at idx x = Some w"
  shows "work_at idx' x = Some w"
  using assms by (auto simp: commit_prepared_def try_in_def Let_def work_at_def split: outcome.splits if_splits option.splits)

lemma left_behind_not_tip:
  assumes "crypto_ok C" "node_sound C params verifier nd" "left_behind nd x"
  shows "cs_tip (nd_state nd) \<noteq> x"
proof -
  obtain rs nd0 where inv: "node_inv C params verifier rs nd0" "nd_state nd = nd_state nd0" "nd_index nd = nd_index nd0"
    using node_sound_inv [OF assms(1,2)] .
  then have "fork_inv C params verifier (nd_state nd) (nd_index nd)"
    using fork_run_inv [OF _ assms(1)] by (auto simp: node_inv_def)
  then show ?thesis using assms(3) by (auto simp: fork_inv_def left_behind_def)
qed

lemma tips_move_forward:
  assumes C: "crypto_ok C" and nd: "node_sound C params verifier nd" and e: "wf_event e"
  shows "left_behind nd x \<Longrightarrow> left_behind (apply_event C nd e) x"
    "cs_tip (nd_state (apply_event C nd e)) = cs_tip (nd_state nd) \<or> left_behind (apply_event C nd e) (cs_tip (nd_state nd))"
proof -
  let ?nd = "apply_event C nd e"
  have "(left_behind nd x \<longrightarrow> left_behind ?nd x) \<and> (cs_tip (nd_state ?nd) = cs_tip (nd_state nd) \<or> left_behind ?nd (cs_tip (nd_state nd)))" for x
  proof (cases "\<exists>io b t. e = NE_Block io b t \<and> \<not> nd_storage_faulted nd")
    case False
    then have "nd_state ?nd = nd_state nd \<and> nd_index ?nd = nd_index nd"
      by (cases e) (auto simp: apply_event_def submit_block_def node_submit_transaction_def split: outcome.splits)
    then show ?thesis by (auto simp: left_behind_def split: option.splits)
  next
    case True
    then obtain io b t where eb: "e = NE_Block io b t" "\<not> nd_storage_faulted nd" by blast
    then obtain rs where inv: "node_inv C params verifier rs nd" using node_sound_inv [OF C nd] by metis
    have wf: "wf_block b" using e by (simp add: eb(1) wf_event_def)
    obtain nd' r where sub: "submit_block C io nd b t = (nd', r)" by fastforce
    have nd': "?nd = nd'" by (simp add: eb(1) apply_event_def sub)
    from C inv wf sub show ?thesis
    proof (cases rule: submit_block_moves)
      case still
      then show ?thesis by (auto simp: nd' left_behind_def split: option.splits)
    next
      case (moved frame p st idx fees)
      have finv: "fork_inv C params verifier (nd_state nd) (nd_index nd)"
        using inv fork_run_inv [OF _ C] by (auto simp: node_inv_def)
      from commit_prepared_step [OF C finv wf moved(2,3)] moved(4) have
        tip: "cs_tip st = (if bi_active_work (nd_index nd) < pb_cumulative_work p then block_id C b else cs_tip (nd_state nd))" and
        work: "bi_active_work idx = max (bi_active_work (nd_index nd)) (pb_cumulative_work p)" by auto
      note keep = commit_keeps_work [OF moved(4)]
      have "work_at (nd_index nd) (cs_tip (nd_state nd)) = Some (bi_active_work (nd_index nd))"
        using finv by (simp add: fork_inv_def)
      then show ?thesis
        using keep tip work moved(5,6) by (auto simp: nd' left_behind_def max_def split: option.splits)
    qed
  qed
  then show "left_behind nd x \<Longrightarrow> left_behind ?nd x"
    "cs_tip (nd_state ?nd) = cs_tip (nd_state nd) \<or> left_behind ?nd (cs_tip (nd_state nd))" by blast+
qed


text \<open>A block on the tip that is accepted becomes the tip.\<close>

lemma accepted_extension_becomes_tip:
  assumes C: "crypto_ok C" and nd: "node_sound C params verifier nd" and wf: "wf_block b"
    and prev: "bc_previous_block (bl_challenge b) = cs_tip (nd_state nd)"
    and sub: "submit_block C io nd b t = (nd', Ok fees)"
  shows "cs_tip (nd_state nd') = block_id C b" "block_id C b \<noteq> cs_tip (nd_state nd)"
proof -
  have "\<not> nd_storage_faulted nd" using sub by (auto simp: submit_block_def)
  then obtain rs where inv: "node_inv C params verifier rs nd" using node_sound_inv [OF C nd] by metis
  have finv: "fork_inv C params verifier (nd_state nd) (nd_index nd)" using inv fork_run_inv [OF _ C] by (auto simp: node_inv_def)
  from C inv wf sub have "cs_tip (nd_state nd') = block_id C b \<and> block_id C b \<noteq> cs_tip (nd_state nd)"
  proof (cases rule: submit_block_moves)
    case still
    then show ?thesis by (simp add: is_ok_def)
  next
    case (moved frame p st idx fees')
    have reb: "rebuild_state_to C (nd_index nd) params verifier (cs_tip (nd_state nd)) = Ok (nd_state nd)"
      and tip: "index_contains (nd_index nd) (cs_tip (nd_state nd))" using finv by (simp_all add: fork_inv_def)
    obtain v where v: "pb_candidate p = VC_Active v" "\<not> index_contains (nd_index nd) (block_id C b)"
      using prepare_block_Ok [OF moved(3) reb] prev by metis
    have "bi_active_work (nd_index nd) < pb_cumulative_work p"
      using moved(4) v(1) by (auto simp: commit_prepared_def Let_def split: if_splits)
    then show ?thesis using commit_prepared_step [OF C finv wf moved(2,3)] moved(4,5) v(2) tip by auto
  qed
  then show "cs_tip (nd_state nd') = block_id C b" "block_id C b \<noteq> cs_tip (nd_state nd)" by blast+
qed

section \<open>Jobs and the blocks they lead to\<close>

lemma merkle_levels_lengths:
  "crypto_ok C \<Longrightarrow> \<forall>h \<in> set level. length h = 32 \<Longrightarrow> h \<in> set (merkle_levels C level) \<Longrightarrow> length h = 32"
proof (induction C level rule: merkle_levels.induct)
  case (1 C level)
  show ?case
  proof (cases "1 < length level")
    case True
    then have "h \<in> set (merkle_levels C (pair_level C (pad_level level)))"
      using "1.prems"(3) by (subst (asm) merkle_levels.simps) simp
    then show ?thesis
      using "1.IH" [OF True "1.prems"(1)] pair_level_lengths [OF "1.prems"(1), of "pad_level level"] by (simp add: list_all_iff)
  next
    case False
    then show ?thesis using "1.prems" by (subst (asm) merkle_levels.simps) auto
  qed
qed

lemma merkle_root_length:
  assumes "crypto_ok C" shows "length (merkle_root C hs) = 32"
proof (cases "hs = []")
  case False
  let ?l = "map (merkle_leaf C) hs"
  have "length (merkle_levels C ?l) = 1" using False by (intro merkle_levels_length) simp
  then have "hd (merkle_levels C ?l) \<in> set (merkle_levels C ?l)" by (intro hd_in_set) auto
  moreover have "\<forall>h \<in> set ?l. length h = 32" using assms by (auto simp: merkle_leaf_def crypto_lengths)
  ultimately have "length (hd (merkle_levels C ?l)) = 32" using merkle_levels_lengths [OF assms] by blast
  then show ?thesis using False by (simp add: merkle_root_def)
qed (simp add: merkle_root_def crypto_lengths assms)

lemma chain_tip_length:
  assumes "chain_run C params verifier bs st" "crypto_ok C" "wf_params params"
  shows "length (cs_tip st) = 32"
  using assms
proof (induction rule: chain_run.induct)
  case (genesis st)
  then show ?case using chain_new_Ok(3) [OF genesis(1)] by (simp add: wf_params_def)
next
  case (extend bs st b ctx fees st')
  then show ?case by (auto elim!: validate_and_apply_Ok simp: block_id_def crypto_lengths)
qed

lemma coinbase_new_typed:
  "length miner = 32 \<Longrightarrow> wf_params params \<Longrightarrow> list_all wf_output (cb_outputs (coinbase_new h a miner (np_rewards params)))"
  by (simp add: coinbase_new_def wf_output_def wf_lock_def wf_params_def)

lemma build_mining_job_typed:
  assumes C: "crypto_ok C" and nd: "node_sound C params verifier nd" "typed_node nd"
    and wf: "wf_params params" "length miner = 32" "typed_verifier verifier"
    and job: "build_mining_job C nd miner now = Ok job"
  shows "typed_job job" "bc_previous_block (mj_challenge job) = cs_tip (nd_state nd)" "mj_verifier job = verifier"
    "bc_network_id (mj_challenge job) = np_network_id params"
proof -
  obtain tpl where t: "build_template C nd miner now = Ok tpl" "job = \<lparr>mj_template = tpl, mj_verifier = nd_verifier nd\<rparr>"
    using job by (auto simp: build_mining_job_def)
  obtain rs nd0 where inv: "node_inv C params verifier rs nd0" "nd_state nd = nd_state nd0" "nd_params nd = params" "nd_verifier nd = verifier"
    using node_sound_inv [OF C nd(1)] by metis
  obtain bs where run: "chain_run C params verifier bs (nd_state nd)" using node_chain_run [OF C inv(1)] inv(2) by metis
  have lim: "wf_limit params" using wf(1) by (simp add: wf_params_def wf_limit_def)
  note r = chain_run_wf [OF run lim]
  from expected_target_total [OF r(1)] lim r(2,4) obtain tgt where tgt: "expected_target (nd_state nd) = Ok tgt" "length tgt = 32" by auto
  obtain alloc where p: "expected_target (nd_state nd) = Ok (bc_target (bt_challenge tpl))"
    "bt_coinbase tpl = coinbase_new (cs_next_height (nd_state nd)) alloc miner (np_rewards (nd_params nd))"
    "bt_transactions tpl = pool_txs (nd_mempool nd)"
    "bc_network_id (bt_challenge tpl) = np_network_id (nd_params nd)" "bc_previous_block (bt_challenge tpl) = cs_tip (nd_state nd)"
    "bc_transaction_root (bt_challenge tpl) = merkle_root C (coinbase_commitment C (bt_coinbase tpl) (np_network_id (nd_params nd))
       # map (txid C) (bt_transactions tpl))"
    using build_template_Ok [OF t(1) wf_chain_median [OF r(1)]] by metis
  have "wf_challenge (bt_challenge tpl)"
    using p tgt wf(1) chain_tip_length [OF run C wf(1)] merkle_root_length [OF C] by (simp add: wf_challenge_def inv(3) wf_params_def)
  moreover have "list_all wf_transaction (bt_transactions tpl)"
    using nd(2) unfolding p(3) typed_node_def pool_set_def list_all_iff by blast
  ultimately show "typed_job job"
    using coinbase_new_typed [OF wf(2,1)] wf(3) by (simp add: typed_job_def t(2) inv(3,4) p(2))
  show "bc_previous_block (mj_challenge job) = cs_tip (nd_state nd)" "mj_verifier job = verifier"
    "bc_network_id (mj_challenge job) = np_network_id params"
    by (simp_all add: t(2) mj_challenge_def p inv)
qed

lemma pow_evaluate_typed:
  assumes "crypto_ok C" "typed_verifier v" "pow_evaluate C v block nonce = Ok p"
  shows "wf_proof p"
proof (cases v)
  case (PV_V1Legacy f)
  then show ?thesis
    using assms by (auto simp: pow_evaluate_def forge_prove_def evaluate_def Let_def wf_proof_def typed_verifier_def crypto_lengths)
next
  case (PV_V2Reference r)
  then show ?thesis
    using assms by (auto simp: pow_evaluate_def prove_compact_def prove_reference_def challenge_digest_v2_def manifest_digest_def
      Let_def wf_proof_def crypto_lengths output_digest_v2_def work_digest_v2_def)
qed

lemma job_block_typed:
  assumes "crypto_ok C" "typed_job job" "wf_proof p"
  shows "wf_block (template_with_proof (mj_template job) p)"
  using assms by (simp add: typed_job_def template_with_proof_def wf_block_def)

end
