(* ===== verification/CF_Pool.thy ===== *)
theory CF_Pool
  imports CF_Pool_Ledger CF_Progress "HOL-Library.FSet"
begin

text \<open>
  The server of the pool, of \<open>crates/cmfd-node/src/pool.rs\<close>: jobs and their rotation, the processing of a
  share, and the session of a connection.

  The threads of the server meet only in critical sections: those under the node's lock, under the
  lock of the current job, and under the lock of the ledger. \<open>pool_step\<close> is the relation of the sections of
  all threads; \<open>process_share\<close> and \<open>handle_connection\<close> are the code of one session, with whatever the
  other threads do in between (\<open>pe_others\<close>). A job that has been issued stays on the list of jobs, at
  the position that stands for the shared pointer to it.
\<close>

section \<open>Data\<close>

record pool_job =
  pj_job_id :: hash32
  pj_challenge :: block_challenge
  pj_share_target :: hash32

record active_job =
  aj_wire :: pool_job
  aj_mining :: mining_job
  aj_seen_nonces :: "u64 fset"

text \<open>The fields of \<open>SharedServer\<close> that never change, and those that do.\<close>

record pool_config =
  pc_network_id :: hash32
  pc_consensus_fingerprint :: hash32
  pc_block_destination :: hash32
  pc_configured_share_target :: hash32
  pc_test_credit_atoms_per_share :: u64
  pc_max_connections :: nat
  pc_startup_nonce :: hash32

record pool_server =
  sv_node :: node
  sv_jobs :: "active_job list"
  sv_current :: nat
  sv_next_job_sequence :: u64
  sv_ledger :: ledger
  sv_active_connections :: nat
  sv_next_session_id :: u64

record pool_share_result =
  sh_job_id :: hash32
  sh_nonce :: u64
  sh_accepted :: bool
  sh_block_accepted :: bool
  sh_code :: string
  sh_session :: pool_session_stats

datatype client_message =
    CM_Hello u16 hash32 hash32 string hash32
  | CM_SubmitShare hash32 u64

datatype server_message =
    SM_HelloAck u16 hash32 hash32 u64 string string
  | SM_Job pool_job
  | SM_ShareResult pool_share_result
  | SM_Error string string

datatype nonce_reservation = NR_Reserved | NR_Duplicate | NR_Full

section \<open>Jobs\<close>

definition issue_job :: "crypto \<Rightarrow> pool_config \<Rightarrow> u64 \<Rightarrow> hash32 \<Rightarrow> mining_job \<Rightarrow> active_job" where
  "issue_job C cf sequence job_nonce mining =
     (let share_target = easier_target (pc_configured_share_target cf) (bc_target (mj_challenge mining)) in
      \<lparr>aj_wire = \<lparr>pj_job_id = make_job_id C (pc_startup_nonce cf) job_nonce sequence (mj_challenge mining) share_target,
         pj_challenge = mj_challenge mining, pj_share_target = share_target\<rparr>,
       aj_mining = mining, aj_seen_nonces = {||}\<rparr>)"

definition current_active :: "pool_server \<Rightarrow> active_job" where
  "current_active S = sv_jobs S ! sv_current S"

definition job_previous :: "active_job \<Rightarrow> hash32" where
  "job_previous active = bc_previous_block (pj_challenge (aj_wire active))"

text \<open>\<open>spawn_pool_server\<close> up to the start of its listener, with the clock and the two random nonces it reads. The
  node's status gives the fingerprint, which is that of the node's parameters, and fails when the next
  target does. The certificate and the socket are outside the model.\<close>

definition spawn_pool_server ::
  "crypto \<Rightarrow> socket_addr \<Rightarrow> pool_config \<Rightarrow> node \<Rightarrow> u64 option \<Rightarrow> hash32 option \<Rightarrow> hash32 option
     \<Rightarrow> (pool_error, pool_config \<times> pool_server) outcome" where
  "spawn_pool_server C bind cf nd now startup_nonce first_job_nonce =
     obind (validate_private_address bind) (\<lambda>_.
     if pc_max_connections cf = 0 \<or> POOL_MAX_CONNECTIONS < pc_max_connections cf then Err PL_InvalidConnectionLimit
     else if \<not> key_from_bytes C (pc_block_destination cf) then Err (PL_Node ND_InvalidMinerDestination)
     else
     obind (map_err (\<lambda>e. PL_Node (ND_Network e)) (fingerprint C (nd_params nd))) (\<lambda>consensus_fingerprint.
     obind (map_err (\<lambda>e. PL_Node (ND_Chain e)) (expected_target (nd_state nd))) (\<lambda>_.
     obind (ok_or (PL_Node ND_InvalidSystemTime) now) (\<lambda>now.
     obind (map_err PL_Node (build_mining_job C nd (pc_block_destination cf) now)) (\<lambda>mining.
     obind (ok_or PL_Random startup_nonce) (\<lambda>startup_nonce.
     obind (ok_or PL_Random first_job_nonce) (\<lambda>first_job_nonce.
     let cf = cf\<lparr>pc_network_id := np_network_id (nd_params nd), pc_consensus_fingerprint := consensus_fingerprint,
                pc_startup_nonce := startup_nonce\<rparr> in
     Ok (cf, \<lparr>sv_node = nd, sv_jobs = [issue_job C cf 0 first_job_nonce mining], sv_current = 0, sv_next_job_sequence = 1,
              sv_ledger = ledger_default, sv_active_connections = 0, sv_next_session_id = 1\<rparr>))))))))"

text \<open>The critical section under the node's and the job's lock.\<close>

definition rotate_if_tip_changed ::
  "crypto \<Rightarrow> pool_config \<Rightarrow> u64 option \<Rightarrow> hash32 option \<Rightarrow> pool_server \<Rightarrow> pool_server \<times> (pool_error, bool) outcome" where
  "rotate_if_tip_changed C cf now random S =
     (if job_previous (current_active S) = cs_tip (nd_state (sv_node S)) then (S, Ok False)
      else
      try_in S (obind (ok_or (PL_Node ND_InvalidSystemTime) now) (\<lambda>now.
                map_err PL_Node (build_mining_job C (sv_node S) (pc_block_destination cf) now))) (\<lambda>mining.
      let sequence = sv_next_job_sequence S; S = S\<lparr>sv_next_job_sequence := sequence + 1\<rparr> in
      try_in S (ok_or PL_Random random) (\<lambda>job_nonce.
      (S\<lparr>sv_jobs := sv_jobs S @ [issue_job C cf sequence job_nonce mining], sv_current := length (sv_jobs S)\<rparr>, Ok True))))"

definition reserve_valid_share :: "active_job \<Rightarrow> u64 \<Rightarrow> active_job \<times> nonce_reservation" where
  "reserve_valid_share active nonce =
     (if nonce |\<in>| aj_seen_nonces active then (active, NR_Duplicate)
      else if POOL_MAX_SHARES_PER_JOB \<le> fcard (aj_seen_nonces active) then (active, NR_Full)
      else (active\<lparr>aj_seen_nonces := finsert nonce (aj_seen_nonces active)\<rparr>, NR_Reserved))"

section \<open>Shares\<close>

text \<open>The evaluation of a share, outside the locks, on the parts of a job that never change.\<close>

datatype share_verdict = SV_LowDifficulty | SV_InvalidChainProof | SV_Share "block option"

definition judge_share :: "crypto \<Rightarrow> active_job \<Rightarrow> u64 \<Rightarrow> (pool_error, share_verdict) outcome" where
  "judge_share C active nonce =
     obind (map_err PL_Node (evaluate_share C (aj_mining active) nonce (pj_share_target (aj_wire active)))) (\<lambda>evaluation.
     if \<not> se_meets_share_target evaluation then Ok SV_LowDifficulty
     else if se_meets_chain_target evaluation
     then
       obind (map_err PL_Node (build_block_if_chain_valid C (aj_mining active) (se_proof evaluation))) (\<lambda>built.
       case built of Some b \<Rightarrow> Ok (SV_Share (Some b)) | None \<Rightarrow> Ok SV_InvalidChainProof)
     else Ok (SV_Share None))"

text \<open>The critical section under the node's lock. It holds the lock of the job's nonces and that of the
  ledger in turn; what other threads do to the ledger in between does not touch the node or the
  nonces, and is taken to happen before the section.\<close>

datatype commit_result = CR_StaleTip | CR_Duplicate | CR_Full | CR_Credited pool_session_stats

definition submit_share_block ::
  "crypto \<Rightarrow> u64 option \<Rightarrow> append_io \<Rightarrow> block option \<Rightarrow> pool_server \<Rightarrow> pool_server \<times> (pool_error, unit) outcome" where
  "submit_share_block C now io block S =
     (case block of
        None \<Rightarrow> (S, Ok ())
      | Some b \<Rightarrow>
          try_in S (ok_or (PL_Node ND_InvalidSystemTime) now) (\<lambda>now.
          case submit_block C io (sv_node S) b now of
            (nd, r) \<Rightarrow> (S\<lparr>sv_node := nd\<rparr>, map_err PL_Node (obind r (\<lambda>_. Ok ())))))"

definition credit_session :: "pool_config \<Rightarrow> u64 \<Rightarrow> bool \<Rightarrow> pool_server \<Rightarrow> pool_server \<times> (pool_error, commit_result) outcome" where
  "credit_session cf session_id block_accepted S =
     (case credit_accepted_share session_id block_accepted (pc_test_credit_atoms_per_share cf) (sv_ledger S) of
        (lg, r) \<Rightarrow> (S\<lparr>sv_ledger := lg\<rparr>, obind r (\<lambda>stats. Ok (CR_Credited stats))))"

definition commit_share ::
  "crypto \<Rightarrow> pool_config \<Rightarrow> u64 option \<Rightarrow> append_io \<Rightarrow> u64 \<Rightarrow> nat \<Rightarrow> u64 \<Rightarrow> block option \<Rightarrow> pool_server
     \<Rightarrow> pool_server \<times> (pool_error, commit_result) outcome" where
  "commit_share C cf now io session_id ptr nonce block S =
     (if cs_tip (nd_state (sv_node S)) \<noteq> job_previous (sv_jobs S ! ptr) then (S, Ok CR_StaleTip)
      else case reserve_valid_share (sv_jobs S ! ptr) nonce of (active, reservation) \<Rightarrow>
        let S = S\<lparr>sv_jobs := (sv_jobs S)[ptr := active]\<rparr> in
        if reservation = NR_Duplicate then (S, Ok CR_Duplicate)
        else if reservation = NR_Full \<and> block = None then (S, Ok CR_Full)
        else case submit_share_block C now io block S of
          (S, r) \<Rightarrow> try_in S r (\<lambda>_. credit_session cf session_id (block \<noteq> None) S))"

section \<open>What other threads do\<close>

text \<open>The threads: how many connections wait for their greeting or are about to close, which have taken a
  session number, and which sessions are on the ledger and still served. The code has no such record; it is
  where its threads stand.\<close>

record pool_threads =
  th_waiting :: nat
  th_closing :: nat
  th_identified :: "(u64 \<times> string \<times> hash32) list"
  th_live :: "u64 list"

text \<open>What happens outside a session between its own sections: the clock and the random bytes it reads, what an
  append returns, what the other threads have done by then to the server, from where they stood, and
  whether a panic has poisoned the lock it takes.\<close>

record pool_environment =
  pe_clock :: "nat \<Rightarrow> u64 option"
  pe_random :: "nat \<Rightarrow> hash32 option"
  pe_append :: "nat \<Rightarrow> append_io"
  pe_others :: "nat \<Rightarrow> pool_threads \<times> pool_server \<Rightarrow> pool_threads \<times> pool_server"
  pe_poisoned :: "nat \<Rightarrow> bool"
  pe_stopped :: "nat \<Rightarrow> bool"

record pool_task =
  pt_threads :: pool_threads
  pt_server :: pool_server
  pt_tick :: nat

type_synonym ('w, 'a) pool_action = "'w \<Rightarrow> 'w \<times> (pool_error, 'a) outcome"

definition pbind :: "('w, 'a) pool_action \<Rightarrow> ('a \<Rightarrow> ('w, 'b) pool_action) \<Rightarrow> ('w, 'b) pool_action" where
  "pbind m f w = (case m w of (w', r) \<Rightarrow> try_in w' r (\<lambda>x. f x w'))"

definition plift :: "(pool_error, 'a) outcome \<Rightarrow> ('w, 'a) pool_action" where "plift r w = (w, r)"

text \<open>An indivisible step of a session, run at some point of time after what the others did before it; and a
  critical section, which does not run when its lock is poisoned and leaves the threads where they are.\<close>

definition indivisible ::
  "pool_environment \<Rightarrow> (nat \<Rightarrow> pool_threads \<times> pool_server \<Rightarrow> (pool_threads \<times> pool_server) \<times> (pool_error, 'a) outcome)
     \<Rightarrow> ('z pool_task_scheme, 'a) pool_action" where
  "indivisible E f w =
     (let k = pt_tick w in
      case f k (pe_others E k (pt_threads w, pt_server w)) of
        ((T, S), r) \<Rightarrow> (w\<lparr>pt_threads := T, pt_server := S, pt_tick := Suc k\<rparr>, r))"

definition critical ::
  "pool_environment \<Rightarrow> (nat \<Rightarrow> pool_server \<Rightarrow> pool_server \<times> (pool_error, 'a) outcome) \<Rightarrow> ('z pool_task_scheme, 'a) pool_action" where
  "critical E f = indivisible E (\<lambda>k (T, S).
     if pe_poisoned E k then ((T, S), Err PL_SharedStatePoisoned)
     else case f k S of (S', r) \<Rightarrow> ((T, S'), r))"

definition rotate_job :: "crypto \<Rightarrow> pool_config \<Rightarrow> pool_environment \<Rightarrow> ('z pool_task_scheme, bool) pool_action" where
  "rotate_job C cf E = critical E (\<lambda>k. rotate_if_tip_changed C cf (pe_clock E k) (pe_random E k))"

definition current_job :: "pool_environment \<Rightarrow> ('z pool_task_scheme, pool_job) pool_action" where
  "current_job E = critical E (\<lambda>_ S. (S, Ok (aj_wire (current_active S))))"

definition rejected_result ::
  "pool_environment \<Rightarrow> u64 \<Rightarrow> hash32 \<Rightarrow> u64 \<Rightarrow> string \<Rightarrow> ('z pool_task_scheme, pool_share_result) pool_action" where
  "rejected_result E session_id job_id nonce code =
     critical E (\<lambda>_ S. case credit_rejected_share session_id (sv_ledger S) of (lg, r) \<Rightarrow>
       (S\<lparr>sv_ledger := lg\<rparr>, obind r (\<lambda>session.
         Ok \<lparr>sh_job_id = job_id, sh_nonce = nonce, sh_accepted = False, sh_block_accepted = False, sh_code = code,
             sh_session = session\<rparr>)))"

text \<open>\<open>process_share\<close>, from its end: the answer to the outcome of the commit; the code after the job has been
  taken; the whole.\<close>

definition answer_commit ::
  "crypto \<Rightarrow> pool_config \<Rightarrow> pool_environment \<Rightarrow> u64 \<Rightarrow> hash32 \<Rightarrow> u64 \<Rightarrow> bool \<Rightarrow> commit_result
     \<Rightarrow> ('z pool_task_scheme, pool_share_result) pool_action" where
  "answer_commit C cf E session_id job_id nonce block_accepted committed =
     (case committed of
        CR_StaleTip \<Rightarrow> pbind (rotate_job C cf E) (\<lambda>_. rejected_result E session_id job_id nonce ''stale_job'')
      | CR_Duplicate \<Rightarrow> rejected_result E session_id job_id nonce ''duplicate_share''
      | CR_Full \<Rightarrow> rejected_result E session_id job_id nonce ''job_share_limit''
      | CR_Credited session \<Rightarrow>
          pbind (if block_accepted then rotate_job C cf E else plift (Ok False)) (\<lambda>_.
          plift (Ok \<lparr>sh_job_id = job_id, sh_nonce = nonce, sh_accepted = True, sh_block_accepted = block_accepted,
            sh_code = (if block_accepted then ''block_accepted'' else ''share_accepted''), sh_session = session\<rparr>)))"

definition process_on_job ::
  "crypto \<Rightarrow> pool_config \<Rightarrow> pool_environment \<Rightarrow> u64 \<Rightarrow> hash32 \<Rightarrow> u64 \<Rightarrow> nat \<Rightarrow> active_job
     \<Rightarrow> ('z pool_task_scheme, pool_share_result) pool_action" where
  "process_on_job C cf E session_id job_id nonce ptr active =
     (if job_id \<noteq> pj_job_id (aj_wire active) then rejected_result E session_id job_id nonce ''stale_job''
      else
      pbind (plift (judge_share C active nonce)) (\<lambda>verdict.
      case verdict of
        SV_LowDifficulty \<Rightarrow> rejected_result E session_id job_id nonce ''low_difficulty_share''
      | SV_InvalidChainProof \<Rightarrow> rejected_result E session_id job_id nonce ''invalid_chain_proof''
      | SV_Share block \<Rightarrow>
          pbind (critical E (\<lambda>k. commit_share C cf (pe_clock E k) (pe_append E k) session_id ptr nonce block))
            (answer_commit C cf E session_id job_id nonce (block \<noteq> None))))"

definition process_share ::
  "crypto \<Rightarrow> pool_config \<Rightarrow> pool_environment \<Rightarrow> u64 \<Rightarrow> hash32 \<Rightarrow> u64 \<Rightarrow> ('z pool_task_scheme, pool_share_result) pool_action" where
  "process_share C cf E session_id job_id nonce =
     pbind (critical E (\<lambda>_ S. (S, Ok (sv_current S, current_active S)))) (\<lambda>(ptr, active).
     process_on_job C cf E session_id job_id nonce ptr active)"

section \<open>A connection\<close>

text \<open>The frames the client sends are the argument \<open>stream_in\<close>: the results of reading them, in order, and the end
  of the stream after them. Frames are written until the socket fails.\<close>

record pool_connection = pool_task +
  cn_sent :: "server_message list"
  cn_writable :: nat

definition write_message :: "server_message \<Rightarrow> (pool_connection, unit) pool_action" where
  "write_message m w =
     (if cn_writable w = 0 then (w, Err PL_Io)
      else (w\<lparr>cn_sent := cn_sent w @ [m], cn_writable := cn_writable w - 1\<rparr>, Ok ()))"

definition refuse_client :: "string \<Rightarrow> string \<Rightarrow> pool_error \<Rightarrow> (pool_connection, 'a) pool_action" where
  "refuse_client code message e = pbind (write_message (SM_Error code message)) (\<lambda>_. plift (Err e))"

definition greet_client :: "crypto \<Rightarrow> pool_config \<Rightarrow> client_message \<Rightarrow> (pool_connection, string \<times> hash32) pool_action" where
  "greet_client C cf m =
     (case m of
        CM_Hello protocol_version network_id consensus_fingerprint worker payout \<Rightarrow>
          if protocol_version \<noteq> POOL_PROTOCOL_VERSION
          then refuse_client ''protocol_mismatch'' ''pool protocol version mismatch'' PL_ProtocolMismatch
          else if network_id \<noteq> pc_network_id cf
          then refuse_client ''network_mismatch'' ''pool network identifier mismatch'' PL_NetworkMismatch
          else if consensus_fingerprint \<noteq> pc_consensus_fingerprint cf
          then refuse_client ''fingerprint_mismatch'' ''pool consensus fingerprint mismatch'' PL_FingerprintMismatch
          else
          pbind (plift (validate_worker worker)) (\<lambda>_.
          plift (if key_from_bytes C payout then Ok (worker, payout) else Err (PL_Node ND_InvalidMinerDestination)))
      | CM_SubmitShare _ _ \<Rightarrow>
          refuse_client ''hello_required'' ''first message must be hello'' (PL_InvalidMessage ''hello required''))"

text \<open>A connection takes a number with an atomic increment; it then registers, or gives up; a session that ends
  leaves the ledger, unless its lock is poisoned.\<close>

definition take_session_id :: "pool_environment \<Rightarrow> string \<Rightarrow> hash32 \<Rightarrow> ('z pool_task_scheme, u64) pool_action" where
  "take_session_id E worker payout = indivisible E (\<lambda>_ (T, S).
     ((T\<lparr>th_waiting := th_waiting T - 1, th_identified := (sv_next_session_id S, worker, payout) # th_identified T\<rparr>,
       S\<lparr>sv_next_session_id := sv_next_session_id S + 1\<rparr>), Ok (sv_next_session_id S)))"

definition registered :: "u64 \<Rightarrow> string \<Rightarrow> hash32 \<Rightarrow> pool_threads \<Rightarrow> pool_threads" where
  "registered session_id worker payout T =
     T\<lparr>th_identified := remove1 (session_id, worker, payout) (th_identified T), th_live := session_id # th_live T\<rparr>"

definition turned_away :: "u64 \<Rightarrow> string \<Rightarrow> hash32 \<Rightarrow> pool_threads \<Rightarrow> pool_threads" where
  "turned_away session_id worker payout T =
     T\<lparr>th_identified := remove1 (session_id, worker, payout) (th_identified T), th_closing := Suc (th_closing T)\<rparr>"

definition departed :: "u64 \<Rightarrow> pool_threads \<Rightarrow> pool_threads" where
  "departed session_id T = T\<lparr>th_live := remove1 session_id (th_live T), th_closing := Suc (th_closing T)\<rparr>"

definition enter_ledger :: "pool_environment \<Rightarrow> u64 \<Rightarrow> string \<Rightarrow> hash32 \<Rightarrow> ('z pool_task_scheme, unit) pool_action" where
  "enter_ledger E session_id worker payout = indivisible E (\<lambda>k (T, S).
     if pe_poisoned E k then ((turned_away session_id worker payout T, S), Err PL_SharedStatePoisoned)
     else case register_session session_id worker payout (sv_ledger S) of (lg, r) \<Rightarrow>
       ((if r = Ok () then registered session_id worker payout T else turned_away session_id worker payout T, S\<lparr>sv_ledger := lg\<rparr>), r))"

definition leave_ledger :: "pool_environment \<Rightarrow> u64 \<Rightarrow> ('z pool_task_scheme, unit) pool_action" where
  "leave_ledger E session_id = indivisible E (\<lambda>k (T, S).
     ((departed session_id T,
       if pe_poisoned E k then S else S\<lparr>sv_ledger := disconnect_session session_id (sv_ledger S)\<rparr>), Ok ()))"

text \<open>The answer to one submitted share.\<close>

definition answer_share ::
  "crypto \<Rightarrow> pool_config \<Rightarrow> pool_environment \<Rightarrow> u64 \<Rightarrow> hash32 \<Rightarrow> u64 \<Rightarrow> (pool_connection, unit) pool_action" where
  "answer_share C cf E session_id job_id nonce =
     pbind (rotate_job C cf E) (\<lambda>_.
     pbind (current_job E) (\<lambda>before.
     pbind (process_share C cf E session_id job_id nonce) (\<lambda>result.
     pbind (current_job E) (\<lambda>after.
     pbind (if pj_job_id before \<noteq> pj_job_id after \<or> job_id \<noteq> pj_job_id before then write_message (SM_Job after) else plift (Ok ())) (\<lambda>_.
     write_message (SM_ShareResult result))))))"

primrec session_loop ::
  "crypto \<Rightarrow> pool_config \<Rightarrow> pool_environment \<Rightarrow> u64 \<Rightarrow> (pool_error, client_message) outcome list \<Rightarrow> u64
     \<Rightarrow> (pool_connection, unit) pool_action" where
  "session_loop C cf E session_id [] message_count =
     (\<lambda>w. if pe_stopped E (pt_tick w) then (w, Ok ()) else pbind (rotate_job C cf E) (\<lambda>_. plift (Ok ())) w)"
| "session_loop C cf E session_id (frame # frames) message_count =
     (\<lambda>w. if pe_stopped E (pt_tick w) then (w, Ok ())
      else pbind (rotate_job C cf E) (\<lambda>_.
        if frame = Err PL_ConnectionClosed then plift (Ok ())
        else
        pbind (plift frame) (\<lambda>m.
        pbind (plift (ok_or PL_MessageCountLimit (checked_add message_count 1))) (\<lambda>message_count.
        if validate_message_count message_count \<noteq> Ok ()
        then refuse_client ''message_count_limit'' ''session message limit exceeded'' PL_MessageCountLimit
        else case m of
          CM_SubmitShare job_id nonce \<Rightarrow>
            pbind (answer_share C cf E session_id job_id nonce) (\<lambda>_. session_loop C cf E session_id frames message_count)
        | CM_Hello _ _ _ _ _ \<Rightarrow>
            refuse_client ''unexpected_hello'' ''hello may only be sent once'' (PL_InvalidMessage ''duplicate hello'')))) w)"

definition run_session ::
  "crypto \<Rightarrow> pool_config \<Rightarrow> pool_environment \<Rightarrow> u64 \<Rightarrow> (pool_error, client_message) outcome list \<Rightarrow> (pool_connection, unit) pool_action" where
  "run_session C cf E session_id frames =
     pbind (write_message (SM_HelloAck POOL_PROTOCOL_VERSION (pc_network_id cf) (pc_consensus_fingerprint cf) session_id
              POOL_ACCOUNTING_SEMANTICS POOL_PERSISTENCE)) (\<lambda>_.
     pbind (current_job E) (\<lambda>job.
     pbind (write_message (SM_Job job)) (\<lambda>_.
     session_loop C cf E session_id frames 0)))"

definition handle_connection ::
  "crypto \<Rightarrow> pool_config \<Rightarrow> pool_environment \<Rightarrow> (pool_error, client_message) outcome list \<Rightarrow> (pool_connection, unit) pool_action" where
  "handle_connection C cf E stream_in =
     (case stream_in of
        [] \<Rightarrow> plift (Err PL_ConnectionClosed)
      | hello # frames \<Rightarrow>
          pbind (plift hello) (\<lambda>hello.
          pbind (greet_client C cf hello) (\<lambda>(worker, payout).
          pbind (take_session_id E worker payout) (\<lambda>session_id.
          pbind (enter_ledger E session_id worker payout) (\<lambda>_ w.
          case run_session C cf E session_id frames w of
            (w, r) \<Rightarrow> (fst (leave_ledger E session_id w), r))))))"

section \<open>The steps of the server\<close>

text \<open>What a step does to the accounts: a share of a job is paid, a share is refused, a session leaves, or nothing.\<close>

datatype pool_label = PL_Paid u64 nat u64 bool | PL_Refused u64 | PL_Left u64 | PL_Silent

text \<open>The critical sections of all threads: the listener's, those of \<open>handle_connection\<close> and \<open>process_share\<close>, the
  end of a session, and what else happens to the node. A section that finds its lock poisoned does nothing
  and needs no rule, but for the end of a session: there the code leaves the session connected. The lock of
  the ledger is poisoned only by a panic in a section that holds it, and none of these panics; so a session
  always leaves by \<open>step_leave\<close>.\<close>

inductive pool_step ::
  "crypto \<Rightarrow> pool_config \<Rightarrow> pool_threads \<times> pool_server \<Rightarrow> pool_label \<Rightarrow> pool_threads \<times> pool_server \<Rightarrow> bool" for C cf where
    step_node: "typed_event e \<Longrightarrow> pool_step C cf (T, S) PL_Silent (T, S\<lparr>sv_node := apply_event C (sv_node S) e\<rparr>)"
  | step_rotate: "rotate_if_tip_changed C cf now random S = (S', r) \<Longrightarrow> pool_step C cf (T, S) PL_Silent (T, S')"
  | step_accept: "\<lbrakk>validate_private_address peer = Ok (); sv_active_connections S < pc_max_connections cf\<rbrakk> \<Longrightarrow>
      pool_step C cf (T, S) PL_Silent
        (T\<lparr>th_waiting := Suc (th_waiting T)\<rparr>, S\<lparr>sv_active_connections := Suc (sv_active_connections S)\<rparr>)"
  | step_close_early: "th_waiting T = Suc n \<Longrightarrow>
      pool_step C cf (T, S) PL_Silent (T\<lparr>th_waiting := n\<rparr>, S\<lparr>sv_active_connections := sv_active_connections S - 1\<rparr>)"
  | step_close: "th_closing T = Suc n \<Longrightarrow>
      pool_step C cf (T, S) PL_Silent (T\<lparr>th_closing := n\<rparr>, S\<lparr>sv_active_connections := sv_active_connections S - 1\<rparr>)"
  | step_identify: "\<lbrakk>th_waiting T = Suc n; validate_worker worker = Ok (); key_from_bytes C payout\<rbrakk> \<Longrightarrow>
      pool_step C cf (T, S) PL_Silent
        (T\<lparr>th_waiting := n, th_identified := (sv_next_session_id S, worker, payout) # th_identified T\<rparr>,
         S\<lparr>sv_next_session_id := sv_next_session_id S + 1\<rparr>)"
  | step_register: "\<lbrakk>(sid, worker, payout) \<in> set (th_identified T);
      register_session sid worker payout (sv_ledger S) = (lg, Ok ())\<rbrakk> \<Longrightarrow>
      pool_step C cf (T, S) PL_Silent
        (registered sid worker payout T, S\<lparr>sv_ledger := lg\<rparr>)"
  | step_turned_away: "\<lbrakk>(sid, worker, payout) \<in> set (th_identified T);
      register_session sid worker payout (sv_ledger S) = (lg, Err e)\<rbrakk> \<Longrightarrow>
      pool_step C cf (T, S) PL_Silent
        (turned_away sid worker payout T, S\<lparr>sv_ledger := lg\<rparr>)"
  | step_give_up: "(sid, worker, payout) \<in> set (th_identified T) \<Longrightarrow>
      pool_step C cf (T, S) PL_Silent (turned_away sid worker payout T, S)"
  | step_refuse: "\<lbrakk>sid \<in> set (th_live T); credit_rejected_share sid (sv_ledger S) = (lg, Ok stats)\<rbrakk> \<Longrightarrow>
      pool_step C cf (T, S) (PL_Refused sid) (T, S\<lparr>sv_ledger := lg\<rparr>)"
  | step_refuse_fails: "\<lbrakk>sid \<in> set (th_live T); credit_rejected_share sid (sv_ledger S) = (lg, r); \<forall>stats. r \<noteq> Ok stats\<rbrakk> \<Longrightarrow>
      pool_step C cf (T, S) PL_Silent (T, S\<lparr>sv_ledger := lg\<rparr>)"
  | step_pay: "\<lbrakk>sid \<in> set (th_live T); ptr < length (sv_jobs S); judge_share C (sv_jobs S ! ptr) nonce = Ok (SV_Share block);
      commit_share C cf now io sid ptr nonce block S = (S', Ok (CR_Credited stats))\<rbrakk> \<Longrightarrow>
      pool_step C cf (T, S) (PL_Paid sid ptr nonce (block \<noteq> None)) (T, S')"
  | step_no_pay: "\<lbrakk>sid \<in> set (th_live T); ptr < length (sv_jobs S); judge_share C (sv_jobs S ! ptr) nonce = Ok (SV_Share block);
      commit_share C cf now io sid ptr nonce block S = (S', r); \<forall>stats. r \<noteq> Ok (CR_Credited stats)\<rbrakk> \<Longrightarrow>
      pool_step C cf (T, S) PL_Silent (T, S')"
  | step_leave: "sid \<in> set (th_live T) \<Longrightarrow>
      pool_step C cf (T, S) (PL_Left sid)
        (departed sid T, S\<lparr>sv_ledger := disconnect_session sid (sv_ledger S)\<rparr>)"

inductive pool_steps ::
  "crypto \<Rightarrow> pool_config \<Rightarrow> pool_threads \<times> pool_server \<Rightarrow> pool_label list \<Rightarrow> pool_threads \<times> pool_server \<Rightarrow> bool" for C cf where
    steps_none: "pool_steps C cf s [] s"
  | steps_more: "\<lbrakk>pool_steps C cf s ls s'; pool_step C cf s' l s''\<rbrakk> \<Longrightarrow> pool_steps C cf s (ls @ [l]) s''"

definition no_threads :: pool_threads where
  "no_threads = \<lparr>th_waiting = 0, th_closing = 0, th_identified = [], th_live = []\<rparr>"

text \<open>A running server: spawned on a sound node, then any sequence of steps.\<close>

definition wf_pool_config :: "pool_config \<Rightarrow> bool" where
  "wf_pool_config cf \<longleftrightarrow> length (pc_block_destination cf) = 32"

definition pool_run ::
  "crypto \<Rightarrow> network_params \<Rightarrow> pow_verifier \<Rightarrow> pool_config \<Rightarrow> pool_label list \<Rightarrow> pool_threads \<times> pool_server \<Rightarrow> bool" where
  "pool_run C params verifier cf ls s \<longleftrightarrow> (\<exists>bind cf0 nd now startup_nonce first_job_nonce S.
     node_sound C params verifier nd \<and> typed_node nd \<and> wf_pool_config cf0 \<and>
     spawn_pool_server C bind cf0 nd now startup_nonce first_job_nonce = Ok (cf, S) \<and> pool_steps C cf (no_threads, S) ls s)"

end
