(* ===== verification/CF_Pool_Run.thy ===== *)
theory CF_Pool_Run
  imports CF_Pool
begin

text \<open>
  What holds in every run of the pool's server (\<open>pool_step\<close>): its jobs and the node (\<open>server_inv\<close>), the threads
  and the sessions on the ledger (\<open>threads_inv\<close>), the accounts (\<open>accounts_inv\<close>), and that no work is paid twice
  (\<open>paid_inv\<close>). Then what one session does between the steps of the others: \<open>process_share\<close> is a
  sequence of steps with one credit for every answer.
\<close>

section \<open>Jobs and node\<close>

definition job_ok :: "crypto \<Rightarrow> network_params \<Rightarrow> pow_verifier \<Rightarrow> active_job \<Rightarrow> bool" where
  "job_ok C params verifier j \<longleftrightarrow> typed_job (aj_mining j) \<and> pj_challenge (aj_wire j) = mj_challenge (aj_mining j) \<and>
     \<not> lex_less (pj_share_target (aj_wire j)) (bc_target (pj_challenge (aj_wire j))) \<and> mj_verifier (aj_mining j) = verifier \<and>
     bc_network_id (pj_challenge (aj_wire j)) = np_network_id params \<and> fcard (aj_seen_nonces j) \<le> POOL_MAX_SHARES_PER_JOB"

definition server_inv :: "crypto \<Rightarrow> network_params \<Rightarrow> pow_verifier \<Rightarrow> pool_server \<Rightarrow> bool" where
  "server_inv C params verifier S \<longleftrightarrow> node_sound C params verifier (sv_node S) \<and> typed_node (sv_node S) \<and>
     sv_current S < length (sv_jobs S) \<and> list_all (job_ok C params verifier) (sv_jobs S) \<and>
     distinct (map job_previous (sv_jobs S)) \<and>
     (\<forall>i < length (sv_jobs S). left_behind (sv_node S) (job_previous (sv_jobs S ! i)) \<or>
        i = sv_current S \<and> job_previous (sv_jobs S ! i) = cs_tip (nd_state (sv_node S)))"

text \<open>What a step may change of the jobs and the node: old jobs keep everything but the nonces seen, which grow.\<close>

definition same_job :: "active_job \<Rightarrow> active_job \<Rightarrow> bool" where
  "same_job j j' \<longleftrightarrow> aj_wire j' = aj_wire j \<and> aj_mining j' = aj_mining j \<and> aj_seen_nonces j |\<subseteq>| aj_seen_nonces j'"

definition jobs_grow :: "pool_server \<Rightarrow> pool_server \<Rightarrow> bool" where
  "jobs_grow S S' \<longleftrightarrow> length (sv_jobs S) \<le> length (sv_jobs S') \<and>
     (\<forall>i < length (sv_jobs S). same_job (sv_jobs S ! i) (sv_jobs S' ! i)) \<and>
     (\<forall>x. left_behind (sv_node S) x \<longrightarrow> left_behind (sv_node S') x)"

lemma jobs_grow_refl [simp]: "jobs_grow S S"
  by (simp add: jobs_grow_def same_job_def)

lemma same_job_trans: "same_job j j' \<Longrightarrow> same_job j' j'' \<Longrightarrow> same_job j j''"
  by (auto simp: same_job_def)

lemma jobs_grow_trans: "jobs_grow S S' \<Longrightarrow> jobs_grow S' S'' \<Longrightarrow> jobs_grow S S''"
  unfolding jobs_grow_def by (meson less_le_trans order_trans same_job_trans)

lemma jobs_grow_same: "sv_node S' = sv_node S \<Longrightarrow> sv_jobs S' = sv_jobs S \<Longrightarrow> jobs_grow S S'"
  by (simp add: jobs_grow_def same_job_def)

lemma server_inv_same:
  "server_inv C params verifier S \<Longrightarrow> sv_node S' = sv_node S \<Longrightarrow> sv_jobs S' = sv_jobs S \<Longrightarrow> sv_current S' = sv_current S \<Longrightarrow>
     server_inv C params verifier S'"
  by (simp add: server_inv_def)

lemma same_job_previous: "same_job j j' \<Longrightarrow> job_previous j' = job_previous j"
  by (simp add: same_job_def job_previous_def)

lemma issue_job_ok:
  assumes "typed_job mining" "mj_verifier mining = verifier" "bc_network_id (mj_challenge mining) = np_network_id params"
  shows "job_ok C params verifier (issue_job C cf sequence nonce mining)"
    "job_previous (issue_job C cf sequence nonce mining) = bc_previous_block (mj_challenge mining)"
  using assms by (auto simp: issue_job_def job_ok_def job_previous_def Let_def easier_target_def lex_less_def fcard_fempty)

lemma rotate_cases:
  assumes "rotate_if_tip_changed C cf now random S = (S', r)"
  obtains (stays) "sv_node S' = sv_node S" "sv_jobs S' = sv_jobs S" "sv_current S' = sv_current S" "sv_ledger S' = sv_ledger S"
      "sv_active_connections S' = sv_active_connections S" "sv_next_session_id S' = sv_next_session_id S"
      "r = Ok False \<and> job_previous (current_active S) = cs_tip (nd_state (sv_node S)) \<or> \<not> is_ok r"
    | (rotates) t mining sequence nonce where "job_previous (current_active S) \<noteq> cs_tip (nd_state (sv_node S))"
      "build_mining_job C (sv_node S) (pc_block_destination cf) t = Ok mining" "r = Ok True" "sv_node S' = sv_node S"
      "sv_jobs S' = sv_jobs S @ [issue_job C cf sequence nonce mining]" "sv_current S' = length (sv_jobs S)"
      "sv_ledger S' = sv_ledger S" "sv_active_connections S' = sv_active_connections S" "sv_next_session_id S' = sv_next_session_id S"
proof (cases "job_previous (current_active S) = cs_tip (nd_state (sv_node S))")
  case True
  then show thesis using assms stays by (simp add: rotate_if_tip_changed_def)
next
  case False
  show thesis
  proof (cases now)
    case None
    then show thesis using assms stays False by (auto simp: rotate_if_tip_changed_def try_in_def is_ok_def)
  next
    case (Some t)
    show thesis
    proof (cases "build_mining_job C (sv_node S) (pc_block_destination cf) t")
      case (Ok mining)
      then show thesis using assms stays rotates [of t mining] False Some
        by (cases random) (auto simp: rotate_if_tip_changed_def try_in_def is_ok_def Let_def)
    qed (use assms stays False Some in \<open>auto simp: rotate_if_tip_changed_def try_in_def is_ok_def\<close>)
  qed
qed

lemma server_inv_rotate:
  assumes C: "crypto_ok C" and inv: "server_inv C params verifier S"
    and wf: "wf_params params" "wf_pool_config cf" "typed_verifier verifier"
    and run: "rotate_if_tip_changed C cf now random S = (S', r)"
  shows "server_inv C params verifier S' \<and> jobs_grow S S'"
  using run
proof (cases rule: rotate_cases)
  case stays
  then show ?thesis using inv server_inv_same jobs_grow_same by blast
next
  case (rotates t mining sequence nonce)
  note I = inv [unfolded server_inv_def]
  have m: "typed_job mining" "bc_previous_block (mj_challenge mining) = cs_tip (nd_state (sv_node S))" "mj_verifier mining = verifier"
    "bc_network_id (mj_challenge mining) = np_network_id params"
    using build_mining_job_typed [OF C _ _ wf(1) _ wf(3) rotates(2)] I wf(2) by (simp_all add: wf_pool_config_def)
  let ?j = "issue_job C cf sequence nonce mining"
  note j = issue_job_ok [OF m(1,3,4), of C cf sequence nonce]
  have old: "left_behind (sv_node S) (job_previous (sv_jobs S ! i))" if "i < length (sv_jobs S)" for i
    using I that rotates(1) by (auto simp: current_active_def)
  have "cs_tip (nd_state (sv_node S)) \<notin> job_previous ` set (sv_jobs S)"
    using old left_behind_not_tip [OF C] I by (fastforce simp: in_set_conv_nth)
  then have "server_inv C params verifier S'"
    using I j old m(2) by (auto simp: server_inv_def rotates nth_append less_Suc_eq)
  moreover have "jobs_grow S S'" by (simp add: jobs_grow_def rotates nth_append same_job_def)
  ultimately show ?thesis by blast
qed

lemma server_inv_event:
  assumes C: "crypto_ok C" and inv: "server_inv C params verifier S" and e: "typed_event e"
    and S': "sv_node S' = apply_event C (sv_node S) e" "sv_jobs S' = sv_jobs S" "sv_current S' = sv_current S"
  shows "server_inv C params verifier S' \<and> jobs_grow S S'"
proof -
  note I = inv [unfolded server_inv_def]
  have nd: "node_sound C params verifier (sv_node S)" "typed_node (sv_node S)" using I by blast+
  note fwd = tips_move_forward [OF C nd(1) typed_event_wf [OF e]]
  have "server_inv C params verifier S'"
    using I fwd node_sound_event [OF C nd(1) typed_event_wf [OF e]] typed_node_event [OF C nd e]
    unfolding server_inv_def S' by metis
  then show ?thesis using fwd(1) by (simp add: jobs_grow_def S' same_job_def)
qed


text \<open>The block of a share is the job's template with the proof recomputed at the nonce.\<close>

lemma judge_share_block:
  assumes C: "crypto_ok C" and j: "job_ok C params verifier j" and v: "typed_verifier verifier"
    and judged: "judge_share C j nonce = Ok (SV_Share block)"
  shows "\<exists>p. pow_evaluate C verifier (pj_challenge (aj_wire j)) nonce = Ok p \<and>
      lex_le (bp_work_digest p) (pj_share_target (aj_wire j)) \<and>
      block = (if lex_le (bp_work_digest p) (bc_target (pj_challenge (aj_wire j)))
               then Some (template_with_proof (mj_template (aj_mining j)) p) else None) \<and> wf_proof p"
proof -
  have V: "mj_verifier (aj_mining j) = verifier" "pj_challenge (aj_wire j) = bt_challenge (mj_template (aj_mining j))"
    using j by (simp_all add: job_ok_def mj_challenge_def)
  from judged obtain p where p: "pow_evaluate C verifier (pj_challenge (aj_wire j)) nonce = Ok p"
    "lex_le (bp_work_digest p) (pj_share_target (aj_wire j))"
    "block = (if lex_le (bp_work_digest p) (bc_target (pj_challenge (aj_wire j)))
              then Some (template_with_proof (mj_template (aj_mining j)) p) else None)"
    by (auto simp: judge_share_def evaluate_share_def evaluate_share_unchecked_def Let_def V
        build_block_if_chain_valid_def split: if_splits option.splits)
  then show ?thesis using pow_evaluate_typed [OF C v p(1)] by blast
qed

lemma share_block_typed:
  assumes "crypto_ok C" "job_ok C params verifier j" "typed_verifier verifier" "judge_share C j nonce = Ok (SV_Share (Some b))"
  shows "wf_block b" "bc_previous_block (bl_challenge b) = job_previous j"
  using judge_share_block [OF assms] job_block_typed [OF assms(1), of "aj_mining j"] assms(2)
  by (auto simp: job_ok_def template_with_proof_def job_previous_def mj_challenge_def split: if_splits)

lemma commit_cases:
  assumes run: "commit_share C cf now io sid ptr nonce block S = (S', r)" and ptr: "ptr < length (sv_jobs S)"
  obtains (stopped) "sv_node S' = sv_node S" "sv_jobs S' = sv_jobs S" "sv_ledger S' = sv_ledger S" "sv_current S' = sv_current S"
      "sv_active_connections S' = sv_active_connections S" "sv_next_session_id S' = sv_next_session_id S"
      "\<And>stats. r \<noteq> Ok (CR_Credited stats)"
    | (went) S1 q where "cs_tip (nd_state (sv_node S)) = job_previous (sv_jobs S ! ptr)" "nonce |\<notin>| aj_seen_nonces (sv_jobs S ! ptr)"
      "sv_jobs S' = sv_jobs S \<and> block \<noteq> None \<or>
       fcard (aj_seen_nonces (sv_jobs S ! ptr)) < POOL_MAX_SHARES_PER_JOB \<and>
       sv_jobs S' = (sv_jobs S)[ptr := (sv_jobs S ! ptr)\<lparr>aj_seen_nonces := finsert nonce (aj_seen_nonces (sv_jobs S ! ptr))\<rparr>]"
      "submit_share_block C now io block S1 = (S1\<lparr>sv_node := sv_node S'\<rparr>, q)" "sv_node S1 = sv_node S"
      "sv_current S' = sv_current S" "sv_active_connections S' = sv_active_connections S" "sv_next_session_id S' = sv_next_session_id S"
      "if q = Ok () then credit_accepted_share sid (block \<noteq> None) (pc_test_credit_atoms_per_share cf) (sv_ledger S) =
         (sv_ledger S', case r of Ok (CR_Credited stats) \<Rightarrow> Ok stats | Err e \<Rightarrow> Err e | Panic \<Rightarrow> Panic | Diverge \<Rightarrow> Diverge) \<and>
         (\<forall>x. r = Ok x \<longrightarrow> (\<exists>stats. x = CR_Credited stats))
       else sv_ledger S' = sv_ledger S \<and> (\<forall>x. r \<noteq> Ok x)"
proof (cases "cs_tip (nd_state (sv_node S)) \<noteq> job_previous (sv_jobs S ! ptr) \<or> nonce |\<in>| aj_seen_nonces (sv_jobs S ! ptr) \<or>
    POOL_MAX_SHARES_PER_JOB \<le> fcard (aj_seen_nonces (sv_jobs S ! ptr)) \<and> block = None")
  case True
  then show thesis using run stopped ptr
    by (auto simp: commit_share_def reserve_valid_share_def list_update_id split: if_splits)
next
  case False
  let ?j = "sv_jobs S ! ptr"
  let ?j' = "if fcard (aj_seen_nonces ?j) < POOL_MAX_SHARES_PER_JOB then ?j\<lparr>aj_seen_nonces := finsert nonce (aj_seen_nonces ?j)\<rparr> else ?j"
  let ?S1 = "S\<lparr>sv_jobs := (sv_jobs S)[ptr := ?j']\<rparr>"
  obtain S2 q where sub: "submit_share_block C now io block ?S1 = (S2, q)" by fastforce
  have S2: "S2 = ?S1\<lparr>sv_node := sv_node S2\<rparr>"
    using sub by (auto simp: submit_share_block_def try_in_def split: option.splits outcome.splits prod.splits)
  have "commit_share C cf now io sid ptr nonce block S = try_in S2 q (\<lambda>_. credit_session cf sid (block \<noteq> None) S2)"
    using False sub by (auto simp: commit_share_def reserve_valid_share_def list_update_id)
  note eff = this [unfolded run]
  have jobs: "sv_jobs S2 = (sv_jobs S)[ptr := ?j']" "sv_ledger S2 = sv_ledger S" "sv_current S2 = sv_current S"
    "sv_active_connections S2 = sv_active_connections S" "sv_next_session_id S2 = sv_next_session_id S"
    by (subst S2, simp)+
  obtain lg s where cr: "credit_accepted_share sid (block \<noteq> None) (pc_test_credit_atoms_per_share cf) (sv_ledger S) = (lg, s)" by fastforce
  have S': "sv_node S' = sv_node S2" "sv_jobs S' = sv_jobs S2" "sv_current S' = sv_current S2"
    "sv_active_connections S' = sv_active_connections S2" "sv_next_session_id S' = sv_next_session_id S2"
    using eff by (auto simp: try_in_def credit_session_def split: outcome.splits prod.splits)
  show thesis
  proof (rule went [of ?S1 q])
    show "submit_share_block C now io block ?S1 = (?S1\<lparr>sv_node := sv_node S'\<rparr>, q)" using sub S2 S'(1) by metis
    show "if q = Ok () then credit_accepted_share sid (block \<noteq> None) (pc_test_credit_atoms_per_share cf) (sv_ledger S) =
         (sv_ledger S', case r of Ok (CR_Credited stats) \<Rightarrow> Ok stats | Err e \<Rightarrow> Err e | Panic \<Rightarrow> Panic | Diverge \<Rightarrow> Diverge) \<and>
         (\<forall>x. r = Ok x \<longrightarrow> (\<exists>stats. x = CR_Credited stats))
       else sv_ledger S' = sv_ledger S \<and> (\<forall>x. r \<noteq> Ok x)"
      using eff jobs(2) cr by (cases q; cases s) (auto simp: try_in_def credit_session_def)
  qed (use False S' jobs ptr in \<open>auto simp: list_update_id not_less\<close>)
qed


lemma submit_share_block_event:
  assumes "submit_share_block C now io block S = (S', q)"
  shows "sv_node S' = sv_node S \<or> (\<exists>b t. block = Some b \<and> sv_node S' = apply_event C (sv_node S) (NE_Block io b t))"
    "q = Ok () \<Longrightarrow> block = Some b \<Longrightarrow> \<exists>t fees. submit_block C io (sv_node S) b t = (sv_node S', Ok fees)"
proof -
  have at: "sv_node S' = apply_event C (sv_node S) (NE_Block io b t) \<and>
      (q = Ok () \<longrightarrow> (\<exists>fees. submit_block C io (sv_node S) b t = (sv_node S', Ok fees)))" if "block = Some b" "now = Some t" for b t
    using assms that by (cases "submit_block C io (sv_node S) b t") (auto simp: submit_share_block_def try_in_def apply_event_def)
  have stays: "sv_node S' = sv_node S \<and> (block \<noteq> None \<longrightarrow> q \<noteq> Ok ())" if "block = None \<or> now = None"
    using assms that by (auto simp: submit_share_block_def try_in_def split: option.splits)
  show "sv_node S' = sv_node S \<or> (\<exists>b t. block = Some b \<and> sv_node S' = apply_event C (sv_node S) (NE_Block io b t))"
    using at stays by (metis option.exhaust)
  show "\<exists>t fees. submit_block C io (sv_node S) b t = (sv_node S', Ok fees)" if "q = Ok ()" "block = Some b"
    using at stays that by (metis option.distinct(1) option.exhaust)
qed

text \<open>A committed share leaves the invariant, and its nonce is seen or its job's tip is left behind.\<close>

lemma server_inv_commit:
  assumes C: "crypto_ok C" and inv: "server_inv C params verifier S" and v: "typed_verifier verifier" and ptr: "ptr < length (sv_jobs S)"
    and judged: "judge_share C (sv_jobs S ! ptr) nonce = Ok (SV_Share block)"
    and run: "commit_share C cf now io sid ptr nonce block S = (S', r)"
  shows "server_inv C params verifier S'" "jobs_grow S S'"
    "r = Ok (CR_Credited stats) \<Longrightarrow> nonce |\<notin>| aj_seen_nonces (sv_jobs S ! ptr) \<and> \<not> left_behind (sv_node S) (job_previous (sv_jobs S ! ptr)) \<and>
       (nonce |\<in>| aj_seen_nonces (sv_jobs S' ! ptr) \<or> left_behind (sv_node S') (job_previous (sv_jobs S' ! ptr)))"
proof -
  have job: "job_ok C params verifier (sv_jobs S ! ptr)" using inv ptr by (auto simp: server_inv_def list_all_length)
  note typed = share_block_typed [OF C job v]
  have "server_inv C params verifier S' \<and> jobs_grow S S' \<and> (\<forall>stats. r = Ok (CR_Credited stats) \<longrightarrow>
      nonce |\<notin>| aj_seen_nonces (sv_jobs S ! ptr) \<and> \<not> left_behind (sv_node S) (job_previous (sv_jobs S ! ptr)) \<and>
      (nonce |\<in>| aj_seen_nonces (sv_jobs S' ! ptr) \<or> left_behind (sv_node S') (job_previous (sv_jobs S' ! ptr))))"
    using run ptr
  proof (cases rule: commit_cases)
    case stopped
    then show ?thesis using inv server_inv_same jobs_grow_same by blast
  next
    case (went S1 q)
    let ?j = "sv_jobs S ! ptr"
    note I = inv [unfolded server_inv_def]
    have nd: "node_sound C params verifier (sv_node S)" "typed_node (sv_node S)" using I by blast+
    have same: "same_job ?j (sv_jobs S' ! ptr)" "length (sv_jobs S') = length (sv_jobs S)"
      "i \<noteq> ptr \<Longrightarrow> sv_jobs S' ! i = sv_jobs S ! i" for i
      using went(3) ptr by (auto simp: same_job_def)
    then have each: "same_job (sv_jobs S ! i) (sv_jobs S' ! i)" for i
      by (cases "i = ptr") (auto simp: same_job_def)
    have prev: "job_previous (sv_jobs S' ! i) = job_previous (sv_jobs S ! i)" for i using same_job_previous [OF each] .
    have okj: "job_ok C params verifier (sv_jobs S' ! i)" if "i < length (sv_jobs S)" for i
    proof -
      have "job_ok C params verifier (sv_jobs S ! i)" using I that by (simp add: list_all_length)
      then show ?thesis using went(2,3) ptr by (cases "i = ptr") (auto simp: job_ok_def fcard_finsert)
    qed
    define M where "M = S1\<lparr>sv_node := sv_node S, sv_jobs := sv_jobs S', sv_current := sv_current S\<rparr>"
    have Mf: "sv_node M = sv_node S" "sv_jobs M = sv_jobs S'" "sv_current M = sv_current S" by (simp_all add: M_def)
    have maps: "map job_previous (sv_jobs S') = map job_previous (sv_jobs S)"
      using prev same(2) by (intro nth_equalityI) simp_all
    have M: "server_inv C params verifier M"
      using I okj same(2) prev by (auto simp: server_inv_def Mf list_all_length maps)
    have ev: "sv_node S' = sv_node S \<or> (\<exists>e. typed_event e \<and> sv_node S' = apply_event C (sv_node S) e)"
    proof -
      have "typed_event (NE_Block io b t)" if "block = Some b" for b t
        using typed(1) judged that by (simp add: typed_event_def)
      then show ?thesis using submit_share_block_event(1) [OF went(4)] went(5) by fastforce
    qed
    have fin: "server_inv C params verifier S' \<and> jobs_grow M S'"
    proof (cases "sv_node S' = sv_node S")
      case True
      then have "server_inv C params verifier S'" "jobs_grow M S'"
        using Mf went(6) by (auto intro!: server_inv_same [OF M] jobs_grow_same)
      then show ?thesis by blast
    next
      case False
      then obtain e where "typed_event e" "sv_node S' = apply_event C (sv_node M) e" using ev Mf(1) by auto
      then show ?thesis using server_inv_event [OF C M, of e S'] went(6) Mf by simp
    qed
    have "jobs_grow S M" using each same(2) by (simp add: jobs_grow_def Mf)
    then have grow: "jobs_grow S S'" using fin jobs_grow_trans by blast
    have here: "\<not> left_behind (sv_node S) (job_previous ?j)" using left_behind_not_tip [OF C nd(1)] went(1) by metis
    have "left_behind (sv_node S') (job_previous (sv_jobs S' ! ptr))"
      if credited: "r = Ok (CR_Credited stats)" and not: "nonce |\<notin>| aj_seen_nonces (sv_jobs S' ! ptr)" for stats
    proof -
      obtain b where b: "block = Some b" "q = Ok ()" using went(3,9) not credited ptr by (auto split: if_splits)
      obtain t fees where sub: "submit_block C io (sv_node S) b t = (sv_node S', Ok fees)"
        using submit_share_block_event(2) [OF went(4) b(2,1)] went(5) by auto
      have "cs_tip (nd_state (sv_node S')) \<noteq> cs_tip (nd_state (sv_node S))"
        using accepted_extension_becomes_tip [OF C nd(1) typed(1) _ sub] typed(2) judged went(1) b(1) by auto
      moreover have "sv_node S' = apply_event C (sv_node S) (NE_Block io b t)" by (simp add: apply_event_def sub)
      ultimately show ?thesis
        using tips_move_forward(2) [OF C nd(1), of "NE_Block io b t"] typed(1) judged b(1) went(1) prev [of ptr] by (auto simp: wf_event_def)
    qed
    then show ?thesis using fin grow here went(2) by blast
  qed
  then show "server_inv C params verifier S'" "jobs_grow S S'"
    "r = Ok (CR_Credited stats) \<Longrightarrow> nonce |\<notin>| aj_seen_nonces (sv_jobs S ! ptr) \<and> \<not> left_behind (sv_node S) (job_previous (sv_jobs S ! ptr)) \<and>
       (nonce |\<in>| aj_seen_nonces (sv_jobs S' ! ptr) \<or> left_behind (sv_node S') (job_previous (sv_jobs S' ! ptr)))" by blast+
qed


section \<open>Threads, sessions and accounts\<close>

definition credits_of :: "pool_config \<Rightarrow> pool_label list \<Rightarrow> credits" where
  "credits_of cf ls = concat (map (\<lambda>l. case l of
     PL_Paid sid _ _ block \<Rightarrow> [(sid, SC_Accepted block (pc_test_credit_atoms_per_share cf))]
   | PL_Refused sid \<Rightarrow> [(sid, SC_Rejected)] | _ \<Rightarrow> []) ls)"

definition paid_work :: "pool_label list \<Rightarrow> (nat \<times> u64) list" where
  "paid_work ls = concat (map (\<lambda>l. case l of PL_Paid _ ptr nonce _ \<Rightarrow> [(ptr, nonce)] | _ \<Rightarrow> []) ls)"

lemma labels_snoc [simp]:
  "credits_of cf (ls @ [l]) = credits_of cf ls @ credits_of cf [l]" "paid_work (ls @ [l]) = paid_work ls @ paid_work [l]"
  by (simp_all add: credits_of_def paid_work_def)

lemma labels_one [simp]:
  "credits_of cf [PL_Paid sid ptr nonce block] = [(sid, SC_Accepted block (pc_test_credit_atoms_per_share cf))]"
  "credits_of cf [PL_Refused sid] = [(sid, SC_Rejected)]" "credits_of cf [PL_Left sid] = []" "credits_of cf [PL_Silent] = []"
  "credits_of cf [] = []" "paid_work [] = []"
  "paid_work [PL_Paid sid ptr nonce block] = [(ptr, nonce)]" "paid_work [PL_Refused sid] = []" "paid_work [PL_Left sid] = []"
  "paid_work [PL_Silent] = []"
  by (simp_all add: credits_of_def paid_work_def)

definition accounts_inv :: "credits \<Rightarrow> ledger \<Rightarrow> bool" where
  "accounts_inv h lg \<longleftrightarrow>
     booked sr_accepted_shares lg_accepted_shares (\<lambda>c. case c of SC_Accepted _ _ \<Rightarrow> 1 | SC_Rejected \<Rightarrow> 0) h lg \<and>
     booked sr_rejected_shares lg_rejected_shares (\<lambda>c. case c of SC_Accepted _ _ \<Rightarrow> 0 | SC_Rejected \<Rightarrow> 1) h lg \<and>
     booked sr_pool_blocks lg_pool_blocks (\<lambda>c. case c of SC_Accepted block _ \<Rightarrow> (if block then 1 else 0) | SC_Rejected \<Rightarrow> 0) h lg \<and>
     booked sr_credited_devnet_atoms lg_credited_devnet_atoms (\<lambda>c. case c of SC_Accepted _ atoms \<Rightarrow> atoms | SC_Rejected \<Rightarrow> 0) h lg \<and>
     adds_up sr_accepted_shares pr_accepted_shares lg_accepted_shares lg \<and>
     adds_up sr_rejected_shares pr_rejected_shares lg_rejected_shares lg \<and>
     adds_up sr_pool_blocks pr_pool_blocks lg_pool_blocks lg \<and>
     adds_up sr_credited_devnet_atoms pr_credited_devnet_atoms lg_credited_devnet_atoms lg"

lemma accounts_default: "accounts_inv [] ledger_default"
  unfolding accounts_inv_def
  by (intro conjI accepted_shares.booked_default rejected_shares.booked_default pool_blocks.booked_default credited_atoms.booked_default
      accepted_shares.adds_up_default rejected_shares.adds_up_default pool_blocks.adds_up_default credited_atoms.adds_up_default)

lemma accounts_disconnect: "books_inv lg \<Longrightarrow> accounts_inv h lg \<Longrightarrow> accounts_inv h (disconnect_session sid lg)"
  unfolding accounts_inv_def
  by (simp add: accepted_shares.booked_disconnect rejected_shares.booked_disconnect pool_blocks.booked_disconnect
      credited_atoms.booked_disconnect accepted_shares.adds_up_disconnect rejected_shares.adds_up_disconnect
      pool_blocks.adds_up_disconnect credited_atoms.adds_up_disconnect)

lemma accounts_credit:
  "books_inv lg \<Longrightarrow> accounts_inv h lg \<Longrightarrow> map_of (lg_sessions lg) sid = Some s \<Longrightarrow>
     accounts_inv (h @ [(sid, c)]) (fst (credit_share sid c lg))"
  unfolding accounts_inv_def
  by (simp add: accepted_shares.booked_credit rejected_shares.booked_credit pool_blocks.booked_credit
      credited_atoms.booked_credit accepted_shares.adds_up_credit rejected_shares.adds_up_credit
      pool_blocks.adds_up_credit credited_atoms.adds_up_credit)

lemma accounts_register:
  assumes "books_inv lg" "accounts_inv h lg" "register_session sid worker payout lg = (lg', r)"
    "\<forall>(i, c) \<in> set h. i \<noteq> sid" "map_of (lg_sessions lg) sid = None"
  shows "accounts_inv h lg'"
  using assms unfolding accounts_inv_def
  by (simp add: accepted_shares.booked_register rejected_shares.booked_register pool_blocks.booked_register
      credited_atoms.booked_register accepted_shares.adds_up_register rejected_shares.adds_up_register
      pool_blocks.adds_up_register credited_atoms.adds_up_register)

text \<open>The threads: all are counted, the sessions served are those connected on the ledger, and the numbers
  handed out are new.\<close>

definition connections_counted :: "pool_config \<Rightarrow> pool_threads \<Rightarrow> pool_server \<Rightarrow> bool" where
  "connections_counted cf T S \<longleftrightarrow>
     sv_active_connections S = th_waiting T + th_closing T + length (th_identified T) + length (th_live T) \<and>
     sv_active_connections S \<le> pc_max_connections cf \<and> pc_max_connections cf \<le> POOL_MAX_CONNECTIONS"

definition live_sessions :: "pool_threads \<Rightarrow> ledger \<Rightarrow> bool" where
  "live_sessions T lg \<longleftrightarrow> distinct (th_live T) \<and>
     (\<forall>i. i \<in> set (th_live T) \<longleftrightarrow> (\<exists>s. map_of (lg_sessions lg) i = Some s \<and> sr_connected s))"

definition numbers_new :: "credits \<Rightarrow> pool_threads \<Rightarrow> ledger \<Rightarrow> u64 \<Rightarrow> bool" where
  "numbers_new h T lg next_id \<longleftrightarrow> distinct (map fst (th_identified T)) \<and>
     (\<forall>(i, worker, payout) \<in> set (th_identified T). validate_worker worker = Ok () \<and> unat i < unat next_id \<and>
        map_of (lg_sessions lg) i = None \<and> i \<notin> fst ` set h) \<and>
     (\<forall>i \<in> dom (map_of (lg_sessions lg)) \<union> fst ` set h. unat i < unat next_id)"

definition threads_inv :: "pool_config \<Rightarrow> pool_label list \<Rightarrow> pool_threads \<Rightarrow> pool_server \<Rightarrow> bool" where
  "threads_inv cf ls T S \<longleftrightarrow> connections_counted cf T S \<and> live_sessions T (sv_ledger S) \<and>
     numbers_new (credits_of cf ls) T (sv_ledger S) (sv_next_session_id S) \<and> unat (sv_next_session_id S) \<le> Suc (length ls)"

lemma live_sessionsD:
  "live_sessions T lg \<Longrightarrow> map_of (lg_sessions lg) i = Some s \<Longrightarrow> sr_connected s \<Longrightarrow> i \<in> set (th_live T)"
  "live_sessions T lg \<Longrightarrow> i \<in> set (th_live T) \<Longrightarrow> \<exists>s. map_of (lg_sessions lg) i = Some s \<and> sr_connected s"
  by (auto simp: live_sessions_def)

lemma numbers_newD:
  assumes "numbers_new h T lg next_id"
  shows "(i, w, p) \<in> set (th_identified T) \<Longrightarrow>
      validate_worker w = Ok () \<and> unat i < unat next_id \<and> map_of (lg_sessions lg) i = None \<and> i \<notin> fst ` set h"
    "i \<in> dom (map_of (lg_sessions lg)) \<union> fst ` set h \<Longrightarrow> unat i < unat next_id"
  using assms unfolding numbers_new_def by blast+

lemma ledger_never_full:
  assumes T: "threads_inv cf ls T S" and inv: "books_inv (sv_ledger S)"
    and run: "register_session sid worker payout (sv_ledger S) = (lg, r)"
  shows "r = Ok ()"
  using inv run
proof (cases rule: register_session_cases)
  case (full P)
  have live: "live_sessions T (sv_ledger S)" and count: "connections_counted cf T S" using T by (simp_all add: threads_inv_def)
  have o: "om_ordered (lg_sessions (sv_ledger S))" using inv by (simp add: books_inv_def)
  have eq: "lg_sessions lg = filter P (lg_sessions (sv_ledger S))" by (simp add: full(2))
  have "fst ` set (lg_sessions lg) \<subseteq> set (th_live T)"
  proof
    fix i
    assume "i \<in> fst ` set (lg_sessions lg)"
    then obtain s where s: "(i, s) \<in> set (lg_sessions lg)" by auto
    then have "map_of (lg_sessions (sv_ledger S)) i = Some s" using eq by (simp add: map_of_ordered [OF o])
    moreover have "sr_connected s" using s full(5) by blast
    ultimately show "i \<in> set (th_live T)" using live_sessionsD(1) [OF live] by blast
  qed
  then have "card (fst ` set (lg_sessions lg)) \<le> length (th_live T)" by (meson card_length card_mono List.finite_set order_trans)
  moreover have "card (fst ` set (lg_sessions lg)) = length (lg_sessions lg)"
    using distinct_card [OF om_ordered_distinct [OF om_ordered_filter [OF o, of P]]] by (simp add: eq)
  ultimately show ?thesis
    using full(4) count unfolding connections_counted_def POOL_MAX_LEDGER_SESSIONS_def POOL_MAX_CONNECTIONS_def by linarith
qed


lemma threads_after_credit:
  assumes "live_sessions T lg" "numbers_new h T lg next_id" "map_of (lg_sessions lg) sid = Some s"
  shows "live_sessions T (fst (credit_share sid c lg))" "numbers_new (h @ [(sid, c)]) T (fst (credit_share sid c lg)) next_id"
proof -
  have eq: "map_of (lg_sessions (fst (credit_share sid c lg))) = (map_of (lg_sessions lg))(sid \<mapsto> session_credited c s)"
    by (simp add: credit_share_Some [OF assms(3)])
  show "live_sessions T (fst (credit_share sid c lg))"
    using assms(1,3) by (auto simp: live_sessions_def eq)
  have "unat sid < unat next_id" "\<forall>(i, _) \<in> set (th_identified T). i \<noteq> sid"
    using assms(2,3) by (auto simp: numbers_new_def)
  then show "numbers_new (h @ [(sid, c)]) T (fst (credit_share sid c lg)) next_id"
    using assms(2) by (auto simp: numbers_new_def eq)
qed

lemma threads_after_leave:
  assumes "live_sessions T lg" "numbers_new h T lg next_id" "sid \<in> set (th_live T)"
  shows "live_sessions (T\<lparr>th_live := remove1 sid (th_live T), th_closing := n\<rparr>) (disconnect_session sid lg)"
    "numbers_new h (T\<lparr>th_live := remove1 sid (th_live T), th_closing := n\<rparr>) (disconnect_session sid lg) next_id"
proof -
  obtain s where s: "map_of (lg_sessions lg) sid = Some s" using live_sessionsD(2) [OF assms(1,3)] by blast
  then have eq: "map_of (lg_sessions (disconnect_session sid lg)) = (map_of (lg_sessions lg))(sid \<mapsto> s\<lparr>sr_connected := False\<rparr>)"
    by (simp add: disconnect_session_def)
  show "live_sessions (T\<lparr>th_live := remove1 sid (th_live T), th_closing := n\<rparr>) (disconnect_session sid lg)"
    using assms(1) by (auto simp: live_sessions_def eq)
  have "\<forall>(i, _) \<in> set (th_identified T). i \<noteq> sid" "unat sid < unat next_id" using assms(2) s by (auto simp: numbers_new_def)
  then show "numbers_new h (T\<lparr>th_live := remove1 sid (th_live T), th_closing := n\<rparr>) (disconnect_session sid lg) next_id"
    using assms(2) by (auto simp: numbers_new_def eq)
qed

lemma threads_after_register:
  assumes inv: "books_inv lg" and run: "register_session sid worker payout lg = (lg', Ok ())"
    and T: "live_sessions T lg" "numbers_new h T lg next_id" and mem: "(sid, worker, payout) \<in> set (th_identified T)"
  defines "T' \<equiv> T\<lparr>th_identified := remove1 (sid, worker, payout) (th_identified T), th_live := sid # th_live T\<rparr>"
  shows "live_sessions T' lg'" "numbers_new h T' lg' next_id"
proof -
  have o: "om_ordered (lg_sessions lg)" using inv by (simp add: books_inv_def)
  have new: "map_of (lg_sessions lg) sid = None" "unat sid < unat next_id" "sid \<notin> fst ` set h"
    and dist: "distinct (map fst (th_identified T))" using T(2) mem by (auto simp: numbers_new_def)
  have ident: "th_identified T' = remove1 (sid, worker, payout) (th_identified T)" by (simp add: T'_def)
  have sub: "set (th_identified T') \<subseteq> set (th_identified T)" by (simp add: T'_def set_remove1_subset)
  have rest: "i \<noteq> sid" if "(i, w, p) \<in> set (remove1 (sid, worker, payout) (th_identified T))" for i w p
  proof -
    have "distinct (th_identified T)" using dist by (simp add: distinct_map)
    then have "(i, w, p) \<in> set (th_identified T)" "(i, w, p) \<noteq> (sid, worker, payout)" using that by (auto simp: set_remove1_eq)
    then show ?thesis using eq_key_imp_eq_value [OF dist _ mem] by blast
  qed
  from inv run have "live_sessions T' lg' \<and> numbers_new h T' lg' next_id"
  proof (cases rule: register_session_cases)
    case (registered P Q)
    have eq: "map_of (lg_sessions lg') = (map_of (filter P (lg_sessions lg)))(sid \<mapsto> new_session worker payout)"
      by (simp add: registered(4))
    have filt: "map_of (filter P (lg_sessions lg)) i = Some s \<longleftrightarrow> map_of (lg_sessions lg) i = Some s \<and> P (i, s)" for i s
      using o by (auto simp: map_of_ordered)
    have keeps: "P (i, s)" if "map_of (lg_sessions lg) i = Some s" "sr_connected s" for i s
      using registered(2) map_of_SomeD that by metis
    have dom: "dom (map_of (filter P (lg_sessions lg))) \<subseteq> dom (map_of (lg_sessions lg))" using filt by auto
    have "sid \<notin> set (th_live T)" using live_sessionsD(2) [OF T(1)] new(1) by fastforce
    moreover have "i \<in> set (th_live T') \<longleftrightarrow> (\<exists>s. map_of (lg_sessions lg') i = Some s \<and> sr_connected s)" for i
    proof (cases "i = sid")
      case True
      then show ?thesis by (simp add: eq T'_def new_session_def)
    next
      case False
      then have "(\<exists>s. map_of (lg_sessions lg') i = Some s \<and> sr_connected s) \<longleftrightarrow> (\<exists>s. map_of (lg_sessions lg) i = Some s \<and> sr_connected s)"
        using filt [of i] keeps [of i] by (auto simp: eq)
      then show ?thesis using T(1) False by (simp add: live_sessions_def T'_def)
    qed
    ultimately have "live_sessions T' lg'" using T(1) by (simp add: live_sessions_def T'_def)
    moreover have "map_of (lg_sessions lg') i = None" if "(i, w, p) \<in> set (th_identified T')" for i w p
    proof -
      have ne: "i \<noteq> sid" using that unfolding ident by (rule rest)
      have "(i, w, p) \<in> set (th_identified T)" using sub that by (rule subsetD)
      note old = numbers_newD(1) [OF T(2) this]
      then have "map_of (lg_sessions lg) i = None" by blast
      then have "i \<notin> dom (map_of (filter P (lg_sessions lg)))" using dom by blast
      then show ?thesis using ne by (simp add: eq domIff)
    qed
    moreover have "inj_on fst (set (th_identified T'))" using dist by (intro inj_on_subset [OF _ sub]) (simp add: distinct_map)
    then have "distinct (map fst (th_identified T'))" using dist by (simp add: ident distinct_map)
    moreover have "\<forall>i \<in> dom (map_of (lg_sessions lg')) \<union> fst ` set h. unat i < unat next_id"
    proof
      fix i
      assume "i \<in> dom (map_of (lg_sessions lg')) \<union> fst ` set h"
      then have "i = sid \<or> i \<in> dom (map_of (lg_sessions lg)) \<union> fst ` set h" using dom unfolding eq by auto
      then show "unat i < unat next_id" using numbers_newD(2) [OF T(2)] new(2) by blast
    qed
    moreover have "\<forall>(i, w, p) \<in> set (th_identified T'). validate_worker w = Ok () \<and> unat i < unat next_id \<and> i \<notin> fst ` set h"
      using numbers_newD(1) [OF T(2) subsetD [OF sub]] by blast
    ultimately show ?thesis unfolding numbers_new_def by fast
  qed simp
  then show "live_sessions T' lg'" "numbers_new h T' lg' next_id" by blast+
qed


section \<open>The invariant of a run\<close>

definition paid_inv :: "pool_label list \<Rightarrow> pool_server \<Rightarrow> bool" where
  "paid_inv ls S \<longleftrightarrow> distinct (paid_work ls) \<and> (\<forall>(ptr, nonce) \<in> set (paid_work ls). ptr < length (sv_jobs S) \<and>
     (nonce |\<in>| aj_seen_nonces (sv_jobs S ! ptr) \<or> left_behind (sv_node S) (job_previous (sv_jobs S ! ptr))))"

lemma paid_inv_grow: "paid_inv ls S \<Longrightarrow> jobs_grow S S' \<Longrightarrow> paid_inv ls S'"
  using same_job_previous unfolding paid_inv_def jobs_grow_def same_job_def job_previous_def by (fastforce split: prod.splits)

definition pool_inv ::
  "crypto \<Rightarrow> network_params \<Rightarrow> pow_verifier \<Rightarrow> pool_config \<Rightarrow> pool_label list \<Rightarrow> pool_threads \<times> pool_server \<Rightarrow> bool" where
  "pool_inv C params verifier cf ls s \<longleftrightarrow> (case s of (T, S) \<Rightarrow>
     server_inv C params verifier S \<and> books_inv (sv_ledger S) \<and> threads_inv cf ls T S \<and>
     accounts_inv (credits_of cf ls) (sv_ledger S) \<and> paid_inv ls S)"

text \<open>Steps that leave the accounts and the threads' numbers alone.\<close>

lemma pool_inv_server:
  assumes "pool_inv C params verifier cf ls (T, S)" "server_inv C params verifier S'" "jobs_grow S S'"
    "sv_ledger S' = sv_ledger S" "sv_next_session_id S' = sv_next_session_id S"
    "th_identified T' = th_identified T" "th_live T' = th_live T" "connections_counted cf T' S'"
  shows "pool_inv C params verifier cf (ls @ [PL_Silent]) (T', S')"
  using assms paid_inv_grow [of ls S S']
  by (simp add: pool_inv_def threads_inv_def live_sessions_def numbers_new_def paid_inv_def)

text \<open>Steps that credit a session.\<close>

lemma pool_inv_credit:
  assumes inv: "pool_inv C params verifier cf ls (T, S)" and S': "server_inv C params verifier S'"
    and sid: "sid \<in> set (th_live T)" and lg: "sv_ledger S' = fst (credit_share sid c (sv_ledger S))"
    and same: "sv_next_session_id S' = sv_next_session_id S" "sv_active_connections S' = sv_active_connections S"
    and l: "credits_of cf [l] = [(sid, c)]" and paid: "paid_inv (ls @ [l]) S'"
  shows "pool_inv C params verifier cf (ls @ [l]) (T, S')"
proof -
  note I = inv [unfolded pool_inv_def prod.case threads_inv_def]
  obtain s where s: "map_of (lg_sessions (sv_ledger S)) sid = Some s" using live_sessionsD(2) I sid by blast
  have live: "live_sessions T (sv_ledger S)" "numbers_new (credits_of cf ls) T (sv_ledger S) (sv_next_session_id S)" using I by blast+
  have "live_sessions T (sv_ledger S')" "numbers_new (credits_of cf (ls @ [l])) T (sv_ledger S') (sv_next_session_id S')"
    using threads_after_credit [OF live s] by (simp_all add: lg same l)
  moreover have "accounts_inv (credits_of cf (ls @ [l])) (sv_ledger S')" using accounts_credit [OF _ _ s] I by (simp add: lg l)
  moreover have "books_inv (sv_ledger S')" using credit_share_inv I by (simp add: lg)
  moreover have "connections_counted cf T S'" using I by (simp add: connections_counted_def same)
  ultimately show ?thesis using S' paid I by (simp add: pool_inv_def threads_inv_def same)
qed

lemma pool_inv_ledger:
  assumes inv: "pool_inv C params verifier cf ls (T, S)" and S': "S' = S\<lparr>sv_ledger := lg\<rparr>"
    and T': "live_sessions T' lg" "numbers_new (credits_of cf ls) T' lg (sv_next_session_id S)" "connections_counted cf T' S"
    and lg: "books_inv lg" "accounts_inv (credits_of cf ls) lg" and l: "credits_of cf [l] = []" "paid_work [l] = []"
  shows "pool_inv C params verifier cf (ls @ [l]) (T', S')"
proof -
  note I = inv [unfolded pool_inv_def prod.case threads_inv_def]
  have "server_inv C params verifier S'" using I server_inv_same [of C params verifier S S'] by (simp add: S')
  moreover have "paid_inv (ls @ [l]) S'" using I by (simp add: paid_inv_def S' l(2))
  ultimately show ?thesis using I T' lg by (simp add: pool_inv_def threads_inv_def S' l(1) connections_counted_def)
qed


lemma commit_keeps:
  assumes "commit_share C cf now io sid ptr nonce block S = (S', r)" "ptr < length (sv_jobs S)"
  shows "sv_active_connections S' = sv_active_connections S" "sv_next_session_id S' = sv_next_session_id S"
    "r = Ok (CR_Credited stats) \<Longrightarrow>
       credit_share sid (SC_Accepted (block \<noteq> None) (pc_test_credit_atoms_per_share cf)) (sv_ledger S) = (sv_ledger S', Ok stats)"
    "\<forall>stats. r \<noteq> Ok (CR_Credited stats) \<Longrightarrow> sv_ledger S' = sv_ledger S \<or>
       \<not> is_ok (snd (credit_share sid (SC_Accepted (block \<noteq> None) (pc_test_credit_atoms_per_share cf)) (sv_ledger S)))"
proof -
  have "sv_active_connections S' = sv_active_connections S \<and> sv_next_session_id S' = sv_next_session_id S \<and>
    (\<forall>stats. r = Ok (CR_Credited stats) \<longrightarrow>
       credit_share sid (SC_Accepted (block \<noteq> None) (pc_test_credit_atoms_per_share cf)) (sv_ledger S) = (sv_ledger S', Ok stats)) \<and>
    ((\<forall>stats. r \<noteq> Ok (CR_Credited stats)) \<longrightarrow> sv_ledger S' = sv_ledger S \<or>
       \<not> is_ok (snd (credit_share sid (SC_Accepted (block \<noteq> None) (pc_test_credit_atoms_per_share cf)) (sv_ledger S))))"
    using assms
  proof (cases rule: commit_cases)
    case (went S1 q)
    then show ?thesis
      by (cases r) (auto simp: credit_share_def is_ok_def split: if_splits commit_result.splits)
  qed simp
  then show "sv_active_connections S' = sv_active_connections S" "sv_next_session_id S' = sv_next_session_id S"
    "r = Ok (CR_Credited stats) \<Longrightarrow>
       credit_share sid (SC_Accepted (block \<noteq> None) (pc_test_credit_atoms_per_share cf)) (sv_ledger S) = (sv_ledger S', Ok stats)"
    "\<forall>stats. r \<noteq> Ok (CR_Credited stats) \<Longrightarrow> sv_ledger S' = sv_ledger S \<or>
       \<not> is_ok (snd (credit_share sid (SC_Accepted (block \<noteq> None) (pc_test_credit_atoms_per_share cf)) (sv_ledger S)))" by blast+
qed

lemma paid_inv_pay:
  assumes C: "crypto_ok C" and S: "server_inv C params verifier S" and v: "typed_verifier verifier" and paid: "paid_inv ls S"
    and ptr: "ptr < length (sv_jobs S)" "judge_share C (sv_jobs S ! ptr) nonce = Ok (SV_Share block)"
    and run: "commit_share C cf now io sid ptr nonce block S = (S', Ok (CR_Credited stats))"
  shows "paid_inv (ls @ [PL_Paid sid ptr nonce b]) S'"
proof -
  note c = server_inv_commit [OF C S v ptr run]
  have "paid_inv ls S'" using paid_inv_grow [OF paid c(2)] .
  moreover have "(ptr, nonce) \<notin> set (paid_work ls)" using paid c(3) [OF refl] unfolding paid_inv_def by fast
  moreover have "ptr < length (sv_jobs S')" using c(2) ptr(1) by (simp add: jobs_grow_def)
  ultimately show ?thesis using c(3) [OF refl] by (auto simp: paid_inv_def)
qed

lemma pool_inv_no_pay:
  assumes C: "crypto_ok C" and v: "typed_verifier verifier" and inv: "pool_inv C params verifier cf ls (T, S)"
    and sid: "sid \<in> set (th_live T)" and ptr: "ptr < length (sv_jobs S)" "judge_share C (sv_jobs S ! ptr) nonce = Ok (SV_Share block)"
    and run: "commit_share C cf now io sid ptr nonce block S = (S', r)" "\<forall>stats. r \<noteq> Ok (CR_Credited stats)"
  shows "pool_inv C params verifier cf (ls @ [PL_Silent]) (T, S')"
proof -
  note I = inv [unfolded pool_inv_def prod.case threads_inv_def]
  have S: "server_inv C params verifier S" using I by blast
  note c = server_inv_commit [OF C S v ptr run(1)] and k = commit_keeps [OF run(1) ptr(1)]
  obtain s where s: "map_of (lg_sessions (sv_ledger S)) sid = Some s" using live_sessionsD(2) I sid by blast
  have "\<exists>lg stats. credit_share sid (SC_Accepted (block \<noteq> None) (pc_test_credit_atoms_per_share cf)) (sv_ledger S) = (lg, Ok stats)"
    using credit_share_Ok [OF _ s] I by blast
  then have lg: "sv_ledger S' = sv_ledger S" using k(4) run(2) by (auto simp: is_ok_def)
  show ?thesis
    using I by (intro pool_inv_server [OF inv c(1,2) lg k(2)]) (simp_all add: connections_counted_def k(1))
qed

lemma threads_after_identify:
  assumes T: "numbers_new h T lg n" and w: "validate_worker worker = Ok ()" and up: "unat (n + 1) = Suc (unat n)"
  shows "numbers_new h (T\<lparr>th_waiting := k, th_identified := (n, worker, payout) # th_identified T\<rparr>) lg (n + 1)"
proof -
  note old = numbers_newD [OF T]
  have "n \<notin> fst ` set (th_identified T)" using old(1) by fastforce
  moreover have "n \<notin> dom (map_of (lg_sessions lg)) \<union> fst ` set h" using old(2) [of n] by blast
  moreover have "distinct (map fst (th_identified T))" using T by (simp add: numbers_new_def)
  moreover have "\<forall>(i, worker, payout) \<in> set (th_identified T). validate_worker worker = Ok () \<and> unat i < unat (n + 1) \<and>
      map_of (lg_sessions lg) i = None \<and> i \<notin> fst ` set h"
    using old(1) unfolding up by fastforce
  moreover have "\<forall>i \<in> dom (map_of (lg_sessions lg)) \<union> fst ` set h. unat i < unat (n + 1)"
    using old(2) unfolding up by (metis less_SucI)
  ultimately show ?thesis using w unfolding numbers_new_def by (simp add: up domIff)
qed

lemma numbers_new_fewer:
  "numbers_new h T lg n \<Longrightarrow> numbers_new h (T\<lparr>th_identified := remove1 x (th_identified T)\<rparr>) lg n"
  unfolding numbers_new_def using set_remove1_subset [of x "th_identified T"]
  by (auto simp: map_of_eq_None_iff distinct_map intro!: distinct_remove1 intro: inj_on_subset)

lemma pool_inv_step:
  assumes C: "crypto_ok C" and wf: "wf_params params" "wf_pool_config cf" "typed_verifier verifier"
    and inv: "pool_inv C params verifier cf ls (T, S)" and step: "pool_step C cf (T, S) l (T', S')" and few: "length ls + 3 < 2 ^ 64"
  shows "pool_inv C params verifier cf (ls @ [l]) (T', S')"
proof -
  note I = inv [unfolded pool_inv_def prod.case threads_inv_def]
  have S: "server_inv C params verifier S" and lg: "books_inv (sv_ledger S)" and T: "live_sessions T (sv_ledger S)"
    "numbers_new (credits_of cf ls) T (sv_ledger S) (sv_next_session_id S)" and count: "connections_counted cf T S"
    and acc: "accounts_inv (credits_of cf ls) (sv_ledger S)" and paid: "paid_inv ls S" using I by blast+
  have quiet: "jobs_grow S (S\<lparr>sv_active_connections := a, sv_next_session_id := n\<rparr>)"
    "server_inv C params verifier (S\<lparr>sv_active_connections := a, sv_next_session_id := n\<rparr>)" for a n
    using server_inv_same [OF S, of "S\<lparr>sv_active_connections := a, sv_next_session_id := n\<rparr>"] by (simp_all add: jobs_grow_same)
  from step show ?thesis
  proof cases
    case (step_node e)
    have "server_inv C params verifier S' \<and> jobs_grow S S'"
      by (rule server_inv_event [OF C S step_node(4)]) (simp_all add: step_node)
    then show ?thesis using count unfolding step_node(1)
      by (intro pool_inv_server [OF inv]) (simp_all add: step_node connections_counted_def)
  next
    case (step_rotate now random r)
    note s = server_inv_rotate [OF C S wf step_rotate(3)]
    have "sv_ledger S' = sv_ledger S \<and> sv_active_connections S' = sv_active_connections S \<and> sv_next_session_id S' = sv_next_session_id S"
      using step_rotate(3) by (cases rule: rotate_cases) simp_all
    then show ?thesis using count s unfolding step_rotate(1)
      by (intro pool_inv_server [OF inv]) (simp_all add: step_rotate connections_counted_def)
  next
    case (step_accept peer)
    then show ?thesis using count quiet [of "sv_next_session_id S" "Suc (sv_active_connections S)"] unfolding step_accept(1)
      by (intro pool_inv_server [OF inv]) (simp_all add: connections_counted_def)
  next
    case (step_close_early n)
    then show ?thesis using count quiet [of "sv_next_session_id S" "sv_active_connections S - 1"] unfolding step_close_early(1)
      by (intro pool_inv_server [OF inv]) (simp_all add: connections_counted_def)
  next
    case (step_close n)
    then show ?thesis using count quiet [of "sv_next_session_id S" "sv_active_connections S - 1"] unfolding step_close(1)
      by (intro pool_inv_server [OF inv]) (simp_all add: connections_counted_def)
  next
    case (step_identify n worker payout)
    let ?n = "sv_next_session_id S"
    have bound: "unat ?n \<le> Suc (length ls)" using I by blast
    then have up: "unat (?n + 1) = Suc (unat ?n)" using few by (simp add: unat_word_ariths)
    have T': "numbers_new (credits_of cf ls) T' (sv_ledger S) (?n + 1)"
      using threads_after_identify [OF T(2) step_identify(5) up] by (simp add: step_identify(2))
    have "live_sessions T' (sv_ledger S)" "connections_counted cf T' S'" using T(1) count step_identify(4)
      by (simp_all add: live_sessions_def connections_counted_def step_identify(2,3))
    moreover have "server_inv C params verifier S'" using quiet(2) [of "sv_next_session_id S + 1" "sv_active_connections S"] by (simp add: step_identify(3))
    moreover have "paid_inv (ls @ [l]) S'" using paid by (simp add: paid_inv_def step_identify(1,3))
    moreover have "unat (?n + 1) \<le> Suc (length (ls @ [l]))" using bound up by simp
    ultimately show ?thesis using T' lg acc by (simp add: pool_inv_def threads_inv_def step_identify(1,3))
  next
    case (step_register sid worker payout lg')
    note old = numbers_newD(1) [OF T(2) step_register(4)]
    have fresh: "\<forall>(i, c) \<in> set (credits_of cf ls). i \<noteq> sid" using old by force
    have "connections_counted cf T' S" using count step_register(4)
      by (simp add: connections_counted_def step_register(2) registered_def length_remove1) (metis Suc_pred length_pos_if_in_set)
    moreover have "live_sessions T' lg'" "numbers_new (credits_of cf ls) T' lg' (sv_next_session_id S)"
      using threads_after_register [OF lg step_register(5) T step_register(4)] by (simp_all add: step_register(2) registered_def)
    moreover have "books_inv lg'" using register_session_inv [OF lg step_register(5)] old by blast
    moreover have "accounts_inv (credits_of cf ls) lg'" using accounts_register [OF lg acc step_register(5) fresh] old by simp
    ultimately show ?thesis using step_register(1,3) by (intro pool_inv_ledger [OF inv]) simp_all
  next
    case (step_turned_away sid worker payout lg' e)
    have "threads_inv cf ls T S" using I by (simp add: threads_inv_def)
    from ledger_never_full [OF this lg step_turned_away(5)] show ?thesis by simp
  next
    case (step_give_up sid worker payout)
    have "connections_counted cf T' S'" using count step_give_up(4)
      by (simp add: connections_counted_def step_give_up(2,3) turned_away_def length_remove1) (metis Suc_pred length_pos_if_in_set)
    moreover have "live_sessions T' (sv_ledger S)" using T(1) by (simp add: live_sessions_def step_give_up(2) turned_away_def)
    moreover have "numbers_new (credits_of cf ls) T' (sv_ledger S) (sv_next_session_id S)"
      using numbers_new_fewer [OF T(2)] by (simp add: step_give_up(2) turned_away_def numbers_new_def)
    ultimately show ?thesis using lg acc step_give_up(1,3) by (intro pool_inv_ledger [OF inv]) simp_all
  next
    case (step_refuse sid lg' stats)
    have "paid_inv (ls @ [l]) S'" using paid by (simp add: paid_inv_def step_refuse(1,3))
    moreover have "server_inv C params verifier S'" using server_inv_same [OF S, of S'] by (simp add: step_refuse(3))
    moreover have "sv_ledger S' = fst (credit_share sid SC_Rejected (sv_ledger S))"
      by (simp add: step_refuse(3,5) credit_share_def)
    ultimately show ?thesis using step_refuse(4) unfolding step_refuse(2)
      by (intro pool_inv_credit [OF inv, of _ sid SC_Rejected]) (simp_all add: step_refuse(1,3))
  next
    case (step_refuse_fails sid lg' r)
    obtain s where "map_of (lg_sessions (sv_ledger S)) sid = Some s" using live_sessionsD(2) [OF T(1) step_refuse_fails(4)] by blast
    then show ?thesis using credit_share_Ok [OF lg, of sid s SC_Rejected] step_refuse_fails(5,6) by (auto simp: credit_share_def)
  next
    case (step_pay sid ptr nonce block now io stats)
    note k = commit_keeps [OF step_pay(6,4)]
    show ?thesis unfolding step_pay(1,2)
      by (rule pool_inv_credit [OF inv server_inv_commit(1) [OF C S wf(3) step_pay(4,5,6)] step_pay(3) _ k(2,1) _
            paid_inv_pay [OF C S wf(3) paid step_pay(4,5,6)]])
        (simp_all add: k(3) [OF refl] del: not_None_eq)
  next
    case (step_no_pay sid ptr nonce block now io r)
    then show ?thesis using pool_inv_no_pay [OF C wf(3) inv] by simp
  next
    case (step_leave sid)
    have "connections_counted cf T' S" using count step_leave(4)
      by (simp add: connections_counted_def step_leave(2) departed_def length_remove1) (metis Suc_pred length_pos_if_in_set)
    then show ?thesis
      using threads_after_leave [OF T step_leave(4)] disconnect_session_inv [OF lg] accounts_disconnect [OF lg acc]
      by (intro pool_inv_ledger [OF inv step_leave(3)]) (simp_all add: step_leave(1,2) departed_def)
  qed
qed


lemma pool_inv_steps:
  assumes "pool_steps C cf (T, S) ms s'" "crypto_ok C" "wf_params params" "wf_pool_config cf" "typed_verifier verifier"
    "pool_inv C params verifier cf ls (T, S)" "length ls + length ms + 2 < 2 ^ 64"
  shows "pool_inv C params verifier cf (ls @ ms) s'"
  using assms
proof (induction rule: pool_steps.induct)
  case (steps_more s ms s' l s'')
  obtain T' S' T'' S'' where s: "s' = (T', S')" "s'' = (T'', S'')" by (metis surj_pair)
  have "pool_inv C params verifier cf ((ls @ ms) @ [l]) (T'', S'')"
    using steps_more.prems steps_more.IH steps_more.hyps(2) by (intro pool_inv_step [of C params cf verifier _ T' S']) (simp_all add: s)
  then show ?case by (simp add: s(2))
qed simp

lemma spawn_pool_inv:
  assumes C: "crypto_ok C" and wf: "wf_params params" "wf_pool_config cf0" "typed_verifier verifier"
    and nd: "node_sound C params verifier nd" "typed_node nd"
    and run: "spawn_pool_server C bind cf0 nd now startup_nonce first_job_nonce = Ok (cf, S)"
  shows "pool_inv C params verifier cf [] (no_threads, S)" "wf_pool_config cf"
proof -
  obtain t mining n where m: "build_mining_job C nd (pc_block_destination cf) t = Ok mining"
    and S: "S = \<lparr>sv_node = nd, sv_jobs = [issue_job C cf 0 n mining], sv_current = 0, sv_next_job_sequence = 1,
      sv_ledger = ledger_default, sv_active_connections = 0, sv_next_session_id = 1\<rparr>"
    and cf: "pc_max_connections cf \<le> POOL_MAX_CONNECTIONS" "wf_pool_config cf"
    using run wf(2) by (auto simp: spawn_pool_server_def Let_def wf_pool_config_def not_less split: if_splits)
  note t = build_mining_job_typed [OF C nd wf(1) _ wf(3) m]
  have "server_inv C params verifier S"
    using t cf(2) nd issue_job_ok [of mining verifier params C cf 0 n] by (simp add: server_inv_def S wf_pool_config_def)
  moreover have "threads_inv cf [] no_threads S"
    using cf(1) by (simp add: threads_inv_def connections_counted_def live_sessions_def numbers_new_def no_threads_def S ledger_default_def)
  ultimately show "pool_inv C params verifier cf [] (no_threads, S)" "wf_pool_config cf"
    using books_inv_default accounts_default cf(2) by (simp_all add: pool_inv_def paid_inv_def S)
qed

lemma pool_run_inv:
  assumes "pool_run C params verifier cf ls s" "crypto_ok C" "wf_params params" "typed_verifier verifier" "length ls + 2 < 2 ^ 64"
  shows "pool_inv C params verifier cf ls s" "wf_pool_config cf"
proof -
  obtain bind cf0 nd now a b S where r: "node_sound C params verifier nd" "typed_node nd" "wf_pool_config cf0"
    "spawn_pool_server C bind cf0 nd now a b = Ok (cf, S)" "pool_steps C cf (no_threads, S) ls s"
    using assms(1) by (auto simp: pool_run_def)
  note i = spawn_pool_inv [OF assms(2,3) r(3) assms(4) r(1,2,4)]
  show "pool_inv C params verifier cf ls s" "wf_pool_config cf"
    using pool_inv_steps [OF r(5) assms(2,3) i(2) assms(4) i(1)] assms(5) i(2) by simp_all
qed

lemma pool_steps_trans: "pool_steps C cf s' ms s'' \<Longrightarrow> pool_steps C cf s ls s' \<Longrightarrow> pool_steps C cf s (ls @ ms) s''"
  by (induction rule: pool_steps.induct) (auto intro: steps_more simp flip: append_assoc)

lemma pool_run_steps: "pool_run C params verifier cf ls s \<Longrightarrow> pool_steps C cf s ms s' \<Longrightarrow> pool_run C params verifier cf (ls @ ms) s'"
  unfolding pool_run_def using pool_steps_trans by meson

lemma pool_step_one: "pool_step C cf s l s' \<Longrightarrow> pool_steps C cf s [l] s'"
  using steps_more [OF steps_none] by fastforce


section \<open>One session among the others\<close>

definition label_session :: "pool_label \<Rightarrow> u64 option" where
  "label_session l = (case l of PL_Paid sid _ _ _ \<Rightarrow> Some sid | PL_Refused sid \<Rightarrow> Some sid | PL_Left sid \<Rightarrow> Some sid | PL_Silent \<Rightarrow> None)"

abbreviation of_session :: "u64 \<Rightarrow> pool_label list \<Rightarrow> pool_label list" where
  "of_session sid \<equiv> filter (\<lambda>l. label_session l = Some sid)"

text \<open>In every state of a run in which this session is served, what the other threads do next is a sequence of
  steps of the server, none of them in the name of this session. It may depend on all of the state and on how
  far this session is, so that no interleaving is left out.\<close>

definition others_ok :: "crypto \<Rightarrow> network_params \<Rightarrow> pow_verifier \<Rightarrow> pool_config \<Rightarrow> u64 \<Rightarrow> pool_environment \<Rightarrow> bool" where
  "others_ok C params verifier cf sid E \<longleftrightarrow> (\<forall>n ls T S. pool_run C params verifier cf ls (T, S) \<and> sid \<in> set (th_live T) \<longrightarrow>
     (\<exists>ms. pool_steps C cf (T, S) ms (pe_others E n (T, S)) \<and> of_session sid ms = []))"

text \<open>A pointer to a job keeps pointing to that job.\<close>

definition held :: "nat \<Rightarrow> active_job \<Rightarrow> pool_server \<Rightarrow> bool" where
  "held ptr active S \<longleftrightarrow> ptr < length (sv_jobs S) \<and> same_job active (sv_jobs S ! ptr)"

definition pointing :: "pool_server \<Rightarrow> bool" where "pointing S \<longleftrightarrow> sv_current S < length (sv_jobs S)"

lemma commit_jobs:
  assumes "commit_share C cf now io sid ptr nonce block S = (S', r)" "ptr < length (sv_jobs S)"
  shows "length (sv_jobs S') = length (sv_jobs S)" "sv_current S' = sv_current S" "same_job (sv_jobs S ! i) (sv_jobs S' ! i)"
proof -
  from assms have "length (sv_jobs S') = length (sv_jobs S) \<and> sv_current S' = sv_current S \<and> same_job (sv_jobs S ! i) (sv_jobs S' ! i)"
  proof (cases rule: commit_cases)
    case (went S1 q)
    then show ?thesis using assms(2) by (cases "i = ptr") (auto simp: same_job_def)
  qed (simp add: same_job_def)
  then show "length (sv_jobs S') = length (sv_jobs S)" "sv_current S' = sv_current S" "same_job (sv_jobs S ! i) (sv_jobs S' ! i)"
    by blast+
qed

lemma pool_step_jobs:
  assumes "pool_step C cf (T, S) l (T', S')"
  shows "held ptr active S \<Longrightarrow> held ptr active S'" "pointing S \<Longrightarrow> pointing S'"
proof -
  have "(held ptr active S \<longrightarrow> held ptr active S') \<and> (pointing S \<longrightarrow> pointing S')"
    using assms
  proof cases
    case (step_rotate now random r)
    show ?thesis using step_rotate(3)
      by (cases rule: rotate_cases) (simp_all add: held_def pointing_def nth_append)
  next
    case (step_pay sid p nonce block now io stats)
    show ?thesis
      using commit_jobs [OF step_pay(6,4)] same_job_trans by (auto simp: held_def pointing_def)
  next
    case (step_no_pay sid p nonce block now io r)
    show ?thesis
      using commit_jobs [OF step_no_pay(6,4)] same_job_trans by (auto simp: held_def pointing_def)
  qed (simp_all add: held_def pointing_def)
  then show "held ptr active S \<Longrightarrow> held ptr active S'" "pointing S \<Longrightarrow> pointing S'" by blast+
qed

lemma pool_step_live:
  assumes "pool_step C cf (T, S) l (T', S')" "sid \<in> set (th_live T)" "l \<noteq> PL_Left sid"
  shows "sid \<in> set (th_live T')"
  using assms by cases (auto simp: registered_def turned_away_def departed_def)

lemma pool_steps_keep:
  assumes "pool_steps C cf (T, S) ms (T', S')"
  shows "held ptr active S \<Longrightarrow> held ptr active S'" "pointing S \<Longrightarrow> pointing S'"
    "sid \<in> set (th_live T) \<Longrightarrow> PL_Left sid \<notin> set ms \<Longrightarrow> sid \<in> set (th_live T')"
proof -
  have "(held ptr active (snd s) \<longrightarrow> held ptr active (snd s')) \<and> (pointing (snd s) \<longrightarrow> pointing (snd s')) \<and>
    (sid \<in> set (th_live (fst s)) \<longrightarrow> PL_Left sid \<notin> set ms \<longrightarrow> sid \<in> set (th_live (fst s')))"
    if "pool_steps C cf s ms s'" for s s'
    using that
  proof (induction rule: pool_steps.induct)
    case (steps_more s ms s' l s'')
    obtain T1 S1 T2 S2 where s: "s' = (T1, S1)" "s'' = (T2, S2)" by (metis surj_pair)
    show ?case
      using steps_more.IH pool_step_jobs [OF steps_more.hyps(2) [unfolded s]] pool_step_live [OF steps_more.hyps(2) [unfolded s], of sid]
      by (auto simp: s)
  qed simp
  from this [OF assms] show "held ptr active S \<Longrightarrow> held ptr active S'" "pointing S \<Longrightarrow> pointing S'"
    "sid \<in> set (th_live T) \<Longrightarrow> PL_Left sid \<notin> set ms \<Longrightarrow> sid \<in> set (th_live T')" by simp_all
qed

lemma pool_run_pointing: "pool_run C params verifier cf ls (T, S) \<Longrightarrow> pointing S"
  using pool_steps_keep(2) by (fastforce simp: pool_run_def spawn_pool_server_def Let_def pointing_def split: if_splits)


text \<open>What an action of this session does, from any state of a run where \<open>K\<close> holds: it is a sequence of steps,
  and the steps of this session among them are as \<open>Q\<close> says for the value returned (none for an error).\<close>

definition value_of :: "('e, 'a) outcome \<Rightarrow> 'a option" where
  "value_of r = (case r of Ok x \<Rightarrow> Some x | _ \<Rightarrow> None)"

definition acts ::
  "crypto \<Rightarrow> network_params \<Rightarrow> pow_verifier \<Rightarrow> pool_config \<Rightarrow> u64 \<Rightarrow> (pool_server \<Rightarrow> bool)
     \<Rightarrow> ('z pool_task_scheme, 'a) pool_action \<Rightarrow> ('a option \<Rightarrow> pool_server \<Rightarrow> pool_label list \<Rightarrow> bool) \<Rightarrow> bool" where
  "acts C params verifier cf sid K m Q \<longleftrightarrow> (\<forall>w w' r ls.
     pool_run C params verifier cf ls (pt_threads w, pt_server w) \<longrightarrow> sid \<in> set (th_live (pt_threads w)) \<longrightarrow> K (pt_server w) \<longrightarrow>
     m w = (w', r) \<longrightarrow>
     (\<exists>ms. pool_steps C cf (pt_threads w, pt_server w) ms (pt_threads w', pt_server w') \<and> sid \<in> set (th_live (pt_threads w')) \<and>
        Q (value_of r) (pt_server w') (of_session sid ms)))"

definition stable :: "crypto \<Rightarrow> pool_config \<Rightarrow> (pool_server \<Rightarrow> bool) \<Rightarrow> bool" where
  "stable C cf K \<longleftrightarrow> (\<forall>T S ms T' S'. pool_steps C cf (T, S) ms (T', S') \<longrightarrow> K S \<longrightarrow> K S')"

lemma stable_held: "stable C cf (held ptr active)"
  unfolding stable_def using pool_steps_keep(1) by blast

lemma stable_True: "stable C cf (\<lambda>_. True)"
  by (simp add: stable_def)

lemma acts_lift: "(\<And>S. K S \<Longrightarrow> Q (value_of r) S []) \<Longrightarrow> acts C params verifier cf sid K (plift r) Q"
  unfolding acts_def plift_def using steps_none by fastforce

lemma acts_bind:
  assumes m: "acts C params verifier cf sid K m Q" and f: "\<And>x. acts C params verifier cf sid (K' x) (f x) (R x)"
    and K': "\<And>x S os. Q (Some x) S os \<Longrightarrow> K' x S"
  shows "acts C params verifier cf sid K (pbind m f)
    (\<lambda>v S os. (\<exists>x S1 os1 os2. Q (Some x) S1 os1 \<and> R x v S os2 \<and> os = os1 @ os2) \<or> v = None \<and> Q None S os)"
  unfolding acts_def
proof (intro allI impI)
  fix w w' :: "'a pool_task_scheme" and r :: "(pool_error, 'c) outcome" and ls
  let ?s = "\<lambda>w :: 'a pool_task_scheme. (pt_threads w, pt_server w)"
  assume run: "pool_run C params verifier cf ls (?s w)" "sid \<in> set (th_live (pt_threads w))" "K (pt_server w)" "pbind m f w = (w', r)"
  obtain w1 q where q: "m w = (w1, q)" by fastforce
  obtain ms where s1: "pool_steps C cf (?s w) ms (?s w1)" "sid \<in> set (th_live (pt_threads w1))"
    "Q (value_of q) (pt_server w1) (of_session sid ms)" using m run(1-3) q unfolding acts_def by blast
  show "\<exists>ms. pool_steps C cf (?s w) ms (?s w') \<and> sid \<in> set (th_live (pt_threads w')) \<and>
      ((\<exists>x S1 os1 os2. Q (Some x) S1 os1 \<and> R x (value_of r) (pt_server w') os2 \<and> of_session sid ms = os1 @ os2) \<or>
       value_of r = None \<and> Q None (pt_server w') (of_session sid ms))"
  proof (cases q)
    case (Ok x)
    then have fx: "f x w1 = (w', r)" and Qx: "Q (Some x) (pt_server w1) (of_session sid ms)"
      using run(4) q s1(3) by (simp_all add: pbind_def try_in_def value_of_def)
    obtain ms2 where s2: "pool_steps C cf (?s w1) ms2 (?s w')" "sid \<in> set (th_live (pt_threads w'))"
      "R x (value_of r) (pt_server w') (of_session sid ms2)"
      using f [of x] pool_run_steps [OF run(1) s1(1)] s1(2) K' [OF Qx] fx unfolding acts_def by blast
    then show ?thesis using pool_steps_trans [OF s2(1) s1(1)] Qx by (intro exI [of _ "ms @ ms2"]) auto
  qed (rule exI [of _ ms], use run(4) q s1 in \<open>auto simp: pbind_def try_in_def value_of_def\<close>)+
qed

lemma acts_conseq:
  "acts C params verifier cf sid K m Q \<Longrightarrow> (\<And>S. K' S \<Longrightarrow> K S) \<Longrightarrow> (\<And>v S os. Q v S os \<Longrightarrow> Q' v S os) \<Longrightarrow>
     acts C params verifier cf sid K' m Q'"
  unfolding acts_def by meson

lemma acts_critical:
  assumes E: "others_ok C params verifier cf sid E" and K: "stable C cf K" and none: "\<And>S. Q None S []"
    and f: "\<And>k ls T S S' r. pool_run C params verifier cf ls (T, S) \<Longrightarrow> sid \<in> set (th_live T) \<Longrightarrow> K S \<Longrightarrow> f k S = (S', r) \<Longrightarrow>
      \<exists>ms. pool_steps C cf (T, S) ms (T, S') \<and> Q (value_of r) S' (of_session sid ms)"
  shows "acts C params verifier cf sid K (critical E f) Q"
  unfolding acts_def
proof (intro allI impI)
  fix w w' :: "'b pool_task_scheme" and r :: "(pool_error, 'a) outcome" and ls
  assume run: "pool_run C params verifier cf ls (pt_threads w, pt_server w)" "sid \<in> set (th_live (pt_threads w))" "K (pt_server w)"
    "critical E f w = (w', r)"
  obtain T S where o: "pe_others E (pt_tick w) (pt_threads w, pt_server w) = (T, S)" by fastforce
  then obtain ms where s1: "pool_steps C cf (pt_threads w, pt_server w) ms (T, S)" "of_session sid ms = []"
    using E run(1,2) unfolding others_ok_def by metis
  have live: "sid \<in> set (th_live T)"
    using pool_steps_keep(3) [OF s1(1) run(2)] s1(2) by (force simp: filter_empty_conv label_session_def)
  have K1: "K S" using K s1(1) run(3) unfolding stable_def by blast
  show "\<exists>ms. pool_steps C cf (pt_threads w, pt_server w) ms (pt_threads w', pt_server w') \<and> sid \<in> set (th_live (pt_threads w')) \<and>
      Q (value_of r) (pt_server w') (of_session sid ms)"
  proof (cases "pe_poisoned E (pt_tick w)")
    case True
    then have "pt_threads w' = T" "pt_server w' = S" "value_of r = None"
      using run(4) by (auto simp: critical_def indivisible_def Let_def o value_of_def)
    then show ?thesis using s1 live none [of S] by (intro exI [of _ ms]) simp
  next
    case False
    obtain S' q where q: "f (pt_tick w) S = (S', q)" by fastforce
    then have w': "pt_threads w' = T" "pt_server w' = S'" "r = q"
      using run(4) False by (auto simp: critical_def indivisible_def Let_def o)
    obtain ms2 where s2: "pool_steps C cf (T, S) ms2 (T, S')" "Q (value_of r) S' (of_session sid ms2)"
      using f [OF pool_run_steps [OF run(1) s1(1)] live K1 q] w'(3) by blast
    then show ?thesis using pool_steps_trans [OF s2(1) s1(1)] s1(2) w' live by (intro exI [of _ "ms @ ms2"]) auto
  qed
qed

lemma acts_keep:
  assumes m: "acts C params verifier cf sid K m Q" and K: "stable C cf K"
  shows "acts C params verifier cf sid K m (\<lambda>v S os. Q v S os \<and> K S)"
  using m K unfolding acts_def stable_def by meson

lemma acts_rotate:
  "others_ok C params verifier cf sid E \<Longrightarrow> stable C cf K \<Longrightarrow>
     acts C params verifier cf sid K (rotate_job C cf E) (\<lambda>v S os. os = [])"
  unfolding rotate_job_def
  by (rule acts_critical) (use pool_step_one [OF step_rotate] in \<open>force simp: label_session_def\<close>)+

lemma acts_rejected:
  assumes "others_ok C params verifier cf sid E" "stable C cf K"
  shows "acts C params verifier cf sid K (rejected_result E sid job_id nonce code)
    (\<lambda>v S os. case v of Some res \<Rightarrow> os = [PL_Refused sid] \<and> \<not> sh_accepted res \<and> \<not> sh_block_accepted res \<and> sh_job_id res = job_id \<and>
           sh_nonce res = nonce
       | None \<Rightarrow> os = [])"
  unfolding rejected_result_def
proof (rule acts_critical [OF assms])
  fix ls and T :: pool_threads and S S' :: pool_server and r :: "(pool_error, pool_share_result) outcome"
  assume sid: "sid \<in> set (th_live T)" and run: "(case credit_rejected_share sid (sv_ledger S) of (lg, r) \<Rightarrow>
       (S\<lparr>sv_ledger := lg\<rparr>, obind r (\<lambda>session.
         Ok \<lparr>sh_job_id = job_id, sh_nonce = nonce, sh_accepted = False, sh_block_accepted = False, sh_code = code,
             sh_session = session\<rparr>))) = (S', r)"
  obtain lg q where q: "credit_rejected_share sid (sv_ledger S) = (lg, q)" by fastforce
  show "\<exists>ms. pool_steps C cf (T, S) ms (T, S') \<and> (case value_of r of
      Some res \<Rightarrow> of_session sid ms = [PL_Refused sid] \<and> \<not> sh_accepted res \<and> \<not> sh_block_accepted res \<and> sh_job_id res = job_id \<and>
        sh_nonce res = nonce
    | None \<Rightarrow> of_session sid ms = [])"
  proof (cases "\<exists>stats. q = Ok stats")
    case True
    then show ?thesis using pool_step_one [OF step_refuse [OF sid]] q run sid
      by (intro exI [of _ "[PL_Refused sid]"]) (auto simp: value_of_def label_session_def)
  next
    case False
    then show ?thesis using pool_step_one [OF step_refuse_fails [OF sid q]] q run sid
      by (intro exI [of _ "[PL_Silent]"]) (cases q, auto simp: value_of_def label_session_def)
  qed
qed simp

lemma judge_same: "same_job j j' \<Longrightarrow> judge_share C j' nonce = judge_share C j nonce"
  unfolding same_job_def judge_share_def by (elim conjE) (simp only:)

lemma acts_commit:
  assumes E: "others_ok C params verifier cf sid E" and judged: "judge_share C active nonce = Ok (SV_Share block)"
  shows "acts C params verifier cf sid (held ptr active)
    (critical E (\<lambda>k. commit_share C cf (pe_clock E k) (pe_append E k) sid ptr nonce block))
    (\<lambda>v S os. case v of Some (CR_Credited _) \<Rightarrow> os = [PL_Paid sid ptr nonce (block \<noteq> None)] | _ \<Rightarrow> os = [])"
proof (rule acts_critical [OF E stable_held])
  fix k ls and T :: pool_threads and S S' :: pool_server and r :: "(pool_error, commit_result) outcome"
  assume sid: "sid \<in> set (th_live T)" and held: "held ptr active S"
    and run: "commit_share C cf (pe_clock E k) (pe_append E k) sid ptr nonce block S = (S', r)"
  have ptr: "ptr < length (sv_jobs S)" "judge_share C (sv_jobs S ! ptr) nonce = Ok (SV_Share block)"
    using held judged judge_same [of active "sv_jobs S ! ptr"] by (simp_all add: held_def)
  show "\<exists>ms. pool_steps C cf (T, S) ms (T, S') \<and> (case value_of r of
      Some (CR_Credited _) \<Rightarrow> of_session sid ms = [PL_Paid sid ptr nonce (block \<noteq> None)] | _ \<Rightarrow> of_session sid ms = [])"
  proof (cases "\<exists>stats. r = Ok (CR_Credited stats)")
    case True
    then show ?thesis using pool_step_one [OF step_pay [OF sid ptr]] run sid
      by (intro exI [of _ "[PL_Paid sid ptr nonce (block \<noteq> None)]"])
        (auto simp: value_of_def label_session_def simp del: not_None_eq)
  next
    case False
    then show ?thesis using pool_step_one [OF step_no_pay [OF sid ptr run]] sid
      by (intro exI [of _ "[PL_Silent]"]) (auto simp: value_of_def label_session_def split: outcome.splits commit_result.splits)
  qed
qed simp

text \<open>The answer to a share: refused and booked as refused, or paid and booked as paid; when it ends in an error
  nothing was booked, except that a share whose block was accepted may be followed by a failed rotation.\<close>

definition answered :: "crypto \<Rightarrow> u64 \<Rightarrow> hash32 \<Rightarrow> u64 \<Rightarrow> pool_share_result option \<Rightarrow> pool_server \<Rightarrow> pool_label list \<Rightarrow> bool" where
  "answered C sid job_id nonce v S os \<longleftrightarrow> (case v of
       None \<Rightarrow> os = [] \<or> (\<exists>ptr. os = [PL_Paid sid ptr nonce True])
     | Some res \<Rightarrow> sh_job_id res = job_id \<and> sh_nonce res = nonce \<and>
         (if sh_accepted res
          then \<exists>ptr active block. os = [PL_Paid sid ptr nonce (block \<noteq> None)] \<and> held ptr active S \<and> pj_job_id (aj_wire active) = job_id \<and>
           judge_share C active nonce = Ok (SV_Share block) \<and> sh_block_accepted res = (block \<noteq> None)
          else os = [PL_Refused sid] \<and> \<not> sh_block_accepted res))"

lemma answered_rejected:
  "(case v of Some res \<Rightarrow> os = [PL_Refused sid] \<and> \<not> sh_accepted res \<and> \<not> sh_block_accepted res \<and> sh_job_id res = job_id \<and>
       sh_nonce res = nonce | None \<Rightarrow> os = [])
     \<Longrightarrow> answered C sid job_id nonce v S os"
  by (auto simp: answered_def split: option.splits)


lemma acts_answer_rejected:
  assumes "others_ok C params verifier cf sid E" "stable C cf K"
  shows "acts C params verifier cf sid K (rejected_result E sid job_id nonce code) (answered C sid job_id nonce)"
  by (rule acts_conseq [OF acts_rejected [OF assms] _ answered_rejected]) simp_all

lemma answered_none: "answered C sid job_id nonce None S []"
  by (simp add: answered_def)

lemma pbind_lift: "pbind (plift (Ok x)) f = f x"
  by (rule ext) (simp add: pbind_def plift_def try_in_def)

lemma acts_bind_any:
  assumes m: "acts C params verifier cf sid K m (\<lambda>v S os. os = [])" and K: "stable C cf K"
    and f: "\<And>x. acts C params verifier cf sid K (f x) R" and none: "\<And>S. R None S []"
  shows "acts C params verifier cf sid K (pbind m f) R"
  by (rule acts_conseq [OF acts_bind [OF acts_keep [OF m K], where K' = "\<lambda>_. K" and R = "\<lambda>_. R", OF f]]) (auto simp: none)

lemma acts_paid:
  assumes E: "others_ok C params verifier cf sid E" and judged: "judge_share C active nonce = Ok (SV_Share block)"
    and id: "pj_job_id (aj_wire active) = job_id"
  shows "acts C params verifier cf sid (held ptr active)
    (answer_commit C cf E sid job_id nonce (block \<noteq> None) (CR_Credited session))
    (\<lambda>v S os. answered C sid job_id nonce v S (PL_Paid sid ptr nonce (block \<noteq> None) # os))"
proof -
  let ?res = "\<lparr>sh_job_id = job_id, sh_nonce = nonce, sh_accepted = True, sh_block_accepted = (block \<noteq> None),
      sh_code = (if block \<noteq> None then ''block_accepted'' else ''share_accepted''), sh_session = session\<rparr>"
  have res: "acts C params verifier cf sid (held ptr active) (plift (Ok ?res))
      (\<lambda>v S os. answered C sid job_id nonce v S (PL_Paid sid ptr nonce (block \<noteq> None) # os))"
    using judged id by (intro acts_lift) (auto simp: answered_def value_of_def)
  show ?thesis
  proof (cases block)
    case None
    then show ?thesis using res by (simp add: answer_commit_def pbind_lift)
  next
    case (Some b)
    show ?thesis
      using acts_bind_any [OF acts_rotate [OF E stable_held] stable_held res] Some by (simp add: answer_commit_def answered_def)
  qed
qed

lemma acts_committed:
  assumes E: "others_ok C params verifier cf sid E" and judged: "judge_share C active nonce = Ok (SV_Share block)"
    and id: "pj_job_id (aj_wire active) = job_id"
  shows "acts C params verifier cf sid (held ptr active)
    (pbind (critical E (\<lambda>k. commit_share C cf (pe_clock E k) (pe_append E k) sid ptr nonce block))
       (answer_commit C cf E sid job_id nonce (block \<noteq> None))) (answered C sid job_id nonce)"
proof (rule acts_conseq [OF acts_bind [OF acts_keep [OF acts_commit [OF E judged] stable_held], where K' = "\<lambda>_. held ptr active"
      and R = "\<lambda>c v S os. answered C sid job_id nonce v S
        (case c of CR_Credited _ \<Rightarrow> PL_Paid sid ptr nonce (block \<noteq> None) # os | _ \<Rightarrow> os)"]])
  fix c
  show "acts C params verifier cf sid (held ptr active) (answer_commit C cf E sid job_id nonce (block \<noteq> None) c)
      (\<lambda>v S os. answered C sid job_id nonce v S (case c of CR_Credited _ \<Rightarrow> PL_Paid sid ptr nonce (block \<noteq> None) # os | _ \<Rightarrow> os))"
  proof (cases c)
    case CR_StaleTip
    then show ?thesis
      by (simp only: answer_commit_def commit_result.case)
        (rule acts_bind_any [OF acts_rotate [OF E stable_held] stable_held acts_answer_rejected [OF E stable_held] answered_none])
  next
    case (CR_Credited stats)
    show ?thesis
      unfolding CR_Credited commit_result.case by (rule acts_paid [OF E judged id])
  qed (simp_all only: answer_commit_def commit_result.case acts_answer_rejected [OF E stable_held])
next
  fix v :: "pool_share_result option" and S os
  assume "(\<exists>x S1 os1 os2. ((case Some x of Some (CR_Credited _) \<Rightarrow> os1 = [PL_Paid sid ptr nonce (block \<noteq> None)] | _ \<Rightarrow> os1 = []) \<and>
      held ptr active S1) \<and>
      answered C sid job_id nonce v S (case x of CR_Credited _ \<Rightarrow> PL_Paid sid ptr nonce (block \<noteq> None) # os2 | _ \<Rightarrow> os2) \<and> os = os1 @ os2) \<or>
    v = None \<and> (case None of Some (CR_Credited _) \<Rightarrow> os = [PL_Paid sid ptr nonce (block \<noteq> None)] | _ \<Rightarrow> os = []) \<and> held ptr active S"
  then consider x os1 os2 where "case x of CR_Credited _ \<Rightarrow> os1 = [PL_Paid sid ptr nonce (block \<noteq> None)] | _ \<Rightarrow> os1 = []"
      "answered C sid job_id nonce v S (case x of CR_Credited _ \<Rightarrow> PL_Paid sid ptr nonce (block \<noteq> None) # os2 | _ \<Rightarrow> os2)" "os = os1 @ os2"
    | "v = None" "os = []" by auto
  then show "answered C sid job_id nonce v S os"
  proof cases
    case (1 x)
    then show ?thesis by (cases x) simp_all
  qed (simp add: answered_none)
qed (erule conjunct2)

lemma acts_judged:
  assumes E: "others_ok C params verifier cf sid E"
  shows "acts C params verifier cf sid (held ptr active) (process_on_job C cf E sid job_id nonce ptr active) (answered C sid job_id nonce)"
proof (cases "job_id \<noteq> pj_job_id (aj_wire active)")
  case False
  then have id: "pj_job_id (aj_wire active) = job_id" by simp
  show ?thesis
  proof (cases "judge_share C active nonce")
    case (Ok verdict)
    then show ?thesis
      using acts_committed [OF E _ id, of nonce _ ptr] acts_answer_rejected [OF E stable_held] False
      by (cases verdict) (simp_all add: process_on_job_def pbind_lift)
  qed (use False in \<open>auto simp: process_on_job_def acts_def pbind_def plift_def try_in_def value_of_def answered_def
      intro!: exI [of _ "[] :: pool_label list"] steps_none\<close>)
qed (simp add: process_on_job_def acts_answer_rejected [OF E stable_held])

lemma acts_share:
  assumes E: "others_ok C params verifier cf sid E"
  shows "acts C params verifier cf sid (\<lambda>_. True) (process_share C cf E sid job_id nonce) (answered C sid job_id nonce)"
proof -
  define Q1 where "Q1 = (\<lambda>(v :: (nat \<times> active_job) option) (S :: pool_server) (os :: pool_label list).
    os = [] \<and> (case v of Some (ptr, active) \<Rightarrow> held ptr active S | None \<Rightarrow> True))"
  have take: "acts C params verifier cf sid (\<lambda>_. True) (critical E (\<lambda>_ S. (S, Ok (sv_current S, current_active S)))) Q1"
  proof (rule acts_critical [OF E stable_True])
    fix ls and T :: pool_threads and S S' :: pool_server and r :: "(pool_error, nat \<times> active_job) outcome"
    assume run: "pool_run C params verifier cf ls (T, S)" "sid \<in> set (th_live T)" "(S, Ok (sv_current S, current_active S)) = (S', r)"
    have "held (sv_current S) (current_active S) S"
      using pool_run_pointing [OF run(1)] by (simp add: held_def pointing_def current_active_def same_job_def)
    then show "\<exists>ms. pool_steps C cf (T, S) ms (T, S') \<and> Q1 (value_of r) S' (of_session sid ms)"
      using run(2,3) by (intro exI [of _ "[]"]) (auto simp: Q1_def value_of_def intro: steps_none)
  qed (simp add: Q1_def)
  show ?thesis
    unfolding process_share_def
  proof (rule acts_conseq [OF acts_bind [OF take, where K' = "\<lambda>(ptr, active). held ptr active" and R = "\<lambda>_. answered C sid job_id nonce"]])
    fix x :: "nat \<times> active_job"
    show "acts C params verifier cf sid (case x of (ptr, active) \<Rightarrow> held ptr active) (case x of (ptr, active) \<Rightarrow>
        process_on_job C cf E sid job_id nonce ptr active) (answered C sid job_id nonce)"
      by (cases x) (simp only: prod.case, rule acts_judged [OF E])
  qed (auto simp: Q1_def answered_none split: prod.splits)
qed

end
