(* ===== verification/CF_Pool_Service.thy ===== *)
theory CF_Pool_Service
  imports CF_Pool_Run
begin

text \<open>
  What the pool's server promises: what a paid share is, how the answers of one session to its client and its
  credits on the ledger go together, and the properties of the server in any run.
\<close>

section \<open>Paid shares\<close>

text \<open>A share that may be paid: recomputing the nonce of the job gives a proof whose digest meets the target of
  the job's shares, and the block that comes with it is that of the job with a verified proof.\<close>

definition share_is_work :: "crypto \<Rightarrow> active_job \<Rightarrow> u64 \<Rightarrow> bool \<Rightarrow> bool" where
  "share_is_work C active nonce with_block \<longleftrightarrow> (\<exists>p. proof_at C (aj_mining active) nonce p \<and>
     lex_le (bp_work_digest p) (pj_share_target (aj_wire active)) \<and>
     (with_block \<longleftrightarrow> lex_le (bp_work_digest p) (bc_target (bt_challenge (mj_template (aj_mining active))))) \<and>
     (with_block \<longrightarrow> pow_verify C (mj_verifier (aj_mining active)) (bt_challenge (mj_template (aj_mining active))) p = Ok ()))"

lemma judge_share_work:
  assumes "judge_share C active nonce = Ok (SV_Share block)"
  shows "share_is_work C active nonce (block \<noteq> None)"
    "block = Some b \<Longrightarrow> \<exists>p. proof_at C (aj_mining active) nonce p \<and> b = template_with_proof (mj_template (aj_mining active)) p"
proof -
  obtain p where p: "proof_at C (aj_mining active) nonce p"
    using assms by (auto simp: judge_share_def evaluate_share_def evaluate_share_unchecked_def proof_at_def)
  note e = evaluate_share_at [OF p, of "pj_share_target (aj_wire active)"]
  show "share_is_work C active nonce (block \<noteq> None)"
    "block = Some b \<Longrightarrow> \<exists>p. proof_at C (aj_mining active) nonce p \<and> b = template_with_proof (mj_template (aj_mining active)) p"
    using assms p e chain_valid_block [of C "aj_mining active" p]
    unfolding share_is_work_def judge_share_def evaluate_share_def
    by (auto split: if_splits option.splits outcome.splits)
qed

lemma share_is_work_same: "same_job j j' \<Longrightarrow> share_is_work C j' nonce b = share_is_work C j nonce b"
  by (simp add: same_job_def share_is_work_def)

lemma pool_steps_work:
  assumes "pool_steps C cf s ls s'" "PL_Paid sid ptr nonce b \<in> set ls"
  shows "ptr < length (sv_jobs (snd s')) \<and> share_is_work C (sv_jobs (snd s') ! ptr) nonce b"
  using assms
proof (induction rule: pool_steps.induct)
  case (steps_more s ls s' l s'')
  obtain T S T' S' where s: "s' = (T, S)" "s'' = (T', S')" by (metis surj_pair)
  note step = steps_more.hyps(2) [unfolded s]
  have "ptr < length (sv_jobs S) \<and> share_is_work C (sv_jobs S ! ptr) nonce b"
  proof (cases "PL_Paid sid ptr nonce b \<in> set ls")
    case False
    then have "l = PL_Paid sid ptr nonce b" using steps_more.prems by simp
    then show ?thesis using step by (auto elim!: pool_step.cases dest!: judge_share_work(1))
  qed (use steps_more.IH s in simp)
  moreover from this have "held ptr (sv_jobs S ! ptr) S'"
    using pool_step_jobs(1) [OF step, of ptr "sv_jobs S ! ptr"] by (simp add: held_def same_job_def)
  ultimately show ?case using share_is_work_same [of "sv_jobs S ! ptr" "sv_jobs S' ! ptr"] by (simp add: s held_def)
qed simp

section \<open>The answers of a session\<close>

text \<open>\<open>serves\<close> is \<open>acts\<close> for code that writes to the client: besides the steps taken it speaks of the messages
  written.\<close>

definition serves ::
  "crypto \<Rightarrow> network_params \<Rightarrow> pow_verifier \<Rightarrow> pool_config \<Rightarrow> u64 \<Rightarrow> (pool_connection, 'a) pool_action
     \<Rightarrow> ('a option \<Rightarrow> server_message list \<Rightarrow> pool_label list \<Rightarrow> bool) \<Rightarrow> bool" where
  "serves C params verifier cf sid m Q \<longleftrightarrow> (\<forall>w w' r ls.
     pool_run C params verifier cf ls (pt_threads w, pt_server w) \<longrightarrow> sid \<in> set (th_live (pt_threads w)) \<longrightarrow> m w = (w', r) \<longrightarrow>
     (\<exists>ms sent. pool_steps C cf (pt_threads w, pt_server w) ms (pt_threads w', pt_server w') \<and> sid \<in> set (th_live (pt_threads w')) \<and>
        cn_sent w' = cn_sent w @ sent \<and> Q (value_of r) sent (of_session sid ms)))"

definition silent :: "(pool_connection, 'a) pool_action \<Rightarrow> bool" where
  "silent m \<longleftrightarrow> (\<forall>w. cn_sent (fst (m w)) = cn_sent w)"

lemma silent_critical: "silent (critical E f)"
  by (simp add: silent_def critical_def indivisible_def Let_def split: prod.split)

lemma silent_lift: "silent (plift r)"
  by (simp add: silent_def plift_def)

lemma silent_bind: "silent m \<Longrightarrow> (\<And>x. silent (f x)) \<Longrightarrow> silent (pbind m f)"
  by (simp add: silent_def pbind_def try_in_def split: prod.split outcome.split) (metis fst_conv)

lemma silent_rotate: "silent (rotate_job C cf E)"
  by (simp add: rotate_job_def silent_critical)

lemma silent_rejected: "silent (rejected_result E sid job_id nonce code)"
  by (simp add: rejected_result_def silent_critical)

lemma silent_share: "silent (process_share C cf E sid job_id nonce)"
  unfolding process_share_def process_on_job_def answer_commit_def
  by (auto intro!: silent_bind silent_critical silent_lift silent_rotate silent_rejected
      split: share_verdict.split commit_result.split)

lemma serves_silent:
  assumes "acts C params verifier cf sid (\<lambda>_. True) m Q" "silent m"
  shows "serves C params verifier cf sid m (\<lambda>v sent os. sent = [] \<and> (\<exists>S. Q v S os))"
  using assms unfolding serves_def acts_def silent_def by (metis append_Nil2 fst_conv)

lemma serves_stopped:
  assumes "serves C params verifier cf sid m Q" "Q (Some x) [] []"
  shows "serves C params verifier cf sid (\<lambda>w. if b w then (w, Ok x) else m w) Q"
  using assms unfolding serves_def
  by (auto simp: value_of_def intro!: exI [of _ "[] :: pool_label list"] steps_none)

lemma serves_conseq:
  "serves C params verifier cf sid m Q \<Longrightarrow> (\<And>v sent os. Q v sent os \<Longrightarrow> Q' v sent os) \<Longrightarrow> serves C params verifier cf sid m Q'"
  unfolding serves_def by meson

lemma serves_write:
  "serves C params verifier cf sid (write_message m) (\<lambda>v sent os. os = [] \<and> sent = (if v = None then [] else [m]))"
  unfolding serves_def write_message_def by (auto simp: value_of_def intro!: exI [of _ "[] :: pool_label list"] steps_none)

lemma serves_lift: "Q (value_of r) [] [] \<Longrightarrow> serves C params verifier cf sid (plift r) Q"
  unfolding serves_def plift_def by (auto intro!: exI [of _ "[] :: pool_label list"] steps_none)

lemma serves_bind:
  assumes m: "serves C params verifier cf sid m Q" and f: "\<And>x. serves C params verifier cf sid (f x) (R x)"
  shows "serves C params verifier cf sid (pbind m f)
    (\<lambda>v sent os. (\<exists>x sent1 os1 sent2 os2. Q (Some x) sent1 os1 \<and> R x v sent2 os2 \<and> sent = sent1 @ sent2 \<and> os = os1 @ os2) \<or>
       v = None \<and> Q None sent os)"
  unfolding serves_def
proof (intro allI impI)
  fix w w' :: pool_connection and r :: "(pool_error, 'b) outcome" and ls
  let ?s = "\<lambda>w :: pool_connection. (pt_threads w, pt_server w)"
  assume run: "pool_run C params verifier cf ls (?s w)" "sid \<in> set (th_live (pt_threads w))" "pbind m f w = (w', r)"
  obtain w1 q where q: "m w = (w1, q)" by fastforce
  obtain ms sent where s1: "pool_steps C cf (?s w) ms (?s w1)" "sid \<in> set (th_live (pt_threads w1))"
    "cn_sent w1 = cn_sent w @ sent" "Q (value_of q) sent (of_session sid ms)"
    using m run(1,2) q unfolding serves_def by blast
  show "\<exists>ms sent. pool_steps C cf (?s w) ms (?s w') \<and> sid \<in> set (th_live (pt_threads w')) \<and> cn_sent w' = cn_sent w @ sent \<and>
      ((\<exists>x sent1 os1 sent2 os2. Q (Some x) sent1 os1 \<and> R x (value_of r) sent2 os2 \<and> sent = sent1 @ sent2 \<and>
          of_session sid ms = os1 @ os2) \<or>
       value_of r = None \<and> Q None sent (of_session sid ms))"
  proof (cases q)
    case (Ok x)
    then have fx: "f x w1 = (w', r)" and Qx: "Q (Some x) sent (of_session sid ms)"
      using run(3) q s1(4) by (simp_all add: pbind_def try_in_def value_of_def)
    obtain ms2 sent2 where s2: "pool_steps C cf (?s w1) ms2 (?s w')" "sid \<in> set (th_live (pt_threads w'))"
      "cn_sent w' = cn_sent w1 @ sent2" "R x (value_of r) sent2 (of_session sid ms2)"
      using f [of x] pool_run_steps [OF run(1) s1(1)] s1(2) fx unfolding serves_def by blast
    have "\<exists>x sent1 os1 sent2' os2. Q (Some x) sent1 os1 \<and> R x (value_of r) sent2' os2 \<and> sent @ sent2 = sent1 @ sent2' \<and>
        of_session sid (ms @ ms2) = os1 @ os2"
      unfolding filter_append using Qx s2(4) by blast
    then show ?thesis using pool_steps_trans [OF s2(1) s1(1)] s1(3) s2(2,3)
      by (intro exI [of _ "ms @ ms2"] exI [of _ "sent @ sent2"]) simp
  qed (rule exI [of _ ms], rule exI [of _ sent], use run(3) q s1 in \<open>auto simp: pbind_def try_in_def value_of_def\<close>)+
qed

text \<open>A credit and the result that reports it; and the credits of a session in the order of its results, perhaps with
  one more whose result was not written because the session ended.\<close>

definition credit_for :: "u64 \<Rightarrow> pool_label \<Rightarrow> pool_share_result \<Rightarrow> bool" where
  "credit_for sid l res \<longleftrightarrow>
     (if sh_accepted res then \<exists>ptr. l = PL_Paid sid ptr (sh_nonce res) (sh_block_accepted res)
      else l = PL_Refused sid \<and> \<not> sh_block_accepted res)"

definition results_of :: "server_message list \<Rightarrow> pool_share_result list" where
  "results_of sent = concat (map (\<lambda>m. case m of SM_ShareResult res \<Rightarrow> [res] | _ \<Rightarrow> []) sent)"

definition answers_match :: "u64 \<Rightarrow> bool \<Rightarrow> server_message list \<Rightarrow> pool_label list \<Rightarrow> bool" where
  "answers_match sid finished sent os \<longleftrightarrow> (\<exists>reported pending. os = reported @ pending \<and>
     list_all2 (credit_for sid) reported (results_of sent) \<and> length pending \<le> 1 \<and> (finished \<longrightarrow> pending = []))"

lemma results_of_simps [simp]:
  "results_of [] = []" "results_of (sent @ sent') = results_of sent @ results_of sent'"
  "results_of [SM_Job job] = []" "results_of [SM_Error code message] = []" "results_of [SM_ShareResult res] = [res]"
  "results_of [SM_HelloAck v n c i a p] = []"
  by (simp_all add: results_of_def)

lemma answers_match_append:
  "answers_match sid True sent os \<Longrightarrow> answers_match sid b sent' os' \<Longrightarrow> answers_match sid b (sent @ sent') (os @ os')"
proof -
  assume "answers_match sid True sent os" and m: "answers_match sid b sent' os'"
  then have "list_all2 (credit_for sid) os (results_of sent)" by (auto simp: answers_match_def)
  moreover obtain reported pending where "os' = reported @ pending" "list_all2 (credit_for sid) reported (results_of sent')"
    "length pending \<le> 1" "b \<longrightarrow> pending = []" using m unfolding answers_match_def by blast
  ultimately show ?thesis unfolding answers_match_def
    by (intro exI [of _ "os @ reported"] exI [of _ pending]) (simp add: list_all2_appendI)
qed

lemma answers_match_none: "results_of sent = [] \<Longrightarrow> answers_match sid b sent []"
  by (simp add: answers_match_def)

lemma answers_match_ends: "answers_match sid True sent os \<Longrightarrow> answers_match sid b sent os"
  unfolding answers_match_def by blast

abbreviation matches :: "u64 \<Rightarrow> 'a option \<Rightarrow> server_message list \<Rightarrow> pool_label list \<Rightarrow> bool" where
  "matches sid v \<equiv> answers_match sid (v \<noteq> None)"

lemma serves_match_bind:
  assumes "serves C params verifier cf sid m (matches sid)" "\<And>x. serves C params verifier cf sid (f x) (matches sid)"
  shows "serves C params verifier cf sid (pbind m f) (matches sid)"
  by (rule serves_conseq [OF serves_bind [OF assms]]) (auto intro: answers_match_append)

lemma serves_match_write:
  "results_of [m] = [] \<Longrightarrow> serves C params verifier cf sid (write_message m) (matches sid)"
  by (rule serves_conseq [OF serves_write]) (simp add: answers_match_none)

lemma serves_match_lift: "serves C params verifier cf sid (plift r) (matches sid)"
  by (rule serves_lift) (simp add: answers_match_none)

lemma serves_match_quiet:
  assumes "acts C params verifier cf sid (\<lambda>_. True) m (\<lambda>v S os. os = [])" "silent m"
  shows "serves C params verifier cf sid m (matches sid)"
  by (rule serves_conseq [OF serves_silent [OF assms]]) (simp add: answers_match_none)

lemma acts_current:
  assumes "others_ok C params verifier cf sid E"
  shows "acts C params verifier cf sid (\<lambda>_. True) (current_job E) (\<lambda>v S os. os = [])"
  unfolding current_job_def
  by (rule acts_critical [OF assms stable_True]) (auto intro!: exI [of _ "[] :: pool_label list"] steps_none)

lemma answered_match:
  assumes "answered C sid job_id nonce v S os"
  shows "v = Some res \<Longrightarrow> results_of sent = [res] \<Longrightarrow> answers_match sid True sent os"
    "results_of sent = [] \<Longrightarrow> answers_match sid False sent os"
proof -
  show "v = Some res \<Longrightarrow> results_of sent = [res] \<Longrightarrow> answers_match sid True sent os"
    using assms unfolding answers_match_def
    by (intro exI [of _ os] exI [of _ "[]"]) (auto simp: answered_def credit_for_def split: if_splits)
  have "length os \<le> 1" using assms by (auto simp: answered_def split: option.splits if_splits)
  then show "results_of sent = [] \<Longrightarrow> answers_match sid False sent os" by (simp add: answers_match_def)
qed

text \<open>The messages that follow the processing of a share hold its result, and nothing is credited any more.\<close>

definition reports :: "pool_share_result list \<Rightarrow> 'a option \<Rightarrow> server_message list \<Rightarrow> pool_label list \<Rightarrow> bool" where
  "reports rs v sent os \<longleftrightarrow> os = [] \<and> results_of sent = (if v = None then [] else rs)"

lemma serves_report_bind:
  assumes "serves C params verifier cf sid m (reports [])" "\<And>x. serves C params verifier cf sid (f x) (reports rs)"
  shows "serves C params verifier cf sid (pbind m f) (reports rs)"
  by (rule serves_conseq [OF serves_bind [OF assms]]) (auto simp: reports_def)

lemma serves_report_write: "results_of [m] = rs \<Longrightarrow> serves C params verifier cf sid (write_message m) (reports rs)"
  by (rule serves_conseq [OF serves_write]) (simp add: reports_def)

lemma serves_reply:
  assumes E: "others_ok C params verifier cf sid E"
  shows "serves C params verifier cf sid (pbind (current_job E) (\<lambda>after.
      pbind (if pj_job_id before \<noteq> pj_job_id after \<or> job_id \<noteq> pj_job_id before then write_message (SM_Job after) else plift (Ok ())) (\<lambda>_.
      write_message (SM_ShareResult result)))) (reports [result])"
proof (intro serves_report_bind)
  show "serves C params verifier cf sid (current_job E) (reports [])"
    by (rule serves_conseq [OF serves_silent [OF acts_current [OF E]]]) (simp_all add: current_job_def silent_critical reports_def)
  show "serves C params verifier cf sid
      (if pj_job_id before \<noteq> pj_job_id after \<or> job_id \<noteq> pj_job_id before then write_message (SM_Job after) else plift (Ok ())) (reports [])" for after
    by (simp add: serves_report_write serves_lift reports_def)
  show "serves C params verifier cf sid (write_message (SM_ShareResult result)) (reports [result])"
    by (simp add: serves_report_write)
qed

lemma serves_answer:
  assumes E: "others_ok C params verifier cf sid E"
  shows "serves C params verifier cf sid (answer_share C cf E sid job_id nonce) (matches sid)"
proof -
  have now: "serves C params verifier cf sid (current_job E) (matches sid)"
    by (rule serves_match_quiet [OF acts_current [OF E]]) (simp add: current_job_def silent_critical)
  have last: "serves C params verifier cf sid (pbind (process_share C cf E sid job_id nonce) (\<lambda>result.
      pbind (current_job E) (\<lambda>after.
      pbind (if pj_job_id before \<noteq> pj_job_id after \<or> job_id \<noteq> pj_job_id before then write_message (SM_Job after) else plift (Ok ())) (\<lambda>_.
      write_message (SM_ShareResult result))))) (matches sid)" for before
    by (rule serves_conseq [OF serves_bind [OF serves_silent [OF acts_share [OF E] silent_share] serves_reply [OF E]]])
      (auto simp: reports_def split: if_splits intro: answered_match)
  show ?thesis unfolding answer_share_def
    by (intro serves_match_bind now last serves_match_quiet [OF acts_rotate [OF E stable_True] silent_rotate])
qed

lemma serves_refuse: "serves C params verifier cf sid (refuse_client code message e) (matches sid)"
  unfolding refuse_client_def by (intro serves_match_bind serves_match_write serves_match_lift results_of_simps)

lemma serves_if:
  "serves C params verifier cf sid m Q \<Longrightarrow> serves C params verifier cf sid m' Q \<Longrightarrow> serves C params verifier cf sid (if b then m else m') Q"
  by simp

lemma serves_loop:
  assumes E: "others_ok C params verifier cf sid E"
  shows "serves C params verifier cf sid (session_loop C cf E sid frames message_count) (matches sid)"
proof (induction frames arbitrary: message_count)
  case Nil
  have "serves C params verifier cf sid (pbind (rotate_job C cf E) (\<lambda>_. plift (Ok ()))) (matches sid)"
    by (intro serves_match_bind serves_match_lift serves_match_quiet [OF acts_rotate [OF E stable_True] silent_rotate])
  then show ?case unfolding session_loop.simps by (rule serves_stopped) (simp add: answers_match_none)
next
  case (Cons frame frames)
  have rest: "serves C params verifier cf sid (case m of
      CM_SubmitShare job_id nonce \<Rightarrow>
        pbind (answer_share C cf E sid job_id nonce) (\<lambda>_. session_loop C cf E sid frames count)
    | CM_Hello _ _ _ _ _ \<Rightarrow>
        refuse_client ''unexpected_hello'' ''hello may only be sent once'' (PL_InvalidMessage ''duplicate hello'')) (matches sid)" for m count
    by (cases m) (simp_all only: client_message.case serves_refuse serves_match_bind [OF serves_answer [OF E] Cons.IH])
  show ?case
    unfolding session_loop.simps
    by (intro serves_stopped serves_match_bind serves_match_lift serves_if serves_refuse rest
        serves_match_quiet [OF acts_rotate [OF E stable_True] silent_rotate]) (simp add: answers_match_none)
qed

lemma serves_session:
  assumes E: "others_ok C params verifier cf sid E"
  shows "serves C params verifier cf sid (run_session C cf E sid frames) (matches sid)"
  unfolding run_session_def
  by (intro serves_match_bind serves_match_write serves_loop [OF E] serves_match_quiet [OF acts_current [OF E]]
      results_of_simps) (simp add: current_job_def silent_critical)

section \<open>A running server\<close>

lemma credited_amounts:
  "credited_to (\<lambda>c. case c of SC_Accepted _ _ \<Rightarrow> 1 | SC_Rejected \<Rightarrow> 0) (\<lambda>_. True) (credits_of cf ls) = length (paid_work ls)"
  by (induction ls rule: rev_induct) (auto simp: credited_to_def credits_of_def paid_work_def split: pool_label.split)

lemma paid_work_length: "length (paid_work ls) \<le> length ls"
  by (induction ls rule: rev_induct) (auto simp: paid_work_def split: pool_label.split)

section \<open>An example\<close>

text \<open>A pool on the example node: a connection is accepted, registered, and paid for the nonce that mines the example block.\<close>

definition demo_pool_config :: pool_config where
  "demo_pool_config = \<lparr>pc_network_id = replicate 32 1, pc_consensus_fingerprint = replicate 32 22, pc_block_destination = replicate 32 9,
     pc_configured_share_target = replicate 32 255, pc_test_credit_atoms_per_share = 7, pc_max_connections = 4,
     pc_startup_nonce = replicate 32 5\<rparr>"

definition demo_mining :: mining_job where
  "demo_mining = (case build_mining_job demo_crypto demo_node (replicate 32 9) 2000 of Ok job \<Rightarrow> job | _ \<Rightarrow> demo_job (PV_V1Legacy demo_verifier))"

definition demo_server :: pool_server where
  "demo_server = \<lparr>sv_node = demo_node, sv_jobs = [issue_job demo_crypto demo_pool_config 0 (replicate 32 6) demo_mining], sv_current = 0,
     sv_next_job_sequence = 1, sv_ledger = ledger_default, sv_active_connections = 0, sv_next_session_id = 1\<rparr>"

lemma demo_mining_facts:
  "build_mining_job demo_crypto demo_node (replicate 32 9) 2000 = Ok demo_mining"
  "template_with_proof (mj_template demo_mining) demo_proof = demo_first" "mj_verifier demo_mining = PV_V1Legacy demo_verifier"
  "bt_challenge (mj_template demo_mining) = bl_challenge demo_first"
proof -
  obtain tpl where t: "build_template demo_crypto demo_node (replicate 32 9) 2000 = Ok tpl"
    "template_with_proof tpl demo_proof = demo_first" "bt_transactions tpl = []" "bt_challenge tpl = bl_challenge demo_first"
    using demo_template by blast
  have job: "build_mining_job demo_crypto demo_node (replicate 32 9) 2000 = Ok \<lparr>mj_template = tpl, mj_verifier = nd_verifier demo_node\<rparr>"
    by (simp add: build_mining_job_def t(1))
  then have m: "demo_mining = \<lparr>mj_template = tpl, mj_verifier = nd_verifier demo_node\<rparr>"
    by (simp add: demo_mining_def)
  show "build_mining_job demo_crypto demo_node (replicate 32 9) 2000 = Ok demo_mining" using job by (simp only: m)
  show "template_with_proof (mj_template demo_mining) demo_proof = demo_first" "mj_verifier demo_mining = PV_V1Legacy demo_verifier"
    "bt_challenge (mj_template demo_mining) = bl_challenge demo_first" using t by (simp_all add: m) (simp add: demo_node_def)
qed

definition demo_pool_address :: socket_addr where
  "demo_pool_address = \<lparr>sa_ip = IP_V4 0x7f000001, sa_port = 18446, sa_flowinfo = 0, sa_scope_id = 0\<rparr>"

lemma demo_private: "validate_private_address demo_pool_address = Ok ()"
  by (simp add: validate_private_address_def demo_pool_address_def v4_is_loopback_def)

lemma demo_pool_spawn:
  "spawn_pool_server demo_crypto demo_pool_address demo_pool_config demo_node (Some 2000) (Some (replicate 32 5)) (Some (replicate 32 6)) =
     Ok (demo_pool_config, demo_server)"
proof -
  have cf: "demo_pool_config\<lparr>pc_network_id := np_network_id demo_params, pc_consensus_fingerprint := replicate 32 22,
      pc_startup_nonce := replicate 32 5\<rparr> = demo_pool_config"
    by (simp add: demo_pool_config_def demo_node_def demo_params_def)
  have nd: "nd_params demo_node = demo_params" "nd_state demo_node = demo_genesis" by (simp_all add: demo_node_def)
  have d: "pc_block_destination demo_pool_config = replicate 32 9" "pc_max_connections demo_pool_config = 4"
    by (simp_all add: demo_pool_config_def)
  show ?thesis
    using demo_fingerprint(1) demo_expected
    by (simp add: spawn_pool_server_def demo_private d demo_mining_facts(1) Let_def cf demo_server_def POOL_MAX_CONNECTIONS_def demo_crypto_simps
        nd)
qed

definition demo_ledger :: ledger where
  "demo_ledger = fst (register_session 1 ''worker'' (replicate 32 9) ledger_default)"

definition demo_live :: pool_threads where
  "demo_live = \<lparr>th_waiting = 0, th_closing = 0, th_identified = [], th_live = [1]\<rparr>"

definition demo_registered :: pool_server where
  "demo_registered = demo_server\<lparr>sv_active_connections := 1, sv_next_session_id := 2, sv_ledger := demo_ledger\<rparr>"

lemma demo_worker: "validate_worker ''worker'' = Ok ()"
  by (simp add: validate_worker_def worker_char_def POOL_MAX_WORKER_BYTES_def)

lemma demo_register: "register_session 1 ''worker'' (replicate 32 9) ledger_default = (demo_ledger, Ok ())"
  "map_of (lg_sessions demo_ledger) 1 = Some (new_session ''worker'' (replicate 32 9))"
  by (simp_all add: demo_ledger_def register_session_def ledger_default_def prune_sessions.simps [of "[]"] prune_payouts_def Let_def
      POOL_MAX_LEDGER_SESSIONS_def POOL_MAX_LEDGER_PAYOUTS_def)

lemma demo_live_steps:
  "pool_steps demo_crypto demo_pool_config (no_threads, demo_server) [PL_Silent, PL_Silent, PL_Silent] (demo_live, demo_registered)"
proof -
  let ?w = "no_threads\<lparr>th_waiting := 1\<rparr>" and ?i = "no_threads\<lparr>th_identified := [(1, ''worker'', replicate 32 9)]\<rparr>"
  let ?S = "demo_server\<lparr>sv_active_connections := 1\<rparr>"
  have "pool_step demo_crypto demo_pool_config (no_threads, demo_server) PL_Silent (?w, ?S)"
    using step_accept [OF demo_private, of demo_server demo_pool_config demo_crypto no_threads]
    by (simp add: demo_server_def demo_pool_config_def no_threads_def)
  moreover have "pool_step demo_crypto demo_pool_config (?w, ?S) PL_Silent (?i, ?S\<lparr>sv_next_session_id := 2\<rparr>)"
    using step_identify [of ?w 0 "''worker''" demo_crypto "replicate 32 9" demo_pool_config ?S]
    by (simp add: demo_server_def no_threads_def demo_crypto_simps demo_worker)
  moreover have "pool_step demo_crypto demo_pool_config (?i, ?S\<lparr>sv_next_session_id := 2\<rparr>) PL_Silent (demo_live, demo_registered)"
    using step_register [of 1 "''worker''" "replicate 32 9" ?i "?S\<lparr>sv_next_session_id := 2\<rparr>" demo_ledger demo_crypto demo_pool_config]
      demo_register(1)
    by (simp add: demo_live_def no_threads_def demo_registered_def demo_server_def registered_def)
  ultimately show ?thesis using steps_more [OF steps_more [OF steps_more [OF steps_none]]] by fastforce
qed

lemma demo_typed: "typed_node demo_node" "wf_pool_config demo_pool_config" "typed_verifier (PV_V1Legacy demo_verifier)"
  by (simp_all add: typed_node_def pool_set_def demo_node_def wf_pool_config_def demo_pool_config_def typed_verifier_def
      demo_verifier_def)

lemma demo_pool_node: "node_sound demo_crypto demo_params (PV_V1Legacy demo_verifier) demo_node"
  unfolding node_sound_def using demo_node_run by blast

lemma demo_live_run:
  "pool_run demo_crypto demo_params (PV_V1Legacy demo_verifier) demo_pool_config [PL_Silent, PL_Silent, PL_Silent] (demo_live, demo_registered)"
  unfolding pool_run_def using demo_pool_node demo_typed(1,2) demo_pool_spawn demo_live_steps by blast

lemma demo_judged: "judge_share demo_crypto (sv_jobs demo_registered ! 0) 5 = Ok (SV_Share (Some demo_first))"
proof -
  let ?j = "sv_jobs demo_registered ! 0"
  have j: "aj_mining ?j = demo_mining" by (simp add: demo_registered_def demo_server_def issue_job_def Let_def)
  have t: "bc_target (bt_challenge (mj_template demo_mining)) = replicate 32 255" "pj_share_target (aj_wire ?j) = replicate 32 255"
    by (simp_all add: demo_registered_def demo_server_def issue_job_def Let_def demo_mining_facts(4) mj_challenge_def demo_first_def
        demo_mined_def demo_pool_config_def easier_target_def)
  have v: "pow_verify demo_crypto (PV_V1Legacy demo_verifier) (bl_challenge demo_first) demo_proof = Ok ()"
    using demo_mined_pow [of 1 "replicate 32 2" 2000 "[]" 0] by (simp add: demo_first_def) (simp add: demo_mined_def)
  have b: "build_block_if_chain_valid demo_crypto demo_mining demo_proof = Ok (Some demo_first)"
    unfolding chain_valid_block using demo_mining_facts(2-4) v by simp
  have "bp_nonce demo_proof = 5" "bp_work_digest demo_proof = replicate 32 24"
    by (simp_all add: bp_nonce_def bp_work_digest_def demo_proof_def)
  then have p: "proof_at demo_crypto demo_mining 5 demo_proof" and d: "bp_work_digest demo_proof = replicate 32 24"
    using v demo_mining_facts(3,4) by (simp_all add: proof_at_def pow_verify_split pow_verify_evaluation_exact)
  show ?thesis
    by (simp add: judge_share_def j t evaluate_share_def validate_share_target_def evaluate_share_at [OF p] d b
        lex_less_def lex_le_replicate)
qed

lemma demo_paid_run:
  "\<exists>S. pool_run demo_crypto demo_params (PV_V1Legacy demo_verifier) demo_pool_config
     [PL_Silent, PL_Silent, PL_Silent, PL_Paid 1 0 5 True] (demo_live, S) \<and> lg_accepted_shares (sv_ledger S) = 1"
proof -
  obtain nd where nd: "submit_block demo_crypto IO_Durable demo_node demo_first 2000 = (nd, Ok 0)" using demo_submit by blast
  have tip: "cs_tip (nd_state (sv_node demo_registered)) = job_previous (sv_jobs demo_registered ! 0)"
    by (simp add: demo_registered_def demo_server_def job_previous_def issue_job_def Let_def mj_challenge_def demo_mining_facts(4)
        demo_first_def demo_mined_def) (simp add: demo_node_def demo_genesis_def)
  have reserve: "reserve_valid_share (sv_jobs demo_registered ! 0) 5 = (x, NR_Reserved)"
    if "x = (sv_jobs demo_registered ! 0)\<lparr>aj_seen_nonces := {|5|}\<rparr>" for x
    by (simp add: that reserve_valid_share_def demo_registered_def demo_server_def issue_job_def Let_def
        POOL_MAX_SHARES_PER_JOB_def fcard_fempty)
  have S: "sv_node demo_registered = demo_node" "sv_ledger demo_registered = demo_ledger"
    by (simp_all add: demo_registered_def demo_server_def)
  have "lg_accepted_shares demo_ledger = 0"
    by (simp add: demo_ledger_def register_session_def ledger_default_def prune_sessions.simps [of "[]"] prune_payouts_def Let_def
        POOL_MAX_LEDGER_SESSIONS_def POOL_MAX_LEDGER_PAYOUTS_def)
  then obtain S' stats where pay: "commit_share demo_crypto demo_pool_config (Some 2000) IO_Durable 1 0 5 (Some demo_first) demo_registered =
      (S', Ok (CR_Credited stats))" and one: "lg_accepted_shares (sv_ledger S') = 1"
    using tip reserve [OF refl] demo_register(2) demo_worker
    by (simp add: commit_share_def S nd submit_share_block_def credit_session_def credit_accepted_share_def session_snapshot_def
        session_accepted_def new_session_def saturating_add_def Let_def)
  have "pool_step demo_crypto demo_pool_config (demo_live, demo_registered) (PL_Paid 1 0 5 True) (demo_live, S')"
    using step_pay [of 1 demo_live 0 demo_registered demo_crypto 5 "Some demo_first", OF _ _ demo_judged pay]
    by (simp add: demo_live_def demo_registered_def demo_server_def)
  then show ?thesis using pool_run_steps [OF demo_live_run pool_step_one] one by fastforce
qed

section \<open>Properties\<close>

lemma paid_once:
  assumes "server_inv C params verifier S" "paid_inv ls S"
  shows "distinct (map (\<lambda>(ptr, nonce). (job_previous (sv_jobs S ! ptr), nonce)) (paid_work ls))"
proof -
  have d: "distinct (paid_work ls)" and r: "\<And>ptr nonce. (ptr, nonce) \<in> set (paid_work ls) \<Longrightarrow> ptr < length (sv_jobs S)"
    using assms(2) by (auto simp: paid_inv_def)
  have j: "distinct (map job_previous (sv_jobs S))" using assms(1) by (simp add: server_inv_def)
  have "inj_on (\<lambda>(ptr, nonce). (job_previous (sv_jobs S ! ptr), nonce)) (set (paid_work ls))"
    by (rule inj_onI) (use j r nth_eq_iff_index_eq [OF j] in \<open>force split: prod.splits\<close>)
  then show ?thesis using d by (simp add: distinct_map)
qed

lemma snapshot_total:
  assumes "books_inv lg" shows "\<exists>snapshot. snapshot_ledger lg = Ok snapshot"
proof -
  have "\<exists>ys. omap (\<lambda>(session_id, r). session_snapshot session_id r) (lg_sessions lg) = Ok ys"
    by (rule omap_total) (use assms in \<open>auto simp: books_inv_def session_snapshot_def\<close>)
  then show ?thesis by (auto simp: snapshot_ledger_def)
qed

text \<open>C18. The pool pays no work twice. In any run of its server, whatever the connections, the rotations of jobs
  and the node do in between: two paid shares differ in their nonce or were made for different
  tips, no two jobs are for the same tip, and every paid share is work: recomputing its nonce gives a digest that meets
  the target of the job, and a proof that verifies when a block was credited.\<close>

theorem pool_pays_work_once:
  assumes "pool_run C params verifier cf ls (T, S)" "crypto_ok C" "wf_params params" "typed_verifier verifier" "length ls + 2 < 2 ^ 64"
  shows "distinct (map (\<lambda>(ptr, nonce). (job_previous (sv_jobs S ! ptr), nonce)) (paid_work ls)) \<and>
    distinct (map job_previous (sv_jobs S)) \<and>
    (\<forall>sid ptr nonce b. PL_Paid sid ptr nonce b \<in> set ls \<longrightarrow> ptr < length (sv_jobs S) \<and> share_is_work C (sv_jobs S ! ptr) nonce b)"
proof -
  have i: "server_inv C params verifier S" "paid_inv ls S" using pool_run_inv(1) [OF assms] by (simp_all add: pool_inv_def)
  obtain s where s: "pool_steps C cf s ls (T, S)" using assms(1) by (auto simp: pool_run_def)
  have "distinct (map job_previous (sv_jobs S))" using i(1) by (simp add: server_inv_def)
  then show ?thesis using paid_once [OF i] pool_steps_work [OF s] by (simp only: snd_conv) blast
qed

text \<open>C19. The books of the pool are exact. In any run the number of accepted shares is the number of shares paid; every
  total and every session on the ledger shows exactly what was credited to it (up to the largest number
  that fits), a payout address shows at least what its sessions add up to and the total at least what the addresses add up to; the
  ledger stays within its bounds, every session has an address, and taking a snapshot succeeds.\<close>

theorem pool_books_are_exact:
  assumes "pool_run C params verifier cf ls (T, S)" "crypto_ok C" "wf_params params" "typed_verifier verifier" "length ls + 2 < 2 ^ 64"
  shows "unat (lg_accepted_shares (sv_ledger S)) = length (paid_work ls) \<and> accounts_inv (credits_of cf ls) (sv_ledger S) \<and>
    books_inv (sv_ledger S) \<and> (\<exists>snapshot. snapshot_ledger (sv_ledger S) = Ok snapshot)"
proof -
  have i: "accounts_inv (credits_of cf ls) (sv_ledger S)" "books_inv (sv_ledger S)"
    using pool_run_inv(1) [OF assms] by (simp_all add: pool_inv_def)
  then have "unat (lg_accepted_shares (sv_ledger S)) = min u64_top (length (paid_work ls))"
    by (simp add: accounts_inv_def booked_def credited_amounts)
  moreover have "length (paid_work ls) \<le> u64_top" using paid_work_length [of ls] assms(5) by simp
  ultimately show ?thesis using i snapshot_total by simp
qed

text \<open>C20. A connection the pool has accepted is never turned away by its ledger: in any run, registering a connection that
  has been given a session number succeeds, although the ledger is bounded and keeps the accounts of sessions that have ended;
  the sessions being served are exactly those shown as connected, each once, and they are within the limit of connections.\<close>

theorem pool_admits_accepted_connections:
  assumes "pool_run C params verifier cf ls (T, S)" "crypto_ok C" "wf_params params" "typed_verifier verifier" "length ls + 2 < 2 ^ 64"
  shows "(\<forall>sid worker payout. snd (register_session sid worker payout (sv_ledger S)) = Ok ()) \<and>
    distinct (th_live T) \<and> length (th_live T) \<le> pc_max_connections cf \<and>
    (\<forall>sid. sid \<in> set (th_live T) \<longleftrightarrow> (\<exists>s. map_of (lg_sessions (sv_ledger S)) sid = Some s \<and> sr_connected s))"
proof -
  have i: "threads_inv cf ls T S" "books_inv (sv_ledger S)" using pool_run_inv(1) [OF assms] by (simp_all add: pool_inv_def)
  then have "live_sessions T (sv_ledger S)" "connections_counted cf T S" by (simp_all add: threads_inv_def)
  then show ?thesis
    using ledger_never_full [OF i] by (metis (no_types, lifting) connections_counted_def live_sessions_def le_add2 le_trans prod.collapse)
qed

text \<open>C21. What a session answers is what it is credited. While the session of a connection runs, together with any steps the
  other threads take in between, everything it does to the server is a sequence of the server's steps in which the session stays
  registered. Its credits, in order, are those reported by the results it has written: accepted with the nonce and the
  block as credited, or refused. When the session ends in an error, one more credit may have been made whose result was not
  written; when it ends well there is none.\<close>

theorem session_answers_match_credits:
  assumes "others_ok C params verifier cf sid E" "pool_run C params verifier cf ls (pt_threads w, pt_server w)"
    "sid \<in> set (th_live (pt_threads w))" "cn_sent w = []" "run_session C cf E sid frames w = (w', r)"
  shows "\<exists>ms. pool_run C params verifier cf (ls @ ms) (pt_threads w', pt_server w') \<and> sid \<in> set (th_live (pt_threads w')) \<and>
    answers_match sid (r = Ok ()) (cn_sent w') (of_session sid ms)"
proof -
  obtain ms sent where s: "pool_steps C cf (pt_threads w, pt_server w) ms (pt_threads w', pt_server w')" "sid \<in> set (th_live (pt_threads w'))"
    "cn_sent w' = cn_sent w @ sent" "matches sid (value_of r) sent (of_session sid ms)"
    using serves_session [OF assms(1), of frames] assms(2,3,5) unfolding serves_def by blast
  moreover have "(value_of r \<noteq> None) = (r = Ok ())" by (cases r) (simp_all add: value_of_def)
  ultimately have "answers_match sid (r = Ok ()) (cn_sent w') (of_session sid ms)" using assms(4) by simp
  then show ?thesis using pool_run_steps [OF assms(2) s(1)] s(2) by blast
qed

lemma demo_wf_params: "wf_params demo_params"
  by (simp add: wf_params_def demo_params_def wf_pow_parameters_def demo_verifier_def demo_profile_def)

theorem pool_pays_work_once_witness:
  "\<exists>S :: pool_server. paid_work [PL_Silent, PL_Silent, PL_Silent, PL_Paid 1 0 5 True] = [(0, 5)] \<and> share_is_work demo_crypto (sv_jobs S ! 0) 5 True"
proof -
  obtain S where "pool_run demo_crypto demo_params (PV_V1Legacy demo_verifier) demo_pool_config
     [PL_Silent, PL_Silent, PL_Silent, PL_Paid 1 0 5 True] (demo_live, S)" using demo_paid_run by blast
  from pool_pays_work_once [OF this crypto_ok_demo demo_wf_params demo_typed(3)]
  have "share_is_work demo_crypto (sv_jobs S ! 0) 5 True" by auto
  then show ?thesis by (auto simp: paid_work_def)
qed

theorem pool_books_are_exact_witness:
  "\<exists>lg. unat (lg_accepted_shares lg) = 1 \<and> accounts_inv [(1, SC_Accepted True 7)] lg \<and> books_inv lg \<and>
     (\<exists>snapshot. snapshot_ledger lg = Ok snapshot)"
proof -
  obtain S where "pool_run demo_crypto demo_params (PV_V1Legacy demo_verifier) demo_pool_config
     [PL_Silent, PL_Silent, PL_Silent, PL_Paid 1 0 5 True] (demo_live, S)" using demo_paid_run by blast
  from pool_books_are_exact [OF this crypto_ok_demo demo_wf_params demo_typed(3)] show ?thesis
    by (auto simp: paid_work_def credits_of_def demo_pool_config_def)
qed

theorem pool_admits_accepted_connections_witness:
  "snd (register_session 2 ''worker'' (replicate 32 9) demo_ledger) = Ok () \<and>
     (\<exists>s. map_of (lg_sessions demo_ledger) 1 = Some s \<and> sr_connected s)"
  using pool_admits_accepted_connections [OF demo_live_run crypto_ok_demo demo_wf_params demo_typed(3)]
  by (auto simp: demo_live_def demo_registered_def)

text \<open>While the session runs, another connection is accepted before its third step and takes a session number
  before its fifth.\<close>

definition demo_others :: "nat \<Rightarrow> pool_threads \<times> pool_server \<Rightarrow> pool_threads \<times> pool_server" where
  "demo_others n = (\<lambda>(T, S).
     if n = 3 \<and> sv_active_connections S < 4 then
       (T\<lparr>th_waiting := Suc (th_waiting T)\<rparr>, S\<lparr>sv_active_connections := Suc (sv_active_connections S)\<rparr>)
     else if n = 5 \<and> th_waiting T \<noteq> 0 then
       (T\<lparr>th_waiting := th_waiting T - 1, th_identified := (sv_next_session_id S, ''worker'', replicate 32 9) # th_identified T\<rparr>,
        S\<lparr>sv_next_session_id := sv_next_session_id S + 1\<rparr>)
     else (T, S))"

definition demo_pool_environment :: pool_environment where
  "demo_pool_environment = \<lparr>pe_clock = \<lambda>_. Some 2000, pe_random = \<lambda>_. Some (replicate 32 8), pe_append = \<lambda>_. IO_Durable,
     pe_others = demo_others, pe_poisoned = \<lambda>_. False, pe_stopped = \<lambda>_. False\<rparr>"

lemma demo_others_steps:
  "\<exists>ms. pool_steps demo_crypto demo_pool_config (T, S) ms (demo_others n (T, S)) \<and> of_session sid ms = []"
proof -
  have "demo_others n (T, S) = (T, S) \<or> pool_step demo_crypto demo_pool_config (T, S) PL_Silent (demo_others n (T, S))"
    using step_accept [OF demo_private, of S demo_pool_config demo_crypto T]
      step_identify [of T "th_waiting T - 1" "''worker''" demo_crypto "replicate 32 9" demo_pool_config S]
    by (simp add: demo_others_def demo_pool_config_def demo_worker demo_crypto_simps)
  then show ?thesis
  proof
    assume "demo_others n (T, S) = (T, S)"
    then show ?thesis by (intro exI [of _ "[]"]) (simp add: steps_none)
  next
    assume "pool_step demo_crypto demo_pool_config (T, S) PL_Silent (demo_others n (T, S))"
    from pool_step_one [OF this] show ?thesis by (intro exI [of _ "[PL_Silent]"]) (simp add: label_session_def)
  qed
qed

theorem session_answers_match_credits_witness:
  "\<exists>w' r ms. run_session demo_crypto demo_pool_config demo_pool_environment 1
      [Ok (CM_SubmitShare (pj_job_id (aj_wire (current_active demo_registered))) 5), Err PL_ConnectionClosed]
      \<lparr>pt_threads = demo_live, pt_server = demo_registered, pt_tick = 0, cn_sent = [], cn_writable = 9\<rparr> = (w', r) \<and>
    pool_run demo_crypto demo_params (PV_V1Legacy demo_verifier) demo_pool_config ([PL_Silent, PL_Silent, PL_Silent] @ ms)
      (pt_threads w', pt_server w') \<and>
    answers_match 1 (r = Ok ()) (cn_sent w') (of_session 1 ms)"
proof -
  have E: "others_ok demo_crypto demo_params (PV_V1Legacy demo_verifier) demo_pool_config 1 demo_pool_environment"
    using demo_others_steps by (simp add: others_ok_def demo_pool_environment_def)
  let ?w = "\<lparr>pt_threads = demo_live, pt_server = demo_registered, pt_tick = 0, cn_sent = [], cn_writable = 9\<rparr>"
  have run: "pool_run demo_crypto demo_params (PV_V1Legacy demo_verifier) demo_pool_config [PL_Silent, PL_Silent, PL_Silent]
      (pt_threads ?w, pt_server ?w)" using demo_live_run by simp
  have live: "1 \<in> set (th_live (pt_threads ?w))" "cn_sent ?w = []" by (simp_all add: demo_live_def)
  obtain w' r where "run_session demo_crypto demo_pool_config demo_pool_environment 1
      [Ok (CM_SubmitShare (pj_job_id (aj_wire (current_active demo_registered))) 5), Err PL_ConnectionClosed] ?w = (w', r)" by fastforce
  with session_answers_match_credits [OF E run live this] show ?thesis by blast
qed

end
