(* ===== verification/Spec2Isabelle.thy ===== *)
theory Spec2Isabelle
  imports CF_Sumcheck CF_V2_Oracle CF_Sync CF_Mining CF_Wallet CF_P2p_Calls CF_Pool_Service
begin

text \<open>
  CommonFoundry: a proof-of-work chain whose work is a chain of small integer matrix products, with
  an inference marketplace settled through payment channels. This development models the consensus
  crate, the marketplace crate, and of the node its chain, pool of transactions, log, mining, wallet,
  peer protocol and mining pool, and proves the properties that make them correct. All models are top-level functions over
  records and datatypes and can be evaluated.

  \<^bold>\<open>Parts of the program and how they interact.\<close> A node (\<open>crates/cmfd-node/src/lib.rs\<close>) keeps a chain
  state, an index of every validated block, a pool of transactions and an append-only log. A block
  is encoded (\<open>wire.rs\<close>), validated against the chain state of its parent (\<open>chain.rs\<close>), appended to
  the log, indexed, and becomes the tip if its branch has more cumulative work (\<open>difficulty.rs\<close>).
  Validation checks the proof of work (\<open>pow.rs\<close>, which dispatches to \<open>forgematrix.rs\<close> and
  \<open>forgematrix_v2.rs\<close>; the model bytes of the latter come from \<open>model_bank.rs\<close>), the difficulty and time
  rules (\<open>network.rs\<close>), the coinbase (\<open>economics.rs\<close>), and applies every transaction to an overlay of
  the unspent outputs. Transactions may open and close payment channels, whose terms, states and
  settlements are those of \<open>crates/cmfd-marketplace/src/lib.rs\<close>. Nodes exchange blocks and transactions
  through framed messages (\<open>peer.rs\<close>) over connections that pull, relay and serve (\<open>p2p.rs\<close>). A node can run a
  mining pool (\<open>pool.rs\<close>): its server hands out jobs of the node, checks the shares that clients submit
  and credits them in a ledger.

  \<^bold>\<open>Theories.\<close>
  \<^item> \<open>CF_Prelude\<close>: words, checked arithmetic, byte strings, and \<open>outcome\<close>, the result of code that
    returns a value, returns an error, panics or does not return.
  \<^item> \<open>CF_Codec\<close>, \<open>CF_Pow_Interface\<close>: the interfaces \<open>prefix_code\<close> (an encoding read in one way only)
    and \<open>pow_scheme\<close> (prove, verify and mine belong together), stated as locales and interpreted on
    the encoders of \<open>CF_Types\<close> and on both proof-of-work generations.
  \<^item> \<open>CF_Economics\<close> (\<open>economics.rs\<close>): \<open>mp_validate\<close>, \<open>subsidy\<close>, \<open>mp_allocation\<close>, the closed form of the
    supply. Shown: the closed form is the sum of all subsidies, the split is exact, nothing overflows.
  \<^item> \<open>CF_Difficulty\<close> (\<open>difficulty.rs\<close>): \<open>block_work\<close>, \<open>add_chain_work\<close>, \<open>next_work_target\<close>. Shown: the
    fixed-width code computes the natural-number rule and moves at most threefold.
  \<^item> \<open>CF_Marketplace\<close>: \<open>ct_validate\<close>, \<open>verify_state\<close>, \<open>next_state\<close>, \<open>settlement_close\<close>,
    \<open>settlement_verify\<close>. Shown: an accepted state splits the whole deposit at the quoted price,
    a settlement is exact and signed by both, the initial state settles, and \<open>next_state\<close> follows
    only the initial state.
  \<^item> \<open>CF_Model_Bank\<close> (\<open>model_bank.rs\<close>): writer and streaming verifier over a reader that may fail.
    Shown: the verifier accepts exactly the canonical bank of the trusted manifest.
  \<^item> \<open>CF_ForgeMatrix\<close> (\<open>forgematrix.rs\<close>), \<open>CF_ForgeMatrix_V2\<close> and \<open>CF_V2_Oracle\<close> (\<open>forgematrix_v2.rs\<close>),
    \<open>CF_Pow\<close> (\<open>pow.rs\<close>): models, provers, verifiers, miners, accelerator batches. Shown: the activation
    loop is a matrix chain without wrap-around, verifiers accept exactly what provers build,
    mining finds a nonce exactly when one exists, sampling ends, and accelerators are not trusted.
  \<^item> \<open>CF_Types\<close>, \<open>CF_Limits\<close>, \<open>CF_Network\<close> (\<open>chain.rs\<close>, \<open>network.rs\<close>): transactions, coinbases, blocks, their
    digests and the parameters with their fingerprint. Shown: what is hashed identifies its object.
  \<^item> \<open>CF_Stream\<close>, \<open>CF_Wire\<close>, \<open>CF_Wire_Objects\<close> (\<open>wire.rs\<close>): bounded writer and reader, the locale
    \<open>wire_codec\<close>, and the codecs. Shown: decoders accept exactly the encodings and never panic.
  \<^item> \<open>CF_Ledger\<close>, \<open>CF_Transactions\<close>, \<open>CF_Blocks\<close>, \<open>CF_Chain\<close> (\<open>chain.rs\<close>): the unspent outputs with their
    overlay (locale \<open>staged_map\<close>), \<open>apply_transaction\<close>, \<open>validate_delta\<close>, \<open>validate_block\<close>,
    \<open>commit_validated\<close>. \<open>chain_run\<close> is the relation of the states that accepted blocks lead to.
    Shown: value is conserved and accounted for along every run, every input is spent once and
    authorised, validated blocks commit once, and templates made of validated transactions are
    accepted.
  \<^item> \<open>CF_Fork\<close>, \<open>CF_Mempool\<close>, \<open>CF_Records\<close>, \<open>CF_Node\<close> (\<open>crates/cmfd-node/src/lib.rs\<close>): \<open>BlockIndex\<close>,
    \<open>prepare_block\<close>, \<open>commit_prepared\<close>; pool admission and revalidation; the record log; the node's
    operations. \<open>fork_run\<close> and \<open>node_run\<close> are the reachable states. Shown: the active chain has the
    most work and replays to the active state, a log is accepted exactly when it was written by a
    run, a restart restores the node, submission is atomic also when storage fails, the pool can
    always be mined, and a mined template becomes the tip.
  \<^item> \<open>CF_Sync\<close>, \<open>CF_Mining\<close>, \<open>CF_Wallet\<close> (\<open>crates/cmfd-node/src/lib.rs\<close>): locators and inventories exchanged
    with peers; mining jobs, bounded searches and pool shares; amounts, coin selection, payments and
    consolidations. Shown: what a peer is offered connects to what it has, searches are exact and
    accelerators change nothing but speed, a found block becomes the tip, coin selection is optimal,
    and the wallet spends exactly what it was asked to.
  \<^item> \<open>CF_Sumcheck\<close> (\<open>sumcheck.rs\<close>): the Goldilocks field, the transcript, prover and verifier of a matrix
    product, independent of consensus. Shown: an honest product is accepted, and an accepted product
    is exact modulo the field's prime unless a challenge of the transcript is a root of a nonzero
    polynomial of degree one or two. A product of integers that is wrong by a multiple of the prime is
    accepted.
  \<^item> \<open>CF_Peer\<close> (\<open>crates/cmfd-node/src/peer.rs\<close>): messages and frames, limits, addresses, the session's state
    machine and the download planner. Shown: frames are read back, a session keeps its invariant and
    its budget, only matching peers get past the handshake, and frames are delivered in order.
  \<^item> \<open>CF_P2p\<close>, \<open>CF_P2p_Honest\<close>, \<open>CF_P2p_Calls\<close> (\<open>crates/cmfd-node/src/p2p.rs\<close>): connections over sockets that may
    cut, delay or fail, pulling from a peer, relaying, serving and thin mining. Shown: whatever the peer
    sends, the node is changed by submissions only, the default budget suffices for one exchange, and
    a pull from a peer that follows the protocol runs to its report.
  \<^item> \<open>CF_Pool_Ledger\<close> (\<open>crates/cmfd-node/src/pool.rs\<close>): the ledger of sessions and payout addresses with the
    eviction of old records, and the credits (locale \<open>ledger_counter\<close> for the counters kept at three
    levels). \<open>CF_Progress\<close>: along the operations of a node the work of its chain grows, so that a tip that was
    left does not come back. \<open>CF_Pool\<close>: \<open>spawn_pool_server\<close>, jobs and their rotation, \<open>process_share\<close>,
    \<open>handle_connection\<close>, and \<open>pool_step\<close>, the steps of all threads of the server. \<open>CF_Pool_Run\<close>: the invariant of a
    run, and what one session does among the others. \<open>CF_Pool_Service\<close>: the properties. Shown: no work is paid twice and what
    is paid is work, the books show exactly what was credited, an accepted connection is not turned away, and
    a session reports what it was credited.

  \<^bold>\<open>State and effects.\<close> A Rust struct is a record, an enum a datatype, a hash map a finite map or a
  list ordered by key, a method that mutates its receiver a function returning the new state. The
  log is the list of its bytes; \<open>append_io\<close> says what the file system does with an append. Time is
  an argument, as it is in the code. A socket is the list of the events its next reads and writes
  meet. A node shared between threads is met in whatever state the other threads leave it: each time
  a lock is taken, the \<open>environment\<close> first applies the node operations it chooses. In the same way the
  other threads of the pool's server take any steps of \<open>pool_step\<close> before each section of a session; they are
  given as a function of the whole state and of how far the session is.

  \<^bold>\<open>Parameters.\<close> BLAKE3 and the Schnorr scheme are outside the repository: the record \<open>crypto\<close> holds
  them and \<open>crypto_ok\<close> states digest and key lengths and that a signature made with a key verifies.
  Theorems about what is hashed have a collision as an alternative in their conclusion. Theorems that
  a new block is accepted assume that its identifiers are new: \<open>new_to\<close> in \<open>mined_job_becomes_tip\<close> and
  \<open>fresh_txid\<close> in \<open>validated_template_is_accepted\<close>, as the code assumes of its digests.

  \<^bold>\<open>Bounds and termination.\<close> Loops over counted ranges are structural recursions or have a measure:
  the walk to genesis is bounded by the number of indexed blocks, as in the code; the replay of a
  log and the serving of a peer by the bytes left. Only the rejection sampling of masks may run forever; its loop returns
  \<open>Diverge\<close> in that case and is shown to return under a stated assumption on the hash.

  \<^bold>\<open>Not modelled.\<close> The JSON and HTTP service of the node, the history view of its wallet, peer statistics,
  lock and key files, and the threads of its listener and poller; of the pool its certificates and
  encryption, the text of its messages, the starting and joining of its threads, its client side and
  the mining loop of the client; command-line programs, the CUDA binding and kernels, and the desktop application. These are input and output around the
  operations above.
\<close>

end
